(* ===== verification/Prelude.thy ===== *)
theory Prelude
  imports Main "HOL-Library.Word" "HOL-Library.Sublist"
begin

text \<open>
  Shared vocabulary of the development: bytes and JavaScript strings, results that may be an
  error, and the arithmetic of bytes the components need.

  \<^item> A \<open>Uint8Array\<close> element is a \<open>byte\<close> (an 8-bit word): a store truncates, as the
    conversion \<open>word_of_nat\<close> does.
  \<^item> A JavaScript string is the list of its UTF-16 code units, \<open>jsstr\<close>; \<open>js\<close> writes
    an ASCII literal.
  \<^item> A function that may throw returns \<open>Inl\<close> of an error or \<open>Inr\<close> of its result; \<open>bindE\<close>
    passes an error on, as an exception does.
\<close>

type_synonym byte = "8 word"
type_synonym jschar = "16 word"
type_synonym jsstr = "jschar list"

definition js :: "string \<Rightarrow> jsstr" where
  "js s = map of_char s"

named_theorems result_simps "how an error result passes through a sequence of calls"

subsection \<open>Results\<close>

definition bindE :: "'e + 'a \<Rightarrow> ('a \<Rightarrow> 'e + 'b) \<Rightarrow> 'e + 'b" where
  "bindE m f = (case m of Inl e \<Rightarrow> Inl e | Inr x \<Rightarrow> f x)"

lemma bindE_Inl [simp, result_simps]: "bindE (Inl e) f = Inl e"
  by (simp add: bindE_def)

lemma bindE_Inr [simp, result_simps]: "bindE (Inr x) f = f x"
  by (simp add: bindE_def)

lemma bindE_eq_Inr [result_simps]: "bindE m f = Inr y \<longleftrightarrow> (\<exists>x. m = Inr x \<and> f x = Inr y)"
  by (cases m) auto

lemma bindE_eq_Inl [result_simps]:
  "bindE m f = Inl e \<longleftrightarrow> m = Inl e \<or> (\<exists>x. m = Inr x \<and> f x = Inl e)"
  by (cases m) auto

lemma bindE_cong [fundef_cong]:
  "m = m' \<Longrightarrow> (\<And>x. m' = Inr x \<Longrightarrow> f x = g x) \<Longrightarrow> bindE m f = bindE m' g"
  by (cases m') auto

text \<open>\<open>Array.prototype.map\<close> with a callback that may throw: the first error ends it.\<close>

fun mapE :: "('a \<Rightarrow> 'e + 'b) \<Rightarrow> 'a list \<Rightarrow> 'e + 'b list" where
  "mapE f [] = Inr []"
| "mapE f (x # xs) = bindE (f x) (\<lambda>y. bindE (mapE f xs) (\<lambda>ys. Inr (y # ys)))"

lemma mapE_cong [fundef_cong]:
  "xs = ys \<Longrightarrow> (\<And>x. x \<in> set ys \<Longrightarrow> f x = g x) \<Longrightarrow> mapE f xs = mapE g ys"
  by (induction ys arbitrary: xs) auto

lemma mapE_Inr: "mapE f xs = Inr ys \<Longrightarrow> list_all2 (\<lambda>x y. f x = Inr y) xs ys"
  by (induction xs arbitrary: ys) (auto simp: bindE_eq_Inr)

lemma mapE_map: "\<forall>x \<in> set xs. f x = Inr (g x) \<Longrightarrow> mapE f xs = Inr (map g xs)"
  by (induction xs) auto

subsection \<open>Bytes as numbers\<close>

lemma unat_byte_less [simp]: "unat (b :: byte) < 256"
proof -
  have "unat b < 2 ^ LENGTH(8)" by (rule unsigned_less)
  then show ?thesis by simp
qed

lemma unat_byte_le [simp]: "unat (b :: byte) \<le> 255"
  using unat_byte_less [of b] by linarith

lemma unat_word_of_nat_byte: "unat (word_of_nat n :: byte) = n mod 256"
  by (simp add: unat_of_nat)

lemma unat_byte_of_small [simp]: "n < 256 \<Longrightarrow> unat (word_of_nat n :: byte) = n"
  by (simp add: unat_of_nat)

lemma word_of_nat_unat_byte [simp]: "(word_of_nat (unat b) :: byte) = b"
  by simp

subsection \<open>Numbers\<close>

text \<open>
  A \<open>Number\<close>, as far as the code looks at it: an integer part, rounded down, and whether it is whole; the
  infinities, by whether they are negative.
\<close>

datatype js_number = NaN | Infinite bool | Finite int bool

subsection \<open>Interfaces: self-delimiting encodings\<close>

text \<open>
  Most wire formats of the runtime are written by one function and read by another that is handed
  the rest of the buffer. The contract of such a pair: what was written is read back, and
  reading stops where the writing stopped.
\<close>

locale framed =
  fixes put :: "'a \<Rightarrow> 'b list"
    and get :: "'b list \<Rightarrow> 'e + ('a \<times> 'b list)"
    and ok :: "'a \<Rightarrow> bool"
  assumes get_put: "ok x \<Longrightarrow> get (put x @ rest) = Inr (x, rest)"
begin

lemma get_put_end: "ok x \<Longrightarrow> get (put x) = Inr (x, [])"
  using get_put [of x "[]"] by simp

text \<open>Two encodings never overlap: the written values are a prefix code.\<close>

lemma put_prefix_free:
  assumes "ok x" and "ok y" and "put x @ r = put y @ s"
  shows "x = y \<and> r = s"
proof -
  have "get (put x @ r) = Inr (x, r)" and "get (put y @ s) = Inr (y, s)"
    using get_put assms(1,2) by auto
  then have "Inr (x, r) = (Inr (y, s) :: 'e + ('a \<times> 'b list))"
    unfolding assms(3) by (rule trans [OF sym])
  then show ?thesis by simp
qed

lemma put_concat_inj:
  assumes "\<forall>x \<in> set xs. ok x" and "\<forall>y \<in> set ys. ok y"
    and "\<forall>x. ok x \<longrightarrow> put x \<noteq> []"
    and "concat (map put xs) = concat (map put ys)"
  shows "xs = ys"
  using assms
proof (induction xs arbitrary: ys)
  case Nil
  have "ys = []"
  proof (cases ys)
    case (Cons y ys')
    with Nil have "ok y" and "put y = []" by simp_all
    with Nil show ?thesis by simp
  qed
  then show ?case by simp
next
  case (Cons x xs)
  have "ys \<noteq> []"
    using Cons.prems by auto
  then obtain y ys' where ys: "ys = y # ys'"
    by (cases ys) simp_all
  with Cons.prems have eq: "put x @ concat (map put xs) = put y @ concat (map put ys')"
    by simp
  have "x = y \<and> concat (map put xs) = concat (map put ys')"
    by (rule put_prefix_free [OF _ _ eq]) (use Cons.prems ys in simp_all)
  moreover from this have "xs = ys'"
    using Cons.prems ys by (intro Cons.IH) simp_all
  ultimately show ?case using ys by simp
qed

end

subsection \<open>Big-endian and little-endian numbers\<close>

definition be_val :: "byte list \<Rightarrow> nat" where
  "be_val bs = foldl (\<lambda>a b. a * 256 + unat b) 0 bs"

fun be_bytes :: "nat \<Rightarrow> nat \<Rightarrow> byte list" where
  "be_bytes 0 v = []"
| "be_bytes (Suc k) v = be_bytes k (v div 256) @ [word_of_nat v]"

definition le_val :: "byte list \<Rightarrow> nat" where
  "le_val bs = foldr (\<lambda>b a. unat b + 256 * a) bs 0"

fun le_bytes :: "nat \<Rightarrow> nat \<Rightarrow> byte list" where
  "le_bytes 0 v = []"
| "le_bytes (Suc k) v = word_of_nat v # le_bytes k (v div 256)"

lemma be_val_Nil [simp]: "be_val [] = 0"
  by (simp add: be_val_def)

lemma be_val_snoc [simp]: "be_val (bs @ [b]) = be_val bs * 256 + unat b"
  by (simp add: be_val_def)

lemma length_be_bytes [simp]: "length (be_bytes k v) = k"
  by (induction k arbitrary: v) simp_all

lemma length_le_bytes [simp]: "length (le_bytes k v) = k"
  by (induction k arbitrary: v) simp_all

lemma be_bytes_rev: "be_bytes k v = rev (le_bytes k v)"
  by (induction k arbitrary: v) simp_all

lemma be_val_rev: "be_val (rev bs) = le_val bs"
  by (induction bs) (simp_all add: le_val_def)

lemma le_val_simps [simp]: "le_val [] = 0" "le_val (b # bs) = unat b + 256 * le_val bs"
  by (simp_all add: le_val_def)

lemma le_val_le_bytes: "le_val (le_bytes k v) = v mod 256 ^ k"
proof (induction k arbitrary: v)
  case (Suc k)
  have "v mod (256 * 256 ^ k) = 256 * (v div 256 mod 256 ^ k) + v mod 256"
    by (rule mod_mult2_eq)
  with Suc show ?case by (simp add: unat_word_of_nat_byte)
qed simp

lemma le_bytes_le_val: "le_bytes (length bs) (le_val bs) = bs"
proof (induction bs)
  case (Cons b bs)
  have "(word_of_nat (unat b + 256 * le_val bs) :: byte) = b"
    by (simp only: word_unat_eq_iff unat_word_of_nat_byte) simp
  moreover have "(unat b + 256 * le_val bs) div 256 = le_val bs"
    using unat_byte_less [of b] by simp
  ultimately show ?case using Cons by simp
qed simp

lemma le_val_bound: "le_val bs < 256 ^ length bs"
proof (induction bs)
  case (Cons b bs)
  then show ?case using unat_byte_less [of b] by (simp del: unat_byte_less)
qed simp

lemma be_val_be_bytes [simp]: "be_val (be_bytes k v) = v mod 256 ^ k"
  by (simp add: be_bytes_rev be_val_rev le_val_le_bytes)

lemma be_bytes_be_val: "length bs = k \<Longrightarrow> be_bytes k (be_val bs) = bs"
  using le_bytes_le_val [of "rev bs"] be_val_rev [of "rev bs"] by (simp add: be_bytes_rev)

lemma be_val_bound: "be_val bs < 256 ^ length bs"
  using le_val_bound [of "rev bs"] be_val_rev [of "rev bs"] by simp

subsection \<open>Codes that carry their own end\<close>

text \<open>Codes that carry their own end: what follows a code cannot change how it is read.\<close>

locale self_delimiting =
  fixes enc :: "'a \<Rightarrow> 'b list" and valid :: "'a \<Rightarrow> bool"
  assumes delimits: "valid x \<Longrightarrow> valid y \<Longrightarrow> enc x @ r = enc y @ s \<Longrightarrow> x = y \<and> r = s"
begin

lemma delimits_sequence:
  "\<forall>x \<in> set xs. valid x \<Longrightarrow> \<forall>y \<in> set ys. valid y \<Longrightarrow> length xs = length ys \<Longrightarrow>
   concat (map enc xs) @ r = concat (map enc ys) @ s \<Longrightarrow> xs = ys \<and> r = s"
proof (induction xs arbitrary: ys)
  case (Cons x xs)
  then obtain y zs where ys: "ys = y # zs" by (cases ys) simp_all
  have "enc x @ (concat (map enc xs) @ r) = enc y @ (concat (map enc zs) @ s)" using Cons.prems(4) ys by simp
  then have "x = y \<and> concat (map enc xs) @ r = concat (map enc zs) @ s"
    using Cons.prems(1,2) ys by (intro delimits) simp_all
  with Cons.IH [of zs] Cons.prems(1-3) ys show ?case by auto
qed simp

lemma enc_inject: "valid x \<Longrightarrow> valid y \<Longrightarrow> enc x = enc y \<Longrightarrow> x = y"
  using delimits [of x y "[]" "[]"] by simp

end

sublocale framed \<subseteq> delimited: self_delimiting put ok
  by unfold_locales (rule put_prefix_free)

end
