(* ===== verification/Http2Data.thy ===== *)
theory Http2Data
  imports Prelude
begin

text \<open>
  The data tables of \<open>quickjs/runtime/node-http2-data.js\<close>: the HPACK static table, the HPACK
  Huffman code and the constants that Node exposes as \<open>http2.constants\<close>.
\<close>

subsection \<open>The HPACK static table\<close>

definition HPACK_STATIC :: "(jsstr \<times> jsstr) list" where
  "HPACK_STATIC = map (\<lambda>(n, v). (js n, js v)) [
    ('':authority'', ''''),
    ('':method'', ''GET''),
    ('':method'', ''POST''),
    ('':path'', ''/''),
    ('':path'', ''/index.html''),
    ('':scheme'', ''http''),
    ('':scheme'', ''https''),
    ('':status'', ''200''),
    ('':status'', ''204''),
    ('':status'', ''206''),
    ('':status'', ''304''),
    ('':status'', ''400''),
    ('':status'', ''404''),
    ('':status'', ''500''),
    (''accept-charset'', ''''),
    (''accept-encoding'', ''gzip, deflate''),
    (''accept-language'', ''''),
    (''accept-ranges'', ''''),
    (''accept'', ''''),
    (''access-control-allow-origin'', ''''),
    (''age'', ''''),
    (''allow'', ''''),
    (''authorization'', ''''),
    (''cache-control'', ''''),
    (''content-disposition'', ''''),
    (''content-encoding'', ''''),
    (''content-language'', ''''),
    (''content-length'', ''''),
    (''content-location'', ''''),
    (''content-range'', ''''),
    (''content-type'', ''''),
    (''cookie'', ''''),
    (''date'', ''''),
    (''etag'', ''''),
    (''expect'', ''''),
    (''expires'', ''''),
    (''from'', ''''),
    (''host'', ''''),
    (''if-match'', ''''),
    (''if-modified-since'', ''''),
    (''if-none-match'', ''''),
    (''if-range'', ''''),
    (''if-unmodified-since'', ''''),
    (''last-modified'', ''''),
    (''link'', ''''),
    (''location'', ''''),
    (''max-forwards'', ''''),
    (''proxy-authenticate'', ''''),
    (''proxy-authorization'', ''''),
    (''range'', ''''),
    (''referer'', ''''),
    (''refresh'', ''''),
    (''retry-after'', ''''),
    (''server'', ''''),
    (''set-cookie'', ''''),
    (''strict-transport-security'', ''''),
    (''transfer-encoding'', ''''),
    (''user-agent'', ''''),
    (''vary'', ''''),
    (''via'', ''''),
    (''www-authenticate'', '''')]"

lemma length_HPACK_STATIC [simp]: "length HPACK_STATIC = 61"
  by (simp add: HPACK_STATIC_def)

subsection \<open>The HPACK Huffman code\<close>

definition HUFFMAN_CODES :: "nat list" where
  "HUFFMAN_CODES = [
    0x1ff8, 0x7fffd8, 0xfffffe2, 0xfffffe3, 0xfffffe4, 0xfffffe5, 0xfffffe6, 0xfffffe7,
    0xfffffe8, 0xffffea, 0x3ffffffc, 0xfffffe9, 0xfffffea, 0x3ffffffd, 0xfffffeb, 0xfffffec,
    0xfffffed, 0xfffffee, 0xfffffef, 0xffffff0, 0xffffff1, 0xffffff2, 0x3ffffffe, 0xffffff3,
    0xffffff4, 0xffffff5, 0xffffff6, 0xffffff7, 0xffffff8, 0xffffff9, 0xffffffa, 0xffffffb,
    0x14, 0x3f8, 0x3f9, 0xffa, 0x1ff9, 0x15, 0xf8, 0x7fa,
    0x3fa, 0x3fb, 0xf9, 0x7fb, 0xfa, 0x16, 0x17, 0x18,
    0x0, 0x1, 0x2, 0x19, 0x1a, 0x1b, 0x1c, 0x1d,
    0x1e, 0x1f, 0x5c, 0xfb, 0x7ffc, 0x20, 0xffb, 0x3fc,
    0x1ffa, 0x21, 0x5d, 0x5e, 0x5f, 0x60, 0x61, 0x62,
    0x63, 0x64, 0x65, 0x66, 0x67, 0x68, 0x69, 0x6a,
    0x6b, 0x6c, 0x6d, 0x6e, 0x6f, 0x70, 0x71, 0x72,
    0xfc, 0x73, 0xfd, 0x1ffb, 0x7fff0, 0x1ffc, 0x3ffc, 0x22,
    0x7ffd, 0x3, 0x23, 0x4, 0x24, 0x5, 0x25, 0x26,
    0x27, 0x6, 0x74, 0x75, 0x28, 0x29, 0x2a, 0x7,
    0x2b, 0x76, 0x2c, 0x8, 0x9, 0x2d, 0x77, 0x78,
    0x79, 0x7a, 0x7b, 0x7ffe, 0x7fc, 0x3ffd, 0x1ffd, 0xffffffc,
    0xfffe6, 0x3fffd2, 0xfffe7, 0xfffe8, 0x3fffd3, 0x3fffd4, 0x3fffd5, 0x7fffd9,
    0x3fffd6, 0x7fffda, 0x7fffdb, 0x7fffdc, 0x7fffdd, 0x7fffde, 0xffffeb, 0x7fffdf,
    0xffffec, 0xffffed, 0x3fffd7, 0x7fffe0, 0xffffee, 0x7fffe1, 0x7fffe2, 0x7fffe3,
    0x7fffe4, 0x1fffdc, 0x3fffd8, 0x7fffe5, 0x3fffd9, 0x7fffe6, 0x7fffe7, 0xffffef,
    0x3fffda, 0x1fffdd, 0xfffe9, 0x3fffdb, 0x3fffdc, 0x7fffe8, 0x7fffe9, 0x1fffde,
    0x7fffea, 0x3fffdd, 0x3fffde, 0xfffff0, 0x1fffdf, 0x3fffdf, 0x7fffeb, 0x7fffec,
    0x1fffe0, 0x1fffe1, 0x3fffe0, 0x1fffe2, 0x7fffed, 0x3fffe1, 0x7fffee, 0x7fffef,
    0xfffea, 0x3fffe2, 0x3fffe3, 0x3fffe4, 0x7ffff0, 0x3fffe5, 0x3fffe6, 0x7ffff1,
    0x3ffffe0, 0x3ffffe1, 0xfffeb, 0x7fff1, 0x3fffe7, 0x7ffff2, 0x3fffe8, 0x1ffffec,
    0x3ffffe2, 0x3ffffe3, 0x3ffffe4, 0x7ffffde, 0x7ffffdf, 0x3ffffe5, 0xfffff1, 0x1ffffed,
    0x7fff2, 0x1fffe3, 0x3ffffe6, 0x7ffffe0, 0x7ffffe1, 0x3ffffe7, 0x7ffffe2, 0xfffff2,
    0x1fffe4, 0x1fffe5, 0x3ffffe8, 0x3ffffe9, 0xffffffd, 0x7ffffe3, 0x7ffffe4, 0x7ffffe5,
    0xfffec, 0xfffff3, 0xfffed, 0x1fffe6, 0x3fffe9, 0x1fffe7, 0x1fffe8, 0x7ffff3,
    0x3fffea, 0x3fffeb, 0x1ffffee, 0x1ffffef, 0xfffff4, 0xfffff5, 0x3ffffea, 0x7ffff4,
    0x3ffffeb, 0x7ffffe6, 0x3ffffec, 0x3ffffed, 0x7ffffe7, 0x7ffffe8, 0x7ffffe9, 0x7ffffea,
    0x7ffffeb, 0xffffffe, 0x7ffffec, 0x7ffffed, 0x7ffffee, 0x7ffffef, 0x7fffff0, 0x3ffffee,
    0x3fffffff]"

definition HUFFMAN_LENGTHS :: "nat list" where
  "HUFFMAN_LENGTHS = [
    13, 23, 28, 28, 28, 28, 28, 28, 28, 24, 30, 28, 28, 30, 28, 28, 28, 28, 28, 28, 28, 28, 30, 28, 28, 28, 28, 28, 28, 28, 28, 28,
    6, 10, 10, 12, 13, 6, 8, 11, 10, 10, 8, 11, 8, 6, 6, 6, 5, 5, 5, 6, 6, 6, 6, 6, 6, 6, 7, 8, 15, 6, 12, 10,
    13, 6, 7, 7, 7, 7, 7, 7, 7, 7, 7, 7, 7, 7, 7, 7, 7, 7, 7, 7, 7, 7, 7, 7, 8, 7, 8, 13, 19, 13, 14, 6,
    15, 5, 6, 5, 6, 5, 6, 6, 6, 5, 7, 7, 6, 6, 6, 5, 6, 7, 6, 5, 5, 6, 7, 7, 7, 7, 7, 15, 11, 14, 13, 28,
    20, 22, 20, 20, 22, 22, 22, 23, 22, 23, 23, 23, 23, 23, 24, 23, 24, 24, 22, 23, 24, 23, 23, 23, 23, 21, 22, 23, 22, 23, 23, 24,
    22, 21, 20, 22, 22, 23, 23, 21, 23, 22, 22, 24, 21, 22, 23, 23, 21, 21, 22, 21, 23, 22, 23, 23, 20, 22, 22, 22, 23, 22, 22, 23,
    26, 26, 20, 19, 22, 23, 22, 25, 26, 26, 26, 27, 27, 26, 24, 25, 19, 21, 26, 27, 27, 26, 27, 24, 21, 21, 26, 26, 28, 27, 27, 27,
    20, 24, 20, 21, 22, 21, 21, 23, 22, 22, 25, 25, 24, 24, 26, 23, 26, 27, 26, 26, 27, 27, 27, 27, 27, 28, 27, 27, 27, 27, 27, 26,
    30]"

lemma length_HUFFMAN_CODES [simp]: "length HUFFMAN_CODES = 257"
  by (simp add: HUFFMAN_CODES_def)

lemma length_HUFFMAN_LENGTHS [simp]: "length HUFFMAN_LENGTHS = 257"
  by (simp add: HUFFMAN_LENGTHS_def)

subsection \<open>The constants Node exposes\<close>

datatype h2const = NumC int | StrC string

definition http2_constants_protocol :: "(string \<times> h2const) list" where
  "http2_constants_protocol = [
    (''NGHTTP2_ERR_FRAME_SIZE_ERROR'', NumC (-522)),
    (''NGHTTP2_SESSION_SERVER'', NumC 0),
    (''NGHTTP2_SESSION_CLIENT'', NumC 1),
    (''NGHTTP2_STREAM_STATE_IDLE'', NumC 1),
    (''NGHTTP2_STREAM_STATE_OPEN'', NumC 2),
    (''NGHTTP2_STREAM_STATE_RESERVED_LOCAL'', NumC 3),
    (''NGHTTP2_STREAM_STATE_RESERVED_REMOTE'', NumC 4),
    (''NGHTTP2_STREAM_STATE_HALF_CLOSED_LOCAL'', NumC 5),
    (''NGHTTP2_STREAM_STATE_HALF_CLOSED_REMOTE'', NumC 6),
    (''NGHTTP2_STREAM_STATE_CLOSED'', NumC 7),
    (''NGHTTP2_FLAG_NONE'', NumC 0),
    (''NGHTTP2_FLAG_END_STREAM'', NumC 1),
    (''NGHTTP2_FLAG_END_HEADERS'', NumC 4),
    (''NGHTTP2_FLAG_ACK'', NumC 1),
    (''NGHTTP2_FLAG_PADDED'', NumC 8),
    (''NGHTTP2_FLAG_PRIORITY'', NumC 32),
    (''DEFAULT_SETTINGS_HEADER_TABLE_SIZE'', NumC 4096),
    (''DEFAULT_SETTINGS_ENABLE_PUSH'', NumC 1),
    (''DEFAULT_SETTINGS_MAX_CONCURRENT_STREAMS'', NumC 4294967295),
    (''DEFAULT_SETTINGS_INITIAL_WINDOW_SIZE'', NumC 65535),
    (''DEFAULT_SETTINGS_MAX_FRAME_SIZE'', NumC 16384),
    (''DEFAULT_SETTINGS_MAX_HEADER_LIST_SIZE'', NumC 65535),
    (''DEFAULT_SETTINGS_ENABLE_CONNECT_PROTOCOL'', NumC 0),
    (''MAX_MAX_FRAME_SIZE'', NumC 16777215),
    (''MIN_MAX_FRAME_SIZE'', NumC 16384),
    (''MAX_INITIAL_WINDOW_SIZE'', NumC 2147483647),
    (''NGHTTP2_SETTINGS_HEADER_TABLE_SIZE'', NumC 1),
    (''NGHTTP2_SETTINGS_ENABLE_PUSH'', NumC 2),
    (''NGHTTP2_SETTINGS_MAX_CONCURRENT_STREAMS'', NumC 3),
    (''NGHTTP2_SETTINGS_INITIAL_WINDOW_SIZE'', NumC 4),
    (''NGHTTP2_SETTINGS_MAX_FRAME_SIZE'', NumC 5),
    (''NGHTTP2_SETTINGS_MAX_HEADER_LIST_SIZE'', NumC 6),
    (''NGHTTP2_SETTINGS_ENABLE_CONNECT_PROTOCOL'', NumC 8),
    (''PADDING_STRATEGY_NONE'', NumC 0),
    (''PADDING_STRATEGY_ALIGNED'', NumC 1),
    (''PADDING_STRATEGY_MAX'', NumC 2),
    (''PADDING_STRATEGY_CALLBACK'', NumC 1),
    (''NGHTTP2_NO_ERROR'', NumC 0),
    (''NGHTTP2_PROTOCOL_ERROR'', NumC 1),
    (''NGHTTP2_INTERNAL_ERROR'', NumC 2),
    (''NGHTTP2_FLOW_CONTROL_ERROR'', NumC 3),
    (''NGHTTP2_SETTINGS_TIMEOUT'', NumC 4),
    (''NGHTTP2_STREAM_CLOSED'', NumC 5),
    (''NGHTTP2_FRAME_SIZE_ERROR'', NumC 6),
    (''NGHTTP2_REFUSED_STREAM'', NumC 7),
    (''NGHTTP2_CANCEL'', NumC 8),
    (''NGHTTP2_COMPRESSION_ERROR'', NumC 9),
    (''NGHTTP2_CONNECT_ERROR'', NumC 10),
    (''NGHTTP2_ENHANCE_YOUR_CALM'', NumC 11),
    (''NGHTTP2_INADEQUATE_SECURITY'', NumC 12),
    (''NGHTTP2_HTTP_1_1_REQUIRED'', NumC 13),
    (''NGHTTP2_DEFAULT_WEIGHT'', NumC 16)]"

definition http2_constants_headers :: "(string \<times> h2const) list" where
  "http2_constants_headers = [
    (''HTTP2_HEADER_STATUS'', StrC '':status''),
    (''HTTP2_HEADER_METHOD'', StrC '':method''),
    (''HTTP2_HEADER_AUTHORITY'', StrC '':authority''),
    (''HTTP2_HEADER_SCHEME'', StrC '':scheme''),
    (''HTTP2_HEADER_PATH'', StrC '':path''),
    (''HTTP2_HEADER_PROTOCOL'', StrC '':protocol''),
    (''HTTP2_HEADER_ACCEPT_ENCODING'', StrC ''accept-encoding''),
    (''HTTP2_HEADER_ACCEPT_LANGUAGE'', StrC ''accept-language''),
    (''HTTP2_HEADER_ACCEPT_RANGES'', StrC ''accept-ranges''),
    (''HTTP2_HEADER_ACCEPT'', StrC ''accept''),
    (''HTTP2_HEADER_ACCESS_CONTROL_ALLOW_CREDENTIALS'', StrC ''access-control-allow-credentials''),
    (''HTTP2_HEADER_ACCESS_CONTROL_ALLOW_HEADERS'', StrC ''access-control-allow-headers''),
    (''HTTP2_HEADER_ACCESS_CONTROL_ALLOW_METHODS'', StrC ''access-control-allow-methods''),
    (''HTTP2_HEADER_ACCESS_CONTROL_ALLOW_ORIGIN'', StrC ''access-control-allow-origin''),
    (''HTTP2_HEADER_ACCESS_CONTROL_EXPOSE_HEADERS'', StrC ''access-control-expose-headers''),
    (''HTTP2_HEADER_ACCESS_CONTROL_REQUEST_HEADERS'', StrC ''access-control-request-headers''),
    (''HTTP2_HEADER_ACCESS_CONTROL_REQUEST_METHOD'', StrC ''access-control-request-method''),
    (''HTTP2_HEADER_AGE'', StrC ''age''),
    (''HTTP2_HEADER_AUTHORIZATION'', StrC ''authorization''),
    (''HTTP2_HEADER_CACHE_CONTROL'', StrC ''cache-control''),
    (''HTTP2_HEADER_CONNECTION'', StrC ''connection''),
    (''HTTP2_HEADER_CONTENT_DISPOSITION'', StrC ''content-disposition''),
    (''HTTP2_HEADER_CONTENT_ENCODING'', StrC ''content-encoding''),
    (''HTTP2_HEADER_CONTENT_LENGTH'', StrC ''content-length''),
    (''HTTP2_HEADER_CONTENT_TYPE'', StrC ''content-type''),
    (''HTTP2_HEADER_COOKIE'', StrC ''cookie''),
    (''HTTP2_HEADER_DATE'', StrC ''date''),
    (''HTTP2_HEADER_ETAG'', StrC ''etag''),
    (''HTTP2_HEADER_FORWARDED'', StrC ''forwarded''),
    (''HTTP2_HEADER_HOST'', StrC ''host''),
    (''HTTP2_HEADER_IF_MODIFIED_SINCE'', StrC ''if-modified-since''),
    (''HTTP2_HEADER_IF_NONE_MATCH'', StrC ''if-none-match''),
    (''HTTP2_HEADER_IF_RANGE'', StrC ''if-range''),
    (''HTTP2_HEADER_LAST_MODIFIED'', StrC ''last-modified''),
    (''HTTP2_HEADER_LINK'', StrC ''link''),
    (''HTTP2_HEADER_LOCATION'', StrC ''location''),
    (''HTTP2_HEADER_RANGE'', StrC ''range''),
    (''HTTP2_HEADER_REFERER'', StrC ''referer''),
    (''HTTP2_HEADER_SERVER'', StrC ''server''),
    (''HTTP2_HEADER_SET_COOKIE'', StrC ''set-cookie''),
    (''HTTP2_HEADER_STRICT_TRANSPORT_SECURITY'', StrC ''strict-transport-security''),
    (''HTTP2_HEADER_TRANSFER_ENCODING'', StrC ''transfer-encoding''),
    (''HTTP2_HEADER_TE'', StrC ''te''),
    (''HTTP2_HEADER_UPGRADE_INSECURE_REQUESTS'', StrC ''upgrade-insecure-requests''),
    (''HTTP2_HEADER_UPGRADE'', StrC ''upgrade''),
    (''HTTP2_HEADER_USER_AGENT'', StrC ''user-agent''),
    (''HTTP2_HEADER_VARY'', StrC ''vary''),
    (''HTTP2_HEADER_X_CONTENT_TYPE_OPTIONS'', StrC ''x-content-type-options''),
    (''HTTP2_HEADER_X_FRAME_OPTIONS'', StrC ''x-frame-options''),
    (''HTTP2_HEADER_KEEP_ALIVE'', StrC ''keep-alive''),
    (''HTTP2_HEADER_PROXY_CONNECTION'', StrC ''proxy-connection''),
    (''HTTP2_HEADER_X_XSS_PROTECTION'', StrC ''x-xss-protection''),
    (''HTTP2_HEADER_ALT_SVC'', StrC ''alt-svc''),
    (''HTTP2_HEADER_CONTENT_SECURITY_POLICY'', StrC ''content-security-policy''),
    (''HTTP2_HEADER_EARLY_DATA'', StrC ''early-data''),
    (''HTTP2_HEADER_EXPECT_CT'', StrC ''expect-ct''),
    (''HTTP2_HEADER_ORIGIN'', StrC ''origin''),
    (''HTTP2_HEADER_PURPOSE'', StrC ''purpose''),
    (''HTTP2_HEADER_TIMING_ALLOW_ORIGIN'', StrC ''timing-allow-origin''),
    (''HTTP2_HEADER_X_FORWARDED_FOR'', StrC ''x-forwarded-for''),
    (''HTTP2_HEADER_PRIORITY'', StrC ''priority''),
    (''HTTP2_HEADER_ACCEPT_CHARSET'', StrC ''accept-charset''),
    (''HTTP2_HEADER_ACCESS_CONTROL_MAX_AGE'', StrC ''access-control-max-age''),
    (''HTTP2_HEADER_ALLOW'', StrC ''allow''),
    (''HTTP2_HEADER_CONTENT_LANGUAGE'', StrC ''content-language''),
    (''HTTP2_HEADER_CONTENT_LOCATION'', StrC ''content-location''),
    (''HTTP2_HEADER_CONTENT_MD5'', StrC ''content-md5''),
    (''HTTP2_HEADER_CONTENT_RANGE'', StrC ''content-range''),
    (''HTTP2_HEADER_DNT'', StrC ''dnt''),
    (''HTTP2_HEADER_EXPECT'', StrC ''expect''),
    (''HTTP2_HEADER_EXPIRES'', StrC ''expires''),
    (''HTTP2_HEADER_FROM'', StrC ''from''),
    (''HTTP2_HEADER_IF_MATCH'', StrC ''if-match''),
    (''HTTP2_HEADER_IF_UNMODIFIED_SINCE'', StrC ''if-unmodified-since''),
    (''HTTP2_HEADER_MAX_FORWARDS'', StrC ''max-forwards''),
    (''HTTP2_HEADER_PREFER'', StrC ''prefer''),
    (''HTTP2_HEADER_PROXY_AUTHENTICATE'', StrC ''proxy-authenticate''),
    (''HTTP2_HEADER_PROXY_AUTHORIZATION'', StrC ''proxy-authorization''),
    (''HTTP2_HEADER_REFRESH'', StrC ''refresh''),
    (''HTTP2_HEADER_RETRY_AFTER'', StrC ''retry-after''),
    (''HTTP2_HEADER_TRAILER'', StrC ''trailer''),
    (''HTTP2_HEADER_TK'', StrC ''tk''),
    (''HTTP2_HEADER_VIA'', StrC ''via''),
    (''HTTP2_HEADER_WARNING'', StrC ''warning''),
    (''HTTP2_HEADER_WWW_AUTHENTICATE'', StrC ''www-authenticate''),
    (''HTTP2_HEADER_HTTP2_SETTINGS'', StrC ''http2-settings'')]"

definition http2_constants_methods :: "(string \<times> h2const) list" where
  "http2_constants_methods = [
    (''HTTP2_METHOD_ACL'', StrC ''ACL''),
    (''HTTP2_METHOD_BASELINE_CONTROL'', StrC ''BASELINE-CONTROL''),
    (''HTTP2_METHOD_BIND'', StrC ''BIND''),
    (''HTTP2_METHOD_CHECKIN'', StrC ''CHECKIN''),
    (''HTTP2_METHOD_CHECKOUT'', StrC ''CHECKOUT''),
    (''HTTP2_METHOD_CONNECT'', StrC ''CONNECT''),
    (''HTTP2_METHOD_COPY'', StrC ''COPY''),
    (''HTTP2_METHOD_DELETE'', StrC ''DELETE''),
    (''HTTP2_METHOD_GET'', StrC ''GET''),
    (''HTTP2_METHOD_HEAD'', StrC ''HEAD''),
    (''HTTP2_METHOD_LABEL'', StrC ''LABEL''),
    (''HTTP2_METHOD_LINK'', StrC ''LINK''),
    (''HTTP2_METHOD_LOCK'', StrC ''LOCK''),
    (''HTTP2_METHOD_MERGE'', StrC ''MERGE''),
    (''HTTP2_METHOD_MKACTIVITY'', StrC ''MKACTIVITY''),
    (''HTTP2_METHOD_MKCALENDAR'', StrC ''MKCALENDAR''),
    (''HTTP2_METHOD_MKCOL'', StrC ''MKCOL''),
    (''HTTP2_METHOD_MKREDIRECTREF'', StrC ''MKREDIRECTREF''),
    (''HTTP2_METHOD_MKWORKSPACE'', StrC ''MKWORKSPACE''),
    (''HTTP2_METHOD_MOVE'', StrC ''MOVE''),
    (''HTTP2_METHOD_OPTIONS'', StrC ''OPTIONS''),
    (''HTTP2_METHOD_ORDERPATCH'', StrC ''ORDERPATCH''),
    (''HTTP2_METHOD_PATCH'', StrC ''PATCH''),
    (''HTTP2_METHOD_POST'', StrC ''POST''),
    (''HTTP2_METHOD_PRI'', StrC ''PRI''),
    (''HTTP2_METHOD_PROPFIND'', StrC ''PROPFIND''),
    (''HTTP2_METHOD_PROPPATCH'', StrC ''PROPPATCH''),
    (''HTTP2_METHOD_PUT'', StrC ''PUT''),
    (''HTTP2_METHOD_REBIND'', StrC ''REBIND''),
    (''HTTP2_METHOD_REPORT'', StrC ''REPORT''),
    (''HTTP2_METHOD_SEARCH'', StrC ''SEARCH''),
    (''HTTP2_METHOD_TRACE'', StrC ''TRACE''),
    (''HTTP2_METHOD_UNBIND'', StrC ''UNBIND''),
    (''HTTP2_METHOD_UNCHECKOUT'', StrC ''UNCHECKOUT''),
    (''HTTP2_METHOD_UNLINK'', StrC ''UNLINK''),
    (''HTTP2_METHOD_UNLOCK'', StrC ''UNLOCK''),
    (''HTTP2_METHOD_UPDATE'', StrC ''UPDATE''),
    (''HTTP2_METHOD_UPDATEREDIRECTREF'', StrC ''UPDATEREDIRECTREF''),
    (''HTTP2_METHOD_VERSION_CONTROL'', StrC ''VERSION-CONTROL'')]"

definition http2_constants_status :: "(string \<times> h2const) list" where
  "http2_constants_status = [
    (''HTTP_STATUS_CONTINUE'', NumC 100),
    (''HTTP_STATUS_SWITCHING_PROTOCOLS'', NumC 101),
    (''HTTP_STATUS_PROCESSING'', NumC 102),
    (''HTTP_STATUS_EARLY_HINTS'', NumC 103),
    (''HTTP_STATUS_OK'', NumC 200),
    (''HTTP_STATUS_CREATED'', NumC 201),
    (''HTTP_STATUS_ACCEPTED'', NumC 202),
    (''HTTP_STATUS_NON_AUTHORITATIVE_INFORMATION'', NumC 203),
    (''HTTP_STATUS_NO_CONTENT'', NumC 204),
    (''HTTP_STATUS_RESET_CONTENT'', NumC 205),
    (''HTTP_STATUS_PARTIAL_CONTENT'', NumC 206),
    (''HTTP_STATUS_MULTI_STATUS'', NumC 207),
    (''HTTP_STATUS_ALREADY_REPORTED'', NumC 208),
    (''HTTP_STATUS_IM_USED'', NumC 226),
    (''HTTP_STATUS_MULTIPLE_CHOICES'', NumC 300),
    (''HTTP_STATUS_MOVED_PERMANENTLY'', NumC 301),
    (''HTTP_STATUS_FOUND'', NumC 302),
    (''HTTP_STATUS_SEE_OTHER'', NumC 303),
    (''HTTP_STATUS_NOT_MODIFIED'', NumC 304),
    (''HTTP_STATUS_USE_PROXY'', NumC 305),
    (''HTTP_STATUS_TEMPORARY_REDIRECT'', NumC 307),
    (''HTTP_STATUS_PERMANENT_REDIRECT'', NumC 308),
    (''HTTP_STATUS_BAD_REQUEST'', NumC 400),
    (''HTTP_STATUS_UNAUTHORIZED'', NumC 401),
    (''HTTP_STATUS_PAYMENT_REQUIRED'', NumC 402),
    (''HTTP_STATUS_FORBIDDEN'', NumC 403),
    (''HTTP_STATUS_NOT_FOUND'', NumC 404),
    (''HTTP_STATUS_METHOD_NOT_ALLOWED'', NumC 405),
    (''HTTP_STATUS_NOT_ACCEPTABLE'', NumC 406),
    (''HTTP_STATUS_PROXY_AUTHENTICATION_REQUIRED'', NumC 407),
    (''HTTP_STATUS_REQUEST_TIMEOUT'', NumC 408),
    (''HTTP_STATUS_CONFLICT'', NumC 409),
    (''HTTP_STATUS_GONE'', NumC 410),
    (''HTTP_STATUS_LENGTH_REQUIRED'', NumC 411),
    (''HTTP_STATUS_PRECONDITION_FAILED'', NumC 412),
    (''HTTP_STATUS_PAYLOAD_TOO_LARGE'', NumC 413),
    (''HTTP_STATUS_URI_TOO_LONG'', NumC 414),
    (''HTTP_STATUS_UNSUPPORTED_MEDIA_TYPE'', NumC 415),
    (''HTTP_STATUS_RANGE_NOT_SATISFIABLE'', NumC 416),
    (''HTTP_STATUS_EXPECTATION_FAILED'', NumC 417),
    (''HTTP_STATUS_TEAPOT'', NumC 418),
    (''HTTP_STATUS_MISDIRECTED_REQUEST'', NumC 421),
    (''HTTP_STATUS_UNPROCESSABLE_ENTITY'', NumC 422),
    (''HTTP_STATUS_LOCKED'', NumC 423),
    (''HTTP_STATUS_FAILED_DEPENDENCY'', NumC 424),
    (''HTTP_STATUS_TOO_EARLY'', NumC 425),
    (''HTTP_STATUS_UPGRADE_REQUIRED'', NumC 426),
    (''HTTP_STATUS_PRECONDITION_REQUIRED'', NumC 428),
    (''HTTP_STATUS_TOO_MANY_REQUESTS'', NumC 429),
    (''HTTP_STATUS_REQUEST_HEADER_FIELDS_TOO_LARGE'', NumC 431),
    (''HTTP_STATUS_UNAVAILABLE_FOR_LEGAL_REASONS'', NumC 451),
    (''HTTP_STATUS_INTERNAL_SERVER_ERROR'', NumC 500),
    (''HTTP_STATUS_NOT_IMPLEMENTED'', NumC 501),
    (''HTTP_STATUS_BAD_GATEWAY'', NumC 502),
    (''HTTP_STATUS_SERVICE_UNAVAILABLE'', NumC 503),
    (''HTTP_STATUS_GATEWAY_TIMEOUT'', NumC 504),
    (''HTTP_STATUS_HTTP_VERSION_NOT_SUPPORTED'', NumC 505),
    (''HTTP_STATUS_VARIANT_ALSO_NEGOTIATES'', NumC 506),
    (''HTTP_STATUS_INSUFFICIENT_STORAGE'', NumC 507),
    (''HTTP_STATUS_LOOP_DETECTED'', NumC 508),
    (''HTTP_STATUS_BANDWIDTH_LIMIT_EXCEEDED'', NumC 509),
    (''HTTP_STATUS_NOT_EXTENDED'', NumC 510),
    (''HTTP_STATUS_NETWORK_AUTHENTICATION_REQUIRED'', NumC 511)]"

definition HTTP2_CONSTANTS :: "(string \<times> h2const) list" where
  "HTTP2_CONSTANTS = http2_constants_protocol @ http2_constants_headers @ http2_constants_methods @ http2_constants_status"

end
