(* ===== verification/HuffmanCode.thy ===== *)
theory HuffmanCode
  imports Http2Data
begin

text \<open>
  The codes of the HPACK Huffman table as bit lists, and the fact the coder rests on: the table
  of \<open>node-http2-data.js\<close> is a prefix code.
\<close>

text \<open>The bits of a code, most significant first: \<open>(code >>> bit) & 1\<close> for \<open>bit\<close> from
  \<open>length - 1\<close> down to \<open>0\<close>.\<close>

definition code_bits :: "nat \<Rightarrow> nat \<Rightarrow> bool list" where
  "code_bits code len = map (\<lambda>i. odd (code div 2 ^ i)) (rev [0..<len])"

definition huff_code :: "nat \<Rightarrow> bool list" where
  "huff_code s = code_bits (HUFFMAN_CODES ! s) (HUFFMAN_LENGTHS ! s)"

subsection \<open>The code of the table is a prefix code\<close>

text \<open>
  The table is a canonical code: the codes of one length grow with the symbol and stay between
  \<open>first_codes\<close> and \<open>next_codes\<close> of that length (both listed from length 30 down), and the
  codes of one length, extended, end before those of the next length start. One scan of the table
  checks it.
\<close>

fun code_scan :: "nat list \<Rightarrow> (nat \<times> nat) list \<Rightarrow> nat list option" where
  "code_scan nx [] = Some nx"
| "code_scan nx ((c, l) # xs) =
     (if l \<le> 30 \<and> nx ! (30 - l) \<le> c then code_scan (nx[30 - l := Suc c]) xs else None)"

definition first_codes :: "nat list" where
  "first_codes = [1073741820, 536870910, 268435426, 134217694, 67108832, 33554412, 16777194, 8388568,
    4194258, 2097116, 1048550, 524272, 262136, 131068, 65534, 32764, 16380, 8184, 4090,
    2042, 1016, 508, 248, 92, 20, 0, 0, 0, 0, 0, 0]"

definition next_codes :: "nat list" where
  "next_codes = [1073741824, 536870910, 268435455, 134217713, 67108847, 33554416, 16777206, 8388597,
    4194284, 2097129, 1048558, 524275, 262136, 131068, 65534, 32767, 16382, 8190, 4092,
    2045, 1021, 508, 254, 124, 46, 10, 0, 0, 0, 0, 0]"

fun steps_ok :: "nat list \<Rightarrow> nat list \<Rightarrow> bool" where
  "steps_ok (n # ns) (f # fs) = (n * 2 \<le> f \<and> steps_ok ns fs)"
| "steps_ok _ _ = True"

lemma code_scan_table: "code_scan first_codes (zip HUFFMAN_CODES HUFFMAN_LENGTHS) = Some next_codes"
  by (simp add: HUFFMAN_CODES_def HUFFMAN_LENGTHS_def first_codes_def next_codes_def)

lemma steps_ok_codes: "steps_ok (tl next_codes) first_codes"
  by (simp add: first_codes_def next_codes_def)

lemma length_first_codes [simp]: "length first_codes = 31"
  by (simp add: first_codes_def)

lemma length_next_codes [simp]: "length next_codes = 31"
  by (simp add: next_codes_def)

lemma steps_ok_nth:
  "steps_ok ns fs \<Longrightarrow> i < length ns \<Longrightarrow> i < length fs \<Longrightarrow> ns ! i * 2 \<le> fs ! i"
  by (induction ns fs arbitrary: i rule: steps_ok.induct) (auto simp: nth_Cons split: nat.splits)

lemma code_scan_props:
  assumes "code_scan nx xs = Some fin" and "length nx = 31"
  shows "length fin = 31 \<and> (\<forall>k < 31. nx ! k \<le> fin ! k) \<and>
    (\<forall>i < length xs. snd (xs ! i) \<le> 30 \<and>
       nx ! (30 - snd (xs ! i)) \<le> fst (xs ! i) \<and> fst (xs ! i) < fin ! (30 - snd (xs ! i))) \<and>
    (\<forall>j < length xs. \<forall>i < j. snd (xs ! i) = snd (xs ! j) \<longrightarrow> fst (xs ! i) < fst (xs ! j))"
  using assms
proof (induction nx xs rule: code_scan.induct)
  case (2 nx c l xs)
  let ?k = "30 - l" and ?nx = "nx[30 - l := Suc c]"
  from 2 have l: "l \<le> 30" and c: "nx ! ?k \<le> c" and sc: "code_scan ?nx xs = Some fin"
    by (auto split: if_splits)
  have k: "?k < 31" by simp
  from "2.IH" [OF conjI [OF l c] sc] "2.prems"(2) have len: "length fin = 31"
    and mono: "\<And>k. k < 31 \<Longrightarrow> ?nx ! k \<le> fin ! k"
    and bnd: "\<And>i. i < length xs \<Longrightarrow> snd (xs ! i) \<le> 30 \<and>
       ?nx ! (30 - snd (xs ! i)) \<le> fst (xs ! i) \<and> fst (xs ! i) < fin ! (30 - snd (xs ! i))"
    and inc: "\<And>i j. j < length xs \<Longrightarrow> i < j \<Longrightarrow> snd (xs ! i) = snd (xs ! j) \<Longrightarrow>
       fst (xs ! i) < fst (xs ! j)"
    by simp_all
  have up: "nx ! m \<le> ?nx ! m" if "m < 31" for m
    using that c "2.prems"(2) by (cases "m = ?k") simp_all
  have cfin: "Suc c \<le> fin ! ?k"
    using mono [OF k] "2.prems"(2) by simp
  have cinc: "c < fst (xs ! j)" if "j < length xs" and "snd (xs ! j) = l" for j
    using bnd [OF that(1)] that(2) "2.prems"(2) by simp
  have "nx ! m \<le> fin ! m" if "m < 31" for m
    using up [OF that] mono [OF that] by simp
  moreover have "snd (((c, l) # xs) ! i) \<le> 30 \<and>
      nx ! (30 - snd (((c, l) # xs) ! i)) \<le> fst (((c, l) # xs) ! i) \<and>
      fst (((c, l) # xs) ! i) < fin ! (30 - snd (((c, l) # xs) ! i))" if "i < length ((c, l) # xs)" for i
  proof (cases i)
    case 0
    with l c cfin show ?thesis by simp
  next
    case (Suc i')
    with that have "i' < length xs" by simp
    note b = bnd [OF this]
    have "30 - snd (xs ! i') < 31" by simp
    from up [OF this] b Suc show ?thesis by simp
  qed
  moreover have "fst (((c, l) # xs) ! i) < fst (((c, l) # xs) ! j)"
    if "j < length ((c, l) # xs)" "i < j" "snd (((c, l) # xs) ! i) = snd (((c, l) # xs) ! j)" for i j
    using that cinc [of "j - 1"] inc [of "j - 1" "i - 1"]
    by (cases i; cases j) simp_all
  ultimately show ?case using len by simp
qed auto


lemma huff_entry:
  assumes "s < 257"
  shows "HUFFMAN_LENGTHS ! s \<le> 30"
    and "first_codes ! (30 - HUFFMAN_LENGTHS ! s) \<le> HUFFMAN_CODES ! s"
    and "HUFFMAN_CODES ! s < next_codes ! (30 - HUFFMAN_LENGTHS ! s)"
  using code_scan_props [OF code_scan_table] assms by simp_all

lemma huff_increasing:
  assumes "t < 257" and "s < t" and "HUFFMAN_LENGTHS ! s = HUFFMAN_LENGTHS ! t"
  shows "HUFFMAN_CODES ! s < HUFFMAN_CODES ! t"
  using code_scan_props [OF code_scan_table] assms by simp

lemma first_next_step: "k < 30 \<Longrightarrow> next_codes ! Suc k * 2 \<le> first_codes ! k"
  using steps_ok_nth [OF steps_ok_codes, of k] by (simp add: nth_tl)

lemma first_le_next: "k < 31 \<Longrightarrow> first_codes ! k \<le> next_codes ! k"
  using code_scan_props [OF code_scan_table] by simp

text \<open>A longer code, cut to the length of a shorter one, is past every code of that length.\<close>

lemma next_le_first:
  "Suc j \<le> k - i \<Longrightarrow> k < 31 \<Longrightarrow> i < k \<Longrightarrow> j = k - Suc i \<Longrightarrow>
   next_codes ! k * 2 ^ Suc j \<le> first_codes ! i"
proof (induction j arbitrary: i)
  case 0
  then have "k = Suc i" by simp
  with 0 first_next_step [of i] show ?case by simp
next
  case (Suc j)
  have "next_codes ! k * 2 ^ Suc j \<le> first_codes ! Suc i"
    using Suc.prems by (intro Suc.IH) auto
  also have "\<dots> \<le> next_codes ! Suc i"
    using Suc.prems by (intro first_le_next) simp
  finally have "next_codes ! k * 2 ^ Suc j * 2 \<le> next_codes ! Suc i * 2"
    by simp
  also have "\<dots> \<le> first_codes ! i"
    using Suc.prems by (intro first_next_step) simp
  finally show ?case by (simp add: mult.assoc)
qed

lemma next_bound: "l \<le> 30 \<Longrightarrow> next_codes ! (30 - l) \<le> 2 ^ l"
proof -
  assume l: "l \<le> 30"
  show ?thesis
  proof (cases "l = 30")
    case True
    then show ?thesis by (simp add: next_codes_def)
  next
    case False
    with l have "next_codes ! (30 - l) * 2 ^ Suc (29 - l) \<le> first_codes ! 0"
      by (intro next_le_first) auto
    also have "\<dots> \<le> 2 ^ l * 2 ^ (30 - l)"
      using l by (simp add: first_codes_def flip: power_add)
    finally have "next_codes ! (30 - l) * 2 ^ Suc (29 - l) \<le> 2 ^ l * 2 ^ Suc (29 - l)"
      using False l by (simp add: Suc_diff_Suc [symmetric] flip: power_Suc)
    then show ?thesis by simp
  qed
qed

lemma huff_code_bound: "s < 257 \<Longrightarrow> HUFFMAN_CODES ! s < 2 ^ (HUFFMAN_LENGTHS ! s)"
  using huff_entry [of s] next_bound [of "HUFFMAN_LENGTHS ! s"] by simp

lemma length_code_bits [simp]: "length (code_bits c l) = l"
  by (simp add: code_bits_def)

lemma nth_code_bits: "i < l \<Longrightarrow> code_bits c l ! i = bit c (l - Suc i)"
  by (simp add: code_bits_def rev_nth bit_iff_odd)

lemma code_bits_prefixD:
  assumes "prefix (code_bits c l) (code_bits d m)" and "c < 2 ^ l" and "d < 2 ^ m"
  shows "l \<le> m \<and> d div 2 ^ (m - l) = c"
proof -
  from assms(1) have lm: "l \<le> m"
    using prefix_length_le by fastforce
  have "bit (d div 2 ^ (m - l)) j = bit c j" for j
  proof (cases "j < l")
    case True
    from assms(1) obtain r where r: "code_bits d m = code_bits c l @ r"
      by (auto simp: prefix_def)
    then have "code_bits d m ! (l - Suc j) = code_bits c l ! (l - Suc j)"
      using True by (simp add: nth_append)
    then have "bit d (m - Suc (l - Suc j)) = bit c (l - Suc (l - Suc j))"
      using True lm by (simp add: nth_code_bits)
    moreover have "m - Suc (l - Suc j) = m - l + j" and "l - Suc (l - Suc j) = j"
      using True lm by simp_all
    ultimately show ?thesis
      by (simp add: bit_iff_odd power_add div_mult2_eq)
  next
    case False
    have "c < 2 ^ j" 
      using assms(2) False by (meson less_le_trans not_less one_le_numeral power_increasing)
    moreover have "d div 2 ^ (m - l) < 2 ^ l"
      using assms(3) lm by (simp add: less_mult_imp_div_less flip: power_add)
    then have "d div 2 ^ (m - l) < 2 ^ j"
      using False by (meson less_le_trans not_less one_le_numeral power_increasing)
    ultimately show ?thesis
      by (simp add: bit_iff_odd)
  qed
  then have "d div 2 ^ (m - l) = c"
    by (simp add: bit_eq_iff)
  with lm show ?thesis by simp
qed

theorem huff_prefix_free:
  assumes s: "s < 257" and t: "t < 257" and p: "prefix (huff_code s) (huff_code t)"
  shows "s = t"
proof -
  let ?l = "HUFFMAN_LENGTHS ! s" and ?m = "HUFFMAN_LENGTHS ! t"
  from code_bits_prefixD [OF p [unfolded huff_code_def] huff_code_bound [OF s] huff_code_bound [OF t]]
  have lm: "?l \<le> ?m" and d: "HUFFMAN_CODES ! t div 2 ^ (?m - ?l) = HUFFMAN_CODES ! s" by auto
  have m30: "?m \<le> 30" using huff_entry(1) [OF t] .
  show ?thesis
  proof (cases "?l = ?m")
    case True
    with d have "HUFFMAN_CODES ! s = HUFFMAN_CODES ! t" by simp
    then show ?thesis
      using huff_increasing [of t s] huff_increasing [of s t] s t True
      by (metis less_irrefl linorder_neqE_nat)
  next
    case False
    with lm have lt: "?l < ?m" by simp
    have "next_codes ! (30 - ?l) * 2 ^ Suc (?m - ?l - 1) \<le> first_codes ! (30 - ?m)"
      using lt m30 by (intro next_le_first) auto
    also have "Suc (?m - ?l - 1) = ?m - ?l" using lt by simp
    also have "first_codes ! (30 - ?m) \<le> HUFFMAN_CODES ! t"
      by (rule huff_entry(2) [OF t])
    finally have "next_codes ! (30 - ?l) \<le> HUFFMAN_CODES ! t div 2 ^ (?m - ?l)"
      by (simp add: less_eq_div_iff_mult_less_eq)
    with d huff_entry(3) [OF s] show ?thesis by simp
  qed
qed

end
