(* ===== verification/Huffman.thy ===== *)
theory Huffman
  imports HuffmanCode
begin

unbundle bit_operations_syntax

text \<open>
  The Huffman coder of HPACK (\<open>buildTrie\<close>, \<open>huffmanDecode\<close> and \<open>huffmanEncode\<close> of
  \<open>quickjs/runtime/node-http2.js\<close>).

  A trie node is the triple of the source, its \<open>-1\<close> written \<open>None\<close>: the two children and
  the symbol. The trie is the list of nodes, grown at its end, the children being indices.
\<close>

subsection \<open>The trie\<close>

record trie_node =
  child0 :: "nat option"
  child1 :: "nat option"
  symbol :: "nat option"

definition empty_node :: trie_node where
  "empty_node = \<lparr>child0 = None, child1 = None, symbol = None\<rparr>"

definition child :: "trie_node \<Rightarrow> bool \<Rightarrow> nat option" where
  "child n b = (if b then child1 n else child0 n)"

definition set_child :: "trie_node \<Rightarrow> bool \<Rightarrow> nat \<Rightarrow> trie_node" where
  "set_child n b k = (if b then n\<lparr>child1 := Some k\<rparr> else n\<lparr>child0 := Some k\<rparr>)"

text \<open>The inner loop of \<open>buildTrie\<close>: follow the branches, adding the nodes that are missing.\<close>

fun add_path :: "trie_node list \<Rightarrow> nat \<Rightarrow> bool list \<Rightarrow> trie_node list \<times> nat" where
  "add_path nodes at [] = (nodes, at)"
| "add_path nodes at (b # bs) =
     (case child (nodes ! at) b of
        Some k \<Rightarrow> add_path nodes k bs
      | None \<Rightarrow> add_path ((nodes @ [empty_node])[at := set_child (nodes ! at) b (length nodes)])
                  (length nodes) bs)"

definition add_symbol :: "trie_node list \<Rightarrow> nat \<times> bool list \<Rightarrow> trie_node list" where
  "add_symbol nodes e =
     (let (nodes', at) = add_path nodes 0 (snd e)
      in nodes'[at := (nodes' ! at)\<lparr>symbol := Some (fst e)\<rparr>])"

definition buildTrie :: "trie_node list" where
  "buildTrie = foldl add_symbol [empty_node] (map (\<lambda>s. (s, huff_code s)) [0..<257])"

subsection \<open>Decoding\<close>

datatype hpack_error = CompressionError | HeaderListTooLarge

record huff_state =
  hs_out :: "byte list"
  hs_at :: nat
  hs_depth :: nat
  hs_allOnes :: bool

definition huff_start :: huff_state where
  "huff_start = \<lparr>hs_out = [], hs_at = 0, hs_depth = 0, hs_allOnes = True\<rparr>"

text \<open>One bit of the inner loop. \<open>Uint8Array.from\<close> truncates the symbols to bytes.\<close>

definition huff_bit :: "trie_node list \<Rightarrow> huff_state \<Rightarrow> bool \<Rightarrow> hpack_error + huff_state" where
  "huff_bit trie s branch =
     (case child (trie ! hs_at s) branch of
        None \<Rightarrow> Inl CompressionError
      | Some nxt \<Rightarrow>
          (case symbol (trie ! nxt) of
             None \<Rightarrow> Inr (s\<lparr>hs_at := nxt, hs_depth := hs_depth s + 1,
                           hs_allOnes := hs_allOnes s \<and> branch\<rparr>)
           | Some sm \<Rightarrow>
               (if sm = 256 then Inl CompressionError
                else Inr \<lparr>hs_out = hs_out s @ [word_of_nat sm], hs_at = 0, hs_depth = 0,
                          hs_allOnes = True\<rparr>)))"

fun huff_bits :: "trie_node list \<Rightarrow> huff_state \<Rightarrow> bool list \<Rightarrow> hpack_error + huff_state" where
  "huff_bits trie s [] = Inr s"
| "huff_bits trie s (b # bs) = bindE (huff_bit trie s b) (\<lambda>s'. huff_bits trie s' bs)"

definition byte_bits :: "byte \<Rightarrow> bool list" where
  "byte_bits b = code_bits (unat b) 8"

definition huffmanDecode_with :: "trie_node list \<Rightarrow> byte list \<Rightarrow> hpack_error + byte list" where
  "huffmanDecode_with trie bytes =
     bindE (huff_bits trie huff_start (concat (map byte_bits bytes)))
       (\<lambda>s. if 7 < hs_depth s \<or> (0 < hs_depth s \<and> \<not> hs_allOnes s) then Inl CompressionError
            else Inr (hs_out s))"

definition huffmanDecode :: "byte list \<Rightarrow> hpack_error + byte list" where
  "huffmanDecode = huffmanDecode_with buildTrie"

subsection \<open>Encoding\<close>

text \<open>
  The accumulator is a JavaScript number. \<open>acc\<close> stays below \<open>2 ^ have\<close> with \<open>have < 8\<close>
  between symbols, so it never exceeds \<open>2 ^ 38\<close> and the double arithmetic of the source is exact.
\<close>

function flush_bytes :: "nat \<Rightarrow> nat \<Rightarrow> nat \<times> nat \<times> byte list" where
  "flush_bytes acc have =
     (if 8 \<le> have
      then (let have' = have - 8;
                (acc', h, out) = flush_bytes (acc mod 2 ^ have') have'
            in (acc', h, word_of_nat (acc div 2 ^ have' mod 256) # out))
      else (acc, have, []))"
  by pat_completeness auto
termination
  by (relation "measure snd") auto

declare flush_bytes.simps [simp del]

fun huff_emit :: "nat \<Rightarrow> nat \<Rightarrow> byte list \<Rightarrow> byte list" where
  "huff_emit acc have [] =
     (if 0 < have
      then [word_of_nat (push_bit (8 - have) acc OR drop_bit have 255)]
      else [])"
| "huff_emit acc have (b # bs) =
     (let len = HUFFMAN_LENGTHS ! unat b;
          (acc', have', out) = flush_bytes (acc * 2 ^ len + HUFFMAN_CODES ! unat b) (have + len)
      in out @ huff_emit acc' have' bs)"

definition huffmanEncode :: "byte list \<Rightarrow> byte list" where
  "huffmanEncode bytes = huff_emit 0 0 bytes"

subsection \<open>What the trie holds\<close>

text \<open>
  \<open>walk\<close> follows a path of branches, \<open>sym_at\<close> is the symbol at its end. In a trie the
  children of a node come after it in the list and no two edges meet, so a node has one path.
\<close>

fun walk :: "trie_node list \<Rightarrow> nat \<Rightarrow> bool list \<Rightarrow> nat option" where
  "walk ns at [] = Some at"
| "walk ns at (b # bs) = (case child (ns ! at) b of None \<Rightarrow> None | Some k \<Rightarrow> walk ns k bs)"

definition sym_at :: "trie_node list \<Rightarrow> bool list \<Rightarrow> nat option" where
  "sym_at ns p = Option.bind (walk ns 0 p) (\<lambda>i. symbol (ns ! i))"

definition child_down :: "trie_node list \<Rightarrow> bool" where
  "child_down ns \<longleftrightarrow>
     (\<forall>i b k. i < length ns \<longrightarrow> child (ns ! i) b = Some k \<longrightarrow> i < k \<and> k < length ns)"

definition child_inj :: "trie_node list \<Rightarrow> bool" where
  "child_inj ns \<longleftrightarrow>
     (\<forall>i j b c k. i < length ns \<longrightarrow> j < length ns \<longrightarrow>
        child (ns ! i) b = Some k \<longrightarrow> child (ns ! j) c = Some k \<longrightarrow> i = j \<and> b = c)"

definition trie_inv :: "trie_node list \<Rightarrow> bool" where
  "trie_inv ns \<longleftrightarrow> ns \<noteq> [] \<and> child_down ns \<and> child_inj ns"

lemma child_downD:
  "child_down ns \<Longrightarrow> i < length ns \<Longrightarrow> child (ns ! i) b = Some k \<Longrightarrow> i < k \<and> k < length ns"
  unfolding child_down_def by blast

lemma child_injD:
  "child_inj ns \<Longrightarrow> i < length ns \<Longrightarrow> j < length ns \<Longrightarrow> child (ns ! i) b = Some k \<Longrightarrow>
   child (ns ! j) c = Some k \<Longrightarrow> i = j \<and> b = c"
  unfolding child_inj_def by blast

lemma child_set_child [simp]:
  "child (set_child n b k) c = (if b = c then Some k else child n c)"
  by (simp add: child_def set_child_def)

lemma child_empty [simp]: "child empty_node c = None"
  by (simp add: child_def empty_node_def)

lemma child_symbol_upd [simp]: "child (n\<lparr>symbol := s\<rparr>) c = child n c"
  by (simp add: child_def)

lemma symbol_set_child [simp]: "symbol (set_child n b k) = symbol n"
  by (simp add: set_child_def)

lemma symbol_empty [simp]: "symbol empty_node = None"
  by (simp add: empty_node_def)

lemma walk_append:
  "walk ns at (p @ q) = Option.bind (walk ns at p) (\<lambda>i. walk ns i q)"
  by (induction p arbitrary: at) (auto split: option.split)

lemma trie_invD:
  assumes "trie_inv ns" and "i < length ns" and "child (ns ! i) b = Some k"
  shows "i < k" and "k < length ns"
  using child_downD [of ns i b k] assms by (simp_all add: trie_inv_def)

lemma walk_bound:
  assumes "trie_inv ns" and "at < length ns" and "walk ns at p = Some i"
  shows "i < length ns"
  using assms(2,3)
proof (induction p arbitrary: at)
  case (Cons b p)
  then obtain k where k: "child (ns ! at) b = Some k" "walk ns k p = Some i"
    by (auto split: option.splits)
  from trie_invD(2) [OF assms(1) Cons.prems(1) k(1)] k(2) show ?case
    by (rule Cons.IH)
qed simp

lemma trie_inv_nonempty: "trie_inv ns \<Longrightarrow> 0 < length ns"
  by (simp add: trie_inv_def)

lemma trie_inv_inj:
  assumes "trie_inv ns" and "i < length ns" and "j < length ns"
    and "child (ns ! i) b = Some k" and "child (ns ! j) c = Some k"
  shows "i = j \<and> b = c"
  using child_injD [of ns i j b k c] assms by (simp add: trie_inv_def)

lemma walk_snoc: "walk ns at (p @ [b]) = Option.bind (walk ns at p) (\<lambda>i. child (ns ! i) b)"
  by (simp add: walk_append) (auto split: option.split bind_splits)

lemma walk_root_inj:
  assumes inv: "trie_inv ns"
  shows "walk ns 0 p = Some i \<Longrightarrow> walk ns 0 q = Some i \<Longrightarrow> p = q"
proof (induction p arbitrary: q i rule: rev_induct)
  case Nil
  then have i: "i = 0" by simp
  show ?case
  proof (cases q rule: rev_cases)
    case (snoc q' b)
    with Nil i obtain j where j: "walk ns 0 q' = Some j" and "child (ns ! j) b = Some 0"
      by (auto simp: walk_snoc bind_eq_Some_conv)
    then have "j < 0"
      using trie_invD [OF inv] walk_bound [OF inv trie_inv_nonempty [OF inv] j] by blast
    then show ?thesis by simp
  qed simp
next
  case (snoc b p)
  then obtain j where j: "walk ns 0 p = Some j" and jb: "child (ns ! j) b = Some i"
    by (auto simp: walk_snoc bind_eq_Some_conv)
  have jl: "j < length ns"
    by (rule walk_bound [OF inv trie_inv_nonempty [OF inv] j])
  show ?case
  proof (cases q rule: rev_cases)
    case Nil
    with snoc.prems have "i = 0" by simp
    with trie_invD(1) [OF inv jl jb] show ?thesis by simp
  next
    case (snoc q' c)
    with snoc.prems obtain j' where j': "walk ns 0 q' = Some j'" and jc: "child (ns ! j') c = Some i"
      by (auto simp: walk_snoc bind_eq_Some_conv)
    have "j' < length ns"
      by (rule walk_bound [OF inv trie_inv_nonempty [OF inv] j'])
    from trie_inv_inj [OF inv jl this jb jc] have "j = j'" and "b = c" by blast+
    with j j' snoc.IH snoc show ?thesis by auto
  qed
qed

text \<open>Adding one missing node.\<close>

definition grow :: "trie_node list \<Rightarrow> nat \<Rightarrow> bool \<Rightarrow> trie_node list" where
  "grow ns at b = (ns @ [empty_node])[at := set_child (ns ! at) b (length ns)]"

lemma length_grow [simp]: "length (grow ns at b) = Suc (length ns)"
  by (simp add: grow_def)

lemma child_grow:
  assumes "at < length ns" and "i \<le> length ns"
  shows "child (grow ns at b ! i) c =
    (if i = at \<and> c = b then Some (length ns) else if i = length ns then None else child (ns ! i) c)"
  using assms by (auto simp: grow_def nth_list_update nth_append)

lemma symbol_grow:
  assumes "at < length ns" and "i \<le> length ns"
  shows "symbol (grow ns at b ! i) = (if i = length ns then None else symbol (ns ! i))"
  using assms by (auto simp: grow_def nth_list_update nth_append)

lemma child_growE:
  assumes "at < length ns" and "i < length (grow ns at b)" and "child (grow ns at b ! i) c = Some k"
  obtains "i = at" "c = b" "k = length ns" | "i < length ns" "child (ns ! i) c = Some k"
  using assms by (cases "i = length ns"; cases "i = at \<and> c = b") (simp_all add: child_grow)

lemma trie_inv_grow:
  assumes inv: "trie_inv ns" and at: "at < length ns" and none: "child (ns ! at) b = None"
  shows "trie_inv (grow ns at b)"
proof -
  have "child_down (grow ns at b)"
    unfolding child_down_def
  proof (intro allI impI)
    fix i c k
    assume i: "i < length (grow ns at b)" and "child (grow ns at b ! i) c = Some k"
    from at this show "i < k \<and> k < length (grow ns at b)"
    proof (cases rule: child_growE)
      case 1
      with at show ?thesis by simp
    next
      case 2
      from trie_invD [OF inv 2] show ?thesis by simp
    qed
  qed
  moreover have "child_inj (grow ns at b)"
    unfolding child_inj_def
  proof (intro allI impI)
    fix i j c d k
    assume i: "i < length (grow ns at b)" and j: "j < length (grow ns at b)"
      and ci: "child (grow ns at b ! i) c = Some k" and dj: "child (grow ns at b ! j) d = Some k"
    have new: "k < length ns" if "m < length ns" "child (ns ! m) e = Some k" for m e
      by (rule trie_invD(2) [OF inv that])
    show "i = j \<and> c = d"
    using at i ci
    proof (cases rule: child_growE)
      case 1
      note ci1 = this
      from at j dj show ?thesis
      proof (cases rule: child_growE)
        case 1
        with ci1 show ?thesis by simp
      next
        case 2
        from new [OF 2] ci1 show ?thesis by simp
      qed
    next
      case 2
      note ci2 = this
      from at j dj show ?thesis
      proof (cases rule: child_growE)
        case 1
        from new [OF ci2] 1 show ?thesis by simp
      next
        case 2
        from trie_inv_inj [OF inv ci2(1) 2(1) ci2(2) 2(2)] show ?thesis .
      qed
    qed
  qed
  ultimately show ?thesis
    by (metis length_grow list.size(3) nat.distinct(1) trie_inv_def)
qed

lemma walk_grow_old:
  assumes inv: "trie_inv ns" and at: "at < length ns" and none: "child (ns ! at) b = None"
  shows "i < length ns \<Longrightarrow> walk (grow ns at b) i q =
    (case walk ns i q of Some m \<Rightarrow> Some m
     | None \<Rightarrow> if \<exists>r. walk ns i r = Some at \<and> q = r @ [b] then Some (length ns) else None)"
proof (induction q arbitrary: i rule: rev_induct)
  case (snoc c q)
  show ?case
  proof (cases "walk ns i q")
    case None
    then have "walk ns i (q @ [c]) = None" by (simp add: walk_snoc)
    moreover from snoc None have "walk (grow ns at b) i q = None \<or> walk (grow ns at b) i q = Some (length ns)"
      by simp
    then have "walk (grow ns at b) i (q @ [c]) = None"
      using at by (elim disjE) (simp_all add: walk_snoc child_grow [OF at])
    ultimately show ?thesis using None by simp
  next
    case (Some m)
    then have m: "m < length ns"
      by (rule walk_bound [OF inv snoc.prems])
    from snoc Some have "walk (grow ns at b) i q = Some m" by simp
    then have "walk (grow ns at b) i (q @ [c]) =
        (if m = at \<and> c = b then Some (length ns) else child (ns ! m) c)"
      using m at by (simp add: walk_snoc child_grow)
    moreover have "walk ns i (q @ [c]) = child (ns ! m) c"
      using Some by (simp add: walk_snoc)
    moreover have "(\<exists>r. walk ns i r = Some at \<and> q @ [c] = r @ [b]) \<longleftrightarrow> m = at \<and> c = b"
      using Some by auto
    ultimately show ?thesis
      using none by (cases "child (ns ! m) c") auto
  qed
qed simp

lemma walk_grow:
  assumes inv: "trie_inv ns" and w: "walk ns 0 p = Some at" and none: "child (ns ! at) b = None"
  shows "walk (grow ns at b) 0 q = (if q = p @ [b] then Some (length ns) else walk ns 0 q)"
proof -
  have at: "at < length ns"
    by (rule walk_bound [OF inv trie_inv_nonempty [OF inv] w])
  have "(\<exists>r. walk ns 0 r = Some at \<and> q = r @ [b]) \<longleftrightarrow> q = p @ [b]"
    using walk_root_inj [OF inv w] w by blast
  moreover have "walk ns 0 (p @ [b]) = None"
    using w none by (simp add: walk_snoc)
  ultimately show ?thesis
    using walk_grow_old [OF inv at none trie_inv_nonempty [OF inv], of q]
    by (cases "q = p @ [b]"; cases "walk ns 0 q") simp_all
qed

lemma sym_at_grow:
  assumes inv: "trie_inv ns" and w: "walk ns 0 p = Some at" and none: "child (ns ! at) b = None"
  shows "sym_at (grow ns at b) q = sym_at ns q"
proof -
  have at: "at < length ns"
    by (rule walk_bound [OF inv trie_inv_nonempty [OF inv] w])
  have old: "i < length ns" if "walk ns 0 q = Some i" for i
    by (rule walk_bound [OF inv trie_inv_nonempty [OF inv] that])
  have "walk ns 0 (p @ [b]) = None"
    using w none by (simp add: walk_snoc)
  then show ?thesis
    using old by (cases "q = p @ [b]"; cases "walk ns 0 q")
      (simp_all add: sym_at_def walk_grow [OF inv w none] symbol_grow [OF at] less_imp_le less_imp_neq)
qed

text \<open>Adding a whole path: exactly its prefixes become paths of the trie, no symbol changes.\<close>

lemma add_path_grow:
  "add_path ns at (b # bs) =
     (case child (ns ! at) b of Some k \<Rightarrow> add_path ns k bs
      | None \<Rightarrow> add_path (grow ns at b) (length ns) bs)"
  by (simp add: grow_def split: option.split)

lemma add_path_correct:
  assumes "trie_inv ns" and "walk ns 0 p = Some at" and "add_path ns at bs = (ns', at')"
  shows "trie_inv ns' \<and> walk ns' 0 (p @ bs) = Some at' \<and> (\<forall>q. sym_at ns' q = sym_at ns q) \<and>
    (\<forall>q. walk ns' 0 q \<noteq> None \<longleftrightarrow> walk ns 0 q \<noteq> None \<or> prefix q (p @ bs))"
  using assms
proof (induction bs arbitrary: ns p at)
  case Nil
  have "walk ns 0 q \<noteq> None" if "prefix q p" for q
    using that Nil.prems(2) by (auto simp: prefix_def walk_append bind_eq_Some_conv)
  with Nil show ?case by auto
next
  case (Cons b bs)
  show ?case
  proof (cases "child (ns ! at) b")
    case (Some k)
    then have "walk ns 0 (p @ [b]) = Some k"
      using Cons.prems(2) by (simp add: walk_snoc)
    moreover have "add_path ns k bs = (ns', at')"
      using Cons.prems(3) Some by simp
    ultimately show ?thesis
      using Cons.IH [OF Cons.prems(1)] by fastforce
  next
    case None
    let ?ns = "grow ns at b"
    have at: "at < length ns"
      by (rule walk_bound [OF Cons.prems(1) trie_inv_nonempty [OF Cons.prems(1)] Cons.prems(2)])
    have inv: "trie_inv ?ns"
      by (rule trie_inv_grow [OF Cons.prems(1) at None])
    note wg = walk_grow [OF Cons.prems(1,2) None]
    have w: "walk ?ns 0 (p @ [b]) = Some (length ns)"
      by (simp add: wg)
    have "add_path ?ns (length ns) bs = (ns', at')"
      using Cons.prems(3) None by (simp add: add_path_grow del: add_path.simps)
    from Cons.IH [OF inv w this]
    have IH: "trie_inv ns'" "walk ns' 0 (p @ b # bs) = Some at'"
      "\<forall>q. sym_at ns' q = sym_at ?ns q"
      "\<forall>q. walk ns' 0 q \<noteq> None \<longleftrightarrow> walk ?ns 0 q \<noteq> None \<or> prefix q (p @ b # bs)"
      by simp_all
    then show ?thesis
      using sym_at_grow [OF Cons.prems(1,2) None] by (auto simp: wg)
  qed
qed

lemma add_symbol_correct:
  assumes inv: "trie_inv ns"
  shows "trie_inv (add_symbol ns (s, p)) \<and>
    (\<forall>q. sym_at (add_symbol ns (s, p)) q = (if q = p then Some s else sym_at ns q)) \<and>
    (\<forall>q. walk (add_symbol ns (s, p)) 0 q \<noteq> None \<longleftrightarrow> walk ns 0 q \<noteq> None \<or> prefix q p)"
proof -
  obtain ns' at where ap: "add_path ns 0 p = (ns', at)"
    by fastforce
  have "walk ns 0 [] = Some 0" by simp
  from add_path_correct [OF inv this ap]
  have inv': "trie_inv ns'" and w: "walk ns' 0 p = Some at" and sy: "\<And>q. sym_at ns' q = sym_at ns q"
    and dom: "\<And>q. walk ns' 0 q \<noteq> None \<longleftrightarrow> walk ns 0 q \<noteq> None \<or> prefix q p"
    by auto
  let ?t = "ns'[at := (ns' ! at)\<lparr>symbol := Some s\<rparr>]"
  have t: "add_symbol ns (s, p) = ?t"
    by (simp add: add_symbol_def ap)
  have at: "at < length ns'"
    by (rule walk_bound [OF inv' trie_inv_nonempty [OF inv'] w])
  have ch: "child (?t ! i) c = child (ns' ! i) c" if "i < length ns'" for i c
    using that at by (auto simp: nth_list_update)
  have "trie_inv ?t"
    unfolding trie_inv_def child_down_def child_inj_def length_list_update
  proof (intro conjI allI impI)
    show "?t \<noteq> []" using at by auto
  next
    fix i c k assume "i < length ns'" and "child (?t ! i) c = Some k"
    then show "i < k" and "k < length ns'"
      using trie_invD [OF inv'] ch by metis+
  next
    fix i j c d k
    assume "i < length ns'" and "j < length ns'" and "child (?t ! i) c = Some k" and "child (?t ! j) d = Some k"
    then show "i = j" and "c = d"
      using trie_inv_inj [OF inv', of i j c k d] ch by metis+
  qed
  moreover have wt: "walk ?t i q = walk ns' i q" if "i < length ns'" for i q
    using that
  proof (induction q arbitrary: i)
    case (Cons b q)
    show ?case
    proof (cases "child (ns' ! i) b")
      case (Some k)
      from Cons.IH [OF trie_invD(2) [OF inv' Cons.prems Some]] Some Cons.prems show ?thesis
        by (simp add: ch)
    qed (simp add: ch Cons.prems)
  qed simp
  moreover have "sym_at ?t q = (if q = p then Some s else sym_at ns q)" for q
  proof -
    have "walk ns' 0 q = Some at \<longleftrightarrow> q = p"
      using walk_root_inj [OF inv' w] w by blast
    then show ?thesis
      using at wt [OF trie_inv_nonempty [OF inv'], of q] sy [of q, symmetric]
      by (cases "walk ns' 0 q"; cases "q = p") (simp_all add: sym_at_def nth_list_update)
  qed
  ultimately show ?thesis
    using dom trie_inv_nonempty [OF inv'] by (simp add: t)
qed


lemma foldl_add_symbol:
  assumes "trie_inv ns" and "distinct (map snd es)"
  shows "trie_inv (foldl add_symbol ns es) \<and>
    (\<forall>q. sym_at (foldl add_symbol ns es) q =
       (case find (\<lambda>e. snd e = q) es of Some e \<Rightarrow> Some (fst e) | None \<Rightarrow> sym_at ns q)) \<and>
    (\<forall>q. walk (foldl add_symbol ns es) 0 q \<noteq> None \<longleftrightarrow>
       walk ns 0 q \<noteq> None \<or> (\<exists>e \<in> set es. prefix q (snd e)))"
  using assms
proof (induction es arbitrary: ns)
  case (Cons e es)
  obtain s p where e: "e = (s, p)" by fastforce
  note add = add_symbol_correct [OF Cons.prems(1), of s p]
  from Cons.prems(2) have d: "distinct (map snd es)" and p: "p \<notin> snd ` set es"
    by (simp_all add: e)
  from add have "trie_inv (add_symbol ns e)" by (simp add: e)
  note IH = Cons.IH [OF this d]
  have nf: "find (\<lambda>e. snd e = p) es = None"
    using p by (force simp: find_None_iff image_iff)
  show ?case
  proof (intro conjI allI)
    show "trie_inv (foldl add_symbol ns (e # es))" using IH by simp
  next
    fix q
    show "sym_at (foldl add_symbol ns (e # es)) q =
       (case find (\<lambda>e. snd e = q) (e # es) of Some e \<Rightarrow> Some (fst e) | None \<Rightarrow> sym_at ns q)"
      using IH add nf by (cases "q = p") (auto simp: e split: option.split)
  next
    fix q
    show "walk (foldl add_symbol ns (e # es)) 0 q \<noteq> None \<longleftrightarrow>
       walk ns 0 q \<noteq> None \<or> (\<exists>e \<in> set (e # es). prefix q (snd e))"
      using IH add by (simp add: e)
  qed
qed simp

lemma huff_code_inj: "s < 257 \<Longrightarrow> t < 257 \<Longrightarrow> huff_code s = huff_code t \<Longrightarrow> s = t"
  by (rule huff_prefix_free) simp_all

lemma buildTrie_facts:
  "trie_inv buildTrie \<and>
   (\<forall>q. sym_at buildTrie q =
      map_option fst (find (\<lambda>e. snd e = q) (map (\<lambda>s. (s, huff_code s)) [0..<257]))) \<and>
   (\<forall>q. walk buildTrie 0 q \<noteq> None \<longleftrightarrow> q = [] \<or> (\<exists>s < 257. prefix q (huff_code s)))"
proof -
  have inv: "trie_inv [empty_node]"
    by (simp add: trie_inv_def child_down_def child_inj_def)
  have d: "distinct (map snd (map (\<lambda>s. (s, huff_code s)) [0..<257]))"
    by (simp add: distinct_map inj_on_def huff_code_inj)
  have w: "walk [empty_node] 0 q \<noteq> None \<longleftrightarrow> q = []" for q
    by (cases q) simp_all
  have y: "sym_at [empty_node] q = None" for q
    by (cases q) (simp_all add: sym_at_def)
  have "trie_inv buildTrie"
    and "\<And>q. sym_at buildTrie q =
      map_option fst (find (\<lambda>e. snd e = q) (map (\<lambda>s. (s, huff_code s)) [0..<257]))"
    using foldl_add_symbol [OF inv d]
    by (simp_all add: buildTrie_def y map_option_case split: option.split)
  moreover have "walk buildTrie 0 q \<noteq> None \<longleftrightarrow> q = [] \<or> (\<exists>s < 257. prefix q (huff_code s))" for q
    using foldl_add_symbol [OF inv d] unfolding buildTrie_def by (simp only: w) auto
  ultimately show ?thesis by blast
qed

lemma trie_inv_buildTrie: "trie_inv buildTrie"
  using buildTrie_facts by blast

lemma sym_at_buildTrie: "sym_at buildTrie q = Some s \<longleftrightarrow> s < 257 \<and> q = huff_code s"
proof
  assume "sym_at buildTrie q = Some s"
  then show "s < 257 \<and> q = huff_code s"
    using buildTrie_facts by (auto simp: find_Some_iff)
next
  assume a: "s < 257 \<and> q = huff_code s"
  let ?es = "map (\<lambda>s. (s, huff_code s)) [0..<257]"
  have "find (\<lambda>e. snd e = q) ?es \<noteq> None"
    using a by (auto simp: find_None_iff)
  then obtain e where e: "find (\<lambda>e. snd e = q) ?es = Some e" by blast
  then obtain i where "i < length ?es" "snd (?es ! i) = q" "e = ?es ! i"
    unfolding find_Some_iff by blast
  then have "fst e < 257" and "huff_code (fst e) = q" by auto
  with a have "fst e = s" using huff_code_inj by blast
  with e show "sym_at buildTrie q = Some s"
    using buildTrie_facts by simp
qed

lemma walk_buildTrie: "walk buildTrie 0 q \<noteq> None \<longleftrightarrow> q = [] \<or> (\<exists>s < 257. prefix q (huff_code s))"
  using buildTrie_facts by blast

subsection \<open>Bit strings of bytes\<close>

lemma code_bits_append:
  "code_bits n (k + m) = code_bits (n div 2 ^ m) k @ code_bits (n mod 2 ^ m) m"
proof (rule nth_equalityI)
  fix i assume "i < length (code_bits n (k + m))"
  then have i: "i < k + m" by simp
  show "code_bits n (k + m) ! i = (code_bits (n div 2 ^ m) k @ code_bits (n mod 2 ^ m) m) ! i"
  proof (cases "i < k")
    case True
    then have "k + m - Suc i = m + (k - Suc i)" by simp
    then have "bit n (k + m - Suc i) = bit (n div 2 ^ m) (k - Suc i)"
      by (simp only: bit_iff_odd power_add div_mult2_eq)
    with True i show ?thesis
      by (simp add: nth_append nth_code_bits)
  next
    case False
    with i have ik: "i - k < m" and e: "m - Suc (i - k) = k + m - Suc i" by simp_all
    have "(code_bits (n div 2 ^ m) k @ code_bits (n mod 2 ^ m) m) ! i = bit (n mod 2 ^ m) (m - Suc (i - k))"
      using False ik by (simp add: nth_append nth_code_bits)
    also have "\<dots> = bit n (m - Suc (i - k))"
      using ik by (simp add: bit_take_bit_iff flip: take_bit_eq_mod)
    finally show ?thesis
      using i by (simp add: nth_code_bits e)
  qed
qed simp

lemma code_bits_mult_add:
  "c < 2 ^ m \<Longrightarrow> code_bits (n * 2 ^ m + c) (k + m) = code_bits n k @ code_bits c m"
  by (simp add: code_bits_append)

lemma byte_bits_of_nat: "byte_bits (word_of_nat n) = code_bits (n mod 256) 8"
  by (simp add: byte_bits_def unat_word_of_nat_byte)

lemma length_byte_bits [simp]: "length (byte_bits b) = 8"
  by (simp add: byte_bits_def)

lemma byte_bits_inj: "byte_bits a = byte_bits b \<Longrightarrow> a = b"
  using code_bits_prefixD [of "unat a" 8 "unat b" 8]
  by (simp add: byte_bits_def) (metis word_of_nat_unat_byte)

lemma length_concat_byte_bits [simp]: "length (concat (map byte_bits bs)) = 8 * length bs"
  by (induction bs) simp_all

lemma concat_byte_bits_inj:
  "concat (map byte_bits xs) = concat (map byte_bits ys) \<Longrightarrow> xs = ys"
proof (induction xs arbitrary: ys)
  case Nil
  then have "8 * length ys = 0"
    using arg_cong [OF Nil.prems, of length] by (simp del: concat_eq_Nil_conv)
  then show ?case by simp
next
  case (Cons x xs)
  have "8 * length ys = 8 * length (x # xs)"
    using arg_cong [OF Cons.prems, of length] by simp
  then obtain y ys' where ys: "ys = y # ys'" by (cases ys) auto
  with Cons.prems have "byte_bits x = byte_bits y"
    and c: "concat (map byte_bits xs) = concat (map byte_bits ys')" by simp_all
  from byte_bits_inj [OF this(1)] Cons.IH [OF c] ys show ?case by simp
qed


subsection \<open>What the encoder writes\<close>

lemma flush_bytes_bits:
  assumes "flush_bytes acc have = (acc', h, out)" and "acc < 2 ^ have"
  shows "h < 8 \<and> acc' < 2 ^ h \<and> concat (map byte_bits out) @ code_bits acc' h = code_bits acc have"
  using assms
proof (induction acc "have" arbitrary: acc' h out rule: flush_bytes.induct)
  case (1 acc hv)
  show ?case
  proof (cases "8 \<le> hv")
    case False
    with 1 show ?thesis by (auto simp: flush_bytes.simps [of acc hv])
  next
    case True
    obtain out' where rec: "flush_bytes (acc mod 2 ^ (hv - 8)) (hv - 8) = (acc', h, out')"
      and out: "out = word_of_nat (acc div 2 ^ (hv - 8) mod 256) # out'"
      using "1.prems"(1) True by (auto simp: flush_bytes.simps [of acc hv] Let_def split: prod.splits)
    have "code_bits acc hv = code_bits (acc div 2 ^ (hv - 8)) 8 @ code_bits (acc mod 2 ^ (hv - 8)) (hv - 8)"
      using True code_bits_append [of acc 8 "hv - 8"] by simp
    moreover have "acc div 2 ^ (hv - 8) < 256"
    proof (rule less_mult_imp_div_less)
      have "(2::nat) ^ hv = 2 ^ 8 * 2 ^ (hv - 8)" using True power_add [of "2::nat" 8 "hv - 8"] by simp
      with "1.prems"(2) show "acc < 256 * 2 ^ (hv - 8)" by simp
    qed
    moreover have "h < 8 \<and> acc' < 2 ^ h \<and>
        concat (map byte_bits out') @ code_bits acc' h = code_bits (acc mod 2 ^ (hv - 8)) (hv - 8)"
      by (rule "1.IH" [OF True refl rec]) simp
    ultimately show ?thesis
      by (simp add: out byte_bits_of_nat)
  qed
qed

definition pad_len :: "nat \<Rightarrow> nat" where
  "pad_len n = (8 - n mod 8) mod 8"

lemma last_byte_bits:
  assumes "0 < h" and "h < 8" and "acc < 2 ^ h"
  shows "byte_bits (word_of_nat (push_bit (8 - h) acc OR drop_bit h 255)) =
    code_bits acc h @ replicate (8 - h) True"
proof (rule nth_equalityI)
  show "length (byte_bits (word_of_nat (push_bit (8 - h) acc OR drop_bit h 255))) =
      length (code_bits acc h @ replicate (8 - h) True)"
    using assms by simp
next
  fix i assume "i < length (byte_bits (word_of_nat (push_bit (8 - h) acc OR drop_bit h 255)))"
  then have i: "i < 8" by simp
  have m: "(255 :: nat) = mask 8" by (simp add: mask_eq_exp_minus_1)
  have "8 - Suc i < 8" by simp
  then have b: "byte_bits (word_of_nat n) ! i = bit n (8 - Suc i)" for n
    using i by (simp add: byte_bits_of_nat nth_code_bits bit_take_bit_iff
        flip: take_bit_eq_mod [of 8, simplified])
  have a: "bit acc j \<Longrightarrow> j < h" for j
    using assms(3) by (metis bit_take_bit_iff take_bit_nat_eq_self_iff)
  show "byte_bits (word_of_nat (push_bit (8 - h) acc OR drop_bit h 255)) ! i =
      (code_bits acc h @ replicate (8 - h) True) ! i"
  proof (cases "i < h")
    case True
    then have e: "8 - Suc i - (8 - h) = h - Suc i" and "8 - h \<le> 8 - Suc i" "\<not> h + 7 - i < 8"
      using assms by simp_all
    then show ?thesis
      using True assms i
      by (simp add: b m bit_or_iff bit_push_bit_iff bit_drop_bit_eq bit_mask_iff nth_append nth_code_bits)
  next
    case False
    then have "h + 7 - i < 8" by simp
    then show ?thesis
      using False assms i
      by (simp add: b m bit_or_iff bit_push_bit_iff bit_drop_bit_eq bit_mask_iff nth_append)
  qed
qed

definition codes_of :: "byte list \<Rightarrow> bool list" where
  "codes_of bs = concat (map (\<lambda>b. huff_code (unat b)) bs)"

lemma length_huff_code [simp]: "length (huff_code s) = HUFFMAN_LENGTHS ! s"
  by (simp add: huff_code_def)

lemma huff_emit_bits:
  assumes "acc < 2 ^ h" and "h < 8"
  shows "concat (map byte_bits (huff_emit acc h bs)) =
    code_bits acc h @ codes_of bs @ replicate (pad_len (h + length (codes_of bs))) True"
  using assms
proof (induction bs arbitrary: acc h)
  case Nil
  then show ?case
    by (cases "h = 0") (simp_all add: codes_of_def pad_len_def last_byte_bits code_bits_def)
next
  case (Cons b bs)
  let ?l = "HUFFMAN_LENGTHS ! unat b" and ?c = "HUFFMAN_CODES ! unat b"
  have s: "unat b < 257" using unat_byte_less [of b] by linarith
  obtain acc' h' out where f: "flush_bytes (acc * 2 ^ ?l + ?c) (h + ?l) = (acc', h', out)"
    by (cases "flush_bytes (acc * 2 ^ ?l + ?c) (h + ?l)") auto
  have c: "?c < 2 ^ ?l" by (rule huff_code_bound [OF s])
  have "acc * 2 ^ ?l + ?c < acc * 2 ^ ?l + 2 ^ ?l" using c by simp
  also have "\<dots> = Suc acc * 2 ^ ?l" by simp
  also have "\<dots> \<le> 2 ^ h * 2 ^ ?l" using Cons.prems(1) by (intro mult_le_mono1) simp
  finally have "acc * 2 ^ ?l + ?c < 2 ^ (h + ?l)" by (simp add: power_add)
  from flush_bytes_bits [OF f this] have h': "h' < 8" and a': "acc' < 2 ^ h'"
    and bits: "concat (map byte_bits out) @ code_bits acc' h' = code_bits acc h @ huff_code (unat b)"
    by (simp_all add: code_bits_mult_add [OF c] huff_code_def)
  have "8 * length out + h' = h + ?l"
    using arg_cong [OF bits, of length] by simp
  then have "(h' + n) mod 8 = (h + (?l + n)) mod 8" for n
    by (metis add.assoc add.commute mod_mult_self4)
  then have pad: "pad_len (h' + n) = pad_len (h + (?l + n))" for n
    by (simp add: pad_len_def)
  have "concat (map byte_bits (huff_emit acc h (b # bs))) =
      (concat (map byte_bits out) @ code_bits acc' h') @ codes_of bs @
        replicate (pad_len (h' + length (codes_of bs))) True"
    by (simp add: f Let_def Cons.IH [OF a' h'])
  then show ?case
    by (simp add: bits pad) (simp add: codes_of_def)
qed

lemma huffmanEncode_bits:
  "concat (map byte_bits (huffmanEncode bs)) =
    codes_of bs @ replicate (pad_len (length (codes_of bs))) True"
  using huff_emit_bits [of 0 0 bs] by (simp add: huffmanEncode_def code_bits_def)

lemma pad_len_less: "pad_len n < 8"
  by (simp add: pad_len_def)

text \<open>The size the source allocates for the output, \<open>(bits + 7) >> 3\<close>.\<close>

lemma length_huffmanEncode:
  "length (huffmanEncode bs) = (sum_list (map (\<lambda>b. HUFFMAN_LENGTHS ! unat b) bs) + 7) div 8"
proof -
  have "length (codes_of bs) = sum_list (map (\<lambda>b. HUFFMAN_LENGTHS ! unat b) bs)"
    by (simp add: codes_of_def length_concat comp_def)
  moreover have "8 * length (huffmanEncode bs) = length (codes_of bs) + pad_len (length (codes_of bs))"
    using arg_cong [OF huffmanEncode_bits, of length bs] by simp
  moreover have "n + pad_len n = 8 * ((n + 7) div 8)" for n
  proof -
    have "n = 8 * (n div 8) + n mod 8" by simp
    moreover have "n mod 8 < 8" by simp
    ultimately obtain q r where "n = 8 * q + r" and "r < 8" by blast
    moreover have "(8 * q + r + 7) div 8 = q + (r + 7) div 8"
      by (simp add: add.assoc)
    moreover have "(r + 7) div 8 = (if r = 0 then 0 else 1)"
      using \<open>r < 8\<close> by (auto simp: div_if)
    ultimately show ?thesis by (simp add: pad_len_def)
  qed
  ultimately show ?thesis by simp
qed


subsection \<open>What the decoder reads\<close>

text \<open>
  Between bits the decoder is at the node of the path it has read since the last symbol;
  \<open>at_path\<close> says so of its three counters.
\<close>

definition at_path :: "huff_state \<Rightarrow> byte list \<Rightarrow> bool list \<Rightarrow> bool" where
  "at_path s out p \<longleftrightarrow> hs_out s = out \<and> walk buildTrie 0 p = Some (hs_at s) \<and>
     hs_depth s = length p \<and> hs_allOnes s = (\<forall>b \<in> set p. b)"

lemma at_path_start: "at_path huff_start [] []"
  by (simp add: at_path_def huff_start_def)

lemma at_path_root: "at_path \<lparr>hs_out = out, hs_at = 0, hs_depth = 0, hs_allOnes = True\<rparr> out []"
  by (simp add: at_path_def)

text \<open>One bit: the path is extended, and either it leaves the trie, or ends at a symbol, or goes on.\<close>

lemma huff_bit_cases:
  assumes "at_path s out p"
  shows "huff_bit buildTrie s b =
    (if walk buildTrie 0 (p @ [b]) = None then Inl CompressionError
     else case sym_at buildTrie (p @ [b]) of
       Some sm \<Rightarrow> (if sm = 256 then Inl CompressionError
                  else Inr \<lparr>hs_out = out @ [word_of_nat sm], hs_at = 0, hs_depth = 0, hs_allOnes = True\<rparr>)
     | None \<Rightarrow> Inr (s\<lparr>hs_at := the (walk buildTrie 0 (p @ [b])), hs_depth := hs_depth s + 1,
                        hs_allOnes := hs_allOnes s \<and> b\<rparr>))"
proof -
  from assms have w: "walk buildTrie 0 (p @ [b]) = child (buildTrie ! hs_at s) b" and o: "hs_out s = out"
    by (simp_all add: at_path_def walk_snoc)
  then show ?thesis
    by (cases "child (buildTrie ! hs_at s) b") (simp_all add: huff_bit_def sym_at_def split: option.split)
qed

lemma at_path_step:
  assumes "at_path s out p" and "walk buildTrie 0 (p @ [b]) \<noteq> None"
  shows "at_path (s\<lparr>hs_at := the (walk buildTrie 0 (p @ [b])), hs_depth := hs_depth s + 1,
      hs_allOnes := hs_allOnes s \<and> b\<rparr>) out (p @ [b])"
  using assms by (auto simp: at_path_def)

lemma huff_bits_append:
  "huff_bits t s (xs @ ys) = bindE (huff_bits t s xs) (\<lambda>s'. huff_bits t s' ys)"
proof (induction xs arbitrary: s)
  case (Cons x xs)
  then show ?case by (cases "huff_bit t s x") simp_all
qed simp

text \<open>A path inside a code, but not at its end, carries no symbol.\<close>

lemma sym_at_inside:
  assumes "c < 257" and "prefix q (huff_code c)"
  shows "sym_at buildTrie q = (if q = huff_code c then Some c else None)"
proof (cases "sym_at buildTrie q")
  case None
  then show ?thesis using assms(1) by (metis option.distinct(1) sym_at_buildTrie)
next
  case (Some t)
  then have t: "t < 257" and q: "q = huff_code t" by (simp_all add: sym_at_buildTrie)
  with assms have "t = c" by (intro huff_prefix_free) auto
  with Some q show ?thesis by simp
qed

lemma walk_inside:
  "c < 257 \<Longrightarrow> prefix q (huff_code c) \<Longrightarrow> walk buildTrie 0 q \<noteq> None"
  using walk_buildTrie by blast

lemma feed_code:
  assumes "at_path s out p" and "p @ bs = huff_code c" and "bs \<noteq> []" and "c < 256"
  shows "huff_bits buildTrie s bs =
    Inr \<lparr>hs_out = out @ [word_of_nat c], hs_at = 0, hs_depth = 0, hs_allOnes = True\<rparr>"
  using assms
proof (induction bs arbitrary: s p)
  case (Cons b bs)
  have c: "c < 257" and pre: "prefix (p @ [b]) (huff_code c)"
    using Cons.prems by (auto simp: prefix_def intro: exI [of _ bs] dest: sym)
  note w = walk_inside [OF c pre] and y = sym_at_inside [OF c pre]
  show ?case
  proof (cases "bs = []")
    case True
    then have "p @ [b] = huff_code c" using Cons.prems by simp
    with w y Cons.prems(4) True show ?thesis
      by (simp add: huff_bit_cases [OF Cons.prems(1)])
  next
    case False
    then have "p @ [b] \<noteq> huff_code c"
      unfolding Cons.prems(2) [symmetric] by simp
    moreover obtain k where "walk buildTrie 0 (p @ [b]) = Some k" using w by blast
    ultimately have "huff_bits buildTrie s (b # bs) = huff_bits buildTrie
        (s\<lparr>hs_at := the (walk buildTrie 0 (p @ [b])), hs_depth := hs_depth s + 1, hs_allOnes := hs_allOnes s \<and> b\<rparr>) bs"
      using y by (simp add: huff_bit_cases [OF Cons.prems(1)])
    also have "\<dots> = Inr \<lparr>hs_out = out @ [word_of_nat c], hs_at = 0, hs_depth = 0, hs_allOnes = True\<rparr>"
      using Cons.prems False by (intro Cons.IH [OF at_path_step [OF Cons.prems(1) w]]) auto
    finally show ?thesis .
  qed
qed simp

lemma huff_code_nonempty: "c < 257 \<Longrightarrow> huff_code c \<noteq> []"
proof
  assume c: "c < 257" and "huff_code c = []"
  then have "prefix (huff_code c) (huff_code (if c = 0 then 1 else 0))" by simp
  with c have "c = (if c = 0 then 1 else 0)" by (intro huff_prefix_free) auto
  then show False by (auto split: if_splits)
qed

lemma feed_codes:
  assumes "at_path s out []"
  shows "\<exists>s'. huff_bits buildTrie s (codes_of bs) = Inr s' \<and> at_path s' (out @ bs) []"
  using assms
proof (induction bs arbitrary: s out)
  case Nil
  then show ?case by (simp add: codes_of_def)
next
  case (Cons b bs)
  have c: "unat b < 256" by simp
  have "unat b < 257" using unat_byte_less [of b] by linarith
  then have "huff_code (unat b) \<noteq> []" by (rule huff_code_nonempty)
  from feed_code [OF Cons.prems, of "huff_code (unat b)" "unat b"] this c
  have "huff_bits buildTrie s (codes_of (b # bs)) = huff_bits buildTrie
      \<lparr>hs_out = out @ [b], hs_at = 0, hs_depth = 0, hs_allOnes = True\<rparr> (codes_of bs)"
    by (simp add: codes_of_def huff_bits_append)
  with Cons.IH [OF at_path_root [of "out @ [b]"]] show ?case by simp
qed

lemma eos_entry: "HUFFMAN_CODES ! 256 = mask 30" "HUFFMAN_LENGTHS ! 256 = 30"
  by (simp_all add: HUFFMAN_CODES_def HUFFMAN_LENGTHS_def mask_eq_exp_minus_1)

lemma eos_code: "huff_code 256 = replicate 30 True"
  by (rule nth_equalityI) (simp_all add: huff_code_def eos_entry nth_code_bits bit_mask_iff)

lemma feed_padding:
  assumes "at_path s out (replicate i True)" and "i + k < 30"
  shows "\<exists>s'. huff_bits buildTrie s (replicate k True) = Inr s' \<and> at_path s' out (replicate (i + k) True)"
  using assms
proof (induction k arbitrary: s i)
  case (Suc k)
  let ?p = "replicate i True @ [True]"
  have pe: "?p = replicate (Suc i) True" by (simp add: replicate_append_same)
  have pre: "prefix ?p (huff_code 256)"
    unfolding prefix_def
  proof
    have "huff_code 256 = replicate (Suc i + (30 - Suc i)) True"
      using Suc.prems(2) by (simp add: eos_code)
    then show "huff_code 256 = ?p @ replicate (30 - Suc i) True"
      by (simp only: replicate_add pe)
  qed
  have "length ?p \<noteq> length (huff_code 256)"
    using Suc.prems(2) by (simp add: eos_code del: length_huff_code)
  then have "?p \<noteq> huff_code 256" by (metis)
  then have y: "sym_at buildTrie ?p = None"
    using sym_at_inside [OF _ pre] by simp
  have w: "walk buildTrie 0 ?p \<noteq> None"
    by (rule walk_inside [OF _ pre]) simp
  note step = at_path_step [OF Suc.prems(1) w]
  then have "at_path (s\<lparr>hs_at := the (walk buildTrie 0 ?p), hs_depth := hs_depth s + 1,
      hs_allOnes := hs_allOnes s \<and> True\<rparr>) out (replicate (Suc i) True)" by (simp add: pe)
  from Suc.IH [OF this] Suc.prems(2) show ?case
    using y w by (simp add: huff_bit_cases [OF Suc.prems(1)])
qed auto


lemma pad_len_cong: "(m + k) mod 8 = 0 \<Longrightarrow> k < 8 \<Longrightarrow> pad_len m = k"
proof -
  assume a: "(m + k) mod 8 = 0" and k: "k < 8"
  have "(m mod 8 + k) mod 8 = 0" using a by (simp add: mod_add_left_eq)
  moreover have "m mod 8 < 8" by simp
  ultimately have "m mod 8 + k = 0 \<or> m mod 8 + k = 8"
    using k by (cases "m mod 8 + k < 8") (simp_all add: mod_if [of "m mod 8 + k"])
  then show ?thesis using k by (auto simp: pad_len_def)
qed

text \<open>What a successful run of the decoder has read: the codes of its output, then the path it is at.\<close>

lemma huff_bits_sound:
  assumes "huff_bits buildTrie s bs = Inr s'" and "at_path s out p"
    and "\<forall>c < 257. p \<noteq> huff_code c"
  shows "\<exists>out' q. at_path s' (out @ out') q \<and> p @ bs = codes_of out' @ q"
  using assms
proof (induction bs arbitrary: s out p)
  case Nil
  then have "at_path s' (out @ []) p \<and> p @ [] = codes_of [] @ p" by (simp add: codes_of_def)
  then show ?case by blast
next
  case (Cons b bs)
  from Cons.prems(1) obtain s1 where b: "huff_bit buildTrie s b = Inr s1" and bs: "huff_bits buildTrie s1 bs = Inr s'"
    by (auto simp: bindE_eq_Inr)
  note hb = huff_bit_cases [OF Cons.prems(2), of b]
  have w: "walk buildTrie 0 (p @ [b]) \<noteq> None"
    using b hb by (auto split: if_splits)
  show ?case
  proof (cases "sym_at buildTrie (p @ [b])")
    case None
    have n: "\<forall>c < 257. p @ [b] \<noteq> huff_code c"
      using None sym_at_buildTrie by (metis option.distinct(1))
    from b hb w None have s1: "s1 = s\<lparr>hs_at := the (walk buildTrie 0 (p @ [b])), hs_depth := hs_depth s + 1,
        hs_allOnes := hs_allOnes s \<and> b\<rparr>" by simp
    have "at_path s1 out (p @ [b])"
      unfolding s1 by (rule at_path_step [OF Cons.prems(2) w])
    from Cons.IH [OF bs this n] show ?thesis by simp
  next
    case (Some sm)
    then have sm: "sm < 257" "p @ [b] = huff_code sm" by (simp_all add: sym_at_buildTrie)
    from b hb w Some have ne: "sm \<noteq> 256"
      and s1: "s1 = \<lparr>hs_out = out @ [word_of_nat sm], hs_at = 0, hs_depth = 0, hs_allOnes = True\<rparr>"
      by (auto split: if_splits)
    have "at_path s1 (out @ [word_of_nat sm]) []"
      unfolding s1 by (rule at_path_root)
    moreover have "\<forall>c < 257. [] \<noteq> huff_code c"
      using huff_code_nonempty by metis
    ultimately obtain out' q where q: "at_path s' ((out @ [word_of_nat sm]) @ out') q" "[] @ bs = codes_of out' @ q"
      using Cons.IH [OF bs] by blast
    have "unat (word_of_nat sm :: byte) = sm"
      using sm ne by simp
    with q sm have "at_path s' (out @ (word_of_nat sm # out')) q \<and> p @ b # bs = codes_of (word_of_nat sm # out') @ q"
      by (simp add: codes_of_def)
    then show ?thesis by blast
  qed
qed

subsection \<open>Round trips\<close>

lemma huffmanDecode_Encode: "huffmanDecode (huffmanEncode bs) = Inr bs"
proof -
  let ?k = "pad_len (length (codes_of bs))"
  obtain s1 where s1: "huff_bits buildTrie huff_start (codes_of bs) = Inr s1" and p1: "at_path s1 bs (replicate 0 True)"
    using feed_codes [OF at_path_start, of bs] by auto
  have k: "?k < 8" by (rule pad_len_less)
  then obtain s2 where s2: "huff_bits buildTrie s1 (replicate ?k True) = Inr s2"
    and p2: "at_path s2 bs (replicate (0 + ?k) True)"
    using feed_padding [OF p1, of ?k] by auto
  from p2 have "hs_out s2 = bs" and "hs_depth s2 = ?k" and "hs_allOnes s2"
    by (auto simp: at_path_def)
  with k show ?thesis
    by (simp add: huffmanDecode_def huffmanDecode_with_def huffmanEncode_bits huff_bits_append s1 s2)
qed

lemma huffmanDecode_canonical:
  assumes "huffmanDecode bytes = Inr out"
  shows "huffmanEncode out = bytes"
proof -
  obtain s where s: "huff_bits buildTrie huff_start (concat (map byte_bits bytes)) = Inr s"
    and d: "hs_depth s \<le> 7" and a: "0 < hs_depth s \<longrightarrow> hs_allOnes s" and o: "hs_out s = out"
    using assms by (auto simp: huffmanDecode_def huffmanDecode_with_def bindE_eq_Inr split: if_splits)
  have "\<forall>c < 257. [] \<noteq> huff_code c"
    using huff_code_nonempty by metis
  from huff_bits_sound [OF s at_path_start this] obtain out' q where
    q: "at_path s out' q" and b: "concat (map byte_bits bytes) = codes_of out' @ q" by auto
  have out': "out' = out" and len: "length q \<le> 7" using q o d by (simp_all add: at_path_def)
  have ones: "\<forall>b \<in> set q. b = True"
    using q a by (cases "q = []") (auto simp: at_path_def)
  then have "q = replicate (length q) True"
    by (simp add: replicate_length_same)
  moreover have "length (codes_of out) + length q = 8 * length bytes"
    using arg_cong [OF b, of length] out' by simp
  then have "(length (codes_of out) + length q) mod 8 = 0" by simp
  then have "pad_len (length (codes_of out)) = length q"
    using len by (intro pad_len_cong) auto
  ultimately have "concat (map byte_bits (huffmanEncode out)) = concat (map byte_bits bytes)"
    by (simp add: huffmanEncode_bits b out')
  then show ?thesis by (rule concat_byte_bits_inj)
qed

subsection \<open>Properties\<close>

text \<open>
  C2: The Huffman decoder undoes the encoder on every byte string: the bits buffered between
  bytes, the flush of whole bytes and the padding with ones lose and add nothing.
\<close>

theorem huffman_roundtrip: "huffmanDecode (huffmanEncode bytes) = Inr bytes"
  by (rule huffmanDecode_Encode)

text \<open>
  The decoder accepts no second spelling. Whatever it accepts is exactly what the encoder
  writes for the result: an early end of string, padding of eight bits or more, or padding that
  is not all ones is refused.
\<close>

theorem huffman_canonical:
  assumes "huffmanDecode bytes = Inr out"
  shows "huffmanEncode out = bytes"
  using assms by (rule huffmanDecode_canonical)

lemma huffmanEncode_a: "huffmanEncode [97] = [31]"
  by (simp add: huffmanEncode_def HUFFMAN_CODES_def HUFFMAN_LENGTHS_def flush_bytes.simps Let_def)

theorem huffman_canonical_witness: "huffmanEncode [97] = [31]"
  by (rule huffman_canonical) (use huffmanDecode_Encode [of "[97]"] huffmanEncode_a in simp)

end
