(* ===== verification/Hpack.thy ===== *)
theory Hpack
  imports Huffman
begin

unbundle bit_operations_syntax

text \<open>
  HPACK (RFC 7541) as \<open>quickjs/runtime/node-http2.js\<close> has it: \<open>HpackTable\<close>,
  \<open>HpackDecoder\<close> and \<open>HpackEncoder\<close>.

  A reader of the source works on the bytes left in the buffer; here it takes them and returns
  what it left. The decoder's table survives an exception, so \<open>decode\<close> returns it on every
  path. The text codecs are the arguments the source passes.
\<close>

subsection \<open>The dynamic table\<close>

record hpack_table =
  entries :: "(jsstr \<times> jsstr) list"  \<comment> \<open>newest first\<close>
  tsize :: int
  maxSize :: int

definition new_table :: "int \<Rightarrow> hpack_table" where
  "new_table mx = \<lparr>entries = [], tsize = 0, maxSize = mx\<rparr>"

definition entry_size :: "jsstr \<times> jsstr \<Rightarrow> int" where
  "entry_size e = int (length (fst e)) + int (length (snd e)) + 32"

definition table_get :: "hpack_table \<Rightarrow> nat \<Rightarrow> hpack_error + (jsstr \<times> jsstr)" where
  "table_get t index =
     (if index < 1 then Inl CompressionError
      else if index \<le> 61 then Inr (HPACK_STATIC ! (index - 1))
      else if index - 62 < length (entries t) then Inr (entries t ! (index - 62))
      else Inl CompressionError)"

function evict_loop :: "(jsstr \<times> jsstr) list \<Rightarrow> int \<Rightarrow> int \<Rightarrow> (jsstr \<times> jsstr) list \<times> int" where
  "evict_loop es sz mx =
     (if mx < sz \<and> es \<noteq> [] then evict_loop (butlast es) (sz - entry_size (last es)) mx
      else (es, sz))"
  by pat_completeness auto
termination
  by (relation "measure (\<lambda>(es, _, _). length es)") auto

declare evict_loop.simps [simp del]

definition table_evict :: "hpack_table \<Rightarrow> hpack_table" where
  "table_evict t =
     (let (es, sz) = evict_loop (entries t) (tsize t) (maxSize t)
      in t\<lparr>entries := es, tsize := sz\<rparr>)"

definition table_add :: "hpack_table \<Rightarrow> jsstr \<Rightarrow> jsstr \<Rightarrow> hpack_table" where
  "table_add t name value =
     (let sz = entry_size (name, value)
      in if maxSize t < sz then t\<lparr>entries := [], tsize := 0\<rparr>
         else table_evict (t\<lparr>entries := (name, value) # entries t, tsize := tsize t + sz\<rparr>))"

definition table_resize :: "hpack_table \<Rightarrow> int \<Rightarrow> hpack_table" where
  "table_resize t mx = table_evict (t\<lparr>maxSize := mx\<rparr>)"

subsection \<open>Integers\<close>

fun readCont :: "nat \<Rightarrow> nat \<Rightarrow> byte list \<Rightarrow> hpack_error + (nat \<times> byte list)" where
  "readCont val shift [] = Inl CompressionError"
| "readCont val shift (b # bs) =
     (let val' = val + unat (b AND 127) * 2 ^ shift
      in if b AND 128 = 0 then Inr (val', bs)
         else if 35 < shift + 7 then Inl CompressionError
         else readCont val' (shift + 7) bs)"

text \<open>Past the end the source reads \<open>undefined\<close>, whose bits are 0; its callers have looked first.\<close>

definition readInt :: "nat \<Rightarrow> byte list \<Rightarrow> hpack_error + (nat \<times> byte list)" where
  "readInt pre bs =
     (case bs of
        [] \<Rightarrow> Inr (0, [])
      | b # rest \<Rightarrow>
          (let mx = 2 ^ pre - 1; val = unat (b AND word_of_nat mx)
           in if val < mx then Inr (val, rest) else readCont val 0 rest))"

fun writeCont :: "nat \<Rightarrow> byte list" where
  "writeCont val =
     (if 128 \<le> val then ((word_of_nat val AND 127) OR 128) # writeCont (val div 128)
      else [word_of_nat val])"

declare writeCont.simps [simp del]

definition writeInt :: "nat \<Rightarrow> byte \<Rightarrow> nat \<Rightarrow> byte list" where
  "writeInt pre msk val =
     (let mx = 2 ^ pre - 1
      in if val < mx then [msk OR word_of_nat val]
         else (msk OR word_of_nat mx) # writeCont (val - mx))"

subsection \<open>Strings\<close>

definition readString :: "(byte list \<Rightarrow> jsstr) \<Rightarrow> byte list \<Rightarrow> hpack_error + (jsstr \<times> byte list)" where
  "readString textDecoder bs =
     (case bs of
        [] \<Rightarrow> Inl CompressionError
      | b # _ \<Rightarrow>
          bindE (readInt 7 bs) (\<lambda>(len, bs).
            if length bs < len then Inl CompressionError
            else bindE (if b AND 128 \<noteq> 0 then huffmanDecode (take len bs) else Inr (take len bs))
                   (\<lambda>raw. Inr (textDecoder raw, drop len bs))))"

definition writeString :: "(jsstr \<Rightarrow> byte list) \<Rightarrow> jsstr \<Rightarrow> byte list" where
  "writeString textEncoder text =
     (let raw = textEncoder text; packed = huffmanEncode raw
      in if length packed < length raw then writeInt 7 128 (length packed) @ packed
         else writeInt 7 0 (length raw) @ raw)"

subsection \<open>Decoding a header block\<close>

type_synonym header = "jsstr \<times> jsstr \<times> bool"

record hpack_decoder =
  dtable :: hpack_table
  dlimit :: nat

definition new_decoder :: "nat \<Rightarrow> hpack_decoder" where
  "new_decoder maxTableSize = \<lparr>dtable = new_table (int maxTableSize), dlimit = maxTableSize\<rparr>"

definition setLimit :: "hpack_decoder \<Rightarrow> nat \<Rightarrow> hpack_decoder" where
  "setLimit d sz = d\<lparr>dlimit := sz\<rparr>"

text \<open>The name of a literal field: from the table, or spelled out.\<close>

definition readName ::
  "(byte list \<Rightarrow> jsstr) \<Rightarrow> hpack_table \<Rightarrow> nat \<Rightarrow> byte list \<Rightarrow> hpack_error + (jsstr \<times> byte list)" where
  "readName textDecoder t index bs =
     (if index \<noteq> 0 then bindE (table_get t index) (\<lambda>e. Inr (fst e, bs))
      else readString textDecoder bs)"

text \<open>
  One turn of the loop: the new table, the header if the turn was a field, and the bytes left.
  Nothing that can throw in a turn comes after a change of the table.
\<close>

definition decode_field ::
  "(byte list \<Rightarrow> jsstr) \<Rightarrow> nat \<Rightarrow> bool \<Rightarrow> hpack_table \<Rightarrow> byte \<Rightarrow> byte list \<Rightarrow>
     hpack_error + (hpack_table \<times> header option \<times> byte list)" where
  "decode_field textDecoder limit sawField t first bs =
     (if first AND 128 \<noteq> 0 then
        bindE (readInt 7 (first # bs)) (\<lambda>(index, bs).
        bindE (table_get t index) (\<lambda>(name, val).
          Inr (t, Some (name, val, False), bs)))
      else if first AND 64 \<noteq> 0 then
        bindE (readInt 6 (first # bs)) (\<lambda>(index, bs).
        bindE (readName textDecoder t index bs) (\<lambda>(name, bs).
        bindE (readString textDecoder bs) (\<lambda>(val, bs).
          Inr (table_add t name val, Some (name, val, False), bs))))
      else if first AND 32 \<noteq> 0 then
        (if sawField then Inl CompressionError
         else bindE (readInt 5 (first # bs)) (\<lambda>(sz, bs).
           if limit < sz then Inl CompressionError
           else Inr (table_resize t (int sz), None, bs)))
      else
        bindE (readInt 4 (first # bs)) (\<lambda>(index, bs).
        bindE (readName textDecoder t index bs) (\<lambda>(name, bs).
        bindE (readString textDecoder bs) (\<lambda>(val, bs).
          Inr (t, Some (name, val, first AND 16 \<noteq> 0), bs)))))"

definition header_size :: "header option \<Rightarrow> int" where
  "header_size h = (case h of None \<Rightarrow> 0 | Some (n, v, _) \<Rightarrow> entry_size (n, v))"

lemma readCont_shorter: "readCont v s bs = Inr (x, rest) \<Longrightarrow> length rest < length bs"
proof (induction v s bs rule: readCont.induct)
  case (2 v s b bs)
  then show ?case
    by (cases "b AND 128 = 0"; cases "35 < s + 7") (auto simp: Let_def)
qed simp

lemma readInt_shorter: "readInt p (b # bs) = Inr (x, rest) \<Longrightarrow> length rest \<le> length bs"
  by (auto simp: readInt_def Let_def dest: readCont_shorter split: if_splits)

lemma readString_shorter: "readString f bs = Inr (x, rest) \<Longrightarrow> length rest \<le> length bs"
  by (cases bs) (auto simp: readString_def bindE_eq_Inr dest!: readInt_shorter split: if_splits)

lemma readName_shorter: "readName f t i bs = Inr (x, rest) \<Longrightarrow> length rest \<le> length bs"
  by (auto simp: readName_def bindE_eq_Inr dest: readString_shorter split: if_splits)

lemma decode_field_shorter:
  "decode_field f l saw t b bs = Inr (t', h, rest) \<Longrightarrow> length rest \<le> length bs"
  by (auto simp: decode_field_def bindE_eq_Inr
      dest!: readInt_shorter readString_shorter readName_shorter split: if_splits)

text \<open>
  The loop. \<open>maxListSize\<close> 0 is no limit (the value is falsy). When the list grows too large the
  loop stops in the middle of the block, with the table as it is then.
\<close>

function decode_loop ::
  "(byte list \<Rightarrow> jsstr) \<Rightarrow> nat \<Rightarrow> nat \<Rightarrow> hpack_table \<Rightarrow> bool \<Rightarrow> int \<Rightarrow> header list \<Rightarrow> byte list \<Rightarrow>
     hpack_table \<times> (hpack_error + header list)" where
  "decode_loop f limit maxListSize t sawField tot headers [] = (t, Inr headers)"
| "decode_loop f limit maxListSize t sawField tot headers (b # bs) =
     (case decode_field f limit sawField t b bs of
        Inl e \<Rightarrow> (t, Inl e)
      | Inr (t', h, rest) \<Rightarrow>
          (if maxListSize \<noteq> 0 \<and> int maxListSize * 4 < tot + header_size h
           then (t', Inl HeaderListTooLarge)
           else decode_loop f limit maxListSize t' (sawField \<or> h \<noteq> None) (tot + header_size h)
                  (headers @ (case h of None \<Rightarrow> [] | Some x \<Rightarrow> [x])) rest))"
  by pat_completeness auto
termination
  by (relation "measure (\<lambda>(_, _, _, _, _, _, _, bs). length bs)")
    (auto dest!: decode_field_shorter)

definition hpack_decode ::
  "(byte list \<Rightarrow> jsstr) \<Rightarrow> hpack_decoder \<Rightarrow> nat \<Rightarrow> byte list \<Rightarrow>
     hpack_decoder \<times> (hpack_error + header list)" where
  "hpack_decode textDecoder d maxListSize bytes =
     (let (t, r) = decode_loop textDecoder (dlimit d) maxListSize (dtable d) False 0 [] bytes
      in (d\<lparr>dtable := t\<rparr>, r))"

subsection \<open>Encoding a header block\<close>

record hpack_encoder =
  etable :: hpack_table
  pendingResize :: "nat option"

definition new_encoder :: "nat \<Rightarrow> hpack_encoder" where
  "new_encoder maxTableSize = \<lparr>etable = new_table (int maxTableSize), pendingResize = None\<rparr>"

definition setTableSize :: "hpack_encoder \<Rightarrow> nat \<Rightarrow> hpack_encoder" where
  "setTableSize e sz =
     \<lparr>etable = table_resize (etable e) (int (min sz 4096)), pendingResize = Some (min sz 4096)\<rparr>"

text \<open>
  The two search loops. \<open>Inl i\<close> is the early return of an exact match, \<open>Inr i\<close> the index of the
  first entry with the name so far (0 for none).
\<close>

fun find_in :: "(jsstr \<times> jsstr) list \<Rightarrow> nat \<Rightarrow> jsstr \<Rightarrow> jsstr \<Rightarrow> nat \<Rightarrow> nat + nat" where
  "find_in [] i name val nameIndex = Inr nameIndex"
| "find_in (e # es) i name val nameIndex =
     (if fst e = name
      then (if snd e = val then Inl i
            else find_in es (i + 1) name val (if nameIndex = 0 then i else nameIndex))
      else find_in es (i + 1) name val nameIndex)"

definition findIndex :: "hpack_table \<Rightarrow> jsstr \<Rightarrow> jsstr \<Rightarrow> nat \<times> bool" where
  "findIndex t name val =
     (case find_in HPACK_STATIC 1 name val 0 of
        Inl i \<Rightarrow> (i, True)
      | Inr n \<Rightarrow>
          (case find_in (entries t) 62 name val n of
             Inl i \<Rightarrow> (i, True)
           | Inr n' \<Rightarrow> (n', False)))"

definition encode_header :: "(jsstr \<Rightarrow> byte list) \<Rightarrow> hpack_table \<Rightarrow> header \<Rightarrow> byte list \<times> hpack_table" where
  "encode_header textEncoder t h =
     (let (name, val, sensitive) = h; (index, exact) = findIndex t name val
      in if exact \<and> \<not> sensitive then (writeInt 7 128 index, t)
         else let dynamic = (\<not> sensitive \<and> 2 * entry_size (name, val) \<le> maxSize t)
              in ((if dynamic then writeInt 6 64 index
                   else writeInt 4 (if sensitive then 16 else 0) index)
                  @ (if index = 0 then writeString textEncoder name else [])
                  @ writeString textEncoder val,
                  if dynamic then table_add t name val else t))"

fun encode_headers :: "(jsstr \<Rightarrow> byte list) \<Rightarrow> hpack_table \<Rightarrow> header list \<Rightarrow> byte list \<times> hpack_table" where
  "encode_headers textEncoder t [] = ([], t)"
| "encode_headers textEncoder t (h # hs) =
     (let (bytes, t') = encode_header textEncoder t h;
          (more, t'') = encode_headers textEncoder t' hs
      in (bytes @ more, t''))"

definition hpack_encode ::
  "(jsstr \<Rightarrow> byte list) \<Rightarrow> hpack_encoder \<Rightarrow> header list \<Rightarrow> byte list \<times> hpack_encoder" where
  "hpack_encode textEncoder e headers =
     (let start = (case pendingResize e of None \<Rightarrow> [] | Some n \<Rightarrow> writeInt 5 32 n);
          (bytes, t) = encode_headers textEncoder (etable e) headers
      in (start @ bytes, \<lparr>etable = t, pendingResize = None\<rparr>))"

subsection \<open>Integers are read back\<close>

lemma writeCont_nonempty: "writeCont v \<noteq> []"
  by (subst writeCont.simps) simp

lemma unat_and_mask:
  fixes b :: byte
  shows "unat (b AND mask p) = unat b mod 2 ^ p"
proof -
  have "b AND mask p = take_bit p b" by (simp only: take_bit_eq_mask)
  then have "unat (b AND mask p) = take_bit p (unat b)" by (simp only: unsigned_take_bit_eq)
  then show ?thesis by (simp only: take_bit_eq_mod)
qed

lemma unat_and_127: "unat ((b :: byte) AND 127) = unat b mod 128"
  using unat_and_mask [of b 7] by (simp add: mask_eq_exp_minus_1)

lemma cont_byte:
  fixes b :: byte
  shows "unat ((word_of_nat v AND 127 OR 128 :: byte) AND 127) = v mod 128"
    and "(word_of_nat v AND 127 OR 128 :: byte) AND 128 \<noteq> 0"
proof -
  have "(word_of_nat v AND 127 OR 128 :: byte) AND 127 = word_of_nat v AND 127"
  proof -
    have "(128 :: byte) AND 127 = 0" by simp
    then show ?thesis by (simp add: bit.conj_disj_distrib2 and.assoc)
  qed
  then show "unat ((word_of_nat v AND 127 OR 128 :: byte) AND 127) = v mod 128"
    by (simp add: unat_and_127 unat_word_of_nat_byte mod_mod_cancel)
  show "(word_of_nat v AND 127 OR 128 :: byte) AND 128 \<noteq> 0"
    using and_exp_eq_0_iff_not_bit [of "word_of_nat v AND 127 OR 128 :: byte" 7]
    by (simp add: bit_or_iff)
qed

lemma and_128: "(b :: byte) AND 128 = 0 \<longleftrightarrow> \<not> bit b 7"
  and and_64: "b AND 64 = 0 \<longleftrightarrow> \<not> bit b 6"
  and and_32: "b AND 32 = 0 \<longleftrightarrow> \<not> bit b 5"
  and and_16: "b AND 16 = 0 \<longleftrightarrow> \<not> bit b 4"
  using and_exp_eq_0_iff_not_bit [of b 7] and_exp_eq_0_iff_not_bit [of b 6]
    and_exp_eq_0_iff_not_bit [of b 5] and_exp_eq_0_iff_not_bit [of b 4] by simp_all

lemma small_byte:
  assumes "v < 128"
  shows "unat ((word_of_nat v :: byte) AND 127) = v" and "(word_of_nat v :: byte) AND 128 = 0"
proof -
  show "unat ((word_of_nat v :: byte) AND 127) = v"
    using assms by (simp add: unat_and_127)
  have "\<not> bit (unat (word_of_nat v :: byte)) 7"
    using assms by (simp add: bit_iff_odd)
  then have "\<not> bit (word_of_nat v :: byte) 7"
    unfolding bit_unsigned_iff by simp
  then show "(word_of_nat v :: byte) AND 128 = 0"
    by (simp add: and_128)
qed

lemma readCont_writeCont:
  "v < 128 ^ Suc k \<Longrightarrow> s + 7 * k \<le> 35 \<Longrightarrow>
   readCont a s (writeCont v @ rest) = Inr (a + v * 2 ^ s, rest)"
proof (induction k arbitrary: v a s)
  case 0
  then show ?case by (subst writeCont.simps) (simp add: small_byte)
next
  case (Suc k)
  show ?case
  proof (cases "128 \<le> v")
    case False
    then show ?thesis by (subst writeCont.simps) (simp add: small_byte)
  next
    case True
    have "v div 128 < 128 ^ Suc k"
      using Suc.prems(1) by (simp add: less_mult_imp_div_less mult.commute)
    moreover have "v mod 128 * 2 ^ s + v div 128 * 2 ^ (s + 7) = v * 2 ^ s"
    proof -
      have "v mod 128 * 2 ^ s + v div 128 * 2 ^ (s + 7) = (v mod 128 + v div 128 * 128) * 2 ^ s"
        by (simp only: power_add add_mult_distrib mult.assoc) (simp add: mult.commute mult.left_commute)
      then show ?thesis by (simp only: mod_div_mult_eq)
    qed
    ultimately show ?thesis
      using True Suc.prems(2) Suc.IH [of "v div 128" "s + 7" "a + v mod 128 * 2 ^ s"]
      by (subst writeCont.simps) (simp add: cont_byte Let_def add.assoc)
  qed
qed


text \<open>
  The first byte of an integer is the pattern of its field, \<open>msk\<close>, over the low \<open>pre\<close> bits:
  the pattern's bits are still there for the decoder to test, the low bits still hold the value.
\<close>

lemma word_of_nat_low_bits:
  assumes "v < 2 ^ pre" and "pre \<le> n"
  shows "\<not> bit (word_of_nat v :: byte) n"
proof -
  have "v < 2 ^ n"
    using assms by (meson less_le_trans one_le_numeral power_increasing)
  moreover have "v mod 256 \<le> v" by simp
  ultimately have "\<not> bit (unat (word_of_nat v :: byte)) n"
    by (simp add: bit_iff_odd unat_word_of_nat_byte)
  then show ?thesis
    unfolding bit_unsigned_iff by simp
qed

lemma first_byte_bit:
  assumes "v < 2 ^ pre" and "pre \<le> n"
  shows "bit (msk OR word_of_nat v :: byte) n = bit msk n"
  using word_of_nat_low_bits [OF assms] by (simp add: bit_or_iff)

lemma first_byte_low:
  assumes "v < 2 ^ pre" and "pre \<le> 8" and "msk AND mask pre = 0"
  shows "unat ((msk OR word_of_nat v :: byte) AND word_of_nat (2 ^ pre - 1)) = v"
proof -
  have "(word_of_nat (2 ^ pre - 1) :: byte) = mask pre"
    by (simp add: mask_eq_exp_minus_1 of_nat_diff)
  then have "(msk OR word_of_nat v :: byte) AND word_of_nat (2 ^ pre - 1) = word_of_nat v AND mask pre"
    using assms(3) by (simp add: bit.conj_disj_distrib2)
  then have "unat ((msk OR word_of_nat v :: byte) AND word_of_nat (2 ^ pre - 1)) = v mod 256 mod 2 ^ pre"
    by (simp add: unat_and_mask unat_word_of_nat_byte)
  moreover have "v < 256"
    using assms(1,2) power_increasing [of pre 8 "2::nat"] by simp
  ultimately show ?thesis using assms(1) by simp
qed

lemma writeInt_Cons:
  "\<exists>v bs. writeInt pre msk val = (msk OR word_of_nat v) # bs \<and> v < 2 ^ pre"
proof (cases "val < 2 ^ pre - 1")
  case True
  then have "writeInt pre msk val = (msk OR word_of_nat val) # [] \<and> val < 2 ^ pre"
    by (simp add: writeInt_def)
  then show ?thesis by blast
next
  case False
  have "writeInt pre msk val = (msk OR word_of_nat (2 ^ pre - 1)) # writeCont (val - (2 ^ pre - 1)) \<and>
      2 ^ pre - 1 < (2 :: nat) ^ pre"
    using False by (simp add: writeInt_def)
  then show ?thesis by blast
qed

definition int_ok :: "nat \<Rightarrow> bool" where
  "int_ok v \<longleftrightarrow> v < 2 ^ 42"

lemma readInt_writeInt:
  assumes "pre \<le> 8" and "msk AND mask pre = 0" and "int_ok val"
  shows "readInt pre (writeInt pre msk val @ rest) = Inr (val, rest)"
proof (cases "val < 2 ^ pre - 1")
  case True
  then have "val < 2 ^ pre" by simp
  from first_byte_low [OF this assms(1,2)] True show ?thesis
    by (simp add: writeInt_def readInt_def Let_def)
next
  case False
  have "(2 :: nat) ^ pre - 1 < 2 ^ pre" by simp
  note low = first_byte_low [OF this assms(1,2)]
  have "val - (2 ^ pre - 1) \<le> val" by (rule diff_le_self)
  then have "val - (2 ^ pre - 1) < 128 ^ Suc 5"
    using assms(3) unfolding int_ok_def by (rule le_less_trans [THEN less_le_trans]) simp
  from readCont_writeCont [OF this, of 0 "2 ^ pre - 1" rest] False low show ?thesis
    by (simp add: writeInt_def readInt_def Let_def)
qed

text \<open>The integers of each kind of field are self-delimiting.\<close>

interpretation int_indexed: framed "writeInt 7 128" "readInt 7" int_ok
  by unfold_locales (simp add: readInt_writeInt mask_eq_exp_minus_1)

interpretation int_incremental: framed "writeInt 6 64" "readInt 6" int_ok
  by unfold_locales (simp add: readInt_writeInt mask_eq_exp_minus_1)

interpretation int_resize: framed "writeInt 5 32" "readInt 5" int_ok
  by unfold_locales (simp add: readInt_writeInt mask_eq_exp_minus_1)

interpretation int_plain: framed "writeInt 4 0" "readInt 4" int_ok
  by unfold_locales (simp add: readInt_writeInt mask_eq_exp_minus_1)

interpretation int_never: framed "writeInt 4 16" "readInt 4" int_ok
  by unfold_locales (simp add: readInt_writeInt mask_eq_exp_minus_1)

interpretation int_raw: framed "writeInt 7 0" "readInt 7" int_ok
  by unfold_locales (simp add: readInt_writeInt mask_eq_exp_minus_1)

subsection \<open>Strings\<close>

definition text_ok :: "(jsstr \<Rightarrow> byte list) \<Rightarrow> (byte list \<Rightarrow> jsstr) \<Rightarrow> jsstr \<Rightarrow> bool" where
  "text_ok enc dec s \<longleftrightarrow> dec (enc s) = s \<and> int_ok (length (enc s))"

lemma readString_writeString:
  assumes "text_ok enc dec s"
  shows "readString dec (writeString enc s @ rest) = Inr (s, rest)"
proof (cases "length (huffmanEncode (enc s)) < length (enc s)")
  case True
  let ?p = "huffmanEncode (enc s)"
  have ok: "int_ok (length ?p)"
    using True assms by (simp add: text_ok_def int_ok_def)
  obtain v bs where w: "writeInt 7 128 (length ?p) = (128 OR word_of_nat v) # bs" and v: "v < 2 ^ 7"
    using writeInt_Cons by blast
  have "(128 OR word_of_nat v :: byte) AND 128 \<noteq> 0"
    using first_byte_bit [OF v, of 7 128] by (simp add: and_128)
  moreover have "readInt 7 (writeInt 7 128 (length ?p) @ ?p @ rest) = Inr (length ?p, ?p @ rest)"
    by (rule int_indexed.get_put [OF ok])
  ultimately show ?thesis
    using True assms w by (simp add: writeString_def readString_def Let_def huffmanDecode_Encode text_ok_def)
next
  case False
  obtain v bs where w: "writeInt 7 0 (length (enc s)) = (0 OR word_of_nat v) # bs" and v: "v < 2 ^ 7"
    using writeInt_Cons by blast
  have "(0 OR word_of_nat v :: byte) AND 128 = 0"
    using first_byte_bit [OF v, of 7 0] by (simp add: and_128)
  moreover have "readInt 7 (writeInt 7 0 (length (enc s)) @ enc s @ rest) = Inr (length (enc s), enc s @ rest)"
    by (rule int_raw.get_put) (use assms in \<open>simp add: text_ok_def\<close>)
  ultimately show ?thesis
    using False assms w by (simp add: writeString_def readString_def Let_def text_ok_def)
qed

subsection \<open>The table as a bounded queue\<close>

text \<open>
  What eviction promises: of the entries, newest first, the longest prefix that fits. Two
  tables that see the same insertions and resizes, one holding a prefix of the other, stay that
  way, whatever older entries the longer one still has.
\<close>

fun fit :: "('e \<Rightarrow> int) \<Rightarrow> int \<Rightarrow> 'e list \<Rightarrow> 'e list" where
  "fit sz mx [] = []"
| "fit sz mx (e # es) = (if sz e \<le> mx then e # fit sz (mx - sz e) es else [])"

lemma fit_prefix_mono:
  fixes mx my :: int
  shows "prefix xs ys \<Longrightarrow> mx \<le> my \<Longrightarrow> prefix (fit sz mx xs) (fit sz my ys)"
proof (induction xs arbitrary: ys mx my)
  case (Cons x xs)
  then obtain zs where "ys = x # zs" and "prefix xs zs"
    by (auto simp: prefix_def)
  moreover have "prefix (fit sz (mx - sz x) xs) (fit sz (my - sz x) zs)" if "prefix xs zs"
    using that Cons.prems(2) by (intro Cons.IH) simp_all
  ultimately show ?case using Cons.prems(2) by simp
qed simp

lemma fit_all: "\<forall>e \<in> set es. 0 \<le> sz e \<Longrightarrow> sum_list (map sz es) \<le> mx \<Longrightarrow> fit sz mx es = es"
proof (induction es arbitrary: mx)
  case (Cons e es)
  have "0 \<le> sum_list (map sz es)"
    using Cons.prems(1) by (intro sum_list_nonneg) auto
  with Cons show ?case by simp
qed simp

lemma sum_fit:
  fixes mx :: int
  shows "0 \<le> mx \<Longrightarrow> sum_list (map sz (fit sz mx es)) \<le> mx"
proof (induction es arbitrary: mx)
  case (Cons e es)
  have "sum_list (map sz (fit sz (mx - sz e) es)) \<le> mx - sz e" if "sz e \<le> mx"
    using that by (intro Cons.IH) simp
  then show ?case
    using Cons.prems by (simp add: le_diff_eq add.commute)
qed simp

lemma fit_snoc:
  "\<forall>e \<in> set (es @ [x]). 0 \<le> sz e \<Longrightarrow> mx < sum_list (map sz (es @ [x])) \<Longrightarrow>
   fit sz mx (es @ [x]) = fit sz mx es"
proof (induction es arbitrary: mx)
  case (Cons e es)
  then show ?case
    using Cons.IH [of "mx - sz e"] by simp
qed simp

locale evicting_table =
  fixes ents :: "'t \<Rightarrow> 'e list"
    and cap :: "'t \<Rightarrow> int"
    and insert_entry :: "'t \<Rightarrow> 'e \<Rightarrow> 't"
    and resize :: "'t \<Rightarrow> int \<Rightarrow> 't"
    and sz :: "'e \<Rightarrow> int"
    and inv :: "'t \<Rightarrow> bool"
  assumes sz_pos: "0 < sz e"
    and inv_fits: "inv t \<Longrightarrow> sum_list (map sz (ents t)) \<le> cap t"
    and inv_cap: "inv t \<Longrightarrow> 0 \<le> cap t"
    and inv_insert: "inv t \<Longrightarrow> inv (insert_entry t e)"
    and inv_resize: "inv t \<Longrightarrow> 0 \<le> c \<Longrightarrow> inv (resize t c)"
    and cap_insert: "inv t \<Longrightarrow> cap (insert_entry t e) = cap t"
    and cap_resize: "inv t \<Longrightarrow> 0 \<le> c \<Longrightarrow> cap (resize t c) = c"
    and ents_insert: "inv t \<Longrightarrow> ents (insert_entry t e) = fit sz (cap t) (e # ents t)"
    and ents_resize: "inv t \<Longrightarrow> 0 \<le> c \<Longrightarrow> ents (resize t c) = fit sz c (ents t)"
begin

text \<open>\<open>s\<close> follows \<open>t\<close>: its entries are the newest of \<open>t\<close>'s, and it has no more room.\<close>

definition follows :: "'t \<Rightarrow> 't \<Rightarrow> bool" where
  "follows s t \<longleftrightarrow> inv s \<and> inv t \<and> cap s \<le> cap t \<and> prefix (ents s) (ents t)"

lemma follows_refl: "inv t \<Longrightarrow> follows t t"
  by (simp add: follows_def)

lemma follows_insert: "follows s t \<Longrightarrow> follows (insert_entry s e) (insert_entry t e)"
  by (simp add: follows_def inv_insert cap_insert ents_insert fit_prefix_mono del: fit.simps)

lemma fit_ents: "inv t \<Longrightarrow> fit sz (cap t) (ents t) = ents t"
  by (rule fit_all) (auto simp: inv_fits less_imp_le sz_pos)

text \<open>A resize the longer table has still to hear of.\<close>

lemma follows_resize:
  assumes "inv s" and "inv t" and "prefix (ents s) (ents t)"
  shows "follows s (resize t (cap s))"
proof -
  have "prefix (fit sz (cap s) (ents s)) (fit sz (cap s) (ents t))"
    by (rule fit_prefix_mono [OF assms(3) order.refl])
  then show ?thesis
    using assms by (simp add: follows_def fit_ents inv_resize cap_resize ents_resize inv_cap)
qed

lemma resize_keeps_prefix:
  assumes "inv s" and "prefix (ents s) (ents t)" and "0 \<le> c"
  shows "prefix (ents (resize s c)) (ents t)"
proof -
  have "prefix (fit sz c es) es" for c es
    by (induction es arbitrary: c) simp_all
  then show ?thesis
    using assms by (metis ents_resize prefix_order.trans)
qed

lemma length_ents: "inv t \<Longrightarrow> int (length (ents t)) \<le> cap t"
proof -
  have "int (length es) \<le> sum_list (map sz es)" for es
  proof (induction es)
    case (Cons e es)
    then show ?case using sz_pos [of e] by simp
  qed simp
  then show "inv t \<Longrightarrow> ?thesis"
    using inv_fits by (meson order.trans)
qed

end

definition table_wf :: "hpack_table \<Rightarrow> bool" where
  "table_wf t \<longleftrightarrow> tsize t = sum_list (map entry_size (entries t)) \<and> tsize t \<le> maxSize t \<and> 0 \<le> maxSize t"

lemma entry_size_pos: "0 < entry_size e"
  by (simp add: entry_size_def)

lemma evict_loop_fit:
  "0 \<le> mx \<Longrightarrow> evict_loop es (sum_list (map entry_size es)) mx =
     (fit entry_size mx es, sum_list (map entry_size (fit entry_size mx es)))"
proof (induction es rule: rev_induct)
  case Nil
  then show ?case by (simp add: evict_loop.simps)
next
  case (snoc x xs)
  show ?case
  proof (cases "mx < sum_list (map entry_size (xs @ [x]))")
    case True
    then have "fit entry_size mx (xs @ [x]) = fit entry_size mx xs"
      by (intro fit_snoc) (simp_all add: less_imp_le entry_size_pos)
    with True snoc show ?thesis
      by (subst evict_loop.simps) simp
  next
    case False
    then have "fit entry_size mx (xs @ [x]) = xs @ [x]"
      by (intro fit_all) (simp_all add: less_imp_le entry_size_pos)
    with False show ?thesis
      by (subst evict_loop.simps) simp
  qed
qed

lemma table_evict_fit:
  assumes "tsize t = sum_list (map entry_size (entries t))" and "0 \<le> maxSize t"
  shows "table_evict t = t\<lparr>entries := fit entry_size (maxSize t) (entries t),
    tsize := sum_list (map entry_size (fit entry_size (maxSize t) (entries t)))\<rparr>"
  using evict_loop_fit [OF assms(2), of "entries t"] assms(1) by (simp add: table_evict_def)

lemma table_add_fit:
  assumes "table_wf t"
  shows "table_add t n v = t\<lparr>entries := fit entry_size (maxSize t) ((n, v) # entries t),
    tsize := sum_list (map entry_size (fit entry_size (maxSize t) ((n, v) # entries t)))\<rparr>"
proof (cases "maxSize t < entry_size (n, v)")
  case True
  then show ?thesis by (simp add: table_add_def)
next
  case False
  let ?t = "t\<lparr>entries := (n, v) # entries t, tsize := tsize t + entry_size (n, v)\<rparr>"
  have "table_evict ?t = ?t\<lparr>entries := fit entry_size (maxSize ?t) (entries ?t),
      tsize := sum_list (map entry_size (fit entry_size (maxSize ?t) (entries ?t)))\<rparr>"
    using assms by (intro table_evict_fit) (simp_all add: table_wf_def)
  with False show ?thesis
    by (simp add: table_add_def Let_def del: fit.simps)
qed

lemma table_resize_fit:
  assumes "table_wf t" and "0 \<le> mx"
  shows "table_resize t mx = t\<lparr>maxSize := mx, entries := fit entry_size mx (entries t),
    tsize := sum_list (map entry_size (fit entry_size mx (entries t)))\<rparr>"
  using assms table_evict_fit [of "t\<lparr>maxSize := mx\<rparr>"] by (simp add: table_resize_def table_wf_def)

interpretation hpt: evicting_table entries maxSize "\<lambda>t e. table_add t (fst e) (snd e)" table_resize
  entry_size table_wf
proof
  show "0 < entry_size e" for e by (rule entry_size_pos)
qed (auto simp: table_wf_def table_add_fit table_resize_fit sum_fit simp del: fit.simps)

subsection \<open>Looking an entry up\<close>

lemma find_in_Inl:
  "find_in es i name val k = Inl j \<Longrightarrow> \<exists>m < length es. j = i + m \<and> es ! m = (name, val)"
proof (induction es arbitrary: i k)
  case (Cons e es)
  show ?case
  proof (cases "fst e = name \<and> snd e = val")
    case True
    with Cons.prems have "j = i + 0 \<and> (e # es) ! 0 = (name, val)"
      by (cases e) simp
    then show ?thesis by blast
  next
    case False
    with Cons.prems obtain k' where "find_in es (i + 1) name val k' = Inl j"
      by (auto split: if_splits)
    from Cons.IH [OF this] obtain m where "m < length es" "j = i + Suc m" "es ! m = (name, val)"
      by auto
    then have "Suc m < length (e # es) \<and> j = i + Suc m \<and> (e # es) ! Suc m = (name, val)" by simp
    then show ?thesis by blast
  qed
qed simp

lemma find_in_Inr:
  "find_in es i name val k = Inr j \<Longrightarrow>
   j = k \<or> (\<exists>m < length es. j = i + m \<and> fst (es ! m) = name)"
proof (induction es arbitrary: i k)
  case (Cons e es)
  show ?case
  proof (cases "fst e = name \<and> k = 0")
    case True
    with Cons.prems have "find_in es (i + 1) name val i = Inr j"
      by (simp split: if_splits)
    from Cons.IH [OF this] True show ?thesis
      by (auto intro: exI [of _ 0] exI [of _ "Suc m" for m])
  next
    case False
    with Cons.prems have "find_in es (i + 1) name val k = Inr j"
      by (auto split: if_splits)
    from Cons.IH [OF this] show ?thesis
      by (auto intro: exI [of _ "Suc m" for m])
  qed
qed simp

lemma table_get_static: "m < 61 \<Longrightarrow> table_get t (Suc m) = Inr (HPACK_STATIC ! m)"
  by (simp add: table_get_def)

lemma table_get_dynamic: "m < length (entries t) \<Longrightarrow> table_get t (62 + m) = Inr (entries t ! m)"
  by (simp add: table_get_def)

lemma findIndex_exact:
  "findIndex t name val = (i, True) \<Longrightarrow>
   table_get t i = Inr (name, val) \<and> i \<noteq> 0 \<and> i \<le> 61 + length (entries t)"
  by (auto simp: findIndex_def length_HPACK_STATIC table_get_static table_get_dynamic
      dest!: find_in_Inl split: sum.splits)

lemma findIndex_name:
  "findIndex t name val = (i, False) \<Longrightarrow> i \<noteq> 0 \<Longrightarrow>
   (\<exists>e. table_get t i = Inr e \<and> fst e = name) \<and> i \<le> 61 + length (entries t)"
  by (auto simp: findIndex_def length_HPACK_STATIC table_get_static table_get_dynamic
      simp del: split_paired_Ex dest!: find_in_Inr split: sum.splits)

lemma table_get_prefix:
  assumes "table_get s i = Inr e" and "prefix (entries s) (entries t)"
  shows "table_get t i = Inr e"
  using assms by (auto simp: table_get_def prefix_def nth_append split: if_splits)


subsection \<open>Encoder and decoder stay in step\<close>

definition header_ok :: "(jsstr \<Rightarrow> byte list) \<Rightarrow> (byte list \<Rightarrow> jsstr) \<Rightarrow> header \<Rightarrow> bool" where
  "header_ok enc dec h \<longleftrightarrow> text_ok enc dec (fst h) \<and> text_ok enc dec (fst (snd h))"

lemma int_ok_index:
  assumes "table_wf t" and "maxSize t \<le> 4096" and "i \<le> 61 + length (entries t)"
  shows "int_ok i"
  using hpt.length_ents [OF assms(1)] assms(2,3) by (simp add: int_ok_def)

text \<open>The four shapes of a field, told apart by the first byte.\<close>

lemma decode_field_indexed:
  assumes "int_ok i" and "table_get t i = Inr (n, v)"
  shows "\<exists>b bs. writeInt 7 128 i = b # bs \<and>
    decode_field dec limit saw t b (bs @ rest) = Inr (t, Some (n, v, False), rest)"
proof -
  obtain w bs where w: "writeInt 7 128 i = (128 OR word_of_nat w) # bs" and "w < 2 ^ 7"
    using writeInt_Cons by blast
  then have "(128 OR word_of_nat w :: byte) AND 128 \<noteq> 0"
    using first_byte_bit [of w 7 7 128] by (simp add: and_128)
  moreover have "readInt 7 ((128 OR word_of_nat w) # bs @ rest) = Inr (i, rest)"
    using int_indexed.get_put [OF assms(1), of rest] w by simp
  ultimately show ?thesis
    using w assms(2) by (simp add: decode_field_def)
qed

lemma decode_field_incremental:
  assumes "int_ok i" and "readName dec t i (bytes @ rest) = Inr (n, rest1)"
    and "readString dec rest1 = Inr (v, rest2)"
  shows "\<exists>b bs. writeInt 6 64 i @ bytes = b # bs \<and>
    decode_field dec limit saw t b (bs @ rest) = Inr (table_add t n v, Some (n, v, False), rest2)"
proof -
  obtain w bs where w: "writeInt 6 64 i = (64 OR word_of_nat w) # bs" and "w < 2 ^ 6"
    using writeInt_Cons by blast
  then have "(64 OR word_of_nat w :: byte) AND 128 = 0" "(64 OR word_of_nat w :: byte) AND 64 \<noteq> 0"
    using first_byte_bit [of w 6 7 64] first_byte_bit [of w 6 6 64] by (simp_all add: and_128 and_64)
  moreover have "readInt 6 ((64 OR word_of_nat w) # bs @ bytes @ rest) = Inr (i, bytes @ rest)"
    using int_incremental.get_put [OF assms(1), of "bytes @ rest"] w by simp
  ultimately show ?thesis
    using w assms(2,3) by (simp add: decode_field_def)
qed

lemma decode_field_literal:
  assumes "int_ok i" and "readName dec t i (bytes @ rest) = Inr (n, rest1)"
    and "readString dec rest1 = Inr (v, rest2)"
  shows "\<exists>b bs. writeInt 4 (if never then 16 else 0) i @ bytes = b # bs \<and>
    decode_field dec limit saw t b (bs @ rest) = Inr (t, Some (n, v, never), rest2)"
proof -
  let ?m = "if never then 16 else 0 :: byte"
  obtain w bs where w: "writeInt 4 ?m i = (?m OR word_of_nat w) # bs" and "w < 2 ^ 4"
    using writeInt_Cons by blast
  then have "(?m OR word_of_nat w :: byte) AND 128 = 0" "(?m OR word_of_nat w :: byte) AND 64 = 0"
    "(?m OR word_of_nat w :: byte) AND 32 = 0" "(?m OR word_of_nat w :: byte) AND 16 \<noteq> 0 \<longleftrightarrow> never"
    using first_byte_bit [of w 4 7 ?m] first_byte_bit [of w 4 6 ?m]
      first_byte_bit [of w 4 5 ?m] first_byte_bit [of w 4 4 ?m]
    by (simp_all only: and_128 and_64 and_32 and_16) (cases never; simp)+
  moreover have "readInt 4 ((?m OR word_of_nat w) # bs @ bytes @ rest) = Inr (i, bytes @ rest)"
    using int_plain.get_put [OF assms(1), of "bytes @ rest"]
      int_never.get_put [OF assms(1), of "bytes @ rest"] w by (cases never) simp_all
  ultimately show ?thesis
    using w assms(2,3) by (simp add: decode_field_def del: split_paired_Ex)
qed


lemma readName_written:
  assumes "i \<noteq> 0 \<Longrightarrow> \<exists>e. table_get t i = Inr e \<and> fst e = n" and "text_ok enc dec n"
  shows "readName dec t i ((if i = 0 then writeString enc n else []) @ rest) = Inr (n, rest)"
  using assms by (auto simp: readName_def readString_writeString)

lemma decode_encode_header:
  assumes "hpt.follows et dt" and "maxSize et \<le> 4096" and "header_ok enc dec h"
    and "encode_header enc et h = (bytes, et')"
  shows "\<exists>b bs dt'. bytes = b # bs \<and> decode_field dec limit saw dt b (bs @ rest) = Inr (dt', Some h, rest)
    \<and> hpt.follows et' dt' \<and> maxSize et' = maxSize et"
proof -
  obtain n v s where h: "h = (n, v, s)" by (cases h)
  obtain i exact where fi: "findIndex et n v = (i, exact)" by (cases "findIndex et n v")
  have wf: "table_wf et" and pre: "prefix (entries et) (entries dt)"
    using assms(1) by (simp_all add: hpt.follows_def)
  have texts: "text_ok enc dec n" "text_ok enc dec v"
    using assms(3) h by (simp_all add: header_ok_def)
  have name: "\<exists>e. table_get dt i = Inr e \<and> fst e = n" and ok: "int_ok i" if "i \<noteq> 0"
  proof -
    have "(\<exists>e. table_get et i = Inr e \<and> fst e = n) \<and> i \<le> 61 + length (entries et)"
    proof (cases exact)
      case True
      with fi have "table_get et i = Inr (n, v) \<and> fst (n, v) = n \<and> i \<le> 61 + length (entries et)"
        using findIndex_exact by simp
      then show ?thesis by blast
    next
      case False
      with fi have "findIndex et n v = (i, False)" by simp
      from findIndex_name [OF this that] show ?thesis .
    qed
    then obtain e where e: "table_get et i = Inr e" "fst e = n" and i: "i \<le> 61 + length (entries et)"
      by blast
    have "table_get dt i = Inr e \<and> fst e = n"
      using table_get_prefix [OF e(1) pre] e(2) by simp
    then show "\<exists>e. table_get dt i = Inr e \<and> fst e = n" by blast
    show "int_ok i" by (rule int_ok_index [OF wf assms(2) i])
  qed
  have ok: "int_ok i" using ok by (cases "i = 0") (simp_all add: int_ok_def)
  let ?fields = "(if i = 0 then writeString enc n else []) @ writeString enc v"
  have rn: "readName dec dt i (?fields @ rest) = Inr (n, writeString enc v @ rest)"
    using readName_written [of i dt n enc dec "writeString enc v @ rest"] name texts(1) by simp
  have rs: "readString dec (writeString enc v @ rest) = Inr (v, rest)"
    by (rule readString_writeString [OF texts(2)])
  show ?thesis
  proof (cases "exact \<and> \<not> s")
    case True
    with fi have "findIndex et n v = (i, True)" by simp
    from findIndex_exact [OF this] have "table_get dt i = Inr (n, v)"
      using table_get_prefix [OF _ pre] by simp
    note d = decode_field_indexed [OF ok this, of dec limit saw rest]
    have "bytes = writeInt 7 128 i" "et' = et"
      using True assms(4) fi h by (simp_all add: encode_header_def)
    with d True assms(1) h show ?thesis by simp blast
  next
    case False
    show ?thesis
    proof (cases "\<not> s \<and> 2 * entry_size (n, v) \<le> maxSize et")
      case True
      then have s: "\<not> s" by simp
      have b: "bytes = writeInt 6 64 i @ ?fields" "et' = table_add et n v"
        using True False assms(4) fi h by (simp_all add: encode_header_def Let_def)
      have "hpt.follows (table_add et n v) (table_add dt n v)"
        using hpt.follows_insert [OF assms(1), of "(n, v)"] by simp
      moreover have "maxSize (table_add et n v) = maxSize et"
        using wf by (simp add: table_add_fit)
      moreover have "\<exists>b bs. bytes = b # bs \<and>
          decode_field dec limit saw dt b (bs @ rest) = Inr (table_add dt n v, Some h, rest)"
        using decode_field_incremental [OF ok rn rs, of limit saw] s unfolding b h by simp
      ultimately show ?thesis using b(2) by blast
    next
      case lit: False
      then have b: "bytes = writeInt 4 (if s then 16 else 0) i @ ?fields" "et' = et"
        using False assms(4) fi h by (cases s; simp add: encode_header_def Let_def)+
      moreover have "\<exists>b bs. bytes = b # bs \<and>
          decode_field dec limit saw dt b (bs @ rest) = Inr (dt, Some h, rest)"
        using decode_field_literal [OF ok rn rs, of s limit saw] unfolding b h by blast
      ultimately show ?thesis using assms(1) by blast
    qed
  qed
qed

lemma decode_encode_headers:
  assumes "hpt.follows et dt" and "maxSize et \<le> 4096" and "\<forall>h \<in> set hs. header_ok enc dec h"
    and "encode_headers enc et hs = (bytes, et')"
    and "mls = 0 \<or> tot + (\<Sum>h \<leftarrow> hs. header_size (Some h)) \<le> int mls * 4"
  shows "\<exists>dt'. decode_loop dec limit mls dt saw tot acc bytes = (dt', Inr (acc @ hs)) \<and> hpt.follows et' dt'
    \<and> maxSize et' = maxSize et"
  using assms
proof (induction hs arbitrary: et dt bytes saw tot acc)
  case Nil
  then show ?case by simp
next
  case (Cons h hs)
  obtain b1 et1 where e1: "encode_header enc et h = (b1, et1)" by fastforce
  obtain b2 where e2: "encode_headers enc et1 hs = (b2, et')" and bytes: "bytes = b1 @ b2"
    using Cons.prems(4) e1 by (auto split: prod.splits)
  have hok: "header_ok enc dec h" using Cons.prems(3) by simp
  obtain b bs dt1 where b: "b1 = b # bs" and
    d: "decode_field dec limit saw dt b (bs @ b2) = Inr (dt1, Some h, b2)" and
    f: "hpt.follows et1 dt1" and m: "maxSize et1 = maxSize et"
    using decode_encode_header [OF Cons.prems(1,2) hok e1] by blast
  have "0 \<le> (\<Sum>h \<leftarrow> hs. header_size (Some h))"
    by (rule sum_list_nonneg) (auto simp: header_size_def entry_size_def)
  with Cons.prems(5) have fits: "\<not> (mls \<noteq> 0 \<and> int mls * 4 < tot + header_size (Some h))" by auto
  obtain dt' where "decode_loop dec limit mls dt1 True (tot + header_size (Some h)) (acc @ [h]) b2 =
      (dt', Inr ((acc @ [h]) @ hs))" "hpt.follows et' dt'" "maxSize et' = maxSize et1"
    using Cons.IH [OF f _ _ e2, of "tot + header_size (Some h)" True "acc @ [h]"] Cons.prems(2,3,5) m
    by auto
  with bytes b d fits m show ?case by simp
qed


text \<open>A table size the encoder has chosen but not yet announced.\<close>

definition in_step :: "hpack_encoder \<Rightarrow> hpack_decoder \<Rightarrow> bool" where
  "in_step e d \<longleftrightarrow> maxSize (etable e) \<le> 4096 \<and>
     (case pendingResize e of
        None \<Rightarrow> hpt.follows (etable e) (dtable d)
      | Some n \<Rightarrow> table_wf (etable e) \<and> table_wf (dtable d) \<and> maxSize (etable e) = int n \<and> n \<le> dlimit d
          \<and> prefix (entries (etable e)) (entries (dtable d)))"

lemma new_table_wf: "0 \<le> mx \<Longrightarrow> table_wf (new_table mx)"
  by (simp add: table_wf_def new_table_def)

lemma in_step_new: "n \<le> 4096 \<Longrightarrow> n \<le> m \<Longrightarrow> in_step (new_encoder n) (new_decoder m)"
  by (simp add: in_step_def new_encoder_def new_decoder_def hpt.follows_def new_table_wf)
    (simp add: new_table_def)

lemma in_step_setTableSize:
  assumes "in_step e d"
  shows "in_step (setTableSize e n) (setLimit d n)"
proof -
  have wf: "table_wf (etable e)" "table_wf (dtable d)" and pre: "prefix (entries (etable e)) (entries (dtable d))"
    using assms by (auto simp: in_step_def hpt.follows_def split: option.splits)
  have "0 \<le> int (min n 4096)" by simp
  with wf pre show ?thesis
    by (simp add: in_step_def setTableSize_def setLimit_def hpt.inv_resize hpt.cap_resize
        hpt.resize_keeps_prefix del: of_nat_min)
qed

lemma decode_field_resize:
  assumes "n \<le> limit" and "n \<le> 4096"
  shows "\<exists>b bs. writeInt 5 32 n = b # bs \<and>
    decode_field dec limit False t b (bs @ rest) = Inr (table_resize t (int n), None, rest)"
proof -
  obtain w bs where w: "writeInt 5 32 n = (32 OR word_of_nat w) # bs" and "w < 2 ^ 5"
    using writeInt_Cons by blast
  then have "(32 OR word_of_nat w :: byte) AND 128 = 0" "(32 OR word_of_nat w :: byte) AND 64 = 0"
    "(32 OR word_of_nat w :: byte) AND 32 \<noteq> 0"
    using first_byte_bit [of w 5 7 32] first_byte_bit [of w 5 6 32] first_byte_bit [of w 5 5 32]
    by (simp_all add: and_128 and_64 and_32)
  moreover have "int_ok n" using assms(2) by (simp add: int_ok_def)
  then have "readInt 5 ((32 OR word_of_nat w) # bs @ rest) = Inr (n, rest)"
    using int_resize.get_put [of n rest] w by simp
  ultimately show ?thesis
    using w assms(1) by (simp add: decode_field_def)
qed

definition list_fits :: "nat \<Rightarrow> header list \<Rightarrow> bool" where
  "list_fits mls hs \<longleftrightarrow> mls = 0 \<or> (\<Sum>h \<leftarrow> hs. header_size (Some h)) \<le> int mls * 4"

lemma decode_encode_block:
  assumes "in_step e d" and "\<forall>h \<in> set hs. header_ok enc dec h" and "list_fits mls hs"
    and "hpack_encode enc e hs = (bytes, e')"
  shows "\<exists>d'. hpack_decode dec d mls bytes = (d', Inr hs) \<and> in_step e' d'"
proof -
  obtain b t where bt: "encode_headers enc (etable e) hs = (b, t)" by fastforce
  have small: "maxSize (etable e) \<le> 4096" using assms(1) by (simp add: in_step_def)
  have body: "\<exists>dt'. decode_loop dec (dlimit d) mls dt False 0 [] b = (dt', Inr hs) \<and> hpt.follows t dt'
      \<and> maxSize t = maxSize (etable e)" if "hpt.follows (etable e) dt" for dt
    using decode_encode_headers [OF that small assms(2) bt, of mls 0 "dlimit d" False "[]"] assms(3)
    by (simp add: list_fits_def)
  show ?thesis
  proof (cases "pendingResize e")
    case None
    then have "hpt.follows (etable e) (dtable d)" using assms(1) by (simp add: in_step_def)
    from body [OF this] None bt assms(4) small show ?thesis
      by (auto simp: hpack_encode_def hpack_decode_def in_step_def)
  next
    case (Some n)
    then have n: "n \<le> dlimit d" "n \<le> 4096" "maxSize (etable e) = int n" "table_wf (etable e)"
      "table_wf (dtable d)" "prefix (entries (etable e)) (entries (dtable d))"
      using assms(1) by (simp_all add: in_step_def)
    have "hpt.follows (etable e) (table_resize (dtable d) (int n))"
      using hpt.follows_resize [OF n(4,5,6)] n(3) by simp
    from body [OF this] obtain dt' where dt':
      "decode_loop dec (dlimit d) mls (table_resize (dtable d) (int n)) False 0 [] b = (dt', Inr hs)"
      "hpt.follows t dt'" "maxSize t = maxSize (etable e)" by blast
    obtain c bs where c: "writeInt 5 32 n = c # bs" and
      d: "decode_field dec (dlimit d) False (dtable d) c (bs @ b) = Inr (table_resize (dtable d) (int n), None, b)"
      using decode_field_resize [OF n(1,2)] by blast
    have "bytes = c # bs @ b" "e' = \<lparr>etable = t, pendingResize = None\<rparr>"
      using assms(4) Some bt c by (simp_all add: hpack_encode_def)
    with d dt' small show ?thesis
      by (simp add: hpack_decode_def in_step_def header_size_def)
  qed
qed

text \<open>A connection's two sides: the tables change size, blocks cross one after another.\<close>

datatype hpack_step = TableSize nat | Block "header list"

fun run_steps ::
  "(jsstr \<Rightarrow> byte list) \<Rightarrow> (byte list \<Rightarrow> jsstr) \<Rightarrow> nat \<Rightarrow> hpack_encoder \<Rightarrow> hpack_decoder \<Rightarrow>
     hpack_step list \<Rightarrow> (hpack_error + header list) list" where
  "run_steps enc dec mls e d [] = []"
| "run_steps enc dec mls e d (TableSize n # steps) =
     run_steps enc dec mls (setTableSize e n) (setLimit d n) steps"
| "run_steps enc dec mls e d (Block hs # steps) =
     (let (bytes, e') = hpack_encode enc e hs; (d', r) = hpack_decode dec d mls bytes
      in r # run_steps enc dec mls e' d' steps)"

fun blocks_of :: "hpack_step list \<Rightarrow> header list list" where
  "blocks_of [] = []"
| "blocks_of (TableSize n # steps) = blocks_of steps"
| "blocks_of (Block hs # steps) = hs # blocks_of steps"

lemma run_steps_ok:
  "in_step e d \<Longrightarrow> \<forall>hs \<in> set (blocks_of steps). list_fits mls hs \<and> (\<forall>h \<in> set hs. header_ok enc dec h) \<Longrightarrow>
   run_steps enc dec mls e d steps = map Inr (blocks_of steps)"
proof (induction steps arbitrary: e d rule: blocks_of.induct)
  case (2 n steps)
  then show ?case by (simp add: in_step_setTableSize)
next
  case (3 hs steps)
  obtain bytes e' where e': "hpack_encode enc e hs = (bytes, e')" by fastforce
  obtain d' where "hpack_decode dec d mls bytes = (d', Inr hs)" "in_step e' d'"
    using decode_encode_block [OF "3.prems"(1) _ _ e', of dec mls] "3.prems"(2) by auto
  with e' "3.IH" "3.prems"(2) show ?case by simp
qed simp

subsection \<open>Whatever the peer sends\<close>

definition dec_inv :: "hpack_decoder \<Rightarrow> int \<Rightarrow> bool" where
  "dec_inv d cap \<longleftrightarrow> table_wf (dtable d) \<and> maxSize (dtable d) \<le> cap \<and> int (dlimit d) \<le> cap"

lemma decode_field_inv:
  assumes "table_wf t" and "maxSize t \<le> cap" and "int limit \<le> cap"
    and "decode_field dec limit saw t b bs = Inr (t', h, rest)"
  shows "table_wf t' \<and> maxSize t' \<le> cap"
  using assms hpt.inv_insert [OF assms(1), of "(n, v)" for n v] hpt.cap_insert [OF assms(1), of "(n, v)" for n v]
  by (auto simp: decode_field_def bindE_eq_Inr hpt.inv_resize hpt.cap_resize split: if_splits)

lemma decode_loop_inv:
  "table_wf t \<Longrightarrow> maxSize t \<le> cap \<Longrightarrow> int limit \<le> cap \<Longrightarrow>
   table_wf (fst (decode_loop dec limit mls t saw tot hs bs)) \<and>
   maxSize (fst (decode_loop dec limit mls t saw tot hs bs)) \<le> cap"
proof (induction dec limit mls t saw tot hs bs rule: decode_loop.induct)
  case (2 f limit mls t saw tot hs b bs)
  show ?case
  proof (cases "decode_field f limit saw t b bs")
    case (Inl e)
    with 2 show ?thesis by simp
  next
    case (Inr r)
    obtain t' h rest where r: "r = (t', h, rest)" by (cases r)
    have "table_wf t' \<and> maxSize t' \<le> cap"
      using decode_field_inv "2.prems" Inr r by blast
    with 2 Inr r show ?thesis by simp
  qed
qed simp

lemma hpack_decode_inv:
  "dec_inv d cap \<Longrightarrow> dec_inv (fst (hpack_decode dec d mls bs)) cap"
  using decode_loop_inv [of "dtable d" cap "dlimit d" dec mls False 0 "[]" bs]
  by (simp add: dec_inv_def hpack_decode_def split_beta)

subsection \<open>The text codecs\<close>

text \<open>
  \<open>textEncoder\<close> writes the low byte of each code unit (\<open>Buffer.from(text, "latin1")\<close> has the
  length of the text, so its other branch is dead). \<open>textDecoder\<close> reads the bytes back, and where
  one is not ASCII prefers their UTF-8 reading, \<open>utf8\<close>, if that has no replacement character.
\<close>

definition textEncoder :: "jsstr \<Rightarrow> byte list" where
  "textEncoder text = map (\<lambda>c. word_of_nat (unat c)) text"

definition textDecoder :: "(byte list \<Rightarrow> jsstr) \<Rightarrow> byte list \<Rightarrow> jsstr" where
  "textDecoder utf8 bytes =
     (let s = map (\<lambda>b. word_of_nat (unat b)) bytes
      in if (\<exists>c \<in> set s. 128 \<le> unat c \<and> unat c \<le> 255) \<and> 65533 \<notin> set (utf8 bytes) then utf8 bytes else s)"

definition ascii :: "jsstr \<Rightarrow> bool" where
  "ascii s \<longleftrightarrow> (\<forall>c \<in> set s. unat c < 128)"

lemma latin1_unit: "unat (c :: jschar) < 256 \<Longrightarrow> (word_of_nat (unat (word_of_nat (unat c) :: byte)) :: jschar) = c"
  by (simp add: word_unat_eq_iff unsigned_ucast_eq take_bit_nat_eq_self)

lemma text_ok_ascii:
  assumes "ascii s" and "length s < 2 ^ 42"
  shows "text_ok textEncoder (textDecoder utf8) s"
proof -
  have id: "map (\<lambda>b. word_of_nat (unat b)) (textEncoder s) = s"
    using assms(1) unfolding textEncoder_def ascii_def map_map comp_def
    by (intro map_idI latin1_unit) force
  moreover have "\<not> (\<exists>c \<in> set s. 128 \<le> unat c \<and> unat c \<le> 255)"
    using assms(1) by (force simp: ascii_def)
  ultimately have "textDecoder utf8 (textEncoder s) = s"
    by (simp only: textDecoder_def Let_def id if_False simp_thms)
  with assms(2) show ?thesis by (simp add: text_ok_def int_ok_def textEncoder_def)
qed

definition ascii_header :: "header \<Rightarrow> bool" where
  "ascii_header h \<longleftrightarrow> ascii (fst h) \<and> ascii (fst (snd h)) \<and>
     length (fst h) < 2 ^ 42 \<and> length (fst (snd h)) < 2 ^ 42"

lemma header_ok_ascii: "ascii_header h \<Longrightarrow> header_ok textEncoder (textDecoder utf8) h"
  by (simp add: header_ok_def ascii_header_def text_ok_ascii)

subsection \<open>Properties\<close>

text \<open>
  C1: Encoder and decoder stay in step. However a connection interleaves header blocks with
  changes of the table size, every block of ASCII headers decodes to exactly the headers that were
  encoded, in order, with their never-index marks, as long as each list fits the receiver's limit
  (\<open>list_fits\<close>: four times \<open>maxListSize\<close>) and the decoder announced at least the default table of
  4096 bytes. Beyond the limit the two do not stay in step, see \<open>hpack_too_large_desync\<close>.
\<close>

theorem hpack_connection_roundtrip:
  assumes "4096 \<le> m"
    and "\<forall>hs \<in> set (blocks_of steps). list_fits mls hs \<and> (\<forall>h \<in> set hs. ascii_header h)"
  shows "run_steps textEncoder (textDecoder utf8) mls (new_encoder 4096) (new_decoder m) steps =
    map Inr (blocks_of steps)"
  using assms by (intro run_steps_ok in_step_new) (auto simp: header_ok_ascii)

theorem hpack_connection_roundtrip_witness:
  "run_steps textEncoder (textDecoder (\<lambda>_. [])) 0 (new_encoder 4096) (new_decoder 4096)
     [Block [([97], [98], False), ([97], [99], True)], TableSize 20, Block [([97], [98], False)]] =
   [Inr [([97], [98], False), ([97], [99], True)], Inr [([97], [98], False)]]"
  using hpack_connection_roundtrip [of 4096 "[Block [([97], [98], False), ([97], [99], True)],
    TableSize 20, Block [([97], [98], False)]]" 0 "\<lambda>_. []"]
  by (simp add: list_fits_def ascii_header_def ascii_def)

text \<open>
  C3: Whatever bytes the peer sends, whether or not they decode, the decoder's table keeps its
  accounting exact and never holds more than the larger of its size and the announced limit.
\<close>

theorem hpack_decode_bounded:
  assumes "dec_inv d cap"
  shows "dec_inv (fst (hpack_decode dec d mls bytes)) cap"
  using assms by (rule hpack_decode_inv)

theorem hpack_decode_bounded_witness:
  "dec_inv (fst (hpack_decode (textDecoder (\<lambda>_. [])) (new_decoder 4096) 0 [64, 1, 97, 1, 98])) 4096"
  by (rule hpack_decode_bounded) (simp add: dec_inv_def new_decoder_def table_wf_def new_table_def)

text \<open>
  The decoder's integer reader undoes the encoder's writer, whatever bytes follow, for every
  prefix length and field pattern and every value the reader's six continuation bytes can hold.
\<close>

theorem hpack_integer_roundtrip:
  assumes "pre \<le> 8" and "msk AND mask pre = 0" and "val < 2 ^ 42"
  shows "readInt pre (writeInt pre msk val @ rest) = Inr (val, rest)"
  using assms by (simp add: readInt_writeInt int_ok_def)

theorem hpack_integer_roundtrip_witness:
  "readInt 5 (writeInt 5 32 1337 @ [7]) = Inr (1337, [7])"
  by (rule hpack_integer_roundtrip) (simp_all add: mask_eq_exp_minus_1)

text \<open>
  What a list over the limit does, on one connection: the decoder stops inside the block, so the
  entries after that point are missing from its table, and the next block, which the encoder refers
  to its table, decodes without an error to a header that was never sent.
\<close>

lemma hpack_too_large_desync:
  "run_steps textEncoder (textDecoder utf8) 10 (new_encoder 4096) (new_decoder 4096)
     [Block [([97], [97], False), ([98], [98], False), ([99], [99], False)], Block [([99], [99], False)]] =
   [Inl HeaderListTooLarge, Inr [([98], [98], False)]]"
proof -
  note defs = new_encoder_def new_decoder_def new_table_def encode_header_def findIndex_def
    HPACK_STATIC_def js_def entry_size_def writeInt_def
  have raw: "writeString textEncoder [97] = [1, 97]" "writeString textEncoder [98] = [1, 98]"
    "writeString textEncoder [99] = [1, 99]"
    by (simp_all add: writeString_def textEncoder_def huffmanEncode_def HUFFMAN_CODES_def
        HUFFMAN_LENGTHS_def flush_bytes.simps writeInt_def Let_def)
  have e1: "hpack_encode textEncoder (new_encoder 4096)
      [([97], [97], False), ([98], [98], False), ([99], [99], False)] =
    ([64, 1, 97, 1, 97, 64, 1, 98, 1, 98, 64, 1, 99, 1, 99],
     \<lparr>etable = \<lparr>entries = [([99], [99]), ([98], [98]), ([97], [97])], tsize = 102, maxSize = 4096\<rparr>,
       pendingResize = None\<rparr>)"
    by (simp add: hpack_encode_def defs table_add_def table_evict_def evict_loop.simps raw)
  have e2: "fst (hpack_encode textEncoder
      \<lparr>etable = \<lparr>entries = [([99], [99]), ([98], [98]), ([97], [97])], tsize = 102, maxSize = 4096\<rparr>,
       pendingResize = None\<rparr> [([99], [99], False)]) = [190]"
    by (simp add: hpack_encode_def defs)
  note rd = decode_field_def readInt_def readString_def readName_def textDecoder_def
    table_add_def table_evict_def evict_loop.simps entry_size_def header_size_def
  have d1: "hpack_decode (textDecoder utf8) (new_decoder 4096) 10
      [64, 1, 97, 1, 97, 64, 1, 98, 1, 98, 64, 1, 99, 1, 99] =
    (\<lparr>dtable = \<lparr>entries = [([98], [98]), ([97], [97])], tsize = 68, maxSize = 4096\<rparr>, dlimit = 4096\<rparr>,
     Inl HeaderListTooLarge)"
    by (simp add: hpack_decode_def new_decoder_def new_table_def rd)
  have d2: "snd (hpack_decode (textDecoder utf8) 
    \<lparr>dtable = \<lparr>entries = [([98], [98]), ([97], [97])], tsize = 68, maxSize = 4096\<rparr>, dlimit = 4096\<rparr> 10 [190]) =
     Inr [([98], [98], False)]"
    by (simp add: hpack_decode_def rd table_get_def)
  show ?thesis using e1 e2 d1 d2 by (simp add: split_beta)
qed

end
