(* ===== verification/Http2Headers.thy ===== *)
theory Http2Headers
  imports Hpack
begin

text \<open>
  Header lists and header objects, the helpers of \<open>quickjs/runtime/node-http2.js\<close> between HPACK
  and programs: \<open>headersToObject\<close>, \<open>headersToList\<close> and \<open>validateRequestHeaders\<close>.

  A headers object is the list of its own properties in the order they were added.
  \<open>String.prototype.toLowerCase\<close> is an argument, since Unicode case mapping is the engine's.
\<close>

subsection \<open>From a header list to an object\<close>

datatype hval =
    HStr jsstr
  | HNumber jsstr  \<comment> \<open>\<open>Number\<close> of the text\<close>
  | HArray "jsstr list"

type_synonym hobject = "(jsstr \<times> hval) list"

definition SINGLE_VALUE :: "jsstr list" where
  "SINGLE_VALUE = map js
     [''age'', ''authorization'', ''content-length'', ''content-type'', ''etag'', ''expires'', ''from'',
      ''host'', ''if-modified-since'', ''if-unmodified-since'', ''last-modified'', ''location'',
      ''max-forwards'', ''proxy-authorization'', ''referer'', ''retry-after'', ''server'', ''user-agent'']"

definition CONNECTION_HEADERS :: "jsstr list" where
  "CONNECTION_HEADERS = map js
     [''connection'', ''upgrade'', ''http2-settings'', ''keep-alive'', ''proxy-connection'',
      ''transfer-encoding'']"

definition is_pseudo :: "jsstr \<Rightarrow> bool" where
  "is_pseudo name \<longleftrightarrow> name \<noteq> [] \<and> hd name = of_char CHR '':''"

text \<open>Assignment to a property: in place if it is there, else at the end.\<close>

fun set_prop :: "'k \<Rightarrow> 'v \<Rightarrow> ('k \<times> 'v) list \<Rightarrow> ('k \<times> 'v) list" where
  "set_prop k v [] = [(k, v)]"
| "set_prop k v ((k', w) # ps) = (if k' = k then (k, v) # ps else (k', w) # set_prop k v ps)"

fun join_value :: "jsstr \<Rightarrow> hval \<Rightarrow> jsstr \<Rightarrow> hval" where
  "join_value sep (HStr w) v = HStr (w @ sep @ v)"
| "join_value sep (HNumber w) v = HStr (w @ sep @ v)"
| "join_value sep (HArray ws) v = HArray (ws @ [v])"

definition add_header :: "hobject \<Rightarrow> header \<Rightarrow> hobject" where
  "add_header headers h =
     (let (name, val, never) = h
      in case map_of headers name of
           None \<Rightarrow>
             set_prop name
               (if name = js '':status'' then HNumber val
                else if name = js ''set-cookie'' then HArray [val] else HStr val) headers
         | Some old \<Rightarrow>
             if name = js '':status'' then headers
             else if name = js ''set-cookie'' then set_prop name (join_value [] old val) headers
             else if name = js ''cookie'' then set_prop name (join_value (js ''; '') old val) headers
             else if is_pseudo name \<or> name \<in> set SINGLE_VALUE then headers
             else set_prop name (join_value (js '', '') old val) headers)"

definition headersToObject :: "header list \<Rightarrow> hobject \<times> jsstr list" where
  "headersToObject hs =
     (foldl add_header [] hs, map fst (filter (\<lambda>(name, val, never). never) hs))"

subsection \<open>From a program's headers to a list\<close>

datatype h2_header_error =
    ERR_HTTP2_PSEUDOHEADER_NOT_ALLOWED
  | ERR_HTTP2_INVALID_CONNECTION_HEADERS jsstr
  | ERR_INVALID_HTTP_TOKEN jsstr
  | ERR_INVALID_CHAR jsstr

text \<open>A value as the code sees it: missing, one text, or an array of texts (each \<open>String\<close>ed).\<close>

datatype hinput_value = Missing | One jsstr | Many "jsstr list"

definition token_char :: "jschar \<Rightarrow> bool" where
  "token_char c \<longleftrightarrow> c \<in> set (js ''!#$%&'') \<or> c = 39 \<or> c \<in> set (js ''*+.^_`|~-'')
     \<or> (of_char CHR ''0'' \<le> c \<and> c \<le> of_char CHR ''9'') \<or> (of_char CHR ''a'' \<le> c \<and> c \<le> of_char CHR ''z'')"

definition valid_name :: "jsstr \<Rightarrow> bool" where
  "valid_name name \<longleftrightarrow>
     (let rest = if is_pseudo name then tl name else name in rest \<noteq> [] \<and> list_all token_char rest)"

definition valid_value_char :: "jschar \<Rightarrow> bool" where
  "valid_value_char c \<longleftrightarrow> c = 9 \<or> (32 \<le> c \<and> c \<le> 126) \<or> (128 \<le> c \<and> c \<le> 255)"

fun array_text :: "jsstr list \<Rightarrow> jsstr" where
  "array_text [] = []"
| "array_text [v] = v"
| "array_text (v # vs) = v @ js '','' @ array_text vs"

fun value_texts :: "hinput_value \<Rightarrow> jsstr list" where
  "value_texts Missing = []"
| "value_texts (One v) = [v]"
| "value_texts (Many vs) = vs"

fun value_text :: "hinput_value \<Rightarrow> jsstr" where
  "value_text Missing = js ''undefined''"
| "value_text (One v) = v"
| "value_text (Many vs) = array_text vs"

fun add_values :: "jsstr \<Rightarrow> bool \<Rightarrow> jsstr list \<Rightarrow> h2_header_error + header list" where
  "add_values name never [] = Inr []"
| "add_values name never (text # texts) =
     (if \<not> list_all valid_value_char text then Inl (ERR_INVALID_CHAR name)
      else bindE (add_values name never texts) (\<lambda>hs. Inr ((name, text, never) # hs)))"

definition add_input ::
  "(jsstr \<Rightarrow> jsstr) \<Rightarrow> bool \<Rightarrow> jsstr list \<Rightarrow> jsstr \<times> hinput_value \<Rightarrow> h2_header_error + header list" where
  "add_input toLowerCase allowPseudo never input =
     (let (rawName, rawValue) = input; name = toLowerCase rawName
      in if rawValue = Missing then Inr []
         else if is_pseudo name \<and> \<not> allowPseudo then Inl ERR_HTTP2_PSEUDOHEADER_NOT_ALLOWED
         else if name \<in> set CONNECTION_HEADERS \<or> name = js ''te'' \<and> value_text rawValue \<noteq> js ''trailers''
           then Inl (ERR_HTTP2_INVALID_CONNECTION_HEADERS name)
         else if \<not> valid_name name then Inl (ERR_INVALID_HTTP_TOKEN rawName)
         else add_values name (name \<in> set never) (value_texts rawValue))"

fun add_inputs ::
  "(jsstr \<Rightarrow> jsstr) \<Rightarrow> bool \<Rightarrow> jsstr list \<Rightarrow> (jsstr \<times> hinput_value) list \<Rightarrow>
     h2_header_error + header list" where
  "add_inputs toLowerCase allowPseudo never [] = Inr []"
| "add_inputs toLowerCase allowPseudo never (i # is) =
     bindE (add_input toLowerCase allowPseudo never i) (\<lambda>hs.
     bindE (add_inputs toLowerCase allowPseudo never is) (\<lambda>rest. Inr (hs @ rest)))"

text \<open>\<open>inputs\<close> are the pairs the three shapes of argument (pairs, flat array, object) give.\<close>

definition headersToList ::
  "(jsstr \<Rightarrow> jsstr) \<Rightarrow> bool \<Rightarrow> jsstr list \<Rightarrow> (jsstr \<times> hinput_value) list \<Rightarrow>
     h2_header_error + header list" where
  "headersToList toLowerCase allowPseudo sensitive inputs =
     bindE (add_inputs toLowerCase allowPseudo (map toLowerCase sensitive) inputs) (\<lambda>hs.
       Inr (filter (\<lambda>h. is_pseudo (fst h)) hs @ filter (\<lambda>h. \<not> is_pseudo (fst h)) hs))"

fun flat_pairs :: "'a list \<Rightarrow> ('a \<times> 'a) list" where
  "flat_pairs (a # b # rest) = (a, b) # flat_pairs rest"
| "flat_pairs _ = []"

subsection \<open>What a server requires of a request\<close>

datatype request_problem = MissingMethod | MissingPathOrScheme | UppercaseHeader | ConnectionHeader

fun truthy :: "hval option \<Rightarrow> bool" where
  "truthy None = False"
| "truthy (Some (HStr s)) = (s \<noteq> [])"
| "truthy (Some (HNumber s)) = True"
| "truthy (Some (HArray vs)) = True"

fun check_names :: "(jsstr \<Rightarrow> jsstr) \<Rightarrow> hobject \<Rightarrow> request_problem option" where
  "check_names toLowerCase [] = None"
| "check_names toLowerCase ((name, v) # rest) =
     (if name \<noteq> toLowerCase name then Some UppercaseHeader
      else if name \<in> set CONNECTION_HEADERS \<or> name = js ''te'' \<and> v \<noteq> HStr (js ''trailers'')
        then Some ConnectionHeader
      else check_names toLowerCase rest)"

definition validateRequestHeaders :: "(jsstr \<Rightarrow> jsstr) \<Rightarrow> hobject \<Rightarrow> request_problem option" where
  "validateRequestHeaders toLowerCase headers =
     (if \<not> truthy (map_of headers (js '':method'')) then Some MissingMethod
      else if map_of headers (js '':method'') \<noteq> Some (HStr (js ''CONNECT''))
          \<and> (\<not> truthy (map_of headers (js '':path'')) \<or> \<not> truthy (map_of headers (js '':scheme'')))
        then Some MissingPathOrScheme
      else check_names toLowerCase headers)"

subsection \<open>Objects\<close>

lemma map_of_set_prop: "map_of (set_prop k v ps) = (map_of ps)(k \<mapsto> v)"
  by (induction k v ps rule: set_prop.induct) (auto simp: fun_eq_iff)

lemma distinct_set_prop:
  "distinct (map fst ps) \<Longrightarrow> distinct (map fst (set_prop k v ps))"
proof (induction k v ps rule: set_prop.induct)
  case (2 k v k' w ps)
  have "fst ` set (set_prop k v ps) \<subseteq> insert k (fst ` set ps)" for ps :: "('a \<times> 'b) list"
    by (induction k v ps rule: set_prop.induct) auto
  then have "fst ` set (set_prop k v ps) \<subseteq> insert k (fst ` set ps)" .
  with 2 show ?case by auto
qed simp

text \<open>What a program finds under a name, from all the values that name had in the list.\<close>

fun joined :: "jsstr \<Rightarrow> jsstr list \<Rightarrow> jsstr" where
  "joined sep [] = []"
| "joined sep [v] = v"
| "joined sep (v # vs) = v @ sep @ joined sep vs"

fun combined :: "jsstr \<Rightarrow> jsstr list \<Rightarrow> hval option" where
  "combined name [] = None"
| "combined name (v # vs) = Some
     (if name = js '':status'' then HNumber v
      else if name = js ''set-cookie'' then HArray (v # vs)
      else if name = js ''cookie'' then HStr (joined (js ''; '') (v # vs))
      else if is_pseudo name \<or> name \<in> set SINGLE_VALUE then HStr v
      else HStr (joined (js '', '') (v # vs)))"

definition values_of :: "jsstr \<Rightarrow> header list \<Rightarrow> jsstr list" where
  "values_of name hs = map (\<lambda>h. fst (snd h)) (filter (\<lambda>h. fst h = name) hs)"

lemma joined_snoc: "joined sep (v # vs @ [w]) = joined sep (v # vs) @ sep @ w"
proof (induction vs arbitrary: v)
  case (Cons a vs)
  then show ?case by simp
qed simp

lemma cookie_distinct: "js ''set-cookie'' \<noteq> js ''cookie''" "js ''set-cookie'' \<noteq> js '':status''"
  "js ''cookie'' \<noteq> js '':status''"
  by (simp_all add: js_def)

lemma add_header_combined:
  assumes "map_of ho n = combined n vs"
  shows "map_of (add_header ho (n, v, never)) n = combined n (vs @ [v])"
proof (cases vs)
  case Nil
  with assms show ?thesis by (simp add: add_header_def map_of_set_prop)
next
  case (Cons w ws)
  with assms show ?thesis
    using joined_snoc [of "js ''; ''" w ws v] joined_snoc [of "js '', ''" w ws v] cookie_distinct
    by (cases "n = js '':status''"; cases "n = js ''set-cookie''"; cases "n = js ''cookie''";
        cases "is_pseudo n \<or> n \<in> set SINGLE_VALUE")
      (simp_all add: add_header_def map_of_set_prop)
qed

lemma add_header_other: "n \<noteq> m \<Longrightarrow> map_of (add_header ho (n, v, never)) m = map_of ho m"
proof -
  assume "n \<noteq> m"
  moreover have "add_header ho (n, v, never) = ho \<or> (\<exists>x. add_header ho (n, v, never) = set_prop n x ho)"
    by (cases "map_of ho n") (simp_all add: add_header_def; blast)+
  ultimately show ?thesis by (auto simp: map_of_set_prop)
qed

lemma foldl_add_header:
  "map_of ho name = combined name vs \<Longrightarrow>
   map_of (foldl add_header ho hs) name = combined name (vs @ values_of name hs)"
proof (induction hs arbitrary: ho vs)
  case Nil
  then show ?case by (simp add: values_of_def)
next
  case (Cons h hs)
  obtain n v s where h: "h = (n, v, s)" by (cases h)
  show ?case
  proof (cases "n = name")
    case True
    from Cons.IH [OF add_header_combined [OF Cons.prems, of v s]] True h show ?thesis
      by (simp add: values_of_def)
  next
    case False
    with Cons h show ?thesis by (simp add: values_of_def add_header_other)
  qed
qed

lemma headersToObject_lookup:
  "map_of (fst (headersToObject hs)) name = combined name (values_of name hs)"
  using foldl_add_header [of "[]" name "[]" hs] by (simp add: headersToObject_def)

subsection \<open>Lists\<close>

definition list_ok :: "header \<Rightarrow> bool" where
  "list_ok h \<longleftrightarrow> valid_name (fst h) \<and> fst h \<notin> set CONNECTION_HEADERS \<and> list_all valid_value_char (fst (snd h))"

lemma add_values_ok:
  "add_values name never texts = Inr hs \<Longrightarrow>
   hs = map (\<lambda>t. (name, t, never)) texts \<and> (\<forall>t \<in> set texts. list_all valid_value_char t)"
  by (induction name never texts arbitrary: hs rule: add_values.induct)
    (auto simp: bindE_eq_Inr split: if_splits)

definition pseudo_first :: "header list \<Rightarrow> bool" where
  "pseudo_first hs \<longleftrightarrow> (\<exists>ps qs. hs = ps @ qs \<and> (\<forall>h \<in> set ps. is_pseudo (fst h)) \<and> (\<forall>h \<in> set qs. \<not> is_pseudo (fst h)))"

lemma add_input_ok:
  "add_input lower allow never i = Inr hs \<Longrightarrow> h \<in> set hs \<Longrightarrow>
   list_ok h \<and> (is_pseudo (fst h) \<longrightarrow> allow) \<and> fst h = lower (fst i)"
  by (auto simp: add_input_def list_ok_def Let_def dest!: add_values_ok split: if_splits prod.splits)

lemma add_inputs_ok:
  "add_inputs lower allow never is = Inr hs \<Longrightarrow> h \<in> set hs \<Longrightarrow>
   list_ok h \<and> (is_pseudo (fst h) \<longrightarrow> allow) \<and> fst h \<in> lower ` fst ` set is"
proof (induction lower allow never "is" arbitrary: hs rule: add_inputs.induct)
  case (2 lower allow never i "is")
  then obtain h1 h2 where "add_input lower allow never i = Inr h1" "add_inputs lower allow never is = Inr h2"
    "hs = h1 @ h2" by (auto simp: bindE_eq_Inr)
  with 2 add_input_ok [of lower allow never i h1 h] show ?case by auto
qed simp

lemma headersToList_ok:
  assumes "headersToList lower allow sensitive is = Inr hs"
  shows "pseudo_first hs \<and> (\<forall>h \<in> set hs. list_ok h \<and> (is_pseudo (fst h) \<longrightarrow> allow) \<and> fst h \<in> lower ` fst ` set is)"
proof -
  obtain hs0 where a: "add_inputs lower allow (map lower sensitive) is = Inr hs0"
    and hs: "hs = filter (\<lambda>h. is_pseudo (fst h)) hs0 @ filter (\<lambda>h. \<not> is_pseudo (fst h)) hs0"
    using assms by (auto simp: headersToList_def bindE_eq_Inr)
  have "pseudo_first hs" unfolding pseudo_first_def hs by (intro exI conjI, rule refl) auto
  moreover have "set hs = set hs0" using hs by auto
  ultimately show ?thesis using add_inputs_ok [OF a] by blast
qed


lemma array_text_trailers: "array_text vs = js ''trailers'' \<Longrightarrow> vs = [js ''trailers'']"
proof (induction vs rule: array_text.induct)
  case (3 v w vs)
  have "of_char CHR '','' \<in> set (array_text (v # w # vs))" by (simp add: js_def)
  with 3 show ?case by (simp add: js_def)
qed (simp_all add: js_def)

lemma add_input_te:
  assumes "add_input lower allow never i = Inr hs" and "h \<in> set hs" and "fst h = js ''te''"
  shows "fst (snd h) = js ''trailers''"
  using assms
  by (cases "snd i") (auto simp: add_input_def Let_def dest!: add_values_ok array_text_trailers
      split: if_splits prod.splits)

lemma add_inputs_te:
  "add_inputs lower allow never is = Inr hs \<Longrightarrow> h \<in> set hs \<Longrightarrow> fst h = js ''te'' \<Longrightarrow>
   fst (snd h) = js ''trailers''"
proof (induction lower allow never "is" arbitrary: hs rule: add_inputs.induct)
  case (2 lower allow never i "is")
  then obtain h1 h2 where "add_input lower allow never i = Inr h1" "add_inputs lower allow never is = Inr h2"
    "hs = h1 @ h2" by (auto simp: bindE_eq_Inr)
  with 2 add_input_te [of lower allow never i h1 h] show ?case by auto
qed simp

lemma headersToList_te:
  "headersToList lower allow sensitive is = Inr hs \<Longrightarrow> h \<in> set hs \<Longrightarrow> fst h = js ''te'' \<Longrightarrow>
   fst (snd h) = js ''trailers''"
proof -
  assume "headersToList lower allow sensitive is = Inr hs" and h: "h \<in> set hs" "fst h = js ''te''"
  then obtain hs0 where "add_inputs lower allow (map lower sensitive) is = Inr hs0" and
    "hs = filter (\<lambda>h. is_pseudo (fst h)) hs0 @ filter (\<lambda>h. \<not> is_pseudo (fst h)) hs0"
    by (auto simp: headersToList_def bindE_eq_Inr)
  moreover from this(2) have "set hs \<subseteq> set hs0" by auto
  ultimately show ?thesis using add_inputs_te h by blast
qed

lemma distinct_add_header: "distinct (map fst ho) \<Longrightarrow> distinct (map fst (add_header ho h))"
  by (cases h; cases "map_of ho (fst h)") (simp_all add: add_header_def distinct_set_prop)

lemma distinct_headersToObject: "distinct (map fst (fst (headersToObject hs)))"
proof -
  have "distinct (map fst ho) \<Longrightarrow> distinct (map fst (foldl add_header ho hs))" for ho
    by (induction hs arbitrary: ho) (simp_all add: distinct_add_header)
  then show ?thesis by (simp add: headersToObject_def)
qed

lemma check_names_None:
  "check_names lower ho = None \<longleftrightarrow> (\<forall>(n, v) \<in> set ho. n = lower n \<and> n \<notin> set CONNECTION_HEADERS \<and>
     (n = js ''te'' \<longrightarrow> v = HStr (js ''trailers'')))"
  by (induction lower ho rule: check_names.induct) auto

lemma values_of_memD: "combined name (values_of name hs) = Some v \<Longrightarrow> \<exists>h \<in> set hs. fst h = name"
  by (cases "values_of name hs") (auto simp: values_of_def filter_eq_Cons_iff)

definition names_one :: "jsstr \<Rightarrow> header list \<Rightarrow> bool" where
  "names_one name hs \<longleftrightarrow> (\<exists>v vs. values_of name hs = v # vs \<and> v \<noteq> [])"

lemma combined_pseudo: "is_pseudo n \<Longrightarrow> n \<noteq> js '':status'' \<Longrightarrow> combined n (v # vs) = Some (HStr v)"
proof -
  assume "is_pseudo n" and "n \<noteq> js '':status''"
  moreover from this have "n \<noteq> js ''set-cookie''" "n \<noteq> js ''cookie''"
    by (auto simp: is_pseudo_def js_def)
  ultimately show ?thesis by simp
qed

lemma truthy_one: "names_one n hs \<Longrightarrow> is_pseudo n \<Longrightarrow> n \<noteq> js '':status'' \<Longrightarrow>
   truthy (map_of (fst (headersToObject hs)) n)"
  unfolding headersToObject_lookup names_one_def by (auto simp: combined_pseudo simp del: combined.simps)

lemma method_value: "names_one (js '':method'') hs \<Longrightarrow>
   map_of (fst (headersToObject hs)) (js '':method'') = Some (HStr (hd (values_of (js '':method'') hs)))"
  unfolding headersToObject_lookup names_one_def
  using combined_pseudo [of "js '':method''"] by (auto simp: is_pseudo_def js_def simp del: combined.simps)

lemma names_accepted:
  assumes "\<forall>h \<in> set hs. lower (fst h) = fst h \<and> fst h \<notin> set CONNECTION_HEADERS \<and>
      (fst h = js ''te'' \<longrightarrow> fst (snd h) = js ''trailers'')"
    and "length (values_of (js ''te'') hs) \<le> 1"
  shows "check_names lower (fst (headersToObject hs)) = None"
  unfolding check_names_None
proof (intro ballI, clarify)
  fix n v assume "(n, v) \<in> set (fst (headersToObject hs))"
  then have look: "combined n (values_of n hs) = Some v"
    using distinct_headersToObject headersToObject_lookup by (metis map_of_eq_Some_iff)
  then obtain h where h: "h \<in> set hs" "fst h = n" using values_of_memD by blast
  have "v = HStr (js ''trailers'')" if "n = js ''te''"
  proof -
    have "\<forall>x \<in> set (values_of n hs). x = js ''trailers''"
      using assms(1) that by (auto simp: values_of_def)
    moreover have "length (values_of n hs) \<le> 1" using assms(2) that by simp
    then obtain x where "values_of n hs = [x]"
      using look by (cases "values_of n hs") (simp_all del: combined.simps(2))
    ultimately show ?thesis
      using look that by (simp add: js_def is_pseudo_def split: if_splits)
  qed
  then show "n = lower n \<and> n \<notin> set CONNECTION_HEADERS \<and> (n = js ''te'' \<longrightarrow> v = HStr (js ''trailers''))"
    using assms(1) h by auto
qed

lemma list_accepted:
  assumes "\<forall>h \<in> set hs. lower (fst h) = fst h \<and> fst h \<notin> set CONNECTION_HEADERS \<and>
      (fst h = js ''te'' \<longrightarrow> fst (snd h) = js ''trailers'')"
    and "length (values_of (js ''te'') hs) \<le> 1" and "names_one (js '':method'') hs"
    and "hd (values_of (js '':method'') hs) = js ''CONNECT'' \<or>
      names_one (js '':path'') hs \<and> names_one (js '':scheme'') hs"
  shows "validateRequestHeaders lower (fst (headersToObject hs)) = None"
proof -
  have p: "is_pseudo (js '':method'')" "js '':method'' \<noteq> js '':status''" "is_pseudo (js '':path'')"
    "js '':path'' \<noteq> js '':status''" "is_pseudo (js '':scheme'')" "js '':scheme'' \<noteq> js '':status''"
    by (simp_all add: js_def is_pseudo_def)
  show ?thesis
    using truthy_one [OF assms(3) p(1,2)] method_value [OF assms(3)] assms(4) truthy_one [OF _ p(3,4), of hs]
      truthy_one [OF _ p(5,6), of hs] names_accepted [OF assms(1,2)]
    by (auto simp: validateRequestHeaders_def simp del: truthy.simps)
qed

lemma request_accepted:
  assumes "headersToList lower True sensitive inputs = Inr hs" and "\<And>s. lower (lower s) = lower s"
    and "names_one (js '':method'') hs" and "names_one (js '':path'') hs" and "names_one (js '':scheme'') hs"
    and "length (values_of (js ''te'') hs) \<le> 1"
  shows "validateRequestHeaders lower (fst (headersToObject hs)) = None"
proof (rule list_accepted)
  show "\<forall>h \<in> set hs. lower (fst h) = fst h \<and> fst h \<notin> set CONNECTION_HEADERS \<and>
      (fst h = js ''te'' \<longrightarrow> fst (snd h) = js ''trailers'')"
    using headersToList_ok [OF assms(1)] headersToList_te [OF assms(1)] assms(2) by (auto simp: list_ok_def)
qed (use assms in auto)

subsection \<open>Properties\<close>

text \<open>
  What a client may send, a server accepts. A request list made by \<open>headersToList\<close> that has a
  method, a path, a scheme and at most one \<open>te\<close> value turns, on the server, into an object that
  \<open>validateRequestHeaders\<close> has nothing against.
\<close>

theorem request_headers_accepted:
  assumes "headersToList lower True sensitive inputs = Inr hs" and "\<And>s. lower (lower s) = lower s"
    and "names_one (js '':method'') hs" and "names_one (js '':path'') hs" and "names_one (js '':scheme'') hs"
    and "length (values_of (js ''te'') hs) \<le> 1"
  shows "validateRequestHeaders lower (fst (headersToObject hs)) = None"
  using assms by (rule request_accepted)

theorem request_headers_accepted_witness:
  "validateRequestHeaders (\<lambda>s. s) (fst (headersToObject
     [(js '':path'', js ''/'', False), (js '':method'', js ''GET'', False), (js '':scheme'', js ''http'', False),
      (js ''te'', js ''trailers'', False)])) = None"
proof (rule request_headers_accepted)
  show "headersToList (\<lambda>s. s) True [] [(js '':path'', One (js ''/'')), (js ''te'', One (js ''trailers'')),
      (js '':method'', One (js ''GET'')), (js '':scheme'', Many [js ''http''])] =
    Inr [(js '':path'', js ''/'', False), (js '':method'', js ''GET'', False), (js '':scheme'', js ''http'', False),
      (js ''te'', js ''trailers'', False)]"
    by (simp add: headersToList_def add_input_def is_pseudo_def js_def CONNECTION_HEADERS_def valid_name_def
        token_char_def valid_value_char_def Let_def)
qed (simp_all add: names_one_def values_of_def js_def)

text \<open>
  Repeated headers are combined by the rules of each name: the first value of a pseudo-header
  or of a single-value header, all of \<open>set-cookie\<close> in order, \<open>cookie\<close> joined by semicolons, the
  rest by commas; and no value of one name reaches another.
\<close>

theorem headers_object_values:
  "map_of (fst (headersToObject hs)) name = combined name (values_of name hs)"
  by (rule headersToObject_lookup)

text \<open>
  The list \<open>headersToList\<close> gives has the pseudo-headers before the others, only valid tokens as
  names and valid bytes as values, no header of the HTTP/1 connection, and pseudo-headers only
  where they are allowed.
\<close>

theorem headers_list_wellformed:
  assumes "headersToList lower allow sensitive inputs = Inr hs"
  shows "pseudo_first hs \<and> (\<forall>h \<in> set hs. list_ok h \<and> (is_pseudo (fst h) \<longrightarrow> allow))"
  using headersToList_ok [OF assms] by blast

theorem headers_list_wellformed_witness:
  "pseudo_first [(js ''a'', js ''b'', False)]"
proof -
  have "headersToList (\<lambda>s. s) False [] [(js ''a'', One (js ''b''))] = Inr [(js ''a'', js ''b'', False)]"
    by (simp add: headersToList_def add_input_def is_pseudo_def js_def CONNECTION_HEADERS_def valid_name_def
        token_char_def valid_value_char_def Let_def)
  from headers_list_wellformed [OF this] show ?thesis by blast
qed

end
