(* ===== verification/Http2Session.thy ===== *)
theory Http2Session
  imports Http2Headers
begin

unbundle bit_operations_syntax

text \<open>
  The state of an HTTP/2 connection and what it writes: \<open>Http2Session\<close> and \<open>Http2Stream\<close> of
  \<open>quickjs/runtime/node-http2.js\<close>, the output side and flow control.

  \<^item> A stream object is a cell of \<open>heap\<close>, named by a reference: the session's map of streams, the
    send queue and the code share it, and it outlives its entry in the map.
  \<^item> What the session tells programs (\<open>emit\<close>, callbacks, \<open>push\<close>) is appended to \<open>events\<close>. Programs
    answer with operations of their own, after the operation that told them.
  \<^item> A throw inside a handler leaves the state as it is there: a fallible operation returns the
    state and the code thrown, if any.
\<close>

subsection \<open>Constants\<close>

definition FRAME_DATA :: nat where "FRAME_DATA = 0"
definition FRAME_HEADERS :: nat where "FRAME_HEADERS = 1"
definition FRAME_PRIORITY :: nat where "FRAME_PRIORITY = 2"
definition FRAME_RST_STREAM :: nat where "FRAME_RST_STREAM = 3"
definition FRAME_SETTINGS :: nat where "FRAME_SETTINGS = 4"
definition FRAME_PUSH_PROMISE :: nat where "FRAME_PUSH_PROMISE = 5"
definition FRAME_PING :: nat where "FRAME_PING = 6"
definition FRAME_GOAWAY :: nat where "FRAME_GOAWAY = 7"
definition FRAME_WINDOW_UPDATE :: nat where "FRAME_WINDOW_UPDATE = 8"
definition FRAME_CONTINUATION :: nat where "FRAME_CONTINUATION = 9"
definition FRAME_ALTSVC :: nat where "FRAME_ALTSVC = 10"
definition FRAME_ORIGIN :: nat where "FRAME_ORIGIN = 12"

definition FLAG_END_STREAM :: byte where "FLAG_END_STREAM = 1"
definition FLAG_ACK :: byte where "FLAG_ACK = 1"
definition FLAG_END_HEADERS :: byte where "FLAG_END_HEADERS = 4"
definition FLAG_PADDED :: byte where "FLAG_PADDED = 8"
definition FLAG_PRIORITY :: byte where "FLAG_PRIORITY = 32"

definition PREFACE :: "byte list" where
  "PREFACE = map of_char ''PRI * HTTP/2.0'' @ [13, 10, 13, 10] @ map of_char ''SM'' @ [13, 10, 13, 10]"

definition MAX_WINDOW :: int where "MAX_WINDOW = 2147483647"

definition ERR_NO_ERROR :: nat where "ERR_NO_ERROR = 0"
definition ERR_PROTOCOL_ERROR :: nat where "ERR_PROTOCOL_ERROR = 1"
definition ERR_INTERNAL_ERROR :: nat where "ERR_INTERNAL_ERROR = 2"
definition ERR_FLOW_CONTROL_ERROR :: nat where "ERR_FLOW_CONTROL_ERROR = 3"
definition ERR_STREAM_CLOSED :: nat where "ERR_STREAM_CLOSED = 5"
definition ERR_FRAME_SIZE_ERROR :: nat where "ERR_FRAME_SIZE_ERROR = 6"
definition ERR_REFUSED_STREAM :: nat where "ERR_REFUSED_STREAM = 7"
definition ERR_CANCEL :: nat where "ERR_CANCEL = 8"
definition ERR_COMPRESSION_ERROR :: nat where "ERR_COMPRESSION_ERROR = 9"
definition ERR_ENHANCE_YOUR_CALM :: nat where "ERR_ENHANCE_YOUR_CALM = 11"

lemmas h2_consts = FRAME_DATA_def FRAME_HEADERS_def FRAME_PRIORITY_def FRAME_RST_STREAM_def
  FRAME_SETTINGS_def FRAME_PUSH_PROMISE_def FRAME_PING_def FRAME_GOAWAY_def FRAME_WINDOW_UPDATE_def
  FRAME_CONTINUATION_def FRAME_ALTSVC_def FRAME_ORIGIN_def FLAG_END_STREAM_def FLAG_ACK_def
  FLAG_END_HEADERS_def FLAG_PADDED_def FLAG_PRIORITY_def MAX_WINDOW_def ERR_NO_ERROR_def
  ERR_PROTOCOL_ERROR_def ERR_INTERNAL_ERROR_def ERR_FLOW_CONTROL_ERROR_def ERR_STREAM_CLOSED_def
  ERR_FRAME_SIZE_ERROR_def ERR_REFUSED_STREAM_def ERR_CANCEL_def ERR_COMPRESSION_ERROR_def
  ERR_ENHANCE_YOUR_CALM_def

subsection \<open>Settings\<close>

datatype setting_key =
    headerTableSize | enablePush | initialWindowSize | maxFrameSize | maxConcurrentStreams
  | maxHeaderListSize | maxHeaderSize | enableConnectProtocol

datatype setting_value = SNumber int | SBool bool | SOther

text \<open>A settings object a program gives: its own properties in order, none \<open>undefined\<close>.\<close>

type_synonym setting_object = "(setting_key \<times> setting_value) list"

type_synonym settings = "setting_key \<Rightarrow> setting_value option"

definition SETTING_IDS :: "setting_key \<Rightarrow> nat" where
  "SETTING_IDS k =
     (case k of
        headerTableSize \<Rightarrow> 1 | enablePush \<Rightarrow> 2 | maxConcurrentStreams \<Rightarrow> 3 | initialWindowSize \<Rightarrow> 4
      | maxFrameSize \<Rightarrow> 5 | maxHeaderListSize \<Rightarrow> 6 | enableConnectProtocol \<Rightarrow> 8 | maxHeaderSize \<Rightarrow> 6)"

definition DEFAULT_SETTINGS :: settings where
  "DEFAULT_SETTINGS k =
     (case k of
        headerTableSize \<Rightarrow> Some (SNumber 4096) | enablePush \<Rightarrow> Some (SBool True)
      | initialWindowSize \<Rightarrow> Some (SNumber 65535) | maxFrameSize \<Rightarrow> Some (SNumber 16384)
      | maxConcurrentStreams \<Rightarrow> Some (SNumber 4294967295) | maxHeaderListSize \<Rightarrow> Some (SNumber 65535)
      | enableConnectProtocol \<Rightarrow> Some (SBool False) | maxHeaderSize \<Rightarrow> None)"

text \<open>A numeric setting, and a flag.\<close>

definition num :: "settings \<Rightarrow> setting_key \<Rightarrow> int" where
  "num s k = (case s k of Some (SNumber n) \<Rightarrow> n | _ \<Rightarrow> 0)"

definition flag :: "settings \<Rightarrow> setting_key \<Rightarrow> bool" where
  "flag s k = (case s k of Some (SBool b) \<Rightarrow> b | _ \<Rightarrow> False)"

definition setting_check :: "setting_key \<Rightarrow> (int \<times> int) option" where
  "setting_check k =
     (case k of
        headerTableSize \<Rightarrow> Some (0, 4294967295) | initialWindowSize \<Rightarrow> Some (0, 4294967295)
      | maxFrameSize \<Rightarrow> Some (16384, 16777215) | maxConcurrentStreams \<Rightarrow> Some (0, 4294967295)
      | maxHeaderListSize \<Rightarrow> Some (0, 4294967295) | maxHeaderSize \<Rightarrow> Some (0, 4294967295)
      | _ \<Rightarrow> None)"

text \<open>\<open>Inl k\<close>: the setting that is refused (\<open>ERR_HTTP2_INVALID_SETTING_VALUE\<close>).\<close>

fun validateSettings :: "setting_object \<Rightarrow> setting_key + unit" where
  "validateSettings [] = Inr ()"
| "validateSettings ((k, v) # rest) =
     (case setting_check k of
        Some (lo, hi) \<Rightarrow>
          (case v of
             SNumber n \<Rightarrow> if n < lo \<or> hi < n then Inl k else validateSettings rest
           | _ \<Rightarrow> Inl k)
      | None \<Rightarrow> (case v of SBool b \<Rightarrow> validateSettings rest | _ \<Rightarrow> Inl k))"

definition setting_word :: "setting_value \<Rightarrow> nat" where
  "setting_word v =
     (case v of SNumber n \<Rightarrow> nat (n mod 4294967296) | SBool b \<Rightarrow> (if b then 1 else 0) | SOther \<Rightarrow> 0)"

definition packSettings :: "setting_object \<Rightarrow> (nat \<times> nat) list \<Rightarrow> byte list" where
  "packSettings settings customSettings =
     concat (map (\<lambda>(i, w). be_bytes 2 i @ be_bytes 4 w)
       (map (\<lambda>(k, v). (SETTING_IDS k, setting_word v)) settings @ customSettings))"

text \<open>\<open>maxHeaderSize\<close> is another name for \<open>maxHeaderListSize\<close>, which has the last word.\<close>

definition wanted_settings :: "setting_object \<Rightarrow> setting_object" where
  "wanted_settings settings =
     filter (\<lambda>(k, v). k \<noteq> maxHeaderSize)
       (case map_of settings maxHeaderSize of
          Some v \<Rightarrow> if map_of settings maxHeaderListSize = None then settings @ [(maxHeaderListSize, v)] else settings
        | None \<Rightarrow> settings)"

subsection \<open>State\<close>

record h2stream =
  sid :: nat
  isServer :: bool            \<comment> \<open>\<open>ServerHttp2Stream\<close>\<close>
  streamSendWindow :: int
  streamRecvWindow :: int
  pendingCredit :: int
  outChunks :: "(byte list \<times> nat) list"   \<comment> \<open>a chunk and how much of it is sent\<close>
  endPending :: bool
  endCallback :: bool
  scheduled :: bool
  headersSent :: bool
  localClosed :: bool
  remoteClosed :: bool
  closedByProtocol :: bool
  waitForTrailers :: bool
  trailersSent :: bool
  wantTrailersEmitted :: bool
  remoteInitiated :: bool
  isPush :: bool
  remoteHeaders :: bool
  requestHead :: bool         \<comment> \<open>\<open>_requestMethod\<close> is HEAD\<close>
  requestAuthority :: jsstr   \<comment> \<open>empty when there is none\<close>
  rstCode :: "nat option"
  closedByRst :: bool
  endAfterHeaders :: bool
  bytesWritten :: nat
  bytesRead :: nat
  streamDestroyed :: bool
  destroyAfterEnd :: bool
  pushEnded :: bool           \<comment> \<open>\<open>push(null)\<close> was called\<close>
  readEnded :: bool           \<comment> \<open>the program has read to the end\<close>
  writeEnded :: bool          \<comment> \<open>the program has called \<open>end\<close>\<close>
  streamAborted :: bool

datatype h2event =
    EvStream nat "header list" bool
  | EvResponse nat bool "header list" bool    \<comment> \<open>response, or push headers\<close>
  | EvHeaders nat "header list"
  | EvTrailers nat "header list" bool
  | EvPushData nat "byte list"
  | EvPushEnd nat
  | EvChunkDone nat bool                      \<comment> \<open>write callback; whether without an error\<close>
  | EvEndDone nat
  | EvWantTrailers nat
  | EvAborted nat
  | EvStreamDestroyed nat "nat option"
  | EvLocalSettings | EvRemoteSettings | EvSettingsDone bool
  | EvPing "byte list" | EvPingAck "byte list" | EvPingDone "byte list" bool
  | EvGoaway nat nat "byte list"
  | EvOrigin "jsstr list" | EvAltsvc jsstr jsstr nat
  | EvError "nat option" | EvClose

datatype out_item = Raw "byte list" | Frame nat byte nat "byte list"

text \<open>The socket, as far as the session sees it: \<open>wire\<close> is what it was given.\<close>

record h2socket =
  connecting :: bool
  writable :: bool
  sockDestroyed :: bool
  sockEnded :: bool
  buffered :: nat
  highWaterMark :: nat
  needDrain :: bool
  wire :: "byte list"

record header_block =
  blockStream :: nat
  promised :: nat
  chunks :: "byte list list"
  blockEnd :: bool
  isPushBlock :: bool

record session =
  client :: bool                             \<comment> \<open>\<open>_type\<close> is \<open>SESSION_CLIENT\<close>\<close>
  heap :: "nat \<Rightarrow> h2stream"
  nextRef :: nat
  streams :: "(nat \<times> nat) list"             \<comment> \<open>the map from ids to stream objects, in order\<close>
  nextStreamId :: nat
  lastProcessed :: nat
  lastPeerStream :: nat
  recv :: "byte list"
  prefaceSeen :: bool
  closing :: bool
  destroyed :: bool
  goawayReceived :: "(nat \<times> nat) option"
  goawaySent :: bool
  outgoing :: "out_item list"
  flushScheduled :: bool
  headerBlock :: "header_block option"
  pendingSettings :: "(setting_object \<times> bool) list"  \<comment> \<open>what was asked; whether a callback waits\<close>
  pings :: "byte list list"
  sendQueue :: "nat list"
  pumping :: bool
  socketReady :: bool
  localSettings :: settings
  remoteSettings :: settings
  sendWindow :: int
  recvWindow :: int
  recvUnacked :: int
  decoder :: hpack_decoder
  encoder :: hpack_encoder
  maxHeaderPairs :: nat
  remoteSettingsReceived :: bool
  originSet :: "jsstr list"
  hasStreamListener :: bool
  socket :: h2socket
  events :: "h2event list"

type_synonym h2step = "session \<Rightarrow> session \<times> nat option"

text \<open>The order of a handler's calls: one that throws ends it.\<close>

definition andThen :: "session \<times> nat option \<Rightarrow> h2step \<Rightarrow> session \<times> nat option" where
  "andThen r f = (case r of (s, None) \<Rightarrow> f s | (s, Some e) \<Rightarrow> (s, Some e))"

definition upd :: "nat \<Rightarrow> (h2stream \<Rightarrow> h2stream) \<Rightarrow> session \<Rightarrow> session" where
  "upd r f s = s\<lparr>heap := (heap s)(r := f (heap s r))\<rparr>"

definition emit :: "h2event \<Rightarrow> session \<Rightarrow> session" where
  "emit e s = s\<lparr>events := events s @ [e]\<rparr>"

definition find_stream :: "session \<Rightarrow> nat \<Rightarrow> nat option" where
  "find_stream s i = map_of (streams s) i"

subsection \<open>Output\<close>

fun item_bytes :: "out_item \<Rightarrow> byte list" where
  "item_bytes (Raw bs) = bs"
| "item_bytes (Frame t f i payload) =
     be_bytes 3 (length payload) @ [word_of_nat t, f] @ be_bytes 4 (i mod 2147483648) @ payload"

definition writeRaw :: "out_item \<Rightarrow> session \<Rightarrow> session" where
  "writeRaw item s =
     (if destroyed s \<and> \<not> closing s then s
      else s\<lparr>outgoing := outgoing s @ [item], flushScheduled := True\<rparr>)"

text \<open>What a writable stream does with bytes: it keeps them, and asks to wait when it has many.\<close>

definition sock_write :: "byte list \<Rightarrow> h2socket \<Rightarrow> h2socket" where
  "sock_write bs k =
     (if sockDestroyed k \<or> \<not> writable k then k
      else k\<lparr>wire := wire k @ bs, buffered := buffered k + length bs,
             needDrain := needDrain k \<or> highWaterMark k \<le> buffered k + length bs\<rparr>)"

definition flushOut :: "session \<Rightarrow> session" where
  "flushOut s0 =
     (let s = s0\<lparr>flushScheduled := False\<rparr>; k = socket s
      in if outgoing s = [] \<or> (sockDestroyed k \<and> \<not> writable k) then s\<lparr>outgoing := []\<rparr>
         else if \<not> socketReady s \<and> connecting k then s
         else s\<lparr>outgoing := [], socket := sock_write (concat (map item_bytes (outgoing s))) k\<rparr>)"

definition sendFrame :: "nat \<Rightarrow> byte \<Rightarrow> nat \<Rightarrow> byte list \<Rightarrow> session \<Rightarrow> session" where
  "sendFrame t flags streamId payload = writeRaw (Frame t flags streamId payload)"

definition sendSettings :: "setting_object \<Rightarrow> (nat \<times> nat) list \<Rightarrow> bool \<Rightarrow> session \<Rightarrow> session" where
  "sendSettings settings custom hasCallback s =
     (let wanted = wanted_settings settings;
          s = sendFrame FRAME_SETTINGS 0 0 (packSettings wanted custom) s
      in s\<lparr>pendingSettings := pendingSettings s @ [(wanted, hasCallback)]\<rparr>)"

definition sendWindowUpdate :: "nat \<Rightarrow> int \<Rightarrow> bool \<Rightarrow> session \<Rightarrow> session" where
  "sendWindowUpdate streamId increment quiet s =
     (if increment \<le> 0 then s
      else let s = sendFrame FRAME_WINDOW_UPDATE 0 streamId (be_bytes 4 (nat increment)) s
           in if streamId = 0 \<and> quiet then s\<lparr>recvWindow := recvWindow s + increment\<rparr> else s)"

definition sendRst :: "nat \<Rightarrow> nat \<Rightarrow> session \<Rightarrow> session" where
  "sendRst streamId code = sendFrame FRAME_RST_STREAM 0 streamId (be_bytes 4 code)"

definition sendGoaway :: "nat \<Rightarrow> byte list \<Rightarrow> session \<Rightarrow> session" where
  "sendGoaway code extra s =
     (sendFrame FRAME_GOAWAY 0 0 (be_bytes 4 (lastPeerStream s mod 2147483648) @ be_bytes 4 code @ extra) s)
       \<lparr>goawaySent := True\<rparr>"

text \<open>
  The frames after the first of a header block. A frame size of 0 would loop for ever; the
  peer's is at least 16384 (\<open>applySetting\<close> refuses less).
\<close>

function continuations :: "nat \<Rightarrow> nat \<Rightarrow> byte list \<Rightarrow> out_item list" where
  "continuations mx streamId rest =
     (if rest = [] \<or> mx = 0 then []
      else Frame FRAME_CONTINUATION (if length rest \<le> mx then FLAG_END_HEADERS else 0) streamId (take mx rest)
             # continuations mx streamId (drop mx rest))"
  by pat_completeness auto
termination
  by (relation "measure (\<lambda>(_, _, rest). length rest)") auto

declare continuations.simps [simp del]

definition header_frames :: "nat \<Rightarrow> nat \<Rightarrow> byte \<Rightarrow> byte list \<Rightarrow> byte list \<Rightarrow> out_item list" where
  "header_frames mx streamId flags prefx block =
     (let first = min (length block) (mx - length prefx)
      in Frame FRAME_HEADERS (flags OR (if length block \<le> first then FLAG_END_HEADERS else 0)) streamId
           (prefx @ take first block)
         # continuations mx streamId (drop first block))"

definition sendHeaderBlock :: "nat \<Rightarrow> header list \<Rightarrow> byte \<Rightarrow> byte list \<Rightarrow> session \<Rightarrow> session" where
  "sendHeaderBlock streamId list flags extra s =
     (let (block, e) = hpack_encode textEncoder (encoder s) list
      in fold writeRaw (header_frames (nat (num (remoteSettings s) maxFrameSize)) streamId flags extra block)
           (s\<lparr>encoder := e\<rparr>))"

subsection \<open>Closing\<close>

definition pushNull :: "nat \<Rightarrow> session \<Rightarrow> session" where
  "pushNull r s = emit (EvPushEnd (sid (heap s r))) (upd r (\<lambda>st. st\<lparr>pushEnded := True\<rparr>) s)"

text \<open>
  \<open>destroy\<close> of a stream the protocol has closed: \<open>_destroy\<close> without the reset it sends otherwise.
\<close>

definition destroyBegin :: "nat \<Rightarrow> session \<Rightarrow> session" where
  "destroyBegin r s =
     (let st = heap s r; s = upd r (\<lambda>st. st\<lparr>streamDestroyed := True\<rparr>) s
      in if \<not> writeEnded st \<and> \<not> streamAborted st
         then emit (EvAborted (sid st)) (upd r (\<lambda>st. st\<lparr>streamAborted := True\<rparr>) s) else s)"

definition destroyClosed :: "nat \<Rightarrow> nat option \<Rightarrow> session \<Rightarrow> session" where
  "destroyClosed r err s =
     (if streamDestroyed (heap s r) then s
      else emit (EvStreamDestroyed (sid (heap s r)) err)
             (upd r (\<lambda>st. st\<lparr>destroyAfterEnd := False\<rparr>) (destroyBegin r s)))"

definition dropChunks :: "nat \<Rightarrow> session \<Rightarrow> session" where
  "dropChunks r s =
     fold (\<lambda>_. emit (EvChunkDone (sid (heap s r)) False)) (outChunks (heap s r))
       (upd r (\<lambda>st. st\<lparr>outChunks := []\<rparr>) s)"

definition deleteStream :: "nat \<Rightarrow> session \<Rightarrow> session" where
  "deleteStream streamId s = s\<lparr>streams := filter (\<lambda>(i, r). i \<noteq> streamId) (streams s)\<rparr>"

definition sessionGone :: "nat \<Rightarrow> nat option \<Rightarrow> nat \<Rightarrow> session \<Rightarrow> session" where
  "sessionGone r err code s =
     (if closedByProtocol (heap s r) then s
      else let s = upd r (\<lambda>st. st\<lparr>closedByProtocol := True, rstCode := Some code,
                                  localClosed := True, remoteClosed := True\<rparr>) s;
               s = deleteStream (sid (heap s r)) s;
               s = dropChunks r s;
               s = (if pushEnded (heap s r) then s else pushNull r s)
           in destroyClosed r err s)"

text \<open>Every stream, ping and settings request still waiting is told.\<close>

definition cancelAll :: "session \<Rightarrow> session" where
  "cancelAll s0 =
     (let s = fold (\<lambda>(i, r). sessionGone r None ERR_CANCEL) (streams s0) s0;
          s = fold (\<lambda>p. emit (EvPingDone p False)) (pings s) (s\<lparr>pings := []\<rparr>)
      in fold (\<lambda>(obj, hasCallback). if hasCallback then emit (EvSettingsDone False) else id)
           (pendingSettings s) (s\<lparr>pendingSettings := []\<rparr>))"

definition endSocket :: "bool \<Rightarrow> session \<Rightarrow> session" where
  "endSocket graceful s =
     (let k = socket s
      in s\<lparr>socket := (if graceful \<and> \<not> sockDestroyed k then k\<lparr>sockEnded := True\<rparr>
                     else k\<lparr>sockDestroyed := True\<rparr>)\<rparr>)"

definition finishDestroy :: "nat option \<Rightarrow> bool \<Rightarrow> session \<Rightarrow> session" where
  "finishDestroy err graceful s =
     (if destroyed s then s
      else let s = endSocket graceful (flushOut (cancelAll (s\<lparr>destroyed := True\<rparr>)));
               s = (case err of None \<Rightarrow> s | Some e \<Rightarrow> emit (EvError (Some e)) s)
           in emit EvClose s)"

definition maybeFinish :: "session \<Rightarrow> session" where
  "maybeFinish s =
     (if closing s \<and> \<not> destroyed s \<and> streams s = [] \<and> sendQueue s = []
      then finishDestroy None True (flushOut s) else s)"

definition removeStream :: "nat \<Rightarrow> session \<Rightarrow> session" where
  "removeStream r s = maybeFinish (deleteStream (sid (heap s r)) s)"

definition streamDestroy :: "nat \<Rightarrow> nat option \<Rightarrow> session \<Rightarrow> session" where
  "streamDestroy r err s =
     (if streamDestroyed (heap s r) then s
      else if closedByProtocol (heap s r) then destroyClosed r err s
      else let s = destroyBegin r s; st = heap s r;
               code = (case err of None \<Rightarrow> ERR_CANCEL | Some _ \<Rightarrow> ERR_INTERNAL_ERROR);
               s = (if destroyed s then s else sendRst (sid st) code s);
               s = upd r (\<lambda>st. st\<lparr>closedByProtocol := True,
                     rstCode := (case rstCode st of None \<Rightarrow> Some code | c \<Rightarrow> c)\<rparr>) s;
               s = removeStream r s
           in emit (EvStreamDestroyed (sid st) err) (upd r (\<lambda>st. st\<lparr>destroyAfterEnd := False\<rparr>) s))"

text \<open>Both directions done.\<close>

definition maybeClosed :: "nat \<Rightarrow> session \<Rightarrow> session" where
  "maybeClosed r s =
     (if closedByProtocol (heap s r) \<or> \<not> (localClosed (heap s r) \<and> remoteClosed (heap s r)) then s
      else let s = upd r (\<lambda>st. st\<lparr>closedByProtocol := True, rstCode := Some ERR_NO_ERROR\<rparr>) s;
               s = removeStream r s
           in if readEnded (heap s r) then destroyClosed r None s
              else upd r (\<lambda>st. st\<lparr>destroyAfterEnd := True\<rparr>) s)"

definition endDone :: "nat \<Rightarrow> session \<Rightarrow> session" where
  "endDone r s =
     (if endCallback (heap s r)
      then emit (EvEndDone (sid (heap s r))) (upd r (\<lambda>st. st\<lparr>endCallback := False\<rparr>) s) else s)"

definition protocolClose :: "nat \<Rightarrow> nat \<Rightarrow> bool \<Rightarrow> session \<Rightarrow> session" where
  "protocolClose r code byUs s =
     (if closedByProtocol (heap s r) then s
      else let s = upd r (\<lambda>st. st\<lparr>closedByProtocol := True, rstCode := Some code,
                                  localClosed := True, remoteClosed := True\<rparr>) s;
               s = removeStream r s;
               s = dropChunks r s;
               s = endDone r s;
               s = (if code \<noteq> ERR_NO_ERROR \<and> \<not> byUs then upd r (\<lambda>st. st\<lparr>closedByRst := True\<rparr>) s else s);
               s = (if pushEnded (heap s r) then s else pushNull r s)
           in if code \<noteq> ERR_NO_ERROR \<and> code \<noteq> ERR_CANCEL then destroyClosed r (Some code) s
              else if byUs \<or> code = ERR_CANCEL \<or> readEnded (heap s r) \<or> streamDestroyed (heap s r)
              then destroyClosed r None s
              else upd r (\<lambda>st. st\<lparr>destroyAfterEnd := True\<rparr>) s)"

definition streamReset :: "nat \<Rightarrow> nat \<Rightarrow> session \<Rightarrow> session" where
  "streamReset r code s =
     (if closedByProtocol (heap s r) then s
      else protocolClose r code True (if destroyed s then s else sendRst (sid (heap s r)) code s))"

definition streamOnRst :: "nat \<Rightarrow> nat \<Rightarrow> session \<Rightarrow> session" where
  "streamOnRst r code = protocolClose r code False"

definition remoteEnded :: "nat \<Rightarrow> session \<Rightarrow> session" where
  "remoteEnded r s =
     (if remoteClosed (heap s r) then s
      else maybeClosed r (pushNull r (upd r (\<lambda>st. st\<lparr>remoteClosed := True\<rparr>) s)))"

definition connectionError :: "nat \<Rightarrow> session \<Rightarrow> session" where
  "connectionError code s =
     (if destroyed s then s
      else finishDestroy (Some code) False (flushOut (if goawaySent s then s else sendGoaway code [] s)))"

definition sessionClose :: "session \<Rightarrow> session" where
  "sessionClose s =
     (if closing s then s
      else let s = s\<lparr>closing := True\<rparr>
           in maybeFinish (if goawaySent s then s else sendGoaway ERR_NO_ERROR [] s))"

definition sessionDestroy :: "nat option \<Rightarrow> nat option \<Rightarrow> session \<Rightarrow> session" where
  "sessionDestroy err code s =
     (if destroyed s then s
      else let c = (case code of Some c \<Rightarrow> c
                    | None \<Rightarrow> if err = None then ERR_NO_ERROR else ERR_INTERNAL_ERROR)
           in finishDestroy err False (if \<not> goawaySent s \<and> socketReady s then sendGoaway c [] s else s))"

definition socketGone :: "nat option \<Rightarrow> session \<Rightarrow> session" where
  "socketGone err s =
     (if destroyed s then s
      else case err of
        Some e \<Rightarrow> finishDestroy (Some e) False s
      | None \<Rightarrow>
          if streams s \<noteq> [] \<and> goawayReceived s = None
          then finishDestroy (if client s then Some ERR_INTERNAL_ERROR else None) False s
          else finishDestroy None False s)"

subsection \<open>Data out\<close>

text \<open>This side is done: the stream sent \<open>END_STREAM\<close>.\<close>

definition localEnd :: "nat \<Rightarrow> session \<Rightarrow> session" where
  "localEnd r s =
     maybeClosed r (endDone r (upd r (\<lambda>st. st\<lparr>localClosed := True, endPending := False\<rparr>) s))"

definition wantTrailers :: "nat \<Rightarrow> session \<Rightarrow> session" where
  "wantTrailers r s =
     emit (EvWantTrailers (sid (heap s r))) (upd r (\<lambda>st. st\<lparr>wantTrailersEmitted := True\<rparr>) s)"

text \<open>The microtask of \<open>_wantTrailers\<close>: nobody listens, so the stream ends without trailers.\<close>

definition trailersUnheard :: "nat \<Rightarrow> session \<Rightarrow> session" where
  "trailersUnheard r s =
     (let st = heap s r
      in if trailersSent st \<or> localClosed st \<or> closedByProtocol st then s
         else maybeClosed r (upd r (\<lambda>st. st\<lparr>localClosed := True\<rparr>)
                (sendFrame FRAME_DATA FLAG_END_STREAM (sid st) [] s)))"

text \<open>How much of the first chunk may go now: no more than the windows and the frame size allow.\<close>

definition piece_size :: "nat \<Rightarrow> session \<Rightarrow> nat" where
  "piece_size r s =
     (case outChunks (heap s r) of
        [] \<Rightarrow> 0
      | (chunk, off) # _ \<Rightarrow>
          nat (min (int (length chunk - off))
                 (min (min (streamSendWindow (heap s r)) (sendWindow s)) (num (remoteSettings s) maxFrameSize))))"

definition send_piece :: "nat \<Rightarrow> session \<Rightarrow> session" where
  "send_piece r s =
     (let st = heap s r; (chunk, off) = hd (outChunks st); size = piece_size r s;
          lst = (size = length chunk - off \<and> length (outChunks st) = 1 \<and> endPending st \<and> \<not> waitForTrailers st);
          s = sendFrame FRAME_DATA (if lst then FLAG_END_STREAM else 0) (sid st) (take size (drop off chunk)) s;
          s = upd r (\<lambda>st. st\<lparr>outChunks := (chunk, off + size) # tl (outChunks st),
                streamSendWindow := streamSendWindow st - int size, bytesWritten := bytesWritten st + size\<rparr>) s;
          s = s\<lparr>sendWindow := sendWindow s - int size\<rparr>;
          s = (if length chunk \<le> off + size
               then emit (EvChunkDone (sid st) True) (upd r (\<lambda>st. st\<lparr>outChunks := tl (outChunks st)\<rparr>) s) else s)
      in if lst then localEnd r s else s)"

text \<open>
  The chunks of one stream: the state, whether anything was sent, and whether the socket asked to
  wait (the code then returns from \<open>_pump\<close>). Every turn finishes a chunk or sends a byte, so the
  fuel \<open>chunk_fuel\<close> is never used up.
\<close>

fun send_chunks :: "nat \<Rightarrow> nat \<Rightarrow> bool \<Rightarrow> session \<Rightarrow> session \<times> bool \<times> bool" where
  "send_chunks 0 r sent s = (s, sent, False)"
| "send_chunks (Suc n) r sent s =
     (case outChunks (heap s r) of
        [] \<Rightarrow> (s, sent, False)
      | (chunk, off) # rest \<Rightarrow>
          if length chunk - off = 0 then
            send_chunks n r sent
              (emit (EvChunkDone (sid (heap s r)) True) (upd r (\<lambda>st. st\<lparr>outChunks := tl (outChunks st)\<rparr>) s))
          else if min (streamSendWindow (heap s r)) (sendWindow s) \<le> 0 then (s, sent, False)
          else let s = send_piece r s
               in if needDrain (socket s)
                  then let s = flushOut s
                       in if needDrain (socket s) then (s, True, True) else send_chunks n r True s
                  else send_chunks n r True s)"

definition chunk_fuel :: "(byte list \<times> nat) list \<Rightarrow> nat" where
  "chunk_fuel cs = Suc (\<Sum>(chunk, off) \<leftarrow> cs. Suc (length chunk - off))"

definition remove_at :: "nat \<Rightarrow> 'a list \<Rightarrow> 'a list" where
  "remove_at i xs = take i xs @ drop (Suc i) xs"

definition unschedule :: "nat \<Rightarrow> session \<Rightarrow> session" where
  "unschedule i s =
     (upd (sendQueue s ! i) (\<lambda>st. st\<lparr>scheduled := False\<rparr>) s)\<lparr>sendQueue := remove_at i (sendQueue s)\<rparr>"

text \<open>After the chunks: the end of the stream, or the request for trailers.\<close>

definition send_end :: "nat \<Rightarrow> session \<Rightarrow> session \<times> bool" where
  "send_end r s =
     (let st = heap s r
      in if outChunks st = [] \<and> endPending st \<and> \<not> localClosed st then
           (if waitForTrailers st
            then wantTrailers r (endDone r (upd r (\<lambda>st. st\<lparr>endPending := False\<rparr>) s))
            else localEnd r (sendFrame FRAME_DATA FLAG_END_STREAM (sid st) [] s), True)
         else (s, False))"

text \<open>
  One turn of the loop over the queue: the state, the next index, whether anything was sent,
  whether the socket asked to wait. (\<open>_write\<close> and \<open>_final\<close> send a server stream's headers before
  they queue it, so \<open>_defaultRespond\<close> has nothing to do here.)
\<close>

definition pump_stream :: "nat \<Rightarrow> session \<Rightarrow> session \<times> nat \<times> bool \<times> bool" where
  "pump_stream i s =
     (let r = sendQueue s ! i; st = heap s r
      in if streamDestroyed st \<and> \<not> closedByProtocol st then (unschedule i s, i, False, False)
         else if \<not> headersSent st then (s, Suc i, False, False)
         else let (s, sent, returned) = send_chunks (chunk_fuel (outChunks st)) r False s
              in if returned then (s, i, sent, True)
                 else let (s, ended) = send_end r s
                      in if outChunks (heap s r) = [] \<and> \<not> endPending (heap s r)
                         then (unschedule i s, i, sent \<or> ended, False)
                         else (s, Suc i, sent \<or> ended, False))"

fun pump_pass :: "nat \<Rightarrow> nat \<Rightarrow> bool \<Rightarrow> session \<Rightarrow> session \<times> bool \<times> bool" where
  "pump_pass 0 i progress s = (s, progress, False)"
| "pump_pass (Suc n) i progress s =
     (if length (sendQueue s) \<le> i then (s, progress, False)
      else let (s, i, sent, returned) = pump_stream i s
           in if returned then (s, True, True) else pump_pass n i (progress \<or> sent) s)"

fun pump_loop :: "nat \<Rightarrow> session \<Rightarrow> session \<times> bool" where
  "pump_loop 0 s = (s, False)"
| "pump_loop (Suc n) s =
     (if sendQueue s = [] then (s, False)
      else let (s, progress, returned) = pump_pass (length (sendQueue s)) 0 False s
           in if returned then (s, True) else if progress then pump_loop n s else (s, False))"

text \<open>A pass that makes progress sends a byte or ends a stream.\<close>

definition stream_work :: "h2stream \<Rightarrow> nat" where
  "stream_work st = chunk_fuel (outChunks st) + (if endPending st then 1 else 0)"

definition pump_fuel :: "session \<Rightarrow> nat" where
  "pump_fuel s = Suc (\<Sum>r \<leftarrow> sendQueue s. stream_work (heap s r))"

definition pump :: "session \<Rightarrow> session" where
  "pump s =
     (if pumping s \<or> destroyed s \<or> \<not> socketReady s then s
      else let (s, returned) = pump_loop (pump_fuel s) (s\<lparr>pumping := True\<rparr>);
               s = s\<lparr>pumping := False\<rparr>
           in if returned then s else maybeFinish s)"

definition socketConnected :: "session \<Rightarrow> session" where
  "socketConnected s = pump (flushOut (s\<lparr>socketReady := True\<rparr>))"

definition schedule :: "nat \<Rightarrow> session \<Rightarrow> session" where
  "schedule r s =
     (let s = (if scheduled (heap s r) then s
               else (upd r (\<lambda>st. st\<lparr>scheduled := True\<rparr>) s)\<lparr>sendQueue := sendQueue s @ [r]\<rparr>)
      in if socketReady s then pump s else s)"

definition queueData :: "nat \<Rightarrow> byte list \<Rightarrow> session \<Rightarrow> session" where
  "queueData r chunk s = schedule r (upd r (\<lambda>st. st\<lparr>outChunks := outChunks st @ [(chunk, 0)]\<rparr>) s)"

definition queueEnd :: "nat \<Rightarrow> session \<Rightarrow> session" where
  "queueEnd r s = schedule r (upd r (\<lambda>st. st\<lparr>endPending := True, endCallback := True\<rparr>) s)"

subsection \<open>What programs do with a stream\<close>

text \<open>The reader took \<open>count\<close> bytes.\<close>

definition consumed :: "nat \<Rightarrow> int \<Rightarrow> session \<Rightarrow> session" where
  "consumed r count s =
     (let s = upd r (\<lambda>st. st\<lparr>pendingCredit := pendingCredit st + count\<rparr>) s; st = heap s r
      in if \<not> closedByProtocol st \<and> \<not> destroyed s \<and> (8192 \<le> pendingCredit st \<or> streamRecvWindow st < 32768)
         then sendWindowUpdate (sid st) (pendingCredit st) False
                (upd r (\<lambda>st. st\<lparr>pendingCredit := 0, streamRecvWindow := streamRecvWindow st + pendingCredit st\<rparr>) s)
         else s)"

datatype stream_error =
    ERR_HTTP2_INVALID_STREAM | ERR_STREAM_WRITE_AFTER_END | ERR_HTTP2_TRAILERS_ALREADY_SENT
  | ERR_HTTP2_TRAILERS_NOT_READY | HeaderError h2_header_error
  | ERR_HTTP2_HEADERS_SENT | ERR_HTTP2_INVALID_PSEUDOHEADER jsstr | ERR_HTTP2_STATUS_INVALID jsstr
  | ERR_HTTP2_INFO_STATUS_NOT_ALLOWED | ERR_HTTP2_HEADERS_AFTER_RESPOND | ERR_HTTP2_STATUS_101
  | ERR_HTTP2_INVALID_INFO_STATUS js_number | ERR_HTTP2_PUSH_DISABLED | ERR_OUT_OF_RANGE
  | ERR_HTTP2_INVALID_SESSION | ERR_HTTP2_CONNECT_AUTHORITY | ERR_HTTP2_CONNECT_SCHEME
  | ERR_HTTP2_CONNECT_PATH | ERR_HTTP2_OUT_OF_STREAMS

text \<open>\<open>_write\<close> once the headers are out; the error goes to the write's callback.\<close>

definition streamWrite :: "nat \<Rightarrow> byte list \<Rightarrow> session \<Rightarrow> session \<times> stream_error option" where
  "streamWrite r chunk s =
     (if closedByProtocol (heap s r) then (s, Some ERR_HTTP2_INVALID_STREAM)
      else if localClosed (heap s r) then (s, Some ERR_STREAM_WRITE_AFTER_END)
      else (queueData r chunk s, None))"

definition streamFinal :: "nat \<Rightarrow> session \<Rightarrow> session" where
  "streamFinal r s =
     (if closedByProtocol (heap s r) \<or> localClosed (heap s r) then emit (EvEndDone (sid (heap s r))) s
      else queueEnd r s)"

definition streamClose :: "nat \<Rightarrow> nat \<Rightarrow> session \<Rightarrow> session" where
  "streamClose r code s = (if closedByProtocol (heap s r) then s else streamReset r code s)"

definition sendTrailers ::
  "(jsstr \<Rightarrow> jsstr) \<Rightarrow> nat \<Rightarrow> jsstr list \<Rightarrow> (jsstr \<times> hinput_value) list \<Rightarrow> session \<Rightarrow>
     session \<times> stream_error option" where
  "sendTrailers toLowerCase r sensitive headers s =
     (if trailersSent (heap s r) then (s, Some ERR_HTTP2_TRAILERS_ALREADY_SENT)
      else if \<not> wantTrailersEmitted (heap s r) then (s, Some ERR_HTTP2_TRAILERS_NOT_READY)
      else case headersToList toLowerCase False sensitive headers of
        Inl e \<Rightarrow> (s, Some (HeaderError e))
      | Inr list \<Rightarrow>
          let s = upd r (\<lambda>st. st\<lparr>trailersSent := True\<rparr>) s;
              s = sendHeaderBlock (sid (heap s r)) list FLAG_END_STREAM [] s
          in (maybeClosed r (upd r (\<lambda>st. st\<lparr>localClosed := True\<rparr>) s), None))"

definition setLocalWindowSize :: "int \<Rightarrow> session \<Rightarrow> session + session" where
  "setLocalWindowSize windowSize s =
     (if windowSize < 0 \<or> MAX_WINDOW < windowSize then Inl s
      else Inr (if recvWindow s < windowSize then sendWindowUpdate 0 (windowSize - recvWindow s) True s else s))"

text \<open>\<open>ping\<close>: an argument of the wrong length, or a session that is gone, is refused.\<close>

definition sessionPing :: "byte list \<Rightarrow> session \<Rightarrow> session + session" where
  "sessionPing data s =
     (if destroyed s \<or> length data \<noteq> 8 then Inl s
      else Inr (sendFrame FRAME_PING 0 0 data (s\<lparr>pings := pings s @ [data]\<rparr>)))"

definition sessionGoaway :: "nat \<Rightarrow> nat \<Rightarrow> byte list \<Rightarrow> session \<Rightarrow> session + session" where
  "sessionGoaway code lastStreamID extra s =
     (if destroyed s then Inl s
      else Inr ((sendFrame FRAME_GOAWAY 0 0
             (be_bytes 4 (lastStreamID mod 2147483648) @ be_bytes 4 code @ extra) s)\<lparr>goawaySent := True\<rparr>))"

definition sessionSettings :: "setting_object \<Rightarrow> (nat \<times> nat) list \<Rightarrow> bool \<Rightarrow> session \<Rightarrow> session + session" where
  "sessionSettings settings custom hasCallback s =
     (if destroyed s then Inl s
      else case validateSettings settings of
        Inl _ \<Rightarrow> Inl s
      | Inr _ \<Rightarrow> Inr (sendSettings settings custom hasCallback s))"

end
