(* ===== verification/Http2Frames.thy ===== *)
theory Http2Frames
  imports Http2Session
begin

unbundle bit_operations_syntax

text \<open>
  What an HTTP/2 session does with the bytes it receives: the preface, the frame parser
  (\<open>_parse\<close>) and a handler per frame type, from \<open>Http2Session\<close> of
  \<open>quickjs/runtime/node-http2.js\<close>.

  \<open>utf8\<close> (the UTF-8 reading of header text), \<open>toLowerCase\<close> and \<open>toNumber\<close> (\<open>Number\<close> of a text)
  are the engine's, and are arguments, bundled in \<open>h2env\<close>.
\<close>

record h2env =
  utf8 :: "byte list \<Rightarrow> jsstr"
  toLowerCase :: "jsstr \<Rightarrow> jsstr"
  toNumber :: "jsstr \<Rightarrow> js_number"

definition throw :: "nat \<Rightarrow> session \<Rightarrow> session \<times> nat option" where
  "throw code s = (s, Some code)"

definition ok :: "session \<Rightarrow> session \<times> nat option" where
  "ok s = (s, None)"

definition has :: "byte \<Rightarrow> byte \<Rightarrow> bool" where
  "has flags f \<longleftrightarrow> flags AND f \<noteq> 0"

subsection \<open>Streams the peer opens\<close>

definition new_stream :: "bool \<Rightarrow> nat \<Rightarrow> session \<Rightarrow> h2stream" where
  "new_stream server i s =
     \<lparr>sid = i, isServer = server,
      streamSendWindow = num (remoteSettings s) initialWindowSize,
      streamRecvWindow = num (localSettings s) initialWindowSize,
      pendingCredit = 0, outChunks = [], endPending = False, endCallback = False, scheduled = False,
      headersSent = False, localClosed = False, remoteClosed = False, closedByProtocol = False,
      waitForTrailers = False, trailersSent = False, wantTrailersEmitted = False,
      remoteInitiated = False, isPush = False, remoteHeaders = False, requestHead = False, requestAuthority = [],
      rstCode = None, closedByRst = False, endAfterHeaders = False, bytesWritten = 0, bytesRead = 0,
      streamDestroyed = False, destroyAfterEnd = False, pushEnded = False, readEnded = False,
      writeEnded = False, streamAborted = False\<rparr>"

definition alloc :: "h2stream \<Rightarrow> session \<Rightarrow> session \<times> nat" where
  "alloc st s = (s\<lparr>heap := (heap s)(nextRef s := st), nextRef := Suc (nextRef s)\<rparr>, nextRef s)"

definition newRemoteStream :: "h2env \<Rightarrow> nat \<Rightarrow> header list \<Rightarrow> bool \<Rightarrow> session \<Rightarrow> session" where
  "newRemoteStream env i list endStream s0 =
     (let s = s0\<lparr>lastPeerStream := i, lastProcessed := i\<rparr>;
          open_count = length (filter (\<lambda>(i, r). remoteInitiated (heap s r)) (streams s))
      in if num (localSettings s) maxConcurrentStreams \<le> int open_count then sendRst i ERR_REFUSED_STREAM s
         else let (s, r) = alloc ((new_stream True i s)\<lparr>remoteInitiated := True\<rparr>) s;
                  s = s\<lparr>streams := set_prop i r (streams s)\<rparr>
              in if validateRequestHeaders (toLowerCase env) (fst (headersToObject list)) \<noteq> None
                 then streamReset r ERR_PROTOCOL_ERROR s
                 else let s = upd r (\<lambda>st. st\<lparr>endAfterHeaders := endStream\<rparr>) s;
                          s = (if endStream then remoteEnded r s else s)
                      in emit (EvStream i list endStream) s)"

definition onPushHeaders :: "header_block \<Rightarrow> header list \<Rightarrow> session \<Rightarrow> session" where
  "onPushHeaders block list s =
     (if find_stream s (blockStream block) = None \<or> \<not> hasStreamListener s
      then sendRst (promised block) ERR_REFUSED_STREAM s
      else let (s, r) = alloc ((new_stream False (promised block) s)
                 \<lparr>isPush := True, remoteInitiated := True, localClosed := True, headersSent := True,
                  writeEnded := True\<rparr>) s;
               s = s\<lparr>streams := set_prop (promised block) r (streams s)\<rparr>
           in emit (EvStream (promised block) list False) s)"

subsection \<open>Headers for a stream that is open\<close>

definition informational :: "h2env \<Rightarrow> header list \<Rightarrow> bool" where
  "informational env list =
     (case map_of (fst (headersToObject list)) (js '':status'') of
        Some (HNumber t) \<Rightarrow> (case toNumber env t of Finite n w \<Rightarrow> 100 \<le> n \<and> n < 200 | _ \<Rightarrow> False)
      | _ \<Rightarrow> False)"

definition streamOnHeaders :: "h2env \<Rightarrow> nat \<Rightarrow> header list \<Rightarrow> bool \<Rightarrow> session \<Rightarrow> session" where
  "streamOnHeaders env r list endStream s =
     (let st = heap s r;
          s = (if isServer st then emit (EvTrailers (sid st) list endStream) s
               else if \<not> remoteHeaders st then
                 (if informational env list then emit (EvHeaders (sid st) list) s
                  else emit (EvResponse (sid st) (isPush st) list endStream)
                         (upd r (\<lambda>st. st\<lparr>remoteHeaders := True\<rparr>) s))
               else emit (EvTrailers (sid st) list endStream) s)
      in if endStream then remoteEnded r s else s)"

definition streamOnData :: "nat \<Rightarrow> byte list \<Rightarrow> nat \<Rightarrow> bool \<Rightarrow> session \<Rightarrow> session" where
  "streamOnData r data counted end_stream s =
     (let s = (if length data < counted then consumed r (int counted - int (length data)) s else s);
          s = (if data \<noteq> [] then emit (EvPushData (sid (heap s r)) data)
                 (upd r (\<lambda>st. st\<lparr>bytesRead := bytesRead st + length data\<rparr>) s) else s)
      in if end_stream then remoteEnded r s else s)"

subsection \<open>A handler per frame type\<close>

definition unpad :: "byte \<Rightarrow> byte list \<Rightarrow> nat + byte list" where
  "unpad flags payload =
     (if \<not> has flags FLAG_PADDED then Inr payload
      else case payload of
        [] \<Rightarrow> Inl ERR_FRAME_SIZE_ERROR
      | pad # rest \<Rightarrow>
          if length payload \<le> unat pad then Inl ERR_PROTOCOL_ERROR
          else Inr (take (length rest - unat pad) rest))"

definition creditConnection :: "session \<Rightarrow> session" where
  "creditConnection s =
     (if 16384 \<le> recvUnacked s \<or> recvWindow s < 16384
      then let s = sendWindowUpdate 0 (recvUnacked s) False s
           in s\<lparr>recvWindow := recvWindow s + recvUnacked s, recvUnacked := 0\<rparr>
      else s)"

definition onDataFrame :: "byte \<Rightarrow> nat \<Rightarrow> byte list \<Rightarrow> h2step" where
  "onDataFrame flags streamId payload s0 =
     (if streamId = 0 then throw ERR_PROTOCOL_ERROR s0
      else case unpad flags payload of
        Inl e \<Rightarrow> throw e s0
      | Inr data \<Rightarrow>
          let counted = int (length payload); s = s0\<lparr>recvWindow := recvWindow s0 - counted\<rparr>
          in if recvWindow s < 0 then throw ERR_FLOW_CONTROL_ERROR s
             else let s = s\<lparr>recvUnacked := recvUnacked s + counted\<rparr>
                  in case find_stream s streamId of
                       Some r \<Rightarrow>
                         if remoteClosed (heap s r) then
                           (if lastPeerStream s < streamId \<and> \<not> client s \<and> odd streamId
                            then throw ERR_PROTOCOL_ERROR s
                            else ok (creditConnection (sendRst streamId ERR_STREAM_CLOSED s)))
                         else
                           let s = upd r (\<lambda>st. st\<lparr>streamRecvWindow := streamRecvWindow st - counted\<rparr>) s
                           in if streamRecvWindow (heap s r) < 0
                              then ok (creditConnection (streamReset r ERR_FLOW_CONTROL_ERROR s))
                              else ok (creditConnection
                                     (streamOnData r data (length payload) (has flags FLAG_END_STREAM) s))
                     | None \<Rightarrow>
                         if lastPeerStream s < streamId \<and> \<not> client s \<and> odd streamId
                         then throw ERR_PROTOCOL_ERROR s
                         else ok (creditConnection (sendRst streamId ERR_STREAM_CLOSED s)))"

definition finishHeaders :: "h2env \<Rightarrow> header_block \<Rightarrow> h2step" where
  "finishHeaders env block s0 =
     (let s = s0\<lparr>headerBlock := None\<rparr>;
          (d, r) = hpack_decode (textDecoder (utf8 env)) (decoder s)
                     (nat (num (localSettings s) maxHeaderListSize)) (concat (chunks block));
          s = s\<lparr>decoder := d\<rparr>; i = blockStream block
      in case r of
        Inl HeaderListTooLarge \<Rightarrow> ok (if i \<noteq> 0 then sendRst i ERR_REFUSED_STREAM s else s)
      | Inl CompressionError \<Rightarrow> throw ERR_COMPRESSION_ERROR s
      | Inr list \<Rightarrow>
          if maxHeaderPairs s \<noteq> 0 \<and> maxHeaderPairs s + 16 < length list
          then ok (sendRst i ERR_ENHANCE_YOUR_CALM s)
          else if isPushBlock block then ok (onPushHeaders block list s)
          else case find_stream s i of
            Some r \<Rightarrow> ok (streamOnHeaders env r list (blockEnd block) s)
          | None \<Rightarrow>
              if \<not> client s \<and> odd i \<and> lastPeerStream s < i then
                (if closing s \<or> goawaySent s
                 then ok (sendRst i ERR_REFUSED_STREAM (s\<lparr>lastPeerStream := i\<rparr>))
                 else ok (newRemoteStream env i list (blockEnd block) s))
              else if i \<le> lastPeerStream s \<or> client s then ok (sendRst i ERR_STREAM_CLOSED s)
              else throw ERR_PROTOCOL_ERROR s)"

definition startBlock :: "h2env \<Rightarrow> byte \<Rightarrow> header_block \<Rightarrow> h2step" where
  "startBlock env flags block s =
     (if has flags FLAG_END_HEADERS then finishHeaders env block (s\<lparr>headerBlock := Some block\<rparr>)
      else ok (s\<lparr>headerBlock := Some block\<rparr>))"

definition applyPriority :: "nat \<Rightarrow> byte list \<Rightarrow> session \<Rightarrow> session" where
  "applyPriority streamId five s =
     (if be_val (take 4 five) mod 2147483648 = streamId then sendRst streamId ERR_PROTOCOL_ERROR s else s)"

definition onHeaders :: "h2env \<Rightarrow> byte \<Rightarrow> nat \<Rightarrow> byte list \<Rightarrow> h2step" where
  "onHeaders env flags streamId payload s =
     (if streamId = 0 then throw ERR_PROTOCOL_ERROR s
      else case unpad flags payload of
        Inl e \<Rightarrow> throw e s
      | Inr data \<Rightarrow>
          if has flags FLAG_PRIORITY \<and> length data < 5 then throw ERR_FRAME_SIZE_ERROR s
          else let (s, data) = (if has flags FLAG_PRIORITY
                                then (applyPriority streamId (take 5 data) s, drop 5 data) else (s, data))
               in startBlock env flags
                    \<lparr>blockStream = streamId, promised = 0, chunks = [data],
                     blockEnd = has flags FLAG_END_STREAM, isPushBlock = False\<rparr> s)"

text \<open>Reading the promised id out of fewer than four bytes throws a \<open>RangeError\<close>.\<close>

definition onPushPromise :: "h2env \<Rightarrow> byte \<Rightarrow> nat \<Rightarrow> byte list \<Rightarrow> h2step" where
  "onPushPromise env flags streamId payload s =
     (if \<not> client s \<or> \<not> flag (localSettings s) enablePush then throw ERR_PROTOCOL_ERROR s
      else case unpad flags payload of
        Inl e \<Rightarrow> throw e s
      | Inr data \<Rightarrow>
          if length data < 4 then throw ERR_INTERNAL_ERROR s
          else startBlock env flags
                 \<lparr>blockStream = streamId, promised = be_val (take 4 data) mod 2147483648,
                  chunks = [drop 4 data], blockEnd = False, isPushBlock = True\<rparr> s)"

definition onContinuation :: "h2env \<Rightarrow> byte \<Rightarrow> nat \<Rightarrow> byte list \<Rightarrow> h2step" where
  "onContinuation env flags streamId payload s =
     (case headerBlock s of
        None \<Rightarrow> throw ERR_PROTOCOL_ERROR s
      | Some block \<Rightarrow>
          if blockStream block \<noteq> streamId then throw ERR_PROTOCOL_ERROR s
          else startBlock env flags (block\<lparr>chunks := chunks block @ [payload]\<rparr>) s)"

definition onRst :: "nat \<Rightarrow> byte list \<Rightarrow> h2step" where
  "onRst streamId payload s =
     (if streamId = 0 then throw ERR_PROTOCOL_ERROR s
      else if length payload \<noteq> 4 then throw ERR_FRAME_SIZE_ERROR s
      else case find_stream s streamId of
        None \<Rightarrow> ok s | Some r \<Rightarrow> ok (streamOnRst r (be_val payload) s))"

definition setRemote :: "setting_key \<Rightarrow> setting_value \<Rightarrow> session \<Rightarrow> session" where
  "setRemote k v s = s\<lparr>remoteSettings := (remoteSettings s)(k \<mapsto> v)\<rparr>"

definition applySetting :: "nat \<Rightarrow> nat \<Rightarrow> h2step" where
  "applySetting i val s =
     (if i = 1 then ok (let s = setRemote headerTableSize (SNumber (int val)) s
                        in s\<lparr>encoder := setTableSize (encoder s) val\<rparr>)
      else if i = 2 then
        (if 1 < val then throw ERR_PROTOCOL_ERROR s else ok (setRemote enablePush (SBool (val = 1)) s))
      else if i = 3 then ok (setRemote maxConcurrentStreams (SNumber (int val)) s)
      else if i = 4 then
        (if MAX_WINDOW < int val then throw ERR_FLOW_CONTROL_ERROR s
         else let delta = int val - num (remoteSettings s) initialWindowSize
              in ok (fold (\<lambda>(j, r). upd r (\<lambda>st. st\<lparr>streamSendWindow := streamSendWindow st + delta\<rparr>))
                       (streams s) (setRemote initialWindowSize (SNumber (int val)) s)))
      else if i = 5 then
        (if val < 16384 \<or> 16777215 < val then throw ERR_PROTOCOL_ERROR s
         else ok (setRemote maxFrameSize (SNumber (int val)) s))
      else if i = 6 then ok (setRemote maxHeaderListSize (SNumber (int val)) s)
      else if i = 8 then ok (setRemote enableConnectProtocol (SBool (val = 1)) s)
      else ok s)"

fun applyEntries :: "byte list \<Rightarrow> h2step" where
  "applyEntries (a # b # c # d # e # f # rest) s =
     andThen (applySetting (be_val [a, b]) (be_val [c, d, e, f]) s) (applyEntries rest)"
| "applyEntries _ s = ok s"

definition applyRemoteSettings :: "byte list \<Rightarrow> h2step" where
  "applyRemoteSettings payload s0 =
     (if length payload mod 6 \<noteq> 0 then throw ERR_FRAME_SIZE_ERROR s0
      else let s = (if remoteSettingsReceived s0 then s0
                    else setRemote maxConcurrentStreams (SNumber 4294967295) s0)
           in andThen (applyEntries payload s)
                (\<lambda>s. ok (emit EvRemoteSettings (s\<lparr>remoteSettingsReceived := True\<rparr>))))"

definition setLocal :: "setting_key \<times> setting_value \<Rightarrow> session \<Rightarrow> session" where
  "setLocal kv s =
     (if localSettings s (fst kv) = None then s
      else s\<lparr>localSettings := (localSettings s)(fst kv \<mapsto> snd kv)\<rparr>)"

definition settingsAck :: "session \<Rightarrow> session" where
  "settingsAck s0 =
     (case pendingSettings s0 of
        [] \<Rightarrow> s0
      | (obj, hasCallback) # rest \<Rightarrow>
          let s = fold setLocal obj (s0\<lparr>pendingSettings := rest\<rparr>);
              s = (case map_of obj headerTableSize of
                     Some (SNumber n) \<Rightarrow> s\<lparr>decoder := setLimit (decoder s) (nat n)\<rparr> | _ \<Rightarrow> s);
              s = emit EvLocalSettings s
          in if hasCallback then emit (EvSettingsDone True) s else s)"

definition onSettings :: "byte \<Rightarrow> nat \<Rightarrow> byte list \<Rightarrow> h2step" where
  "onSettings flags streamId payload s =
     (if streamId \<noteq> 0 then throw ERR_PROTOCOL_ERROR s
      else if has flags FLAG_ACK then
        (if payload \<noteq> [] then throw ERR_FRAME_SIZE_ERROR s else ok (settingsAck s))
      else andThen (applyRemoteSettings payload s) (\<lambda>s. ok (pump (sendFrame FRAME_SETTINGS FLAG_ACK 0 [] s))))"

definition onPing :: "byte \<Rightarrow> nat \<Rightarrow> byte list \<Rightarrow> h2step" where
  "onPing flags streamId payload s =
     (if streamId \<noteq> 0 then throw ERR_PROTOCOL_ERROR s
      else if length payload \<noteq> 8 then throw ERR_FRAME_SIZE_ERROR s
      else if has flags FLAG_ACK then
        ok (emit (EvPingAck payload)
             (if payload \<in> set (pings s)
              then emit (EvPingDone payload True) (s\<lparr>pings := remove1 payload (pings s)\<rparr>) else s))
      else ok (emit (EvPing payload) (sendFrame FRAME_PING FLAG_ACK 0 payload s)))"

definition cancelAbove :: "nat \<Rightarrow> nat \<times> nat \<Rightarrow> session \<Rightarrow> session" where
  "cancelAbove lastStreamID ir s =
     (let st = heap s (snd ir)
      in if client s \<and> lastStreamID < sid st \<and> \<not> remoteInitiated st
         then sessionGone (snd ir) (Some ERR_CANCEL) ERR_REFUSED_STREAM s else s)"

definition onGoaway :: "nat \<Rightarrow> byte list \<Rightarrow> h2step" where
  "onGoaway streamId payload s0 =
     (if length payload < 8 then throw ERR_FRAME_SIZE_ERROR s0
      else let lastStreamID = be_val (take 4 payload) mod 2147483648;
               code = be_val (take 4 (drop 4 payload));
               s = emit (EvGoaway code lastStreamID (drop 8 payload))
                     (s0\<lparr>goawayReceived := Some (lastStreamID, code)\<rparr>);
               s = fold (cancelAbove lastStreamID) (streams s) s
           in ok (if closing s then s else maybeFinish (s\<lparr>closing := True\<rparr>)))"

definition onWindowUpdate :: "nat \<Rightarrow> byte list \<Rightarrow> h2step" where
  "onWindowUpdate streamId payload s =
     (if length payload \<noteq> 4 then throw ERR_FRAME_SIZE_ERROR s
      else let increment = int (be_val payload mod 2147483648)
           in if streamId = 0 then
                (if increment = 0 then throw ERR_PROTOCOL_ERROR s
                 else let s = s\<lparr>sendWindow := sendWindow s + increment\<rparr>
                      in if MAX_WINDOW < sendWindow s then throw ERR_FLOW_CONTROL_ERROR s else ok (pump s))
              else case find_stream s streamId of
                None \<Rightarrow> ok s
              | Some r \<Rightarrow>
                  if increment = 0 then ok (streamReset r ERR_PROTOCOL_ERROR s)
                  else let s = upd r (\<lambda>st. st\<lparr>streamSendWindow := streamSendWindow st + increment\<rparr>) s
                       in if MAX_WINDOW < streamSendWindow (heap s r)
                          then ok (streamReset r ERR_FLOW_CONTROL_ERROR s) else ok (pump s))"

definition latin1 :: "byte list \<Rightarrow> jsstr" where
  "latin1 bs = map (\<lambda>b. word_of_nat (unat b)) bs"

function origins :: "byte list \<Rightarrow> jsstr list" where
  "origins payload =
     (if length payload < 2 then []
      else let n = be_val (take 2 payload)
           in if length payload < 2 + n then []
              else latin1 (take n (drop 2 payload)) # origins (drop (2 + n) payload))"
  by pat_completeness auto
termination
  by (relation "measure length") auto

declare origins.simps [simp del]

definition onOrigin :: "nat \<Rightarrow> byte list \<Rightarrow> h2step" where
  "onOrigin streamId payload s =
     (if streamId \<noteq> 0 \<or> \<not> client s then ok s
      else ok (emit (EvOrigin (origins payload))
             (s\<lparr>originSet := originSet s @ filter (\<lambda>x. x \<notin> set (originSet s)) (origins payload)\<rparr>)))"

definition onAltsvc :: "nat \<Rightarrow> byte list \<Rightarrow> h2step" where
  "onAltsvc streamId payload s =
     (if \<not> client s \<or> length payload < 2 then ok s
      else let n = be_val (take 2 payload)
           in if length payload < 2 + n \<or> (streamId = 0 \<longleftrightarrow> n = 0) then ok s
              else ok (emit (EvAltsvc (latin1 (drop (2 + n) payload)) (latin1 (take n (drop 2 payload))) streamId) s))"

definition onPriority :: "nat \<Rightarrow> byte list \<Rightarrow> h2step" where
  "onPriority streamId payload s =
     (if streamId = 0 then throw ERR_PROTOCOL_ERROR s
      else if length payload \<noteq> 5 then throw ERR_FRAME_SIZE_ERROR s
      else ok (applyPriority streamId payload s))"

definition handleFrame :: "h2env \<Rightarrow> nat \<Rightarrow> byte \<Rightarrow> nat \<Rightarrow> byte list \<Rightarrow> h2step" where
  "handleFrame env t flags streamId payload s =
     (if headerBlock s \<noteq> None \<and> t \<noteq> FRAME_CONTINUATION then throw ERR_PROTOCOL_ERROR s
      else if t = FRAME_DATA then onDataFrame flags streamId payload s
      else if t = FRAME_HEADERS then onHeaders env flags streamId payload s
      else if t = FRAME_PRIORITY then onPriority streamId payload s
      else if t = FRAME_ORIGIN then onOrigin streamId payload s
      else if t = FRAME_ALTSVC then onAltsvc streamId payload s
      else if t = FRAME_RST_STREAM then onRst streamId payload s
      else if t = FRAME_SETTINGS then onSettings flags streamId payload s
      else if t = FRAME_PUSH_PROMISE then onPushPromise env flags streamId payload s
      else if t = FRAME_PING then onPing flags streamId payload s
      else if t = FRAME_GOAWAY then onGoaway streamId payload s
      else if t = FRAME_WINDOW_UPDATE then onWindowUpdate streamId payload s
      else if t = FRAME_CONTINUATION then onContinuation env flags streamId payload s
      else ok s)"

subsection \<open>The parser\<close>

text \<open>
  \<open>parse_frame mx bs\<close>: the next frame and the rest, \<open>None\<close> while it is not all there, or the error
  of a frame longer than our limit.
\<close>

definition parse_frame :: "int \<Rightarrow> byte list \<Rightarrow> nat + (nat \<times> byte \<times> nat \<times> byte list \<times> byte list) option" where
  "parse_frame mx bs =
     (if length bs < 9 then Inr None
      else let n = be_val (take 3 bs)
           in if mx < int n then Inl ERR_FRAME_SIZE_ERROR
              else if length bs < 9 + n then Inr None
              else Inr (Some (unat (bs ! 3), bs ! 4, be_val (take 4 (drop 5 bs)) mod 2147483648,
                     take n (drop 9 bs), drop (9 + n) bs)))"

lemma parse_frame_shorter:
  "parse_frame mx bs = Inr (Some (t, f, i, payload, rest)) \<Longrightarrow> length rest < length bs"
  by (auto simp: parse_frame_def Let_def split: if_splits)

text \<open>The loop of \<open>_parse\<close>, over the bytes held; no handler looks at them.\<close>

function parse_loop :: "h2env \<Rightarrow> byte list \<Rightarrow> h2step" where
  "parse_loop env bs s =
     (case parse_frame (num (localSettings s) maxFrameSize) bs of
        Inl e \<Rightarrow> throw e s
      | Inr None \<Rightarrow> ok s
      | Inr (Some (t, flags, streamId, payload, rest)) \<Rightarrow>
          (case handleFrame env t flags streamId payload (s\<lparr>recv := rest\<rparr>) of
             (s, Some e) \<Rightarrow> (s, Some e)
           | (s, None) \<Rightarrow> if destroyed s then ok s else parse_loop env rest s))"
  by pat_completeness auto
termination
  by (relation "measure (\<lambda>(_, bs, _). length bs)") (auto dest: parse_frame_shorter)

declare parse_loop.simps [simp del]

definition parse :: "h2env \<Rightarrow> h2step" where
  "parse env s =
     (if prefaceSeen s then parse_loop env (recv s) s
      else if length (recv s) < length PREFACE then
        (if take (length (recv s)) PREFACE = recv s then ok s else throw ERR_PROTOCOL_ERROR s)
      else let rest = drop (length PREFACE) (recv s); s' = s\<lparr>recv := rest\<rparr>
           in if take (length PREFACE) (recv s) \<noteq> PREFACE then throw ERR_PROTOCOL_ERROR s'
              else parse_loop env rest (s'\<lparr>prefaceSeen := True\<rparr>))"

definition receive :: "h2env \<Rightarrow> byte list \<Rightarrow> session \<Rightarrow> session" where
  "receive env chunk s =
     (if destroyed s then s
      else case parse env (s\<lparr>recv := recv s @ chunk\<rparr>) of
        (s, None) \<Rightarrow> s
      | (s, Some code) \<Rightarrow> connectionError code s)"

subsection \<open>A new session\<close>

definition initial_local :: settings where
  "initial_local = DEFAULT_SETTINGS(maxHeaderListSize \<mapsto> SNumber 4294967295)"

definition initial_remote :: settings where
  "initial_remote = initial_local(maxConcurrentStreams \<mapsto> SNumber 100)"

definition blank_session :: "bool \<Rightarrow> h2socket \<Rightarrow> nat \<Rightarrow> session" where
  "blank_session isClient sock pairs =
     \<lparr>client = isClient, heap = \<lambda>_. undefined, nextRef = 0, streams = [],
      nextStreamId = (if isClient then 1 else 2), lastProcessed = 0, lastPeerStream = 0, recv = [],
      prefaceSeen = isClient, closing = False, destroyed = False, goawayReceived = None,
      goawaySent = False, outgoing = [], flushScheduled = False, headerBlock = None,
      pendingSettings = [], pings = [], sendQueue = [], pumping = False,
      socketReady = (\<not> connecting sock), localSettings = initial_local, remoteSettings = initial_remote,
      sendWindow = 65535, recvWindow = 65535, recvUnacked = 0, decoder = new_decoder 4096,
      encoder = new_encoder 4096, maxHeaderPairs = pairs, remoteSettingsReceived = False,
      originSet = [], hasStreamListener = False, socket = sock, events = []\<rparr>"

text \<open>\<open>windowSize\<close> is 0 when the option is not given.\<close>

definition new_session ::
  "bool \<Rightarrow> h2socket \<Rightarrow> nat \<Rightarrow> setting_object \<Rightarrow> (nat \<times> nat) list \<Rightarrow> int \<Rightarrow> session" where
  "new_session isClient sock pairs settings custom windowSize =
     (let s = blank_session isClient sock pairs;
          s = (if isClient then writeRaw (Raw PREFACE) s else s);
          s = sendSettings settings custom False s
      in if 65535 < windowSize then sendWindowUpdate 0 (windowSize - 65535) True s else s)"

end
