(* ===== verification/Http2Wire.thy ===== *)
theory Http2Wire
  imports Http2Frames
begin

unbundle bit_operations_syntax

text \<open>
  The two ends of an HTTP/2 connection together: frames written and parsed, header blocks cut into
  frames and put together, settings packed and applied, and a request that crosses a connection.
\<close>

subsection \<open>Frames on the wire\<close>

definition frame_ok :: "int \<Rightarrow> nat \<times> byte \<times> nat \<times> byte list \<Rightarrow> bool" where
  "frame_ok mx f \<longleftrightarrow> (case f of (t, flags, i, payload) \<Rightarrow>
     t < 256 \<and> i < 2147483648 \<and> length payload < 16777216 \<and> int (length payload) \<le> mx)"

definition put_frame :: "nat \<times> byte \<times> nat \<times> byte list \<Rightarrow> byte list" where
  "put_frame f = (case f of (t, flags, i, payload) \<Rightarrow> item_bytes (Frame t flags i payload))"

definition get_frame :: "int \<Rightarrow> byte list \<Rightarrow> nat option + ((nat \<times> byte \<times> nat \<times> byte list) \<times> byte list)" where
  "get_frame mx bs =
     (case parse_frame mx bs of
        Inl e \<Rightarrow> Inl (Some e)
      | Inr None \<Rightarrow> Inl None
      | Inr (Some (t, flags, i, payload, rest)) \<Rightarrow> Inr ((t, flags, i, payload), rest))"

lemma parse_frame_item:
  assumes "frame_ok mx (t, flags, i, payload)"
  shows "parse_frame mx (item_bytes (Frame t flags i payload) @ rest) = Inr (Some (t, flags, i, payload, rest))"
proof -
  obtain A where A: "A = be_bytes 3 (length payload)" "length A = 3" "be_val A = length payload"
    using assms by (simp add: frame_ok_def)
  obtain B where B: "B = be_bytes 4 (i mod 2147483648)" "length B = 4" "be_val B = i"
    using assms by (simp add: frame_ok_def)
  obtain bs where bs: "bs = A @ [word_of_nat t, flags] @ B @ payload @ rest" by blast
  have len: "length bs = 9 + length payload + length rest" and t3: "take 3 bs = A"
    and n3: "bs ! 3 = word_of_nat t" and n4: "bs ! 4 = flags" and t4: "take 4 (drop 5 bs) = B"
    and d9: "take (length payload) (drop 9 bs) = payload"
    using A(2) B(2) by (simp_all add: bs nth_append)
  have "drop (9 + length payload) bs = drop (length payload) (drop 9 bs)" by (simp add: add.commute)
  also have "\<dots> = rest" using A(2) B(2) by (simp add: bs)
  finally have r: "drop (9 + length payload) bs = rest" .
  have "parse_frame mx bs = Inr (Some (t, flags, i, payload, rest))"
    using assms A(3) B(3) by (simp add: parse_frame_def len t3 n3 n4 t4 d9 r frame_ok_def Let_def)
  then show ?thesis by (simp add: bs A(1) B(1))
qed

interpretation frame_wire: framed put_frame "get_frame mx" "frame_ok mx"
proof
  fix f :: "nat \<times> byte \<times> nat \<times> byte list" and rest :: "byte list"
  obtain t flags i payload where f: "f = (t, flags, i, payload)" by (cases f)
  assume "frame_ok mx f"
  from parse_frame_item [OF this [unfolded f]] show "get_frame mx (put_frame f @ rest) = Inr (f, rest)"
    by (simp add: get_frame_def put_frame_def f)
qed

subsection \<open>A header block in frames\<close>

definition payload_of :: "out_item \<Rightarrow> byte list" where
  "payload_of item = (case item of Raw bs \<Rightarrow> bs | Frame t f i payload \<Rightarrow> payload)"

definition frame_flags :: "out_item \<Rightarrow> byte" where
  "frame_flags item = (case item of Raw bs \<Rightarrow> 0 | Frame t f i payload \<Rightarrow> f)"

lemma payload_of_Frame [simp]: "payload_of (Frame t f i payload) = payload"
  by (simp add: payload_of_def)

lemma continuations_payload:
  "0 < mx \<Longrightarrow> concat (map payload_of (continuations mx i rest)) = rest \<and>
     (\<forall>f \<in> set (continuations mx i rest). length (payload_of f) \<le> mx)"
proof (induction mx i rest rule: continuations.induct)
  case (1 mx i rest)
  then show ?case
    by (subst (1 2) continuations.simps) (auto simp: payload_of_Frame)
qed

lemma header_frames_payload:
  assumes "length prefx < mx"
  shows "concat (map payload_of (header_frames mx i flags prefx block)) = prefx @ block \<and>
     (\<forall>f \<in> set (header_frames mx i flags prefx block). length (payload_of f) \<le> mx)"
  using assms continuations_payload [of mx i "drop (min (length block) (mx - length prefx)) block"]
  by (auto simp: header_frames_def Let_def)

text \<open>What a session does with frames that arrive one after another.\<close>

fun deliver :: "h2env \<Rightarrow> out_item list \<Rightarrow> h2step" where
  "deliver env [] s = ok s"
| "deliver env (Raw bs # items) s = deliver env items s"
| "deliver env (Frame t flags i payload # items) s =
     andThen (handleFrame env t flags i payload s) (deliver env items)"

lemma finishHeaders_block: "finishHeaders env b (s\<lparr>headerBlock := x\<rparr>) = finishHeaders env b s"
  by (simp add: finishHeaders_def)

lemma finishHeaders_cong:
  assumes "concat (chunks b) = concat (chunks b')" and "blockStream b = blockStream b'"
    and "promised b = promised b'" and "blockEnd b = blockEnd b'" and "isPushBlock b = isPushBlock b'"
  shows "finishHeaders env b s = finishHeaders env b' s"
  unfolding finishHeaders_def onPushHeaders_def assms ..

lemma finishHeaders_chunks:
  "concat cs = concat cs' \<Longrightarrow> finishHeaders env (b\<lparr>chunks := cs\<rparr>) s = finishHeaders env (b\<lparr>chunks := cs'\<rparr>) s"
  by (rule finishHeaders_cong) simp_all

lemma ok_inject [simp]: "ok s = ok s' \<longleftrightarrow> s = s'"
  by (simp add: ok_def)

lemma andThen_ok [simp]: "andThen (ok s) f = f s"
  by (simp add: andThen_def ok_def)

lemma andThen_None: "(\<And>s. f s = ok s) \<Longrightarrow> andThen r f = r"
  by (cases r; cases "snd r") (auto simp: andThen_def ok_def)

lemma deliver_continuations:
  assumes "0 < mx" and "rest \<noteq> []" and "blockStream b = i"
  shows "deliver env (continuations mx i rest) (s\<lparr>headerBlock := Some b\<rparr>) =
    finishHeaders env (b\<lparr>chunks := chunks b @ [rest]\<rparr>) s"
  using assms
proof (induction mx i rest arbitrary: b rule: continuations.induct)
  case (1 mx i rest)
  have ok_nil: "deliver env [] = ok" by (intro ext) simp
  show ?case
  proof (cases "length rest \<le> mx")
    case True
    have "continuations mx i rest = [Frame FRAME_CONTINUATION FLAG_END_HEADERS i rest]"
      using 1(2,3) True by (subst continuations.simps) (simp add: continuations.simps)
    then show ?thesis
      using "1.prems"
      by (simp add: handleFrame_def onContinuation_def startBlock_def h2_consts has_def ok_nil
          finishHeaders_block andThen_None)
  next
    case False
    have c: "continuations mx i rest = Frame FRAME_CONTINUATION 0 i (take mx rest) # continuations mx i (drop mx rest)"
      using 1(2,3) False by (subst continuations.simps) simp
    let ?b = "b\<lparr>chunks := chunks b @ [take mx rest]\<rparr>"
    have "deliver env (continuations mx i (drop mx rest)) (s\<lparr>headerBlock := Some ?b\<rparr>) =
        finishHeaders env (?b\<lparr>chunks := chunks ?b @ [drop mx rest]\<rparr>) s"
      using False 1 by (intro "1.IH") simp_all
    also have "\<dots> = finishHeaders env (b\<lparr>chunks := chunks b @ [rest]\<rparr>) s"
      using finishHeaders_chunks [of "chunks b @ [take mx rest, drop mx rest]" "chunks b @ [rest]" env b s] by simp
    finally show ?thesis
      using "1.prems"
      by (simp add: c handleFrame_def onContinuation_def startBlock_def h2_consts has_def)
  qed
qed

lemma deliver_header_frames:
  assumes "headerBlock s = None" and "0 < mx" and "i \<noteq> 0" and "flags = 0 \<or> flags = FLAG_END_STREAM"
  shows "deliver env (header_frames mx i flags [] block) s =
    finishHeaders env \<lparr>blockStream = i, promised = 0, chunks = [block], blockEnd = has flags FLAG_END_STREAM,
      isPushBlock = False\<rparr> s"
proof -
  have ok_nil: "deliver env [] = ok" by (intro ext) simp
  let ?b = "\<lambda>cs. \<lparr>blockStream = i, promised = 0, chunks = cs, blockEnd = has flags FLAG_END_STREAM, isPushBlock = False\<rparr>"
  note hd = header_frames_def handleFrame_def onHeaders_def unpad_def startBlock_def h2_consts has_def Let_def
  show ?thesis
  proof (cases "length block \<le> mx")
    case True
    then have c: "continuations mx i (drop (length block) block) = []"
      by (subst continuations.simps) simp
    from True assms c show ?thesis
      by (auto simp: hd min_def ok_nil andThen_None finishHeaders_block)
  next
    case False
    then have "deliver env (continuations mx i (drop mx block)) (s\<lparr>headerBlock := Some (?b [take mx block])\<rparr>) =
      finishHeaders env ((?b [take mx block])\<lparr>chunks := chunks (?b [take mx block]) @ [drop mx block]\<rparr>) s"
      using assms(2) by (intro deliver_continuations) simp_all
    also have "\<dots> = finishHeaders env (?b [block]) s"
      using finishHeaders_chunks [of "[take mx block, drop mx block]" "[block]" env "?b []" s] by simp
    finally show ?thesis
      using False assms by (auto simp: hd min_def)
  qed
qed


subsection \<open>Settings\<close>

definition setting_valid :: "setting_key \<times> setting_value \<Rightarrow> bool" where
  "setting_valid kv =
     (case setting_check (fst kv) of
        Some (lo, hi) \<Rightarrow> (case snd kv of SNumber n \<Rightarrow> lo \<le> n \<and> n \<le> hi | _ \<Rightarrow> False)
      | None \<Rightarrow> (case snd kv of SBool b \<Rightarrow> True | _ \<Rightarrow> False))"

lemma validateSettings_valid: "validateSettings settings = Inr () \<longleftrightarrow> (\<forall>kv \<in> set settings. setting_valid kv)"
  by (induction settings rule: validateSettings.induct)
    (auto simp: setting_valid_def split: option.splits setting_value.splits prod.splits)

definition sendable :: "setting_key \<times> setting_value \<Rightarrow> bool" where
  "sendable kv \<longleftrightarrow> setting_valid kv \<and> fst kv \<noteq> maxHeaderSize \<and>
     (fst kv = initialWindowSize \<longrightarrow> (\<forall>n. snd kv = SNumber n \<longrightarrow> n \<le> MAX_WINDOW))"

lemma setting_word_range: "setting_valid (k, v) \<Longrightarrow> setting_word v < 4294967296"
  by (cases k; cases v) (auto simp: setting_valid_def setting_check_def setting_word_def)

lemma upd_remote [simp]: "remoteSettings (upd r f s) = remoteSettings s"
  by (simp add: upd_def)

lemma fold_upd_remote: "remoteSettings (fold (\<lambda>(j, r). upd r f) xs s) = remoteSettings s"
  by (induction xs arbitrary: s) auto

lemma applySetting_sendable:
  assumes "sendable (k, v)"
  shows "\<exists>s'. applySetting (SETTING_IDS k) (setting_word v) s = ok s' \<and>
    remoteSettings s' = (remoteSettings s)(k \<mapsto> v)"
  using assms
  by (cases k; cases v)
    (auto simp: sendable_def setting_valid_def setting_check_def applySetting_def SETTING_IDS_def
      setting_word_def setRemote_def Let_def fold_upd_remote MAX_WINDOW_def)

lemma be_bytes_2: "\<exists>a b. be_bytes 2 v = [a, b]"
  using length_be_bytes [of 2 v] by (auto simp: length_Suc_conv numeral_2_eq_2 simp del: be_bytes.simps length_be_bytes)

lemma be_bytes_4: "\<exists>a b c d. be_bytes 4 v = [a, b, c, d]"
proof -
  have "length (be_bytes 4 v) = Suc (Suc (Suc (Suc 0)))" by simp
  then show ?thesis by (auto simp: length_Suc_conv simp del: length_be_bytes)
qed

lemma applyEntries_pair:
  assumes "i < 65536" and "w < 4294967296"
  shows "applyEntries (be_bytes 2 i @ be_bytes 4 w @ rest) s = andThen (applySetting i w s) (applyEntries rest)"
proof -
  obtain a b where ab: "be_bytes 2 i = [a, b]" using be_bytes_2 by blast
  obtain c d e f where cdef: "be_bytes 4 w = [c, d, e, f]" using be_bytes_4 by blast
  have "be_val [a, b] = i" using be_val_be_bytes [of 2 i] assms(1) ab by (simp del: be_val_be_bytes)
  moreover have "be_val [c, d, e, f] = w" using be_val_be_bytes [of 4 w] assms(2) cdef by (simp del: be_val_be_bytes)
  ultimately show ?thesis by (simp add: ab cdef)
qed

definition with_settings :: "setting_object \<Rightarrow> settings \<Rightarrow> settings" where
  "with_settings obj m = foldl (\<lambda>m (k, v). m(k \<mapsto> v)) m obj"

lemma applyEntries_pack:
  "\<forall>kv \<in> set obj. sendable kv \<Longrightarrow>
   \<exists>s'. applyEntries (packSettings obj []) s = ok s' \<and> remoteSettings s' = with_settings obj (remoteSettings s)"
proof (induction obj arbitrary: s)
  case Nil
  then show ?case by (simp add: packSettings_def with_settings_def ok_def)
next
  case (Cons kv obj)
  obtain k v where kv: "kv = (k, v)" by (cases kv)
  have sv: "sendable (k, v)" using Cons.prems kv by simp
  then obtain s1 where s1: "applySetting (SETTING_IDS k) (setting_word v) s = ok s1"
    "remoteSettings s1 = (remoteSettings s)(k \<mapsto> v)" using applySetting_sendable by blast
  have "setting_word v < 4294967296" using sv setting_word_range [of k v] by (simp add: sendable_def)
  moreover have "SETTING_IDS k < 65536" by (cases k) (simp_all add: SETTING_IDS_def)
  ultimately have "applyEntries (packSettings (kv # obj) []) s = applyEntries (packSettings obj []) s1"
    using applyEntries_pair s1(1) by (simp add: packSettings_def kv)
  moreover obtain s' where "applyEntries (packSettings obj []) s1 = ok s'"
    "remoteSettings s' = with_settings obj (remoteSettings s1)"
    using Cons.IH Cons.prems by fastforce
  ultimately show ?case using s1(2) by (simp add: with_settings_def kv)
qed

lemma length_packSettings: "length (packSettings obj cs) = 6 * (length obj + length cs)"
  by (simp add: packSettings_def length_concat comp_def split_beta sum_list_triv)

lemma with_settings_lookup:
  "distinct (map fst obj) \<Longrightarrow> with_settings obj m k = (case map_of obj k of None \<Rightarrow> m k | v \<Rightarrow> v)"
proof (induction obj arbitrary: m)
  case (Cons kv obj)
  obtain j v where kv: "kv = (j, v)" by (cases kv)
  have "map_of obj j = None" using Cons.prems kv by (simp add: map_of_eq_None_iff)
  moreover have "with_settings (kv # obj) m k = (case map_of obj k of None \<Rightarrow> (m(j \<mapsto> v)) k | w \<Rightarrow> w)"
    using Cons kv by (simp add: with_settings_def)
  ultimately show ?case by (auto simp: kv split: option.split)
qed (simp add: with_settings_def)

lemma wanted_sendable:
  assumes "validateSettings settings = Inr ()"
    and "\<And>n. map_of settings initialWindowSize = Some (SNumber n) \<Longrightarrow> n \<le> MAX_WINDOW"
    and "distinct (map fst settings)"
  shows "\<forall>kv \<in> set (wanted_settings settings). sendable kv"
proof
  fix kv assume "kv \<in> set (wanted_settings settings)"
  then have mem: "kv \<in> set settings \<or> (fst kv = maxHeaderListSize \<and> (maxHeaderSize, snd kv) \<in> set settings)"
    and key: "fst kv \<noteq> maxHeaderSize"
    by (auto simp: wanted_settings_def split: option.splits if_splits dest: map_of_SomeD)
  have "setting_valid kv"
    using mem assms(1) unfolding validateSettings_valid
    by (fastforce simp: setting_valid_def setting_check_def)
  moreover have "n \<le> MAX_WINDOW" if "fst kv = initialWindowSize" "snd kv = SNumber n" for n
    using mem that assms(2,3) by (cases kv) (auto simp: map_of_is_SomeI)
  ultimately show "sendable kv" using key by (simp add: sendable_def)
qed

lemma settings_transfer:
  assumes "validateSettings settings = Inr ()" and "distinct (map fst settings)"
    and "\<And>n. map_of settings initialWindowSize = Some (SNumber n) \<Longrightarrow> n \<le> MAX_WINDOW"
    and "remoteSettingsReceived s"
  shows "\<exists>s'. applyRemoteSettings (packSettings (wanted_settings settings) []) s = ok s' \<and>
    remoteSettings s' = with_settings (wanted_settings settings) (remoteSettings s)"
proof -
  from applyEntries_pack [OF wanted_sendable [OF assms(1,3,2)], of s] obtain s' where
    "applyEntries (packSettings (wanted_settings settings) []) s = ok s'"
    "remoteSettings s' = with_settings (wanted_settings settings) (remoteSettings s)" by blast
  with assms(4) show ?thesis
    by (simp add: applyRemoteSettings_def length_packSettings emit_def)
qed


subsection \<open>A request arrives\<close>

definition can_open :: "nat \<Rightarrow> session \<Rightarrow> bool" where
  "can_open i s \<longleftrightarrow> \<not> client s \<and> headerBlock s = None \<and> \<not> closing s \<and> \<not> goawaySent s \<and> odd i \<and>
     lastPeerStream s < i \<and> find_stream s i = None \<and>
     int (length (filter (\<lambda>(i, r). remoteInitiated (heap s r)) (streams s))) < num (localSettings s) maxConcurrentStreams"

lemma newRemoteStream_ok:
  assumes "validateRequestHeaders (toLowerCase env) (fst (headersToObject hs)) = None"
    and "int (length (filter (\<lambda>(i, r). remoteInitiated (heap s r)) (streams s))) < num (localSettings s) maxConcurrentStreams"
  shows "\<exists>r. let s' = newRemoteStream env i hs e s in
    map_of (streams s') i = Some r \<and> sid (heap s' r) = i \<and> remoteClosed (heap s' r) = e \<and>
    last (events s') = EvStream i hs e \<and> decoder s' = decoder s \<and> lastPeerStream s' = i"
  using assms
  by (simp add: newRemoteStream_def alloc_def new_stream_def map_of_set_prop upd_def emit_def remoteEnded_def
      maybeClosed_def pushNull_def Let_def)

lemma request_arrives_lemma:
  assumes "in_step e (decoder s)" and "can_open i s"
    and "\<forall>h \<in> set hs. ascii_header h" and "list_fits (nat (num (localSettings s) maxHeaderListSize)) hs"
    and "maxHeaderPairs s = 0 \<or> length hs \<le> maxHeaderPairs s + 16"
    and "validateRequestHeaders (toLowerCase env) (fst (headersToObject hs)) = None"
    and "flags = 0 \<or> flags = FLAG_END_STREAM" and "0 < mx"
    and "hpack_encode textEncoder e hs = (block, e')"
  shows "\<exists>s'. deliver env (header_frames mx i flags [] block) s = ok s' \<and>
    last (events s') = EvStream i hs (has flags FLAG_END_STREAM) \<and> in_step e' (decoder s') \<and> lastPeerStream s' = i"
proof -
  obtain d' where d': "hpack_decode (textDecoder (utf8 env)) (decoder s)
      (nat (num (localSettings s) maxHeaderListSize)) block = (d', Inr hs)" "in_step e' d'"
    using decode_encode_block [OF assms(1) _ assms(4,9)] header_ok_ascii assms(3) by blast
  let ?s = "s\<lparr>headerBlock := None, decoder := d'\<rparr>"
  let ?b = "\<lparr>blockStream = i, promised = 0, chunks = [block], blockEnd = has flags FLAG_END_STREAM, isPushBlock = False\<rparr>"
  have "i \<noteq> 0" using assms(2) by (auto simp: can_open_def)
  then have "deliver env (header_frames mx i flags [] block) s = finishHeaders env ?b s"
    using assms(2,7,8) by (intro deliver_header_frames) (simp_all add: can_open_def)
  also have "\<dots> = ok (newRemoteStream env i hs (has flags FLAG_END_STREAM) ?s)"
    using assms(2,5) d'(1) by (auto simp: finishHeaders_def can_open_def find_stream_def Let_def)
  finally show ?thesis
    using newRemoteStream_ok [OF assms(6), of ?s i "has flags FLAG_END_STREAM"] assms(2) d'(2)
    by (auto simp: can_open_def Let_def)
qed


subsection \<open>Properties\<close>

text \<open>
  A request crosses the connection. A header block encoded by the client, cut into HEADERS and
  CONTINUATION frames of any size the server allows and handled frame by frame, makes a server
  that can open the stream announce exactly the client's headers, and leaves the compression
  state of the two sides in step for the next block.
\<close>

theorem request_arrives:
  assumes "in_step e (decoder s)" and "can_open i s"
    and "\<forall>h \<in> set hs. ascii_header h" and "list_fits (nat (num (localSettings s) maxHeaderListSize)) hs"
    and "maxHeaderPairs s = 0 \<or> length hs \<le> maxHeaderPairs s + 16"
    and "validateRequestHeaders (toLowerCase env) (fst (headersToObject hs)) = None"
    and "flags = 0 \<or> flags = FLAG_END_STREAM" and "0 < mx"
    and "hpack_encode textEncoder e hs = (block, e')"
  shows "\<exists>s'. deliver env (header_frames mx i flags [] block) s = ok s' \<and>
    last (events s') = EvStream i hs (has flags FLAG_END_STREAM) \<and> in_step e' (decoder s') \<and> lastPeerStream s' = i"
  using assms by (rule request_arrives_lemma)

definition demo_socket :: h2socket where
  "demo_socket = \<lparr>connecting = False, writable = True, sockDestroyed = False, sockEnded = False,
     buffered = 0, highWaterMark = 65536, needDrain = False, wire = []\<rparr>"

definition demo_env :: h2env where
  "demo_env = \<lparr>utf8 = \<lambda>_. [], toLowerCase = \<lambda>s. s, toNumber = \<lambda>_. NaN\<rparr>"

definition demo_request :: "header list" where
  "demo_request = [(js '':method'', js ''GET'', False), (js '':path'', js ''/'', False),
     (js '':scheme'', js ''http'', False), (js ''a'', js ''b'', True)]"

theorem request_arrives_witness:
  "\<exists>s'. deliver demo_env (header_frames 4 1 FLAG_END_STREAM []
       (fst (hpack_encode textEncoder (new_encoder 4096) demo_request))) (blank_session False demo_socket 128) = ok s' \<and>
     last (events s') = EvStream 1 demo_request True \<and> lastPeerStream s' = 1"
proof -
  obtain block e' where be: "hpack_encode textEncoder (new_encoder 4096) demo_request = (block, e')" by fastforce
  have "\<exists>s'. deliver demo_env (header_frames 4 1 FLAG_END_STREAM [] block) (blank_session False demo_socket 128) = ok s' \<and>
     last (events s') = EvStream 1 demo_request (has FLAG_END_STREAM FLAG_END_STREAM) \<and>
     in_step e' (decoder s') \<and> lastPeerStream s' = 1"
  proof (rule request_arrives [OF _ _ _ _ _ _ _ _ be])
    show "in_step (new_encoder 4096) (decoder (blank_session False demo_socket 128))"
      by (simp add: blank_session_def in_step_new)
    show "can_open 1 (blank_session False demo_socket 128)"
      by (simp add: can_open_def blank_session_def find_stream_def initial_local_def DEFAULT_SETTINGS_def num_def)
    show "list_fits (nat (num (localSettings (blank_session False demo_socket 128)) maxHeaderListSize)) demo_request"
      by (simp add: list_fits_def blank_session_def initial_local_def num_def demo_request_def header_size_def
          entry_size_def js_def)
    show "validateRequestHeaders (toLowerCase demo_env) (fst (headersToObject demo_request)) = None"
      by (simp add: validateRequestHeaders_def headersToObject_def demo_request_def add_header_def js_def demo_env_def
          CONNECTION_HEADERS_def is_pseudo_def)
  qed (simp_all add: demo_request_def ascii_header_def ascii_def js_def blank_session_def)
  then show ?thesis by (auto simp: be has_def FLAG_END_STREAM_def)
qed

text \<open>
  The frame parser reads back what \<open>_frame\<close> writes, whatever follows on the wire, for every
  type, flag byte, stream id and payload the format has room for and the receiver allows.
\<close>

theorem frame_roundtrip:
  assumes "t < 256" and "i < 2147483648" and "length payload < 16777216" and "int (length payload) \<le> mx"
  shows "parse_frame mx (item_bytes (Frame t flags i payload) @ rest) = Inr (Some (t, flags, i, payload, rest))"
  using assms by (intro parse_frame_item) (simp add: frame_ok_def)

theorem frame_roundtrip_witness:
  "parse_frame 16384 (item_bytes (Frame 0 1 5 [1, 2]) @ [9]) = Inr (Some (0, 1, 5, [1, 2], [9]))"
  by (rule frame_roundtrip) simp_all

text \<open>
  Settings arrive as they were given. Any settings object that \<open>validateSettings\<close> accepts, packed
  and applied by the peer, changes exactly the peer's view of those settings to those values
  (\<open>maxHeaderSize\<close> standing in for \<open>maxHeaderListSize\<close>), provided the window size is one the
  protocol allows.
\<close>

theorem settings_arrive:
  assumes "validateSettings settings = Inr ()" and "distinct (map fst settings)"
    and "\<And>n. map_of settings initialWindowSize = Some (SNumber n) \<Longrightarrow> n \<le> MAX_WINDOW"
    and "remoteSettingsReceived s"
  shows "\<exists>s'. applyRemoteSettings (packSettings (wanted_settings settings) []) s = ok s' \<and>
    remoteSettings s' = with_settings (wanted_settings settings) (remoteSettings s)"
  using assms by (rule settings_transfer)

theorem settings_arrive_witness:
  "\<exists>s'. applyRemoteSettings (packSettings (wanted_settings [(maxHeaderSize, SNumber 7), (enablePush, SBool False)]) [])
      ((blank_session True demo_socket 128)\<lparr>remoteSettingsReceived := True\<rparr>) = ok s' \<and>
    remoteSettings s' = with_settings (wanted_settings [(maxHeaderSize, SNumber 7), (enablePush, SBool False)]) initial_remote"
  using settings_arrive [of "[(maxHeaderSize, SNumber 7), (enablePush, SBool False)]"
      "(blank_session True demo_socket 128)\<lparr>remoteSettingsReceived := True\<rparr>"]
  by (simp add: setting_check_def blank_session_def)

end
