(* ===== verification/Http2Segments.thy ===== *)
theory Http2Segments
  imports Http2Wire
begin

text \<open>
  The frame parser does not depend on how the bytes are cut. No handler sees the bytes a session
  holds (\<open>recv_simps\<close>), so parsing a longer buffer continues where parsing its start stopped.
\<close>

subsection \<open>No operation looks at the bytes held\<close>

named_theorems recv_simps "operations commute with a change of the bytes held"

text \<open>Past the preface, a handler sees neither the bytes held nor whether the preface was seen.\<close>

definition hold :: "byte list \<Rightarrow> session \<Rightarrow> session" where
  "hold x s = s\<lparr>recv := x, prefaceSeen := True\<rparr>"

definition hold_fst :: "byte list \<Rightarrow> session \<times> 'a \<Rightarrow> session \<times> 'a" where
  "hold_fst x p = (hold x (fst p), snd p)"

lemma hold_sel [recv_simps]:
  "client (hold x s) = client s" "heap (hold x s) = heap s" "nextRef (hold x s) = nextRef s"
  "streams (hold x s) = streams s" "nextStreamId (hold x s) = nextStreamId s"
  "lastProcessed (hold x s) = lastProcessed s" "lastPeerStream (hold x s) = lastPeerStream s"
  "closing (hold x s) = closing s"
  "destroyed (hold x s) = destroyed s" "goawayReceived (hold x s) = goawayReceived s"
  "goawaySent (hold x s) = goawaySent s" "outgoing (hold x s) = outgoing s"
  "headerBlock (hold x s) = headerBlock s"
  "pendingSettings (hold x s) = pendingSettings s" "pings (hold x s) = pings s"
  "sendQueue (hold x s) = sendQueue s" "pumping (hold x s) = pumping s"
  "socketReady (hold x s) = socketReady s" "localSettings (hold x s) = localSettings s"
  "remoteSettings (hold x s) = remoteSettings s" "sendWindow (hold x s) = sendWindow s"
  "recvWindow (hold x s) = recvWindow s" "recvUnacked (hold x s) = recvUnacked s"
  "decoder (hold x s) = decoder s" "encoder (hold x s) = encoder s"
  "maxHeaderPairs (hold x s) = maxHeaderPairs s"
  "remoteSettingsReceived (hold x s) = remoteSettingsReceived s" "originSet (hold x s) = originSet s"
  "hasStreamListener (hold x s) = hasStreamListener s" "socket (hold x s) = socket s"
  "events (hold x s) = events s"
  by (simp_all add: hold_def)

lemma hold_upd [recv_simps]:
  "(hold x s)\<lparr>heap := a1\<rparr> = hold x (s\<lparr>heap := a1\<rparr>)"
  "(hold x s)\<lparr>nextRef := a2\<rparr> = hold x (s\<lparr>nextRef := a2\<rparr>)"
  "(hold x s)\<lparr>streams := a3\<rparr> = hold x (s\<lparr>streams := a3\<rparr>)"
  "(hold x s)\<lparr>lastProcessed := a4\<rparr> = hold x (s\<lparr>lastProcessed := a4\<rparr>)"
  "(hold x s)\<lparr>lastPeerStream := a4\<rparr> = hold x (s\<lparr>lastPeerStream := a4\<rparr>)"
  "(hold x s)\<lparr>closing := a5\<rparr> = hold x (s\<lparr>closing := a5\<rparr>)"
  "(hold x s)\<lparr>destroyed := a5\<rparr> = hold x (s\<lparr>destroyed := a5\<rparr>)"
  "(hold x s)\<lparr>goawayReceived := a6\<rparr> = hold x (s\<lparr>goawayReceived := a6\<rparr>)"
  "(hold x s)\<lparr>goawaySent := a5\<rparr> = hold x (s\<lparr>goawaySent := a5\<rparr>)"
  "(hold x s)\<lparr>outgoing := a7\<rparr> = hold x (s\<lparr>outgoing := a7\<rparr>)"
  "(hold x s)\<lparr>flushScheduled := a5\<rparr> = hold x (s\<lparr>flushScheduled := a5\<rparr>)"
  "(hold x s)\<lparr>headerBlock := a8\<rparr> = hold x (s\<lparr>headerBlock := a8\<rparr>)"
  "(hold x s)\<lparr>pendingSettings := a9\<rparr> = hold x (s\<lparr>pendingSettings := a9\<rparr>)"
  "(hold x s)\<lparr>pings := b1\<rparr> = hold x (s\<lparr>pings := b1\<rparr>)"
  "(hold x s)\<lparr>sendQueue := b2\<rparr> = hold x (s\<lparr>sendQueue := b2\<rparr>)"
  "(hold x s)\<lparr>pumping := a5\<rparr> = hold x (s\<lparr>pumping := a5\<rparr>)"
  "(hold x s)\<lparr>localSettings := b3\<rparr> = hold x (s\<lparr>localSettings := b3\<rparr>)"
  "(hold x s)\<lparr>remoteSettings := b3\<rparr> = hold x (s\<lparr>remoteSettings := b3\<rparr>)"
  "(hold x s)\<lparr>sendWindow := b4\<rparr> = hold x (s\<lparr>sendWindow := b4\<rparr>)"
  "(hold x s)\<lparr>recvWindow := b4\<rparr> = hold x (s\<lparr>recvWindow := b4\<rparr>)"
  "(hold x s)\<lparr>recvUnacked := b4\<rparr> = hold x (s\<lparr>recvUnacked := b4\<rparr>)"
  "(hold x s)\<lparr>decoder := b5\<rparr> = hold x (s\<lparr>decoder := b5\<rparr>)"
  "(hold x s)\<lparr>encoder := b6\<rparr> = hold x (s\<lparr>encoder := b6\<rparr>)"
  "(hold x s)\<lparr>remoteSettingsReceived := a5\<rparr> = hold x (s\<lparr>remoteSettingsReceived := a5\<rparr>)"
  "(hold x s)\<lparr>originSet := b7\<rparr> = hold x (s\<lparr>originSet := b7\<rparr>)"
  "(hold x s)\<lparr>socket := b8\<rparr> = hold x (s\<lparr>socket := b8\<rparr>)"
  "(hold x s)\<lparr>events := b9\<rparr> = hold x (s\<lparr>events := b9\<rparr>)"
  by (simp_all add: hold_def)

lemma hold_distrib [recv_simps]:
  "(if c then hold x s else hold x t) = hold x (if c then s else t)"
  "ok (hold x s) = hold_fst x (ok s)" "throw e (hold x s) = hold_fst x (throw e s)"
  "(if c then hold_fst x p else hold_fst x q) = hold_fst x (if c then p else q)"
  "fst (hold_fst x p) = hold x (fst p)" "snd (hold_fst x p) = snd p"
  by (simp_all add: hold_fst_def ok_def throw_def)

lemma fold_hold:
  assumes "\<And>a s. f a (hold x s) = hold x (f a s)"
  shows "fold f xs (hold x s) = hold x (fold f xs s)"
  by (induction xs arbitrary: s) (simp_all add: assms)

lemma hold_basic [recv_simps]:
  "upd r g (hold x s) = hold x (upd r g s)" "emit e (hold x s) = hold x (emit e s)"
  "find_stream (hold x s) i = find_stream s i" "writeRaw item (hold x s) = hold x (writeRaw item s)"
  "sendFrame t f i p (hold x s) = hold x (sendFrame t f i p s)"
  "deleteStream i (hold x s) = hold x (deleteStream i s)"
  by (simp_all only: upd_def emit_def find_stream_def writeRaw_def sendFrame_def deleteStream_def recv_simps cong: if_cong)

lemma flushOut_hold [recv_simps]: "flushOut (hold x s) = hold x (flushOut s)"
  by (simp only: flushOut_def Let_def recv_simps cong: if_cong)

lemma hold_send [recv_simps]:
  "sendSettings a b c (hold x s) = hold x (sendSettings a b c s)"
  "sendWindowUpdate i n q (hold x s) = hold x (sendWindowUpdate i n q s)"
  "sendRst i code (hold x s) = hold x (sendRst i code s)"
  "sendGoaway code bs (hold x s) = hold x (sendGoaway code bs s)"
  by (simp_all only: sendSettings_def sendWindowUpdate_def sendRst_def sendGoaway_def Let_def recv_simps cong: if_cong)

lemma dropChunks_hold [recv_simps]: "dropChunks r (hold x s) = hold x (dropChunks r s)"
  by (simp only: dropChunks_def recv_simps fold_hold cong: if_cong)

lemma hold_close [recv_simps]:
  "pushNull r (hold x s) = hold x (pushNull r s)" "destroyBegin r (hold x s) = hold x (destroyBegin r s)"
  by (simp_all only: pushNull_def destroyBegin_def Let_def recv_simps cong: if_cong)

lemma destroyClosed_hold [recv_simps]: "destroyClosed r e (hold x s) = hold x (destroyClosed r e s)"
  by (simp only: destroyClosed_def Let_def recv_simps cong: if_cong)

lemma sessionGone_hold [recv_simps]: "sessionGone r e c (hold x s) = hold x (sessionGone r e c s)"
  by (simp only: sessionGone_def Let_def recv_simps cong: if_cong)


lemma cancelAll_hold [recv_simps]: "cancelAll (hold x s) = hold x (cancelAll s)"
proof -
  have 1: "fold (\<lambda>(i, r). sessionGone r None ERR_CANCEL) xs (hold x s) =
      hold x (fold (\<lambda>(i, r). sessionGone r None ERR_CANCEL) xs s)" for xs :: "(nat \<times> nat) list" and s
    by (rule fold_hold) (simp add: split_beta recv_simps)
  have 2: "fold (\<lambda>p. emit (EvPingDone p False)) xs (hold x s) = hold x (fold (\<lambda>p. emit (EvPingDone p False)) xs s)" for xs s
    by (rule fold_hold) (simp add: recv_simps)
  have 3: "fold (\<lambda>(obj, h). if h then emit (EvSettingsDone False) else id) xs (hold x s) =
      hold x (fold (\<lambda>(obj, h). if h then emit (EvSettingsDone False) else id) xs s)"
    for xs :: "(setting_object \<times> bool) list" and s
    by (rule fold_hold) (auto simp add: split_beta recv_simps)
  show ?thesis by (simp only: cancelAll_def Let_def 1 2 3 recv_simps)
qed

lemma endSocket_hold [recv_simps]: "endSocket g (hold x s) = hold x (endSocket g s)"
  by (simp only: endSocket_def Let_def recv_simps cong: if_cong)

lemma finishDestroy_hold [recv_simps]: "finishDestroy e g (hold x s) = hold x (finishDestroy e g s)"
  by (cases e) (simp_all only: finishDestroy_def Let_def recv_simps option.case cong: if_cong)

lemma maybeFinish_hold [recv_simps]: "maybeFinish (hold x s) = hold x (maybeFinish s)"
  by (simp only: maybeFinish_def recv_simps cong: if_cong)

lemma removeStream_hold [recv_simps]: "removeStream r (hold x s) = hold x (removeStream r s)"
  by (simp only: removeStream_def recv_simps)

lemma maybeClosed_hold [recv_simps]: "maybeClosed r (hold x s) = hold x (maybeClosed r s)"
  by (simp only: maybeClosed_def Let_def recv_simps cong: if_cong)

lemma endDone_hold [recv_simps]: "endDone r (hold x s) = hold x (endDone r s)"
  by (simp only: endDone_def recv_simps cong: if_cong)

lemma protocolClose_hold [recv_simps]: "protocolClose r c b (hold x s) = hold x (protocolClose r c b s)"
  by (simp only: protocolClose_def Let_def recv_simps cong: if_cong)

lemma hold_reset [recv_simps]:
  "streamReset r c (hold x s) = hold x (streamReset r c s)"
  "streamOnRst r c (hold x s) = hold x (streamOnRst r c s)"
  "remoteEnded r (hold x s) = hold x (remoteEnded r s)"
  by (simp_all only: streamReset_def streamOnRst_def remoteEnded_def recv_simps cong: if_cong)

lemma connectionError_hold [recv_simps]: "connectionError c (hold x s) = hold x (connectionError c s)"
  by (simp only: connectionError_def recv_simps cong: if_cong)

lemma hold_local [recv_simps]:
  "localEnd r (hold x s) = hold x (localEnd r s)" "wantTrailers r (hold x s) = hold x (wantTrailers r s)"
  "piece_size r (hold x s) = piece_size r s"
  by (simp_all only: localEnd_def wantTrailers_def piece_size_def recv_simps)

lemma send_piece_hold [recv_simps]: "send_piece r (hold x s) = hold x (send_piece r s)"
  by (simp only: send_piece_def Let_def split_beta recv_simps cong: if_cong)

lemma send_chunks_hold [recv_simps]: "send_chunks n r b (hold x s) = hold_fst x (send_chunks n r b s)"
proof (induction n arbitrary: b s)
  case 0
  then show ?case by (simp add: hold_fst_def)
next
  case (Suc n)
  show ?case
  proof (cases "outChunks (heap s r)")
    case Nil
    then show ?thesis by (simp add: hold_fst_def recv_simps)
  next
    case (Cons c cs)
    then show ?thesis
      by (cases c) (simp add: Suc.IH recv_simps hold_fst_def Let_def)
  qed
qed

lemma hold_end [recv_simps]:
  "unschedule i (hold x s) = hold x (unschedule i s)" "send_end r (hold x s) = hold_fst x (send_end r s)"
  by (simp_all add: unschedule_def send_end_def Let_def recv_simps hold_fst_def)

lemma pump_stream_hold [recv_simps]: "pump_stream i (hold x s) = hold_fst x (pump_stream i s)"
  by (simp add: pump_stream_def Let_def split_beta recv_simps) (simp add: hold_fst_def)

lemma pump_pass_hold [recv_simps]: "pump_pass n i p (hold x s) = hold_fst x (pump_pass n i p s)"
proof (induction n arbitrary: i p s)
  case 0
  then show ?case by (simp add: hold_fst_def)
next
  case (Suc n)
  then show ?case by (simp add: split_beta recv_simps) (simp add: hold_fst_def)
qed

lemma pump_loop_hold [recv_simps]: "pump_loop n (hold x s) = hold_fst x (pump_loop n s)"
proof (induction n arbitrary: s)
  case 0
  then show ?case by (simp add: hold_fst_def)
next
  case (Suc n)
  then show ?case by (simp add: split_beta recv_simps) (simp add: hold_fst_def)
qed

lemma pump_hold [recv_simps]: "pump (hold x s) = hold x (pump s)"
proof -
  have "pump_fuel (hold x s) = pump_fuel s" by (simp add: pump_fuel_def recv_simps)
  then show ?thesis
    by (simp only: pump_def Let_def split_beta recv_simps cong: if_cong)
qed


lemma consumed_hold [recv_simps]: "consumed r n (hold x s) = hold x (consumed r n s)"
  by (simp only: consumed_def Let_def recv_simps cong: if_cong)

lemma hold_new [recv_simps]:
  "new_stream b i (hold x s) = new_stream b i s" "alloc st (hold x s) = hold_fst x (alloc st s)"
  by (simp_all add: new_stream_def alloc_def hold_fst_def recv_simps)

lemma newRemoteStream_hold [recv_simps]: "newRemoteStream env i l e (hold x s) = hold x (newRemoteStream env i l e s)"
  by (simp only: newRemoteStream_def Let_def split_beta recv_simps cong: if_cong)

lemma onPushHeaders_hold [recv_simps]: "onPushHeaders b l (hold x s) = hold x (onPushHeaders b l s)"
  by (simp only: onPushHeaders_def Let_def split_beta recv_simps cong: if_cong)

lemma streamOnHeaders_hold [recv_simps]: "streamOnHeaders env r l e (hold x s) = hold x (streamOnHeaders env r l e s)"
  by (simp only: streamOnHeaders_def Let_def recv_simps cong: if_cong)

lemma streamOnData_hold [recv_simps]: "streamOnData r d c e (hold x s) = hold x (streamOnData r d c e s)"
  by (simp only: streamOnData_def Let_def recv_simps cong: if_cong)

lemma creditConnection_hold [recv_simps]: "creditConnection (hold x s) = hold x (creditConnection s)"
  by (simp only: creditConnection_def Let_def recv_simps cong: if_cong)

lemma onDataFrame_hold [recv_simps]: "onDataFrame f i p (hold x s) = hold_fst x (onDataFrame f i p s)"
  by (cases "unpad f p"; cases "find_stream s i")
    (simp_all add: onDataFrame_def Let_def recv_simps find_stream_def)

lemma finishHeaders_hold [recv_simps]: "finishHeaders env b (hold x s) = hold_fst x (finishHeaders env b s)"
proof -
  obtain d r where dr: "hpack_decode (textDecoder (utf8 env)) (decoder s)
      (nat (num (localSettings s) maxHeaderListSize)) (concat (chunks b)) = (d, r)" by fastforce
  show ?thesis
    by (cases r rule: sum.exhaust [case_names Inl Inr];
        cases "find_stream s (blockStream b)"; cases "projl r")
      (simp_all add: finishHeaders_def Let_def recv_simps dr find_stream_def)
qed

lemma startBlock_hold [recv_simps]: "startBlock env f b (hold x s) = hold_fst x (startBlock env f b s)"
  by (simp only: startBlock_def recv_simps cong: if_cong)

lemma applyPriority_hold [recv_simps]: "applyPriority i p (hold x s) = hold x (applyPriority i p s)"
  by (simp only: applyPriority_def recv_simps cong: if_cong)

lemma onHeaders_hold [recv_simps]: "onHeaders env f i p (hold x s) = hold_fst x (onHeaders env f i p s)"
  by (cases "unpad f p"; cases "has f FLAG_PRIORITY")
    (simp_all only: onHeaders_def Let_def recv_simps sum.case if_True if_False simp_thms prod.case cong: if_cong)

lemma onPushPromise_hold [recv_simps]: "onPushPromise env f i p (hold x s) = hold_fst x (onPushPromise env f i p s)"
  by (cases "unpad f p") (simp_all only: onPushPromise_def Let_def recv_simps sum.case cong: if_cong)

lemma onContinuation_hold [recv_simps]: "onContinuation env f i p (hold x s) = hold_fst x (onContinuation env f i p s)"
  by (cases "headerBlock s") (simp_all only: onContinuation_def recv_simps option.case cong: if_cong)

lemma onRst_hold [recv_simps]: "onRst i p (hold x s) = hold_fst x (onRst i p s)"
  by (cases "find_stream s i") (simp_all only: onRst_def recv_simps option.case cong: if_cong)

lemma andThen_hold:
  assumes "\<And>s. f (hold x s) = hold_fst x (f s)"
  shows "andThen (hold_fst x r) f = hold_fst x (andThen r f)"
  by (cases r; cases "snd r") (auto simp: andThen_def hold_fst_def assms)

lemma applySetting_hold [recv_simps]: "applySetting i v (hold x s) = hold_fst x (applySetting i v s)"
proof -
  have *: "fold (\<lambda>(j, r). upd r g) xs (hold x s) = hold x (fold (\<lambda>(j, r). upd r g) xs s)"
    for g and xs :: "(nat \<times> nat) list" and s
    by (rule fold_hold) (simp add: split_beta recv_simps)
  show ?thesis
    by (simp add: applySetting_def setRemote_def Let_def recv_simps *)
qed

lemma applyEntries_hold [recv_simps]: "applyEntries p (hold x s) = hold_fst x (applyEntries p s)"
proof (induction p s rule: applyEntries.induct)
  case (1 a b c d e f rest s)
  show ?case
    using 1 by (simp add: recv_simps)
      (cases "applySetting (be_val [a, b]) (be_val [c, d, e, f]) s"; simp add: andThen_def hold_fst_def split: option.splits)
qed (simp_all add: recv_simps)


lemma applyRemoteSettings_hold [recv_simps]: "applyRemoteSettings p (hold x s) = hold_fst x (applyRemoteSettings p s)"
proof -
  have "andThen (hold_fst x r) (\<lambda>s. ok (emit EvRemoteSettings (s\<lparr>remoteSettingsReceived := True\<rparr>))) =
      hold_fst x (andThen r (\<lambda>s. ok (emit EvRemoteSettings (s\<lparr>remoteSettingsReceived := True\<rparr>))))" for r
    by (rule andThen_hold) (simp only: recv_simps)
  then show ?thesis
    by (simp only: applyRemoteSettings_def setRemote_def Let_def recv_simps cong: if_cong)
qed

lemma settingsAck_hold [recv_simps]: "settingsAck (hold x s) = hold x (settingsAck s)"
proof (cases "pendingSettings s")
  case (Cons c rest)
  have f: "fold setLocal obj (hold x s) = hold x (fold setLocal obj s)" for obj s
    by (rule fold_hold) (simp only: setLocal_def recv_simps cong: if_cong)
  obtain obj cb where c: "c = (obj, cb)" by (cases c)
  show ?thesis
    by (cases "map_of obj headerTableSize"; cases "the (map_of obj headerTableSize)")
      (simp_all add: settingsAck_def Cons c Let_def recv_simps f)
qed (simp add: settingsAck_def recv_simps)

lemma onSettings_hold [recv_simps]: "onSettings f i p (hold x s) = hold_fst x (onSettings f i p s)"
proof -
  have "andThen (hold_fst x r) (\<lambda>s. ok (pump (sendFrame FRAME_SETTINGS FLAG_ACK 0 [] s))) =
      hold_fst x (andThen r (\<lambda>s. ok (pump (sendFrame FRAME_SETTINGS FLAG_ACK 0 [] s))))" for r
    by (rule andThen_hold) (simp only: recv_simps)
  then show ?thesis by (simp only: onSettings_def recv_simps cong: if_cong)
qed

lemma onPing_hold [recv_simps]: "onPing f i p (hold x s) = hold_fst x (onPing f i p s)"
  by (simp only: onPing_def recv_simps cong: if_cong)

lemma onGoaway_hold [recv_simps]: "onGoaway i p (hold x s) = hold_fst x (onGoaway i p s)"
proof -
  have "fold (cancelAbove l) xs (hold x s) = hold x (fold (cancelAbove l) xs s)" for l xs s
    by (rule fold_hold) (simp only: cancelAbove_def Let_def recv_simps cong: if_cong)
  then show ?thesis by (simp only: onGoaway_def Let_def recv_simps cong: if_cong)
qed

lemma onWindowUpdate_hold [recv_simps]: "onWindowUpdate i p (hold x s) = hold_fst x (onWindowUpdate i p s)"
  by (cases "find_stream s i") (simp_all only: onWindowUpdate_def Let_def recv_simps option.case cong: if_cong)

lemma hold_extensions [recv_simps]:
  "onOrigin i p (hold x s) = hold_fst x (onOrigin i p s)"
  "onAltsvc i p (hold x s) = hold_fst x (onAltsvc i p s)"
  "onPriority i p (hold x s) = hold_fst x (onPriority i p s)"
  by (simp_all only: onOrigin_def onAltsvc_def onPriority_def Let_def recv_simps cong: if_cong)

lemma handleFrame_hold: "handleFrame env t f i p (hold x s) = hold_fst x (handleFrame env t f i p s)"
  by (simp only: handleFrame_def recv_simps cong: if_cong)

subsection \<open>How the bytes are cut does not matter\<close>

text \<open>After an error or the end of the session the bytes held are of no interest.\<close>

definition same_session :: "session \<Rightarrow> session \<Rightarrow> bool" where
  "same_session s t \<longleftrightarrow> s = t \<or> (destroyed s \<and> destroyed t \<and> hold [] s = hold [] t)"


lemma hold_hold [simp]: "hold x (hold y s) = hold x s"
  by (simp add: hold_def)

lemma hold_recv [simp]: "prefaceSeen s \<Longrightarrow> hold (recv s) s = s"
  by (simp add: hold_def)

lemma prefaceSeen_hold [simp]: "prefaceSeen (hold x s)"
  by (simp add: hold_def)

lemma recv_upd: "prefaceSeen s \<Longrightarrow> s\<lparr>recv := x\<rparr> = hold x s"
  by (simp add: hold_def)

lemma recv_hold [simp]: "recv (hold x s) = x"
  by (simp add: hold_def)

lemma parse_frame_append:
  "parse_frame mx a = Inl e \<Longrightarrow> parse_frame mx (a @ b) = Inl e"
  "parse_frame mx a = Inr (Some (t, f, i, p, rest)) \<Longrightarrow>
   parse_frame mx (a @ b) = Inr (Some (t, f, i, p, rest @ b))"
  by (auto simp: parse_frame_def Let_def nth_append split: if_splits)

definition parse_split :: "h2env \<Rightarrow> byte list \<Rightarrow> session \<times> nat option \<Rightarrow> session \<times> nat option \<Rightarrow> bool" where
  "parse_split env b r r' \<longleftrightarrow>
     (if snd r = None \<and> \<not> destroyed (fst r)
      then r' = parse_loop env (recv (fst r) @ b) (hold (recv (fst r) @ b) (fst r))
      else (\<exists>x. r' = hold_fst x r))"

lemma hold_fst_hold_fst [simp]: "hold_fst x (hold_fst y r) = hold_fst x r"
  by (simp add: hold_fst_def)

lemma parse_loop_step:
  assumes "prefaceSeen s"
  shows "parse_loop env bs s =
     (case parse_frame (num (localSettings s) maxFrameSize) bs of
        Inl e \<Rightarrow> throw e s
      | Inr None \<Rightarrow> ok s
      | Inr (Some (t, f, i, p, rest)) \<Rightarrow>
          (case hold_fst rest (handleFrame env t f i p s) of
             (s, Some e) \<Rightarrow> (s, Some e)
           | (s, None) \<Rightarrow> if destroyed s then ok s else parse_loop env rest s))"
  using assms
  by (subst parse_loop.simps) (simp add: handleFrame_hold recv_upd split: sum.split option.split)

lemma prefaceSeen_parse_loop: "prefaceSeen s \<Longrightarrow> prefaceSeen (fst (parse_loop env bs s))"
proof (induction "length bs" arbitrary: bs s rule: less_induct)
  case less
  show ?case
    unfolding parse_loop_step [OF less.prems]
    using less by (auto simp: throw_def ok_def hold_fst_def dest: parse_frame_shorter
        split: sum.split option.split prod.split)
qed

lemma parse_loop_split:
  "recv s = a \<Longrightarrow> \<not> destroyed s \<Longrightarrow> prefaceSeen s \<Longrightarrow>
   parse_split env b (parse_loop env a s) (parse_loop env (a @ b) (hold (a @ b) s))"
proof (induction "length a" arbitrary: a s rule: less_induct)
  case less
  note pl = parse_loop_step [OF prefaceSeen_hold, of env "a @ b" "a @ b" s] parse_loop_step [OF less.prems(3), of env a]
  consider e where "parse_frame (num (localSettings s) maxFrameSize) a = Inl e"
    | "parse_frame (num (localSettings s) maxFrameSize) a = Inr None"
    | t f i p rest where "parse_frame (num (localSettings s) maxFrameSize) a = Inr (Some (t, f, i, p, rest))"
    by (metis (no_types) option.exhaust prod_cases5 sum.exhaust)
  then show ?case
  proof cases
    case 1
    then show ?thesis
      by (auto simp: pl recv_simps parse_frame_append(1) parse_split_def throw_def hold_fst_def)
  next
    case 2
    with less.prems show ?thesis by (simp add: pl(2) parse_split_def ok_def)
  next
    case (3 t f i p rest)
    note pa = 3 parse_frame_append(2) [OF 3]
    obtain h e where h: "handleFrame env t f i p s = (h, e)" by fastforce
    show ?thesis
    proof (cases "e = None \<and> \<not> destroyed h")
      case True
      then have "parse_split env b (parse_loop env rest (hold rest h))
          (parse_loop env (rest @ b) (hold (rest @ b) (hold rest h)))"
        by (intro less.hyps) (use parse_frame_shorter [OF 3] in \<open>simp_all add: recv_simps\<close>)
      with True h show ?thesis
        by (simp add: pl pa hold_fst_def recv_simps handleFrame_hold)
    next
      case False
      with h show ?thesis
        by (cases e) (auto simp: pl pa hold_fst_def parse_split_def recv_simps ok_def handleFrame_hold
          intro: exI [of _ "rest @ b"])
    qed
  qed
qed

lemma PREFACE_length: "length PREFACE = 24"
  by (simp add: PREFACE_def)

lemma parse_loop_split':
  assumes "prefaceSeen s" and "\<not> destroyed s"
  shows "(if snd (parse_loop env (recv s) s) = None \<and> \<not> destroyed (fst (parse_loop env (recv s) s))
      then parse_loop env (recv s @ b) (hold (recv s @ b) s) =
           parse env ((fst (parse_loop env (recv s) s))\<lparr>recv := recv (fst (parse_loop env (recv s) s)) @ b\<rparr>)
      else (\<exists>x. parse_loop env (recv s @ b) (hold (recv s @ b) s) = hold_fst x (parse_loop env (recv s) s)))"
  using parse_loop_split [OF refl assms(2,1), of env b] prefaceSeen_parse_loop [OF assms(1), of env "recv s"]
  by (simp add: parse_split_def parse_def recv_upd split: if_splits)

definition undisturbed :: "session \<Rightarrow> session \<Rightarrow> bool" where
  "undisturbed s t \<longleftrightarrow> hold [] s = hold [] t"

lemma parse_split_parse:
  assumes "\<not> destroyed s"
  shows "(if snd (parse env s) = None \<and> \<not> destroyed (fst (parse env s))
      then parse env (s\<lparr>recv := recv s @ b\<rparr>) =
           parse env ((fst (parse env s))\<lparr>recv := recv (fst (parse env s)) @ b\<rparr>)
      else hold_fst [] (parse env (s\<lparr>recv := recv s @ b\<rparr>)) = hold_fst [] (parse env s))"
proof (cases "prefaceSeen s")
  case True
  with parse_loop_split' [OF this assms, of env b] show ?thesis
    by (auto simp: parse_def recv_upd)
next
  case False
  show ?thesis
  proof (cases "length (recv s) < length PREFACE")
    case True
    show ?thesis
    proof (cases "take (length (recv s)) PREFACE = recv s")
      case True
      with \<open>length (recv s) < length PREFACE\<close> False assms show ?thesis by (simp add: parse_def ok_def)
    next
      case bad: False
      have "take (length (recv s @ b)) PREFACE \<noteq> recv s @ b"
      proof
        assume eq: "take (length (recv s @ b)) PREFACE = recv s @ b"
        have "take (length (recv s)) PREFACE = take (length (recv s)) (take (length (recv s @ b)) PREFACE)"
          by (simp add: min_def)
        also have "\<dots> = recv s" unfolding eq by simp
        finally show False using bad by simp
      qed
      moreover have "take (length PREFACE) (recv s @ b) \<noteq> PREFACE"
      proof
        assume eq: "take (length PREFACE) (recv s @ b) = PREFACE"
        have "take (length (recv s)) PREFACE = take (length (recv s)) (take (length PREFACE) (recv s @ b))"
          using eq by simp
        also have "\<dots> = recv s" using True by (simp add: min_def)
        finally show False using bad by simp
      qed
      ultimately show ?thesis
        using bad False True by (simp add: parse_def throw_def hold_fst_def hold_def Let_def)
    qed
  next
    case long: False
    show ?thesis
    proof (cases "take (length PREFACE) (recv s) = PREFACE")
      case True
      let ?t = "s\<lparr>recv := drop (length PREFACE) (recv s), prefaceSeen := True\<rparr>"
      have "parse env s = parse_loop env (recv ?t) ?t"
        using long True False by (simp add: parse_def Let_def)
      moreover have "parse env (s\<lparr>recv := recv s @ b\<rparr>) = parse_loop env (recv ?t @ b) (hold (recv ?t @ b) ?t)"
        using long True False by (simp add: parse_def hold_def Let_def)
      ultimately show ?thesis
        using parse_loop_split' [of ?t env b] assms by auto
    next
      case bad: False
      with long False show ?thesis by (simp add: parse_def throw_def hold_fst_def hold_def Let_def)
    qed
  qed
qed


subsection \<open>Destroyed for good\<close>

lemma destroyed_simps [simp]:
  "destroyed (upd r f s) = destroyed s" "destroyed (emit e s) = destroyed s"
  "destroyed (writeRaw item s) = destroyed s" "destroyed (sendFrame t i2 i3 p s) = destroyed s"
  "destroyed (deleteStream i s) = destroyed s" "destroyed (flushOut s) = destroyed s"
  "destroyed (sendGoaway c bs s) = destroyed s"
  by (simp_all add: upd_def emit_def writeRaw_def sendFrame_def deleteStream_def flushOut_def sendGoaway_def Let_def)

lemma destroyed_fold: "(\<And>a s. destroyed (f a s) = destroyed s) \<Longrightarrow> destroyed (fold f xs s) = destroyed s"
  by (induction xs arbitrary: s) simp_all

lemma destroyed_sessionGone [simp]: "destroyed (sessionGone r e c s) = destroyed s"
  by (simp add: sessionGone_def dropChunks_def destroyed_fold pushNull_def destroyClosed_def destroyBegin_def Let_def)

lemma destroyed_cancelAll [simp]: "destroyed (cancelAll s) = destroyed s"
proof -
  have "destroyed (fold (\<lambda>(i, r). sessionGone r None ERR_CANCEL) xs s) = destroyed s" for xs :: "(nat \<times> nat) list" and s
    by (rule destroyed_fold) auto
  moreover have "destroyed (fold (\<lambda>(obj, h). if h then emit (EvSettingsDone False) else id) xs s) = destroyed s"
    for xs :: "(setting_object \<times> bool) list" and s
    by (rule destroyed_fold) (simp add: split_beta)
  moreover have "destroyed (fold (\<lambda>p. emit (EvPingDone p False)) xs s) = destroyed s" for xs s
    by (rule destroyed_fold) simp
  ultimately show ?thesis by (simp add: cancelAll_def Let_def)
qed

lemma destroyed_endSocket [simp]: "destroyed (endSocket g s) = destroyed s"
  by (simp add: endSocket_def Let_def)

lemma destroyed_finishDestroy [simp]: "destroyed (finishDestroy e g s)"
  by (cases e) (simp_all add: finishDestroy_def Let_def)

lemma destroyed_connectionError [simp]: "destroyed (connectionError c s)"
  by (simp add: connectionError_def)

subsection \<open>Received in pieces\<close>

lemma same_session_trans: "same_session s t \<Longrightarrow> same_session t u \<Longrightarrow> same_session s u"
  by (auto simp: same_session_def)

lemma receive_destroyed: "destroyed s \<Longrightarrow> receive env c s = s"
  by (simp add: receive_def)

lemma receive_same: "same_session s t \<Longrightarrow> same_session (receive env c s) (receive env c t)"
  by (auto simp: same_session_def receive_destroyed)

lemma receive_split: "same_session (receive env b (receive env a s)) (receive env (a @ b) s)"
proof (cases "destroyed s")
  case True
  then show ?thesis by (simp add: receive_destroyed same_session_def)
next
  case False
  let ?s = "s\<lparr>recv := recv s @ a\<rparr>"
  obtain s1 e1 where p1: "parse env ?s = (s1, e1)" by fastforce
  obtain s2 e2 where p2: "parse env (s\<lparr>recv := recv s @ a @ b\<rparr>) = (s2, e2)" by fastforce
  note sp = parse_split_parse [of ?s env b]
  show ?thesis
  proof (cases "e1 = None \<and> \<not> destroyed s1")
    case True
    with sp p1 p2 False have "parse env (s1\<lparr>recv := recv s1 @ b\<rparr>) = (s2, e2)" by simp
    with True False p1 p2 show ?thesis by (simp add: receive_def same_session_def)
  next
    case stop: False
    with sp p1 p2 False have eq: "hold [] s2 = hold [] s1" "e2 = e1" by (auto simp: hold_fst_def)
    then have d: "destroyed s2 = destroyed s1" by (metis hold_sel(9))
    show ?thesis
    proof (cases e1)
      case None
      with stop p1 p2 False eq d show ?thesis by (simp add: receive_def same_session_def)
    next
      case (Some c)
      have "hold [] (connectionError c s1) = hold [] (connectionError c s2)"
        using eq(1) connectionError_hold by metis
      with Some p1 p2 False eq(2) show ?thesis by (simp add: receive_def same_session_def)
    qed
  qed
qed

lemma receive_pieces: "same_session (fold (receive env) (c # cs) s) (receive env (concat (c # cs)) s)"
proof (induction cs arbitrary: c s)
  case Nil
  then show ?case by (simp add: same_session_def)
next
  case (Cons d cs)
  have "same_session (fold (receive env) (d # cs) (receive env c s)) (receive env (concat (d # cs)) (receive env c s))"
    by (rule Cons.IH)
  moreover have "same_session \<dots> (receive env (c @ concat (d # cs)) s)" by (rule receive_split)
  ultimately show ?case using same_session_trans by simp
qed


subsection \<open>Properties\<close>

text \<open>
  C7: How the network cuts the bytes does not matter. Whatever pieces a connection's bytes arrive
  in, the session ends in the state it reaches when they arrive at once: the same streams, windows,
  tables, output and events (once it is destroyed, only the bytes it still holds may differ).
\<close>

theorem receive_segmentation: "same_session (fold (receive env) (c # cs) s) (receive env (concat (c # cs)) s)"
  by (rule receive_pieces)

end
