(* ===== verification/Http2Flow.thy ===== *)
theory Http2Flow
  imports Http2Segments
begin

text \<open>
  Flow control. Closing and output leave windows and settings alone (\<open>quiet_simps\<close>), which makes the
  accounting of the windows a few lines; \<open>puts\<close> follows the bytes a session puts out; what sending
  on a stream does to queue, windows and wire is stated per step (\<open>sent_step\<close>) and composed. Three
  properties show where the window arithmetic of the code is incomplete.
\<close>

subsection \<open>What closing and output leave alone\<close>

named_theorems quiet_simps "operations that leave the windows and the settings alone"

definition core :: "h2stream \<Rightarrow> nat \<times> int \<times> int \<times> int \<times> nat" where
  "core st = (sid st, streamSendWindow st, streamRecvWindow st, pendingCredit st, bytesWritten st)"

definition quiet :: "session \<Rightarrow> (int \<times> int \<times> int) \<times> (settings \<times> settings) \<times> (nat \<Rightarrow> nat \<times> int \<times> int \<times> int \<times> nat)" where
  "quiet s = ((sendWindow s, recvWindow s, recvUnacked s), (localSettings s, remoteSettings s), \<lambda>r. core (heap s r))"

lemma quietD:
  "quiet s = quiet t \<Longrightarrow> sendWindow s = sendWindow t" "quiet s = quiet t \<Longrightarrow> recvWindow s = recvWindow t"
  "quiet s = quiet t \<Longrightarrow> recvUnacked s = recvUnacked t" "quiet s = quiet t \<Longrightarrow> localSettings s = localSettings t"
  "quiet s = quiet t \<Longrightarrow> remoteSettings s = remoteSettings t"
  "quiet s = quiet t \<Longrightarrow> core (heap s r) = core (heap t r)"
  by (auto simp: quiet_def dest: fun_cong)

lemma quiet_upd [quiet_simps]: "(\<And>st. core (f st) = core st) \<Longrightarrow> quiet (upd r f s) = quiet s"
  by (auto simp: quiet_def upd_def)

lemma quiet_fields [quiet_simps]:
  "quiet (s\<lparr>streams := a1\<rparr>) = quiet s" "quiet (s\<lparr>destroyed := a2\<rparr>) = quiet s"
  "quiet (s\<lparr>pings := a3\<rparr>) = quiet s" "quiet (s\<lparr>pendingSettings := a4\<rparr>) = quiet s"
  "quiet (s\<lparr>socket := a5\<rparr>) = quiet s" "quiet (s\<lparr>sendQueue := a6\<rparr>) = quiet s"
  "quiet (s\<lparr>goawaySent := a2\<rparr>) = quiet s" "quiet (s\<lparr>pumping := a2\<rparr>) = quiet s"
  "quiet (s\<lparr>outgoing := a7, socket := a5\<rparr>) = quiet s" "quiet (s\<lparr>outgoing := a7\<rparr>) = quiet s"
  "quiet (s\<lparr>events := a8\<rparr>) = quiet s" "quiet (s\<lparr>outgoing := a7, flushScheduled := a2\<rparr>) = quiet s"
  "quiet (s\<lparr>flushScheduled := a2\<rparr>) = quiet s" "quiet (s\<lparr>closing := a2\<rparr>) = quiet s"
  by (simp_all add: quiet_def)

lemma quiet_if [quiet_simps]: "quiet (if c then s else t) = (if c then quiet s else quiet t)"
  by simp

lemma quiet_basic [quiet_simps]:
  "quiet (emit e s) = quiet s" "quiet (writeRaw item s) = quiet s" "quiet (sendFrame t fl i p s) = quiet s"
  "quiet (deleteStream i s) = quiet s" "quiet (flushOut s) = quiet s"
  by (simp_all add: emit_def writeRaw_def sendFrame_def deleteStream_def flushOut_def Let_def quiet_simps)

lemma quiet_send [quiet_simps]:
  "quiet (sendRst i c s) = quiet s" "quiet (sendGoaway c bs s) = quiet s"
  "quiet (sendWindowUpdate i n False s) = quiet s"
  by (simp_all add: sendRst_def sendGoaway_def sendWindowUpdate_def Let_def quiet_simps)

lemma quiet_fold: "(\<And>a s. quiet (f a s) = quiet s) \<Longrightarrow> quiet (fold f xs s) = quiet s"
  by (induction xs arbitrary: s) simp_all

lemma quiet_destroyClosed [quiet_simps]: "quiet (destroyClosed r e s) = quiet s"
  by (simp add: destroyClosed_def destroyBegin_def Let_def quiet_simps core_def)

lemma quiet_dropChunks [quiet_simps]: "quiet (dropChunks r s) = quiet s"
  by (simp add: dropChunks_def quiet_fold quiet_simps core_def)

lemma quiet_pushNull [quiet_simps]: "quiet (pushNull r s) = quiet s"
  by (simp add: pushNull_def quiet_simps core_def)

lemma quiet_sessionGone [quiet_simps]: "quiet (sessionGone r e c s) = quiet s"
  by (simp add: sessionGone_def Let_def quiet_simps core_def)

lemma quiet_cancelAll [quiet_simps]: "quiet (cancelAll s) = quiet s"
proof -
  have 1: "quiet (fold (\<lambda>(i, r). sessionGone r None ERR_CANCEL) xs s) = quiet s" for xs :: "(nat \<times> nat) list" and s
    by (rule quiet_fold) (simp add: split_beta quiet_simps)
  have 2: "quiet (fold (\<lambda>(obj, h). if h then emit (EvSettingsDone False) else id) xs s) = quiet s"
    for xs :: "(setting_object \<times> bool) list" and s
    by (rule quiet_fold) (simp add: split_beta quiet_simps)
  have 3: "quiet (fold (\<lambda>p. emit (EvPingDone p False)) xs s) = quiet s" for xs s
    by (rule quiet_fold) (simp add: quiet_simps)
  show ?thesis by (simp add: cancelAll_def Let_def 1 2 3 quiet_simps)
qed

lemma quiet_finishDestroy [quiet_simps]: "quiet (finishDestroy e g s) = quiet s"
  by (cases e) (simp_all add: finishDestroy_def endSocket_def Let_def quiet_simps)

lemma quiet_close [quiet_simps]:
  "quiet (maybeFinish s) = quiet s" "quiet (removeStream r s) = quiet s" "quiet (maybeClosed r s) = quiet s"
  "quiet (endDone r s) = quiet s"
  by (simp_all add: maybeFinish_def removeStream_def maybeClosed_def endDone_def Let_def quiet_simps core_def)

lemma quiet_protocolClose [quiet_simps]: "quiet (protocolClose r c b s) = quiet s"
  by (simp add: protocolClose_def Let_def quiet_simps core_def)

lemma quiet_reset [quiet_simps]:
  "quiet (streamReset r c s) = quiet s" "quiet (remoteEnded r s) = quiet s"
  "quiet (localEnd r s) = quiet s" "quiet (wantTrailers r s) = quiet s" "quiet (unschedule i s) = quiet s"
  by (simp_all add: streamReset_def remoteEnded_def localEnd_def wantTrailers_def unschedule_def quiet_simps core_def)

lemma quiet_send_end [quiet_simps]: "quiet (fst (send_end r s)) = quiet s"
  by (simp add: send_end_def Let_def quiet_simps core_def)

subsection \<open>The receive window of the connection\<close>

text \<open>The part of a data frame's bytes not yet given back.\<close>

definition connection_credit :: "session \<Rightarrow> int" where
  "connection_credit s = recvWindow s + recvUnacked s"

lemma consumed_windows:
  "recvWindow (consumed r n s) = recvWindow s" "recvUnacked (consumed r n s) = recvUnacked s"
  by (simp_all add: consumed_def Let_def sendWindowUpdate_def sendFrame_def writeRaw_def upd_def)

lemma streamOnData_windows:
  "recvWindow (streamOnData r d n e s) = recvWindow s" "recvUnacked (streamOnData r d n e s) = recvUnacked s"
  using quietD(2,3) [OF quiet_reset(2)] 
  by (simp_all add: streamOnData_def Let_def emit_def upd_def consumed_windows)

lemma creditConnection_credit:
  "connection_credit (creditConnection s) = connection_credit s \<and> recvUnacked (creditConnection s) < 16384 \<and>
   (16384 \<le> recvWindow (creditConnection s) \<or> recvUnacked (creditConnection s) = 0)"
  using quietD(2,3) [OF quiet_send(3) [of 0 "recvUnacked s" s]]
  by (simp add: creditConnection_def connection_credit_def Let_def)

lemma onDataFrame_credit:
  assumes "onDataFrame flags i payload s = (s', None)"
  shows "connection_credit s' = connection_credit s \<and> recvUnacked s' < 16384 \<and>
   (16384 \<le> recvWindow s' \<or> recvUnacked s' = 0) \<and>
   (16384 \<le> recvUnacked s + int (length payload) \<longrightarrow> recvUnacked s' = 0)"
proof -
  note q = quietD(2,3) [OF quiet_send(1)] quietD(2,3) [OF quiet_reset(1)]
  have "\<exists>t. s' = creditConnection t \<and> recvWindow t + recvUnacked t = recvWindow s + recvUnacked s \<and>
      recvUnacked t = recvUnacked s + int (length payload)"
    using assms
    by (auto simp: onDataFrame_def throw_def ok_def Let_def q streamOnData_windows upd_def
      split: if_splits sum.splits option.splits intro!: exI conjI)
  then obtain t where "s' = creditConnection t" "connection_credit t = connection_credit s"
    "recvUnacked t = recvUnacked s + int (length payload)"
    by (auto simp: connection_credit_def)
  then show ?thesis using creditConnection_credit [of t] by (simp add: creditConnection_def Let_def)
qed

subsection \<open>Sending\<close>

definition sock_open :: "session \<Rightarrow> bool" where
  "sock_open s \<longleftrightarrow> writable (socket s) \<and> \<not> sockDestroyed (socket s)"

text \<open>Everything the session has put out, written to the socket or not yet.\<close>

definition out_bytes :: "session \<Rightarrow> byte list" where
  "out_bytes s = wire (socket s) @ concat (map item_bytes (outgoing s))"

definition unsent :: "h2stream \<Rightarrow> byte list" where
  "unsent st = concat (map (\<lambda>(chunk, off). drop off chunk) (outChunks st))"

text \<open>\<open>puts bs s t\<close>: between the two states an open socket stays open and exactly \<open>bs\<close> goes out.\<close>

definition puts :: "byte list \<Rightarrow> session \<Rightarrow> session \<Rightarrow> bool" where
  "puts bs s t \<longleftrightarrow> (sock_open s \<longrightarrow> sock_open t \<and> out_bytes t = out_bytes s @ bs)"

lemma puts_refl: "puts [] s s"
  by (simp add: puts_def)

lemma puts_trans: "puts a s t \<Longrightarrow> puts b t u \<Longrightarrow> puts (a @ b) s u"
  by (simp add: puts_def)

lemma puts_silent: "puts [] s t \<Longrightarrow> puts b t u \<Longrightarrow> puts b s u"
  by (simp add: puts_def)

lemma puts_same: "socket t = socket s \<Longrightarrow> outgoing t = outgoing s \<Longrightarrow> puts [] s t"
  by (simp add: puts_def sock_open_def out_bytes_def)

lemma puts_fold: "(\<And>a s. puts [] s (f a s)) \<Longrightarrow> puts [] s (fold f xs s)"
  by (induction xs arbitrary: s) (auto intro: puts_refl puts_silent)

lemma puts_upd: "puts [] s (upd r f s)" and puts_emit: "puts [] s (emit e s)"
  and puts_deleteStream: "puts [] s (deleteStream i s)"
  by (simp_all add: puts_same upd_def emit_def deleteStream_def)

lemma puts_sendFrame:
  "\<not> destroyed s \<Longrightarrow> puts (item_bytes (Frame t fl i p)) s (sendFrame t fl i p s)"
  by (simp add: puts_def sendFrame_def writeRaw_def sock_open_def out_bytes_def)

lemma puts_flushOut: "puts [] s (flushOut s)"
  by (simp add: puts_def flushOut_def Let_def sock_open_def out_bytes_def sock_write_def)

lemma same_socket_upd [simp]:
  "socket (upd r f s) = socket s" "outgoing (upd r f s) = outgoing s"
  "socket (emit e s) = socket s" "outgoing (emit e s) = outgoing s"
  "socket (deleteStream i s) = socket s" "outgoing (deleteStream i s) = outgoing s"
  by (simp_all add: upd_def emit_def deleteStream_def)

lemma emit_fields [simp]:
  "remoteSettings (emit e s) = remoteSettings s" "sendWindow (emit e s) = sendWindow s"
  "recvWindow (emit e s) = recvWindow s" "recvUnacked (emit e s) = recvUnacked s"
  by (simp_all add: emit_def)

lemma same_socket_fold:
  "(\<And>a s. socket (f a s) = socket s \<and> outgoing (f a s) = outgoing s) \<Longrightarrow>
   socket (fold f xs s) = socket s \<and> outgoing (fold f xs s) = outgoing s"
  by (induction xs arbitrary: s) simp_all

lemma same_socket_sessionGone: "socket (sessionGone r e c s) = socket s \<and> outgoing (sessionGone r e c s) = outgoing s"
  by (simp add: sessionGone_def dropChunks_def same_socket_fold pushNull_def destroyClosed_def destroyBegin_def Let_def)

lemma same_socket_cancelAll: "socket (cancelAll s) = socket s \<and> outgoing (cancelAll s) = outgoing s"
proof -
  have 1: "socket (fold (\<lambda>(i, r). sessionGone r None ERR_CANCEL) xs s) = socket s \<and>
      outgoing (fold (\<lambda>(i, r). sessionGone r None ERR_CANCEL) xs s) = outgoing s" for xs :: "(nat \<times> nat) list" and s
    by (rule same_socket_fold) (simp add: split_beta same_socket_sessionGone)
  have 2: "socket (fold (\<lambda>p. emit (EvPingDone p False)) xs s) = socket s \<and>
      outgoing (fold (\<lambda>p. emit (EvPingDone p False)) xs s) = outgoing s" for xs s
    by (rule same_socket_fold) simp
  have 3: "socket (fold (\<lambda>(obj, h). if h then emit (EvSettingsDone False) else id) xs s) = socket s \<and>
      outgoing (fold (\<lambda>(obj, h). if h then emit (EvSettingsDone False) else id) xs s) = outgoing s"
    for xs :: "(setting_object \<times> bool) list" and s
    by (rule same_socket_fold) (simp add: split_beta)
  show ?thesis by (simp add: cancelAll_def Let_def 1 2 3)
qed

lemma puts_endSocket: "puts [] s (endSocket True s)"
  by (simp add: puts_def sock_open_def out_bytes_def endSocket_def Let_def)

lemma puts_finishDestroy: "puts [] s (finishDestroy None True s)"
proof -
  have "puts [] s (cancelAll (s\<lparr>destroyed := True\<rparr>))"
    using same_socket_cancelAll [of "s\<lparr>destroyed := True\<rparr>"] by (intro puts_same) simp_all
  then have "puts [] s (endSocket True (flushOut (cancelAll (s\<lparr>destroyed := True\<rparr>))))"
    using puts_flushOut puts_endSocket puts_silent by blast
  then show ?thesis
    using puts_emit puts_silent puts_refl by (simp add: finishDestroy_def)
qed

lemma puts_maybeFinish: "puts [] s (maybeFinish s)"
  using puts_silent [OF puts_flushOut puts_finishDestroy] by (simp add: maybeFinish_def puts_refl)

lemma puts_removeStream: "puts [] s (removeStream r s)"
  unfolding removeStream_def by (rule puts_silent [OF puts_deleteStream puts_maybeFinish])

lemma puts_destroyClosed: "puts [] s (destroyClosed r e s)"
  by (rule puts_same) (simp_all add: destroyClosed_def destroyBegin_def Let_def)

lemma puts_maybeClosed: "puts [] s (maybeClosed r s)"
proof -
  let ?t = "upd r (\<lambda>st. st\<lparr>closedByProtocol := True, rstCode := Some ERR_NO_ERROR\<rparr>) s"
  have t: "puts [] s (removeStream r ?t)" by (rule puts_silent [OF puts_upd puts_removeStream])
  show ?thesis
    unfolding maybeClosed_def Let_def
    by (auto intro: puts_refl puts_silent [OF t puts_destroyClosed] puts_silent [OF t puts_upd])
qed

lemma puts_localEnd: "puts [] s (localEnd r s)"
proof -
  let ?t = "upd r (\<lambda>st. st\<lparr>localClosed := True, endPending := False\<rparr>) s"
  have "puts [] ?t (endDone r ?t)"
    by (simp add: endDone_def puts_refl puts_silent [OF puts_upd puts_emit])
  then show ?thesis
    unfolding localEnd_def by (blast intro: puts_silent puts_upd puts_maybeClosed)
qed

subsection \<open>The cell of a closed stream is left alone\<close>

lemma heap_upd: "heap (upd r f s) = (heap s)(r := f (heap s r))"
  by (simp add: upd_def)

lemma heap_same [simp]:
  "heap (emit e s) = heap s" "heap (deleteStream i s) = heap s" "heap (flushOut s) = heap s"
  "heap (sendFrame t fl i p s) = heap s"
  by (simp_all add: emit_def deleteStream_def flushOut_def sendFrame_def writeRaw_def Let_def)

lemma heap_fold_emit: "(\<And>a s. heap (f a s) = heap s) \<Longrightarrow> heap (fold f xs s) = heap s"
  by (induction xs arbitrary: s) simp_all

lemma heap_dropChunks [simp]: "heap (dropChunks r s) = (heap s)(r := (heap s r)\<lparr>outChunks := []\<rparr>)"
proof -
  have "heap (fold (\<lambda>_. emit (EvChunkDone i False)) xs t) = heap t" for i t and xs :: "(byte list \<times> nat) list"
    by (rule heap_fold_emit) simp
  then show ?thesis by (simp add: dropChunks_def heap_upd)
qed

lemma heap_other:
  "r \<noteq> r' \<Longrightarrow> heap (pushNull r' s) r = heap s r" "r \<noteq> r' \<Longrightarrow> heap (destroyClosed r' e s) r = heap s r"
  by (simp_all add: pushNull_def destroyClosed_def destroyBegin_def heap_upd Let_def)

lemma sessionGone_other:
  "closedByProtocol (heap s r) \<Longrightarrow> heap (sessionGone r' e c s) r = heap s r"
  by (cases "r = r'") (simp_all add: sessionGone_def Let_def heap_other heap_upd)

lemma fold_sessionGone_other:
  "closedByProtocol (heap s r) \<Longrightarrow>
   heap (fold (\<lambda>(i, r'). sessionGone r' None ERR_CANCEL) xs s) r = heap s r"
  by (induction xs arbitrary: s) (auto simp: sessionGone_other)

lemma cancelAll_other: "closedByProtocol (heap s r) \<Longrightarrow> heap (cancelAll s) r = heap s r"
proof -
  have "heap (fold (\<lambda>(obj, h). if h then emit (EvSettingsDone False) else id) xs t) = heap t"
    for xs :: "(setting_object \<times> bool) list" and t
    by (rule heap_fold_emit) (simp add: split_beta)
  then show "closedByProtocol (heap s r) \<Longrightarrow> ?thesis"
    by (simp add: cancelAll_def Let_def heap_fold_emit fold_sessionGone_other)
qed

lemma finishDestroy_other: "closedByProtocol (heap s r) \<Longrightarrow> heap (finishDestroy e g s) r = heap s r"
  by (cases e) (simp_all add: finishDestroy_def endSocket_def Let_def cancelAll_other)

lemma removeStream_other: "closedByProtocol (heap s r) \<Longrightarrow> heap (removeStream r' s) r = heap s r"
  by (simp add: removeStream_def maybeFinish_def finishDestroy_other)

lemma outChunks_localEnd: "outChunks (heap (localEnd r s) r) = outChunks (heap s r)"
proof -
  have d: "outChunks (heap (destroyClosed r e t) r) = outChunks (heap t r)" for e t
    by (simp add: destroyClosed_def destroyBegin_def heap_upd Let_def)
  have m: "outChunks (heap (maybeClosed r t) r) = outChunks (heap t r)" for t
    by (simp add: maybeClosed_def Let_def d heap_upd removeStream_other)
  show ?thesis by (simp add: localEnd_def endDone_def heap_upd m)
qed


subsection \<open>One stream's chunks\<close>

text \<open>
  A step of sending on stream \<open>r\<close>: the frames put out are data frames of that stream, none longer
  than the peer allows; what they carry is what left the stream's queue, and both windows pay for it.
\<close>

definition data_frame :: "nat \<Rightarrow> int \<Rightarrow> out_item \<Rightarrow> bool" where
  "data_frame i mx f \<longleftrightarrow> (\<exists>fl p. f = Frame FRAME_DATA fl i p \<and> int (length p) \<le> mx)"

definition sent_step :: "nat \<Rightarrow> out_item list \<Rightarrow> session \<Rightarrow> session \<Rightarrow> bool" where
  "sent_step r fs s t \<longleftrightarrow>
     puts (concat (map item_bytes fs)) s t \<and>
     (\<forall>f \<in> set fs. data_frame (sid (heap s r)) (num (remoteSettings s) maxFrameSize) f) \<and>
     unsent (heap s r) = concat (map payload_of fs) @ unsent (heap t r) \<and>
     sendWindow t = sendWindow s - int (length (concat (map payload_of fs))) \<and>
     streamSendWindow (heap t r) = streamSendWindow (heap s r) - int (length (concat (map payload_of fs))) \<and>
     sid (heap t r) = sid (heap s r) \<and> remoteSettings t = remoteSettings s"

lemma sent_step_refl: "sent_step r [] s s"
  by (simp add: sent_step_def puts_refl)

lemma sent_step_trans: "sent_step r fs s t \<Longrightarrow> sent_step r gs t u \<Longrightarrow> sent_step r (fs @ gs) s u"
  unfolding sent_step_def using puts_trans by auto

lemma sent_step_quiet:
  assumes "puts [] s t" and "quiet t = quiet s" and "unsent (heap t r) = unsent (heap s r)"
  shows "sent_step r [] s t"
  using assms(1,3) quietD [OF assms(2)] by (auto simp: sent_step_def core_def)

lemma piece_size_bounds:
  assumes "outChunks (heap s r) = (chunk, off) # rest" and "length chunk - off \<noteq> 0"
    and "0 < min (streamSendWindow (heap s r)) (sendWindow s)" and "0 < num (remoteSettings s) maxFrameSize"
  shows "0 < piece_size r s \<and> piece_size r s \<le> length chunk - off \<and>
    int (piece_size r s) \<le> sendWindow s \<and> int (piece_size r s) \<le> streamSendWindow (heap s r) \<and>
    int (piece_size r s) \<le> num (remoteSettings s) maxFrameSize"
  using assms by (auto simp: piece_size_def)

text \<open>A piece goes out; then, if it was the last, the stream's end is noted.\<close>

definition put_piece :: "nat \<Rightarrow> bool \<Rightarrow> session \<Rightarrow> session" where
  "put_piece r lst s =
     (let st = heap s r; (chunk, off) = hd (outChunks st); size = piece_size r s;
          s = sendFrame FRAME_DATA (if lst then FLAG_END_STREAM else 0) (sid st) (take size (drop off chunk)) s;
          s = upd r (\<lambda>st. st\<lparr>outChunks := (chunk, off + size) # tl (outChunks st),
                streamSendWindow := streamSendWindow st - int size, bytesWritten := bytesWritten st + size\<rparr>) s;
          s = s\<lparr>sendWindow := sendWindow s - int size\<rparr>
      in if length chunk \<le> off + size
         then emit (EvChunkDone (sid st) True) (upd r (\<lambda>st. st\<lparr>outChunks := tl (outChunks st)\<rparr>) s) else s)"

definition last_piece :: "nat \<Rightarrow> session \<Rightarrow> bool" where
  "last_piece r s \<longleftrightarrow>
     (let st = heap s r; (chunk, off) = hd (outChunks st)
      in piece_size r s = length chunk - off \<and> length (outChunks st) = 1 \<and> endPending st \<and> \<not> waitForTrailers st)"

lemma send_piece_split:
  "send_piece r s = (if last_piece r s then localEnd r (put_piece r (last_piece r s) s) else put_piece r (last_piece r s) s)"
  unfolding send_piece_def put_piece_def last_piece_def Let_def split_beta ..

lemma put_piece_heap:
  assumes "outChunks (heap s r) = (chunk, off) # rest"
  shows "heap (put_piece r lst s) r = (heap s r)\<lparr>
      outChunks := (if length chunk \<le> off + piece_size r s then rest else (chunk, off + piece_size r s) # rest),
      streamSendWindow := streamSendWindow (heap s r) - int (piece_size r s),
      bytesWritten := bytesWritten (heap s r) + piece_size r s\<rparr>"
  using assms by (simp add: put_piece_def Let_def heap_upd)

lemma put_piece_fields:
  assumes "outChunks (heap s r) = (chunk, off) # rest"
  shows "sendWindow (put_piece r lst s) = sendWindow s - int (piece_size r s)"
    and "remoteSettings (put_piece r lst s) = remoteSettings s" and "destroyed (put_piece r lst s) = destroyed s"
  using assms quietD(1,5) [OF quiet_basic(3)]
  by (simp_all add: put_piece_def Let_def upd_def emit_def)

lemma put_piece_puts:
  assumes "outChunks (heap s r) = (chunk, off) # rest" and "\<not> destroyed s"
  shows "puts (item_bytes (Frame FRAME_DATA (if lst then FLAG_END_STREAM else 0) (sid (heap s r))
     (take (piece_size r s) (drop off chunk)))) s (put_piece r lst s)"
proof -
  let ?f = "Frame FRAME_DATA (if lst then FLAG_END_STREAM else 0) (sid (heap s r)) (take (piece_size r s) (drop off chunk))"
  have "puts (item_bytes ?f) s (sendFrame FRAME_DATA (if lst then FLAG_END_STREAM else 0) (sid (heap s r))
      (take (piece_size r s) (drop off chunk)) s)"
    by (rule puts_sendFrame [OF assms(2)])
  moreover have "puts [] (sendFrame FRAME_DATA (if lst then FLAG_END_STREAM else 0) (sid (heap s r))
      (take (piece_size r s) (drop off chunk)) s) (put_piece r lst s)"
    using assms(1) by (intro puts_same) (simp_all add: put_piece_def Let_def)
  ultimately show ?thesis using puts_trans by fastforce
qed

lemma send_piece_step:
  assumes ch: "outChunks (heap s r) = (chunk, off) # rest" and rem: "length chunk - off \<noteq> 0"
    and win: "0 < min (streamSendWindow (heap s r)) (sendWindow s)" and mx: "0 < num (remoteSettings s) maxFrameSize"
    and d: "\<not> destroyed s"
  shows "\<exists>f. sent_step r [f] s (send_piece r s) \<and>
    chunk_fuel (outChunks (heap (send_piece r s) r)) < chunk_fuel (outChunks (heap s r)) \<and>
    0 \<le> sendWindow (send_piece r s) \<and> 0 \<le> streamSendWindow (heap (send_piece r s) r) \<and>
    (\<not> destroyed (send_piece r s) \<or> outChunks (heap (send_piece r s) r) = [])"
proof -
  note b = piece_size_bounds [OF ch rem win mx]
  let ?lst = "last_piece r s"
  let ?p = "put_piece r ?lst s"
  let ?f = "Frame FRAME_DATA (if ?lst then FLAG_END_STREAM else 0) (sid (heap s r)) (take (piece_size r s) (drop off chunk))"
  have len: "length (take (piece_size r s) (drop off chunk)) = piece_size r s" using b by simp
  have "drop off chunk = take (piece_size r s) (drop off chunk) @ drop (off + piece_size r s) chunk"
    by (metis append_take_drop_id drop_drop add.commute)
  then have un: "unsent (heap s r) = take (piece_size r s) (drop off chunk) @ unsent (heap ?p r)"
    using b by (auto simp: unsent_def put_piece_heap [OF ch] ch)
  have p: "sent_step r [?f] s ?p"
    using un b put_piece_puts [OF ch d, of ?lst]
    by (simp add: sent_step_def put_piece_fields [OF ch] put_piece_heap [OF ch] data_frame_def)
  have fuel: "chunk_fuel (outChunks (heap ?p r)) < chunk_fuel (outChunks (heap s r))"
    using b rem by (simp add: put_piece_heap [OF ch] ch chunk_fuel_def) arith
  have w: "0 \<le> sendWindow ?p" "0 \<le> streamSendWindow (heap ?p r)"
    using b by (simp_all add: put_piece_fields [OF ch] put_piece_heap [OF ch])
  show ?thesis
  proof (cases ?lst)
    case False
    with p fuel w d show ?thesis
      by (auto simp: send_piece_split put_piece_fields [OF ch])
  next
    case True
    then have "outChunks (heap ?p r) = []"
      using b by (auto simp: last_piece_def put_piece_heap [OF ch] ch Let_def)
    then have e: "outChunks (heap (localEnd r ?p) r) = []" by (simp add: outChunks_localEnd)
    have q: "quiet (localEnd r ?p) = quiet ?p" by (rule quiet_reset(3))
    have "sent_step r [] ?p (localEnd r ?p)"
      using e \<open>outChunks (heap ?p r) = []\<close> by (intro sent_step_quiet puts_localEnd q) (simp add: unsent_def)
    from sent_step_trans [OF p this] have "sent_step r [?f] s (localEnd r ?p)" by simp
    moreover have "sendWindow (localEnd r ?p) = sendWindow ?p" "streamSendWindow (heap (localEnd r ?p) r) = streamSendWindow (heap ?p r)"
      using quietD(1,6) [OF q] by (auto simp: core_def)
    ultimately show ?thesis
      using True e w fuel \<open>outChunks (heap ?p r) = []\<close> by (auto simp: send_piece_split)
  qed
qed


lemma sent_step_flush: "sent_step r [] s (flushOut s)"
  by (rule sent_step_quiet [OF puts_flushOut quiet_basic(5)]) simp

definition sent_result :: "nat \<Rightarrow> session \<Rightarrow> session \<Rightarrow> bool \<Rightarrow> bool" where
  "sent_result r s t returned \<longleftrightarrow>
     (\<exists>fs. sent_step r fs s t) \<and> (0 \<le> sendWindow s \<longrightarrow> 0 \<le> sendWindow t) \<and>
     (0 \<le> streamSendWindow (heap s r) \<longrightarrow> 0 \<le> streamSendWindow (heap t r)) \<and>
     (returned \<or> outChunks (heap t r) = [] \<or> min (streamSendWindow (heap t r)) (sendWindow t) \<le> 0)"

lemma sent_result_after:
  assumes "sent_step r fs s t" and "0 \<le> sendWindow s \<longrightarrow> 0 \<le> sendWindow t"
    and "0 \<le> streamSendWindow (heap s r) \<longrightarrow> 0 \<le> streamSendWindow (heap t r)" and "sent_result r t u ret"
  shows "sent_result r s u ret"
  using assms sent_step_trans [OF assms(1)] by (auto simp: sent_result_def)

lemma send_chunks_result:
  "chunk_fuel (outChunks (heap s r)) \<le> n \<Longrightarrow> 0 < num (remoteSettings s) maxFrameSize \<Longrightarrow>
   \<not> destroyed s \<or> outChunks (heap s r) = [] \<Longrightarrow> send_chunks n r b s = (t, sent, returned) \<Longrightarrow>
   sent_result r s t returned"
proof (induction n arbitrary: b s)
  case 0
  then show ?case by (simp add: chunk_fuel_def)
next
  case (Suc n)
  show ?case
  proof (cases "outChunks (heap s r)")
    case Nil
    with Suc.prems show ?thesis using sent_step_refl by (auto simp: sent_result_def)
  next
    case (Cons c rest)
    obtain chunk off where ch: "outChunks (heap s r) = (chunk, off) # rest" using Cons by (cases c) simp
    then have d: "\<not> destroyed s" using Suc.prems(3) by simp
    show ?thesis
    proof (cases "length chunk - off = 0")
      case True
      let ?t = "emit (EvChunkDone (sid (heap s r)) True) (upd r (\<lambda>st. st\<lparr>outChunks := tl (outChunks st)\<rparr>) s)"
      have q: "quiet ?t = quiet s" by (simp add: quiet_simps core_def)
      have step: "sent_step r [] s ?t"
        using True ch by (intro sent_step_quiet q puts_silent [OF puts_upd puts_emit]) (simp add: unsent_def heap_upd)
      have res: "sent_result r ?t t returned"
      proof (rule Suc.IH)
        show "chunk_fuel (outChunks (heap ?t r)) \<le> n"
          using Suc.prems(1) ch by (simp add: heap_upd chunk_fuel_def)
        show "send_chunks n r b ?t = (t, sent, returned)" using Suc.prems(4) ch True by simp
      qed (use Suc.prems(2) d in \<open>simp_all add: heap_upd\<close>)
      have w: "sendWindow ?t = sendWindow s" "streamSendWindow (heap ?t r) = streamSendWindow (heap s r)"
        using quietD(1,6) [OF q] by (simp_all add: core_def)
      show ?thesis by (rule sent_result_after [OF step _ _ res]) (simp_all only: w simp_thms)
    next
      case rem: False
      show ?thesis
      proof (cases "0 < min (streamSendWindow (heap s r)) (sendWindow s)")
        case False
        then show ?thesis
          using Suc.prems(4) ch rem sent_step_refl by (auto simp: sent_result_def split: if_splits)
      next
        case win: True
        let ?p = "send_piece r s"
        obtain f where f: "sent_step r [f] s ?p" and fuel: "chunk_fuel (outChunks (heap ?p r)) < chunk_fuel (outChunks (heap s r))"
          and w: "0 \<le> sendWindow ?p" "0 \<le> streamSendWindow (heap ?p r)"
          and d': "\<not> destroyed ?p \<or> outChunks (heap ?p r) = []"
          using send_piece_step [OF ch rem win Suc.prems(2) d] by blast
        obtain q where qd: "q = (if needDrain (socket ?p) then flushOut ?p else ?p)" by blast
        have q: "sent_step r [f] s q" "sendWindow q = sendWindow ?p" "heap q = heap ?p" "destroyed q = destroyed ?p"
          using f sent_step_trans [OF f sent_step_flush] quietD(1) [OF quiet_basic(5)] by (simp_all add: qd)
        have body: "(t, sent, returned) = (if needDrain (socket ?p) \<and> needDrain (socket q) then (q, True, True)
            else send_chunks n r True q)"
          using Suc.prems(4) ch rem win by (auto simp: Let_def min_le_iff_disj qd split: if_splits)
        show ?thesis
        proof (cases "needDrain (socket ?p) \<and> needDrain (socket q)")
          case True
          then have "(t, sent, returned) = (q, True, True)" using body by (simp only: if_True simp_thms)
          then have "t = q" "returned" by (simp_all only: prod.inject)
          with q w show ?thesis by (auto simp: sent_result_def)
        next
          case False
          then have "send_chunks n r True q = (t, sent, returned)" using body by (simp only: if_False)
          moreover have "num (remoteSettings q) maxFrameSize = num (remoteSettings s) maxFrameSize"
            using q(1) by (simp add: sent_step_def)
          ultimately have "sent_result r q t returned"
            using fuel Suc.prems(1,2) d' by (intro Suc.IH) (simp_all only: q(3,4))
          then show ?thesis using w by (intro sent_result_after [OF q(1)]) (simp_all only: q(2,3) simp_thms)
        qed
      qed
    qed
  qed
qed


subsection \<open>Resets\<close>

lemma rstCode_protocolClose:
  assumes "\<not> closedByProtocol (heap s r)"
  shows "rstCode (heap (protocolClose r c b s) r) = Some c \<and> closedByProtocol (heap (protocolClose r c b s) r)"
proof -
  have d: "rstCode (heap (destroyClosed r e t) r) = rstCode (heap t r)"
    "closedByProtocol (heap (destroyClosed r e t) r) = closedByProtocol (heap t r)" for e t
    by (simp_all add: destroyClosed_def destroyBegin_def heap_upd Let_def)
  have p: "rstCode (heap (pushNull r t) r) = rstCode (heap t r)"
    "closedByProtocol (heap (pushNull r t) r) = closedByProtocol (heap t r)" for t
    by (simp_all add: pushNull_def heap_upd)
  have e: "rstCode (heap (endDone r t) r) = rstCode (heap t r)"
    "closedByProtocol (heap (endDone r t) r) = closedByProtocol (heap t r)" for t
    by (simp_all add: endDone_def heap_upd)
  have x: "heap (removeStream r (upd r (\<lambda>st. st\<lparr>closedByProtocol := True, rstCode := Some c',
      localClosed := True, remoteClosed := True\<rparr>) s)) r =
    (heap s r)\<lparr>closedByProtocol := True, rstCode := Some c', localClosed := True, remoteClosed := True\<rparr>" for c'
    by (simp add: removeStream_other heap_upd)
  from assms show ?thesis
    by (simp add: protocolClose_def Let_def d p e x heap_upd)
qed

subsection \<open>Properties\<close>

text \<open>
  C10: The receive window of a connection loses nothing. Every data frame that does not end the
  connection, for whatever stream and with whatever padding, leaves window plus unreturned credit
  as it was; fewer than 16384 bytes of credit stay unreturned, and none if the window is below
  16384, so a peer with a window at all can always go on.
\<close>

theorem connection_window_conserved:
  assumes "onDataFrame flags i payload s = (s', None)"
  shows "recvWindow s' + recvUnacked s' = recvWindow s + recvUnacked s \<and> recvUnacked s' < 16384 \<and>
   (16384 \<le> recvWindow s' \<or> recvUnacked s' = 0)"
  using onDataFrame_credit [OF assms] by (simp add: connection_credit_def)

theorem connection_window_conserved_witness:
  "\<exists>s'. onDataFrame 0 1 [7, 8] (blank_session True demo_socket 128) = (s', None) \<and>
     recvWindow s' + recvUnacked s' = 65535 \<and> recvUnacked s' < 16384"
proof -
  let ?s = "blank_session True demo_socket 128"
  obtain s' where s': "onDataFrame 0 1 [7, 8] ?s = (s', None)"
    by (simp add: onDataFrame_def unpad_def has_def h2_consts blank_session_def find_stream_def ok_def)
  from connection_window_conserved [OF this] have
    "recvWindow s' + recvUnacked s' = 65535 \<and> recvUnacked s' < 16384" by (simp add: blank_session_def)
  with s' show ?thesis by blast
qed

text \<open>
  C8: Sending a stream's queue. The frames put on the wire are data frames of that stream within
  the peer's frame size; their payloads followed by what stays queued are exactly what was queued;
  both windows fall by what was sent and neither goes below zero; and sending stops only when the
  queue is empty, a window is used up or the socket asks to wait (the fuel is enough).
\<close>

theorem stream_data_sent:
  assumes "send_chunks (chunk_fuel (outChunks (heap s r))) r False s = (t, sent, returned)"
    and "0 < num (remoteSettings s) maxFrameSize" and "\<not> destroyed s"
  shows "(\<exists>fs. (sock_open s \<longrightarrow> out_bytes t = out_bytes s @ concat (map item_bytes fs)) \<and>
      (\<forall>f \<in> set fs. data_frame (sid (heap s r)) (num (remoteSettings s) maxFrameSize) f) \<and>
      unsent (heap s r) = concat (map payload_of fs) @ unsent (heap t r) \<and>
      sendWindow t = sendWindow s - int (length (concat (map payload_of fs))) \<and>
      streamSendWindow (heap t r) = streamSendWindow (heap s r) - int (length (concat (map payload_of fs)))) \<and>
    (0 \<le> sendWindow s \<longrightarrow> 0 \<le> sendWindow t) \<and>
    (0 \<le> streamSendWindow (heap s r) \<longrightarrow> 0 \<le> streamSendWindow (heap t r)) \<and>
    (returned \<or> outChunks (heap t r) = [] \<or> min (streamSendWindow (heap t r)) (sendWindow t) \<le> 0)"
  using send_chunks_result [OF order.refl assms(2) disjI1 [OF assms(3)] assms(1)]
  unfolding sent_result_def sent_step_def puts_def by blast

definition demo_sending :: session where
  "demo_sending = (blank_session True demo_socket 128)
    \<lparr>heap := \<lambda>_. (new_stream False 1 (blank_session True demo_socket 128))\<lparr>outChunks := [([1, 2, 3], 0)]\<rparr>\<rparr>"

theorem stream_data_sent_witness:
  "\<exists>t sent returned. send_chunks (chunk_fuel (outChunks (heap demo_sending 0))) 0 False demo_sending = (t, sent, returned) \<and>
     0 \<le> sendWindow t \<and> (returned \<or> outChunks (heap t 0) = [] \<or> min (streamSendWindow (heap t 0)) (sendWindow t) \<le> 0)"
proof -
  obtain t sent returned where
    t: "send_chunks (chunk_fuel (outChunks (heap demo_sending 0))) 0 False demo_sending = (t, sent, returned)"
    by (metis prod_cases3)
  have "0 < num (remoteSettings demo_sending) maxFrameSize" "\<not> destroyed demo_sending" "0 \<le> sendWindow demo_sending"
    by (simp_all add: demo_sending_def blank_session_def initial_local_def initial_remote_def DEFAULT_SETTINGS_def num_def)
  with stream_data_sent [OF t] t show ?thesis by blast
qed


text \<open>
  A change of the peer's initial window size is not checked against the largest window: a
  stream whose window the peer has already raised ends up with one above 2^31-1, which the same
  increase by WINDOW_UPDATE would not be allowed to make.
\<close>

theorem initial_window_overflow:
  assumes "streams s = [(i, r)]" and "int val \<le> MAX_WINDOW"
    and "MAX_WINDOW < streamSendWindow (heap s r) + (int val - num (remoteSettings s) initialWindowSize)"
  shows "snd (applySetting 4 val s) = None \<and> MAX_WINDOW < streamSendWindow (heap (fst (applySetting 4 val s)) r)"
  using assms by (simp add: applySetting_def ok_def Let_def setRemote_def heap_upd)

theorem initial_window_overflow_witness:
  "\<exists>s. snd (applySetting 4 2147483647 s) = None \<and> MAX_WINDOW < streamSendWindow (heap (fst (applySetting 4 2147483647 s)) 0)"
proof -
  let ?s = "(blank_session True demo_socket 128)\<lparr>streams := [(1, 0)],
    heap := \<lambda>_. (new_stream False 1 (blank_session True demo_socket 128))\<lparr>streamSendWindow := 65536\<rparr>\<rparr>"
  have "snd (applySetting 4 2147483647 ?s) = None \<and> MAX_WINDOW < streamSendWindow (heap (fst (applySetting 4 2147483647 ?s)) 0)"
    by (rule initial_window_overflow)
      (simp_all add: blank_session_def initial_local_def initial_remote_def DEFAULT_SETTINGS_def num_def MAX_WINDOW_def)
  then show ?thesis by blast
qed

text \<open>
  \<open>setLocalWindowSize\<close> forgets the credit still to be returned. Raising the window to the largest
  while there is some makes the session, once it returns it, give the peer a window above 2^31-1,
  at which a conforming peer ends the connection.
\<close>

theorem local_window_overflow:
  assumes "setLocalWindowSize MAX_WINDOW s = Inr s1" and "recvWindow s < MAX_WINDOW" and "0 < recvUnacked s"
    and "onDataFrame flags i payload s1 = (s', None)" and "16384 \<le> length payload"
  shows "MAX_WINDOW < recvWindow s'"
proof -
  have "recvWindow s1 = MAX_WINDOW \<and> recvUnacked s1 = recvUnacked s"
    using assms(1,2) by (auto simp: setLocalWindowSize_def sendWindowUpdate_def sendFrame_def writeRaw_def Let_def MAX_WINDOW_def)
  with onDataFrame_credit [OF assms(4)] assms(3,5) show ?thesis by (simp add: connection_credit_def)
qed

theorem local_window_overflow_witness:
  "\<exists>s' :: session. MAX_WINDOW < recvWindow s'"
proof -
  let ?s = "(blank_session True demo_socket 128)\<lparr>recvUnacked := 1\<rparr>"
  let ?s1 = "sendWindowUpdate 0 (MAX_WINDOW - 65535) True ?s"
  let ?p = "replicate 16384 (0 :: byte)"
  have 1: "setLocalWindowSize MAX_WINDOW ?s = Inr ?s1"
    by (simp add: setLocalWindowSize_def blank_session_def MAX_WINDOW_def)
  obtain s' where 2: "onDataFrame 0 1 ?p ?s1 = (s', None)"
    by (simp add: onDataFrame_def unpad_def has_def h2_consts blank_session_def find_stream_def ok_def
        sendWindowUpdate_def sendFrame_def writeRaw_def Let_def)
  have "MAX_WINDOW < recvWindow s'"
    by (rule local_window_overflow [OF 1 _ _ 2]) (simp_all add: blank_session_def MAX_WINDOW_def)
  then show ?thesis by blast
qed

text \<open>
  Our own initial window size, once the peer acknowledges it, is not applied to the streams
  that are already open: a peer that uses the window it was given has its stream reset for a flow
  control error.
\<close>

theorem acknowledged_window_not_applied:
  assumes "pendingSettings s = [([(initialWindowSize, SNumber w)], False)]" and "streams s = [(i, r)]" and "i \<noteq> 0"
    and "\<not> remoteClosed (heap s r)" and "\<not> closedByProtocol (heap s r)"
    and "streamRecvWindow (heap s r) < int (length payload)" and "int (length payload) \<le> w"
    and "int (length payload) \<le> recvWindow s"
  shows "\<exists>s'. onDataFrame 0 i payload (settingsAck s) = (s', None) \<and>
     rstCode (heap s' r) = Some ERR_FLOW_CONTROL_ERROR"
proof -
  let ?a = "settingsAck s"
  have a: "streams ?a = streams s" "heap ?a = heap s" "recvWindow ?a = recvWindow s" "client ?a = client s"
    using assms(1) by (auto simp: settingsAck_def setLocal_def emit_def)
  let ?t = "upd r (\<lambda>st. st\<lparr>streamRecvWindow := streamRecvWindow st - int (length payload)\<rparr>)
    (?a\<lparr>recvWindow := recvWindow ?a - int (length payload), recvUnacked := recvUnacked ?a + int (length payload)\<rparr>)"
  have "onDataFrame 0 i payload ?a = ok (creditConnection (streamReset r ERR_FLOW_CONTROL_ERROR ?t))"
    using assms by (simp add: onDataFrame_def unpad_def has_def find_stream_def a heap_upd Let_def)
  moreover have "heap (creditConnection u) = heap u" for u
    by (simp add: creditConnection_def sendWindowUpdate_def Let_def)
  moreover have "rstCode (heap (streamReset r ERR_FLOW_CONTROL_ERROR ?t) r) = Some ERR_FLOW_CONTROL_ERROR"
    using assms(5) rstCode_protocolClose by (simp add: streamReset_def sendRst_def heap_upd a)
  ultimately show ?thesis by (simp add: ok_def)
qed

theorem acknowledged_window_not_applied_witness:
  "\<exists>s' :: session. rstCode (heap s' 0) = Some ERR_FLOW_CONTROL_ERROR"
proof -
  let ?s = "(blank_session False demo_socket 128)\<lparr>streams := [(1, 0)], recvWindow := 100000,
    pendingSettings := [([(initialWindowSize, SNumber 100000)], False)],
    heap := \<lambda>_. new_stream True 1 (blank_session False demo_socket 128)\<rparr>"
  have "\<exists>s'. onDataFrame 0 1 (replicate 65536 0) (settingsAck ?s) = (s', None) \<and>
     rstCode (heap s' 0) = Some ERR_FLOW_CONTROL_ERROR"
    by (rule acknowledged_window_not_applied [where w = 100000])
      (simp_all add: blank_session_def initial_local_def initial_remote_def DEFAULT_SETTINGS_def num_def new_stream_def)
  then show ?thesis by blast
qed

end
