(* ===== verification/Http2Pump.thy ===== *)
theory Http2Pump
  imports Http2Flow "HOL-Library.Sublist"
begin

text \<open>
  The pump of a session (\<open>_pump\<close> of \<open>quickjs/runtime/node-http2.js\<close>) runs to its end and leaves only what
  cannot be sent. What closing a stream does to the rest of the session is proved once, in the locale
  \<open>closing_steps\<close>, for every relation that allows its small steps: \<open>grows\<close> (only events are added) and
  \<open>shrinks\<close> (no stream gets more to send).
\<close>

subsection \<open>What closing a stream may do to the rest\<close>

text \<open>
  Closing runs through the whole session. A relation between states that allows its small steps
  allows all of it: \<open>upd\<close> with a change that adds no work to a stream, \<open>emit\<close>, \<open>deleteStream\<close>, output
  and a few fields.
\<close>

locale closing_steps =
  fixes R :: "session \<Rightarrow> session \<Rightarrow> bool"
  assumes R_refl: "R s s" and R_trans: "R s t \<Longrightarrow> R t u \<Longrightarrow> R s u"
    and R_upd: "(\<And>st. stream_work (f st) \<le> stream_work st) \<Longrightarrow> R s (upd r f s)"
    and R_emit: "R s (emit e s)" and R_deleteStream: "R s (deleteStream i s)"
    and R_flushOut: "R s (flushOut s)" and R_endSocket: "R s (endSocket g s)"
    and R_destroyed: "R s (s\<lparr>destroyed := b\<rparr>)" and R_pings: "R s (s\<lparr>pings := ps\<rparr>)"
    and R_settings: "R s (s\<lparr>pendingSettings := os\<rparr>)"
begin

lemma R_fold: "(\<And>a s. R s (f a s)) \<Longrightarrow> R s (fold f xs s)"
  by (induction xs arbitrary: s) (auto intro: R_refl R_trans)

lemma R_emits: "R s (fold (\<lambda>a. emit (f a)) xs s)"
  by (rule R_fold) (rule R_emit)

lemma R_destroyBegin: "R s (destroyBegin r s)"
  using R_trans [OF R_upd [of "\<lambda>st. st\<lparr>streamDestroyed := True\<rparr>" s r] R_trans [OF R_upd R_emit]] R_upd
  by (simp add: destroyBegin_def Let_def stream_work_def)

lemma R_destroyClosed: "R s (destroyClosed r e s)"
  using R_trans [OF R_destroyBegin R_trans [OF R_upd R_emit]] R_refl
  by (simp add: destroyClosed_def stream_work_def)

lemma R_pushNull: "R s (pushNull r s)"
  unfolding pushNull_def by (rule R_trans [OF R_upd R_emit]) (simp add: stream_work_def)

lemma R_dropChunks: "R s (dropChunks r s)"
  unfolding dropChunks_def by (rule R_trans [OF R_upd R_emits]) (simp add: stream_work_def chunk_fuel_def)

lemma R_sessionGone: "R s (sessionGone r e c s)"
proof -
  have 1: "R s (dropChunks r (deleteStream i (upd r (\<lambda>st. st\<lparr>closedByProtocol := True, rstCode := Some c,
      localClosed := True, remoteClosed := True\<rparr>) s)))" for i
    by (rule R_trans [OF R_upd R_trans [OF R_deleteStream R_dropChunks]]) (simp add: stream_work_def)
  show ?thesis
    using R_refl R_trans [OF 1 R_destroyClosed] R_trans [OF R_trans [OF 1 R_pushNull] R_destroyClosed]
    by (simp add: sessionGone_def Let_def)
qed

lemma R_cancelAll: "R s (cancelAll s)"
proof -
  have 1: "R t (fold (\<lambda>(i, r). sessionGone r None ERR_CANCEL) xs t)" for xs :: "(nat \<times> nat) list" and t
    by (rule R_fold) (simp add: split_beta R_sessionGone)
  have 2: "R t (fold (\<lambda>(obj, h). if h then emit (EvSettingsDone False) else id) xs t)"
    for xs :: "(setting_object \<times> bool) list" and t
    by (rule R_fold) (simp add: split_beta R_emit R_refl)
  show ?thesis
    unfolding cancelAll_def Let_def
    by (rule R_trans [OF 1 R_trans [OF R_trans [OF R_pings R_emits] R_trans [OF R_settings 2]]])
qed

lemma R_finishDestroy: "R s (finishDestroy e g s)"
proof -
  have 1: "R s (endSocket g (flushOut (cancelAll (s\<lparr>destroyed := True\<rparr>))))"
    by (rule R_trans [OF R_trans [OF R_trans [OF R_destroyed R_cancelAll] R_flushOut] R_endSocket])
  show ?thesis
    using R_refl R_trans [OF 1 R_emit] R_trans [OF R_trans [OF 1 R_emit] R_emit]
    by (cases e) (simp_all add: finishDestroy_def Let_def)
qed

lemma R_maybeFinish: "R s (maybeFinish s)"
  unfolding maybeFinish_def using R_trans [OF R_flushOut R_finishDestroy] R_refl by simp

lemma R_removeStream: "R s (removeStream r s)"
  unfolding removeStream_def by (rule R_trans [OF R_deleteStream R_maybeFinish])

lemma R_maybeClosed: "R s (maybeClosed r s)"
proof -
  have 1: "R s (removeStream r (upd r (\<lambda>st. st\<lparr>closedByProtocol := True, rstCode := Some ERR_NO_ERROR\<rparr>) s))"
    by (rule R_trans [OF R_upd R_removeStream]) (simp add: stream_work_def)
  show ?thesis
    using R_refl R_trans [OF 1 R_destroyClosed] R_trans [OF 1 R_upd]
    by (simp add: maybeClosed_def Let_def stream_work_def)
qed

lemma R_remoteEnded: "R s (remoteEnded r s)"
  using R_refl R_trans [OF R_trans [OF R_upd R_pushNull] R_maybeClosed]
  by (simp add: remoteEnded_def Let_def stream_work_def)

lemma R_endDone: "R s (endDone r s)"
  using R_refl R_trans [OF R_upd R_emit] by (simp add: endDone_def stream_work_def)

lemma R_localEnd: "R s (localEnd r s)"
  unfolding localEnd_def
  by (rule R_trans [OF R_upd R_trans [OF R_endDone R_maybeClosed]]) (simp add: stream_work_def)

lemma R_wantTrailers: "R s (wantTrailers r s)"
  unfolding wantTrailers_def by (rule R_trans [OF R_upd R_emit]) (simp add: stream_work_def)

end

text \<open>The compression state and the send queue stay, what has been told stays told.\<close>

definition grows :: "session \<Rightarrow> session \<Rightarrow> bool" where
  "grows s t \<longleftrightarrow> encoder t = encoder s \<and> decoder t = decoder s \<and> sendQueue t = sendQueue s \<and> prefix (events s) (events t)"

interpretation growing: closing_steps grows
  by unfold_locales (auto simp: grows_def upd_def emit_def deleteStream_def flushOut_def endSocket_def Let_def)

text \<open>No stream has more to send.\<close>

definition shrinks :: "session \<Rightarrow> session \<Rightarrow> bool" where
  "shrinks s t \<longleftrightarrow> sendQueue t = sendQueue s \<and> remoteSettings t = remoteSettings s \<and>
     (\<forall>r. stream_work (heap t r) \<le> stream_work (heap s r))"

interpretation shrinking: closing_steps shrinks
proof
  fix s t u
  assume "shrinks s t" and "shrinks t u"
  then show "shrinks s u" unfolding shrinks_def by (auto intro: order_trans)
qed (auto simp: shrinks_def upd_def emit_def deleteStream_def flushOut_def endSocket_def Let_def)

subsection \<open>Work\<close>

lemma chunk_work_pos [simp]: "0 < stream_work st"
  by (simp add: stream_work_def chunk_fuel_def)

lemma chunk_fuel_simps: "chunk_fuel [] = 1" "chunk_fuel ((c, i) # cs) = Suc (length c - i) + chunk_fuel cs"
  by (simp_all add: chunk_fuel_def)

lemma drop_chunk_work: "stream_work (st\<lparr>outChunks := tl (outChunks st)\<rparr>) \<le> stream_work st"
  by (cases "outChunks st") (simp_all add: stream_work_def chunk_fuel_def)

lemma put_piece_fuel:
  assumes ch: "outChunks (heap s r) = (chunk, off) # rest" and "length chunk - off \<noteq> 0"
    and "0 < min (streamSendWindow (heap s r)) (sendWindow s)" and "0 < num (remoteSettings s) maxFrameSize"
  shows "chunk_fuel (outChunks (heap (put_piece r lst s) r)) < chunk_fuel (outChunks (heap s r))"
proof -
  have "0 < piece_size r s" "piece_size r s \<le> length chunk - off" using piece_size_bounds [OF assms] by simp_all
  then show ?thesis unfolding put_piece_heap [OF ch] by (auto simp: chunk_fuel_simps ch)
qed

lemma put_piece_work:
  assumes ch: "outChunks (heap s r) = (chunk, off) # rest" and "length chunk - off \<noteq> 0"
    and "0 < min (streamSendWindow (heap s r)) (sendWindow s)" and "0 < num (remoteSettings s) maxFrameSize"
  shows "shrinks s (put_piece r lst s) \<and> stream_work (heap (put_piece r lst s) r) < stream_work (heap s r)"
proof -
  have w: "stream_work (heap (put_piece r lst s) r) < stream_work (heap s r)"
    using put_piece_fuel [OF assms] by (simp add: stream_work_def put_piece_heap [OF ch])
  have "sendQueue (put_piece r lst s) = sendQueue s" "q \<noteq> r \<Longrightarrow> heap (put_piece r lst s) q = heap s q" for q
    by (simp_all add: put_piece_def Let_def split_beta heap_upd emit_def sendFrame_def writeRaw_def upd_def)
  then show ?thesis
    using w put_piece_fields(2) [OF ch] unfolding shrinks_def by (metis order_refl less_imp_le)
qed

lemma send_piece_work:
  assumes "outChunks (heap s r) = (chunk, off) # rest" and "length chunk - off \<noteq> 0"
    and "0 < min (streamSendWindow (heap s r)) (sendWindow s)" and "0 < num (remoteSettings s) maxFrameSize"
  shows "shrinks s (send_piece r s) \<and> stream_work (heap (send_piece r s) r) < stream_work (heap s r) \<and>
    chunk_fuel (outChunks (heap (send_piece r s) r)) < chunk_fuel (outChunks (heap s r))"
proof -
  define p where "p = put_piece r (last_piece r s) s"
  have p: "shrinks s p" "stream_work (heap p r) < stream_work (heap s r)"
    "chunk_fuel (outChunks (heap p r)) < chunk_fuel (outChunks (heap s r))"
    using put_piece_work [OF assms] put_piece_fuel [OF assms] by (simp_all add: p_def)
  have l: "shrinks p (localEnd r p)" by (rule shrinking.R_localEnd)
  have "shrinks s (localEnd r p)" using shrinking.R_trans [OF p(1) l] .
  moreover have "stream_work (heap (localEnd r p) r) < stream_work (heap s r)"
    using l p(2) le_less_trans unfolding shrinks_def by blast
  moreover have "chunk_fuel (outChunks (heap (localEnd r p) r)) < chunk_fuel (outChunks (heap s r))"
    using p(3) by (simp add: outChunks_localEnd)
  ultimately show ?thesis using p unfolding send_piece_split p_def [symmetric] by simp
qed

text \<open>Nothing sent: at most empty chunks of stream \<open>r\<close> are gone.\<close>

definition idled :: "nat \<Rightarrow> session \<Rightarrow> session \<Rightarrow> bool" where
  "idled r s t \<longleftrightarrow> sendWindow t = sendWindow s \<and> sendQueue t = sendQueue s \<and>
     (\<exists>cs. heap t = (heap s)(r := (heap s r)\<lparr>outChunks := cs\<rparr>))"

lemma idled_refl: "idled r s s"
  unfolding idled_def by (intro conjI exI [of _ "outChunks (heap s r)"]) simp_all

lemma idled_trans: "idled r s t \<Longrightarrow> idled r t u \<Longrightarrow> idled r s u"
  by (auto simp: idled_def)

lemma idled_drop: "idled r s (emit e (upd r (\<lambda>st. st\<lparr>outChunks := tl (outChunks st)\<rparr>) s))"
  unfolding idled_def by (auto simp: emit_def upd_def)

text \<open>What sending the chunks of stream \<open>r\<close> comes to.\<close>

definition chunks_result :: "nat \<Rightarrow> session \<Rightarrow> session \<Rightarrow> bool \<Rightarrow> bool \<Rightarrow> bool" where
  "chunks_result r s t sent returned \<longleftrightarrow> shrinks s t \<and>
     (sent \<longrightarrow> stream_work (heap t r) < stream_work (heap s r)) \<and>
     (returned \<longrightarrow> sent \<and> needDrain (socket t)) \<and>
     (\<not> sent \<longrightarrow> idled r s t \<and> (outChunks (heap t r) = [] \<or>
        (\<exists>c i cs. outChunks (heap t r) = (c, i) # cs \<and> i < length c \<and> min (streamSendWindow (heap t r)) (sendWindow t) \<le> 0)))"

lemma chunks_result_before:
  assumes 1: "shrinks s t" and 2: "idled r s t" and u: "chunks_result r t u sent returned"
  shows "chunks_result r s u sent returned"
proof -
  have "shrinks s u" using 1 u shrinking.R_trans unfolding chunks_result_def by blast
  moreover have "stream_work (heap t r) \<le> stream_work (heap s r)" using 1 by (simp add: shrinks_def)
  moreover have "idled r t u \<Longrightarrow> idled r s u" using idled_trans [OF 2] .
  ultimately show ?thesis using u unfolding chunks_result_def by auto
qed

lemma send_chunks_progress:
  "chunk_fuel (outChunks (heap s r)) \<le> n \<Longrightarrow> 0 < num (remoteSettings s) maxFrameSize \<Longrightarrow>
   send_chunks n r b s = (t, sent, returned) \<Longrightarrow>
   \<exists>sent'. sent = (b \<or> sent') \<and> chunks_result r s t sent' returned"
proof (induction n arbitrary: b s)
  case 0
  then show ?case by (simp add: chunk_fuel_def)
next
  case (Suc n)
  show ?case
  proof (cases "outChunks (heap s r)")
    case Nil
    with Suc.prems(3) have "t = s" "sent = b" "\<not> returned" by auto
    with Nil show ?thesis using shrinking.R_refl idled_refl by (intro exI [of _ False]) (simp add: chunks_result_def)
  next
    case (Cons c rest)
    obtain chunk off where ch: "outChunks (heap s r) = (chunk, off) # rest" using Cons by (cases c) simp
    show ?thesis
    proof (cases "length chunk - off = 0")
      case True
      let ?t = "emit (EvChunkDone (sid (heap s r)) True) (upd r (\<lambda>st. st\<lparr>outChunks := tl (outChunks st)\<rparr>) s)"
      have 1: "shrinks s ?t"
        by (rule shrinking.R_trans [OF shrinking.R_upd shrinking.R_emit]) (rule drop_chunk_work)
      have "\<exists>sent'. sent = (b \<or> sent') \<and> chunks_result r ?t t sent' returned"
        using Suc.prems ch True by (intro Suc.IH) (simp_all add: heap_upd chunk_fuel_simps)
      then show ?thesis using chunks_result_before [OF 1 idled_drop] by blast
    next
      case rem: False
      show ?thesis
      proof (cases "0 < min (streamSendWindow (heap s r)) (sendWindow s)")
        case False
        then have "t = s" "sent = b" "\<not> returned" using Suc.prems(3) ch rem by (auto split: if_splits)
        with False ch rem show ?thesis
          using shrinking.R_refl idled_refl by (intro exI [of _ False]) (auto simp: chunks_result_def)
      next
        case win: True
        let ?p = "send_piece r s"
        note p = send_piece_work [OF ch rem win Suc.prems(2)]
        obtain q where qd: "q = (if needDrain (socket ?p) then flushOut ?p else ?p)" by blast
        have q: "shrinks s q" "stream_work (heap q r) < stream_work (heap s r)"
          using p shrinking.R_trans [OF conjunct1 [OF p] shrinking.R_flushOut] by (simp_all add: qd)
        have body: "(t, sent, returned) = (if needDrain (socket ?p) \<and> needDrain (socket q) then (q, True, True)
            else send_chunks n r True q)"
          using Suc.prems(3) ch rem win by (auto simp: Let_def min_le_iff_disj qd split: if_splits)
        show ?thesis
        proof (cases "needDrain (socket ?p) \<and> needDrain (socket q)")
          case True
          with body have "t = q" "sent" "returned" by simp_all
          with q True show ?thesis by (intro exI [of _ True]) (simp add: chunks_result_def)
        next
          case False
          have "chunk_fuel (outChunks (heap q r)) < chunk_fuel (outChunks (heap s r))"
            using p by (simp add: qd)
          then have "chunk_fuel (outChunks (heap q r)) \<le> n" using Suc.prems(1) by simp
          then have "\<exists>sent'. sent = (True \<or> sent') \<and> chunks_result r q t sent' returned"
            using Suc.prems(2) q(1) body False by (intro Suc.IH) (simp_all add: shrinks_def)
          then have "sent" "shrinks q t" "returned \<Longrightarrow> needDrain (socket t)" by (auto simp: chunks_result_def)
          with q show ?thesis
            using shrinking.R_trans [OF q(1)] by (intro exI [of _ True]) (auto simp: chunks_result_def shrinks_def intro: le_less_trans)
        qed
      qed
    qed
  qed
qed

subsection \<open>The pump\<close>

definition pump_work :: "session \<Rightarrow> nat" where
  "pump_work s = (\<Sum>r \<leftarrow> sendQueue s. stream_work (heap s r))"

lemma sum_list_less:
  fixes f g :: "'a \<Rightarrow> nat"
  shows "\<forall>x \<in> set xs. f x \<le> g x \<Longrightarrow> y \<in> set xs \<Longrightarrow> f y < g y \<Longrightarrow> sum_list (map f xs) < sum_list (map g xs)"
proof (induction xs)
  case (Cons x xs)
  have "sum_list (map f xs) \<le> sum_list (map g xs)" using Cons.prems(1) by (intro sum_list_mono) simp
  with Cons show ?case by (cases "x = y") (auto intro: add_less_le_mono add_le_less_mono)
qed simp

lemma pump_work_shrinks: "shrinks s t \<Longrightarrow> pump_work t \<le> pump_work s"
  by (auto simp: shrinks_def pump_work_def intro: sum_list_mono)

lemma pump_work_less:
  "shrinks s t \<Longrightarrow> r \<in> set (sendQueue s) \<Longrightarrow> stream_work (heap t r) < stream_work (heap s r) \<Longrightarrow> pump_work t < pump_work s"
  unfolding shrinks_def pump_work_def by (auto intro: sum_list_less)

lemma unschedule_fields:
  "sendQueue (unschedule i s) = remove_at i (sendQueue s)" "remoteSettings (unschedule i s) = remoteSettings s"
  "socket (unschedule i s) = socket s" "sendWindow (unschedule i s) = sendWindow s"
  "stream_work (heap (unschedule i s) r) = stream_work (heap s r)"
  "heap (unschedule i s) = (heap s)(sendQueue s ! i := (heap s (sendQueue s ! i))\<lparr>scheduled := False\<rparr>)"
  by (simp_all add: unschedule_def heap_upd stream_work_def) (simp add: upd_def)

lemma pump_work_unschedule: "i < length (sendQueue s) \<Longrightarrow> pump_work (unschedule i s) \<le> pump_work s"
proof -
  assume i: "i < length (sendQueue s)"
  have "sendQueue s = take i (sendQueue s) @ sendQueue s ! i # drop (Suc i) (sendQueue s)"
    by (rule id_take_nth_drop [OF i])
  then have "map f (sendQueue s) = map f (take i (sendQueue s)) @ f (sendQueue s ! i) # map f (drop (Suc i) (sendQueue s))"
    for f :: "nat \<Rightarrow> nat"
    by (metis list.simps(9) map_append)
  then show ?thesis by (simp add: pump_work_def unschedule_fields(1,5) remove_at_def)
qed

lemma shrinks_sendFrame: "shrinks s (sendFrame t fl i p s)"
  by (simp add: shrinks_def sendFrame_def writeRaw_def)

lemma send_end_work:
  assumes "send_end r s = (t, ended)"
  shows "shrinks s t \<and> (ended \<longrightarrow> stream_work (heap t r) < stream_work (heap s r)) \<and>
    (\<not> ended \<longrightarrow> t = s \<and> \<not> (outChunks (heap s r) = [] \<and> endPending (heap s r) \<and> \<not> localClosed (heap s r)))"
proof (cases "outChunks (heap s r) = [] \<and> endPending (heap s r) \<and> \<not> localClosed (heap s r)")
  case False
  then show ?thesis using assms shrinking.R_refl by (auto simp: send_end_def Let_def)
next
  case True
  let ?u = "upd r (\<lambda>st. st\<lparr>endPending := False\<rparr>) s"
  let ?v = "upd r (\<lambda>st. st\<lparr>localClosed := True, endPending := False\<rparr>) (sendFrame FRAME_DATA FLAG_END_STREAM (sid (heap s r)) [] s)"
  have u: "shrinks s ?u" "stream_work (heap ?u r) < stream_work (heap s r)"
    using True by (auto intro!: shrinking.R_upd simp: heap_upd stream_work_def)
  have v: "shrinks s ?v" "stream_work (heap ?v r) < stream_work (heap s r)"
    using True by (auto intro!: shrinking.R_trans [OF shrinks_sendFrame shrinking.R_upd] simp: heap_upd stream_work_def)
  have wu: "shrinks ?u (wantTrailers r (endDone r ?u))"
    by (rule shrinking.R_trans [OF shrinking.R_endDone shrinking.R_wantTrailers])
  have wv: "shrinks ?v (maybeClosed r (endDone r ?v))"
    by (rule shrinking.R_trans [OF shrinking.R_endDone shrinking.R_maybeClosed])
  have t: "ended" "t = (if waitForTrailers (heap s r) then wantTrailers r (endDone r ?u) else maybeClosed r (endDone r ?v))"
    using assms True by (auto simp: send_end_def localEnd_def Let_def)
  have less: "shrinks s w \<and> stream_work (heap w r) < stream_work (heap s r)"
    if "shrinks s x" "stream_work (heap x r) < stream_work (heap s r)" "shrinks x w" for x w
  proof -
    have "stream_work (heap w r) \<le> stream_work (heap x r)" using that(3) by (simp add: shrinks_def)
    then show ?thesis using that shrinking.R_trans by auto
  qed
  show ?thesis using less [OF u wu] less [OF v wv] t by simp
qed

text \<open>Why a stream stays in the queue: no headers yet, no window, or it was ended before its end came.\<close>

definition blocked :: "session \<Rightarrow> nat \<Rightarrow> bool" where
  "blocked s r \<longleftrightarrow> (let st = heap s r in
     \<not> (streamDestroyed st \<and> \<not> closedByProtocol st) \<and>
     (\<not> headersSent st \<or>
      (\<exists>c i cs. outChunks st = (c, i) # cs \<and> i < length c \<and> min (streamSendWindow st) (sendWindow s) \<le> 0) \<or>
      outChunks st = [] \<and> endPending st \<and> localClosed st))"

lemma pump_stream_blocked:
  assumes "blocked s (sendQueue s ! i)"
  shows "pump_stream i s = (s, Suc i, False, False)"
proof -
  let ?r = "sendQueue s ! i"
  have "send_chunks (chunk_fuel (outChunks (heap s ?r))) ?r False s = (s, False, False)"
    if "outChunks (heap s ?r) = (c, k) # cs" "k < length c" "min (streamSendWindow (heap s ?r)) (sendWindow s) \<le> 0" for c k cs
    using that by (simp add: chunk_fuel_def)
  moreover have "send_chunks (chunk_fuel (outChunks (heap s ?r))) ?r False s = (s, False, False)"
    if "outChunks (heap s ?r) = []"
    using that by (simp add: chunk_fuel_def)
  ultimately show ?thesis
    using assms by (auto simp: blocked_def pump_stream_def send_end_def Let_def)
qed

definition stream_result :: "nat \<Rightarrow> session \<Rightarrow> session \<Rightarrow> nat \<Rightarrow> bool \<Rightarrow> bool \<Rightarrow> bool" where
  "stream_result i s t j sent returned \<longleftrightarrow> remoteSettings t = remoteSettings s \<and>
     pump_work t \<le> pump_work s \<and> (sent \<longrightarrow> pump_work t < pump_work s) \<and>
     (returned \<longrightarrow> sent \<and> needDrain (socket t)) \<and>
     (\<not> returned \<longrightarrow> length (sendQueue t) - j < length (sendQueue s) - i) \<and>
     (\<not> sent \<longrightarrow> (\<forall>r \<in> set (take i (sendQueue s)). blocked s r) \<longrightarrow> (\<forall>r \<in> set (take j (sendQueue t)). blocked t r))"

lemma blocked_cong: "heap t r = heap s r \<Longrightarrow> sendWindow t = sendWindow s \<Longrightarrow> blocked t r = blocked s r"
  by (simp add: blocked_def)

lemma length_remove_at: "i < length xs \<Longrightarrow> length (remove_at i xs) = length xs - 1"
  by (simp add: remove_at_def)

lemma take_remove_at: "i < length xs \<Longrightarrow> take i (remove_at i xs) = take i xs"
  by (simp add: remove_at_def)

text \<open>Stream \<open>r\<close> leaves the queue, at most its own cell having changed.\<close>

lemma stream_result_unschedule:
  assumes "i < length (sendQueue s)" and "\<not> blocked s (sendQueue s ! i)"
    and "shrinks s u" and "sent \<longrightarrow> pump_work u < pump_work s"
    and "\<not> sent \<longrightarrow> sendWindow u = sendWindow s \<and> (\<forall>q. q \<noteq> sendQueue s ! i \<longrightarrow> heap u q = heap s q)"
  shows "stream_result i s (unschedule i u) i sent False"
proof -
  have q: "sendQueue u = sendQueue s" "remoteSettings u = remoteSettings s" using assms(3) by (simp_all add: shrinks_def)
  have "pump_work (unschedule i u) \<le> pump_work u" using assms(1) by (intro pump_work_unschedule) (simp add: q)
  moreover have "pump_work u \<le> pump_work s" by (rule pump_work_shrinks [OF assms(3)])
  moreover have "blocked (unschedule i u) r" if "\<not> sent" "blocked s r" for r
  proof -
    have "r \<noteq> sendQueue s ! i" using that(2) assms(2) by blast
    then show ?thesis
      using that assms(5) blocked_cong [of "unschedule i u" r s] by (simp add: unschedule_fields(4,6) q)
  qed
  ultimately show ?thesis
    using assms(1,4) by (auto simp: stream_result_def unschedule_fields(1,2) q take_remove_at length_remove_at)
qed

lemma stream_result_stay:
  assumes "i < length (sendQueue s)" and "shrinks s u" and "sent \<longrightarrow> pump_work u < pump_work s"
    and "\<not> sent \<longrightarrow> blocked u (sendQueue s ! i) \<and> sendWindow u = sendWindow s \<and>
      (\<forall>q. q \<noteq> sendQueue s ! i \<longrightarrow> heap u q = heap s q)"
  shows "stream_result i s u (Suc i) sent False"
proof -
  have q: "sendQueue u = sendQueue s" "remoteSettings u = remoteSettings s" using assms(2) by (simp_all add: shrinks_def)
  have "blocked u r" if "\<not> sent" "r \<in> set (take (Suc i) (sendQueue s))" "\<forall>r \<in> set (take i (sendQueue s)). blocked s r" for r
    using that assms(1,4) blocked_cong [of u r s] by (cases "r = sendQueue s ! i") (auto simp: take_Suc_conv_app_nth)
  then show ?thesis
    using assms(1,3) pump_work_shrinks [OF assms(2)] by (auto simp: stream_result_def q)
qed

lemma pump_stream_result:
  assumes i: "i < length (sendQueue s)" and mx: "0 < num (remoteSettings s) maxFrameSize"
    and p: "pump_stream i s = (t, j, sent, returned)"
  shows "stream_result i s t j sent returned"
proof (cases "blocked s (sendQueue s ! i)")
  case True
  then show ?thesis
    using p i pump_stream_blocked [OF True] shrinking.R_refl by (auto intro!: stream_result_stay)
next
  case nb: False
  define r where "r = sendQueue s ! i"
  have r: "r \<in> set (sendQueue s)" using i by (simp add: r_def)
  consider (gone) "streamDestroyed (heap s r)" "\<not> closedByProtocol (heap s r)"
    | (live) "\<not> (streamDestroyed (heap s r) \<and> \<not> closedByProtocol (heap s r))" "headersSent (heap s r)"
    using nb by (auto simp: blocked_def r_def Let_def)
  then show ?thesis
  proof cases
    case gone
    then have "t = unschedule i s" "j = i" "\<not> sent" "\<not> returned" using p by (auto simp: pump_stream_def r_def Let_def)
    then show ?thesis using stream_result_unschedule [OF i nb shrinking.R_refl, of False] by simp
  next
    case live
    obtain u sent1 returned1 where u: "send_chunks (chunk_fuel (outChunks (heap s r))) r False s = (u, sent1, returned1)"
      by (metis prod_cases3)
    from send_chunks_progress [OF order.refl mx u] have cr: "chunks_result r s u sent1 returned1" by simp
    have w1: "shrinks s u" "sent1 \<longrightarrow> pump_work u < pump_work s"
      using cr pump_work_less [OF _ r] by (auto simp: chunks_result_def)
    show ?thesis
    proof (cases returned1)
      case True
      moreover from this have "sent1" using cr by (simp add: chunks_result_def)
      ultimately have "t = u" "sent" "returned" using p u live by (auto simp: pump_stream_def r_def Let_def)
      with True cr w1 pump_work_shrinks [OF w1(1)] show ?thesis by (auto simp: stream_result_def chunks_result_def shrinks_def)
    next
      case False
      obtain v ended where v: "send_end r u = (v, ended)" by fastforce
      note ve = send_end_work [OF v]
      have uq: "r \<in> set (sendQueue u)" using r w1(1) by (simp add: shrinks_def)
      have w2: "shrinks s v" "sent1 \<or> ended \<longrightarrow> pump_work v < pump_work s"
        using shrinking.R_trans [OF w1(1)] ve pump_work_less [OF _ uq, of v] w1(2) pump_work_shrinks [OF w1(1)]
          pump_work_shrinks [of u v] by (auto intro: less_le_trans le_less_trans)
      have idle: "v = u \<and> idled r s u" if "\<not> (sent1 \<or> ended)" using that ve cr by (simp add: chunks_result_def)
      then have still: "\<not> (sent1 \<or> ended) \<longrightarrow> sendWindow v = sendWindow s \<and> (\<forall>q. q \<noteq> sendQueue s ! i \<longrightarrow> heap v q = heap s q)"
        by (auto simp: idled_def r_def)
      show ?thesis
      proof (cases "outChunks (heap v r) = [] \<and> \<not> endPending (heap v r)")
        case True
        then have "t = unschedule i v" "j = i" "sent = (sent1 \<or> ended)" "\<not> returned"
          using p u v live False by (auto simp: pump_stream_def r_def Let_def)
        then show ?thesis using stream_result_unschedule [OF i nb w2 still] by simp
      next
        case stay: False
        then have t: "t = v" "j = Suc i" "sent = (sent1 \<or> ended)" "\<not> returned"
          using p u v live False by (auto simp: pump_stream_def r_def Let_def)
        have "blocked v r" if "\<not> (sent1 \<or> ended)"
        proof -
          from idle [OF that] have "v = u" and "idled r s u" by simp_all
          then obtain cs where h: "heap v r = (heap s r)\<lparr>outChunks := cs\<rparr>" by (auto simp: idled_def)
          have e: "outChunks (heap v r) = [] \<or> (\<exists>c i cs. outChunks (heap v r) = (c, i) # cs \<and> i < length c \<and>
              min (streamSendWindow (heap v r)) (sendWindow v) \<le> 0)"
            using cr that \<open>v = u\<close> by (simp add: chunks_result_def)
          have "\<not> (outChunks (heap v r) = [] \<and> endPending (heap v r) \<and> \<not> localClosed (heap v r))"
            using ve that \<open>v = u\<close> by simp
          with e stay live show ?thesis unfolding blocked_def Let_def by (auto simp: h)
        qed
        then show ?thesis using stream_result_stay [OF i w2] still t by (simp add: r_def)
      qed
    qed
  qed
qed

lemma pump_pass_progress: "pump_pass n i True s = (t, progress, returned) \<Longrightarrow> progress"
  by (induction n arbitrary: i s) (auto split: if_splits prod.splits)

lemma pump_pass_result:
  "length (sendQueue s) - i \<le> n \<Longrightarrow> 0 < num (remoteSettings s) maxFrameSize \<Longrightarrow>
   pump_pass n i b s = (t, progress, returned) \<Longrightarrow>
   remoteSettings t = remoteSettings s \<and> pump_work t \<le> pump_work s \<and>
   (progress \<and> \<not> b \<longrightarrow> pump_work t < pump_work s) \<and> (returned \<longrightarrow> needDrain (socket t)) \<and>
   (\<not> progress \<longrightarrow> \<not> returned \<and> ((\<forall>r \<in> set (take i (sendQueue s)). blocked s r) \<longrightarrow> (\<forall>r \<in> set (sendQueue t). blocked t r)))"
proof (induction n arbitrary: i b s)
  case 0
  then show ?case by auto
next
  case (Suc n)
  show ?case
  proof (cases "length (sendQueue s) \<le> i")
    case True
    with Suc.prems(3) show ?thesis by auto
  next
    case False
    obtain u j sent ret where u: "pump_stream i s = (u, j, sent, ret)" by (metis prod_cases4)
    from pump_stream_result [OF _ Suc.prems(2) u] False have st: "stream_result i s u j sent ret" by simp
    show ?thesis
    proof (cases ret)
      case True
      then have "t = u" "progress" "returned" using Suc.prems(3) False u by auto
      with True st show ?thesis by (auto simp: stream_result_def)
    next
      case nr: False
      then have body: "pump_pass n j (b \<or> sent) u = (t, progress, returned)" using Suc.prems(3) False u by simp
      have "length (sendQueue u) - j \<le> n" "0 < num (remoteSettings u) maxFrameSize"
        using st nr Suc.prems(1,2) by (auto simp: stream_result_def)
      note ih = Suc.IH [OF this body]
      have "progress" if "b \<or> sent" using body that by (auto dest: pump_pass_progress)
      then have "\<not> progress \<Longrightarrow> \<not> b \<and> \<not> sent" by blast
      moreover have "pump_work u \<le> pump_work s" "sent \<Longrightarrow> pump_work u < pump_work s" "remoteSettings u = remoteSettings s"
        "\<not> sent \<Longrightarrow> \<forall>r \<in> set (take i (sendQueue s)). blocked s r \<Longrightarrow> \<forall>r \<in> set (take j (sendQueue u)). blocked u r"
        using st by (simp_all add: stream_result_def)
      moreover have "progress \<and> \<not> b \<Longrightarrow> pump_work t < pump_work s"
        using ih calculation(2,3) by (cases sent) (simp_all add: less_le_trans le_less_trans)
      ultimately show ?thesis using ih by (simp add: le_trans)
    qed
  qed
qed

lemma pump_loop_result:
  "pump_work s < n \<Longrightarrow> 0 < num (remoteSettings s) maxFrameSize \<Longrightarrow> pump_loop n s = (t, returned) \<Longrightarrow>
   (returned \<longrightarrow> needDrain (socket t)) \<and> (\<not> returned \<longrightarrow> (\<forall>r \<in> set (sendQueue t). blocked t r))"
proof (induction n arbitrary: s)
  case (Suc n)
  show ?case
  proof (cases "sendQueue s = []")
    case True
    with Suc.prems(3) show ?thesis by auto
  next
    case False
    obtain u progress ret where u: "pump_pass (length (sendQueue s)) 0 False s = (u, progress, ret)" by (metis prod_cases3)
    from pump_pass_result [OF _ Suc.prems(2) u] have st:
      "remoteSettings u = remoteSettings s" "progress \<Longrightarrow> pump_work u < pump_work s" "ret \<Longrightarrow> needDrain (socket u)"
      "\<not> progress \<Longrightarrow> \<not> ret \<and> (\<forall>r \<in> set (sendQueue u). blocked u r)" by auto
    have "(t, returned) = (if ret then (u, True) else if progress then pump_loop n u else (u, False))"
      using Suc.prems(3) False u by simp
    then show ?thesis
      using st Suc.prems(1,2) Suc.IH [of u] by (auto split: if_splits)
  qed
qed simp

lemma blocked_reasons:
  "blocked s r \<Longrightarrow> \<not> headersSent (heap s r) \<or>
    outChunks (heap s r) \<noteq> [] \<and> min (streamSendWindow (heap s r)) (sendWindow s) \<le> 0 \<or>
    outChunks (heap s r) = [] \<and> endPending (heap s r) \<and> localClosed (heap s r)"
  by (auto simp: blocked_def Let_def)

lemma blocked_pumping [simp]: "blocked (s\<lparr>pumping := b\<rparr>) r = blocked s r"
  by (simp add: blocked_def)

lemma pump_result:
  assumes "\<not> pumping s" and "\<not> destroyed s" and "socketReady s" and "0 < num (remoteSettings s) maxFrameSize"
  shows "needDrain (socket (pump s)) \<or> (\<forall>r \<in> set (sendQueue (pump s)). blocked (pump s) r)"
proof -
  obtain t returned where t: "pump_loop (pump_fuel s) (s\<lparr>pumping := True\<rparr>) = (t, returned)" by fastforce
  have "pump_work (s\<lparr>pumping := True\<rparr>) < pump_fuel s" by (simp add: pump_work_def pump_fuel_def)
  from pump_loop_result [OF this _ t] assms(4)
  have r: "returned \<Longrightarrow> needDrain (socket t)" "\<not> returned \<Longrightarrow> \<forall>r \<in> set (sendQueue t). blocked t r"
    by simp_all
  have p: "pump s = (if returned then t\<lparr>pumping := False\<rparr> else maybeFinish (t\<lparr>pumping := False\<rparr>))"
    using assms t by (simp add: pump_def)
  have m: "sendQueue (maybeFinish u) = sendQueue u" for u using growing.R_maybeFinish [of u] by (simp add: grows_def)
  consider "returned" | "\<not> returned" "sendQueue t = []" | "\<not> returned" "sendQueue t \<noteq> []" by blast
  then show ?thesis
  proof cases
    case 1
    then show ?thesis using r(1) p by simp
  next
    case 2
    then have "sendQueue (pump s) = []" using p m [of "t\<lparr>pumping := False\<rparr>"] by simp
    then show ?thesis by simp
  next
    case 3
    then have "pump s = t\<lparr>pumping := False\<rparr>" using p by (simp add: maybeFinish_def)
    then show ?thesis using r(2) 3(1) by simp
  qed
qed

subsection \<open>Properties\<close>

text \<open>
  C9: The pump stops for a reason. Its loop ends (the fuel, the bytes, chunks and ends still queued, is
  never used up), and unless the socket asks to wait, every stream left in the queue has no headers
  yet, has a byte to send but no window, or had its end sent before it was asked for.
\<close>

theorem pump_complete:
  assumes "\<not> pumping s" and "\<not> destroyed s" and "socketReady s" and "0 < num (remoteSettings s) maxFrameSize"
  shows "needDrain (socket (pump s)) \<or> (\<forall>r \<in> set (sendQueue (pump s)).
    \<not> headersSent (heap (pump s) r) \<or>
    outChunks (heap (pump s) r) \<noteq> [] \<and> min (streamSendWindow (heap (pump s) r)) (sendWindow (pump s)) \<le> 0 \<or>
    outChunks (heap (pump s) r) = [] \<and> endPending (heap (pump s) r) \<and> localClosed (heap (pump s) r))"
  using pump_result [OF assms] by (rule disj_forward) (assumption, intro ballI, rule blocked_reasons, erule bspec)

definition demo_queued :: session where
  "demo_queued = (blank_session True demo_socket 128)\<lparr>sendQueue := [0],
     heap := \<lambda>_. (new_stream False 1 (blank_session True demo_socket 128))\<lparr>headersSent := True, scheduled := True, outChunks := [([1, 2, 3], 0)]\<rparr>\<rparr>"

theorem pump_complete_witness:
  "needDrain (socket (pump demo_queued)) \<or> list_all (\<lambda>r. \<not> headersSent (heap (pump demo_queued) r) \<or>
      outChunks (heap (pump demo_queued) r) \<noteq> [] \<and>
        min (streamSendWindow (heap (pump demo_queued) r)) (sendWindow (pump demo_queued)) \<le> 0 \<or>
      outChunks (heap (pump demo_queued) r) = [] \<and> endPending (heap (pump demo_queued) r) \<and>
        localClosed (heap (pump demo_queued) r)) (sendQueue (pump demo_queued))"
  unfolding list_all_iff
  by (rule pump_complete)
    (simp_all add: demo_queued_def blank_session_def demo_socket_def initial_remote_def initial_local_def
      DEFAULT_SETTINGS_def num_def)

end
