(* ===== verification/TextNum.thy ===== *)
theory TextNum
  imports Prelude
begin

text \<open>
  Numbers as text and text cut at separators: what \<open>String.prototype.split\<close>, \<open>Array.prototype.join\<close>,
  \<open>Number.prototype.toString\<close> and \<open>parseInt\<close> do, shared by the address, record and key modules.
\<close>

subsection \<open>Splitting and joining\<close>

fun split_on :: "'a \<Rightarrow> 'a list \<Rightarrow> 'a list list" where
  "split_on c [] = [[]]"
| "split_on c (x # xs) =
     (if x = c then [] # split_on c xs
      else (case split_on c xs of [] \<Rightarrow> [[x]] | p # ps \<Rightarrow> (x # p) # ps))"

fun join :: "'a list \<Rightarrow> 'a list list \<Rightarrow> 'a list" where
  "join sep [] = []"
| "join sep [p] = p"
| "join sep (p # q # ps) = p @ sep @ join sep (q # ps)"

lemma split_on_neq_Nil [simp]: "split_on c xs \<noteq> []"
  by (induction c xs rule: split_on.induct) (auto split: list.split)

lemma split_on_append: "c \<notin> set p \<Longrightarrow> split_on c (p @ c # xs) = p # split_on c xs"
  by (induction p) auto

lemma split_on_none: "c \<notin> set p \<Longrightarrow> split_on c p = [p]"
  by (induction p) auto

lemma split_on_join:
  "ps \<noteq> [] \<Longrightarrow> \<forall>p \<in> set ps. c \<notin> set p \<Longrightarrow> split_on c (join [c] ps) = ps"
  by (induction "[c]" ps rule: join.induct) (auto simp: split_on_none split_on_append)

lemma set_join: "set (join sep ps) \<subseteq> (\<Union>p \<in> set ps. set p) \<union> set sep"
  by (induction sep ps rule: join.induct) auto

lemma join_eq_Nil: "\<forall>p \<in> set ps. p \<noteq> [] \<Longrightarrow> join sep ps = [] \<longleftrightarrow> ps = []"
  by (induction sep ps rule: join.induct) auto

subsection \<open>Digits\<close>

text \<open>The digit of a value below 36, lower case.\<close>

definition digit_char :: "nat \<Rightarrow> jschar" where
  "digit_char d = (if d < 10 then word_of_nat (48 + d) else word_of_nat (87 + d))"

text \<open>The value of a digit, either case; 36 or more for other characters.\<close>

definition digit_val :: "jschar \<Rightarrow> nat" where
  "digit_val c =
     (let n = unat c
      in if 48 \<le> n \<and> n \<le> 57 then n - 48 else if 97 \<le> n \<and> n \<le> 122 then n - 87
         else if 65 \<le> n \<and> n \<le> 90 then n - 55 else 36)"

lemma unat_jschar_of_small: "n < 65536 \<Longrightarrow> unat (word_of_nat n :: jschar) = n"
  by (simp add: unat_of_nat)

lemma unat_digit_char: "d < 36 \<Longrightarrow> unat (digit_char d) = (if d < 10 then 48 + d else 87 + d)"
  by (simp add: digit_char_def unat_jschar_of_small del: of_nat_add)

lemma digit_val_char [simp]: "d < 36 \<Longrightarrow> digit_val (digit_char d) = d"
  by (simp add: digit_val_def unat_digit_char Let_def)

function to_base :: "nat \<Rightarrow> nat \<Rightarrow> jsstr" where
  "to_base b n = (if b \<le> 1 \<or> n < b then [digit_char n] else to_base b (n div b) @ [digit_char (n mod b)])"
  by pat_completeness auto
termination
  by (relation "measure snd") auto

declare to_base.simps [simp del]

definition of_base :: "nat \<Rightarrow> jsstr \<Rightarrow> nat" where
  "of_base b s = foldl (\<lambda>a c. a * b + digit_val c) 0 s"

lemma of_base_snoc [simp]: "of_base b (s @ [c]) = of_base b s * b + digit_val c"
  by (simp add: of_base_def)

lemma of_base_to_base: "1 < b \<Longrightarrow> b \<le> 36 \<Longrightarrow> of_base b (to_base b n) = n"
proof (induction b n rule: to_base.induct)
  case (1 b n)
  have "n mod b < b" using 1(2) by simp
  then have "n mod b < 36" using 1(3) by linarith
  with 1 show ?case
    by (subst to_base.simps) (simp add: of_base_def)
qed

lemma to_base_digits: "1 < b \<Longrightarrow> b \<le> 36 \<Longrightarrow> \<forall>c \<in> set (to_base b n). digit_val c < b"
proof (induction b n rule: to_base.induct)
  case (1 b n)
  have "n mod b < b" using 1(2) by simp
  moreover from this have "n mod b < 36" using 1(3) by linarith
  ultimately show ?case using 1 by (subst to_base.simps) auto
qed

lemma length_to_base: "1 < b \<Longrightarrow> n < b ^ Suc k \<Longrightarrow> length (to_base b n) \<le> Suc k"
proof (induction k arbitrary: n)
  case 0
  then show ?case by (subst to_base.simps) simp
next
  case (Suc k)
  then have "n div b < b ^ Suc k" by (simp add: less_mult_imp_div_less mult.commute)
  with Suc show ?case by (subst to_base.simps) simp
qed

lemma to_base_neq_Nil [simp]: "to_base b n \<noteq> []"
  by (subst to_base.simps) simp

text \<open>No leading zero.\<close>

lemma hd_to_base: "1 < b \<Longrightarrow> b \<le> 36 \<Longrightarrow> b \<le> n \<Longrightarrow> digit_val (hd (to_base b n)) \<noteq> 0"
proof (induction b n rule: to_base.induct)
  case (1 b n)
  show ?case
  proof (cases "n div b < b")
    case True
    then have "to_base b (n div b) = [digit_char (n div b)]" by (subst to_base.simps) simp
    with 1 True show ?thesis
      by (subst to_base.simps) (simp add: div_greater_zero_iff)
  next
    case False
    with 1 show ?thesis by (subst to_base.simps) simp
  qed
qed

end
