(* ===== verification/Http2Exchange.thy ===== *)
theory Http2Exchange
  imports Http2Pump TextNum
begin

text \<open>
  What programs ask of a session and of its streams in \<open>quickjs/runtime/node-http2.js\<close>: \<open>request\<close>
  on the client, \<open>respond\<close>, \<open>additionalHeaders\<close>, \<open>pushStream\<close> and the default response on the
  server, with \<open>end\<close> of \<open>node-stream.js\<close> as far as they use it. The lemmas follow what goes out (\<open>puts\<close>)
  and what is told (\<open>grows\<close>), and compose it with the frame handlers of the other side.
\<close>

subsection \<open>The end of a program's writing\<close>

text \<open>
  \<open>end()\<close> without a chunk: the first call runs \<open>_final\<close> at once, unless a write is still going on
  (\<open>busy\<close>); then \<open>_final\<close> is run when that write is done.
\<close>

definition streamEnd :: "bool \<Rightarrow> nat \<Rightarrow> session \<Rightarrow> session" where
  "streamEnd busy r s =
     (if writeEnded (heap s r) then s
      else let s = upd r (\<lambda>st. st\<lparr>writeEnded := True\<rparr>) s
           in if busy \<or> streamDestroyed (heap s r) then s else streamFinal r s)"

subsection \<open>Requests\<close>

text \<open>What a session knows of its connection: \<open>_secure\<close>, \<open>encrypted\<close> and the host of \<open>_authority\<close>.\<close>

record h2config =
  secure :: bool
  encrypted :: bool
  host :: jsstr

definition has_header :: "jsstr \<Rightarrow> header list \<Rightarrow> bool" where
  "has_header name list \<longleftrightarrow> list_ex (\<lambda>h. fst h = name) list"

definition first_value :: "jsstr \<Rightarrow> header list \<Rightarrow> jsstr" where
  "first_value name list = (case find (\<lambda>h. fst h = name) list of Some h \<Rightarrow> fst (snd h) | None \<Rightarrow> [])"

definition pseudo_order :: "jsstr \<Rightarrow> nat" where
  "pseudo_order name =
     (if name = js '':method'' then 0 else if name = js '':scheme'' then 1
      else if name = js '':authority'' then 2 else if name = js '':path'' then 3
      else if name = js '':protocol'' then 4 else 5)"

definition request_pseudo :: "jsstr list" where
  "request_pseudo = map js ['':method'', '':path'', '':scheme'', '':authority'', '':protocol'']"

text \<open>The defaults of a request that is not a \<open>CONNECT\<close>.\<close>

definition request_defaults :: "h2config \<Rightarrow> header list \<Rightarrow> header list" where
  "request_defaults cfg list =
     (let list = (if has_header (js '':path'') list then list else list @ [(js '':path'', js ''/'', False)]);
          list = (if has_header (js '':scheme'') list then list
                  else list @ [(js '':scheme'', if secure cfg then js ''https'' else js ''http'', False)])
      in if has_header (js '':authority'') list \<or> has_header (js ''host'') list then list
         else list @ [(js '':authority'', host cfg, False)])"

definition request_targets :: "h2config \<Rightarrow> header list \<Rightarrow> stream_error + header list" where
  "request_targets cfg list =
     (if first_value (js '':method'') list = js ''CONNECT'' then
        (if \<not> has_header (js '':authority'') list then Inl ERR_HTTP2_CONNECT_AUTHORITY
         else if has_header (js '':scheme'') list then Inl ERR_HTTP2_CONNECT_SCHEME
         else if has_header (js '':path'') list then Inl ERR_HTTP2_CONNECT_PATH
         else Inr list)
      else Inr (request_defaults cfg list))"

definition request_list ::
  "h2config \<Rightarrow> h2env \<Rightarrow> jsstr list \<Rightarrow> (jsstr \<times> hinput_value) list \<Rightarrow> stream_error + jsstr \<times> header list" where
  "request_list cfg env sensitive headers =
     (case headersToList (toLowerCase env) True sensitive headers of
        Inl e \<Rightarrow> Inl (HeaderError e)
      | Inr list \<Rightarrow>
          let list = (if has_header (js '':method'') list then list else (js '':method'', js ''GET'', False) # list)
          in bindE (request_targets cfg list) (\<lambda>list.
               case find (\<lambda>h. is_pseudo (fst h) \<and> fst h \<notin> set request_pseudo) list of
                 Some h \<Rightarrow> Inl (ERR_HTTP2_INVALID_PSEUDOHEADER (fst h))
               | None \<Rightarrow> Inr (first_value (js '':method'') list,
                   sort_key (\<lambda>h. pseudo_order (fst h)) (filter (\<lambda>h. is_pseudo (fst h)) list)
                     @ filter (\<lambda>h. \<not> is_pseudo (fst h)) list)))"

text \<open>
  \<open>Inr None\<close> is the stream outside the session that a session on its way out hands back, to fail on
  the next tick; \<open>Inr (Some r)\<close> is the stream opened. An abort signal is not modelled.
\<close>

definition session_request ::
  "h2config \<Rightarrow> h2env \<Rightarrow> jsstr list \<Rightarrow> (jsstr \<times> hinput_value) list \<Rightarrow> bool option \<Rightarrow> bool \<Rightarrow> session \<Rightarrow>
     session \<times> (stream_error + nat option)" where
  "session_request cfg env sensitive headers endOption waitTrailers s =
     (if \<not> client s then (s, Inl ERR_HTTP2_INVALID_SESSION)
      else if destroyed s \<or> goawayReceived s \<noteq> None \<or> closing s then (s, Inr None)
      else case request_list cfg env sensitive headers of
        Inl e \<Rightarrow> (s, Inl e)
      | Inr (method, ordered) \<Rightarrow>
          let noPayload = (method = js ''GET'' \<or> method = js ''HEAD'' \<or> method = js ''DELETE'');
              endStream = (case endOption of Some b \<Rightarrow> b | None \<Rightarrow> noPayload);
              i = nextStreamId s
          in if 2147483647 < i then (s, Inl ERR_HTTP2_OUT_OF_STREAMS)
             else let s = s\<lparr>nextStreamId := i + 2\<rparr>;
                      (s, r) = alloc ((new_stream False i s)\<lparr>requestHead := (method = js ''HEAD''),
                                 headersSent := True, waitForTrailers := waitTrailers\<rparr>) s;
                      s = s\<lparr>streams := set_prop i r (streams s)\<rparr>;
                      s = sendHeaderBlock i ordered (if endStream \<and> \<not> waitTrailers then FLAG_END_STREAM else 0) [] s
                  in if \<not> endStream then (s, Inr (Some r))
                     else if waitTrailers then (streamEnd False r s, Inr (Some r))
                     else let s = streamEnd False r (upd r (\<lambda>st. st\<lparr>localClosed := True\<rparr>) s)
                          in (s\<lparr>sendQueue := filter (\<lambda>q. q \<noteq> r) (sendQueue s)\<rparr>, Inr (Some r)))"

subsection \<open>Responses\<close>

text \<open>What the server's listener notes of a request that has arrived.\<close>

definition note_request :: "nat \<Rightarrow> header list \<Rightarrow> session \<Rightarrow> session" where
  "note_request r list =
     upd r (\<lambda>st. st\<lparr>requestHead := (map_of (fst (headersToObject list)) (js '':method'') = Some (HStr (js ''HEAD''))),
        requestAuthority := (case map_of (fst (headersToObject list)) (js '':authority'') of
           Some (HStr a) \<Rightarrow> a | _ \<Rightarrow> [])\<rparr>)"

fun set_status :: "jsstr \<Rightarrow> header list \<Rightarrow> header list" where
  "set_status text [] = []"
| "set_status text (h # hs) =
     (if fst h = js '':status'' then (fst h, text, snd (snd h)) # hs else h # set_status text hs)"

text \<open>With more than one \<open>:status\<close> the comparison is not an order, and their order is the engine's.\<close>

definition status_first :: "header list \<Rightarrow> header list" where
  "status_first list = filter (\<lambda>h. fst h = js '':status'') list @ filter (\<lambda>h. fst h \<noteq> js '':status'') list"

definition response_list ::
  "h2env \<Rightarrow> jsstr list \<Rightarrow> (jsstr \<times> hinput_value) list \<Rightarrow> stream_error + nat \<times> header list" where
  "response_list env sensitive headers =
     (case headersToList (toLowerCase env) True sensitive headers of
        Inl e \<Rightarrow> Inl (HeaderError e)
      | Inr list \<Rightarrow>
          (case find (\<lambda>h. is_pseudo (fst h) \<and> fst h \<noteq> js '':status'') list of
             Some h \<Rightarrow> Inl (ERR_HTTP2_INVALID_PSEUDOHEADER (fst h))
           | None \<Rightarrow>
               let list = (if has_header (js '':status'') list then list else (js '':status'', js ''200'', False) # list);
                   text = first_value (js '':status'') list
               in case toNumber env text of
                    Finite n whole \<Rightarrow>
                      if \<not> whole \<or> n < 100 \<or> 999 < n then Inl (ERR_HTTP2_STATUS_INVALID text)
                      else if n < 200 then Inl ERR_HTTP2_INFO_STATUS_NOT_ALLOWED
                      else Inr (nat n, status_first (set_status (to_base 10 (nat n)) list))
                  | _ \<Rightarrow> Inl (ERR_HTTP2_STATUS_INVALID text)))"

definition payloadless :: "nat \<Rightarrow> h2stream \<Rightarrow> bool" where
  "payloadless status st \<longleftrightarrow> status = 204 \<or> status = 205 \<or> status = 304 \<or> requestHead st"

definition respond ::
  "h2env \<Rightarrow> bool \<Rightarrow> nat \<Rightarrow> jsstr list \<Rightarrow> (jsstr \<times> hinput_value) list \<Rightarrow> bool \<Rightarrow> bool \<Rightarrow> session \<Rightarrow>
     session \<times> stream_error option" where
  "respond env busy r sensitive headers endOption waitTrailers s =
     (if streamDestroyed (heap s r) \<or> closedByProtocol (heap s r) then (s, Some ERR_HTTP2_INVALID_STREAM)
      else if headersSent (heap s r) then (s, Some ERR_HTTP2_HEADERS_SENT)
      else case response_list env sensitive headers of
        Inl e \<Rightarrow> (s, Some e)
      | Inr (status, list) \<Rightarrow>
          let endStream = (endOption \<or> payloadless status (heap s r));
              s = upd r (\<lambda>st. st\<lparr>waitForTrailers := waitTrailers, headersSent := True\<rparr>) s;
              s = sendHeaderBlock (sid (heap s r)) list (if endStream \<and> \<not> waitTrailers then FLAG_END_STREAM else 0) [] s
          in if \<not> endStream then (pump s, None)
             else if waitTrailers then (streamEnd busy r s, None)
             else let s = upd r (\<lambda>st. st\<lparr>localClosed := True, endAfterHeaders := True\<rparr>) s;
                      s = s\<lparr>sendQueue := filter (\<lambda>q. q \<noteq> r) (sendQueue s)\<rparr>
                  in (pump (maybeClosed r (streamEnd busy r s)), None))"

definition defaultRespond :: "h2env \<Rightarrow> bool \<Rightarrow> nat \<Rightarrow> session \<Rightarrow> session \<times> stream_error option" where
  "defaultRespond env busy r s =
     (if headersSent (heap s r) \<or> \<not> isServer (heap s r) then (s, None) else respond env busy r [] [] False False s)"

text \<open>\<open>_write\<close> and \<open>_final\<close> in full: a server stream answers first.\<close>

definition serverWrite :: "h2env \<Rightarrow> nat \<Rightarrow> byte list \<Rightarrow> session \<Rightarrow> session \<times> stream_error option" where
  "serverWrite env r chunk s =
     (if closedByProtocol (heap s r) then (s, Some ERR_HTTP2_INVALID_STREAM)
      else if localClosed (heap s r) then (s, Some ERR_STREAM_WRITE_AFTER_END)
      else case defaultRespond env True r s of
        (s, Some e) \<Rightarrow> (s, Some e)
      | (s, None) \<Rightarrow> (queueData r chunk s, None))"

definition serverFinal :: "h2env \<Rightarrow> nat \<Rightarrow> session \<Rightarrow> session \<times> stream_error option" where
  "serverFinal env r s =
     (if closedByProtocol (heap s r) \<or> localClosed (heap s r) then (emit (EvEndDone (sid (heap s r))) s, None)
      else case defaultRespond env False r s of
        (s, Some e) \<Rightarrow> (s, Some e)
      | (s, None) \<Rightarrow> (queueEnd r s, None))"

definition additionalHeaders ::
  "h2env \<Rightarrow> nat \<Rightarrow> jsstr list \<Rightarrow> (jsstr \<times> hinput_value) list \<Rightarrow> session \<Rightarrow> session \<times> stream_error option" where
  "additionalHeaders env r sensitive headers s =
     (if streamDestroyed (heap s r) \<or> closedByProtocol (heap s r) then (s, Some ERR_HTTP2_INVALID_STREAM)
      else if headersSent (heap s r) then (s, Some ERR_HTTP2_HEADERS_AFTER_RESPOND)
      else case headersToList (toLowerCase env) True sensitive headers of
        Inl e \<Rightarrow> (s, Some (HeaderError e))
      | Inr list \<Rightarrow>
          if \<not> has_header (js '':status'') list then (s, Some (ERR_HTTP2_INVALID_PSEUDOHEADER (js '':status'')))
          else let code = toNumber env (first_value (js '':status'') list)
               in if code = Finite 101 True then (s, Some ERR_HTTP2_STATUS_101)
                  else if (case code of Finite n whole \<Rightarrow> n < 100 \<or> 200 \<le> n | Infinite neg \<Rightarrow> True | NaN \<Rightarrow> False)
                  then (s, Some (ERR_HTTP2_INVALID_INFO_STATUS code))
                  else (sendHeaderBlock (sid (heap s r)) list 0 [] s, None))"

subsection \<open>Pushes\<close>

definition push_list :: "h2config \<Rightarrow> jsstr \<Rightarrow> header list \<Rightarrow> header list" where
  "push_list cfg authority list =
     (let list = (if has_header (js '':path'') list then list else list @ [(js '':path'', js ''/'', False)]);
          list = (if has_header (js '':method'') list then list else (js '':method'', js ''GET'', False) # list);
          list = (if has_header (js '':scheme'') list then list
                  else list @ [(js '':scheme'', if encrypted cfg then js ''https'' else js ''http'', False)])
      in if has_header (js '':authority'') list \<or> authority = [] then list
         else list @ [(js '':authority'', authority, False)])"

text \<open>The stream promised is what the callback gets, a microtask later and after \<open>push(null)\<close>.\<close>

definition pushStream ::
  "h2config \<Rightarrow> h2env \<Rightarrow> nat \<Rightarrow> jsstr list \<Rightarrow> (jsstr \<times> hinput_value) list \<Rightarrow> session \<Rightarrow>
     session \<times> (stream_error + nat)" where
  "pushStream cfg env r sensitive headers s =
     (if \<not> flag (remoteSettings s) enablePush then (s, Inl ERR_HTTP2_PUSH_DISABLED)
      else if streamDestroyed (heap s r) \<or> closedByProtocol (heap s r) then (s, Inl ERR_HTTP2_INVALID_STREAM)
      else case headersToList (toLowerCase env) True sensitive headers of
        Inl e \<Rightarrow> (s, Inl (HeaderError e))
      | Inr list \<Rightarrow>
          let list = push_list cfg (requestAuthority (heap s r)) list;
              i = nextStreamId s;
              s = s\<lparr>nextStreamId := i + 2\<rparr>;
              (s, p) = alloc ((new_stream True i s)\<lparr>remoteClosed := True\<rparr>) s;
              s = s\<lparr>streams := set_prop i p (streams s)\<rparr>;
              (block, e) = hpack_encode textEncoder (encoder s) list;
              s = s\<lparr>encoder := e\<rparr>
          in if 4294967296 \<le> i then (s, Inl ERR_OUT_OF_RANGE)
             else (sendFrame FRAME_PUSH_PROMISE FLAG_END_HEADERS (sid (heap s r)) (be_bytes 4 i @ block) s, Inr p))"

subsection \<open>Header blocks go out\<close>

lemma fold_writeRaw:
  "\<not> destroyed s \<Longrightarrow> fold writeRaw fs s = (if fs = [] then s else s\<lparr>outgoing := outgoing s @ fs, flushScheduled := True\<rparr>)"
  by (induction fs arbitrary: s) (auto simp: writeRaw_def)

lemma header_frames_neq_Nil [simp]: "header_frames mx i flags p block \<noteq> []"
  by (simp add: header_frames_def Let_def)

lemma sendHeaderBlock_out:
  assumes "\<not> destroyed s" and "hpack_encode textEncoder (encoder s) list = (block, e)"
  shows "sendHeaderBlock i list flags [] s =
    s\<lparr>encoder := e, outgoing := outgoing s @ header_frames (nat (num (remoteSettings s) maxFrameSize)) i flags [] block,
      flushScheduled := True\<rparr>"
  using assms by (simp add: sendHeaderBlock_def fold_writeRaw)

lemma puts_upd_first: "puts bs (upd r f s) t \<Longrightarrow> puts bs s t"
  using puts_silent [OF puts_upd] .

subsection \<open>The list of a request\<close>

text \<open>What \<open>toLowerCase\<close> does to text without capitals.\<close>

definition lower_keeps :: "(jsstr \<Rightarrow> jsstr) \<Rightarrow> bool" where
  "lower_keeps lower \<longleftrightarrow> (\<forall>s. (\<forall>c \<in> set s. c < 128 \<and> \<not> (65 \<le> c \<and> c \<le> 90)) \<longrightarrow> lower s = s)"

lemma token_char_lower: "token_char c \<Longrightarrow> c < 128 \<and> \<not> (65 \<le> c \<and> c \<le> 90)"
proof -
  assume "token_char c"
  then have "c \<in> set (js ''!#$%&*+.^_`|~-'') \<or> c = 39 \<or> (48 \<le> c \<and> c \<le> 57) \<or> (97 \<le> c \<and> c \<le> 122)"
    by (auto simp: token_char_def js_def of_char_def)
  moreover have "set (js ''!#$%&*+.^_`|~-'') = {33, 35, 36, 37, 38, 42, 43, 46, 94, 95, 96, 124, 126, 45}"
    by (simp add: js_def)
  ultimately show ?thesis by (auto simp: word_less_nat_alt word_le_nat_alt)
qed

lemma lower_valid_name: "lower_keeps lower \<Longrightarrow> valid_name n \<Longrightarrow> lower n = n"
proof -
  assume k: "lower_keeps lower" and v: "valid_name n"
  have "c < 128 \<and> \<not> (65 \<le> c \<and> c \<le> 90)" if "c \<in> set n" for c
  proof (cases "is_pseudo n")
    case True
    then obtain cs where n: "n = 58 # cs" by (cases n) (auto simp: is_pseudo_def)
    with True v have "list_all token_char cs" by (simp add: valid_name_def Let_def)
    with that n token_char_lower show ?thesis by (auto simp: list_all_iff word_less_nat_alt word_le_nat_alt)
  next
    case False
    with v that token_char_lower show ?thesis by (auto simp: valid_name_def list_all_iff Let_def)
  qed
  with k show ?thesis by (auto simp: lower_keeps_def)
qed

lemma has_header_iff: "has_header n hs \<longleftrightarrow> n \<in> fst ` set hs"
  by (auto simp: has_header_def list_ex_iff)

lemma first_value_values: "has_header n hs \<Longrightarrow> first_value n hs = hd (values_of n hs)"
  by (induction hs) (auto simp: has_header_def first_value_def values_of_def)

lemma names_one_header:
  assumes "has_header n hs" and "\<forall>h \<in> set hs. is_pseudo (fst h) \<longrightarrow> fst (snd h) \<noteq> []" and "is_pseudo n"
  shows "names_one n hs"
proof -
  obtain h rest where "filter (\<lambda>h. fst h = n) hs = h # rest"
    using assms(1) by (cases "filter (\<lambda>h. fst h = n) hs") (auto simp: has_header_iff filter_empty_conv)
  moreover from this have "h \<in> set hs" "fst h = n" by (auto simp: filter_eq_Cons_iff)
  ultimately show ?thesis using assms(2,3) by (auto simp: names_one_def values_of_def)
qed

definition sendable_name :: "header \<Rightarrow> bool" where
  "sendable_name h \<longleftrightarrow> valid_name (fst h) \<and> fst h \<notin> set CONNECTION_HEADERS \<and>
     (fst h = js ''te'' \<longrightarrow> fst (snd h) = js ''trailers'')"

lemma sendable_defaults:
  "sendable_name (js '':method'', v, b)" "sendable_name (js '':path'', v, b)" "sendable_name (js '':scheme'', v, b)"
  "sendable_name (js '':authority'', v, b)" "sendable_name (js '':status'', v, b)"
  by (simp_all add: sendable_name_def valid_name_def is_pseudo_def js_def CONNECTION_HEADERS_def token_char_def Let_def)

lemma sendable_list:
  assumes "headersToList lower allow sensitive inputs = Inr hs"
  shows "\<forall>h \<in> set hs. sendable_name h"
  using headersToList_ok [OF assms] headersToList_te [OF assms] by (auto simp: sendable_name_def list_ok_def)

text \<open>A header added at the end where there is none of its name.\<close>

definition with_default :: "bool \<Rightarrow> jsstr \<Rightarrow> jsstr \<Rightarrow> header list \<Rightarrow> header list" where
  "with_default c n v list = (if c then list else list @ [(n, v, False)])"

lemma with_default_ok:
  assumes "\<forall>h \<in> set list. sendable_name h" and "sendable_name (n, v, False)"
  shows "\<forall>h \<in> set (with_default c n v list). sendable_name h"
  using assms by (auto simp: with_default_def)

lemma with_default_more:
  "n \<noteq> m \<Longrightarrow> \<exists>more. with_default c n v list = list @ more \<and> \<not> has_header m more"
  by (auto simp: with_default_def has_header_def)

lemma with_default_has:
  "has_header m list \<Longrightarrow> has_header m (with_default c n v list)" "has_header n (with_default (has_header n list) n v list)"
  by (auto simp: with_default_def has_header_def)

lemma request_targets_ok:
  assumes t: "request_targets cfg list = Inr list'" and s: "\<forall>h \<in> set list. sendable_name h"
  shows "(\<forall>h \<in> set list'. sendable_name h) \<and> (\<exists>more. list' = list @ more \<and> \<not> has_header (js '':method'') more) \<and>
    (first_value (js '':method'') list = js ''CONNECT'' \<or>
     has_header (js '':path'') list' \<and> has_header (js '':scheme'') list')"
proof (cases "first_value (js '':method'') list = js ''CONNECT''")
  case True
  with t have "list' = list" by (auto simp: request_targets_def split: if_splits)
  with s True show ?thesis by (auto simp: has_header_def)
next
  case False
  define l1 where "l1 = with_default (has_header (js '':path'') list) (js '':path'') (js ''/'') list"
  define l2 where "l2 = with_default (has_header (js '':scheme'') l1) (js '':scheme'')
    (if secure cfg then js ''https'' else js ''http'') l1"
  have l': "list' = with_default (has_header (js '':authority'') l2 \<or> has_header (js ''host'') l2) (js '':authority'') (host cfg) l2"
    using t False by (simp add: request_targets_def request_defaults_def Let_def with_default_def l2_def l1_def)
  have ne: "js '':path'' \<noteq> js '':method''" "js '':scheme'' \<noteq> js '':method''" "js '':authority'' \<noteq> js '':method''"
    by (simp_all add: js_def)
  obtain m1 m2 m3 where "l1 = list @ m1" "\<not> has_header (js '':method'') m1" "l2 = l1 @ m2"
    "\<not> has_header (js '':method'') m2" "list' = l2 @ m3" "\<not> has_header (js '':method'') m3"
    using with_default_more [OF ne(1)] with_default_more [OF ne(2)] with_default_more [OF ne(3)] l1_def l2_def l' by metis
  then have "list' = list @ (m1 @ m2 @ m3) \<and> \<not> has_header (js '':method'') (m1 @ m2 @ m3)"
    by (simp add: has_header_def)
  moreover have "\<forall>h \<in> set list'. sendable_name h"
    unfolding l' l2_def l1_def by (intro with_default_ok s sendable_defaults)
  moreover have "has_header (js '':path'') list'" "has_header (js '':scheme'') list'"
    unfolding l' using with_default_has l1_def l2_def by simp_all
  ultimately show ?thesis by blast
qed

lemma values_of_append: "values_of n (xs @ ys) = values_of n xs @ values_of n ys"
  by (simp add: values_of_def)

lemma values_of_empty: "values_of n hs = [] \<longleftrightarrow> \<not> has_header n hs"
  by (simp add: has_header_def list_ex_iff values_of_def filter_empty_conv)

lemma values_of_ordered:
  assumes "is_pseudo n" and "n \<in> set request_pseudo" 
  shows "values_of n (sort_key (\<lambda>h. pseudo_order (fst h)) (filter (\<lambda>h. is_pseudo (fst h)) hs)
     @ filter (\<lambda>h. \<not> is_pseudo (fst h)) hs) = values_of n hs"
proof -
  have eq: "fst h = n \<longleftrightarrow> pseudo_order (fst h) = pseudo_order n" for h :: header
    using assms(2) by (auto simp: request_pseudo_def pseudo_order_def js_def)
  have "filter (\<lambda>h. fst h = n) (sort_key (\<lambda>h. pseudo_order (fst h)) (filter (\<lambda>h. is_pseudo (fst h)) hs)) =
      filter (\<lambda>h. fst h = n) (filter (\<lambda>h. is_pseudo (fst h)) hs)"
    unfolding eq by (rule sort_key_stable)
  moreover have "filter (\<lambda>h. fst h = n) (filter (\<lambda>h. is_pseudo (fst h)) hs) = filter (\<lambda>h. fst h = n) hs"
    unfolding filter_filter using assms(1) by (intro filter_cong) auto
  moreover have "filter (\<lambda>h. fst h = n) (filter (\<lambda>h. \<not> is_pseudo (fst h)) hs) = []"
    using assms(1) by (auto simp: filter_empty_conv)
  ultimately show ?thesis by (simp add: values_of_def)
qed

lemma request_list_accepted:
  assumes req: "request_list cfg env sensitive headers = Inr (method, hs)" and low: "lower_keeps (toLowerCase env)"
    and ne: "\<forall>h \<in> set hs. is_pseudo (fst h) \<longrightarrow> fst (snd h) \<noteq> []" and te: "length (values_of (js ''te'') hs) \<le> 1"
  shows "validateRequestHeaders (toLowerCase env) (fst (headersToObject hs)) = None"
proof -
  obtain list0 list1 list2 where l: "headersToList (toLowerCase env) True sensitive headers = Inr list0"
    "list1 = (if has_header (js '':method'') list0 then list0 else (js '':method'', js ''GET'', False) # list0)"
    "request_targets cfg list1 = Inr list2" "method = first_value (js '':method'') list2"
    "hs = sort_key (\<lambda>h. pseudo_order (fst h)) (filter (\<lambda>h. is_pseudo (fst h)) list2)
       @ filter (\<lambda>h. \<not> is_pseudo (fst h)) list2"
    using req by (auto simp: request_list_def Let_def bindE_eq_Inr split: sum.splits option.splits)
  have set: "set hs = set list2" by (auto simp: l(5))
  have "\<forall>h \<in> set list1. sendable_name h"
    using sendable_list [OF l(1)] by (auto simp: l(2) sendable_defaults)
  from request_targets_ok [OF l(3) this] obtain more where ok: "\<forall>h \<in> set list2. sendable_name h"
    "list2 = list1 @ more" "first_value (js '':method'') list1 = js ''CONNECT'' \<or>
     has_header (js '':path'') list2 \<and> has_header (js '':scheme'') list2" by blast
  have m1: "has_header (js '':method'') list1" by (auto simp: l(2) has_header_iff)
  have p: "is_pseudo (js '':method'')" "js '':method'' \<in> set request_pseudo" "is_pseudo (js '':path'')" "is_pseudo (js '':scheme'')"
    by (simp_all add: is_pseudo_def js_def request_pseudo_def)
  have one: "names_one n hs" if "has_header n list2" "is_pseudo n" for n
    using that ne set by (intro names_one_header) (auto simp: has_header_iff)
  have "values_of (js '':method'') list1 \<noteq> []"
    using m1 by (simp add: values_of_empty)
  moreover have "values_of (js '':method'') hs = values_of (js '':method'') list2"
    unfolding l(5) by (rule values_of_ordered [OF p(1,2)])
  ultimately have hd: "hd (values_of (js '':method'') hs) = first_value (js '':method'') list1"
    using first_value_values [OF m1] by (simp add: ok(2) values_of_append)
  show ?thesis
  proof (rule list_accepted)
    show "\<forall>h \<in> set hs. toLowerCase env (fst h) = fst h \<and> fst h \<notin> set CONNECTION_HEADERS \<and>
        (fst h = js ''te'' \<longrightarrow> fst (snd h) = js ''trailers'')"
      using ok(1) lower_valid_name [OF low] by (auto simp: set sendable_name_def)
    show "names_one (js '':method'') hs"
      using m1 p(1) by (intro one) (simp_all only: ok(2) has_header_iff set_append image_Un Un_iff simp_thms)
    show "hd (values_of (js '':method'') hs) = js ''CONNECT'' \<or> names_one (js '':path'') hs \<and> names_one (js '':scheme'') hs"
      using ok(3) one p(3,4) by (auto simp: hd)
  qed (rule te)
qed

subsection \<open>A request is sent\<close>

lemma alloc_fields [simp]:
  "alloc st s = (s\<lparr>heap := (heap s)(nextRef s := st), nextRef := Suc (nextRef s)\<rparr>, nextRef s)"
  by (simp add: alloc_def)

lemma session_request_sent:
  assumes "session_request cfg env sensitive headers endOption False c = (c', Inr (Some r))" and "\<not> destroyed c"
    and "request_list cfg env sensitive headers = Inr (method, hs)"
    and "hpack_encode textEncoder (encoder c) hs = (block, e')"
  shows "\<exists>flags. (flags = 0 \<or> flags = FLAG_END_STREAM) \<and> (flags = FLAG_END_STREAM \<longleftrightarrow>
      (case endOption of Some b \<Rightarrow> b | None \<Rightarrow> method = js ''GET'' \<or> method = js ''HEAD'' \<or> method = js ''DELETE'')) \<and>
    outgoing c' = outgoing c @ header_frames (nat (num (remoteSettings c) maxFrameSize)) (nextStreamId c) flags [] block \<and>
    socket c' = socket c \<and> encoder c' = e' \<and> nextStreamId c' = nextStreamId c + 2 \<and>
    find_stream c' (nextStreamId c) = Some r \<and> nextStreamId c < 2147483648"
proof -
  define fin where "fin = (case endOption of Some b \<Rightarrow> b | None \<Rightarrow> method = js ''GET'' \<or> method = js ''HEAD'' \<or> method = js ''DELETE'')"
  let ?fl = "if fin then FLAG_END_STREAM else 0 :: byte"
  have "FLAG_END_STREAM \<noteq> 0" by (simp add: FLAG_END_STREAM_def)
  moreover have "outgoing c' = outgoing c @ header_frames (nat (num (remoteSettings c) maxFrameSize)) (nextStreamId c) ?fl [] block \<and>
    socket c' = socket c \<and> encoder c' = e' \<and> nextStreamId c' = nextStreamId c + 2 \<and>
    find_stream c' (nextStreamId c) = Some r \<and> nextStreamId c < 2147483648"
    using assms
    by (auto simp: session_request_def Let_def fin_def [symmetric] sendHeaderBlock_out streamEnd_def streamFinal_def
        emit_def upd_def find_stream_def map_of_set_prop split: if_splits)
  ultimately show ?thesis by (intro exI [of _ ?fl]) (auto simp: fin_def [symmetric])
qed

subsection \<open>A response is sent\<close>

lemma grows_upd: "grows s (upd r f s)"
  by (simp add: grows_def upd_def)

lemma grows_same:
  "encoder t = encoder s \<Longrightarrow> decoder t = decoder s \<Longrightarrow> sendQueue t = sendQueue s \<Longrightarrow> events t = events s \<Longrightarrow> grows s t"
  by (simp add: grows_def)

lemma grows_streamEnd: "localClosed (heap s r) \<Longrightarrow> grows s (streamEnd busy r s)"
  using growing.R_trans [OF grows_upd growing.R_emit] grows_upd growing.R_refl
  by (simp add: streamEnd_def streamFinal_def heap_upd Let_def)

lemma puts_streamEnd: "localClosed (heap s r) \<Longrightarrow> puts [] s (streamEnd busy r s)"
  by (rule puts_same) (simp_all add: streamEnd_def streamFinal_def heap_upd Let_def)

text \<open>With nothing queued the pump only looks whether the session is done.\<close>

lemma pump_idle: "sendQueue s = [] \<Longrightarrow> grows s (pump s) \<and> puts [] s (pump s)"
proof -
  assume q: "sendQueue s = []"
  let ?t = "s\<lparr>pumping := False\<rparr>"
  have "pump s = s \<or> pump s = maybeFinish ?t"
    using q by (simp add: pump_def pump_fuel_def)
  moreover have "grows s ?t" "puts [] s ?t" by (simp_all add: grows_same puts_same)
  then have "grows s (maybeFinish ?t)" "puts [] s (maybeFinish ?t)"
    using growing.R_trans [OF _ growing.R_maybeFinish] puts_silent [OF _ puts_maybeFinish] by blast+
  ultimately show ?thesis by (elim disjE) (simp_all only: growing.R_refl puts_refl simp_thms)
qed

lemma respond_sent:
  assumes "respond env busy r sensitive headers endOption False s = (s', None)"
    and "response_list env sensitive headers = Inr (status, hs)"
    and "\<not> destroyed s" and "sendQueue s = []" and "hpack_encode textEncoder (encoder s) hs = (block, e')"
  shows "encoder s' = e' \<and> puts (concat (map item_bytes (header_frames (nat (num (remoteSettings s) maxFrameSize))
    (sid (heap s r)) (if endOption \<or> payloadless status (heap s r) then FLAG_END_STREAM else 0) [] block))) s s'"
proof -
  define fin where "fin = (endOption \<or> payloadless status (heap s r))"
  define fs where "fs = header_frames (nat (num (remoteSettings s) maxFrameSize)) (sid (heap s r))
    (if fin then FLAG_END_STREAM else 0) [] block"
  let ?h = "upd r (\<lambda>st. st\<lparr>waitForTrailers := False, headersSent := True\<rparr>) s"
  let ?t = "sendHeaderBlock (sid (heap s r)) hs (if fin then FLAG_END_STREAM else 0) [] ?h"
  let ?u = "(upd r (\<lambda>st. st\<lparr>localClosed := True, endAfterHeaders := True\<rparr>) ?t)\<lparr>sendQueue := []\<rparr>"
  have h: "\<not> destroyed ?h" "encoder ?h = encoder s" "remoteSettings ?h = remoteSettings s" "sendQueue ?h = []"
    using assms(3,4) by (simp_all add: upd_def)
  note t = sendHeaderBlock_out [OF h(1), unfolded h(2,3), OF assms(5)]
  have t2: "puts (concat (map item_bytes fs)) s ?t" "encoder ?t = e'" "sendQueue ?t = []"
    using h(4) by (simp_all add: t fs_def puts_def sock_open_def out_bytes_def)
  have "s' = (if fin then pump (maybeClosed r (streamEnd busy r ?u)) else pump ?t)"
    using assms(1,2) t2(3) by (auto simp: respond_def fin_def heap_upd upd_def Let_def split: if_splits)
  moreover have "encoder (pump ?t) = e' \<and> puts (concat (map item_bytes fs)) s (pump ?t)"
    using pump_idle [OF t2(3)] t2 puts_trans [OF t2(1), of "[]"] by (simp add: grows_def)
  moreover have "encoder (pump (maybeClosed r (streamEnd busy r ?u))) = e' \<and>
      puts (concat (map item_bytes fs)) s (pump (maybeClosed r (streamEnd busy r ?u)))"
  proof -
    have u: "localClosed (heap ?u r)" "encoder ?u = e'" "puts [] ?t ?u"
      using t2(2) by (simp_all add: heap_upd upd_def puts_same)
    have g: "grows ?u (maybeClosed r (streamEnd busy r ?u))"
      by (rule growing.R_trans [OF grows_streamEnd [OF u(1)] growing.R_maybeClosed])
    have p: "puts (concat (map item_bytes fs)) s (maybeClosed r (streamEnd busy r ?u))"
      using puts_trans [OF t2(1) puts_silent [OF u(3) puts_silent [OF puts_streamEnd [OF u(1)] puts_maybeClosed]]]
      by simp
    have "sendQueue (maybeClosed r (streamEnd busy r ?u)) = []" using g by (simp add: grows_def)
    from pump_idle [OF this] g u(2) puts_trans [OF p, of "[]"] show ?thesis by (simp add: grows_def)
  qed
  ultimately show ?thesis by (auto simp: fs_def fin_def)
qed

subsection \<open>The list of a response\<close>

lemma filter_status_set: "filter (\<lambda>h. fst h \<noteq> js '':status'') (set_status t hs) = filter (\<lambda>h. fst h \<noteq> js '':status'') hs"
  by (induction t hs rule: set_status.induct) auto

lemma status_value_set: "has_header (js '':status'') hs \<Longrightarrow>
   \<exists>vs. values_of (js '':status'') (set_status t hs) = t # vs"
  by (induction t hs rule: set_status.induct) (auto simp: has_header_def values_of_def)

lemma values_of_status_first: "values_of (js '':status'') (status_first hs) = values_of (js '':status'') hs"
  by (simp add: status_first_def values_of_def filter_empty_conv)

lemma response_list_status:
  assumes "response_list env sensitive headers = Inr (status, hs)"
  shows "200 \<le> status \<and> status \<le> 999 \<and>
    map_of (fst (headersToObject hs)) (js '':status'') = Some (HNumber (to_base 10 status))"
proof -
  obtain list0 where l0: "headersToList (toLowerCase env) True sensitive headers = Inr list0"
      "find (\<lambda>h. is_pseudo (fst h) \<and> fst h \<noteq> js '':status'') list0 = None"
    using assms by (auto simp: response_list_def split: sum.splits option.splits)
  define list where "list = (if has_header (js '':status'') list0 then list0 else (js '':status'', js ''200'', False) # list0)"
  have "has_header (js '':status'') list" by (simp add: list_def has_header_def)
  moreover obtain n where "toNumber env (first_value (js '':status'') list) = Finite n True" "200 \<le> n" "n \<le> 999" "status = nat n" "hs = status_first (set_status (to_base 10 (nat n)) list)"
    using assms unfolding response_list_def l0 Let_def sum.case option.case list_def [symmetric]
    by (auto split: js_number.splits if_splits)
  ultimately have n: "200 \<le> n" "n \<le> 999" "status = nat n" "has_header (js '':status'') list"
      "hs = status_first (set_status (to_base 10 (nat n)) list)" by blast+
  from status_value_set [OF n(4), of "to_base 10 (nat n)"] obtain vs
    where "values_of (js '':status'') hs = to_base 10 status # vs"
    unfolding n(3,5) values_of_status_first by blast
  then have "map_of (fst (headersToObject hs)) (js '':status'') = Some (HNumber (to_base 10 status))"
    unfolding headersToObject_lookup by simp
  with n show ?thesis by auto
qed

text \<open>The client that waits for the response of stream \<open>i\<close>.\<close>

definition awaits :: "nat \<Rightarrow> nat \<Rightarrow> session \<Rightarrow> bool" where
  "awaits i rc c \<longleftrightarrow> find_stream c i = Some rc \<and> headerBlock c = None \<and> i \<noteq> 0 \<and> sid (heap c rc) = i \<and>
     \<not> isServer (heap c rc) \<and> \<not> remoteHeaders (heap c rc)"

lemma response_delivered:
  assumes "in_step e (decoder c)" and "awaits i rc c"
    and "\<forall>h \<in> set hs. ascii_header h" and "list_fits (nat (num (localSettings c) maxHeaderListSize)) hs"
    and "maxHeaderPairs c = 0 \<or> length hs \<le> maxHeaderPairs c + 16"
    and "map_of (fst (headersToObject hs)) (js '':status'') = Some (HNumber t)"
    and "toNumber env t = Finite n w" and "200 \<le> n"
    and "flags = 0 \<or> flags = FLAG_END_STREAM" and "0 < mx" and "hpack_encode textEncoder e hs = (block, e')"
  shows "\<exists>c' more. deliver env (header_frames mx i flags [] block) c = ok c' \<and> in_step e' (decoder c') \<and>
    events c' = events c @ EvResponse i (isPush (heap c rc)) hs (has flags FLAG_END_STREAM) # more"
proof -
  obtain d' where d': "hpack_decode (textDecoder (utf8 env)) (decoder c)
      (nat (num (localSettings c) maxHeaderListSize)) block = (d', Inr hs)" "in_step e' d'"
    using decode_encode_block [OF assms(1) _ assms(4,11)] header_ok_ascii assms(3) by blast
  let ?c = "c\<lparr>headerBlock := None, decoder := d'\<rparr>"
  let ?b = "\<lparr>blockStream = i, promised = 0, chunks = [block], blockEnd = has flags FLAG_END_STREAM, isPushBlock = False\<rparr>"
  let ?u = "upd rc (\<lambda>st. st\<lparr>remoteHeaders := True\<rparr>) ?c"
  let ?v = "emit (EvResponse i (isPush (heap c rc)) hs (has flags FLAG_END_STREAM)) ?u"
  have "deliver env (header_frames mx i flags [] block) c = finishHeaders env ?b c"
    using assms(2,9,10) by (intro deliver_header_frames) (simp_all add: awaits_def)
  also have "\<dots> = ok (streamOnHeaders env rc hs (has flags FLAG_END_STREAM) ?c)"
    using assms(2,5) d'(1) by (auto simp: finishHeaders_def awaits_def find_stream_def Let_def)
  also have "streamOnHeaders env rc hs (has flags FLAG_END_STREAM) ?c =
      (if has flags FLAG_END_STREAM then remoteEnded rc ?v else ?v)"
    using assms(2,6,7,8) by (simp add: streamOnHeaders_def informational_def awaits_def Let_def)
  finally have c': "deliver env (header_frames mx i flags [] block) c =
      ok (if has flags FLAG_END_STREAM then remoteEnded rc ?v else ?v)" .
  have "grows ?v (if has flags FLAG_END_STREAM then remoteEnded rc ?v else ?v)"
    using growing.R_remoteEnded growing.R_refl by simp
  moreover have "decoder ?v = d'"
    "events ?v = events c @ [EvResponse i (isPush (heap c rc)) hs (has flags FLAG_END_STREAM)]"
    by (simp_all add: emit_def upd_def)
  ultimately show ?thesis using c' d'(2) by (auto simp: grows_def prefix_def)
qed

subsection \<open>A HEAD request answered by default\<close>

lemma maybeFinish_open: "\<not> closing s \<Longrightarrow> maybeFinish s = s"
  by (simp add: maybeFinish_def)

lemma set_prop_same_fields [simp]:
  "closing (upd r f s) = closing s" "closing (emit e s) = closing s" "closing (deleteStream i s) = closing s"
  "sendQueue (upd r f s) = sendQueue s" "sendQueue (emit e s) = sendQueue s" "sendQueue (deleteStream i s) = sendQueue s"
  "pumping (upd r f s) = pumping s" "pumping (emit e s) = pumping s" "pumping (deleteStream i s) = pumping s"
  "socketReady (upd r f s) = socketReady s" "socketReady (emit e s) = socketReady s"
  "socketReady (deleteStream i s) = socketReady s"
  "sendWindow (upd r f s) = sendWindow s" "sendWindow (deleteStream i s) = sendWindow s"
  "remoteSettings (deleteStream i s) = remoteSettings s"
  by (simp_all add: upd_def emit_def deleteStream_def)

text \<open>The stream and the session a server has when the program has not answered a HEAD request.\<close>

definition head_waiting :: "nat \<Rightarrow> session \<Rightarrow> bool" where
  "head_waiting r s \<longleftrightarrow> isServer (heap s r) \<and> requestHead (heap s r) \<and> \<not> headersSent (heap s r) \<and>
     \<not> closedByProtocol (heap s r) \<and> \<not> localClosed (heap s r) \<and> \<not> streamDestroyed (heap s r) \<and>
     \<not> scheduled (heap s r) \<and> outChunks (heap s r) = [] \<and> \<not> endPending (heap s r) \<and>
     \<not> destroyed s \<and> \<not> closing s \<and> \<not> pumping s \<and> socketReady s \<and> sendQueue s = []"

text \<open>What it has once the headers are out.\<close>

definition head_answered :: "nat \<Rightarrow> session \<Rightarrow> session \<Rightarrow> bool" where
  "head_answered r s t \<longleftrightarrow> headersSent (heap t r) \<and> localClosed (heap t r) \<and>
     (streamDestroyed (heap t r) \<longrightarrow> closedByProtocol (heap t r)) \<and> \<not> scheduled (heap t r) \<and>
     outChunks (heap t r) = [] \<and> \<not> endPending (heap t r) \<and> sid (heap t r) = sid (heap s r) \<and>
     streamSendWindow (heap t r) = streamSendWindow (heap s r) \<and> \<not> waitForTrailers (heap t r) \<and>
     \<not> destroyed t \<and> \<not> closing t \<and> \<not> pumping t \<and> socketReady t \<and> sendQueue t = [] \<and>
     sendWindow t = sendWindow s \<and> remoteSettings t = remoteSettings s \<and> socket t = socket s \<and>
     (\<exists>block. outgoing t = outgoing s @
        header_frames (nat (num (remoteSettings s) maxFrameSize)) (sid (heap s r)) FLAG_END_STREAM [] block)"

lemma to_base_200: "to_base 10 200 = js ''200''"
  by (simp add: to_base.simps digit_char_def js_def)

lemma default_response_list:
  "toNumber env (js ''200'') = Finite 200 True \<Longrightarrow>
   response_list env [] [] = Inr (200, [(js '':status'', js ''200'', False)])"
  by (simp add: response_list_def headersToList_def has_header_def first_value_def status_first_def to_base_200 Let_def)

lemma pump_empty: "sendQueue s = [] \<Longrightarrow> \<not> closing s \<Longrightarrow> \<not> pumping s \<Longrightarrow> pump s = s"
  by (simp add: pump_def pump_fuel_def maybeFinish_def)

lemma head_answered_upd:
  assumes "head_answered r s t" and "\<And>st. headersSent (f st) = headersSent st \<and> localClosed (f st) = localClosed st \<and>
      scheduled (f st) = scheduled st \<and> outChunks (f st) = outChunks st \<and> endPending (f st) = endPending st \<and>
      sid (f st) = sid st \<and> streamSendWindow (f st) = streamSendWindow st \<and> waitForTrailers (f st) = waitForTrailers st \<and>
      (streamDestroyed (f st) \<and> \<not> closedByProtocol (f st) \<longrightarrow> streamDestroyed st \<and> \<not> closedByProtocol st)"
  shows "head_answered r s (upd r f t)"
  using assms(1) assms(2) [of "heap t r"] unfolding head_answered_def by (auto simp: heap_upd upd_remote)

lemma head_answered_silent:
  "head_answered r s t \<Longrightarrow> head_answered r s (emit e t)" "head_answered r s t \<Longrightarrow> head_answered r s (deleteStream i t)"
  by (simp_all add: head_answered_def)

lemma head_answered_maybeClosed:
  assumes h: "head_answered r s t"
  shows "head_answered r s (maybeClosed r t)"
proof (cases "closedByProtocol (heap t r) \<or> \<not> remoteClosed (heap t r)")
  case True
  then show ?thesis using h by (auto simp: maybeClosed_def)
next
  case False
  let ?u = "deleteStream (sid (heap t r)) (upd r (\<lambda>st. st\<lparr>closedByProtocol := True, rstCode := Some ERR_NO_ERROR\<rparr>) t)"
  have u: "head_answered r s ?u" by (intro head_answered_silent head_answered_upd [OF h]) simp
  have c: "closedByProtocol (heap ?u r)" by (simp add: heap_upd)
  have m: "maybeClosed r t = (if readEnded (heap ?u r) then destroyClosed r None ?u
      else upd r (\<lambda>st. st\<lparr>destroyAfterEnd := True\<rparr>) ?u)"
    using False h by (simp add: maybeClosed_def removeStream_def maybeFinish_open head_answered_def heap_upd)
  have "head_answered r s (upd r (\<lambda>st. st\<lparr>streamDestroyed := True\<rparr>) ?u)"
    using u c unfolding head_answered_def by (simp add: heap_upd)
  then have "head_answered r s (destroyBegin r ?u)"
    unfolding destroyBegin_def Let_def by (auto intro!: head_answered_silent head_answered_upd)
  then have "head_answered r s (destroyClosed r None ?u)"
    unfolding destroyClosed_def using u by (auto intro!: head_answered_silent head_answered_upd)
  moreover have "head_answered r s (upd r (\<lambda>st. st\<lparr>destroyAfterEnd := True\<rparr>) ?u)"
    by (rule head_answered_upd [OF u]) simp
  ultimately show ?thesis unfolding m by simp
qed

lemma head_answered_default:
  assumes h: "head_waiting r s" and n: "toNumber env (js ''200'') = Finite 200 True" and w: "busy \<or> writeEnded (heap s r)"
  shows "\<exists>t. defaultRespond env busy r s = (t, None) \<and> head_answered r s t"
proof -
  let ?hs = "[(js '':status'', js ''200'', False)]"
  obtain block e' where be: "hpack_encode textEncoder (encoder s) ?hs = (block, e')" by fastforce
  define mx where "mx = nat (num (remoteSettings s) maxFrameSize)"
  let ?h = "upd r (\<lambda>st. st\<lparr>waitForTrailers := False, headersSent := True\<rparr>) s"
  define u where "u = (upd r (\<lambda>st. st\<lparr>localClosed := True, endAfterHeaders := True\<rparr>)
    (?h\<lparr>encoder := e', outgoing := outgoing s @ header_frames mx (sid (heap s r)) FLAG_END_STREAM [] block, flushScheduled := True\<rparr>))
    \<lparr>sendQueue := []\<rparr>"
  have st: "sendHeaderBlock (sid (heap s r)) ?hs FLAG_END_STREAM [] ?h =
      ?h\<lparr>encoder := e', outgoing := outgoing s @ header_frames mx (sid (heap s r)) FLAG_END_STREAM [] block, flushScheduled := True\<rparr>"
    using sendHeaderBlock_out [of ?h ?hs block e'] be h by (simp add: head_waiting_def upd_def mx_def)
  have "respond env busy r [] [] False False s = (pump (maybeClosed r (streamEnd busy r u)), None)"
    using h st by (simp add: respond_def default_response_list [OF n] head_waiting_def payloadless_def u_def
        heap_upd Let_def)
  moreover have "streamEnd busy r u = u \<or> streamEnd busy r u = upd r (\<lambda>st. st\<lparr>writeEnded := True\<rparr>) u"
    using w by (auto simp: streamEnd_def u_def heap_upd Let_def)
  moreover have "head_answered r s (maybeClosed r v)" if "v = u \<or> v = upd r (\<lambda>st. st\<lparr>writeEnded := True\<rparr>) u" for v
  proof -
    have "head_answered r s u"
      using h by (simp add: head_answered_def head_waiting_def u_def heap_upd mx_def) blast
    then show ?thesis using that by (auto intro!: head_answered_maybeClosed head_answered_upd)
  qed
  moreover from this have "pump (maybeClosed r v) = maybeClosed r v"
    if "v = u \<or> v = upd r (\<lambda>st. st\<lparr>writeEnded := True\<rparr>) u" for v
    using that by (intro pump_empty) (auto simp: head_answered_def)
  moreover have "defaultRespond env busy r s = respond env busy r [] [] False False s"
    using h by (simp add: defaultRespond_def head_waiting_def)
  ultimately show ?thesis by metis
qed

lemma send_chunks_Nil: "outChunks (heap s r) = [] \<Longrightarrow> send_chunks n r b s = (s, b, False)"
  by (cases n) simp_all

lemma head_end_lemma:
  assumes "head_waiting r s" and "toNumber env (js ''200'') = Finite 200 True" and "writeEnded (heap s r)"
  shows "\<exists>s'. serverFinal env r s = (s', None) \<and> sendQueue s' = [r] \<and> endCallback (heap s' r) \<and> pump s' = s' \<and>
    \<not> destroyed (sessionClose s')"
proof -
  obtain t where t: "defaultRespond env False r s = (t, None)" "head_answered r s t"
    using head_answered_default [OF assms(1,2)] assms(3) by blast
  define u where "u = (upd r (\<lambda>st. st\<lparr>scheduled := True\<rparr>) (upd r (\<lambda>st. st\<lparr>endPending := True, endCallback := True\<rparr>) t))
    \<lparr>sendQueue := [r]\<rparr>"
  have u: "sendQueue u = [r]" "endCallback (heap u r)" "endPending (heap u r)" "localClosed (heap u r)"
    "outChunks (heap u r) = []" "headersSent (heap u r)" "streamDestroyed (heap u r) \<Longrightarrow> closedByProtocol (heap u r)"
    "\<not> destroyed u" "\<not> closing u" "\<not> pumping u" "socketReady u"
    using t(2) by (simp_all add: u_def head_answered_def heap_upd)
  have q: "queueEnd r t = pump u"
    using t(2) by (simp add: queueEnd_def schedule_def u_def head_answered_def heap_upd Let_def)
  have "pump_stream 0 (u\<lparr>pumping := True\<rparr>) = (u\<lparr>pumping := True\<rparr>, 1, False, False)"
    using u by (auto simp: pump_stream_def send_chunks_Nil send_end_def Let_def)
  then have "pump_loop (Suc n) (u\<lparr>pumping := True\<rparr>) = (u\<lparr>pumping := True\<rparr>, False)" for n
    using u(1) by (simp add: numeral_2_eq_2)
  then have p: "pump u = u"
    using u by (simp add: pump_def pump_fuel_def maybeFinish_def)
  have "serverFinal env r s = (u, None)"
    using assms(1) t(1) by (simp add: serverFinal_def head_waiting_def q p)
  moreover have "\<not> destroyed (sessionClose u)"
    using u(1,8,9) by (auto simp: sessionClose_def maybeFinish_def sendGoaway_def sendFrame_def writeRaw_def Let_def)
  ultimately show ?thesis using u(1,2) p by blast
qed

lemma head_body_lemma:
  assumes h: "head_waiting r s" and n: "toNumber env (js ''200'') = Finite 200 True" and c: "chunk \<noteq> []"
    and l: "int (length chunk) \<le> min (min (streamSendWindow (heap s r)) (sendWindow s)) (num (remoteSettings s) maxFrameSize)"
    and d: "\<not> needDrain (socket s)"
  shows "\<exists>s' block. serverWrite env r chunk s = (s', None) \<and> outgoing s' = outgoing s @
     header_frames (nat (num (remoteSettings s) maxFrameSize)) (sid (heap s r)) FLAG_END_STREAM [] block
     @ [Frame FRAME_DATA 0 (sid (heap s r)) chunk]"
proof -
  obtain t where t: "defaultRespond env True r s = (t, None)" "head_answered r s t"
    using head_answered_default [OF h n] by blast
  define u where "u = ((upd r (\<lambda>st. st\<lparr>scheduled := True\<rparr>) (upd r (\<lambda>st. st\<lparr>outChunks := outChunks st @ [(chunk, 0)]\<rparr>) t))
    \<lparr>sendQueue := [r]\<rparr>)"
  let ?p = "u\<lparr>pumping := True\<rparr>"
  have u: "sendQueue ?p = [r]" "\<not> endPending (heap ?p r)" "outChunks (heap ?p r) = [(chunk, 0)]" "headersSent (heap ?p r)"
    "streamDestroyed (heap ?p r) \<Longrightarrow> closedByProtocol (heap ?p r)" "\<not> destroyed ?p" "\<not> closing ?p"
    "sid (heap ?p r) = sid (heap s r)" "socket ?p = socket s" "outgoing ?p = outgoing t"
    using t(2) by (simp_all add: u_def head_answered_def heap_upd)
  have w: "sendWindow ?p = sendWindow s" "streamSendWindow (heap ?p r) = streamSendWindow (heap s r)"
    "remoteSettings ?p = remoteSettings s"
    using t(2) by (simp_all add: u_def head_answered_def heap_upd)
  have size: "piece_size r ?p = length chunk"
    using l by (simp only: piece_size_def u(3) w list.case prod.case)
  have nl: "\<not> last_piece r ?p" using u(2,3) by (simp add: last_piece_def Let_def)
  let ?q = "put_piece r False ?p"
  have q: "send_piece r ?p = ?q" using nl by (simp add: send_piece_split)
  have qf: "outChunks (heap ?q r) = []" "\<not> endPending (heap ?q r)" "sendQueue ?q = [r]" "\<not> closing ?q"
    "socket ?q = socket s" "outgoing ?q = outgoing t @ [Frame FRAME_DATA 0 (sid (heap s r)) chunk]"
    using u put_piece_heap [OF u(3), of False] size
    by (simp_all add: put_piece_def sendFrame_def writeRaw_def Let_def)
  have win: "0 < min (streamSendWindow (heap ?p r)) (sendWindow ?p)"
    using c l by (simp only: w) (cases chunk; simp)
  have "send_chunks (chunk_fuel (outChunks (heap ?p r))) r False ?p = (?q, True, False)"
    using u(3) c win qf(1,5) q d by (simp add: min_le_iff_disj chunk_fuel_def send_chunks_Nil Let_def)
  then have "pump_stream 0 ?p = (unschedule 0 ?q, 0, True, False)"
    using u qf(1,2) by (auto simp: pump_stream_def send_end_def Let_def)
  moreover have "sendQueue (unschedule 0 ?q) = []" "outgoing (unschedule 0 ?q) = outgoing ?q" "closing (unschedule 0 ?q) = closing ?q"
    using qf(3) by (simp_all add: unschedule_def remove_at_def)
  ultimately have loop: "pump_loop (Suc (Suc k)) ?p = (unschedule 0 ?q, False)" for k
    using u(1) by simp
  have "queueData r chunk t = pump u"
    using t(2) by (simp add: queueData_def schedule_def u_def head_answered_def heap_upd Let_def)
  moreover have "\<exists>k. pump_fuel u = Suc (Suc k)"
    using u(1) by (simp add: pump_fuel_def stream_work_def chunk_fuel_def)
  then have "pump u = (unschedule 0 ?q)\<lparr>pumping := False\<rparr>"
    using loop t(2) \<open>closing (unschedule 0 ?q) = closing ?q\<close> qf(4)
    by (auto simp: pump_def head_answered_def maybeFinish_def u_def)
  ultimately have "serverWrite env r chunk s = ((unschedule 0 ?q)\<lparr>pumping := False\<rparr>, None)"
    using h t(1) by (simp add: serverWrite_def head_waiting_def)
  moreover have "outgoing ((unschedule 0 ?q)\<lparr>pumping := False\<rparr>) = outgoing t @ [Frame FRAME_DATA 0 (sid (heap s r)) chunk]"
    using qf(6) by (simp add: unschedule_def)
  ultimately show ?thesis using t(2) by (auto simp: head_answered_def)
qed

subsection \<open>Properties\<close>

text \<open>
  C4: A request a client makes reaches the server. The headers are those \<open>request\<close> takes, with
  \<open>waitForTrailers\<close> off, and their list, with the defaults filled in, is ASCII, has no empty
  pseudo-header and at most one \<open>te\<close>, fits the server's list limit and has no more pairs than the server
  admits; the peer's frame size is positive, and \<open>toLowerCase\<close> keeps lower case text. Then what goes out is one header block within the peer's frame size, and a server that can
  open the stream and is in step announces exactly that list, in order, and does not refuse it;
  compression stays in step.
\<close>

theorem request_reaches_server:
  assumes "session_request cfg env sensitive headers endOption False c = (c', Inr (Some r))"
    and "request_list cfg env sensitive headers = Inr (method, hs)" and "lower_keeps (toLowerCase env)"
    and "\<forall>h \<in> set hs. ascii_header h \<and> (is_pseudo (fst h) \<longrightarrow> fst (snd h) \<noteq> [])"
    and "length (values_of (js ''te'') hs) \<le> 1" and "list_fits (nat (num (localSettings s) maxHeaderListSize)) hs"
    and "maxHeaderPairs s = 0 \<or> length hs \<le> maxHeaderPairs s + 16" and "in_step (encoder c) (decoder s)"
    and "can_open (nextStreamId c) s" and "0 < num (remoteSettings c) maxFrameSize"
  shows "\<exists>fs s'. out_bytes c' = out_bytes c @ concat (map item_bytes fs) \<and>
    (\<forall>f \<in> set fs. int (length (payload_of f)) \<le> num (remoteSettings c) maxFrameSize) \<and>
    deliver env fs s = ok s' \<and> last (events s') = EvStream (nextStreamId c) hs
      (case endOption of Some b \<Rightarrow> b | None \<Rightarrow> method = js ''GET'' \<or> method = js ''HEAD'' \<or> method = js ''DELETE'') \<and>
    in_step (encoder c') (decoder s') \<and> lastPeerStream s' = nextStreamId c \<and>
    nextStreamId c' = nextStreamId c + 2 \<and> find_stream c' (nextStreamId c) = Some r"
proof -
  let ?mx = "nat (num (remoteSettings c) maxFrameSize)"
  obtain block e' where be: "hpack_encode textEncoder (encoder c) hs = (block, e')" by fastforce
  have "\<not> destroyed c" using assms(1) by (auto simp: session_request_def split: if_splits)
  from session_request_sent [OF assms(1) this assms(2) be] obtain flags where
    fl: "flags = 0 \<or> flags = FLAG_END_STREAM" "flags = FLAG_END_STREAM \<longleftrightarrow>
      (case endOption of Some b \<Rightarrow> b | None \<Rightarrow> method = js ''GET'' \<or> method = js ''HEAD'' \<or> method = js ''DELETE'')"
    and out: "outgoing c' = outgoing c @ header_frames ?mx (nextStreamId c) flags [] block" "socket c' = socket c"
    and rest: "encoder c' = e'" "nextStreamId c' = nextStreamId c + 2" "find_stream c' (nextStreamId c) = Some r"
    by blast
  have valid: "validateRequestHeaders (toLowerCase env) (fst (headersToObject hs)) = None"
    using assms(4) by (intro request_list_accepted [OF assms(2,3) _ assms(5)]) blast
  have mx: "0 < ?mx" using assms(10) by simp
  obtain s' where "deliver env (header_frames ?mx (nextStreamId c) flags [] block) s = ok s'"
    "last (events s') = EvStream (nextStreamId c) hs (has flags FLAG_END_STREAM)" "in_step e' (decoder s')"
    "lastPeerStream s' = nextStreamId c"
    using request_arrives_lemma [OF assms(8,9) _ assms(6,7) valid fl(1) mx be] assms(4) by blast
  moreover have "has flags FLAG_END_STREAM \<longleftrightarrow> flags = FLAG_END_STREAM"
    using fl(1) by (auto simp: has_def FLAG_END_STREAM_def)
  moreover have "\<forall>f \<in> set (header_frames ?mx (nextStreamId c) flags [] block).
      int (length (payload_of f)) \<le> num (remoteSettings c) maxFrameSize"
    using header_frames_payload [of "[]" ?mx "nextStreamId c" flags block] mx by fastforce
  ultimately show ?thesis
    using out rest fl(2) by (intro exI [of _ "header_frames ?mx (nextStreamId c) flags [] block"] exI [of _ s'])
      (simp add: out_bytes_def)
qed

text \<open>
  C5: A response reaches the client. The headers are those \<open>respond\<close> takes, with \<open>waitForTrailers\<close>
  off, and their list is ASCII, fits the client's list limit and has no more pairs than the client
  admits; the server's socket is open, its send queue empty, the peer's frame size positive, and \<open>Number\<close> reads the digits of
  the status. Then \<open>respond\<close> sends one header block,
  which ends the stream if the program says so or the status or a HEAD request leaves no body; the
  client that waits on that stream and is in step is told exactly that list as its response, and
  compression stays in step.
\<close>

theorem response_reaches_client:
  assumes "respond env busy r sensitive headers endOption False s = (s', None)"
    and "response_list env sensitive headers = Inr (status, hs)"
    and "toNumber env (to_base 10 status) = Finite (int status) True"
    and "\<not> destroyed s" and "sock_open s" and "sendQueue s = []" and "0 < num (remoteSettings s) maxFrameSize"
    and "in_step (encoder s) (decoder c)" and "awaits (sid (heap s r)) rc c" and "\<forall>h \<in> set hs. ascii_header h"
    and "list_fits (nat (num (localSettings c) maxHeaderListSize)) hs"
    and "maxHeaderPairs c = 0 \<or> length hs \<le> maxHeaderPairs c + 16"
  shows "\<exists>fs c' more. out_bytes s' = out_bytes s @ concat (map item_bytes fs) \<and>
    (\<forall>f \<in> set fs. int (length (payload_of f)) \<le> num (remoteSettings s) maxFrameSize) \<and>
    deliver env fs c = ok c' \<and> in_step (encoder s') (decoder c') \<and>
    events c' = events c @ EvResponse (sid (heap s r)) (isPush (heap c rc)) hs (endOption \<or> payloadless status (heap s r)) # more"
proof -
  let ?mx = "nat (num (remoteSettings s) maxFrameSize)"
  let ?fl = "if endOption \<or> payloadless status (heap s r) then FLAG_END_STREAM else 0"
  obtain block e' where be: "hpack_encode textEncoder (encoder s) hs = (block, e')" by fastforce
  note sent = respond_sent [OF assms(1,2,4,6) be]
  note st = response_list_status [OF assms(2)]
  have mx: "0 < ?mx" using assms(7) by simp
  have fl: "?fl = 0 \<or> ?fl = FLAG_END_STREAM" by simp
  have "200 \<le> int status" using st by simp
  from response_delivered [OF assms(8-12) conjunct2 [OF conjunct2 [OF st]] assms(3) this fl mx be]
  obtain c' more where c': "deliver env (header_frames ?mx (sid (heap s r)) ?fl [] block) c = ok c'"
    "in_step e' (decoder c')"
    "events c' = events c @ EvResponse (sid (heap s r)) (isPush (heap c rc)) hs (has ?fl FLAG_END_STREAM) # more"
    by blast
  have "has ?fl FLAG_END_STREAM \<longleftrightarrow> endOption \<or> payloadless status (heap s r)"
    by (simp add: has_def FLAG_END_STREAM_def)
  moreover have "\<forall>f \<in> set (header_frames ?mx (sid (heap s r)) ?fl [] block).
      int (length (payload_of f)) \<le> num (remoteSettings s) maxFrameSize"
    using header_frames_payload [of "[]" ?mx "sid (heap s r)" ?fl block] mx by fastforce
  ultimately show ?thesis
    using c' sent assms(5) by (intro exI [of _ "header_frames ?mx (sid (heap s r)) ?fl [] block"] exI [of _ c'] exI [of _ more])
      (simp add: puts_def)
qed

definition demo_config :: h2config where
  "demo_config = \<lparr>secure = False, encrypted = False, host = js ''h''\<rparr>"

definition demo_get :: "header list" where
  "demo_get = [(js '':method'', js ''GET'', False), (js '':scheme'', js ''http'', False),
     (js '':authority'', js ''h'', False), (js '':path'', js ''/'', False)]"

lemma demo_request_list: "request_list demo_config demo_env [] [] = Inr (js ''GET'', demo_get)"
  by (simp add: request_list_def headersToList_def has_header_def first_value_def request_targets_def
      request_defaults_def request_pseudo_def pseudo_order_def demo_config_def demo_get_def is_pseudo_def js_def Let_def)

theorem request_reaches_server_witness:
  "\<exists>c' fs s'. session_request demo_config demo_env [] [] None False (blank_session True demo_socket 128) = (c', Inr (Some 0)) \<and>
     out_bytes c' = concat (map item_bytes fs) \<and> deliver demo_env fs (blank_session False demo_socket 128) = ok s' \<and>
     last (events s') = EvStream 1 demo_get True"
proof -
  let ?c = "blank_session True demo_socket 128" and ?s = "blank_session False demo_socket 128"
  obtain c' where c': "session_request demo_config demo_env [] [] None False ?c = (c', Inr (Some 0))"
    by (simp add: session_request_def demo_request_list blank_session_def Let_def)
  have "\<exists>fs s'. out_bytes c' = out_bytes ?c @ concat (map item_bytes fs) \<and>
    (\<forall>f \<in> set fs. int (length (payload_of f)) \<le> num (remoteSettings ?c) maxFrameSize) \<and>
    deliver demo_env fs ?s = ok s' \<and> last (events s') = EvStream (nextStreamId ?c) demo_get
      (case None of Some b \<Rightarrow> b | None \<Rightarrow> js ''GET'' = js ''GET'' \<or> js ''GET'' = js ''HEAD'' \<or> js ''GET'' = js ''DELETE'') \<and>
    in_step (encoder c') (decoder s') \<and> lastPeerStream s' = nextStreamId ?c \<and>
    nextStreamId c' = nextStreamId ?c + 2 \<and> find_stream c' (nextStreamId ?c) = Some 0"
  proof (rule request_reaches_server [OF c' demo_request_list])
    show "lower_keeps (toLowerCase demo_env)" by (simp add: lower_keeps_def demo_env_def)
    show "\<forall>h \<in> set demo_get. ascii_header h \<and> (is_pseudo (fst h) \<longrightarrow> fst (snd h) \<noteq> [])"
      by (simp add: demo_get_def ascii_header_def ascii_def js_def)
    show "length (values_of (js ''te'') demo_get) \<le> 1" by (simp add: demo_get_def values_of_def js_def)
    show "list_fits (nat (num (localSettings ?s) maxHeaderListSize)) demo_get"
      by (simp add: list_fits_def blank_session_def initial_local_def num_def demo_get_def header_size_def entry_size_def js_def)
    show "in_step (encoder ?c) (decoder ?s)" by (simp add: blank_session_def in_step_new)
    show "can_open (nextStreamId ?c) ?s"
      by (simp add: can_open_def blank_session_def find_stream_def initial_local_def DEFAULT_SETTINGS_def num_def)
  qed (simp_all add: blank_session_def demo_get_def initial_remote_def initial_local_def DEFAULT_SETTINGS_def num_def)
  then obtain fs s' where "out_bytes c' = out_bytes ?c @ concat (map item_bytes fs)" "deliver demo_env fs ?s = ok s'"
    "last (events s') = EvStream 1 demo_get True"
    by (auto simp: blank_session_def)
  moreover have "out_bytes ?c = []" by (simp add: out_bytes_def blank_session_def demo_socket_def)
  ultimately show ?thesis using c' by auto
qed

definition answering_env :: h2env where
  "answering_env = demo_env\<lparr>toNumber := \<lambda>_. Finite 200 True\<rparr>"

definition demo_server :: session where
  "demo_server = (blank_session False demo_socket 128)\<lparr>heap := \<lambda>_. new_stream True 1 (blank_session False demo_socket 128)\<rparr>"

definition demo_client :: session where
  "demo_client = (blank_session True demo_socket 128)\<lparr>streams := [(1, 0)],
     heap := \<lambda>_. new_stream False 1 (blank_session True demo_socket 128)\<rparr>"

lemma demo_response_list: "response_list answering_env [] [] = Inr (200, [(js '':status'', js ''200'', False)])"
  by (simp add: response_list_def headersToList_def has_header_def first_value_def answering_env_def status_first_def
      to_base_200 Let_def)

theorem response_reaches_client_witness:
  "\<exists>s' fs c' more. respond answering_env False 0 [] [] False False demo_server = (s', None) \<and>
     out_bytes s' = concat (map item_bytes fs) \<and> deliver answering_env fs demo_client = ok c' \<and>
     events c' = EvResponse 1 False [(js '':status'', js ''200'', False)] False # more"
proof -
  let ?hs = "[(js '':status'', js ''200'', False)]"
  obtain s' where s': "respond answering_env False 0 [] [] False False demo_server = (s', None)"
    by (simp add: respond_def demo_response_list demo_server_def blank_session_def new_stream_def payloadless_def Let_def)
  have "\<exists>fs c' more. out_bytes s' = out_bytes demo_server @ concat (map item_bytes fs) \<and>
    (\<forall>f \<in> set fs. int (length (payload_of f)) \<le> num (remoteSettings demo_server) maxFrameSize) \<and>
    deliver answering_env fs demo_client = ok c' \<and> in_step (encoder s') (decoder c') \<and>
    events c' = events demo_client @ EvResponse (sid (heap demo_server 0)) (isPush (heap demo_client 0)) ?hs
      (False \<or> payloadless 200 (heap demo_server 0)) # more"
  proof (rule response_reaches_client [OF s' demo_response_list])
    show "in_step (encoder demo_server) (decoder demo_client)"
      by (simp add: demo_server_def demo_client_def blank_session_def in_step_new)
    show "awaits (sid (heap demo_server 0)) 0 demo_client"
      by (simp add: awaits_def demo_server_def demo_client_def blank_session_def find_stream_def new_stream_def)
    show "list_fits (nat (num (localSettings demo_client) maxHeaderListSize)) ?hs"
      by (simp add: list_fits_def demo_client_def blank_session_def initial_local_def num_def header_size_def entry_size_def js_def)
    show "\<forall>h \<in> set ?hs. ascii_header h" by (simp add: ascii_header_def ascii_def js_def)
  qed (simp_all add: answering_env_def demo_server_def demo_client_def blank_session_def sock_open_def demo_socket_def
      initial_remote_def initial_local_def DEFAULT_SETTINGS_def num_def)
  moreover have "out_bytes demo_server = []" "events demo_client = []"
    by (simp_all add: out_bytes_def demo_server_def demo_client_def blank_session_def demo_socket_def)
  ultimately show ?thesis
    using s' by (auto simp: demo_server_def demo_client_def blank_session_def new_stream_def payloadless_def)
qed

text \<open>
  C6: A HEAD request that the program answers with a body or just with \<open>end\<close>, without \<open>respond\<close>. The
  body goes out as a DATA frame behind the header block that ended the stream; \<open>end\<close> leaves the
  stream in the send queue with its callback waiting, where no pump moves it again, so that the
  session, closed gracefully, is never done.
\<close>

theorem head_default_response:
  assumes "head_waiting r s" and "toNumber env (js ''200'') = Finite 200 True" and "chunk \<noteq> []"
    and "int (length chunk) \<le> min (min (streamSendWindow (heap s r)) (sendWindow s)) (num (remoteSettings s) maxFrameSize)"
    and "\<not> needDrain (socket s)"
  shows "(\<exists>s' block. serverWrite env r chunk s = (s', None) \<and> outgoing s' = outgoing s @
      header_frames (nat (num (remoteSettings s) maxFrameSize)) (sid (heap s r)) FLAG_END_STREAM [] block
      @ [Frame FRAME_DATA 0 (sid (heap s r)) chunk]) \<and>
    (\<exists>s'. serverFinal env r (upd r (\<lambda>st. st\<lparr>writeEnded := True\<rparr>) s) = (s', None) \<and> sendQueue s' = [r] \<and>
      endCallback (heap s' r) \<and> pump s' = s' \<and> \<not> destroyed (sessionClose s'))"
proof
  have "head_waiting r (upd r (\<lambda>st. st\<lparr>writeEnded := True\<rparr>) s)"
    using assms(1) by (simp add: head_waiting_def heap_upd)
  from head_end_lemma [OF this assms(2)]
  show "\<exists>s'. serverFinal env r (upd r (\<lambda>st. st\<lparr>writeEnded := True\<rparr>) s) = (s', None) \<and> sendQueue s' = [r] \<and>
      endCallback (heap s' r) \<and> pump s' = s' \<and> \<not> destroyed (sessionClose s')"
    by (simp add: heap_upd)
qed (use head_body_lemma assms in blast)

definition demo_head :: session where
  "demo_head = demo_server\<lparr>heap := \<lambda>_. (new_stream True 1 demo_server)\<lparr>requestHead := True, remoteClosed := True\<rparr>\<rparr>"

theorem head_default_response_witness:
  "\<exists>s' fs. serverWrite answering_env 0 [7] demo_head = (s', None) \<and> outgoing s' = fs @ [Frame FRAME_DATA 0 1 [7]]"
proof -
  have "(\<exists>s' block. serverWrite answering_env 0 [7] demo_head = (s', None) \<and> outgoing s' = outgoing demo_head @
      header_frames (nat (num (remoteSettings demo_head) maxFrameSize)) (sid (heap demo_head 0)) FLAG_END_STREAM [] block
      @ [Frame FRAME_DATA 0 (sid (heap demo_head 0)) [7]]) \<and>
    (\<exists>s'. serverFinal answering_env 0 (upd 0 (\<lambda>st. st\<lparr>writeEnded := True\<rparr>) demo_head) = (s', None) \<and> sendQueue s' = [0] \<and>
      endCallback (heap s' 0) \<and> pump s' = s' \<and> \<not> destroyed (sessionClose s'))"
    by (rule head_default_response)
      (simp_all add: demo_head_def demo_server_def head_waiting_def blank_session_def new_stream_def answering_env_def
        demo_socket_def initial_remote_def initial_local_def DEFAULT_SETTINGS_def num_def)
  moreover have "sid (heap demo_head 0) = 1" by (simp add: demo_head_def new_stream_def)
  ultimately show ?thesis by (metis append_assoc)
qed

end
