(* ===== verification/DnsAddress.thy ===== *)
theory DnsAddress
  imports TextNum
begin

text \<open>
  Address literals, from \<open>quickjs/runtime/node-dns.js\<close>: \<open>parseIPv4\<close>, \<open>parseIPv6\<close>, \<open>formatIPv6\<close>,
  \<open>parseIP\<close> and \<open>reverseName\<close>. Characters are numbers: 46 is the dot, 58 the colon, 37 the percent.
\<close>

definition decimal :: "nat \<Rightarrow> jsstr" where
  "decimal n = to_base 10 n"

definition hex :: "nat \<Rightarrow> jsstr" where
  "hex n = to_base 16 n"

definition is_digit :: "jschar \<Rightarrow> bool" where
  "is_digit c \<longleftrightarrow> digit_val c < 10"

definition is_hex :: "jschar \<Rightarrow> bool" where
  "is_hex c \<longleftrightarrow> digit_val c < 16"

subsection \<open>IPv4\<close>

definition ipv4_part :: "jsstr \<Rightarrow> nat option" where
  "ipv4_part p =
     (if p \<noteq> [] \<and> length p \<le> 3 \<and> list_all is_digit p \<and>
        \<not> (1 < length p \<and> hd p = 48) \<and> of_base 10 p \<le> 255
      then Some (of_base 10 p) else None)"

definition parseIPv4 :: "jsstr \<Rightarrow> nat list option" where
  "parseIPv4 text =
     (case split_on 46 text of
        [a, b, c, d] \<Rightarrow>
          (case (ipv4_part a, ipv4_part b, ipv4_part c, ipv4_part d) of
             (Some a, Some b, Some c, Some d) \<Rightarrow> Some [a, b, c, d]
           | _ \<Rightarrow> None)
      | _ \<Rightarrow> None)"

subsection \<open>IPv6\<close>

fun index_of :: "'a \<Rightarrow> 'a list \<Rightarrow> nat option" where
  "index_of c [] = None"
| "index_of c (x # xs) = (if x = c then Some 0 else map_option Suc (index_of c xs))"

definition zone_char :: "jschar \<Rightarrow> bool" where
  "zone_char c \<longleftrightarrow> digit_val c < 36 \<or> c = 45 \<or> c = 46 \<or> c = 58"

definition v6_char :: "jschar \<Rightarrow> bool" where
  "v6_char c \<longleftrightarrow> is_hex c \<or> c = 58 \<or> c = 46"

text \<open>\<open>text.includes(":::")\<close> and \<open>text.split("::")\<close>.\<close>

fun has_triple :: "jsstr \<Rightarrow> bool" where
  "has_triple (a # b # c # xs) = (a = 58 \<and> b = 58 \<and> c = 58 \<or> has_triple (b # c # xs))"
| "has_triple _ = False"

fun split_double :: "jsstr \<Rightarrow> jsstr list" where
  "split_double (a # b # xs) =
     (if a = 58 \<and> b = 58 then [] # split_double xs
      else (case split_double (b # xs) of [] \<Rightarrow> [[a]] | p # ps \<Rightarrow> (a # p) # ps))"
| "split_double xs = [xs]"

fun side_words :: "jsstr list \<Rightarrow> nat list option" where
  "side_words [] = Some []"
| "side_words (piece # pieces) =
     (if 46 \<in> set piece then
        (case parseIPv4 piece of
           Some [a, b, c, d] \<Rightarrow> if pieces = [] then Some [a * 256 + b, c * 256 + d] else None
         | _ \<Rightarrow> None)
      else if piece \<noteq> [] \<and> length piece \<le> 4 \<and> list_all is_hex piece
        then map_option (\<lambda>ws. of_base 16 piece # ws) (side_words pieces)
      else None)"

definition side :: "jsstr \<Rightarrow> nat list option" where
  "side part = (if part = [] then Some [] else side_words (split_on 58 part))"

definition parse_words :: "jsstr \<Rightarrow> nat list option" where
  "parse_words text =
     (if text = [] \<or> \<not> list_all v6_char text \<or> has_triple text then None
      else case split_double text of
        [a] \<Rightarrow> (case side a of Some ws \<Rightarrow> if length ws = 8 then Some ws else None | None \<Rightarrow> None)
      | [a, b] \<Rightarrow>
          (case (side a, side b) of
             (Some h, Some t) \<Rightarrow>
               if 7 < length h + length t then None
               else Some (h @ replicate (8 - length h - length t) 0 @ t)
           | _ \<Rightarrow> None)
      | _ \<Rightarrow> None)"

text \<open>The words and the zone id.\<close>

definition parseIPv6 :: "jsstr \<Rightarrow> (nat list \<times> jsstr option) option" where
  "parseIPv6 input =
     (case index_of 37 input of
        None \<Rightarrow> map_option (\<lambda>ws. (ws, None)) (parse_words input)
      | Some k \<Rightarrow>
          let zone = drop (k + 1) input
          in if zone = [] \<or> \<not> list_all zone_char zone then None
             else map_option (\<lambda>ws. (ws, Some zone)) (parse_words (take k input)))"

text \<open>A run of zero words: its start (-1 for none) and length.\<close>

type_synonym zero_run = "int \<times> int"

fun zero_runs :: "int \<Rightarrow> nat list \<Rightarrow> zero_run \<Rightarrow> zero_run \<Rightarrow> zero_run" where
  "zero_runs i [] best cur =
     (if fst cur \<noteq> -1 \<and> (fst best = -1 \<or> snd best < snd cur) then cur else best)"
| "zero_runs i (w # ws) best cur =
     (if w = 0 then zero_runs (i + 1) ws best (if fst cur = -1 then (i, 1) else (fst cur, snd cur + 1))
      else if fst cur \<noteq> -1 then
        zero_runs (i + 1) ws (if fst best = -1 \<or> snd best < snd cur then cur else best) (-1, 0)
      else zero_runs (i + 1) ws best cur)"

definition best_run :: "nat list \<Rightarrow> zero_run" where
  "best_run ws =
     (let best = zero_runs 0 ws (-1, 0) (-1, 0)
      in if fst best \<noteq> -1 \<and> snd best < 2 then (-1, 0) else best)"

definition v4_tail :: "nat list \<Rightarrow> jsstr" where
  "v4_tail ws = decimal (ws ! 6 div 256) @ [46] @ decimal (ws ! 6 mod 256) @ [46] @
     decimal (ws ! 7 div 256) @ [46] @ decimal (ws ! 7 mod 256)"

text \<open>The output loop from word \<open>i\<close> on; \<open>n\<close> words are left.\<close>

fun format_loop :: "nat \<Rightarrow> int \<Rightarrow> zero_run \<Rightarrow> nat list \<Rightarrow> jsstr" where
  "format_loop 0 i best ws = []"
| "format_loop (Suc n) i best ws =
     (if fst best \<noteq> -1 \<and> fst best \<le> i \<and> i < fst best + snd best
      then (if i = fst best then [58] else []) @ format_loop n (i + 1) best ws
      else (if i \<noteq> 0 then [58] else []) @
        (if i = 6 \<and> fst best = 0 \<and>
            (snd best = 6 \<or> (snd best = 7 \<and> ws ! 7 \<noteq> 1) \<or> (snd best = 5 \<and> ws ! 5 = 65535))
         then v4_tail ws
         else hex (ws ! nat i) @ format_loop n (i + 1) best ws))"

definition formatIPv6 :: "nat list \<Rightarrow> jsstr" where
  "formatIPv6 ws =
     (let best = best_run ws
      in format_loop 8 0 best ws @ (if fst best \<noteq> -1 \<and> fst best + snd best = 8 then [58] else []))"

subsection \<open>Any address\<close>

record ip_address =
  ip_family :: nat
  ip_text :: jsstr
  ip_zone :: "jsstr option"
  ip_bytes :: "nat list"
  ip_words :: "nat list option"

definition parseIP :: "jsstr \<Rightarrow> ip_address option" where
  "parseIP text =
     (case parseIPv4 text of
        Some bytes \<Rightarrow> Some \<lparr>ip_family = 4, ip_text = text, ip_zone = None, ip_bytes = bytes,
          ip_words = None\<rparr>
      | None \<Rightarrow>
          (case parseIPv6 text of
             None \<Rightarrow> None
           | Some (ws, zone) \<Rightarrow>
               Some \<lparr>ip_family = 6, ip_text = formatIPv6 ws, ip_zone = zone,
                 ip_bytes = concat (map (\<lambda>w. [w div 256, w mod 256]) ws),
                 ip_words = Some ws\<rparr>))"

definition isIP :: "jsstr \<Rightarrow> nat" where
  "isIP text = (case parseIP text of None \<Rightarrow> 0 | Some ip \<Rightarrow> ip_family ip)"

definition reverseName :: "ip_address \<Rightarrow> jsstr" where
  "reverseName ip =
     (if ip_family ip = 4 then join [46] (map decimal (rev (ip_bytes ip))) @ js ''.in-addr.arpa''
      else join [46] (map hex (rev (concat (map (\<lambda>b. [b div 16, b mod 16]) (ip_bytes ip))))) @ js ''.ip6.arpa'')"

subsection \<open>Digits of the parts\<close>

lemma digit_val_range:
  "digit_val c < 36 \<Longrightarrow> (48 \<le> unat c \<and> unat c \<le> 57) \<or> (97 \<le> unat c \<and> unat c \<le> 122) \<or> (65 \<le> unat c \<and> unat c \<le> 90)"
  by (auto simp: digit_val_def Let_def split: if_splits)

lemma digit_not_sep:
  assumes "digit_val c < 36"
  shows "c \<noteq> 46" "c \<noteq> 58" "c \<noteq> 37"
proof -
  have "unat c \<noteq> 46" "unat c \<noteq> 58" "unat c \<noteq> 37"
    using digit_val_range [OF assms] by linarith+
  then show "c \<noteq> 46" "c \<noteq> 58" "c \<noteq> 37" by auto
qed

lemma to_base_no_sep:
  assumes "1 < b" "b \<le> 36"
  shows "46 \<notin> set (to_base b n)" "58 \<notin> set (to_base b n)" "37 \<notin> set (to_base b n)"
proof -
  have "\<forall>c \<in> set (to_base b n). digit_val c < 36"
    using to_base_digits [OF assms, of n] assms(2) by fastforce
  then show "46 \<notin> set (to_base b n)" "58 \<notin> set (to_base b n)" "37 \<notin> set (to_base b n)"
    using digit_not_sep by blast+
qed

lemma decimal_facts:
  "decimal n \<noteq> []" "of_base 10 (decimal n) = n" "list_all is_digit (decimal n)"
  "46 \<notin> set (decimal n)" "58 \<notin> set (decimal n)" "37 \<notin> set (decimal n)"
  using to_base_digits [of 10 n]
  by (simp_all add: decimal_def of_base_to_base list_all_iff is_digit_def to_base_no_sep)

lemma hex_facts:
  "hex n \<noteq> []" "of_base 16 (hex n) = n" "list_all is_hex (hex n)"
  "46 \<notin> set (hex n)" "58 \<notin> set (hex n)" "37 \<notin> set (hex n)"
  using to_base_digits [of 16 n]
  by (simp_all add: hex_def of_base_to_base list_all_iff is_hex_def to_base_no_sep)

lemma length_hex: "n < 65536 \<Longrightarrow> length (hex n) \<le> 4"
  using length_to_base [of 16 n 3] by (simp add: hex_def)

lemma length_decimal: "n \<le> 255 \<Longrightarrow> length (decimal n) \<le> 3"
  using length_to_base [of 10 n 2] by (simp add: decimal_def)

lemma decimal_no_leading_zero: "1 < length (decimal n) \<Longrightarrow> hd (decimal n) \<noteq> 48"
proof -
  assume a: "1 < length (decimal n)"
  then have "10 \<le> n"
    unfolding decimal_def by (subst (asm) to_base.simps) (simp split: if_splits)
  then have "digit_val (hd (decimal n)) \<noteq> 0"
    using hd_to_base [of 10 n] by (simp add: decimal_def)
  then show ?thesis by (auto simp: digit_val_def)
qed

lemma ipv4_part_decimal: "n \<le> 255 \<Longrightarrow> ipv4_part (decimal n) = Some n"
  using decimal_no_leading_zero [of n] length_decimal [of n]
  by (auto simp: ipv4_part_def decimal_facts)

definition ipv4_text :: "nat list \<Rightarrow> jsstr" where
  "ipv4_text bytes = join [46] (map decimal bytes)"

lemma split_ipv4_text: "bytes \<noteq> [] \<Longrightarrow> split_on 46 (ipv4_text bytes) = map decimal bytes"
  unfolding ipv4_text_def by (rule split_on_join) (auto simp: decimal_facts)

lemma parseIPv4_text:
  assumes "length bytes = 4" "\<forall>b \<in> set bytes. b \<le> 255"
  shows "parseIPv4 (ipv4_text bytes) = Some bytes"
proof -
  obtain a b c d where e: "bytes = [a, b, c, d]"
    using assms(1) by (auto simp: length_Suc_conv numeral_eq_Suc)
  with assms(2) have p: "ipv4_part (decimal a) = Some a" "ipv4_part (decimal b) = Some b"
    "ipv4_part (decimal c) = Some c" "ipv4_part (decimal d) = Some d"
    by (simp_all add: ipv4_part_decimal)
  show ?thesis
    using split_ipv4_text [of bytes] by (simp add: e parseIPv4_def p)
qed

lemma to_base_of_base:
  "s \<noteq> [] \<Longrightarrow> 1 < b \<Longrightarrow> \<forall>c \<in> set s. digit_val c < b \<and> digit_char (digit_val c) = c \<Longrightarrow>
   digit_val (hd s) \<noteq> 0 \<or> length s = 1 \<Longrightarrow> to_base b (of_base b s) = s"
proof (induction s rule: rev_induct)
  case (snoc c s)
  show ?case
  proof (cases s)
    case Nil
    with snoc.prems show ?thesis
      by (subst to_base.simps) (simp add: of_base_def)
  next
    case (Cons x xs)
    have ih: "to_base b (of_base b s) = s"
      using snoc.prems Cons by (intro snoc.IH) auto
    have "of_base b s \<noteq> 0"
    proof
      assume "of_base b s = 0"
      with ih have "s = [digit_char 0]" using snoc.prems(2) by (subst (asm) to_base.simps) simp
      then show False using snoc.prems Cons by simp
    qed
    moreover have "digit_val c < b" using snoc.prems by simp
    ultimately have "\<not> of_base b s * b + digit_val c < b"
      by (cases "of_base b s") auto
    moreover have "(of_base b s * b + digit_val c) div b = of_base b s"
      "(of_base b s * b + digit_val c) mod b = digit_val c"
      using \<open>digit_val c < b\<close> by simp_all
    ultimately show ?thesis
      using snoc.prems ih by (subst to_base.simps) simp
  qed
qed simp

lemma digit_char_of_digit: "is_digit c \<Longrightarrow> digit_char (digit_val c) = c"
proof -
  assume "is_digit c"
  then have n: "48 \<le> unat c" "unat c \<le> 57" "digit_val c = unat c - 48"
    by (auto simp: is_digit_def digit_val_def Let_def split: if_splits)
  then have "unat (digit_char (digit_val c)) = unat c"
    using unat_digit_char [of "digit_val c"] by simp
  then show ?thesis by (simp only: word_unat_eq_iff)
qed

lemma digit_below: "is_digit c \<Longrightarrow> digit_val c < 10"
  by (simp add: is_digit_def)

lemma ipv4_part_Some: "ipv4_part p = Some n \<Longrightarrow> p = decimal n \<and> n \<le> 255"
proof -
  assume a: "ipv4_part p = Some n"
  then have b: "p \<noteq> []" "list_all is_digit p" "n = of_base 10 p" "n \<le> 255"
    "\<not> (1 < length p \<and> hd p = 48)"
    by (auto simp: ipv4_part_def split: if_splits)
  have "digit_val (hd p) \<noteq> 0 \<or> length p = 1"
  proof (rule ccontr)
    assume c: "\<not> ?thesis"
    have "is_digit (hd p)" using b by (cases p) auto
    then have "hd p = digit_char 0" using c digit_char_of_digit [of "hd p"] by simp
    then have "hd p = 48" by (simp add: digit_char_def)
    with b c show False by (cases p) auto
  qed
  with b have "to_base 10 (of_base 10 p) = p"
    by (intro to_base_of_base) (auto simp: list_all_iff digit_char_of_digit dest: digit_below)
  with b show ?thesis by (simp add: decimal_def)
qed

lemma join_split_on: "join [c] (split_on c xs) = xs"
proof (induction c xs rule: split_on.induct)
  case (2 c x xs)
  obtain p ps where e: "split_on c xs = p # ps" by (cases "split_on c xs") auto
  have "join [c] ((x # p) # ps) = x # join [c] (p # ps)" by (cases ps) auto
  with 2 e show ?case by (cases "x = c") auto
qed simp

lemma parseIPv4_Some:
  assumes "parseIPv4 t = Some bytes"
  shows "t = ipv4_text bytes \<and> length bytes = 4 \<and> (\<forall>b \<in> set bytes. b \<le> 255)"
proof -
  obtain a b c d where s: "split_on 46 t = [a, b, c, d]"
    and "\<exists>w x y z. ipv4_part a = Some w \<and> ipv4_part b = Some x \<and> ipv4_part c = Some y \<and>
      ipv4_part d = Some z \<and> bytes = [w, x, y, z]"
    using assms by (auto simp: parseIPv4_def split: list.splits option.splits)
  then obtain w x y z where q: "ipv4_part a = Some w" "ipv4_part b = Some x" "ipv4_part c = Some y"
      "ipv4_part d = Some z" and e: "bytes = [w, x, y, z]" by blast
  note p = q [THEN ipv4_part_Some]
  have "t = join [46] [a, b, c, d]" using join_split_on [of 46 t] by (simp add: s)
  with p(1-4) show ?thesis by (simp add: e ipv4_text_def)
qed

subsection \<open>The run of zero words\<close>

definition run_ok :: "nat list \<Rightarrow> zero_run \<Rightarrow> bool" where
  "run_ok ws r \<longleftrightarrow> 0 \<le> fst r \<and> 1 \<le> snd r \<and> fst r + snd r \<le> int (length ws) \<and>
     (\<forall>j < length ws. fst r \<le> int j \<and> int j < fst r + snd r \<longrightarrow> ws ! j = 0)"

lemma run_ok_snoc: "run_ok ws r \<Longrightarrow> run_ok (ws @ [w]) r"
  by (auto simp: run_ok_def nth_append less_Suc_eq)

lemma run_ok_grow: "run_ok ws r \<Longrightarrow> fst r + snd r = int (length ws) \<Longrightarrow> run_ok (ws @ [0]) (fst r, snd r + 1)"
  by (auto simp: run_ok_def nth_append less_Suc_eq)

lemma run_ok_new: "run_ok (ws @ [0]) (int (length ws), 1)"
  by (auto simp: run_ok_def nth_append less_Suc_eq)

lemma zero_runs_ok:
  "fst best = -1 \<or> run_ok pre best \<Longrightarrow>
   fst cur = -1 \<or> run_ok pre cur \<and> fst cur + snd cur = int (length pre) \<Longrightarrow>
   fst (zero_runs (int (length pre)) ws best cur) = -1 \<or>
   run_ok (pre @ ws) (zero_runs (int (length pre)) ws best cur)"
proof (induction ws arbitrary: pre best cur)
  case Nil
  then show ?case by auto
next
  case (Cons w ws)
  define b' where "b' = (if w \<noteq> 0 \<and> fst cur \<noteq> -1 \<and> (fst best = -1 \<or> snd best < snd cur) then cur else best)"
  define c' where "c' = (if w = 0 then (if fst cur = -1 then (int (length pre), 1) else (fst cur, snd cur + 1))
    else if fst cur \<noteq> -1 then (-1, 0) else cur)"
  have "fst b' = -1 \<or> run_ok (pre @ [w]) b'"
    using Cons.prems by (auto simp: b'_def intro: run_ok_snoc)
  moreover have "fst c' = -1 \<or> run_ok (pre @ [w]) c' \<and> fst c' + snd c' = int (length (pre @ [w]))"
    using Cons.prems run_ok_grow [of pre cur] run_ok_new [of pre] by (auto simp: c'_def)
  ultimately have "fst (zero_runs (int (length (pre @ [w]))) ws b' c') = -1 \<or>
      run_ok ((pre @ [w]) @ ws) (zero_runs (int (length (pre @ [w]))) ws b' c')"
    by (rule Cons.IH)
  moreover have "zero_runs (int (length pre)) (w # ws) best cur = zero_runs (int (length (pre @ [w]))) ws b' c'"
    by (simp add: b'_def c'_def add.commute)
  ultimately show ?case by simp
qed

lemma best_run_ok: "fst (best_run ws) = -1 \<or> run_ok ws (best_run ws) \<and> 2 \<le> snd (best_run ws)"
  using zero_runs_ok [of "(-1, 0)" "[]" "(-1, 0)" ws] by (auto simp: best_run_def Let_def)

lemma run_ok_zeros:
  "run_ok ws (int b, int l) \<Longrightarrow> ws = take b ws @ replicate l 0 @ drop (b + l) ws"
  by (rule nth_equalityI) (auto simp: run_ok_def nth_append min_def)

subsection \<open>The shape of the output\<close>

definition tail_pieces :: "nat \<Rightarrow> nat \<Rightarrow> nat list \<Rightarrow> jsstr list" where
  "tail_pieces b l ws =
     (if b = 0 \<and> (l = 6 \<or> l = 5 \<and> ws ! 5 = 65535)
      then map hex (take (6 - l) (drop l ws)) @ [v4_tail ws] else map hex (drop (b + l) ws))"

lemma eight_words: "length ws = 8 \<Longrightarrow> \<exists>a b c d e f g h. ws = [a, b, c, d, e, f, g, h]"
  by (auto simp: length_Suc_conv eval_nat_numeral)

lemma upto_eight: "(n :: nat) \<le> 8 \<Longrightarrow> n \<in> {0, 1, 2, 3, 4, 5, 6, 7, 8}"
  by auto

lemma format_loop_8:
  "format_loop 8 i best ws = format_loop (Suc (Suc (Suc (Suc (Suc (Suc (Suc (Suc 0)))))))) i best ws"
  by (simp add: eval_nat_numeral)

lemma format_no_run:
  assumes "length ws = 8" "fst (best_run ws) = -1"
  shows "formatIPv6 ws = join [58] (map hex ws)"
proof -
  obtain a b c d e f g h where w: "ws = [a, b, c, d, e, f, g, h]" using eight_words assms by blast
  show ?thesis using assms(2)
    by (simp add: formatIPv6_def Let_def format_loop_8 w)
qed

lemma format_run:
  assumes "length ws = 8" "best_run ws = (int b, int l)" "2 \<le> l" "b + l \<le> 8"
  shows "formatIPv6 ws = join [58] (map hex (take b ws)) @ [58, 58] @ join [58] (tail_pieces b l ws)"
proof -
  obtain w0 w1 w2 w3 w4 w5 w6 w7 where w: "ws = [w0, w1, w2, w3, w4, w5, w6, w7]" using eight_words assms by blast
  have bl: "b \<in> {0, 1, 2, 3, 4, 5, 6}" "l \<in> {2, 3, 4, 5, 6, 7, 8}" using assms(3,4) by auto
  have "format_loop 8 0 (int b, int l) ws @ (if int b + int l = 8 then [58] else []) =
      join [58] (map hex (take b ws)) @ [58, 58] @ join [58] (tail_pieces b l ws)"
    using assms(4) bl unfolding format_loop_8 w tail_pieces_def
    apply (elim insertE emptyE; hypsubst)
    apply (simp_all only: format_loop.simps)
    by (simp_all add: v4_tail_def)
  then show ?thesis by (simp add: formatIPv6_def assms(2))
qed

subsection \<open>Reading it back\<close>

fun clean :: "jsstr \<Rightarrow> bool" where
  "clean (a # b # xs) = (\<not> (a = 58 \<and> b = 58) \<and> clean (b # xs))"
| "clean _ = True"

lemma clean_no_colon: "58 \<notin> set p \<Longrightarrow> clean p"
  by (induction p rule: clean.induct) auto

lemma clean_append_piece: "58 \<notin> set p \<Longrightarrow> clean q \<Longrightarrow> q \<noteq> [] \<Longrightarrow> hd q \<noteq> 58 \<Longrightarrow> p \<noteq> [] \<Longrightarrow> clean (p @ 58 # q)"
proof (induction p rule: clean.induct)
  case "2_1"
  then show ?case by simp
next
  case "2_2"
  then show ?case by (cases q) auto
qed auto

lemma join_ends:
  "ps \<noteq> [] \<Longrightarrow> \<forall>p \<in> set ps. p \<noteq> [] \<and> 58 \<notin> set p \<Longrightarrow>
   clean (join [58] ps) \<and> join [58] ps \<noteq> [] \<and> hd (join [58] ps) \<noteq> 58 \<and> last (join [58] ps) \<noteq> 58"
proof (induction "[58] :: jsstr" ps rule: join.induct)
  case (2 p)
  then show ?case by (auto simp: clean_no_colon dest: hd_in_set last_in_set)
next
  case (3 p q ps)
  then show ?case by (auto simp: clean_append_piece dest: hd_in_set)
qed simp

lemma split_double_clean: "clean xs \<Longrightarrow> split_double xs = [xs]"
  by (induction xs rule: clean.induct) auto

lemma split_double_append:
  "clean xs \<Longrightarrow> xs = [] \<or> last xs \<noteq> 58 \<Longrightarrow> split_double (xs @ 58 # 58 # ys) = xs # split_double ys"
  by (induction xs rule: clean.induct) auto

lemma has_triple_clean: "clean xs \<Longrightarrow> \<not> has_triple xs"
  by (induction xs rule: has_triple.induct) auto

lemma has_triple_append:
  "clean xs \<Longrightarrow> xs = [] \<or> last xs \<noteq> 58 \<Longrightarrow> clean ys \<Longrightarrow> ys = [] \<or> hd ys \<noteq> 58 \<Longrightarrow>
   \<not> has_triple (xs @ 58 # 58 # ys)"
proof (induction xs rule: clean.induct)
  case (1 a b xs)
  then show ?case by (cases xs) auto
next
  case "2_1"
  then show ?case using has_triple_clean [of ys] by (cases ys rule: clean.cases) auto
next
  case "2_2"
  then show ?case using has_triple_clean [of ys] by (cases ys rule: clean.cases) auto
qed

lemma side_join:
  "\<forall>p \<in> set ps. p \<noteq> [] \<and> 58 \<notin> set p \<Longrightarrow> side (join [58] ps) = side_words ps"
  by (cases "ps = []") (simp_all add: side_def split_on_join join_eq_Nil)

lemma v6_join: "\<forall>p \<in> set ps. list_all v6_char p \<Longrightarrow> list_all v6_char (join [58] ps)"
  by (induction "[58] :: jsstr" ps rule: join.induct) (auto simp: v6_char_def)

lemma parse_words_join:
  assumes "ps \<noteq> []" "\<forall>p \<in> set ps. p \<noteq> [] \<and> 58 \<notin> set p \<and> list_all v6_char p"
    "side_words ps = Some ws" "length ws = 8"
  shows "parse_words (join [58] ps) = Some ws"
  using join_ends [of ps] assms v6_join [of ps]
  by (simp add: parse_words_def has_triple_clean split_double_clean side_join)

lemma parse_words_double:
  assumes "\<forall>p \<in> set ps \<union> set qs. p \<noteq> [] \<and> 58 \<notin> set p \<and> list_all v6_char p"
    "side_words ps = Some hs" "side_words qs = Some ts" "length hs + length ts \<le> 7"
  shows "parse_words (join [58] ps @ [58, 58] @ join [58] qs) = Some (hs @ replicate (8 - length hs - length ts) 0 @ ts)"
proof -
  have e: "clean (join [58] rs) \<and> (join [58] rs = [] \<or> hd (join [58] rs) \<noteq> 58 \<and> last (join [58] rs) \<noteq> 58)"
    if "\<forall>p \<in> set rs. p \<noteq> [] \<and> 58 \<notin> set p" for rs
    using join_ends [of rs] that by (cases "rs = []") simp_all
  have p: "clean (join [58] ps)" "join [58] ps = [] \<or> last (join [58] ps) \<noteq> 58"
    using e [of ps] assms(1) by auto
  have q: "clean (join [58] qs)" "join [58] qs = [] \<or> hd (join [58] qs) \<noteq> 58"
    using e [of qs] assms(1) by auto
  have "list_all v6_char (join [58] ps @ [58, 58] @ join [58] qs)"
    using assms(1) v6_join [of ps] v6_join [of qs] by (simp add: v6_char_def)
  moreover have "\<not> has_triple (join [58] ps @ [58, 58] @ join [58] qs)"
    using has_triple_append [OF p q] by simp
  moreover have "split_double (join [58] ps @ [58, 58] @ join [58] qs) = [join [58] ps, join [58] qs]"
    using split_double_append [OF p, of "join [58] qs"] split_double_clean [OF q(1)] by simp
  moreover have "side (join [58] ps) = Some hs" "side (join [58] qs) = Some ts"
    using assms by (simp_all add: side_join)
  ultimately show ?thesis
    using assms(4) by (simp add: parse_words_def)
qed

lemma hex_piece: "n < 65536 \<Longrightarrow> hex n \<noteq> [] \<and> 58 \<notin> set (hex n) \<and> list_all v6_char (hex n)"
  using hex_facts(3) [of n] by (auto simp: hex_facts list_all_iff v6_char_def)

lemma v4_tail_text: "v4_tail ws = ipv4_text [ws ! 6 div 256, ws ! 6 mod 256, ws ! 7 div 256, ws ! 7 mod 256]"
  by (simp add: v4_tail_def ipv4_text_def)

lemma v4_tail_piece: "v4_tail ws \<noteq> [] \<and> 58 \<notin> set (v4_tail ws) \<and> list_all v6_char (v4_tail ws)"
proof -
  have d: "list_all v6_char (decimal n)" for n
    using decimal_facts(3) [of n] by (auto simp: list_all_iff v6_char_def is_hex_def is_digit_def)
  show ?thesis by (simp add: v4_tail_def decimal_facts d) (simp add: v6_char_def)
qed

lemma side_words_hex:
  "\<forall>w \<in> set ws. w < 65536 \<Longrightarrow> side_words (map hex ws) = Some ws"
  by (induction ws) (simp_all add: hex_facts length_hex)

lemma side_words_tail:
  assumes "\<forall>w \<in> set us. w < 65536" "ws ! 6 < 65536" "ws ! 7 < 65536"
  shows "side_words (map hex us @ [v4_tail ws]) = Some (us @ [ws ! 6, ws ! 7])"
  using assms(1)
proof (induction us)
  case Nil
  have "46 \<in> set (v4_tail ws)" by (simp add: v4_tail_def)
  moreover have "parseIPv4 (v4_tail ws) = Some [ws ! 6 div 256, ws ! 6 mod 256, ws ! 7 div 256, ws ! 7 mod 256]"
    unfolding v4_tail_text using assms by (intro parseIPv4_text) auto
  ultimately show ?case by simp
qed (simp add: hex_facts length_hex)

lemma index_of_none: "c \<notin> set xs \<Longrightarrow> index_of c xs = None"
  by (induction c xs rule: index_of.induct) auto

lemma v6_no_percent: "list_all v6_char t \<Longrightarrow> index_of 37 t = None"
  by (rule index_of_none) (auto simp: list_all_iff v6_char_def is_hex_def digit_val_def Let_def)

lemma tail_pieces_ok:
  assumes "length ws = 8" "\<forall>w \<in> set ws. w < 65536" "b + l \<le> 8" "2 \<le> l"
  shows "(\<forall>p \<in> set (tail_pieces b l ws). p \<noteq> [] \<and> 58 \<notin> set p \<and> list_all v6_char p) \<and>
    side_words (tail_pieces b l ws) = Some (drop (b + l) ws)"
proof (cases "b = 0 \<and> (l = 6 \<or> l = 5 \<and> ws ! 5 = 65535)")
  case True
  have "drop l ws = take (6 - l) (drop l ws) @ [ws ! 6, ws ! 7]"
    using eight_words [OF assms(1)] True by auto
  moreover have u: "\<forall>w \<in> set (take (6 - l) (drop l ws)). w < 65536"
    using assms(2) by (meson in_set_dropD in_set_takeD)
  moreover have "ws ! 6 < 65536" "ws ! 7 < 65536" using assms(1,2) by simp_all
  ultimately show ?thesis
    using side_words_tail [of "take (6 - l) (drop l ws)" ws] True v4_tail_piece [of ws]
    by (auto simp: tail_pieces_def hex_piece)
next
  case False
  have "\<forall>w \<in> set (drop (b + l) ws). w < 65536" using assms(2) by (meson in_set_dropD)
  with False show ?thesis by (auto simp: tail_pieces_def hex_piece side_words_hex)
qed

lemma parseIPv6_format:
  assumes "length ws = 8" "\<forall>w \<in> set ws. w < 65536"
  shows "parseIPv6 (formatIPv6 ws) = Some (ws, None)"
proof (cases "fst (best_run ws) = -1")
  case True
  have "parse_words (formatIPv6 ws) = Some ws"
    unfolding format_no_run [OF assms(1) True]
    using assms by (intro parse_words_join) (auto simp: hex_piece side_words_hex)
  moreover have "list_all v6_char (formatIPv6 ws)"
    unfolding format_no_run [OF assms(1) True] using assms(2) by (intro v6_join) (simp add: hex_piece)
  ultimately show ?thesis by (simp add: parseIPv6_def v6_no_percent)
next
  case False
  obtain b l where r: "best_run ws = (int b, int l)" "2 \<le> l" "b + l \<le> 8" and ok: "run_ok ws (int b, int l)"
  proof (rule that)
    have k: "run_ok ws (best_run ws)" "2 \<le> snd (best_run ws)" using best_run_ok [of ws] False by simp_all
    then show "best_run ws = (int (nat (fst (best_run ws))), int (nat (snd (best_run ws))))"
      by (simp add: run_ok_def)
    with k show "2 \<le> nat (snd (best_run ws))" "nat (fst (best_run ws)) + nat (snd (best_run ws)) \<le> 8"
      "run_ok ws (int (nat (fst (best_run ws))), int (nat (snd (best_run ws))))"
      using assms(1) by (auto simp: run_ok_def)
  qed
  note t = tail_pieces_ok [OF assms r(3,2)] and z = run_ok_zeros [OF ok]
  have h: "\<forall>w \<in> set (take b ws). w < 65536" using assms(2) by (meson in_set_takeD)
  have "parse_words (formatIPv6 ws) = Some (take b ws @ replicate (8 - b - (8 - (b + l))) 0 @ drop (b + l) ws)"
    unfolding format_run [OF assms(1) r] using t h r(2,3) assms(1)
    by (subst parse_words_double [of _ _ "take b ws" "drop (b + l) ws"])
       (auto simp: hex_piece side_words_hex)
  moreover have "list_all v6_char (formatIPv6 ws)"
    unfolding format_run [OF assms(1) r] using t h
    by (simp add: v6_join hex_piece) (simp add: v6_char_def)
  moreover have "8 - b - (8 - (b + l)) = l" using r(3) by simp
  ultimately show ?thesis using z by (simp add: parseIPv6_def v6_no_percent)
qed

lemma colon_in_format:
  assumes "length ws = 8"
  shows "58 \<in> set (formatIPv6 ws)"
proof (cases "fst (best_run ws) = -1")
  case True
  then show ?thesis using eight_words [OF assms] by (auto simp: format_no_run)
next
  case False
  then have "run_ok ws (best_run ws)" "2 \<le> snd (best_run ws)" using best_run_ok [of ws] by simp_all
  then show ?thesis
    using format_run [OF assms, of "nat (fst (best_run ws))" "nat (snd (best_run ws))"] assms
    by (auto simp: run_ok_def)
qed

lemma join_no_colon: "length bytes = 4 \<Longrightarrow> 58 \<notin> set (ipv4_text bytes)"
  using set_join [of "[46]" "map decimal bytes"] decimal_facts(5) by (fastforce simp: ipv4_text_def)

lemma parseIPv4_format: "length ws = 8 \<Longrightarrow> parseIPv4 (formatIPv6 ws) = None"
  using parseIPv4_Some [of "formatIPv6 ws"] colon_in_format [of ws] join_no_colon
  by (cases "parseIPv4 (formatIPv6 ws)") auto

lemma parseIP_format:
  assumes "length ws = 8" "\<forall>w \<in> set ws. w < 65536"
  shows "parseIP (formatIPv6 ws) =
    Some \<lparr>ip_family = 6, ip_text = formatIPv6 ws, ip_zone = None,
           ip_bytes = concat (map (\<lambda>w. [w div 256, w mod 256]) ws), ip_words = Some ws\<rparr>"
  by (simp add: parseIP_def parseIPv4_format parseIPv6_format assms)

text \<open>C11: an IPv6 address printed by \<open>formatIPv6\<close>, whatever zeros it compresses and with its last words in
  dotted form or not, is read back by \<open>parseIP\<close> as the same eight words without zone, and its text is the
  printed one again.\<close>

theorem ipv6_roundtrip:
  assumes "length ws = 8" "\<forall>w \<in> set ws. w < 65536"
  shows "map_option (\<lambda>ip. (ip_words ip, ip_zone ip, ip_text ip, ip_family ip)) (parseIP (formatIPv6 ws)) =
    Some (Some ws, None, formatIPv6 ws, 6)"
  by (simp add: parseIP_format [OF assms])

theorem ipv6_roundtrip_witness:
  "map_option ip_words (parseIP (formatIPv6 [8193, 3512, 0, 0, 1, 0, 0, 1])) = Some (Some [8193, 3512, 0, 0, 1, 0, 0, 1])"
  using ipv6_roundtrip [of "[8193, 3512, 0, 0, 1, 0, 0, 1]"]
  by (auto simp: option.map_comp comp_def)

text \<open>an IPv4 address in dotted decimal is recognised with its bytes, and whatever \<open>parseIPv4\<close>
  accepts is the dotted decimal form, without leading zeros, of the four bytes it returns.\<close>

theorem ipv4_exact:
  "parseIPv4 t = Some bytes \<longleftrightarrow> length bytes = 4 \<and> list_all (\<lambda>b. b \<le> 255) bytes \<and> t = ipv4_text bytes"
  using parseIPv4_text [of bytes] parseIPv4_Some [of t bytes] by (auto simp: list_all_iff)

lemma ipv4_text_piece:
  assumes "length bytes = 4"
  shows "ipv4_text bytes \<noteq> [] \<and> 58 \<notin> set (ipv4_text bytes) \<and> list_all v6_char (ipv4_text bytes) \<and> 46 \<in> set (ipv4_text bytes)"
proof -
  obtain a b c d where e: "bytes = [a, b, c, d]"
    using assms by (auto simp: length_Suc_conv numeral_eq_Suc)
  have d: "list_all v6_char (decimal n)" for n
    using decimal_facts(3) [of n] by (auto simp: list_all_iff v6_char_def is_hex_def is_digit_def)
  show ?thesis by (simp add: e ipv4_text_def decimal_facts d) (simp add: v6_char_def)
qed

text \<open>A dotted quad is accepted in front of the double colon, where no IPv6 text form allows one:
  \<open>1.2.3.4::\<close> is an IPv6 address for \<open>isIP\<close>.\<close>

theorem dotted_quad_before_gap:
  assumes "length bytes = 4" "\<forall>b \<in> set bytes. b \<le> 255"
  shows "isIP (ipv4_text bytes @ [58, 58]) = 6"
proof -
  obtain a b c d where e: "bytes = [a, b, c, d]"
    using assms(1) by (auto simp: length_Suc_conv numeral_eq_Suc)
  note p = ipv4_text_piece [OF assms(1)]
  have "side_words [ipv4_text bytes] = Some [a * 256 + b, c * 256 + d]"
    using p parseIPv4_text [OF assms] by (simp add: e)
  then have w: "parse_words (join [58] [ipv4_text bytes] @ [58, 58] @ join [58] []) =
      Some ([a * 256 + b, c * 256 + d] @ replicate (8 - 2 - 0) 0 @ [])"
    using p by (subst parse_words_double) auto
  have "index_of 37 (ipv4_text bytes @ [58, 58]) = None"
    using p by (intro v6_no_percent) (simp add: v6_char_def)
  with w have v6: "parseIPv6 (ipv4_text bytes @ [58, 58]) \<noteq> None"
    by (simp add: parseIPv6_def)
  have "parseIPv4 (ipv4_text bytes @ [58, 58]) = None"
  proof (rule ccontr)
    assume "parseIPv4 (ipv4_text bytes @ [58, 58]) \<noteq> None"
    then obtain bs where "parseIPv4 (ipv4_text bytes @ [58, 58]) = Some bs" by blast
    from parseIPv4_Some [OF this] have "ipv4_text bs = ipv4_text bytes @ [58, 58]" "length bs = 4" by simp_all
    then show False using ipv4_text_piece [of bs] by (metis in_set_conv_decomp_last list.set_intros(1) Un_iff set_append)
  qed
  with v6 show ?thesis by (auto simp: isIP_def parseIP_def)
qed

theorem dotted_quad_before_gap_witness: "isIP (ipv4_text [1, 2, 3, 4] @ [58, 58]) = 6"
  by (rule dotted_quad_before_gap) simp_all

end
