(* ===== verification/DnsWire.thy ===== *)
theory DnsWire
  imports DnsAddress
begin

text \<open>
  DNS messages, from \<open>quickjs/runtime/node-dns.js\<close>: names as labels (\<open>nameToLabels\<close>, \<open>presentByte\<close>,
  \<open>readName\<close>), queries (\<open>buildQuery\<close>) and responses (\<open>parseMessage\<close>), with the round trip from a query
  built to a query read and the bounds of what a message can hold.
\<close>

subsection \<open>Record types and error codes\<close>

text \<open>\<open>TYPES\<close>: the record types a query can name, with their codes.\<close>

datatype rrtype = RR_A | RR_NS | RR_CNAME | RR_SOA | RR_PTR | RR_MX | RR_TXT | RR_AAAA | RR_SRV
  | RR_NAPTR | RR_TLSA | RR_CAA

fun type_code :: "rrtype \<Rightarrow> nat" where
  "type_code RR_A = 1"
| "type_code RR_NS = 2"
| "type_code RR_CNAME = 5"
| "type_code RR_SOA = 6"
| "type_code RR_PTR = 12"
| "type_code RR_MX = 15"
| "type_code RR_TXT = 16"
| "type_code RR_AAAA = 28"
| "type_code RR_SRV = 33"
| "type_code RR_NAPTR = 35"
| "type_code RR_TLSA = 52"
| "type_code RR_CAA = 257"

text \<open>\<open>TYPE_LABELS\<close>, at the code of a type.\<close>

fun type_label :: "rrtype \<Rightarrow> string" where
  "type_label RR_A = ''A''"
| "type_label RR_NS = ''NS''"
| "type_label RR_CNAME = ''CNAME''"
| "type_label RR_SOA = ''SOA''"
| "type_label RR_PTR = ''PTR''"
| "type_label RR_MX = ''MX''"
| "type_label RR_TXT = ''TXT''"
| "type_label RR_AAAA = ''AAAA''"
| "type_label RR_SRV = ''SRV''"
| "type_label RR_NAPTR = ''NAPTR''"
| "type_label RR_TLSA = ''TLSA''"
| "type_label RR_CAA = ''CAA''"

definition rcode_error :: "nat \<Rightarrow> string" where
  "rcode_error n =
     (if n = 1 then ''EFORMERR'' else if n = 2 then ''ESERVFAIL'' else if n = 3 then ''ENOTFOUND''
      else if n = 4 then ''ENOTIMP'' else if n = 5 then ''EREFUSED'' else ''ESERVFAIL'')"

subsection \<open>Names as text\<close>

text \<open>
  \<open>toLowerCase\<close>: on ASCII text the letters A to Z change; the Unicode case mapping of other text is
  the parameter \<open>lower\<close>.
\<close>

definition ascii_lower :: "jschar \<Rightarrow> jschar" where
  "ascii_lower c = (if 65 \<le> unat c \<and> unat c \<le> 90 then c + 32 else c)"

definition toLowerCase :: "(jsstr \<Rightarrow> jsstr) \<Rightarrow> jsstr \<Rightarrow> jsstr" where
  "toLowerCase lower s = (if list_all (\<lambda>c. unat c < 128) s then map ascii_lower s else lower s)"

text \<open>The scan of a lower-case name: the label so far, the number of its pieces, the labels before.\<close>

fun label_loop :: "jsstr \<Rightarrow> byte list \<Rightarrow> nat \<Rightarrow> byte list list \<Rightarrow> byte list list option" where
  "label_loop [] current pieces labels =
     Some (if current \<noteq> [] \<or> pieces \<noteq> 0 then labels @ [current] else labels)"
| "label_loop (c # cs) current pieces labels =
     (if c = 92 then
        (if 3 \<le> length cs \<and> list_all is_digit (take 3 cs) then
           (if 255 < of_base 10 (take 3 cs) then None
            else label_loop (drop 3 cs) (current @ [word_of_nat (of_base 10 (take 3 cs))]) (pieces + 1) labels)
         else (case cs of
             [] \<Rightarrow> None
           | d # ds \<Rightarrow> label_loop ds (current @ [ucast d]) (pieces + 1) labels))
      else if c = 46 then
        (if current = [] \<and> pieces = 0 then None else label_loop cs [] 0 (labels @ [current]))
      else if c \<le> 32 \<or> 127 \<le> c then None
      else label_loop cs (current @ [ucast c]) (pieces + 1) labels)"

text \<open>
  \<open>nfc\<close> is Unicode normalisation and \<open>toASCII\<close> the punycode conversion the host may supply (\<open>None\<close> of
  its result: it throws).
\<close>

definition nameToLabels ::
  "(jsstr \<Rightarrow> jsstr) \<Rightarrow> (jsstr \<Rightarrow> jsstr) \<Rightarrow> (jsstr \<Rightarrow> jsstr option) option \<Rightarrow> jsstr \<Rightarrow> byte list list option" where
  "nameToLabels lower nfc toASCII name =
     (let converted =
        (case toASCII of
           Some f \<Rightarrow> if list_all (\<lambda>c. unat c < 128) name then Some (toLowerCase lower name)
                     else f (toLowerCase lower (nfc name))
         | None \<Rightarrow> Some (toLowerCase lower name))
      in case converted of
           None \<Rightarrow> None
         | Some text \<Rightarrow>
             if 255 < length text then None
             else if text = [] \<or> text = [46] then Some []
             else case label_loop text [] 0 [] of
                 None \<Rightarrow> None
               | Some labels \<Rightarrow>
                   if list_ex (\<lambda>l. length l = 0 \<or> 63 < length l) labels then None else Some labels)"

definition presentByte :: "byte \<Rightarrow> jsstr" where
  "presentByte b =
     (if unat b < 32 \<or> 127 \<le> unat b
      then 92 # replicate (3 - length (decimal (unat b))) 48 @ decimal (unat b)
      else if (ucast b :: jschar) \<in> {34, 46, 59, 92, 40, 41, 64, 36} then [92, ucast b] else [ucast b])"

subsection \<open>Queries\<close>

definition label_bytes :: "byte list list \<Rightarrow> byte list" where
  "label_bytes labels = concat (map (\<lambda>l. word_of_nat (length l) # l) labels)"

definition buildQuery :: "nat \<Rightarrow> byte list list \<Rightarrow> nat \<Rightarrow> byte list" where
  "buildQuery qid labels type =
     [word_of_nat (qid div 256), word_of_nat (qid mod 256), 1, 0, 0, 1, 0, 0, 0, 0, 0, 0] @ label_bytes labels @
     [0, word_of_nat (type div 256), word_of_nat (type mod 256), 0, 1]"

subsection \<open>Messages\<close>

text \<open>
  A \<open>BadResponse\<close> is \<open>Inl\<close> of its message. The scan of a name keeps the cursor, the end of the
  name where it starts (known once the first pointer is followed), the bytes counted and the text so far.
\<close>

fun read_name :: "nat \<Rightarrow> byte list \<Rightarrow> nat \<Rightarrow> nat option \<Rightarrow> nat \<Rightarrow> jsstr \<Rightarrow> string + (jsstr \<times> nat)" where
  "read_name 0 bs cursor fin tot out = Inl ''too many compression jumps''"
| "read_name (Suc guard) bs cursor fin tot out =
     (if length bs \<le> cursor then Inl ''name runs off the message''
      else let len = unat (bs ! cursor)
      in if len div 64 = 3 then
           (if length bs \<le> cursor + 1 then Inl ''cut pointer''
            else let target = (len mod 64) * 256 + unat (bs ! (cursor + 1))
            in if cursor \<le> target then Inl ''bad compression pointer''
               else read_name guard bs target (Some (case fin of None \<Rightarrow> cursor + 2 | Some e \<Rightarrow> e)) tot out)
         else if len div 64 \<noteq> 0 then Inl ''bad label''
         else if len = 0 then Inr (out, case fin of None \<Rightarrow> cursor + 1 | Some e \<Rightarrow> e)
         else if length bs < cursor + 1 + len then Inl ''label runs off the message''
         else if 255 < tot + len + 1 then Inl ''name too long''
         else read_name guard bs (cursor + 1 + len) fin (tot + len + 1)
                ((if out \<noteq> [] then out @ [46] else out) @
                 concat (map presentByte (take len (drop (cursor + 1) bs)))))"

definition readName :: "byte list \<Rightarrow> nat \<Rightarrow> string + (jsstr \<times> nat)" where
  "readName bs pos = read_name 128 bs pos None 0 []"

text \<open>An element past the end is \<open>undefined\<close>, which the bit operators read as 0.\<close>

definition byte_at :: "byte list \<Rightarrow> nat \<Rightarrow> nat" where
  "byte_at bs i = (if i < length bs then unat (bs ! i) else 0)"

definition u16 :: "byte list \<Rightarrow> nat \<Rightarrow> nat" where
  "u16 bs i = byte_at bs i * 256 + byte_at bs (i + 1)"

definition u32 :: "byte list \<Rightarrow> nat \<Rightarrow> nat" where
  "u32 bs i = u16 bs i * 65536 + u16 bs (i + 2)"

record dns_question =
  q_name :: jsstr
  q_type :: nat
  q_class :: nat

record dns_record =
  r_name :: jsstr
  r_type :: nat
  r_class :: nat
  r_ttl :: nat
  r_start :: nat
  r_end :: nat

record dns_message =
  m_id :: nat
  m_flags :: nat
  m_rcode :: nat
  m_tc :: bool
  m_questions :: "dns_question list"
  m_answers :: "dns_record list"
  m_bytes :: "byte list"

fun read_questions :: "nat \<Rightarrow> byte list \<Rightarrow> nat \<Rightarrow> string + (dns_question list \<times> nat)" where
  "read_questions 0 bs pos = Inr ([], pos)"
| "read_questions (Suc n) bs pos =
     bindE (readName bs pos) (\<lambda>(name, next).
       if length bs < next + 4 then Inl ''cut question''
       else bindE (read_questions n bs (next + 4)) (\<lambda>(qs, pos').
         Inr (\<lparr>q_name = name, q_type = u16 bs next, q_class = u16 bs (next + 2)\<rparr> # qs, pos')))"

fun read_records :: "nat \<Rightarrow> byte list \<Rightarrow> nat \<Rightarrow> string + (dns_record list \<times> nat)" where
  "read_records 0 bs pos = Inr ([], pos)"
| "read_records (Suc n) bs pos =
     bindE (readName bs pos) (\<lambda>(name, next).
       if length bs < next + 10 then Inl ''cut record''
       else let len = u16 bs (next + 8); start = next + 10
       in if length bs < start + len then Inl ''cut record data''
          else bindE (read_records n bs (start + len)) (\<lambda>(rs, pos').
            Inr (\<lparr>r_name = name, r_type = u16 bs next, r_class = u16 bs (next + 2), r_ttl = u32 bs (next + 4),
                   r_start = start, r_end = start + len\<rparr> # rs, pos')))"

definition parseMessage :: "byte list \<Rightarrow> string + dns_message" where
  "parseMessage bs =
     (if length bs < 12 then Inl ''short message''
      else bindE (read_questions (u16 bs 4) bs 12) (\<lambda>(qs, pos).
        bindE (read_records (u16 bs 6) bs pos) (\<lambda>(answers, pos).
        bindE (read_records (u16 bs 8) bs pos) (\<lambda>(authority, pos).
        bindE (read_records (u16 bs 10) bs pos) (\<lambda>(additional, pos).
          Inr \<lparr>m_id = u16 bs 0, m_flags = u16 bs 2, m_rcode = byte_at bs 3 mod 16, m_tc = odd (byte_at bs 2 div 2),
                m_questions = qs, m_answers = answers, m_bytes = bs\<rparr>)))))"

subsection \<open>Reading names\<close>

text \<open>The text of a name: its labels, presented byte by byte, with dots between.\<close>

definition present_label :: "byte list \<Rightarrow> jsstr" where
  "present_label l = concat (map presentByte l)"

definition present_name :: "byte list list \<Rightarrow> jsstr" where
  "present_name labels = join [46] (map present_label labels)"

definition label_ok :: "byte list \<Rightarrow> bool" where
  "label_ok l \<longleftrightarrow> l \<noteq> [] \<and> length l \<le> 63"

definition wire_size :: "byte list list \<Rightarrow> nat" where
  "wire_size labels = sum_list (map (\<lambda>l. length l + 1) labels)"

lemma presentByte_neq_Nil [simp]: "presentByte b \<noteq> []"
  by (simp add: presentByte_def)

lemma present_label_neq_Nil [simp]: "present_label l = [] \<longleftrightarrow> l = []"
  by (cases l) (simp_all add: present_label_def)

lemma join_cons_cons: "join sep ((p @ sep @ q) # ps) = join sep (p # q # ps)"
  by (cases ps) simp_all

lemma read_name_step:
  assumes "label_ok l"
  shows "read_name (Suc guard) (pre @ label_bytes (l # ls) @ 0 # rest) (length pre) fin tot out =
    (if 255 < tot + length l + 1 then Inl ''name too long''
     else read_name guard ((pre @ word_of_nat (length l) # l) @ label_bytes ls @ 0 # rest)
       (length (pre @ (word_of_nat (length l) :: byte) # l)) fin (tot + length l + 1)
       ((if out \<noteq> [] then out @ [46] else out) @ present_label l))"
  using assms by (simp add: Let_def present_label_def label_bytes_def label_ok_def)

lemma read_name_labels:
  "\<forall>l \<in> set labels. label_ok l \<Longrightarrow> tot + wire_size labels \<le> 255 \<Longrightarrow> length labels < guard \<Longrightarrow>
   read_name guard (pre @ label_bytes labels @ 0 # rest) (length pre) fin tot out =
   Inr (join [46] ((if out = [] then [] else [out]) @ map present_label labels),
        case fin of None \<Rightarrow> length pre + wire_size labels + 1 | Some e \<Rightarrow> e)"
proof (induction labels arbitrary: guard pre tot out)
  case Nil
  then obtain g where "guard = Suc g" by (cases guard) simp_all
  then show ?case by (simp add: label_bytes_def wire_size_def split: option.split)
next
  case (Cons l ls)
  obtain g where g: "guard = Suc g" using Cons.prems by (cases guard) simp_all
  have l: "label_ok l" "l \<noteq> []" "\<not> 255 < tot + length l + 1"
    using Cons.prems by (auto simp: label_ok_def wire_size_def)
  let ?n = "word_of_nat (length l) :: byte"
  let ?out = "(if out \<noteq> [] then out @ [46] else out) @ present_label l"
  have "read_name guard (pre @ label_bytes (l # ls) @ 0 # rest) (length pre) fin tot out =
      read_name g ((pre @ ?n # l) @ label_bytes ls @ 0 # rest) (length (pre @ ?n # l)) fin (tot + length l + 1) ?out"
    unfolding g read_name_step [OF l(1)] using l(3) by (rule if_not_P)
  also have "\<dots> = Inr (join [46] ((if ?out = [] then [] else [?out]) @ map present_label ls),
        case fin of None \<Rightarrow> length (pre @ ?n # l) + wire_size ls + 1 | Some e \<Rightarrow> e)"
    using Cons.prems g by (intro Cons.IH) (simp_all add: wire_size_def)
  also have "\<dots> = Inr (join [46] ((if out = [] then [] else [out]) @ map present_label (l # ls)),
        case fin of None \<Rightarrow> length pre + wire_size (l # ls) + 1 | Some e \<Rightarrow> e)"
    using l join_cons_cons [of "[46]" out "present_label l" "map present_label ls"]
    by (auto simp: wire_size_def split: option.split)
  finally show ?case .
qed

lemma wire_size_ge: "\<forall>l \<in> set labels. label_ok l \<Longrightarrow> 2 * length labels \<le> wire_size labels"
proof (induction labels)
  case (Cons l ls)
  then show ?case by (cases l) (simp_all add: wire_size_def label_ok_def)
qed (simp add: wire_size_def)

lemma length_label_bytes: "length (label_bytes labels) = wire_size labels"
  by (induction labels) (simp_all add: label_bytes_def wire_size_def)

lemma readName_labels:
  assumes "\<forall>l \<in> set labels. label_ok l" "wire_size labels \<le> 255"
  shows "readName (pre @ label_bytes labels @ 0 # rest) (length pre) =
    Inr (present_name labels, length pre + wire_size labels + 1)"
  using read_name_labels [of labels 0 128 pre rest None "[]"] wire_size_ge [OF assms(1)] assms
  by (simp add: readName_def present_name_def)

lemma byte_at_append: "byte_at (pre @ b # rest) (length pre) = unat b"
  by (simp add: byte_at_def)

lemma parseMessage_buildQuery:
  assumes "\<forall>l \<in> set labels. label_ok l" "wire_size labels \<le> 255" "qid < 65536" "type < 65536"
  shows "parseMessage (buildQuery qid labels type) =
    Inr \<lparr>m_id = qid, m_flags = 256, m_rcode = 0, m_tc = False,
          m_questions = [\<lparr>q_name = present_name labels, q_type = type, q_class = 1\<rparr>], m_answers = [],
          m_bytes = buildQuery qid labels type\<rparr>"
proof -
  define pre :: "byte list" where
    "pre = [word_of_nat (qid div 256), word_of_nat (qid mod 256), 1, 0, 0, 1, 0, 0, 0, 0, 0, 0]"
  define post :: "byte list" where "post = [word_of_nat (type div 256), word_of_nat (type mod 256), 0, 1]"
  have lp: "length pre = 12" by (simp add: pre_def)
  have b: "buildQuery qid labels type = pre @ label_bytes labels @ 0 # post"
    by (simp add: buildQuery_def pre_def post_def)
  let ?bs = "pre @ label_bytes labels @ 0 # post"
  have name: "readName ?bs 12 = Inr (present_name labels, 13 + wire_size labels)"
    using readName_labels [OF assms(1,2), of pre post] unfolding lp by (simp add: add.commute)
  have post_at: "byte_at ?bs (13 + wire_size labels + k) = byte_at post k" for k
    using lp by (simp add: byte_at_def nth_append length_label_bytes)
  have post_at': "u16 ?bs (13 + wire_size labels) = type" "u16 ?bs (13 + wire_size labels + 2) = 1"
    using post_at [of 0] post_at [of 1] post_at [of 2] post_at [of 3] assms(4)
    by (simp_all add: u16_def byte_at_def post_def add.assoc)
  have head: "byte_at ?bs k = byte_at pre k" if "k < 12" for k
    using that lp by (simp add: byte_at_def nth_append)
  have h: "u16 ?bs 0 = qid" "u16 ?bs 2 = 256" "u16 ?bs 4 = 1" "u16 ?bs 6 = 0" "u16 ?bs 8 = 0" "u16 ?bs 10 = 0"
    "byte_at ?bs 2 = 1" "byte_at ?bs 3 = 0"
    using assms(3) by (simp_all add: u16_def head) (simp_all add: byte_at_def pre_def)
  have len: "\<not> length ?bs < 12" "\<not> length ?bs < 13 + wire_size labels + 4"
    by (simp_all add: pre_def post_def length_label_bytes)
  show ?thesis unfolding b parseMessage_def using len h name post_at'
    by simp
qed

text \<open>the query that \<open>buildQuery\<close> writes is a message that \<open>parseMessage\<close> reads: the qid, one question
  with the name in presentation form, the type and class IN, and no answers.\<close>

theorem query_parses:
  assumes "\<forall>l \<in> set labels. label_ok l" "wire_size labels \<le> 255" "qid < 65536" "type < 65536"
  shows "parseMessage (buildQuery qid labels type) =
    Inr \<lparr>m_id = qid, m_flags = 256, m_rcode = 0, m_tc = False,
          m_questions = [\<lparr>q_name = present_name labels, q_type = type, q_class = 1\<rparr>], m_answers = [],
          m_bytes = buildQuery qid labels type\<rparr>"
  by (rule parseMessage_buildQuery [OF assms])

theorem query_parses_witness:
  "(parseMessage (buildQuery 258 [[97, 46]] 28) :: string + dns_message) \<noteq> Inl ''name too long''"
  using query_parses [of "[[97, 46]]" 258 28] by (simp add: label_ok_def wire_size_def)

subsection \<open>What reading a message guarantees\<close>

lemma length_presentByte: "length (presentByte b) \<le> 4"
  using length_decimal [of "unat b"] unat_byte_le [of b] by (auto simp: presentByte_def)

lemma length_present_label: "length (present_label l) \<le> 4 * length l"
proof (induction l)
  case (Cons b l)
  then show ?case using length_presentByte [of b] by (simp add: present_label_def)
qed (simp add: present_label_def)

text \<open>
  The invariant of the scan: the text is at most four characters for a counted byte; an end already
  known is kept, one that is not lies behind the cursor.
\<close>

lemma read_name_bounds:
  "read_name guard bs cursor fin tot out = Inr (name, next) \<Longrightarrow> length out \<le> 4 * tot \<Longrightarrow> tot \<le> 255 \<Longrightarrow>
   length name \<le> 1020 \<and> (case fin of Some e \<Rightarrow> next = e | None \<Rightarrow> cursor < next \<and> next \<le> length bs)"
proof (induction guard bs cursor fin tot out rule: read_name.induct)
  case (2 guard bs cursor fin tot out)
  define len where "len = unat (bs ! cursor)"
  define target where "target = len mod 64 * 256 + unat (bs ! (cursor + 1))"
  consider (ptr) "len div 64 = 3" "cursor + 1 < length bs" "\<not> cursor \<le> target"
      "read_name guard bs target (Some (case fin of None \<Rightarrow> cursor + 2 | Some e \<Rightarrow> e)) tot out = Inr (name, next)"
    | (stop) "len = 0" "cursor < length bs" "name = out" "next = (case fin of None \<Rightarrow> cursor + 1 | Some e \<Rightarrow> e)"
    | (label) "len div 64 = 0" "len \<noteq> 0" "cursor + 1 + len \<le> length bs" "tot + len + 1 \<le> 255"
      "read_name guard bs (cursor + 1 + len) fin (tot + len + 1)
         ((if out \<noteq> [] then out @ [46] else out) @ present_label (take len (drop (cursor + 1) bs))) = Inr (name, next)"
    using 2(3) unfolding read_name.simps Let_def len_def [symmetric] target_def [symmetric] present_label_def [symmetric]
    by (auto split: if_splits)
  then show ?case
  proof cases
    case ptr
    then have "length name \<le> 1020 \<and> next = (case fin of None \<Rightarrow> cursor + 2 | Some e \<Rightarrow> e)"
      using 2(1) [OF _ len_def _ _ target_def _ ptr(4)] 2(4,5) by simp
    with ptr(2) show ?thesis by (auto split: option.splits)
  next
    case stop
    with 2(4,5) show ?thesis by (auto split: option.splits)
  next
    case label
    let ?l = "take len (drop (cursor + 1) bs)"
    have "length (present_label ?l) \<le> 4 * len" using length_present_label [of ?l] by simp
    then have "length ((if out \<noteq> [] then out @ [46] else out) @ present_label ?l) \<le> 4 * (tot + len + 1)"
      using 2(4) by simp
    with 2(2) [OF _ len_def _ _ label(2) _ _ _] label show ?thesis
      by (fastforce simp: present_label_def split: option.splits)
  qed
qed simp

lemma readName_bounds:
  "readName bs pos = Inr (name, next) \<Longrightarrow> pos < next \<and> next \<le> length bs \<and> length name \<le> 1020"
  using read_name_bounds [of 128 bs pos None 0 "[]" name "next"] by (simp add: readName_def)

lemma byte_at_less [simp]: "byte_at bs i < 256"
  by (simp add: byte_at_def)

lemma u16_less: "u16 bs i < 65536"
  using byte_at_less [of bs i] byte_at_less [of bs "i + 1"] unfolding u16_def by linarith

lemma u32_less: "u32 bs i < 4294967296"
  using u16_less [of bs i] u16_less [of bs "i + 2"] unfolding u32_def by linarith

definition record_ok :: "byte list \<Rightarrow> dns_record \<Rightarrow> bool" where
  "record_ok bs r \<longleftrightarrow> 22 < r_start r \<and> r_start r \<le> r_end r \<and> r_end r \<le> length bs \<and>
     r_end r < r_start r + 65536 \<and> r_type r < 65536 \<and> r_class r < 65536 \<and> r_ttl r < 4294967296 \<and>
     length (r_name r) \<le> 1020"

lemma read_questions_bounds:
  "read_questions n bs pos = Inr (qs, pos') \<Longrightarrow> pos \<le> length bs \<Longrightarrow>
   pos \<le> pos' \<and> pos' \<le> length bs \<and> length qs = n \<and> pos + 5 * n \<le> pos' \<and>
   list_all (\<lambda>q. q_type q < 65536 \<and> q_class q < 65536 \<and> length (q_name q) \<le> 1020) qs"
proof (induction n arbitrary: pos qs)
  case (Suc n)
  then obtain name "next" qs1 where r: "readName bs pos = Inr (name, next)" "next + 4 \<le> length bs"
    "read_questions n bs (next + 4) = Inr (qs1, pos')"
    "qs = \<lparr>q_name = name, q_type = u16 bs next, q_class = u16 bs (next + 2)\<rparr> # qs1"
    by (auto simp: bindE_eq_Inr split: if_splits)
  from readName_bounds [OF r(1)] Suc.IH [OF r(3)] r(2,4) show ?case by (simp add: u16_less)
qed simp

lemma read_records_bounds:
  "read_records n bs pos = Inr (rs, pos') \<Longrightarrow> 12 \<le> pos \<Longrightarrow> pos \<le> length bs \<Longrightarrow>
   pos \<le> pos' \<and> pos' \<le> length bs \<and> length rs = n \<and> pos + 11 * n \<le> pos' \<and> list_all (record_ok bs) rs"
proof (induction n arbitrary: pos rs)
  case (Suc n)
  define k where "k = readName bs pos"
  obtain name "next" rs1 where r: "readName bs pos = Inr (name, next)" "next + 10 + u16 bs (next + 8) \<le> length bs"
    "read_records n bs (next + 10 + u16 bs (next + 8)) = Inr (rs1, pos')"
    "rs = \<lparr>r_name = name, r_type = u16 bs next, r_class = u16 bs (next + 2), r_ttl = u32 bs (next + 4),
       r_start = next + 10, r_end = next + 10 + u16 bs (next + 8)\<rparr> # rs1"
    using Suc.prems(1) by (auto simp: bindE_eq_Inr Let_def split: if_splits)
  note b = readName_bounds [OF r(1)]
  have "12 \<le> next + 10 + u16 bs (next + 8)" using b Suc.prems by simp
  from Suc.IH [OF r(3) this r(2)] b r(2,4) Suc.prems(2) show ?case
    using u16_less [of bs "next + 8"] by (simp add: u16_less u32_less record_ok_def)
qed simp

lemma parse_records_ok:
  assumes "parseMessage bs = Inr m"
  shows "m_bytes m = bs \<and> list_all (record_ok bs) (m_answers m)"
proof -
  obtain qs p as p' where "12 \<le> length bs" "read_questions (u16 bs 4) bs 12 = Inr (qs, p)"
    "read_records (u16 bs 6) bs p = Inr (as, p')" "m_bytes m = bs" "m_answers m = as"
    using assms by (auto simp: parseMessage_def bindE_eq_Inr split: if_splits)
  with read_questions_bounds [of "u16 bs 4" bs 12 qs p] read_records_bounds [of "u16 bs 6" bs p as p']
  show ?thesis by simp
qed

text \<open>C17: every record of a message that is accepted lies inside the message, its numbers fit their fields,
  its name is at most 1020 characters, and a message of n bytes holds at most n/11 answers.\<close>

theorem message_bounds:
  assumes "parseMessage bs = Inr m"
  shows "12 \<le> length bs \<and> m_bytes m = bs \<and> m_id m < 65536 \<and> m_rcode m < 16 \<and>
    5 * length (m_questions m) + 11 * length (m_answers m) + 12 \<le> length bs \<and>
    list_all (\<lambda>q. q_type q < 65536 \<and> q_class q < 65536 \<and> length (q_name q) \<le> 1020) (m_questions m) \<and>
    list_all (record_ok bs) (m_answers m)"
proof -
  obtain qs p as p' where len: "12 \<le> length bs"
    and q: "read_questions (u16 bs 4) bs 12 = Inr (qs, p)" and a: "read_records (u16 bs 6) bs p = Inr (as, p')"
    and m: "m_bytes m = bs" "m_id m = u16 bs 0" "m_rcode m = byte_at bs 3 mod 16" "m_questions m = qs" "m_answers m = as"
    using assms by (auto simp: parseMessage_def bindE_eq_Inr split: if_splits)
  from read_questions_bounds [OF q len] read_records_bounds [OF a] m len show ?thesis
    by (simp add: u16_less)
qed

theorem message_bounds_witness:
  "12 \<le> length (buildQuery 1 [[102]] 1) \<and> m_bytes \<lparr>m_id = 1, m_flags = 256, m_rcode = 0, m_tc = False,
     m_questions = [\<lparr>q_name = present_name [[102]], q_type = 1, q_class = 1\<rparr>], m_answers = [],
     m_bytes = buildQuery 1 [[102]] 1\<rparr> = buildQuery 1 [[102]] 1"
  using message_bounds [of "buildQuery 1 [[102]] 1"] parseMessage_buildQuery [of "[[102]]" 1 1]
  by (simp add: label_ok_def wire_size_def)

subsection \<open>Names as text and back\<close>

definition lower_byte :: "byte \<Rightarrow> byte" where
  "lower_byte b = (if 65 \<le> unat b \<and> unat b \<le> 90 then b + 32 else b)"

lemma unat_lower_byte: "unat (lower_byte b) = (if 65 \<le> unat b \<and> unat b \<le> 90 then unat b + 32 else unat b)"
proof (cases "65 \<le> unat b \<and> unat b \<le> 90")
  case True
  then show ?thesis by (simp add: lower_byte_def unat_word_ariths)
qed (auto simp: lower_byte_def)

lemma unat_ascii_lower: "unat (ascii_lower c) = (if 65 \<le> unat c \<and> unat c \<le> 90 then unat c + 32 else unat c)"
proof (cases "65 \<le> unat c \<and> unat c \<le> 90")
  case True
  then show ?thesis by (simp add: ascii_lower_def unat_word_ariths)
qed (auto simp: ascii_lower_def)

lemma unat_char_of_byte [simp]: "unat (ucast (b :: byte) :: jschar) = unat b"
proof -
  have "unat b < 2 ^ 16" using unat_byte_less [of b] by (simp del: unat_byte_less)
  then show ?thesis by (simp add: unsigned_ucast_eq take_bit_nat_eq_self)
qed

lemma byte_of_char_of_byte [simp]: "(ucast (ucast (b :: byte) :: jschar) :: byte) = b"
    by (rule ucast_up_ucast_id) (simp add: is_up)

lemma ascii_lower_char: "ascii_lower (ucast b) = ucast (lower_byte b)"
  by (simp add: word_unat_eq_iff unat_ascii_lower unat_lower_byte)

lemma ascii_lower_id: "\<not> (65 \<le> unat c \<and> unat c \<le> 90) \<Longrightarrow> ascii_lower c = c"
  by (auto simp: ascii_lower_def)

definition escaped_decimal :: "nat \<Rightarrow> jsstr" where
  "escaped_decimal n = replicate (3 - length (decimal n)) 48 @ decimal n"

lemma of_base_zeros: "of_base 10 (replicate k 48 @ s) = of_base 10 s"
  by (induction k) (simp_all add: of_base_def digit_val_def)

lemma escaped_decimal_facts:
  assumes "n \<le> 255"
  shows "length (escaped_decimal n) = 3" "list_all is_digit (escaped_decimal n)" "of_base 10 (escaped_decimal n) = n"
    "map ascii_lower (escaped_decimal n) = escaped_decimal n"
proof -
  show "length (escaped_decimal n) = 3" using length_decimal [OF assms] by (simp add: escaped_decimal_def)
  have "is_digit 48" by (simp add: is_digit_def digit_val_def)
  then show d: "list_all is_digit (escaped_decimal n)"
    using decimal_facts(3) [of n] by (auto simp: escaped_decimal_def list_all_iff)
  show "of_base 10 (escaped_decimal n) = n"
    by (simp add: escaped_decimal_def of_base_zeros decimal_facts)
  have "ascii_lower c = c" if "is_digit c" for c
    using that by (intro ascii_lower_id) (auto simp: is_digit_def digit_val_def Let_def split: if_splits)
  then show "map ascii_lower (escaped_decimal n) = escaped_decimal n"
    using d by (induction "escaped_decimal n") (auto simp: list_all_iff map_idI)
qed

lemma presentByte_unfold:
  "presentByte b =
     (if unat b < 32 \<or> 127 \<le> unat b then 92 # escaped_decimal (unat b)
      else if unat b \<in> {34, 46, 59, 92, 40, 41, 64, 36} then [92, ucast b] else [ucast b])"
  by (simp add: presentByte_def escaped_decimal_def word_unat_eq_iff [where 'a = 16])

lemma label_loop_byte:
  assumes "b \<noteq> 32"
  shows "label_loop (map ascii_lower (presentByte b) @ rest) cur p ls = label_loop rest (cur @ [lower_byte b]) (p + 1) ls"
proof -
  consider (esc) "unat b < 32 \<or> 127 \<le> unat b"
    | (special) "\<not> (unat b < 32 \<or> 127 \<le> unat b)" "unat b \<in> {34, 46, 59, 92, 40, 41, 64, 36}"
    | (plain) "\<not> (unat b < 32 \<or> 127 \<le> unat b)" "unat b \<notin> {34, 46, 59, 92, 40, 41, 64, 36}" by blast
  then show ?thesis
  proof cases
    case esc
    note e = escaped_decimal_facts [OF unat_byte_le [of b]]
    have "lower_byte b = b" using esc by (auto simp: lower_byte_def)
    moreover have "ascii_lower 92 = 92" by (rule ascii_lower_id) simp
    moreover have "\<not> 255 < unat b" by (simp add: not_less)
    ultimately show ?thesis using esc e by (simp add: presentByte_unfold)
  next
    case special
    have "lower_byte b = b" using special by (auto simp: lower_byte_def)
    moreover have "ascii_lower 92 = 92" "ascii_lower (ucast b) = ucast b"
      using special by (auto intro!: ascii_lower_id)
    moreover have "\<not> is_digit (ucast b)" using special by (auto simp: is_digit_def digit_val_def)
    ultimately show ?thesis using special by (simp add: presentByte_unfold take_Cons')
  next
    case plain
    have "unat b \<noteq> 32" using assms by (simp add: word_unat_eq_iff)
    let ?c = "ucast (lower_byte b) :: jschar"
    have "?c \<noteq> 92" "?c \<noteq> 46" "\<not> (?c \<le> 32 \<or> 127 \<le> ?c)"
      using plain \<open>unat b \<noteq> 32\<close> by (auto simp: word_unat_eq_iff word_le_nat_alt unat_lower_byte split: if_splits)
    then show ?thesis using plain by (simp add: presentByte_unfold ascii_lower_char)
  qed
qed

lemma label_loop_label:
  "32 \<notin> set l \<Longrightarrow> label_loop (map ascii_lower (present_label l) @ rest) cur p ls =
   label_loop rest (cur @ map lower_byte l) (p + length l) ls"
proof (induction l arbitrary: cur p)
  case (Cons b l)
  have "label_loop (map ascii_lower (present_label (b # l)) @ rest) cur p ls =
      label_loop (map ascii_lower (present_label l) @ rest) (cur @ [lower_byte b]) (p + 1) ls"
    using label_loop_byte [of b "map ascii_lower (present_label l) @ rest" cur p ls] Cons.prems
    by (simp add: present_label_def)
  with Cons show ?case by simp
qed (simp add: present_label_def)

lemma label_loop_name:
  "labels \<noteq> [] \<Longrightarrow> \<forall>l \<in> set labels. l \<noteq> [] \<and> 32 \<notin> set l \<Longrightarrow>
   label_loop (map ascii_lower (present_name labels)) [] 0 ls = Some (ls @ map (map lower_byte) labels)"
proof (induction labels arbitrary: ls)
  case (Cons l labels)
  show ?case
  proof (cases labels)
    case Nil
    with Cons.prems show ?thesis using label_loop_label [of l "[]" "[]" 0 ls] by (simp add: present_name_def)
  next
    case (Cons l2 ls2)
    have e: "map ascii_lower (present_name (l # labels)) =
        map ascii_lower (present_label l) @ 46 # map ascii_lower (present_name labels)"
      using ascii_lower_id [of 46] by (simp add: Cons present_name_def)
    have "l \<noteq> []" "32 \<notin> set l" using Cons.prems by simp_all
    then have "label_loop (map ascii_lower (present_name (l # labels))) [] 0 ls =
        label_loop (map ascii_lower (present_name labels)) [] 0 (ls @ [map lower_byte l])"
      unfolding e by (subst label_loop_label) simp_all
    with Cons.IH [of "ls @ [map lower_byte l]"] Cons.prems Cons show ?thesis by simp
  qed
qed simp

lemma presentByte_ascii: "\<forall>c \<in> set (presentByte b). unat c < 128"
proof -
  have "unat c < 128" if "c \<in> set (escaped_decimal (unat b))" for c
    using escaped_decimal_facts(2) [OF unat_byte_le [of b]] that digit_val_range [of c]
    by (fastforce simp: list_all_iff is_digit_def)
  then show ?thesis by (auto simp: presentByte_unfold)
qed

lemma present_name_ascii: "list_all (\<lambda>c. unat c < 128) (present_name labels)"
  using set_join [of "[46]" "map present_label labels"] presentByte_ascii
  by (fastforce simp: present_name_def present_label_def list_all_iff)

lemma present_name_dot:
  assumes "labels \<noteq> []" "\<forall>l \<in> set labels. l \<noteq> [] \<and> 32 \<notin> set l"
  shows "map ascii_lower (present_name labels) \<noteq> []" "map ascii_lower (present_name labels) \<noteq> [46]"
proof -
  note l = label_loop_name [OF assms, of "[]"]
  show "map ascii_lower (present_name labels) \<noteq> []" using l assms(1) by auto
  show "map ascii_lower (present_name labels) \<noteq> [46]" using l assms by fastforce
qed

lemma nameToLabels_present:
  assumes "labels \<noteq> []" "\<forall>l \<in> set labels. label_ok l \<and> 32 \<notin> set l" "length (present_name labels) \<le> 255"
  shows "nameToLabels lower nfc toASCII (present_name labels) = Some (map (map lower_byte) labels)"
proof -
  have ok: "\<forall>l \<in> set labels. l \<noteq> [] \<and> 32 \<notin> set l" using assms(2) by (auto simp: label_ok_def)
  note d = present_name_dot [OF assms(1) ok]
  have "toLowerCase lower (present_name labels) = map ascii_lower (present_name labels)"
    by (simp add: toLowerCase_def present_name_ascii)
  moreover have "\<not> list_ex (\<lambda>l. length l = 0 \<or> 63 < length l) (map (map lower_byte) labels)"
    using assms(2) by (auto simp: list_ex_iff label_ok_def)
  moreover have "label_loop (map ascii_lower (present_name labels)) [] 0 [] = Some (map (map lower_byte) labels)"
    using label_loop_name [OF assms(1) ok, of "[]"] by simp
  ultimately show ?thesis
    using assms(3) d present_name_ascii [of labels]
    by (cases toASCII) (simp_all add: nameToLabels_def Let_def del: map_is_Nil_conv)
qed

text \<open>the text of a name, as \<open>readName\<close> gives it, is turned by \<open>nameToLabels\<close> into the same labels in
  lower case, whatever bytes they hold apart from spaces, when it is at most 255 characters.\<close>

theorem name_roundtrip:
  assumes "labels \<noteq> []" "\<forall>l \<in> set labels. label_ok l \<and> 32 \<notin> set l" "length (present_name labels) \<le> 255"
  shows "nameToLabels lower nfc toASCII (present_name labels) = Some (map (map lower_byte) labels)"
  by (rule nameToLabels_present [OF assms])

theorem name_roundtrip_witness:
  "nameToLabels (\<lambda>s. s) (\<lambda>s. s) None (present_name [[87, 46, 1], [99]]) = Some (map (map lower_byte) [[87, 46, 1], [99]])"
proof (rule name_roundtrip)
  show "length (present_name [[87, 46, 1], [99]]) \<le> 255"
    using length_present_label [of "[87, 46, 1]"] length_present_label [of "[99]"] by (simp add: present_name_def)
qed (simp_all add: label_ok_def)

subsection \<open>Names that are too long\<close>

lemma read_name_too_long:
  "\<forall>l \<in> set labels. label_ok l \<Longrightarrow> 255 < tot + wire_size labels \<Longrightarrow> tot \<le> 255 \<Longrightarrow> length labels \<le> guard \<Longrightarrow>
   read_name guard (pre @ label_bytes labels @ 0 # rest) (length pre) fin tot out = Inl ''name too long''"
proof (induction labels arbitrary: guard pre tot out)
  case Nil
  then show ?case by (simp add: wire_size_def)
next
  case (Cons l ls)
  obtain g where g: "guard = Suc g" using Cons.prems by (cases guard) simp_all
  have l: "label_ok l" "\<forall>l \<in> set ls. label_ok l" "length ls \<le> g" using Cons.prems g by simp_all
  show ?case
  proof (cases "255 < tot + length l + 1")
    case True
    then show ?thesis unfolding g read_name_step [OF l(1)] by (rule if_P)
  next
    case False
    then have "255 < tot + length l + 1 + wire_size ls" "tot + length l + 1 \<le> 255"
      using Cons.prems by (simp_all add: wire_size_def)
    then show ?thesis
      unfolding g read_name_step [OF l(1)] if_not_P [OF False] by (rule Cons.IH [OF l(2) _ _ l(3)])
  qed
qed

lemma length_join_ones: "\<forall>p \<in> set ps. length p = 1 \<Longrightarrow> length (join [c] ps) = 2 * length ps - 1"
proof (induction "[c]" ps rule: join.induct)
  case (3 p q ps)
  then show ?case by (cases ps) simp_all
qed simp_all

text \<open>\<open>nameToLabels\<close> checks the length of the text and not of the encoded name: every name of 128 labels of one
  byte is accepted (as 255 characters), and the query built for it, whose name takes 257 bytes where RFC 1035
  allows 255, is one that \<open>parseMessage\<close> itself refuses as malformed.\<close>

theorem long_name_accepted:
  assumes "length labels = 128" "\<forall>l \<in> set labels. length l = 1 \<and> length (present_label l) = 1 \<and> l \<noteq> [32]"
  shows "nameToLabels lower nfc toASCII (present_name labels) = Some (map (map lower_byte) labels) \<and>
    length (label_bytes labels @ [0]) = 257 \<and>
    parseMessage (buildQuery qid (map (map lower_byte) labels) type) = Inl ''name too long''"
proof -
  have ok: "label_ok l \<and> 32 \<notin> set l" if "l \<in> set labels" for l
    using assms(2) that by (cases l) (auto simp: label_ok_def)
  have len: "length (present_name labels) \<le> 255"
    using assms length_join_ones [of "map present_label labels" 46] by (simp add: present_name_def)
  have w: "wire_size ls = 2 * length ls" if "\<forall>l \<in> set ls. length l = 1" for ls :: "byte list list"
    using that by (induction ls) (simp_all add: wire_size_def)
  let ?ls = "map (map lower_byte) labels"
  define pre :: "byte list" where
    "pre = [word_of_nat (qid div 256), word_of_nat (qid mod 256), 1, 0, 0, 1, 0, 0, 0, 0, 0, 0]"
  define post :: "byte list" where "post = [word_of_nat (type div 256), word_of_nat (type mod 256), 0, 1]"
  have b: "buildQuery qid ?ls type = pre @ label_bytes ?ls @ 0 # post"
    by (simp add: buildQuery_def pre_def post_def)
  have lp: "length pre = 12" by (simp add: pre_def)
  have "readName (buildQuery qid ?ls type) 12 = Inl ''name too long''"
    using read_name_too_long [of ?ls 0 128 pre post None "[]"] ok assms w [of ?ls]
    unfolding readName_def b lp by (auto simp: label_ok_def)
  moreover have "u16 (buildQuery qid ?ls type) 4 = 1" "\<not> length (buildQuery qid ?ls type) < 12"
    by (simp_all add: buildQuery_def u16_def byte_at_def)
  ultimately have "parseMessage (buildQuery qid ?ls type) = Inl ''name too long''"
    by (simp add: parseMessage_def)
  moreover have "labels \<noteq> []" using assms(1) by auto
  ultimately show ?thesis
    using nameToLabels_present [of labels lower nfc toASCII] ok len assms w [of labels] by (simp add: length_label_bytes)
qed

theorem long_name_accepted_witness:
  "parseMessage (buildQuery 7 (map (map lower_byte) (replicate 128 [97])) 1) = Inl ''name too long''"
  using long_name_accepted [of "replicate 128 [97]" "\<lambda>x. x" "\<lambda>x. x" None 7 1]
  by (simp add: present_label_def presentByte_def)

end
