(* ===== verification/DnsAnswer.thy ===== *)
theory DnsAnswer
  imports DnsWire "HOL-Library.AList"
begin

text \<open>
  Answers, from \<open>quickjs/runtime/node-dns.js\<close>: the readers of record data (\<open>createRecordReaders\<close>), the
  alias chain (\<open>addressRecords\<close>), what each query method builds (\<open>shapeFor\<close>) and the value or code it
  reports (\<open>answerFor\<close>), with the types of the values and the error behaviour.
\<close>

subsection \<open>Values handed to the program\<close>

text \<open>An object is the list of its properties, in the order they were first set.\<close>

datatype jsval = JUndef | JNum nat | JStr jsstr | JBytes "byte list" | JList "jsval list"
  | JObj "(jsstr \<times> jsval) list"

type_synonym jsobj = "(jsstr \<times> jsval) list"

text \<open>
  \<open>{...o, key: v}\<close>, and the assignment \<open>o[key] = v\<close> of a string under a computed key: the name
  \<open>__proto__\<close> is a setter of every object, which ignores a string.
\<close>

definition put_prop :: "jsstr \<Rightarrow> jsval \<Rightarrow> jsobj \<Rightarrow> jsobj" where
  "put_prop key v obj = AList.update key v obj"

definition assign_string :: "jsstr \<Rightarrow> jsstr \<Rightarrow> jsobj \<Rightarrow> jsobj" where
  "assign_string key t obj = (if key = js ''__proto__'' then obj else AList.update key (JStr t) obj)"

subsection \<open>Record readers\<close>

definition latin1_text :: "byte list \<Rightarrow> nat \<Rightarrow> nat \<Rightarrow> jsstr" where
  "latin1_text bs start fin = map (\<lambda>i. word_of_nat (byte_at bs i)) [start..<fin]"

definition charString :: "byte list \<Rightarrow> nat \<Rightarrow> nat \<Rightarrow> string + (jsstr \<times> nat)" where
  "charString b at fin =
     (if fin \<le> at \<or> fin < at + 1 + byte_at b at then Inl ''cut string''
      else Inr (latin1_text b (at + 1) (at + 1 + byte_at b at), at + 1 + byte_at b at))"

definition read_address :: "dns_message \<Rightarrow> dns_record \<Rightarrow> nat \<Rightarrow> string + jsval" where
  "read_address m r family =
     (let b = m_bytes m; s = r_start r
      in if family = 4 then
           (if r_end r - s \<noteq> 4 then Inl ''bad A''
            else Inr (JStr (decimal (byte_at b s) @ [46] @ decimal (byte_at b (s + 1)) @ [46] @
                   decimal (byte_at b (s + 2)) @ [46] @ decimal (byte_at b (s + 3)))))
         else if r_end r - s \<noteq> 16 then Inl ''bad AAAA''
         else Inr (JStr (formatIPv6 (map (\<lambda>i. u16 b (s + i * 2)) [0..<8]))))"

definition read_namerec :: "dns_message \<Rightarrow> dns_record \<Rightarrow> string + jsval" where
  "read_namerec m r = bindE (readName (m_bytes m) (r_start r)) (\<lambda>(name, _). Inr (JStr name))"

definition read_mx :: "dns_message \<Rightarrow> dns_record \<Rightarrow> string + jsval" where
  "read_mx m r =
     (if r_end r - r_start r < 3 then Inl ''bad MX''
      else bindE (readName (m_bytes m) (r_start r + 2)) (\<lambda>(name, _).
        Inr (JObj [(js ''exchange'', JStr name), (js ''priority'', JNum (u16 (m_bytes m) (r_start r))),
                   (js ''type'', JStr (js ''MX''))])))"

lemma charString_next: "charString b at fin = Inr (text, next) \<Longrightarrow> at < next \<and> next \<le> fin"
  by (auto simp: charString_def split: if_splits)

function txt_chunks :: "byte list \<Rightarrow> nat \<Rightarrow> nat \<Rightarrow> string + jsval list" where
  "txt_chunks b at fin =
     (if at < fin
      then bindE (charString b at fin) (\<lambda>(text, next).
        bindE (txt_chunks b next fin) (\<lambda>chunks. Inr (JStr text # chunks)))
      else Inr [])"
  by pat_completeness auto
termination
  by (relation "measure (\<lambda>(b, at, fin). fin - at)") (auto dest!: charString_next)

declare txt_chunks.simps [simp del]

definition read_txt :: "dns_message \<Rightarrow> dns_record \<Rightarrow> string + jsval" where
  "read_txt m r = bindE (txt_chunks (m_bytes m) (r_start r) (r_end r)) (\<lambda>chunks. Inr (JList chunks))"

definition read_srv :: "dns_message \<Rightarrow> dns_record \<Rightarrow> string + jsval" where
  "read_srv m r =
     (if r_end r - r_start r < 7 then Inl ''bad SRV''
      else let b = m_bytes m
      in bindE (readName b (r_start r + 6)) (\<lambda>(name, _).
        Inr (JObj [(js ''name'', JStr name), (js ''port'', JNum (u16 b (r_start r + 4))),
                   (js ''priority'', JNum (u16 b (r_start r))), (js ''weight'', JNum (u16 b (r_start r + 2))),
                   (js ''type'', JStr (js ''SRV''))])))"

definition read_soa :: "dns_message \<Rightarrow> dns_record \<Rightarrow> string + jsval" where
  "read_soa m r =
     bindE (readName (m_bytes m) (r_start r)) (\<lambda>(nsname, at).
     bindE (readName (m_bytes m) at) (\<lambda>(hostmaster, next).
       if r_end r < next + 20 then Inl ''bad SOA''
       else let b = m_bytes m
       in Inr (JObj [(js ''nsname'', JStr nsname), (js ''hostmaster'', JStr hostmaster),
                     (js ''serial'', JNum (u32 b next)), (js ''refresh'', JNum (u32 b (next + 4))),
                     (js ''retry'', JNum (u32 b (next + 8))), (js ''expire'', JNum (u32 b (next + 12))),
                     (js ''minttl'', JNum (u32 b (next + 16))), (js ''type'', JUndef)])))"

definition read_naptr :: "dns_message \<Rightarrow> dns_record \<Rightarrow> string + jsval" where
  "read_naptr m r =
     (if r_end r - r_start r < 4 then Inl ''bad NAPTR''
      else let b = m_bytes m
      in bindE (charString b (r_start r + 4) (r_end r)) (\<lambda>(flags, a).
         bindE (charString b a (r_end r)) (\<lambda>(service, c).
         bindE (charString b c (r_end r)) (\<lambda>(regexp, d).
         bindE (readName b d) (\<lambda>(replacement, _).
           Inr (JObj [(js ''flags'', JStr flags), (js ''service'', JStr service), (js ''regexp'', JStr regexp),
                      (js ''replacement'', JStr replacement), (js ''order'', JNum (u16 b (r_start r))),
                      (js ''preference'', JNum (u16 b (r_start r + 2))), (js ''type'', JUndef)]))))))"

definition read_caa :: "dns_message \<Rightarrow> dns_record \<Rightarrow> string + jsval" where
  "read_caa m r =
     (let b = m_bytes m; tagEnd = r_start r + 2 + byte_at b (r_start r + 1)
      in if r_end r - r_start r < 2 \<or> r_end r < tagEnd then Inl ''bad CAA''
         else Inr (JObj (assign_string (latin1_text b (r_start r + 2) tagEnd) (latin1_text b tagEnd (r_end r))
                [(js ''critical'', JNum (byte_at b (r_start r))), (js ''type'', JStr (js ''CAA''))])))"

definition read_tlsa :: "dns_message \<Rightarrow> dns_record \<Rightarrow> string + jsval" where
  "read_tlsa m r =
     (if r_end r - r_start r < 3 then Inl ''bad TLSA''
      else let b = m_bytes m; s = r_start r
      in Inr (JObj [(js ''certUsage'', JNum (byte_at b s)), (js ''selector'', JNum (byte_at b (s + 1))),
                    (js ''match'', JNum (byte_at b (s + 2))),
                    (js ''data'', JBytes (take (r_end r - (s + 3)) (drop (s + 3) b)))]))"

subsection \<open>Answers\<close>

definition ofType :: "dns_message \<Rightarrow> nat \<Rightarrow> dns_record list" where
  "ofType m type = filter (\<lambda>r. r_type r = type) (m_answers m)"

text \<open>The chain of aliases: the owner reached and the least TTL on the way, in at most sixteen hops.\<close>

fun follow_cnames :: "nat \<Rightarrow> (jsstr \<Rightarrow> jsstr) \<Rightarrow> dns_message \<Rightarrow> dns_record list \<Rightarrow> jsstr \<Rightarrow> nat \<Rightarrow> string + (jsstr \<times> nat)" where
  "follow_cnames 0 lower m cnames owner ttl = Inr (owner, ttl)"
| "follow_cnames (Suc hops) lower m cnames owner ttl =
     (case find (\<lambda>r. toLowerCase lower (r_name r) = owner) cnames of
        None \<Rightarrow> Inr (owner, ttl)
      | Some r \<Rightarrow> bindE (readName (m_bytes m) (r_start r)) (\<lambda>(name, _).
          follow_cnames hops lower m cnames (toLowerCase lower name) (min ttl (r_ttl r))))"

definition addressRecords :: "(jsstr \<Rightarrow> jsstr) \<Rightarrow> dns_message \<Rightarrow> jsstr \<Rightarrow> nat \<Rightarrow> string + (dns_record \<times> nat) list" where
  "addressRecords lower m qname type =
     (let cnames = ofType m (type_code RR_CNAME)
      in if cnames = [] then Inr (map (\<lambda>r. (r, r_ttl r)) (ofType m type))
         else bindE (follow_cnames 16 lower m cnames (toLowerCase lower qname) 4294967295) (\<lambda>(owner, ttl).
           Inr (map (\<lambda>r. (r, min ttl (r_ttl r)))
                  (filter (\<lambda>r. toLowerCase lower (r_name r) = owner) (ofType m type)))))"

datatype empty_policy = Empty_error | Empty_list | Empty_badresp

record shape =
  sh_type :: nat
  sh_empty :: empty_policy
  sh_build :: "dns_message \<Rightarrow> jsstr \<Rightarrow> bool \<Rightarrow> string + jsval list"
  sh_single :: bool

definition list_shape :: "rrtype \<Rightarrow> (dns_message \<Rightarrow> dns_record \<Rightarrow> string + jsval) \<Rightarrow> empty_policy \<Rightarrow> shape" where
  "list_shape ty read empt =
     \<lparr>sh_type = type_code ty, sh_empty = empt,
      sh_build = (\<lambda>m qname ttl. mapE (read m) (ofType m (type_code ty))), sh_single = False\<rparr>"

definition address_shape :: "(jsstr \<Rightarrow> jsstr) \<Rightarrow> nat \<Rightarrow> shape" where
  "address_shape lower family =
     (let type = type_code (if family = 4 then RR_A else RR_AAAA)
      in \<lparr>sh_type = type, sh_empty = Empty_error,
          sh_build = (\<lambda>m qname with_ttl.
            bindE (addressRecords lower m qname type)
              (mapE (\<lambda>(r, ttl). bindE (read_address m r family) (\<lambda>address.
                 Inr (if with_ttl then JObj [(js ''address'', address), (js ''ttl'', JNum ttl)] else address))))),
          sh_single = False\<rparr>)"

definition soa_shape :: shape where
  "soa_shape =
     \<lparr>sh_type = type_code RR_SOA, sh_empty = Empty_badresp,
      sh_build = (\<lambda>m qname ttl. mapE (read_soa m) (ofType m (type_code RR_SOA))), sh_single = True\<rparr>"

text \<open>\<open>resolveAny\<close>: one list of tagged objects, type by type.\<close>

definition keep_object :: "jsval \<Rightarrow> jsobj" where
  "keep_object v = (case v of JObj obj \<Rightarrow> obj | _ \<Rightarrow> [])"

definition any_add ::
  "dns_message \<Rightarrow> rrtype \<Rightarrow> (dns_message \<Rightarrow> dns_record \<Rightarrow> string + jsval) \<Rightarrow> (jsval \<Rightarrow> dns_record \<Rightarrow> jsobj) \<Rightarrow>
   string + jsval list" where
  "any_add m ty read tag =
     mapE (\<lambda>r. bindE (read m r) (\<lambda>v. Inr (JObj (put_prop (js ''type'') (JStr (js (type_label ty))) (tag v r)))))
       (ofType m (type_code ty))"

definition any_build :: "dns_message \<Rightarrow> string + jsval list" where
  "any_build m =
     (let value = (\<lambda>v r. [(js ''value'', v)]); keep = (\<lambda>v r. keep_object v);
          address = (\<lambda>v r. [(js ''address'', v), (js ''ttl'', JNum (r_ttl r))])
      in bindE (mapE (\<lambda>part. part)
           [any_add m RR_CNAME read_namerec value,
            any_add m RR_A (\<lambda>m r. read_address m r 4) address,
            any_add m RR_AAAA (\<lambda>m r. read_address m r 6) address,
            any_add m RR_MX read_mx keep,
            any_add m RR_NS read_namerec value,
            any_add m RR_TXT read_txt (\<lambda>v r. [(js ''entries'', v)]),
            any_add m RR_SRV read_srv keep,
            any_add m RR_PTR read_namerec value,
            any_add m RR_NAPTR read_naptr keep,
            any_add m RR_SOA read_soa keep,
            any_add m RR_CAA read_caa keep])
         (\<lambda>parts. Inr (concat parts)))"

definition any_shape :: shape where
  "any_shape = \<lparr>sh_type = 255, sh_empty = Empty_list, sh_build = (\<lambda>m qname ttl. any_build m), sh_single = False\<rparr>"

definition shapeFor :: "(jsstr \<Rightarrow> jsstr) \<Rightarrow> string \<Rightarrow> string + shape" where
  "shapeFor lower method =
     (if method = ''resolve4'' then Inr (address_shape lower 4)
      else if method = ''resolve6'' then Inr (address_shape lower 6)
      else if method = ''resolveCname'' then Inr (list_shape RR_CNAME read_namerec Empty_error)
      else if method = ''resolveNs'' then Inr (list_shape RR_NS read_namerec Empty_error)
      else if method = ''resolvePtr'' then Inr (list_shape RR_PTR read_namerec Empty_error)
      else if method = ''resolveMx'' then Inr (list_shape RR_MX read_mx Empty_list)
      else if method = ''resolveTxt'' then Inr (list_shape RR_TXT read_txt Empty_list)
      else if method = ''resolveSrv'' then Inr (list_shape RR_SRV read_srv Empty_list)
      else if method = ''resolveNaptr'' then Inr (list_shape RR_NAPTR read_naptr Empty_list)
      else if method = ''resolveCaa'' then Inr (list_shape RR_CAA read_caa Empty_list)
      else if method = ''resolveTlsa'' then Inr (list_shape RR_TLSA read_tlsa Empty_list)
      else if method = ''resolveSoa'' then Inr soa_shape
      else if method = ''resolveAny'' then Inr any_shape
      else Inl (''no shape for '' @ method))"

text \<open>What a query method reports: an error code or a value. \<open>Inl\<close> is an error thrown for good.\<close>

datatype answer = Answer_code string | Answer_value jsval

definition answerFor :: "(jsstr \<Rightarrow> jsstr) \<Rightarrow> string \<Rightarrow> dns_message \<Rightarrow> jsstr \<Rightarrow> bool \<Rightarrow> string + answer" where
  "answerFor lower method m qname with_ttl =
     (if m_rcode m \<noteq> 0 then Inr (Answer_code (rcode_error (m_rcode m)))
      else if m_answers m = [] then Inr (Answer_code ''ENODATA'')
      else bindE (shapeFor lower method) (\<lambda>sh.
        case sh_build sh m qname with_ttl of
          Inl _ \<Rightarrow> Inr (Answer_code ''EBADRESP'')
        | Inr built \<Rightarrow>
            if built = [] \<and> sh_empty sh = Empty_error then Inr (Answer_code ''ENODATA'')
            else if built = [] \<and> sh_empty sh = Empty_badresp then Inr (Answer_code ''EBADRESP'')
            else Inr (Answer_value (if sh_single sh then hd built else JList built))))"

subsection \<open>The types of reported values\<close>

definition is_str :: "jsval \<Rightarrow> bool" where
  "is_str v = (case v of JStr _ \<Rightarrow> True | _ \<Rightarrow> False)"

definition is_num :: "nat \<Rightarrow> jsval \<Rightarrow> bool" where
  "is_num n v = (case v of JNum k \<Rightarrow> k < n | _ \<Rightarrow> False)"

definition is_address :: "nat \<Rightarrow> jsval \<Rightarrow> bool" where
  "is_address family v = (case v of JStr t \<Rightarrow> isIP t = family | _ \<Rightarrow> False)"

definition has_props :: "(string \<times> (jsval \<Rightarrow> bool)) list \<Rightarrow> jsval \<Rightarrow> bool" where
  "has_props ps v =
     (case v of
        JObj obj \<Rightarrow> list_all2 (\<lambda>p x. fst x = js (fst p) \<and> snd p (snd x)) ps obj
      | _ \<Rightarrow> False)"

definition is_bytes :: "jsval \<Rightarrow> bool" where
  "is_bytes v = (case v of JBytes _ \<Rightarrow> True | _ \<Rightarrow> False)"

definition is_texts :: "jsval \<Rightarrow> bool" where
  "is_texts v = (case v of JList xs \<Rightarrow> list_all is_str xs | _ \<Rightarrow> False)"

definition is_label :: "string \<Rightarrow> jsval \<Rightarrow> bool" where
  "is_label t v \<longleftrightarrow> v = JStr (js t)"

abbreviation "num8 \<equiv> is_num 256"
abbreviation "num16 \<equiv> is_num 65536"
abbreviation "num32 \<equiv> is_num 4294967296"

text \<open>
  A CAA record: the property of its tag follows \<open>critical\<close> and \<open>type\<close>, but a tag of one of these names takes its place, and
  \<open>__proto__\<close> leaves no property.
\<close>

definition is_caa :: "(jsval \<Rightarrow> bool) \<Rightarrow> jsval \<Rightarrow> bool" where
  "is_caa is_type v =
     (case v of
        JObj (c # t # tagged) \<Rightarrow>
          fst c = js ''critical'' \<and> fst t = js ''type'' \<and>
          (case tagged of
             [] \<Rightarrow> num8 (snd c) \<and> is_label ''CAA'' (snd t) \<or> is_str (snd c) \<and> is_label ''CAA'' (snd t) \<or>
                   num8 (snd c) \<and> is_type (snd t)
           | [p] \<Rightarrow> num8 (snd c) \<and> is_label ''CAA'' (snd t) \<and> is_str (snd p) \<and>
                   fst p \<notin> {js ''critical'', js ''type'', js ''__proto__''}
           | _ \<Rightarrow> False)
      | _ \<Rightarrow> False)"

text \<open>The objects of \<open>resolveAny\<close>, by the type of the record.\<close>

definition any_specs :: "(jsval \<Rightarrow> bool) list" where
  "any_specs =
     [has_props [(''value'', is_str), (''type'', is_label ''CNAME'')],
      has_props [(''address'', is_address 4), (''ttl'', num32), (''type'', is_label ''A'')],
      has_props [(''address'', is_address 6), (''ttl'', num32), (''type'', is_label ''AAAA'')],
      has_props [(''exchange'', is_str), (''priority'', num16), (''type'', is_label ''MX'')],
      has_props [(''value'', is_str), (''type'', is_label ''NS'')],
      has_props [(''entries'', is_texts), (''type'', is_label ''TXT'')],
      has_props [(''name'', is_str), (''port'', num16), (''priority'', num16), (''weight'', num16), (''type'', is_label ''SRV'')],
      has_props [(''value'', is_str), (''type'', is_label ''PTR'')],
      has_props [(''flags'', is_str), (''service'', is_str), (''regexp'', is_str), (''replacement'', is_str),
        (''order'', num16), (''preference'', num16), (''type'', is_label ''NAPTR'')],
      has_props [(''nsname'', is_str), (''hostmaster'', is_str), (''serial'', num32), (''refresh'', num32),
        (''retry'', num32), (''expire'', num32), (''minttl'', num32), (''type'', is_label ''SOA'')],
      is_caa (is_label ''CAA'')]"

definition element_ok :: "string \<Rightarrow> bool \<Rightarrow> jsval \<Rightarrow> bool" where
  "element_ok method with_ttl =
     (if method = ''resolve4'' then (if with_ttl then has_props [(''address'', is_address 4), (''ttl'', num32)] else is_address 4)
      else if method = ''resolve6'' then (if with_ttl then has_props [(''address'', is_address 6), (''ttl'', num32)] else is_address 6)
      else if method \<in> {''resolveCname'', ''resolveNs'', ''resolvePtr''} then is_str
      else if method = ''resolveMx'' then has_props [(''exchange'', is_str), (''priority'', num16), (''type'', is_label ''MX'')]
      else if method = ''resolveTxt'' then is_texts
      else if method = ''resolveSrv'' then
        has_props [(''name'', is_str), (''port'', num16), (''priority'', num16), (''weight'', num16), (''type'', is_label ''SRV'')]
      else if method = ''resolveNaptr'' then
        has_props [(''flags'', is_str), (''service'', is_str), (''regexp'', is_str), (''replacement'', is_str),
          (''order'', num16), (''preference'', num16), (''type'', \<lambda>v. v = JUndef)]
      else if method = ''resolveTlsa'' then
        has_props [(''certUsage'', num8), (''selector'', num8), (''match'', num8), (''data'', is_bytes)]
      else if method = ''resolveSoa'' then
        has_props [(''nsname'', is_str), (''hostmaster'', is_str), (''serial'', num32), (''refresh'', num32),
          (''retry'', num32), (''expire'', num32), (''minttl'', num32), (''type'', \<lambda>v. v = JUndef)]
      else if method = ''resolveAny'' then (\<lambda>v. list_ex (\<lambda>spec. spec v) any_specs)
      else if method = ''resolveCaa'' then is_caa is_str
      else (\<lambda>v. False))"

definition value_ok :: "string \<Rightarrow> bool \<Rightarrow> jsval \<Rightarrow> bool" where
  "value_ok method with_ttl v =
     (if method = ''resolveSoa'' then element_ok method with_ttl v
      else (case v of
          JList xs \<Rightarrow> list_all (element_ok method with_ttl) xs \<and>
            (method \<in> {''resolve4'', ''resolve6'', ''resolveCname'', ''resolveNs'', ''resolvePtr''} \<longrightarrow> xs \<noteq> [])
        | _ \<Rightarrow> False))"

lemmas value_simps = is_str_def is_num_def is_address_def has_props_def is_bytes_def is_texts_def is_label_def

lemma byte_at_le: "byte_at bs i \<le> 255"
  using byte_at_less [of bs i] by linarith

lemma read_address_ok:
  assumes "read_address m r family = Inr v" "family = 4 \<or> family = 6"
  shows "is_address family v"
proof (cases "family = 4")
  case True
  let ?bs = "map (\<lambda>i. byte_at (m_bytes m) (r_start r + i)) [0, 1, 2, 3]"
  have "v = JStr (ipv4_text ?bs)"
    using assms(1) True by (auto simp: read_address_def Let_def ipv4_text_def split: if_splits)
  moreover have "parseIPv4 (ipv4_text ?bs) = Some ?bs"
    by (intro parseIPv4_text) (simp_all add: byte_at_le)
  ultimately show ?thesis using True by (simp add: is_address_def isIP_def parseIP_def)
next
  case False
  let ?ws = "map (\<lambda>i. u16 (m_bytes m) (r_start r + i * 2)) [0..<8]"
  have "v = JStr (formatIPv6 ?ws)"
    using assms(1) False by (auto simp: read_address_def Let_def split: if_splits)
  moreover have "parseIP (formatIPv6 ?ws) \<noteq> None \<and> isIP (formatIPv6 ?ws) = 6"
    using parseIP_format [of ?ws] u16_less by (simp add: isIP_def)
  ultimately show ?thesis using False assms(2) by (simp add: is_address_def)
qed

lemma txt_chunks_ok: "txt_chunks b at fin = Inr xs \<Longrightarrow> list_all is_str xs"
proof (induction b at fin arbitrary: xs rule: txt_chunks.induct)
  case (1 b at fin)
  then show ?case
    by (subst (asm) (2) txt_chunks.simps) (auto simp: bindE_eq_Inr is_str_def split: if_splits)
qed

lemma readers_ok:
  "read_namerec m r = Inr v \<Longrightarrow> element_ok ''resolveNs'' t v"
  "read_namerec m r = Inr v \<Longrightarrow> element_ok ''resolveCname'' t v"
  "read_namerec m r = Inr v \<Longrightarrow> element_ok ''resolvePtr'' t v"
  "read_mx m r = Inr v \<Longrightarrow> element_ok ''resolveMx'' t v"
  "read_txt m r = Inr v \<Longrightarrow> element_ok ''resolveTxt'' t v"
  "read_srv m r = Inr v \<Longrightarrow> element_ok ''resolveSrv'' t v"
  "read_naptr m r = Inr v \<Longrightarrow> element_ok ''resolveNaptr'' t v"
  "read_tlsa m r = Inr v \<Longrightarrow> element_ok ''resolveTlsa'' t v"
  "read_soa m r = Inr v \<Longrightarrow> element_ok ''resolveSoa'' t v"
  by (auto simp: read_namerec_def read_mx_def read_txt_def read_srv_def read_naptr_def
      read_tlsa_def read_soa_def element_ok_def value_simps u16_less u32_less Let_def bindE_eq_Inr
      dest: txt_chunks_ok split: if_splits)

lemma read_caa_ok: "read_caa m r = Inr v \<Longrightarrow> is_caa is_str v"
  using byte_at_less [of "m_bytes m" "r_start r"]
  by (auto simp: read_caa_def is_caa_def assign_string_def value_simps Let_def split: if_splits)

lemma caa_method: "element_ok ''resolveCaa'' t = is_caa is_str"
  by (simp add: element_ok_def)

lemma ofType_in: "r \<in> set (ofType m ty) \<Longrightarrow> r \<in> set (m_answers m)"
  by (simp add: ofType_def)

lemma follow_cnames_ttl:
  "follow_cnames hops lower m cnames owner ttl = Inr (owner', ttl') \<Longrightarrow> ttl' \<le> ttl"
proof (induction hops lower m cnames owner ttl rule: follow_cnames.induct)
  case (2 hops lower m cnames owner ttl)
  then show ?case by (fastforce simp: bindE_eq_Inr split: option.splits)
qed simp

lemma addressRecords_ok:
  assumes "addressRecords lower m qname ty = Inr rs" "(r, ttl) \<in> set rs"
  shows "r \<in> set (m_answers m) \<and> r_type r = ty \<and> ttl \<le> r_ttl r"
  using assms by (auto simp: addressRecords_def ofType_def Let_def bindE_eq_Inr split: if_splits)

lemma mapE_all:
  assumes "mapE f xs = Inr ys" "\<And>x y. x \<in> set xs \<Longrightarrow> f x = Inr y \<Longrightarrow> P y"
  shows "list_all P ys"
proof -
  have "length xs = length ys" "\<forall>i < length ys. f (xs ! i) = Inr (ys ! i)"
    using mapE_Inr [OF assms(1)] by (simp_all add: list_all2_conv_all_nth)
  then show ?thesis by (simp add: list_all_length) (metis assms(2) nth_mem)
qed

lemma list_shape_ok:
  assumes "sh_build (list_shape ty read empt) m qname t = Inr xs"
    and "\<And>r v. read m r = Inr v \<Longrightarrow> P v"
  shows "list_all P xs"
  using assms by (auto simp: list_shape_def intro: mapE_all)

lemma address_shape_ok:
  assumes "sh_build (address_shape lower family) m qname t = Inr xs" "family = 4 \<or> family = 6"
    and "list_all (record_ok bs) (m_answers m)"
  shows "list_all (if t then has_props [(''address'', is_address family), (''ttl'', num32)] else is_address family) xs"
proof -
  obtain rs where rs: "addressRecords lower m qname (type_code (if family = 4 then RR_A else RR_AAAA)) = Inr rs"
    and xs: "mapE (\<lambda>(r, ttl). bindE (read_address m r family) (\<lambda>address.
       Inr (if t then JObj [(js ''address'', address), (js ''ttl'', JNum ttl)] else address))) rs = Inr xs"
    using assms(1) by (auto simp: address_shape_def Let_def bindE_eq_Inr)
  show ?thesis
  proof (rule mapE_all [OF xs])
    fix x y
    assume x: "x \<in> set rs" and y: "(\<lambda>(r, ttl). bindE (read_address m r family) (\<lambda>address.
       Inr (if t then JObj [(js ''address'', address), (js ''ttl'', JNum ttl)] else address))) x = Inr y"
    obtain r ttl where rt: "x = (r, ttl)" by (cases x)
    obtain a where a: "read_address m r family = Inr a"
      "y = (if t then JObj [(js ''address'', a), (js ''ttl'', JNum ttl)] else a)"
      using y rt by (auto simp: bindE_eq_Inr)
    have "ttl < 4294967296"
      using addressRecords_ok [OF rs, of r ttl] x rt assms(3) by (force simp: list_all_iff record_ok_def)
    with read_address_ok [OF a(1) assms(2)] a(2)
    show "(if t then has_props [(''address'', is_address family), (''ttl'', num32)] else is_address family) y"
      by (simp add: has_props_def is_num_def)
  qed
qed

lemma any_add_ok:
  assumes "any_add m ty read tag = Inr xs"
    and "\<And>r v. r \<in> set (m_answers m) \<Longrightarrow> read m r = Inr v \<Longrightarrow> P (JObj (put_prop (js ''type'') (JStr (js (type_label ty))) (tag v r)))"
  shows "list_all P xs"
  by (rule mapE_all [OF assms(1) [unfolded any_add_def]]) (use assms(2) in \<open>auto simp: bindE_eq_Inr ofType_def\<close>)

lemmas any_simps = put_prop_def keep_object_def value_simps any_specs_def js_def bindE_eq_Inr Let_def u16_less u32_less

text \<open>The value of each reader, tagged with the type of its record.\<close>

lemma any_tagged:
  "read_namerec m r = Inr v \<Longrightarrow> t \<in> {''CNAME'', ''NS'', ''PTR''} \<Longrightarrow>
    list_ex (\<lambda>spec. spec (JObj (put_prop (js ''type'') (JStr (js t)) [(js ''value'', v)]))) any_specs"
  "read_address m r 4 = Inr v \<Longrightarrow> n < 4294967296 \<Longrightarrow>
    list_ex (\<lambda>spec. spec (JObj (put_prop (js ''type'') (JStr (js ''A'')) [(js ''address'', v), (js ''ttl'', JNum n)]))) any_specs"
  "read_address m r 6 = Inr v \<Longrightarrow> n < 4294967296 \<Longrightarrow>
    list_ex (\<lambda>spec. spec (JObj (put_prop (js ''type'') (JStr (js ''AAAA'')) [(js ''address'', v), (js ''ttl'', JNum n)]))) any_specs"
  "read_txt m r = Inr v \<Longrightarrow>
    list_ex (\<lambda>spec. spec (JObj (put_prop (js ''type'') (JStr (js ''TXT'')) [(js ''entries'', v)]))) any_specs"
  using read_address_ok [of m r 4 v] read_address_ok [of m r 6 v]
  by (auto simp: read_namerec_def read_txt_def any_simps dest: txt_chunks_ok)

lemma any_kept:
  "read_mx m r = Inr v \<Longrightarrow> list_ex (\<lambda>spec. spec (JObj (put_prop (js ''type'') (JStr (js ''MX'')) (keep_object v)))) any_specs"
  "read_srv m r = Inr v \<Longrightarrow> list_ex (\<lambda>spec. spec (JObj (put_prop (js ''type'') (JStr (js ''SRV'')) (keep_object v)))) any_specs"
  "read_naptr m r = Inr v \<Longrightarrow> list_ex (\<lambda>spec. spec (JObj (put_prop (js ''type'') (JStr (js ''NAPTR'')) (keep_object v)))) any_specs"
  "read_soa m r = Inr v \<Longrightarrow> list_ex (\<lambda>spec. spec (JObj (put_prop (js ''type'') (JStr (js ''SOA'')) (keep_object v)))) any_specs"
  by (auto simp: read_mx_def read_srv_def read_naptr_def read_soa_def any_simps split: if_splits)

lemma any_caa:
  assumes "read_caa m r = Inr v"
  shows "list_ex (\<lambda>spec. spec (JObj (put_prop (js ''type'') (JStr (js ''CAA'')) (keep_object v)))) any_specs"
proof -
  have "js ''critical'' \<noteq> js ''type''" by (simp add: js_def)
  then have "is_caa (is_label ''CAA'') (JObj (put_prop (js ''type'') (JStr (js ''CAA'')) (keep_object v)))"
    using assms byte_at_less [of "m_bytes m" "r_start r"]
    by (auto simp: read_caa_def is_caa_def assign_string_def put_prop_def keep_object_def value_simps Let_def split: if_splits)
  then show ?thesis by (simp add: any_specs_def)
qed

lemma any_build_ok:
  assumes "any_build m = Inr xs" and "list_all (record_ok bs) (m_answers m)"
  shows "list_all (\<lambda>v. list_ex (\<lambda>spec. spec v) any_specs) xs"
proof -
  let ?P = "\<lambda>v. list_ex (\<lambda>spec. spec v) any_specs" and ?plain = "\<lambda>v r. [(js ''value'', v)]" and ?keep = "\<lambda>v r. keep_object v"
    and ?address = "\<lambda>v r. [(js ''address'', v), (js ''ttl'', JNum (r_ttl r))]"
  have ttl: "r_ttl r < 4294967296" if "r \<in> set (m_answers m)" for r using assms(2) that by (auto simp: list_all_iff record_ok_def)
  have names: "any_add m ty read_namerec ?plain = Inr ys \<Longrightarrow> list_all ?P ys" if "ty \<in> {RR_CNAME, RR_NS, RR_PTR}" for ty ys
    by (erule any_add_ok) (use that in \<open>auto intro!: any_tagged(1)\<close>)
  have addresses: "any_add m RR_A (\<lambda>m r. read_address m r 4) ?address = Inr ys \<Longrightarrow> list_all ?P ys"
    "any_add m RR_AAAA (\<lambda>m r. read_address m r 6) ?address = Inr ys \<Longrightarrow> list_all ?P ys" for ys
    by (erule any_add_ok, simp add: any_tagged(2,3) ttl)+
  have kept: "any_add m RR_MX read_mx ?keep = Inr ys \<Longrightarrow> list_all ?P ys"
    "any_add m RR_TXT read_txt (\<lambda>v r. [(js ''entries'', v)]) = Inr ys \<Longrightarrow> list_all ?P ys"
    "any_add m RR_SRV read_srv ?keep = Inr ys \<Longrightarrow> list_all ?P ys" "any_add m RR_NAPTR read_naptr ?keep = Inr ys \<Longrightarrow> list_all ?P ys"
    "any_add m RR_SOA read_soa ?keep = Inr ys \<Longrightarrow> list_all ?P ys" "any_add m RR_CAA read_caa ?keep = Inr ys \<Longrightarrow> list_all ?P ys" for ys
    by (erule any_add_ok, simp add: any_tagged(4) any_kept any_caa)+
  show ?thesis
    using assms(1) by (auto simp: any_build_def Let_def bindE_eq_Inr dest!: names [rotated] addresses kept)
qed

text \<open>C18: whatever well-formed message arrives, a value reported by a query method has the type of that
  method: the properties in order with their kinds and ranges, addresses that are literals of the family asked,
  and never an empty list where the method reports an error instead.\<close>

theorem answer_typed:
  assumes "parseMessage bs = Inr m" "answerFor lower method m qname t = Inr (Answer_value v)"
  shows "value_ok method t v"
proof -
  have ok: "list_all (record_ok bs) (m_answers m)" using parse_records_ok [OF assms(1)] by simp
  obtain sh xs where sh: "shapeFor lower method = Inr sh" and xs: "sh_build sh m qname t = Inr xs"
    and v: "v = (if sh_single sh then hd xs else JList xs)" and ne: "sh_empty sh \<noteq> Empty_list \<longrightarrow> xs \<noteq> []"
    using assms(2)
    by (cases "shapeFor lower method")
       (auto simp: answerFor_def bindE_eq_Inr split: if_splits sum.splits,
        (metis empty_policy.exhaust)+)
  from sh consider (a4) "method = ''resolve4''" "sh = address_shape lower 4"
    | (a6) "method = ''resolve6''" "sh = address_shape lower 6"
    | (soa) "method = ''resolveSoa''" "sh = soa_shape"
    | (any) "method = ''resolveAny''" "sh = any_shape"
    | (rest) ty read empt where "sh = list_shape ty read empt" "method \<notin> {''resolve4'', ''resolve6'', ''resolveSoa'', ''resolveAny''}"
        "\<And>r v. read m r = Inr v \<Longrightarrow> element_ok method t v"
        "method \<in> {''resolveCname'', ''resolveNs'', ''resolvePtr''} \<Longrightarrow> empt = Empty_error"
    unfolding shapeFor_def
    by (auto split: if_splits intro: readers_ok simp: caa_method dest: read_caa_ok)
  then show ?thesis
  proof cases
    case a4
    then have "list_all (element_ok method t) xs"
      using address_shape_ok [OF _ _ ok, of lower 4 qname t xs] xs by (simp add: element_ok_def)
    with a4 v ne show ?thesis by (simp add: value_ok_def address_shape_def Let_def)
  next
    case a6
    then have "list_all (element_ok method t) xs"
      using address_shape_ok [OF _ _ ok, of lower 6 qname t xs] xs by (simp add: element_ok_def)
    with a6 v ne show ?thesis by (simp add: value_ok_def address_shape_def Let_def)
  next
    case soa
    then have "list_all (element_ok method t) xs" "xs \<noteq> []"
      using xs ne mapE_all [of "read_soa m" "ofType m (type_code RR_SOA)" xs] readers_ok(9)
      by (auto simp: soa_shape_def)
    with soa v show ?thesis by (cases xs) (simp_all add: value_ok_def soa_shape_def)
  next
    case any
    then have "list_all (element_ok method t) xs"
      using xs any_build_ok [OF _ ok] by (simp add: any_shape_def element_ok_def)
    with any v show ?thesis by (simp add: value_ok_def any_shape_def)
  next
    case (rest ty read empt)
    have "list_all (element_ok method t) xs"
      using list_shape_ok [OF xs [unfolded rest(1)]] rest(3) by blast
    with rest v ne show ?thesis by (auto simp: value_ok_def list_shape_def)
  qed
qed

definition query_methods :: "string list" where
  "query_methods = [''resolve4'', ''resolve6'', ''resolveCname'', ''resolveNs'', ''resolvePtr'', ''resolveMx'',
     ''resolveTxt'', ''resolveSrv'', ''resolveNaptr'', ''resolveCaa'', ''resolveTlsa'', ''resolveSoa'', ''resolveAny'']"

text \<open>a query method never throws on a response. It reports the error of a response code, ENODATA for a response
  without answers, EBADRESP for data it cannot read, and a value only for a successful response with
  answers.\<close>

theorem answer_codes:
  assumes "method \<in> set query_methods"
  shows "\<exists>a. answerFor lower method m qname t = Inr a \<and>
    (case a of
       Answer_code c \<Rightarrow>
         (if m_rcode m \<noteq> 0 then c = rcode_error (m_rcode m)
          else if m_answers m = [] then c = ''ENODATA'' else c = ''ENODATA'' \<or> c = ''EBADRESP'')
     | Answer_value v \<Rightarrow> m_rcode m = 0 \<and> m_answers m \<noteq> [])"
proof -
  have "\<exists>sh. shapeFor lower method = Inr sh"
    using assms by (auto simp: query_methods_def shapeFor_def)
  then obtain sh where "shapeFor lower method = Inr sh" ..
  then show ?thesis by (auto simp: answerFor_def split: sum.splits)
qed

theorem answer_codes_witness:
  "\<exists>a. answerFor (\<lambda>s. s) ''resolveMx'' \<lparr>m_id = 1, m_flags = 0, m_rcode = 3, m_tc = False, m_questions = [],
      m_answers = [], m_bytes = []\<rparr> [] False = Inr a"
  using answer_codes [of "''resolveMx''"] by (fastforce simp: query_methods_def)

text \<open>A response with one MX record: preference 10, exchange the root.\<close>

definition mx_response :: "byte list" where
  "mx_response = [0, 1, 129, 128, 0, 0, 0, 1, 0, 0, 0, 0, 0, 0, 15, 0, 1, 0, 0, 0, 60, 0, 3, 0, 10, 0]"

lemma readName_root: "length pre = n \<Longrightarrow> readName (pre @ 0 # rest) n = Inr ([], n + 1)"
  using readName_labels [of "[]" pre rest] by (auto simp: label_bytes_def wire_size_def present_name_def)

lemma mx_response_names: "readName mx_response 12 = Inr ([], 13)" "readName mx_response 25 = Inr ([], 26)"
  using readName_root [of "take 12 mx_response" 12 "drop 13 mx_response"]
    readName_root [of "take 25 mx_response" 25 "drop 26 mx_response"]
  by (simp_all add: mx_response_def)

lemma mx_response_parses:
  "parseMessage mx_response = Inr \<lparr>m_id = 1, m_flags = 33152, m_rcode = 0, m_tc = False, m_questions = [],
     m_answers = [\<lparr>r_name = [], r_type = 15, r_class = 1, r_ttl = 60, r_start = 23, r_end = 26\<rparr>], m_bytes = mx_response\<rparr>"
  using mx_response_names(1)
  by (simp add: parseMessage_def u16_def u32_def byte_at_def Let_def) (simp add: mx_response_def u16_def u32_def byte_at_def)

theorem answer_typed_witness:
  "value_ok ''resolveMx'' False (JList [JObj [(js ''exchange'', JStr []), (js ''priority'', JNum 10), (js ''type'', JStr (js ''MX''))]])"
  by (rule answer_typed [OF mx_response_parses, of "\<lambda>s. s" _ "[]"])
    (simp add: answerFor_def shapeFor_def list_shape_def ofType_def read_mx_def mx_response_names, simp add: mx_response_def u16_def byte_at_def)

end
