(* ===== verification/DnsResolver.thy ===== *)
theory DnsResolver
  imports DnsAnswer
begin

text \<open>
  The resolver of \<open>quickjs/runtime/node-dns.js\<close> (\<open>createCore\<close>, class \<open>Channel\<close>) as a state machine: queries
  with their timers, sockets and connections, the attempts over the servers, the responses that end them. The steps
  of the environment (a tick, a timer, a datagram, an error) are the relation \<open>dns_step\<close>; the invariants hold
  in every reachable state.
\<close>

subsection \<open>Servers\<close>

record dns_server =
  sv_ip :: jsstr
  sv_port :: nat
  sv_family :: nat
  sv_host :: jsstr

text \<open>\<open>None\<close>: the text is no address and reading its \<open>text\<close> throws; the callers check it first.\<close>

definition makeServer :: "jsstr \<Rightarrow> nat \<Rightarrow> dns_server option" where
  "makeServer ip port =
     map_option (\<lambda>parsed. \<lparr>sv_ip = ip_text parsed, sv_port = port, sv_family = ip_family parsed,
       sv_host = (case ip_zone parsed of None \<Rightarrow> ip_text parsed | Some zone \<Rightarrow> ip_text parsed @ [37] @ zone)\<rparr>)
       (parseIP ip)"

definition serverKey :: "dns_server \<Rightarrow> jsstr" where
  "serverKey s = sv_ip s @ [58] @ decimal (sv_port s)"

subsection \<open>The state of a channel\<close>

text \<open>
  A query is known by its handle, the number of the call that made it. A timer holds its delay and the
  server it was armed for, a TCP connection its number, its server and the bytes received. What is still to run
  in \<open>nextTick\<close> is a list of ticks; the log records what the channel did.
\<close>

datatype transport = UDP | TCP

datatype outcome = Failed string | Answered dns_message

record dns_query =
  dq_id :: nat
  dq_packet :: "byte list"
  dq_text :: jsstr
  dq_type :: nat
  dq_attempt :: nat
  dq_sentTo :: "jsstr list"
  dq_families :: "nat list"
  dq_timer :: "(nat \<times> dns_server) option"
  dq_tcp :: "(nat \<times> dns_server) option"
  dq_chunks :: "byte list"
  dq_server :: "dns_server option"
  dq_mode :: "transport option"
  dq_lastError :: "string option"
  dq_finished :: bool

datatype tick = Tick_attempt nat | Tick_cancel nat | Tick_badname nat

datatype dns_event = Sent nat dns_server nat | Connected nat dns_server | Reported nat outcome

record dns_channel =
  ch_opt_timeout :: "int option"
  ch_opt_tries :: "nat option"
  ch_maxTimeout :: nat
  ch_def_timeout :: "nat option"
  ch_def_tries :: "nat option"
  ch_own_servers :: "dns_server list option"
  ch_def_servers :: "dns_server list"
  ch_queries :: "nat \<Rightarrow> dns_query option"
  ch_next :: nat
  ch_pending :: "nat list"
  ch_byId :: "nat \<Rightarrow> nat option"
  ch_sockets :: "nat list"
  ch_tcps :: nat
  ch_failures :: "jsstr \<Rightarrow> nat"
  ch_ticks :: "tick list"
  ch_log :: "dns_event list"

definition chTimeout :: "dns_channel \<Rightarrow> nat" where
  "chTimeout ch =
     (case ch_opt_timeout ch of
        Some t \<Rightarrow> if 0 \<le> t then nat t else (case ch_def_timeout ch of Some d \<Rightarrow> d | None \<Rightarrow> 2000)
      | None \<Rightarrow> (case ch_def_timeout ch of Some d \<Rightarrow> d | None \<Rightarrow> 2000))"

definition chTries :: "dns_channel \<Rightarrow> nat" where
  "chTries ch =
     (case ch_opt_tries ch of Some t \<Rightarrow> t | None \<Rightarrow> (case ch_def_tries ch of Some t \<Rightarrow> t | None \<Rightarrow> 4))"

definition chServers :: "dns_channel \<Rightarrow> dns_server list" where
  "chServers ch = (case ch_own_servers ch of Some s \<Rightarrow> s | None \<Rightarrow> ch_def_servers ch)"

definition newChannel ::
  "int option \<Rightarrow> nat option \<Rightarrow> nat \<Rightarrow> nat option \<Rightarrow> nat option \<Rightarrow> dns_server list \<Rightarrow> dns_channel" where
  "newChannel timeout tries maxTimeout def_timeout def_tries def_servers =
     \<lparr>ch_opt_timeout = timeout, ch_opt_tries = tries, ch_maxTimeout = maxTimeout, ch_def_timeout = def_timeout,
      ch_def_tries = def_tries, ch_own_servers = None, ch_def_servers = def_servers, ch_queries = (\<lambda>_. None), ch_next = 0,
      ch_pending = [], ch_byId = (\<lambda>_. None), ch_sockets = [], ch_tcps = 0, ch_failures = (\<lambda>_. 0), ch_ticks = [],
      ch_log = []\<rparr>"

definition update_query :: "nat \<Rightarrow> (dns_query \<Rightarrow> dns_query) \<Rightarrow> dns_channel \<Rightarrow> dns_channel" where
  "update_query h f ch = ch\<lparr>ch_queries := (ch_queries ch)(h := map_option f (ch_queries ch h))\<rparr>"

definition log_event :: "dns_event \<Rightarrow> dns_channel \<Rightarrow> dns_channel" where
  "log_event e ch = ch\<lparr>ch_log := ch_log ch @ [e]\<rparr>"

definition add_tick :: "tick \<Rightarrow> dns_channel \<Rightarrow> dns_channel" where
  "add_tick t ch = ch\<lparr>ch_ticks := ch_ticks ch @ [t]\<rparr>"

subsection \<open>Choosing a server\<close>

fun pick_loop :: "(jsstr \<Rightarrow> nat) \<Rightarrow> dns_server \<Rightarrow> dns_server list \<Rightarrow> dns_server" where
  "pick_loop failures best [] = best"
| "pick_loop failures best (s # ss) =
     pick_loop failures (if failures (serverKey s) < failures (serverKey best) then s else best) ss"

definition dnsPick :: "dns_channel \<Rightarrow> dns_server list \<Rightarrow> dns_server" where
  "dnsPick ch servers = pick_loop (ch_failures ch) (hd servers) (tl servers)"

definition dnsFail :: "dns_server \<Rightarrow> dns_channel \<Rightarrow> dns_channel" where
  "dnsFail s ch = ch\<lparr>ch_failures := (ch_failures ch)(serverKey s := ch_failures ch (serverKey s) + 1)\<rparr>"

subsection \<open>Ending a query\<close>

definition closeTcp :: "nat \<Rightarrow> dns_channel \<Rightarrow> dns_channel" where
  "closeTcp h ch = update_query h (\<lambda>q. q\<lparr>dq_tcp := None\<rparr>) ch"

definition family_used :: "dns_channel \<Rightarrow> nat \<Rightarrow> nat \<Rightarrow> bool" where
  "family_used ch h family =
     list_ex (\<lambda>g. g \<noteq> h \<and> (case ch_queries ch g of Some q \<Rightarrow> family \<in> set (dq_families q) | None \<Rightarrow> False))
       (ch_pending ch)"

definition dnsRelease :: "nat \<Rightarrow> dns_channel \<Rightarrow> dns_channel" where
  "dnsRelease h ch =
     (case ch_queries ch h of
        None \<Rightarrow> ch
      | Some q \<Rightarrow>
          update_query h (\<lambda>q. q\<lparr>dq_families := []\<rparr>)
            (ch\<lparr>ch_sockets := filter (\<lambda>f. f \<notin> set (dq_families q) \<or> family_used ch h f) (ch_sockets ch)\<rparr>))"

definition dnsFinish :: "nat \<Rightarrow> outcome \<Rightarrow> dns_channel \<Rightarrow> dns_channel" where
  "dnsFinish h result ch =
     (case ch_queries ch h of
        None \<Rightarrow> ch
      | Some q \<Rightarrow>
          if dq_finished q then ch
          else log_event (Reported h result)
            (dnsRelease h
              ((closeTcp h (update_query h (\<lambda>q. q\<lparr>dq_finished := True, dq_timer := None\<rparr>) ch))
                \<lparr>ch_pending := removeAll h (ch_pending ch), ch_byId := (ch_byId ch)(dq_id q := None)\<rparr>)))"

subsection \<open>Attempts\<close>

definition connectionFailed :: "nat \<Rightarrow> dns_server \<Rightarrow> dns_channel \<Rightarrow> dns_channel" where
  "connectionFailed h server ch =
     (case ch_queries ch h of
        None \<Rightarrow> ch
      | Some q \<Rightarrow>
          if dq_finished q then ch
          else add_tick (Tick_attempt h)
            (update_query h (\<lambda>q. q\<lparr>dq_timer := None, dq_lastError := Some ''ECONNREFUSED'', dq_tcp := None,
               dq_attempt := dq_attempt q + 1\<rparr>) (dnsFail server ch)))"

text \<open>The datagram socket of a family; \<open>bind_ok\<close>: it can be created and bound.\<close>

definition dnsSocket :: "bool \<Rightarrow> nat \<Rightarrow> dns_channel \<Rightarrow> dns_channel option" where
  "dnsSocket bind_ok family ch =
     (if family \<in> set (ch_sockets ch) then Some ch
      else if bind_ok then Some (ch\<lparr>ch_sockets := ch_sockets ch @ [family]\<rparr>) else None)"

definition attempt_wait :: "dns_channel \<Rightarrow> nat \<Rightarrow> nat" where
  "attempt_wait ch round =
     (let wait = chTimeout ch * 2 ^ min round 30
      in if 0 < ch_maxTimeout ch then min wait (ch_maxTimeout ch) else wait)"

definition dnsAttempt :: "bool \<Rightarrow> bool \<Rightarrow> nat \<Rightarrow> dns_channel \<Rightarrow> dns_channel" where
  "dnsAttempt bind_ok send_ok h ch =
     (case ch_queries ch h of
        None \<Rightarrow> ch
      | Some q \<Rightarrow>
          if dq_finished q then ch
          else let servers = chServers ch
          in if servers = [] then dnsFinish h (Failed ''UNKNOWN_ARES_ERROR'') ch
             else if chTries ch * length servers \<le> dq_attempt q
             then dnsFinish h (Failed (case dq_lastError q of Some e \<Rightarrow> e | None \<Rightarrow> ''ETIMEOUT'')) ch
             else let server = dnsPick ch servers;
                      wait = attempt_wait ch (dq_attempt q div length servers);
                      armed = update_query h (\<lambda>q. q\<lparr>dq_server := Some server, dq_mode := Some UDP,
                        dq_timer := Some (wait, server)\<rparr>) ch
             in case dnsSocket bind_ok (sv_family server) armed of
                  None \<Rightarrow> connectionFailed h server armed
                | Some opened \<Rightarrow>
                    let ready = update_query h (\<lambda>q. q\<lparr>dq_families := List.insert (sv_family server) (dq_families q),
                          dq_sentTo := List.insert (serverKey server) (dq_sentTo q)\<rparr>) opened
                    in if send_ok then log_event (Sent h server wait) ready
                       else connectionFailed h server ready)"

definition timedOut :: "bool \<Rightarrow> bool \<Rightarrow> nat \<Rightarrow> dns_server \<Rightarrow> dns_channel \<Rightarrow> dns_channel" where
  "timedOut bind_ok send_ok h server ch =
     (case ch_queries ch h of
        None \<Rightarrow> ch
      | Some q \<Rightarrow>
          if dq_finished q then ch
          else dnsAttempt bind_ok send_ok h
            (update_query h (\<lambda>q. q\<lparr>dq_lastError := Some ''ETIMEOUT'', dq_tcp := None, dq_attempt := dq_attempt q + 1\<rparr>)
              (dnsFail server ch)))"

definition socketFailed :: "nat \<Rightarrow> dns_channel \<Rightarrow> dns_channel" where
  "socketFailed family ch =
     (if family \<notin> set (ch_sockets ch) then ch
      else fold (\<lambda>h ch.
             (case ch_queries ch h of
                Some q \<Rightarrow>
                  (case dq_server q of
                     Some server \<Rightarrow>
                       if dq_mode q = Some UDP \<and> sv_family server = family then connectionFailed h server ch else ch
                   | None \<Rightarrow> ch)
              | None \<Rightarrow> ch))
             (ch_pending ch) (ch\<lparr>ch_sockets := removeAll family (ch_sockets ch)\<rparr>))"

subsection \<open>Responses\<close>

definition startTcp :: "bool \<Rightarrow> nat \<Rightarrow> dns_server \<Rightarrow> dns_channel \<Rightarrow> dns_channel" where
  "startTcp connect_ok h server ch =
     (let ch1 = update_query h (\<lambda>q. q\<lparr>dq_tcp := None, dq_mode := Some TCP, dq_chunks := []\<rparr>) ch
      in if connect_ok
         then log_event (Connected h server)
           (update_query h (\<lambda>q. q\<lparr>dq_tcp := Some (ch_tcps ch, server)\<rparr>) ch1) \<lparr>ch_tcps := ch_tcps ch + 1\<rparr>
         else connectionFailed h server ch1)"

text \<open>The frame written once a TCP connection stands.\<close>

definition tcp_frame :: "byte list \<Rightarrow> byte list" where
  "tcp_frame packet = be_bytes 2 (length packet) @ packet"

definition dnsResponse ::
  "(jsstr \<Rightarrow> jsstr) \<Rightarrow> bool \<Rightarrow> nat \<Rightarrow> byte list \<Rightarrow> dns_server \<Rightarrow> bool \<Rightarrow> dns_channel \<Rightarrow> dns_channel" where
  "dnsResponse lower connect_ok h bs server overTcp ch =
     (case ch_queries ch h of
        None \<Rightarrow> ch
      | Some q \<Rightarrow>
          (case parseMessage bs of
             Inl _ \<Rightarrow> dnsFinish h (Failed ''EBADRESP'') ch
           | Inr m \<Rightarrow>
               (case m_questions m of
                  [] \<Rightarrow> dnsFinish h (Failed ''EBADRESP'') ch
                | asked # _ \<Rightarrow>
                    if q_type asked \<noteq> dq_type q \<or> q_class asked \<noteq> 1 then ch
                    else if toLowerCase lower (q_name asked) \<noteq> toLowerCase lower (dq_text q) then ch
                    else let ch1 = ch\<lparr>ch_failures := (ch_failures ch)(serverKey server := 0)\<rparr>
                    in if m_tc m \<and> \<not> overTcp then startTcp connect_ok h server ch1
                       else dnsFinish h (Answered m) ch1)))"

text \<open>An IPv4 address in the form \<open>::ffff:a.b.c.d\<close>, as a dual-stack socket reports it, loses the prefix.\<close>

definition unmap_address :: "jsstr \<Rightarrow> jsstr" where
  "unmap_address t =
     (let rest = drop 7 t; parts = split_on 46 rest
      in if map ascii_lower (take 7 t) = js ''::ffff:'' \<and> length parts = 4 \<and>
            list_all (\<lambda>p. p \<noteq> [] \<and> list_all is_digit p) parts
         then rest else t)"

definition dnsDatagram ::
  "(jsstr \<Rightarrow> jsstr) \<Rightarrow> bool \<Rightarrow> byte list \<Rightarrow> jsstr \<Rightarrow> nat \<Rightarrow> dns_channel \<Rightarrow> dns_channel" where
  "dnsDatagram lower connect_ok msg address port ch =
     (if length msg < 2 then ch
      else case ch_byId ch (u16 msg 0) of
          None \<Rightarrow> ch
        | Some h \<Rightarrow>
            (case ch_queries ch h of
               None \<Rightarrow> ch
             | Some q \<Rightarrow>
                 if dq_finished q \<or> dq_mode q \<noteq> Some UDP then ch
                 else case parseIP (unmap_address address) of
                     None \<Rightarrow> ch
                   | Some from \<Rightarrow>
                       if ip_text from @ [58] @ decimal port \<notin> set (dq_sentTo q) then ch
                       else case find (\<lambda>s. sv_ip s = ip_text from \<and> sv_port s = port) (chServers ch) of
                           Some server \<Rightarrow> dnsResponse lower connect_ok h msg server False ch
                         | None \<Rightarrow>
                             (case dq_server q of
                                Some server \<Rightarrow> dnsResponse lower connect_ok h msg server False ch
                              | None \<Rightarrow> ch)))"

text \<open>The frames at the front of the bytes received; the first that carries the id of the query ends the loop.\<close>

function tcp_loop :: "nat \<Rightarrow> byte list \<Rightarrow> byte list option \<times> byte list" where
  "tcp_loop qid chunks =
     (if 2 \<le> length chunks \<and> 2 + u16 chunks 0 \<le> length chunks
      then let len = u16 chunks 0; body = take len (drop 2 chunks); rest = drop (2 + len) chunks
        in if 2 \<le> length body \<and> u16 body 0 = qid then (Some body, rest) else tcp_loop qid rest
      else (None, chunks))"
  by pat_completeness auto
termination
  by (relation "measure (\<lambda>(qid, chunks). length chunks)") auto

declare tcp_loop.simps [simp del]

definition tcpData :: "(jsstr \<Rightarrow> jsstr) \<Rightarrow> nat \<Rightarrow> nat \<Rightarrow> byte list \<Rightarrow> dns_channel \<Rightarrow> dns_channel" where
  "tcpData lower h socket chunk ch =
     (case ch_queries ch h of
        None \<Rightarrow> ch
      | Some q \<Rightarrow>
          (case dq_tcp q of
             Some (n, server) \<Rightarrow>
               if n \<noteq> socket \<or> dq_finished q then ch
               else let (found, rest) = tcp_loop (dq_id q) (dq_chunks q @ chunk);
                        ch1 = update_query h (\<lambda>q. q\<lparr>dq_chunks := rest\<rparr>) ch
               in (case found of
                     None \<Rightarrow> ch1
                   | Some body \<Rightarrow> dnsResponse lower True h body server True ch1)
           | None \<Rightarrow> ch))"

definition tcpFailed :: "nat \<Rightarrow> nat \<Rightarrow> dns_channel \<Rightarrow> dns_channel" where
  "tcpFailed h socket ch =
     (case ch_queries ch h of
        None \<Rightarrow> ch
      | Some q \<Rightarrow>
          (case dq_tcp q of
             Some (n, server) \<Rightarrow> if n = socket \<and> \<not> dq_finished q then connectionFailed h server ch else ch
           | None \<Rightarrow> ch))"

text \<open>The callback of \<open>send\<close> with an error.\<close>

definition sendFailed :: "nat \<Rightarrow> dns_server \<Rightarrow> dns_channel \<Rightarrow> dns_channel" where
  "sendFailed h server ch =
     (case ch_queries ch h of
        None \<Rightarrow> ch
      | Some q \<Rightarrow>
          if \<not> dq_finished q \<and> dq_server q = Some server \<and> dq_mode q = Some UDP
          then connectionFailed h server ch else ch)"

subsection \<open>Starting and cancelling\<close>

text \<open>\<open>qid\<close> is the random id drawn, one that no pending query has.\<close>

definition dnsQuery ::
  "(jsstr \<Rightarrow> jsstr) \<Rightarrow> (jsstr \<Rightarrow> jsstr) \<Rightarrow> (jsstr \<Rightarrow> jsstr option) option \<Rightarrow> jsstr \<Rightarrow> nat \<Rightarrow> nat \<Rightarrow> dns_channel \<Rightarrow> dns_channel" where
  "dnsQuery lower nfc toASCII name type qid ch =
     (let h = ch_next ch; ch = ch\<lparr>ch_next := h + 1\<rparr>
      in case nameToLabels lower nfc toASCII name of
           None \<Rightarrow> add_tick (Tick_badname h) ch
         | Some labels \<Rightarrow>
             add_tick (Tick_attempt h)
               (ch\<lparr>ch_queries := (ch_queries ch)(h :=
                    Some \<lparr>dq_id = qid, dq_packet = buildQuery qid labels type, dq_text = present_name labels, dq_type = type,
                      dq_attempt = 0, dq_sentTo = [], dq_families = [], dq_timer = None, dq_tcp = None, dq_chunks = [],
                      dq_server = None, dq_mode = None, dq_lastError = None, dq_finished = False\<rparr>),
                  ch_pending := ch_pending ch @ [h], ch_byId := (ch_byId ch)(qid := Some h)\<rparr>))"

definition dnsCancel :: "dns_channel \<Rightarrow> dns_channel" where
  "dnsCancel ch = fold (\<lambda>h. add_tick (Tick_cancel h)) (ch_pending ch) ch"

definition runTick :: "bool \<Rightarrow> bool \<Rightarrow> tick \<Rightarrow> dns_channel \<Rightarrow> dns_channel" where
  "runTick bind_ok send_ok t ch =
     (case t of
        Tick_attempt h \<Rightarrow> dnsAttempt bind_ok send_ok h ch
      | Tick_cancel h \<Rightarrow> dnsFinish h (Failed ''ECANCELLED'') ch
      | Tick_badname h \<Rightarrow> log_event (Reported h (Failed ''EBADNAME'')) ch)"

subsection \<open>Steps of a channel\<close>

text \<open>
  The outcomes of host calls (a socket binds, a datagram is sent, a connection is opened) are free. A \<open>send\<close> may
  report its error long after, in any state.
\<close>

inductive dns_step ::
  "(jsstr \<Rightarrow> jsstr) \<Rightarrow> (jsstr \<Rightarrow> jsstr) \<Rightarrow> (jsstr \<Rightarrow> jsstr option) option \<Rightarrow> dns_channel \<Rightarrow> dns_channel \<Rightarrow> bool"
  for lower nfc toASCII where
  Query: "qid < 65536 \<Longrightarrow> ch_byId ch qid = None \<Longrightarrow> dns_step lower nfc toASCII ch (dnsQuery lower nfc toASCII name type qid ch)"
| Tick: "ch_ticks ch = t # ts \<Longrightarrow> dns_step lower nfc toASCII ch (runTick bind_ok send_ok t (ch\<lparr>ch_ticks := ts\<rparr>))"
| Timer: "ch_queries ch h = Some q \<Longrightarrow> dq_timer q = Some (wait, server) \<Longrightarrow>
    dns_step lower nfc toASCII ch (timedOut bind_ok send_ok h server (update_query h (\<lambda>q. q\<lparr>dq_timer := None\<rparr>) ch))"
| SendError: "Sent h server wait \<in> set (ch_log ch) \<Longrightarrow> dns_step lower nfc toASCII ch (sendFailed h server ch)"
| SocketError: "dns_step lower nfc toASCII ch (socketFailed family ch)"
| Datagram: "dns_step lower nfc toASCII ch (dnsDatagram lower connect_ok msg address port ch)"
| TcpData: "dns_step lower nfc toASCII ch (tcpData lower h socket chunk ch)"
| TcpError: "dns_step lower nfc toASCII ch (tcpFailed h socket ch)"
| Cancel: "dns_step lower nfc toASCII ch (dnsCancel ch)"

definition reports :: "nat \<Rightarrow> dns_channel \<Rightarrow> outcome list" where
  "reports h ch = concat (map (\<lambda>e. case e of Reported g r \<Rightarrow> if g = h then [r] else [] | _ \<Rightarrow> []) (ch_log ch))"

definition sends :: "nat \<Rightarrow> dns_channel \<Rightarrow> nat" where
  "sends h ch = length (filter (\<lambda>e. case e of Sent g _ _ \<Rightarrow> g = h | _ \<Rightarrow> False) (ch_log ch))"

definition ticks :: "tick \<Rightarrow> dns_channel \<Rightarrow> nat" where
  "ticks t ch = count_list (ch_ticks ch) t"

named_theorems chan_simps "how the parts of a channel change"

lemma reports_simps [chan_simps, simp]:
  "reports h (log_event (Reported g r) ch) = reports h ch @ (if g = h then [r] else [])"
  "reports h (log_event (Sent g s w) ch) = reports h ch"
  "reports h (log_event (Connected g s) ch) = reports h ch"
  by (simp_all add: reports_def log_event_def)

lemma sends_simps [chan_simps, simp]:
  "sends h (log_event (Reported g r) ch) = sends h ch"
  "sends h (log_event (Sent g s w) ch) = sends h ch + (if g = h then 1 else 0)"
  "sends h (log_event (Connected g s) ch) = sends h ch"
  by (simp_all add: sends_def log_event_def)

lemma part_update [chan_simps, simp]:
  "reports h (update_query g f ch) = reports h ch" "sends h (update_query g f ch) = sends h ch"
  "ticks t (update_query g f ch) = ticks t ch" "reports h (add_tick t' ch) = reports h ch"
  "sends h (add_tick t' ch) = sends h ch" "ticks t (add_tick t' ch) = ticks t ch + (if t' = t then 1 else 0)"
  "ticks t (log_event e ch) = ticks t ch"
  "reports h (dnsFail s ch) = reports h ch" "sends h (dnsFail s ch) = sends h ch" "ticks t (dnsFail s ch) = ticks t ch"
  by (simp_all add: reports_def sends_def ticks_def update_query_def add_tick_def log_event_def dnsFail_def)

lemma field_update [chan_simps, simp]:
  "ch_pending (update_query g f ch) = ch_pending ch" "ch_byId (update_query g f ch) = ch_byId ch"
  "ch_next (update_query g f ch) = ch_next ch" "ch_sockets (update_query g f ch) = ch_sockets ch"
  "ch_queries (update_query g f ch) = (ch_queries ch)(g := map_option f (ch_queries ch g))"
  "ch_pending (add_tick t ch) = ch_pending ch" "ch_byId (add_tick t ch) = ch_byId ch"
  "ch_next (add_tick t ch) = ch_next ch" "ch_sockets (add_tick t ch) = ch_sockets ch"
  "ch_queries (add_tick t ch) = ch_queries ch" "ch_ticks (add_tick t ch) = ch_ticks ch @ [t]"
  "ch_pending (log_event e ch) = ch_pending ch" "ch_byId (log_event e ch) = ch_byId ch"
  "ch_next (log_event e ch) = ch_next ch" "ch_sockets (log_event e ch) = ch_sockets ch"
  "ch_queries (log_event e ch) = ch_queries ch" "ch_log (log_event e ch) = ch_log ch @ [e]"
  "ch_pending (dnsFail s ch) = ch_pending ch" "ch_byId (dnsFail s ch) = ch_byId ch"
  "ch_next (dnsFail s ch) = ch_next ch" "ch_sockets (dnsFail s ch) = ch_sockets ch"
  "ch_queries (dnsFail s ch) = ch_queries ch"
  by (simp_all add: update_query_def add_tick_def log_event_def dnsFail_def)

lemma part_fields [chan_simps, simp]:
  "reports h (ch\<lparr>ch_queries := a\<rparr>) = reports h ch" "sends h (ch\<lparr>ch_queries := a\<rparr>) = sends h ch"
  "ticks t (ch\<lparr>ch_queries := a\<rparr>) = ticks t ch"
  "reports h (ch\<lparr>ch_next := b\<rparr>) = reports h ch" "sends h (ch\<lparr>ch_next := b\<rparr>) = sends h ch" "ticks t (ch\<lparr>ch_next := b\<rparr>) = ticks t ch"
  "reports h (ch\<lparr>ch_pending := c\<rparr>) = reports h ch" "sends h (ch\<lparr>ch_pending := c\<rparr>) = sends h ch" "ticks t (ch\<lparr>ch_pending := c\<rparr>) = ticks t ch"
  "reports h (ch\<lparr>ch_byId := d\<rparr>) = reports h ch" "sends h (ch\<lparr>ch_byId := d\<rparr>) = sends h ch" "ticks t (ch\<lparr>ch_byId := d\<rparr>) = ticks t ch"
  "reports h (ch\<lparr>ch_sockets := e\<rparr>) = reports h ch" "sends h (ch\<lparr>ch_sockets := e\<rparr>) = sends h ch" "ticks t (ch\<lparr>ch_sockets := e\<rparr>) = ticks t ch"
  "reports h (ch\<lparr>ch_tcps := n\<rparr>) = reports h ch" "sends h (ch\<lparr>ch_tcps := n\<rparr>) = sends h ch" "ticks t (ch\<lparr>ch_tcps := n\<rparr>) = ticks t ch"
  "reports h (ch\<lparr>ch_failures := g\<rparr>) = reports h ch" "sends h (ch\<lparr>ch_failures := g\<rparr>) = sends h ch" "ticks t (ch\<lparr>ch_failures := g\<rparr>) = ticks t ch"
  "reports h (ch\<lparr>ch_ticks := i\<rparr>) = reports h ch" "sends h (ch\<lparr>ch_ticks := i\<rparr>) = sends h ch"
  by (simp_all add: reports_def sends_def ticks_def)

subsection \<open>Changes that end no query\<close>

text \<open>
  What every operation but the end of a query does to the parts the invariant speaks of: queries keep their
  identity and finished ones do not change, nothing is reported, a new socket is one some pending query uses.
\<close>

definition same_query :: "dns_query \<Rightarrow> dns_query \<Rightarrow> bool" where
  "same_query q q' \<longleftrightarrow> dq_id q' = dq_id q \<and> dq_text q' = dq_text q \<and> dq_type q' = dq_type q \<and>
     dq_finished q' = dq_finished q \<and> (dq_finished q \<longrightarrow> q' = q) \<and> set (dq_families q) \<subseteq> set (dq_families q')"

definition settings_of :: "dns_channel \<Rightarrow> int option \<times> nat option \<times> nat \<times> nat option \<times> nat option \<times> dns_server list option \<times> dns_server list" where
  "settings_of ch = (ch_opt_timeout ch, ch_opt_tries ch, ch_maxTimeout ch, ch_def_timeout ch, ch_def_tries ch, ch_own_servers ch, ch_def_servers ch)"

definition family_needed :: "dns_channel \<Rightarrow> nat \<Rightarrow> bool" where
  "family_needed ch f \<longleftrightarrow> (\<exists>h \<in> set (ch_pending ch). \<exists>q. ch_queries ch h = Some q \<and> f \<in> set (dq_families q))"

definition mild :: "dns_channel \<Rightarrow> dns_channel \<Rightarrow> bool" where
  "mild ch ch' \<longleftrightarrow> ch_pending ch' = ch_pending ch \<and> ch_byId ch' = ch_byId ch \<and> ch_next ch' = ch_next ch \<and>
     settings_of ch' = settings_of ch \<and>
     (\<forall>h. reports h ch' = reports h ch \<and> ticks (Tick_badname h) ch' = ticks (Tick_badname h) ch \<and>
        rel_option same_query (ch_queries ch h) (ch_queries ch' h)) \<and>
     (\<forall>f \<in> set (ch_sockets ch'). f \<in> set (ch_sockets ch) \<or> family_needed ch' f)"

lemma same_query_refl [simp]: "same_query q q"
  by (simp add: same_query_def)

lemma same_query_trans: "same_query p q \<Longrightarrow> same_query q r \<Longrightarrow> same_query p r"
  by (auto simp: same_query_def)

lemma rel_same_refl [simp]: "rel_option same_query x x"
  by (cases x) simp_all

lemma mild_refl [simp]: "mild ch ch"
  by (simp add: mild_def)

lemma mild_rel: "mild ch ch' \<Longrightarrow> rel_option same_query (ch_queries ch h) (ch_queries ch' h)"
  by (simp add: mild_def)

lemma mild_query: "mild ch ch' \<Longrightarrow> ch_queries ch h = Some q \<Longrightarrow> \<exists>q'. ch_queries ch' h = Some q' \<and> same_query q q'"
  using mild_rel [of ch ch' h] by (auto simp: option_rel_Some1)

lemma mild_query_back: "mild ch ch' \<Longrightarrow> ch_queries ch' h = Some q' \<Longrightarrow> \<exists>q. ch_queries ch h = Some q \<and> same_query q q'"
  using mild_rel [of ch ch' h] by (auto simp: option_rel_Some2)

lemma mild_none: "mild ch ch' \<Longrightarrow> ch_queries ch h = None \<longleftrightarrow> ch_queries ch' h = None"
  using mild_rel [of ch ch' h] by (cases "ch_queries ch h"; cases "ch_queries ch' h") simp_all

lemma mild_needed: "mild ch ch' \<Longrightarrow> family_needed ch f \<Longrightarrow> family_needed ch' f"
proof -
  assume m: "mild ch ch'" and "family_needed ch f"
  then obtain h q where "h \<in> set (ch_pending ch)" "ch_queries ch h = Some q" "f \<in> set (dq_families q)"
    by (auto simp: family_needed_def)
  moreover from this m obtain q' where "ch_queries ch' h = Some q'" "same_query q q'"
    using mild_query by blast
  ultimately show "family_needed ch' f" using m by (auto simp: family_needed_def mild_def same_query_def)
qed

lemma mild_trans:
  assumes "mild a b" "mild b c"
  shows "mild a c"
proof -
  have "rel_option same_query (ch_queries a h) (ch_queries c h)" for h
  proof (cases "ch_queries a h")
    case None
    then have "ch_queries c h = None" using mild_none [OF assms(1)] mild_none [OF assms(2)] by simp
    with None show ?thesis by simp
  next
    case (Some q)
    then obtain q' q'' where "ch_queries c h = Some q''" "same_query q q'" "same_query q' q''"
      using mild_query [OF assms(1) Some] mild_query [OF assms(2)] by blast
    with Some show ?thesis by (auto intro: same_query_trans)
  qed
  moreover have "f \<in> set (ch_sockets a) \<or> family_needed c f" if "f \<in> set (ch_sockets c)" for f
    using that assms mild_needed [OF assms(2), of f] by (auto simp: mild_def)
  ultimately show ?thesis using assms by (simp add: mild_def)
qed

lemma settings_update [simp]:
  "settings_of (update_query g f ch) = settings_of ch" "settings_of (add_tick t ch) = settings_of ch"
  "settings_of (log_event e ch) = settings_of ch" "settings_of (dnsFail s ch) = settings_of ch"
  by (simp_all add: settings_of_def update_query_def add_tick_def log_event_def dnsFail_def)

lemma mild_update:
  assumes "\<And>q. ch_queries ch h = Some q \<Longrightarrow> same_query q (f q)"
  shows "mild ch (update_query h f ch)"
  using assms by (cases "ch_queries ch h") (auto simp: mild_def)

lemma mild_fail [simp]: "mild ch (dnsFail s ch)"
  by (simp add: mild_def)

lemma mild_tick: "(\<And>h. t \<noteq> Tick_badname h) \<Longrightarrow> mild ch (add_tick t ch)"
  by (auto simp: mild_def)

lemma mild_failures [simp]: "mild ch (ch\<lparr>ch_failures := x\<rparr>)"
  by (simp add: mild_def settings_of_def)

lemma mild_tcps [simp]: "mild ch (ch\<lparr>ch_tcps := x\<rparr>)"
  by (simp add: mild_def settings_of_def)

lemma mild_log: "(\<And>h r. e \<noteq> Reported h r) \<Longrightarrow> mild ch (log_event e ch)"
  by (cases e) (auto simp: mild_def)

lemma mild_sockets: "set s \<subseteq> set (ch_sockets ch) \<Longrightarrow> mild ch (ch\<lparr>ch_sockets := s\<rparr>)"
  by (auto simp: mild_def settings_of_def)

lemma mild_connectionFailed [simp]: "mild ch (connectionFailed h s ch)"
proof (cases "ch_queries ch h")
  case (Some q)
  let ?f = "\<lambda>q. q\<lparr>dq_timer := None, dq_lastError := Some ''ECONNREFUSED'', dq_tcp := None, dq_attempt := dq_attempt q + 1\<rparr>"
  have "mild ch (add_tick (Tick_attempt h) (update_query h ?f (dnsFail s ch)))" if "\<not> dq_finished q"
    by (rule mild_trans [OF mild_trans [OF mild_fail mild_update] mild_tick]) (use Some that in \<open>auto simp: same_query_def\<close>)
  with Some show ?thesis by (simp add: connectionFailed_def)
qed (simp add: connectionFailed_def)

lemma mild_startTcp:
  assumes "ch_queries ch h = Some q" "\<not> dq_finished q"
  shows "mild ch (startTcp ok h s ch)"
proof -
  let ?f = "\<lambda>q. q\<lparr>dq_tcp := None, dq_mode := Some TCP, dq_chunks := []\<rparr>"
  have a: "mild ch (update_query h ?f ch)"
    by (rule mild_update) (use assms in \<open>auto simp: same_query_def\<close>)
  have b: "mild (update_query h ?f ch) (update_query h (\<lambda>q. q\<lparr>dq_tcp := Some (ch_tcps ch, s)\<rparr>) (update_query h ?f ch))"
    by (rule mild_update) (use assms in \<open>auto simp: same_query_def\<close>)
  show ?thesis
    using mild_trans [OF mild_trans [OF mild_trans [OF a b] mild_log] mild_tcps] mild_trans [OF a mild_connectionFailed]
    by (cases ok) (simp_all add: startTcp_def Let_def)
qed

text \<open>A send: the state once a socket is there, with the family and the server noted.\<close>

lemma mild_ready:
  assumes "dnsSocket bind_ok family ch = Some ch'" "h \<in> set (ch_pending ch)" "ch_queries ch h = Some q" "\<not> dq_finished q"
  shows "mild ch (update_query h (\<lambda>q. q\<lparr>dq_families := List.insert family (dq_families q),
    dq_sentTo := List.insert key (dq_sentTo q)\<rparr>) ch')"
proof -
  have ch': "ch' = ch \<or> ch' = ch\<lparr>ch_sockets := ch_sockets ch @ [family]\<rparr>"
    using assms(1) by (auto simp: dnsSocket_def split: if_splits)
  then show ?thesis using assms(2-4)
    by (elim disjE) (auto simp: mild_def family_needed_def settings_of_def update_query_def same_query_def reports_def ticks_def)
qed

lemma mild_socketFailed [simp]: "mild ch (socketFailed f ch)"
proof -
  have folds: "mild ch (fold (\<lambda>h ch.
             (case ch_queries ch h of
                Some q \<Rightarrow>
                  (case dq_server q of
                     Some server \<Rightarrow>
                       if dq_mode q = Some UDP \<and> sv_family server = f then connectionFailed h server ch else ch
                   | None \<Rightarrow> ch)
              | None \<Rightarrow> ch)) (hs :: nat list) ch)" for hs ch
  proof (induction hs arbitrary: ch)
    case (Cons h hs)
    have "mild ch (case ch_queries ch h of
                Some q \<Rightarrow>
                  (case dq_server q of
                     Some server \<Rightarrow>
                       if dq_mode q = Some UDP \<and> sv_family server = f then connectionFailed h server ch else ch
                   | None \<Rightarrow> ch)
              | None \<Rightarrow> ch)" by (simp split: option.split)
    from mild_trans [OF this Cons.IH] show ?case by simp
  qed simp
  then show ?thesis
    unfolding socketFailed_def by (auto intro: mild_trans [OF mild_sockets folds])
qed

subsection \<open>The invariant of a channel\<close>

definition query_ok :: "dns_channel \<Rightarrow> nat \<Rightarrow> dns_query \<Rightarrow> bool" where
  "query_ok ch h q \<longleftrightarrow> h < ch_next ch \<and> ticks (Tick_badname h) ch = 0 \<and>
     (if dq_finished q
      then h \<notin> set (ch_pending ch) \<and> dq_families q = [] \<and> dq_timer q = None \<and> dq_tcp q = None \<and> length (reports h ch) = 1
      else h \<in> set (ch_pending ch) \<and> ch_byId ch (dq_id q) = Some h \<and> reports h ch = [])"

definition channel_ok :: "dns_channel \<Rightarrow> bool" where
  "channel_ok ch \<longleftrightarrow> distinct (ch_pending ch) \<and>
     (\<forall>h q. ch_queries ch h = Some q \<longrightarrow> query_ok ch h q) \<and>
     (\<forall>h \<in> set (ch_pending ch). ch_queries ch h \<noteq> None) \<and>
     (\<forall>i h. ch_byId ch i = Some h \<longrightarrow> (\<exists>q. ch_queries ch h = Some q \<and> \<not> dq_finished q \<and> dq_id q = i)) \<and>
     (\<forall>f \<in> set (ch_sockets ch). family_needed ch f) \<and>
     (\<forall>h. ch_queries ch h = None \<longrightarrow> length (reports h ch) + ticks (Tick_badname h) ch \<le> 1 \<and>
        (ch_next ch \<le> h \<longrightarrow> reports h ch = [] \<and> ticks (Tick_badname h) ch = 0))"

lemma channel_ok_mild:
  assumes ok: "channel_ok ch" and m: "mild ch ch'"
  shows "channel_ok ch'"
proof -
  have same: "ch_pending ch' = ch_pending ch" "ch_byId ch' = ch_byId ch" "ch_next ch' = ch_next ch"
    "reports h ch' = reports h ch" "ticks (Tick_badname h) ch' = ticks (Tick_badname h) ch" for h
    using m by (simp_all add: mild_def)
  have "query_ok ch' h q'" if q': "ch_queries ch' h = Some q'" for h q'
  proof -
    obtain q where q: "ch_queries ch h = Some q" "same_query q q'" using mild_query_back [OF m q'] by blast
    with ok have "query_ok ch h q" by (simp add: channel_ok_def)
    with q(2) show ?thesis by (auto simp: query_ok_def same same_query_def split: if_splits)
  qed
  moreover have "\<exists>q'. ch_queries ch' h = Some q' \<and> \<not> dq_finished q' \<and> dq_id q' = i" if i: "ch_byId ch i = Some h" for i h
  proof -
    obtain q where q: "ch_queries ch h = Some q" "\<not> dq_finished q" "dq_id q = i"
      using ok i unfolding channel_ok_def by blast
    from mild_query [OF m q(1)] q show ?thesis by (auto simp: same_query_def)
  qed
  moreover have "family_needed ch' f" if "f \<in> set (ch_sockets ch')" for f
    using that m ok mild_needed [OF m, of f] by (auto simp: mild_def channel_ok_def)
  ultimately show ?thesis
    using ok mild_none [OF m] by (simp add: channel_ok_def same)
qed

text \<open>The state a query leaves when it ends, field by field.\<close>

lemma finish_fields:
  assumes "ch_queries ch h = Some q" "\<not> dq_finished q"
  shows "ch_queries (dnsFinish h r ch) = (ch_queries ch)
      (h := Some (q\<lparr>dq_finished := True, dq_timer := None, dq_tcp := None, dq_families := []\<rparr>))"
    "ch_pending (dnsFinish h r ch) = removeAll h (ch_pending ch)"
    "ch_byId (dnsFinish h r ch) = (ch_byId ch)(dq_id q := None)"
    "ch_next (dnsFinish h r ch) = ch_next ch"
    "ch_sockets (dnsFinish h r ch) = filter (\<lambda>f. f \<notin> set (dq_families q) \<or>
       list_ex (\<lambda>g. g \<noteq> h \<and> (case ch_queries ch g of Some q \<Rightarrow> f \<in> set (dq_families q) | None \<Rightarrow> False))
         (removeAll h (ch_pending ch))) (ch_sockets ch)"
    "reports g (dnsFinish h r ch) = reports g ch @ (if g = h then [r] else [])"
    "sends g (dnsFinish h r ch) = sends g ch" "ticks t (dnsFinish h r ch) = ticks t ch"
    "settings_of (dnsFinish h r ch) = settings_of ch" "ch_ticks (dnsFinish h r ch) = ch_ticks ch"
  using assms
  by (auto simp: dnsFinish_def dnsRelease_def closeTcp_def family_used_def settings_of_def log_event_def update_query_def
      reports_def sends_def ticks_def fun_eq_iff list_ex_iff intro!: filter_cong split: option.splits)

lemma finish_done: "ch_queries ch h = None \<or> (\<exists>q. ch_queries ch h = Some q \<and> dq_finished q) \<Longrightarrow> dnsFinish h r ch = ch"
  by (auto simp: dnsFinish_def)

lemma channel_ok_finish [intro]:
  assumes ok: "channel_ok ch"
  shows "channel_ok (dnsFinish h r ch)"
proof (cases "\<exists>q. ch_queries ch h = Some q \<and> \<not> dq_finished q")
  case True
  then obtain q where q: "ch_queries ch h = Some q" "\<not> dq_finished q" by blast
  note f = finish_fields [OF q, where r = r]
  have qh: "query_ok ch h q" using ok q by (simp add: channel_ok_def)
  have queries: "query_ok (dnsFinish h r ch) g p" if "ch_queries (dnsFinish h r ch) g = Some p" for g p
  proof (cases "g = h")
    case True
    with that qh q show ?thesis by (auto simp: f query_ok_def)
  next
    case False
    with that have p: "ch_queries ch g = Some p" by (simp add: f)
    with ok have "query_ok ch g p" by (simp add: channel_ok_def)
    moreover have "dq_id p \<noteq> dq_id q" if "\<not> dq_finished p"
      using calculation qh q that False by (auto simp: query_ok_def)
    ultimately show ?thesis using False by (auto simp: f query_ok_def split: if_splits)
  qed
  have byid: "\<exists>p. ch_queries (dnsFinish h r ch) g = Some p \<and> \<not> dq_finished p \<and> dq_id p = i"
    if "ch_byId (dnsFinish h r ch) i = Some g" for i g
  proof -
    have i: "i \<noteq> dq_id q" "ch_byId ch i = Some g" using that by (auto simp: f split: if_splits)
    then obtain p where "ch_queries ch g = Some p" "\<not> dq_finished p" "dq_id p = i"
      using ok unfolding channel_ok_def by blast
    with i q show ?thesis by (auto simp: f)
  qed
  have needed: "family_needed (dnsFinish h r ch) x" if "x \<in> set (ch_sockets (dnsFinish h r ch))" for x
  proof -
    have "x \<in> set (ch_sockets ch)" using that by (simp add: f)
    then obtain g p where g: "g \<in> set (ch_pending ch)" "ch_queries ch g = Some p" "x \<in> set (dq_families p)"
      using ok unfolding channel_ok_def family_needed_def by blast
    show ?thesis
    proof (cases "g = h")
      case False
      with g show ?thesis by (auto simp: family_needed_def f)
    next
      case True
      with g q have "x \<in> set (dq_families q)" by simp
      with that show ?thesis by (fastforce simp: f list_ex_iff family_needed_def split: option.splits)
    qed
  qed
  have "distinct (ch_pending ch)" "\<forall>g \<in> set (ch_pending ch). ch_queries ch g \<noteq> None"
    using ok unfolding channel_ok_def by simp_all
  moreover have "length (reports g ch) + ticks (Tick_badname g) ch \<le> 1 \<and>
        (ch_next ch \<le> g \<longrightarrow> reports g ch = [] \<and> ticks (Tick_badname g) ch = 0)" if "ch_queries ch g = None" for g
    using ok that unfolding channel_ok_def by simp
  ultimately show ?thesis
    using queries byid needed unfolding channel_ok_def by (auto simp: f distinct_removeAll)
next
  case False
  then have "dnsFinish h r ch = ch" by (intro finish_done) (cases "ch_queries ch h", auto)
  with ok show ?thesis by simp
qed

lemma mild_keeps: "mild ch ch' \<Longrightarrow> channel_ok ch \<Longrightarrow> channel_ok ch'"
  by (rule channel_ok_mild)

lemma pending_query: "channel_ok ch \<Longrightarrow> ch_queries ch h = Some q \<Longrightarrow> \<not> dq_finished q \<Longrightarrow> h \<in> set (ch_pending ch)"
  by (auto simp: channel_ok_def query_ok_def)

text \<open>Either the query ended, or the change is a mild one.\<close>

lemma attempt_cases:
  assumes "channel_ok ch"
  shows "(\<exists>e. dnsAttempt bind_ok send_ok h ch = dnsFinish h (Failed e) ch) \<or> mild ch (dnsAttempt bind_ok send_ok h ch)"
proof (cases "\<exists>q. ch_queries ch h = Some q \<and> \<not> dq_finished q \<and> chServers ch \<noteq> [] \<and> dq_attempt q < chTries ch * length (chServers ch)")
  case True
  then obtain q where q: "ch_queries ch h = Some q" "\<not> dq_finished q" "chServers ch \<noteq> []"
    "\<not> chTries ch * length (chServers ch) \<le> dq_attempt q" by auto
  define s where "s = dnsPick ch (chServers ch)"
  define w where "w = attempt_wait ch (dq_attempt q div length (chServers ch))"
  define armed where "armed = update_query h (\<lambda>q. q\<lparr>dq_server := Some s, dq_mode := Some UDP, dq_timer := Some (w, s)\<rparr>) ch"
  have m: "mild ch armed" unfolding armed_def by (rule mild_update) (use q in \<open>auto simp: same_query_def\<close>)
  have "mild armed (case dnsSocket bind_ok (sv_family s) armed of
                  None \<Rightarrow> connectionFailed h s armed
                | Some opened \<Rightarrow>
                    let ready = update_query h (\<lambda>q. q\<lparr>dq_families := List.insert (sv_family s) (dq_families q),
                          dq_sentTo := List.insert (serverKey s) (dq_sentTo q)\<rparr>) opened
                    in if send_ok then log_event (Sent h s w) ready
                       else connectionFailed h s ready)"
  proof (cases "dnsSocket bind_ok (sv_family s) armed")
    case (Some opened)
    have aq: "ch_queries armed h = Some (q\<lparr>dq_server := Some s, dq_mode := Some UDP, dq_timer := Some (w, s)\<rparr>)"
      using q by (simp add: armed_def)
    have "mild armed (update_query h (\<lambda>q. q\<lparr>dq_families := List.insert (sv_family s) (dq_families q),
                          dq_sentTo := List.insert (serverKey s) (dq_sentTo q)\<rparr>) opened)"
      by (rule mild_ready [OF Some _ aq]) (use q pending_query [OF assms q(1,2)] in \<open>simp_all add: armed_def\<close>)
    from mild_trans [OF this mild_log [of "Sent h s w"]] mild_trans [OF this mild_connectionFailed] Some
    show ?thesis by (simp add: Let_def)
  qed simp
  from mild_trans [OF m this] show ?thesis
    by (simp only: dnsAttempt_def q option.case Let_def if_False simp_thms s_def w_def armed_def)
next
  case False
  then show ?thesis by (auto simp: dnsAttempt_def Let_def split: option.splits)
qed

lemma channel_ok_attempt [intro]: "channel_ok ch \<Longrightarrow> channel_ok (dnsAttempt bind_ok send_ok h ch)"
  using attempt_cases [of ch bind_ok send_ok h] by (auto intro: channel_ok_mild)

lemma channel_ok_timedOut [intro]:
  assumes "channel_ok ch"
  shows "channel_ok (timedOut bind_ok send_ok h s ch)"
proof (cases "\<exists>q. ch_queries ch h = Some q \<and> \<not> dq_finished q")
  case True
  then obtain q where q: "ch_queries ch h = Some q" "\<not> dq_finished q" by blast
  let ?f = "\<lambda>q. q\<lparr>dq_lastError := Some ''ETIMEOUT'', dq_tcp := None, dq_attempt := dq_attempt q + 1\<rparr>"
  have "mild ch (update_query h ?f (dnsFail s ch))"
    by (rule mild_trans [OF mild_fail mild_update]) (use q in \<open>auto simp: same_query_def\<close>)
  from channel_ok_mild [OF assms this] q show ?thesis by (simp add: timedOut_def channel_ok_attempt)
qed (use assms in \<open>auto simp: timedOut_def split: option.splits\<close>)

lemma channel_ok_response [intro]:
  assumes "channel_ok ch" "ch_queries ch h = Some q" "\<not> dq_finished q"
  shows "channel_ok (dnsResponse lower connect_ok h bs server overTcp ch)"
proof -
  note f = channel_ok_mild [OF assms(1) mild_failures]
  have "channel_ok (startTcp connect_ok h server (ch\<lparr>ch_failures := x\<rparr>))" for x
    by (rule channel_ok_mild [OF f mild_startTcp]) (use assms in simp_all)
  with f assms show ?thesis
    by (auto simp: dnsResponse_def Let_def split: sum.split list.split)
qed

lemma channel_ok_datagram [intro]: "channel_ok ch \<Longrightarrow> channel_ok (dnsDatagram lower connect_ok msg address port ch)"
  by (auto simp: dnsDatagram_def split: option.split)

lemma channel_ok_tcpData [intro]:
  assumes ok: "channel_ok ch"
  shows "channel_ok (tcpData lower h socket chunk ch)"
proof (cases "\<exists>q server. ch_queries ch h = Some q \<and> \<not> dq_finished q \<and> dq_tcp q = Some (socket, server)")
  case True
  then obtain q server where q: "ch_queries ch h = Some q" "\<not> dq_finished q" "dq_tcp q = Some (socket, server)" by blast
  let ?ch = "update_query h (\<lambda>q. q\<lparr>dq_chunks := x\<rparr>) ch"
  have m: "channel_ok (update_query h (\<lambda>q. q\<lparr>dq_chunks := x\<rparr>) ch)" for x
    by (rule channel_ok_mild [OF ok mild_update]) (use q in \<open>auto simp: same_query_def\<close>)
  have "channel_ok (dnsResponse lower True h body server True (update_query h (\<lambda>q. q\<lparr>dq_chunks := x\<rparr>) ch))" for body x
    by (rule channel_ok_response [OF m, where q = "q\<lparr>dq_chunks := x\<rparr>"]) (use q in simp_all)
  with m q show ?thesis by (auto simp: tcpData_def Let_def split: prod.split option.split)
next
  case False
  then have "tcpData lower h socket chunk ch = ch" by (auto simp: tcpData_def split: option.split)
  with ok show ?thesis by simp
qed

lemma channel_ok_connectionFailed [intro]: "channel_ok ch \<Longrightarrow> channel_ok (connectionFailed h s ch)"
  by (rule channel_ok_mild [OF _ mild_connectionFailed])

lemma channel_ok_cancel [intro]: "channel_ok ch \<Longrightarrow> channel_ok (dnsCancel ch)"
proof -
  have "mild ch (fold (\<lambda>h. add_tick (Tick_cancel h)) hs ch)" for hs ch
  proof (induction hs arbitrary: ch)
    case (Cons h hs)
    from mild_trans [OF mild_tick Cons.IH] show ?case by simp
  qed simp
  then show "channel_ok ch \<Longrightarrow> channel_ok (dnsCancel ch)"
    unfolding dnsCancel_def by (blast intro: channel_ok_mild)
qed

lemma reports_pop [simp]: "reports h (ch\<lparr>ch_ticks := ts\<rparr>) = reports h ch"
  by (simp add: reports_def)

lemma channel_ok_pop:
  assumes ok: "channel_ok ch" and t: "ch_ticks ch = t # ts"
  shows "channel_ok (ch\<lparr>ch_ticks := ts\<rparr>) \<and>
    (\<forall>h. t = Tick_badname h \<longrightarrow> ch_queries ch h = None \<and> reports h ch = [] \<and> ticks (Tick_badname h) (ch\<lparr>ch_ticks := ts\<rparr>) = 0 \<and> h < ch_next ch)"
proof -
  have le: "ticks t' (ch\<lparr>ch_ticks := ts\<rparr>) + (if t = t' then 1 else 0) = ticks t' ch" for t'
    by (simp add: ticks_def t)
  have le': "ticks t' (ch\<lparr>ch_ticks := ts\<rparr>) \<le> ticks t' ch" for t' using le [of t'] by linarith
  have q: "query_ok (ch\<lparr>ch_ticks := ts\<rparr>) h q" if "query_ok ch h q" for h q
    using that le' [of "Tick_badname h"] by (auto simp: query_ok_def)
  have n: "length (reports h ch) + ticks (Tick_badname h) (ch\<lparr>ch_ticks := ts\<rparr>) \<le> 1 \<and>
        (ch_next ch \<le> h \<longrightarrow> reports h ch = [] \<and> ticks (Tick_badname h) (ch\<lparr>ch_ticks := ts\<rparr>) = 0)" if "ch_queries ch h = None" for h
  proof -
    from ok that have "length (reports h ch) + ticks (Tick_badname h) ch \<le> 1 \<and>
        (ch_next ch \<le> h \<longrightarrow> reports h ch = [] \<and> ticks (Tick_badname h) ch = 0)"
      unfolding channel_ok_def by simp
    with le' [of "Tick_badname h"] show ?thesis by auto
  qed
  have "channel_ok (ch\<lparr>ch_ticks := ts\<rparr>)"
    using ok unfolding channel_ok_def family_needed_def
    by (intro conjI allI impI; (elim conjE)?) (use q n in \<open>simp_all del: le_zero_eq\<close>)
  moreover have "ch_queries ch h = None \<and> reports h ch = [] \<and> ticks (Tick_badname h) (ch\<lparr>ch_ticks := ts\<rparr>) = 0 \<and> h < ch_next ch"
    if "t = Tick_badname h" for h
  proof -
    have one: "ticks (Tick_badname h) ch \<ge> 1" using le [of "Tick_badname h"] that by simp
    have none: "ch_queries ch h = None"
    proof (cases "ch_queries ch h")
      case (Some q)
      then have "query_ok ch h q" using ok by (simp add: channel_ok_def)
      with one show ?thesis by (simp add: query_ok_def)
    qed
    then have "length (reports h ch) + ticks (Tick_badname h) ch \<le> 1" "ch_next ch \<le> h \<longrightarrow> ticks (Tick_badname h) ch = 0"
      using ok unfolding channel_ok_def by simp_all
    moreover from this one have "length (reports h ch) = 0" by linarith
    ultimately show ?thesis using one none le [of "Tick_badname h"] that by (cases "ch_next ch \<le> h") auto
  qed
  ultimately show ?thesis by blast
qed

lemma channel_ok_badname:
  assumes ok: "channel_ok ch" and "ch_queries ch h = None" "reports h ch = []" "ticks (Tick_badname h) ch = 0" "h < ch_next ch"
  shows "channel_ok (log_event (Reported h r) ch)"
proof -
  have "query_ok (log_event (Reported h r) ch) g q" if "ch_queries ch g = Some q" for g q
    using ok that assms(2) by (auto simp: channel_ok_def query_ok_def)
  with assms show ?thesis unfolding channel_ok_def by (auto simp: family_needed_def)
qed

lemma channel_ok_query:
  assumes ok: "channel_ok ch" and free: "ch_byId ch qid = None"
  shows "channel_ok (dnsQuery lower nfc toASCII name type qid ch)"
proof -
  let ?h = "ch_next ch"
  have none: "ch_queries ch ?h = None"
  proof (cases "ch_queries ch ?h")
    case (Some q)
    with ok have "query_ok ch ?h q" by (simp add: channel_ok_def)
    then show ?thesis by (simp add: query_ok_def)
  qed
  then have fresh: "reports ?h ch = []" "ticks (Tick_badname ?h) ch = 0"
    using ok unfolding channel_ok_def by simp_all
  have pend: "?h \<notin> set (ch_pending ch)" using ok none unfolding channel_ok_def by blast
  have qs: "query_ok ch g q" "g \<noteq> ?h" if "ch_queries ch g = Some q" for g q
    using ok that none unfolding channel_ok_def by auto
  have ids: "\<exists>q. ch_queries ch g = Some q \<and> \<not> dq_finished q \<and> dq_id q = i" if "ch_byId ch i = Some g" for i g
    using ok that unfolding channel_ok_def by blast
  have nones: "length (reports g ch) + ticks (Tick_badname g) ch \<le> 1 \<and>
      (ch_next ch \<le> g \<longrightarrow> reports g ch = [] \<and> ticks (Tick_badname g) ch = 0)" if "ch_queries ch g = None" for g
    using ok that unfolding channel_ok_def by simp
  have rest: "distinct (ch_pending ch)" "\<forall>h \<in> set (ch_pending ch). ch_queries ch h \<noteq> None"
    "\<forall>f \<in> set (ch_sockets ch). family_needed ch f"
    using ok unfolding channel_ok_def by simp_all
  show ?thesis
  proof (cases "nameToLabels lower nfc toASCII name")
    case None
    let ?ch = "add_tick (Tick_badname ?h) (ch\<lparr>ch_next := ?h + 1\<rparr>)"
    have "query_ok ?ch g q" if "ch_queries ch g = Some q" for g q
      using qs [OF that] by (auto simp: query_ok_def)
    then have "channel_ok ?ch"
      using ids nones rest none fresh unfolding channel_ok_def by (auto simp: family_needed_def)
    with None show ?thesis by (simp add: dnsQuery_def Let_def)
  next
    case (Some labels)
    define q0 where "q0 = \<lparr>dq_id = qid, dq_packet = buildQuery qid labels type, dq_text = present_name labels, dq_type = type,
      dq_attempt = 0, dq_sentTo = [], dq_families = [], dq_timer = None, dq_tcp = None, dq_chunks = [],
      dq_server = None, dq_mode = None, dq_lastError = None, dq_finished = False\<rparr>"
    let ?ch = "add_tick (Tick_attempt ?h) (ch\<lparr>ch_next := ?h + 1, ch_queries := (ch_queries ch)(?h := Some q0),
      ch_pending := ch_pending ch @ [?h], ch_byId := (ch_byId ch)(qid := Some ?h)\<rparr>)"
    have q0: "dq_id q0 = qid" "\<not> dq_finished q0" by (simp_all add: q0_def)
    have other: "dq_finished q \<or> dq_id q \<noteq> qid" if "ch_queries ch g = Some q" for g q
      using qs [OF that] free by (auto simp: query_ok_def)
    have "query_ok ?ch g q" if "ch_queries ?ch g = Some q" for g q
    proof (cases "g = ?h")
      case True
      with that fresh q0 show ?thesis by (simp add: query_ok_def)
    next
      case False
      then have "ch_queries ch g = Some q" using that by simp
      with qs [OF this] other [OF this] show ?thesis by (auto simp: query_ok_def)
    qed
    moreover have "\<exists>q. ch_queries ?ch g = Some q \<and> \<not> dq_finished q \<and> dq_id q = i" if i: "ch_byId ?ch i = Some g" for i g
    proof (cases "i = qid")
      case True
      with i q0 show ?thesis by simp
    next
      case False
      then obtain q where "ch_queries ch g = Some q" "\<not> dq_finished q" "dq_id q = i" using i ids [of i g] by auto
      moreover from this qs(2) have "g \<noteq> ?h" by blast
      ultimately show ?thesis by simp
    qed
    moreover have "family_needed ?ch f" if f: "f \<in> set (ch_sockets ch)" for f
    proof -
      obtain g q where "g \<in> set (ch_pending ch)" "ch_queries ch g = Some q" "f \<in> set (dq_families q)"
        using rest(3) f unfolding family_needed_def by blast
      moreover from this pend have "g \<noteq> ?h" by blast
      ultimately show ?thesis by (auto simp: family_needed_def)
    qed
    moreover have "length (reports g ?ch) + ticks (Tick_badname g) ?ch \<le> 1 \<and>
      (ch_next ?ch \<le> g \<longrightarrow> reports g ?ch = [] \<and> ticks (Tick_badname g) ?ch = 0)" if "ch_queries ?ch g = None" for g
      using nones [of g] that by (auto split: if_splits)
    ultimately have "channel_ok ?ch"
      using rest(1,2) pend unfolding channel_ok_def by (auto split: if_splits)
    with Some show ?thesis by (simp add: dnsQuery_def Let_def q0_def)
  qed
qed

lemma channel_ok_step:
  assumes "dns_step lower nfc toASCII ch ch'" "channel_ok ch"
  shows "channel_ok ch'"
  using assms
proof cases
  case (Query qid name type)
  then show ?thesis using assms(2) channel_ok_query by simp
next
  case (Tick t ts bind_ok send_ok)
  note pop = channel_ok_pop [OF assms(2) Tick(2)]
  have "channel_ok (runTick bind_ok send_ok t (ch\<lparr>ch_ticks := ts\<rparr>))"
    using pop channel_ok_badname [of "ch\<lparr>ch_ticks := ts\<rparr>"] by (cases t) (auto simp: runTick_def)
  with Tick show ?thesis by simp
next
  case (Timer h q wait server bind_ok send_ok)
  have "\<not> dq_finished q" using Timer assms(2) by (auto simp: channel_ok_def query_ok_def)
  then have "mild ch (update_query h (\<lambda>q. q\<lparr>dq_timer := None\<rparr>) ch)"
    by (intro mild_update) (use Timer in \<open>auto simp: same_query_def\<close>)
  with Timer(1) show ?thesis using channel_ok_mild [OF assms(2)] by auto
next
  case (SendError h server wait)
  with assms(2) show ?thesis by (auto simp: sendFailed_def split: option.split)
next
  case (SocketError family)
  with channel_ok_mild [OF assms(2) mild_socketFailed] show ?thesis by simp
next
  case (TcpError h socket)
  with assms(2) show ?thesis by (auto simp: tcpFailed_def split: option.split)
qed (use assms(2) in auto)

lemma channel_ok_new: "channel_ok (newChannel timeout tries maxTimeout def_timeout def_tries servers)"
  by (simp add: newChannel_def channel_ok_def reports_def ticks_def)

subsection \<open>Attempts: bounded, and never stuck\<close>

text \<open>
  \<open>x\<close> is the query whose attempt is being made, if any. The datagrams sent and the attempts due never
  outnumber the failures plus one, and a query that is not over has a timer or an attempt to come.
\<close>

fun slot_ok :: "bool \<Rightarrow> nat \<Rightarrow> dns_query option \<Rightarrow> nat \<Rightarrow> nat \<Rightarrow> bool" where
  "slot_ok here n None sent due \<longleftrightarrow> sent = 0 \<and> due = 0"
| "slot_ok here n (Some q) sent due \<longleftrightarrow>
     sent + due + (if here then 1 else 0) \<le> dq_attempt q + 1 \<and> sent \<le> n \<and>
     (dq_finished q \<or> dq_timer q \<noteq> None \<or> 0 < due \<or> here)"

definition attempts_ok :: "nat option \<Rightarrow> nat \<Rightarrow> dns_channel \<Rightarrow> bool" where
  "attempts_ok x n ch \<longleftrightarrow> (\<forall>h. slot_ok (x = Some h) n (ch_queries ch h) (sends h ch) (ticks (Tick_attempt h) ch))"

lemma attemptsD: "attempts_ok x n ch \<Longrightarrow> slot_ok (x = Some h) n (ch_queries ch h) (sends h ch) (ticks (Tick_attempt h) ch)"
  by (simp add: attempts_ok_def)

lemma attempts_Some:
  "attempts_ok x n ch \<Longrightarrow> ch_queries ch h = Some q \<Longrightarrow> slot_ok (x = Some h) n (Some q) (sends h ch) (ticks (Tick_attempt h) ch)"
  using attemptsD [of x n ch h] by simp

text \<open>What an operation on the query \<open>h\<close> has to leave for the others.\<close>

lemma attempts_change:
  assumes "attempts_ok x n ch"
    and "\<And>g. g \<noteq> h \<Longrightarrow> ch_queries ch' g = ch_queries ch g \<and> sends g ch' = sends g ch \<and>
      ticks (Tick_attempt g) ch' = ticks (Tick_attempt g) ch \<and> (x = Some g \<longleftrightarrow> y = Some g)"
    and "slot_ok (y = Some h) n (ch_queries ch' h) (sends h ch') (ticks (Tick_attempt h) ch')"
  shows "attempts_ok y n ch'"
  unfolding attempts_ok_def
proof
  fix g
  show "slot_ok (y = Some g) n (ch_queries ch' g) (sends g ch') (ticks (Tick_attempt g) ch')"
    using assms(2) [of g] assms(3) attemptsD [OF assms(1), of g] by (cases "g = h") simp_all
qed

lemma attempts_leave:
  assumes ok: "attempts_ok x n ch" and x: "x = None \<or> x = Some h"
    and over: "ch_queries ch h = None \<or> (\<exists>q. ch_queries ch h = Some q \<and> dq_finished q)"
  shows "attempts_ok None n ch"
  by (rule attempts_change [OF ok, of h]) (use attemptsD [OF ok, of h] x over in auto)

lemma attempts_finish:
  assumes ok: "attempts_ok x n ch" and x: "x = None \<or> x = Some h"
  shows "attempts_ok None n (dnsFinish h r ch)"
proof (cases "\<exists>q. ch_queries ch h = Some q \<and> \<not> dq_finished q")
  case False
  then have d: "ch_queries ch h = None \<or> (\<exists>q. ch_queries ch h = Some q \<and> dq_finished q)"
    by (cases "ch_queries ch h") auto
  with attempts_leave [OF ok x] show ?thesis by (simp add: finish_done)
next
  case True
  then obtain q where q: "ch_queries ch h = Some q" "\<not> dq_finished q" by blast
  note f = finish_fields [OF q, where r = r]
  show ?thesis
    by (rule attempts_change [OF ok, of h]) (use attempts_Some [OF ok q(1)] x in \<open>auto simp: f\<close>)
qed

lemma attempts_connectionFailed:
  assumes ok: "attempts_ok x n ch" and x: "x = None \<or> x = Some h" and q: "ch_queries ch h = Some q" "\<not> dq_finished q"
  shows "attempts_ok None n (connectionFailed h s ch)"
  by (rule attempts_change [OF ok, of h])
    (use attempts_Some [OF ok q(1)] x q in \<open>auto simp: connectionFailed_def split: if_splits\<close>)

lemma connectionFailed_done: "ch_queries ch h = None \<or> (\<exists>q. ch_queries ch h = Some q \<and> dq_finished q) \<Longrightarrow> connectionFailed h s ch = ch"
  by (auto simp: connectionFailed_def)

lemma attempts_connectionFailed0 [intro]: "attempts_ok None n ch \<Longrightarrow> attempts_ok None n (connectionFailed h s ch)"
proof (cases "\<exists>q. ch_queries ch h = Some q \<and> \<not> dq_finished q")
  case False
  then have "connectionFailed h s ch = ch" by (intro connectionFailed_done) (cases "ch_queries ch h", auto)
  then show "attempts_ok None n ch \<Longrightarrow> ?thesis" by simp
qed (auto intro: attempts_connectionFailed)

text \<open>A change of one query that keeps its count of attempts and its timer.\<close>

lemma attempts_update:
  assumes ok: "attempts_ok x n ch"
    and f: "\<And>q. ch_queries ch h = Some q \<Longrightarrow> dq_attempt (f q) = dq_attempt q \<and> dq_finished (f q) = dq_finished q \<and>
      (dq_timer q \<noteq> None \<longrightarrow> dq_timer (f q) \<noteq> None)"
  shows "attempts_ok x n (update_query h f ch)"
proof (cases "ch_queries ch h")
  case None
  then have "update_query h f ch = ch" by (simp add: update_query_def fun_upd_idem)
  with ok show ?thesis by simp
next
  case (Some q)
  show ?thesis
    by (rule attempts_change [OF ok, of h]) (use attempts_Some [OF ok Some] f [OF Some] Some in auto)
qed

lemma attempts_fields [simp]:
  "attempts_ok x n (ch\<lparr>ch_failures := a\<rparr>) = attempts_ok x n ch" "attempts_ok x n (ch\<lparr>ch_tcps := b\<rparr>) = attempts_ok x n ch"
  "attempts_ok x n (ch\<lparr>ch_sockets := c\<rparr>) = attempts_ok x n ch"
  "attempts_ok x n (log_event (Connected h s) ch) = attempts_ok x n ch"
  "attempts_ok x n (log_event (Reported h r) ch) = attempts_ok x n ch"
  by (simp_all add: attempts_ok_def)

lemma attempts_attempt:
  assumes ok: "attempts_ok (Some h) n ch" and n: "chTries ch * length (chServers ch) = n"
  shows "attempts_ok None n (dnsAttempt bind_ok send_ok h ch)"
proof (cases "\<exists>q. ch_queries ch h = Some q \<and> \<not> dq_finished q \<and> chServers ch \<noteq> [] \<and> \<not> n \<le> dq_attempt q")
  case True
  then obtain q where q: "ch_queries ch h = Some q" "\<not> dq_finished q" "chServers ch \<noteq> []"
    "\<not> chTries ch * length (chServers ch) \<le> dq_attempt q" using n by auto
  define s where "s = dnsPick ch (chServers ch)"
  define w where "w = attempt_wait ch (dq_attempt q div length (chServers ch))"
  define armed where "armed = update_query h (\<lambda>q. q\<lparr>dq_server := Some s, dq_mode := Some UDP, dq_timer := Some (w, s)\<rparr>) ch"
  define f :: "dns_query \<Rightarrow> dns_query" where "f = (\<lambda>q. q\<lparr>dq_families := List.insert (sv_family s) (dq_families q),
                          dq_sentTo := List.insert (serverKey s) (dq_sentTo q)\<rparr>)"
  have a: "attempts_ok (Some h) n armed" "ch_queries armed h = Some (q\<lparr>dq_server := Some s, dq_mode := Some UDP, dq_timer := Some (w, s)\<rparr>)"
    unfolding armed_def using q by (auto intro: attempts_update [OF ok])
  have "attempts_ok None n (case dnsSocket bind_ok (sv_family s) armed of
                  None \<Rightarrow> connectionFailed h s armed
                | Some opened \<Rightarrow>
                    let ready = update_query h f opened
                    in if send_ok then log_event (Sent h s w) ready
                       else connectionFailed h s ready)"
  proof (cases "dnsSocket bind_ok (sv_family s) armed")
    case None
    with attempts_connectionFailed [OF a(1) _ a(2)] q show ?thesis by simp
  next
    case (Some opened)
    then have o: "attempts_ok (Some h) n opened" "ch_queries opened h = ch_queries armed h"
      using a(1) by (auto simp: dnsSocket_def attempts_fields split: if_splits)
    have r: "attempts_ok (Some h) n (update_query h f opened)" by (rule attempts_update [OF o(1)]) (simp add: f_def)
    have fq: "ch_queries (update_query h f opened) h = Some (f (q\<lparr>dq_server := Some s, dq_mode := Some UDP, dq_timer := Some (w, s)\<rparr>))"
      using o(2) a(2) by simp
    have sent: "attempts_ok None n (log_event (Sent h s w) (update_query h f opened))"
      by (rule attempts_change [OF r, of h])
        (use attempts_Some [OF o(1) o(2) [unfolded a(2)]] o(2) a(2) q n in \<open>auto simp: f_def\<close>)
    have "attempts_ok None n (connectionFailed h s (update_query h f opened))"
      by (rule attempts_connectionFailed [OF r _ fq]) (use q in \<open>simp_all add: f_def\<close>)
    with sent Some show ?thesis by (simp add: Let_def)
  qed
  then show ?thesis
    by (simp only: dnsAttempt_def q option.case Let_def if_False simp_thms s_def w_def armed_def f_def)
next
  case False
  show ?thesis
  proof (cases "\<exists>e. dnsAttempt bind_ok send_ok h ch = dnsFinish h e ch")
    case True
    with attempts_finish [OF ok] show ?thesis by auto
  next
    case none: False
    with False n have "ch_queries ch h = None \<or> (\<exists>q. ch_queries ch h = Some q \<and> dq_finished q)"
      by (auto simp: dnsAttempt_def Let_def split: option.splits if_splits)
    then have "dnsAttempt bind_ok send_ok h ch = dnsFinish h (Failed []) ch"
      by (auto simp: dnsAttempt_def dnsFinish_def)
    with none show ?thesis by blast
  qed
qed

lemma attempts_failure:
  assumes ok: "attempts_ok None n ch" and q: "ch_queries ch h = Some q"
    and f: "\<And>q. dq_attempt (f q) = dq_attempt q + 1"
  shows "attempts_ok (Some h) n (update_query h f ch)"
  by (rule attempts_change [OF ok, of h]) (use attempts_Some [OF ok q] q f in auto)

lemma settings_parts: "settings_of ch' = settings_of ch \<Longrightarrow> chTries ch' = chTries ch \<and> chServers ch' = chServers ch"
  by (simp add: settings_of_def chTries_def chServers_def cong: option.case_cong)

lemma settings_n:
  "settings_of ch' = settings_of ch \<Longrightarrow> chTries ch * length (chServers ch) = n \<Longrightarrow> chTries ch' * length (chServers ch') = n"
  using settings_parts [of ch' ch] by simp

lemma attempts_timedOut:
  assumes ok: "attempts_ok None n ch" and q: "ch_queries ch h = Some q" "\<not> dq_finished q"
    and n: "chTries ch * length (chServers ch) = n"
  shows "attempts_ok None n (timedOut bind_ok send_ok h s (update_query h (\<lambda>q. q\<lparr>dq_timer := None\<rparr>) ch))"
proof -
  let ?f = "\<lambda>q :: dns_query. q\<lparr>dq_lastError := Some ''ETIMEOUT'', dq_tcp := None, dq_attempt := dq_attempt q + 1\<rparr>"
  let ?g = "\<lambda>q :: dns_query. q\<lparr>dq_timer := None\<rparr>"
  have e: "update_query h ?f (dnsFail s (update_query h ?g ch)) = update_query h (\<lambda>q. ?f (?g q)) (dnsFail s ch)"
    using q by (simp add: update_query_def dnsFail_def fun_eq_iff)
  have "attempts_ok None n (dnsFail s ch)" using ok by (simp add: attempts_ok_def)
  then have "attempts_ok (Some h) n (update_query h ?f (dnsFail s (update_query h ?g ch)))"
    unfolding e by (rule attempts_failure [where q = q]) (use q in simp_all)
  then have "attempts_ok None n (dnsAttempt bind_ok send_ok h (update_query h ?f (dnsFail s (update_query h ?g ch))))"
    by (rule attempts_attempt) (rule settings_n [OF _ n], simp)
  then show ?thesis using q by (simp add: timedOut_def)
qed

lemma attempts_startTcp:
  assumes ok: "attempts_ok None n ch"
  shows "attempts_ok None n (startTcp connect_ok h s ch)"
proof -
  have a: "attempts_ok None n (update_query h (\<lambda>q. q\<lparr>dq_tcp := None, dq_mode := Some TCP, dq_chunks := []\<rparr>) ch)"
    by (rule attempts_update [OF ok]) simp
  have "attempts_ok None n (update_query h (\<lambda>q. q\<lparr>dq_tcp := Some (ch_tcps ch, s)\<rparr>)
      (update_query h (\<lambda>q. q\<lparr>dq_tcp := None, dq_mode := Some TCP, dq_chunks := []\<rparr>) ch))"
    by (rule attempts_update [OF a]) simp
  with a show ?thesis by (auto simp: startTcp_def Let_def)
qed

lemma attempts_response: "attempts_ok None n ch \<Longrightarrow> attempts_ok None n (dnsResponse lower connect_ok h bs server overTcp ch)"
  by (auto simp: dnsResponse_def Let_def intro!: attempts_finish attempts_startTcp split: option.split sum.split list.split)

lemma attempts_socketFailed: "attempts_ok None n ch \<Longrightarrow> attempts_ok None n (socketFailed f ch)"
proof -
  have "attempts_ok None n (fold (\<lambda>h ch.
             (case ch_queries ch h of
                Some q \<Rightarrow>
                  (case dq_server q of
                     Some server \<Rightarrow>
                       if dq_mode q = Some UDP \<and> sv_family server = f then connectionFailed h server ch else ch
                   | None \<Rightarrow> ch)
              | None \<Rightarrow> ch)) hs ch)" if "attempts_ok None n ch" for hs ch
    using that by (induction hs arbitrary: ch) (auto split: option.split)
  then show "attempts_ok None n ch \<Longrightarrow> attempts_ok None n (socketFailed f ch)"
    by (simp add: socketFailed_def)
qed

lemma attempts_tick_other: "(\<And>h. t \<noteq> Tick_attempt h) \<Longrightarrow> attempts_ok x n (add_tick t ch) = attempts_ok x n ch"
  by (simp add: attempts_ok_def)

lemma attempts_cancel: "attempts_ok None n ch \<Longrightarrow> attempts_ok None n (dnsCancel ch)"
proof -
  have "attempts_ok None n (fold (\<lambda>h. add_tick (Tick_cancel h)) hs ch)" if "attempts_ok None n ch" for hs ch
    using that by (induction hs arbitrary: ch) (simp_all add: attempts_tick_other)
  then show "attempts_ok None n ch \<Longrightarrow> attempts_ok None n (dnsCancel ch)" by (simp add: dnsCancel_def)
qed

lemma attempts_pop:
  assumes ok: "attempts_ok None n ch" and t: "ch_ticks ch = t # ts"
  shows "attempts_ok (case t of Tick_attempt h \<Rightarrow> Some h | _ \<Rightarrow> None) n (ch\<lparr>ch_ticks := ts\<rparr>)"
proof -
  have le: "ticks t' (ch\<lparr>ch_ticks := ts\<rparr>) + (if t = t' then 1 else 0) = ticks t' ch" for t'
    by (simp add: ticks_def t)
  show ?thesis unfolding attempts_ok_def
  proof
    fix h
    show "slot_ok ((case t of Tick_attempt h \<Rightarrow> Some h | _ \<Rightarrow> None) = Some h) n (ch_queries (ch\<lparr>ch_ticks := ts\<rparr>) h)
        (sends h (ch\<lparr>ch_ticks := ts\<rparr>)) (ticks (Tick_attempt h) (ch\<lparr>ch_ticks := ts\<rparr>))"
      using attemptsD [OF ok, of h] le [of "Tick_attempt h"]
      by (cases "ch_queries ch h"; cases t) (auto split: if_splits)
  qed
qed

lemma attempts_tick:
  assumes ok: "attempts_ok None n ch" and t: "ch_ticks ch = t # ts" and n: "chTries ch * length (chServers ch) = n"
  shows "attempts_ok None n (runTick bind_ok send_ok t (ch\<lparr>ch_ticks := ts\<rparr>))"
proof -
  have "chTries (ch\<lparr>ch_ticks := ts\<rparr>) * length (chServers (ch\<lparr>ch_ticks := ts\<rparr>)) = n"
    by (rule settings_n [OF _ n]) (simp add: settings_of_def)
  with attempts_pop [OF ok t] show ?thesis
    by (cases t) (auto simp: runTick_def intro: attempts_attempt attempts_finish)
qed

lemma attempts_query:
  assumes ok: "attempts_ok None n ch" and c: "channel_ok ch"
  shows "attempts_ok None n (dnsQuery lower nfc toASCII name type qid ch)"
proof (cases "nameToLabels lower nfc toASCII name")
  case None
  have "attempts_ok None n (ch\<lparr>ch_next := ch_next ch + 1\<rparr>)" using ok by (simp add: attempts_ok_def)
  with None show ?thesis by (simp add: dnsQuery_def Let_def attempts_tick_other)
next
  case (Some labels)
  have "ch_queries ch (ch_next ch) = None"
    using c by (cases "ch_queries ch (ch_next ch)") (auto simp: channel_ok_def query_ok_def)
  with attemptsD [OF ok, of "ch_next ch"] have "sends (ch_next ch) ch = 0" "ticks (Tick_attempt (ch_next ch)) ch = 0"
    by simp_all
  then show ?thesis
    by (intro attempts_change [OF ok, of "ch_next ch"]) (use Some in \<open>auto simp: dnsQuery_def Let_def\<close>)
qed

lemma settings_mild: "mild ch ch' \<Longrightarrow> settings_of ch' = settings_of ch"
  by (simp add: mild_def)

lemma settings_finish [simp]: "settings_of (dnsFinish h r ch) = settings_of ch"
proof (cases "\<exists>q. ch_queries ch h = Some q \<and> \<not> dq_finished q")
  case False
  then have "dnsFinish h r ch = ch" by (intro finish_done) (cases "ch_queries ch h", auto)
  then show ?thesis by simp
qed (auto simp: finish_fields)

lemma settings_fields [simp]:
  "settings_of (ch\<lparr>ch_ticks := a\<rparr>) = settings_of ch" "settings_of (ch\<lparr>ch_next := b\<rparr>) = settings_of ch"
  "settings_of (ch\<lparr>ch_queries := c\<rparr>) = settings_of ch" "settings_of (ch\<lparr>ch_pending := d\<rparr>) = settings_of ch"
  "settings_of (ch\<lparr>ch_byId := e\<rparr>) = settings_of ch" "settings_of (ch\<lparr>ch_failures := f\<rparr>) = settings_of ch"
  by (simp_all add: settings_of_def)

lemma settings_attempt: "channel_ok ch \<Longrightarrow> settings_of (dnsAttempt bind_ok send_ok h ch) = settings_of ch"
  using attempt_cases [of ch bind_ok send_ok h] settings_mild by auto

lemma settings_cancel: "settings_of (dnsCancel ch) = settings_of ch"
proof -
  have "settings_of (fold (\<lambda>h. add_tick (Tick_cancel h)) hs ch) = settings_of ch" for hs ch
    by (induction hs arbitrary: ch) simp_all
  then show ?thesis by (simp add: dnsCancel_def)
qed

lemma settings_response:
  assumes "ch_queries ch h = Some q" "\<not> dq_finished q"
  shows "settings_of (dnsResponse lower connect_ok h bs server overTcp ch) = settings_of ch"
proof -
  have "settings_of (startTcp connect_ok h server (ch\<lparr>ch_failures := x\<rparr>)) = settings_of ch" for x
    using settings_mild [OF mild_startTcp [of "ch\<lparr>ch_failures := x\<rparr>" h q connect_ok server]] assms by simp
  then show ?thesis using assms by (auto simp: dnsResponse_def Let_def split: sum.split list.split)
qed

lemma settings_timedOut:
  assumes "channel_ok ch"
  shows "settings_of (timedOut bind_ok send_ok h s ch) = settings_of ch"
proof (cases "\<exists>q. ch_queries ch h = Some q \<and> \<not> dq_finished q")
  case True
  then obtain q where q: "ch_queries ch h = Some q" "\<not> dq_finished q" by blast
  let ?f = "\<lambda>q. q\<lparr>dq_lastError := Some ''ETIMEOUT'', dq_tcp := None, dq_attempt := dq_attempt q + 1\<rparr>"
  have "mild ch (update_query h ?f (dnsFail s ch))"
    by (rule mild_trans [OF mild_fail mild_update]) (use q in \<open>auto simp: same_query_def\<close>)
  with settings_attempt [OF channel_ok_mild [OF assms this]] q show ?thesis by (simp add: timedOut_def)
qed (auto simp: timedOut_def split: option.splits)

text \<open>A timer that fires is a pending query's.\<close>

lemma timer_mild:
  assumes "channel_ok ch" "ch_queries ch h = Some q" "dq_timer q = Some x"
  shows "\<not> dq_finished q" "mild ch (update_query h (\<lambda>q. q\<lparr>dq_timer := None\<rparr>) ch)"
proof -
  show q: "\<not> dq_finished q" using assms by (auto simp: channel_ok_def query_ok_def)
  then show "mild ch (update_query h (\<lambda>q. q\<lparr>dq_timer := None\<rparr>) ch)"
    by (intro mild_update) (use assms in \<open>auto simp: same_query_def\<close>)
qed

lemma sendFailed_cases: "sendFailed h s ch = ch \<or> sendFailed h s ch = connectionFailed h s ch"
  by (auto simp: sendFailed_def split: option.split)

lemma tcpFailed_cases: "tcpFailed h n ch = ch \<or> (\<exists>s. tcpFailed h n ch = connectionFailed h s ch)"
  by (auto simp: tcpFailed_def split: option.split)

text \<open>A datagram or data on a connection leads to a response for a pending query, or to little.\<close>

lemma datagram_cases:
  "dnsDatagram lower connect_ok msg address port ch = ch \<or>
   (\<exists>h q server. ch_byId ch (u16 msg 0) = Some h \<and> ch_queries ch h = Some q \<and> \<not> dq_finished q \<and>
      dnsDatagram lower connect_ok msg address port ch = dnsResponse lower connect_ok h msg server False ch)"
  by (auto simp: dnsDatagram_def split: option.split)

lemma tcp_loop_id: "tcp_loop qid chunks = (Some body, rest) \<Longrightarrow> u16 body 0 = qid"
proof (induction qid chunks rule: tcp_loop.induct)
  case (1 qid chunks)
  then show ?case
    by (subst (asm) (2) tcp_loop.simps) (auto simp: Let_def split: if_splits)
qed

lemma tcpData_cases:
  "tcpData lower h n chunk ch = ch \<or>
   (\<exists>q rest. ch_queries ch h = Some q \<and> \<not> dq_finished q \<and>
      (let ch1 = update_query h (\<lambda>q. q\<lparr>dq_chunks := rest\<rparr>) ch
       in mild ch ch1 \<and> (tcpData lower h n chunk ch = ch1 \<or>
         (\<exists>body server. u16 body 0 = dq_id q \<and> tcpData lower h n chunk ch = dnsResponse lower True h body server True ch1))))"
proof (cases "\<exists>q server. ch_queries ch h = Some q \<and> \<not> dq_finished q \<and> dq_tcp q = Some (n, server)")
  case True
  then obtain q server where q: "ch_queries ch h = Some q" "\<not> dq_finished q" "dq_tcp q = Some (n, server)" by blast
  obtain found rest where l: "tcp_loop (dq_id q) (dq_chunks q @ chunk) = (found, rest)" by fastforce
  have m: "mild ch (update_query h (\<lambda>q. q\<lparr>dq_chunks := rest\<rparr>) ch)"
    by (rule mild_update) (use q in \<open>auto simp: same_query_def\<close>)
  show ?thesis
    by (rule disjI2, rule exI [of _ q], rule exI [of _ rest])
      (use q l m tcp_loop_id [of "dq_id q" "dq_chunks q @ chunk"] in \<open>cases found; auto simp: tcpData_def Let_def\<close>)
next
  case False
  then have "tcpData lower h n chunk ch = ch" by (auto simp: tcpData_def split: option.split)
  then show ?thesis by simp
qed

lemma settings_step:
  assumes "dns_step lower nfc toASCII ch ch'" "channel_ok ch"
  shows "settings_of ch' = settings_of ch"
  using assms
proof cases
  case (Query qid name type)
  then show ?thesis by (simp add: dnsQuery_def Let_def split: option.split)
next
  case (Tick t ts bind_ok send_ok)
  with settings_attempt [of "ch\<lparr>ch_ticks := ts\<rparr>"] channel_ok_pop [OF assms(2) Tick(2)] show ?thesis
    by (cases t) (simp_all add: runTick_def)
next
  case (Timer h q wait server bind_ok send_ok)
  note m = timer_mild [OF assms(2) Timer(2,3)]
  from settings_timedOut [OF channel_ok_mild [OF assms(2) m(2)]] Timer(1) show ?thesis by simp
next
  case (SendError h server wait)
  with settings_mild [OF mild_connectionFailed] sendFailed_cases [of h server ch] show ?thesis by auto
next
  case (SocketError family)
  with settings_mild [OF mild_socketFailed] show ?thesis by simp
next
  case (Datagram connect_ok msg address port)
  with settings_response datagram_cases [of lower connect_ok msg address port ch] show ?thesis by auto
next
  case (TcpData h socket chunk)
  from tcpData_cases [of lower h socket chunk ch] show ?thesis
  proof
    assume "tcpData lower h socket chunk ch = ch"
    with TcpData show ?thesis by simp
  next
    assume "\<exists>q rest. ch_queries ch h = Some q \<and> \<not> dq_finished q \<and>
      (let ch1 = update_query h (\<lambda>q. q\<lparr>dq_chunks := rest\<rparr>) ch
       in mild ch ch1 \<and> (tcpData lower h socket chunk ch = ch1 \<or>
         (\<exists>body server. u16 body 0 = dq_id q \<and> tcpData lower h socket chunk ch = dnsResponse lower True h body server True ch1)))"
    then obtain q rest where q: "ch_queries ch h = Some q" "\<not> dq_finished q" and r:
        "tcpData lower h socket chunk ch = update_query h (\<lambda>q. q\<lparr>dq_chunks := rest\<rparr>) ch \<or>
         (\<exists>body server. tcpData lower h socket chunk ch =
            dnsResponse lower True h body server True (update_query h (\<lambda>q. q\<lparr>dq_chunks := rest\<rparr>) ch))"
      by (auto simp: Let_def)
    have "settings_of (dnsResponse lower True h body server True (update_query h (\<lambda>q. q\<lparr>dq_chunks := rest\<rparr>) ch)) = settings_of ch" for body server
      using settings_response [of "update_query h (\<lambda>q. q\<lparr>dq_chunks := rest\<rparr>) ch" h "q\<lparr>dq_chunks := rest\<rparr>"] q by simp
    with r TcpData show ?thesis by auto
  qed
next
  case (TcpError h socket)
  with settings_mild [OF mild_connectionFailed] tcpFailed_cases [of h socket ch] show ?thesis by auto
next
  case Cancel
  then show ?thesis by (simp add: settings_cancel)
qed

lemma attempts_step:
  assumes "dns_step lower nfc toASCII ch ch'" "channel_ok ch" "attempts_ok None n ch"
    and n: "chTries ch * length (chServers ch) = n"
  shows "attempts_ok None n ch'"
  using assms(1)
proof cases
  case (Query qid name type)
  then show ?thesis using attempts_query [OF assms(3,2)] by simp
next
  case (Tick t ts bind_ok send_ok)
  then show ?thesis using attempts_tick [OF assms(3) _ n] by simp
next
  case (Timer h q wait server bind_ok send_ok)
  then show ?thesis using attempts_timedOut [OF assms(3) _ _ n] timer_mild(1) [OF assms(2)] by simp
next
  case (SendError h server wait)
  with assms(3) sendFailed_cases [of h server ch] show ?thesis by auto
next
  case (SocketError family)
  then show ?thesis using attempts_socketFailed [OF assms(3)] by simp
next
  case (Datagram connect_ok msg address port)
  with assms(3) datagram_cases [of lower connect_ok msg address port ch] show ?thesis by (auto intro: attempts_response)
next
  case (TcpData h socket chunk)
  have "attempts_ok None n (update_query h (\<lambda>q. q\<lparr>dq_chunks := rest\<rparr>) ch)" for rest
    by (rule attempts_update [OF assms(3)]) simp
  note this attempts_response [OF this]
  with TcpData assms(3) tcpData_cases [of lower h socket chunk ch] show ?thesis
    by (auto simp: Let_def)
next
  case (TcpError h socket)
  with assms(3) tcpFailed_cases [of h socket ch] show ?thesis by auto
next
  case Cancel
  then show ?thesis using attempts_cancel [OF assms(3)] by simp
qed

text \<open>What holds in every state a new channel can reach.\<close>

lemma reachable_ok:
  assumes "(dns_step lower nfc toASCII)\<^sup>*\<^sup>* ch0 ch" "ch0 = newChannel timeout tries maxTimeout def_timeout def_tries servers"
  shows "channel_ok ch \<and> settings_of ch = settings_of ch0 \<and> attempts_ok None (chTries ch0 * length (chServers ch0)) ch"
  using assms(1)
proof (induction rule: rtranclp_induct)
  case base
  have "attempts_ok None n ch0" for n
    using assms(2) by (simp add: newChannel_def attempts_ok_def sends_def ticks_def)
  with channel_ok_new assms(2) show ?case by simp
next
  case (step ch ch')
  then have ok: "channel_ok ch" and s: "settings_of ch = settings_of ch0"
    and a: "attempts_ok None (chTries ch0 * length (chServers ch0)) ch" by simp_all
  from attempts_step [OF step(2) ok a settings_n [OF s refl]] channel_ok_step [OF step(2) ok]
    settings_step [OF step(2) ok] s
  show ?case by simp
qed

subsection \<open>What a query reports\<close>

definition answers_ok :: "(jsstr \<Rightarrow> jsstr) \<Rightarrow> dns_channel \<Rightarrow> bool" where
  "answers_ok lower ch \<longleftrightarrow>
     (\<forall>h m. Answered m \<in> set (reports h ch) \<longrightarrow>
        (\<exists>q bs asked rest. ch_queries ch h = Some q \<and> parseMessage bs = Inr m \<and> u16 bs 0 = dq_id q \<and>
           m_questions m = asked # rest \<and> q_type asked = dq_type q \<and> q_class asked = 1 \<and>
           toLowerCase lower (q_name asked) = toLowerCase lower (dq_text q)))"

lemma answers_mild:
  assumes ok: "answers_ok lower ch" and m: "mild ch ch'"
  shows "answers_ok lower ch'"
  unfolding answers_ok_def
proof (intro allI impI)
  fix h a assume "Answered a \<in> set (reports h ch')"
  then have "Answered a \<in> set (reports h ch)" using m by (simp add: mild_def)
  then obtain q bs asked rest where q: "ch_queries ch h = Some q" and r: "parseMessage bs = Inr a" "u16 bs 0 = dq_id q"
      "m_questions a = asked # rest" "q_type asked = dq_type q" "q_class asked = 1"
      "toLowerCase lower (q_name asked) = toLowerCase lower (dq_text q)"
    using ok unfolding answers_ok_def by blast
  obtain q' where "ch_queries ch' h = Some q'" "same_query q q'" using mild_query [OF m q] by blast
  with r show "\<exists>q bs asked rest. ch_queries ch' h = Some q \<and> parseMessage bs = Inr a \<and> u16 bs 0 = dq_id q \<and>
           m_questions a = asked # rest \<and> q_type asked = dq_type q \<and> q_class asked = 1 \<and>
           toLowerCase lower (q_name asked) = toLowerCase lower (dq_text q)"
    by (auto simp: same_query_def)
qed

lemma answers_finish:
  assumes ok: "answers_ok lower ch"
    and r: "\<And>m q. r = Answered m \<Longrightarrow> ch_queries ch h = Some q \<Longrightarrow> \<exists>bs asked rest. parseMessage bs = Inr m \<and> u16 bs 0 = dq_id q \<and>
      m_questions m = asked # rest \<and> q_type asked = dq_type q \<and> q_class asked = 1 \<and>
      toLowerCase lower (q_name asked) = toLowerCase lower (dq_text q)"
  shows "answers_ok lower (dnsFinish h r ch)"
proof (cases "\<exists>q. ch_queries ch h = Some q \<and> \<not> dq_finished q")
  case False
  then have "dnsFinish h r ch = ch" by (intro finish_done) (cases "ch_queries ch h", auto)
  with ok show ?thesis by simp
next
  case True
  then obtain q where q: "ch_queries ch h = Some q" "\<not> dq_finished q" by blast
  note f = finish_fields [OF q]
  show ?thesis unfolding answers_ok_def
  proof (intro allI impI)
    fix g a assume "Answered a \<in> set (reports g (dnsFinish h r ch))"
    then consider "Answered a \<in> set (reports g ch)" | "g = h" "r = Answered a" by (auto simp: f split: if_splits)
    then show "\<exists>q bs asked rest. ch_queries (dnsFinish h r ch) g = Some q \<and> parseMessage bs = Inr a \<and> u16 bs 0 = dq_id q \<and>
           m_questions a = asked # rest \<and> q_type asked = dq_type q \<and> q_class asked = 1 \<and>
           toLowerCase lower (q_name asked) = toLowerCase lower (dq_text q)"
    proof cases
      case 1
      then obtain p bs asked rest where p: "ch_queries ch g = Some p" "parseMessage bs = Inr a" "u16 bs 0 = dq_id p"
          "m_questions a = asked # rest" "q_type asked = dq_type p" "q_class asked = 1"
          "toLowerCase lower (q_name asked) = toLowerCase lower (dq_text p)"
        using ok unfolding answers_ok_def by blast
      show ?thesis
      proof (cases "g = h")
        case True
        with p q have "q = p" by simp
        with True p show ?thesis by (auto simp: f)
      next
        case False
        with p show ?thesis by (auto simp: f)
      qed
    next
      case 2
      with r [OF 2(2) q(1)] show ?thesis by (auto simp: f)
    qed
  qed
qed

lemma answers_failed: "answers_ok lower ch \<Longrightarrow> answers_ok lower (dnsFinish h (Failed e) ch)"
  by (rule answers_finish) simp_all

lemma answers_response:
  assumes ok: "answers_ok lower ch" and q: "ch_queries ch h = Some q" "\<not> dq_finished q" "u16 bs 0 = dq_id q"
  shows "answers_ok lower (dnsResponse lower connect_ok h bs server overTcp ch)"
proof -
  have fl: "answers_ok lower (ch\<lparr>ch_failures := x\<rparr>)" for x
    by (rule answers_mild [OF ok mild_failures])
  have "answers_ok lower (startTcp connect_ok h server (ch\<lparr>ch_failures := x\<rparr>))" for x
    by (rule answers_mild [OF fl mild_startTcp]) (use q in simp_all)
  moreover have "answers_ok lower (dnsFinish h (Failed e) ch)" for e
    by (rule answers_failed [OF ok])
  moreover have "answers_ok lower (dnsFinish h (Answered m) (ch\<lparr>ch_failures := x\<rparr>))"
    if "parseMessage bs = Inr m" "m_questions m = asked # rest" "q_type asked = dq_type q" "q_class asked = 1"
      "toLowerCase lower (q_name asked) = toLowerCase lower (dq_text q)" for m asked rest x
    by (rule answers_finish [OF fl]) (use that q in auto)
  ultimately show ?thesis using ok q(1,2)
    by (auto simp: dnsResponse_def Let_def split: sum.split list.split)
qed

lemma answers_attempt:
  assumes "answers_ok lower ch" "channel_ok ch"
  shows "answers_ok lower (dnsAttempt bind_ok send_ok h ch)"
  using attempt_cases [OF assms(2), of bind_ok send_ok h] answers_failed [OF assms(1)] answers_mild [OF assms(1)]
  by auto

lemma answers_timedOut:
  assumes ok: "answers_ok lower ch" and c: "channel_ok ch"
  shows "answers_ok lower (timedOut bind_ok send_ok h s ch)"
proof (cases "\<exists>q. ch_queries ch h = Some q \<and> \<not> dq_finished q")
  case True
  then obtain q where q: "ch_queries ch h = Some q" "\<not> dq_finished q" by blast
  let ?f = "\<lambda>q. q\<lparr>dq_lastError := Some ''ETIMEOUT'', dq_tcp := None, dq_attempt := dq_attempt q + 1\<rparr>"
  have m: "mild ch (update_query h ?f (dnsFail s ch))"
    by (rule mild_trans [OF mild_fail mild_update]) (use q in \<open>auto simp: same_query_def\<close>)
  from answers_attempt [OF answers_mild [OF ok m] channel_ok_mild [OF c m]] q show ?thesis by (simp add: timedOut_def)
qed (use ok in \<open>auto simp: timedOut_def split: option.splits\<close>)

lemma answers_pop: "answers_ok lower ch \<Longrightarrow> answers_ok lower (ch\<lparr>ch_ticks := ts\<rparr>)"
  by (simp add: answers_ok_def)

lemma answers_other:
  "answers_ok lower (add_tick t ch) = answers_ok lower ch"
  "answers_ok lower (ch\<lparr>ch_next := n\<rparr>) = answers_ok lower ch"
  "answers_ok lower (log_event (Reported h (Failed e)) ch) = answers_ok lower ch"
  by (auto simp: answers_ok_def)

lemma answers_query:
  assumes ok: "answers_ok lower ch" and c: "channel_ok ch"
  shows "answers_ok lower (dnsQuery lower nfc toASCII name type qid ch)"
proof (cases "nameToLabels lower nfc toASCII name")
  case None
  with ok show ?thesis by (simp add: dnsQuery_def Let_def answers_other)
next
  case (Some labels)
  have n: "ch_queries ch (ch_next ch) = None"
    using c by (cases "ch_queries ch (ch_next ch)") (auto simp: channel_ok_def query_ok_def)
  show ?thesis unfolding answers_ok_def
  proof (intro allI impI)
    fix h m assume "Answered m \<in> set (reports h (dnsQuery lower nfc toASCII name type qid ch))"
    with Some have "Answered m \<in> set (reports h ch)" by (simp add: dnsQuery_def Let_def)
    then obtain q bs asked rest where q: "ch_queries ch h = Some q" "parseMessage bs = Inr m" "u16 bs 0 = dq_id q"
       "m_questions m = asked # rest" "q_type asked = dq_type q" "q_class asked = 1"
       "toLowerCase lower (q_name asked) = toLowerCase lower (dq_text q)"
      using ok unfolding answers_ok_def by blast
    moreover from this n have "ch_queries (dnsQuery lower nfc toASCII name type qid ch) h = Some q"
      using Some by (auto simp: dnsQuery_def Let_def)
    ultimately show "\<exists>q bs asked rest. ch_queries (dnsQuery lower nfc toASCII name type qid ch) h = Some q \<and>
           parseMessage bs = Inr m \<and> u16 bs 0 = dq_id q \<and>
           m_questions m = asked # rest \<and> q_type asked = dq_type q \<and> q_class asked = 1 \<and>
           toLowerCase lower (q_name asked) = toLowerCase lower (dq_text q)" by blast
  qed
qed

lemma answers_cancel: "answers_ok lower ch \<Longrightarrow> answers_ok lower (dnsCancel ch)"
proof -
  have "answers_ok lower (fold (\<lambda>h. add_tick (Tick_cancel h)) hs ch) = answers_ok lower ch" for hs ch
    by (induction hs arbitrary: ch) (simp_all add: answers_other)
  then show "answers_ok lower ch \<Longrightarrow> answers_ok lower (dnsCancel ch)" by (simp add: dnsCancel_def)
qed

lemma answers_step:
  assumes "dns_step lower nfc toASCII ch ch'" "channel_ok ch" and ok: "answers_ok lower ch"
  shows "answers_ok lower ch'"
  using assms(1)
proof cases
  case (Query qid name type)
  then show ?thesis using answers_query [OF ok assms(2)] by simp
next
  case (Tick t ts bind_ok send_ok)
  note pop = answers_pop [OF ok, of ts] channel_ok_pop [OF assms(2) Tick(2)]
  then show ?thesis using Tick answers_attempt [OF pop(1)] answers_failed [OF pop(1)]
    by (cases t) (simp_all add: runTick_def answers_other)
next
  case (Timer h q wait server bind_ok send_ok)
  note m = timer_mild(2) [OF assms(2) Timer(2,3)]
  show ?thesis using Timer(1) answers_timedOut [OF answers_mild [OF ok m] channel_ok_mild [OF assms(2) m]] by simp
next
  case (SendError h server wait)
  with ok answers_mild [OF ok mild_connectionFailed] sendFailed_cases [of h server ch] show ?thesis by auto
next
  case (SocketError family)
  then show ?thesis using answers_mild [OF ok mild_socketFailed] by simp
next
  case (Datagram connect_ok msg address port)
  have "dq_id q = u16 msg 0" if "ch_byId ch (u16 msg 0) = Some h" "ch_queries ch h = Some q" for h q
    using assms(2) that by (force simp: channel_ok_def)
  with Datagram ok datagram_cases [of lower connect_ok msg address port ch] show ?thesis
    by (auto intro!: answers_response)
next
  case (TcpData h socket chunk)
  have "answers_ok lower (dnsResponse lower True h body server True (update_query h (\<lambda>q. q\<lparr>dq_chunks := rest\<rparr>) ch))"
    if "mild ch (update_query h (\<lambda>q. q\<lparr>dq_chunks := rest\<rparr>) ch)" "ch_queries ch h = Some q" "\<not> dq_finished q"
      "u16 body 0 = dq_id q" for rest q body server
    by (rule answers_response [OF answers_mild [OF ok that(1)], where q = "q\<lparr>dq_chunks := rest\<rparr>"]) (use that in simp_all)
  with TcpData ok answers_mild [OF ok] tcpData_cases [of lower h socket chunk ch] show ?thesis
    by (auto simp: Let_def)
next
  case (TcpError h socket)
  with ok answers_mild [OF ok mild_connectionFailed] tcpFailed_cases [of h socket ch] show ?thesis by auto
next
  case Cancel
  then show ?thesis using answers_cancel [OF ok] by simp
qed

lemma reachable_answers:
  assumes "(dns_step lower nfc toASCII)\<^sup>*\<^sup>* ch0 ch" "ch0 = newChannel timeout tries maxTimeout def_timeout def_tries servers"
  shows "answers_ok lower ch"
  using assms(1)
proof (induction rule: rtranclp_induct)
  case base
  with assms(2) show ?case by (simp add: newChannel_def answers_ok_def reports_def)
next
  case (step ch ch')
  with answers_step [OF step(2) _ step(3)] reachable_ok [OF step(1) assms(2)] show ?case by blast
qed

subsection \<open>Unanswered queries\<close>

text \<open>The timer of a query fires, the host calls succeed.\<close>

definition fire_timer :: "nat \<Rightarrow> dns_channel \<Rightarrow> dns_channel" where
  "fire_timer h ch =
     (case ch_queries ch h of
        None \<Rightarrow> ch
      | Some q \<Rightarrow>
          (case dq_timer q of
             None \<Rightarrow> ch
           | Some (wait, server) \<Rightarrow> timedOut True True h server (update_query h (\<lambda>q. q\<lparr>dq_timer := None\<rparr>) ch)))"

lemma fire_timer_again:
  assumes q: "ch_queries ch h = Some q" "\<not> dq_finished q" "dq_timer q = Some x" and s: "chServers ch \<noteq> []"
    and n: "dq_attempt q + 1 < chTries ch * length (chServers ch)"
  shows "\<exists>q' x'. ch_queries (fire_timer h ch) h = Some q' \<and> \<not> dq_finished q' \<and> dq_timer q' = Some x' \<and>
     dq_attempt q' = dq_attempt q + 1 \<and> reports h (fire_timer h ch) = reports h ch \<and>
     sends h (fire_timer h ch) = sends h ch + 1 \<and> settings_of (fire_timer h ch) = settings_of ch"
proof -
  obtain wait server where x: "x = (wait, server)" by (cases x)
  define g where "g = (\<lambda>q :: dns_query. q\<lparr>dq_timer := None\<rparr>)"
  define f where "f = (\<lambda>q :: dns_query. q\<lparr>dq_lastError := Some ''ETIMEOUT'', dq_tcp := None, dq_attempt := dq_attempt q + 1\<rparr>)"
  define ch1 where "ch1 = update_query h f (dnsFail server (update_query h g ch))"
  have st: "settings_of ch1 = settings_of ch" by (simp add: ch1_def)
  have q1: "ch_queries ch1 h = Some (f (g q))" using q by (simp add: ch1_def)
  have c1: "reports h ch1 = reports h ch" "sends h ch1 = sends h ch" by (simp_all add: ch1_def)
  have fire: "fire_timer h ch = dnsAttempt True True h ch1"
    using q x by (simp add: fire_timer_def timedOut_def ch1_def f_def g_def)
  have fg: "\<not> dq_finished (f (g q))" "dq_attempt (f (g q)) = dq_attempt q + 1" using q by (simp_all add: f_def g_def)
  have go: "chServers ch1 \<noteq> []" "\<not> chTries ch1 * length (chServers ch1) \<le> dq_attempt (f (g q))"
    using settings_parts [OF st] s n fg by simp_all
  show ?thesis
    unfolding fire using q1 fg go c1 st
    by (auto simp: dnsAttempt_def Let_def dnsSocket_def settings_of_def log_event_def update_query_def sends_def reports_def)
qed

lemma fire_timer_last:
  assumes q: "ch_queries ch h = Some q" "\<not> dq_finished q" "dq_timer q = Some x" and s: "chServers ch \<noteq> []"
    and n: "chTries ch * length (chServers ch) \<le> dq_attempt q + 1"
  shows "reports h (fire_timer h ch) = reports h ch @ [Failed ''ETIMEOUT''] \<and> sends h (fire_timer h ch) = sends h ch"
proof -
  obtain wait server where x: "x = (wait, server)" by (cases x)
  define g where "g = (\<lambda>q :: dns_query. q\<lparr>dq_timer := None\<rparr>)"
  define f where "f = (\<lambda>q :: dns_query. q\<lparr>dq_lastError := Some ''ETIMEOUT'', dq_tcp := None, dq_attempt := dq_attempt q + 1\<rparr>)"
  define ch1 where "ch1 = update_query h f (dnsFail server (update_query h g ch))"
  have st: "settings_of ch1 = settings_of ch" by (simp add: ch1_def)
  have q1: "ch_queries ch1 h = Some (f (g q))" using q by (simp add: ch1_def)
  have c1: "reports h ch1 = reports h ch" "sends h ch1 = sends h ch" by (simp_all add: ch1_def)
  have fire: "fire_timer h ch = dnsAttempt True True h ch1"
    using q x by (simp add: fire_timer_def timedOut_def ch1_def f_def g_def)
  have fg: "\<not> dq_finished (f (g q))" "dq_lastError (f (g q)) = Some ''ETIMEOUT''" using q by (simp_all add: f_def g_def)
  have "chServers ch1 \<noteq> []" "chTries ch1 * length (chServers ch1) \<le> dq_attempt (f (g q))"
    using settings_parts [OF st] s n by (simp_all add: f_def g_def)
  then have "dnsAttempt True True h ch1 = dnsFinish h (Failed ''ETIMEOUT'') ch1"
    using q1 fg by (simp add: dnsAttempt_def)
  with fire finish_fields(6,7) [OF q1 fg(1)] c1 show ?thesis by simp
qed

lemma timeouts:
  assumes "ch_queries ch h = Some q" "\<not> dq_finished q" "dq_timer q = Some x" "chServers ch \<noteq> []"
    and "dq_attempt q + Suc k = chTries ch * length (chServers ch)"
  shows "reports h ((fire_timer h ^^ Suc k) ch) = reports h ch @ [Failed ''ETIMEOUT''] \<and>
    sends h ((fire_timer h ^^ Suc k) ch) = sends h ch + k"
  using assms
proof (induction k arbitrary: ch q x)
  case 0
  with fire_timer_last [of ch h q x] show ?case by simp
next
  case (Suc k)
  have lt: "dq_attempt q + 1 < chTries ch * length (chServers ch)" using Suc.prems(5) by simp
  from fire_timer_again [OF Suc.prems(1-4) lt] obtain q' x' where q': "ch_queries (fire_timer h ch) h = Some q'"
     "\<not> dq_finished q'" "dq_timer q' = Some x'" "dq_attempt q' = dq_attempt q + 1"
     "reports h (fire_timer h ch) = reports h ch" "sends h (fire_timer h ch) = sends h ch + 1"
     "settings_of (fire_timer h ch) = settings_of ch" by blast
  have "chServers (fire_timer h ch) \<noteq> []" "dq_attempt q' + Suc k = chTries (fire_timer h ch) * length (chServers (fire_timer h ch))"
    using settings_parts [OF q'(7)] Suc.prems(4,5) q'(4) by simp_all
  from Suc.IH [OF q'(1-3) this] q'(5,6) show ?case by (simp add: funpow_swap1)
qed

subsection \<open>The properties of the resolver\<close>

text \<open>C12: in every state a channel reaches, whatever ticks, timers, errors and packets came and in whatever order:
  a query reports exactly once, when it ends, and is pending until then; once no query is pending the channel
  holds no socket, no id, no timer and no connection.\<close>

theorem dns_channel_consistent:
  assumes "(dns_step lower nfc toASCII)\<^sup>*\<^sup>* (newChannel timeout tries maxTimeout def_timeout def_tries servers) ch"
  shows "(\<forall>h. length (reports h ch) \<le> 1) \<and>
    (\<forall>h q. ch_queries ch h = Some q \<longrightarrow> dq_finished q = (reports h ch \<noteq> []) \<and> (h \<in> set (ch_pending ch)) = (\<not> dq_finished q)) \<and>
    (ch_pending ch = [] \<longrightarrow> ch_sockets ch = [] \<and> (\<forall>i. ch_byId ch i = None) \<and>
       (\<forall>h q. ch_queries ch h = Some q \<longrightarrow> dq_timer q = None \<and> dq_tcp q = None))"
proof -
  have ok: "channel_ok ch" using reachable_ok [OF assms refl] by simp
  have q: "query_ok ch h q" if "ch_queries ch h = Some q" for h q
    using ok that by (simp add: channel_ok_def)
  have "length (reports h ch) \<le> 1" for h
  proof (cases "ch_queries ch h")
    case None
    then have "length (reports h ch) + ticks (Tick_badname h) ch \<le> 1" using ok unfolding channel_ok_def by simp
    then show ?thesis by simp
  next
    case (Some p)
    with q [OF Some] show ?thesis by (auto simp: query_ok_def split: if_splits)
  qed
  moreover have "ch_sockets ch = [] \<and> (\<forall>i. ch_byId ch i = None)" if p: "ch_pending ch = []"
  proof -
    have "\<not> family_needed ch f" for f using p by (simp add: family_needed_def)
    then have "ch_sockets ch = []" using ok unfolding channel_ok_def by (cases "ch_sockets ch") auto
    moreover have "ch_byId ch i = None" for i
    proof (rule ccontr)
      assume "ch_byId ch i \<noteq> None"
      then obtain h where "ch_byId ch i = Some h" by blast
      then obtain r where "ch_queries ch h = Some r" "\<not> dq_finished r" using ok unfolding channel_ok_def by blast
      with q [OF this(1)] p show False by (simp add: query_ok_def)
    qed
    ultimately show ?thesis by simp
  qed
  moreover have "h \<notin> set (ch_pending ch) \<and> reports h ch \<noteq> [] \<and> dq_timer r = None \<and> dq_tcp r = None"
    if "ch_queries ch h = Some r" "dq_finished r" for h r
    using q [OF that(1)] that(2) by (auto simp: query_ok_def)
  moreover have "h \<in> set (ch_pending ch) \<and> reports h ch = []" if "ch_queries ch h = Some r" "\<not> dq_finished r" for h r
    using q [OF that(1)] that(2) by (simp add: query_ok_def)
  ultimately show ?thesis by (metis empty_iff empty_set)
qed

text \<open>C14: no query sends more datagrams than there are tries times servers, also when failures of old sends are
  reported late or several failures hit one attempt.\<close>

theorem dns_sends_bounded:
  assumes "ch0 = newChannel timeout tries maxTimeout def_timeout def_tries servers" "(dns_step lower nfc toASCII)\<^sup>*\<^sup>* ch0 ch"
  shows "sends h ch \<le> chTries ch0 * length (chServers ch0)"
proof -
  have "attempts_ok None (chTries ch0 * length (chServers ch0)) ch" using reachable_ok [OF assms(2,1)] by simp
  from attemptsD [OF this, of h] show ?thesis by (cases "ch_queries ch h") simp_all
qed

text \<open>C15: a query that has not reported yet is never forgotten: its timer is armed or an attempt is due.\<close>

theorem dns_never_stuck:
  assumes "(dns_step lower nfc toASCII)\<^sup>*\<^sup>* (newChannel timeout tries maxTimeout def_timeout def_tries servers) ch"
    and "h \<in> set (ch_pending ch)"
  shows "\<exists>q. ch_queries ch h = Some q \<and> (dq_timer q \<noteq> None \<or> Tick_attempt h \<in> set (ch_ticks ch))"
proof -
  note r = reachable_ok [OF assms(1) refl]
  then obtain q where q: "ch_queries ch h = Some q" using assms(2) unfolding channel_ok_def by blast
  then have "query_ok ch h q" using r by (simp add: channel_ok_def)
  with assms(2) have "\<not> dq_finished q" by (auto simp: query_ok_def)
  moreover have "0 < ticks (Tick_attempt h) ch \<longleftrightarrow> Tick_attempt h \<in> set (ch_ticks ch)"
    by (simp add: ticks_def count_list_0_iff flip: neq0_conv)
  ultimately show ?thesis using attempts_Some [OF conjunct2 [OF conjunct2 [OF r]] q] q by auto
qed

text \<open>C16: a query that is never answered ends by itself: after tries times servers datagrams, each with its time
  to wait, it reports ETIMEOUT, and not before.\<close>

theorem dns_unanswered:
  assumes "ch0 = newChannel timeout tries maxTimeout def_timeout def_tries servers" "chServers ch0 \<noteq> []" "0 < chTries ch0"
    and "nameToLabels lower nfc toASCII name = Some labels"
    and "ch1 = runTick True True (Tick_attempt 0) (dnsQuery lower nfc toASCII name type qid ch0\<lparr>ch_ticks := []\<rparr>)"
    and "n = chTries ch0 * length (chServers ch0)"
  shows "reports 0 ((fire_timer 0 ^^ n) ch1) = [Failed ''ETIMEOUT''] \<and> sends 0 ((fire_timer 0 ^^ n) ch1) = n"
proof -
  define ch where "ch = dnsQuery lower nfc toASCII name type qid ch0\<lparr>ch_ticks := []\<rparr>"
  have st: "settings_of ch = settings_of ch0" using assms(4) by (simp add: ch_def dnsQuery_def Let_def)
  have parts: "chServers ch = chServers ch0" "chTries ch = chTries ch0" using settings_parts [OF st] by simp_all
  obtain q where q: "ch_queries ch 0 = Some q" "\<not> dq_finished q" "dq_attempt q = 0"
    using assms(1,4) by (simp add: ch_def dnsQuery_def Let_def newChannel_def)
  have none: "reports 0 ch = []" "sends 0 ch = 0" "ch_sockets ch = []"
    using assms(1,4) by (simp_all add: ch_def dnsQuery_def Let_def newChannel_def reports_def sends_def add_tick_def)
  have "\<not> chTries ch * length (chServers ch) \<le> dq_attempt q" using q assms(2,3) parts by simp
  then have "\<exists>q' x. ch_queries ch1 0 = Some q' \<and> \<not> dq_finished q' \<and> dq_timer q' = Some x \<and> dq_attempt q' = 0 \<and>
      reports 0 ch1 = [] \<and> sends 0 ch1 = 1 \<and> settings_of ch1 = settings_of ch0"
    using q none assms(2) parts(1) st unfolding assms(5) ch_def [symmetric]
    by (auto simp: runTick_def dnsAttempt_def Let_def dnsSocket_def settings_of_def log_event_def update_query_def sends_def reports_def)
  then obtain q' x where q': "ch_queries ch1 0 = Some q'" "\<not> dq_finished q'" "dq_timer q' = Some x" "dq_attempt q' = 0"
      "reports 0 ch1 = []" "sends 0 ch1 = 1" and st1: "settings_of ch1 = settings_of ch0" by blast
  have "0 < n" using assms(2,3,6) by simp
  then obtain k where k: "n = Suc k" by (cases n) auto
  have "chServers ch1 \<noteq> []" "dq_attempt q' + Suc k = chTries ch1 * length (chServers ch1)"
    using settings_parts [OF st1] assms(2,6) k q'(4) by simp_all
  from timeouts [OF q'(1-3) this] q'(5,6) k show ?thesis by simp
qed

text \<open>C13: a message that a query reports is one that was received with the id of the query and asks the question of
  the query, so that stale and forged replies to other questions never become its answer.\<close>

theorem dns_answer_matches:
  assumes "(dns_step lower nfc toASCII)\<^sup>*\<^sup>* (newChannel timeout tries maxTimeout def_timeout def_tries servers) ch"
    and "Answered m \<in> set (reports h ch)"
  shows "\<exists>q bs asked rest. ch_queries ch h = Some q \<and> parseMessage bs = Inr m \<and> u16 bs 0 = dq_id q \<and>
     m_questions m = asked # rest \<and> q_type asked = dq_type q \<and> q_class asked = 1 \<and>
     toLowerCase lower (q_name asked) = toLowerCase lower (dq_text q)"
  using reachable_answers [OF assms(1) refl] assms(2) unfolding answers_ok_def by blast

subsection \<open>A run\<close>

definition test_server :: dns_server where
  "test_server = \<lparr>sv_ip = js ''::1'', sv_port = 53, sv_family = 6, sv_host = js ''::1''\<rparr>"

definition test_channel :: dns_channel where
  "test_channel = dnsQuery (\<lambda>s. s) (\<lambda>s. s) None [97] 1 7 (newChannel None None 0 None None [test_server])"

lemma test_labels: "nameToLabels (\<lambda>s. s) (\<lambda>s. s) None [97] = Some [[97]]"
  by (simp add: nameToLabels_def toLowerCase_def ascii_lower_def)

lemma test_step:
  "(dns_step (\<lambda>s. s) (\<lambda>s. s) None)\<^sup>*\<^sup>* (newChannel None None 0 None None [test_server]) test_channel"
  unfolding test_channel_def by (rule r_into_rtranclp, rule Query) (simp_all add: newChannel_def)

lemma test_pending: "ch_pending test_channel = [0]" "ch_ticks test_channel = [Tick_attempt 0]"
  by (simp_all add: test_channel_def dnsQuery_def test_labels newChannel_def add_tick_def)

theorem dns_channel_consistent_witness: "length (reports 0 test_channel) \<le> 1"
  using dns_channel_consistent [OF test_step] by simp

theorem dns_sends_bounded_witness: "sends 0 test_channel \<le> 4"
  using dns_sends_bounded [OF refl test_step, of 0] by (simp add: newChannel_def chTries_def chServers_def)

theorem dns_never_stuck_witness:
  "\<exists>q. ch_queries test_channel 0 = Some q \<and> (dq_timer q \<noteq> None \<or> Tick_attempt 0 \<in> set (ch_ticks test_channel))"
  by (rule dns_never_stuck [OF test_step]) (simp add: test_pending)

theorem dns_unanswered_witness:
  "reports 0 ((fire_timer 0 ^^ 4) (runTick True True (Tick_attempt 0) (test_channel\<lparr>ch_ticks := []\<rparr>))) = [Failed ''ETIMEOUT'']"
  using dns_unanswered [OF refl _ _ test_labels refl refl, of None None 0 None None "[test_server]" 1 7]
  by (simp add: newChannel_def chTries_def chServers_def test_channel_def)

text \<open>The channel once the query is sent, and the datagram that answers it: the query itself, come back.\<close>

definition sent_channel :: dns_channel where
  "sent_channel = runTick True True (Tick_attempt 0) (test_channel\<lparr>ch_ticks := []\<rparr>)"

lemma sent_step: "(dns_step (\<lambda>s. s) (\<lambda>s. s) None)\<^sup>*\<^sup>* (newChannel None None 0 None None [test_server]) sent_channel"
  unfolding sent_channel_def using test_step by (rule rtranclp.rtrancl_into_rtrancl) (rule Tick, rule test_pending)

lemma sent_query:
  "\<exists>q. ch_queries sent_channel 0 = Some q \<and> dq_id q = 7 \<and> dq_text q = [97] \<and> dq_type q = 1 \<and> \<not> dq_finished q \<and>
     dq_mode q = Some UDP \<and> dq_sentTo q = [serverKey test_server] \<and> dq_server q = Some test_server"
  "ch_byId sent_channel 7 = Some 0" "chServers sent_channel = [test_server]" "reports 0 sent_channel = []"
  by (simp_all add: sent_channel_def test_channel_def dnsQuery_def test_labels newChannel_def runTick_def dnsAttempt_def
      chServers_def chTries_def dnsPick_def dnsSocket_def add_tick_def update_query_def log_event_def present_name_def
      present_label_def presentByte_def reports_def Let_def)

definition echo :: "byte list" where
  "echo = [0, 7, 1, 0, 0, 1, 0, 0, 0, 0, 0, 0, 1, 97, 0, 0, 1, 0, 1]"

lemma echo_parses:
  "parseMessage echo = Inr \<lparr>m_id = 7, m_flags = 256, m_rcode = 0, m_tc = False,
     m_questions = [\<lparr>q_name = [97], q_type = 1, q_class = 1\<rparr>], m_answers = [], m_bytes = echo\<rparr>"
proof -
  have "readName (take 12 echo @ label_bytes [[97]] @ 0 # drop 15 echo) (length (take 12 echo)) = Inr ([97], 15)"
    by (subst readName_labels) (simp_all add: label_ok_def wire_size_def present_name_def present_label_def presentByte_def echo_def)
  moreover have "take 12 echo @ label_bytes [[97]] @ 0 # drop 15 echo = echo" by (simp add: echo_def label_bytes_def)
  moreover have "length (take 12 echo) = 12" by (simp add: echo_def)
  ultimately have "readName echo 12 = Inr ([97], 15)" by simp
  then show ?thesis by (simp add: parseMessage_def u16_def byte_at_def) (simp add: echo_def u16_def byte_at_def)
qed

lemma echo_reported:
  "reports 0 (dnsDatagram (\<lambda>s. s) True echo (js ''::1'') 53 sent_channel) =
   [Answered \<lparr>m_id = 7, m_flags = 256, m_rcode = 0, m_tc = False,
     m_questions = [\<lparr>q_name = [97], q_type = 1, q_class = 1\<rparr>], m_answers = [], m_bytes = echo\<rparr>]"
proof -
  obtain q where q: "ch_queries sent_channel 0 = Some q" "dq_id q = 7" "dq_text q = [97]" "dq_type q = 1" "\<not> dq_finished q"
     "dq_mode q = Some UDP" "dq_sentTo q = [serverKey test_server]" "dq_server q = Some test_server"
    using sent_query(1) by blast
  have ip: "map_option ip_text (parseIP (unmap_address (js ''::1''))) = Some (js ''::1'')"
    by code_simp
  then obtain src where src: "parseIP (unmap_address (js ''::1'')) = Some src" "ip_text src = js ''::1''" by blast
  have len: "\<not> length echo < 2" "u16 echo 0 = 7" by (simp_all add: echo_def u16_def byte_at_def)
  have key: "ip_text src @ [58] @ decimal 53 = serverKey test_server" using src by (simp add: serverKey_def test_server_def)
  have "dnsDatagram (\<lambda>s. s) True echo (js ''::1'') 53 sent_channel = dnsResponse (\<lambda>s. s) True 0 echo test_server False sent_channel"
    using len sent_query(2,3) q src key by (simp add: dnsDatagram_def test_server_def)
  moreover have "toLowerCase (\<lambda>s. s) [97] = [97]" by (simp add: toLowerCase_def ascii_lower_def)
  ultimately show ?thesis
    using q sent_query(4) finish_fields(6) [of "sent_channel\<lparr>ch_failures := (ch_failures sent_channel)(serverKey test_server := 0)\<rparr>" 0 q]
    by (simp add: dnsResponse_def echo_parses Let_def)
qed

text \<open>The channel does not look at the QR bit of a message, so the query itself, sent back by the server asked,
  is reported as the answer: a successful response, though it is none.\<close>

theorem echo_is_answer:
  "\<exists>m. reports 0 (dnsDatagram (\<lambda>s. s) True echo (js ''::1'') 53 sent_channel) = [Answered m] \<and>
     echo = buildQuery 7 [[97]] 1 \<and> even (m_flags m div 32768) \<and>
     answerFor (\<lambda>s. s) ''resolve4'' m [97] False = Inr (Answer_code ''ENODATA'')"
  by (rule exI, rule conjI, rule echo_reported)
    (simp add: echo_def buildQuery_def label_bytes_def answerFor_def)

theorem dns_answer_matches_witness:
  "\<exists>q bs asked rest. ch_queries (dnsDatagram (\<lambda>s. s) True echo (js ''::1'') 53 sent_channel) 0 = Some q \<and> u16 bs 0 = dq_id q \<and>
     m_questions \<lparr>m_id = 7, m_flags = 256, m_rcode = 0, m_tc = False,
     m_questions = [\<lparr>q_name = [97], q_type = 1, q_class = 1\<rparr>], m_answers = [], m_bytes = echo\<rparr> = asked # rest \<and>
     q_type asked = dq_type q"
proof -
  have "(dns_step (\<lambda>s. s) (\<lambda>s. s) None)\<^sup>*\<^sup>* (newChannel None None 0 None None [test_server])
      (dnsDatagram (\<lambda>s. s) True echo (js ''::1'') 53 sent_channel)"
    using sent_step by (rule rtranclp.rtrancl_into_rtrancl) (rule Datagram)
  from dns_answer_matches [OF this, of _ 0] echo_reported show ?thesis by fastforce
qed

end
