(* ===== verification/DnsFiles.thy ===== *)
theory DnsFiles
  imports DnsResolver
begin

text \<open>
  The files and tool outputs the DNS client reads, from \<open>quickjs/runtime/node-dns.js\<close>: \<open>resolv.conf\<close>, \<open>hosts\<close>,
  \<open>services\<close>, and the output of \<open>ipconfig\<close> and \<open>nslookup\<close>. Regular expressions are written out as scans.
\<close>

subsection \<open>Lines and words\<close>

text \<open>The white space of regular expressions (\<open>\s\<close>, also what \<open>trim\<close> removes) and the line
  terminators, which a dot does not match.\<close>

definition is_space :: "jschar \<Rightarrow> bool" where
  "is_space c \<longleftrightarrow> (let n = unat c in 9 \<le> n \<and> n \<le> 13 \<or> n \<in> {32, 160, 5760, 8232, 8233, 8239, 8287, 12288, 65279} \<or>
     8192 \<le> n \<and> n \<le> 8202)"

definition is_terminator :: "jschar \<Rightarrow> bool" where
  "is_terminator c \<longleftrightarrow> unat c \<in> {10, 13, 8232, 8233}"

definition trim :: "jsstr \<Rightarrow> jsstr" where
  "trim s = rev (dropWhile is_space (rev (dropWhile is_space s)))"

text \<open>\<open>text.split(/\r?\n/)\<close> and \<open>s.split(/\s+/)\<close>.\<close>

fun split_lines :: "jsstr \<Rightarrow> jsstr list" where
  "split_lines [] = [[]]"
| "split_lines (c # cs) =
     (if c = 10 then [] # split_lines cs
      else if c = 13 \<and> cs \<noteq> [] \<and> hd cs = 10 then [] # split_lines (tl cs)
      else (case split_lines cs of [] \<Rightarrow> [[c]] | p # ps \<Rightarrow> (c # p) # ps))"

text \<open>The pieces between runs of separators: \<open>s.split(/[...]+/)\<close>.\<close>

function split_runs :: "(jschar \<Rightarrow> bool) \<Rightarrow> jsstr \<Rightarrow> jsstr list" where
  "split_runs sep s =
     (let p = takeWhile (\<lambda>c. \<not> sep c) s; r = dropWhile (\<lambda>c. \<not> sep c) s
      in if r = [] then [p] else p # split_runs sep (dropWhile sep r))"
  by pat_completeness auto
termination
proof (relation "measure (\<lambda>(sep, s). length s)")
  fix sep :: "jschar \<Rightarrow> bool" and s p r :: jsstr
  assume r: "r = dropWhile (\<lambda>c. \<not> sep c) s" and "r \<noteq> []"
  from \<open>r \<noteq> []\<close> obtain c t where ct: "r = c # t" by (cases r) simp_all
  have "sep (hd r)" using hd_dropWhile [of "\<lambda>c. \<not> sep c" s] \<open>r \<noteq> []\<close> unfolding r by blast
  then have "sep c" "length r \<le> length s" using ct length_dropWhile_le [of "\<lambda>c. \<not> sep c" s] r by simp_all
  with ct have "length (dropWhile sep r) < length s"
    using length_dropWhile_le [of sep t] by simp
  then show "((sep, dropWhile sep r), sep, s) \<in> measure (\<lambda>(sep, s). length s)" by simp
qed simp

declare split_runs.simps [simp del]

definition split_words :: "jsstr \<Rightarrow> jsstr list" where
  "split_words = split_runs is_space"

text \<open>\<open>s.replace(/[marks].*$/, "")\<close>: the first mark from which the rest is one line.\<close>

fun cut_comment :: "jschar set \<Rightarrow> jsstr \<Rightarrow> jsstr" where
  "cut_comment marks [] = []"
| "cut_comment marks (c # cs) =
     (if c \<in> marks \<and> list_all (\<lambda>d. \<not> is_terminator d) cs then [] else c # cut_comment marks cs)"

text \<open>The digits after a prefix, when that is all there is: \<open>/^prefix(\d+)$/\<close>.\<close>

definition number_after :: "jsstr \<Rightarrow> jsstr \<Rightarrow> nat option" where
  "number_after pre s =
     (let d = drop (length pre) s
      in if take (length pre) s = pre \<and> d \<noteq> [] \<and> list_all is_digit d then Some (of_base 10 d) else None)"

subsection \<open>resolv.conf\<close>

record resolv_conf =
  rc_servers :: "jsstr list"
  rc_timeout :: "nat option"
  rc_tries :: "nat option"

text \<open>\<open>/^nameserver\s+(\S+)/\<close>.\<close>

definition nameserver_of :: "jsstr \<Rightarrow> jsstr option" where
  "nameserver_of line =
     (let r = drop 10 line; v = takeWhile (\<lambda>c. \<not> is_space c) (dropWhile is_space r)
      in if take 10 line = js ''nameserver'' \<and> r \<noteq> [] \<and> is_space (hd r) \<and> v \<noteq> [] then Some v else None)"

definition resolv_option :: "jsstr \<Rightarrow> resolv_conf \<Rightarrow> resolv_conf" where
  "resolv_option opt rc =
     (let rc = (case number_after (js ''timeout:'') opt of Some n \<Rightarrow> rc\<lparr>rc_timeout := Some (n * 1000)\<rparr> | None \<Rightarrow> rc)
      in case number_after (js ''attempts:'') opt of
           Some n \<Rightarrow> if 0 < n then rc\<lparr>rc_tries := Some n\<rparr> else rc
         | None \<Rightarrow> rc)"

definition resolv_line :: "jsstr \<Rightarrow> resolv_conf \<Rightarrow> resolv_conf" where
  "resolv_line raw rc =
     (let line = trim (cut_comment {35, 59} raw)
      in case nameserver_of line of
           Some address \<Rightarrow> rc\<lparr>rc_servers := rc_servers rc @ [address]\<rparr>
         | None \<Rightarrow>
             if take 7 line = js ''options'' \<and> 7 < length line \<and> is_space (line ! 7)
             then fold resolv_option (drop 1 (split_words line)) rc else rc)"

definition parseResolvConf :: "jsstr \<Rightarrow> resolv_conf" where
  "parseResolvConf text = fold resolv_line (split_lines text) \<lparr>rc_servers = [], rc_timeout = None, rc_tries = None\<rparr>"

subsection \<open>hosts and services\<close>

definition hosts_line :: "jsstr \<Rightarrow> (ip_address \<times> jsstr list) option" where
  "hosts_line raw =
     (case split_words (trim (cut_comment {35} raw)) of
        a # b # names \<Rightarrow> map_option (\<lambda>ip. (ip, b # names)) (parseIP a)
      | _ \<Rightarrow> None)"

definition parseHosts :: "jsstr \<Rightarrow> (ip_address \<times> jsstr list) list" where
  "parseHosts text = List.map_filter hosts_line (split_lines text)"

definition is_word :: "jschar \<Rightarrow> bool" where
  "is_word c \<longleftrightarrow> digit_val c < 36 \<or> c = 95"

text \<open>\<open>/^\s*([^\s#]+)\s+(\d+)\/tcp\b/\<close>.\<close>

definition service_line :: "jsstr \<Rightarrow> (nat \<times> jsstr) option" where
  "service_line raw =
     (let s = dropWhile is_space raw;
          name = takeWhile (\<lambda>c. \<not> is_space c \<and> c \<noteq> 35) s; r = drop (length name) s;
          t = dropWhile is_space r; d = takeWhile is_digit t; u = drop (length d) t
      in if name \<noteq> [] \<and> r \<noteq> [] \<and> is_space (hd r) \<and> d \<noteq> [] \<and> take 4 u = js ''/tcp'' \<and>
            (drop 4 u = [] \<or> \<not> is_word (u ! 4))
         then Some (of_base 10 d, name) else None)"

definition parseServices :: "jsstr \<Rightarrow> nat \<Rightarrow> jsstr option" where
  "parseServices text =
     fold (\<lambda>raw m. case service_line raw of
         Some (port, name) \<Rightarrow> if m port = None then m(port \<mapsto> name) else m
       | None \<Rightarrow> m) (split_lines text) (\<lambda>_. None)"

definition WELL_KNOWN_SERVICES :: "(nat \<times> string) list" where
  "WELL_KNOWN_SERVICES =
     [(7, ''echo''), (9, ''discard''), (13, ''daytime''), (19, ''chargen''), (20, ''ftp-data''), (21, ''ftp''),
      (22, ''ssh''), (23, ''telnet''), (25, ''smtp''), (37, ''time''), (43, ''whois''), (53, ''domain''),
      (67, ''bootps''), (68, ''bootpc''), (69, ''tftp''), (70, ''gopher''), (79, ''finger''), (80, ''http''),
      (88, ''kerberos''), (110, ''pop3''), (111, ''sunrpc''), (113, ''auth''), (119, ''nntp''), (123, ''ntp''),
      (135, ''epmap''), (137, ''netbios-ns''), (138, ''netbios-dgm''), (139, ''netbios-ssn''), (143, ''imap''),
      (161, ''snmp''), (162, ''snmptrap''), (179, ''bgp''), (194, ''irc''), (389, ''ldap''), (443, ''https''),
      (445, ''microsoft-ds''), (465, ''submissions''), (500, ''isakmp''), (514, ''shell''), (515, ''printer''),
      (543, ''klogin''), (544, ''kshell''), (546, ''dhcpv6-client''), (547, ''dhcpv6-server''),
      (587, ''submission''), (631, ''ipp''), (636, ''ldaps''), (873, ''rsync''), (993, ''imaps''), (995, ''pop3s''),
      (1080, ''socks''), (1433, ''ms-sql-s''), (1521, ''ncube-lm''), (2049, ''nfs''), (3128, ''ndl-aas''),
      (3306, ''mysql''), (3389, ''ms-wbt-server''), (5060, ''sip''), (5432, ''postgresql''), (5900, ''rfb''),
      (6379, ''redis''), (8080, ''http-alt'')]"

text \<open>\<open>services\<close> is the text of the file, empty when it cannot be read.\<close>

definition serviceName :: "jsstr \<Rightarrow> nat \<Rightarrow> jsstr" where
  "serviceName services port =
     (case parseServices services port of
        Some name \<Rightarrow> name
      | None \<Rightarrow> (case map_of WELL_KNOWN_SERVICES port of Some name \<Rightarrow> js name | None \<Rightarrow> decimal port))"

subsection \<open>The server lists of Windows\<close>

text \<open>\<open>ADDRESS_ONLY\<close>: a dotted quad or something with a colon before any dot, and perhaps a zone.\<close>

definition quad_shape :: "jsstr \<Rightarrow> bool" where
  "quad_shape s \<longleftrightarrow> length (split_on 46 s) = 4 \<and>
     list_all (\<lambda>p. p \<noteq> [] \<and> length p \<le> 3 \<and> list_all is_digit p) (split_on 46 s)"

definition colon_shape :: "jsstr \<Rightarrow> bool" where
  "colon_shape s \<longleftrightarrow> list_all v6_char s \<and> 58 \<in> set (takeWhile (\<lambda>c. c \<noteq> 46) s)"

definition address_only :: "jsstr \<Rightarrow> bool" where
  "address_only raw =
     (let s = trim raw; body = takeWhile (\<lambda>c. c \<noteq> 37) s; zone = drop (length body) s
      in (quad_shape body \<or> colon_shape body) \<and>
         (zone = [] \<or> 1 < length zone \<and> list_all (\<lambda>c. is_word c \<or> c = 46 \<or> c = 45) (tl zone)))"

text \<open>\<open>/^fec0:0?:0?:ffff:/i\<close> on the text of an address, which is in lower case.\<close>

definition site_local :: "jsstr \<Rightarrow> bool" where
  "site_local t \<longleftrightarrow> (\<exists>a \<in> {[], [48]}. \<exists>b \<in> {[], [48]}. prefix (js ''fec0:'' @ a @ [58] @ b @ js '':ffff:'') (map ascii_lower t))"

definition take_address :: "jsstr \<Rightarrow> jsstr list \<Rightarrow> bool \<times> jsstr list" where
  "take_address v servers =
     (let address = trim v
      in if \<not> address_only address then (False, servers)
         else case parseIP address of
             None \<Rightarrow> (False, servers)
           | Some parsed \<Rightarrow>
               if ip_family parsed = 6 \<and> site_local (ip_text parsed) then (True, servers)
               else let shown = (if ip_zone parsed \<noteq> None \<and> \<not> prefix (js ''fe80:'') (map ascii_lower (ip_text parsed))
                                 then ip_text parsed else address)
               in (True, if shown \<in> set servers then servers else servers @ [shown]))"

text \<open>
  \<open>/^\s*(.*?)[ .]*:(?:\s+(.*))?$/\<close>: the shortest name after which there are only spaces and dots up to a colon
  that ends the line or is followed by white space and the value.
\<close>

definition header_tail :: "jsstr \<Rightarrow> jsstr option option" where
  "header_tail s =
     (case dropWhile (\<lambda>c. c = 32 \<or> c = 46) s of
        [] \<Rightarrow> None
      | c # t \<Rightarrow>
          if c \<noteq> 58 then None
          else if t = [] then Some None
          else if is_space (hd t) \<and> list_all (\<lambda>d. \<not> is_terminator d) (dropWhile is_space t)
            then Some (Some (dropWhile is_space t)) else None)"

fun header_scan :: "jsstr \<Rightarrow> jsstr \<Rightarrow> (jsstr \<times> jsstr option) option" where
  "header_scan name s =
     (case header_tail s of
        Some v \<Rightarrow> Some (name, v)
      | None \<Rightarrow> (case s of [] \<Rightarrow> None | c # cs \<Rightarrow> if is_terminator c then None else header_scan (name @ [c]) cs))"

declare header_scan.simps [simp del]

definition ipconfig_header :: "jsstr \<Rightarrow> (jsstr \<times> jsstr option) option" where
  "ipconfig_header raw = header_scan [] (dropWhile is_space raw)"

definition has_dns :: "jsstr \<Rightarrow> bool" where
  "has_dns name \<longleftrightarrow> sublist (js ''dns'') (map ascii_lower name)"

definition ipconfig_line :: "jsstr \<Rightarrow> bool \<times> jsstr list \<Rightarrow> bool \<times> jsstr list" where
  "ipconfig_line raw st =
     (let (inList, servers) = st; indented = (raw \<noteq> [] \<and> is_space (hd raw))
      in if trim raw = [] then (False, servers)
         else case (if indented \<and> \<not> address_only raw then ipconfig_header raw else None) of
             Some (name, v) \<Rightarrow>
               if has_dns name then take_address (case v of Some t \<Rightarrow> t | None \<Rightarrow> []) servers else (False, servers)
           | None \<Rightarrow>
               if inList \<and> indented \<and> address_only raw then (inList, snd (take_address raw servers))
               else (False, servers))"

definition parseIpconfig :: "jsstr \<Rightarrow> jsstr list" where
  "parseIpconfig text =
     (let servers = snd (fold ipconfig_line (split_lines text) (False, []))
      in filter (\<lambda>s. 37 \<notin> set s) servers @ filter (\<lambda>s. 37 \<in> set s) servers)"

text \<open>Tokens of a line: \<open>raw.split(/[\s,]+/)\<close>.\<close>

definition split_tokens :: "jsstr \<Rightarrow> jsstr list" where
  "split_tokens = split_runs (\<lambda>c. is_space c \<or> c = 44)"

definition nslookup_token :: "jsstr \<Rightarrow> jsstr list \<Rightarrow> jsstr list" where
  "nslookup_token token servers =
     (case parseIP token of
        None \<Rightarrow> servers
      | Some parsed \<Rightarrow> if ip_text parsed \<in> set servers then servers else servers @ [ip_text parsed])"

definition parseNslookup :: "jsstr \<Rightarrow> jsstr list" where
  "parseNslookup text =
     take 2 (fold (\<lambda>raw servers.
         if prefix (js ''***'') (dropWhile is_space raw) then servers
         else fold nslookup_token (split_tokens raw) servers) (split_lines text) [])"

subsection \<open>What the lists hold\<close>

lemma of_base_bound: "\<forall>c \<in> set s. digit_val c < b \<Longrightarrow> of_base b s < b ^ length s"
proof (induction s rule: rev_induct)
  case (snoc c s)
  then have "of_base b s + 1 \<le> b ^ length s" "digit_val c < b" by auto
  then have "(of_base b s + 1) * b \<le> b ^ length s * b" by (intro mult_le_mono1)
  with \<open>digit_val c < b\<close> show ?case by (simp add: algebra_simps)
qed (simp add: of_base_def)

lemma side_words_bound: "side_words ps = Some ws \<Longrightarrow> \<forall>w \<in> set ws. w < 65536"
proof (induction ps arbitrary: ws)
  case (Cons p ps)
  show ?case
  proof (cases "46 \<in> set p")
    case True
    then obtain a b c d where "parseIPv4 p = Some [a, b, c, d]" "ws = [a * 256 + b, c * 256 + d]"
      using Cons.prems by (auto split: option.splits list.splits if_splits)
    with parseIPv4_Some [of p "[a, b, c, d]"] show ?thesis by auto
  next
    case False
    then obtain us where "p \<noteq> []" "length p \<le> 4" "list_all is_hex p" "side_words ps = Some us" "ws = of_base 16 p # us"
      using Cons.prems by (auto split: if_splits)
    moreover have "of_base 16 p < 65536"
    proof -
      have "of_base 16 p < 16 ^ length p"
        using \<open>list_all is_hex p\<close> by (intro of_base_bound) (auto simp: list_all_iff is_hex_def)
      also have "\<dots> \<le> (16 :: nat) ^ 4" using \<open>length p \<le> 4\<close> by (intro power_increasing) simp_all
      finally show ?thesis by simp
    qed
    ultimately show ?thesis using Cons.IH by simp
  qed
qed simp

lemma side_bound: "side p = Some ws \<Longrightarrow> \<forall>w \<in> set ws. w < 65536"
  using side_words_bound by (auto simp: side_def split: if_splits)

lemma parse_words_ok: "parse_words t = Some ws \<Longrightarrow> length ws = 8 \<and> (\<forall>w \<in> set ws. w < 65536)"
  using side_bound by (auto simp: parse_words_def split: if_splits list.splits option.splits)

lemma parseIPv6_ok: "parseIPv6 t = Some (ws, zone) \<Longrightarrow> length ws = 8 \<and> (\<forall>w \<in> set ws. w < 65536)"
  using parse_words_ok by (auto simp: parseIPv6_def Let_def split: option.splits if_splits)

lemma parseIP_text: "parseIP t = Some ip \<Longrightarrow> parseIP (ip_text ip) = Some (ip\<lparr>ip_zone := None\<rparr>)"
  by (auto simp: parseIP_def [of t] parseIP_format parseIPv6_ok split: option.splits prod.splits)

definition address_list :: "jsstr list \<Rightarrow> bool" where
  "address_list servers \<longleftrightarrow> distinct servers \<and> (\<forall>s \<in> set servers. parseIP s \<noteq> None)"

lemma address_list_add: "address_list servers \<Longrightarrow> parseIP s \<noteq> None \<Longrightarrow> s \<notin> set servers \<Longrightarrow> address_list (servers @ [s])"
  by (simp add: address_list_def)

lemma take_address_ok: "address_list servers \<Longrightarrow> address_list (snd (take_address v servers))"
  using parseIP_text [of "trim v"]
  by (auto simp: take_address_def Let_def intro: address_list_add split: option.split)

lemma ipconfig_line_ok: "address_list (snd st) \<Longrightarrow> address_list (snd (ipconfig_line raw st))"
  using take_address_ok [of "snd st"]
  by (cases st) (auto simp: ipconfig_line_def Let_def split: option.split)

lemma ipconfig_lines_ok: "address_list (snd st) \<Longrightarrow> address_list (snd (fold ipconfig_line ls st))"
  by (induction ls arbitrary: st) (simp_all add: ipconfig_line_ok)

lemma nslookup_ok: "address_list servers \<Longrightarrow> address_list (fold nslookup_token ts servers)"
proof (induction ts arbitrary: servers)
  case (Cons t ts)
  have "address_list (nslookup_token t servers)"
    using Cons.prems parseIP_text [of t] by (auto simp: nslookup_token_def intro: address_list_add split: option.split)
  with Cons.IH show ?case by simp
qed simp

text \<open>whatever the Windows tools print, the name servers read from it are distinct and each is an address that
  \<open>parseIP\<close> accepts, so that making a server of it cannot fail.\<close>

theorem windows_servers_valid:
  "distinct (parseIpconfig text) \<and> (\<forall>s \<in> set (parseIpconfig text). makeServer s 53 \<noteq> None) \<and>
   distinct (parseNslookup text) \<and> (\<forall>s \<in> set (parseNslookup text). makeServer s 53 \<noteq> None)"
proof -
  have e: "address_list []" by (simp add: address_list_def)
  have "address_list (snd (fold ipconfig_line (split_lines text) (False, [])))"
    by (rule ipconfig_lines_ok) (simp add: e)
  moreover have "address_list (fold (\<lambda>raw servers.
         if prefix (js ''***'') (dropWhile is_space raw) then servers
         else fold nslookup_token (split_tokens raw) servers) ls servers)" if "address_list servers" for ls servers
    using that by (induction ls arbitrary: servers) (simp_all add: nslookup_ok)
  from this [OF e, of "split_lines text"] calculation show ?thesis
    by (auto simp: parseIpconfig_def parseNslookup_def Let_def address_list_def makeServer_def dest: in_set_takeD)
qed

theorem windows_servers_valid_witness:
  "parseNslookup (js ''::1'') = [js ''::1''] \<and> makeServer (js ''::1'') 53 \<noteq> None"
proof -
  have t: "split_lines (js ''::1'') = [js ''::1'']" "split_tokens (js ''::1'') = [js ''::1'']"
    "\<not> prefix (js ''***'') (dropWhile is_space (js ''::1''))"
    by (simp_all add: js_def split_tokens_def split_runs.simps is_space_def)
  have "map_option ip_text (parseIP (js ''::1'')) = Some (js ''::1'')" by code_simp
  then have "parseNslookup (js ''::1'') = [js ''::1'']"
    using t by (auto simp: parseNslookup_def nslookup_token_def)
  then show ?thesis using windows_servers_valid [of "js ''::1''"] by simp
qed

text \<open>the text that \<open>parseIP\<close> gives an address is canonical: it is accepted again, with the same family, bytes and
  words, without the zone, and is its own canonical text.\<close>

theorem ip_text_canonical:
  "parseIP t = Some ip \<Longrightarrow> parseIP (ip_text ip) = Some (ip\<lparr>ip_zone := None\<rparr>)"
  by (rule parseIP_text)

theorem ip_text_canonical_witness:
  "map_option ip_text (parseIP (js ''::A%e'')) = Some (js ''::a'') \<and> map_option ip_zone (parseIP (js ''::a'')) = Some None"
proof -
  have "map_option ip_text (parseIP (js ''::A%e'')) = Some (js ''::a'')" by code_simp
  then show ?thesis using ip_text_canonical [of "js ''::A%e''"] by auto
qed

lemma services_fold:
  "fold (\<lambda>raw m. case service_line raw of
         Some (port, name) \<Rightarrow> if m port = None then m(port \<mapsto> name) else m
       | None \<Rightarrow> m) ls m =
   (map_of (List.map_filter service_line ls) ++ m)"
proof (induction ls arbitrary: m)
  case (Cons l ls)
  show ?case
  proof (cases "service_line l")
    case (Some e)
    obtain port name where e: "e = (port, name)" by (cases e)
    show ?thesis
    proof (cases "m port = None")
      case True
      with Some e Cons show ?thesis by (auto simp: List.map_filter_def fun_eq_iff map_add_def split: option.split)
    next
      case False
      with Some e Cons show ?thesis by (auto simp: List.map_filter_def fun_eq_iff map_add_def split: option.split)
    qed
  qed (use Cons in \<open>simp add: List.map_filter_def\<close>)
qed (simp add: List.map_filter_def)

text \<open>\<open>parseServices\<close> is the lookup in the list of the lines that name a TCP service: of several lines for a port
  the first counts.\<close>

theorem services_lookup:
  "parseServices text port = map_of (List.map_filter service_line (split_lines text)) port"
  unfolding parseServices_def services_fold by (simp add: map_add_def split: option.split)

end
