(* ===== verification/Lanes.thy ===== *)
theory Lanes
  imports Prelude
begin

unbundle bit_operations_syntax

text \<open>
  64-bit lanes kept as pairs of 32-bit halves, as the hash functions of the runtime keep them
  (\<open>node-keccak.js\<close>, \<open>node-blake2.js\<close>): how the operations on the halves act on the lane, and how bytes become
  halves and lanes.
\<close>

type_synonym half = "32 word"

definition lane :: "half \<Rightarrow> half \<Rightarrow> 64 word" where
  "lane h l = push_bit 32 (ucast h) OR ucast l"

lemma bit_lane: "bit (lane h l) n \<longleftrightarrow> (if n < 32 then bit l n else n < 64 \<and> bit h (n - 32))"
  by (auto simp: lane_def bit_or_iff bit_push_bit_iff bit_ucast_iff dest: bit_imp_le_length)

lemma lane_xor: "lane (a XOR c) (b XOR d) = lane a b XOR lane c d"
  by (rule bit_word_eqI) (simp add: bit_lane bit_xor_iff)

lemma lane_and: "lane (a AND c) (b AND d) = lane a b AND lane c d"
  by (rule bit_word_eqI) (simp add: bit_lane bit_and_iff)

lemma lane_not: "lane (NOT a) (NOT b) = NOT (lane a b)"
  by (rule bit_word_eqI) (auto simp: bit_lane bit_not_iff)

lemma bit_rotl64:
  assumes "n < 64" "m < 64"
  shows "bit (word_rotl n (w :: 64 word)) m = bit w (if n \<le> m then m - n else m + 64 - n)"
proof (cases "n \<le> m")
  case True
  then have "m + 64 - n = (m - n) + 64" by simp
  then have "(m + 64 - n) mod 64 = (m - n) mod 64" by (simp only: mod_add_self2)
  with True assms show ?thesis by (simp add: bit_word_rotl_iff)
next
  case False
  with assms show ?thesis by (simp add: bit_word_rotl_iff)
qed

lemma lane_swap: "lane l h = word_rotl 32 (lane h l)"
  by (rule bit_word_eqI) (auto simp: bit_lane bit_rotl64)

lemma lane_rotl:
  assumes "0 < n" "n < 32"
  shows "lane (push_bit n h OR drop_bit (32 - n) l) (push_bit n l OR drop_bit (32 - n) h) = word_rotl n (lane h l)"
proof (rule bit_word_eqI)
  fix m assume "m < LENGTH(64)"
  then have m: "m < 64" by simp
  have hb: "\<not> bit x k" if "32 \<le> k" for x :: half and k using that bit_imp_le_length [of x k] by auto
  show "bit (lane (push_bit n h OR drop_bit (32 - n) l) (push_bit n l OR drop_bit (32 - n) h)) m = bit (word_rotl n (lane h l)) m"
  proof (cases "m < 32")
    case True
    have "\<not> bit h (32 - n + m)" if "n \<le> m" using that assms True by (intro hb) simp
    moreover have "m + 64 - n - 32 = 32 - n + m" "\<not> m + 64 - n < 32" using assms True by simp_all
    ultimately show ?thesis
      using assms m True by (auto simp: bit_rotl64 bit_lane bit_or_iff bit_push_bit_iff bit_drop_bit_eq)
  next
    case False
    have "\<not> bit l (m - n)" if "n \<le> m - 32" using that assms False by (intro hb) simp
    moreover have "m - 32 - n = m - n - 32" "32 - n + (m - 32) = m - n" using assms False by simp_all
    ultimately show ?thesis
      using assms m False by (auto simp: bit_rotl64 bit_lane bit_or_iff bit_push_bit_iff bit_drop_bit_eq)
  qed
qed

lemma rotl_rotl64: "n < 32 \<Longrightarrow> word_rotl n (word_rotl 32 (w :: 64 word)) = word_rotl (n + 32) w"
proof (rule bit_word_eqI)
  fix m assume n: "n < 32" and "m < LENGTH(64)"
  then have m: "m < 64" by simp
  have nm: "(if n \<le> m then m - n else m + 64 - n) < 64" using m by auto
  have i: "bit (word_rotl n (word_rotl 32 w)) m = bit w (let k = (if n \<le> m then m - n else m + 64 - n) in if 32 \<le> k then k - 32 else k + 64 - 32)"
    using bit_rotl64 [of n m "word_rotl 32 w"] bit_rotl64 [OF _ nm, of 32 w] n m by (simp add: Let_def)
  have "(let k = (if n \<le> m then m - n else m + 64 - n) in if 32 \<le> k then k - 32 else k + 64 - 32) =
      (if n + 32 \<le> m then m - (n + 32) else m + 64 - (n + 32))"
    using n m by (auto simp: Let_def)
  with i bit_rotl64 [of "n + 32" m w] n m show "bit (word_rotl n (word_rotl 32 w)) m = bit (word_rotl (n + 32) w) m"
    by simp
qed

lemma rotl0: "word_rotl 0 (w :: 64 word) = w"
  by (rule bit_word_eqI) (simp add: bit_rotl64)

lemma lane_rotl1: "lane (push_bit 1 h OR drop_bit 31 l) (push_bit 1 l OR drop_bit 31 h) = word_rotl 1 (lane h l)"
  using lane_rotl [of 1 h l] by simp

subsection \<open>Bytes\<close>

text \<open>An element of a typed array; one past the end is \<open>undefined\<close>, which the bit operators read as 0.\<close>

definition at0 :: "'a::zero list \<Rightarrow> nat \<Rightarrow> 'a" where
  "at0 xs i = (if i < length xs then xs ! i else 0)"

definition le32 :: "byte list \<Rightarrow> nat \<Rightarrow> half" where
  "le32 bs p = ucast (at0 bs p) OR push_bit 8 (ucast (at0 bs (p + 1))) OR push_bit 16 (ucast (at0 bs (p + 2))) OR
     push_bit 24 (ucast (at0 bs (p + 3)))"

definition word_of_bytes :: "byte list \<Rightarrow> 64 word" where
  "word_of_bytes bs = foldr (\<lambda>b w. push_bit 8 w OR ucast b) bs 0"

lemma bit_word_of_bytes_Cons:
  "bit (word_of_bytes (b # bs)) n \<longleftrightarrow> (if n < 8 then bit b n else n < 64 \<and> bit (word_of_bytes bs) (n - 8))"
proof -
  have "\<not> bit b n" if "8 \<le> n" using that bit_imp_le_length [of b n] by auto
  moreover have "word_of_bytes (b # bs) = push_bit 8 (word_of_bytes bs) OR ucast b" by (simp add: word_of_bytes_def)
  ultimately show ?thesis by (auto simp: bit_or_iff bit_push_bit_iff bit_ucast_iff dest: bit_imp_le_length)
qed

lemma bit_word_of_bytes:
  "length bs \<le> 8 \<Longrightarrow> bit (word_of_bytes bs) n \<longleftrightarrow> n < 8 * length bs \<and> bit (bs ! (n div 8)) (n mod 8)"
proof (induction bs arbitrary: n)
  case Nil
  then show ?case by (simp add: word_of_bytes_def)
next
  case (Cons b bs)
  show ?case
  proof (cases "n < 8")
    case False
    then have d: "n div 8 = Suc ((n - 8) div 8)" "n mod 8 = (n - 8) mod 8" by (simp_all add: le_div_geq le_mod_geq)
    have "(n < 64 \<and> n - 8 < 8 * length bs) = (n < 8 * length (b # bs))" using False Cons.prems by auto
    with Cons.IH [of "n - 8"] Cons.prems False show ?thesis
      by (simp only: bit_word_of_bytes_Cons d nth_Cons_Suc if_False) auto
  qed (simp add: bit_word_of_bytes_Cons)
qed

lemma bit_le32:
  "bit (le32 bs p) n \<longleftrightarrow> n < 32 \<and> bit (at0 bs (p + n div 8)) (n mod 8)"
proof -
  have out: "\<not> bit (at0 bs k) m" if "8 \<le> m" for k m using that bit_imp_le_length [of "at0 bs k" m] by auto
  consider "n < 8" | "8 \<le> n" "n < 16" | "16 \<le> n" "n < 24" | "24 \<le> n" "n < 32" | "32 \<le> n" by linarith
  then show ?thesis
  proof cases
    case 2
    then have "n div 8 = 1" "n mod 8 = n - 8" "n - 8 < 32" by (simp_all add: le_div_geq le_mod_geq)
    with 2 out show ?thesis by (simp add: le32_def bit_or_iff bit_push_bit_iff bit_ucast_iff)
  next
    case 3
    then have "n div 8 = 2" "n mod 8 = n - 16" "n - 16 < 32" by (simp_all add: le_div_geq le_mod_geq)
    with 3 out show ?thesis by (simp add: le32_def bit_or_iff bit_push_bit_iff bit_ucast_iff)
  next
    case 4
    then have "n div 8 = 3" "n mod 8 = n - 24" "n - 24 < 32" by (simp_all add: le_div_geq le_mod_geq)
    with 4 out show ?thesis by (simp add: le32_def bit_or_iff bit_push_bit_iff bit_ucast_iff)
  next
    case 5
    then show ?thesis by (auto dest: bit_imp_le_length)
  qed (simp add: le32_def bit_or_iff bit_push_bit_iff bit_ucast_iff out)
qed

lemma lane_le32:
  assumes "p + 8 \<le> length bs"
  shows "lane (le32 bs (p + 4)) (le32 bs p) = word_of_bytes (take 8 (drop p bs))"
proof (rule bit_word_eqI)
  fix n assume "n < LENGTH(64)"
  then have n: "n < 64" "n div 8 < 8" by simp_all
  have h: "at0 bs (p + 4 + (n - 32) div 8) = bs ! (p + n div 8) \<and> (n - 32) mod 8 = n mod 8" if "32 \<le> n"
  proof -
    have "n = n - 32 + 4 * 8" using that by simp
    then have "4 + (n - 32) div 8 = n div 8" and m: "(n - 32) mod 8 = n mod 8"
      using div_mult_self1 [of 8 "n - 32" 4] mod_mult_self1 [of "n - 32" 4 8] by simp_all
    then have "p + 4 + (n - 32) div 8 = p + n div 8" by (simp only: add.assoc)
    moreover have "p + n div 8 < length bs" using n assms by linarith
    ultimately show ?thesis using m by (simp only: at0_def if_True simp_thms)
  qed
  have l: "at0 bs (p + n div 8) = bs ! (p + n div 8)" using n assms by (simp add: at0_def)
  show "bit (lane (le32 bs (p + 4)) (le32 bs p)) n = bit (word_of_bytes (take 8 (drop p bs))) n"
    using n assms h l by (auto simp: bit_lane bit_le32 bit_word_of_bytes)
qed

end
