(* ===== verification/Keccak.thy ===== *)
theory Keccak
  imports Lanes
begin

unbundle bit_operations_syntax

text \<open>
  \<open>node-keccak.js\<close>, the permutation: Keccak-f[1600] on 25 lanes kept as pairs of 32-bit halves, step by step as
  the code has it, and its refinement of the standard's description on 64-bit lanes. The rotation amounts, the
  destinations and the round constants, which the code has as tables, are derived in the reference from the walk
  over the lanes and the shift register that define them.
\<close>

subsection \<open>Constants\<close>

definition RC :: "half list" where
  "RC =
     [0x00000000, 0x00000001, 0x00000000, 0x00008082, 0x80000000, 0x0000808a, 0x80000000, 0x80008000,
      0x00000000, 0x0000808b, 0x00000000, 0x80000001, 0x80000000, 0x80008081, 0x80000000, 0x00008009,
      0x00000000, 0x0000008a, 0x00000000, 0x00000088, 0x00000000, 0x80008009, 0x00000000, 0x8000000a,
      0x00000000, 0x8000808b, 0x80000000, 0x0000008b, 0x80000000, 0x00008089, 0x80000000, 0x00008003,
      0x80000000, 0x00008002, 0x80000000, 0x00000080, 0x00000000, 0x0000800a, 0x80000000, 0x8000000a,
      0x80000000, 0x80008081, 0x80000000, 0x00008080, 0x00000000, 0x80000001, 0x80000000, 0x80008008]"

definition ROT :: "nat list" where
  "ROT = [0, 1, 62, 28, 27, 36, 44, 6, 55, 20, 3, 10, 43, 25, 39, 41, 45, 15, 21, 8, 18, 2, 61, 56, 14]"

text \<open>The entry at \<open>x + 5 * y\<close> is \<open>y + 5 * ((2 * x + 3 * y) mod 5)\<close>.\<close>

definition DEST :: "nat list" where
  "DEST = map (\<lambda>i. i div 5 + 5 * ((2 * (i mod 5) + 3 * (i div 5)) mod 5)) [0..<25]"

subsection \<open>The permutation\<close>

text \<open>The state: the high and the low halves of the 25 lanes.\<close>

record kstate =
  hi :: "half list"
  lo :: "half list"

definition column_parity :: "half list \<Rightarrow> half list" where
  "column_parity s = map (\<lambda>x. s ! x XOR s ! (x + 5) XOR s ! (x + 10) XOR s ! (x + 15) XOR s ! (x + 20)) [0..<5]"

definition theta :: "kstate \<Rightarrow> kstate" where
  "theta s =
     (let ch = column_parity (hi s); cl = column_parity (lo s);
          dh = map (\<lambda>x. let nh = ch ! ((x + 1) mod 5); nl = cl ! ((x + 1) mod 5)
                         in ch ! ((x + 4) mod 5) XOR (push_bit 1 nh OR drop_bit 31 nl)) [0..<5];
          dl = map (\<lambda>x. let nh = ch ! ((x + 1) mod 5); nl = cl ! ((x + 1) mod 5)
                         in cl ! ((x + 4) mod 5) XOR (push_bit 1 nl OR drop_bit 31 nh)) [0..<5]
      in \<lparr>hi = map (\<lambda>i. hi s ! i XOR dh ! (i mod 5)) [0..<25], lo = map (\<lambda>i. lo s ! i XOR dl ! (i mod 5)) [0..<25]\<rparr>)"

text \<open>One lane rotated left by \<open>n\<close>, as a pair of halves.\<close>

definition rotate_halves :: "nat \<Rightarrow> half \<times> half \<Rightarrow> half \<times> half" where
  "rotate_halves n hl =
     (let (h, l) = (if 32 \<le> n then (snd hl, fst hl) else hl); n = (if 32 \<le> n then n - 32 else n)
      in if n = 0 then (h, l)
         else (push_bit n h OR drop_bit (32 - n) l, push_bit n l OR drop_bit (32 - n) h))"

text \<open>The lanes land in scratch arrays, every entry of which is written.\<close>

definition rho_pi :: "kstate \<Rightarrow> kstate" where
  "rho_pi s =
     fold (\<lambda>i b. let (h, l) = rotate_halves (ROT ! i) (hi s ! i, lo s ! i)
            in \<lparr>hi = (hi b)[DEST ! i := h], lo = (lo b)[DEST ! i := l]\<rparr>)
       [0..<25] \<lparr>hi = replicate 25 0, lo = replicate 25 0\<rparr>"

definition chi :: "kstate \<Rightarrow> kstate" where
  "chi b =
     (let mix = (\<lambda>s :: half list. map (\<lambda>a. let y = 5 * (a div 5); x = a mod 5
            in s ! a XOR (NOT (s ! (y + (x + 1) mod 5)) AND s ! (y + (x + 2) mod 5))) [0..<25])
      in \<lparr>hi = mix (hi b), lo = mix (lo b)\<rparr>)"

definition iota :: "nat \<Rightarrow> kstate \<Rightarrow> kstate" where
  "iota round s =
     \<lparr>hi = (hi s)[0 := hi s ! 0 XOR RC ! (round * 2)], lo = (lo s)[0 := lo s ! 0 XOR RC ! (round * 2 + 1)]\<rparr>"

text \<open>The last \<open>rounds\<close> of the 24 rounds; callers ask for 12 or 24.\<close>

definition permuteJs :: "nat \<Rightarrow> kstate \<Rightarrow> kstate" where
  "permuteJs rounds s = fold (\<lambda>round s. iota round (chi (rho_pi (theta s)))) [24 - rounds..<24] s"

subsection \<open>The reference: FIPS 202 on 64-bit lanes\<close>

type_synonym lanes = "64 word list"

definition ref_theta :: "lanes \<Rightarrow> lanes" where
  "ref_theta a =
     (let c = (\<lambda>x. a ! x XOR a ! (x + 5) XOR a ! (x + 10) XOR a ! (x + 15) XOR a ! (x + 20))
      in map (\<lambda>i. a ! i XOR (c ((i mod 5 + 4) mod 5) XOR word_rotl 1 (c ((i mod 5 + 1) mod 5)))) [0..<25])"

text \<open>The offsets of rho: lane (1, 0) turns by 1, and step by step the walk to (y, 2x + 3y) adds one more
  triangle number.\<close>

fun rho_walk :: "nat \<Rightarrow> nat \<Rightarrow> nat \<Rightarrow> nat \<Rightarrow> (nat \<times> nat) list" where
  "rho_walk 0 t x y = []"
| "rho_walk (Suc k) t x y = (x + 5 * y, (t + 1) * (t + 2) div 2 mod 64) # rho_walk k (t + 1) y ((2 * x + 3 * y) mod 5)"

definition rho_offset :: "nat \<Rightarrow> nat" where
  "rho_offset i = (case map_of (rho_walk 24 0 1 0) i of Some r \<Rightarrow> r | None \<Rightarrow> 0)"

text \<open>pi: the lane (x, y) of the result is the lane (x + 3y, x) of the argument.\<close>

definition ref_rho_pi :: "lanes \<Rightarrow> lanes" where
  "ref_rho_pi a =
     map (\<lambda>i. let x = i mod 5; y = i div 5; j = (x + 3 * y) mod 5 + 5 * x in word_rotl (rho_offset j) (a ! j)) [0..<25]"

definition ref_chi :: "lanes \<Rightarrow> lanes" where
  "ref_chi a =
     map (\<lambda>i. let x = i mod 5; y = i div 5
            in a ! i XOR (NOT (a ! ((x + 1) mod 5 + 5 * y)) AND a ! ((x + 2) mod 5 + 5 * y))) [0..<25]"

text \<open>The round constants come from a shift register that turns seven times a round: its output bit \<open>j + 7r\<close> is
  bit \<open>2\<^sup>j - 1\<close> of constant \<open>r\<close>.\<close>

definition lfsr_step :: "bool list \<Rightarrow> bool list" where
  "lfsr_step r = (let r8 = r ! 7 in [r8, r ! 0, r ! 1, r ! 2, r ! 3 \<noteq> r8, r ! 4 \<noteq> r8, r ! 5 \<noteq> r8, r ! 6])"

fun lfsr_bits :: "nat \<Rightarrow> bool list \<Rightarrow> bool list" where
  "lfsr_bits 0 r = []"
| "lfsr_bits (Suc n) r = r ! 0 # lfsr_bits n (lfsr_step r)"

definition round_bits :: "nat \<Rightarrow> bool list" where
  "round_bits r = take 7 (drop (7 * r) (lfsr_bits 168 [True, False, False, False, False, False, False, False]))"

definition word_of_bits :: "bool list \<Rightarrow> 64 word" where
  "word_of_bits bs = fold (\<lambda>(j, b) w. if b then set_bit (2 ^ j - 1) w else w) (zip [0..<7] bs) 0"

definition round_constant :: "nat \<Rightarrow> 64 word" where
  "round_constant r = word_of_bits (round_bits r)"

definition ref_round :: "nat \<Rightarrow> lanes \<Rightarrow> lanes" where
  "ref_round r a = (let b = ref_chi (ref_rho_pi (ref_theta a)) in b[0 := b ! 0 XOR round_constant r])"

definition keccak_p :: "nat \<Rightarrow> lanes \<Rightarrow> lanes" where
  "keccak_p rounds a = fold ref_round [24 - rounds..<24] a"

definition lanes_of :: "kstate \<Rightarrow> lanes" where
  "lanes_of s = map2 lane (hi s) (lo s)"

subsection \<open>The halves compute the lanes\<close>

lemma rotate_halves_lane:
  assumes "n < 64"
  shows "(case rotate_halves n (h, l) of (h', l') \<Rightarrow> lane h' l') = word_rotl n (lane h l)"
proof (cases "32 \<le> n")
  case True
  show ?thesis
  proof (cases "n = 32")
    case True
    then show ?thesis by (simp add: rotate_halves_def lane_swap [of l h])
  next
    case False
    then have "0 < n - 32" "n - 32 < 32" using True assms by simp_all
    from lane_rotl [OF this, of l h] rotl_rotl64 [OF this(2), of "lane h l"] True False show ?thesis
      by (simp add: rotate_halves_def lane_swap [of l h] Let_def)
  qed
next
  case False
  with lane_rotl [of n h l] show ?thesis
    by (cases "n = 0") (simp_all add: rotate_halves_def rotl0)
qed

definition kstate_ok :: "kstate \<Rightarrow> bool" where
  "kstate_ok s \<longleftrightarrow> length (hi s) = 25 \<and> length (lo s) = 25"

lemma length_lanes_of [simp]: "kstate_ok s \<Longrightarrow> length (lanes_of s) = 25"
  by (simp add: lanes_of_def kstate_ok_def)

lemma lanes_nth: "kstate_ok s \<Longrightarrow> i < 25 \<Longrightarrow> lanes_of s ! i = lane (hi s ! i) (lo s ! i)"
  by (simp add: lanes_of_def kstate_ok_def)

lemma lanes_of_eqI:
  "kstate_ok s \<Longrightarrow> length a = 25 \<Longrightarrow> (\<And>i. i < 25 \<Longrightarrow> lane (hi s ! i) (lo s ! i) = a ! i) \<Longrightarrow> lanes_of s = a"
  by (rule nth_equalityI) (simp_all add: lanes_nth)

lemma parity_lanes:
  assumes "kstate_ok s" "x < 5"
  shows "lane (column_parity (hi s) ! x) (column_parity (lo s) ! x) =
    lanes_of s ! x XOR lanes_of s ! (x + 5) XOR lanes_of s ! (x + 10) XOR lanes_of s ! (x + 15) XOR lanes_of s ! (x + 20)"
  using assms by (simp add: column_parity_def lanes_nth lane_xor)

lemma theta_lanes:
  assumes "kstate_ok s"
  shows "kstate_ok (theta s) \<and> lanes_of (theta s) = ref_theta (lanes_of s)"
proof
  show ok: "kstate_ok (theta s)" by (simp add: theta_def kstate_ok_def Let_def)
  show "lanes_of (theta s) = ref_theta (lanes_of s)"
  proof (rule lanes_of_eqI [OF ok])
    fix i :: nat assume i: "i < 25"
    have m: "i mod 5 < 5" "(i mod 5 + 1) mod 5 < 5" "(i mod 5 + 4) mod 5 < 5" by simp_all
    define ch where "ch = column_parity (hi s)"
    define cl where "cl = column_parity (lo s)"
    have t: "hi (theta s) ! i = hi s ! i XOR (ch ! ((i mod 5 + 4) mod 5) XOR
          (push_bit 1 (ch ! ((i mod 5 + 1) mod 5)) OR drop_bit 31 (cl ! ((i mod 5 + 1) mod 5))))"
      "lo (theta s) ! i = lo s ! i XOR (cl ! ((i mod 5 + 4) mod 5) XOR
          (push_bit 1 (cl ! ((i mod 5 + 1) mod 5)) OR drop_bit 31 (ch ! ((i mod 5 + 1) mod 5))))"
      using i by (simp_all add: theta_def Let_def ch_def cl_def)
    have "lane (hi (theta s) ! i) (lo (theta s) ! i) = lanes_of s ! i XOR
        (lane (ch ! ((i mod 5 + 4) mod 5)) (cl ! ((i mod 5 + 4) mod 5)) XOR
         word_rotl 1 (lane (ch ! ((i mod 5 + 1) mod 5)) (cl ! ((i mod 5 + 1) mod 5))))"
      unfolding t lane_xor lane_rotl1 using lanes_nth [OF assms i] by simp
    with i parity_lanes [OF assms m(2)] parity_lanes [OF assms m(3)]
    show "lane (hi (theta s) ! i) (lo (theta s) ! i) = ref_theta (lanes_of s) ! i"
      by (simp add: ref_theta_def Let_def ch_def cl_def)
  qed (simp add: ref_theta_def Let_def)
qed

lemma fold_updates:
  "distinct (map d is) \<Longrightarrow>
   length (fold (\<lambda>i xs. xs[d i := f i]) is xs) = length xs \<and>
   (\<forall>i \<in> set is. d i < length xs \<longrightarrow> fold (\<lambda>i xs. xs[d i := f i]) is xs ! d i = f i) \<and>
   (\<forall>k. k \<notin> d ` set is \<longrightarrow> fold (\<lambda>i xs. xs[d i := f i]) is xs ! k = xs ! k)"
proof (induction "is" arbitrary: xs)
  case (Cons j js)
  from Cons.IH [of "xs[d j := f j]"] Cons.prems show ?case by auto
qed simp

lemma rho_pi_fields:
  "hi (rho_pi s) = fold (\<lambda>i xs. xs[DEST ! i := fst (rotate_halves (ROT ! i) (hi s ! i, lo s ! i))]) [0..<25] (replicate 25 0)"
  "lo (rho_pi s) = fold (\<lambda>i xs. xs[DEST ! i := snd (rotate_halves (ROT ! i) (hi s ! i, lo s ! i))]) [0..<25] (replicate 25 0)"
proof -
  have "hi (fold (\<lambda>i b. let (h, l) = rotate_halves (ROT ! i) (hi s ! i, lo s ! i)
            in \<lparr>hi = (hi b)[DEST ! i := h], lo = (lo b)[DEST ! i := l]\<rparr>) is b) =
        fold (\<lambda>i xs. xs[DEST ! i := fst (rotate_halves (ROT ! i) (hi s ! i, lo s ! i))]) is (hi b) \<and>
      lo (fold (\<lambda>i b. let (h, l) = rotate_halves (ROT ! i) (hi s ! i, lo s ! i)
            in \<lparr>hi = (hi b)[DEST ! i := h], lo = (lo b)[DEST ! i := l]\<rparr>) is b) =
        fold (\<lambda>i xs. xs[DEST ! i := snd (rotate_halves (ROT ! i) (hi s ! i, lo s ! i))]) is (lo b)" for "is" and b :: kstate
    by (induction "is" arbitrary: b) (simp_all add: case_prod_beta)
  then show "hi (rho_pi s) = fold (\<lambda>i xs. xs[DEST ! i := fst (rotate_halves (ROT ! i) (hi s ! i, lo s ! i))]) [0..<25] (replicate 25 0)"
    "lo (rho_pi s) = fold (\<lambda>i xs. xs[DEST ! i := snd (rotate_halves (ROT ! i) (hi s ! i, lo s ! i))]) [0..<25] (replicate 25 0)"
    by (simp_all add: rho_pi_def)
qed

text \<open>The tables, checked entry by entry against the walk and the shift register.\<close>

definition source :: "nat \<Rightarrow> nat" where
  "source i = (i mod 5 + 3 * (i div 5)) mod 5 + 5 * (i mod 5)"

lemma rho_walk_unfold:
  "0 < k \<Longrightarrow> rho_walk k t x y = (x + 5 * y, (t + 1) * (t + 2) div 2 mod 64) # rho_walk (k - 1) (t + 1) y ((2 * x + 3 * y) mod 5)"
  by (cases k) simp_all

lemma rho_offsets: "map rho_offset [0..<25] = ROT"
proof -
  have w: "rho_walk 24 0 (Suc 0) 0 =
      [(1, 1), (10, 3), (7, 6), (11, 10), (17, 15), (18, 21), (3, 28), (5, 36), (16, 45), (8, 55), (21, 2), (24, 14),
       (4, 27), (15, 41), (23, 56), (19, 8), (13, 25), (12, 43), (2, 62), (20, 18), (14, 39), (22, 61), (9, 20), (6, 44)]"
    by (simp add: rho_walk_unfold)
  show ?thesis by (simp add: upt_rec rho_offset_def w ROT_def)
qed

lemma tables: "list_all (\<lambda>k. source k < 25 \<and> DEST ! source k = k \<and> ROT ! source k < 64) [0..<25]"
  by code_simp

lemma dest_distinct: "distinct (map ((!) DEST) [0..<25])"
  by code_simp

lemma round_bits_table:
  "map round_bits [0..<24] = 
     [[True, False, False, False, False, False, False],
      [False, True, False, True, True, False, False],
      [False, True, True, True, True, False, True],
      [False, False, False, False, True, True, True],
      [True, True, True, True, True, False, False],
      [True, False, False, False, False, True, False],
      [True, False, False, True, True, True, True],
      [True, False, True, False, True, False, True],
      [False, True, True, True, False, False, False],
      [False, False, True, True, False, False, False],
      [True, False, True, False, True, True, False],
      [False, True, True, False, False, True, False],
      [True, True, True, True, True, True, False],
      [True, True, True, True, False, False, True],
      [True, False, True, True, True, False, True],
      [True, True, False, False, True, False, True],
      [False, True, False, False, True, False, True],
      [False, False, False, True, False, False, True],
      [False, True, True, False, True, False, False],
      [False, True, True, False, False, True, True],
      [True, False, False, True, True, True, True],
      [False, False, False, True, True, False, True],
      [True, False, False, False, False, True, False],
      [False, False, True, False, True, True, True]]"
  by code_simp

lemma word_of_bits7:
  "word_of_bits [b0, b1, b2, b3, b4, b5, b6] =
     (if b0 then 1 else 0) OR (if b1 then 2 else 0) OR (if b2 then 8 else 0) OR (if b3 then 0x80 else 0) OR
     (if b4 then 0x8000 else 0) OR (if b5 then 0x80000000 else 0) OR (if b6 then 0x8000000000000000 else 0)"
  by (simp add: word_of_bits_def upt_rec set_bit_eq_or or.assoc)

lemma constant_words:
  "map (\<lambda>r. lane (RC ! (r * 2)) (RC ! (r * 2 + 1))) [0..<24] = map word_of_bits (map round_bits [0..<24])"
  unfolding round_bits_table by (simp add: upt_rec RC_def lane_def word_of_bits7)

lemma constants: "r < 24 \<Longrightarrow> lane (RC ! (r * 2)) (RC ! (r * 2 + 1)) = round_constant r"
  using arg_cong [OF constant_words, of "\<lambda>xs. xs ! r"] by (simp add: round_constant_def)

lemma table_entry:
  assumes "k < 25"
  shows "source k < 25" "DEST ! source k = k" "ROT ! source k = rho_offset (source k)" "rho_offset (source k) < 64"
proof -
  show "source k < 25" "DEST ! source k = k" using tables assms by (simp_all add: list_all_iff)
  have "map rho_offset [0..<25] ! source k = rho_offset (source k)" using \<open>source k < 25\<close> by simp
  then show r: "ROT ! source k = rho_offset (source k)" unfolding rho_offsets .
  show "rho_offset (source k) < 64" using tables assms by (simp add: list_all_iff flip: r)
qed

lemma rho_pi_lanes:
  assumes "kstate_ok s"
  shows "kstate_ok (rho_pi s) \<and> lanes_of (rho_pi s) = ref_rho_pi (lanes_of s)"
proof
  show ok: "kstate_ok (rho_pi s)"
    using fold_updates [OF dest_distinct, of "\<lambda>i. fst (rotate_halves (ROT ! i) (hi s ! i, lo s ! i))" "replicate 25 0"]
      fold_updates [OF dest_distinct, of "\<lambda>i. snd (rotate_halves (ROT ! i) (hi s ! i, lo s ! i))" "replicate 25 0"]
    by (simp add: kstate_ok_def rho_pi_fields)
  show "lanes_of (rho_pi s) = ref_rho_pi (lanes_of s)"
  proof (rule lanes_of_eqI [OF ok])
    fix k :: nat assume k: "k < 25"
    note t = table_entry [OF k]
    let ?r = "rotate_halves (ROT ! source k) (hi s ! source k, lo s ! source k)"
    have "hi (rho_pi s) ! k = fst ?r" "lo (rho_pi s) ! k = snd ?r"
      unfolding rho_pi_fields
      using fold_updates [OF dest_distinct, of "\<lambda>i. fst (rotate_halves (ROT ! i) (hi s ! i, lo s ! i))" "replicate 25 0"]
        fold_updates [OF dest_distinct, of "\<lambda>i. snd (rotate_halves (ROT ! i) (hi s ! i, lo s ! i))" "replicate 25 0"]
        t(1,2) k by (metis (no_types, lifting) atLeastLessThan_iff length_replicate set_upt zero_le)+
    then have "lane (hi (rho_pi s) ! k) (lo (rho_pi s) ! k) = word_rotl (rho_offset (source k)) (lanes_of s ! source k)"
      using rotate_halves_lane [OF t(4), of "hi s ! source k" "lo s ! source k"] t assms
      by (simp add: case_prod_beta lanes_nth)
    with k show "lane (hi (rho_pi s) ! k) (lo (rho_pi s) ! k) = ref_rho_pi (lanes_of s) ! k"
      by (simp add: ref_rho_pi_def Let_def source_def)
  qed (simp add: ref_rho_pi_def)
qed

lemma chi_lanes:
  assumes "kstate_ok s"
  shows "kstate_ok (chi s) \<and> lanes_of (chi s) = ref_chi (lanes_of s)"
proof
  show ok: "kstate_ok (chi s)" by (simp add: chi_def kstate_ok_def Let_def)
  show "lanes_of (chi s) = ref_chi (lanes_of s)"
  proof (rule lanes_of_eqI [OF ok])
    fix i :: nat assume i: "i < 25"
    have j: "5 * (i div 5) + (i mod 5 + k) mod 5 < 25" for k
    proof -
      have "i div 5 \<le> 4" using i by simp
      moreover have "(i mod 5 + k) mod 5 < 5" by simp
      ultimately show ?thesis by linarith
    qed
    show "lane (hi (chi s) ! i) (lo (chi s) ! i) = ref_chi (lanes_of s) ! i"
      using i j [of 1] j [of 2] assms
      by (simp add: chi_def ref_chi_def Let_def lanes_nth lane_xor lane_and lane_not add.commute)
  qed (simp add: ref_chi_def)
qed

lemma iota_lanes:
  assumes "kstate_ok s" "r < 24"
  shows "kstate_ok (iota r s) \<and> lanes_of (iota r s) = (lanes_of s)[0 := lanes_of s ! 0 XOR round_constant r]"
proof
  show ok: "kstate_ok (iota r s)" using assms by (simp add: iota_def kstate_ok_def)
  have c: "lane (RC ! (r * 2)) (RC ! (r * 2 + 1)) = round_constant r" using constants assms(2) by simp
  show "lanes_of (iota r s) = (lanes_of s)[0 := lanes_of s ! 0 XOR round_constant r]"
  proof (rule lanes_of_eqI [OF ok])
    fix i :: nat assume "i < 25"
    with assms(1) c show "lane (hi (iota r s) ! i) (lo (iota r s) ! i) = (lanes_of s)[0 := lanes_of s ! 0 XOR round_constant r] ! i"
      by (cases "i = 0") (simp_all add: iota_def kstate_ok_def lanes_nth lane_xor flip: c)
  qed (use assms in simp)
qed

subsection \<open>Refinement\<close>

lemma permuteJs_lanes:
  assumes "kstate_ok s"
  shows "kstate_ok (permuteJs rounds s) \<and> lanes_of (permuteJs rounds s) = keccak_p rounds (lanes_of s)"
proof -
  have "kstate_ok (fold (\<lambda>round s. iota round (chi (rho_pi (theta s)))) rs s) \<and>
      lanes_of (fold (\<lambda>round s. iota round (chi (rho_pi (theta s)))) rs s) = fold ref_round rs (lanes_of s)"
    if "\<forall>r \<in> set rs. r < 24" "kstate_ok s" for rs s
    using that
  proof (induction rs arbitrary: s)
    case (Cons r rs)
    let ?t = "iota r (chi (rho_pi (theta s)))"
    note t = theta_lanes [OF Cons.prems(2)]
    note p = rho_pi_lanes [OF conjunct1 [OF t]]
    note c = chi_lanes [OF conjunct1 [OF p]]
    have i: "kstate_ok ?t \<and> lanes_of ?t = ref_round r (lanes_of s)"
      using iota_lanes [OF conjunct1 [OF c], of r] t p c Cons.prems(1) by (simp add: ref_round_def Let_def)
    with Cons.IH [of ?t] Cons.prems(1) show ?case by simp
  qed simp
  from this [of "[24 - rounds..<24]"] assms show ?thesis by (simp add: permuteJs_def keccak_p_def)
qed

text \<open>C19: the permutation on pairs of 32-bit words computes the permutation of FIPS 202 on 64-bit lanes, for every
  number of rounds: its rotation amounts, destinations and round constants are those of the standard.\<close>

theorem permuteJs_refines:
  assumes "kstate_ok s"
  shows "kstate_ok (permuteJs rounds s) \<and> lanes_of (permuteJs rounds s) = keccak_p rounds (lanes_of s)"
  by (rule permuteJs_lanes [OF assms])

theorem permuteJs_refines_witness:
  "lanes_of (permuteJs 12 \<lparr>hi = replicate 25 1, lo = replicate 25 2\<rparr>) =
   keccak_p 12 (lanes_of \<lparr>hi = replicate 25 1, lo = replicate 25 2\<rparr>)"
  using permuteJs_refines [of "\<lparr>hi = replicate 25 1, lo = replicate 25 2\<rparr>" 12] by (simp add: kstate_ok_def)

end
