(* ===== verification/KeccakSponge.thy ===== *)
theory KeccakSponge
  imports Keccak
begin

unbundle bit_operations_syntax

text \<open>
  \<open>node-keccak.js\<close>, the sponge and the functions on it: cSHAKE, KMAC, TurboSHAKE and KangarooTwelve. The permutation is
  an argument, as the code takes the native one where the host has it; what the sponge needs of it is the locale
  \<open>keccak_permutation\<close>, interpreted on \<open>permuteJs\<close>. Second, the encodings of SP 800-185, which carry their own end.
\<close>

subsection \<open>The sponge\<close>

datatype strength = S128 | S256

fun RATE :: "strength \<Rightarrow> nat" where
  "RATE S128 = 168"
| "RATE S256 = 136"


definition pad_data :: "nat \<Rightarrow> byte \<Rightarrow> byte list \<Rightarrow> byte list" where
  "pad_data rate dsb bs =
     (let n = (length bs div rate + 1) * rate;
          padded = bs @ replicate (n - length bs) 0;
          padded = padded[length bs := padded ! length bs XOR dsb]
      in padded[n - 1 := padded ! (n - 1) XOR 0x80])"

definition absorb_lane :: "byte list \<Rightarrow> nat \<Rightarrow> nat \<Rightarrow> kstate \<Rightarrow> kstate" where
  "absorb_lane padded offset i s =
     (let p = offset + 8 * i
      in s\<lparr>lo := (lo s)[i := at0 (lo s) i XOR le32 padded p], hi := (hi s)[i := at0 (hi s) i XOR le32 padded (p + 4)]\<rparr>)"

definition absorb :: "(nat \<Rightarrow> kstate \<Rightarrow> kstate) \<Rightarrow> nat \<Rightarrow> nat \<Rightarrow> byte list \<Rightarrow> kstate" where
  "absorb permute rate rounds padded =
     fold (\<lambda>k s. permute rounds (fold (absorb_lane padded (k * rate)) [0..<(rate + 7) div 8] s))
       [0..<length padded div rate] \<lparr>hi = replicate 25 0, lo = replicate 25 0\<rparr>"

definition squeeze_byte :: "kstate \<Rightarrow> nat \<Rightarrow> byte" where
  "squeeze_byte s i =
     (let word = drop_bit (i mod 4 * 8) (if odd (i div 4) then at0 (hi s) (i div 8) else at0 (lo s) (i div 8)) in ucast word)"

text \<open>\<open>n\<close> bytes are still to come. With a rate of 0 the loop would not end; the rates are those of \<open>RATE\<close>.\<close>

function squeeze :: "(nat \<Rightarrow> kstate \<Rightarrow> kstate) \<Rightarrow> nat \<Rightarrow> nat \<Rightarrow> nat \<Rightarrow> kstate \<Rightarrow> byte list" where
  "squeeze permute rate rounds n s =
     (if n = 0 \<or> rate = 0 then []
      else let m = min rate n
           in map (squeeze_byte s) [0..<m] @ squeeze permute rate rounds (n - m) (if 0 < n - m then permute rounds s else s))"
  by pat_completeness auto
termination by (relation "measure (\<lambda>(permute, rate, rounds, n, s). n)") auto

declare squeeze.simps [simp del]

definition sponge :: "(nat \<Rightarrow> kstate \<Rightarrow> kstate) \<Rightarrow> nat \<Rightarrow> nat \<Rightarrow> byte \<Rightarrow> byte list \<Rightarrow> nat \<Rightarrow> byte list" where
  "sponge permute rate rounds dsb bs outBytes =
     squeeze permute rate rounds outBytes (absorb permute rate rounds (pad_data rate dsb bs))"

subsection \<open>The reference sponge\<close>

definition xor_block :: "byte list \<Rightarrow> lanes \<Rightarrow> lanes" where
  "xor_block block a = map (\<lambda>i. a ! i XOR word_of_bytes (take 8 (drop (8 * i) block))) [0..<25]"

definition ref_pad :: "nat \<Rightarrow> byte \<Rightarrow> byte list \<Rightarrow> byte list" where
  "ref_pad rate dsb bs =
     (let free = rate - length bs mod rate
      in if free = 1 then bs @ [dsb XOR 0x80] else bs @ dsb # replicate (free - 2) 0 @ [0x80])"

definition ref_absorb :: "nat \<Rightarrow> nat \<Rightarrow> byte list \<Rightarrow> lanes" where
  "ref_absorb rate rounds padded =
     fold (\<lambda>k a. keccak_p rounds (xor_block (take rate (drop (k * rate) padded)) a)) [0..<length padded div rate] (replicate 25 0)"

definition state_byte :: "lanes \<Rightarrow> nat \<Rightarrow> byte" where
  "state_byte a i = ucast (drop_bit (8 * (i mod 8)) (a ! (i div 8)))"

text \<open>Byte \<open>m\<close> of the output is byte \<open>m mod rate\<close> of the state after \<open>m div rate\<close> more permutations.\<close>

definition ref_sponge :: "nat \<Rightarrow> nat \<Rightarrow> byte \<Rightarrow> byte list \<Rightarrow> nat \<Rightarrow> byte list" where
  "ref_sponge rate rounds dsb bs n =
     (let a = ref_absorb rate rounds (ref_pad rate dsb bs)
      in map (\<lambda>m. state_byte ((keccak_p rounds ^^ (m div rate)) a) (m mod rate)) [0..<n])"

subsection \<open>The sponge on halves is the sponge on lanes\<close>

lemma blocks_length: "0 < rate \<Longrightarrow> (n div rate + 1) * rate = n + (rate - n mod rate)" for n rate :: nat
proof -
  assume "0 < rate"
  then have "n mod rate < rate" by simp
  moreover have "n = n div rate * rate + n mod rate" by simp
  ultimately show ?thesis by (simp only: distrib_right)
qed

lemma pad_data_ref:
  assumes "0 < rate"
  shows "pad_data rate dsb bs = ref_pad rate dsb bs"
proof -
  define r where "r = length bs mod rate"
  define free where "free = rate - r"
  have r: "r < rate" using assms by (simp add: r_def)
  have n: "(length bs div rate + 1) * rate = length bs + free"
    using blocks_length [OF assms, of "length bs"] by (simp add: free_def r_def)
  show ?thesis
  proof (cases "free = 1")
    case True
    then show ?thesis using n by (simp add: pad_data_def ref_pad_def Let_def flip: r_def free_def)
  next
    case False
    with r have "free = Suc (Suc (free - 2))" unfolding free_def by simp
    then obtain f where f: "free = Suc (Suc f)" by blast
    then have rep: "replicate free (0::byte) = 0 # replicate f 0 @ [0]"
      by (simp add: replicate_append_same)
    have "pad_data rate dsb bs = bs @ dsb # replicate f 0 @ [0x80]"
      unfolding pad_data_def n by (simp add: rep) (simp add: f list_update_append nth_append)
    with f show ?thesis by (simp add: ref_pad_def Let_def flip: r_def free_def)
  qed
qed

lemma length_ref_pad:
  assumes "0 < rate"
  shows "length (ref_pad rate dsb bs) = (length bs div rate + 1) * rate"
proof -
  have "length bs mod rate < rate" using assms by simp
  with blocks_length [OF assms, of "length bs"] show ?thesis by (auto simp: ref_pad_def Let_def)
qed

lemma absorb_lanes_upto:
  assumes "kstate_ok s" "m \<le> 25"
  shows "kstate_ok (fold (absorb_lane padded off) [0..<m] s) \<and>
    (\<forall>i < 25. lo (fold (absorb_lane padded off) [0..<m] s) ! i =
       (if i < m then lo s ! i XOR le32 padded (off + 8 * i) else lo s ! i) \<and>
     hi (fold (absorb_lane padded off) [0..<m] s) ! i =
       (if i < m then hi s ! i XOR le32 padded (off + 8 * i + 4) else hi s ! i))"
  using assms(2)
proof (induction m)
  case (Suc m)
  then show ?case
    by (auto simp: absorb_lane_def Let_def kstate_ok_def at0_def nth_list_update less_Suc_eq)
qed (use assms in simp)

lemma absorb_block_lanes:
  assumes "kstate_ok s" "rate = 8 * m" "m \<le> 25" "off + rate \<le> length padded"
  shows "kstate_ok (fold (absorb_lane padded off) [0..<(rate + 7) div 8] s) \<and>
    lanes_of (fold (absorb_lane padded off) [0..<(rate + 7) div 8] s) = xor_block (take rate (drop off padded)) (lanes_of s)"
proof -
  have m: "(rate + 7) div 8 = m" using assms(2) by simp
  note f = absorb_lanes_upto [OF assms(1,3), of padded off]
  show ?thesis unfolding m
  proof (intro conjI lanes_of_eqI)
    show "kstate_ok (fold (absorb_lane padded off) [0..<m] s)" using f by simp
    then show "kstate_ok (fold (absorb_lane padded off) [0..<m] s)" .
    show "length (xor_block (take rate (drop off padded)) (lanes_of s)) = 25" by (simp add: xor_block_def)
    fix i :: nat assume i: "i < 25"
    have "take 8 (drop (8 * i) (take rate (drop off padded))) = (if i < m then take 8 (drop (off + 8 * i) padded) else [])"
    proof (cases "i < m")
      case True
      then have "8 \<le> rate - 8 * i" using assms(2) by linarith
      with True show ?thesis by (simp add: drop_take min_def add.commute)
    qed (use assms(2) in simp)
    moreover have "lane (le32 padded (off + 8 * i + 4)) (le32 padded (off + 8 * i)) = word_of_bytes (take 8 (drop (off + 8 * i) padded))"
      if "i < m" using that assms(2,4) by (intro lane_le32) linarith
    ultimately show "lane (hi (fold (absorb_lane padded off) [0..<m] s) ! i) (lo (fold (absorb_lane padded off) [0..<m] s) ! i) =
        xor_block (take rate (drop off padded)) (lanes_of s) ! i"
      using f i assms(1) by (simp add: xor_block_def lane_xor lanes_nth word_of_bytes_def)
  qed
qed

lemma squeeze_byte_lane:
  assumes "kstate_ok s" "i < 200"
  shows "squeeze_byte s i = state_byte (lanes_of s) i"
proof (rule bit_word_eqI)
  fix n assume "n < LENGTH(8)"
  then have n: "n < 8" by simp
  have i: "i div 8 < 25" using assms(2) by simp
  have "i mod 8 = i mod 4 + 4 * (i div 4 mod 2)" using mod_mult2_eq [of i 4 2] by simp
  then have m: "i mod 8 = (if odd (i div 4) then i mod 4 + 4 else i mod 4)" by (simp add: odd_iff_mod_2_eq_one)
  have "i mod 4 < 4" by simp
  then show "bit (squeeze_byte s i) n = bit (state_byte (lanes_of s) i) n"
    using n i m assms(1)
    by (auto simp: squeeze_byte_def state_byte_def Let_def lanes_nth at0_def kstate_ok_def bit_ucast_iff bit_drop_bit_eq bit_lane algebra_simps)
qed

text \<open>What the sponge needs of the permutation it is given: the native one or \<open>permuteJs\<close>.\<close>

locale keccak_permutation =
  fixes permute :: "nat \<Rightarrow> kstate \<Rightarrow> kstate"
  assumes permutes: "kstate_ok s \<Longrightarrow> kstate_ok (permute rounds s) \<and> lanes_of (permute rounds s) = keccak_p rounds (lanes_of s)"
begin

lemma absorb_ref:
  assumes "rate = 8 * m" "m \<le> 25" "length padded = n * rate" "0 < rate"
  shows "kstate_ok (absorb permute rate rounds padded) \<and> lanes_of (absorb permute rate rounds padded) = ref_absorb rate rounds padded"
proof -
  let ?step = "\<lambda>k s. permute rounds (fold (absorb_lane padded (k * rate)) [0..<(rate + 7) div 8] s)"
  let ?ref = "\<lambda>k a. keccak_p rounds (xor_block (take rate (drop (k * rate) padded)) a)"
  have "kstate_ok (fold ?step ks s) \<and> lanes_of (fold ?step ks s) = fold ?ref ks (lanes_of s)"
    if "\<forall>k \<in> set ks. k < n" "kstate_ok s" for ks s
    using that
  proof (induction ks arbitrary: s)
    case (Cons k ks)
    have "k * rate + rate \<le> length padded"
      using Cons.prems(1) assms(3) mult_le_mono1 [of "Suc k" n rate] by simp
    note b = absorb_block_lanes [OF Cons.prems(2) assms(1,2) this]
    from b have "kstate_ok (?step k s) \<and> lanes_of (?step k s) = ?ref k (lanes_of s)"
      using permutes [OF conjunct1 [OF b], of rounds] by simp
    with Cons.IH [of "?step k s"] Cons.prems(1) show ?case by simp
  qed simp
  from this [of "[0..<n]" "\<lparr>hi = replicate 25 0, lo = replicate 25 0\<rparr>"] assms(3,4) show ?thesis
    by (simp add: absorb_def ref_absorb_def kstate_ok_def lanes_of_def lane_def)
qed

lemma squeeze_ref:
  assumes "0 < rate" "rate \<le> 200"
  shows "kstate_ok s \<Longrightarrow> squeeze permute rate rounds n s =
    map (\<lambda>m. state_byte ((keccak_p rounds ^^ (m div rate)) (lanes_of s)) (m mod rate)) [0..<n]"
proof (induction n arbitrary: s rule: less_induct)
  case (less n)
  have first: "map (squeeze_byte s) [0..<k] = map (\<lambda>m. state_byte ((keccak_p rounds ^^ (m div rate)) (lanes_of s)) (m mod rate)) [0..<k]"
    if "k \<le> rate" for k
    using that assms less.prems by (simp add: squeeze_byte_lane)
  show ?case
  proof (cases "n \<le> rate")
    case True
    then show ?thesis using first [of n] assms by (subst squeeze.simps) (simp add: squeeze.simps [of permute rate rounds 0])
  next
    case False
    let ?f = "\<lambda>m. state_byte ((keccak_p rounds ^^ (m div rate)) (lanes_of s)) (m mod rate)"
    note p = permutes [OF less.prems, of rounds]
    have s: "squeeze permute rate rounds n s =
        map (squeeze_byte s) [0..<rate] @ squeeze permute rate rounds (n - rate) (permute rounds s)"
      using False assms by (subst squeeze.simps) simp
    have "?f (m + rate) = state_byte ((keccak_p rounds ^^ (m div rate)) (keccak_p rounds (lanes_of s))) (m mod rate)" for m
    proof -
      have "(m + rate) div rate = Suc (m div rate)" using assms(1) div_add_self2 [of rate m] by linarith
      then show ?thesis by (simp only: funpow_Suc_right comp_apply mod_add_self2)
    qed
    then have "squeeze permute rate rounds (n - rate) (permute rounds s) = map (\<lambda>m. ?f (m + rate)) [0..<n - rate]"
      using less.IH [of "n - rate" "permute rounds s"] False assms p by simp
    also have "\<dots> = map ?f [rate..<n]"
    proof -
      have "[rate..<n] = map (\<lambda>i. i + rate) [0..<n - rate]" using False map_add_upt [of rate "n - rate"] by simp
      then show ?thesis by (simp only: map_map comp_def)
    qed
    finally show ?thesis
      unfolding s first [OF order_refl] using False upt_add_eq_append [of 0 rate "n - rate"] by (simp only: map_append [symmetric]) simp
  qed
qed

lemma sponge_ref:
  assumes "rate = 8 * m" "0 < m" "m \<le> 25"
  shows "sponge permute rate rounds dsb bs n = ref_sponge rate rounds dsb bs n"
proof -
  have r: "0 < rate" "rate \<le> 200" using assms by simp_all
  note a = absorb_ref [OF assms(1,3) length_ref_pad [OF r(1)] r(1), of rounds dsb bs]
  show ?thesis
    using squeeze_ref [OF r conjunct1 [OF a], of rounds n] conjunct2 [OF a]
    by (simp add: sponge_def ref_sponge_def pad_data_ref [OF r(1)])
qed

end

interpretation js_keccak: keccak_permutation permuteJs
  by unfold_locales (rule permuteJs_lanes)

text \<open>C20: at the rates of the two strengths the sponge on halves is the sponge of FIPS 202 on lanes: the message, the
  domain byte and 10*1 padding are absorbed block by block, and byte \<open>m\<close> of the output is byte \<open>m mod rate\<close> of the
  state after \<open>m div rate\<close> more permutations, for every message, domain byte, number of rounds and length.\<close>

theorem sponge_standard:
  "sponge permuteJs (RATE st) rounds dsb bs n = ref_sponge (RATE st) rounds dsb bs n"
  by (cases st) (simp_all add: js_keccak.sponge_ref [of 168 21] js_keccak.sponge_ref [of 136 17])

subsection \<open>The encodings of SP 800-185\<close>

function big_endian_loop :: "nat \<Rightarrow> nat list \<Rightarrow> nat list" where
  "big_endian_loop v bytes =
     (let bytes = v mod 256 # bytes; v = v div 256 in if 0 < v then big_endian_loop v bytes else bytes)"
  by pat_completeness auto
termination
proof (relation "measure fst")
  fix v w :: nat and bytes bytes' assume "w = v div 256" "0 < w"
  then show "((w, bytes'), v, bytes) \<in> measure fst" by (cases "v = 0") simp_all
qed simp

declare big_endian_loop.simps [simp del]

definition bigEndian :: "nat \<Rightarrow> nat list" where
  "bigEndian v = big_endian_loop v []"

definition byte_array :: "nat list \<Rightarrow> byte list" where
  "byte_array ns = map word_of_nat ns"

definition leftEncode :: "nat \<Rightarrow> byte list" where
  "leftEncode v = (let bytes = bigEndian v in byte_array (length bytes # bytes))"

definition rightEncode :: "nat \<Rightarrow> byte list" where
  "rightEncode v = (let bytes = bigEndian v in byte_array (bytes @ [length bytes]))"

definition encodeString :: "byte list \<Rightarrow> byte list" where
  "encodeString bs = leftEncode (length bs * 8) @ bs"

definition bytepad :: "byte list \<Rightarrow> nat \<Rightarrow> byte list" where
  "bytepad bs width =
     (let head = leftEncode width @ bs
      in head @ replicate ((length head + width - 1) div width * width - length head) 0)"

subsection \<open>The functions\<close>

definition truncateBits :: "byte list \<Rightarrow> nat \<Rightarrow> byte list" where
  "truncateBits bs bits =
     (let out = take ((bits + 7) div 8) bs; n = length out
      in if bits mod 8 \<noteq> 0 then out[n - 1 := out ! (n - 1) AND push_bit (8 - bits mod 8) 0xff] else out)"

definition cshake_prefix :: "strength \<Rightarrow> byte list \<Rightarrow> byte list \<Rightarrow> byte list" where
  "cshake_prefix st functionName customization =
     bytepad (encodeString functionName @ encodeString customization) (RATE st)"

definition cshake ::
  "(nat \<Rightarrow> kstate \<Rightarrow> kstate) \<Rightarrow> strength \<Rightarrow> byte list \<Rightarrow> nat \<Rightarrow> byte list \<Rightarrow> byte list \<Rightarrow> byte list" where
  "cshake permute st bs outBytes functionName customization =
     (if functionName = [] \<and> customization = [] then sponge permute (RATE st) 24 0x1f bs outBytes
      else sponge permute (RATE st) 24 0x04 (cshake_prefix st functionName customization @ bs) outBytes)"

definition kmac_input :: "strength \<Rightarrow> byte list \<Rightarrow> byte list \<Rightarrow> nat \<Rightarrow> byte list" where
  "kmac_input st key bs outBits = bytepad (encodeString key) (RATE st) @ bs @ rightEncode outBits"

definition kmac ::
  "(nat \<Rightarrow> kstate \<Rightarrow> kstate) \<Rightarrow> strength \<Rightarrow> byte list \<Rightarrow> byte list \<Rightarrow> nat \<Rightarrow> byte list \<Rightarrow> byte list" where
  "kmac permute st key bs outBits customization =
     truncateBits (cshake permute st (kmac_input st key bs outBits) ((outBits + 7) div 8) [0x4b, 0x4d, 0x41, 0x43] customization)
       outBits"

definition turboshake :: "(nat \<Rightarrow> kstate \<Rightarrow> kstate) \<Rightarrow> strength \<Rightarrow> byte list \<Rightarrow> nat \<Rightarrow> byte \<Rightarrow> byte list" where
  "turboshake permute st bs outBytes domain = sponge permute (RATE st) 12 domain bs outBytes"

definition lengthEncode :: "nat \<Rightarrow> byte list" where
  "lengthEncode v = (if v = 0 then [0] else let bytes = bigEndian v in byte_array (bytes @ [length bytes]))"

function k12_chunks :: "nat \<Rightarrow> byte list \<Rightarrow> byte list list" where
  "k12_chunks offset input =
     (if offset < length input then take 8192 (drop offset input) # k12_chunks (offset + 8192) input else [])"
  by pat_completeness auto
termination by (relation "measure (\<lambda>(offset, input). length input - offset)") auto

declare k12_chunks.simps [simp del]

definition k12_node :: "(byte list \<Rightarrow> byte list) \<Rightarrow> byte list \<Rightarrow> byte list" where
  "k12_node leaf input =
     (let leaves = map leaf (k12_chunks 8192 input)
      in take 8192 input @ [3, 0, 0, 0, 0, 0, 0, 0] @ concat leaves @ lengthEncode (length leaves) @ [0xff, 0xff])"

definition kangarootwelve ::
  "(nat \<Rightarrow> kstate \<Rightarrow> kstate) \<Rightarrow> strength \<Rightarrow> byte list \<Rightarrow> nat \<Rightarrow> byte list \<Rightarrow> byte list" where
  "kangarootwelve permute st message outBytes customization =
     (let input = message @ customization @ lengthEncode (length customization)
      in if length input \<le> 8192 then turboshake permute st input outBytes 0x07
         else turboshake permute st
           (k12_node (\<lambda>chunk. turboshake permute st chunk (if st = S128 then 32 else 64) 0x0b) input) outBytes 0x06)"

definition keccakKmacDigest :: "(nat \<Rightarrow> kstate \<Rightarrow> kstate) \<Rightarrow> strength \<Rightarrow> byte list \<Rightarrow> nat \<Rightarrow> byte list" where
  "keccakKmacDigest permute st bs outBytes = sponge permute (RATE st) 24 0x04 bs outBytes"

subsection \<open>Encodings that carry their own end\<close>

definition big_endian_value :: "nat list \<Rightarrow> nat" where
  "big_endian_value bytes = foldl (\<lambda>a b. a * 256 + b) 0 bytes"

lemma big_endian_loop_acc: "big_endian_loop v bytes = big_endian_loop v [] @ bytes"
proof (induction v arbitrary: bytes rule: less_induct)
  case (less v)
  show ?case
  proof (cases "0 < v div 256")
    case True
    then have "v div 256 < v" by (simp add: div_greater_zero_iff)
    from less.IH [OF this, of "v mod 256 # bytes"] less.IH [OF this, of "[v mod 256]"] True show ?thesis
      by (simp add: big_endian_loop.simps [of v])
  qed (simp add: big_endian_loop.simps [of v])
qed

lemma bigEndian_step: "bigEndian v = (if v < 256 then [v] else bigEndian (v div 256) @ [v mod 256])"
proof (cases "v < 256")
  case True
  then show ?thesis by (simp add: bigEndian_def big_endian_loop.simps [of v])
next
  case False
  then have "0 < v div 256" by (simp add: div_greater_zero_iff)
  with False show ?thesis
    using big_endian_loop_acc [of "v div 256" "[v mod 256]"] by (simp add: bigEndian_def big_endian_loop.simps [of v])
qed

lemma bigEndian_facts: "big_endian_value (bigEndian v) = v \<and> list_all (\<lambda>b. b < 256) (bigEndian v) \<and> bigEndian v \<noteq> []"
proof (induction v rule: less_induct)
  case (less v)
  show ?case
  proof (cases "v < 256")
    case False
    then have "v div 256 < v" by simp
    from less.IH [OF this] False show ?thesis by (simp add: bigEndian_step [of v] big_endian_value_def)
  qed (simp add: bigEndian_step [of v] big_endian_value_def)
qed

lemma length_bigEndian: "v < 256 ^ k \<Longrightarrow> 0 < k \<Longrightarrow> length (bigEndian v) \<le> k"
proof (induction k arbitrary: v)
  case (Suc k)
  show ?case
  proof (cases "v < 256")
    case False
    then have "0 < k" using Suc.prems by (cases k) simp_all
    moreover have "v div 256 < 256 ^ k" using Suc.prems(1) by (simp add: less_mult_imp_div_less mult.commute)
    ultimately show ?thesis using Suc.IH [of "v div 256"] False by (simp add: bigEndian_step [of v])
  qed (simp add: bigEndian_step [of v])
qed simp

lemma byte_array_inject:
  "byte_array a = byte_array b \<Longrightarrow> list_all (\<lambda>n. n < 256) a \<Longrightarrow> list_all (\<lambda>n. n < 256) b \<Longrightarrow> a = b"
proof (induction a arbitrary: b)
  case (Cons x a)
  then obtain y c where b: "b = y # c" by (cases b) (simp_all add: byte_array_def)
  then have "unat (word_of_nat x :: byte) = unat (word_of_nat y :: byte)" using Cons.prems(1) by (simp add: byte_array_def)
  then have "x = y" using Cons.prems b by (simp add: unat_word_of_nat_byte)
  with Cons b show ?case by (simp add: byte_array_def)
qed (simp add: byte_array_def)

lemma bigEndian_inject:
  assumes "byte_array (bigEndian v) = byte_array (bigEndian w)"
  shows "v = w"
  using byte_array_inject [OF assms] bigEndian_facts by metis

lemma bigEndian_length_byte:
  assumes "v < 2 ^ 56"
  shows "unat (word_of_nat (length (bigEndian v)) :: byte) = length (bigEndian v)"
  using length_bigEndian [of v 7] assms by (simp add: unat_word_of_nat_byte)

interpretation left_code: self_delimiting leftEncode "\<lambda>v. v < 2 ^ 56"
proof unfold_locales
  fix v w r s assume v: "v < 2 ^ 56" and w: "w < 2 ^ 56" and e: "leftEncode v @ r = leftEncode w @ s"
  from e have h: "(word_of_nat (length (bigEndian v)) :: byte) = word_of_nat (length (bigEndian w))"
    and t: "byte_array (bigEndian v) @ r = byte_array (bigEndian w) @ s"
    by (simp_all only: leftEncode_def byte_array_def Let_def list.map append.simps list.inject)
  from arg_cong [OF h, of unat] have "length (bigEndian v) = length (bigEndian w)"
    unfolding bigEndian_length_byte [OF v] bigEndian_length_byte [OF w] .
  with t have "byte_array (bigEndian v) = byte_array (bigEndian w)" "r = s"
    by (simp_all add: byte_array_def)
  then show "v = w \<and> r = s" using bigEndian_inject by blast
qed

interpretation string_code: self_delimiting encodeString "\<lambda>bs. length bs < 2 ^ 53"
proof unfold_locales
  fix a b r s :: "byte list" assume "length a < 2 ^ 53" "length b < 2 ^ 53" "encodeString a @ r = encodeString b @ s"
  then show "a = b \<and> r = s"
    using left_code.delimits [of "length a * 8" "length b * 8" "a @ r" "b @ s"] by (auto simp: encodeString_def)
qed

lemma rightEncode_inject:
  assumes "v < 2 ^ 56" "w < 2 ^ 56" "a @ rightEncode v = b @ rightEncode w"
  shows "a = b \<and> v = w"
proof -
  have r: "rightEncode u = byte_array (bigEndian u) @ [word_of_nat (length (bigEndian u))]" for u
    by (simp add: rightEncode_def byte_array_def Let_def)
  from assms(3) have h: "(word_of_nat (length (bigEndian v)) :: byte) = word_of_nat (length (bigEndian w))"
    and t: "a @ byte_array (bigEndian v) = b @ byte_array (bigEndian w)"
    unfolding r append_assoc [symmetric] append1_eq_conv by simp_all
  from arg_cong [OF h, of unat] have "length (bigEndian v) = length (bigEndian w)"
    unfolding bigEndian_length_byte [OF assms(1)] bigEndian_length_byte [OF assms(2)] .
  with t have "byte_array (bigEndian v) = byte_array (bigEndian w)" "a = b"
    by (simp_all add: byte_array_def)
  then show ?thesis using bigEndian_inject by blast
qed

lemma bytepad_inject:
  assumes "bytepad a width @ r = bytepad b width @ s" "width < 2 ^ 56"
    and "\<And>x y. a @ x = b @ y \<Longrightarrow> a = b"
  shows "a = b \<and> r = s"
proof -
  let ?pad = "\<lambda>x. replicate ((length (leftEncode width @ x) + width - 1) div width * width - length (leftEncode width @ x)) 0"
  have "a @ ?pad a @ r = b @ ?pad b @ s" using assms(1) by (simp add: bytepad_def Let_def)
  from assms(3) [OF this] assms(1) show ?thesis by simp
qed

text \<open>what cSHAKE and KMAC absorb determines their inputs: two calls of the same strength absorb the same bytes only
  if they have the same function name, customization, key, message and output length.\<close>

theorem absorbed_input_injective:
  assumes "length f < 2 ^ 53" "length f' < 2 ^ 53" "length c < 2 ^ 53" "length c' < 2 ^ 53"
    "length key < 2 ^ 53" "length key' < 2 ^ 53" "bits < 2 ^ 53" "bits' < 2 ^ 53"
  shows "cshake_prefix st f c @ kmac_input st key bs bits = cshake_prefix st f' c' @ kmac_input st key' bs' bits' \<longleftrightarrow>
    f = f' \<and> c = c' \<and> key = key' \<and> bs = bs' \<and> bits = bits'"
proof (intro iffI)
  assume e: "cshake_prefix st f c @ kmac_input st key bs bits = cshake_prefix st f' c' @ kmac_input st key' bs' bits'"
  have rate: "RATE st < 2 ^ 56" by (cases st) simp_all
  have names: "f = f' \<and> c = c'" if "(encodeString f @ encodeString c) @ x = (encodeString f' @ encodeString c') @ y" for x y
    using that string_code.delimits [of f f' "encodeString c @ x" "encodeString c' @ y"] string_code.delimits [of c c' x y] assms(1-4)
    by simp
  have keys: "encodeString key = encodeString key'" if "encodeString key @ x = encodeString key' @ y" for x y
    using that string_code.delimits [of key key' x y] assms(5,6) by simp
  have prefixes: "encodeString f @ encodeString c = encodeString f' @ encodeString c' \<and>
      kmac_input st key bs bits = kmac_input st key' bs' bits'"
    using bytepad_inject [OF e [unfolded cshake_prefix_def] rate] names by blast
  have rest: "encodeString key = encodeString key' \<and> bs @ rightEncode bits = bs' @ rightEncode bits'"
    using bytepad_inject [OF conjunct2 [OF prefixes, unfolded kmac_input_def] rate keys] by simp
  have "bits < 2 ^ 56" "bits' < 2 ^ 56" using assms(7,8) by simp_all
  from rightEncode_inject [OF this conjunct2 [OF rest]] rest names [of "[]" "[]"] prefixes string_code.enc_inject [of key key'] assms(5,6)
  show "f = f' \<and> c = c' \<and> key = key' \<and> bs = bs' \<and> bits = bits'" by simp
qed simp

theorem absorbed_input_injective_witness:
  "cshake_prefix S256 [1] [2, 3] @ kmac_input S256 [4] [5] 256 \<noteq> cshake_prefix S256 [1, 2] [3] @ kmac_input S256 [4] [5] 256"
  using absorbed_input_injective [of "[1]" "[1, 2]" "[2, 3]" "[3]" "[4]" "[4]" 256 256 S256 "[5]" "[5]"] by simp

end
