(* ===== verification/Blake2Compress.thy ===== *)
theory Blake2Compress
  imports Lanes
begin

unbundle bit_operations_syntax

text \<open>
  \<open>node-blake2.js\<close>, the two compression functions. The code writes the eight mixing steps of a round out in place,
  with the sixteen lanes in local variables; each is the same text with other variable names, so here one step
  (\<open>mixB\<close>, \<open>mixS\<close>) is applied to the four lanes that \<open>STEPS\<close> names. Second, the refinement of RFC 7693 on words.
\<close>

subsection \<open>Constants\<close>

definition IV_B :: "half list" where
  "IV_B =
     [0xf3bcc908, 0x6a09e667, 0x84caa73b, 0xbb67ae85,
      0xfe94f82b, 0x3c6ef372, 0x5f1d36f1, 0xa54ff53a,
      0xade682d1, 0x510e527f, 0x2b3e6c1f, 0x9b05688c,
      0xfb41bd6b, 0x1f83d9ab, 0x137e2179, 0x5be0cd19]"

definition IV_S :: "half list" where
  "IV_S = [0x6a09e667, 0xbb67ae85, 0x3c6ef372, 0xa54ff53a,
      0x510e527f, 0x9b05688c, 0x1f83d9ab, 0x5be0cd19]"

definition BLAKE_SIGMA :: "nat list" where
  "BLAKE_SIGMA =
     [0, 1, 2, 3, 4, 5, 6, 7, 8, 9, 10, 11, 12, 13, 14, 15,
      14, 10, 4, 8, 9, 15, 13, 6, 1, 12, 0, 2, 11, 7, 5, 3,
      11, 8, 12, 0, 5, 2, 15, 13, 10, 14, 3, 6, 7, 1, 9, 4,
      7, 9, 3, 1, 13, 12, 11, 14, 2, 6, 5, 10, 4, 0, 15, 8,
      9, 0, 5, 7, 2, 4, 10, 15, 14, 1, 11, 12, 6, 8, 3, 13,
      2, 12, 6, 10, 0, 11, 8, 3, 4, 13, 7, 5, 15, 14, 1, 9,
      12, 5, 1, 15, 14, 13, 4, 10, 0, 7, 6, 3, 9, 2, 8, 11,
      13, 11, 7, 14, 12, 1, 3, 9, 5, 0, 15, 4, 8, 6, 2, 10,
      6, 15, 14, 9, 11, 3, 0, 8, 12, 2, 13, 7, 1, 4, 10, 5,
      10, 2, 8, 4, 7, 6, 1, 5, 15, 11, 9, 14, 3, 12, 13, 0]"

text \<open>The lanes that the eight mixing steps of a round work on: the four columns, then the four diagonals.\<close>

definition STEPS :: "(nat \<times> nat \<times> nat \<times> nat) list" where
  "STEPS = [(0, 4, 8, 12), (1, 5, 9, 13), (2, 6, 10, 14), (3, 7, 11, 15),
            (0, 5, 10, 15), (1, 6, 11, 12), (2, 7, 8, 13), (3, 4, 9, 14)]"

subsection \<open>BLAKE2b\<close>

text \<open>A lane as its low and its high word, as the code names them \<open>v0l\<close> and \<open>v0h\<close>.\<close>

type_synonym lohi = "half \<times> half"

text \<open>The message words: \<open>n\<close> words of four bytes.\<close>

definition load_words :: "nat \<Rightarrow> byte list \<Rightarrow> nat \<Rightarrow> half list" where
  "load_words n block offset = map (\<lambda>i. le32 block (offset + 4 * i)) [0..<n]"

text \<open>\<open>t = al + bl + ml\<close> is a sum of Numbers, exact; what it has above 32 bits is carried.\<close>

definition add3 :: "lohi \<Rightarrow> lohi \<Rightarrow> lohi \<Rightarrow> lohi" where
  "add3 a b m =
     (let t = unat (fst a) + unat (fst b) + unat (fst m)
      in (word_of_nat t, snd a + snd b + snd m + word_of_nat (t div 4294967296)))"

definition add2 :: "lohi \<Rightarrow> lohi \<Rightarrow> lohi" where
  "add2 c d =
     (let t = unat (fst c) + unat (fst d)
      in (word_of_nat t, snd c + snd d + (if 4294967295 < t then 1 else 0)))"

definition xor_rot32 :: "lohi \<Rightarrow> lohi \<Rightarrow> lohi" where
  "xor_rot32 d a = (snd d XOR snd a, fst d XOR fst a)"

text \<open>Rotation right by \<open>n < 32\<close> of the exclusive or.\<close>

definition xor_rot :: "nat \<Rightarrow> lohi \<Rightarrow> lohi \<Rightarrow> lohi" where
  "xor_rot n b c =
     (let t = fst b XOR fst c; u = snd b XOR snd c
      in (drop_bit n t OR push_bit (32 - n) u, drop_bit n u OR push_bit (32 - n) t))"

definition xor_rot63 :: "lohi \<Rightarrow> lohi \<Rightarrow> lohi" where
  "xor_rot63 b c =
     (let t = fst b XOR fst c; u = snd b XOR snd c
      in (push_bit 1 t OR drop_bit 31 u, push_bit 1 u OR drop_bit 31 t))"

text \<open>One mixing step; \<open>mb\<close> has the message words, the halves of a lane side by side.\<close>

definition mixB :: "half list \<Rightarrow> nat \<Rightarrow> nat \<Rightarrow> lohi \<times> lohi \<times> lohi \<times> lohi \<Rightarrow> lohi \<times> lohi \<times> lohi \<times> lohi" where
  "mixB mb x y = (\<lambda>(a, b, c, d).
     let xi = 2 * x; yi = 2 * y;
         a = add3 a b (mb ! xi, mb ! (xi + 1));
         d = xor_rot32 d a;
         c = add2 c d;
         b = xor_rot 24 b c;
         a = add3 a b (mb ! yi, mb ! (yi + 1));
         d = xor_rot 16 d a;
         c = add2 c d;
         b = xor_rot63 b c
     in (a, b, c, d))"

definition step_lanes :: "('v \<times> 'v \<times> 'v \<times> 'v \<Rightarrow> 'v \<times> 'v \<times> 'v \<times> 'v) \<Rightarrow> nat \<times> nat \<times> nat \<times> nat \<Rightarrow> 'v list \<Rightarrow> 'v list" where
  "step_lanes g = (\<lambda>(i, j, k, l) v.
     let (a, b, c, d) = g (v ! i, v ! j, v ! k, v ! l) in v[i := a, j := b, k := c, l := d])"

definition roundB :: "half list \<Rightarrow> nat \<Rightarrow> lohi list \<Rightarrow> lohi list" where
  "roundB mb r v =
     (let s = r mod 10 * 16
      in fold (\<lambda>n. step_lanes (mixB mb (BLAKE_SIGMA ! (s + 2 * n)) (BLAKE_SIGMA ! (s + 2 * n + 1))) (STEPS ! n)) [0..<8] v)"

definition lohi_of :: "half list \<Rightarrow> nat \<Rightarrow> lohi" where
  "lohi_of h i = (h ! (2 * i), h ! (2 * i + 1))"

definition initB :: "half list \<Rightarrow> half \<Rightarrow> half \<Rightarrow> bool \<Rightarrow> lohi list" where
  "initB h tLo tHi last_block =
     (let v = map (lohi_of h) [0..<8] @ map (lohi_of IV_B) [0..<8];
          v = v[12 := (fst (v ! 12) XOR tLo, snd (v ! 12) XOR tHi)]
      in if last_block then v[14 := (NOT (fst (v ! 14)), NOT (snd (v ! 14)))] else v)"

definition feedB :: "half list \<Rightarrow> lohi list \<Rightarrow> half list" where
  "feedB h v =
     map (\<lambda>k. h ! k XOR (if even k then fst (v ! (k div 2)) XOR fst (v ! (k div 2 + 8))
       else snd (v ! (k div 2)) XOR snd (v ! (k div 2 + 8)))) [0..<16]"

definition compressB :: "half list \<Rightarrow> byte list \<Rightarrow> nat \<Rightarrow> half \<Rightarrow> half \<Rightarrow> bool \<Rightarrow> half list" where
  "compressB h block offset tLo tHi last_block =
     (let mb = load_words 32 block offset
      in feedB h (fold (roundB mb) [0..<12] (initB h tLo tHi last_block)))"

subsection \<open>BLAKE2s\<close>

definition xor_rotS :: "nat \<Rightarrow> half \<Rightarrow> half \<Rightarrow> half" where
  "xor_rotS n d a = (let w = d XOR a in drop_bit n w OR push_bit (32 - n) w)"

definition mixS :: "half list \<Rightarrow> nat \<Rightarrow> nat \<Rightarrow> half \<times> half \<times> half \<times> half \<Rightarrow> half \<times> half \<times> half \<times> half" where
  "mixS ms x y = (\<lambda>(a, b, c, d).
     let a = a + b + ms ! x;
         d = xor_rotS 16 d a;
         c = c + d;
         b = xor_rotS 12 b c;
         a = a + b + ms ! y;
         d = xor_rotS 8 d a;
         c = c + d;
         b = xor_rotS 7 b c
     in (a, b, c, d))"

definition roundS :: "half list \<Rightarrow> nat \<Rightarrow> half list \<Rightarrow> half list" where
  "roundS ms r v =
     (let s = r * 16
      in fold (\<lambda>n. step_lanes (mixS ms (BLAKE_SIGMA ! (s + 2 * n)) (BLAKE_SIGMA ! (s + 2 * n + 1))) (STEPS ! n)) [0..<8] v)"

definition initS :: "half list \<Rightarrow> half \<Rightarrow> half \<Rightarrow> bool \<Rightarrow> half list" where
  "initS h tLo tHi last_block =
     (let v = map (\<lambda>i. h ! i) [0..<8] @ IV_S; v = v[12 := v ! 12 XOR tLo, 13 := v ! 13 XOR tHi]
      in if last_block then v[14 := NOT (v ! 14)] else v)"

definition feedS :: "half list \<Rightarrow> half list \<Rightarrow> half list" where
  "feedS h v = map (\<lambda>k. h ! k XOR (v ! k XOR v ! (k + 8))) [0..<8]"

definition compressS :: "half list \<Rightarrow> byte list \<Rightarrow> nat \<Rightarrow> half \<Rightarrow> half \<Rightarrow> bool \<Rightarrow> half list" where
  "compressS h block offset tLo tHi last_block =
     (let ms = load_words 16 block offset
      in feedS h (fold (roundS ms) [0..<10] (initS h tLo tHi last_block)))"

subsection \<open>The reference: RFC 7693 on words of either size\<close>

definition ref_mix :: "nat \<times> nat \<times> nat \<times> nat \<Rightarrow> 'w::len word \<Rightarrow> 'w word \<Rightarrow>
    'w word \<times> 'w word \<times> 'w word \<times> 'w word \<Rightarrow> 'w word \<times> 'w word \<times> 'w word \<times> 'w word" where
  "ref_mix = (\<lambda>(r1, r2, r3, r4) x y (a, b, c, d).
     let a = a + b + x; d = word_rotr r1 (d XOR a); c = c + d; b = word_rotr r2 (b XOR c);
         a = a + b + y; d = word_rotr r3 (d XOR a); c = c + d; b = word_rotr r4 (b XOR c)
     in (a, b, c, d))"

text \<open>
  The schedule of the RFC, a row a line of hexadecimal digits, each the word of its place; the rounds go through the rows again and again. The
  steps of a round by the rule: columns, then the diagonals of the square of lanes.
\<close>

definition rfc_rows :: "string list" where
  "rfc_rows =
     [''0123456789ABCDEF'', ''EA489FD61C02B753'', ''B8C052FDAE367194'',
      ''7931DCBE265A40F8'', ''905724AFE1BC683D'', ''2C6A0B834D75FE19'',
      ''C51FED4A0763928B'', ''DB7EC13950F4862A'', ''6FE9B308C2D714A5'',
      ''A2847615FB9E3CD0'']"

definition rfc_sigma :: "nat \<Rightarrow> nat \<Rightarrow> nat" where
  "rfc_sigma r k = length (takeWhile (\<lambda>c. c \<noteq> rfc_rows ! (r mod 10) ! k) ''0123456789ABCDEF'')"

definition rfc_step :: "nat \<Rightarrow> nat \<times> nat \<times> nat \<times> nat" where
  "rfc_step n = (let i = n mod 4; s = n div 4 in (i, 4 + (i + s) mod 4, 8 + (i + 2 * s) mod 4, 12 + (i + 3 * s) mod 4))"

definition ref_step :: "('v \<times> 'v \<times> 'v \<times> 'v \<Rightarrow> 'v \<times> 'v \<times> 'v \<times> 'v) \<Rightarrow> nat \<times> nat \<times> nat \<times> nat \<Rightarrow> 'v list \<Rightarrow> 'v list" where
  "ref_step g = (\<lambda>(i, j, k, l) v.
     let (a, b, c, d) = g (v ! i, v ! j, v ! k, v ! l)
     in map (\<lambda>n. if n = i then a else if n = j then b else if n = k then c else if n = l then d else v ! n) [0..<16])"

definition ref_round :: "nat \<times> nat \<times> nat \<times> nat \<Rightarrow> 'w::len word list \<Rightarrow> nat \<Rightarrow> 'w word list \<Rightarrow> 'w word list" where
  "ref_round rot m r v =
     fold (\<lambda>n. ref_step (ref_mix rot (m ! rfc_sigma r (2 * n)) (m ! rfc_sigma r (2 * n + 1))) (rfc_step n)) [0..<8] v"

definition ref_compress :: "nat \<Rightarrow> nat \<times> nat \<times> nat \<times> nat \<Rightarrow> 'w::len word list \<Rightarrow> 'w word list \<Rightarrow> 'w word list \<Rightarrow>
    'w word \<Rightarrow> 'w word \<Rightarrow> bool \<Rightarrow> 'w word list" where
  "ref_compress rounds rot iv h m t0 t1 last_block =
     (let v = h @ iv; v = v[12 := v ! 12 XOR t0, 13 := v ! 13 XOR t1];
          v = (if last_block then v[14 := NOT (v ! 14)] else v);
          v = fold (ref_round rot m) [0..<rounds] v
      in map (\<lambda>i. h ! i XOR v ! i XOR v ! (i + 8)) [0..<8])"

text \<open>The initial values are the first bits of the fractional parts of the square roots of the first eight primes.\<close>

definition frac_sqrt :: "nat \<Rightarrow> nat \<Rightarrow> nat \<Rightarrow> nat \<Rightarrow> bool" where
  "frac_sqrt w p n f \<longleftrightarrow> (n * 2 ^ w + f) ^ 2 \<le> p * 2 ^ (2 * w) \<and> p * 2 ^ (2 * w) < (n * 2 ^ w + f + 1) ^ 2 \<and> f < 2 ^ w"

definition lane_of :: "lohi \<Rightarrow> 64 word" where
  "lane_of p = lane (snd p) (fst p)"

definition lanes_from :: "half list \<Rightarrow> 64 word list" where
  "lanes_from h = map (\<lambda>i. lane_of (lohi_of h i)) [0..<length h div 2]"

subsection \<open>The halves compute the lanes\<close>

lemma lane_arith: "lane h l = ucast h * 2 ^ 32 + ucast l"
proof -
  have "push_bit 32 (ucast h) + ucast l = (push_bit 32 (ucast h) OR ucast l :: 64 word)"
    by (rule disjunctive_add) (auto simp: bit_push_bit_iff bit_ucast_iff dest: bit_imp_le_length)
  then show ?thesis by (simp add: lane_def push_bit_eq_mult)
qed

lemma lane_unat: "lane h l = word_of_nat (unat h * 2 ^ 32 + unat l)"
  by (simp add: lane_arith)

lemma word64_cong: "a mod 2 ^ 64 = b mod 2 ^ 64 \<Longrightarrow> (word_of_nat a :: 64 word) = word_of_nat b" for a b :: nat
  by (simp add: word_of_nat_eq_iff take_bit_eq_mod)

lemma lane_of_nat:
  assumes "l < 2 ^ 32"
  shows "lane (word_of_nat h) (word_of_nat l) = word_of_nat (h * 2 ^ 32 + l)"
proof -
  have "unat (word_of_nat h :: half) = h mod 2 ^ 32" "unat (word_of_nat l :: half) = l"
    using assms by (simp_all add: unat_of_nat)
  then have "lane (word_of_nat h) (word_of_nat l) = word_of_nat (h mod 2 ^ 32 * 2 ^ 32 + l)"
    by (simp only: lane_unat)
  also have "\<dots> = word_of_nat (h * 2 ^ 32 + l)"
  proof (rule word64_cong)
    have "h mod 2 ^ 32 * 2 ^ 32 mod 2 ^ 64 = h * 2 ^ 32 mod (2 ^ 64 :: nat)"
      using mod_mult_mult2 [of h "2 ^ 32" "2 ^ 32"] by simp
    then show "(h mod 2 ^ 32 * 2 ^ 32 + l) mod 2 ^ 64 = (h * 2 ^ 32 + l) mod (2 ^ 64 :: nat)"
      by (rule mod_add_cong) simp
  qed
  finally show ?thesis .
qed

lemma half_nat_mod: "(word_of_nat t :: half) = word_of_nat (t mod 4294967296)"
  by (simp add: word_of_nat_eq_iff take_bit_eq_mod)

lemma lane_carry:
  "lane (word_of_nat (h + t div 4294967296)) (word_of_nat t) = word_of_nat (h * 2 ^ 32 + t)"
proof -
  have "lane (word_of_nat (h + t div 4294967296)) (word_of_nat (t mod 4294967296)) =
      word_of_nat ((h + t div 4294967296) * 2 ^ 32 + t mod 4294967296)"
    by (rule lane_of_nat) simp
  moreover have "(h + t div 4294967296) * 2 ^ 32 + t mod 4294967296 = h * 2 ^ 32 + t"
    using div_mult_mod_eq [of t 4294967296] by (simp add: distrib_right)
  ultimately show ?thesis by (simp only: half_nat_mod [of t])
qed

lemma lane_add3: "lane_of (add3 a b m) = lane_of a + lane_of b + lane_of m"
proof -
  let ?t = "unat (fst a) + unat (fst b) + unat (fst m)" and ?h = "unat (snd a) + unat (snd b) + unat (snd m)"
  have "snd a + snd b + snd m + word_of_nat (?t div 4294967296) = word_of_nat (?h + ?t div 4294967296)" by simp
  then have "lane_of (add3 a b m) = word_of_nat (?h * 2 ^ 32 + ?t)"
    using lane_carry [of ?h ?t] by (simp only: lane_of_def add3_def Let_def fst_conv snd_conv)
  also have "\<dots> = lane_of a + lane_of b + lane_of m"
    by (simp only: lane_of_def lane_unat of_nat_add [symmetric]) (simp only: distrib_right ac_simps)
  finally show ?thesis .
qed

lemma lane_add2: "lane_of (add2 c d) = lane_of c + lane_of d"
proof -
  let ?t = "unat (fst c) + unat (fst d)" and ?h = "unat (snd c) + unat (snd d)"
  have "unat (fst c) < 4294967296" "unat (fst d) < 4294967296"
    using unsigned_less [of "fst c"] unsigned_less [of "fst d"] by simp_all
  then have "?t div 4294967296 = (if 4294967295 < ?t then 1 else 0)" by (auto simp: div_nat_eqI)
  then have "snd c + snd d + (if 4294967295 < ?t then 1 else 0) = word_of_nat (?h + ?t div 4294967296)" by simp
  then have "lane_of (add2 c d) = word_of_nat (?h * 2 ^ 32 + ?t)"
    using lane_carry [of ?h ?t] by (simp only: lane_of_def add2_def Let_def fst_conv snd_conv)
  also have "\<dots> = lane_of c + lane_of d"
    by (simp only: lane_of_def lane_unat of_nat_add [symmetric]) (simp only: distrib_right ac_simps)
  finally show ?thesis .
qed

lemma rotr64: "0 < n \<Longrightarrow> n < 64 \<Longrightarrow> word_rotr n w = word_rotl (64 - n) (w :: 64 word)"
proof (rule bit_word_eqI)
  fix m assume n: "0 < n" "n < 64" and "m < LENGTH(64)"
  then have m: "m < 64" by simp
  have "(m + n) mod 64 = (if 64 - n \<le> m then m - (64 - n) else m + 64 - (64 - n))"
    using n m by (auto simp: mod_if)
  with n m bit_rotl64 [of "64 - n" m w] show "bit (word_rotr n w) m = bit (word_rotl (64 - n) w) m"
    by (simp add: bit_word_rotr_iff)
qed

lemma lane_xor_rot32: "lane_of (xor_rot32 d a) = word_rotr 32 (lane_of d XOR lane_of a)"
proof -
  have "lane_of (xor_rot32 d a) = word_rotl 32 (lane (snd d XOR snd a) (fst d XOR fst a))"
    by (simp add: lane_of_def xor_rot32_def lane_swap [of "fst d XOR fst a"])
  then show ?thesis by (simp add: lane_of_def lane_xor rotr64)
qed

lemma lane_xor_rot:
  assumes "0 < n" "n < 32"
  shows "lane_of (xor_rot n b c) = word_rotr n (lane_of b XOR lane_of c)"
proof -
  let ?t = "fst b XOR fst c" and ?u = "snd b XOR snd c"
  have n: "0 < 32 - n" "32 - n < 32" "32 - (32 - n) = n" "32 - n + 32 = 64 - n" using assms by simp_all
  have "lane_of (xor_rot n b c) = lane (push_bit (32 - n) ?t OR drop_bit n ?u) (push_bit (32 - n) ?u OR drop_bit n ?t)"
    by (simp add: lane_of_def xor_rot_def Let_def or.commute)
  also have "\<dots> = word_rotl (32 - n) (lane ?t ?u)"
    using lane_rotl [OF n(1,2), of ?t ?u] n(3) by simp
  also have "\<dots> = word_rotl (64 - n) (lane ?u ?t)"
    unfolding lane_swap [of ?t ?u] using rotl_rotl64 [OF n(2)] n(4) by simp
  finally show ?thesis using assms by (simp add: lane_of_def lane_xor rotr64)
qed

lemma lane_xor_rot63: "lane_of (xor_rot63 b c) = word_rotr 63 (lane_of b XOR lane_of c)"
proof -
  have "lane_of (xor_rot63 b c) = word_rotl 1 (lane (snd b XOR snd c) (fst b XOR fst c))"
    unfolding lane_of_def xor_rot63_def Let_def fst_conv snd_conv by (rule lane_rotl1)
  then show ?thesis by (simp add: lane_of_def lane_xor rotr64)
qed

lemma rotr32: "0 < n \<Longrightarrow> n < 32 \<Longrightarrow> drop_bit n w OR push_bit (32 - n) w = word_rotr n (w :: half)"
proof (rule bit_word_eqI)
  fix m assume n: "0 < n" "n < 32" and "m < LENGTH(32)"
  then have m: "m < 32" by simp
  have "(m + n) mod 32 = (if m + n < 32 then m + n else m + n - 32)" using n m by (auto simp: mod_if)
  moreover have "\<not> bit w (n + m)" if "\<not> m + n < 32" using that bit_imp_le_length [of w "n + m"] by auto
  ultimately show "bit (drop_bit n w OR push_bit (32 - n) w) m = bit (word_rotr n w) m"
    using n m by (auto simp: bit_or_iff bit_drop_bit_eq bit_push_bit_iff bit_word_rotr_iff add.commute)
qed

subsection \<open>Steps and rounds\<close>

text \<open>The round of the reference with the table of the code.\<close>

definition table_round :: "nat \<times> nat \<times> nat \<times> nat \<Rightarrow> 'w::len word list \<Rightarrow> nat \<Rightarrow> 'w word list \<Rightarrow> 'w word list" where
  "table_round rot m r v =
     (let s = drop (r mod 10 * 16) BLAKE_SIGMA
      in fold (\<lambda>n. step_lanes (ref_mix rot (m ! (s ! (2 * n))) (m ! (s ! (2 * n + 1)))) (STEPS ! n)) [0..<8] v)"

definition map4 :: "('a \<Rightarrow> 'b) \<Rightarrow> 'a \<times> 'a \<times> 'a \<times> 'a \<Rightarrow> 'b \<times> 'b \<times> 'b \<times> 'b" where
  "map4 f = (\<lambda>(a, b, c, d). (f a, f b, f c, f d))"

lemma mixB_lanes:
  assumes "2 * x + 1 < length mb" "2 * y + 1 < length mb"
  shows "map4 lane_of (mixB mb x y q) = ref_mix (32, 24, 16, 63) (lanes_from mb ! x) (lanes_from mb ! y) (map4 lane_of q)"
proof -
  have w: "lanes_from mb ! z = lane_of (mb ! (2 * z), mb ! (2 * z + 1))" if "2 * z + 1 < length mb" for z
  proof -
    have "z < length mb div 2" using that by linarith
    then show ?thesis by (simp add: lanes_from_def lohi_of_def)
  qed
  show ?thesis
    by (cases q) (simp add: map4_def mixB_def ref_mix_def Let_def w [OF assms(1)] w [OF assms(2)]
      lane_add3 lane_add2 lane_xor_rot32 lane_xor_rot lane_xor_rot63)
qed

lemma xor_rotS_rotr: "0 < n \<Longrightarrow> n < 32 \<Longrightarrow> xor_rotS n d a = word_rotr n (d XOR a)"
  unfolding xor_rotS_def Let_def by (rule rotr32)

lemma mixS_ref: "mixS ms x y q = ref_mix (16, 12, 8, 7) (ms ! x) (ms ! y) q"
  by (cases q) (simp add: mixS_def ref_mix_def Let_def xor_rotS_rotr)

lemma step_lanes_map:
  assumes "map4 f (g q) = g' (map4 f q)"
    and "q = (v ! i, v ! j, v ! k, v ! l)" "i < length v" "j < length v" "k < length v" "l < length v"
  shows "map f (step_lanes g (i, j, k, l) v) = step_lanes g' (i, j, k, l) (map f v)"
proof -
  obtain a b c d where g: "g q = (a, b, c, d)" by (cases "g q")
  then have "g' (map4 f q) = (f a, f b, f c, f d)" using assms(1) by (simp add: map4_def)
  with g assms(2-6) show ?thesis by (simp add: step_lanes_def map_update map4_def)
qed

lemma length_step_lanes [simp]: "length (step_lanes g s v) = length v"
  by (cases s) (simp add: step_lanes_def split: prod.split)

lemma length_fold_steps [simp]: "length (fold (\<lambda>n. step_lanes (g n) (s n)) ns v) = length v"
  by (induction ns arbitrary: v) simp_all

lemma sigma_small: "r mod 10 * 16 + k < 160 \<Longrightarrow> BLAKE_SIGMA ! (r mod 10 * 16 + k) < 16"
proof -
  have "list_all (\<lambda>x. x < 16) BLAKE_SIGMA" by (simp add: BLAKE_SIGMA_def)
  then show "r mod 10 * 16 + k < 160 \<Longrightarrow> BLAKE_SIGMA ! (r mod 10 * 16 + k) < 16"
    by (simp add: list_all_length BLAKE_SIGMA_def del: nth_Cons_numeral)
qed

lemma STEPS_nth:
  assumes "n < 8"
  obtains i j k l where "STEPS ! n = (i, j, k, l)" "i < 16" "j < 16" "k < 16" "l < 16"
proof -
  have "list_all (\<lambda>(i, j, k, l). i < 16 \<and> j < 16 \<and> k < 16 \<and> l < (16 :: nat)) STEPS" "length STEPS = 8"
    by (simp_all add: STEPS_def)
  then have "case STEPS ! n of (i, j, k, l) \<Rightarrow> i < 16 \<and> j < 16 \<and> k < 16 \<and> l < (16 :: nat)"
    using assms by (simp add: list_all_length)
  then show ?thesis using that by (cases "STEPS ! n") simp
qed

lemma sigma_drop: "k < 16 \<Longrightarrow> drop (r mod 10 * 16) BLAKE_SIGMA ! k = BLAKE_SIGMA ! (r mod 10 * 16 + k) \<and>
    BLAKE_SIGMA ! (r mod 10 * 16 + k) < 16"
proof -
  assume k: "k < 16"
  have "r mod 10 \<le> 9" using mod_less_divisor [of 10 r] by simp
  then have "r mod 10 * 16 + k < 160" using k by linarith
  moreover have "length BLAKE_SIGMA = 160" by (simp add: BLAKE_SIGMA_def)
  ultimately show ?thesis using sigma_small [of r k] by simp
qed

lemma fold_map_steps:
  assumes "\<And>n v. n \<in> set ns \<Longrightarrow> length v = len \<Longrightarrow> map f (p n v) = p' n (map f v)" "\<And>n v. length (p n v) = length v"
  shows "length v = len \<Longrightarrow> map f (fold p ns v) = fold p' ns (map f v)"
  using assms(1)
proof (induction ns arbitrary: v)
  case (Cons n ns)
  then show ?case using assms(2) [of n v] by simp
qed simp

lemma roundB_lanes:
  assumes "length mb = 32" "length v = 16"
  shows "map lane_of (roundB mb r v) = table_round (32, 24, 16, 63) (lanes_from mb) r (map lane_of v)"
  unfolding roundB_def table_round_def Let_def
proof (rule fold_map_steps [OF _ _ assms(2)])
  fix n and u :: "lohi list" assume "n \<in> set [0..<8]" and u: "length u = 16"
  then have n: "n < 8" "2 * n < 16" "2 * n + 1 < 16" by simp_all
  obtain i j k l where st: "STEPS ! n = (i, j, k, l)" "i < 16" "j < 16" "k < 16" "l < 16" using STEPS_nth [OF n(1)] .
  note s = sigma_drop [OF n(2), of r] sigma_drop [OF n(3), of r]
  show "map lane_of (step_lanes (mixB mb (BLAKE_SIGMA ! (r mod 10 * 16 + 2 * n)) (BLAKE_SIGMA ! (r mod 10 * 16 + 2 * n + 1))) (STEPS ! n) u) =
      step_lanes (ref_mix (32, 24, 16, 63) (lanes_from mb ! (drop (r mod 10 * 16) BLAKE_SIGMA ! (2 * n)))
        (lanes_from mb ! (drop (r mod 10 * 16) BLAKE_SIGMA ! (2 * n + 1)))) (STEPS ! n) (map lane_of u)"
    unfolding st(1) using s st u assms(1)
    by (intro step_lanes_map [OF _ refl]) (simp_all add: mixB_lanes add.assoc)
qed simp

lemma roundS_ref: "r < 10 \<Longrightarrow> roundS ms r v = table_round (16, 12, 8, 7) ms r v"
proof -
  assume r: "r < 10"
  have "fold (\<lambda>n. step_lanes (mixS ms (BLAKE_SIGMA ! (r * 16 + 2 * n)) (BLAKE_SIGMA ! (r * 16 + 2 * n + 1))) (STEPS ! n)) [0..<8] v =
      fold (\<lambda>n. step_lanes (ref_mix (16, 12, 8, 7) (ms ! (drop (r mod 10 * 16) BLAKE_SIGMA ! (2 * n)))
        (ms ! (drop (r mod 10 * 16) BLAKE_SIGMA ! (2 * n + 1)))) (STEPS ! n)) [0..<8] v"
  proof (rule fold_cong [OF refl refl])
    fix n assume "n \<in> set [0..<8]"
    then have n: "2 * n < 16" "2 * n + 1 < 16" by simp_all
    have "mixS ms x y = ref_mix (16, 12, 8, 7) (ms ! x) (ms ! y)" for x y by (rule ext) (rule mixS_ref)
    then show "step_lanes (mixS ms (BLAKE_SIGMA ! (r * 16 + 2 * n)) (BLAKE_SIGMA ! (r * 16 + 2 * n + 1))) (STEPS ! n) =
        step_lanes (ref_mix (16, 12, 8, 7) (ms ! (drop (r mod 10 * 16) BLAKE_SIGMA ! (2 * n)))
          (ms ! (drop (r mod 10 * 16) BLAKE_SIGMA ! (2 * n + 1)))) (STEPS ! n)"
      using sigma_drop [OF n(1), of r] sigma_drop [OF n(2), of r] r by (simp add: add.assoc)
  qed
  then show ?thesis by (simp add: roundS_def table_round_def Let_def)
qed

lemma length_rounds [simp]: "length (roundB mb r v) = length v" "length (table_round rot m r w) = length w"
  by (simp_all add: roundB_def table_round_def Let_def)

definition wordsB :: "byte list \<Rightarrow> nat \<Rightarrow> 64 word list" where
  "wordsB block offset = map (\<lambda>i. word_of_bytes (take 8 (drop (offset + 8 * i) block))) [0..<16]"

lemma load_words_lanes:
  assumes "offset + 128 \<le> length block"
  shows "lanes_from (load_words 32 block offset) = wordsB block offset"
proof (rule nth_equalityI)
  fix i assume "i < length (lanes_from (load_words 32 block offset))"
  then have i: "i < 16" by (simp add: lanes_from_def load_words_def)
  then have p: "offset + 8 * i + 8 \<le> length block" using assms by linarith
  from i show "lanes_from (load_words 32 block offset) ! i = wordsB block offset ! i"
    using lane_le32 [OF p] by (simp add: lanes_from_def load_words_def wordsB_def lohi_of_def lane_of_def algebra_simps)
qed (simp add: lanes_from_def load_words_def wordsB_def)

lemma length_initB [simp]: "length (initB h tLo tHi b) = 16"
  by (simp add: initB_def Let_def)

lemma initB_lanes:
  assumes "length h = 16"
  shows "map lane_of (initB h tLo tHi b) =
    (let v = (lanes_from h @ lanes_from IV_B)[12 := (lanes_from h @ lanes_from IV_B) ! 12 XOR lane tHi tLo,
         13 := (lanes_from h @ lanes_from IV_B) ! 13 XOR 0]
     in if b then v[14 := NOT (v ! 14)] else v)"
proof -
  let ?v = "map (lohi_of h) [0..<8] @ map (lohi_of IV_B) [0..<8]"
  have l: "length IV_B = 16" by (simp add: IV_B_def)
  have v: "map lane_of ?v = lanes_from h @ lanes_from IV_B" using assms l by (simp add: lanes_from_def)
  have lv: "length ?v = 16" by simp
  have n: "lane_of (?v ! k) = (lanes_from h @ lanes_from IV_B) ! k" if "k < 16" for k
    unfolding v [symmetric] using nth_map [of k ?v lane_of] that lv by simp
  have "lane_of (fst (?v ! 12) XOR tLo, snd (?v ! 12) XOR tHi) = (lanes_from h @ lanes_from IV_B) ! 12 XOR lane tHi tLo"
    using n [of 12] by (simp add: lane_of_def lane_xor)
  moreover have "(lanes_from h @ lanes_from IV_B)[13 := (lanes_from h @ lanes_from IV_B) ! 13] = lanes_from h @ lanes_from IV_B"
    by simp
  moreover have "lane_of (NOT (fst (?v ! 14)), NOT (snd (?v ! 14))) = NOT ((lanes_from h @ lanes_from IV_B) ! 14)"
    using n [of 14] by (simp add: lane_of_def lane_not)
  ultimately show ?thesis
    unfolding initB_def Let_def
    by (cases b) (simp_all add: map_update v list_update_swap [of 12 13] del: map_append upt_rec_numeral)
qed

lemma feedB_lanes:
  assumes "length h = 16" "length v = 16"
  shows "lanes_from (feedB h v) = map (\<lambda>i. lanes_from h ! i XOR map lane_of v ! i XOR map lane_of v ! (i + 8)) [0..<8]"
proof (rule nth_equalityI)
  show "length (lanes_from (feedB h v)) = length (map (\<lambda>i. lanes_from h ! i XOR map lane_of v ! i XOR map lane_of v ! (i + 8)) [0..<8])"
    by (simp add: lanes_from_def feedB_def)
  fix i assume "i < length (lanes_from (feedB h v))"
  then have i: "i < 8" by (simp add: lanes_from_def feedB_def)
  have f: "feedB h v ! k = h ! k XOR (if even k then fst (v ! (k div 2)) XOR fst (v ! (k div 2 + 8))
       else snd (v ! (k div 2)) XOR snd (v ! (k div 2 + 8)))" if "k < 16" for k
    using that unfolding feedB_def by (subst nth_map) simp_all
  have "lanes_from (feedB h v) ! i = lane (feedB h v ! (2 * i + 1)) (feedB h v ! (2 * i))"
    using i by (simp add: lanes_from_def lohi_of_def lane_of_def feedB_def)
  also have "\<dots> = lanes_from h ! i XOR map lane_of v ! i XOR map lane_of v ! (i + 8)"
    using i assms f [of "2 * i"] f [of "2 * i + 1"] by (simp add: lane_xor lane_of_def lanes_from_def lohi_of_def xor.assoc)
  finally show "lanes_from (feedB h v) ! i = map (\<lambda>i. lanes_from h ! i XOR map lane_of v ! i XOR map lane_of v ! (i + 8)) [0..<8] ! i"
    using i by simp
qed

lemma rounds_lanes:
  "length mb = 32 \<Longrightarrow> length v = 16 \<Longrightarrow>
   map lane_of (fold (roundB mb) rs v) = fold (table_round (32, 24, 16, 63) (lanes_from mb)) rs (map lane_of v) \<and>
   length (fold (roundB mb) rs v) = 16"
  by (induction rs arbitrary: v) (simp_all add: roundB_lanes)

text \<open>The table of the code is that of the RFC.\<close>

lemma steps_rfc: "STEPS = map rfc_step [0..<8]"
  by code_simp

lemma sigma_rfc: "list_all (\<lambda>r. take 16 (drop (r * 16) BLAKE_SIGMA) = map (rfc_sigma r) [0..<16]) [0..<10]"
  by (simp add: BLAKE_SIGMA_def rfc_sigma_def rfc_rows_def upt_rec)

lemma sigma_rfc_nth: "k < 16 \<Longrightarrow> drop (r mod 10 * 16) BLAKE_SIGMA ! k = rfc_sigma r k"
proof -
  assume k: "k < 16"
  note sigma_rfc
  then have "take 16 (drop (r mod 10 * 16) BLAKE_SIGMA) = map (rfc_sigma (r mod 10)) [0..<16]" by (simp add: list_all_iff del: upt_rec_numeral)
  then have "take 16 (drop (r mod 10 * 16) BLAKE_SIGMA) ! k = map (rfc_sigma (r mod 10)) [0..<16] ! k" by (rule arg_cong)
  then show ?thesis using k by (simp add: rfc_sigma_def del: upt_rec_numeral)
qed

lemma step_rfc:
  assumes "n < 8" and "length v = 16"
  shows "ref_step g (rfc_step n) v = step_lanes g (STEPS ! n) v"
proof -
  have "list_all (\<lambda>(i, j, k, l). distinct [i, j, k, l] \<and> list_all (\<lambda>x. x < 16) [i, j, k, l]) STEPS" by code_simp
  moreover have st: "STEPS ! n = rfc_step n" using assms(1) by (simp add: steps_rfc del: upt_rec_numeral)
  moreover have "length STEPS = 8" by (simp add: STEPS_def)
  ultimately have ok: "(\<lambda>(i, j, k, l). distinct [i, j, k, l] \<and> list_all (\<lambda>x. x < 16) [i, j, k, l]) (rfc_step n)"
    using assms(1) by (metis (no_types, lifting) list_all_length)
  obtain i j k l where ijkl: "rfc_step n = (i, j, k, l)" by (cases "rfc_step n")
  obtain a b c d where g: "g (v ! i, v ! j, v ! k, v ! l) = (a, b, c, d)" by (cases "g (v ! i, v ! j, v ! k, v ! l)")
  have "ref_step g (i, j, k, l) v = step_lanes g (i, j, k, l) v"
    using ok assms(2) unfolding ijkl
    by (intro nth_equalityI) (auto simp: ref_step_def step_lanes_def g nth_list_update)
  then show ?thesis unfolding st ijkl .
qed

lemma round_rfc: "length v = 16 \<Longrightarrow> ref_round rot m r v = table_round rot m r v"
proof -
  assume v: "length v = 16"
  have "fold (\<lambda>n. ref_step (ref_mix rot (m ! rfc_sigma r (2 * n)) (m ! rfc_sigma r (2 * n + 1))) (rfc_step n)) ns u =
      fold (\<lambda>n. step_lanes (ref_mix rot (m ! (drop (r mod 10 * 16) BLAKE_SIGMA ! (2 * n))) (m ! (drop (r mod 10 * 16) BLAKE_SIGMA ! (2 * n + 1)))) (STEPS ! n)) ns u"
    if "\<forall>n \<in> set ns. n < 8" "length u = 16" for ns u
    using that
  proof (induction ns arbitrary: u)
    case (Cons n ns)
    have "2 * n < 16" "Suc (2 * n) < 16" using Cons.prems(1) by simp_all
    note s = sigma_rfc_nth [OF this(1), of r] sigma_rfc_nth [OF this(2), of r]
    show ?case using Cons step_rfc [of n u] by (simp add: s)
  qed simp
  from this [of "[0..<8]" v] v show ?thesis unfolding ref_round_def table_round_def Let_def by simp
qed

lemma rounds_rfc: "length v = 16 \<Longrightarrow> fold (table_round rot m) rs v = fold (ref_round rot m) rs v"
  by (induction rs arbitrary: v) (simp_all add: round_rfc)

lemma compressB_lanes:
  assumes "length h = 16" "offset + 128 \<le> length block"
  shows "lanes_from (compressB h block offset tLo tHi b) =
    ref_compress 12 (32, 24, 16, 63) (lanes_from IV_B) (lanes_from h) (wordsB block offset) (lane tHi tLo) 0 b"
proof -
  let ?mb = "load_words 32 block offset"
  have mb: "length ?mb = 32" by (simp add: load_words_def)
  have "length (map lane_of (initB h tLo tHi b)) = 16" by simp
  note r = rounds_lanes [OF mb length_initB, of "[0..<12]" h tLo tHi b, unfolded rounds_rfc [OF this]]
  show ?thesis
    unfolding compressB_def Let_def feedB_lanes [OF assms(1) conjunct2 [OF r]] conjunct1 [OF r]
      load_words_lanes [OF assms(2)] initB_lanes [OF assms(1)] ref_compress_def ..
qed

lemma compressS_ref:
  assumes "length h = 8"
  shows "compressS h block offset tLo tHi b =
    ref_compress 10 (16, 12, 8, 7) IV_S h (load_words 16 block offset) tLo tHi b"
proof -
  have h: "map (\<lambda>i. h ! i) [0..<8] = h" using assms map_nth [of h] by simp
  have "fold (roundS ms) rs v = fold (table_round (16, 12, 8, 7) ms) rs v" if "\<forall>r \<in> set rs. r < 10" for ms rs v
    using that by (induction rs arbitrary: v) (simp_all add: roundS_ref)
  then have "fold (roundS ms) rs v = fold (ref_round (16, 12, 8, 7) ms) rs v" if "\<forall>r \<in> set rs. r < 10" "length v = 16" for ms rs v
    using that rounds_rfc by metis
  note rounds = this [of "[0..<10]"]
  have "length IV_S = 8" by (simp add: IV_S_def)
  with rounds assms show ?thesis
    by (simp add: compressS_def ref_compress_def initS_def feedS_def h Let_def xor.assoc del: upt_rec_numeral)
qed

lemma IV_B_lanes:
  "lanes_from IV_B =
     [0x6a09e667f3bcc908, 0xbb67ae8584caa73b, 0x3c6ef372fe94f82b, 0xa54ff53a5f1d36f1,
      0x510e527fade682d1, 0x9b05688c2b3e6c1f, 0x1f83d9abfb41bd6b, 0x5be0cd19137e2179]"
  by (simp add: lanes_from_def lohi_of_def lane_of_def IV_B_def upt_rec lane_arith)

lemma IV_B_roots:
  "list_all2 (\<lambda>(p, n) w. frac_sqrt 64 p n (unat w))
     [(2, 1), (3, 1), (5, 2), (7, 2), (11, 3), (13, 3), (17, 4), (19, 4)] (lanes_from IV_B)"
  unfolding IV_B_lanes by (simp add: frac_sqrt_def)

lemma IV_S_high: "IV_S = map (\<lambda>w. ucast (drop_bit 32 w)) (lanes_from IV_B)"
  unfolding IV_B_lanes by (simp add: IV_S_def)



end
