(* ===== verification/Blake2.thy ===== *)
theory Blake2
  imports Blake2Compress
begin

unbundle bit_operations_syntax

text \<open>
  \<open>node-blake2.js\<close>, from the class \<open>Blake2\<close> on: incremental hashing, HMAC, PBKDF2 and HKDF. The compression is an
  argument, as the code takes the native one where the host has it; what the rest needs of it is the locale
  \<open>block_compression\<close>, interpreted on the two functions of \<open>Blake2Compress\<close>. A recursion over the blocks of a
  derived key has the length of the key as fuel: every block gives at least one byte.
\<close>

subsection \<open>Incremental hashing\<close>

text \<open>The compression of a block, \<open>compressBlockB\<close> and \<open>compressBlockS\<close> in one: the first argument selects BLAKE2b.\<close>

type_synonym compression = "bool \<Rightarrow> half list \<Rightarrow> byte list \<Rightarrow> nat \<Rightarrow> half \<Rightarrow> half \<Rightarrow> bool \<Rightarrow> half list"

definition compressJs :: compression where
  "compressJs wide = (if wide then compressB else compressS)"

record blake2 =
  wide :: bool
  outlen :: nat
  hs :: "half list"
  buf :: "byte list"
  filled :: nat
  count :: nat

definition blockSize :: "bool \<Rightarrow> nat" where
  "blockSize w = (if w then 128 else 64)"

definition initial_hash :: "bool \<Rightarrow> nat \<Rightarrow> half list" where
  "initial_hash w out = (let h = (if w then IV_B else IV_S) in h[0 := h ! 0 XOR (0x01010000 XOR word_of_nat out)])"

definition newBlake2 :: "bool \<Rightarrow> nat \<Rightarrow> blake2" where
  "newBlake2 w out =
     \<lparr>wide = w, outlen = out, hs = initial_hash w out, buf = replicate (blockSize w) 0, filled = 0, count = 0\<rparr>"

text \<open>\<open>this.count\<close> is a Number, exact below 2^53; its two words go to the compression.\<close>

definition compress_block :: "compression \<Rightarrow> byte list \<Rightarrow> nat \<Rightarrow> bool \<Rightarrow> blake2 \<Rightarrow> blake2" where
  "compress_block cf block offset b s =
     s\<lparr>hs := cf (wide s) (hs s) block offset (word_of_nat (count s mod 4294967296)) (word_of_nat (count s div 4294967296)) b\<rparr>"

text \<open>\<open>array.set(xs, pos)\<close> where \<open>xs\<close> fits.\<close>

definition set_at :: "'a list \<Rightarrow> nat \<Rightarrow> 'a list \<Rightarrow> 'a list" where
  "set_at array pos xs = take pos array @ xs @ drop (pos + length xs) array"

function update_blocks :: "compression \<Rightarrow> byte list \<Rightarrow> nat \<Rightarrow> blake2 \<Rightarrow> blake2" where
  "update_blocks cf xs i s =
     (let size = blockSize (wide s)
      in if size < length xs - i
         then update_blocks cf xs (i + size) (compress_block cf xs i False (s\<lparr>count := count s + size\<rparr>))
         else s\<lparr>buf := set_at (buf s) 0 (drop i xs), filled := length xs - i\<rparr>)"
  by pat_completeness auto
termination by (relation "measure (\<lambda>(cf, xs, i, s). length xs - i)") (auto simp: blockSize_def)

declare update_blocks.simps [simp del]

definition blake2_update :: "compression \<Rightarrow> byte list \<Rightarrow> blake2 \<Rightarrow> blake2" where
  "blake2_update cf xs s =
     (let size = blockSize (wide s)
      in if 0 < filled s then
           let fill = size - filled s
           in if length xs \<le> fill then s\<lparr>buf := set_at (buf s) (filled s) xs, filled := filled s + length xs\<rparr>
              else let s = s\<lparr>buf := set_at (buf s) (filled s) (take fill xs), count := count s + size\<rparr>;
                       s = (compress_block cf (buf s) 0 False s)\<lparr>filled := 0\<rparr>
                   in update_blocks cf xs fill s
         else update_blocks cf xs 0 s)"

definition blake2_digest :: "compression \<Rightarrow> blake2 \<Rightarrow> byte list \<times> blake2" where
  "blake2_digest cf s =
     (let s = s\<lparr>count := count s + filled s\<rparr>;
          s = s\<lparr>buf := take (filled s) (buf s) @ replicate (length (buf s) - filled s) 0\<rparr>;
          s = compress_block cf (buf s) 0 True s
      in (map (\<lambda>i. ucast (drop_bit (i mod 4 * 8) (at0 (hs s) (i div 4)))) [0..<outlen s], s))"

definition blake2_copy :: "blake2 \<Rightarrow> blake2" where
  "blake2_copy s =
     (newBlake2 (wide s) (outlen s))\<lparr>hs := hs s, buf := buf s, filled := filled s, count := count s\<rparr>"

subsection \<open>HMAC, PBKDF2 and HKDF\<close>

datatype algorithm = Blake2b512 | Blake2s256

fun SPECS :: "algorithm \<Rightarrow> bool \<times> nat" where
  "SPECS Blake2b512 = (True, 64)"
| "SPECS Blake2s256 = (False, 32)"

definition new_hash :: "algorithm \<Rightarrow> blake2" where
  "new_hash alg = newBlake2 (fst (SPECS alg)) (snd (SPECS alg))"

record hmac =
  mac_size :: nat
  inner :: blake2
  outer :: blake2
  keyed :: blake2

definition xor_pad :: "byte \<Rightarrow> nat \<Rightarrow> byte list \<Rightarrow> byte list" where
  "xor_pad c block k = map (\<lambda>i. if i < length k then c XOR k ! i else c) [0..<block]"

text \<open>\<open>hmacWithKey\<close>; the keyed inner state is kept as a copy.\<close>

definition hmacWithKey :: "compression \<Rightarrow> algorithm \<Rightarrow> byte list \<Rightarrow> hmac" where
  "hmacWithKey cf alg key =
     (let block = (if fst (SPECS alg) then 128 else 64);
          k = (if block < length key then fst (blake2_digest cf (blake2_update cf key (new_hash alg))) else key);
          i = blake2_update cf (xor_pad 0x36 block k) (new_hash alg);
          o' = blake2_update cf (xor_pad 0x5c block k) (new_hash alg)
      in \<lparr>mac_size = snd (SPECS alg), inner = i, outer = o', keyed = blake2_copy i\<rparr>)"

definition hmac_update :: "compression \<Rightarrow> byte list \<Rightarrow> hmac \<Rightarrow> hmac" where
  "hmac_update cf xs mac = mac\<lparr>inner := blake2_update cf xs (inner mac)\<rparr>"

definition hmac_digest :: "compression \<Rightarrow> hmac \<Rightarrow> byte list" where
  "hmac_digest cf mac =
     fst (blake2_digest cf (blake2_update cf (fst (blake2_digest cf (inner mac))) (blake2_copy (outer mac))))"

definition hmac_fresh :: "hmac \<Rightarrow> hmac" where
  "hmac_fresh mac = mac\<lparr>inner := blake2_copy (keyed mac)\<rparr>"

definition xor_bytes :: "byte list \<Rightarrow> byte list \<Rightarrow> byte list" where
  "xor_bytes t u = map2 (XOR) t u"

text \<open>The further iterations of a block: \<open>u\<close> is hashed again and added to \<open>t\<close>.\<close>

fun pbkdf2_rounds :: "compression \<Rightarrow> hmac \<Rightarrow> nat \<Rightarrow> byte list \<Rightarrow> byte list \<Rightarrow> byte list" where
  "pbkdf2_rounds cf base 0 u t = t"
| "pbkdf2_rounds cf base (Suc n) u t =
     (let u = hmac_digest cf (hmac_update cf u (hmac_fresh base)) in pbkdf2_rounds cf base n u (xor_bytes t u))"

definition pbkdf2_block :: "compression \<Rightarrow> hmac \<Rightarrow> byte list \<Rightarrow> nat \<Rightarrow> nat \<Rightarrow> byte list" where
  "pbkdf2_block cf base salt iterations block =
     (let u = hmac_digest cf (hmac_update cf (be_bytes 4 block) (hmac_update cf salt (hmac_fresh base)))
      in pbkdf2_rounds cf base (iterations - 1) u u)"

text \<open>\<open>n\<close> bytes of the key are still to come; the block size is that of the hash, 32 or 64.\<close>

fun pbkdf2_loop :: "compression \<Rightarrow> hmac \<Rightarrow> byte list \<Rightarrow> nat \<Rightarrow> nat \<Rightarrow> nat \<Rightarrow> nat \<Rightarrow> byte list" where
  "pbkdf2_loop cf base salt iterations 0 block n = []"
| "pbkdf2_loop cf base salt iterations (Suc fuel) block n =
     (if n = 0 then []
      else take (min (mac_size base) n) (pbkdf2_block cf base salt iterations block) @
        pbkdf2_loop cf base salt iterations fuel (block + 1) (n - mac_size base))"

definition blake2Pbkdf2 :: "compression \<Rightarrow> algorithm \<Rightarrow> byte list \<Rightarrow> byte list \<Rightarrow> nat \<Rightarrow> nat \<Rightarrow> byte list" where
  "blake2Pbkdf2 cf alg password salt iterations keylen =
     pbkdf2_loop cf (hmacWithKey cf alg password) salt iterations keylen 1 keylen"

fun hkdf_loop :: "compression \<Rightarrow> hmac \<Rightarrow> byte list \<Rightarrow> nat \<Rightarrow> nat \<Rightarrow> byte list \<Rightarrow> nat \<Rightarrow> byte list" where
  "hkdf_loop cf expand info 0 i previous n = []"
| "hkdf_loop cf expand info (Suc fuel) i previous n =
     (if n = 0 then []
      else let previous = hmac_digest cf (hmac_update cf [word_of_nat i] (hmac_update cf info
             (hmac_update cf previous (hmac_fresh expand))))
           in take (min (mac_size expand) n) previous @ hkdf_loop cf expand info fuel (i + 1) previous (n - mac_size expand))"

definition blake2Hkdf ::
  "compression \<Rightarrow> algorithm \<Rightarrow> byte list \<Rightarrow> byte list \<Rightarrow> byte list \<Rightarrow> nat \<Rightarrow> string + byte list" where
  "blake2Hkdf cf alg ikm salt info keylen =
     (if keylen = 0 then Inl ''HKDF derivation failed''
      else if 255 * snd (SPECS alg) < keylen then Inl ''ERR_CRYPTO_INVALID_KEYLEN''
      else let prk = hmac_digest cf (hmac_update cf ikm (hmacWithKey cf alg salt))
           in Inr (hkdf_loop cf (hmacWithKey cf alg prk) info keylen 1 [] keylen))"

subsection \<open>The reference\<close>

text \<open>RFC 7693, section 3.3, without a key: all blocks but the last with the bytes so far, the last one, padded with
  zeros, with the length of the message and the flag.\<close>

definition ref_chain :: "compression \<Rightarrow> bool \<Rightarrow> nat \<Rightarrow> byte list \<Rightarrow> nat \<Rightarrow> half list" where
  "ref_chain cf w out d k =
     fold (\<lambda>i h. cf w h (take (blockSize w) (drop (i * blockSize w) d)) 0
         (word_of_nat ((i + 1) * blockSize w mod 4294967296)) (word_of_nat ((i + 1) * blockSize w div 4294967296)) False)
       [0..<k] (initial_hash w out)"

definition full_blocks :: "bool \<Rightarrow> byte list \<Rightarrow> nat" where
  "full_blocks w d = (length d - 1) div blockSize w"

definition ref_hash :: "compression \<Rightarrow> bool \<Rightarrow> nat \<Rightarrow> byte list \<Rightarrow> byte list" where
  "ref_hash cf w out d =
     (let k = full_blocks w d; tail = drop (k * blockSize w) d;
          h = cf w (ref_chain cf w out d k) (tail @ replicate (blockSize w - length tail) 0) 0
            (word_of_nat (length d mod 4294967296)) (word_of_nat (length d div 4294967296)) True
      in map (\<lambda>i. ucast (drop_bit (i mod 4 * 8) (at0 h (i div 4)))) [0..<out])"

definition ref_hmac :: "compression \<Rightarrow> algorithm \<Rightarrow> byte list \<Rightarrow> byte list \<Rightarrow> byte list" where
  "ref_hmac cf alg key d =
     (let w = fst (SPECS alg); hash = ref_hash cf w (snd (SPECS alg)); block = blockSize w;
          k = (if block < length key then hash key else key); k = k @ replicate (block - length k) 0
      in hash (map ((XOR) 0x5c) k @ hash (map ((XOR) 0x36) k @ d)))"

fun ref_hkdf :: "(byte list \<Rightarrow> byte list) \<Rightarrow> byte list \<Rightarrow> nat \<Rightarrow> byte list" where
  "ref_hkdf mac_of info 0 = []"
| "ref_hkdf mac_of info (Suc i) = mac_of (ref_hkdf mac_of info i @ info @ [word_of_nat (Suc i)])"

fun ref_pbkdf2 :: "(byte list \<Rightarrow> byte list) \<Rightarrow> byte list \<Rightarrow> nat \<Rightarrow> byte list" where
  "ref_pbkdf2 mac_of u 0 = u"
| "ref_pbkdf2 mac_of u (Suc c) = xor_bytes u (ref_pbkdf2 mac_of (mac_of u) c)"

subsection \<open>Incremental hashing is hashing\<close>

text \<open>A compression looks at one block.\<close>

locale block_compression =
  fixes cf :: compression
  assumes window: "offset + blockSize w \<le> length block \<Longrightarrow>
    cf w h block offset lo_count hi_count b = cf w h (take (blockSize w) (drop offset block)) 0 lo_count hi_count b"
begin

text \<open>The state after the bytes \<open>d\<close>: the last block is always held back.\<close>

definition absorbed :: "bool \<Rightarrow> nat \<Rightarrow> byte list \<Rightarrow> blake2 \<Rightarrow> bool" where
  "absorbed w out d s \<longleftrightarrow> (let k = full_blocks w d in
     wide s = w \<and> outlen s = out \<and> length (buf s) = blockSize w \<and> count s = k * blockSize w \<and>
     filled s = length d - k * blockSize w \<and> take (filled s) (buf s) = drop (k * blockSize w) d \<and>
     hs s = ref_chain cf w out d k)"

end

lemma blockSize_pos [simp]: "0 < blockSize w"
  by (simp add: blockSize_def)

lemma set_at_facts:
  assumes "pos + length xs \<le> length array"
  shows "length (set_at array pos xs) = length array" "take (pos + length xs) (set_at array pos xs) = take pos array @ xs"
  using assms by (simp_all add: set_at_def)

lemma full_blocks_bounds:
  shows "full_blocks w d * blockSize w \<le> length d" "length d - full_blocks w d * blockSize w \<le> blockSize w"
    "d \<noteq> [] \<Longrightarrow> full_blocks w d * blockSize w < length d"
proof -
  let ?b = "blockSize w" and ?k = "full_blocks w d"
  have a: "?k * ?b \<le> length d - 1" "length d - 1 < ?k * ?b + ?b"
    unfolding full_blocks_def using div_mult_mod_eq [of "length d - 1" ?b] mod_less_divisor [OF blockSize_pos, of "length d - 1" w]
    by linarith+
  show "?k * ?b \<le> length d" "length d - ?k * ?b \<le> ?b" using a by linarith+
  show "d \<noteq> [] \<Longrightarrow> ?k * ?b < length d" using a(1) by (cases d) simp_all
qed

lemma full_blocks_eq:
  assumes "k * blockSize w < length d" "length d \<le> k * blockSize w + blockSize w"
  shows "full_blocks w d = k"
  unfolding full_blocks_def using assms by (intro div_nat_eqI) (auto simp: mult.commute)

lemma ref_chain_append: "k * blockSize w \<le> length d \<Longrightarrow> ref_chain cf w out (d @ x) k = ref_chain cf w out d k"
  unfolding ref_chain_def
proof (intro fold_cong [OF refl refl] ext)
  fix i h assume "k * blockSize w \<le> length d" and "i \<in> set [0..<k]"
  then have "Suc i * blockSize w \<le> length d" using mult_le_mono1 [of "Suc i" k "blockSize w"] by simp
  then show "cf w h (take (blockSize w) (drop (i * blockSize w) (d @ x))) 0 (word_of_nat ((i + 1) * blockSize w mod 4294967296))
        (word_of_nat ((i + 1) * blockSize w div 4294967296)) False =
      cf w h (take (blockSize w) (drop (i * blockSize w) d)) 0 (word_of_nat ((i + 1) * blockSize w mod 4294967296))
        (word_of_nat ((i + 1) * blockSize w div 4294967296)) False"
    by simp
qed

lemma ref_chain_0: "ref_chain cf w out d 0 = initial_hash w out"
  by (simp add: ref_chain_def)

lemma ref_chain_Suc:
  "ref_chain cf w out d (Suc k) = cf w (ref_chain cf w out d k) (take (blockSize w) (drop (k * blockSize w) d)) 0
     (word_of_nat (Suc k * blockSize w mod 4294967296)) (word_of_nat (Suc k * blockSize w div 4294967296)) False"
  by (simp add: ref_chain_def)

context block_compression
begin

text \<open>The loop over the blocks of \<open>xs\<close>, of which \<open>i\<close> bytes are done; what is left of the message is \<open>drop i xs\<close>.\<close>

lemma update_blocks_absorbs:
  "wide s = w \<Longrightarrow> outlen s = out \<Longrightarrow> length (buf s) = blockSize w \<Longrightarrow> count s = k * blockSize w \<Longrightarrow>
   hs s = ref_chain cf w out d k \<Longrightarrow> drop (k * blockSize w) d = drop i xs \<Longrightarrow> k * blockSize w \<le> length d \<Longrightarrow>
   i \<le> length xs \<Longrightarrow> i < length xs \<or> d = [] \<Longrightarrow> absorbed w out d (update_blocks cf xs i s)"
proof (induction "length xs - i" arbitrary: i s k rule: less_induct)
  case less
  have len: "length d - k * blockSize w = length xs - i" using arg_cong [OF less.prems(6), of length] by simp
  show ?case
  proof (cases "blockSize w < length xs - i")
    case True
    let ?s = "compress_block cf xs i False (s\<lparr>count := count s + blockSize w\<rparr>)"
    have dec: "length xs - (i + blockSize w) < length xs - i" "i + blockSize w < length xs"
      using True blockSize_pos [of w] by linarith+
    have "cf w (hs s) xs i lc hc False = cf w (hs s) (take (blockSize w) (drop (k * blockSize w) d)) 0 lc hc False" for lc hc
      unfolding less.prems(6) using True by (intro window) simp
    then have "hs ?s = ref_chain cf w out d (Suc k)"
      using less.prems(1,4,5) by (simp add: compress_block_def ref_chain_Suc add.commute)
    moreover have "drop (Suc k * blockSize w) d = drop (i + blockSize w) xs"
      using arg_cong [OF less.prems(6), of "drop (blockSize w)"] by (simp add: add.commute)
    ultimately have "absorbed w out d (update_blocks cf xs (i + blockSize w) ?s)"
      using less.prems True len dec by (intro less.hyps [of _ _ "Suc k"]) (simp_all add: compress_block_def)
    with True less.prems(1) show ?thesis by (subst update_blocks.simps) (simp add: Let_def)
  next
    case False
    have k: "full_blocks w d = k"
    proof (cases "d = []")
      case True
      then show ?thesis using less.prems(7) by (simp add: full_blocks_def blockSize_def split: if_splits)
    next
      case f: False
      then show ?thesis using less.prems len False by (intro full_blocks_eq) auto
    qed
    have "0 + length (drop i xs) \<le> length (buf s)" using False less.prems(3) by simp
    from set_at_facts [OF this] False less.prems k len show ?thesis
      by (subst update_blocks.simps) (simp add: Let_def absorbed_def)
  qed
qed

lemma absorbed_new: "absorbed w out [] (newBlake2 w out)"
  by (simp add: absorbed_def newBlake2_def full_blocks_def ref_chain_def)

lemma absorbed_filled:
  assumes "absorbed w out d s"
  shows "filled s = 0 \<longleftrightarrow> d = []" "filled s \<le> blockSize w"
proof -
  have f: "filled s = length d - full_blocks w d * blockSize w" using assms by (simp add: absorbed_def Let_def)
  show "filled s \<le> blockSize w" unfolding f by (rule full_blocks_bounds(2))
  show "filled s = 0 \<longleftrightarrow> d = []" unfolding f using full_blocks_bounds(3) [of d w] by (cases "d = []") simp_all
qed

lemma update_absorbs:
  assumes "absorbed w out d s"
  shows "absorbed w out (d @ xs) (blake2_update cf xs s)"
proof -
  define k where "k = full_blocks w d"
  have s: "wide s = w" "outlen s = out" "length (buf s) = blockSize w" "count s = k * blockSize w"
    "filled s = length d - k * blockSize w" "take (filled s) (buf s) = drop (k * blockSize w) d" "hs s = ref_chain cf w out d k"
    using assms [unfolded absorbed_def Let_def, folded k_def] by blast+
  note b = full_blocks_bounds [where w = w and d = d, folded k_def]
  note f = absorbed_filled [OF assms]
  have chain: "ref_chain cf w out (d @ xs) k = ref_chain cf w out d k" by (rule ref_chain_append [OF b(1)])
  show ?thesis
  proof (cases "filled s = 0")
    case True
    then have "d = []" "k = 0" using f by (simp_all add: k_def full_blocks_def)
    with True s show ?thesis
      using update_blocks_absorbs [of s w out 0 xs 0 xs] by (simp add: blake2_update_def Let_def ref_chain_0)
  next
    case part: False
    then have d: "d \<noteq> []" using f by simp
    let ?fill = "blockSize w - filled s"
    show ?thesis
    proof (cases "length xs \<le> ?fill")
      case True
      then have "filled s + length xs \<le> length (buf s)" using s(3) f(2) by simp
      note set = set_at_facts [OF this]
      have "full_blocks w (d @ xs) = k"
        using b(1) b(3) [OF d] True s(5) f(2) by (intro full_blocks_eq) auto
      with True part s set b(1) chain show ?thesis
        by (simp add: blake2_update_def Let_def absorbed_def)
    next
      case False
      let ?buf = "set_at (buf s) (filled s) (take ?fill xs)"
      let ?s = "(compress_block cf ?buf 0 False (s\<lparr>buf := ?buf, count := count s + blockSize w\<rparr>))\<lparr>filled := 0\<rparr>"
      have "filled s + length (take ?fill xs) \<le> length (buf s)" using s(3) f(2) by simp
      note set = set_at_facts [OF this]
      have l: "filled s + length (take ?fill xs) = blockSize w" using False f(2) by simp
      have buf: "length ?buf = blockSize w" "?buf = take (blockSize w) (drop (k * blockSize w) (d @ xs))"
        using set s(3,5,6) l b(1,2) by simp_all
      have "hs ?s = ref_chain cf w out (d @ xs) (Suc k)"
        using s(1,4,7) chain buf(2) by (simp add: compress_block_def ref_chain_Suc add.commute)
      moreover have "drop (Suc k * blockSize w) (d @ xs) = drop ?fill xs" using s(5) b(1,2) by simp
      ultimately have "absorbed w out (d @ xs) (update_blocks cf xs ?fill ?s)"
        using s buf(1) False l b(1) by (intro update_blocks_absorbs [of _ _ _ "Suc k"]) (auto simp: compress_block_def)
      with part False s(1) show ?thesis by (simp add: blake2_update_def Let_def)
    qed
  qed
qed

lemma digest_absorbed:
  assumes "absorbed w out d s"
  shows "fst (blake2_digest cf s) = ref_hash cf w out d"
proof -
  define k where "k = full_blocks w d"
  have s: "wide s = w" "outlen s = out" "length (buf s) = blockSize w" "count s = k * blockSize w"
    "filled s = length d - k * blockSize w" "take (filled s) (buf s) = drop (k * blockSize w) d" "hs s = ref_chain cf w out d k"
    using assms [unfolded absorbed_def Let_def, folded k_def] by blast+
  have c: "count s + filled s = length d" using s(4,5) full_blocks_bounds(1) [where w = w and d = d] by (simp add: k_def)
  show ?thesis
    using s c by (simp add: blake2_digest_def ref_hash_def compress_block_def Let_def flip: k_def)
qed

lemma updates_absorb: "absorbed w out d s \<Longrightarrow> absorbed w out (d @ concat chunks) (fold (blake2_update cf) chunks s)"
proof (induction chunks arbitrary: d s)
  case (Cons c cs)
  from Cons.IH [OF update_absorbs [OF Cons.prems]] show ?case by simp
qed simp

lemma streaming: "fst (blake2_digest cf (fold (blake2_update cf) chunks (newBlake2 w out))) = ref_hash cf w out (concat chunks)"
  using digest_absorbed [OF updates_absorb [OF absorbed_new]] by simp

lemma blake2_copy: "blake2_copy s = s"
  by (simp add: blake2_copy_def newBlake2_def)

subsection \<open>The keyed hash\<close>

text \<open>A keyed hash that has taken the bytes \<open>d\<close>; \<open>block_key\<close> is the key, hashed if it is long, filled up with zeros.\<close>

definition block_key :: "algorithm \<Rightarrow> byte list \<Rightarrow> byte list" where
  "block_key alg key =
     (let w = fst (SPECS alg); k = (if blockSize w < length key then ref_hash cf w (snd (SPECS alg)) key else key)
      in k @ replicate (blockSize w - length k) 0)"

definition keyed_with :: "algorithm \<Rightarrow> byte list \<Rightarrow> byte list \<Rightarrow> hmac \<Rightarrow> bool" where
  "keyed_with alg key d mac \<longleftrightarrow> (let w = fst (SPECS alg); n = snd (SPECS alg) in
     mac_size mac = n \<and> absorbed w n (map ((XOR) 0x36) (block_key alg key) @ d) (inner mac) \<and>
     absorbed w n (map ((XOR) 0x36) (block_key alg key)) (keyed mac) \<and>
     absorbed w n (map ((XOR) 0x5c) (block_key alg key)) (outer mac))"

lemma xor_pad_key:
  "length k \<le> n \<Longrightarrow> xor_pad c n k = map ((XOR) c) (k @ replicate (n - length k) 0)"
  by (rule nth_equalityI) (auto simp: xor_pad_def nth_append)

lemma length_ref_hash: "length (ref_hash cf w out d) = out"
  by (simp add: ref_hash_def Let_def)

lemma hmacWithKey_keyed: "keyed_with alg key [] (hmacWithKey cf alg key)"
proof -
  let ?w = "fst (SPECS alg)" and ?n = "snd (SPECS alg)"
  let ?k = "if blockSize ?w < length key then ref_hash cf ?w ?n key else key"
  have d: "fst (blake2_digest cf (blake2_update cf key (new_hash alg))) = ref_hash cf ?w ?n key"
    using digest_absorbed [OF update_absorbs [OF absorbed_new]] by (simp add: new_hash_def)
  have "?n \<le> blockSize ?w" by (cases alg) (simp_all add: blockSize_def)
  then have "length ?k \<le> blockSize ?w" by (simp add: length_ref_hash)
  then have p: "xor_pad c (blockSize ?w) ?k = map ((XOR) c) (block_key alg key)" for c
    by (simp only: xor_pad_key block_key_def Let_def)
  have "absorbed ?w ?n (map ((XOR) c) (block_key alg key)) (blake2_update cf (xor_pad c (blockSize ?w) ?k) (new_hash alg))" for c
    unfolding p using update_absorbs [OF absorbed_new, of ?w ?n "map ((XOR) c) (block_key alg key)"] by (simp add: new_hash_def)
  then show ?thesis
    unfolding hmacWithKey_def d by (simp add: keyed_with_def Let_def blake2_copy flip: blockSize_def)
qed

lemma hmac_update_keyed: "keyed_with alg key d mac \<Longrightarrow> keyed_with alg key (d @ xs) (hmac_update cf xs mac)"
  using update_absorbs [of "fst (SPECS alg)" "snd (SPECS alg)" "map ((XOR) 0x36) (block_key alg key) @ d" "inner mac" xs]
  by (simp add: keyed_with_def hmac_update_def Let_def)

lemma hmac_fresh_keyed: "keyed_with alg key d mac \<Longrightarrow> keyed_with alg key [] (hmac_fresh mac)"
  by (simp add: keyed_with_def hmac_fresh_def Let_def blake2_copy)

lemma hmac_digest_keyed: "keyed_with alg key d mac \<Longrightarrow> hmac_digest cf mac = ref_hmac cf alg key d"
  using digest_absorbed [OF update_absorbs [of "fst (SPECS alg)" "snd (SPECS alg)" "map ((XOR) 0x5c) (block_key alg key)" "outer mac"]]
    digest_absorbed [of "fst (SPECS alg)" "snd (SPECS alg)" "map ((XOR) 0x36) (block_key alg key) @ d" "inner mac"]
  by (simp add: keyed_with_def hmac_digest_def ref_hmac_def block_key_def Let_def blake2_copy)

lemma hmac_updates_keyed: "keyed_with alg key d mac \<Longrightarrow> keyed_with alg key (d @ concat chunks) (fold (hmac_update cf) chunks mac)"
proof (induction chunks arbitrary: d mac)
  case (Cons c cs)
  from Cons.IH [OF hmac_update_keyed [OF Cons.prems]] show ?case by simp
qed simp

lemma hmac_streaming: "hmac_digest cf (fold (hmac_update cf) chunks (hmacWithKey cf alg key)) = ref_hmac cf alg key (concat chunks)"
  using hmac_digest_keyed [OF hmac_updates_keyed [OF hmacWithKey_keyed]] by simp

lemma length_ref_hmac: "length (ref_hmac cf alg key d) = snd (SPECS alg)"
  by (simp add: ref_hmac_def Let_def length_ref_hash)

end

subsection \<open>Key derivation\<close>

lemma xor_bytes_assoc: "length u = length t \<Longrightarrow> length v = length t \<Longrightarrow> xor_bytes (xor_bytes t u) v = xor_bytes t (xor_bytes u v)"
  by (rule nth_equalityI) (simp_all add: xor_bytes_def xor.assoc)

lemma length_xor_bytes: "length (xor_bytes t u) = min (length t) (length u)"
  by (simp add: xor_bytes_def)

lemma length_ref_pbkdf2: "(\<And>d. length (mac_of d) = n) \<Longrightarrow> length u = n \<Longrightarrow> length (ref_pbkdf2 mac_of u c) = n"
  by (induction c arbitrary: u) (simp_all add: length_xor_bytes)

lemma take_pieces: "length t = m \<Longrightarrow> take (min m n) t @ take (n - m) r = take n (t @ r)"
  by (cases "m \<le> n") simp_all

context block_compression
begin

lemma pbkdf2_rounds_ref:
  assumes "keyed_with alg key d base"
  shows "length u = snd (SPECS alg) \<Longrightarrow> length t = snd (SPECS alg) \<Longrightarrow> pbkdf2_rounds cf base c u t =
    (case c of 0 \<Rightarrow> t | Suc c' \<Rightarrow> xor_bytes t (ref_pbkdf2 (ref_hmac cf alg key) (ref_hmac cf alg key u) c'))"
proof (induction c arbitrary: u t)
  case (Suc c)
  let ?mac_of = "ref_hmac cf alg key"
  have u: "hmac_digest cf (hmac_update cf u (hmac_fresh base)) = ?mac_of u"
    using hmac_digest_keyed [OF hmac_update_keyed [OF hmac_fresh_keyed [OF assms]], of u] by simp
  have l: "length (?mac_of u) = snd (SPECS alg)" "length (xor_bytes t (?mac_of u)) = snd (SPECS alg)"
    using Suc.prems by (simp_all add: length_ref_hmac length_xor_bytes)
  show ?case
    using Suc.IH [OF l] Suc.prems l(1)
    by (cases c) (simp_all add: u Let_def xor_bytes_assoc length_ref_pbkdf2 [where n = "snd (SPECS alg)"] length_ref_hmac)
qed simp

lemma pbkdf2_block_ref:
  assumes "keyed_with alg key d base"
  shows "pbkdf2_block cf base salt iterations i =
    ref_pbkdf2 (ref_hmac cf alg key) (ref_hmac cf alg key (salt @ be_bytes 4 i)) (iterations - 1)"
proof -
  have "hmac_digest cf (hmac_update cf (be_bytes 4 i) (hmac_update cf salt (hmac_fresh base))) =
      ref_hmac cf alg key (salt @ be_bytes 4 i)"
    using hmac_digest_keyed [OF hmac_update_keyed [OF hmac_update_keyed [OF hmac_fresh_keyed [OF assms]]]] by simp
  then show ?thesis
    using pbkdf2_rounds_ref [OF assms, of "ref_hmac cf alg key (salt @ be_bytes 4 i)" "ref_hmac cf alg key (salt @ be_bytes 4 i)" "iterations - 1"]
    by (cases "iterations - 1") (simp_all add: pbkdf2_block_def Let_def length_ref_hmac)
qed

lemma pbkdf2_loop_ref:
  assumes "keyed_with alg key d base"
  shows "n \<le> fuel \<Longrightarrow> pbkdf2_loop cf base salt iterations fuel i n = take n (concat (map (\<lambda>i.
    ref_pbkdf2 (ref_hmac cf alg key) (ref_hmac cf alg key (salt @ be_bytes 4 i)) (iterations - 1)) [i..<i + fuel]))"
proof (induction fuel arbitrary: i n)
  case (Suc fuel)
  let ?t = "\<lambda>i. ref_pbkdf2 (ref_hmac cf alg key) (ref_hmac cf alg key (salt @ be_bytes 4 i)) (iterations - 1)"
  have m: "mac_size base = snd (SPECS alg)" "0 < snd (SPECS alg)"
    using assms by (simp add: keyed_with_def Let_def, cases alg) simp_all
  have l: "length (?t i) = mac_size base" unfolding m(1) by (rule length_ref_pbkdf2) (simp_all add: length_ref_hmac)
  have "n - mac_size base \<le> fuel" using Suc.prems m by simp
  from Suc.IH [OF this, of "i + 1"] take_pieces [OF l, of n] show ?case
    by (cases "n = 0") (simp_all add: pbkdf2_block_ref [OF assms] upt_rec [of i])
qed simp

lemma hkdf_loop_ref:
  assumes "keyed_with alg key d expand"
  shows "n \<le> fuel \<Longrightarrow> hkdf_loop cf expand info fuel (Suc i) (ref_hkdf (ref_hmac cf alg key) info i) n =
    take n (concat (map (ref_hkdf (ref_hmac cf alg key) info) [Suc i..<Suc i + fuel]))"
proof (induction fuel arbitrary: i n)
  case (Suc fuel)
  let ?t = "ref_hkdf (ref_hmac cf alg key) info"
  have m: "mac_size expand = snd (SPECS alg)" "0 < snd (SPECS alg)"
    using assms by (simp add: keyed_with_def Let_def, cases alg) simp_all
  have t: "hmac_digest cf (hmac_update cf [word_of_nat (Suc i)] (hmac_update cf info (hmac_update cf (?t i) (hmac_fresh expand)))) = ?t (Suc i)"
    using hmac_digest_keyed [OF hmac_update_keyed [OF hmac_update_keyed [OF hmac_update_keyed [OF hmac_fresh_keyed [OF assms]]]],
      of "[word_of_nat (Suc i)]" info "?t i"] by simp
  have l: "length (?t (Suc i)) = mac_size expand" by (simp add: m length_ref_hmac)
  have "n - mac_size expand \<le> fuel" using Suc.prems m by simp
  from Suc.IH [OF this, of "Suc i"] take_pieces [OF l, of n] show ?case
    by (cases "n = 0") (simp_all only: hkdf_loop.simps Let_def t if_True if_False take_0 upt_rec [of "Suc i" "Suc i + Suc fuel"], simp_all)
qed simp

end

subsection \<open>The compression of the code\<close>

lemma at0_window: "offset + n \<le> length block \<Longrightarrow> j < n \<Longrightarrow> at0 (take n (drop offset block)) j = at0 block (offset + j)"
  by (simp add: at0_def)

lemma load_words_window:
  assumes "offset + 4 * n \<le> length block"
  shows "load_words n (take (4 * n) (drop offset block)) 0 = load_words n block offset"
proof (rule nth_equalityI)
  fix i assume "i < length (load_words n (take (4 * n) (drop offset block)) 0)"
  then have i: "i < n" by (simp add: load_words_def)
  have "at0 (take (4 * n) (drop offset block)) (4 * i + k) = at0 block (offset + 4 * i + k)" if "k < 4" for k
    using at0_window [OF assms, of "4 * i + k"] i that by (simp add: add.assoc)
  from this [of 0] this [of 1] this [of 2] this [of 3] i
  show "load_words n (take (4 * n) (drop offset block)) 0 ! i = load_words n block offset ! i"
    by (simp add: load_words_def le32_def)
qed (simp add: load_words_def)

interpretation js_blake2: block_compression compressJs
proof unfold_locales
  fix offset w h block lc hc b
  assume "offset + blockSize w \<le> length (block :: byte list)"
  then show "compressJs w h block offset lc hc b = compressJs w h (take (blockSize w) (drop offset block)) 0 lc hc b"
    using load_words_window [of offset 32 block] load_words_window [of offset 16 block]
    by (cases w) (simp_all add: compressJs_def blockSize_def compressB_def compressS_def)
qed

text \<open>C22: however a message is cut into updates, the digest is that of RFC 7693 on the whole message: all blocks but the
  last are compressed with the count of the bytes so far, the last, which is always held back, with zeros, the length
  and the final flag.\<close>

theorem blake2_streaming:
  "fst (blake2_digest compressJs (fold (blake2_update compressJs) chunks (newBlake2 w out))) =
   ref_hash compressJs w out (concat chunks)"
  by (rule js_blake2.streaming)

text \<open>the keyed functions are the standard ones: HMAC over any updates is that of RFC 2104, PBKDF2 is the first
  \<open>keylen\<close> bytes of the blocks of RFC 8018, HKDF those of RFC 5869, and HKDF refuses exactly the lengths that are zero
  or over 255 hashes.\<close>

theorem blake2_keyed_standard:
  "hmac_digest compressJs (fold (hmac_update compressJs) chunks (hmacWithKey compressJs alg key)) =
     ref_hmac compressJs alg key (concat chunks) \<and>
   blake2Pbkdf2 compressJs alg key salt iterations keylen =
     take keylen (concat (map (\<lambda>i. ref_pbkdf2 (ref_hmac compressJs alg key)
       (ref_hmac compressJs alg key (salt @ be_bytes 4 i)) (iterations - 1)) [1..<1 + keylen])) \<and>
   blake2Hkdf compressJs alg ikm salt info keylen =
     (if keylen = 0 then Inl ''HKDF derivation failed''
      else if 255 * snd (SPECS alg) < keylen then Inl ''ERR_CRYPTO_INVALID_KEYLEN''
      else Inr (take keylen (concat (map (ref_hkdf (ref_hmac compressJs alg (ref_hmac compressJs alg salt ikm)) info)
        [1..<1 + keylen]))))"
proof -
  have "hmac_digest compressJs (hmac_update compressJs ikm (hmacWithKey compressJs alg salt)) = ref_hmac compressJs alg salt ikm"
    using js_blake2.hmac_streaming [of "[ikm]"] by simp
  then show ?thesis
    using js_blake2.hmac_streaming js_blake2.pbkdf2_loop_ref [OF js_blake2.hmacWithKey_keyed order_refl, of alg key salt iterations keylen 1]
      js_blake2.hkdf_loop_ref [OF js_blake2.hmacWithKey_keyed order_refl, of alg "ref_hmac compressJs alg salt ikm" info keylen 0]
    by (simp add: blake2Pbkdf2_def blake2Hkdf_def Let_def)
qed

end
