(* ===== verification/Utf8.thy ===== *)
theory Utf8
  imports Prelude "HOL-Library.List_Lexorder"
begin

text \<open>
  \<open>node-compat.js\<close>, \<open>TextEncoderImpl\<close> and \<open>TextDecoderImpl\<close>, the encoder and decoder of UTF-8 that the engine has, which
  several files of the runtime use, and the transform streams over them (\<open>node-extras.js\<close>). A string of UTF-16 code units is a list of code points, lone surrogates replaced,
  each one to four bytes, and the order of code points is the order of the bytes. The decoder of the Encoding standard
  is defined too: the one of the runtime is compared with it.
\<close>

subsection \<open>Strings and code points\<close>

definition is_high :: "jschar \<Rightarrow> bool" where
  "is_high c \<longleftrightarrow> 0xD800 \<le> unat c \<and> unat c < 0xDC00"

definition is_low :: "jschar \<Rightarrow> bool" where
  "is_low c \<longleftrightarrow> 0xDC00 \<le> unat c \<and> unat c < 0xE000"

text \<open>The conversion to a string of scalar values: a surrogate without its partner becomes U+FFFD.\<close>

fun code_points :: "jsstr \<Rightarrow> nat list" where
  "code_points [] = []"
| "code_points [c] = [if is_high c \<or> is_low c then 0xFFFD else unat c]"
| "code_points (c # d # cs) =
     (if is_high c \<and> is_low d
      then (0x10000 + (unat c - 0xD800) * 1024 + (unat d - 0xDC00)) # code_points cs
      else (if is_high c \<or> is_low c then 0xFFFD else unat c) # code_points (d # cs))"

definition units :: "nat \<Rightarrow> jsstr" where
  "units n =
     (if n < 0x10000 then [word_of_nat n]
      else [word_of_nat (0xD800 + (n - 0x10000) div 1024), word_of_nat (0xDC00 + (n - 0x10000) mod 1024)])"

definition of_code_points :: "nat list \<Rightarrow> jsstr" where
  "of_code_points ns = concat (map units ns)"

definition scalar :: "nat \<Rightarrow> bool" where
  "scalar n \<longleftrightarrow> n < 0xD800 \<or> 0xE000 \<le> n \<and> n < 0x110000"

subsection \<open>The encoder\<close>

definition utf8_char :: "nat \<Rightarrow> nat list" where
  "utf8_char n =
     (if n < 0x80 then [n]
      else if n < 0x800 then [0xC0 + n div 64, 0x80 + n mod 64]
      else if n < 0x10000 then [0xE0 + n div 4096, 0x80 + n div 64 mod 64, 0x80 + n mod 64]
      else [0xF0 + n div 262144, 0x80 + n div 4096 mod 64, 0x80 + n div 64 mod 64, 0x80 + n mod 64])"

definition utf8_encode :: "jsstr \<Rightarrow> byte list" where
  "utf8_encode s = map word_of_nat (concat (map utf8_char (code_points s)))"

subsection \<open>The decoder of the standard\<close>

text \<open>The decoder of the Encoding standard: the code point so far, the bytes still needed and the range of the next.\<close>

datatype utf8_state = Idle | Needs (point: nat) (needed: nat) (lower: nat) (upper: nat)

definition utf8_start :: "nat \<Rightarrow> nat list \<times> utf8_state" where
  "utf8_start b =
     (if b \<le> 0x7F then ([b], Idle)
      else if 0xC2 \<le> b \<and> b \<le> 0xDF then ([], Needs (b mod 32) 1 0x80 0xBF)
      else if 0xE0 \<le> b \<and> b \<le> 0xEF then
        ([], Needs (b mod 16) 2 (if b = 0xE0 then 0xA0 else 0x80) (if b = 0xED then 0x9F else 0xBF))
      else if 0xF0 \<le> b \<and> b \<le> 0xF4 then
        ([], Needs (b mod 8) 3 (if b = 0xF0 then 0x90 else 0x80) (if b = 0xF4 then 0x8F else 0xBF))
      else ([0xFFFD], Idle))"

text \<open>A byte out of range ends the sequence with U+FFFD and is read again from the start.\<close>

fun utf8_step :: "utf8_state \<Rightarrow> nat \<Rightarrow> nat list \<times> utf8_state" where
  "utf8_step Idle b = utf8_start b"
| "utf8_step (Needs n k lo hi) b =
     (if b < lo \<or> hi < b then (case utf8_start b of (out, st) \<Rightarrow> (0xFFFD # out, st))
      else let n = n * 64 + b mod 64 in if k = 1 then ([n], Idle) else ([], Needs n (k - 1) 0x80 0xBF))"

fun utf8_run :: "utf8_state \<Rightarrow> nat list \<Rightarrow> nat list" where
  "utf8_run st [] = (if st = Idle then [] else [0xFFFD])"
| "utf8_run st (b # bs) = (case utf8_step st b of (out, st) \<Rightarrow> out @ utf8_run st bs)"

text \<open>A byte order mark at the beginning is dropped.\<close>

definition utf8_decode :: "byte list \<Rightarrow> jsstr" where
  "utf8_decode bs =
     (let ns = map unat bs
      in of_code_points (utf8_run Idle (if take 3 ns = [0xEF, 0xBB, 0xBF] then drop 3 ns else ns)))"

subsection \<open>Reading back what was written\<close>

lemma unit_less: "unat (c :: jschar) < 0x10000"
  using unsigned_less [of c] by simp

lemma code_points_scalar: "n \<in> set (code_points s) \<Longrightarrow> scalar n"
proof (induction s rule: code_points.induct)
  case (2 c)
  then show ?case using unit_less [of c] by (auto simp: scalar_def is_high_def is_low_def split: if_splits)
next
  case (3 c d cs)
  show ?case
  proof (cases "is_high c \<and> is_low d")
    case True
    with 3 show ?thesis by (auto simp: scalar_def is_high_def is_low_def)
  next
    case False
    with 3 unit_less [of c] show ?thesis by (auto simp: scalar_def is_high_def is_low_def split: if_splits)
  qed
qed simp

lemma utf8_char_bytes: "scalar n \<Longrightarrow> b \<in> set (utf8_char n) \<Longrightarrow> b < 0x100"
  by (auto simp: utf8_char_def scalar_def split: if_splits)

lemma utf8_encode_nats: "map unat (utf8_encode s) = concat (map utf8_char (code_points s))"
proof -
  have "unat (word_of_nat b :: byte) = b" if "b \<in> set (concat (map utf8_char (code_points s)))" for b
    using that utf8_char_bytes code_points_scalar by fastforce
  then show ?thesis unfolding utf8_encode_def map_map comp_def by (intro map_idI) blast
qed

lemma mod_offset: "(128 + x) mod 64 = x mod (64 :: nat)" "(192 + x) mod 32 = x mod (32 :: nat)"
    "(224 + x) mod 16 = x mod (16 :: nat)" "(240 + x) mod 8 = x mod (8 :: nat)"
  using mod_mult_self3 [of 2 64 x] mod_mult_self3 [of 6 32 x] mod_mult_self3 [of 14 16 x] mod_mult_self3 [of 30 8 x]
  by simp_all

lemma div64_twice: "n div 64 div 64 = n div 4096" "n div 4096 div 64 = n div 262144" for n :: nat
  by (simp_all flip: div_mult2_eq)

lemma sextets:
  fixes n :: nat
  shows "n = n div 64 * 64 + n mod 64"
    "n = (n div 4096 * 64 + n div 64 mod 64) * 64 + n mod 64"
    "n = ((n div 262144 * 64 + n div 4096 mod 64) * 64 + n div 64 mod 64) * 64 + n mod 64"
proof -
  have a: "m = m div 64 * 64 + m mod 64" for m :: nat by simp
  show "n = n div 64 * 64 + n mod 64" by (rule a)
  show b: "n = (n div 4096 * 64 + n div 64 mod 64) * 64 + n mod 64"
    using a [of n] a [of "n div 64"] by (simp only: div64_twice)
  show "n = ((n div 262144 * 64 + n div 4096 mod 64) * 64 + n div 64 mod 64) * 64 + n mod 64"
    using b a [of "n div 4096"] by (simp only: div64_twice)
qed

lemma utf8_run_char:
  assumes "scalar n"
  shows "utf8_run Idle (utf8_char n @ bs) = n # utf8_run Idle bs"
proof -
  have six: "k mod 64 < 64" for k :: nat by simp
  consider "n < 0x80" | "0x80 \<le> n" "n < 0x800" | "0x800 \<le> n" "n < 0x10000" | "0x10000 \<le> n" "n < 0x110000"
    using assms by (fastforce simp: scalar_def)
  then show ?thesis
  proof cases
    case 1
    then show ?thesis by (simp add: utf8_char_def utf8_start_def)
  next
    case 2
    define a b where "a = n div 64" and "b = n mod 64"
    have n: "n = a * 64 + b" "b < 64" using sextets(1) [of n] by (simp_all add: a_def b_def)
    then have "2 \<le> a" "a < 32" using 2 by linarith+
    then have "utf8_run Idle ([192 + a, 128 + b] @ bs) = n # utf8_run Idle bs"
      unfolding n(1) using n(2) by (simp add: utf8_start_def mod_offset)
    moreover have "utf8_char n = [192 + a, 128 + b]" using 2 by (simp add: utf8_char_def a_def b_def)
    ultimately show ?thesis by simp
  next
    case 3
    define a b c where "a = n div 4096" and "b = n div 64 mod 64" and "c = n mod 64"
    have n: "n = (a * 64 + b) * 64 + c" "b < 64" "c < 64" using sextets(2) [of n] by (simp_all add: a_def b_def c_def)
    have e: "n = a * 4096 + b * 64 + c" using n(1) by simp
    have a: "a < 16" using e 3 by linarith
    have "32 \<le> b" if "a = 0" using that e n(3) 3 by linarith
    moreover have "b < 32" if "a = 13" using that e n(2,3) 3 assms unfolding scalar_def by linarith
    ultimately have "utf8_run Idle ([224 + a, 128 + b, 128 + c] @ bs) = n # utf8_run Idle bs"
      unfolding e using n(2,3) a by (auto simp: utf8_start_def mod_offset)
    moreover have "utf8_char n = [224 + a, 128 + b, 128 + c]" using 3 by (simp add: utf8_char_def a_def b_def c_def)
    ultimately show ?thesis by simp
  next
    case 4
    define a b c d where "a = n div 262144" and "b = n div 4096 mod 64" and "c = n div 64 mod 64" and "d = n mod 64"
    have n: "n = ((a * 64 + b) * 64 + c) * 64 + d" "b < 64" "c < 64" "d < 64"
      using sextets(3) [of n] by (simp_all add: a_def b_def c_def d_def)
    have e: "n = a * 262144 + b * 4096 + c * 64 + d" using n(1) by simp
    have a: "a < 5" using e 4 by linarith
    have "16 \<le> b" if "a = 0" using that e n(3,4) 4 by linarith
    moreover have "b < 16" if "a = 4" using that e 4 by linarith
    ultimately have "utf8_run Idle ([240 + a, 128 + b, 128 + c, 128 + d] @ bs) = n # utf8_run Idle bs"
      unfolding e using n(2-4) a by (auto simp: utf8_start_def mod_offset)
    moreover have "utf8_char n = [240 + a, 128 + b, 128 + c, 128 + d]" using 4 by (simp add: utf8_char_def a_def b_def c_def d_def)
    ultimately show ?thesis by simp
  qed
qed

lemma utf8_run_chars: "\<forall>n \<in> set ns. scalar n \<Longrightarrow> utf8_run Idle (concat (map utf8_char ns) @ bs) = ns @ utf8_run Idle bs"
  by (induction ns) (simp_all add: utf8_run_char)

lemma utf8_run_encode: "utf8_run Idle (map unat (utf8_encode s)) = code_points s"
  using utf8_run_chars [of "code_points s" "[]"] code_points_scalar [of _ s] by (simp add: utf8_encode_nats)

lemma utf8_mark:
  assumes "\<forall>n \<in> set ns. scalar n"
  shows "take 3 (concat (map utf8_char ns)) = [0xEF, 0xBB, 0xBF] \<longleftrightarrow> (\<exists>ms. ns = 0xFEFF # ms)"
proof
  have mark: "utf8_char 0xFEFF = [0xEF, 0xBB, 0xBF]" by (simp add: utf8_char_def)
  show "\<exists>ms. ns = 0xFEFF # ms \<Longrightarrow> take 3 (concat (map utf8_char ns)) = [0xEF, 0xBB, 0xBF]" by (auto simp: mark)
  assume "take 3 (concat (map utf8_char ns)) = [0xEF, 0xBB, 0xBF]"
  then obtain r where r: "concat (map utf8_char ns) = utf8_char 0xFEFF @ r"
    unfolding mark by (metis append_take_drop_id)
  have "ns = 0xFEFF # utf8_run Idle r"
    using utf8_run_chars [OF assms, where bs = "[]"] utf8_run_char [where n = "0xFEFF" and bs = r] r by (simp add: scalar_def)
  then show "\<exists>ms. ns = 0xFEFF # ms" by blast
qed

lemma units_points: "\<not> is_high c \<or> \<not> is_low d \<Longrightarrow> \<not> is_high c \<and> \<not> is_low c \<Longrightarrow> units (unat c) = [c]"
  using unit_less [of c] by (simp add: units_def)

lemma units_pair:
  assumes "is_high c" "is_low d"
  shows "units (0x10000 + (unat c - 0xD800) * 1024 + (unat d - 0xDC00)) = [c, d]"
proof -
  define h l where "h = unat c - 0xD800" and "l = unat d - 0xDC00"
  have "l < 1024" using assms(2) unfolding is_low_def l_def by linarith
  then have "(h * 1024 + l) div 1024 = h" "(h * 1024 + l) mod 1024 = l" by simp_all
  then have "units (0x10000 + h * 1024 + l) = [word_of_nat (0xD800 + h), word_of_nat (0xDC00 + l)]"
    by (simp add: units_def add.assoc)
  moreover have "0xD800 + h = unat c" "0xDC00 + l = unat d" using assms unfolding is_high_def is_low_def h_def l_def by simp_all
  ultimately show ?thesis by (simp add: h_def l_def)
qed

text \<open>Strings without lone surrogates.\<close>

definition well_formed :: "jsstr \<Rightarrow> bool" where
  "well_formed s \<longleftrightarrow> of_code_points (code_points s) = s"

lemma utf8_roundtrip:
  "utf8_decode (utf8_encode s) =
     of_code_points (if code_points s \<noteq> [] \<and> hd (code_points s) = 0xFEFF then tl (code_points s) else code_points s)"
proof (cases "code_points s")
  case Nil
  then show ?thesis by (simp add: utf8_decode_def utf8_encode_nats Let_def)
next
  case (Cons n ns)
  have sc: "\<forall>n \<in> set (code_points s). scalar n" using code_points_scalar by blast
  have mark: "utf8_char 0xFEFF = [0xEF, 0xBB, 0xBF]" by (simp add: utf8_char_def)
  show ?thesis
  proof (cases "n = 0xFEFF")
    case True
    then show ?thesis
      using Cons sc utf8_run_chars [of ns "[]"] by (simp add: utf8_decode_def utf8_encode_nats Let_def mark)
  next
    case False
    then have "take 3 (map unat (utf8_encode s)) \<noteq> [0xEF, 0xBB, 0xBF]"
      unfolding utf8_encode_nats utf8_mark [OF sc] using Cons by simp
    with Cons False utf8_run_encode [of s] show ?thesis by (simp add: utf8_decode_def Let_def)
  qed
qed

subsection \<open>Encoding keeps the order of code points\<close>

lemma digits_less: "n < m \<Longrightarrow> n div 64 < m div 64 \<or> n div 64 = m div 64 \<and> n mod 64 < m mod 64" for n m :: nat
proof -
  assume "n < m"
  then have "n div 64 \<le> m div 64" by (simp add: div_le_mono)
  moreover have "n div 64 = m div 64 \<Longrightarrow> n mod 64 < m mod 64"
    using \<open>n < m\<close> sextets(1) [of n] sextets(1) [of m] by linarith
  ultimately show ?thesis by linarith
qed

lemma digits_less3:
  fixes n m :: nat
  assumes "n < m"
  shows "n div 4096 < m div 4096 \<or> n div 4096 = m div 4096 \<and> n div 64 mod 64 < m div 64 mod 64 \<or>
    n div 4096 = m div 4096 \<and> n div 64 mod 64 = m div 64 mod 64 \<and> n mod 64 < m mod 64"
proof -
  have "n div 4096 = m div 4096 \<and> n div 64 mod 64 = m div 64 mod 64" if "n div 64 = m div 64"
  proof -
    have "n div 4096 = m div 4096" unfolding div64_twice(1) [symmetric] that ..
    with that show ?thesis by simp
  qed
  with digits_less [OF assms] digits_less [of "n div 64" "m div 64"] show ?thesis by (auto simp: div64_twice)
qed

lemma digits_less4:
  fixes n m :: nat
  assumes "n < m"
  shows "n div 262144 < m div 262144 \<or> n div 262144 = m div 262144 \<and> n div 4096 mod 64 < m div 4096 mod 64 \<or>
    n div 262144 = m div 262144 \<and> n div 4096 mod 64 = m div 4096 mod 64 \<and> n div 64 mod 64 < m div 64 mod 64 \<or>
    n div 262144 = m div 262144 \<and> n div 4096 mod 64 = m div 4096 mod 64 \<and> n div 64 mod 64 = m div 64 mod 64 \<and>
      n mod 64 < m mod 64"
proof -
  have "n div 262144 = m div 262144 \<and> n div 4096 mod 64 = m div 4096 mod 64" if "n div 4096 = m div 4096"
  proof -
    have "n div 262144 = m div 262144" unfolding div64_twice(2) [symmetric] that ..
    with that show ?thesis by simp
  qed
  with digits_less3 [OF assms] digits_less [of "n div 4096" "m div 4096"] show ?thesis by (auto simp: div64_twice)
qed

lemma utf8_char_less:
  assumes "n < m" "m < 0x110000"
  shows "utf8_char n @ r < utf8_char m @ s"
proof -
  have hd: "n \<le> 0x7F \<and> hd (utf8_char n) = n" if "n < 0x80" for n using that by (simp add: utf8_char_def)
  have u2: "utf8_char n = [192 + n div 64, 128 + n mod 64] \<and> n div 64 < 32" if "0x80 \<le> n" "n < 0x800" for n
    using that by (auto simp: utf8_char_def)
  have u3: "utf8_char n = [224 + n div 4096, 128 + n div 64 mod 64, 128 + n mod 64] \<and> n div 4096 < 16"
    if "0x800 \<le> n" "n < 0x10000" for n using that by (auto simp: utf8_char_def)
  have u4: "utf8_char n = [240 + n div 262144, 128 + n div 4096 mod 64, 128 + n div 64 mod 64, 128 + n mod 64]"
    if "0x10000 \<le> n" for n using that by (simp add: utf8_char_def)
  have u1: "utf8_char n = [n]" if "n < 0x80" for n using that by (simp add: utf8_char_def)
  consider "m < 0x80" | "0x80 \<le> m" "m < 0x800" | "0x800 \<le> m" "m < 0x10000" | "0x10000 \<le> m" by linarith
  then show ?thesis
  proof cases
    case 1
    then show ?thesis using assms u1 [of n] u1 [of m] by simp
  next
    case 2
    then show ?thesis using assms u1 [of n] u2 [of n] u2 [of m] digits_less [OF assms(1)] by (cases "n < 0x80") auto
  next
    case m: 3
    consider "n < 0x80" | "0x80 \<le> n" "n < 0x800" | "0x800 \<le> n" "n < 0x10000" using m(2) assms(1) by linarith
    then show ?thesis
      using m u1 [of n] u2 [of n] u3 [of n] u3 [of m] digits_less3 [OF assms(1)] by cases auto
  next
    case m: 4
    consider "n < 0x80" | "0x80 \<le> n" "n < 0x800" | "0x800 \<le> n" "n < 0x10000" | "0x10000 \<le> n" by linarith
    then show ?thesis
      using m u1 [of n] u2 [of n] u3 [of n] u4 [of n] u4 [of m] digits_less4 [OF assms(1)] by cases auto
  qed
qed

lemma utf8_char_nonempty: "utf8_char n \<noteq> []"
  by (simp add: utf8_char_def)

lemma append_less_append: "xs < ys \<Longrightarrow> zs @ xs < zs @ (ys :: nat list)"
  by (induction zs) simp_all

lemma utf8_chars_less:
  "ns < ms \<Longrightarrow> \<forall>m \<in> set ms. m < 0x110000 \<Longrightarrow> concat (map utf8_char ns) < concat (map utf8_char ms)"
proof (induction ns arbitrary: ms)
  case Nil
  then obtain m ms' where "ms = m # ms'" by (cases ms) simp_all
  then show ?case using utf8_char_nonempty [of m] by (cases "utf8_char m") simp_all
next
  case (Cons n ns)
  then obtain m ms' where ms: "ms = m # ms'" by (cases ms) simp_all
  with Cons.prems(1) consider "n < m" | "n = m" "ns < ms'" by auto
  then show ?case
  proof cases
    case 1
    then show ?thesis using Cons.prems(2) ms by (simp add: utf8_char_less)
  next
    case 2
    then show ?thesis using Cons.IH [of ms'] Cons.prems(2) ms by (simp add: append_less_append)
  qed
qed

lemma map_unat_less: "map unat xs < map unat ys \<longleftrightarrow> xs < (ys :: byte list)"
proof (induction xs arbitrary: ys)
  case Nil
  then show ?case by (cases ys) simp_all
next
  case (Cons x xs)
  show ?case
  proof (cases ys)
    case y: (Cons y ys')
    have "unat x < unat y \<longleftrightarrow> x < y" by (rule word_less_nat_alt [symmetric])
    moreover have "unat x = unat y \<longleftrightarrow> x = y" by (rule word_unat_eq_iff [symmetric])
    ultimately show ?thesis by (simp only: y list.map Cons_less_Cons Cons.IH)
  qed simp
qed

lemma utf8_encode_less: "code_points s < code_points t \<Longrightarrow> utf8_encode s < utf8_encode t"
  unfolding map_unat_less [symmetric] utf8_encode_nats
  using code_points_scalar [of _ t] by (intro utf8_chars_less) (fastforce simp: scalar_def)+

subsection \<open>The runtime's own encoder and decoder\<close>

text \<open>\<open>encodeInto\<close>: the new destination, what it says it read, and what it wrote.\<close>

definition encodeInto :: "jsstr \<Rightarrow> byte list \<Rightarrow> byte list \<times> nat \<times> nat" where
  "encodeInto s dest =
     (let encoded = utf8_encode s; written = min (length encoded) (length dest)
      in (take written encoded @ drop written dest, length s, written))"

text \<open>The lead byte: how many bytes follow, and its bits of the code point.\<close>

definition lead_byte :: "nat \<Rightarrow> (nat \<times> nat) option" where
  "lead_byte b =
     (if b div 32 = 6 then Some (1, b mod 32)
      else if b div 16 = 14 then Some (2, b mod 16)
      else if b div 8 = 30 then Some (3, b mod 8) else None)"

text \<open>The continuation bytes; a byte past the end is \<open>undefined\<close>, which is not one.\<close>

fun continuation :: "nat \<Rightarrow> nat \<Rightarrow> nat list \<Rightarrow> nat option" where
  "continuation 0 code bs = Some code"
| "continuation (Suc k) code [] = None"
| "continuation (Suc k) code (b # bs) =
     (if b div 64 = 2 then continuation k (code * 64 + b mod 64) bs else None)"

definition least_point :: "nat \<Rightarrow> nat" where
  "least_point cnt = (if cnt = 1 then 0x80 else if cnt = 2 then 0x800 else 0x10000)"

text \<open>The loop of \<open>decode\<close> on the bytes still to read: the text, and the bytes held for the next call.\<close>

function text_loop :: "bool \<Rightarrow> nat list \<Rightarrow> jsstr \<times> nat list" where
  "text_loop stream [] = ([], [])"
| "text_loop stream (b # bs) =
     (if b < 0x80 then apfst ((#) (word_of_nat b)) (text_loop stream bs)
      else case lead_byte b of
        None \<Rightarrow> apfst ((#) 0xFFFD) (text_loop stream bs)
      | Some (cnt, code) \<Rightarrow>
          if length bs + (if stream then 1 else 2) \<le> cnt then
            (if stream then ([], b # bs) else ([0xFFFD], []))
          else (case continuation cnt code bs of
              None \<Rightarrow> apfst ((#) 0xFFFD) (text_loop stream bs)
            | Some p \<Rightarrow>
                if p < least_point cnt \<or> 0x10FFFF < p \<or> 0xD800 \<le> p \<and> p \<le> 0xDFFF
                then apfst ((#) 0xFFFD) (text_loop stream (drop cnt bs))
                else apfst ((@) (units p)) (text_loop stream (drop cnt bs))))"
  by pat_completeness auto
termination by (relation "measure (length \<circ> snd)") auto

record text_decoder =
  td_encoding :: string
  td_pending :: "byte list"

definition newTextDecoder :: "string \<Rightarrow> text_decoder" where
  "newTextDecoder encoding = \<lparr>td_encoding = encoding, td_pending = []\<rparr>"

text \<open>\<open>decode(input, {stream})\<close>. A call with no input returns the empty string whatever is pending.\<close>

definition text_decode :: "text_decoder \<Rightarrow> byte list option \<Rightarrow> bool \<Rightarrow> jsstr \<times> text_decoder" where
  "text_decode td input stream =
     (case input of
        None \<Rightarrow> ([], td)
      | Some bytes \<Rightarrow>
          if td_encoding td \<in> {''latin1'', ''binary'', ''iso-8859-1''}
          then (map (\<lambda>b. word_of_nat (unat b)) bytes, td)
          else (case text_loop stream (map unat (td_pending td @ bytes)) of
            (out, pending) \<Rightarrow> (out, td\<lparr>td_pending := map word_of_nat pending\<rparr>)))"

text \<open>Chunks decoded as a stream, the last one with the final call.\<close>

fun text_decode_chunks :: "text_decoder \<Rightarrow> byte list list \<Rightarrow> byte list \<Rightarrow> jsstr" where
  "text_decode_chunks td [] final = fst (text_decode td (Some final) False)"
| "text_decode_chunks td (c # cs) final =
     (case text_decode td (Some c) True of (out, td) \<Rightarrow> out @ text_decode_chunks td cs final)"

text \<open>
  \<open>TextDecoderStream\<close> and \<open>TextEncoderStream\<close> (\<open>node-extras.js\<close>): what \<open>transform\<close> enqueues for each chunk, and \<open>flush\<close> at
  the end. The decoder ends with \<open>decode()\<close>; the encoder holds a high surrogate at the end of a chunk back.
\<close>

fun TextDecoderStream :: "text_decoder \<Rightarrow> byte list list \<Rightarrow> jsstr list" where
  "TextDecoderStream td [] = (let t = fst (text_decode td None False) in if t = [] then [] else [t])"
| "TextDecoderStream td (c # cs) =
     (case text_decode td (Some c) True of (t, td) \<Rightarrow> (if t = [] then [] else [t]) @ TextDecoderStream td cs)"

fun TextEncoderStream :: "jsstr \<Rightarrow> jsstr list \<Rightarrow> byte list list" where
  "TextEncoderStream pending [] = (if pending = [] then [] else [utf8_encode pending])"
| "TextEncoderStream pending (c # cs) =
     (let emit = pending @ c;
          (emit, pending) = (if emit \<noteq> [] \<and> is_high (last emit) then (butlast emit, [last emit]) else (emit, []))
      in (if emit = [] then [] else [utf8_encode emit]) @ TextEncoderStream pending cs)"

subsection \<open>Streaming\<close>

lemma continuation_append:
  "k \<le> length bs \<Longrightarrow> continuation k code (bs @ cs) = continuation k code bs"
  by (induction k code bs rule: continuation.induct) auto

lemma lead_needs: "lead_byte b = Some (cnt, code) \<Longrightarrow> 1 \<le> cnt \<and> cnt \<le> 3"
  by (auto simp: lead_byte_def split: if_splits)

lemma text_loop_held: "text_loop stream bs = (out, p) \<Longrightarrow> set p \<subseteq> set bs"
proof (induction stream bs arbitrary: out p rule: text_loop.induct)
  case (2 stream b bs)
  have d: "set (drop k bs) \<subseteq> set bs" for k by (rule set_drop_subset)
  show ?case
  proof (cases "b < 0x80")
    case True
    then show ?thesis using 2(1) [OF True] 2(6) by (cases "text_loop stream bs") auto
  next
    case ge: False
    show ?thesis
    proof (cases "lead_byte b")
      case None
      then show ?thesis using 2(2) [OF ge None] 2(6) ge by (cases "text_loop stream bs") auto
    next
      case (Some a)
      obtain k code where a: "a = (k, code)" by (cases a)
      note lead = Some [unfolded a]
      show ?thesis
      proof (cases "length bs + (if stream then 1 else 2) \<le> k")
        case True
        then show ?thesis using 2(6) ge lead by (auto split: if_splits)
      next
        case long: False
        show ?thesis
        proof (cases "continuation k code bs")
          case none: None
          show ?thesis using 2(3) [OF ge lead refl long none] 2(6) ge lead long none
            by (cases "text_loop stream bs") (auto split: if_splits)
        next
          case (Some q)
          show ?thesis
            using 2(4) [OF ge lead refl long Some] 2(5) [OF ge lead refl long Some] 2(6) ge lead long Some d [of k]
            by (cases "text_loop stream (drop k bs)") (auto split: if_splits)
        qed
      qed
    qed
  qed
qed simp

lemma text_loop_append:
  "text_loop True xs = (out, p) \<Longrightarrow> text_loop stream (xs @ ys) = apfst ((@) out) (text_loop stream (p @ ys))"
proof (induction True xs arbitrary: out p rule: text_loop.induct)
  case 1
  then show ?case by (cases "text_loop stream ys") auto
next
  case (2 b bs)
  have app: "apfst ((#) c) (apfst ((@) o1) z) = apfst ((@) (c # o1)) z" "apfst ((@) o2) (apfst ((@) o1) z) = apfst ((@) (o2 @ o1)) z"
    for c o1 o2 and z :: "jsstr \<times> nat list" by (cases z; simp)+
  show ?case
  proof (cases "b < 0x80")
    case True
    then show ?thesis using 2(1) [OF True] 2(6) by (cases "text_loop True bs") (auto simp: app)
  next
    case ge: False
    show ?thesis
    proof (cases "lead_byte b")
      case None
      then show ?thesis using 2(2) [OF ge None] 2(6) ge by (cases "text_loop True bs") (auto simp: app)
    next
      case (Some a)
      obtain cnt code where a: "a = (cnt, code)" by (cases a)
      note lead = Some [unfolded a]
      show ?thesis
      proof (cases "length bs + 1 \<le> cnt")
        case True
        then show ?thesis using 2(6) ge lead by (auto simp: apfst_def map_prod_def split: prod.split)
      next
        case long: False
        then have c: "continuation cnt code (bs @ ys) = continuation cnt code bs"
            and d: "drop cnt (bs @ ys) = drop cnt bs @ ys"
            and l: "\<not> length (bs @ ys) + (if stream then 1 else 2) \<le> cnt"
          using continuation_append [of cnt bs code ys] by auto
        show ?thesis
        proof (cases "continuation cnt code bs")
          case none: None
          show ?thesis using 2(3) [OF ge Some [unfolded a] refl _ none] 2(6) ge lead long l c none
            by (cases "text_loop True bs") (auto simp: app)
        next
          case (Some q)
          show ?thesis
            using 2(4) [OF ge lead refl _ Some] 2(5) [OF ge lead refl _ Some] 2(6) ge lead long l c d Some
            by (cases "text_loop True (drop cnt bs)") (auto simp: app split: if_splits)
        qed
      qed
    qed
  qed
qed


text \<open>What is held is the end of the input, the start of one character.\<close>

lemma text_loop_tail: "text_loop stream bs = (out, p) \<Longrightarrow> length p \<le> 3 \<and> (\<exists>pre. bs = pre @ p)"
proof (induction stream bs arbitrary: out p rule: text_loop.induct)
  case (2 stream b bs)
  have one: "\<exists>pre. b # bs = pre @ p" if "\<exists>pre. bs = pre @ p" using that by (metis append_Cons)
  have more: "\<exists>pre. b # bs = pre @ p" if "\<exists>pre. drop k bs = pre @ p" for k
    using that append_take_drop_id [of k bs] by (metis append_Cons append_assoc)
  show ?case
  proof (cases "b < 0x80")
    case True
    then show ?thesis using 2(1) [OF True] 2(6) one by (cases "text_loop stream bs") auto
  next
    case ge: False
    show ?thesis
    proof (cases "lead_byte b")
      case None
      then show ?thesis using 2(2) [OF ge None] 2(6) ge one by (cases "text_loop stream bs") auto
    next
      case (Some a)
      obtain cnt code where a: "a = (cnt, code)" by (cases a)
      note lead = Some [unfolded a]
      have cnt: "cnt \<le> 3" using lead by (auto simp: lead_byte_def split: if_splits)
      show ?thesis
      proof (cases "length bs + (if stream then 1 else 2) \<le> cnt")
        case True
        then show ?thesis using 2(6) ge lead cnt by (auto split: if_splits)
      next
        case long: False
        show ?thesis
        proof (cases "continuation cnt code bs")
          case none: None
          show ?thesis using 2(3) [OF ge Some [unfolded a] refl long none] 2(6) ge lead long none one
            by (cases "text_loop stream bs") auto
        next
          case (Some q)
          show ?thesis
            using 2(4) [OF ge lead refl long Some] 2(5) [OF ge lead refl long Some] 2(6) ge lead long Some more [of cnt]
            by (cases "text_loop stream (drop cnt bs)") (auto split: if_splits)
        qed
      qed
    qed
  qed
qed simp

lemma held_bytes: "text_loop True (map unat (bs :: byte list)) = (out, q) \<Longrightarrow> map unat (map word_of_nat q :: byte list) = q"
proof -
  assume q: "text_loop True (map unat bs) = (out, q)"
  have "unat (word_of_nat x :: byte) = x" if "x \<in> set q" for x using that text_loop_held [OF q] by auto
  then show ?thesis by (simp add: map_idI)
qed

lemma chunks_decoded:
  "text_decode_chunks \<lparr>td_encoding = ''utf-8'', td_pending = p\<rparr> cs final =
      fst (text_loop False (map unat (p @ concat cs @ final)))"
proof (induction cs arbitrary: p)
  case (Cons c cs)
  obtain out q where q: "text_loop True (map unat (p @ c)) = (out, q)" by fastforce
  from Cons.IH [of "map word_of_nat q"] held_bytes [OF q] q text_loop_append [OF q, of False "map unat (concat cs @ final)"]
  show ?case by (cases "text_loop False (q @ map unat (concat cs @ final))") (simp add: text_decode_def)
qed (simp add: text_decode_def split_beta)

lemma stream_decoded:
  "length p \<le> 3 \<Longrightarrow> fst (text_loop True (map unat p)) = [] \<Longrightarrow>
   concat (TextDecoderStream \<lparr>td_encoding = ''utf-8'', td_pending = p\<rparr> cs) = fst (text_loop True (map unat (p @ concat cs)))"
proof (induction cs arbitrary: p)
  case (Cons c cs)
  obtain out q where q: "text_loop True (map unat (p @ c)) = (out, q)" by fastforce
  have "text_loop True q = ([], q)"
    using text_loop_append [OF q, of True "[]"] q by (cases "text_loop True q") auto
  then have "concat (TextDecoderStream \<lparr>td_encoding = ''utf-8'', td_pending = map word_of_nat q\<rparr> cs) =
      fst (text_loop True (q @ map unat (concat cs)))"
    using Cons.IH [of "map word_of_nat q"] held_bytes [OF q] text_loop_tail [OF q] by simp
  then show ?case using q text_loop_append [OF q, of True "map unat (concat cs)"]
    by (cases "text_loop True (q @ map unat (concat cs))") (simp add: text_decode_def)
qed (simp add: text_decode_def)

lemma code_points_append: "xs = [] \<or> \<not> is_high (last xs) \<Longrightarrow> code_points (xs @ ys) = code_points xs @ code_points ys"
proof (induction xs rule: code_points.induct)
  case (2 c)
  then show ?case by (cases ys) auto
next
  case (3 c d cs)
  show ?case
  proof (cases "is_high c \<and> is_low d")
    case True
    then show ?thesis using 3 by (cases "cs = []") auto
  next
    case False
    then show ?thesis using 3 by auto
  qed
qed simp

lemma utf8_encode_append: "xs = [] \<or> \<not> is_high (last xs) \<Longrightarrow> utf8_encode (xs @ ys) = utf8_encode xs @ utf8_encode ys"
  by (simp add: utf8_encode_def code_points_append)

lemma before_high: "is_high d \<Longrightarrow> code_points (xs @ d # ys) = code_points xs @ code_points (d # ys)"
proof (induction xs rule: code_points.induct)
  case (2 c)
  have "\<not> is_low d" using 2 by (auto simp: is_high_def is_low_def)
  then show ?case by simp
next
  case (3 c e cs)
  then show ?case by auto
qed simp

lemma utf8_encode_nothing: "utf8_encode [] = []"
  by (simp add: utf8_encode_def)

lemma stream_encoded: "concat (TextEncoderStream p cs) = utf8_encode (p @ concat cs)"
proof (induction cs arbitrary: p)
  case (Cons c cs)
  show ?case
  proof (cases "p @ c \<noteq> [] \<and> is_high (last (p @ c))")
    case True
    obtain xs d where xs: "p @ c = xs @ [d]" using True by (cases "p @ c" rule: rev_cases) auto
    have "utf8_encode (p @ c @ concat cs) = utf8_encode xs @ utf8_encode (d # concat cs)"
      using True before_high [of d xs "concat cs"] xs unfolding append_assoc [symmetric] xs by (simp add: utf8_encode_def)
    then show ?thesis using Cons [of "[d]"] True xs by (auto simp: Let_def utf8_encode_nothing)
  next
    case False
    then have "utf8_encode ((p @ c) @ concat cs) = utf8_encode (p @ c) @ utf8_encode (concat cs)" by (intro utf8_encode_append) auto
    then show ?thesis using Cons [of "[]"] False by (auto simp: Let_def utf8_encode_nothing)
  qed
qed (simp add: utf8_encode_def)

text \<open>
  C26: However bytes are cut into chunks, also within a character: the streamed decoding that ends with bytes is that of all
  at once. What a \<open>TextDecoderStream\<close> enqueues is that text less the decoding of at most three bytes at the very end, those held
  back for the rest of a character, which its last call drops. What a \<open>TextEncoderStream\<close> enqueues is the encoding of the whole text.
\<close>

theorem text_streaming:
  "text_decode_chunks (newTextDecoder ''utf-8'') cs final =
     fst (text_decode (newTextDecoder ''utf-8'') (Some (concat cs @ final)) False) \<and>
   (\<exists>whole cut. concat cs = whole @ cut \<and> length cut \<le> 3 \<and>
     fst (text_decode (newTextDecoder ''utf-8'') (Some (concat cs)) False) =
       concat (TextDecoderStream (newTextDecoder ''utf-8'') cs) @ fst (text_decode (newTextDecoder ''utf-8'') (Some cut) False)) \<and>
   concat (TextEncoderStream [] texts) = utf8_encode (concat texts)"
proof (intro conjI)
  show "text_decode_chunks (newTextDecoder ''utf-8'') cs final =
     fst (text_decode (newTextDecoder ''utf-8'') (Some (concat cs @ final)) False)"
    using chunks_decoded [of "[]" cs final] by (simp add: newTextDecoder_def text_decode_def split_beta)
  obtain out q where q: "text_loop True (map unat (concat cs)) = (out, q)" by fastforce
  obtain pre where pre: "map unat (concat cs) = pre @ q" "length q \<le> 3" using text_loop_tail [OF q] by blast
  have "concat (TextDecoderStream (newTextDecoder ''utf-8'') cs) = out"
    using stream_decoded [of "[]" cs] q by (simp add: newTextDecoder_def)
  moreover have "fst (text_loop False (map unat (concat cs))) = out @ fst (text_loop False q)"
    using text_loop_append [OF q, of False "[]"] by (cases "text_loop False q") simp
  moreover have "concat cs = take (length pre) (concat cs) @ map word_of_nat q"
  proof -
    have "concat cs = map word_of_nat (map unat (concat cs))" by (simp add: comp_def)
    also have "\<dots> = take (length pre) \<dots> @ map word_of_nat q" unfolding pre(1) by simp
    finally show ?thesis by (simp add: comp_def)
  qed
  ultimately show "\<exists>whole cut. concat cs = whole @ cut \<and> length cut \<le> 3 \<and>
     fst (text_decode (newTextDecoder ''utf-8'') (Some (concat cs)) False) =
       concat (TextDecoderStream (newTextDecoder ''utf-8'') cs) @ fst (text_decode (newTextDecoder ''utf-8'') (Some cut) False)"
    using pre(2) held_bytes [OF q]
    by (intro exI [of _ "take (length pre) (concat cs)"] exI [of _ "map word_of_nat q"])
      (simp add: newTextDecoder_def text_decode_def split_beta)
  show "concat (TextEncoderStream [] texts) = utf8_encode (concat texts)" by (simp add: stream_encoded)
qed

subsection \<open>Reading back\<close>

lemma div_offset:
  "(192 + a) div 32 = (6 + a div 32 :: nat)" "(224 + a) div 16 = (14 + a div 16 :: nat)"
  "(240 + a) div 8 = (30 + a div 8 :: nat)" "(128 + b) div 64 = (2 + b div 64 :: nat)"
  by presburger+

lemma lead_byte_simps:
  "a < 32 \<Longrightarrow> lead_byte (192 + a) = Some (1, a)"
  "a < 16 \<Longrightarrow> lead_byte (224 + a) = Some (2, a)"
  "a < 8 \<Longrightarrow> lead_byte (240 + a) = Some (3, a)"
proof -
  show "a < 32 \<Longrightarrow> lead_byte (192 + a) = Some (1, a)"
    unfolding lead_byte_def div_offset mod_offset by simp
  have "(224 + a) div 32 = 7" if "a < 16" for a :: nat using that by linarith
  then show "a < 16 \<Longrightarrow> lead_byte (224 + a) = Some (2, a)"
    unfolding lead_byte_def div_offset mod_offset by simp
  have "(240 + a) div 32 = 7" "(240 + a) div 16 = 15" if "a < 8" for a :: nat using that by linarith+
  then show "a < 8 \<Longrightarrow> lead_byte (240 + a) = Some (3, a)"
    unfolding lead_byte_def div_offset mod_offset by simp
qed

lemma continuation_byte: "b < 64 \<Longrightarrow> continuation (Suc k) code ((128 + b) # bs) = continuation k (code * 64 + b) bs"
  by (simp add: div_offset mod_offset)

lemma text_loop_char:
  assumes "scalar n"
  shows "text_loop stream (utf8_char n @ bs) = apfst ((@) (units n)) (text_loop stream bs)"
proof -
  have sur: "\<not> (0x10FFFF < n \<or> 0xD800 \<le> n \<and> n \<le> 0xDFFF)" using assms by (auto simp: scalar_def)
  have step: "text_loop stream (l # cs @ bs) = apfst ((@) (units n)) (text_loop stream bs)"
    if "\<not> l < 0x80" "lead_byte l = Some (length cs, code)" "continuation (length cs) code (cs @ bs) = Some n"
      "least_point (length cs) \<le> n" for l cs code
    using that sur by (simp add: linorder_not_less) linarith
  consider "n < 0x80" | "0x80 \<le> n" "n < 0x800" | "0x800 \<le> n" "n < 0x10000" | "0x10000 \<le> n" "n < 0x110000"
    using assms by (fastforce simp: scalar_def)
  then show ?thesis
  proof cases
    case 1
    then show ?thesis by (cases "text_loop stream bs") (simp add: utf8_char_def units_def)
  next
    case 2
    define a b where "a = n div 64" and "b = n mod 64"
    have n: "n = a * 64 + b" "b < 64" using sextets(1) [of n] by (simp_all add: a_def b_def)
    then have "a < 32" using 2 by linarith
    have "text_loop stream ((192 + a) # [128 + b] @ bs) = apfst ((@) (units n)) (text_loop stream bs)"
    proof (rule step)
      show "lead_byte (192 + a) = Some (length [128 + b], a)" using lead_byte_simps(1) [OF \<open>a < 32\<close>] by simp
      show "continuation (length [128 + b]) a ([128 + b] @ bs) = Some n"
        using continuation_byte [OF n(2), of 0 a bs] n(1) by simp
      show "least_point (length [128 + b]) \<le> n" using 2 by (simp add: least_point_def)
    qed simp
    moreover have "utf8_char n = [192 + a, 128 + b]" using 2 by (simp add: utf8_char_def a_def b_def)
    ultimately show ?thesis by simp
  next
    case 3
    define a b c where "a = n div 4096" and "b = n div 64 mod 64" and "c = n mod 64"
    have n: "n = (a * 64 + b) * 64 + c" "b < 64" "c < 64" using sextets(2) [of n] by (simp_all add: a_def b_def c_def)
    have "n = a * 4096 + b * 64 + c" using n(1) by simp
    then have "a < 16" using 3 by linarith
    have "text_loop stream ((224 + a) # [128 + b, 128 + c] @ bs) = apfst ((@) (units n)) (text_loop stream bs)"
    proof (rule step)
      show "lead_byte (224 + a) = Some (length [128 + b, 128 + c], a)" using lead_byte_simps(2) [OF \<open>a < 16\<close>] by simp
      have "length [128 + b, 128 + c] = Suc (Suc 0)" by simp
      then show "continuation (length [128 + b, 128 + c]) a ([128 + b, 128 + c] @ bs) = Some n"
        unfolding append_Cons continuation_byte [OF n(2)] continuation_byte [OF n(3)]
        by (simp only: continuation_byte [OF n(2)] continuation_byte [OF n(3)] continuation.simps(1) n(1))
      show "least_point (length [128 + b, 128 + c]) \<le> n" using 3 by (simp add: least_point_def)
    qed simp
    moreover have "utf8_char n = [224 + a, 128 + b, 128 + c]" using 3 by (simp add: utf8_char_def a_def b_def c_def)
    ultimately show ?thesis by simp
  next
    case 4
    define a b c d where "a = n div 262144" and "b = n div 4096 mod 64" and "c = n div 64 mod 64" and "d = n mod 64"
    have n: "n = ((a * 64 + b) * 64 + c) * 64 + d" "b < 64" "c < 64" "d < 64"
      using sextets(3) [of n] by (simp_all add: a_def b_def c_def d_def)
    have "n = a * 262144 + b * 4096 + c * 64 + d" using n(1) by simp
    then have "a < 8" using 4 by linarith
    have "text_loop stream ((240 + a) # [128 + b, 128 + c, 128 + d] @ bs) = apfst ((@) (units n)) (text_loop stream bs)"
    proof (rule step)
      show "lead_byte (240 + a) = Some (length [128 + b, 128 + c, 128 + d], a)" using lead_byte_simps(3) [OF \<open>a < 8\<close>] by simp
      have "length [128 + b, 128 + c, 128 + d] = Suc (Suc (Suc 0))" by simp
      then show "continuation (length [128 + b, 128 + c, 128 + d]) a ([128 + b, 128 + c, 128 + d] @ bs) = Some n"
        by (simp only: append_Cons continuation_byte [OF n(2)] continuation_byte [OF n(3)] continuation_byte [OF n(4)] continuation.simps(1) n(1))
      show "least_point (length [128 + b, 128 + c, 128 + d]) \<le> n" using 4 by (simp add: least_point_def)
    qed simp
    moreover have "utf8_char n = [240 + a, 128 + b, 128 + c, 128 + d]" using 4 by (simp add: utf8_char_def a_def b_def c_def d_def)
    ultimately show ?thesis by simp
  qed
qed

lemma text_loop_chars:
  "\<forall>n \<in> set ns. scalar n \<Longrightarrow> text_loop stream (concat (map utf8_char ns) @ bs) = apfst ((@) (of_code_points ns)) (text_loop stream bs)"
proof (induction ns)
  case Nil
  then show ?case by (cases "text_loop stream bs") (simp add: of_code_points_def)
next
  case (Cons n ns)
  then show ?case by (cases "text_loop stream bs") (simp add: text_loop_char of_code_points_def)
qed

text \<open>The text of all the bytes at once, by a decoder of its own.\<close>

definition text_of :: "byte list \<Rightarrow> jsstr" where
  "text_of bs = fst (text_decode (newTextDecoder ''utf-8'') (Some bs) False)"

lemma text_of_encode: "text_of (utf8_encode s) = of_code_points (code_points s)"
  using text_loop_chars [of "code_points s" False "[]"] code_points_scalar [of _ s]
  by (simp add: text_of_def text_decode_def newTextDecoder_def utf8_encode_nats split_beta)

lemma code_points_units:
  assumes "scalar n"
  shows "code_points (units n @ s) = n # code_points s"
proof (cases "n < 0x10000")
  case True
  then have "unat (word_of_nat n :: jschar) = n" by (simp add: unat_of_nat)
  then have "\<not> is_high (word_of_nat n) \<and> \<not> is_low (word_of_nat n)" using assms by (auto simp: is_high_def is_low_def scalar_def)
  with True \<open>unat (word_of_nat n :: jschar) = n\<close> show ?thesis by (cases s) (simp_all add: units_def)
next
  case False
  define h l where "h = (n - 0x10000) div 1024" and "l = (n - 0x10000) mod 1024"
  have hl: "h < 1024" "l < 1024" "n = 0x10000 + h * 1024 + l" using assms False by (auto simp: scalar_def h_def l_def)
  then have u: "unat (word_of_nat (0xD800 + h) :: jschar) = 0xD800 + h" "unat (word_of_nat (0xDC00 + l) :: jschar) = 0xDC00 + l"
    by (simp_all add: unat_of_nat del: of_nat_add)
  have "units n = [word_of_nat (0xD800 + h), word_of_nat (0xDC00 + l)]" using False by (simp add: units_def h_def l_def)
  with u hl show ?thesis by (simp add: is_high_def is_low_def del: of_nat_add)
qed

lemma code_points_of: "\<forall>n \<in> set ns. scalar n \<Longrightarrow> code_points (of_code_points ns) = ns"
  by (induction ns) (simp_all add: of_code_points_def code_points_units)

text \<open>The decoder reads back what the encoder writes, whatever the code units: the string itself, each surrogate without
  its partner replaced by U+FFFD, which is encoded as the first string was.\<close>

theorem text_roundtrip:
  "fst (text_decode (newTextDecoder ''utf-8'') (Some (utf8_encode s)) False) = of_code_points (code_points s) \<and>
   utf8_encode (of_code_points (code_points s)) = utf8_encode s"
  using text_of_encode [of s] code_points_of [of "code_points s"] code_points_scalar [of _ s]
  by (simp add: text_of_def utf8_encode_def)

text \<open>Against the standard: a byte order mark is not dropped.\<close>

lemma text_mark_kept:
  "utf8_decode (utf8_encode s) =
     (if code_points s \<noteq> [] \<and> hd (code_points s) = 0xFEFF then of_code_points (tl (code_points s)) else text_of (utf8_encode s))"
  by (simp add: utf8_roundtrip text_of_encode)

text \<open>Two bytes end a character of four at once: the second is lost although it is none of its bytes.\<close>

lemma text_tail_lost:
  "fst (text_decode (newTextDecoder ''utf-8'') (Some [0xF0, 0x41]) False) = [0xFFFD] \<and>
   utf8_decode [0xF0, 0x41] = [0xFFFD, 0x41]"
  by (simp add: text_decode_def newTextDecoder_def lead_byte_def utf8_decode_def utf8_start_def of_code_points_def units_def)

text \<open>The end of the input is not reported: what is pending gives no U+FFFD and is read before the next input.\<close>

lemma text_pending_kept:
  "text_decode (newTextDecoder ''utf-8'') (Some [0xC3]) True = ([], \<lparr>td_encoding = ''utf-8'', td_pending = [0xC3]\<rparr>) \<and>
   text_decode \<lparr>td_encoding = ''utf-8'', td_pending = [0xC3]\<rparr> None False = ([], \<lparr>td_encoding = ''utf-8'', td_pending = [0xC3]\<rparr>)"
  by (simp add: text_decode_def newTextDecoder_def lead_byte_def)

text \<open>\<open>encodeInto\<close> writes a part of a character and says that it read all of it.\<close>

lemma encodeInto_splits: "encodeInto [0xE9] [0] = ([0xC3], 1, 1)"
  by (simp add: encodeInto_def utf8_encode_def utf8_char_def is_high_def is_low_def)

end
