(* ===== verification/BufferText.thy ===== *)
theory BufferText
  imports Utf8 TextNum
begin

text \<open>
  Bytes as text in the encodings of \<open>Buffer\<close> (\<open>node-buffer.js\<close>: \<open>normalizeEncoding\<close>, \<open>stringBytes\<close>,
  \<open>bytesString\<close> and the Base64 tables and loops) and \<open>StringDecoder\<close> (\<open>node-compat.js\<close>), which reads a text
  that arrives in chunks. \<open>B64_LOOKUP\<close> is an \<open>Int16Array\<close>, here a list of integers; the accumulator of
  \<open>decodeBase64\<close> never holds more than twelve bits and is a natural number.
\<close>

subsection \<open>Names of encodings\<close>

datatype encoding = EncUtf8 | EncHex | EncBase64 | EncBase64url | EncLatin1 | EncAscii | EncUtf16le

text \<open>\<open>None\<close> is \<open>undefined\<close> or \<open>null\<close>; the result \<open>None\<close> an encoding that is not known.\<close>

definition normalizeEncoding :: "(jsstr \<Rightarrow> jsstr) \<Rightarrow> jsstr option \<Rightarrow> encoding option" where
  "normalizeEncoding toLower enc =
     (case enc of
        None \<Rightarrow> Some EncUtf8
      | Some text \<Rightarrow>
          if text = [] then Some EncUtf8
          else let name = toLower text
               in if name \<in> {js ''utf8'', js ''utf-8''} then Some EncUtf8
                  else if name = js ''hex'' then Some EncHex
                  else if name = js ''base64'' then Some EncBase64
                  else if name = js ''base64url'' then Some EncBase64url
                  else if name \<in> {js ''latin1'', js ''binary''} then Some EncLatin1
                  else if name = js ''ascii'' then Some EncAscii
                  else if name \<in> {js ''ucs2'', js ''ucs-2'', js ''utf16le'', js ''utf-16le''} then Some EncUtf16le
                  else None)"

text \<open>The errors of the module, by their codes; \<open>RANGE_ERROR\<close> is one of the engine.\<close>

datatype buffer_error =
    UNKNOWN_ENCODING | OUT_OF_RANGE | BUFFER_OUT_OF_BOUNDS | INVALID_ARG_TYPE | INVALID_ARG_VALUE | INVALID_BUFFER_SIZE
  | RANGE_ERROR

definition encodingOrThrow :: "(jsstr \<Rightarrow> jsstr) \<Rightarrow> jsstr option \<Rightarrow> buffer_error + encoding" where
  "encodingOrThrow toLower enc =
     (case normalizeEncoding toLower enc of None \<Rightarrow> Inl UNKNOWN_ENCODING | Some normalized \<Rightarrow> Inr normalized)"

subsection \<open>Base64\<close>

text \<open>The alphabets, as character codes.\<close>

definition b64_codes :: "nat list" where
  "b64_codes = [65..<91] @ [97..<123] @ [48..<58] @ [43, 47]"

definition b64url_codes :: "nat list" where
  "b64url_codes = [65..<91] @ [97..<123] @ [48..<58] @ [45, 95]"

definition B64 :: jsstr where "B64 = map word_of_nat b64_codes"

definition B64URL :: jsstr where "B64URL = map word_of_nat b64url_codes"

definition B64_LOOKUP :: "int list" where
  "B64_LOOKUP = fold (\<lambda>i t. t[unat (B64 ! i) := int i, unat (B64URL ! i) := int i]) [0..<64] (replicate 256 (- 1))"

fun decodeBase64_loop :: "nat \<Rightarrow> nat \<Rightarrow> jsstr \<Rightarrow> byte list" where
  "decodeBase64_loop acc bits [] = []"
| "decodeBase64_loop acc bits (c # cs) =
     (if c = 61 then []
      else let v = (if unat c < 256 then B64_LOOKUP ! unat c else - 1)
           in if v < 0 then decodeBase64_loop acc bits cs
              else let acc = acc * 64 + nat v; bits = bits + 6
                   in if 8 \<le> bits
                      then word_of_nat (acc div 2 ^ (bits - 8)) # decodeBase64_loop (acc mod 2 ^ (bits - 8)) (bits - 8) cs
                      else decodeBase64_loop acc bits cs)"

definition decodeBase64 :: "jsstr \<Rightarrow> byte list" where
  "decodeBase64 str = decodeBase64_loop 0 0 str"

definition b64_char :: "jsstr \<Rightarrow> nat \<Rightarrow> jschar" where
  "b64_char alphabet n = alphabet ! (n mod 64)"

fun encodeBase64 :: "byte list \<Rightarrow> jsstr \<Rightarrow> bool \<Rightarrow> jsstr" where
  "encodeBase64 [] alphabet pad = []"
| "encodeBase64 [a] alphabet pad =
     (let triple = unat a * 65536
      in [b64_char alphabet (triple div 262144), b64_char alphabet (triple div 4096)] @ (if pad then [61, 61] else []))"
| "encodeBase64 [a, b] alphabet pad =
     (let triple = unat a * 65536 + unat b * 256
      in [b64_char alphabet (triple div 262144), b64_char alphabet (triple div 4096), b64_char alphabet (triple div 64)]
           @ (if pad then [61] else []))"
| "encodeBase64 (a # b # c # rest) alphabet pad =
     (let triple = unat a * 65536 + unat b * 256 + unat c
      in [b64_char alphabet (triple div 262144), b64_char alphabet (triple div 4096), b64_char alphabet (triple div 64),
          b64_char alphabet triple] @ encodeBase64 rest alphabet pad)"

subsection \<open>The other encodings\<close>

definition is_hex_digit :: "jschar \<Rightarrow> bool" where
  "is_hex_digit c \<longleftrightarrow> digit_val c < 16"

text \<open>An odd character at the end is not looked at.\<close>

fun hex_bytes :: "jsstr \<Rightarrow> byte list" where
  "hex_bytes (a # b # rest) =
     (if is_hex_digit a \<and> is_hex_digit b then word_of_nat (digit_val a * 16 + digit_val b) # hex_bytes rest else [])"
| "hex_bytes str = []"

fun utf16_text :: "byte list \<Rightarrow> jsstr" where
  "utf16_text (a # b # rest) = word_of_nat (unat a + 256 * unat b) # utf16_text rest"
| "utf16_text bytes = []"

text \<open>The two bytes of a code block.\<close>

definition low_byte :: "jschar \<Rightarrow> byte" where
  "low_byte c = word_of_nat (unat c)"

definition high_byte :: "jschar \<Rightarrow> byte" where
  "high_byte c = word_of_nat (unat c div 256)"

definition stringBytes :: "jsstr \<Rightarrow> encoding \<Rightarrow> byte list" where
  "stringBytes str enc =
     (case enc of
        EncUtf8 \<Rightarrow> utf8_encode str
      | EncHex \<Rightarrow> hex_bytes str
      | EncBase64 \<Rightarrow> decodeBase64 str
      | EncBase64url \<Rightarrow> decodeBase64 str
      | EncLatin1 \<Rightarrow> map low_byte str
      | EncAscii \<Rightarrow> map low_byte str
      | EncUtf16le \<Rightarrow> concat (map (\<lambda>c. [low_byte c, high_byte c]) str))"

definition hex_char_pair :: "byte \<Rightarrow> jsstr" where
  "hex_char_pair b = (if unat b < 16 then js ''0'' else []) @ to_base 16 (unat b)"

definition bytesString :: "encoding \<Rightarrow> byte list \<Rightarrow> jsstr" where
  "bytesString enc bytes =
     (case enc of
        EncUtf8 \<Rightarrow> text_of bytes
      | EncHex \<Rightarrow> concat (map hex_char_pair bytes)
      | EncBase64 \<Rightarrow> encodeBase64 bytes B64 True
      | EncBase64url \<Rightarrow> encodeBase64 bytes B64URL False
      | EncLatin1 \<Rightarrow> map (\<lambda>b. word_of_nat (unat b)) bytes
      | EncAscii \<Rightarrow> map (\<lambda>b. word_of_nat (unat b mod 128)) bytes
      | EncUtf16le \<Rightarrow> utf16_text bytes)"

subsection \<open>StringDecoder\<close>

record string_decoder =
  sd_encoding :: encoding
  sd_pending :: "byte list"

definition newStringDecoder :: "(jsstr \<Rightarrow> jsstr) \<Rightarrow> jsstr option \<Rightarrow> buffer_error + string_decoder" where
  "newStringDecoder toLower encoding =
     (case normalizeEncoding toLower encoding of
        None \<Rightarrow> Inl UNKNOWN_ENCODING
      | Some enc \<Rightarrow> Inr \<lparr>sd_encoding = enc, sd_pending = []\<rparr>)"

text \<open>The length of the character that a byte starts.\<close>

definition utf8_need :: "nat \<Rightarrow> nat" where
  "utf8_need b = (if 240 \<le> b then 4 else if 224 \<le> b then 3 else if 192 \<le> b then 2 else 1)"

text \<open>The loop from the last byte backwards; \<open>seen\<close> bytes have been looked at, this one included.\<close>

fun utf8_tail :: "nat \<Rightarrow> nat list \<Rightarrow> nat" where
  "utf8_tail seen [] = 0"
| "utf8_tail seen (b # before) =
     (if 3 < seen then 0
      else if 128 \<le> b \<and> b < 192 then utf8_tail (Suc seen) before
      else if seen < utf8_need b then seen else 0)"

definition incompleteTail :: "encoding \<Rightarrow> byte list \<Rightarrow> nat" where
  "incompleteTail enc bytes =
     (let n = length bytes
      in case enc of
           EncUtf8 \<Rightarrow> utf8_tail 1 (rev (map unat bytes))
         | EncUtf16le \<Rightarrow>
             let keep = n mod 2;
                 u = unat (bytes ! (n - keep - 2)) + 256 * unat (bytes ! (n - keep - 1))
             in if 2 \<le> n - keep \<and> 0xD800 \<le> u \<and> u \<le> 0xDBFF then keep + 2 else keep
         | EncBase64 \<Rightarrow> n mod 3
         | EncBase64url \<Rightarrow> n mod 3
         | _ \<Rightarrow> 0)"

definition sd_write :: "string_decoder \<Rightarrow> byte list \<Rightarrow> jsstr \<times> string_decoder" where
  "sd_write sd bytes =
     (let all_bytes = sd_pending sd @ bytes;
          complete = length all_bytes - incompleteTail (sd_encoding sd) all_bytes
      in (bytesString (sd_encoding sd) (take complete all_bytes), sd\<lparr>sd_pending := drop complete all_bytes\<rparr>))"

definition sd_end :: "string_decoder \<Rightarrow> byte list option \<Rightarrow> jsstr \<times> string_decoder" where
  "sd_end sd buf =
     (let (out, sd) = (case buf of None \<Rightarrow> ([], sd) | Some bytes \<Rightarrow> sd_write sd bytes)
      in if sd_pending sd = [] then (out, sd)
         else (out @ (if sd_encoding sd = EncUtf8 then [0xFFFD] else bytesString (sd_encoding sd) (sd_pending sd)),
               sd\<lparr>sd_pending := []\<rparr>))"

text \<open>A whole stream: a write per chunk, then \<open>end()\<close>.\<close>

fun sd_run :: "string_decoder \<Rightarrow> byte list list \<Rightarrow> jsstr" where
  "sd_run sd [] = fst (sd_end sd None)"
| "sd_run sd (c # cs) = (case sd_write sd c of (out, sd) \<Rightarrow> out @ sd_run sd cs)"

subsection \<open>The tables\<close>

lemma length_codes: "length b64_codes = 64" "length b64url_codes = 64"
  by (simp_all add: b64_codes_def b64url_codes_def)

lemma codes_distinct: "distinct (b64_codes @ [45, 95])"
  by (auto simp: b64_codes_def)

lemma codes_small: "\<forall>c \<in> set b64_codes. c < 128" "\<forall>c \<in> set b64url_codes. c < 128"
  by (auto simp: b64_codes_def b64url_codes_def)

lemma codes_equal: "i < 62 \<Longrightarrow> b64url_codes ! i = b64_codes ! i"
proof -
  have "take 62 b64url_codes = take 62 b64_codes" by (simp add: b64_codes_def b64url_codes_def)
  then show "i < 62 \<Longrightarrow> ?thesis" by (metis nth_take)
qed

lemma unat_codes: "i < 64 \<Longrightarrow> unat (B64 ! i) = b64_codes ! i" "i < 64 \<Longrightarrow> unat (B64URL ! i) = b64url_codes ! i"
proof -
  assume i: "i < 64"
  then have "b64_codes ! i < 128" "b64url_codes ! i < 128" using codes_small length_codes by auto
  with i show "unat (B64 ! i) = b64_codes ! i" "unat (B64URL ! i) = b64url_codes ! i"
    by (simp_all add: B64_def B64URL_def length_codes unat_of_nat)
qed

lemma codes_apart:
  assumes "i < 64" and "j < 64" and "i \<noteq> j"
  shows "b64_codes ! i \<noteq> b64_codes ! j" "b64_codes ! i \<noteq> b64url_codes ! j" "b64url_codes ! i \<noteq> b64url_codes ! j"
proof -
  let ?c = "b64_codes @ [45, 95]"
  have at: "b64_codes ! k = ?c ! k" if "k < 64" for k using that by (simp add: nth_append length_codes)
  have url: "b64url_codes ! k = ?c ! (if k < 62 then k else k + 2)" if "k < 64" for k
  proof (cases "k < 62")
    case True
    then show ?thesis by (simp add: codes_equal nth_append length_codes)
  next
    case False
    then have "k = 62 \<or> k = 63" using that by auto
    then show ?thesis by (auto simp: b64_codes_def b64url_codes_def nth_append)
  qed
  have eq: "?c ! k = ?c ! l \<longleftrightarrow> k = l" if "k < 66" "l < 66" for k l
    using nth_eq_iff_index_eq [OF codes_distinct] that by (simp add: length_codes)
  show "b64_codes ! i \<noteq> b64_codes ! j" "b64url_codes ! i \<noteq> b64url_codes ! j" "b64_codes ! i \<noteq> b64url_codes ! j"
    using assms by (simp_all only: at url) (auto simp: eq split: if_splits)
qed

lemma fold_length: "length (fold (\<lambda>i t. t[f i := x i, g i := y i]) is t) = length t"
  by (induction "is" arbitrary: t) simp_all

text \<open>Entries written for different indices do not meet, so each keeps its value.\<close>

lemma code_less: "k < 64 \<Longrightarrow> b64_codes ! k < 128 \<and> b64url_codes ! k < 128"
  using codes_small length_codes by (metis nth_mem)

lemma lookup_upto:
  "n \<le> 64 \<Longrightarrow> i < n \<Longrightarrow> t = fold (\<lambda>i t. t[unat (B64 ! i) := int i, unat (B64URL ! i) := int i]) [0..<n] (replicate 256 (- 1)) \<Longrightarrow>
   t ! (b64_codes ! i) = int i \<and> t ! (b64url_codes ! i) = int i"
proof (induction n arbitrary: i t)
  case (Suc n)
  define u where "u = fold (\<lambda>i t. t[unat (B64 ! i) := int i, unat (B64URL ! i) := int i]) [0..<n] (replicate 256 (- 1 :: int))"
  have len: "length u = 256" by (simp add: u_def fold_length)
  have n: "n < 64" "i < 64" using Suc.prems by simp_all
  have t: "t = u[b64_codes ! n := int n, b64url_codes ! n := int n]"
    using Suc.prems(3) unat_codes [OF n(1)] by (simp add: u_def)
  note small = code_less [OF n(1)] code_less [OF n(2)]
  show ?case
  proof (cases "i = n")
    case True
    then show ?thesis unfolding t using small len by (simp add: nth_list_update)
  next
    case False
    then have "u ! (b64_codes ! i) = int i \<and> u ! (b64url_codes ! i) = int i"
      using Suc.prems by (intro Suc.IH) (simp_all add: u_def)
    then show ?thesis
      unfolding t using codes_apart [OF n(2,1) False] codes_apart [OF n False [symmetric]] False
      by (simp add: nth_list_update)
  qed
qed simp

lemma b64_code_not_pad: "i < 64 \<Longrightarrow> b64_codes ! i \<noteq> 61 \<and> b64url_codes ! i \<noteq> 61"
proof -
  have "61 \<notin> set b64_codes" "61 \<notin> set b64url_codes" by (auto simp: b64_codes_def b64url_codes_def)
  then show "i < 64 \<Longrightarrow> ?thesis" using length_codes by (metis nth_mem)
qed

lemma lookup_codes:
  assumes "i < 64"
  shows "B64_LOOKUP ! unat (B64 ! i) = int i" "B64_LOOKUP ! unat (B64URL ! i) = int i"
    "unat (B64 ! i) < 128" "unat (B64URL ! i) < 128" "B64 ! i \<noteq> 61" "B64URL ! i \<noteq> 61"
proof -
  note u = unat_codes [OF assms]
  show "B64_LOOKUP ! unat (B64 ! i) = int i" "B64_LOOKUP ! unat (B64URL ! i) = int i"
    using lookup_upto [OF order.refl assms refl] unfolding B64_LOOKUP_def u by simp_all
  show "unat (B64 ! i) < 128" "unat (B64URL ! i) < 128" using code_less [OF assms] unfolding u by simp_all
  have 61: "unat (61 :: jschar) = 61" by simp
  show "B64 ! i \<noteq> 61" "B64URL ! i \<noteq> 61" using b64_code_not_pad [OF assms] u 61 by metis+
qed

text \<open>A character of either alphabet puts six bits behind the ones that wait.\<close>

lemma loop_char:
  assumes "alphabet = B64 \<or> alphabet = B64URL"
  shows "decodeBase64_loop acc bits (b64_char alphabet n # cs) =
    (if 2 \<le> bits then word_of_nat ((acc * 64 + n mod 64) div 2 ^ (bits - 2))
         # decodeBase64_loop ((acc * 64 + n mod 64) mod 2 ^ (bits - 2)) (bits - 2) cs
     else decodeBase64_loop (acc * 64 + n mod 64) (bits + 6) cs)"
proof -
  have "n mod 64 < 64" by simp
  note l = lookup_codes [OF this]
  have c: "b64_char alphabet n \<noteq> 61" "unat (b64_char alphabet n) < 256"
    "B64_LOOKUP ! unat (b64_char alphabet n) = int (n mod 64)"
    using assms l by (auto simp: b64_char_def)
  have b: "bits + 6 - 8 = bits - 2" "8 \<le> bits + 6 \<longleftrightarrow> 2 \<le> bits" by auto
  show ?thesis unfolding decodeBase64_loop.simps using c by (simp add: b Let_def)
qed

lemma digits_div: "y < (k::nat) \<Longrightarrow> (x * k + y) div k = x" "y < (k::nat) \<Longrightarrow> (x * k + y) mod k = y"
  by (simp_all add: div_add1_eq)

text \<open>The four digits of three bytes \<open>4 * a1 + a0\<close>, \<open>16 * b1 + b0\<close> and \<open>64 * c1 + c0\<close>.\<close>

lemma triple_digits:
  fixes a1 a0 b1 b0 c1 c0 :: nat
  assumes "a1 < 64" and "a0 < 4" and "b1 < 16" and "b0 < 16" and "c1 < 4" and "c0 < 64"
    and "n = (a1 * 4 + a0) * 65536 + (b1 * 16 + b0) * 256 + (c1 * 64 + c0)"
  shows "n div 262144 mod 64 = a1" "n div 4096 mod 64 = a0 * 16 + b1" "n div 64 mod 64 = b0 * 4 + c1" "n mod 64 = c0"
proof -
  have n: "n = ((a1 * 64 + (a0 * 16 + b1)) * 64 + (b0 * 4 + c1)) * 64 + c0" using assms(7) by simp
  have 1: "n mod 64 = c0" "n div 64 = (a1 * 64 + (a0 * 16 + b1)) * 64 + (b0 * 4 + c1)"
    unfolding n using assms(6) by (simp_all only: digits_div)
  have 2: "n div 64 mod 64 = b0 * 4 + c1" "n div 64 div 64 = a1 * 64 + (a0 * 16 + b1)"
    unfolding 1(2) using assms(4,5) by (simp_all only: digits_div)
  have 3: "n div 64 div 64 mod 64 = a0 * 16 + b1" "n div 64 div 64 div 64 = a1"
    unfolding 2(2) using assms(2,3) by (simp_all only: digits_div)
  have d: "n div 4096 = n div 64 div 64" "n div 262144 = n div 64 div 64 div 64"
    by (simp_all add: div_mult2_eq [symmetric])
  show "n div 262144 mod 64 = a1" "n div 4096 mod 64 = a0 * 16 + b1" "n div 64 mod 64 = b0 * 4 + c1" "n mod 64 = c0"
    using 1(1) 2(1) 3 assms(1) unfolding d by simp_all
qed

lemma byte_digits: "\<exists>q r. unat (a :: byte) = q * k + r \<and> r < k" if "0 < k"
  using that mod_less_divisor [of k "unat a"] div_mult_mod_eq [of "unat a" k] by metis

text \<open>Whole groups of three bytes come back and leave nothing waiting.\<close>

lemma decode_group:
  assumes alph: "alphabet = B64 \<or> alphabet = B64URL"
    and n: "n = unat a * 65536 + unat b * 256 + unat c"
  shows "decodeBase64_loop 0 0 (b64_char alphabet (n div 262144) # b64_char alphabet (n div 4096) # cs) =
      a # decodeBase64_loop (unat b div 16) 4 cs"
    and "decodeBase64_loop (unat b div 16) 4 (b64_char alphabet (n div 64) # cs) = b # decodeBase64_loop (unat c div 64) 2 cs"
    and "decodeBase64_loop (unat c div 64) 2 (b64_char alphabet n # cs) = c # decodeBase64_loop 0 0 cs"
proof -
  obtain a1 a0 where a: "unat a = a1 * 4 + a0" "a0 < 4" using byte_digits [of 4 a] by auto
  obtain b1 b0 where b: "unat b = b1 * 16 + b0" "b0 < 16" using byte_digits [of 16 b] by auto
  obtain c1 c0 where c: "unat c = c1 * 64 + c0" "c0 < 64" using byte_digits [of 64 c] by auto
  have lt: "a1 < 64" "b1 < 16" "c1 < 4" using a(1) b(1) c(1) unat_byte_less [of a] unat_byte_less [of b] unat_byte_less [of c] by auto
  note d = triple_digits [OF lt(1) a(2) lt(2) b(2) lt(3) c(2) n [unfolded a(1) b(1) c(1)]]
  have q: "unat b div 16 = b1" "unat c div 64 = c1" unfolding b(1) c(1) using b(2) c(2) by (simp_all only: digits_div)
  have e: "a1 * 64 + (a0 * 16 + b1) = unat a * 16 + b1" "b1 * 64 + (b0 * 4 + c1) = unat b * 4 + c1" "c1 * 64 + c0 = unat c"
    using a b c by simp_all
  have "2 ^ 4 = (16 :: nat)" "2 ^ 2 = (4 :: nat)" by simp_all
  note p = this
  show "decodeBase64_loop 0 0 (b64_char alphabet (n div 262144) # b64_char alphabet (n div 4096) # cs) =
      a # decodeBase64_loop (unat b div 16) 4 cs"
    unfolding loop_char [OF alph] d q using lt by (simp add: e digits_div p)
  show "decodeBase64_loop (unat b div 16) 4 (b64_char alphabet (n div 64) # cs) = b # decodeBase64_loop (unat c div 64) 2 cs"
    unfolding loop_char [OF alph] d q using lt by (simp add: e digits_div p)
  show "decodeBase64_loop (unat c div 64) 2 (b64_char alphabet n # cs) = c # decodeBase64_loop 0 0 cs"
    unfolding loop_char [OF alph] d q using lt by (simp add: e)
qed

lemma decode_stop: "decodeBase64_loop acc bits (61 # cs) = []"
  by simp

lemma base64_roundtrip_lemma:
  "alphabet = B64 \<or> alphabet = B64URL \<Longrightarrow> decodeBase64_loop 0 0 (encodeBase64 bytes alphabet pad) = bytes"
proof (induction bytes alphabet pad rule: encodeBase64.induct)
  case (2 a alphabet pad)
  from decode_group(1) [OF 2, of "unat a * 65536" a 0 0] show ?case by (simp add: Let_def)
next
  case (3 a b alphabet pad)
  from decode_group(1,2) [OF 3, of "unat a * 65536 + unat b * 256" a b 0] show ?case by (simp add: Let_def)
next
  case (4 a b c rest alphabet pad)
  from decode_group [OF 4(2), of _ a b c, OF refl] 4 show ?case by (simp add: Let_def)
qed simp

subsection \<open>Hexadecimal, Latin-1 and UTF-16\<close>

lemma hex_char_pair_digits: "hex_char_pair b = [digit_char (unat b div 16), digit_char (unat b mod 16)]"
proof (cases "unat b < 16")
  case True
  then have "to_base 16 (unat b) = [digit_char (unat b)]" by (subst to_base.simps) simp
  with True show ?thesis by (simp add: hex_char_pair_def js_def digit_char_def)
next
  case False
  have "unat b div 16 < 16" using unat_byte_less [of b] by (simp add: div_less_iff_less_mult)
  then have "to_base 16 (unat b) = [digit_char (unat b div 16), digit_char (unat b mod 16)]"
    using False by (subst to_base.simps) (simp add: to_base.simps)
  with False show ?thesis by (simp add: hex_char_pair_def)
qed

lemma hex_roundtrip: "hex_bytes (concat (map hex_char_pair bytes)) = bytes"
proof (induction bytes)
  case (Cons b bytes)
  have "unat b div 16 < 16" "unat b mod 16 < 16" using unat_byte_less [of b] by (simp_all add: div_less_iff_less_mult)
  then have "digit_val (digit_char (unat b div 16)) = unat b div 16" "digit_val (digit_char (unat b mod 16)) = unat b mod 16"
    by simp_all
  with Cons \<open>unat b div 16 < 16\<close> \<open>unat b mod 16 < 16\<close> show ?case
    by (simp add: hex_char_pair_digits is_hex_digit_def)
qed simp

lemma utf16_char: "unat (word_of_nat (unat (a :: byte) + 256 * unat (b :: byte)) :: jschar) = unat a + 256 * unat b"
proof -
  have "unat a + 256 * unat b < 65536" using unat_byte_le [of a] unat_byte_le [of b] by linarith
  then show ?thesis by (rule unat_jschar_of_small)
qed

lemma word_of_nat_mod_byte: "(word_of_nat m :: byte) = word_of_nat n \<longleftrightarrow> m mod 256 = n mod 256"
  by (simp add: word_of_nat_eq_iff take_bit_eq_mod)

lemma unit_bytes:
  "low_byte (word_of_nat (unat a + 256 * unat b)) = a" "high_byte (word_of_nat (unat a + 256 * unat b)) = b"
  for a b :: byte
proof -
  have "word_of_nat (unat a + 256 * unat b) = (word_of_nat (unat a) :: byte)" by (subst word_of_nat_mod_byte) simp
  then show "low_byte (word_of_nat (unat a + 256 * unat b)) = a" by (simp only: low_byte_def utf16_char word_of_nat_unat_byte)
  have "(unat a + 256 * unat b) div 256 = unat b" by simp
  then show "high_byte (word_of_nat (unat a + 256 * unat b)) = b" by (simp only: high_byte_def utf16_char word_of_nat_unat_byte)
qed

lemma bytes_unit: "word_of_nat (unat (low_byte c) + 256 * unat (high_byte c)) = c"
proof -
  have "unat c div 256 < 256" using unit_less [of c] by (simp add: div_less_iff_less_mult)
  then have e: "unat (low_byte c) + 256 * unat (high_byte c) = unat c"
    unfolding low_byte_def high_byte_def unat_word_of_nat_byte by simp
  show ?thesis unfolding e by simp
qed

lemma utf16_bytes: "even (length bytes) \<Longrightarrow> concat (map (\<lambda>c. [low_byte c, high_byte c]) (utf16_text bytes)) = bytes"
  by (induction bytes rule: utf16_text.induct) (simp_all add: unit_bytes del: of_nat_add of_nat_mult)

lemma utf16_units: "utf16_text (concat (map (\<lambda>c. [low_byte c, high_byte c]) str)) = str"
  by (induction str) (simp_all add: bytes_unit del: of_nat_add of_nat_mult)

lemma latin1_roundtrip: "map low_byte (map (\<lambda>b. word_of_nat (unat b)) bytes) = bytes"
proof -
  have "low_byte (word_of_nat (unat b)) = b" for b :: byte using unit_bytes(1) [of b 0] by simp
  then show ?thesis by (simp add: comp_def)
qed

subsection \<open>Texts cut into chunks\<close>

text \<open>
  An encoding of bytes in blocks of \<open>block\<close>, and a rule for how many bytes to keep back. Whatever the
  chunks, the text of the whole blocks so far, and of the rest at the end, is the text of all bytes.
\<close>

fun feed :: "(byte list \<Rightarrow> jsstr) \<Rightarrow> (byte list \<Rightarrow> nat) \<Rightarrow> byte list \<Rightarrow> byte list list \<Rightarrow> jsstr" where
  "feed str_of tail p [] = str_of p"
| "feed str_of tail p (c # cs) =
     str_of (take (length (p @ c) - tail (p @ c)) (p @ c)) @ feed str_of tail (drop (length (p @ c) - tail (p @ c)) (p @ c)) cs"

locale blockwise =
  fixes str_of :: "byte list \<Rightarrow> jsstr" and tail :: "byte list \<Rightarrow> nat" and block :: nat
  assumes str_append: "block dvd length a \<Longrightarrow> str_of (a @ b) = str_of a @ str_of b"
    and tail_block: "block dvd length bs - tail bs"
begin

lemma head_length: "length (take (length bs - tail bs) bs) = length bs - tail bs"
  by simp

lemma feed_concat: "feed str_of tail p cs = str_of (p @ concat cs)"
proof (induction cs arbitrary: p)
  case (Cons c cs)
  let ?n = "length (p @ c) - tail (p @ c)"
  have "take ?n (p @ c) @ drop ?n (p @ c) @ concat cs = (p @ c) @ concat cs"
    by (simp only: append_assoc [symmetric] append_take_drop_id)
  then have "str_of ((p @ c) @ concat cs) = str_of (take ?n (p @ c) @ (drop ?n (p @ c) @ concat cs))" by (simp only:)
  also have "\<dots> = str_of (take ?n (p @ c)) @ str_of (drop ?n (p @ c) @ concat cs)"
    by (rule str_append) (simp only: head_length tail_block)
  finally have "str_of ((p @ c) @ concat cs) = feed str_of tail p (c # cs)" using Cons.IH by (simp only: feed.simps)
  then show ?case by simp
qed simp

end

lemma encodeBase64_append: "3 dvd length a \<Longrightarrow> encodeBase64 (a @ b) alphabet pad = encodeBase64 a alphabet pad @ encodeBase64 b alphabet pad"
proof (induction a alphabet pad rule: encodeBase64.induct)
  case (2 a alphabet pad)
  have "\<not> 3 dvd Suc 0" by presburger
  with 2 show ?case by simp
next
  case (3 a b' alphabet pad)
  have "\<not> 3 dvd Suc (Suc 0)" by presburger
  with 3 show ?case by simp
next
  case (4 a b' c rest alphabet pad)
  have "length (a # b' # c # rest) = length rest + 3" by simp
  then have "3 dvd length rest" using 4(2) by presburger
  with 4 show ?case by (simp add: Let_def)
qed simp

lemma utf16_text_append: "2 dvd length a \<Longrightarrow> utf16_text (a @ b) = utf16_text a @ utf16_text b"
  by (induction a rule: utf16_text.induct) simp_all

interpretation base64_blocks: blockwise "bytesString EncBase64" "incompleteTail EncBase64" 3
  by unfold_locales (simp_all add: bytesString_def incompleteTail_def encodeBase64_append dvd_minus_mod)

interpretation base64url_blocks: blockwise "bytesString EncBase64url" "incompleteTail EncBase64url" 3
  by unfold_locales (simp_all add: bytesString_def incompleteTail_def encodeBase64_append dvd_minus_mod)

interpretation utf16_blocks: blockwise "bytesString EncUtf16le" "incompleteTail EncUtf16le" 2
  by unfold_locales (auto simp: bytesString_def incompleteTail_def utf16_text_append Let_def)

interpretation hex_blocks: blockwise "bytesString EncHex" "incompleteTail EncHex" 1
  by unfold_locales (simp_all add: bytesString_def incompleteTail_def)

interpretation latin1_blocks: blockwise "bytesString EncLatin1" "incompleteTail EncLatin1" 1
  by unfold_locales (simp_all add: bytesString_def incompleteTail_def)

interpretation ascii_blocks: blockwise "bytesString EncAscii" "incompleteTail EncAscii" 1
  by unfold_locales (simp_all add: bytesString_def incompleteTail_def)

lemma feed_bytesString: "enc \<noteq> EncUtf8 \<Longrightarrow> feed (bytesString enc) (incompleteTail enc) p cs = bytesString enc (p @ concat cs)"
  by (cases enc) (simp_all only: base64_blocks.feed_concat base64url_blocks.feed_concat utf16_blocks.feed_concat
      hex_blocks.feed_concat latin1_blocks.feed_concat ascii_blocks.feed_concat simp_thms)

lemma sd_run_feed:
  "sd_encoding sd = enc \<Longrightarrow> enc \<noteq> EncUtf8 \<Longrightarrow> sd_run sd cs = feed (bytesString enc) (incompleteTail enc) (sd_pending sd) cs"
proof (induction cs arbitrary: sd)
  case Nil
  then show ?case by (cases enc) (simp_all add: sd_end_def bytesString_def)
next
  case (Cons c cs)
  then show ?case by (simp add: sd_write_def Let_def)
qed


subsection \<open>UTF-8 cut into chunks\<close>

lemma utf8_char_shape:
  assumes "scalar n"
  obtains l conts where "utf8_char n = l # conts" and "\<forall>c \<in> set conts. 128 \<le> c \<and> c < 192" and "\<not> (128 \<le> l \<and> l < 192)"
    "utf8_need l = Suc (length conts)"
proof -
  have m: "x mod 64 < 64" for x :: nat by simp
  have c: "128 + x mod 64 < 192" for x :: nat using m [of x] by linarith
  consider "n < 0x80" | "0x80 \<le> n" "n < 0x800" | "0x800 \<le> n" "n < 0x10000" | "0x10000 \<le> n" "n < 0x110000"
    using assms by (fastforce simp: scalar_def)
  then show thesis
  proof cases
    case 1
    then show thesis by (intro that [of n "[]"]) (simp_all add: utf8_char_def utf8_need_def)
  next
    case 2
    then have "n div 64 < 32" by linarith
    with 2 c show thesis
      by (intro that [of "192 + n div 64" "[128 + n mod 64]"]) (simp_all add: utf8_char_def utf8_need_def)
  next
    case 3
    then have "n div 4096 < 16" by linarith
    with 3 c show thesis
      by (intro that [of "224 + n div 4096" "[128 + n div 64 mod 64, 128 + n mod 64]"]) (simp_all add: utf8_char_def utf8_need_def)
  next
    case 4
    with c show thesis
      by (intro that [of "240 + n div 262144" "[128 + n div 4096 mod 64, 128 + n div 64 mod 64, 128 + n mod 64]"])
        (simp_all add: utf8_char_def utf8_need_def)
  qed
qed

lemma utf8_tail_lead:
  "\<forall>c \<in> set conts. 128 \<le> c \<and> c < 192 \<Longrightarrow> \<not> (128 \<le> l \<and> l < 192) \<Longrightarrow>
   utf8_tail seen (conts @ l # before) = (if seen + length conts \<le> 3 \<and> seen + length conts < utf8_need l then seen + length conts else 0)"
  by (induction conts arbitrary: seen) auto

lemma utf8_need_le: "utf8_need l \<le> 4"
  by (simp add: utf8_need_def)

text \<open>The bytes of a part of a character are held, those of a whole one are not.\<close>

lemma utf8_tail_part:
  assumes "scalar n" and "utf8_char n = q @ r" and "q \<noteq> []"
  shows "utf8_tail 1 (rev (before @ q)) = (if r = [] then 0 else length q)"
proof -
  obtain l conts where n: "utf8_char n = l # conts" and l: "\<not> (128 \<le> l \<and> l < 192)"
    and conts: "\<forall>c \<in> set conts. 128 \<le> c \<and> c < 192" and need: "utf8_need l = Suc (length conts)"
    using utf8_char_shape [OF assms(1)] by metis
  from assms(2,3) n obtain q' where q: "q = l # q'" "conts = q' @ r" by (cases q) auto
  have "\<forall>c \<in> set (rev q'). 128 \<le> c \<and> c < 192" using conts q(2) by simp
  from utf8_tail_lead [OF this l, of 1 "rev before"] show ?thesis using need utf8_need_le [of l] q by (cases r) simp_all
qed

lemma chars_split:
  "concat (map utf8_char ns) = a @ rest \<Longrightarrow>
   \<exists>whole ns' q. ns = whole @ ns' \<and> a = concat (map utf8_char whole) @ q \<and>
     (q = [] \<or> (\<exists>n ns'' r. ns' = n # ns'' \<and> utf8_char n = q @ r \<and> r \<noteq> []))"
proof (induction ns arbitrary: a)
  case Nil
  then show ?case by simp
next
  case (Cons n ns)
  then have "utf8_char n @ concat (map utf8_char ns) = a @ rest" by simp
  then consider (more) us where "a = utf8_char n @ us" "concat (map utf8_char ns) = us @ rest"
    | (part) us where "utf8_char n = a @ us" "us \<noteq> []"
    unfolding append_eq_append_conv2 by fastforce
  then show ?case
  proof cases
    case more
    from Cons.IH [OF more(2)] obtain whole ns' q where "ns = whole @ ns'" "us = concat (map utf8_char whole) @ q"
      "q = [] \<or> (\<exists>n ns'' r. ns' = n # ns'' \<and> utf8_char n = q @ r \<and> r \<noteq> [])" by blast
    then show ?thesis using more(1) by (intro exI [of _ "n # whole"] exI [of _ ns'] exI [of _ q]) simp
  next
    case part
    then show ?thesis by (intro exI [of _ "[]"] exI [of _ "n # ns"] exI [of _ a]) auto
  qed
qed

lemma utf8_tail_chars:
  assumes "\<forall>n \<in> set whole. scalar n" and "q = [] \<or> (\<exists>n r. scalar n \<and> utf8_char n = q @ r \<and> r \<noteq> [])"
  shows "utf8_tail 1 (rev (concat (map utf8_char whole) @ q)) = length q"
proof (cases "q = []")
  case False
  then show ?thesis using assms(2) utf8_tail_part by auto
next
  case True
  show ?thesis
  proof (cases whole rule: rev_cases)
    case (snoc whole' n)
    then have "scalar n" using assms(1) by simp
    from utf8_tail_part [OF this, of "utf8_char n" "[]" "concat (map utf8_char whole')"] snoc True show ?thesis
      by (simp add: utf8_char_nonempty)
  qed (use True in simp)
qed

lemma text_of_chars: "\<forall>n \<in> set ns. scalar n \<Longrightarrow> map unat bytes = concat (map utf8_char ns) \<Longrightarrow> text_of bytes = of_code_points ns"
  using text_loop_chars [of ns False "[]"] by (simp add: text_of_def text_decode_def newTextDecoder_def split_beta)

lemma sd_run_utf8:
  "sd_encoding sd = EncUtf8 \<Longrightarrow> \<forall>n \<in> set ns. scalar n \<Longrightarrow> map unat (sd_pending sd @ concat cs) = concat (map utf8_char ns) \<Longrightarrow>
   sd_pending sd = [] \<or> (\<exists>n ns' r. ns = n # ns' \<and> utf8_char n = map unat (sd_pending sd) @ r \<and> r \<noteq> []) \<Longrightarrow>
   sd_run sd cs = of_code_points ns"
proof (induction cs arbitrary: sd ns)
  case Nil
  have p: "sd_pending sd = []"
  proof (rule ccontr)
    assume "sd_pending sd \<noteq> []"
    with Nil.prems(4) obtain n ns' r where "ns = n # ns'" "utf8_char n = map unat (sd_pending sd) @ r" "r \<noteq> []" by blast
    with Nil.prems(3) show False by simp
  qed
  with Nil.prems(3) have "ns = []" by (cases ns) (simp_all add: utf8_char_nonempty)
  with p Nil.prems(1) show ?case by (simp add: sd_end_def of_code_points_def)
next
  case (Cons c cs)
  let ?all = "sd_pending sd @ c"
  have "concat (map utf8_char ns) = map unat ?all @ map unat (concat cs)" using Cons.prems(3) by simp
  from chars_split [OF this] obtain whole ns' q where ns: "ns = whole @ ns'"
    and all: "map unat ?all = concat (map utf8_char whole) @ q"
    and q: "q = [] \<or> (\<exists>n ns'' r. ns' = n # ns'' \<and> utf8_char n = q @ r \<and> r \<noteq> [])" by blast
  have sc: "\<forall>n \<in> set whole. scalar n" "\<forall>n \<in> set ns'. scalar n" using Cons.prems(2) ns by simp_all
  have "incompleteTail EncUtf8 ?all = utf8_tail 1 (rev (map unat ?all))" by (simp add: incompleteTail_def)
  also have "\<dots> = length q" unfolding all using sc q by (intro utf8_tail_chars) auto
  finally have tail: "incompleteTail EncUtf8 ?all = length q" .
  define k where "k = length ?all - length q"
  have len: "length ?all = length (concat (map utf8_char whole)) + length q" using arg_cong [OF all, of length] by simp
  have k: "map unat (take k ?all) = concat (map utf8_char whole)" "map unat (drop k ?all) = q"
    unfolding take_map [symmetric] drop_map [symmetric] all using len by (simp_all add: k_def)
  have w: "sd_write sd c = (text_of (take k ?all), sd\<lparr>sd_pending := drop k ?all\<rparr>)"
    by (simp add: sd_write_def Cons.prems(1) tail bytesString_def k_def Let_def del: drop_append take_append)
  have "sd_run (sd\<lparr>sd_pending := drop k ?all\<rparr>) cs = of_code_points ns'"
  proof (rule Cons.IH)
    have "map unat ?all @ map unat (concat cs) = concat (map utf8_char whole) @ concat (map utf8_char ns')"
      using Cons.prems(3) ns by simp
    then have "q @ map unat (concat cs) = concat (map utf8_char ns')" unfolding all by simp
    then show "map unat (sd_pending (sd\<lparr>sd_pending := drop k ?all\<rparr>) @ concat cs) = concat (map utf8_char ns')"
      using k(2) by (simp del: drop_append)
    show "sd_pending (sd\<lparr>sd_pending := drop k ?all\<rparr>) = [] \<or>
      (\<exists>n ns'' r. ns' = n # ns'' \<and> utf8_char n = map unat (sd_pending (sd\<lparr>sd_pending := drop k ?all\<rparr>)) @ r \<and> r \<noteq> [])"
      using q k(2) by (auto simp del: drop_append)
  qed (use Cons.prems(1) sc in simp_all)
  then show ?case using w text_of_chars [OF sc(1) k(1)] ns by (simp add: of_code_points_def)
qed

text \<open>C27: A text that arrives in chunks is read as it is read whole, wherever the chunks are cut.\<close>

theorem string_decoder_streaming:
  assumes "newStringDecoder toLower encoding = Inr sd"
    and "sd_encoding sd = EncUtf8 \<Longrightarrow> \<exists>str. concat cs = utf8_encode str"
  shows "sd_run sd cs = bytesString (sd_encoding sd) (concat cs)"
proof -
  have new: "sd_pending sd = []" using assms(1) by (auto simp: newStringDecoder_def split: option.splits)
  show ?thesis
  proof (cases "sd_encoding sd = EncUtf8")
    case True
    then obtain str where cs: "concat cs = utf8_encode str" using assms(2) by blast
    from sd_run_utf8 [of sd "code_points str" cs]
    have "sd_run sd cs = of_code_points (code_points str)"
      using code_points_scalar [of _ str] utf8_encode_nats [of str] cs new True by simp
    with True cs show ?thesis by (simp add: bytesString_def text_of_encode)
  next
    case False
    then show ?thesis using sd_run_feed [OF refl False, of cs] feed_bytesString [OF False, of "[]" cs] new by simp
  qed
qed

lemma string_decoder_streaming_witness:
  "sd_run \<lparr>sd_encoding = EncUtf8, sd_pending = []\<rparr> [[0x61, 0xF0], [0x9F, 0x98], [0x80, 0xC3], [0xA9]] =
   bytesString EncUtf8 (concat [[0x61, 0xF0], [0x9F, 0x98], [0x80, 0xC3], [0xA9]])"
proof -
  have "newStringDecoder (\<lambda>s. s) None = Inr \<lparr>sd_encoding = EncUtf8, sd_pending = []\<rparr>"
    by (simp add: newStringDecoder_def normalizeEncoding_def)
  moreover have "concat [[0x61, 0xF0], [0x9F, 0x98], [0x80, 0xC3], [0xA9]] = utf8_encode [0x61, 0xD83D, 0xDE00, 0xE9]"
    by (simp add: utf8_encode_def utf8_char_def is_high_def is_low_def)
  then have "\<exists>str. concat [[0x61, 0xF0], [0x9F, 0x98], [0x80, 0xC3], [0xA9]] = utf8_encode str" by blast
  ultimately show ?thesis by (metis string_decoder_streaming string_decoder.select_convs(1))
qed

subsection \<open>Bytes as text\<close>

lemma ascii_bytes: "map low_byte (map (\<lambda>b. word_of_nat (unat b mod 128)) bytes) = bytes \<longleftrightarrow> list_all (\<lambda>b. unat b < 128) bytes"
proof -
  have "low_byte (word_of_nat (unat b mod 128)) = b \<longleftrightarrow> unat b < 128" for b :: byte
  proof -
    have "unat b mod 128 < 128" by simp
    then have "unat (word_of_nat (unat b mod 128) :: jschar) = unat b mod 128" by (simp add: unat_of_nat)
    then have "low_byte (word_of_nat (unat b mod 128)) = word_of_nat (unat b mod 128)" by (simp only: low_byte_def)
    moreover have "(word_of_nat (unat b mod 128) :: byte) = word_of_nat (unat b) \<longleftrightarrow> unat b mod 128 = unat b"
      unfolding word_of_nat_mod_byte using unat_byte_less [of b] by (simp add: mod_less_eq_dividend [THEN le_less_trans])
    moreover have "unat b mod 128 = unat b \<longleftrightarrow> unat b < 128" by (simp add: mod_eq_self_iff_div_eq_0 div_eq_0_iff)
    ultimately show ?thesis by (simp only: word_of_nat_unat_byte)
  qed
  then show ?thesis by (induction bytes) simp_all
qed

lemma utf16_bytes_even: "even (length (concat (map (\<lambda>c. [low_byte c, high_byte c]) str)))"
  by (induction str) simp_all

text \<open>
  C28: The bytes written as text in an encoding and read back are the same bytes, in hexadecimal, both forms of Base64 and
  Latin-1 whatever they are, in UTF-16 when they are an even number, in ASCII when they are below 128, in UTF-8 when
  they are the encoding of a text; and in no other case.
\<close>

theorem buffer_text_roundtrip:
  "stringBytes (bytesString enc bytes) enc = bytes \<longleftrightarrow>
     (case enc of
        EncUtf8 \<Rightarrow> (\<exists>str. bytes = utf8_encode str)
      | EncAscii \<Rightarrow> list_all (\<lambda>b. unat b < 128) bytes
      | EncUtf16le \<Rightarrow> even (length bytes)
      | _ \<Rightarrow> True)"
proof (cases enc)
  case EncUtf8
  have "utf8_encode (text_of (utf8_encode str)) = utf8_encode str" for str
    unfolding text_of_encode using code_points_of [of "code_points str"] code_points_scalar [of _ str] by (simp add: utf8_encode_def)
  then show ?thesis unfolding EncUtf8 by (auto simp: stringBytes_def bytesString_def) metis
next
  case EncUtf16le
  then show ?thesis using utf16_bytes [of bytes] utf16_bytes_even [of "utf16_text bytes"]
    by (auto simp: stringBytes_def bytesString_def)
next
  case EncAscii
  then show ?thesis using ascii_bytes by (simp add: stringBytes_def bytesString_def)
next
  case EncLatin1
  then show ?thesis using latin1_roundtrip by (simp add: stringBytes_def bytesString_def)
qed (simp_all add: stringBytes_def bytesString_def decodeBase64_def base64_roundtrip_lemma hex_roundtrip)

end
