(* ===== verification/BufferMemory.thy ===== *)
theory BufferMemory
  imports BufferText
begin

text \<open>
  \<open>Buffer\<close> of \<open>node-buffer.js\<close> as views of shared memory: making buffers, slices, comparing, searching, copying,
  writing text, filling and swapping. The memory is the list of the array buffers; a buffer is a part of one of them, and
  two buffers may overlap. Offsets are the numbers the engine makes of the arguments; an argument in whose place an encoding
  may stand is a \<open>slot\<close>. A method returns the memory after it, or the code of the error it throws.
\<close>

subsection \<open>Memory\<close>

text \<open>The contents of the array buffers, by their number, and a buffer: the part of one it views.\<close>

type_synonym memory = "byte list list"

record buffer =
  array_id :: nat
  byteOffset :: nat
  buf_length :: nat

definition buffer_bytes :: "memory \<Rightarrow> buffer \<Rightarrow> byte list" where
  "buffer_bytes m b = take (buf_length b) (drop (byteOffset b) (m ! array_id b))"

definition in_memory :: "memory \<Rightarrow> buffer \<Rightarrow> bool" where
  "in_memory m b \<longleftrightarrow> array_id b < length m \<and> byteOffset b + buf_length b \<le> length (m ! array_id b)"

definition splice :: "'a list \<Rightarrow> nat \<Rightarrow> 'a list \<Rightarrow> 'a list" where
  "splice xs p ys = take p xs @ ys @ drop (p + length ys) xs"

definition put_at :: "memory \<Rightarrow> nat \<Rightarrow> nat \<Rightarrow> byte list \<Rightarrow> memory" where
  "put_at m i p bs = m[i := splice (m ! i) p bs]"

text \<open>\<open>b.set(bs, at)\<close> of a typed array.\<close>

definition set_bytes :: "memory \<Rightarrow> buffer \<Rightarrow> nat \<Rightarrow> byte list \<Rightarrow> memory" where
  "set_bytes m b p bs = put_at m (array_id b) (byteOffset b + p) bs"

definition new_array :: "memory \<Rightarrow> byte list \<Rightarrow> memory \<times> buffer" where
  "new_array m bs = (m @ [bs], \<lparr>array_id = length m, byteOffset = 0, buf_length = length bs\<rparr>)"

definition relative_index :: "nat \<Rightarrow> int \<Rightarrow> nat" where
  "relative_index len i = nat (if i < 0 then max 0 (int len + i) else min i (int len))"

text \<open>\<open>slice\<close> is \<open>subarray\<close>: the same memory.\<close>

definition buffer_slice :: "buffer \<Rightarrow> int option \<Rightarrow> int option \<Rightarrow> buffer" where
  "buffer_slice b start fin =
     (let len = buf_length b;
          p = (case start of None \<Rightarrow> 0 | Some i \<Rightarrow> relative_index len i);
          q = (case fin of None \<Rightarrow> len | Some i \<Rightarrow> relative_index len i)
      in b\<lparr>byteOffset := byteOffset b + p, buf_length := q - p\<rparr>)"

subsection \<open>Numbers and arguments\<close>

text \<open>What \<open>trunc\<close>, \<open>| 0\<close>, \<open>>>> 0\<close> and a store into a byte make of a number.\<close>

definition js_trunc :: "js_number \<Rightarrow> int" where
  "js_trunc x = (case x of Finite n whole \<Rightarrow> if n < 0 \<and> \<not> whole then n + 1 else n | _ \<Rightarrow> 0)"

definition to_int32 :: "js_number \<Rightarrow> int" where
  "to_int32 x = (js_trunc x + 2147483648) mod 4294967296 - 2147483648"

definition to_uint32 :: "js_number \<Rightarrow> nat" where
  "to_uint32 x = nat (js_trunc x mod 4294967296)"

definition byte_of_number :: "js_number \<Rightarrow> byte" where
  "byte_of_number x = word_of_int (js_trunc x)"

text \<open>An argument that is checked: missing, of another type, or a number.\<close>

datatype js_arg = Undefined | NotNumber | Number js_number

text \<open>An argument in whose place the encoding may stand.\<close>

datatype slot = Missing | Num js_number | Enc jsstr

datatype buffer_value = NumberValue js_number | StringValue jsstr | BytesValue buffer | OtherValue

definition checkOffset :: "buffer \<Rightarrow> js_arg \<Rightarrow> nat \<Rightarrow> buffer_error + nat" where
  "checkOffset b offset k =
     (let check = (\<lambda>n. if n < 0 \<or> int (buf_length b) < n + int k
                      then Inl (if buf_length b < k then BUFFER_OUT_OF_BOUNDS else OUT_OF_RANGE)
                      else Inr (nat n))
      in case offset of
           Undefined \<Rightarrow> check 0
         | NotNumber \<Rightarrow> Inl INVALID_ARG_TYPE
         | Number (Finite n whole) \<Rightarrow> if whole then check n else Inl OUT_OF_RANGE
         | Number _ \<Rightarrow> Inl OUT_OF_RANGE)"

definition num_above :: "js_number \<Rightarrow> int \<Rightarrow> bool" where
  "num_above x mx = (case x of NaN \<Rightarrow> False | Infinite neg \<Rightarrow> \<not> neg | Finite n whole \<Rightarrow> mx < n \<or> n = mx \<and> \<not> whole)"

definition num_below :: "js_number \<Rightarrow> int \<Rightarrow> bool" where
  "num_below x mn = (case x of NaN \<Rightarrow> False | Infinite neg \<Rightarrow> neg | Finite n whole \<Rightarrow> n < mn)"

definition checkInt :: "js_number \<Rightarrow> int \<Rightarrow> int \<Rightarrow> buffer_error + unit" where
  "checkInt v mn mx = (if num_above v mx \<or> num_below v mn then Inl OUT_OF_RANGE else Inr ())"

subsection \<open>Making buffers\<close>

definition slot_uint32 :: "nat \<Rightarrow> slot \<Rightarrow> nat" where
  "slot_uint32 dflt s = (case s of Num x \<Rightarrow> to_uint32 x | _ \<Rightarrow> dflt)"

text \<open>The loop of \<open>fill\<close>: \<open>k\<close> more bytes from \<open>i\<close>, the pattern read as it is at that moment.\<close>

fun fill_loop :: "buffer \<Rightarrow> (memory \<Rightarrow> byte list) \<Rightarrow> nat \<Rightarrow> nat \<Rightarrow> nat \<Rightarrow> memory \<Rightarrow> memory" where
  "fill_loop b pattern 0 i j m = m"
| "fill_loop b pattern (Suc k) i j m =
     fill_loop b pattern k (Suc i) (Suc j mod length (pattern m)) (set_bytes m b i [pattern m ! j])"

definition buffer_fill ::
    "(jsstr \<Rightarrow> jsstr) \<Rightarrow> memory \<Rightarrow> buffer \<Rightarrow> buffer_value \<Rightarrow> slot \<Rightarrow> slot \<Rightarrow> jsstr option \<Rightarrow> buffer_error + memory" where
  "buffer_fill toLower m b v offset fin enc =
     (let len = buf_length b;
          all_of = Num (Finite (int len) True);
          (offset, fin, enc) =
            (case (offset, fin) of
               (Enc e, _) \<Rightarrow> (Num (Finite 0 True), all_of, Some e)
             | (_, Enc e) \<Rightarrow> (offset, all_of, Some e)
             | _ \<Rightarrow> (offset, fin, enc));
          p = slot_uint32 0 offset;
          q = slot_uint32 len fin
      in if q < p \<or> len < q then Inl OUT_OF_RANGE
         else if p = q then Inr m
         else case v of
                NumberValue x \<Rightarrow> Inr (set_bytes m b p (replicate (q - p) (byte_of_number x)))
              | StringValue str \<Rightarrow>
                  bindE (encodingOrThrow toLower enc) (\<lambda>e.
                    let pattern = stringBytes str e
                    in if pattern = [] then Inr (set_bytes m b p (replicate (q - p) 0))
                       else Inr (fill_loop b (\<lambda>_. pattern) (q - p) p 0 m))
              | BytesValue pattern \<Rightarrow>
                  if buf_length pattern = 0 then Inl INVALID_ARG_VALUE
                  else Inr (fill_loop b (\<lambda>m. buffer_bytes m pattern) (q - p) p 0 m)
              | OtherValue \<Rightarrow> Inr (set_bytes m b p (replicate (q - p) 0)))"

text \<open>\<open>new Buffer(size)\<close> refuses an infinite size itself.\<close>

definition buffer_alloc ::
    "(jsstr \<Rightarrow> jsstr) \<Rightarrow> memory \<Rightarrow> js_arg \<Rightarrow> buffer_value option \<Rightarrow> jsstr option \<Rightarrow> buffer_error + (memory \<times> buffer)" where
  "buffer_alloc toLower m k v enc =
     (case k of
        Number (Finite n whole) \<Rightarrow>
          if n < 0 then Inl INVALID_ARG_VALUE
          else let (m, b) = new_array m (replicate (nat n) 0)
               in (case v of
                     None \<Rightarrow> Inr (m, b)
                   | Some v \<Rightarrow>
                       if v = NumberValue (Finite 0 True) \<or> n = 0 \<and> whole then Inr (m, b)
                       else bindE (buffer_fill toLower m b v (Num (Finite 0 True)) (Num (Finite n whole)) enc) (\<lambda>m. Inr (m, b)))
      | Number (Infinite neg) \<Rightarrow> Inl (if neg then INVALID_ARG_VALUE else RANGE_ERROR)
      | _ \<Rightarrow> Inl INVALID_ARG_VALUE)"

definition fromString :: "(jsstr \<Rightarrow> jsstr) \<Rightarrow> memory \<Rightarrow> jsstr \<Rightarrow> jsstr option \<Rightarrow> buffer_error + (memory \<times> buffer)" where
  "fromString toLower m str enc = bindE (encodingOrThrow toLower enc) (\<lambda>e. Inr (new_array m (stringBytes str e)))"

text \<open>A view of part of an array buffer, the same memory.\<close>

definition fromArrayBuffer :: "memory \<Rightarrow> nat \<Rightarrow> int option \<Rightarrow> int option \<Rightarrow> buffer_error + buffer" where
  "fromArrayBuffer m i offset len =
     (let p = (case offset of None \<Rightarrow> 0 | Some x \<Rightarrow> x);
          n = (case len of None \<Rightarrow> int (length (m ! i)) - p | Some x \<Rightarrow> x)
      in if p < 0 \<or> n < 0 \<or> int (length (m ! i)) < p + n then Inl RANGE_ERROR
         else Inr \<lparr>array_id = i, byteOffset = nat p, buf_length = nat n\<rparr>)"

definition fromBytes :: "memory \<Rightarrow> buffer \<Rightarrow> memory \<times> buffer" where
  "fromBytes m b = new_array m (buffer_bytes m b)"

definition fromArray :: "memory \<Rightarrow> js_number list \<Rightarrow> memory \<times> buffer" where
  "fromArray m xs = new_array m (map byte_of_number xs)"

text \<open>The loop of \<open>concat\<close> over the items; \<open>None\<close> is one that is not a \<open>Uint8Array\<close>.\<close>

fun concat_loop :: "buffer \<Rightarrow> nat \<Rightarrow> nat \<Rightarrow> buffer option list \<Rightarrow> memory \<Rightarrow> buffer_error + memory" where
  "concat_loop out n offset [] m = Inr m"
| "concat_loop out n offset (x # xs) m =
     (if n \<le> offset then Inr m
      else case x of
             None \<Rightarrow> Inl INVALID_ARG_TYPE
           | Some b \<Rightarrow>
               concat_loop out n (offset + buf_length b) xs (set_bytes m out offset (take (n - offset) (buffer_bytes m b))))"

definition bufferConcat :: "memory \<Rightarrow> buffer option list \<Rightarrow> int option \<Rightarrow> buffer_error + (memory \<times> buffer)" where
  "bufferConcat m items total_length =
     (if items = [] then Inr (new_array m [])
      else let n = (case total_length of
                      None \<Rightarrow> if None \<in> set items then None else Some (int (sum_list (map (buf_length \<circ> the) items)))
                    | Some n \<Rightarrow> Some n)
           in case n of
                None \<Rightarrow> Inl INVALID_ARG_VALUE
              | Some n \<Rightarrow>
                  if n < 0 then Inl INVALID_ARG_VALUE
                  else let (m, out) = new_array m (replicate (nat n) 0)
                       in bindE (concat_loop out (nat n) 0 items m) (\<lambda>m. Inr (m, out)))"

subsection \<open>Comparing and searching\<close>

fun compare_loop :: "byte list \<Rightarrow> byte list \<Rightarrow> int" where
  "compare_loop (a # as) (b # bs) = (if a \<noteq> b then (if a < b then - 1 else 1) else compare_loop as bs)"
| "compare_loop as bs = (if length as < length bs then - 1 else if length bs < length as then 1 else 0)"

definition bufferCompare :: "memory \<Rightarrow> buffer \<Rightarrow> buffer \<Rightarrow> int" where
  "bufferCompare m a b = compare_loop (buffer_bytes m a) (buffer_bytes m b)"

definition buffer_equals :: "memory \<Rightarrow> buffer \<Rightarrow> buffer \<Rightarrow> bool" where
  "buffer_equals m b other = (bufferCompare m b other = 0)"

text \<open>The method \<open>compare\<close>, on parts of both.\<close>

definition compare_parts ::
    "memory \<Rightarrow> buffer \<Rightarrow> buffer \<Rightarrow> int option \<Rightarrow> int option \<Rightarrow> int option \<Rightarrow> int option \<Rightarrow> int" where
  "compare_parts m b target targetStart targetEnd sourceStart sourceEnd =
     bufferCompare m (buffer_slice b sourceStart sourceEnd) (buffer_slice target targetStart targetEnd)"

definition matches_at :: "byte list \<Rightarrow> byte list \<Rightarrow> nat \<Rightarrow> bool" where
  "matches_at hay needle i = list_all (\<lambda>j. hay ! (i + j) = needle ! j) [0..<length needle]"

definition search_bytes :: "(jsstr \<Rightarrow> jsstr) \<Rightarrow> memory \<Rightarrow> buffer_value \<Rightarrow> jsstr option \<Rightarrow> buffer_error + byte list" where
  "search_bytes toLower m v enc =
     (case v of
        StringValue str \<Rightarrow> bindE (encodingOrThrow toLower enc) (\<lambda>e. Inr (stringBytes str e))
      | NumberValue x \<Rightarrow> Inr [byte_of_number x]
      | BytesValue p \<Rightarrow> Inr (buffer_bytes m p)
      | OtherValue \<Rightarrow> Inl INVALID_ARG_TYPE)"

text \<open>An offset of infinity is behind every end.\<close>

definition search_start :: "nat \<Rightarrow> slot \<Rightarrow> bool \<Rightarrow> nat" where
  "search_start len offset forward =
     (let start = (case offset of
                     Num (Finite n whole) \<Rightarrow> js_trunc (Finite n whole)
                   | Num (Infinite neg) \<Rightarrow> if neg then - int len else int len + 1
                   | _ \<Rightarrow> if forward then 0 else int len)
      in nat (if start < 0 then max 0 (int len + start) else start))"

definition buffer_search ::
    "(jsstr \<Rightarrow> jsstr) \<Rightarrow> memory \<Rightarrow> buffer \<Rightarrow> buffer_value \<Rightarrow> slot \<Rightarrow> jsstr option \<Rightarrow> bool \<Rightarrow> buffer_error + int" where
  "buffer_search toLower m b v offset enc forward =
     (let (offset, enc) = (case offset of Enc e \<Rightarrow> (Missing, Some e) | _ \<Rightarrow> (offset, enc));
          hay = buffer_bytes m b;
          len = length hay
      in bindE (search_bytes toLower m v enc) (\<lambda>needle.
           let start = search_start len offset forward
           in if needle = [] then Inr (int (min start len))
              else case find (matches_at hay needle)
                          (if forward then [start..<Suc len - length needle]
                           else if length needle \<le> len then rev [0..<Suc (min start (len - length needle))] else []) of
                     Some i \<Rightarrow> Inr (int i)
                   | None \<Rightarrow> Inr (- 1)))"

definition indexOf :: "(jsstr \<Rightarrow> jsstr) \<Rightarrow> memory \<Rightarrow> buffer \<Rightarrow> buffer_value \<Rightarrow> slot \<Rightarrow> jsstr option \<Rightarrow> buffer_error + int" where
  "indexOf toLower m b v offset enc = buffer_search toLower m b v offset enc True"

definition lastIndexOf :: "(jsstr \<Rightarrow> jsstr) \<Rightarrow> memory \<Rightarrow> buffer \<Rightarrow> buffer_value \<Rightarrow> slot \<Rightarrow> jsstr option \<Rightarrow> buffer_error + int" where
  "lastIndexOf toLower m b v offset enc = buffer_search toLower m b v offset enc False"

definition buffer_includes :: "(jsstr \<Rightarrow> jsstr) \<Rightarrow> memory \<Rightarrow> buffer \<Rightarrow> buffer_value \<Rightarrow> slot \<Rightarrow> jsstr option \<Rightarrow> buffer_error + bool" where
  "buffer_includes toLower m b v offset enc = bindE (buffer_search toLower m b v offset enc True) (\<lambda>i. Inr (i \<noteq> - 1))"

subsection \<open>Copying and text\<close>

text \<open>
  The destination is made from the array buffer of the target: an offset before the target is not refused unless it is before
  the array too. The bytes are read before any is written.
\<close>

definition buffer_copy ::
    "memory \<Rightarrow> buffer \<Rightarrow> buffer \<Rightarrow> js_number option \<Rightarrow> js_number option \<Rightarrow> js_number option \<Rightarrow> buffer_error + (memory \<times> nat)" where
  "buffer_copy m b target targetStart sourceStart sourceEnd =
     (let ts = (case targetStart of None \<Rightarrow> 0 | Some x \<Rightarrow> to_int32 x);
          ss = (case sourceStart of None \<Rightarrow> 0 | Some x \<Rightarrow> max 0 (to_int32 x));
          se = min (int (buf_length b)) (to_int32 (case sourceEnd of None \<Rightarrow> Finite (int (buf_length b)) True | Some x \<Rightarrow> x))
      in if int (buf_length target) \<le> ts \<or> se \<le> ss then Inr (m, 0)
         else let cnt = nat (min (se - ss) (int (buf_length target) - ts));
                  source = take cnt (drop (byteOffset b + nat ss) (m ! array_id b));
                  p = int (byteOffset target) + ts
              in if p < 0 then Inl RANGE_ERROR
                 else Inr (put_at m (array_id target) (nat p) source, cnt))"

definition buffer_toString ::
    "(jsstr \<Rightarrow> jsstr) \<Rightarrow> memory \<Rightarrow> buffer \<Rightarrow> jsstr option \<Rightarrow> js_number option \<Rightarrow> js_number option \<Rightarrow> buffer_error + jsstr" where
  "buffer_toString toLower m b enc start fin =
     bindE (encodingOrThrow toLower enc) (\<lambda>e.
       let len = int (buf_length b);
           p = (case start of None \<Rightarrow> 0 | Some x \<Rightarrow> max 0 (to_int32 x));
           q = min len (case fin of None \<Rightarrow> len | Some x \<Rightarrow> to_int32 x)
       in if q \<le> p then Inr [] else Inr (bytesString e (buffer_bytes m (buffer_slice b (Some p) (Some q)))))"

definition buffer_byteLength :: "(jsstr \<Rightarrow> jsstr) \<Rightarrow> jsstr \<Rightarrow> jsstr option \<Rightarrow> nat" where
  "buffer_byteLength toLower str enc =
     length (stringBytes str (case normalizeEncoding toLower enc of None \<Rightarrow> EncUtf8 | Some e \<Rightarrow> e))"

text \<open>The loop that gives up the bytes of a character that does not fit.\<close>

fun whole_chars :: "byte list \<Rightarrow> nat \<Rightarrow> nat" where
  "whole_chars bs 0 = 0"
| "whole_chars bs (Suc n) =
     (if 128 \<le> unat (bs ! Suc n) \<and> unat (bs ! Suc n) < 192 then whole_chars bs n else Suc n)"

definition buffer_write ::
    "(jsstr \<Rightarrow> jsstr) \<Rightarrow> memory \<Rightarrow> buffer \<Rightarrow> jsstr \<Rightarrow> slot \<Rightarrow> slot \<Rightarrow> jsstr option \<Rightarrow> buffer_error + (memory \<times> nat)" where
  "buffer_write toLower m b str offset len enc =
     (let (offset, len, enc) =
            (case (offset, len) of
               (Enc e, _) \<Rightarrow> (Num (Finite 0 True), Missing, Some e)
             | (_, Enc e) \<Rightarrow> (offset, Missing, Some e)
             | _ \<Rightarrow> (offset, len, enc));
          p = slot_uint32 0 offset
      in if buf_length b < p then Inl OUT_OF_RANGE
         else let remaining = buf_length b - p;
                  mx = (case len of Num x \<Rightarrow> min (to_uint32 x) remaining | _ \<Rightarrow> remaining)
              in bindE (encodingOrThrow toLower enc) (\<lambda>e.
                   let bs = stringBytes str e;
                       bs = (if length bs \<le> mx then bs
                             else take (if e = EncUtf8 then whole_chars bs mx
                                        else if e = EncUtf16le then mx - mx mod 2 else mx) bs)
                   in Inr (set_bytes m b p bs, length bs)))"

subsection \<open>Swapping\<close>

fun swap_groups :: "nat \<Rightarrow> nat \<Rightarrow> byte list \<Rightarrow> byte list" where
  "swap_groups k 0 bs = []"
| "swap_groups k (Suc n) bs = rev (take k bs) @ swap_groups k n (drop k bs)"

definition buffer_swap :: "nat \<Rightarrow> memory \<Rightarrow> buffer \<Rightarrow> buffer_error + memory" where
  "buffer_swap k m b =
     (if buf_length b mod k \<noteq> 0 then Inl INVALID_BUFFER_SIZE
      else Inr (set_bytes m b 0 (swap_groups k (buf_length b div k) (buffer_bytes m b))))"

definition swap16 :: "memory \<Rightarrow> buffer \<Rightarrow> buffer_error + memory" where "swap16 = buffer_swap 2"

definition swap32 :: "memory \<Rightarrow> buffer \<Rightarrow> buffer_error + memory" where "swap32 = buffer_swap 4"

definition swap64 :: "memory \<Rightarrow> buffer \<Rightarrow> buffer_error + memory" where "swap64 = buffer_swap 8"

subsection \<open>Memory after a store\<close>

lemma length_splice: "p + length ys \<le> length xs \<Longrightarrow> length (splice xs p ys) = length xs"
  by (simp add: splice_def)

lemma nth_splice:
  "p + length ys \<le> length xs \<Longrightarrow> i < length xs \<Longrightarrow> splice xs p ys ! i = (if p \<le> i \<and> i < p + length ys then ys ! (i - p) else xs ! i)"
  by (auto simp: splice_def nth_append)

lemma window_splice:
  assumes "o' \<le> p" and "p + length ys \<le> o' + l" and "o' + l \<le> length xs"
  shows "take l (drop o' (splice xs p ys)) = splice (take l (drop o' xs)) (p - o') ys"
proof (rule nth_equalityI)
  have len: "length (splice xs p ys) = length xs" "length (splice (take l (drop o' xs)) (p - o') ys) = l"
    using assms by (simp_all add: length_splice)
  then show "length (take l (drop o' (splice xs p ys))) = length (splice (take l (drop o' xs)) (p - o') ys)" using assms by simp
  fix i assume "i < length (take l (drop o' (splice xs p ys)))"
  then have i: "i < l" "o' + i < length xs" using len assms by simp_all
  have "take l (drop o' (splice xs p ys)) ! i = splice xs p ys ! (o' + i)" using i len by simp
  also have "\<dots> = (if p \<le> o' + i \<and> o' + i < p + length ys then ys ! (o' + i - p) else xs ! (o' + i))"
    using assms i by (intro nth_splice) simp_all
  also have "\<dots> = splice (take l (drop o' xs)) (p - o') ys ! i"
    using assms i by (subst nth_splice) (auto simp: add.commute)
  finally show "take l (drop o' (splice xs p ys)) ! i = splice (take l (drop o' xs)) (p - o') ys ! i" .
qed

lemma window_elsewhere:
  assumes "p + length ys \<le> o' \<or> o' + l \<le> p" and "p + length ys \<le> length xs" and "o' + l \<le> length xs"
  shows "take l (drop o' (splice xs p ys)) = take l (drop o' xs)"
  using assms by (intro nth_equalityI) (auto simp: length_splice nth_splice)

lemma in_memory_set:
  "in_memory m b \<Longrightarrow> p + length bs \<le> buf_length b \<Longrightarrow> in_memory (set_bytes m b p bs) c \<longleftrightarrow> in_memory m c"
  by (cases "array_id c = array_id b") (auto simp: in_memory_def set_bytes_def put_at_def length_splice)

lemma length_buffer_bytes: "in_memory m b \<Longrightarrow> length (buffer_bytes m b) = buf_length b"
  by (auto simp: in_memory_def buffer_bytes_def min_def)

lemma buffer_bytes_set:
  "in_memory m b \<Longrightarrow> p + length bs \<le> buf_length b \<Longrightarrow> buffer_bytes (set_bytes m b p bs) b = splice (buffer_bytes m b) p bs"
  by (simp add: in_memory_def buffer_bytes_def set_bytes_def put_at_def window_splice)

text \<open>A slice is the same memory: what is stored through it is seen in the buffer, at its place.\<close>

lemma slice_place:
  assumes "in_memory m b" and "s = buffer_slice b start fin"
  obtains p where "array_id s = array_id b" and "byteOffset s = byteOffset b + p" and "p + buf_length s \<le> buf_length b \<or> buf_length s = 0"
    and "in_memory m s \<or> buf_length s = 0"
proof -
  define p where "p = (case start of None \<Rightarrow> 0 | Some i \<Rightarrow> relative_index (buf_length b) i)"
  define q where "q = (case fin of None \<Rightarrow> buf_length b | Some i \<Rightarrow> relative_index (buf_length b) i)"
  have q: "q \<le> buf_length b" by (auto simp: q_def relative_index_def split: option.split)
  have s: "s = b\<lparr>byteOffset := byteOffset b + p, buf_length := q - p\<rparr>"
    unfolding assms(2) buffer_slice_def p_def q_def by (simp add: Let_def)
  have "array_id s = array_id b" "byteOffset s = byteOffset b + p" "buf_length s = q - p" unfolding s by simp_all
  then show thesis using assms(1) q by (intro that [of p]) (auto simp: in_memory_def)
qed

lemma slice_shares:
  assumes "in_memory m b" and "s = buffer_slice b start fin" and "at + length bs \<le> buf_length s" and "buf_length s \<noteq> 0"
  shows "buffer_bytes (set_bytes m s at bs) b = splice (buffer_bytes m b) (byteOffset s - byteOffset b + at) bs"
proof -
  obtain p where p: "array_id s = array_id b" "byteOffset s = byteOffset b + p" "p + buf_length s \<le> buf_length b"
    using slice_place [OF assms(1,2)] assms(4) by metis
  then have "set_bytes m s at bs = set_bytes m b (p + at) bs" by (simp add: set_bytes_def add.assoc)
  then show ?thesis using buffer_bytes_set [OF assms(1), of "p + at" bs] p assms(3) by simp
qed

subsection \<open>Comparing, concatenating\<close>

lemma compare_order: "compare_loop as bs = (if as < bs then - 1 else if as = bs then 0 else 1)"
proof (induction as arbitrary: bs)
  case Nil
  then show ?case by (cases bs) simp_all
next
  case (Cons a as)
  then show ?case by (cases bs) auto
qed

lemma splice_twice:
  assumes "p + length ys = q" and "q + length zs \<le> length xs"
  shows "splice (splice xs p ys) q zs = splice xs p (ys @ zs)"
proof -
  define us where "us = take p xs @ ys"
  have us: "length us = q" using assms by (simp add: us_def)
  then have t: "take q (us @ drop q xs) = us" "drop (q + length zs) (us @ drop q xs) = drop (q + length zs) xs"
    by (simp_all add: add.commute)
  have "splice xs p ys = us @ drop q xs" by (simp add: splice_def us_def assms(1))
  then have "splice (splice xs p ys) q zs = us @ zs @ drop (q + length zs) xs" by (simp only: splice_def t)
  moreover have "p + length (ys @ zs) = q + length zs" using assms(1) by simp
  ultimately show ?thesis unfolding splice_def us_def append_assoc by (simp only:)
qed

lemma set_bytes_twice:
  "p + length bs = q \<Longrightarrow> in_memory m b \<Longrightarrow> q + length cs \<le> buf_length b \<Longrightarrow>
   set_bytes (set_bytes m b p bs) b q cs = set_bytes m b p (bs @ cs)"
  by (simp add: set_bytes_def put_at_def in_memory_def splice_twice)

lemma buffer_bytes_other: "array_id c \<noteq> array_id b \<Longrightarrow> buffer_bytes (set_bytes m b p bs) c = buffer_bytes m c"
  by (simp add: buffer_bytes_def set_bytes_def put_at_def)

lemma set_bytes_nothing: "set_bytes m b p [] = m"
  by (simp add: set_bytes_def put_at_def splice_def)

lemma concat_loop_sets:
  "in_memory m out \<Longrightarrow> buf_length out = n \<Longrightarrow> \<forall>b \<in> set bs. in_memory m b \<and> array_id b \<noteq> array_id out \<Longrightarrow>
   concat_loop out n offset (map Some bs) m = Inr (set_bytes m out offset (take (n - offset) (concat (map (buffer_bytes m) bs))))"
proof (induction bs arbitrary: offset m)
  case (Cons b bs)
  show ?case
  proof (cases "n \<le> offset")
    case False
    let ?t = "take (n - offset) (buffer_bytes m b)"
    let ?m = "set_bytes m out offset ?t"
    have len: "length (buffer_bytes m b) = buf_length b" using Cons.prems(3) by (simp add: length_buffer_bytes)
    have t: "length ?t = min (buf_length b) (n - offset)" "offset + length ?t \<le> buf_length out" using len False Cons.prems(2) by auto
    have same: "map (buffer_bytes ?m) bs = map (buffer_bytes m) bs" using Cons.prems(3) by (simp add: buffer_bytes_other)
    have "concat_loop out n offset (map Some (b # bs)) m = concat_loop out n (offset + buf_length b) (map Some bs) ?m"
      using False by simp
    also have "\<dots> = Inr (set_bytes ?m out (offset + buf_length b) (take (n - (offset + buf_length b)) (concat (map (buffer_bytes ?m) bs))))"
      using Cons.prems in_memory_set [OF Cons.prems(1) t(2)] by (intro Cons.IH) auto
    also have "\<dots> = Inr (set_bytes m out offset (?t @ take (n - (offset + buf_length b)) (concat (map (buffer_bytes m) bs))))"
    proof (cases "buf_length b \<le> n - offset")
      case True
      then have l: "offset + length ?t = offset + buf_length b" using t(1) by simp
      have "offset + buf_length b + length (take (n - (offset + buf_length b)) (concat (map (buffer_bytes m) bs))) \<le> buf_length out"
        using True False Cons.prems(2) by simp
      from set_bytes_twice [OF l Cons.prems(1) this] show ?thesis unfolding same by (simp only:)
    next
      case False
      then have "n - (offset + buf_length b) = 0" by simp
      then show ?thesis by (simp add: set_bytes_nothing)
    qed
    finally show ?thesis by (simp add: len)
  qed (simp add: set_bytes_nothing)
qed (simp add: set_bytes_nothing)

text \<open>\<open>Buffer.concat\<close>: the bytes of the items one behind the other, cut or filled with zeros to the length asked for.\<close>

lemma concat_bytes:
  assumes "\<forall>b \<in> set bs. in_memory m b" and "bs \<noteq> []"
    and "n = (case total_length of None \<Rightarrow> length (concat (map (buffer_bytes m) bs)) | Some k \<Rightarrow> nat k)"
    and "\<forall>k. total_length = Some k \<longrightarrow> 0 \<le> k"
  shows "\<exists>m' out. bufferConcat m (map Some bs) total_length = Inr (m', out) \<and>
    buffer_bytes m' out = take n (concat (map (buffer_bytes m) bs) @ replicate n 0) \<and> buf_length out = n \<and> take (length m) m' = m"
proof -
  define all where "all = concat (map (buffer_bytes m) bs)"
  define out where "out = \<lparr>array_id = length m, byteOffset = 0, buf_length = n\<rparr>"
  let ?m = "m @ [replicate n 0]"
  let ?r = "set_bytes ?m out 0 (take n all)"
  have total: "sum_list (map (buf_length \<circ> the) (map Some bs)) = length all"
    using assms(1) unfolding all_def by (induction bs) (simp_all add: length_buffer_bytes)
  have out: "in_memory ?m out" "buf_length out = n" by (simp_all add: out_def in_memory_def)
  have bs: "\<forall>b \<in> set bs. in_memory ?m b \<and> array_id b \<noteq> array_id out" "map (buffer_bytes ?m) bs = map (buffer_bytes m) bs"
    using assms(1) by (auto simp: in_memory_def nth_append out_def buffer_bytes_def)
  have loop: "concat_loop out n 0 (map Some bs) ?m = Inr ?r"
    using concat_loop_sets [OF out bs(1), of 0] by (simp add: bs(2) all_def)
  have fits: "0 + length (take n all) \<le> buf_length out" by (simp add: out_def)
  have "bufferConcat m (map Some bs) total_length = Inr (?r, out)"
  proof (cases total_length)
    case None
    then have "n = length all" using assms(3) by (simp add: all_def)
    moreover have "None \<notin> set (map Some bs)" by auto
    ultimately show ?thesis using None assms(2) loop total
      by (simp add: bufferConcat_def new_array_def out_def del: map_map set_map)
  next
    case (Some k)
    then show ?thesis using assms loop by (simp add: bufferConcat_def new_array_def out_def)
  qed
  moreover have "buffer_bytes ?r out = take n (all @ replicate n 0)"
  proof -
    have "buffer_bytes ?m out = replicate n 0" by (simp add: buffer_bytes_def out_def)
    then show ?thesis using buffer_bytes_set [OF out(1) fits] by (simp add: splice_def min_def)
  qed
  moreover have "take (length m) ?r = m" by (simp add: set_bytes_def put_at_def out_def list_update_append)
  ultimately show ?thesis using out(2) unfolding all_def by blast
qed

subsection \<open>Searching\<close>

definition occurs :: "byte list \<Rightarrow> byte list \<Rightarrow> nat \<Rightarrow> bool" where
  "occurs hay needle i \<longleftrightarrow> take (length needle) (drop i hay) = needle"

lemma occurs_fits: "needle \<noteq> [] \<Longrightarrow> occurs hay needle i \<Longrightarrow> i + length needle \<le> length hay"
proof -
  assume "needle \<noteq> []" "occurs hay needle i"
  then have "min (length hay - i) (length needle) = length needle" unfolding occurs_def by (metis length_drop length_take)
  moreover have "0 < length needle" using \<open>needle \<noteq> []\<close> by simp
  ultimately show ?thesis by linarith
qed

lemma matches_occurs:
  assumes "i + length needle \<le> length hay"
  shows "matches_at hay needle i = occurs hay needle i"
proof -
  have "length (take (length needle) (drop i hay)) = length needle" using assms by simp
  moreover have "take (length needle) (drop i hay) ! j = hay ! (i + j)" if "j < length needle" for j using that assms by simp
  ultimately show ?thesis unfolding occurs_def matches_at_def list_eq_iff_nth_eq list_all_iff by auto
qed

text \<open>The first place from \<open>s\<close> on, and the last up to \<open>s\<close>.\<close>

lemma find_first:
  "find P [s..<n] = (if \<exists>i. s \<le> i \<and> i < n \<and> P i then Some (LEAST i. s \<le> i \<and> i < n \<and> P i) else None)"
proof (induction "n - s" arbitrary: s)
  case 0
  then show ?case by simp
next
  case (Suc k)
  then have s: "[s..<n] = s # [Suc s..<n]" by (simp add: upt_conv_Cons)
  show ?case
  proof (cases "P s")
    case True
    then have "(LEAST i. s \<le> i \<and> i < n \<and> P i) = s" using Suc.hyps(2) by (intro Least_equality) auto
    moreover have "\<exists>i. s \<le> i \<and> i < n \<and> P i" using True Suc.hyps(2) by (intro exI [of _ s]) simp
    ultimately show ?thesis using True s by simp
  next
    case False
    then have "s \<le> i \<and> i < n \<and> P i \<longleftrightarrow> Suc s \<le> i \<and> i < n \<and> P i" for i using Suc_le_eq le_less by auto
    moreover have "k = n - Suc s" using Suc.hyps(2) by simp
    ultimately show ?thesis using Suc.hyps(1) [of "Suc s"] s False by auto
  qed
qed

lemma find_last:
  "find P (rev [0..<n]) = (if \<exists>i. i < n \<and> P i then Some (GREATEST i. i < n \<and> P i) else None)"
proof (induction n)
  case (Suc n)
  show ?case
  proof (cases "P n")
    case True
    then have "(GREATEST i. i < Suc n \<and> P i) = n" by (intro Greatest_equality) auto
    with True show ?thesis by auto
  next
    case False
    then have "i < Suc n \<and> P i \<longleftrightarrow> i < n \<and> P i" for i by (auto simp: less_Suc_eq)
    with Suc False show ?thesis by simp
  qed
qed simp

lemma search_result:
  assumes "search_bytes toLower m v enc = Inr needle" and "needle \<noteq> []" and "search_start (length (buffer_bytes m b)) (Num x) forward = s"
    and "find (matches_at (buffer_bytes m b) needle)
           (if forward then [s..<Suc (length (buffer_bytes m b)) - length needle]
            else if length needle \<le> length (buffer_bytes m b) then rev [0..<Suc (min s (length (buffer_bytes m b) - length needle))] else []) = r"
  shows "buffer_search toLower m b v (Num x) enc forward = Inr (case r of Some i \<Rightarrow> int i | None \<Rightarrow> - 1)"
  unfolding buffer_search_def Let_def slot.case prod.case assms(1) bindE_Inr assms(3) assms(4) using assms(2) by (cases r) simp_all

text \<open>
  C30: \<open>indexOf\<close> and \<open>lastIndexOf\<close> with a whole offset, which counts from the end when it is negative and is the start when it
  lies before that. \<open>indexOf\<close> is the first place from there on where the bytes that are searched stand, \<open>lastIndexOf\<close> the
  last place up to there, -1 where there is none, so \<open>lastIndexOf\<close> may find the start for an offset before it. When nothing is
  searched both give the offset, at most the length.
\<close>

theorem buffer_search_exact:
  assumes "search_bytes toLower m v enc = Inr needle" and "hay = buffer_bytes m b"
    and "s = nat (if n < 0 then max 0 (int (length hay) + n) else n)"
  shows "indexOf toLower m b v (Num (Finite n True)) enc =
      Inr (if needle = [] then int (min s (length hay))
           else if \<exists>i. s \<le> i \<and> occurs hay needle i then int (LEAST i. s \<le> i \<and> occurs hay needle i) else - 1) \<and>
    lastIndexOf toLower m b v (Num (Finite n True)) enc =
      Inr (if needle = [] then int (min s (length hay))
           else if \<exists>i. i \<le> s \<and> occurs hay needle i then int (GREATEST i. i \<le> s \<and> occurs hay needle i) else - 1)"
proof (cases "needle = []")
  case True
  then show ?thesis using assms by (simp add: indexOf_def lastIndexOf_def buffer_search_def search_start_def js_trunc_def)
next
  case ne: False
  have start: "search_start (length hay) (Num (Finite n True)) forward = s" for forward
    using assms(3) by (simp add: search_start_def js_trunc_def)
  have "find (matches_at hay needle) [s..<Suc (length hay) - length needle] =
    (if \<exists>i. s \<le> i \<and> occurs hay needle i then Some (LEAST i. s \<le> i \<and> occurs hay needle i) else None)"
  proof -
    have "s \<le> i \<and> i < Suc (length hay) - length needle \<and> matches_at hay needle i \<longleftrightarrow> s \<le> i \<and> occurs hay needle i" for i
      using matches_occurs [of i needle hay] occurs_fits [OF ne, of hay i] by auto
    then show ?thesis unfolding find_first by simp
  qed
  then have first: "indexOf toLower m b v (Num (Finite n True)) enc =
      Inr (if \<exists>i. s \<le> i \<and> occurs hay needle i then int (LEAST i. s \<le> i \<and> occurs hay needle i) else - 1)"
    using search_result [OF assms(1) ne, of b "Finite n True" True s] start unfolding indexOf_def assms(2) [symmetric] by simp
  have "find (matches_at hay needle) (if length needle \<le> length hay then rev [0..<Suc (min s (length hay - length needle))] else []) =
    (if \<exists>i. i \<le> s \<and> occurs hay needle i then Some (GREATEST i. i \<le> s \<and> occurs hay needle i) else None)"
  proof (cases "length needle \<le> length hay")
    case True
    then have "i < Suc (min s (length hay - length needle)) \<and> matches_at hay needle i \<longleftrightarrow> i \<le> s \<and> occurs hay needle i" for i
      using matches_occurs [of i needle hay] occurs_fits [OF ne, of hay i] by auto
    with True show ?thesis by (simp add: find_last del: upt_Suc)
  next
    case False
    then have "\<not> occurs hay needle i" for i using occurs_fits [OF ne, of hay i] by auto
    with False show ?thesis by simp
  qed
  then have "lastIndexOf toLower m b v (Num (Finite n True)) enc =
      Inr (if \<exists>i. i \<le> s \<and> occurs hay needle i then int (GREATEST i. i \<le> s \<and> occurs hay needle i) else - 1)"
    using search_result [OF assms(1) ne, of b "Finite n True" False s] start unfolding lastIndexOf_def assms(2) [symmetric]
    by (simp del: upt_Suc)
  with first ne show ?thesis by simp
qed

lemma buffer_search_exact_witness:
  "indexOf (\<lambda>s. s) [[1, 2, 1, 2, 3]] \<lparr>array_id = 0, byteOffset = 0, buf_length = 5\<rparr> (BytesValue \<lparr>array_id = 0, byteOffset = 0, buf_length = 2\<rparr>)
     (Num (Finite (- 4) True)) None =
   Inr (if ([1, 2] :: byte list) = [] then int (min 1 (length ([1, 2, 1, 2, 3] :: byte list)))
        else if \<exists>i. 1 \<le> i \<and> occurs [1, 2, 1, 2, 3] [1, 2] i then int (LEAST i. 1 \<le> i \<and> occurs [1, 2, 1, 2, 3] [1, 2] i) else - 1)"
proof (rule conjunct1 [OF buffer_search_exact [where s = 1 and needle = "[1, 2]" and hay = "[1, 2, 1, 2, 3]"]])
  show "search_bytes (\<lambda>s. s) [[1, 2, 1, 2, 3]] (BytesValue \<lparr>array_id = 0, byteOffset = 0, buf_length = 2\<rparr>) None = Inr [1, 2]"
    by (simp add: search_bytes_def buffer_bytes_def)
  show "[1, 2, 1, 2, 3] = buffer_bytes [[1, 2, 1, 2, 3]] \<lparr>array_id = 0, byteOffset = 0, buf_length = 5\<rparr>"
    by (simp add: buffer_bytes_def)
qed simp

text \<open>A negative offset before the start finds a match at the start, which lies behind it.\<close>

lemma last_index_clamped:
  "lastIndexOf toLower [[97, 98]] \<lparr>array_id = 0, byteOffset = 0, buf_length = 2\<rparr> (NumberValue (Finite 97 True)) (Num (Finite (- 5) True)) None =
   Inr 0"
  by (simp add: lastIndexOf_def buffer_search_def search_bytes_def byte_of_number_def js_trunc_def search_start_def buffer_bytes_def
      matches_at_def)

subsection \<open>Writing text\<close>

lemma whole_chars_run:
  "s \<le> n \<Longrightarrow> \<forall>i. s < i \<and> i \<le> n \<longrightarrow> 128 \<le> unat (bs ! i) \<and> unat (bs ! i) < 192 \<Longrightarrow>
   s = 0 \<or> \<not> (128 \<le> unat (bs ! s) \<and> unat (bs ! s) < 192) \<Longrightarrow> whole_chars bs n = s"
proof (induction n)
  case (Suc n)
  then show ?case by (cases "s = Suc n") auto
qed simp

text \<open>Where the bytes of a text are cut, the loop goes back to the end of the last whole character.\<close>

lemma whole_chars_text:
  assumes "\<forall>n \<in> set ns. scalar n" and bs: "map unat bs = concat (map utf8_char ns)" and mx: "mx < length bs"
  obtains whole n rest where "ns = whole @ n # rest" and "whole_chars bs mx = length (concat (map utf8_char whole))"
    and "whole_chars bs mx \<le> mx" and "mx < length (concat (map utf8_char whole)) + length (utf8_char n)"
proof -
  have "concat (map utf8_char ns) = map unat (take mx bs) @ map unat (drop mx bs)"
    unfolding bs [symmetric] by (simp flip: map_append)
  from chars_split [OF this] obtain whole ns' q where ns: "ns = whole @ ns'"
    and a: "map unat (take mx bs) = concat (map utf8_char whole) @ q"
    and q: "q = [] \<or> (\<exists>n ns'' r. ns' = n # ns'' \<and> utf8_char n = q @ r \<and> r \<noteq> [])" by blast
  define s where "s = length (concat (map utf8_char whole))"
  have sq: "mx = s + length q" using arg_cong [OF a, of length] mx by (simp add: s_def)
  have len: "length bs = length (concat (map utf8_char ns))" using arg_cong [OF bs, of length] by simp
  then have "ns' \<noteq> []" using q ns mx sq by (cases "q = []") (auto simp: s_def)
  then obtain n rest where ns': "ns' = n # rest" by (cases ns') auto
  then have "scalar n" using assms(1) ns by simp
  then obtain l conts where n: "utf8_char n = l # conts" and l: "\<not> (128 \<le> l \<and> l < 192)"
    and conts: "\<forall>c \<in> set conts. 128 \<le> c \<and> c < 192" using utf8_char_shape by metis
  have short: "length q < length (utf8_char n)" using q ns' by (cases "q = []") (auto simp: utf8_char_nonempty)
  have at: "unat (bs ! (s + i)) = utf8_char n ! i" if "i < length (utf8_char n)" for i
  proof -
    have "s + i < length bs" using len that unfolding ns ns' s_def by simp
    then have "unat (bs ! (s + i)) = concat (map utf8_char ns) ! (s + i)" by (simp add: bs [symmetric])
    also have "\<dots> = (utf8_char n @ concat (map utf8_char rest)) ! i" unfolding ns ns' by (simp add: s_def nth_append)
    finally show ?thesis using that by (simp add: nth_append)
  qed
  have "whole_chars bs mx = s"
  proof (rule whole_chars_run)
    show "s \<le> mx" using sq by simp
    show "\<forall>i. s < i \<and> i \<le> mx \<longrightarrow> 128 \<le> unat (bs ! i) \<and> unat (bs ! i) < 192"
    proof (intro allI impI)
      fix i assume i: "s < i \<and> i \<le> mx"
      then have j: "i - s - 1 < length conts" "i - s < length (utf8_char n)" using sq short n by auto
      have "unat (bs ! (s + (i - s))) = utf8_char n ! (i - s)" using j(2) by (rule at)
      then have "unat (bs ! i) = conts ! (i - s - 1)" using i n by (simp add: nth_Cons')
      then show "128 \<le> unat (bs ! i) \<and> unat (bs ! i) < 192" using conts j(1) by (metis nth_mem)
    qed
    have "unat (bs ! (s + 0)) = utf8_char n ! 0" using n by (intro at) simp
    then show "s = 0 \<or> \<not> (128 \<le> unat (bs ! s) \<and> unat (bs ! s) < 192)" using l n by simp
  qed
  then show thesis using sq short by (intro that [of whole n rest]) (simp_all add: ns ns' s_def)
qed

lemma length_utf16: "length (stringBytes str EncUtf16le) = length str * 2"
  by (simp add: stringBytes_def length_concat comp_def sum_list_triv)

text \<open>
  C29: \<open>write\<close> at an offset inside the buffer: of the bytes of the string in the encoding it stores the first \<open>k\<close>, no more than
  the length it is told and the buffer has from there on, reports \<open>k\<close> and changes no other byte. In UTF-8 these are as many
  whole characters as fit and no part of the next one; in UTF-16 whole units, of which a pair may be cut; in the others bytes.
\<close>

theorem buffer_write_whole:
  assumes "p \<le> buf_length b" and "p < 4294967296" and "pred_option (\<lambda>n. n < 4294967296) len"
    and "encodingOrThrow toLower enc = Inr e"
    and "room = (case len of None \<Rightarrow> buf_length b - p | Some n \<Rightarrow> min n (buf_length b - p))"
  shows "\<exists>k \<le> room. buffer_write toLower m b str (Num (Finite (int p) True))
        (case len of None \<Rightarrow> Missing | Some n \<Rightarrow> Num (Finite (int n) True)) enc =
      Inr (set_bytes m b p (take k (stringBytes str e)), k) \<and>
    (case e of
       EncUtf8 \<Rightarrow> \<exists>whole rest. code_points str = whole @ rest \<and> k = length (concat (map utf8_char whole)) \<and>
         (rest = [] \<or> room < k + length (utf8_char (hd rest)))
     | EncUtf16le \<Rightarrow> k = 2 * min (length str) (room div 2)
     | _ \<Rightarrow> k = min (length (stringBytes str e)) room)"
proof -
  let ?bs = "stringBytes str e"
  define cut where "cut = (if length ?bs \<le> room then length ?bs
    else if e = EncUtf8 then whole_chars ?bs room else if e = EncUtf16le then room - room mod 2 else room)"
  have p: "slot_uint32 0 (Num (Finite (int p) True)) = p" using assms(2) by (simp add: slot_uint32_def to_uint32_def js_trunc_def)
  have u: "to_uint32 (Finite (int n) True) = n" if "n < 4294967296" for n using that by (simp add: to_uint32_def js_trunc_def)
  have w: "buffer_write toLower m b str (Num (Finite (int p) True))
        (case len of None \<Rightarrow> Missing | Some n \<Rightarrow> Num (Finite (int n) True)) enc =
      Inr (set_bytes m b p (take cut ?bs), length (take cut ?bs))"
    using assms(1,3) by (cases len) (simp_all add: buffer_write_def Let_def p u assms(4,5) cut_def)
  show ?thesis
  proof (cases "e = EncUtf8")
    case False
    have "length ?bs = 2 * length str" if "e = EncUtf16le" using length_utf16 that by simp
    then have k: "cut \<le> room" "cut \<le> length ?bs"
      "case e of EncUtf8 \<Rightarrow> True | EncUtf16le \<Rightarrow> cut = 2 * min (length str) (room div 2) | _ \<Rightarrow> cut = min (length ?bs) room"
      using False by (auto simp: cut_def min_def minus_mod_eq_mult_div split: encoding.split)
    with w False show ?thesis by (intro exI [of _ cut]) (simp add: min_absorb2 split: encoding.splits)
  next
    case utf8: True
    then have bs: "?bs = utf8_encode str" by (simp add: stringBytes_def)
    have len: "length ?bs = length (concat (map utf8_char (code_points str)))" by (simp add: bs utf8_encode_def)
    show ?thesis
    proof (cases "length ?bs \<le> room")
      case True
      then show ?thesis using w len utf8
        by (intro exI [of _ "length ?bs"]) (simp add: cut_def, rule exI [of _ "code_points str"], simp)
    next
      case False
      then have "room < length (utf8_encode str)" by (simp add: bs)
      from whole_chars_text [OF _ utf8_encode_nats this] code_points_scalar [of _ str]
      obtain whole c rest where c: "code_points str = whole @ c # rest" "whole_chars (utf8_encode str) room = length (concat (map utf8_char whole))"
        "whole_chars (utf8_encode str) room \<le> room" "room < length (concat (map utf8_char whole)) + length (utf8_char c)" by metis
      have "cut = whole_chars (utf8_encode str) room" using False utf8 by (simp add: cut_def stringBytes_def)
      then show ?thesis using w c False utf8
        by (intro exI [of _ cut]) (simp add: min_absorb2, rule exI [of _ whole], rule exI [of _ "c # rest"], simp)
    qed
  qed
qed

lemma buffer_write_whole_witness:
  "\<exists>k \<le> 4. buffer_write (\<lambda>s. s) [[0, 0, 0, 0, 0]] \<lparr>array_id = 0, byteOffset = 0, buf_length = 5\<rparr> [0x61, 0xE9, 0x20AC]
      (Num (Finite (int 1) True)) (Num (Finite (int 9) True)) None =
    Inr (set_bytes [[0, 0, 0, 0, 0]] \<lparr>array_id = 0, byteOffset = 0, buf_length = 5\<rparr> 1 (take k (stringBytes [0x61, 0xE9, 0x20AC] EncUtf8)), k)"
proof -
  have e: "encodingOrThrow (\<lambda>s. s) None = Inr EncUtf8" by (simp add: encodingOrThrow_def normalizeEncoding_def)
  have "1 \<le> buf_length \<lparr>array_id = 0, byteOffset = 0, buf_length = 5\<rparr>" "(1 :: nat) < 4294967296"
    "pred_option (\<lambda>n. n < 4294967296) (Some (9 :: nat))"
    "4 = (case Some 9 of None \<Rightarrow> buf_length \<lparr>array_id = 0, byteOffset = 0, buf_length = 5\<rparr> - 1
      | Some n \<Rightarrow> min n (buf_length \<lparr>array_id = 0, byteOffset = 0, buf_length = 5\<rparr> - 1))" by simp_all
  from buffer_write_whole [OF this(1-3) e this(4), of "[[0, 0, 0, 0, 0]]" "[0x61, 0xE9, 0x20AC]"]
  show ?thesis unfolding option.case by blast
qed

subsection \<open>Copies, fills and swaps\<close>

text \<open>The bytes arrive as they were before, also where both buffers are the same memory, and nothing else changes.\<close>

lemma copy_bytes:
  assumes "in_memory m b" and "in_memory m target" and "ts < buf_length target" and "ss < se" and "se \<le> buf_length b"
    and "buf_length target < 2147483648" and "buf_length b < 2147483648"
  shows "buffer_copy m b target (Some (Finite (int ts) True)) (Some (Finite (int ss) True)) (Some (Finite (int se) True)) =
    Inr (set_bytes m target ts (take (min (se - ss) (buf_length target - ts)) (drop ss (buffer_bytes m b))),
         min (se - ss) (buf_length target - ts))"
proof -
  have i32: "to_int32 (Finite (int n) True) = int n" if "n < 2147483648" for n using that by (simp add: to_int32_def js_trunc_def)
  define n where "n = min (se - ss) (buf_length target - ts)"
  have "nat (min (int se - int ss) (int (buf_length target) - int ts)) = n" using assms(3,4) by (simp add: n_def)
  moreover have "take n (drop (byteOffset b + ss) (m ! array_id b)) = take n (drop ss (buffer_bytes m b))"
    using assms(5) by (simp add: buffer_bytes_def n_def drop_take add.commute min_def)
  moreover have "nat (int (byteOffset target) + int ts) = byteOffset target + ts" by simp
  ultimately show ?thesis
    using assms by (simp add: buffer_copy_def Let_def i32 n_def [symmetric] set_bytes_def min_absorb2)
qed

text \<open>With a negative offset \<open>copy\<close> stores in front of the target, in memory of other buffers.\<close>

lemma copy_before_target:
  "buffer_copy [[1, 2, 3, 4], [9]] \<lparr>array_id = 1, byteOffset = 0, buf_length = 1\<rparr> \<lparr>array_id = 0, byteOffset = 2, buf_length = 2\<rparr>
     (Some (Finite (- 2) True)) None None = Inr ([[9, 2, 3, 4], [9]], 1)"
  by (simp add: buffer_copy_def to_int32_def js_trunc_def put_at_def splice_def Let_def)

lemma fill_loop_const:
  "in_memory m b \<Longrightarrow> i + k \<le> buf_length b \<Longrightarrow> j < length pat \<Longrightarrow>
   fill_loop b (\<lambda>_. pat) k i j m = set_bytes m b i (map (\<lambda>t. pat ! ((j + t) mod length pat)) [0..<k])"
proof (induction k arbitrary: i j m)
  case (Suc k)
  let ?m = "set_bytes m b i [pat ! j]"
  let ?rest = "map (\<lambda>t. pat ! ((Suc j mod length pat + t) mod length pat)) [0..<k]"
  have "in_memory ?m b" using Suc.prems by (simp add: in_memory_set)
  moreover have "Suc j mod length pat < length pat" using Suc.prems(3) by (cases pat) simp_all
  ultimately have "fill_loop b (\<lambda>_. pat) (Suc k) i j m = set_bytes ?m b (Suc i) ?rest" using Suc by simp
  also have "\<dots> = set_bytes m b i ([pat ! j] @ ?rest)" using Suc.prems by (intro set_bytes_twice) simp_all
  also have "[pat ! j] @ ?rest = map (\<lambda>t. pat ! ((j + t) mod length pat)) [0..<Suc k]"
    using Suc.prems(3) by (cases "pat = []") (simp_all add: map_upt_Suc mod_simps del: upt_Suc)
  finally show ?case .
qed (simp add: set_bytes_nothing)

text \<open>A string fills the range with its bytes over and over.\<close>

lemma fill_string:
  assumes "in_memory m b" and "encodingOrThrow toLower enc = Inr e" and "stringBytes str e \<noteq> []" and "p < q" and "q \<le> buf_length b"
    and "q < 4294967296"
  shows "buffer_fill toLower m b (StringValue str) (Num (Finite (int p) True)) (Num (Finite (int q) True)) enc =
    Inr (set_bytes m b p (map (\<lambda>t. stringBytes str e ! (t mod length (stringBytes str e))) [0..<q - p]))"
proof -
  have u: "slot_uint32 d (Num (Finite (int n) True)) = n" if "n < 4294967296" for d n
    using that by (simp add: slot_uint32_def to_uint32_def js_trunc_def)
  have "slot_uint32 d (Num (Finite (int p) True)) = p" "slot_uint32 d (Num (Finite (int q) True)) = q" for d
    using assms(4,6) by (auto intro: u)
  then show ?thesis using assms by (simp add: buffer_fill_def Let_def fill_loop_const)
qed

text \<open>A string that has no byte in its encoding fills with zeros.\<close>

lemma fill_nothing:
  "encodingOrThrow toLower enc = Inr EncHex \<Longrightarrow>
   buffer_fill toLower [[7]] \<lparr>array_id = 0, byteOffset = 0, buf_length = 1\<rparr> (StringValue [122, 122]) Missing Missing enc = Inr [[0]]"
  by (simp add: buffer_fill_def slot_uint32_def to_uint32_def js_trunc_def stringBytes_def is_hex_digit_def digit_val_def
      set_bytes_def put_at_def splice_def Let_def)

lemma length_swap_groups: "length bs = k * n \<Longrightarrow> length (swap_groups k n bs) = k * n"
  by (induction k n bs rule: swap_groups.induct) simp_all

lemma swap_groups_twice: "length bs = k * n \<Longrightarrow> swap_groups k n (swap_groups k n bs) = bs"
proof (induction k n bs rule: swap_groups.induct)
  case (2 k n bs)
  then have "length (drop k bs) = k * n" "length (take k bs) = k" by simp_all
  with 2 show ?case by simp
qed simp

text \<open>Swapping twice gives the bytes back.\<close>

lemma swap_twice:
  assumes "in_memory m b" and "buffer_swap k m b = Inr m'" and "0 < k"
  shows "\<exists>m''. buffer_swap k m' b = Inr m'' \<and> buffer_bytes m'' b = buffer_bytes m b"
proof -
  define n where "n = buf_length b div k"
  have len: "buf_length b = k * n" "buf_length b mod k = 0"
    using assms(2) by (auto simp: buffer_swap_def n_def split: if_splits)
  have bytes: "length (buffer_bytes m b) = k * n" using length_buffer_bytes [OF assms(1)] len(1) by simp
  have m': "m' = set_bytes m b 0 (swap_groups k n (buffer_bytes m b))" using assms(2) len(2) by (simp add: buffer_swap_def n_def)
  have fits: "0 + length (swap_groups k n (buffer_bytes m b)) \<le> buf_length b" using bytes len by (simp add: length_swap_groups)
  have b': "buffer_bytes m' b = swap_groups k n (buffer_bytes m b)" "in_memory m' b"
    using buffer_bytes_set [OF assms(1) fits] in_memory_set [OF assms(1) fits] assms(1) bytes len m'
    by (simp_all add: splice_def length_swap_groups length_buffer_bytes)
  have fits': "0 + length (swap_groups k n (buffer_bytes m' b)) \<le> buf_length b" using bytes len b'(1) by (simp add: length_swap_groups)
  have "buffer_bytes (set_bytes m' b 0 (swap_groups k n (buffer_bytes m' b))) b = buffer_bytes m b"
    using buffer_bytes_set [OF b'(2) fits'] bytes len b' by (simp add: splice_def length_swap_groups swap_groups_twice length_buffer_bytes)
  then show ?thesis using len(2) by (simp add: buffer_swap_def n_def)
qed

end
