(* ===== verification/BufferInt.thy ===== *)
theory BufferInt
  imports BufferMemory
begin

text \<open>
  The integer readers and writers of \<open>Buffer\<close> (\<open>node-buffer.js\<close>). A fixed width is read and written through a
  \<open>DataView\<close>, whose access of so many bytes in either order is the pair \<open>store_bytes\<close> and \<open>load_bytes\<close>, as is the loop of
  the methods told the width. A \<open>BigInt\<close> is a whole number. The contract of a pair of methods is the locale \<open>int_field\<close>:
  where they reach, what they take, which bytes they store and that the number is read back.
\<close>

subsection \<open>Integers\<close>

text \<open>The bytes of a number, the lowest first: what \<open>DataView\<close> stores, and the loop of \<open>writeUIntLE\<close>.\<close>

fun int_bytes :: "nat \<Rightarrow> int \<Rightarrow> byte list" where
  "int_bytes 0 v = []"
| "int_bytes (Suc k) v = word_of_int (v mod 256) # int_bytes k (v div 256)"

text \<open>The loop of \<open>readUIntBE\<close>, and what \<open>DataView\<close> reads.\<close>

fun bytes_int :: "int \<Rightarrow> byte list \<Rightarrow> int" where
  "bytes_int value [] = value"
| "bytes_int value (b # bs) = bytes_int (value * 256 + uint b) bs"

definition store_bytes :: "bool \<Rightarrow> nat \<Rightarrow> int \<Rightarrow> byte list" where
  "store_bytes little k v = (if little then int_bytes k v else rev (int_bytes k v))"

definition load_bytes :: "bool \<Rightarrow> byte list \<Rightarrow> int" where
  "load_bytes little bs = bytes_int 0 (if little then rev bs else bs)"

definition signed_value :: "nat \<Rightarrow> int \<Rightarrow> int" where
  "signed_value k v = (let limit = 2 ^ (8 * k - 1) in if limit \<le> v then v - limit * 2 else v)"

definition read_bytes :: "memory \<Rightarrow> buffer \<Rightarrow> nat \<Rightarrow> nat \<Rightarrow> byte list" where
  "read_bytes m b offset k = take k (drop offset (buffer_bytes m b))"

definition read_uint :: "bool \<Rightarrow> nat \<Rightarrow> memory \<Rightarrow> buffer \<Rightarrow> js_arg \<Rightarrow> buffer_error + int" where
  "read_uint little k m b offset =
     bindE (checkOffset b offset k) (\<lambda>p. Inr (load_bytes little (read_bytes m b p k)))"

definition read_int :: "bool \<Rightarrow> nat \<Rightarrow> memory \<Rightarrow> buffer \<Rightarrow> js_arg \<Rightarrow> buffer_error + int" where
  "read_int little k m b offset = bindE (read_uint little k m b offset) (\<lambda>v. Inr (signed_value k v))"

definition write_fixed ::
    "bool \<Rightarrow> nat \<Rightarrow> int \<Rightarrow> int \<Rightarrow> memory \<Rightarrow> buffer \<Rightarrow> js_number \<Rightarrow> js_arg \<Rightarrow> buffer_error + (memory \<times> nat)" where
  "write_fixed little k mn mx m b v offset =
     bindE (checkOffset b offset k) (\<lambda>p.
     bindE (checkInt v mn mx) (\<lambda>_.
       Inr (set_bytes m b p (store_bytes little k (js_trunc v)), p + k)))"

text \<open>The methods of one width, which read and write through a \<open>DataView\<close>.\<close>

definition readUInt8 :: "memory \<Rightarrow> buffer \<Rightarrow> js_arg \<Rightarrow> buffer_error + int" where
  "readUInt8 = read_uint False 1"

definition writeUInt8 :: "memory \<Rightarrow> buffer \<Rightarrow> js_number \<Rightarrow> js_arg \<Rightarrow> buffer_error + (memory \<times> nat)" where
  "writeUInt8 = write_fixed False 1 0 255"

definition readInt8 :: "memory \<Rightarrow> buffer \<Rightarrow> js_arg \<Rightarrow> buffer_error + int" where
  "readInt8 = read_int False 1"

definition writeInt8 :: "memory \<Rightarrow> buffer \<Rightarrow> js_number \<Rightarrow> js_arg \<Rightarrow> buffer_error + (memory \<times> nat)" where
  "writeInt8 = write_fixed False 1 (- 128) 127"

definition readUInt16LE :: "memory \<Rightarrow> buffer \<Rightarrow> js_arg \<Rightarrow> buffer_error + int" where
  "readUInt16LE = read_uint True 2"

definition writeUInt16LE :: "memory \<Rightarrow> buffer \<Rightarrow> js_number \<Rightarrow> js_arg \<Rightarrow> buffer_error + (memory \<times> nat)" where
  "writeUInt16LE = write_fixed True 2 0 65535"

definition readInt16LE :: "memory \<Rightarrow> buffer \<Rightarrow> js_arg \<Rightarrow> buffer_error + int" where
  "readInt16LE = read_int True 2"

definition writeInt16LE :: "memory \<Rightarrow> buffer \<Rightarrow> js_number \<Rightarrow> js_arg \<Rightarrow> buffer_error + (memory \<times> nat)" where
  "writeInt16LE = write_fixed True 2 (- 32768) 32767"

definition readUInt16BE :: "memory \<Rightarrow> buffer \<Rightarrow> js_arg \<Rightarrow> buffer_error + int" where
  "readUInt16BE = read_uint False 2"

definition writeUInt16BE :: "memory \<Rightarrow> buffer \<Rightarrow> js_number \<Rightarrow> js_arg \<Rightarrow> buffer_error + (memory \<times> nat)" where
  "writeUInt16BE = write_fixed False 2 0 65535"

definition readInt16BE :: "memory \<Rightarrow> buffer \<Rightarrow> js_arg \<Rightarrow> buffer_error + int" where
  "readInt16BE = read_int False 2"

definition writeInt16BE :: "memory \<Rightarrow> buffer \<Rightarrow> js_number \<Rightarrow> js_arg \<Rightarrow> buffer_error + (memory \<times> nat)" where
  "writeInt16BE = write_fixed False 2 (- 32768) 32767"

definition readUInt32LE :: "memory \<Rightarrow> buffer \<Rightarrow> js_arg \<Rightarrow> buffer_error + int" where
  "readUInt32LE = read_uint True 4"

definition writeUInt32LE :: "memory \<Rightarrow> buffer \<Rightarrow> js_number \<Rightarrow> js_arg \<Rightarrow> buffer_error + (memory \<times> nat)" where
  "writeUInt32LE = write_fixed True 4 0 4294967295"

definition readInt32LE :: "memory \<Rightarrow> buffer \<Rightarrow> js_arg \<Rightarrow> buffer_error + int" where
  "readInt32LE = read_int True 4"

definition writeInt32LE :: "memory \<Rightarrow> buffer \<Rightarrow> js_number \<Rightarrow> js_arg \<Rightarrow> buffer_error + (memory \<times> nat)" where
  "writeInt32LE = write_fixed True 4 (- 2147483648) 2147483647"

definition readUInt32BE :: "memory \<Rightarrow> buffer \<Rightarrow> js_arg \<Rightarrow> buffer_error + int" where
  "readUInt32BE = read_uint False 4"

definition writeUInt32BE :: "memory \<Rightarrow> buffer \<Rightarrow> js_number \<Rightarrow> js_arg \<Rightarrow> buffer_error + (memory \<times> nat)" where
  "writeUInt32BE = write_fixed False 4 0 4294967295"

definition readInt32BE :: "memory \<Rightarrow> buffer \<Rightarrow> js_arg \<Rightarrow> buffer_error + int" where
  "readInt32BE = read_int False 4"

definition writeInt32BE :: "memory \<Rightarrow> buffer \<Rightarrow> js_number \<Rightarrow> js_arg \<Rightarrow> buffer_error + (memory \<times> nat)" where
  "writeInt32BE = write_fixed False 4 (- 2147483648) 2147483647"

definition readBigUInt64LE :: "memory \<Rightarrow> buffer \<Rightarrow> js_arg \<Rightarrow> buffer_error + int" where
  "readBigUInt64LE = read_uint True 8"

definition writeBigUInt64LE :: "memory \<Rightarrow> buffer \<Rightarrow> js_number \<Rightarrow> js_arg \<Rightarrow> buffer_error + (memory \<times> nat)" where
  "writeBigUInt64LE = write_fixed True 8 0 18446744073709551615"

definition readBigInt64LE :: "memory \<Rightarrow> buffer \<Rightarrow> js_arg \<Rightarrow> buffer_error + int" where
  "readBigInt64LE = read_int True 8"

definition writeBigInt64LE :: "memory \<Rightarrow> buffer \<Rightarrow> js_number \<Rightarrow> js_arg \<Rightarrow> buffer_error + (memory \<times> nat)" where
  "writeBigInt64LE = write_fixed True 8 (- 9223372036854775808) 9223372036854775807"

definition readBigUInt64BE :: "memory \<Rightarrow> buffer \<Rightarrow> js_arg \<Rightarrow> buffer_error + int" where
  "readBigUInt64BE = read_uint False 8"

definition writeBigUInt64BE :: "memory \<Rightarrow> buffer \<Rightarrow> js_number \<Rightarrow> js_arg \<Rightarrow> buffer_error + (memory \<times> nat)" where
  "writeBigUInt64BE = write_fixed False 8 0 18446744073709551615"

definition readBigInt64BE :: "memory \<Rightarrow> buffer \<Rightarrow> js_arg \<Rightarrow> buffer_error + int" where
  "readBigInt64BE = read_int False 8"

definition writeBigInt64BE :: "memory \<Rightarrow> buffer \<Rightarrow> js_number \<Rightarrow> js_arg \<Rightarrow> buffer_error + (memory \<times> nat)" where
  "writeBigInt64BE = write_fixed False 8 (- 9223372036854775808) 9223372036854775807"

text \<open>
  The methods that are told the width, up to six bytes, where a \<open>Number\<close> is exact. \<open>writeIntLE\<close> adds to a negative number,
  the fraction of it included.
\<close>

definition readUIntLE :: "nat \<Rightarrow> memory \<Rightarrow> buffer \<Rightarrow> js_arg \<Rightarrow> buffer_error + int" where
  "readUIntLE k = read_uint True k"

definition readUIntBE :: "nat \<Rightarrow> memory \<Rightarrow> buffer \<Rightarrow> js_arg \<Rightarrow> buffer_error + int" where
  "readUIntBE k = read_uint False k"

definition readIntLE :: "nat \<Rightarrow> memory \<Rightarrow> buffer \<Rightarrow> js_arg \<Rightarrow> buffer_error + int" where
  "readIntLE k m b offset = bindE (readUIntLE k m b offset) (\<lambda>v. Inr (signed_value k v))"

definition readIntBE :: "nat \<Rightarrow> memory \<Rightarrow> buffer \<Rightarrow> js_arg \<Rightarrow> buffer_error + int" where
  "readIntBE k m b offset = bindE (readUIntBE k m b offset) (\<lambda>v. Inr (signed_value k v))"

definition writeUIntLE :: "nat \<Rightarrow> memory \<Rightarrow> buffer \<Rightarrow> js_number \<Rightarrow> js_arg \<Rightarrow> buffer_error + (memory \<times> nat)" where
  "writeUIntLE k = write_fixed True k 0 (2 ^ (8 * k) - 1)"

definition writeUIntBE :: "nat \<Rightarrow> memory \<Rightarrow> buffer \<Rightarrow> js_number \<Rightarrow> js_arg \<Rightarrow> buffer_error + (memory \<times> nat)" where
  "writeUIntBE k = write_fixed False k 0 (2 ^ (8 * k) - 1)"

definition unsigned_number :: "nat \<Rightarrow> js_number \<Rightarrow> js_number" where
  "unsigned_number k v =
     (case v of Finite n whole \<Rightarrow> if n < 0 then Finite (n + 2 ^ (8 * k - 1) * 2) whole else v | _ \<Rightarrow> v)"

definition writeIntLE :: "nat \<Rightarrow> memory \<Rightarrow> buffer \<Rightarrow> js_number \<Rightarrow> js_arg \<Rightarrow> buffer_error + (memory \<times> nat)" where
  "writeIntLE k m b v offset =
     (let limit = 2 ^ (8 * k - 1)
      in bindE (checkInt v (- limit) (limit - 1)) (\<lambda>_. writeUIntLE k m b (unsigned_number k v) offset))"

definition writeIntBE :: "nat \<Rightarrow> memory \<Rightarrow> buffer \<Rightarrow> js_number \<Rightarrow> js_arg \<Rightarrow> buffer_error + (memory \<times> nat)" where
  "writeIntBE k m b v offset =
     (let limit = 2 ^ (8 * k - 1)
      in bindE (checkInt v (- limit) (limit - 1)) (\<lambda>_. writeUIntBE k m b (unsigned_number k v) offset))"

text \<open>All of them: width, order, how to write, how to read and the numbers that fit.\<close>

definition integer_methods ::
    "(nat \<times> bool \<times> (memory \<Rightarrow> buffer \<Rightarrow> js_number \<Rightarrow> js_arg \<Rightarrow> buffer_error + (memory \<times> nat)) \<times>
      (memory \<Rightarrow> buffer \<Rightarrow> js_arg \<Rightarrow> buffer_error + int) \<times> int \<times> int) set" where
  "integer_methods =
     {(1, False, writeUInt8, readUInt8, 0, 255),
      (1, False, writeInt8, readInt8, - 128, 127),
      (2, True, writeUInt16LE, readUInt16LE, 0, 65535),
      (2, True, writeInt16LE, readInt16LE, - 32768, 32767),
      (2, False, writeUInt16BE, readUInt16BE, 0, 65535),
      (2, False, writeInt16BE, readInt16BE, - 32768, 32767),
      (4, True, writeUInt32LE, readUInt32LE, 0, 4294967295),
      (4, True, writeInt32LE, readInt32LE, - 2147483648, 2147483647),
      (4, False, writeUInt32BE, readUInt32BE, 0, 4294967295),
      (4, False, writeInt32BE, readInt32BE, - 2147483648, 2147483647),
      (8, True, writeBigUInt64LE, readBigUInt64LE, 0, 18446744073709551615),
      (8, True, writeBigInt64LE, readBigInt64LE, - 9223372036854775808, 9223372036854775807),
      (8, False, writeBigUInt64BE, readBigUInt64BE, 0, 18446744073709551615),
      (8, False, writeBigInt64BE, readBigInt64BE, - 9223372036854775808, 9223372036854775807)} \<union>
     (\<Union>k \<in> {1..6}.
        {(k, True, writeUIntLE k, readUIntLE k, 0, 2 ^ (8 * k) - 1), (k, False, writeUIntBE k, readUIntBE k, 0, 2 ^ (8 * k) - 1),
         (k, True, writeIntLE k, readIntLE k, - (2 ^ (8 * k - 1)), 2 ^ (8 * k - 1) - 1),
         (k, False, writeIntBE k, readIntBE k, - (2 ^ (8 * k - 1)), 2 ^ (8 * k - 1) - 1)})"

subsection \<open>Integers in memory\<close>

lemma length_int_bytes: "length (int_bytes k v) = k"
  by (induction k arbitrary: v) simp_all

lemma length_store_bytes: "length (store_bytes little k v) = k"
  by (simp add: store_bytes_def length_int_bytes)

lemma bytes_int_append: "bytes_int a (xs @ ys) = bytes_int (bytes_int a xs) ys"
  by (induction xs arbitrary: a) simp_all

lemma uint_byte: "uint (word_of_int (v mod 256) :: byte) = v mod 256"
  by (simp add: unsigned_of_int take_bit_eq_mod)

lemma bytes_int_bytes: "bytes_int a (rev (int_bytes k v)) = a * 256 ^ k + v mod 256 ^ k"
proof (induction k arbitrary: v)
  case (Suc k)
  have "v mod 256 ^ Suc k = 256 * (v div 256 mod 256 ^ k) + v mod 256" using zmod_zmult2_eq [of "256 ^ k" v 256] by simp
  then show ?case using Suc [of "v div 256"] by (simp add: bytes_int_append uint_byte)
qed simp

lemma power_256: "(256 :: int) ^ k = 2 ^ (8 * k)"
  by (simp add: power_mult)

lemma load_store: "load_bytes little (store_bytes little k v) = v mod 2 ^ (8 * k)"
  using bytes_int_bytes [of 0 k v] by (simp add: load_bytes_def store_bytes_def power_256)

text \<open>A store sees a number up to multiples of the width.\<close>

lemma int_bytes_shift: "int_bytes k (v + 256 ^ k * j) = int_bytes k v"
proof (induction k arbitrary: v)
  case (Suc k)
  have "v + 256 ^ Suc k * j = v + (256 ^ k * j) * 256" by simp
  then have "(v + 256 ^ Suc k * j) mod 256 = v mod 256" "(v + 256 ^ Suc k * j) div 256 = v div 256 + 256 ^ k * j"
    by (simp_all only: mod_mult_self1 div_mult_self1)
  then show ?case using Suc by simp
qed simp

lemma store_shift: "store_bytes little k (v + 2 ^ (8 * k)) = store_bytes little k v"
  using int_bytes_shift [of k v 1] by (simp add: store_bytes_def power_256)

lemma half_width: "0 < k \<Longrightarrow> (2 :: int) ^ (8 * k - 1) * 2 = 2 ^ (8 * k)"
  using power_Suc2 [of "2 :: int" "8 * k - 1"] by simp

lemma signed_value_mod:
  assumes "0 < k" and "- (2 ^ (8 * k - 1)) \<le> v" and "v \<le> 2 ^ (8 * k - 1) - 1"
  shows "signed_value k (v mod 2 ^ (8 * k)) = v"
proof -
  define h where "h = (2 :: int) ^ (8 * k - 1)"
  have "2 ^ (8 * k) = h * 2" using half_width [OF assms(1)] by (simp add: h_def)
  moreover have "v mod (h * 2) = (if v < 0 then v + h * 2 else v)"
  proof -
    have "(v + h * 2) mod (h * 2) = v mod (h * 2)" by simp
    then show ?thesis using assms(2,3) mod_pos_pos_trivial [of "v + h * 2" "h * 2"] mod_pos_pos_trivial [of v "h * 2"]
      unfolding h_def [symmetric] by (cases "v < 0") simp_all
  qed
  ultimately show ?thesis using assms(2,3) unfolding signed_value_def h_def [symmetric] by (auto simp: Let_def)
qed

lemma int_bytes_map: "int_bytes k v = map (\<lambda>i. word_of_int (v div 256 ^ i)) [0..<k]"
proof (induction k arbitrary: v)
  case (Suc k)
  have "(word_of_int (v mod 256) :: byte) = word_of_int v" by (simp add: word_of_int_eq_iff take_bit_eq_mod)
  moreover have "v div 256 div 256 ^ i = v div 256 ^ Suc i" for i by (simp add: zdiv_zmult2_eq)
  moreover have "map (\<lambda>i. word_of_int (v div 256 ^ i)) [0..<Suc k] =
      (word_of_int v :: byte) # map (\<lambda>i. word_of_int (v div 256 ^ Suc i)) [0..<k]" by (simp add: map_upt_Suc del: upt_Suc)
  ultimately show ?case using Suc [of "v div 256"] by simp
qed simp

text \<open>The byte at a place, whatever the order.\<close>

lemma store_bytes_map: "store_bytes little k v = map (\<lambda>i. word_of_int (v div 256 ^ (if little then i else k - 1 - i))) [0..<k]"
proof (cases little)
  case False
  have "rev (int_bytes k v) = map (\<lambda>i. word_of_int (v div 256 ^ (k - 1 - i))) [0..<k]"
    by (intro nth_equalityI) (simp_all add: int_bytes_map rev_nth)
  with False show ?thesis by (simp add: store_bytes_def)
qed (simp add: store_bytes_def int_bytes_map)

lemma check_whole: "(\<exists>p. checkOffset b (Number (Finite n True)) k = Inr p) \<longleftrightarrow> 0 \<le> n \<and> n + int k \<le> int (buf_length b)"
  "checkOffset b (Number (Finite n True)) k = Inr p \<longleftrightarrow> 0 \<le> n \<and> n + int k \<le> int (buf_length b) \<and> p = nat n"
  by (auto simp: checkOffset_def)

text \<open>
  The contract of a pair of methods: numbers in a range are stored in so many bytes at an offset that \<open>checkOffset\<close> lets pass,
  and read back by undoing the reduction to the width.
\<close>

locale int_field =
  fixes k :: nat and "write" :: "memory \<Rightarrow> buffer \<Rightarrow> js_number \<Rightarrow> js_arg \<Rightarrow> buffer_error + (memory \<times> nat)"
    and read :: "memory \<Rightarrow> buffer \<Rightarrow> js_arg \<Rightarrow> buffer_error + int" and low :: int and high :: int
    and little :: bool and value_of :: "int \<Rightarrow> int"
  assumes write_in: "checkOffset b offset k = Inr p \<Longrightarrow> low \<le> v \<Longrightarrow> v \<le> high \<Longrightarrow>
      write m b (Finite v True) offset = Inr (set_bytes m b p (store_bytes little k v), p + k)"
    and write_out: "write m b (Finite v True) offset = Inr r \<Longrightarrow> low \<le> v \<and> v \<le> high \<and> (\<exists>p. checkOffset b offset k = Inr p)"
    and read_in: "checkOffset b offset k = Inr p \<Longrightarrow> read m b offset = Inr (value_of (load_bytes little (read_bytes m b p k)))"
    and read_out: "read m b offset = Inr x \<Longrightarrow> \<exists>p. checkOffset b offset k = Inr p"
    and value_mod: "low \<le> v \<Longrightarrow> v \<le> high \<Longrightarrow> value_of (v mod 2 ^ (8 * k)) = v"
begin

lemma written:
  assumes "in_memory m b" and "checkOffset b offset k = Inr p" and "low \<le> v" and "v \<le> high" and "p + k \<le> buf_length b"
  shows "write m b (Finite v True) offset = Inr (set_bytes m b p (store_bytes little k v), p + k)"
    and "read (set_bytes m b p (store_bytes little k v)) b offset = Inr v"
proof -
  show "write m b (Finite v True) offset = Inr (set_bytes m b p (store_bytes little k v), p + k)"
    using assms(2-4) by (rule write_in)
  have "p + length (store_bytes little k v) \<le> buf_length b" using assms(5) by (simp add: length_store_bytes)
  from buffer_bytes_set [OF assms(1) this]
  have "read_bytes (set_bytes m b p (store_bytes little k v)) b p k = store_bytes little k v"
    using assms(5) length_buffer_bytes [OF assms(1)]
    by (simp add: read_bytes_def splice_def length_store_bytes)
  then show "read (set_bytes m b p (store_bytes little k v)) b offset = Inr v"
    using read_in [OF assms(2)] value_mod [OF assms(3,4)] by (simp add: load_store)
qed

lemma stored:
  assumes "in_memory m b"
  shows "case write m b (Finite v True) (Number (Finite n True)) of
      Inl e \<Rightarrow> \<not> (low \<le> v \<and> v \<le> high \<and> 0 \<le> n \<and> n + int k \<le> int (buf_length b))
    | Inr (m', q) \<Rightarrow>
        low \<le> v \<and> v \<le> high \<and> 0 \<le> n \<and> n + int k \<le> int (buf_length b) \<and> q = nat n + k \<and>
        m' = set_bytes m b (nat n) (map (\<lambda>i. word_of_int (v div 256 ^ (if little then i else k - 1 - i))) [0..<k]) \<and>
        read m' b (Number (Finite n True)) = Inr v"
proof (cases "low \<le> v \<and> v \<le> high \<and> 0 \<le> n \<and> n + int k \<le> int (buf_length b)")
  case True
  then obtain j where "n = int j" by (auto elim: nonneg_int_cases)
  with True have "checkOffset b (Number (Finite n True)) k = Inr (nat n)" and "nat n + k \<le> buf_length b"
    by (simp_all add: checkOffset_def)
  from written [OF assms this(1) _ _ this(2), of v] True show ?thesis by (simp add: store_bytes_map)
next
  case False
  then have "write m b (Finite v True) (Number (Finite n True)) \<noteq> Inr r" for r
    using write_out [of m b v "Number (Finite n True)" r] by (auto simp: check_whole)
  then obtain e where "write m b (Finite v True) (Number (Finite n True)) = Inl e"
    by (cases "write m b (Finite v True) (Number (Finite n True))") blast+
  with False show ?thesis by simp
qed

lemma reads_inside: "(\<exists>x. read m b (Number (Finite n True)) = Inr x) \<longleftrightarrow> 0 \<le> n \<and> n + int k \<le> int (buf_length b)"
  unfolding check_whole(1) [symmetric] by (metis read_in read_out)

end

lemma check_in: "checkInt (Finite v True) mn mx = (if mn \<le> v \<and> v \<le> mx then Inr () else Inl OUT_OF_RANGE)"
  by (auto simp: checkInt_def num_above_def num_below_def)

lemma trunc_whole: "js_trunc (Finite v True) = v"
  by (simp add: js_trunc_def)

lemma unsigned_field: "mx = 2 ^ (8 * k) - 1 \<Longrightarrow> int_field k (write_fixed little k 0 mx) (read_uint little k) 0 mx little (\<lambda>v. v)"
  by unfold_locales (auto simp: write_fixed_def read_uint_def check_in trunc_whole bindE_eq_Inr split: if_splits)

lemma signed_field:
  "0 < k \<Longrightarrow> mn = - (2 ^ (8 * k - 1)) \<Longrightarrow> mx = 2 ^ (8 * k - 1) - 1 \<Longrightarrow>
   int_field k (write_fixed little k mn mx) (read_int little k) mn mx little (signed_value k)"
  by unfold_locales
    (auto simp: write_fixed_def read_int_def read_uint_def check_in trunc_whole bindE_eq_Inr signed_value_mod split: if_splits)

text \<open>The methods told the width write a negative number as the number it is up to a multiple of the width.\<close>

lemma unsigned_number_store:
  assumes "0 < k" and "- (2 ^ (8 * k - 1)) \<le> v" and "v \<le> 2 ^ (8 * k - 1) - 1"
  shows "\<exists>u. unsigned_number k (Finite v True) = Finite u True \<and> 0 \<le> u \<and> u \<le> 2 ^ (8 * k) - 1 \<and>
    store_bytes little k u = store_bytes little k v"
proof -
  define h where "h = (2 :: int) ^ (8 * k - 1)"
  have h: "2 ^ (8 * k) = h * 2" using half_width [OF assms(1)] by (simp add: h_def)
  show ?thesis
  proof (cases "v < 0")
    case True
    then show ?thesis using assms(2,3) store_shift [of little k v] unfolding h h_def [symmetric]
      by (intro exI [of _ "v + h * 2"]) (simp add: unsigned_number_def h_def)
  next
    case False
    then show ?thesis using assms(2,3) unfolding h h_def [symmetric]
      by (intro exI [of _ v]) (simp add: unsigned_number_def)
  qed
qed

lemma variable_field:
  assumes "0 < k"
    and w: "\<And>m b v offset. wr m b v offset =
      bindE (checkInt v (- (2 ^ (8 * k - 1))) (2 ^ (8 * k - 1) - 1)) (\<lambda>_.
        write_fixed little k 0 (2 ^ (8 * k) - 1) m b (unsigned_number k v) offset)"
    and r: "\<And>m b offset. rd m b offset = bindE (read_uint little k m b offset) (\<lambda>v. Inr (signed_value k v))"
  shows "int_field k wr rd (- (2 ^ (8 * k - 1))) (2 ^ (8 * k - 1) - 1) little (signed_value k)"
proof
  fix m b offset p and v :: int
  assume p: "checkOffset b offset k = Inr p" and v: "- (2 ^ (8 * k - 1)) \<le> v" "v \<le> 2 ^ (8 * k - 1) - 1"
  from unsigned_number_store [OF assms(1) v] obtain u where u: "unsigned_number k (Finite v True) = Finite u True" "0 \<le> u"
    "u \<le> 2 ^ (8 * k) - 1" "store_bytes little k u = store_bytes little k v" by blast
  have "checkInt (Finite v True) (- (2 ^ (8 * k - 1))) (2 ^ (8 * k - 1) - 1) = Inr ()" using v by (simp add: check_in)
  moreover have "checkInt (Finite u True) 0 (2 ^ (8 * k) - 1) = Inr ()" using u by (simp add: check_in)
  ultimately show "wr m b (Finite v True) offset = Inr (set_bytes m b p (store_bytes little k v), p + k)"
    by (simp add: w u(1) write_fixed_def p u(4) trunc_whole)
next
  fix m b offset q and v :: int
  assume "wr m b (Finite v True) offset = Inr q"
  then show "- (2 ^ (8 * k - 1)) \<le> v \<and> v \<le> 2 ^ (8 * k - 1) - 1 \<and> (\<exists>p. checkOffset b offset k = Inr p)"
    by (auto simp: w bindE_eq_Inr write_fixed_def check_in split: if_splits)
next
  fix m b offset p
  assume "checkOffset b offset k = Inr p"
  then show "rd m b offset = Inr (signed_value k (load_bytes little (read_bytes m b p k)))" by (simp add: r read_uint_def)
next
  fix m b offset x
  assume "rd m b offset = Inr x"
  then show "\<exists>p. checkOffset b offset k = Inr p" by (auto simp: r read_uint_def bindE_eq_Inr)
qed (use assms(1) signed_value_mod in blast)

interpretation ofUInt8: int_field 1 writeUInt8 readUInt8 "0" 255 False "\<lambda>v. v"
  unfolding writeUInt8_def readUInt8_def by (rule unsigned_field) simp_all

interpretation ofInt8: int_field 1 writeInt8 readInt8 "- 128" 127 False "signed_value 1"
  unfolding writeInt8_def readInt8_def by (rule signed_field) simp_all

interpretation ofUInt16LE: int_field 2 writeUInt16LE readUInt16LE "0" 65535 True "\<lambda>v. v"
  unfolding writeUInt16LE_def readUInt16LE_def by (rule unsigned_field) simp_all

interpretation ofInt16LE: int_field 2 writeInt16LE readInt16LE "- 32768" 32767 True "signed_value 2"
  unfolding writeInt16LE_def readInt16LE_def by (rule signed_field) simp_all

interpretation ofUInt16BE: int_field 2 writeUInt16BE readUInt16BE "0" 65535 False "\<lambda>v. v"
  unfolding writeUInt16BE_def readUInt16BE_def by (rule unsigned_field) simp_all

interpretation ofInt16BE: int_field 2 writeInt16BE readInt16BE "- 32768" 32767 False "signed_value 2"
  unfolding writeInt16BE_def readInt16BE_def by (rule signed_field) simp_all

interpretation ofUInt32LE: int_field 4 writeUInt32LE readUInt32LE "0" 4294967295 True "\<lambda>v. v"
  unfolding writeUInt32LE_def readUInt32LE_def by (rule unsigned_field) simp_all

interpretation ofInt32LE: int_field 4 writeInt32LE readInt32LE "- 2147483648" 2147483647 True "signed_value 4"
  unfolding writeInt32LE_def readInt32LE_def by (rule signed_field) simp_all

interpretation ofUInt32BE: int_field 4 writeUInt32BE readUInt32BE "0" 4294967295 False "\<lambda>v. v"
  unfolding writeUInt32BE_def readUInt32BE_def by (rule unsigned_field) simp_all

interpretation ofInt32BE: int_field 4 writeInt32BE readInt32BE "- 2147483648" 2147483647 False "signed_value 4"
  unfolding writeInt32BE_def readInt32BE_def by (rule signed_field) simp_all

interpretation ofBigUInt64LE: int_field 8 writeBigUInt64LE readBigUInt64LE "0" 18446744073709551615 True "\<lambda>v. v"
  unfolding writeBigUInt64LE_def readBigUInt64LE_def by (rule unsigned_field) simp_all

interpretation ofBigInt64LE: int_field 8 writeBigInt64LE readBigInt64LE "- 9223372036854775808" 9223372036854775807 True "signed_value 8"
  unfolding writeBigInt64LE_def readBigInt64LE_def by (rule signed_field) simp_all

interpretation ofBigUInt64BE: int_field 8 writeBigUInt64BE readBigUInt64BE "0" 18446744073709551615 False "\<lambda>v. v"
  unfolding writeBigUInt64BE_def readBigUInt64BE_def by (rule unsigned_field) simp_all

interpretation ofBigInt64BE: int_field 8 writeBigInt64BE readBigInt64BE "- 9223372036854775808" 9223372036854775807 False "signed_value 8"
  unfolding writeBigInt64BE_def readBigInt64BE_def by (rule signed_field) simp_all

lemma told_width:
  assumes "0 < k"
  shows "int_field k (writeUIntLE k) (readUIntLE k) 0 (2 ^ (8 * k) - 1) True (\<lambda>v. v)"
    and "int_field k (writeUIntBE k) (readUIntBE k) 0 (2 ^ (8 * k) - 1) False (\<lambda>v. v)"
    and "int_field k (writeIntLE k) (readIntLE k) (- (2 ^ (8 * k - 1))) (2 ^ (8 * k - 1) - 1) True (signed_value k)"
    and "int_field k (writeIntBE k) (readIntBE k) (- (2 ^ (8 * k - 1))) (2 ^ (8 * k - 1) - 1) False (signed_value k)"
proof -
  show "int_field k (writeUIntLE k) (readUIntLE k) 0 (2 ^ (8 * k) - 1) True (\<lambda>v. v)"
    and "int_field k (writeUIntBE k) (readUIntBE k) 0 (2 ^ (8 * k) - 1) False (\<lambda>v. v)"
    unfolding writeUIntLE_def readUIntLE_def writeUIntBE_def readUIntBE_def by (rule unsigned_field; simp)+
  show "int_field k (writeIntLE k) (readIntLE k) (- (2 ^ (8 * k - 1))) (2 ^ (8 * k - 1) - 1) True (signed_value k)"
    by (rule variable_field [OF assms]) (simp_all add: writeIntLE_def readIntLE_def writeUIntLE_def readUIntLE_def Let_def)
  show "int_field k (writeIntBE k) (readIntBE k) (- (2 ^ (8 * k - 1))) (2 ^ (8 * k - 1) - 1) False (signed_value k)"
    by (rule variable_field [OF assms]) (simp_all add: writeIntBE_def readIntBE_def writeUIntBE_def readUIntBE_def Let_def)
qed

lemmas fixed_widths = ofUInt8.int_field_axioms ofInt8.int_field_axioms ofUInt16LE.int_field_axioms ofInt16LE.int_field_axioms ofUInt16BE.int_field_axioms ofInt16BE.int_field_axioms ofUInt32LE.int_field_axioms ofInt32LE.int_field_axioms ofUInt32BE.int_field_axioms ofInt32BE.int_field_axioms ofBigUInt64LE.int_field_axioms ofBigInt64LE.int_field_axioms ofBigUInt64BE.int_field_axioms ofBigInt64BE.int_field_axioms

lemma method_field:
  assumes "(k, little, w, r, low, high) \<in> integer_methods"
  shows "\<exists>value_of. int_field k w r low high little value_of"
proof -
  from assms consider (fixed) "int_field k w r low high little (\<lambda>v. v) \<or> int_field k w r low high little (signed_value k)"
    | (told) n where "n \<in> {1..6}" "(k, little, w, r, low, high) \<in>
        {(n, True, writeUIntLE n, readUIntLE n, 0, 2 ^ (8 * n) - 1), (n, False, writeUIntBE n, readUIntBE n, 0, 2 ^ (8 * n) - 1),
         (n, True, writeIntLE n, readIntLE n, - (2 ^ (8 * n - 1)), 2 ^ (8 * n - 1) - 1),
         (n, False, writeIntBE n, readIntBE n, - (2 ^ (8 * n - 1)), 2 ^ (8 * n - 1) - 1)}"
    unfolding integer_methods_def Un_iff UN_iff
    by (elim disjE bexE) (simp only: insert_iff empty_iff prod.inject, elim disjE conjE FalseE; simp add: fixed_widths [simplified])
  then show ?thesis
  proof cases
    case told
    then have "0 < n" by simp
    from told_width [OF this] told(2) show ?thesis by (simp only: insert_iff empty_iff prod.inject) blast
  qed blast
qed



text \<open>A number between -1 and 0 is in the range of \<open>writeInt8\<close>, and refused by \<open>writeIntLE\<close> of one byte.\<close>

lemma negative_fraction_refused:
  assumes "0 < buf_length b"
  shows "writeInt8 m b (Finite (- 1) False) Undefined = Inr (set_bytes m b 0 [0], 1)"
    and "writeIntLE 1 m b (Finite (- 1) False) Undefined = Inl OUT_OF_RANGE"
  using assms by (simp_all add: writeInt8_def writeIntLE_def writeUIntLE_def write_fixed_def checkOffset_def checkInt_def num_above_def
      num_below_def js_trunc_def store_bytes_def unsigned_number_def Let_def)

end
