(* ===== verification/KvKey.thy ===== *)
theory KvKey
  imports Utf8
begin

unbundle bit_operations_syntax

text \<open>
  \<open>deno-kv.js\<close>, keys: \<open>encodeKey\<close> and \<open>decodeKey\<close>, the linear order of key parts (an instance of the class
  \<open>linorder\<close>), and the ranges of the selectors of \<open>list\<close>. The bytes of a key carry their own end and their order
  is the order of the keys, so that a range of byte strings is a range of keys.
\<close>

subsection \<open>Keys\<close>

text \<open>A Number is its 64-bit pattern; a NaN has the pattern the engine gives it.\<close>

datatype kv_part =
    Part_bytes "byte list"
  | Part_string jsstr
  | Part_bigint int
  | Part_number "64 word"
  | Part_bool bool

definition TAG_bytes :: byte where "TAG_bytes = 0x01"
definition TAG_string :: byte where "TAG_string = 0x02"
definition TAG_bigint :: byte where "TAG_bigint = 0x14"
definition TAG_number :: byte where "TAG_number = 0x21"
definition TAG_false :: byte where "TAG_false = 0x26"
definition TAG_true :: byte where "TAG_true = 0x27"

lemmas TAG_defs = TAG_bytes_def TAG_string_def TAG_bigint_def TAG_number_def TAG_false_def TAG_true_def

subsection \<open>Encoding\<close>

definition pushEscaped :: "byte list \<Rightarrow> byte list" where
  "pushEscaped bs = concat (map (\<lambda>b. if b = 0 then [b, 0xFF] else [b]) bs) @ [0]"

definition encode_number :: "64 word \<Rightarrow> byte list" where
  "encode_number w =
     (let b = be_bytes 8 (unat w)
      in if b ! 0 AND 0x80 \<noteq> 0 then map (\<lambda>x. x XOR 0xFF) b else b[0 := b ! 0 XOR 0x80])"

function magnitude_bytes :: "nat \<Rightarrow> byte list \<Rightarrow> byte list" where
  "magnitude_bytes m bytes = (if 0 < m then magnitude_bytes (m div 256) (word_of_nat (m mod 256) # bytes) else bytes)"
  by pat_completeness auto
termination by (relation "measure fst") auto

declare magnitude_bytes.simps [simp del]

definition encode_bigint :: "int \<Rightarrow> byte list" where
  "encode_bigint n =
     (let bytes = magnitude_bytes (nat \<bar>n\<bar>) []; len = be_bytes 4 (length bytes)
      in if n < 0 then 0x7F # map (\<lambda>b. b XOR 0xFF) len @ map (\<lambda>b. b XOR 0xFF) bytes
         else 0x80 # len @ bytes)"

fun encode_part :: "kv_part \<Rightarrow> byte list" where
  "encode_part (Part_bytes bs) = TAG_bytes # pushEscaped bs"
| "encode_part (Part_string s) = TAG_string # pushEscaped (utf8_encode s)"
| "encode_part (Part_number w) = TAG_number # encode_number w"
| "encode_part (Part_bigint n) = TAG_bigint # encode_bigint n"
| "encode_part (Part_bool b) = [if b then TAG_true else TAG_false]"

definition encodeKey :: "kv_part list \<Rightarrow> string + byte list" where
  "encodeKey key = (if key = [] then Inl ''Key cannot be empty'' else Inr (concat (map encode_part key)))"

subsection \<open>Decoding\<close>

text \<open>
  \<open>readEscaped\<close> on what is left of the bytes. It does not look for their end: past it \<open>bytes[i++]\<close> is
  \<open>undefined\<close>, which is not the terminator, so that the loop goes on for ever: None.
\<close>

fun readEscaped :: "byte list \<Rightarrow> (byte list \<times> byte list) option" where
  "readEscaped [] = None"
| "readEscaped (b # bs) =
     (if b = 0 then
        (case bs of
           [] \<Rightarrow> Some ([], [])
         | c # cs \<Rightarrow> if c = 0xFF then map_option (\<lambda>(out, r). (0 # out, r)) (readEscaped cs) else Some ([], bs))
      else map_option (\<lambda>(out, r). (b # out, r)) (readEscaped bs))"

definition decode_number :: "byte list \<Rightarrow> 64 word" where
  "decode_number b =
     (let b = (if b ! 0 AND 0x80 \<noteq> 0 then b[0 := b ! 0 XOR 0x80] else map (\<lambda>x. x XOR 0xFF) b)
      in word_of_nat (be_val b))"

text \<open>
  The bytes of a bigint after the sign. A missing byte is \<open>undefined\<close>: complemented it counts as 255, otherwise it
  makes the length NaN, with which the loop ends, or \<open>BigInt(undefined)\<close> throws.
\<close>

definition decode_bigint :: "bool \<Rightarrow> byte list \<Rightarrow> string + (int \<times> byte list)" where
  "decode_bigint negative bs =
     (if negative then
        let at = (\<lambda>j. (if j < length bs then bs ! j else 0) XOR 0xFF); len = be_val (map at [0..<4])
        in Inr (- int (be_val (map at [4..<4 + len])), drop (4 + len) bs)
      else if length bs < 4 then Inr (0, [])
      else let len = be_val (take 4 bs)
        in if length bs < 4 + len then Inl ''TypeError''
           else Inr (int (be_val (take len (drop 4 bs))), drop (4 + len) bs))"

lemma readEscaped_shorter: "readEscaped bs = Some (out, r) \<Longrightarrow> length r < length bs"
proof (induction bs arbitrary: out r rule: readEscaped.induct)
  case (2 b bs)
  then show ?case by (fastforce split: if_splits list.splits)
qed simp

lemma decode_bigint_shorter: "decode_bigint negative bs = Inr (n, r) \<Longrightarrow> length r \<le> length bs"
  by (auto simp: decode_bigint_def Let_def split: if_splits)

text \<open>None: the call does not return.\<close>

function decode_parts :: "byte list \<Rightarrow> kv_part list \<Rightarrow> (string + kv_part list) option" where
  "decode_parts [] key = Some (Inr key)"
| "decode_parts (tag # bs) key =
     (if tag = TAG_bytes then
        (case readEscaped bs of None \<Rightarrow> None | Some (out, r) \<Rightarrow> decode_parts r (key @ [Part_bytes out]))
      else if tag = TAG_string then
        (case readEscaped bs of None \<Rightarrow> None | Some (out, r) \<Rightarrow> decode_parts r (key @ [Part_string (text_of out)]))
      else if tag = TAG_number then
        (if length bs < 8 then Some (Inl ''RangeError'')
         else decode_parts (drop 8 bs) (key @ [Part_number (decode_number (take 8 bs))]))
      else if tag = TAG_bigint then
        (case decode_bigint (bs \<noteq> [] \<and> hd bs = 0x7F) (drop 1 bs) of
           Inl e \<Rightarrow> Some (Inl e)
         | Inr (n, r) \<Rightarrow> decode_parts r (key @ [Part_bigint n]))
      else if tag = TAG_true then decode_parts bs (key @ [Part_bool True])
      else if tag = TAG_false then decode_parts bs (key @ [Part_bool False])
      else Some (Inl ''Corrupt key in the database''))"
  by pat_completeness auto
termination
proof (relation "measure (length \<circ> fst)")
  fix tag :: byte and bs key p out r
  assume "readEscaped bs = Some p" "(out, r) = p"
  then have "length r < length bs" using readEscaped_shorter [of bs out r] by metis
  then show "((r, key @ [Part_bytes out]), tag # bs, key) \<in> measure (length \<circ> fst)"
    "((r, key @ [Part_string (text_of out)]), tag # bs, key) \<in> measure (length \<circ> fst)" by simp_all
next
  fix tag :: byte and bs key p n r
  assume "decode_bigint (bs \<noteq> [] \<and> hd bs = 0x7F) (drop 1 bs) = Inr p" "(n, r) = p"
  then have "length r \<le> length bs - 1" using decode_bigint_shorter [of "bs \<noteq> [] \<and> hd bs = 0x7F" "drop 1 bs" n r] by (metis length_drop)
  then show "((r, key @ [Part_bigint n]), tag # bs, key) \<in> measure (length \<circ> fst)" by simp
qed simp_all

definition decodeKey :: "byte list \<Rightarrow> (string + kv_part list) option" where
  "decodeKey bs = decode_parts bs []"

subsection \<open>Reading a key back\<close>

lemma pushEscaped_simps [simp]:
  "pushEscaped [] = [0]"
  "pushEscaped (b # bs) = (if b = 0 then 0 # 0xFF # pushEscaped bs else b # pushEscaped bs)"
  by (simp_all add: pushEscaped_def)

lemma readEscaped_pushEscaped: "rest = [] \<or> hd rest \<noteq> 0xFF \<Longrightarrow> readEscaped (pushEscaped bs @ rest) = Some (bs, rest)"
  by (induction bs) (auto split: list.split)

lemma xor_ff: "(x XOR 0xFF) XOR 0xFF = (x :: byte)" "x XOR 0xFF = NOT (x :: byte)"
proof -
  show n: "x XOR 0xFF = NOT x" for x :: byte
  proof -
    have "(0xFF :: byte) = NOT 0" by simp
    then show ?thesis by (simp only: xor.commute [of x] bit.xor_def) simp
  qed
  show "(x XOR 0xFF) XOR 0xFF = x" by (simp add: n)
qed

lemma and_80: "x AND 0x80 = 0 \<longleftrightarrow> \<not> bit (x :: byte) 7"
  using and_exp_eq_0_iff_not_bit [of x 7] by simp

lemma bit_80: "bit (0x80 :: byte) n \<longleftrightarrow> n = 7"
  using bit_exp_iff [where ?'a = "8 word", of 7 n] by auto

lemma xor_80: "(x XOR 0x80) XOR 0x80 = (x :: byte)" "(x XOR 0x80) AND 0x80 = 0 \<longleftrightarrow> x AND (0x80 :: byte) \<noteq> 0"
    "(NOT x) AND 0x80 = 0 \<longleftrightarrow> x AND (0x80 :: byte) \<noteq> 0"
  by (simp add: xor.assoc) (simp_all add: and_80 bit_xor_iff bit_not_iff bit_80)

lemma number_roundtrip: "decode_number (encode_number w) = w \<and> length (encode_number w) = 8"
proof -
  define b where "b = be_bytes 8 (unat w)"
  have b: "length b = 8" "word_of_nat (be_val b) = w"
    using unsigned_less [of w, where ?'a = nat] by (simp_all add: b_def)
  have xx: "map (\<lambda>x. x XOR 0xFF) (map (\<lambda>x. x XOR 0xFF) b) = b" by (simp add: xor_ff comp_def)
  have yy: "(b[0 := b ! 0 XOR 0x80])[0 := b[0 := b ! 0 XOR 0x80] ! 0 XOR 0x80] = b" using b(1) by (simp add: xor_80)
  show ?thesis
  proof (cases "b ! 0 AND 0x80 = 0")
    case True
    then show ?thesis using b yy by (simp add: encode_number_def decode_number_def Let_def xor_80 flip: b_def)
  next
    case False
    then show ?thesis using b xx by (simp add: encode_number_def decode_number_def Let_def xor_80 xor_ff flip: b_def)
  qed
qed

lemma magnitude_bytes_acc: "magnitude_bytes m bytes = magnitude_bytes m [] @ bytes"
proof (induction m arbitrary: bytes rule: less_induct)
  case (less m)
  show ?case
  proof (cases "0 < m")
    case True
    then have "m div 256 < m" by simp
    from less.IH [OF this, of "[word_of_nat (m mod 256)]"] less.IH [OF this, of "word_of_nat (m mod 256) # bytes"] True
    show ?thesis by (simp add: magnitude_bytes.simps [of m])
  qed (simp add: magnitude_bytes.simps [of 0])
qed

definition magnitude :: "nat \<Rightarrow> byte list" where
  "magnitude m = magnitude_bytes m []"

lemma magnitude_simps: "magnitude 0 = []" "0 < m \<Longrightarrow> magnitude m = magnitude (m div 256) @ [word_of_nat (m mod 256)]"
  using magnitude_bytes_acc [of "m div 256" "[word_of_nat (m mod 256)]"]
  by (simp_all add: magnitude_def magnitude_bytes.simps [of m] magnitude_bytes.simps [of 0])

lemma be_val_magnitude: "be_val (magnitude m) = m"
proof (induction m rule: less_induct)
  case (less m)
  show ?case
  proof (cases "0 < m")
    case True
    then have "m div 256 < m" by simp
    from less.IH [OF this] True show ?thesis by (simp add: magnitude_simps(2) [OF True])
  qed (simp add: magnitude_simps)
qed

lemma magnitude_be_bytes: "magnitude m = be_bytes (length (magnitude m)) m"
  using be_bytes_be_val [OF refl, of "magnitude m"] by (simp add: be_val_magnitude)

text \<open>
  The length of a bigint is written in 32 bits, far above the largest bigint of the engine (\<open>2 ^ 30\<close> bits).
  \<open>read_back\<close> is a part after the round trip: UTF-8 has no lone surrogates, so each becomes U+FFFD.
\<close>

definition bigint_fits :: "kv_part \<Rightarrow> bool" where
  "bigint_fits p = (case p of Part_bigint n \<Rightarrow> length (magnitude (nat \<bar>n\<bar>)) < 2 ^ 32 | _ \<Rightarrow> True)"

definition read_back :: "kv_part \<Rightarrow> kv_part" where
  "read_back p = (case p of Part_string s \<Rightarrow> Part_string (of_code_points (code_points s)) | _ \<Rightarrow> p)"

lemma encode_bigint_magnitude:
  "encode_bigint n = (let m = magnitude (nat \<bar>n\<bar>); len = be_bytes 4 (length m)
     in if n < 0 then 0x7F # map NOT len @ map NOT m else 0x80 # len @ m)"
  by (simp add: encode_bigint_def magnitude_def Let_def xor_ff)

lemma bigint_roundtrip:
  assumes "length (magnitude (nat \<bar>n\<bar>)) < 2 ^ 32"
  shows "decode_bigint (hd (encode_bigint n @ rest) = 0x7F) (drop 1 (encode_bigint n @ rest)) = Inr (n, rest)"
proof -
  define m where "m = magnitude (nat \<bar>n\<bar>)"
  define len where "len = be_bytes 4 (length m)"
  have len: "length len = 4" "be_val len = length m" using assms by (simp_all add: len_def m_def)
  have m: "int (be_val m) = \<bar>n\<bar>" by (simp add: m_def be_val_magnitude)
  show ?thesis
  proof (cases "n < 0")
    case True
    let ?bs = "map NOT len @ map NOT m @ rest"
    have at: "map (\<lambda>j. (if j < length ?bs then ?bs ! j else 0) XOR 0xFF) [0..<4] = len"
      using len by (intro nth_equalityI) (simp_all add: nth_append xor_ff)
    have at2: "map (\<lambda>j. (if j < length ?bs then ?bs ! j else 0) XOR 0xFF) [4..<4 + length m] = m"
      using len by (intro nth_equalityI) (simp_all add: nth_append xor_ff)
    have "decode_bigint True ?bs = Inr (- int (be_val m), rest)"
      unfolding decode_bigint_def Let_def at len(2) at2 using len by simp
    moreover have "encode_bigint n = 0x7F # map NOT len @ map NOT m"
      using True by (simp only: encode_bigint_magnitude Let_def m_def len_def if_True)
    ultimately show ?thesis using True m by simp
  next
    case False
    then have "encode_bigint n = 0x80 # len @ m"
      by (simp only: encode_bigint_magnitude Let_def m_def len_def if_False)
    with False show ?thesis using len m by (simp add: decode_bigint_def Let_def)
  qed
qed

text \<open>What follows a part never starts with the escape byte.\<close>

lemma tag_head: "concat (map encode_part key) = [] \<or> unat (hd (concat (map encode_part key))) < 0x28"
proof (cases key)
  case (Cons p ps)
  then show ?thesis by (cases p) (simp_all add: TAG_defs)
qed simp

lemma decode_parts_parts:
  "\<forall>p \<in> set key. bigint_fits p \<Longrightarrow>
     decode_parts (concat (map encode_part key)) done' = Some (Inr (done' @ map read_back key))"
proof (induction key arbitrary: done')
  case (Cons p key)
  let ?rest = "concat (map encode_part key)"
  have rest: "?rest = [] \<or> hd ?rest \<noteq> 0xFF" using tag_head [of key] by auto
  have IH: "decode_parts ?rest (done' @ [read_back p]) = Some (Inr (done' @ read_back p # map read_back key))" using Cons by simp
  have ok: "bigint_fits p" using Cons.prems by simp
  show ?case
  proof (cases p)
    case (Part_bytes bs)
    then show ?thesis using IH rest by (simp add: TAG_defs readEscaped_pushEscaped read_back_def)
  next
    case (Part_string s)
    then show ?thesis using IH rest by (simp add: TAG_defs readEscaped_pushEscaped read_back_def text_of_encode)
  next
    case (Part_bigint n)
    then show ?thesis
      using IH ok bigint_roundtrip [of n ?rest] by (simp add: TAG_defs bigint_fits_def read_back_def encode_bigint_magnitude Let_def split: if_splits)
  next
    case (Part_number w)
    then show ?thesis using IH number_roundtrip [of w] by (simp add: TAG_defs read_back_def)
  next
    case (Part_bool b)
    then show ?thesis using IH by (cases b) (simp_all add: TAG_defs read_back_def)
  qed
qed simp

lemma encode_read_back: "encode_part (read_back p) = encode_part p"
  by (cases p) (simp_all add: read_back_def utf8_encode_def code_points_of code_points_scalar)

lemma read_back_same: "read_back p = p \<longleftrightarrow> (\<forall>s. p = Part_string s \<longrightarrow> well_formed s)"
  by (cases p) (auto simp: read_back_def well_formed_def)

subsection \<open>The order of keys\<close>

text \<open>Numbers by sign and magnitude, the order of their values with -0 before 0.\<close>

definition number_rank :: "64 word \<Rightarrow> int" where
  "number_rank w = (if 0x8000000000000000 \<le> uint w then 0x7FFFFFFFFFFFFFFF - uint w else uint w)"

lemma number_rank_inject: "number_rank v = number_rank w \<Longrightarrow> v = w"
  using unsigned_less [of v, where ?'a = int] unsigned_less [of w, where ?'a = int] unsigned_greater_eq [of v, where ?'a = int] unsigned_greater_eq [of w, where ?'a = int]
  unfolding number_rank_def word_uint_eq_iff by (simp only: split: if_splits)

instantiation kv_part :: linorder
begin

fun less_kv_part :: "kv_part \<Rightarrow> kv_part \<Rightarrow> bool" where
  "less_kv_part (Part_bytes a) q = (case q of Part_bytes b \<Rightarrow> a < b | _ \<Rightarrow> True)"
| "less_kv_part (Part_string a) q =
     (case q of Part_bytes _ \<Rightarrow> False
      | Part_string b \<Rightarrow> code_points a < code_points b \<or> code_points a = code_points b \<and> a < b
      | _ \<Rightarrow> True)"
| "less_kv_part (Part_bigint a) q = (case q of Part_bytes _ \<Rightarrow> False | Part_string _ \<Rightarrow> False | Part_bigint b \<Rightarrow> a < b | _ \<Rightarrow> True)"
| "less_kv_part (Part_number a) q =
     (case q of Part_number b \<Rightarrow> number_rank a < number_rank b | Part_bool _ \<Rightarrow> True | _ \<Rightarrow> False)"
| "less_kv_part (Part_bool a) q = (case q of Part_bool b \<Rightarrow> a < b | _ \<Rightarrow> False)"

definition less_eq_kv_part :: "kv_part \<Rightarrow> kv_part \<Rightarrow> bool" where
  "less_eq_kv_part p q \<longleftrightarrow> p < q \<or> p = q"

instance
proof
  fix p q r :: kv_part
  have irrefl: "\<not> p < p" for p :: kv_part by (cases p) simp_all
  have trans: "p < q \<Longrightarrow> q < r \<Longrightarrow> p < r" for p q r :: kv_part
    by (cases p; cases q; cases r) auto
  have total: "p < q \<or> p = q \<or> q < p" for p q :: kv_part
    using number_rank_inject by (cases p; cases q) (auto simp: neq_iff)
  show "p < q \<longleftrightarrow> p \<le> q \<and> \<not> q \<le> p" using irrefl trans by (auto simp: less_eq_kv_part_def)
  show "p \<le> p" by (simp add: less_eq_kv_part_def)
  show "p \<le> q \<Longrightarrow> q \<le> r \<Longrightarrow> p \<le> r" using trans by (auto simp: less_eq_kv_part_def)
  show "p \<le> q \<Longrightarrow> q \<le> p \<Longrightarrow> p = q" using irrefl trans by (auto simp: less_eq_kv_part_def)
  show "p \<le> q \<or> q \<le> p" using total by (auto simp: less_eq_kv_part_def)
qed

end

lemma append_less_append_byte: "xs < ys \<Longrightarrow> zs @ xs < zs @ (ys :: byte list)"
  by (induction zs) simp_all

lemma pushEscaped_less:
  "xs < ys \<Longrightarrow> r = [] \<or> hd r < 0xFF \<Longrightarrow> pushEscaped xs @ r < pushEscaped ys @ s"
proof (induction xs arbitrary: ys)
  case Nil
  then obtain y ys' where ys: "ys = y # ys'" by (cases ys) simp_all
  show ?case
  proof (cases "y = 0")
    case True
    with ys Nil.prems(2) show ?thesis by (cases r) simp_all
  next
    case False
    then have "0 < y" by (simp add: word_neq_0_conv)
    with False ys show ?thesis by simp
  qed
next
  case (Cons x xs)
  then obtain y ys' where ys: "ys = y # ys'" by (cases ys) simp_all
  with Cons.prems(1) consider "x < y" | "x = y" "xs < ys'" by auto
  then show ?case
  proof cases
    case 1
    then have "y \<noteq> 0" by auto
    then have "0 < y" by (simp add: word_neq_0_conv)
    with 1 ys \<open>y \<noteq> 0\<close> show ?thesis by simp
  next
    case 2
    then show ?thesis using Cons.IH [of ys'] Cons.prems(2) ys by simp
  qed
qed

lemma be_bytes_less: "v < w \<Longrightarrow> w < 256 ^ k \<Longrightarrow> be_bytes k v @ r < be_bytes k w @ s"
proof (induction k arbitrary: v w r s)
  case (Suc k)
  show ?case
  proof (cases "v div 256 = w div 256")
    case True
    then have m: "v mod 256 < w mod 256" using Suc.prems(1) div_mult_mod_eq [of v 256] div_mult_mod_eq [of w 256] by linarith
    have "(word_of_nat v :: byte) < word_of_nat w"
      using m by (simp add: word_less_nat_alt unat_word_of_nat_byte)
    with True show ?thesis by (simp add: append_less_append_byte)
  next
    case False
    then have "v div 256 < w div 256" using Suc.prems(1) by (simp add: div_le_mono le_neq_implies_less)
    moreover have "w div 256 < 256 ^ k" using Suc.prems(2) by (simp add: less_mult_imp_div_less mult.commute)
    ultimately show ?thesis using Suc.IH by simp
  qed
qed simp

lemma not_be_bytes: "v < 256 ^ k \<Longrightarrow> map NOT (be_bytes k v) = be_bytes k (256 ^ k - 1 - v)"
proof (induction k arbitrary: v)
  case (Suc k)
  define q r where "q = v div 256" and "r = v mod 256"
  have v: "v = q * 256 + r" "r < 256" by (simp_all add: q_def r_def)
  have q: "q < 256 ^ k" using Suc.prems by (simp add: q_def less_mult_imp_div_less mult.commute)
  then have "256 ^ Suc k - 1 - v = (256 ^ k - 1 - q) * 256 + (255 - r)"
    using v by (simp add: algebra_simps)
  moreover have "((256 ^ k - 1 - q) * 256 + (255 - r)) div 256 = 256 ^ k - 1 - q"
    "((256 ^ k - 1 - q) * 256 + (255 - r)) mod 256 = 255 - r" by simp_all
  moreover have "NOT (word_of_nat v :: byte) = word_of_nat (255 - r)"
  proof -
    have "(word_of_nat v :: byte) = word_of_nat r" by (simp add: r_def word_of_nat_eq_iff take_bit_eq_mod)
    moreover have "(word_of_nat (255 - r) :: byte) = 255 - word_of_nat r" using v(2) by (simp add: of_nat_diff)
    ultimately show ?thesis by (simp add: not_eq_complement)
  qed
  moreover have "(word_of_nat ((256 ^ k - 1 - q) * 256 + (255 - r)) :: byte) = word_of_nat (255 - r)"
    by (simp only: word_of_nat_eq_iff take_bit_eq_mod) simp
  ultimately show ?case using Suc.IH [OF q] by (simp only: be_bytes.simps map_append list.map q_def)
qed simp

lemma be_bytes_head: "be_bytes (Suc k) v = word_of_nat (v div 256 ^ k) # be_bytes k v"
proof (induction k arbitrary: v)
  case (Suc k)
  have "v div 256 div 256 ^ k = v div 256 ^ Suc k" by (simp flip: div_mult2_eq)
  then show ?case using Suc.IH [of "v div 256"] by (simp only: be_bytes.simps(2) append_Cons)
qed simp

lemma be_bytes_cong: "v mod 256 ^ k = w mod 256 ^ k \<Longrightarrow> be_bytes k v = be_bytes k w"
  by (metis be_bytes_be_val be_val_be_bytes length_be_bytes)

lemma bit_7: "h < 256 \<Longrightarrow> bit (word_of_nat h :: byte) 7 \<longleftrightarrow> 128 \<le> h"
proof -
  assume h: "h < 256"
  have "h div 128 = (if 128 \<le> h then 1 else 0)" using h by (auto intro: div_nat_eqI)
  then have "bit h 7 \<longleftrightarrow> 128 \<le> h" by (simp add: bit_iff_odd)
  then show ?thesis using bit_unsigned_iff [where ?'a = nat, of "word_of_nat h :: byte" 7] h by simp
qed

lemma xor_high: "h < 128 \<Longrightarrow> (word_of_nat h :: byte) XOR 0x80 = word_of_nat (h + 128)"
proof -
  assume h: "h < 128"
  have "\<not> bit (word_of_nat h :: byte) 7" using bit_7 [of h] h by simp
  then have d: "\<not> bit (word_of_nat h :: byte) n \<or> \<not> bit (0x80 :: byte) n" for n
    unfolding bit_80 by auto
  have "word_of_nat h + 0x80 = (word_of_nat h OR 0x80 :: byte)" by (rule disjunctive_add) (rule d)
  moreover have "word_of_nat h XOR 0x80 = (word_of_nat h OR 0x80 :: byte)"
    using d by (intro bit_word_eqI) (auto simp: bit_or_iff bit_xor_iff)
  ultimately show ?thesis by simp
qed

lemma encode_number_bytes:
  "encode_number u = be_bytes 8 (if 2 ^ 63 \<le> unat u then 2 ^ 64 - 1 - unat u else unat u + 2 ^ 63)"
proof -
  define h where "h = unat u div 256 ^ 7"
  define b where "b = be_bytes 8 (unat u)"
  have u: "unat u < 2 ^ 64" using unsigned_less [of u, where ?'a = nat] by simp
  then have h: "h < 256" by (simp add: h_def less_mult_imp_div_less)
  have b: "b = word_of_nat h # be_bytes 7 (unat u)" using be_bytes_head [of 7 "unat u"] by (simp add: b_def h_def)
  have h128: "128 \<le> h \<longleftrightarrow> 2 ^ 63 \<le> unat u"
    using le_div_geq [of "256 ^ 7" "unat u"] by (auto simp: h_def less_eq_div_iff_mult_less_eq)
  show ?thesis
  proof (cases "2 ^ 63 \<le> unat u")
    case True
    have "encode_number u = map NOT b"
      using True h128 h bit_7 [of h] by (simp add: encode_number_def Let_def and_80 xor_ff b flip: b_def)
    also have "\<dots> = be_bytes 8 (256 ^ 8 - 1 - unat u)" unfolding b_def using u by (intro not_be_bytes) simp
    finally show ?thesis using True by simp
  next
    case False
    then have l: "h < 128" using h128 by simp
    have "(unat u + 2 ^ 63) div 256 ^ 7 = h + 128" using div_mult_self1 [of "256 ^ 7" "unat u" 128] by (simp add: h_def)
    moreover have "be_bytes 7 (unat u + 2 ^ 63) = be_bytes 7 (unat u)"
      using mod_mult_self1 [of "unat u" 128 "256 ^ 7"] by (intro be_bytes_cong) simp
    ultimately have "be_bytes 8 (unat u + 2 ^ 63) = word_of_nat (h + 128) # be_bytes 7 (unat u)"
      using be_bytes_head [of 7 "unat u + 2 ^ 63"] by simp
    then show ?thesis
      using False l bit_7 [of h] xor_high [OF l] by (simp add: encode_number_def Let_def and_80 b flip: b_def)
  qed
qed

lemma encode_number_less:
  assumes "number_rank v < number_rank w"
  shows "encode_number v @ r < encode_number w @ s"
  unfolding encode_number_bytes
proof (rule be_bytes_less)
  have b: "uint u = int (unat u)" "unat u < 2 ^ 64" for u :: "64 word"
    using unsigned_less [of u, where ?'a = nat] by simp_all
  show "(if 2 ^ 63 \<le> unat v then 2 ^ 64 - 1 - unat v else unat v + 2 ^ 63) <
      (if 2 ^ 63 \<le> unat w then 2 ^ 64 - 1 - unat w else unat w + 2 ^ 63)"
    using assms b(2) [of v] b(2) [of w] unfolding number_rank_def b(1) by (auto simp del: of_nat_unat split: if_splits)
  show "(if 2 ^ 63 \<le> unat w then 2 ^ 64 - 1 - unat w else unat w + 2 ^ 63) < 256 ^ 8"
    using b(2) [of w] by auto
qed

lemma pushEscaped_le: "xs < ys \<Longrightarrow> pushEscaped xs @ [0xFF] \<le> pushEscaped ys @ s"
proof (induction xs arbitrary: ys)
  case Nil
  then obtain y ys' where ys: "ys = y # ys'" by (cases ys) simp_all
  show ?case
  proof (cases "y = 0")
    case False
    then have "0 < y" by (simp add: word_neq_0_conv)
    with False ys show ?thesis by simp
  qed (use ys in simp)
next
  case (Cons x xs)
  then obtain y ys' where ys: "ys = y # ys'" by (cases ys) simp_all
  with Cons.prems(1) consider "x < y" | "x = y" "xs < ys'" by auto
  then show ?case
  proof cases
    case 1
    then have "y \<noteq> 0" by auto
    then have "0 < y" by (simp add: word_neq_0_conv)
    with 1 ys \<open>y \<noteq> 0\<close> show ?thesis by simp
  next
    case 2
    then show ?thesis using Cons.IH [of ys'] ys by simp
  qed
qed

lemma magnitude_bounds: "m < 256 ^ length (magnitude m)" "0 < m \<Longrightarrow> 256 ^ (length (magnitude m) - 1) \<le> m"
proof -
  show "m < 256 ^ length (magnitude m)" using be_val_bound [of "magnitude m"] by (simp add: be_val_magnitude)
  show "0 < m \<Longrightarrow> 256 ^ (length (magnitude m) - 1) \<le> m"
  proof (induction m rule: less_induct)
    case (less m)
    show ?case
    proof (cases "m div 256 = 0")
      case True
      then show ?thesis using less.prems by (simp add: magnitude_simps)
    next
      case False
      then have "256 ^ (length (magnitude (m div 256)) - 1) \<le> m div 256" using less.prems by (intro less.IH) simp_all
      moreover have "0 < length (magnitude (m div 256))" using False by (simp add: magnitude_simps(2))
      ultimately have "256 ^ length (magnitude (m div 256)) \<le> m div 256 * 256"
        using power_minus_mult [of "length (magnitude (m div 256))" "256 :: nat"] by simp
      also have "\<dots> \<le> m" by simp
      finally show ?thesis using less.prems by (simp add: magnitude_simps(2) [of m])
    qed
  qed
qed

lemma magnitude_mono: "n < m \<Longrightarrow> length (magnitude n) \<le> length (magnitude m)"
proof (rule ccontr)
  assume nm: "n < m" and "\<not> length (magnitude n) \<le> length (magnitude m)"
  then have l: "length (magnitude m) \<le> length (magnitude n) - 1" "0 < n" by (auto simp: magnitude_simps intro: Nat.gr0I)
  have "m < 256 ^ (length (magnitude n) - 1)"
    using magnitude_bounds(1) [of m] power_increasing [OF l(1), of "256 :: nat"] by linarith
  with magnitude_bounds(2) [OF l(2)] nm show False by linarith
qed

lemma be_bytes_pair_less:
  assumes "n < m \<or> n = m \<and> v < w" "m < 256 ^ 4" "w < 256 ^ k" "n = m \<Longrightarrow> j = k"
  shows "be_bytes 4 n @ be_bytes j v @ r < be_bytes 4 m @ be_bytes k w @ s"
proof (cases "n < m")
  case True
  then show ?thesis using assms(2) by (rule be_bytes_less)
next
  case False
  then show ?thesis using assms be_bytes_less [of v w k r s] by (auto intro: append_less_append_byte)
qed

lemma encode_bigint_less:
  assumes "a < b" "length (magnitude (nat \<bar>a\<bar>)) < 2 ^ 32" "length (magnitude (nat \<bar>b\<bar>)) < 2 ^ 32"
  shows "encode_bigint a @ r < encode_bigint b @ s"
proof -
  define m n where "m = nat \<bar>a\<bar>" and "n = nat \<bar>b\<bar>"
  define k l where "k = length (magnitude m)" and "l = length (magnitude n)"
  have kl: "k < 256 ^ 4" "l < 256 ^ 4" using assms(2,3) by (simp_all add: k_def l_def m_def n_def)
  have mn: "m < 256 ^ k" "n < 256 ^ l" using magnitude_bounds(1) by (simp_all add: k_def l_def)
  have mag: "magnitude m = be_bytes k m" "magnitude n = be_bytes l n" using magnitude_be_bytes by (simp_all add: k_def l_def)
  have a: "encode_bigint a = (if a < 0 then 0x7F # be_bytes 4 (256 ^ 4 - 1 - k) @ be_bytes k (256 ^ k - 1 - m)
      else 0x80 # be_bytes 4 k @ be_bytes k m)"
    unfolding encode_bigint_magnitude Let_def m_def [symmetric] k_def [symmetric] mag length_be_bytes not_be_bytes [OF kl(1)] not_be_bytes [OF mn(1)] ..
  have b: "encode_bigint b = (if b < 0 then 0x7F # be_bytes 4 (256 ^ 4 - 1 - l) @ be_bytes l (256 ^ l - 1 - n)
      else 0x80 # be_bytes 4 l @ be_bytes l n)"
    unfolding encode_bigint_magnitude Let_def n_def [symmetric] l_def [symmetric] mag length_be_bytes not_be_bytes [OF kl(2)] not_be_bytes [OF mn(2)] ..
  consider "a < 0" "0 \<le> b" | "0 \<le> a" "m < n" | "b < 0" "n < m" using assms(1) unfolding m_def n_def by linarith
  then show ?thesis
  proof cases
    case 1
    then show ?thesis by (simp add: a b)
  next
    case 2
    then have "k < l \<or> k = l \<and> m < n" using magnitude_mono [of m n] by (auto simp: k_def l_def)
    from be_bytes_pair_less [OF this kl(2) mn(2), of k] 2 assms(1) show ?thesis by (simp add: a b)
  next
    case 3
    then have "l < k \<or> l = k \<and> n < m" using magnitude_mono [of n m] by (auto simp: k_def l_def)
    then have "256 ^ 4 - 1 - k < 256 ^ 4 - 1 - l \<or> 256 ^ 4 - 1 - k = 256 ^ 4 - 1 - l \<and> 256 ^ k - 1 - m < 256 ^ l - 1 - n"
      using kl mn by auto
    from be_bytes_pair_less [OF this, of l k] kl 3 assms(1) show ?thesis by (simp add: a b)
  qed
qed

definition order_ok :: "kv_part \<Rightarrow> bool" where
  "order_ok p = (case p of
     Part_string s \<Rightarrow> well_formed s
   | Part_bigint n \<Rightarrow> length (magnitude (nat \<bar>n\<bar>)) < 2 ^ 32
   | _ \<Rightarrow> True)"

lemma string_part_less:
  assumes "Part_string a < Part_string b" "well_formed a" "well_formed b"
  shows "utf8_encode a < utf8_encode b"
proof (rule utf8_encode_less)
  have "code_points a \<noteq> code_points b"
  proof
    assume "code_points a = code_points b"
    then have "a = b" using assms(2,3) by (metis well_formed_def)
    with assms(1) show False by simp
  qed
  then show "code_points a < code_points b" using assms(1) by auto
qed

lemma encode_part_less:
  assumes "p < q" "order_ok p" "order_ok q" "r = [] \<or> hd r < 0xFF"
  shows "encode_part p @ r < encode_part q @ s"
proof (cases "\<exists>a b. p = Part_string a \<and> q = Part_string b")
  case True
  then obtain a b where pq: "p = Part_string a" "q = Part_string b" by blast
  then have "utf8_encode a < utf8_encode b" using assms(1-3) by (intro string_part_less) (simp_all add: order_ok_def)
  from pushEscaped_less [OF this assms(4), of s] pq show ?thesis by simp
next
  case False
  with assms pushEscaped_less [OF _ assms(4)] encode_bigint_less encode_number_less show ?thesis
    by (cases p; cases q) (simp_all add: TAG_defs order_ok_def)
qed

lemma encode_part_le:
  assumes "p < q" "order_ok p" "order_ok q"
  shows "encode_part p @ [0xFF] \<le> encode_part q @ s"
proof (cases "\<exists>a b. p = Part_string a \<and> q = Part_string b")
  case True
  then obtain a b where pq: "p = Part_string a" "q = Part_string b" by blast
  then have "utf8_encode a < utf8_encode b" using assms by (intro string_part_less) (simp_all add: order_ok_def)
  from pushEscaped_le [OF this, of s] pq show ?thesis by simp
next
  case False
  with assms pushEscaped_le encode_bigint_less encode_number_less show ?thesis
    by (cases p; cases q) (simp_all add: TAG_defs order_ok_def less_imp_le)
qed

abbreviation key_bytes :: "kv_part list \<Rightarrow> byte list" where
  "key_bytes key \<equiv> concat (map encode_part key)"

lemma key_bytes_nonempty: "key_bytes (p # ps) \<noteq> []" "hd (key_bytes (p # ps)) \<noteq> 0" "hd (key_bytes (p # ps)) < 0xFF"
  by (cases p; simp add: TAG_defs)+

lemma key_tail: "key_bytes ps = [] \<or> hd (key_bytes ps) < 0xFF"
  using key_bytes_nonempty by (cases ps) simp_all

lemma key_bytes_less:
  "k < l \<Longrightarrow> \<forall>p \<in> set k. order_ok p \<Longrightarrow> \<forall>p \<in> set l. order_ok p \<Longrightarrow> key_bytes k < key_bytes l"
proof (induction k arbitrary: l)
  case Nil
  then obtain q l' where l: "l = q # l'" by (cases l) simp_all
  with key_bytes_nonempty(1) [of q l'] show ?case by (cases "key_bytes (q # l')") simp_all
next
  case (Cons p k)
  then obtain q l' where l: "l = q # l'" by (cases l) simp_all
  with Cons.prems(1) consider "p < q" | "p = q" "k < l'" by auto
  then show ?case
  proof cases
    case 1
    then show ?thesis using Cons.prems l key_tail by (simp add: encode_part_less)
  next
    case 2
    then show ?thesis using Cons l by (simp add: append_less_append_byte)
  qed
qed

text \<open>The bytes of the keys are ordered as the keys are.\<close>

lemma key_bytes_order:
  assumes "\<forall>p \<in> set k. order_ok p" "\<forall>p \<in> set l. order_ok p"
  shows "key_bytes k < key_bytes l \<longleftrightarrow> k < l"
proof
  assume less: "key_bytes k < key_bytes l"
  show "k < l"
  proof (rule ccontr)
    assume "\<not> k < l"
    then consider "k = l" | "l < k" by fastforce
    then show False using less key_bytes_less [of l k] assms by cases auto
  qed
qed (rule key_bytes_less [OF _ assms])

text \<open>The range that lists a prefix holds the keys that extend it, and only these.\<close>

lemma prefix_range:
  assumes "\<forall>p \<in> set key. order_ok p" "\<forall>p \<in> set pre. order_ok p"
  shows "key_bytes pre @ [0] \<le> key_bytes key \<and> key_bytes key < key_bytes pre @ [0xFF] \<longleftrightarrow>
    (\<exists>q. q \<noteq> [] \<and> key = pre @ q)"
  using assms
proof (induction pre arbitrary: key)
  case Nil
  show ?case
  proof (cases key)
    case (Cons p ps)
    have "0 < hd (key_bytes key)" using key_bytes_nonempty(2) [of p ps] Cons by (simp add: word_neq_0_conv)
    then show ?thesis
      using key_bytes_nonempty [of p ps] Cons by (cases "key_bytes key") auto
  qed simp
next
  case (Cons p pre)
  show ?case
  proof (cases key)
    case Nil
    then show ?thesis using key_bytes_nonempty(1) [of p pre] by (cases "key_bytes (p # pre)") auto
  next
    case k: (Cons q key')
    have ok: "order_ok p" "order_ok q" using Cons.prems k by simp_all
    consider "q < p" | "q = p" | "p < q" by fastforce
    then show ?thesis
    proof cases
      case 1
      have "key_bytes key < key_bytes (p # pre) @ [0]"
        using encode_part_less [OF 1 ok(2,1) key_tail, of key' "key_bytes pre @ [0]"] k by simp
      then show ?thesis using 1 k by (auto simp: not_le)
    next
      case 2
      have append_less: "zs @ xs < zs @ ys \<longleftrightarrow> xs < ys" "zs @ xs \<le> zs @ ys \<longleftrightarrow> xs \<le> ys" for zs xs ys :: "byte list"
        by (induction zs) simp_all
      show ?thesis using Cons.IH [of key'] Cons.prems 2 k by (simp add: append_less)
    next
      case 3
      have "\<not> key_bytes key < key_bytes (p # pre) @ [0xFF]"
      proof (cases pre)
        case Nil
        have "encode_part p @ [0xFF] \<le> encode_part q @ key_bytes key'" by (rule encode_part_le [OF 3 ok])
        then show ?thesis using Nil k by (simp add: not_less)
      next
        case pp: (Cons p' pre')
        have "key_bytes pre @ [0xFF] = [] \<or> hd (key_bytes pre @ [0xFF]) < 0xFF"
          unfolding pp hd_append2 [OF key_bytes_nonempty(1)] using key_bytes_nonempty(3) [of p' pre'] by blast
        from encode_part_less [OF 3 ok this, of "key_bytes key'"] k show ?thesis by simp
      qed
      then show ?thesis using 3 k by auto
    qed
  qed
qed

subsection \<open>Selectors\<close>

record kv_selector =
  sel_prefix :: "kv_part list option"
  sel_start :: "kv_part list option"
  sel_end :: "kv_part list option"

text \<open>\<open>within\<close>: the key is longer than the prefix and begins with it.\<close>

definition within :: "byte list \<Rightarrow> byte list \<Rightarrow> bool" where
  "within pre key \<longleftrightarrow> length pre < length key \<and> take (length pre) key = pre"

definition range_end :: "byte list \<Rightarrow> byte list \<Rightarrow> kv_part list option \<Rightarrow> string \<Rightarrow> string + byte list" where
  "range_end pre dflt given err =
     (case given of
        None \<Rightarrow> Inr dflt
      | Some key \<Rightarrow> bindE (encodeKey key) (\<lambda>bs. if within pre bs then Inr bs else Inl err))"

definition kv_range :: "kv_selector \<Rightarrow> string + (byte list \<times> byte list)" where
  "kv_range sel =
     (case sel_prefix sel of
        Some pre \<Rightarrow>
          if sel_start sel \<noteq> None \<and> sel_end sel \<noteq> None
          then Inl ''Selector can not specify both 'start' and 'end' key when specifying 'prefix'.''
          else bindE (encodeKey pre) (\<lambda>bs.
            bindE (range_end bs (bs @ [0]) (sel_start sel) ''Start key is not in the keyspace defined by prefix'') (\<lambda>start.
            bindE (range_end bs (bs @ [0xFF]) (sel_end sel) ''End key is not in the keyspace defined by prefix'') (\<lambda>fin.
            Inr (start, fin))))
      | None \<Rightarrow>
          (case (sel_start sel, sel_end sel) of
             (Some s, Some e) \<Rightarrow> bindE (encodeKey s) (\<lambda>start. bindE (encodeKey e) (\<lambda>fin. Inr (start, fin)))
           | _ \<Rightarrow> Inl ''Selector must specify either 'prefix' or both 'start' and 'end' key.''))"

subsection \<open>Properties of keys\<close>

lemma encodeKey_Inr: "encodeKey key = Inr bs \<longleftrightarrow> key \<noteq> [] \<and> bs = key_bytes key"
  by (auto simp: encodeKey_def)

text \<open>
  C23: \<open>decodeKey\<close> reads back every key that \<open>encodeKey\<close> writes, parts of all five types in any number (bigints of fewer
  than \<open>2 ^ 32\<close> bytes): each part as it was, except that the lone surrogates of a string come back as U+FFFD. The key is
  the same exactly when its strings have no lone surrogate, and what is read is written with the same bytes.
\<close>

theorem kv_key_roundtrip:
  assumes "encodeKey key = Inr bs" "list_all bigint_fits key"
  shows "decodeKey bs = Some (Inr (map read_back key)) \<and> encodeKey (map read_back key) = Inr bs \<and>
    (map read_back key = key \<longleftrightarrow> (\<forall>s. Part_string s \<in> set key \<longrightarrow> well_formed s))"
proof -
  have bs: "key \<noteq> []" "bs = concat (map encode_part key)" using assms(1) by (simp_all add: encodeKey_def split: if_splits)
  have "map read_back key = key \<longleftrightarrow> (\<forall>p \<in> set key. read_back p = p)" by (simp add: map_idI list_eq_iff_nth_eq all_set_conv_all_nth)
  then show ?thesis
    using bs decode_parts_parts [of key "[]"] assms(2)
    by (auto simp: decodeKey_def encodeKey_def list_all_iff encode_read_back read_back_same comp_def)
qed

theorem kv_key_roundtrip_witness:
  "decodeKey [0x02, 0x61, 0, 0xFF, 0xEF, 0xBF, 0xBD, 0, 0x01, 0, 0xFF, 0xFF, 0] =
     Some (Inr [Part_string [97, 0, 0xFFFD], Part_bytes [0, 255]]) \<and>
   encodeKey [Part_string [97, 0, 0xFFFD], Part_bytes [0, 255]] =
     Inr [0x02, 0x61, 0, 0xFF, 0xEF, 0xBF, 0xBD, 0, 0x01, 0, 0xFF, 0xFF, 0]"
  using kv_key_roundtrip [of "[Part_string [97, 0, 0xD800], Part_bytes [0, 255]]"
      "[0x02, 0x61, 0, 0xFF, 0xEF, 0xBF, 0xBD, 0, 0x01, 0, 0xFF, 0xFF, 0]"]
  by (simp add: encodeKey_def TAG_defs utf8_encode_def utf8_char_def read_back_def bigint_fits_def
      of_code_points_def units_def is_high_def is_low_def)

text \<open>C24: the bytes of keys compare as the keys do: part by part, byte strings before strings before bigints before numbers
  before booleans, strings by code points, bigints and numbers by value, and a key before those that extend it. The strings
  have no lone surrogate and the bigints fewer than \<open>2 ^ 32\<close> bytes (\<open>order_ok\<close>).\<close>

theorem kv_key_order:
  assumes "list_all order_ok k" "list_all order_ok l" "encodeKey k = Inr a" "encodeKey l = Inr b"
  shows "a < b \<longleftrightarrow> k < l"
  using key_bytes_order [of k l] assms by (simp add: encodeKey_Inr list_all_iff)

theorem kv_key_order_witness:
  "key_bytes [Part_string [97], Part_bigint (- 300)] < key_bytes [Part_string [97], Part_bigint 2] \<longleftrightarrow>
   [Part_string [97], Part_bigint (- 300)] < [Part_string [97], Part_bigint 2]"
  by (rule kv_key_order)
    (simp_all add: order_ok_def well_formed_def of_code_points_def units_def is_high_def is_low_def magnitude_simps encodeKey_def)

text \<open>C25: the range of a prefix selector holds exactly the keys that extend the prefix by at least one part, whatever bytes
  the parts have, when the strings have no lone surrogate and the bigints fewer than \<open>2 ^ 32\<close> bytes (\<open>order_ok\<close>).\<close>

theorem kv_prefix_exact:
  assumes "list_all order_ok pre" "pre \<noteq> []" "list_all order_ok key"
  shows "\<exists>start fin. kv_range \<lparr>sel_prefix = Some pre, sel_start = None, sel_end = None\<rparr> = Inr (start, fin) \<and>
    (start \<le> key_bytes key \<and> key_bytes key < fin \<longleftrightarrow> (\<exists>q. q \<noteq> [] \<and> key = pre @ q))"
  using prefix_range [of key pre] assms by (simp add: kv_range_def range_end_def encodeKey_def list_all_iff)

theorem kv_prefix_exact_witness:
  "\<exists>start fin. kv_range \<lparr>sel_prefix = Some [Part_bytes [1]], sel_start = None, sel_end = None\<rparr> = Inr (start, fin) \<and>
    (start \<le> key_bytes [Part_bytes [1, 0]] \<and> key_bytes [Part_bytes [1, 0]] < fin \<longleftrightarrow>
      (\<exists>q. q \<noteq> [] \<and> [Part_bytes [1, 0]] = [Part_bytes [1]] @ q))"
  by (rule kv_prefix_exact) (simp_all add: order_ok_def)

text \<open>A key that is cut off is not reported as corrupt: the loop over an escaped part does not end.\<close>

lemma kv_cut_key_hangs: "0 \<notin> set bs \<Longrightarrow> decodeKey (TAG_bytes # bs) = None"
proof -
  assume "0 \<notin> set bs"
  then have "readEscaped bs = None" by (induction bs) auto
  then show ?thesis by (simp add: decodeKey_def)
qed

end
