(* ===== verification/KvStore.thy ===== *)
theory KvStore
  imports KvKey TextNum
begin

text \<open>
  \<open>deno-kv.js\<close>, the database: the values and their stored form, the SQL statements over the tables (a table with a primary
  key and no row ids is the list of its rows in the order of the keys), \<open>AtomicOperation\<close>, \<open>_commit\<close> and the operations
  of \<open>Kv\<close> that read and write. \<open>spec_mutations\<close> says what a transaction does to the map of the visible rows, and
  the commit is shown to do it. A value other than a \<open>KvU64\<close> or \<open>Uint8Array\<close> is the text \<open>JSON.stringify\<close> makes of it.
\<close>

subsection \<open>Values\<close>

datatype kv_value =
    Val_u64 "64 word"
  | Val_bytes "byte list"
  | Val_json "byte list"
  | Val_function

definition ENC_JSON :: nat where "ENC_JSON = 0"
definition ENC_BYTES :: nat where "ENC_BYTES = 1"
definition ENC_U64 :: nat where "ENC_U64 = 2"

lemmas ENC_defs = ENC_JSON_def ENC_BYTES_def ENC_U64_def

definition newKvU64 :: "int \<Rightarrow> string + 64 word" where
  "newKvU64 n =
     (if n < 0 \<or> 0xFFFFFFFFFFFFFFFF < n then Inl ''Value must be a positive bigint that fits in 64 bits'' else Inr (word_of_int n))"

fun packValue :: "kv_value \<Rightarrow> string + (byte list \<times> nat)" where
  "packValue (Val_u64 w) = Inr (le_bytes 8 (unat w), ENC_U64)"
| "packValue (Val_bytes bs) = Inr (bs, ENC_BYTES)"
| "packValue (Val_json text) = Inr (text, ENC_JSON)"
| "packValue Val_function = Inl ''Failed to serialize value: a function or symbol cannot be cloned''"

definition unpackValue :: "byte list \<Rightarrow> nat \<Rightarrow> kv_value" where
  "unpackValue bs enc =
     (if enc = ENC_U64 then Val_u64 (word_of_nat (le_val (take 8 bs)))
      else if enc = ENC_BYTES then Val_bytes bs else Val_json bs)"

text \<open>The versionstamp: the version shifted by 16 bits, in hexadecimal, filled up to 20 digits.\<close>

definition stampOf :: "nat \<Rightarrow> jsstr" where
  "stampOf n = (let s = to_base 16 (n * 65536) in replicate (20 - length s) (word_of_nat 48) @ s)"

subsection \<open>The tables and their statements\<close>

record kv_row =
  row_v :: "byte list"
  row_enc :: nat
  row_vs :: nat
  row_expires :: "int option"

type_synonym kv_table = "(byte list \<times> kv_row) list"

definition expires_later :: "int \<Rightarrow> kv_row \<Rightarrow> bool" where
  "expires_later now r = (case row_expires r of None \<Rightarrow> True | Some e \<Rightarrow> now < e)"

definition stmt_get :: "byte list \<Rightarrow> int \<Rightarrow> kv_table \<Rightarrow> kv_row option" where
  "stmt_get k now t = (case map_of t k of None \<Rightarrow> None | Some r \<Rightarrow> if expires_later now r then Some r else None)"

fun stmt_put :: "byte list \<Rightarrow> kv_row \<Rightarrow> kv_table \<Rightarrow> kv_table" where
  "stmt_put k r [] = [(k, r)]"
| "stmt_put k r ((k', r') # t) =
     (if k < k' then (k, r) # (k', r') # t else if k = k' then (k, r) # t else (k', r') # stmt_put k r t)"

definition stmt_del :: "byte list \<Rightarrow> kv_table \<Rightarrow> kv_table" where
  "stmt_del k t = filter (\<lambda>(k', r). k' \<noteq> k) t"

definition stmt_expired :: "int \<Rightarrow> kv_table \<Rightarrow> kv_table" where
  "stmt_expired now t = filter (\<lambda>(k, r). expires_later now r) t"

record kv_message =
  msg_id :: nat
  msg_ready :: int
  msg_payload :: "byte list"
  msg_attempts :: nat
  msg_backoff :: "nat list option"
  msg_undelivered :: "byte list list option"

record kv_db =
  db_kv :: kv_table
  db_queue :: "kv_message list"
  db_next_id :: nat
  db_version :: nat

definition stmt_bump :: "kv_db \<Rightarrow> kv_db" where
  "stmt_bump db = db\<lparr>db_version := db_version db + 1\<rparr>"

definition stmt_enqueue :: "int \<Rightarrow> byte list \<Rightarrow> nat \<Rightarrow> nat list option \<Rightarrow> byte list list option \<Rightarrow> kv_db \<Rightarrow> kv_db" where
  "stmt_enqueue ready payload attempts backoff undelivered db =
     db\<lparr>db_queue := db_queue db @ [\<lparr>msg_id = db_next_id db, msg_ready = ready, msg_payload = payload,
          msg_attempts = attempts, msg_backoff = backoff, msg_undelivered = undelivered\<rparr>],
        db_next_id := db_next_id db + 1\<rparr>"

subsection \<open>Atomic operations\<close>

datatype mutation_type = Mut_set | Mut_delete | Mut_sum | Mut_min | Mut_max

text \<open>A mutation as the program gives it, and as it is kept: with the bytes of its key.\<close>

record raw_mutation =
  raw_type :: mutation_type
  raw_key :: "kv_part list"
  raw_value :: kv_value
  raw_expireIn :: "int option"

record kv_mutation =
  mut_type :: mutation_type
  mut_key :: "byte list"
  mut_value :: kv_value
  mut_expireIn :: "int option"

record kv_enqueue =
  enq_value :: kv_value
  enq_delay :: "int option"
  enq_backoff :: "nat list option"
  enq_undelivered :: "kv_part list list option"

record atomic_operation =
  op_checks :: "(byte list \<times> jsstr option) list"
  op_mutations :: "kv_mutation list"
  op_enqueues :: "kv_enqueue list"

definition newAtomicOperation :: atomic_operation where
  "newAtomicOperation = \<lparr>op_checks = [], op_mutations = [], op_enqueues = []\<rparr>"

text \<open>A call that throws keeps what it added before.\<close>

fun op_check :: "(kv_part list \<times> jsstr option) list \<Rightarrow> atomic_operation \<Rightarrow> (string + unit) \<times> atomic_operation" where
  "op_check [] op = (Inr (), op)"
| "op_check ((key, stamp) # cs) op =
     (case encodeKey key of
        Inl e \<Rightarrow> (Inl e, op)
      | Inr k \<Rightarrow> op_check cs (op\<lparr>op_checks := op_checks op @ [(k, stamp)]\<rparr>))"

fun op_mutate :: "raw_mutation list \<Rightarrow> atomic_operation \<Rightarrow> (string + unit) \<times> atomic_operation" where
  "op_mutate [] op = (Inr (), op)"
| "op_mutate (m # ms) op =
     (case encodeKey (raw_key m) of
        Inl e \<Rightarrow> (Inl e, op)
      | Inr k \<Rightarrow>
          if raw_type m \<noteq> Mut_delete \<and> raw_type m \<noteq> Mut_set \<and> (case raw_value m of Val_u64 w \<Rightarrow> False | _ \<Rightarrow> True)
          then (Inl ''the value must be a Deno.KvU64'', op)
          else op_mutate ms (op\<lparr>op_mutations := op_mutations op @
                 [\<lparr>mut_type = raw_type m, mut_key = k, mut_value = raw_value m, mut_expireIn = raw_expireIn m\<rparr>]\<rparr>))"

definition op_set :: "kv_part list \<Rightarrow> kv_value \<Rightarrow> int option \<Rightarrow> atomic_operation \<Rightarrow> (string + unit) \<times> atomic_operation" where
  "op_set key v expireIn = op_mutate [\<lparr>raw_type = Mut_set, raw_key = key, raw_value = v, raw_expireIn = expireIn\<rparr>]"

text \<open>The value of a deletion is not read.\<close>

definition op_delete :: "kv_part list \<Rightarrow> atomic_operation \<Rightarrow> (string + unit) \<times> atomic_operation" where
  "op_delete key = op_mutate [\<lparr>raw_type = Mut_delete, raw_key = key, raw_value = Val_function, raw_expireIn = None\<rparr>]"

definition op_number :: "mutation_type \<Rightarrow> kv_part list \<Rightarrow> int \<Rightarrow> atomic_operation \<Rightarrow> (string + unit) \<times> atomic_operation" where
  "op_number type' key n op =
     (case newKvU64 n of
        Inl e \<Rightarrow> (Inl e, op)
      | Inr w \<Rightarrow> op_mutate [\<lparr>raw_type = type', raw_key = key, raw_value = Val_u64 w, raw_expireIn = None\<rparr>] op)"

definition op_enqueue :: "kv_enqueue \<Rightarrow> atomic_operation \<Rightarrow> atomic_operation" where
  "op_enqueue e op = op\<lparr>op_enqueues := op_enqueues op @ [e]\<rparr>"

subsection \<open>A commit\<close>

text \<open>The value a numeric mutation leaves.\<close>

definition next_number :: "mutation_type \<Rightarrow> 64 word option \<Rightarrow> 64 word \<Rightarrow> 64 word" where
  "next_number type' current operand =
     (case current of
        None \<Rightarrow> operand
      | Some c \<Rightarrow>
          if type' = Mut_sum then c + operand
          else if type' = Mut_min then (if operand < c then operand else c)
          else if c < operand then operand else c)"

text \<open>The number a row holds, for a numeric mutation.\<close>

definition current_number :: "kv_row option \<Rightarrow> string + 64 word option" where
  "current_number row =
     (case row of
        None \<Rightarrow> Inr None
      | Some r \<Rightarrow>
          (case unpackValue (row_v r) (row_enc r) of
             Val_u64 c \<Rightarrow> Inr (Some c)
           | _ \<Rightarrow> Inl ''mutation on a non-U64 value in the database''))"

definition operand_of :: "kv_value \<Rightarrow> 64 word" where
  "operand_of v = (case v of Val_u64 w \<Rightarrow> w | _ \<Rightarrow> 0)"

definition put_value :: "nat \<Rightarrow> byte list \<Rightarrow> kv_value \<Rightarrow> int option \<Rightarrow> kv_table \<Rightarrow> string + kv_table" where
  "put_value raw k v expires t =
     bindE (packValue v) (\<lambda>(bytes, enc). Inr (stmt_put k \<lparr>row_v = bytes, row_enc = enc, row_vs = raw, row_expires = expires\<rparr> t))"

definition run_mutation :: "int \<Rightarrow> nat \<Rightarrow> kv_mutation \<Rightarrow> kv_table \<Rightarrow> string + kv_table" where
  "run_mutation now raw m t =
     (let k = mut_key m; expires = map_option ((+) now) (mut_expireIn m)
      in if mut_type m = Mut_delete then Inr (stmt_del k t)
         else if mut_type m = Mut_set then put_value raw k (mut_value m) expires t
         else bindE (current_number (stmt_get k now t)) (\<lambda>current.
                put_value raw k (Val_u64 (next_number (mut_type m) current (operand_of (mut_value m)))) expires t))"

fun run_mutations :: "int \<Rightarrow> nat \<Rightarrow> kv_mutation list \<Rightarrow> kv_table \<Rightarrow> string + kv_table" where
  "run_mutations now raw [] t = Inr t"
| "run_mutations now raw (m # ms) t = bindE (run_mutation now raw m t) (run_mutations now raw ms)"

fun run_enqueues :: "int \<Rightarrow> kv_enqueue list \<Rightarrow> kv_db \<Rightarrow> string + kv_db" where
  "run_enqueues now [] db = Inr db"
| "run_enqueues now (e # es) db =
     bindE (packValue (enq_value e)) (\<lambda>(bytes, enc).
     bindE (case enq_undelivered e of None \<Rightarrow> Inr None | Some ks \<Rightarrow> bindE (mapE encodeKey ks) (\<lambda>bs. Inr (Some bs))) (\<lambda>undelivered.
       run_enqueues now es
         (stmt_enqueue (now + (case enq_delay e of None \<Rightarrow> 0 | Some d \<Rightarrow> d)) (word_of_nat enc # bytes) 0 (enq_backoff e) undelivered db)))"

definition check_holds :: "int \<Rightarrow> kv_table \<Rightarrow> byte list \<times> jsstr option \<Rightarrow> bool" where
  "check_holds now t c = (snd c = map_option (stampOf \<circ> row_vs) (stmt_get (fst c) now t))"

record kv =
  kv_db :: kv_db
  kv_closed :: bool

datatype commit_result = Commit_failed | Commit_ok jsstr

text \<open>An error and a failed check leave the database as it was: the transaction is rolled back.\<close>

definition kv_commit ::
  "int \<Rightarrow> (byte list \<times> jsstr option) list \<Rightarrow> kv_mutation list \<Rightarrow> kv_enqueue list \<Rightarrow> kv \<Rightarrow> (string + commit_result) \<times> kv" where
  "kv_commit now checks mutations enqueues kv =
     (if kv_closed kv then (Inl ''Bad resource ID'', kv)
      else if \<not> list_all (check_holds now (db_kv (kv_db kv))) checks then (Inr Commit_failed, kv)
      else
        let db = stmt_bump (kv_db kv); raw = db_version db
        in case bindE (run_mutations now raw mutations (db_kv db)) (\<lambda>t. run_enqueues now enqueues (db\<lparr>db_kv := t\<rparr>)) of
             Inl e \<Rightarrow> (Inl e, kv)
           | Inr db \<Rightarrow> (Inr (Commit_ok (stampOf raw)), kv\<lparr>kv_db := db\<lparr>db_kv := stmt_expired now (db_kv db)\<rparr>\<rparr>))"

definition op_commit :: "int \<Rightarrow> atomic_operation \<Rightarrow> kv \<Rightarrow> (string + commit_result) \<times> kv" where
  "op_commit now op = kv_commit now (op_checks op) (op_mutations op) (op_enqueues op)"

definition kv_get :: "int \<Rightarrow> kv_part list \<Rightarrow> kv \<Rightarrow> string + (kv_value \<times> jsstr) option" where
  "kv_get now key kv =
     (if kv_closed kv then Inl ''Bad resource ID''
      else bindE (encodeKey key) (\<lambda>k.
        Inr (map_option (\<lambda>r. (unpackValue (row_v r) (row_enc r), stampOf (row_vs r))) (stmt_get k now (db_kv (kv_db kv))))))"

definition kv_getMany :: "int \<Rightarrow> kv_part list list \<Rightarrow> kv \<Rightarrow> string + (kv_value \<times> jsstr) option list" where
  "kv_getMany now keys kv =
     (if kv_closed kv then Inl ''Bad resource ID''
      else if 10 < length keys then Inl ''Too many ranges (max 10)''
      else mapE (\<lambda>key. kv_get now key kv) keys)"

definition kv_set :: "int \<Rightarrow> kv_part list \<Rightarrow> kv_value \<Rightarrow> int option \<Rightarrow> kv \<Rightarrow> (string + commit_result) \<times> kv" where
  "kv_set now key v expireIn kv =
     (case encodeKey key of
        Inl e \<Rightarrow> (Inl e, kv)
      | Inr k \<Rightarrow> kv_commit now [] [\<lparr>mut_type = Mut_set, mut_key = k, mut_value = v, mut_expireIn = expireIn\<rparr>] [] kv)"

definition kv_delete :: "int \<Rightarrow> kv_part list \<Rightarrow> kv \<Rightarrow> (string + commit_result) \<times> kv" where
  "kv_delete now key kv =
     (case encodeKey key of
        Inl e \<Rightarrow> (Inl e, kv)
      | Inr k \<Rightarrow> kv_commit now [] [\<lparr>mut_type = Mut_delete, mut_key = k, mut_value = Val_function, mut_expireIn = None\<rparr>] [] kv)"

definition kv_enqueue_one :: "int \<Rightarrow> kv_enqueue \<Rightarrow> kv \<Rightarrow> (string + commit_result) \<times> kv" where
  "kv_enqueue_one now e = kv_commit now [] [] [e]"

definition kv_atomic :: "kv \<Rightarrow> string + atomic_operation" where
  "kv_atomic kv = (if kv_closed kv then Inl ''Bad resource ID'' else Inr newAtomicOperation)"

definition kv_close :: "kv \<Rightarrow> kv" where
  "kv_close kv = kv\<lparr>kv_closed := True\<rparr>"


subsection \<open>The table as a map\<close>

lemma map_of_put: "map_of (stmt_put k r t) = (map_of t)(k \<mapsto> r)"
  by (induction k r t rule: stmt_put.induct) auto

lemma map_of_del: "map_of (stmt_del k t) = (map_of t)(k := None)"
  by (induction t) (auto simp: stmt_del_def)

definition sorted_table :: "kv_table \<Rightarrow> bool" where
  "sorted_table t = sorted_wrt (<) (map fst t)"

lemma fst_put: "fst ` set (stmt_put k r t) = insert k (fst ` set t)"
  by (induction k r t rule: stmt_put.induct) auto

lemma sorted_put: "sorted_table t \<Longrightarrow> sorted_table (stmt_put k r t)"
proof (induction k r t rule: stmt_put.induct)
  case (2 k r k' r' t)
  show ?case
  proof (cases "k' < k")
    case True
    then have "\<not> k < k'" "k \<noteq> k'" by auto
    with 2 True fst_put [of k r t] show ?thesis by (auto simp: sorted_table_def)
  next
    case False
    then show ?thesis using 2(2) by (auto simp: sorted_table_def)
  qed
qed (simp add: sorted_table_def)

lemma sorted_filter: "sorted_table t \<Longrightarrow> sorted_table (filter P t)"
  unfolding sorted_table_def by (induction t) auto

lemma map_of_filter_sorted:
  "sorted_table t \<Longrightarrow> map_of (filter (\<lambda>(k, r). P r) t) k = (case map_of t k of None \<Rightarrow> None | Some r \<Rightarrow> if P r then Some r else None)"
proof (induction t)
  case (Cons a t)
  obtain k' r where a: "a = (k', r)" by (cases a)
  have "k' \<notin> fst ` set t" using Cons.prems a by (auto simp: sorted_table_def)
  then have "map_of t k' = None" by (simp add: map_of_eq_None_iff)
  with Cons a show ?case by (auto simp: sorted_table_def)
qed simp

lemma stmt_get_expired: "sorted_table t \<Longrightarrow> stmt_get k now (stmt_expired now t) = stmt_get k now t"
  by (simp add: stmt_get_def stmt_expired_def map_of_filter_sorted split: option.split)

lemma stmt_get_put:
  "stmt_get k now (stmt_put k' r t) = (if k = k' then (if expires_later now r then Some r else None) else stmt_get k now t)"
  by (simp add: stmt_get_def map_of_put)

lemma stmt_get_del: "stmt_get k now (stmt_del k' t) = (if k = k' then None else stmt_get k now t)"
  by (simp add: stmt_get_def map_of_del)

subsection \<open>What a commit promises\<close>

text \<open>The rows that can be seen at a time: value, version and expiry by key.\<close>

type_synonym kv_spec = "byte list \<rightharpoonup> kv_value \<times> nat \<times> int option"

definition kv_rows :: "int \<Rightarrow> kv_table \<Rightarrow> kv_spec" where
  "kv_rows now t k = map_option (\<lambda>r. (unpackValue (row_v r) (row_enc r), row_vs r, row_expires r)) (stmt_get k now t)"

definition spec_put :: "int \<Rightarrow> nat \<Rightarrow> byte list \<Rightarrow> kv_value \<Rightarrow> int option \<Rightarrow> kv_spec \<Rightarrow> kv_spec" where
  "spec_put now raw k v expireIn m =
     m(k := (case expireIn of
        None \<Rightarrow> Some (v, raw, None)
      | Some d \<Rightarrow> if 0 < d then Some (v, raw, Some (now + d)) else None))"

definition spec_mutation :: "int \<Rightarrow> nat \<Rightarrow> kv_mutation \<Rightarrow> kv_spec \<Rightarrow> string + kv_spec" where
  "spec_mutation now raw mu m =
     (case mut_type mu of
        Mut_delete \<Rightarrow> Inr (m(mut_key mu := None))
      | Mut_set \<Rightarrow>
          if mut_value mu = Val_function
          then Inl ''Failed to serialize value: a function or symbol cannot be cloned''
          else Inr (spec_put now raw (mut_key mu) (mut_value mu) (mut_expireIn mu) m)
      | _ \<Rightarrow>
          (case m (mut_key mu) of
             None \<Rightarrow> Inr (spec_put now raw (mut_key mu) (Val_u64 (operand_of (mut_value mu))) (mut_expireIn mu) m)
           | Some (Val_u64 c, vs, e) \<Rightarrow>
               Inr (spec_put now raw (mut_key mu) (Val_u64 (next_number (mut_type mu) (Some c) (operand_of (mut_value mu)))) (mut_expireIn mu) m)
           | _ \<Rightarrow> Inl ''mutation on a non-U64 value in the database''))"

fun spec_mutations :: "int \<Rightarrow> nat \<Rightarrow> kv_mutation list \<Rightarrow> kv_spec \<Rightarrow> string + kv_spec" where
  "spec_mutations now raw [] m = Inr m"
| "spec_mutations now raw (mu # mus) m = bindE (spec_mutation now raw mu m) (spec_mutations now raw mus)"

definition spec_check :: "kv_spec \<Rightarrow> byte list \<times> jsstr option \<Rightarrow> bool" where
  "spec_check m c = (snd c = map_option (\<lambda>(v, vs, e). stampOf vs) (m (fst c)))"

lemma unpack_pack: "packValue v = Inr (bytes, enc) \<Longrightarrow> unpackValue bytes enc = v"
proof (cases v)
  case (Val_u64 w)
  assume "packValue v = Inr (bytes, enc)"
  moreover have "unat w < 256 ^ 8" using unsigned_less [of w, where ?'a = nat] by simp
  ultimately show ?thesis using Val_u64 by (auto simp: unpackValue_def le_val_le_bytes)
qed (auto simp: unpackValue_def ENC_defs)

lemma rows_put:
  assumes "put_value raw k v (map_option ((+) now) e) t = Inr t'"
  shows "kv_rows now t' = spec_put now raw k v e (kv_rows now t)"
proof -
  from assms obtain bytes enc where "packValue v = Inr (bytes, enc)"
      and t': "t' = stmt_put k \<lparr>row_v = bytes, row_enc = enc, row_vs = raw, row_expires = map_option ((+) now) e\<rparr> t"
    by (auto simp: put_value_def bindE_eq_Inr)
  then show ?thesis
    by (auto simp: fun_eq_iff kv_rows_def stmt_get_put spec_put_def expires_later_def unpack_pack split: option.split)
qed

lemma rows_del: "kv_rows now (stmt_del k t) = (kv_rows now t)(k := None)"
  by (auto simp: fun_eq_iff kv_rows_def stmt_get_del)

lemma put_value_u64: "\<exists>t'. put_value raw k (Val_u64 w) e t = Inr t'"
  by (simp add: put_value_def)

lemma mutation_refines:
  "case run_mutation now raw mu t of
     Inl e \<Rightarrow> spec_mutation now raw mu (kv_rows now t) = Inl e
   | Inr t' \<Rightarrow> spec_mutation now raw mu (kv_rows now t) = Inr (kv_rows now t')"
proof (cases "mut_type mu = Mut_set \<or> mut_type mu = Mut_delete")
  case True
  then show ?thesis
    using rows_put [of raw "mut_key mu" "mut_value mu" now "mut_expireIn mu" t]
    by (cases "mut_value mu") (auto simp: run_mutation_def spec_mutation_def rows_del put_value_def Let_def)
next
  case num: False
  let ?k = "mut_key mu" and ?e = "map_option ((+) now) (mut_expireIn mu)"
  have spec: "spec_mutation now raw mu m =
      (case m ?k of
         None \<Rightarrow> Inr (spec_put now raw ?k (Val_u64 (operand_of (mut_value mu))) (mut_expireIn mu) m)
       | Some (Val_u64 c, vs, e) \<Rightarrow>
           Inr (spec_put now raw ?k (Val_u64 (next_number (mut_type mu) (Some c) (operand_of (mut_value mu)))) (mut_expireIn mu) m)
       | _ \<Rightarrow> Inl ''mutation on a non-U64 value in the database'')" for m
    using num by (cases "mut_type mu") (simp_all add: spec_mutation_def)
  show ?thesis
  proof (cases "current_number (stmt_get ?k now t)")
    case (Inl e)
    then obtain r where "stmt_get ?k now t = Some r" by (auto simp: current_number_def split: option.splits)
    with Inl show ?thesis
      using num by (auto simp: run_mutation_def spec kv_rows_def current_number_def Let_def split: kv_value.splits)
  next
    case (Inr current)
    then have rows: "(kv_rows now t ?k = None \<and> current = None) \<or> (\<exists>c vs e. kv_rows now t ?k = Some (Val_u64 c, vs, e) \<and> current = Some c)"
      by (auto simp: kv_rows_def current_number_def split: option.splits kv_value.splits)
    obtain t' where t': "put_value raw ?k (Val_u64 (next_number (mut_type mu) current (operand_of (mut_value mu)))) ?e t = Inr t'"
      using put_value_u64 by blast
    then have "run_mutation now raw mu t = Inr t'" using Inr num by (simp add: run_mutation_def Let_def)
    with rows rows_put [OF t'] show ?thesis by (auto simp: spec next_number_def)
  qed
qed

lemma mutations_refine:
  "case run_mutations now raw mus t of
     Inl e \<Rightarrow> spec_mutations now raw mus (kv_rows now t) = Inl e
   | Inr t' \<Rightarrow> spec_mutations now raw mus (kv_rows now t) = Inr (kv_rows now t')"
proof (induction mus arbitrary: t)
  case (Cons mu mus)
  show ?case
  proof (cases "run_mutation now raw mu t")
    case (Inl e)
    then show ?thesis using mutation_refines [of now raw mu t] by simp
  next
    case (Inr u)
    then show ?thesis
      using mutation_refines [of now raw mu t] Cons.IH [of u] by (cases "run_mutations now raw mus u") simp_all
  qed
qed simp

lemma check_refines: "check_holds now t c = spec_check (kv_rows now t) c"
  by (simp add: check_holds_def spec_check_def kv_rows_def option.map_comp comp_def)

text \<open>The invariant: the rows are in order and no row is newer than the version.\<close>

definition kv_ok :: "kv \<Rightarrow> bool" where
  "kv_ok kv \<longleftrightarrow> sorted_table (db_kv (kv_db kv)) \<and>
     list_all (\<lambda>(k, r). row_vs r \<le> db_version (kv_db kv)) (db_kv (kv_db kv))"


lemma run_mutation_rows:
  assumes "run_mutation now raw mu t = Inr t'" "sorted_table t"
  shows "sorted_table t' \<and> (\<forall>k r. map_of t' k = Some r \<longrightarrow> map_of t k = Some r \<or> row_vs r = raw)"
  using assms sorted_put sorted_filter
  by (auto simp: run_mutation_def put_value_def bindE_eq_Inr Let_def map_of_put map_of_del stmt_del_def [symmetric]
      split: if_splits) (simp_all add: stmt_del_def)

lemma run_mutations_rows:
  "run_mutations now raw mus t = Inr t' \<Longrightarrow> sorted_table t \<Longrightarrow>
   sorted_table t' \<and> (\<forall>k r. map_of t' k = Some r \<longrightarrow> map_of t k = Some r \<or> row_vs r = raw)"
proof (induction mus arbitrary: t)
  case (Cons mu mus)
  then obtain u where u: "run_mutation now raw mu t = Inr u" "run_mutations now raw mus u = Inr t'" by (auto simp: bindE_eq_Inr)
  with Cons.IH [OF u(2)] run_mutation_rows [OF u(1) Cons.prems(2)] show ?case by blast
qed simp

lemma run_enqueues_keeps:
  "run_enqueues now es db = Inr db' \<Longrightarrow> db_kv db' = db_kv db \<and> db_version db' = db_version db"
  by (induction es arbitrary: db) (auto simp: bindE_eq_Inr stmt_enqueue_def split: prod.splits)

lemma sorted_distinct: "sorted_table t \<Longrightarrow> distinct (map fst t)"
  unfolding sorted_table_def by (induction t) auto

lemma map_of_sorted: "sorted_table t \<Longrightarrow> map_of t k = Some r \<longleftrightarrow> (k, r) \<in> set t"
  using map_of_is_SomeI [OF sorted_distinct] map_of_SomeD by metis

lemma kv_ok_map:
  "kv_ok kv \<longleftrightarrow> sorted_table (db_kv (kv_db kv)) \<and> (\<forall>k r. map_of (db_kv (kv_db kv)) k = Some r \<longrightarrow> row_vs r \<le> db_version (kv_db kv))"
  by (auto simp: kv_ok_def list_all_iff map_of_sorted)

text \<open>A commit either leaves everything as it was, or moves the version on and writes rows under the new one only.\<close>

lemma kv_commit_cases:
  assumes "kv_commit now checks mus es kv = (res, kv')"
  obtains "kv' = kv" "res = Inr Commit_failed" "\<not> kv_closed kv" "\<not> list_all (check_holds now (db_kv (kv_db kv))) checks"
  | e where "kv' = kv" "res = Inl e" "kv_closed kv \<longrightarrow> e = ''Bad resource ID''"
      "\<not> kv_closed kv \<Longrightarrow> list_all (check_holds now (db_kv (kv_db kv))) checks"
      "\<not> kv_closed kv \<Longrightarrow> bindE (run_mutations now (db_version (kv_db kv) + 1) mus (db_kv (kv_db kv)))
           (\<lambda>t. run_enqueues now es (stmt_bump (kv_db kv)\<lparr>db_kv := t\<rparr>)) = Inl e"
  | t db where "\<not> kv_closed kv" "res = Inr (Commit_ok (stampOf (db_version (kv_db kv) + 1)))"
      "list_all (check_holds now (db_kv (kv_db kv))) checks"
      "run_mutations now (db_version (kv_db kv) + 1) mus (db_kv (kv_db kv)) = Inr t"
      "run_enqueues now es (stmt_bump (kv_db kv)\<lparr>db_kv := t\<rparr>) = Inr db"
      "kv' = kv\<lparr>kv_db := db\<lparr>db_kv := stmt_expired now t\<rparr>\<rparr>" "db_version db = db_version (kv_db kv) + 1"
proof -
  consider "kv_closed kv" | "\<not> kv_closed kv" "\<not> list_all (check_holds now (db_kv (kv_db kv))) checks"
    | "\<not> kv_closed kv" "list_all (check_holds now (db_kv (kv_db kv))) checks" by blast
  then show thesis
  proof cases
    case 1
    with assms that(2) show thesis by (simp add: kv_commit_def)
  next
    case 2
    with assms that(1) show thesis by (simp add: kv_commit_def)
  next
    case 3
    let ?r = "bindE (run_mutations now (db_version (kv_db kv) + 1) mus (db_kv (kv_db kv)))
      (\<lambda>t. run_enqueues now es (stmt_bump (kv_db kv)\<lparr>db_kv := t\<rparr>))"
    show thesis
    proof (cases ?r)
      case (Inl e)
      with assms 3 have "res = Inl e" "kv' = kv" by (simp_all add: kv_commit_def Let_def stmt_bump_def)
      with 3 Inl show thesis using that(2) [of e] by blast
    next
      case (Inr db)
      then obtain t where t: "run_mutations now (db_version (kv_db kv) + 1) mus (db_kv (kv_db kv)) = Inr t"
          "run_enqueues now es (stmt_bump (kv_db kv)\<lparr>db_kv := t\<rparr>) = Inr db" by (auto simp: bindE_eq_Inr)
      have "db_kv db = t" "db_version db = db_version (kv_db kv) + 1"
        using run_enqueues_keeps [OF t(2)] by (simp_all add: stmt_bump_def)
      with assms 3 Inr t that(3) [of t db] show thesis by (auto simp: kv_commit_def Let_def stmt_bump_def)
    qed
  qed
qed

lemma kv_commit_ok: "kv_commit now checks mus es kv = (res, kv') \<Longrightarrow> kv_ok kv \<Longrightarrow> kv_ok kv'"
proof (erule kv_commit_cases)
  fix t db
  assume ok: "kv_ok kv" and t: "run_mutations now (db_version (kv_db kv) + 1) mus (db_kv (kv_db kv)) = Inr t"
    and kv': "kv' = kv\<lparr>kv_db := db\<lparr>db_kv := stmt_expired now t\<rparr>\<rparr>" and v: "db_version db = db_version (kv_db kv) + 1"
  have s: "sorted_table (db_kv (kv_db kv))" using ok by (simp add: kv_ok_def)
  note rows = run_mutations_rows [OF t s]
  have "row_vs r \<le> db_version db" if "map_of t k = Some r" for k r
    using rows that ok v unfolding kv_ok_map by (metis le_SucI add.right_neutral add_Suc_right le_refl One_nat_def)
  moreover have "map_of t k = Some r" if "map_of (stmt_expired now t) k = Some r" for k r
    using that rows by (auto simp: stmt_expired_def map_of_filter_sorted split: option.splits if_splits)
  ultimately show "kv_ok kv'" using rows by (auto simp: kv' kv_ok_map stmt_expired_def sorted_filter)
qed simp_all

text \<open>C32: A commit is the transaction on the visible rows that it promises: with all checks true it applies the mutations in
  order, sums, minima and maxima on what the ones before left, under a new version; a failed check, a bad value and a
  number mutation of something else leave everything as it was.\<close>

theorem kv_commit_refines:
  assumes "kv_ok kv" and "\<not> kv_closed kv"
  shows "let m = kv_rows now (db_kv (kv_db kv)); raw = db_version (kv_db kv) + 1 in
    case kv_commit now checks mus es kv of
      (Inr (Commit_ok stamp), kv') \<Rightarrow> list_all (spec_check m) checks \<and> stamp = stampOf raw \<and>
         spec_mutations now raw mus m = Inr (kv_rows now (db_kv (kv_db kv'))) \<and> db_version (kv_db kv') = raw \<and> kv_ok kv'
    | (Inr Commit_failed, kv') \<Rightarrow> \<not> list_all (spec_check m) checks \<and> kv' = kv
    | (Inl e, kv') \<Rightarrow> list_all (spec_check m) checks \<and> kv' = kv \<and>
         (spec_mutations now raw mus m = Inl e \<or> (\<exists>m'. spec_mutations now raw mus m = Inr m' \<and> es \<noteq> []))"
proof -
  obtain res kv' where c: "kv_commit now checks mus es kv = (res, kv')" by fastforce
  have checks: "list_all (check_holds now (db_kv (kv_db kv))) cs = list_all (spec_check (kv_rows now (db_kv (kv_db kv)))) cs" for cs
    by (simp add: list_all_iff check_refines)
  note muts = mutations_refine [of now "db_version (kv_db kv) + 1" mus "db_kv (kv_db kv)"]
  from c show ?thesis
  proof (cases rule: kv_commit_cases)
    case 1
    then show ?thesis by (simp add: c checks Let_def)
  next
    case (2 e)
    then have run: "bindE (run_mutations now (db_version (kv_db kv) + 1) mus (db_kv (kv_db kv)))
           (\<lambda>t. run_enqueues now es (stmt_bump (kv_db kv)\<lparr>db_kv := t\<rparr>)) = Inl e" using assms(2) by blast
    have "spec_mutations now (db_version (kv_db kv) + 1) mus (kv_rows now (db_kv (kv_db kv))) = Inl e \<or>
        (\<exists>m'. spec_mutations now (db_version (kv_db kv) + 1) mus (kv_rows now (db_kv (kv_db kv))) = Inr m' \<and> es \<noteq> [])"
    proof (cases "run_mutations now (db_version (kv_db kv) + 1) mus (db_kv (kv_db kv))")
      case (Inl e')
      then show ?thesis using run muts by simp
    next
      case (Inr t)
      then have "es \<noteq> []" using run by auto
      with Inr muts show ?thesis by simp
    qed
    with 2 assms(2) show ?thesis by (simp add: c checks Let_def)
  next
    case (3 t db)
    have "sorted_table t" using run_mutations_rows [OF 3(4)] assms(1) by (simp add: kv_ok_def)
    then have "kv_rows now (stmt_expired now t) = kv_rows now t" by (simp add: fun_eq_iff kv_rows_def stmt_get_expired)
    with 3 muts kv_commit_ok [OF c assms(1)] show ?thesis by (simp add: c checks Let_def)
  qed
qed


definition sample_kv :: kv where
  "sample_kv = \<lparr>kv_db = \<lparr>db_kv = [([2, 97, 0], \<lparr>row_v = [5, 0, 0, 0, 0, 0, 0, 0], row_enc = 2, row_vs = 1, row_expires = Some 9\<rparr>)],
     db_queue = [], db_next_id = 1, db_version = 1\<rparr>, kv_closed = False\<rparr>"

definition sample_mutations :: "kv_mutation list" where
  "sample_mutations = [\<lparr>mut_type = Mut_sum, mut_key = [2, 97, 0], mut_value = Val_u64 3, mut_expireIn = None\<rparr>]"

lemma sample_kv_ok: "kv_ok sample_kv \<and> \<not> kv_closed sample_kv"
  by (simp add: sample_kv_def kv_ok_def sorted_table_def)

theorem kv_commit_refines_witness:
  "let m = kv_rows 4 (db_kv (kv_db sample_kv)); raw = db_version (kv_db sample_kv) + 1 in
    case kv_commit 4 [] sample_mutations [] sample_kv of
      (Inr (Commit_ok stamp), kv') \<Rightarrow> list_all (spec_check m) [] \<and> stamp = stampOf raw \<and>
         spec_mutations 4 raw sample_mutations m = Inr (kv_rows 4 (db_kv (kv_db kv'))) \<and> db_version (kv_db kv') = raw \<and> kv_ok kv'
    | (Inr Commit_failed, kv') \<Rightarrow> \<not> list_all (spec_check m) [] \<and> kv' = sample_kv
    | (Inl e, kv') \<Rightarrow> list_all (spec_check m) [] \<and> kv' = sample_kv \<and>
         (spec_mutations 4 raw sample_mutations m = Inl e \<or> (\<exists>m'. spec_mutations 4 raw sample_mutations m = Inr m' \<and> ([] :: kv_enqueue list) \<noteq> []))"
  by (rule kv_commit_refines) (simp_all add: sample_kv_ok)

end
