(* ===== verification/KvQueue.thy ===== *)
theory KvQueue
  imports KvStore
begin

text \<open>
  \<open>deno-kv.js\<close>, the queue and the histories of a database: \<open>_pump\<close>, the retries of a message and its end, the step relation
  of everything that changes the database, and the contract of stores with versioned entries, from which the soundness
  of optimistic transactions follows. A handler is what it does to its message: it ends, or it fails at some later time.
\<close>

subsection \<open>Delivery\<close>

text \<open>What a call of \<open>_pump\<close> does: nothing, a timer, or a message for the handler of the first listener.\<close>

datatype pump_result = Pump_none | Pump_timer int | Pump_message kv_message

text \<open>\<open>ORDER BY ready, id LIMIT 1\<close>.\<close>

fun first_message :: "kv_message list \<Rightarrow> kv_message option" where
  "first_message [] = None"
| "first_message (m # ms) =
     (case first_message ms of
        None \<Rightarrow> Some m
      | Some m' \<Rightarrow>
          Some (if msg_ready m' < msg_ready m \<or> msg_ready m' = msg_ready m \<and> msg_id m' < msg_id m then m' else m))"

definition pump_wait :: "int \<Rightarrow> kv_message list \<Rightarrow> int" where
  "pump_wait now q = (if q = [] then 250 else max 1 (min (Min (set (map msg_ready q)) - now) 250))"

definition kv_pump :: "int \<Rightarrow> nat \<Rightarrow> kv \<Rightarrow> pump_result \<times> kv" where
  "kv_pump now listeners kv =
     (if kv_closed kv \<or> listeners = 0 then (Pump_none, kv)
      else case first_message (filter (\<lambda>m. msg_ready m \<le> now) (db_queue (kv_db kv))) of
             None \<Rightarrow> (Pump_timer (pump_wait now (db_queue (kv_db kv))), kv)
           | Some m \<Rightarrow>
               (Pump_message m,
                kv\<lparr>kv_db := (kv_db kv)\<lparr>db_queue := filter (\<lambda>m'. msg_id m' \<noteq> msg_id m) (db_queue (kv_db kv))\<rparr>\<rparr>))"

definition message_value :: "kv_message \<Rightarrow> kv_value" where
  "message_value m = unpackValue (drop 1 (msg_payload m)) (unat (msg_payload m ! 0))"

definition schedule_of :: "kv_message \<Rightarrow> nat list" where
  "schedule_of m = (case msg_backoff m of None \<Rightarrow> [100, 200, 400, 800, 1600] | Some s \<Rightarrow> s)"

text \<open>The keys of \<open>keysIfUndelivered\<close> are read back and written again.\<close>

definition reencode :: "byte list \<Rightarrow> string + byte list" where
  "reencode bs =
     (case decodeKey bs of None \<Rightarrow> Inl ''does not return'' | Some (Inl e) \<Rightarrow> Inl e | Some (Inr key) \<Rightarrow> encodeKey key)"

fun put_all :: "nat \<Rightarrow> kv_value \<Rightarrow> byte list list \<Rightarrow> kv_table \<Rightarrow> string + kv_table" where
  "put_all raw v [] t = Inr t"
| "put_all raw v (k # ks) t = bindE (put_value raw k v None t) (put_all raw v ks)"

text \<open>After a failed handler, at a later time: the message goes back with the next delay, or under its keys, or is reported
  (None).\<close>

definition kv_undelivered :: "int \<Rightarrow> kv_message \<Rightarrow> kv \<Rightarrow> string + kv option" where
  "kv_undelivered later m kv =
     (if kv_closed kv then Inl ''database is not open''
      else if msg_attempts m < length (schedule_of m) then
        Inr (Some (kv\<lparr>kv_db := stmt_enqueue (later + int (schedule_of m ! msg_attempts m)) (msg_payload m) (msg_attempts m + 1)
                                  (msg_backoff m) (msg_undelivered m) (kv_db kv)\<rparr>))
      else case msg_undelivered m of
          Some ks \<Rightarrow>
            bindE (mapE reencode ks) (\<lambda>ks.
              let db = stmt_bump (kv_db kv)
              in bindE (put_all (db_version db) (message_value m) ks (db_kv db)) (\<lambda>t.
                   Inr (Some (kv\<lparr>kv_db := db\<lparr>db_kv := t\<rparr>\<rparr>))))
        | None \<Rightarrow> Inr None)"

subsection \<open>The life of a database\<close>

text \<open>The handle, the messages whose handler has not ended, and the number of listeners.\<close>

record kv_world =
  w_kv :: kv
  w_flight :: "kv_message list"
  w_listeners :: nat

definition kv_start :: kv_world where
  "kv_start = \<lparr>w_kv = \<lparr>kv_db = \<lparr>db_kv = [], db_queue = [], db_next_id = 1, db_version = 0\<rparr>, kv_closed = False\<rparr>,
     w_flight = [], w_listeners = 0\<rparr>"

inductive kv_step :: "kv_world \<Rightarrow> kv_world \<Rightarrow> bool" where
  step_commit: "kv_commit now checks mus es (w_kv w) = (res, kv') \<Longrightarrow> kv_step w (w\<lparr>w_kv := kv'\<rparr>)"
| step_listen: "\<not> kv_closed (w_kv w) \<Longrightarrow> kv_step w (w\<lparr>w_listeners := w_listeners w + 1\<rparr>)"
| step_pump: "kv_pump now (w_listeners w) (w_kv w) = (Pump_message m, kv') \<Longrightarrow>
    kv_step w (w\<lparr>w_kv := kv', w_flight := m # w_flight w\<rparr>)"
| step_handled: "m \<in> set (w_flight w) \<Longrightarrow> kv_step w (w\<lparr>w_flight := remove1 m (w_flight w)\<rparr>)"
| step_failed: "m \<in> set (w_flight w) \<Longrightarrow> kv_undelivered later m (w_kv w) = Inr (Some kv') \<Longrightarrow>
    kv_step w (w\<lparr>w_kv := kv', w_flight := remove1 m (w_flight w)\<rparr>)"
| step_reported: "m \<in> set (w_flight w) \<Longrightarrow> kv_undelivered later m (w_kv w) = Inr None \<Longrightarrow>
    kv_step w (w\<lparr>w_flight := remove1 m (w_flight w)\<rparr>)"
| step_close: "kv_step w (w\<lparr>w_kv := kv_close (w_kv w), w_listeners := 0\<rparr>)"

subsection \<open>Stores whose entries carry a version\<close>

text \<open>
  The contract behind optimistic checks: entries carry a stamp that is not ahead of the clock of the store, and a step
  that changes an entry gives it a stamp after the clock.
\<close>

locale versioned =
  fixes look :: "'s \<Rightarrow> 'k \<Rightarrow> 'r option" and stamp :: "'r \<Rightarrow> nat" and clock :: "'s \<Rightarrow> nat"
    and step :: "'s \<Rightarrow> 's \<Rightarrow> bool" and ok :: "'s \<Rightarrow> bool"
  assumes ok_step: "ok s \<Longrightarrow> step s s' \<Longrightarrow> ok s'"
    and stamped: "ok s \<Longrightarrow> look s k = Some r \<Longrightarrow> stamp r \<le> clock s"
    and clock_step: "ok s \<Longrightarrow> step s s' \<Longrightarrow> clock s \<le> clock s'"
    and changed: "ok s \<Longrightarrow> step s s' \<Longrightarrow> look s' k = Some r \<Longrightarrow> look s k = Some r \<or> clock s < stamp r"
begin

lemma ok_steps: "step\<^sup>*\<^sup>* s s' \<Longrightarrow> ok s \<Longrightarrow> ok s' \<and> clock s \<le> clock s'"
proof (induction rule: rtranclp_induct)
  case (step y z)
  then show ?case using ok_step clock_step by (metis le_trans)
qed simp

lemma old_entry: "step\<^sup>*\<^sup>* s s' \<Longrightarrow> ok s \<Longrightarrow> look s' k = Some r \<Longrightarrow> stamp r \<le> clock s \<Longrightarrow> look s k = Some r"
proof (induction rule: rtranclp_induct)
  case (step y z)
  have "ok y" "clock s \<le> clock y" using ok_steps [OF step.hyps(1) step.prems(1)] by blast+
  then have "look y k = Some r" using changed [OF _ step.hyps(2) step.prems(2)] step.prems(3) by fastforce
  then show ?case using step by blast
qed simp

text \<open>The same stamp twice is the same entry: there is no change and back.\<close>

lemma same_stamp:
  assumes "step\<^sup>*\<^sup>* s s'" "ok s" "look s k = Some r" "look s' k = Some r'" "stamp r' = stamp r"
  shows "r' = r"
proof -
  have "stamp r' \<le> clock s" using stamped [OF assms(2,3)] assms(5) by simp
  from old_entry [OF assms(1,2,4) this] assms(3) show ?thesis by simp
qed

end

lemma put_value_rows:
  assumes "put_value raw k v e t = Inr t'" "sorted_table t"
  shows "sorted_table t' \<and> (\<forall>j r. map_of t' j = Some r \<longrightarrow> map_of t j = Some r \<or> row_vs r = raw)"
proof -
  from assms(1) obtain bytes enc where
      "t' = stmt_put k \<lparr>row_v = bytes, row_enc = enc, row_vs = raw, row_expires = e\<rparr> t"
    by (cases "packValue v") (auto simp: put_value_def)
  then show ?thesis using assms(2) by (auto simp: sorted_put map_of_put)
qed

lemma put_all_rows:
  "put_all raw v ks t = Inr t' \<Longrightarrow> sorted_table t \<Longrightarrow>
   sorted_table t' \<and> (\<forall>k r. map_of t' k = Some r \<longrightarrow> map_of t k = Some r \<or> row_vs r = raw)"
proof (induction ks arbitrary: t)
  case (Cons k ks)
  then obtain u where u: "put_value raw k v None t = Inr u" "put_all raw v ks u = Inr t'" by (auto simp: bindE_eq_Inr)
  show ?case using Cons.IH [OF u(2)] put_value_rows [OF u(1) Cons.prems(2)] by blast
qed simp

text \<open>The rows a step writes have a new version.\<close>

definition rows_after :: "kv \<Rightarrow> kv \<Rightarrow> bool" where
  "rows_after kv kv' \<longleftrightarrow> sorted_table (db_kv (kv_db kv')) \<and> db_version (kv_db kv) \<le> db_version (kv_db kv') \<and>
     (\<forall>k r. map_of (db_kv (kv_db kv')) k = Some r \<longrightarrow>
        map_of (db_kv (kv_db kv)) k = Some r \<or>
        db_version (kv_db kv) < row_vs r \<and> row_vs r \<le> db_version (kv_db kv'))"

lemma rows_after_same: "kv_ok kv \<Longrightarrow> db_kv (kv_db kv') = db_kv (kv_db kv) \<Longrightarrow> db_version (kv_db kv') = db_version (kv_db kv) \<Longrightarrow> rows_after kv kv'"
  by (simp add: rows_after_def kv_ok_def)

lemma rows_afterI:
  assumes "sorted_table (db_kv (kv_db kv'))" "db_version (kv_db kv') = db_version (kv_db kv) + 1"
    and "\<And>k r. map_of (db_kv (kv_db kv')) k = Some r \<Longrightarrow>
      map_of (db_kv (kv_db kv)) k = Some r \<or> row_vs r = db_version (kv_db kv) + 1"
  shows "rows_after kv kv'"
  unfolding rows_after_def assms(2)
proof (intro conjI allI impI)
  show "map_of (db_kv (kv_db kv)) k = Some r \<or> db_version (kv_db kv) < row_vs r \<and> row_vs r \<le> db_version (kv_db kv) + 1"
    if "map_of (db_kv (kv_db kv')) k = Some r" for k r using assms(3) [OF that] by linarith
qed (simp_all add: assms(1))

lemma rows_after_commit: "kv_commit now checks mus es kv = (res, kv') \<Longrightarrow> kv_ok kv \<Longrightarrow> rows_after kv kv'"
proof (erule kv_commit_cases)
  fix t db
  assume ok: "kv_ok kv" and t: "run_mutations now (db_version (kv_db kv) + 1) mus (db_kv (kv_db kv)) = Inr t"
    and kv': "kv' = kv\<lparr>kv_db := db\<lparr>db_kv := stmt_expired now t\<rparr>\<rparr>" and v: "db_version db = db_version (kv_db kv) + 1"
  have "sorted_table (db_kv (kv_db kv))" using ok by (simp add: kv_ok_def)
  note rows = run_mutations_rows [OF t this]
  have sub: "map_of t k = Some r" if "map_of (stmt_expired now t) k = Some r" for k r
    using that rows by (auto simp: stmt_expired_def map_of_filter_sorted split: option.splits if_splits)
  have "map_of (db_kv (kv_db kv)) k = Some r \<or> row_vs r = db_version (kv_db kv) + 1" if "map_of (stmt_expired now t) k = Some r" for k r
    using rows sub [OF that] by blast
  then show "rows_after kv kv'"
    using rows v by (intro rows_afterI) (simp_all add: kv' stmt_expired_def sorted_filter)
qed (simp_all add: rows_after_same)

lemma rows_after_failed: "kv_undelivered later m kv = Inr (Some kv') \<Longrightarrow> kv_ok kv \<Longrightarrow> rows_after kv kv'"
proof (cases "msg_attempts m < length (schedule_of m)")
  case False
  assume u: "kv_undelivered later m kv = Inr (Some kv')" and ok: "kv_ok kv"
  with False obtain ks t where t: "put_all (db_version (kv_db kv) + 1) (message_value m) ks (db_kv (kv_db kv)) = Inr t"
      and kv': "kv' = kv\<lparr>kv_db := (stmt_bump (kv_db kv))\<lparr>db_kv := t\<rparr>\<rparr>"
    by (auto simp: kv_undelivered_def bindE_eq_Inr Let_def stmt_bump_def split: if_splits option.splits)
  have "sorted_table (db_kv (kv_db kv))" using ok by (simp add: kv_ok_def)
  note rows = put_all_rows [OF t this]
  have "map_of (db_kv (kv_db kv)) k = Some r \<or> row_vs r = db_version (kv_db kv) + 1" if "map_of t k = Some r" for k r
    using rows that by blast
  then show ?thesis using rows by (intro rows_afterI) (simp_all add: kv' stmt_bump_def)
qed (auto simp: kv_undelivered_def stmt_enqueue_def intro!: rows_after_same split: if_splits)

lemma rows_after_pump: "kv_pump now n kv = (Pump_message m, kv') \<Longrightarrow> kv_ok kv \<Longrightarrow> rows_after kv kv'"
  by (auto simp: kv_pump_def intro!: rows_after_same split: if_splits option.splits)

lemma rows_after_ok: "rows_after kv kv' \<Longrightarrow> kv_ok kv \<Longrightarrow> kv_ok kv'"
  unfolding rows_after_def kv_ok_map by (meson le_trans)

lemma kv_step_rows: "kv_step w w' \<Longrightarrow> kv_ok (w_kv w) \<Longrightarrow> rows_after (w_kv w) (w_kv w')"
  by (induction rule: kv_step.induct)
    (auto simp: rows_after_commit rows_after_pump rows_after_failed kv_close_def intro: rows_after_same)

definition row_at :: "kv_world \<Rightarrow> byte list \<Rightarrow> kv_row option" where
  "row_at w k = map_of (db_kv (kv_db (w_kv w))) k"

interpretation kv_versions: versioned row_at row_vs "\<lambda>w. db_version (kv_db (w_kv w))" kv_step "\<lambda>w. kv_ok (w_kv w)"
proof
  fix s s' :: kv_world and k r
  assume ok: "kv_ok (w_kv s)"
  show "row_at s k = Some r \<Longrightarrow> row_vs r \<le> db_version (kv_db (w_kv s))"
    using ok unfolding row_at_def kv_ok_map by blast
  assume step: "kv_step s s'"
  note rows = kv_step_rows [OF step ok]
  show "kv_ok (w_kv s')" using rows_after_ok [OF rows ok] .
  show "db_version (kv_db (w_kv s)) \<le> db_version (kv_db (w_kv s'))" using rows unfolding rows_after_def by blast
  show "row_at s' k = Some r \<Longrightarrow> row_at s k = Some r \<or> db_version (kv_db (w_kv s)) < row_vs r"
    using rows unfolding rows_after_def row_at_def by blast
qed


subsection \<open>The order of versionstamps\<close>

fun hex_digits :: "nat \<Rightarrow> nat \<Rightarrow> jsstr" where
  "hex_digits 0 n = []"
| "hex_digits (Suc k) n = hex_digits k (n div 16) @ [digit_char (n mod 16)]"

lemma length_hex_digits [simp]: "length (hex_digits k n) = k"
  by (induction k n rule: hex_digits.induct) simp_all

lemma hex_digits_0: "hex_digits k 0 = replicate k (word_of_nat 48)"
proof (induction k)
  case (Suc k)
  then show ?case by (simp add: digit_char_def replicate_append_same)
qed simp

lemma to_base_hex: "n < 16 ^ k \<Longrightarrow> replicate (k - length (to_base 16 n)) (word_of_nat 48) @ to_base 16 n = hex_digits k n \<or> k = 0"
proof (induction k arbitrary: n)
  case (Suc k)
  show ?case
  proof (cases "n < 16")
    case True
    then have "to_base 16 n = [digit_char n]" by (subst to_base.simps) simp
    with True show ?thesis by (simp add: hex_digits_0)
  next
    case False
    then have t: "to_base 16 n = to_base 16 (n div 16) @ [digit_char (n mod 16)]" by (subst to_base.simps) simp
    have "n div 16 < 16 ^ k" using Suc.prems by (simp add: less_mult_imp_div_less mult.commute)
    moreover have "k \<noteq> 0" using False Suc.prems by (cases k) simp_all
    ultimately have "replicate (k - length (to_base 16 (n div 16))) (word_of_nat 48) @ to_base 16 (n div 16) = hex_digits k (n div 16)"
      using Suc.IH by blast
    then show ?thesis by (simp add: t)
  qed
qed simp

lemma stampOf_hex: "n < 2 ^ 64 \<Longrightarrow> stampOf n = hex_digits 20 (n * 65536)"
  using to_base_hex [of "n * 65536" 20] by (simp add: stampOf_def Let_def)

lemma digit_char_less: "d < e \<Longrightarrow> e < 16 \<Longrightarrow> digit_char d < digit_char e"
  unfolding word_less_nat_alt by (simp add: unat_digit_char)

lemma append_less_same_length: "xs < ys \<Longrightarrow> length xs = length ys \<Longrightarrow> xs @ as < ys @ (bs :: 'a :: linorder list)"
proof (induction xs arbitrary: ys)
  case (Cons x xs)
  then show ?case by (cases ys) auto
qed simp

lemma same_append_less: "as < bs \<Longrightarrow> xs @ as < xs @ (bs :: 'a :: linorder list)"
  by (induction xs) simp_all

lemma hex_digits_less: "n < m \<Longrightarrow> m < 16 ^ k \<Longrightarrow> hex_digits k n < hex_digits k m"
proof (induction k arbitrary: n m)
  case (Suc k)
  have m: "m div 16 < 16 ^ k" using Suc.prems(2) by (simp add: less_mult_imp_div_less mult.commute)
  have "n div 16 \<le> m div 16" using Suc.prems(1) by (simp add: div_le_mono)
  then consider "n div 16 < m div 16" | "n div 16 = m div 16" by linarith
  then show ?case
  proof cases
    case 1
    from append_less_same_length [OF Suc.IH [OF 1 m]] show ?thesis by simp
  next
    case 2
    then have "n mod 16 < m mod 16" using Suc.prems(1) div_mult_mod_eq [of n 16] div_mult_mod_eq [of m 16] by linarith
    then have "[digit_char (n mod 16)] < [digit_char (m mod 16)]" using digit_char_less [of "n mod 16" "m mod 16"] by simp
    then show ?thesis unfolding hex_digits.simps 2 by (rule same_append_less)
  qed
qed simp

lemma stampOf_less: "n < m \<Longrightarrow> m < 2 ^ 64 \<Longrightarrow> stampOf n < stampOf m"
  by (simp add: stampOf_hex hex_digits_less)

lemma of_base_padding: "of_base 16 (replicate k (word_of_nat 48) @ s) = of_base 16 s"
proof (induction k)
  case (Suc k)
  have "digit_val (word_of_nat 48) = 0" using digit_val_char [of 0] by (simp add: digit_char_def)
  with Suc show ?case by (simp add: of_base_def)
qed simp

lemma stampOf_inject: "stampOf n = stampOf m \<longleftrightarrow> n = m"
proof
  assume "stampOf n = stampOf m"
  then have "of_base 16 (stampOf n) = of_base 16 (stampOf m)" by simp
  then have "of_base 16 (to_base 16 (n * 65536)) = of_base 16 (to_base 16 (m * 65536))"
    unfolding stampOf_def Let_def of_base_padding .
  then show "n = m" by (simp add: of_base_to_base)
qed simp

subsection \<open>Properties of a life\<close>

lemma kv_start_ok: "kv_ok (w_kv kv_start)"
  by (simp add: kv_start_def kv_ok_def sorted_table_def)

lemma kv_reachable_ok: "kv_step\<^sup>*\<^sup>* kv_start w \<Longrightarrow> kv_ok (w_kv w)"
  using kv_versions.ok_steps kv_start_ok by blast

text \<open>C33: Optimistic transactions are sound: a commit that checks the versionstamp an earlier \<open>get\<close> reported, or that there
  was no value, succeeds only when what it read is still what is there, whatever commits, deliveries and expiries came
  between.\<close>

theorem kv_check_unchanged:
  assumes "kv_step\<^sup>*\<^sup>* kv_start w" and "kv_step\<^sup>*\<^sup>* w w'"
    and "kv_get t key (w_kv w) = Inr r" and "encodeKey key = Inr k"
    and "kv_commit t' ((k, map_option snd r) # checks) mus es (w_kv w') = (Inr (Commit_ok stamp), kv')"
  shows "kv_get t' key (w_kv w') = Inr r"
proof -
  let ?t = "db_kv (kv_db (w_kv w))" and ?t' = "db_kv (kv_db (w_kv w'))"
  have ok: "kv_ok (w_kv w)" using kv_reachable_ok assms(1) .
  have check: "map_option snd r = map_option (stampOf \<circ> row_vs) (stmt_get k t' ?t')" and open': "\<not> kv_closed (w_kv w')"
    using assms(5) by (auto elim!: kv_commit_cases simp: check_holds_def)
  have r: "r = map_option (\<lambda>r. (unpackValue (row_v r) (row_enc r), stampOf (row_vs r))) (stmt_get k t ?t)"
    using assms(3,4) by (auto simp: kv_get_def split: if_splits)
  have "stmt_get k t' ?t' = stmt_get k t ?t"
  proof (cases "stmt_get k t ?t")
    case None
    then show ?thesis using check r by (cases "stmt_get k t' ?t'") simp_all
  next
    case (Some row)
    with check r obtain row' where row': "stmt_get k t' ?t' = Some row'" "stampOf (row_vs row') = stampOf (row_vs row)"
      by (cases "stmt_get k t' ?t'") auto
    have "row_at w k = Some row" "row_at w' k = Some row'"
      using Some row'(1) by (auto simp: row_at_def stmt_get_def split: option.splits if_splits)
    with kv_versions.same_stamp [OF assms(2) ok] row' have "row' = row" by (simp add: stampOf_inject)
    with Some row' show ?thesis by simp
  qed
  with r open' assms(4) show ?thesis by (simp add: kv_get_def)
qed

text \<open>Versionstamps grow as strings from each commit to every later one, below version 2 ^ 64.\<close>

theorem kv_stamps_grow:
  assumes "kv_step\<^sup>*\<^sup>* kv_start w" and "kv_commit t cs ms es (w_kv w) = (Inr (Commit_ok stamp), kv1)"
    and "kv_step\<^sup>*\<^sup>* (w\<lparr>w_kv := kv1\<rparr>) w'" and "kv_commit t' cs' ms' es' (w_kv w') = (Inr (Commit_ok stamp'), kv2)"
    and "db_version (kv_db kv2) < 2 ^ 64"
  shows "stamp < stamp'"
proof -
  have v: "db_version (kv_db kv) = db_version (kv_db kv0) + 1 \<and> s = stampOf (db_version (kv_db kv))"
    if "kv_commit t cs ms es kv0 = (Inr (Commit_ok s), kv)" for t cs ms es kv0 s kv
    using that by (auto elim!: kv_commit_cases)
  have ok: "kv_ok kv1" using kv_commit_ok [OF assms(2) kv_reachable_ok [OF assms(1)]] .
  have "db_version (kv_db kv1) \<le> db_version (kv_db (w_kv w'))" using kv_versions.ok_steps [OF assms(3)] ok by simp
  then show ?thesis using v [OF assms(2)] v [OF assms(4)] assms(5) by (simp add: stampOf_less)
qed


subsection \<open>How often a message is tried\<close>

definition messages_ok :: "kv_db \<Rightarrow> kv_message list \<Rightarrow> bool" where
  "messages_ok db flight \<longleftrightarrow>
     list_all (\<lambda>m. msg_attempts m \<le> length (schedule_of m) \<and> msg_id m < db_next_id db) (db_queue db @ flight) \<and>
     distinct (map msg_id (db_queue db @ flight))"

lemma enqueue_messages_ok:
  assumes "messages_ok db flight" "attempts \<le> length (case backoff of None \<Rightarrow> [100, 200, 400, 800, 1600] | Some s \<Rightarrow> s)"
  shows "messages_ok (stmt_enqueue ready payload attempts backoff undelivered db) flight"
  using assms unfolding messages_ok_def stmt_enqueue_def
  by (auto simp: list_all_iff schedule_of_def less_Suc_eq)

lemma run_enqueues_messages_ok: "run_enqueues now es db = Inr db' \<Longrightarrow> messages_ok db flight \<Longrightarrow> messages_ok db' flight"
proof (induction es arbitrary: db)
  case (Cons e es)
  from Cons.prems(1) obtain a b c d u where
      "run_enqueues now es (stmt_enqueue a b 0 c u db) = Inr db'"
    by (auto simp: bindE_eq_Inr split: prod.splits)
  then show ?case using Cons.IH enqueue_messages_ok [OF Cons.prems(2)] by blast
qed simp

lemma messages_ok_keep:
  "db_queue db' = db_queue db \<Longrightarrow> db_next_id db' = db_next_id db \<Longrightarrow> messages_ok db flight \<Longrightarrow> messages_ok db' flight"
  by (simp add: messages_ok_def)

lemma messages_ok_remove1: "messages_ok db flight \<Longrightarrow> messages_ok db (remove1 m flight)"
  unfolding messages_ok_def list_all_iff
  by (auto dest: notin_set_remove1 simp: distinct_map distinct_remove1 intro: inj_on_subset)

lemma first_message_in: "first_message q = Some m \<Longrightarrow> m \<in> set q"
  by (induction q arbitrary: m) (auto split: option.splits if_splits)

lemma pump_messages_ok:
  assumes "kv_pump now n kv = (Pump_message m, kv')" "messages_ok (kv_db kv) flight"
  shows "messages_ok (kv_db kv') (m # flight)"
proof -
  let ?q = "db_queue (kv_db kv)" and ?q' = "filter (\<lambda>m'. msg_id m' \<noteq> msg_id m) (db_queue (kv_db kv))"
  from assms(1) have m: "m \<in> set ?q" and kv': "kv_db kv' = (kv_db kv)\<lparr>db_queue := ?q'\<rparr>"
    by (auto simp: kv_pump_def split: if_splits option.splits dest: first_message_in)
  have "distinct (map msg_id ?q')" using assms(2) by (simp add: messages_ok_def distinct_map_filter)
  with m assms(2) show ?thesis by (auto simp: kv' messages_ok_def list_all_iff)
qed

lemma kv_step_messages_ok: "kv_step w w' \<Longrightarrow> messages_ok (kv_db (w_kv w)) (w_flight w) \<Longrightarrow> messages_ok (kv_db (w_kv w')) (w_flight w')"
proof (induction rule: kv_step.induct)
  case (step_commit now checks mus es w res kv')
  from step_commit(1) show ?case
  proof (cases rule: kv_commit_cases)
    case (3 t db)
    have "messages_ok (stmt_bump (kv_db (w_kv w))\<lparr>db_kv := t\<rparr>) (w_flight w)"
      by (rule messages_ok_keep [OF _ _ step_commit(2)]) (simp_all add: stmt_bump_def)
    note run_enqueues_messages_ok [OF 3(5) this]
    then have "messages_ok (db\<lparr>db_kv := stmt_expired now t\<rparr>) (w_flight w)" by (rule messages_ok_keep [rotated 2]) simp_all
    then show ?thesis by (simp add: 3(6))
  qed (use step_commit(2) in simp_all)
next
  case (step_failed m w later kv')
  have r: "messages_ok (kv_db (w_kv w)) (remove1 m (w_flight w))" using messages_ok_remove1 step_failed(3) .
  show ?case
  proof (cases "msg_attempts m < length (schedule_of m)")
    case True
    then have "kv_db kv' = stmt_enqueue (later + int (schedule_of m ! msg_attempts m)) (msg_payload m) (msg_attempts m + 1)
        (msg_backoff m) (msg_undelivered m) (kv_db (w_kv w))"
      using step_failed(2) by (auto simp: kv_undelivered_def split: if_splits)
    then show ?thesis using True enqueue_messages_ok [OF r] by (simp add: schedule_of_def)
  next
    case False
    then show ?thesis
      using step_failed(2) by (auto simp: kv_undelivered_def bindE_eq_Inr Let_def stmt_bump_def split: if_splits option.splits intro: messages_ok_keep [OF _ _ r])
  qed
next
  case (step_pump now w m kv')
  then show ?case using pump_messages_ok by simp
qed (simp_all add: messages_ok_remove1 kv_close_def)

text \<open>In every history no message is tried more often than its schedule allows, one attempt and one for each delay, and no
  two messages waiting or in the hands of a handler are the same row.\<close>

theorem kv_queue_attempts:
  assumes "kv_step\<^sup>*\<^sup>* kv_start w"
  shows "list_all (\<lambda>m. msg_attempts m \<le> length (schedule_of m)) (db_queue (kv_db (w_kv w)) @ w_flight w) \<and>
    distinct (map msg_id (db_queue (kv_db (w_kv w)) @ w_flight w))"
proof -
  from assms have "messages_ok (kv_db (w_kv w)) (w_flight w)"
  proof (induction rule: rtranclp_induct)
    case base
    show ?case by (simp add: messages_ok_def kv_start_def)
  next
    case (step y z)
    then show ?case using kv_step_messages_ok by blast
  qed
  then show ?thesis by (auto simp: messages_ok_def list_all_iff)
qed


subsection \<open>A history\<close>

definition sample_set :: "kv_mutation list" where
  "sample_set = [\<lparr>mut_type = Mut_set, mut_key = [TAG_true], mut_value = Val_bytes [7], mut_expireIn = Some 9\<rparr>]"

definition sample_retry :: kv_enqueue where
  "sample_retry = \<lparr>enq_value = Val_bytes [1], enq_delay = None, enq_backoff = Some [5], enq_undelivered = None\<rparr>"

text \<open>One key set and one message sent.\<close>

definition sample_world :: kv_world where
  "sample_world = kv_start\<lparr>w_kv := snd (kv_commit 1 [] sample_set [sample_retry] (w_kv kv_start))\<rparr>"

lemma sample_commit:
  "kv_commit 1 [] sample_set [sample_retry] (w_kv kv_start) = (Inr (Commit_ok (stampOf 1)), w_kv sample_world)"
  by (simp add: sample_world_def sample_set_def sample_retry_def kv_start_def kv_commit_def stmt_bump_def run_mutation_def put_value_def stmt_enqueue_def)

lemma sample_world_rows:
  "db_kv (kv_db (w_kv sample_world)) = [([TAG_true], \<lparr>row_v = [7], row_enc = 1, row_vs = 1, row_expires = Some 10\<rparr>)] \<and>
   db_version (kv_db (w_kv sample_world)) = 1 \<and> \<not> kv_closed (w_kv sample_world)"
  by (simp add: sample_world_def sample_set_def sample_retry_def kv_start_def kv_commit_def stmt_bump_def run_mutation_def
      put_value_def stmt_enqueue_def stmt_expired_def expires_later_def ENC_defs)

lemma sample_reachable: "kv_step\<^sup>*\<^sup>* kv_start sample_world"
proof -
  have "kv_step kv_start (kv_start\<lparr>w_kv := w_kv sample_world\<rparr>)" by (rule step_commit [OF sample_commit])
  moreover have "kv_start\<lparr>w_kv := w_kv sample_world\<rparr> = sample_world" by (simp add: sample_world_def)
  ultimately show ?thesis by auto
qed

lemma sample_again:
  "kv_commit 2 [([TAG_true], Some (stampOf 1))] sample_set [] (w_kv sample_world) =
     (Inr (Commit_ok (stampOf 2)), snd (kv_commit 2 [([TAG_true], Some (stampOf 1))] sample_set [] (w_kv sample_world)))"
  using sample_world_rows
  by (simp add: kv_commit_def check_holds_def stmt_get_def expires_later_def sample_set_def run_mutation_def put_value_def stmt_bump_def
      numeral_2_eq_2)

theorem kv_check_unchanged_witness:
  "kv_get 2 [Part_bool True] (w_kv sample_world) = Inr (Some (Val_bytes [7], stampOf 1))"
proof (rule kv_check_unchanged [OF sample_reachable])
  show "kv_step\<^sup>*\<^sup>* sample_world sample_world" by simp
  show "kv_get 1 [Part_bool True] (w_kv sample_world) = Inr (Some (Val_bytes [7], stampOf 1))"
    using sample_world_rows by (simp add: kv_get_def encodeKey_def stmt_get_def expires_later_def unpackValue_def ENC_defs)
  show "encodeKey [Part_bool True] = Inr [TAG_true]" by (simp add: encodeKey_def)
  show "kv_commit 2 (([TAG_true], map_option snd (Some (Val_bytes [7], stampOf 1))) # []) sample_set [] (w_kv sample_world) =
     (Inr (Commit_ok (stampOf 2)), snd (kv_commit 2 [([TAG_true], Some (stampOf 1))] sample_set [] (w_kv sample_world)))"
    using sample_again by simp
qed

theorem kv_stamps_grow_witness: "stampOf 1 < stampOf 2"
proof (rule kv_stamps_grow [OF _ sample_commit _ sample_again])
  show "kv_step\<^sup>*\<^sup>* kv_start kv_start" by simp
  have "kv_start\<lparr>w_kv := w_kv sample_world\<rparr> = sample_world" by (simp add: sample_world_def)
  then show "kv_step\<^sup>*\<^sup>* (kv_start\<lparr>w_kv := w_kv sample_world\<rparr>) sample_world" by simp
  show "db_version (kv_db (snd (kv_commit 2 [([TAG_true], Some (stampOf 1))] sample_set [] (w_kv sample_world)))) < 2 ^ 64"
    using sample_again by (auto elim!: kv_commit_cases simp: sample_world_rows)
qed

theorem kv_queue_attempts_witness:
  "list_all (\<lambda>m. msg_attempts m \<le> length (schedule_of m)) (db_queue (kv_db (w_kv sample_world)) @ w_flight sample_world) \<and>
    distinct (map msg_id (db_queue (kv_db (w_kv sample_world)) @ w_flight sample_world))"
  by (rule kv_queue_attempts [OF sample_reachable])

end
