(* ===== verification/KvList.thy ===== *)
theory KvList
  imports KvStore
begin

text \<open>
  \<open>deno-kv.js\<close>, listing: \<open>_scan\<close>, \<open>KvListIterator\<close> with its pages, limit and cursor, and the contract of a source that is
  read page by page, which both directions of the query meet.
\<close>

subsection \<open>The iterator\<close>

record kv_listed =
  raw_key_of :: "byte list"
  listed_key :: "(string + kv_part list) option"
  listed_value :: kv_value
  listed_stamp :: jsstr

definition in_range :: "int \<Rightarrow> byte list \<Rightarrow> byte list \<Rightarrow> byte list \<times> kv_row \<Rightarrow> bool" where
  "in_range now start fin p \<longleftrightarrow> start \<le> fst p \<and> fst p < fin \<and> expires_later now (snd p)"

definition listed :: "byte list \<times> kv_row \<Rightarrow> kv_listed" where
  "listed p = \<lparr>raw_key_of = fst p, listed_key = decodeKey (fst p), listed_value = unpackValue (row_v (snd p)) (row_enc (snd p)),
     listed_stamp = stampOf (row_vs (snd p))\<rparr>"

text \<open>The rows of the range, in the order of the listing: what the query without \<open>LIMIT\<close> selects.\<close>

definition range_rows :: "int \<Rightarrow> bool \<Rightarrow> byte list \<Rightarrow> byte list \<Rightarrow> kv_table \<Rightarrow> kv_listed list" where
  "range_rows now reverse start fin t =
     map listed ((if reverse then rev else (\<lambda>xs. xs)) (filter (in_range now start fin) t))"

definition kv_scan :: "int \<Rightarrow> byte list \<Rightarrow> byte list \<Rightarrow> nat \<Rightarrow> bool \<Rightarrow> kv \<Rightarrow> string + kv_listed list" where
  "kv_scan now start fin limit reverse kv =
     (if kv_closed kv then Inl ''database is not open''
      else Inr (take limit (range_rows now reverse start fin (db_kv (kv_db kv)))))"

record list_options =
  opt_limit :: "nat option"
  opt_batchSize :: "nat option"
  opt_reverse :: bool
  opt_cursor :: "byte list"

record kv_iterator =
  it_options :: list_options
  it_buffer :: "kv_listed list"
  it_done :: bool
  it_returned :: nat
  it_start :: "byte list"
  it_end :: "byte list"
  it_cursor :: "byte list"

definition newListIterator :: "kv_selector \<Rightarrow> list_options \<Rightarrow> string + kv_iterator" where
  "newListIterator sel opts =
     bindE (kv_range sel) (\<lambda>(start, fin).
       Inr \<lparr>it_options = opts, it_buffer = [], it_done = False, it_returned = 0,
            it_start = (if opt_cursor opts \<noteq> [] \<and> \<not> opt_reverse opts then opt_cursor opts @ [0] else start),
            it_end = (if opt_cursor opts \<noteq> [] \<and> opt_reverse opts then opt_cursor opts else fin),
            it_cursor = []\<rparr>)"

definition kv_list :: "kv_selector \<Rightarrow> list_options \<Rightarrow> kv \<Rightarrow> string + kv_iterator" where
  "kv_list sel opts kv = (if kv_closed kv then Inl ''Bad resource ID'' else newListIterator sel opts)"

definition within_limit :: "kv_iterator \<Rightarrow> bool" where
  "within_limit it = (case opt_limit (it_options it) of None \<Rightarrow> True | Some l \<Rightarrow> it_returned it < l)"

definition batch_of :: "kv_iterator \<Rightarrow> nat" where
  "batch_of it =
     (let b = min (case opt_batchSize (it_options it) of None \<Rightarrow> 100 | Some b \<Rightarrow> b) 500
      in case opt_limit (it_options it) of None \<Rightarrow> b | Some l \<Rightarrow> min b (l - it_returned it))"

text \<open>A page of rows for an empty buffer.\<close>

definition it_fill :: "int \<Rightarrow> kv \<Rightarrow> kv_iterator \<Rightarrow> string + kv_iterator" where
  "it_fill now kv it =
     (if it_buffer it \<noteq> [] \<or> it_done it then Inr it
      else bindE (kv_scan now (it_start it) (it_end it) (batch_of it) (opt_reverse (it_options it)) kv) (\<lambda>rows.
        Inr (it\<lparr>it_buffer := rows, it_done := length rows < batch_of it,
                it_start := (if rows \<noteq> [] \<and> \<not> opt_reverse (it_options it) then raw_key_of (last rows) @ [0] else it_start it),
                it_end := (if rows \<noteq> [] \<and> opt_reverse (it_options it) then raw_key_of (last rows) else it_end it)\<rparr>)))"

definition it_next :: "int \<Rightarrow> kv \<Rightarrow> kv_iterator \<Rightarrow> string + (kv_listed option \<times> kv_iterator)" where
  "it_next now kv it =
     (if \<not> within_limit it then Inr (None, it)
      else bindE (it_fill now kv it) (\<lambda>it.
        case it_buffer it of
          [] \<Rightarrow> Inr (None, it)
        | row # rows \<Rightarrow>
            Inr (Some row, it\<lparr>it_buffer := rows, it_returned := it_returned it + 1, it_cursor := raw_key_of row\<rparr>)))"

definition it_return :: "kv_iterator \<Rightarrow> kv_iterator" where
  "it_return it = it\<lparr>it_done := True, it_buffer := []\<rparr>"

text \<open>The first results of repeated calls, up to the end of the listing, and the iterator after them.\<close>

fun it_results :: "nat \<Rightarrow> int \<Rightarrow> kv \<Rightarrow> kv_iterator \<Rightarrow> string + (kv_listed list \<times> kv_iterator)" where
  "it_results 0 now kv it = Inr ([], it)"
| "it_results (Suc n) now kv it =
     bindE (it_next now kv it) (\<lambda>(r, it).
       case r of None \<Rightarrow> Inr ([], it)
       | Some row \<Rightarrow> bindE (it_results n now kv it) (\<lambda>(rows, it). Inr (row # rows, it)))"

subsection \<open>Paging\<close>

text \<open>
  The contract of a source that is read page by page: a page is the beginning of what is left, and the row it ended
  with is enough to find the rest again.
\<close>

locale paged =
  fixes rest :: "'c \<Rightarrow> 'r list" and resume :: "'r \<Rightarrow> 'c \<Rightarrow> 'c" and ok :: "'c \<Rightarrow> bool"
  assumes resumes: "ok c \<Longrightarrow> rest c = xs @ r # ys \<Longrightarrow> rest (resume r c) = ys"
begin

lemma page_rest: "ok c \<Longrightarrow> take n (rest c) \<noteq> [] \<Longrightarrow> rest (resume (last (take n (rest c))) c) = drop n (rest c)"
proof -
  assume ok: "ok c" and ne: "take n (rest c) \<noteq> []"
  have "rest c = butlast (take n (rest c)) @ last (take n (rest c)) # drop n (rest c)"
    using append_butlast_last_id [OF ne] append_take_drop_id [of n "rest c"] by (metis append.assoc append_Cons append_Nil)
  then show ?thesis by (rule resumes [OF ok])
qed

end

text \<open>No byte string lies between one and its extension by a zero byte.\<close>

lemma successor_le: "bs @ [0] \<le> ks \<longleftrightarrow> bs < (ks :: byte list)"
proof (induction bs arbitrary: ks)
  case Nil
  have "(0 :: byte) < k \<or> 0 = k" for k :: byte using word_neq_0_conv by metis
  then show ?case by (cases ks) (auto simp: Cons_le_Cons)
next
  case (Cons b bs)
  then show ?case by (cases ks) auto
qed

lemma sorted_split:
  assumes "sorted_table t" "filter P t = xs @ p # ys"
  shows "filter (\<lambda>q. P q \<and> fst p < fst q) t = ys" "filter (\<lambda>q. P q \<and> fst q < fst p) t = xs"
proof -
  have s: "sorted_table (xs @ p # ys)" using sorted_filter [OF assms(1), of P] assms(2) by simp
  then have "\<forall>q \<in> set xs. fst q < fst p" "\<forall>q \<in> set ys. fst p < fst q"
    by (auto simp: sorted_table_def sorted_wrt_append)
  then have "filter (\<lambda>q. fst p < fst q) (xs @ p # ys) = ys" "filter (\<lambda>q. fst q < fst p) (xs @ p # ys) = xs"
    by (auto simp: filter_empty_conv intro!: filter_True)
  then show "filter (\<lambda>q. P q \<and> fst p < fst q) t = ys" "filter (\<lambda>q. P q \<and> fst q < fst p) t = xs"
    unfolding assms(2) [symmetric] filter_filter by (simp_all add: conj_commute)
qed


definition rest_rows :: "bool \<Rightarrow> int \<Rightarrow> kv_table \<times> byte list \<times> byte list \<Rightarrow> kv_listed list" where
  "rest_rows reverse now c = (case c of (t, start, fin) \<Rightarrow> range_rows now reverse start fin t)"

lemma split_listed: "map listed ps = xs @ r # ys \<Longrightarrow> \<exists>as p bs. ps = as @ p # bs \<and> map listed as = xs \<and> listed p = r \<and> map listed bs = ys"
  by (auto simp: map_eq_append_conv map_eq_Cons_conv)

interpretation forward_pages: paged "rest_rows False now" "\<lambda>r (t, start, fin). (t, raw_key_of r @ [0], fin)" "\<lambda>(t, c). sorted_table t"
  for now
proof (unfold_locales, clarsimp simp: rest_rows_def range_rows_def)
  fix t start fin xs r ys
  assume s: "sorted_table t" and "map listed (filter (in_range now start fin) t) = xs @ r # ys"
  then obtain as p bs where p: "filter (in_range now start fin) t = as @ p # bs" "listed p = r" "map listed bs = ys"
    using split_listed by blast
  have "p \<in> set (filter (in_range now start fin) t)" unfolding p(1) by simp
  then have "start \<le> fst p" by (simp add: in_range_def)
  then have "in_range now (raw_key_of r @ [0]) fin q \<longleftrightarrow> in_range now start fin q \<and> fst p < fst q" for q
    using p(2) by (auto simp: in_range_def successor_le listed_def)
  then show "map listed (filter (in_range now (raw_key_of r @ [0]) fin) t) = ys"
    using sorted_split(1) [OF s p(1)] p(3) by (simp cong: filter_cong)
qed

interpretation reverse_pages: paged "rest_rows True now" "\<lambda>r (t, start, fin). (t, start, raw_key_of r)" "\<lambda>(t, c). sorted_table t"
  for now
proof (unfold_locales, clarsimp simp: rest_rows_def range_rows_def)
  fix t start fin xs r ys
  assume s: "sorted_table t" and "map listed (rev (filter (in_range now start fin) t)) = xs @ r # ys"
  then obtain as p bs where p: "rev (filter (in_range now start fin) t) = as @ p # bs" "listed p = r" "map listed bs = ys"
    using split_listed by blast
  have f: "filter (in_range now start fin) t = rev bs @ p # rev as" using p(1) by (simp add: rev_swap)
  have "p \<in> set (filter (in_range now start fin) t)" unfolding f by simp
  then have "fst p < fin" by (simp add: in_range_def)
  then have "in_range now start (raw_key_of r) q \<longleftrightarrow> in_range now start fin q \<and> fst q < fst p" for q
    using p(2) by (auto simp: in_range_def listed_def)
  then have "filter (in_range now start (raw_key_of r)) t = rev bs"
    using sorted_split(2) [OF s f] by (simp cong: filter_cong)
  then show "map listed (rev (filter (in_range now start (raw_key_of r)) t)) = ys"
    using p(3) by simp
qed

subsection \<open>What is listed\<close>

definition it_rest :: "int \<Rightarrow> kv \<Rightarrow> kv_iterator \<Rightarrow> kv_listed list" where
  "it_rest now kv it =
     it_buffer it @ (if it_done it then []
       else range_rows now (opt_reverse (it_options it)) (it_start it) (it_end it) (db_kv (kv_db kv)))"

definition it_todo :: "int \<Rightarrow> kv \<Rightarrow> kv_iterator \<Rightarrow> kv_listed list" where
  "it_todo now kv it =
     (case opt_limit (it_options it) of None \<Rightarrow> it_rest now kv it | Some l \<Rightarrow> take (l - it_returned it) (it_rest now kv it))"

lemma it_fill_rest:
  assumes "kv_ok kv" "\<not> kv_closed kv" "opt_batchSize (it_options it) \<noteq> Some 0" "within_limit it"
  obtains it' where "it_fill now kv it = Inr it'" "it_rest now kv it' = it_rest now kv it"
    "it_options it' = it_options it" "it_returned it' = it_returned it" "it_cursor it' = it_cursor it"
    "it_buffer it' = [] \<Longrightarrow> it_rest now kv it' = []"
proof -
  let ?t = "db_kv (kv_db kv)" and ?rev = "opt_reverse (it_options it)" and ?n = "batch_of it"
  have sorted: "sorted_table ?t" using assms(1) by (simp add: kv_ok_def)
  have n: "0 < ?n" using assms(3,4) by (auto simp: batch_of_def within_limit_def Let_def split: option.splits)
  show thesis
  proof (cases "it_buffer it \<noteq> [] \<or> it_done it")
    case True
    then show thesis using that [of it] by (auto simp: it_fill_def it_rest_def)
  next
    case False
    define pages where "pages = range_rows now ?rev (it_start it) (it_end it) ?t"
    define rows where "rows = take ?n pages"
    define short where "short \<longleftrightarrow> length rows < ?n"
    define start fin where "start = (if rows \<noteq> [] \<and> \<not> ?rev then raw_key_of (last rows) @ [0] else it_start it)"
      and "fin = (if rows \<noteq> [] \<and> ?rev then raw_key_of (last rows) else it_end it)"
    let ?it = "it\<lparr>it_buffer := rows, it_done := short, it_start := start, it_end := fin\<rparr>"
    have scan: "kv_scan now (it_start it) (it_end it) ?n ?rev kv = Inr rows"
      using assms(2) by (simp add: kv_scan_def rows_def pages_def)
    have fill: "it_fill now kv it = Inr ?it"
      using False unfolding it_fill_def scan bindE_Inr start_def fin_def short_def by (simp only: if_False)
    have "rows @ (if short then [] else range_rows now ?rev start fin ?t) = pages"
    proof (cases short)
      case True
      then show ?thesis by (simp add: short_def rows_def)
    next
      case full: False
      then have ne: "rows \<noteq> []" using n by (auto simp: short_def)
      have "range_rows now ?rev start fin ?t = drop ?n pages"
        using reverse_pages.page_rest [of "(?t, it_start it, it_end it)" ?n now]
          forward_pages.page_rest [of "(?t, it_start it, it_end it)" ?n now] sorted ne
        by (cases ?rev) (simp_all add: rest_rows_def start_def fin_def rows_def pages_def)
      then show ?thesis using full by (simp add: rows_def)
    qed
    then have "it_rest now kv ?it = it_rest now kv it" using False by (auto simp: it_rest_def pages_def split: if_splits)
    moreover have "it_rest now kv ?it = []" if "it_buffer ?it = []" using that n by (simp add: it_rest_def short_def)
    ultimately show thesis by (intro that [OF fill]) simp_all
  qed
qed

lemma it_next_todo:
  assumes "kv_ok kv" "\<not> kv_closed kv" "opt_batchSize (it_options it) \<noteq> Some 0"
  obtains r it' where "it_next now kv it = Inr (r, it')" "it_options it' = it_options it"
    "r = (case it_todo now kv it of [] \<Rightarrow> None | row # rows \<Rightarrow> Some row)" "it_todo now kv it' = tl (it_todo now kv it)"
    "r = None \<Longrightarrow> it_cursor it' = it_cursor it" "\<And>row. r = Some row \<Longrightarrow> it_cursor it' = raw_key_of row"
proof (cases "within_limit it")
  case False
  then have "it_todo now kv it = []" by (auto simp: within_limit_def it_todo_def split: option.splits)
  with False show thesis using that [of None it] by (simp add: it_next_def)
next
  case True
  from it_fill_rest [OF assms True] obtain it1 where it1: "it_fill now kv it = Inr it1" "it_rest now kv it1 = it_rest now kv it"
    "it_options it1 = it_options it" "it_returned it1 = it_returned it" "it_cursor it1 = it_cursor it"
    "it_buffer it1 = [] \<Longrightarrow> it_rest now kv it1 = []" by metis
  show thesis
  proof (cases "it_buffer it1")
    case Nil
    then have "it_todo now kv it = []" "it_todo now kv it1 = []" using it1 by (simp_all add: it_todo_def split: option.splits)
    then show thesis using that [of None it1] True it1 Nil by (simp add: it_next_def)
  next
    case (Cons row rows)
    let ?it = "it1\<lparr>it_buffer := rows, it_returned := it_returned it1 + 1, it_cursor := raw_key_of row\<rparr>"
    have rest: "it_rest now kv it = row # it_rest now kv ?it" using it1(2) Cons by (auto simp: it_rest_def)
    have next': "it_next now kv it = Inr (Some row, ?it)" using True it1(1) Cons by (simp add: it_next_def)
    have todo: "it_todo now kv it = row # it_todo now kv ?it"
    proof (cases "opt_limit (it_options it)")
      case None
      then show ?thesis using rest it1(3) by (simp add: it_todo_def)
    next
      case (Some l)
      then obtain j where "l - it_returned it = Suc j" using True by (cases "l - it_returned it") (simp_all add: within_limit_def)
      then show ?thesis using Some rest it1(3,4) by (simp add: it_todo_def diff_Suc split: nat.split)
    qed
    show thesis by (rule that [OF next']) (simp_all add: todo it1(3))
  qed
qed

lemma it_results_todo:
  assumes "kv_ok kv" "\<not> kv_closed kv" "opt_batchSize (it_options it) \<noteq> Some 0"
  shows "\<exists>it'. it_results n now kv it = Inr (take n (it_todo now kv it), it') \<and>
    it_cursor it' = (if take n (it_todo now kv it) = [] then it_cursor it else raw_key_of (last (take n (it_todo now kv it))))"
  using assms(3)
proof (induction n arbitrary: it)
  case (Suc n)
  from it_next_todo [OF assms(1,2) Suc.prems] obtain r it1 where it1: "it_next now kv it = Inr (r, it1)" "it_options it1 = it_options it"
    "r = (case it_todo now kv it of [] \<Rightarrow> None | row # rows \<Rightarrow> Some row)" "it_todo now kv it1 = tl (it_todo now kv it)"
    "r = None \<Longrightarrow> it_cursor it1 = it_cursor it" "\<And>row. r = Some row \<Longrightarrow> it_cursor it1 = raw_key_of row" by metis
  show ?case
  proof (cases "it_todo now kv it")
    case Nil
    then show ?thesis using it1 by simp
  next
    case (Cons row rows)
    from Suc.IH [of it1] Suc.prems it1(2) obtain it2 where "it_results n now kv it1 = Inr (take n rows, it2)"
      "it_cursor it2 = (if take n rows = [] then it_cursor it1 else raw_key_of (last (take n rows)))"
      using it1(4) Cons by auto
    then show ?thesis using it1 Cons by simp
  qed
qed simp


text \<open>The rows a listing is of: those of the selected range that are visible, in order or in reverse.\<close>

definition selected :: "int \<Rightarrow> kv_selector \<Rightarrow> bool \<Rightarrow> kv \<Rightarrow> string + kv_listed list" where
  "selected now sel reverse kv =
     bindE (kv_range sel) (\<lambda>(start, fin). Inr (range_rows now reverse start fin (db_kv (kv_db kv))))"

lemma new_todo:
  assumes "newListIterator sel \<lparr>opt_limit = limit, opt_batchSize = batch, opt_reverse = rv, opt_cursor = []\<rparr> = Inr it"
    "selected now sel rv kv = Inr rows"
  shows "it_todo now kv it = (case limit of None \<Rightarrow> rows | Some l \<Rightarrow> take l rows)"
  using assms by (auto simp: newListIterator_def selected_def bindE_eq_Inr it_todo_def it_rest_def split: option.split)

lemma cursor_todo:
  assumes "kv_ok kv" "selected now sel rv kv = Inr (xs @ r # ys)" "raw_key_of r \<noteq> []"
    "newListIterator sel \<lparr>opt_limit = limit, opt_batchSize = batch, opt_reverse = rv, opt_cursor = raw_key_of r\<rparr> = Inr it"
  shows "it_todo now kv it = (case limit of None \<Rightarrow> ys | Some l \<Rightarrow> take l ys)"
proof -
  let ?t = "db_kv (kv_db kv)"
  from assms(2) obtain start fin where sf: "kv_range sel = Inr (start, fin)" "range_rows now rv start fin ?t = xs @ r # ys"
    by (auto simp: selected_def bindE_eq_Inr)
  have sorted: "sorted_table ?t" using assms(1) by (simp add: kv_ok_def)
  have it: "it = \<lparr>it_options = \<lparr>opt_limit = limit, opt_batchSize = batch, opt_reverse = rv, opt_cursor = raw_key_of r\<rparr>, it_buffer = [],
      it_done = False, it_returned = 0, it_start = (if rv then start else raw_key_of r @ [0]), it_end = (if rv then raw_key_of r else fin), it_cursor = []\<rparr>"
    using assms(3,4) sf(1) by (cases rv) (auto simp: newListIterator_def)
  have "range_rows now rv (it_start it) (it_end it) ?t = ys"
    using forward_pages.resumes [of "(?t, start, fin)" now xs r ys] reverse_pages.resumes [of "(?t, start, fin)" now xs r ys] sorted sf(2)
    by (cases rv) (simp_all add: it rest_rows_def)
  moreover have "it_buffer it = []" "\<not> it_done it" "opt_reverse (it_options it) = rv" "opt_limit (it_options it) = limit" "it_returned it = 0"
    by (simp_all add: it)
  ultimately show ?thesis by (simp add: it_todo_def it_rest_def split: option.split)
qed

lemma kv_range_start: "kv_range sel = Inr (start, fin) \<Longrightarrow> start \<noteq> []"
proof -
  have enc: "encodeKey k = Inr bs \<Longrightarrow> bs \<noteq> []" for k bs
    using key_bytes_nonempty(1) by (cases k) (auto simp: encodeKey_def simp del: concat_eq_Nil_conv)
  show "kv_range sel = Inr (start, fin) \<Longrightarrow> start \<noteq> []"
    by (auto simp: kv_range_def range_end_def bindE_eq_Inr split: option.splits if_splits dest: enc)
qed

lemma selected_keys: "selected now sel rv kv = Inr rows \<Longrightarrow> r \<in> set rows \<Longrightarrow> raw_key_of r \<noteq> []"
proof -
  assume "selected now sel rv kv = Inr rows" and r: "r \<in> set rows"
  then obtain start fin where sf: "kv_range sel = Inr (start, fin)" "rows = range_rows now rv start fin (db_kv (kv_db kv))"
    by (auto simp: selected_def bindE_eq_Inr)
  then have "start \<le> raw_key_of r" using r by (auto simp: range_rows_def in_range_def listed_def split: if_splits)
  then show "raw_key_of r \<noteq> []" using kv_range_start [OF sf(1)] by auto
qed

text \<open>C34: However it is cut into pages, a listing yields the visible rows of its range in order, or in reverse, up to its limit,
  each once; and once it has yielded a row, a listing that starts at its cursor goes on where it stopped.\<close>

theorem kv_list_pages:
  assumes "kv_ok kv" and "\<not> kv_closed kv" and "batch \<noteq> Some 0" and "selected now sel rv kv = Inr rows"
    and "newListIterator sel \<lparr>opt_limit = limit, opt_batchSize = batch, opt_reverse = rv, opt_cursor = []\<rparr> = Inr it"
    and "it_results n now kv it = Inr (out, it')"
  shows "out = take n (case limit of None \<Rightarrow> rows | Some l \<Rightarrow> take l rows) \<and>
    (out = [] \<or>
     map_sum id fst
       (bindE (newListIterator sel \<lparr>opt_limit = None, opt_batchSize = batch, opt_reverse = rv, opt_cursor = it_cursor it'\<rparr>)
          (it_results m now kv)) = Inr (take m (drop (length out) rows)))"
proof -
  let ?todo = "case limit of None \<Rightarrow> rows | Some l \<Rightarrow> take l rows"
  have opts: "opt_batchSize (it_options it) \<noteq> Some 0" "it_cursor it = []"
    using assms(3,5) by (auto simp: newListIterator_def bindE_eq_Inr)
  from it_results_todo [OF assms(1,2) opts(1), of n now] assms(6)
  have out: "out = take n ?todo" and cur: "it_cursor it' = (if out = [] then [] else raw_key_of (last out))"
    using new_todo [OF assms(5,4)] opts(2) by auto
  have "map_sum id fst (bindE (newListIterator sel \<lparr>opt_limit = None, opt_batchSize = batch, opt_reverse = rv, opt_cursor = it_cursor it'\<rparr>)
      (it_results m now kv)) = Inr (take m (drop (length out) rows))" if ne: "out \<noteq> []"
  proof -
    have pre: "out @ drop (length out) rows = rows" unfolding out by (cases limit) (simp_all add: min_def)
    have rows: "rows = butlast out @ last out # drop (length out) rows"
      using pre append_butlast_last_id [OF ne] by (metis append.assoc append_Cons append_Nil)
    have "last out \<in> set rows" using rows by (metis in_set_conv_decomp)
    then have key: "raw_key_of (last out) \<noteq> []" using selected_keys [OF assms(4)] by blast
    obtain it2 where it2: "newListIterator sel \<lparr>opt_limit = None, opt_batchSize = batch, opt_reverse = rv, opt_cursor = raw_key_of (last out)\<rparr> = Inr it2"
      using assms(4) by (auto simp: newListIterator_def selected_def bindE_eq_Inr)
    have "it_todo now kv it2 = drop (length out) rows"
      using cursor_todo [OF assms(1) _ key it2, of now] assms(4) rows by simp
    moreover have "opt_batchSize (it_options it2) \<noteq> Some 0" using it2 assms(3) by (auto simp: newListIterator_def bindE_eq_Inr)
    ultimately show ?thesis using it_results_todo [OF assms(1,2), of it2 m now] it2 cur ne by auto
  qed
  with out show ?thesis by blast
qed

subsection \<open>A listing\<close>

definition sample_selector :: kv_selector where
  "sample_selector = \<lparr>sel_prefix = None, sel_start = Some [Part_bytes []], sel_end = Some [Part_bool True]\<rparr>"

definition sample_options :: list_options where
  "sample_options = \<lparr>opt_limit = None, opt_batchSize = Some 1, opt_reverse = False, opt_cursor = []\<rparr>"

definition sample_iterator :: kv_iterator where
  "sample_iterator = \<lparr>it_options = sample_options, it_buffer = [], it_done = False, it_returned = 0, it_start = [1, 0], it_end = [0x27],
     it_cursor = []\<rparr>"

definition sample_row :: kv_listed where
  "sample_row = listed ([2, 97, 0], \<lparr>row_v = [5, 0, 0, 0, 0, 0, 0, 0], row_enc = 2, row_vs = 1, row_expires = Some 9\<rparr>)"

lemma sample_selected: "selected 4 sample_selector False sample_kv = Inr [sample_row]"
  by (simp add: selected_def sample_selector_def sample_kv_def kv_range_def encodeKey_def TAG_defs range_rows_def in_range_def
      expires_later_def sample_row_def)

lemma sample_new: "newListIterator sample_selector sample_options = Inr sample_iterator"
  by (simp add: newListIterator_def sample_selector_def sample_options_def sample_iterator_def kv_range_def encodeKey_def TAG_defs)

text \<open>After the first result.\<close>

definition sample_left :: kv_iterator where
  "sample_left = sample_iterator\<lparr>it_start := [2, 97, 0, 0], it_returned := 1, it_cursor := [2, 97, 0]\<rparr>"

lemma sample_results: "it_results 1 4 sample_kv sample_iterator = Inr ([sample_row], sample_left)"
proof -
  have rows: "range_rows 4 False [1, 0] [0x27] (db_kv (kv_db sample_kv)) = [sample_row]"
    using sample_selected by (simp add: selected_def sample_selector_def kv_range_def encodeKey_def TAG_defs)
  have "raw_key_of sample_row = [2, 97, 0]" by (simp add: sample_row_def listed_def)
  with rows sample_kv_ok show ?thesis
    by (simp add: it_next_def it_fill_def within_limit_def batch_of_def sample_iterator_def sample_options_def kv_scan_def sample_left_def)
qed

theorem kv_list_pages_witness:
  "[sample_row] = take 1 (case None of None \<Rightarrow> [sample_row] | Some l \<Rightarrow> take l [sample_row]) \<and>
   ([sample_row] = [] \<or>
    map_sum id fst
      (bindE (newListIterator sample_selector \<lparr>opt_limit = None, opt_batchSize = Some 1, opt_reverse = False, opt_cursor = it_cursor sample_left\<rparr>)
         (it_results 3 4 sample_kv)) = Inr (take 3 (drop (length [sample_row]) [sample_row])))"
  by (rule kv_list_pages [OF _ _ _ sample_selected sample_new [unfolded sample_options_def] sample_results])
    (simp_all add: sample_kv_ok)

end
