(* ===== verification/WebSocket.thy ===== *)
theory WebSocket
  imports Utf8
begin

unbundle bit_operations_syntax

text \<open>
  \<open>node-websocket.js\<close>: frames, the endpoint \<open>SocketWebSocket\<close> and the part of \<open>WebSocketClient\<close> that follows the
  answer to its request. What the endpoint does to its surroundings is the list of its effects; events are listed in the
  order in which their timers deliver them. Frames are read back, cut anywhere, messages arrive, and an endpoint closes once.
\<close>

subsection \<open>Frames\<close>

text \<open>The payload combined with the four bytes of the key, over and over.\<close>

definition mask_with :: "byte list \<Rightarrow> byte list \<Rightarrow> byte list" where
  "mask_with key payload = map (\<lambda>i. (payload ! i) XOR (key ! (i mod 4))) [0..<length payload]"

text \<open>The key of a masked frame is drawn by the caller. The upper half of a long length is written as zero.\<close>

definition encodeFrame :: "nat \<Rightarrow> byte list \<Rightarrow> byte list option \<Rightarrow> byte list" where
  "encodeFrame opcode payload mkey =
     (let len = length payload;
          maskBit = (case mkey of None \<Rightarrow> 0 | Some k \<Rightarrow> 0x80) :: byte;
          head = (0x80 OR word_of_nat opcode) #
            (if len < 126 then [maskBit OR word_of_nat len]
             else if len < 65536 then (maskBit OR 126) # be_bytes 2 len
             else (maskBit OR 127) # [0, 0, 0, 0] @ be_bytes 4 len)
      in case mkey of None \<Rightarrow> head @ payload | Some key \<Rightarrow> head @ key @ mask_with key payload)"

record ws_frame =
  fr_opcode :: nat
  fr_fin :: bool
  fr_payload :: "byte list"

text \<open>The length field: the length of the payload and where what follows starts.\<close>

definition frame_length :: "byte list \<Rightarrow> (nat \<times> nat) option" where
  "frame_length b =
     (let len = unat (b ! 1 AND 127)
      in if len = 126 then (if length b < 4 then None else Some (be_val (take 2 (drop 2 b)), 4))
         else if len = 127 then (if length b < 10 then None else Some (be_val (take 4 (drop 2 b)) * 4294967296 + be_val (take 4 (drop 6 b)), 10))
         else Some (len, 2))"

text \<open>One turn of the loop of \<open>#onData\<close>: None when the frame is not all there.\<close>

definition next_frame :: "byte list \<Rightarrow> (ws_frame \<times> byte list) option" where
  "next_frame b =
     (if length b < 2 then None
      else case frame_length b of
          None \<Rightarrow> None
        | Some (len, off) \<Rightarrow>
            let masked = b ! 1 AND 0x80 \<noteq> 0; start = off + (if masked then 4 else 0); fin = start + len
            in if length b < fin then None
               else
                 let payload = take len (drop start b);
                     payload = (if masked then mask_with (take 4 (drop off b)) payload else payload)
                 in Some (\<lparr>fr_opcode = unat (b ! 0 AND 15), fr_fin = (b ! 0 AND 0x80 \<noteq> 0), fr_payload = payload\<rparr>, drop fin b))"

lemma frame_length_off: "frame_length b = Some (len, off) \<Longrightarrow> 2 \<le> off"
  by (auto simp: frame_length_def Let_def split: if_splits)

lemma next_frame_shorter: "next_frame b = Some (f, r) \<Longrightarrow> length r < length b"
  by (auto simp: next_frame_def Let_def split: if_splits option.splits dest!: frame_length_off)

subsection \<open>The endpoint\<close>

datatype ws_event =
    Ev_open
  | Ev_error
  | Ev_text jsstr
  | Ev_binary "byte list"
  | Ev_close nat jsstr bool

text \<open>What the endpoint does to its surroundings: socket calls, events in the order they are delivered, the timer of \<open>close\<close>.\<close>

datatype ws_effect =
    Eff_write "byte list"
  | Eff_end
  | Eff_destroy
  | Eff_event ws_event
  | Eff_timer nat jsstr

record ws_endpoint =
  ws_client :: bool
  ws_attached :: bool
  ws_destroyed :: bool
  ws_buffer :: "byte list"
  ws_fragments :: "byte list list"
  ws_fragmentOpcode :: nat
  ws_closeSent :: bool
  ws_readyState :: nat
  ws_protocol :: jsstr
  ws_drawn :: nat
  ws_blobs :: "byte list list"
  ws_effects :: "ws_effect list"

definition newSocketWebSocket :: "bool \<Rightarrow> ws_endpoint" where
  "newSocketWebSocket client = \<lparr>ws_client = client, ws_attached = False, ws_destroyed = False, ws_buffer = [], ws_fragments = [],
     ws_fragmentOpcode = 0, ws_closeSent = False, ws_readyState = 0, ws_protocol = [], ws_drawn = 0, ws_blobs = [], ws_effects = []\<rparr>"

definition ws_effect_add :: "ws_effect \<Rightarrow> ws_endpoint \<Rightarrow> ws_endpoint" where
  "ws_effect_add e ws = ws\<lparr>ws_effects := ws_effects ws @ [e]\<rparr>"

definition ws_emit :: "ws_event \<Rightarrow> ws_endpoint \<Rightarrow> ws_endpoint" where
  "ws_emit ev = ws_effect_add (Eff_event ev)"

text \<open>\<open>#write\<close>; \<open>rnd\<close> gives the keys that \<open>randomBytes\<close> draws, one for each frame of a client.\<close>

definition ws_write :: "(nat \<Rightarrow> byte list) \<Rightarrow> nat \<Rightarrow> byte list \<Rightarrow> ws_endpoint \<Rightarrow> ws_endpoint" where
  "ws_write rnd opcode payload ws =
     (if \<not> ws_attached ws \<or> ws_destroyed ws then ws
      else if ws_client ws
      then ws_effect_add (Eff_write (encodeFrame opcode payload (Some (rnd (ws_drawn ws))))) (ws\<lparr>ws_drawn := ws_drawn ws + 1\<rparr>)
      else ws_effect_add (Eff_write (encodeFrame opcode payload None)) ws)"

text \<open>A code that is not a 16-bit number makes \<open>writeUInt16BE\<close> throw, when \<open>#closeSent\<close> is set already.\<close>

definition ws_sendClose :: "(nat \<Rightarrow> byte list) \<Rightarrow> nat \<Rightarrow> jsstr \<Rightarrow> ws_endpoint \<Rightarrow> (string + unit) \<times> ws_endpoint" where
  "ws_sendClose rnd code reason ws =
     (let ws = ws\<lparr>ws_closeSent := True\<rparr>
      in if 65535 < code then (Inl ''RangeError'', ws)
         else (Inr (), ws_write rnd 8 (be_bytes 2 code @ utf8_encode reason) ws))"

definition ws_finish :: "nat \<Rightarrow> jsstr \<Rightarrow> bool \<Rightarrow> ws_endpoint \<Rightarrow> ws_endpoint" where
  "ws_finish code reason wasClean ws =
     (if ws_readyState ws = 3 then ws
      else
        let ws = ws\<lparr>ws_readyState := 3\<rparr>;
            ws = (if ws_attached ws then ws_effect_add Eff_end ws else ws)
        in ws_emit (Ev_close code reason wasClean) ws)"

definition ws_handle :: "(nat \<Rightarrow> byte list) \<Rightarrow> ws_frame \<Rightarrow> ws_endpoint \<Rightarrow> ws_endpoint" where
  "ws_handle rnd f ws =
     (let payload = fr_payload f in
      if fr_opcode f = 8 then
        let code = (if 2 \<le> length payload then be_val (take 2 payload) else 1005);
            reason = (if 2 < length payload then text_of (drop 2 payload) else []);
            ws = (if ws_closeSent ws then ws else snd (ws_sendClose rnd (if code = 1005 then 1000 else code) [] ws))
        in ws_finish code reason True ws
      else if fr_opcode f = 9 then ws_write rnd 10 payload ws
      else if fr_opcode f = 10 then ws
      else
        let ws = (if fr_opcode f \<noteq> 0 then ws\<lparr>ws_fragmentOpcode := fr_opcode f, ws_fragments := []\<rparr> else ws);
            ws = ws\<lparr>ws_fragments := ws_fragments ws @ [payload]\<rparr>
        in if \<not> fr_fin f then ws
           else
             let whole = concat (ws_fragments ws); ws = ws\<lparr>ws_fragments := []\<rparr>
             in ws_emit (if ws_fragmentOpcode ws = 1 then Ev_text (text_of whole) else Ev_binary whole) ws)"

lemma ws_write_buffer [simp]: "ws_buffer (ws_write rnd op payload ws) = ws_buffer ws"
  by (simp add: ws_write_def ws_effect_add_def)

lemma ws_handle_buffer [simp]: "ws_buffer (ws_handle rnd f ws) = ws_buffer ws"
  by (simp add: ws_handle_def ws_finish_def ws_emit_def ws_effect_add_def ws_sendClose_def Let_def)

function ws_loop :: "(nat \<Rightarrow> byte list) \<Rightarrow> ws_endpoint \<Rightarrow> ws_endpoint" where
  "ws_loop rnd ws =
     (case next_frame (ws_buffer ws) of
        None \<Rightarrow> ws
      | Some (f, r) \<Rightarrow> ws_loop rnd (ws_handle rnd f (ws\<lparr>ws_buffer := r\<rparr>)))"
  by pat_completeness auto
termination
  by (relation "measure (\<lambda>(rnd, ws). length (ws_buffer ws))") (auto dest: next_frame_shorter)

declare ws_loop.simps [simp del]

definition ws_data :: "(nat \<Rightarrow> byte list) \<Rightarrow> byte list \<Rightarrow> ws_endpoint \<Rightarrow> ws_endpoint" where
  "ws_data rnd chunk ws = ws_loop rnd (ws\<lparr>ws_buffer := ws_buffer ws @ chunk\<rparr>)"

definition ws_attach :: "ws_endpoint \<Rightarrow> ws_endpoint" where
  "ws_attach ws = ws\<lparr>ws_attached := True, ws_readyState := 1\<rparr>"

definition ws_feed :: "(nat \<Rightarrow> byte list) \<Rightarrow> byte list \<Rightarrow> ws_endpoint \<Rightarrow> ws_endpoint" where
  "ws_feed rnd head ws = (if head = [] then ws else ws_data rnd head ws)"

text \<open>
  What \<open>send\<close> is given: a string, the bytes of a buffer or a view, or a blob. A string and bytes are written at once. Of a blob
  the bytes are asked for (\<open>arrayBuffer\<close>): it is one of \<open>ws_blobs\<close> until that promise is fulfilled, which may be at any
  later time and in any order, and written then, whatever has become of the endpoint; only a socket that is gone is noticed.
\<close>

datatype ws_message = Msg_text jsstr | Msg_binary "byte list" | Msg_blob "byte list"

definition ws_send :: "(nat \<Rightarrow> byte list) \<Rightarrow> ws_message \<Rightarrow> ws_endpoint \<Rightarrow> (string + unit) \<times> ws_endpoint" where
  "ws_send rnd m ws =
     (if ws_readyState ws = 0 then (Inl ''InvalidStateError'', ws)
      else if ws_readyState ws \<noteq> 1 then (Inr (), ws)
      else (Inr (), case m of
                      Msg_text s \<Rightarrow> ws_write rnd 1 (utf8_encode s) ws
                    | Msg_binary bs \<Rightarrow> ws_write rnd 2 bs ws
                    | Msg_blob bs \<Rightarrow> ws\<lparr>ws_blobs := ws_blobs ws @ [bs]\<rparr>))"

definition ws_blob_read :: "(nat \<Rightarrow> byte list) \<Rightarrow> nat \<Rightarrow> ws_endpoint \<Rightarrow> ws_endpoint" where
  "ws_blob_read rnd i ws =
     (if i < length (ws_blobs ws)
      then ws_write rnd 2 (ws_blobs ws ! i) (ws\<lparr>ws_blobs := take i (ws_blobs ws) @ drop (Suc i) (ws_blobs ws)\<rparr>)
      else ws)"

definition ws_close :: "(nat \<Rightarrow> byte list) \<Rightarrow> nat \<Rightarrow> jsstr \<Rightarrow> ws_endpoint \<Rightarrow> (string + unit) \<times> ws_endpoint" where
  "ws_close rnd code reason ws =
     (if 2 \<le> ws_readyState ws then (Inr (), ws)
      else case ws_sendClose rnd code reason (ws\<lparr>ws_readyState := 2\<rparr>) of
             (Inl e, ws) \<Rightarrow> (Inl e, ws)
           | (Inr u, ws) \<Rightarrow> (Inr (), ws_effect_add (Eff_timer code reason) ws))"

subsection \<open>The client\<close>

definition WS_GUID :: jsstr where
  "WS_GUID = js ''258EAFA5-E914-47DA-95CA-C5AB0DC85B11''"

definition ws_finishFailed :: "ws_endpoint \<Rightarrow> ws_endpoint" where
  "ws_finishFailed ws = (if ws_readyState ws = 3 then ws else ws_emit (Ev_close 1006 [] False) (ws\<lparr>ws_readyState := 3\<rparr>))"

text \<open>The request was answered by a response, or failed.\<close>

definition ws_failed :: "ws_endpoint \<Rightarrow> ws_endpoint" where
  "ws_failed ws = ws_finishFailed (ws_emit Ev_error ws)"

text \<open>The upgrade; \<open>digest\<close> is the base64 text of the SHA-1 hash.\<close>

definition ws_upgrade ::
  "(nat \<Rightarrow> byte list) \<Rightarrow> (jsstr \<Rightarrow> jsstr) \<Rightarrow> jsstr \<Rightarrow> jsstr option \<Rightarrow> jsstr option \<Rightarrow> byte list \<Rightarrow> ws_endpoint \<Rightarrow> ws_endpoint" where
  "ws_upgrade rnd digest key accept protocol head ws =
     (if accept \<noteq> Some (digest (key @ WS_GUID))
      then ws_finishFailed (ws_emit Ev_error (ws_effect_add Eff_destroy ws))
      else
        let ws = ws\<lparr>ws_protocol := (case protocol of None \<Rightarrow> [] | Some p \<Rightarrow> p)\<rparr>
        in ws_feed rnd head (ws_emit Ev_open (ws_attach ws)))"


subsection \<open>Reading frames back\<close>

lemma length_mask_with [simp]: "length (mask_with key p) = length p"
  by (simp add: mask_with_def)

lemma mask_with_twice [simp]: "mask_with key (mask_with key p) = p"
  by (intro nth_equalityI) (simp_all add: mask_with_def xor.assoc)

lemma and_low: "n < 128 \<Longrightarrow> unat ((word_of_nat n :: byte) AND 127) = n" "n < 16 \<Longrightarrow> unat ((word_of_nat n :: byte) AND 15) = n"
proof -
  have "(127 :: nat) = 2 ^ 7 - 1" "(15 :: nat) = 2 ^ 4 - 1" by simp_all
  then have "m AND 127 = m mod 128" "m AND 15 = m mod 16" for m :: nat
    using take_bit_eq_mask [of 7 m] take_bit_eq_mask [of 4 m] by (simp_all add: mask_eq_exp_minus_1 take_bit_eq_mod)
  then show "n < 128 \<Longrightarrow> unat ((word_of_nat n :: byte) AND 127) = n" "n < 16 \<Longrightarrow> unat ((word_of_nat n :: byte) AND 15) = n"
    by (simp_all add: unsigned_and_eq)
qed

lemma high_bit_free: "n < 128 \<Longrightarrow> (word_of_nat n :: byte) AND 0x80 = 0"
proof -
  assume "n < 128"
  then have "\<not> bit n 7" by (simp add: bit_iff_odd)
  then have "\<not> bit (word_of_nat n :: byte) 7"
    using bit_unsigned_iff [where ?'a = nat, of "word_of_nat n :: byte" 7] \<open>n < 128\<close> by simp
  then show ?thesis using and_exp_eq_0_iff_not_bit [of "word_of_nat n :: byte" 7] by simp
qed

lemma first_byte:
  assumes "n < 16"
  shows "unat ((0x80 OR word_of_nat n :: byte) AND 15) = n" "(0x80 OR word_of_nat n :: byte) AND 0x80 \<noteq> 0"
proof -
  have "(0x80 OR word_of_nat n :: byte) AND 15 = word_of_nat n AND 15" by (simp add: bit.conj_disj_distrib2)
  then show "unat ((0x80 OR word_of_nat n :: byte) AND 15) = n" using and_low(2) [OF assms] by simp
  have "(0x80 OR word_of_nat n :: byte) AND 0x80 = 0x80 OR (word_of_nat n AND 0x80)" by (simp add: bit.conj_disj_distrib2)
  then show "(0x80 OR word_of_nat n :: byte) AND 0x80 \<noteq> 0" using high_bit_free [of n] assms by simp
qed

lemma second_byte:
  assumes "n < 128" "m = 0 \<or> m = (0x80 :: byte)"
  shows "unat ((m OR word_of_nat n) AND 127) = n" "(m OR word_of_nat n) AND 0x80 = m"
proof -
  have "(m OR word_of_nat n) AND 127 = word_of_nat n AND 127" using assms(2) by (auto simp: bit.conj_disj_distrib2)
  then show "unat ((m OR word_of_nat n) AND 127) = n" using and_low(1) [OF assms(1)] by simp
  show "(m OR word_of_nat n) AND 0x80 = m"
    using assms(2) high_bit_free [OF assms(1)] by (auto simp: bit.conj_disj_distrib2)
qed

definition ws_frame_ok :: "nat \<times> byte list \<times> byte list option \<Rightarrow> bool" where
  "ws_frame_ok f = (case f of (opcode, payload, mkey) \<Rightarrow>
     opcode < 16 \<and> length payload < 2 ^ 32 \<and> (case mkey of None \<Rightarrow> True | Some key \<Rightarrow> length key = 4))"

lemma next_frame_encode:
  assumes "ws_frame_ok (opcode, payload, mkey)"
  shows "next_frame (encodeFrame opcode payload mkey @ rest) = Some (\<lparr>fr_opcode = opcode, fr_fin = True, fr_payload = payload\<rparr>, rest)"
proof -
  define m :: byte where "m = (case mkey of None \<Rightarrow> 0 | Some k \<Rightarrow> 0x80)"
  define body where "body = (case mkey of None \<Rightarrow> payload | Some key \<Rightarrow> key @ mask_with key payload)"
  define len where "len = length payload"
  have m: "m = 0 \<or> m = 0x80" by (simp add: m_def split: option.split)
  have key: "case mkey of None \<Rightarrow> True | Some key \<Rightarrow> length key = 4" and op: "opcode < 16" and l: "len < 2 ^ 32"
    using assms by (auto simp: ws_frame_ok_def len_def)
  have skip: "drop (6 + length ext) (b0 # b1 # ext @ key @ r) = r" "drop (6 + length ext + j) (b0 # b1 # ext @ key @ r) = drop j r"
      "drop (2 + length ext) (b0 # b1 # ext @ r) = r" if "length key = 4" for b0 b1 :: byte and ext key r j
  proof -
    have e: "6 + length ext = length (b0 # b1 # ext @ key)" using that by simp
    show "drop (6 + length ext) (b0 # b1 # ext @ key @ r) = r" unfolding e by simp
    then show "drop (6 + length ext + j) (b0 # b1 # ext @ key @ r) = drop j r" by (metis drop_drop add.commute)
  qed simp
  have read: "next_frame (b0 # b1 # ext @ body @ rest) = Some (\<lparr>fr_opcode = opcode, fr_fin = True, fr_payload = payload\<rparr>, rest)"
    if "b0 = 0x80 OR word_of_nat opcode" "b1 AND 0x80 = m"
      "frame_length (b0 # b1 # ext @ body @ rest) = Some (len, 2 + length ext)" for b0 b1 ext
    using that first_byte [OF op] key
    by (cases mkey) (auto simp: next_frame_def Let_def m_def body_def len_def skip)
  have enc: "encodeFrame opcode payload mkey = (0x80 OR word_of_nat opcode) #
      (if len < 126 then [m OR word_of_nat len] else if len < 65536 then (m OR 126) # be_bytes 2 len
       else (m OR 127) # [0, 0, 0, 0] @ be_bytes 4 len) @ body"
    by (simp add: encodeFrame_def Let_def m_def body_def len_def split: option.split)
  consider "len < 126" | "126 \<le> len" "len < 65536" | "65536 \<le> len" by linarith
  then show ?thesis
  proof cases
    case 1
    then have "unat ((m OR word_of_nat len) AND 127) = len" using second_byte(1) [OF _ m] by simp
    then have "frame_length ((0x80 OR word_of_nat opcode) # (m OR word_of_nat len) # [] @ body @ rest) = Some (len, 2 + length ([] :: byte list))"
      using 1 by (simp add: frame_length_def Let_def)
    from read [OF refl _ this] show ?thesis using 1 second_byte(2) [OF _ m, of len] by (simp add: enc)
  next
    case 2
    have b: "unat ((m OR 126) AND 127) = 126" "(m OR 126) AND 0x80 = m" using second_byte [of 126, OF _ m] by simp_all
    have "be_val (be_bytes 2 len) = len" using 2 by simp
    then have "frame_length ((0x80 OR word_of_nat opcode) # (m OR 126) # be_bytes 2 len @ body @ rest) = Some (len, 2 + length (be_bytes 2 len))"
      using b(1) by (simp add: frame_length_def Let_def)
    from read [OF refl b(2) this] show ?thesis using 2 by (simp add: enc)
  next
    case 3
    have b: "unat ((m OR 127) AND 127) = 127" "(m OR 127) AND 0x80 = m" using second_byte [of 127, OF _ m] by simp_all
    have "be_val (be_bytes 4 len) = len" using l by simp
    moreover have "be_val [0, 0, 0, 0] = 0" by (simp add: be_val_def)
    ultimately have "frame_length ((0x80 OR word_of_nat opcode) # (m OR 127) # ([0, 0, 0, 0] @ be_bytes 4 len) @ body @ rest) =
        Some (len, 2 + length ([0, 0, 0, 0] @ be_bytes 4 len))"
      using b(1) by (simp add: frame_length_def Let_def)
    from read [OF refl b(2) this] show ?thesis using 3 by (simp add: enc)
  qed
qed


text \<open>C35: A frame is read back from what follows it, its opcode and payload, in all three forms of the length, masked by any
  key or not.\<close>

theorem ws_frame_roundtrip:
  assumes "opcode < 16" and "length payload < 2 ^ 32" and "mkey = None \<or> (\<exists>key. mkey = Some key \<and> length key = 4)"
  shows "next_frame (encodeFrame opcode payload mkey @ rest) = Some (\<lparr>fr_opcode = opcode, fr_fin = True, fr_payload = payload\<rparr>, rest)"
  using assms by (intro next_frame_encode) (auto simp: ws_frame_ok_def)

theorem ws_frame_roundtrip_witness:
  "next_frame (encodeFrame 1 (replicate 300 7) (Some [1, 2, 3, 4]) @ [9]) =
     Some (\<lparr>fr_opcode = 1, fr_fin = True, fr_payload = replicate 300 7\<rparr>, [9])"
  by (rule ws_frame_roundtrip) simp_all

subsection \<open>Chunks\<close>

lemma take_drop_append: "i + n \<le> length b \<Longrightarrow> take n (drop i (b @ c)) = take n (drop i b)"
  by simp

lemma frame_length_append: "2 \<le> length b \<Longrightarrow> frame_length b = Some x \<Longrightarrow> frame_length (b @ c) = Some x"
  by (auto simp: frame_length_def Let_def nth_append take_drop_append split: if_splits)

lemma next_frame_append:
  assumes "next_frame b = Some (f, r)"
  shows "next_frame (b @ c) = Some (f, r @ c)"
proof -
  have l: "2 \<le> length b" using assms by (auto simp: next_frame_def split: if_splits)
  then obtain len off where lo: "frame_length b = Some (len, off)"
    using assms by (auto simp: next_frame_def split: option.splits)
  have n: "(b @ c) ! 0 = b ! 0" "(b @ c) ! 1 = b ! 1" using l by (auto simp: nth_append)
  show ?thesis
    using assms l unfolding next_frame_def n frame_length_append [OF l lo] lo
    by (auto simp: Let_def take_drop_append split: if_splits)
qed

lemma set_buffer:
  "ws_effect_add e (ws\<lparr>ws_buffer := x\<rparr>) = (ws_effect_add e ws)\<lparr>ws_buffer := x\<rparr>"
  "ws_emit ev (ws\<lparr>ws_buffer := x\<rparr>) = (ws_emit ev ws)\<lparr>ws_buffer := x\<rparr>"
  by (simp_all add: ws_emit_def ws_effect_add_def)

lemma set_buffer_write: "ws_write rnd op p (ws\<lparr>ws_buffer := x\<rparr>) = (ws_write rnd op p ws)\<lparr>ws_buffer := x\<rparr>"
  by (simp add: ws_write_def ws_effect_add_def)

lemma set_buffer_sendClose: "snd (ws_sendClose rnd code s (ws\<lparr>ws_buffer := x\<rparr>)) = (snd (ws_sendClose rnd code s ws))\<lparr>ws_buffer := x\<rparr>"
  by (simp add: ws_sendClose_def Let_def ws_write_def ws_effect_add_def)

lemma set_buffer_finish: "ws_finish code s c (ws\<lparr>ws_buffer := x\<rparr>) = (ws_finish code s c ws)\<lparr>ws_buffer := x\<rparr>"
  by (simp add: ws_finish_def Let_def ws_emit_def ws_effect_add_def)

lemma ws_handle_set_buffer: "ws_handle rnd f (ws\<lparr>ws_buffer := x\<rparr>) = (ws_handle rnd f ws)\<lparr>ws_buffer := x\<rparr>"
proof -
  consider "fr_opcode f = 8" | "fr_opcode f = 9" | "fr_opcode f = 10" | "fr_opcode f \<notin> {8, 9, 10}" by auto
  then show ?thesis
  proof cases
    case 1
    then show ?thesis by (simp add: ws_handle_def Let_def set_buffer_finish set_buffer_sendClose)
  next
    case 2
    then show ?thesis by (simp add: ws_handle_def set_buffer_write)
  next
    case 3
    then show ?thesis by (simp add: ws_handle_def)
  next
    case 4
    then show ?thesis by (simp add: ws_handle_def Let_def ws_emit_def ws_effect_add_def)
  qed
qed

lemma ws_loop_append:
  "ws_loop rnd (ws\<lparr>ws_buffer := ws_buffer ws @ c\<rparr>) = ws_data rnd c (ws_loop rnd ws)"
proof (induction rnd ws rule: ws_loop.induct)
  case (1 rnd ws)
  show ?case
  proof (cases "next_frame (ws_buffer ws)")
    case None
    then show ?thesis by (simp add: ws_loop.simps [of rnd ws] ws_data_def)
  next
    case (Some a)
    obtain f r where a: "a = (f, r)" by (cases a)
    have n: "next_frame (ws_buffer ws) = Some (f, r)" using Some a by simp
    have "ws_loop rnd (ws\<lparr>ws_buffer := ws_buffer ws @ c\<rparr>) = ws_loop rnd (ws_handle rnd f (ws\<lparr>ws_buffer := r @ c\<rparr>))"
      by (subst ws_loop.simps) (simp add: next_frame_append [OF n])
    also have "ws_handle rnd f (ws\<lparr>ws_buffer := r @ c\<rparr>) =
        (ws_handle rnd f (ws\<lparr>ws_buffer := r\<rparr>))\<lparr>ws_buffer := ws_buffer (ws_handle rnd f (ws\<lparr>ws_buffer := r\<rparr>)) @ c\<rparr>"
      by (simp add: ws_handle_set_buffer)
    also have "ws_loop rnd \<dots> = ws_data rnd c (ws_loop rnd (ws_handle rnd f (ws\<lparr>ws_buffer := r\<rparr>)))"
      using 1 [OF Some a [symmetric]] .
    finally show ?thesis using n by (simp add: ws_loop.simps [of rnd ws])
  qed
qed

definition ws_receive :: "(nat \<Rightarrow> byte list) \<Rightarrow> byte list list \<Rightarrow> ws_endpoint \<Rightarrow> ws_endpoint" where
  "ws_receive rnd chunks ws = foldl (\<lambda>ws c. ws_data rnd c ws) ws chunks"

lemma ws_data_append: "ws_data rnd (b @ c) ws = ws_data rnd c (ws_data rnd b ws)"
  using ws_loop_append [of rnd "ws\<lparr>ws_buffer := ws_buffer ws @ b\<rparr>" c] by (simp add: ws_data_def)

lemma ws_receive_concat: "chunks \<noteq> [] \<Longrightarrow> ws_receive rnd chunks ws = ws_data rnd (concat chunks) ws"
proof (induction chunks arbitrary: ws)
  case (Cons c cs)
  then show ?case by (cases "cs = []") (simp_all add: ws_receive_def ws_data_append)
qed simp

subsection \<open>Messages\<close>

text \<open>What can happen to an attached endpoint: data, the end of the socket, calls of the program, the bytes of a blob, the timer of \<open>close\<close>.\<close>

datatype ws_input =
    In_data "byte list"
  | In_socket_closed
  | In_send ws_message
  | In_blob nat
  | In_close nat jsstr
  | In_timer nat jsstr

fun ws_step :: "(nat \<Rightarrow> byte list) \<Rightarrow> ws_input \<Rightarrow> ws_endpoint \<Rightarrow> ws_endpoint" where
  "ws_step rnd (In_data bs) ws = ws_data rnd bs ws"
| "ws_step rnd In_socket_closed ws = ws_finish 1006 [] False ws"
| "ws_step rnd (In_send m) ws = snd (ws_send rnd m ws)"
| "ws_step rnd (In_blob i) ws = ws_blob_read rnd i ws"
| "ws_step rnd (In_close code reason) ws = snd (ws_close rnd code reason ws)"
| "ws_step rnd (In_timer code reason) ws = ws_finish code reason True ws"

definition ws_life :: "(nat \<Rightarrow> byte list) \<Rightarrow> ws_input list \<Rightarrow> ws_endpoint \<Rightarrow> ws_endpoint" where
  "ws_life rnd ins ws = foldl (\<lambda>ws i. ws_step rnd i ws) ws ins"

text \<open>The messages in the order in which they are written: a blob when its bytes are there. Here nothing else happens.\<close>

fun sent_messages :: "ws_input list \<Rightarrow> byte list list \<Rightarrow> ws_message list" where
  "sent_messages [] blobs = []"
| "sent_messages (In_send m # ins) blobs =
     (case m of Msg_blob bs \<Rightarrow> sent_messages ins (blobs @ [bs]) | _ \<Rightarrow> m # sent_messages ins blobs)"
| "sent_messages (In_blob i # ins) blobs =
     (if i < length blobs then Msg_blob (blobs ! i) # sent_messages ins (take i blobs @ drop (Suc i) blobs) else sent_messages ins blobs)"
| "sent_messages (_ # ins) blobs = sent_messages ins blobs"

definition only_sends :: "ws_input list \<Rightarrow> bool" where
  "only_sends ins = list_all (\<lambda>i. case i of In_send m \<Rightarrow> True | In_blob n \<Rightarrow> True | _ \<Rightarrow> False) ins"

definition message_bytes :: "ws_message \<Rightarrow> byte list" where
  "message_bytes m = (case m of Msg_text s \<Rightarrow> utf8_encode s | Msg_binary bs \<Rightarrow> bs | Msg_blob bs \<Rightarrow> bs)"

definition written :: "ws_effect list \<Rightarrow> byte list" where
  "written es = concat (map (\<lambda>e. case e of Eff_write bs \<Rightarrow> bs | _ \<Rightarrow> []) es)"

text \<open>What a message is at the other end: a text has its lone surrogates replaced.\<close>

definition arrived :: "ws_message \<Rightarrow> ws_event" where
  "arrived m = (case m of Msg_text s \<Rightarrow> Ev_text (of_code_points (code_points s)) | Msg_binary bs \<Rightarrow> Ev_binary bs | Msg_blob bs \<Rightarrow> Ev_binary bs)"

definition message_frame :: "ws_message \<Rightarrow> ws_frame" where
  "message_frame m = \<lparr>fr_opcode = (case m of Msg_text s \<Rightarrow> 1 | _ \<Rightarrow> 2), fr_fin = True, fr_payload = message_bytes m\<rparr>"

lemma ws_handle_message:
  "ws_buffer ws = [] \<Longrightarrow> \<exists>op. ws_handle rnd (message_frame m) ws =
     ws\<lparr>ws_fragmentOpcode := op, ws_fragments := [], ws_effects := ws_effects ws @ [Eff_event (arrived m)]\<rparr>"
  by (cases m) (auto simp: ws_handle_def message_frame_def message_bytes_def Let_def ws_emit_def ws_effect_add_def arrived_def text_of_encode)

definition message_write :: "(nat \<Rightarrow> byte list) \<Rightarrow> ws_message \<Rightarrow> ws_endpoint \<Rightarrow> ws_endpoint" where
  "message_write rnd m ws = ws_write rnd (case m of Msg_text s \<Rightarrow> 1 | _ \<Rightarrow> 2) (message_bytes m) ws"

lemma ws_write_message:
  assumes "ws_attached ws" "\<not> ws_destroyed ws" "\<forall>n. length (rnd n) = 4" "length (message_bytes m) < 2 ^ 32"
  obtains bs n where "message_write rnd m ws = ws\<lparr>ws_drawn := n, ws_effects := ws_effects ws @ [Eff_write bs]\<rparr>"
    "\<And>r. next_frame (bs @ r) = Some (message_frame m, r)"
proof -
  let ?k = "if ws_client ws then Some (rnd (ws_drawn ws)) else None"
  let ?op = "case m of Msg_text s \<Rightarrow> 1 | _ \<Rightarrow> (2 :: nat)"
  have "message_write rnd m ws = ws\<lparr>ws_drawn := (if ws_client ws then ws_drawn ws + 1 else ws_drawn ws),
      ws_effects := ws_effects ws @ [Eff_write (encodeFrame ?op (message_bytes m) ?k)]\<rparr>"
    using assms(1,2) by (simp add: message_write_def ws_write_def ws_effect_add_def)
  moreover have "next_frame (encodeFrame ?op (message_bytes m) ?k @ r) = Some (message_frame m, r)" for r
    using assms(3,4) next_frame_encode [of ?op "message_bytes m" ?k r]
    by (cases m) (simp_all add: ws_frame_ok_def message_frame_def)
  ultimately show thesis using that by blast
qed

lemma ws_data_frame:
  "ws_buffer ws = [] \<Longrightarrow> (\<And>r. next_frame (bs @ r) = Some (f, r)) \<Longrightarrow> ws_data rnd (bs @ r) ws = ws_data rnd r (ws_handle rnd f ws)"
  by (subst ws_data_def, subst ws_loop.simps) (simp add: ws_data_def ws_handle_set_buffer)

lemma ws_data_nothing: "ws_buffer ws = [] \<Longrightarrow> ws_data rnd [] ws = ws"
  by (simp add: ws_data_def ws_loop.simps next_frame_def)

lemma message_arrives:
  assumes "\<forall>n. length (rnd n) = 4" "length (message_bytes m) < 2 ^ 32" "ws_attached s" "\<not> ws_destroyed s" "ws_readyState s = 1"
    "ws_buffer r = []"
    and IH: "\<And>s r. ws_attached s \<Longrightarrow> \<not> ws_destroyed s \<Longrightarrow> ws_readyState s = 1 \<Longrightarrow> ws_buffer r = [] \<Longrightarrow> ws_blobs s = blobs \<Longrightarrow>
      \<exists>es. ws_effects (run s) = ws_effects s @ es \<and> ws_effects (ws_data rnd' (written es) r) = ws_effects r @ later"
    and "ws_blobs s = blobs"
  shows "\<exists>es. ws_effects (run (message_write rnd m s)) = ws_effects s @ es \<and>
    ws_effects (ws_data rnd' (written es) r) = ws_effects r @ Eff_event (arrived m) # later"
proof -
  from ws_write_message [OF assms(3,4,1,2)] obtain bs n where
      send: "message_write rnd m s = s\<lparr>ws_drawn := n, ws_effects := ws_effects s @ [Eff_write bs]\<rparr>"
      and frame: "\<And>r. next_frame (bs @ r) = Some (message_frame m, r)" by blast
  from ws_handle_message [OF assms(6), of rnd' m] obtain op where
      handle: "ws_handle rnd' (message_frame m) r =
        r\<lparr>ws_fragmentOpcode := op, ws_fragments := [], ws_effects := ws_effects r @ [Eff_event (arrived m)]\<rparr>" by blast
  from IH [of "message_write rnd m s" "ws_handle rnd' (message_frame m) r"] assms(3-6,8) send handle
  obtain es where es: "ws_effects (run (message_write rnd m s)) = ws_effects s @ Eff_write bs # es"
      "ws_effects (ws_data rnd' (written es) (ws_handle rnd' (message_frame m) r)) = ws_effects r @ Eff_event (arrived m) # later"
    by auto
  have "ws_data rnd' (written (Eff_write bs # es)) r = ws_data rnd' (written es) (ws_handle rnd' (message_frame m) r)"
    using ws_data_frame [OF assms(6) frame, of rnd' "written es"] by (simp add: written_def)
  with es show ?thesis by (intro exI [of _ "Eff_write bs # es"]) simp
qed

lemma messages_arrive:
  assumes "\<forall>n. length (rnd n) = 4" "only_sends ins" "list_all (\<lambda>m. length (message_bytes m) < 2 ^ 32) (sent_messages ins (ws_blobs s))"
    "ws_attached s" "\<not> ws_destroyed s" "ws_readyState s = 1" "ws_buffer r = []"
  shows "\<exists>es. ws_effects (ws_life rnd ins s) = ws_effects s @ es \<and>
    ws_effects (ws_data rnd' (written es) r) = ws_effects r @ map (Eff_event \<circ> arrived) (sent_messages ins (ws_blobs s))"
  using assms(2-)
proof (induction ins arbitrary: s r)
  case Nil
  then show ?case by (simp add: ws_life_def written_def ws_data_nothing)
next
  case (Cons i ins)
  have life: "ws_life rnd (i # ins) s = ws_life rnd ins (ws_step rnd i s)" by (simp add: ws_life_def)
  have sends: "only_sends ins" using Cons.prems(1) by (simp add: only_sends_def)
  have IH: "\<exists>es. ws_effects (ws_life rnd ins s') = ws_effects s' @ es \<and>
      ws_effects (ws_data rnd' (written es) r') = ws_effects r' @ map (Eff_event \<circ> arrived) (sent_messages ins blobs)"
    if "ws_attached s'" "\<not> ws_destroyed s'" "ws_readyState s' = 1" "ws_buffer r' = []" "ws_blobs s' = blobs"
      "list_all (\<lambda>m. length (message_bytes m) < 2 ^ 32) (sent_messages ins blobs)" for s' r' blobs
    using Cons.IH [OF sends _ that(1-4)] that(6) unfolding that(5) by blast
  have puts: ?case
    if step: "ws_step rnd i s = message_write rnd m s'" and sent: "sent_messages (i # ins) (ws_blobs s) = m # sent_messages ins (ws_blobs s')"
      and s': "ws_attached s'" "\<not> ws_destroyed s'" "ws_readyState s' = 1" "ws_effects s' = ws_effects s" for m s'
  proof -
    have "length (message_bytes m) < 2 ^ 32" and rest: "list_all (\<lambda>m. length (message_bytes m) < 2 ^ 32) (sent_messages ins (ws_blobs s'))"
      using Cons.prems(2) unfolding sent by simp_all
    from message_arrives [where run = "ws_life rnd ins" and blobs = "ws_blobs s'", OF assms(1) this(1) s'(1-3) Cons.prems(6) IH [OF _ _ _ _ _ rest] refl]
    show ?thesis unfolding life step sent list.map comp_apply s'(4) .
  qed
  consider (str) t where "i = In_send (Msg_text t)" | (binary) bs where "i = In_send (Msg_binary bs)"
    | (blob) bs where "i = In_send (Msg_blob bs)" | (read) n where "i = In_blob n"
  proof (cases i)
    case (In_send m)
    then show ?thesis using that by (cases m) simp_all
  qed (use Cons.prems(1) that in \<open>simp_all add: only_sends_def\<close>)
  then show ?case
  proof cases
    case str
    then show ?thesis using Cons.prems by (intro puts [of "Msg_text t" s]) (simp_all add: ws_send_def message_write_def message_bytes_def)
  next
    case binary
    then show ?thesis using Cons.prems by (intro puts [of "Msg_binary bs" s]) (simp_all add: ws_send_def message_write_def message_bytes_def)
  next
    case blob
    then show ?thesis using IH [of "s\<lparr>ws_blobs := ws_blobs s @ [bs]\<rparr>" r] Cons.prems unfolding life by (simp add: ws_send_def o_def)
  next
    case read
    show ?thesis
    proof (cases "n < length (ws_blobs s)")
      case True
      let ?s = "s\<lparr>ws_blobs := take n (ws_blobs s) @ drop (Suc n) (ws_blobs s)\<rparr>"
      show ?thesis using read True Cons.prems
        by (intro puts [of "Msg_blob (ws_blobs s ! n)" ?s]) (simp_all add: ws_blob_read_def message_write_def message_bytes_def)
    next
      case False
      then show ?thesis using IH [of s r] Cons.prems read unfolding life by (simp add: ws_blob_read_def o_def)
    qed
  qed
qed

text \<open>C36: What one endpoint writes is what the other delivers, whichever of the two is the client, whatever the sizes and keys and
  however the network cuts the bytes. A string and bytes are written by the call of \<open>send\<close>, a blob when its bytes have been
  read, so the messages arrive in that order: blobs behind what was sent while they were read, and in the order of the reads.\<close>

theorem ws_messages_arrive:
  assumes "\<forall>n. length (rnd n) = 4" and "only_sends ins"
    and "list_all (\<lambda>m. length (message_bytes m) < 2 ^ 32) (sent_messages ins (ws_blobs s))"
    and "ws_attached s" and "\<not> ws_destroyed s" and "ws_readyState s = 1" and "ws_buffer r = []"
    and "ws_effects (ws_life rnd ins s) = ws_effects s @ es" and "chunks \<noteq> []" and "concat chunks = written es"
  shows "ws_effects (ws_receive rnd' chunks r) = ws_effects r @ map (Eff_event \<circ> arrived) (sent_messages ins (ws_blobs s))"
  using messages_arrive [OF assms(1-7), of rnd'] assms(8-10) by (auto simp: ws_receive_concat)

definition demo_sends :: "ws_input list" where
  "demo_sends = [In_send (Msg_blob [7]), In_send (Msg_text [104]), In_blob 0, In_send (Msg_binary [0, 255])]"

theorem ws_messages_arrive_witness:
  "ws_effects (ws_receive (\<lambda>n. []) [written (ws_effects (ws_life (\<lambda>n. [1, 2, 3, 4]) demo_sends (ws_attach (newSocketWebSocket True))))]
     (ws_attach (newSocketWebSocket False))) =
   ws_effects (ws_attach (newSocketWebSocket False)) @ map (Eff_event \<circ> arrived) [Msg_text [104], Msg_blob [7], Msg_binary [0, 255]]"
proof -
  have sent: "sent_messages demo_sends (ws_blobs (ws_attach (newSocketWebSocket True))) = [Msg_text [104], Msg_blob [7], Msg_binary [0, 255]]"
    by (simp add: demo_sends_def ws_attach_def newSocketWebSocket_def)
  show ?thesis
    unfolding sent [symmetric]
  proof (rule ws_messages_arrive)
    show "\<forall>n :: nat. length ([1, 2, 3, 4] :: byte list) = 4" by simp
    show "only_sends demo_sends" by (simp add: only_sends_def demo_sends_def)
    show "list_all (\<lambda>m. length (message_bytes m) < 2 ^ 32) (sent_messages demo_sends (ws_blobs (ws_attach (newSocketWebSocket True))))"
      unfolding sent by (simp add: message_bytes_def utf8_encode_def is_high_def is_low_def utf8_char_def)
    show "ws_effects (ws_life (\<lambda>n. [1, 2, 3, 4]) demo_sends (ws_attach (newSocketWebSocket True))) =
        ws_effects (ws_attach (newSocketWebSocket True)) @
        ws_effects (ws_life (\<lambda>n. [1, 2, 3, 4]) demo_sends (ws_attach (newSocketWebSocket True)))"
      by (simp add: ws_attach_def newSocketWebSocket_def)
  qed (simp_all add: ws_attach_def newSocketWebSocket_def)
qed

text \<open>A blob that was sent before \<open>close\<close> goes out behind the Close frame.\<close>

lemma ws_blob_after_close:
  "ws_effects (ws_life (\<lambda>n. []) [In_send (Msg_blob [7]), In_close 1000 [], In_blob 0] (ws_attach (newSocketWebSocket False))) =
     [Eff_write (encodeFrame 8 (be_bytes 2 1000) None), Eff_timer 1000 [], Eff_write (encodeFrame 2 [7] None)]"
  by (simp add: ws_life_def ws_send_def ws_close_def ws_sendClose_def ws_write_def ws_effect_add_def ws_blob_read_def ws_attach_def
      newSocketWebSocket_def utf8_encode_def Let_def)

text \<open>The wire format of each side, for one key, is a self-delimiting code.\<close>

interpretation ws_wire: framed "\<lambda>f. encodeFrame (fr_opcode f) (fr_payload f) mkey"
    "\<lambda>b. case next_frame b of None \<Rightarrow> Inl () | Some x \<Rightarrow> Inr x"
    "\<lambda>f. fr_fin f \<and> ws_frame_ok (fr_opcode f, fr_payload f, mkey)"
  for mkey
  by unfold_locales (auto simp: next_frame_encode)

subsection \<open>Closing\<close>

definition close_events :: "ws_effect list \<Rightarrow> nat" where
  "close_events es = length (filter (\<lambda>e. case e of Eff_event (Ev_close c r w) \<Rightarrow> True | _ \<Rightarrow> False) es)"

definition close_frames :: "ws_effect list \<Rightarrow> nat" where
  "close_frames es = length (filter (\<lambda>e. case e of Eff_write bs \<Rightarrow> unat (hd bs AND 15) = 8 | _ \<Rightarrow> False) es)"

definition closes_ok :: "ws_endpoint \<Rightarrow> bool" where
  "closes_ok ws \<longleftrightarrow>
     close_events (ws_effects ws) \<le> (if ws_readyState ws = 3 then 1 else 0) \<and>
     close_frames (ws_effects ws) \<le> (if ws_closeSent ws then 1 else 0) \<and>
     (ws_readyState ws < 2 \<longrightarrow> \<not> ws_closeSent ws)"

lemma hd_encodeFrame: "n < 16 \<Longrightarrow> unat (hd (encodeFrame n p k) AND 15) = n"
  using first_byte(1) [of n] by (simp add: encodeFrame_def Let_def split: option.split)

lemma count_effects:
  "close_events (es @ [Eff_event (Ev_close c r w)]) = close_events es + 1"
  "close_events (es @ [Eff_write bs]) = close_events es" "close_events (es @ [Eff_end]) = close_events es"
  "close_events (es @ [Eff_timer c r]) = close_events es"
  "close_events (es @ [Eff_event (Ev_text s)]) = close_events es" "close_events (es @ [Eff_event (Ev_binary bs)]) = close_events es"
  "close_frames (es @ [Eff_event ev]) = close_frames es" "close_frames (es @ [Eff_end]) = close_frames es"
  "close_frames (es @ [Eff_timer c r]) = close_frames es"
  "close_frames (es @ [Eff_write bs]) = close_frames es + (if unat (hd bs AND 15) = 8 then 1 else 0)"
  by (simp_all add: close_events_def close_frames_def)

lemma closes_write:
  assumes "n < 16"
  shows "close_events (ws_effects (ws_write rnd n p ws)) = close_events (ws_effects ws)"
    "close_frames (ws_effects (ws_write rnd n p ws)) \<le> close_frames (ws_effects ws) + (if n = 8 then 1 else 0)"
    "ws_readyState (ws_write rnd n p ws) = ws_readyState ws" "ws_closeSent (ws_write rnd n p ws) = ws_closeSent ws"
  using assms by (simp_all add: ws_write_def ws_effect_add_def count_effects hd_encodeFrame)

lemma closes_finish: "closes_ok ws \<Longrightarrow> closes_ok (ws_finish c r w ws)"
  unfolding closes_ok_def by (auto simp: ws_finish_def Let_def ws_emit_def ws_effect_add_def count_effects)

lemma closes_plain_write: "closes_ok ws \<Longrightarrow> n < 16 \<Longrightarrow> n \<noteq> 8 \<Longrightarrow> closes_ok (ws_write rnd n p ws)"
  using closes_write [of n rnd p ws] unfolding closes_ok_def by auto

lemma closes_sendClose:
  assumes "closes_ok ws" "\<not> ws_closeSent ws"
  shows "let ws' = snd (ws_sendClose rnd c r ws) in
    close_events (ws_effects ws') = close_events (ws_effects ws) \<and> close_frames (ws_effects ws') \<le> 1 \<and>
    ws_readyState ws' = ws_readyState ws \<and> ws_closeSent ws'"
  using assms closes_write [of 8 rnd "be_bytes 2 c @ utf8_encode r" "ws\<lparr>ws_closeSent := True\<rparr>"]
  by (auto simp: ws_sendClose_def Let_def closes_ok_def)

lemma closes_handle: "closes_ok ws \<Longrightarrow> closes_ok (ws_handle rnd f ws)"
proof -
  assume ok: "closes_ok ws"
  consider "fr_opcode f = 8" | "fr_opcode f = 9" | "fr_opcode f = 10" | "fr_opcode f \<notin> {8, 9, 10}" by auto
  then show ?thesis
  proof cases
    case 1
    have fin: "closes_ok (ws_finish code r True ws')"
      if "close_events (ws_effects ws') = close_events (ws_effects ws)" "close_frames (ws_effects ws') \<le> 1"
        "ws_readyState ws' = ws_readyState ws" "ws_closeSent ws'" for ws' code r
      using that ok by (auto simp: closes_ok_def ws_finish_def Let_def ws_emit_def ws_effect_add_def count_effects)
    show ?thesis
    proof (cases "ws_closeSent ws")
      case True
      then show ?thesis using 1 ok by (auto simp: ws_handle_def Let_def closes_finish)
    next
      case False
      from closes_sendClose [OF ok this] 1 False show ?thesis by (auto simp: ws_handle_def Let_def intro!: fin)
    qed
  next
    case 2
    then show ?thesis using ok by (simp add: ws_handle_def closes_plain_write)
  next
    case 3
    then show ?thesis using ok by (simp add: ws_handle_def)
  next
    case 4
    then show ?thesis using ok by (auto simp: ws_handle_def Let_def ws_emit_def ws_effect_add_def closes_ok_def count_effects)
  qed
qed

lemma closes_loop: "closes_ok ws \<Longrightarrow> closes_ok (ws_loop rnd ws)"
proof (induction rnd ws rule: ws_loop.induct)
  case (1 rnd ws)
  show ?case
  proof (cases "next_frame (ws_buffer ws)")
    case None
    then show ?thesis using 1(2) by (subst ws_loop.simps) simp
  next
    case (Some a)
    obtain f r where a: "a = (f, r)" by (cases a)
    have "closes_ok (ws_handle rnd f (ws\<lparr>ws_buffer := r\<rparr>))" using 1(2) by (intro closes_handle) (simp add: closes_ok_def)
    from 1(1) [OF Some a [symmetric] this] show ?thesis using Some a by (subst ws_loop.simps) simp
  qed
qed

lemma closes_blobs: "closes_ok ws \<Longrightarrow> closes_ok (ws\<lparr>ws_blobs := bl\<rparr>)"
  by (simp add: closes_ok_def)

lemma closes_input: "closes_ok ws \<Longrightarrow> closes_ok (ws_step rnd i ws)"
proof (cases i)
  case (In_data bs)
  assume "closes_ok ws"
  then have "closes_ok (ws\<lparr>ws_buffer := ws_buffer ws @ bs\<rparr>)" by (simp add: closes_ok_def)
  then show ?thesis using In_data by (simp add: ws_data_def closes_loop)
next
  case (In_close c r)
  assume ok: "closes_ok ws"
  show ?thesis
  proof (cases "2 \<le> ws_readyState ws")
    case True
    then show ?thesis using ok In_close by (simp add: ws_close_def)
  next
    case False
    then have ok2: "closes_ok (ws\<lparr>ws_readyState := 2\<rparr>)" "\<not> ws_closeSent (ws\<lparr>ws_readyState := 2\<rparr>)" "close_events (ws_effects ws) = 0"
      using ok by (auto simp: closes_ok_def)
    from closes_sendClose [OF ok2(1,2), of rnd c r] ok2(3) False In_close show ?thesis
      by (auto simp: ws_close_def Let_def ws_effect_add_def closes_ok_def count_effects split: prod.split sum.split)
  qed
next
  case (In_send m)
  assume "closes_ok ws"
  then show ?thesis using In_send by (cases m) (simp_all add: ws_send_def closes_plain_write closes_blobs)
next
  case (In_blob n)
  assume "closes_ok ws"
  then have "closes_ok (ws\<lparr>ws_blobs := bl\<rparr>)" for bl by (simp add: closes_blobs)
  then show ?thesis using In_blob \<open>closes_ok ws\<close> by (simp add: ws_blob_read_def closes_plain_write)
qed (simp_all add: closes_finish)

text \<open>C37: In every life of an attached endpoint there is at most one close event and at most one Close frame is written,
  whatever arrives, in whatever order the program, the peer, the socket and the timer end the connection.\<close>

theorem ws_closes_once:
  "close_events (ws_effects (ws_life rnd ins (ws_attach (newSocketWebSocket client)))) \<le> 1 \<and>
   close_frames (ws_effects (ws_life rnd ins (ws_attach (newSocketWebSocket client)))) \<le> 1"
proof -
  have start: "closes_ok (ws_attach (newSocketWebSocket client))"
    by (simp add: closes_ok_def ws_attach_def newSocketWebSocket_def close_events_def close_frames_def)
  have "closes_ok ws \<Longrightarrow> closes_ok (ws_life rnd ins ws)" for ws
    by (induction ins arbitrary: ws) (simp_all add: ws_life_def closes_input)
  from this [OF start] show ?thesis unfolding closes_ok_def by (auto split: if_splits)
qed

text \<open>A message after the Close frame of the peer is still delivered, after the close event.\<close>

lemma ws_message_after_close:
  "ws_effects (ws_data (\<lambda>n. []) (encodeFrame 8 [3, 232] None @ encodeFrame 2 [7] None) (ws_attach (newSocketWebSocket False))) =
     [Eff_write (encodeFrame 8 [3, 232] None), Eff_end, Eff_event (Ev_close 1000 [] True), Eff_event (Ev_binary [7])]"
proof -
  let ?ws = "ws_attach (newSocketWebSocket False)"
  have ok: "ws_frame_ok (8, [3, 232], None)" "ws_frame_ok (2, [7], None)" by (simp_all add: ws_frame_ok_def)
  have "be_bytes 2 1000 = [3, 232]" unfolding numeral_2_eq_2 by simp
  moreover have "be_val [3, 232] = 1000" by (simp add: be_val_def)
  ultimately have h: "ws_handle (\<lambda>n. []) \<lparr>fr_opcode = 8, fr_fin = True, fr_payload = [3, 232]\<rparr> ?ws =
      ?ws\<lparr>ws_closeSent := True, ws_readyState := 3, ws_effects := [Eff_write (encodeFrame 8 [3, 232] None), Eff_end, Eff_event (Ev_close 1000 [] True)]\<rparr>"
    by (simp add: ws_handle_def Let_def ws_sendClose_def ws_write_def ws_effect_add_def ws_finish_def ws_emit_def ws_attach_def
        newSocketWebSocket_def utf8_encode_def)
  have "ws_buffer ?ws = []" by (simp add: ws_attach_def newSocketWebSocket_def)
  from ws_data_frame [OF this next_frame_encode [OF ok(1)], of "\<lambda>n. []" "encodeFrame 2 [7] None"] h
  have "ws_data (\<lambda>n. []) (encodeFrame 8 [3, 232] None @ encodeFrame 2 [7] None) ?ws = ws_data (\<lambda>n. []) (encodeFrame 2 [7] None @ [])
      (?ws\<lparr>ws_closeSent := True, ws_readyState := 3, ws_effects := [Eff_write (encodeFrame 8 [3, 232] None), Eff_end, Eff_event (Ev_close 1000 [] True)]\<rparr>)"
    by simp
  also have "\<dots> = ws_data (\<lambda>n. []) [] (ws_handle (\<lambda>n. []) \<lparr>fr_opcode = 2, fr_fin = True, fr_payload = [7]\<rparr>
      (?ws\<lparr>ws_closeSent := True, ws_readyState := 3, ws_effects := [Eff_write (encodeFrame 8 [3, 232] None), Eff_end, Eff_event (Ev_close 1000 [] True)]\<rparr>))"
    by (rule ws_data_frame [OF _ next_frame_encode [OF ok(2)]]) (simp add: ws_attach_def newSocketWebSocket_def)
  finally show ?thesis
    by (simp add: ws_handle_def Let_def ws_emit_def ws_effect_add_def ws_data_nothing ws_attach_def newSocketWebSocket_def)
qed

text \<open>A client closed while it connects is open again when the upgrade comes, and reports a second end of the connection.\<close>

lemma ws_close_undone:
  "let ws = snd (ws_close (\<lambda>n. []) 1000 [] (newSocketWebSocket True));
       ws = ws_finish 1000 [] True ws;
       opened = ws_upgrade (\<lambda>n. []) (\<lambda>k. k) [] (Some WS_GUID) None [] ws
   in ws_readyState ws = 3 \<and> ws_readyState opened = 1 \<and> close_events (ws_effects (ws_finish 1006 [] False opened)) = 2"
  by (simp add: ws_close_def ws_sendClose_def ws_write_def newSocketWebSocket_def ws_finish_def ws_emit_def ws_effect_add_def ws_upgrade_def
      ws_attach_def ws_feed_def Let_def close_events_def)

end
