(* ===== verification/Ocb.thy ===== *)
theory Ocb
  imports Prelude
begin

unbundle bit_operations_syntax

text \<open>
  \<open>node-ocb.js\<close>: AES-OCB over the block cipher of the host, which is an argument; \<open>ecb\<close> is what is asked of it. A message is
  transformed block by block however it is cut, decryption undoes encryption, and encryption is the algorithm of
  RFC 7253, with its strings of bits, of which the second half of this theory is about.
\<close>

subsection \<open>Blocks\<close>

definition BLOCK :: nat where "BLOCK = 16"

type_synonym block = "byte list"

definition double :: "block \<Rightarrow> block" where
  "double b =
     (let out = map (\<lambda>i. push_bit 1 (b ! i) OR (if i < BLOCK - 1 then drop_bit 7 (b ! (i + 1)) else 0)) [0..<BLOCK]
      in if b ! 0 AND 0x80 \<noteq> 0 then out[BLOCK - 1 := out ! (BLOCK - 1) XOR 0x87] else out)"

definition xorInto :: "block \<Rightarrow> byte list \<Rightarrow> block" where
  "xorInto target source = map2 (XOR) target (take BLOCK source)"

function trailingZeros :: "nat \<Rightarrow> nat" where
  "trailingZeros n = (if n = 0 \<or> odd n then 0 else trailingZeros (n div 2) + 1)"
  by pat_completeness auto
termination by (relation "measure id") auto

declare trailingZeros.simps [simp del]

definition zero_block :: block where
  "zero_block = replicate BLOCK 0"

subsection \<open>The state\<close>

record ocb =
  ocb_tagLength :: nat
  ocb_decrypt :: bool
  ocb_lStar :: block
  ocb_lDollar :: block
  ocb_l :: "block list"
  ocb_offset :: block
  ocb_checksum :: block
  ocb_index :: nat
  ocb_pending :: "byte list"
  ocb_aad :: "byte list list"

text \<open>The block of the nonce, before its last six bits are cut off.\<close>

definition nonce_block :: "nat \<Rightarrow> byte list \<Rightarrow> block" where
  "nonce_block tagLength nonce =
     (let block = zero_block[0 := push_bit 1 (word_of_nat ((tagLength * 8) mod 128))];
          block = block[BLOCK - 1 - length nonce := block ! (BLOCK - 1 - length nonce) OR 1]
      in take (BLOCK - length nonce) block @ nonce)"

definition stretch_of :: "block \<Rightarrow> byte list" where
  "stretch_of ktop = ktop @ map (\<lambda>i. ktop ! i XOR ktop ! (i + 1)) [0..<8]"

definition initial_offset :: "byte list \<Rightarrow> nat \<Rightarrow> block" where
  "initial_offset stretch bottom =
     map (\<lambda>i. push_bit (bottom mod 8) (stretch ! (i + bottom div 8)) OR drop_bit (8 - bottom mod 8) (stretch ! (i + bottom div 8 + 1))) [0..<BLOCK]"

text \<open>\<open>enc\<close> and \<open>dec\<close> are the block cipher of the host under the key, on whole blocks.\<close>

definition newOcb :: "(byte list \<Rightarrow> byte list) \<Rightarrow> byte list \<Rightarrow> nat \<Rightarrow> bool \<Rightarrow> ocb" where
  "newOcb enc nonce tagLength decrypt =
     (let lStar = enc zero_block; lDollar = double lStar; block = nonce_block tagLength nonce;
          bottom = unat (block ! (BLOCK - 1) AND 63);
          ktop = enc (block[BLOCK - 1 := block ! (BLOCK - 1) AND 0xC0])
      in \<lparr>ocb_tagLength = tagLength, ocb_decrypt = decrypt, ocb_lStar = lStar, ocb_lDollar = lDollar, ocb_l = [double lDollar],
          ocb_offset = initial_offset (stretch_of ktop) bottom, ocb_checksum = zero_block, ocb_index = 0, ocb_pending = [], ocb_aad = []\<rparr>)"

definition addAad :: "byte list \<Rightarrow> ocb \<Rightarrow> ocb" where
  "addAad bytes o' = o'\<lparr>ocb_aad := ocb_aad o' @ [bytes]\<rparr>"

text \<open>The table grows until it has the entry asked for.\<close>

function l_fill :: "nat \<Rightarrow> block list \<Rightarrow> block list" where
  "l_fill i l = (if length l \<le> i then l_fill i (l @ [double (last l)]) else l)"
  by pat_completeness auto
termination by (relation "measure (\<lambda>(i, l). Suc i - length l)") auto

declare l_fill.simps [simp del]

definition lAt :: "nat \<Rightarrow> ocb \<Rightarrow> block \<times> ocb" where
  "lAt i o' = (let l = l_fill i (ocb_l o') in (l ! i, o'\<lparr>ocb_l := l\<rparr>))"

definition cut_blocks :: "nat \<Rightarrow> byte list \<Rightarrow> block list" where
  "cut_blocks count bs = map (\<lambda>j. take BLOCK (drop (j * BLOCK) bs)) [0..<count]"

subsection \<open>Update\<close>

text \<open>The first loop: masks and masked blocks; while encrypting the checksum of the input.\<close>

fun mask_blocks :: "block list \<Rightarrow> ocb \<Rightarrow> (block list \<times> block list) \<times> ocb" where
  "mask_blocks [] o' = (([], []), o')"
| "mask_blocks (b # bs) o' =
     (let o' = o'\<lparr>ocb_index := ocb_index o' + 1\<rparr>;
          (l, o') = lAt (trailingZeros (ocb_index o')) o';
          o' = o'\<lparr>ocb_offset := xorInto (ocb_offset o') l\<rparr>;
          offset = ocb_offset o';
          o' = (if ocb_decrypt o' then o' else o'\<lparr>ocb_checksum := xorInto (ocb_checksum o') b\<rparr>);
          ((masks, work), o') = mask_blocks bs o'
      in ((offset # masks, xorInto b offset # work), o'))"

text \<open>The second loop: the output; while decrypting its checksum.\<close>

fun unmask_blocks :: "(block \<times> block) list \<Rightarrow> ocb \<Rightarrow> block list \<times> ocb" where
  "unmask_blocks [] o' = ([], o')"
| "unmask_blocks ((mixed, m) # ps) o' =
     (let out = xorInto mixed m;
          o' = (if ocb_decrypt o' then o'\<lparr>ocb_checksum := xorInto (ocb_checksum o') out\<rparr> else o');
          (outs, o') = unmask_blocks ps o'
      in (out # outs, o'))"

definition ocb_update :: "(byte list \<Rightarrow> byte list) \<Rightarrow> (byte list \<Rightarrow> byte list) \<Rightarrow> byte list \<Rightarrow> ocb \<Rightarrow> byte list \<times> ocb" where
  "ocb_update enc dec bs o' =
     (let input = ocb_pending o' @ bs; count = length input div BLOCK; o' = o'\<lparr>ocb_pending := drop (count * BLOCK) input\<rparr>
      in if count = 0 then ([], o')
         else
           let ((masks, work), o') = mask_blocks (cut_blocks count input) o';
               mixed = (if ocb_decrypt o' then dec (concat work) else enc (concat work));
               (outs, o') = unmask_blocks (zip (cut_blocks count mixed) masks) o'
           in (concat outs, o'))"

subsection \<open>Additional data and the tag\<close>

text \<open>The padded last block.\<close>

definition pad_block :: "byte list \<Rightarrow> block" where
  "pad_block bs = (bs @ 0x80 # replicate (BLOCK - 1 - length bs) 0)"

fun aad_blocks :: "nat \<Rightarrow> block list \<Rightarrow> block \<Rightarrow> ocb \<Rightarrow> (block list \<times> block) \<times> ocb" where
  "aad_blocks j [] offset o' = (([], offset), o')"
| "aad_blocks j (b # bs) offset o' =
     (let (l, o') = lAt (trailingZeros (j + 1)) o'; offset = xorInto offset l;
          ((work, last'), o') = aad_blocks (j + 1) bs offset o'
      in ((xorInto b offset # work, last'), o'))"

definition hashAad :: "(byte list \<Rightarrow> byte list) \<Rightarrow> ocb \<Rightarrow> block \<times> ocb" where
  "hashAad enc o' =
     (let data = concat (ocb_aad o'); count = length data div BLOCK
      in if count \<noteq> 0 then
           let ((work, offset), o') = aad_blocks 0 (cut_blocks count data) zero_block o';
               mixed = enc (concat work);
               hash = foldl xorInto zero_block (cut_blocks count mixed)
           in if length data mod BLOCK \<noteq> 0
              then (xorInto hash (enc (xorInto (pad_block (drop (count * BLOCK) data)) (xorInto offset (ocb_lStar o')))), o')
              else (hash, o')
         else if data \<noteq> [] then (xorInto zero_block (enc (xorInto (pad_block data) (ocb_lStar o'))), o')
         else (zero_block, o'))"

definition ocb_finish :: "(byte list \<Rightarrow> byte list) \<Rightarrow> ocb \<Rightarrow> (byte list \<times> byte list) \<times> ocb" where
  "ocb_finish enc o' =
     (let (tail, o') =
            (if ocb_pending o' = [] then ([], o')
             else
               let o' = o'\<lparr>ocb_offset := xorInto (ocb_offset o') (ocb_lStar o')\<rparr>;
                   pad = enc (ocb_offset o');
                   tail = map2 (XOR) (ocb_pending o') pad;
                   plain = (if ocb_decrypt o' then tail else ocb_pending o')
               in (tail, o'\<lparr>ocb_checksum := xorInto (ocb_checksum o') (pad_block plain), ocb_pending := []\<rparr>));
          block = map (\<lambda>i. ocb_checksum o' ! i XOR ocb_offset o' ! i XOR ocb_lDollar o' ! i) [0..<BLOCK];
          tag = enc block;
          (hash, o') = hashAad enc o'
      in ((tail, take (ocb_tagLength o') (xorInto tag hash)), o'))"

text \<open>A message in pieces: what the updates and the end give, and the tag.\<close>

fun ocb_updates :: "(byte list \<Rightarrow> byte list) \<Rightarrow> (byte list \<Rightarrow> byte list) \<Rightarrow> byte list list \<Rightarrow> ocb \<Rightarrow> byte list \<times> ocb" where
  "ocb_updates enc dec [] o' = ([], o')"
| "ocb_updates enc dec (c # cs) o' =
     (let (out, o') = ocb_update enc dec c o'; (outs, o') = ocb_updates enc dec cs o' in (out @ outs, o'))"

definition ocb_message :: "(byte list \<Rightarrow> byte list) \<Rightarrow> (byte list \<Rightarrow> byte list) \<Rightarrow> byte list list \<Rightarrow> ocb \<Rightarrow> byte list \<times> byte list" where
  "ocb_message enc dec cs o' =
     (let (out, o') = ocb_updates enc dec cs o'; ((tail, tag), o') = ocb_finish enc o' in (out @ tail, tag))"

subsection \<open>The block cipher\<close>

text \<open>
  What the host promises of \<open>AES-ECB\<close> without padding: whole blocks are transformed one by one, and decrypting undoes
  encrypting.
\<close>

definition ecb :: "(byte list \<Rightarrow> byte list) \<Rightarrow> (byte list \<Rightarrow> byte list) \<Rightarrow> bool" where
  "ecb enc dec \<longleftrightarrow>
     (\<forall>b. length b = BLOCK \<longrightarrow> length (enc b) = BLOCK \<and> length (dec b) = BLOCK \<and> dec (enc b) = b) \<and>
     (\<forall>bs. list_all (\<lambda>b. length b = BLOCK) bs \<longrightarrow> enc (concat bs) = concat (map enc bs) \<and> dec (concat bs) = concat (map dec bs))"


subsection \<open>Blocks at once\<close>

lemma length_double [simp]: "length (double b) = BLOCK"
  by (simp add: double_def Let_def)

lemma length_xorInto [simp]: "length t = BLOCK \<Longrightarrow> BLOCK \<le> length s \<Longrightarrow> length (xorInto t s) = BLOCK"
  by (simp add: xorInto_def)

lemma map2_xor_twice: "length p \<le> length k \<Longrightarrow> map2 (XOR) (map2 (XOR) p k) k = (p :: byte list)"
  by (rule nth_equalityI) (simp_all add: xor.assoc)

lemma xorInto_twice: "length t = BLOCK \<Longrightarrow> length s = BLOCK \<Longrightarrow> xorInto (xorInto t s) s = t"
  by (simp add: xorInto_def map2_xor_twice)

definition ocb_ok :: "ocb \<Rightarrow> bool" where
  "ocb_ok o' \<longleftrightarrow> length (ocb_offset o') = BLOCK \<and> list_all (\<lambda>b. length b = BLOCK) (ocb_l o')"

lemma l_fill_ok: "list_all (\<lambda>b. length b = BLOCK) l \<Longrightarrow> i < length (l_fill i l) \<and> list_all (\<lambda>b. length b = BLOCK) (l_fill i l)"
proof (induction i l rule: l_fill.induct)
  case (1 i l)
  then show ?case by (subst (1 2) l_fill.simps) auto
qed

definition ocb_advance :: "ocb \<Rightarrow> ocb" where
  "ocb_advance o' =
     (let l = l_fill (trailingZeros (ocb_index o' + 1)) (ocb_l o')
      in o'\<lparr>ocb_index := ocb_index o' + 1, ocb_l := l, ocb_offset := xorInto (ocb_offset o') (l ! trailingZeros (ocb_index o' + 1))\<rparr>)"

lemma ocb_advance_ok: "ocb_ok o' \<Longrightarrow> ocb_ok (ocb_advance o')"
  using l_fill_ok [of "ocb_l o'" "trailingZeros (ocb_index o' + 1)"]
  by (auto simp: ocb_ok_def ocb_advance_def Let_def list_all_length)

lemma ocb_advance_checksum: "ocb_advance (o'\<lparr>ocb_checksum := c\<rparr>) = (ocb_advance o')\<lparr>ocb_checksum := c\<rparr>"
  "ocb_advance (o'\<lparr>ocb_pending := p\<rparr>) = (ocb_advance o')\<lparr>ocb_pending := p\<rparr>"
  "ocb_advance (o'\<lparr>ocb_decrypt := d\<rparr>) = (ocb_advance o')\<lparr>ocb_decrypt := d\<rparr>"
  by (simp_all add: ocb_advance_def Let_def)

lemma ocb_advance_keeps [simp]:
  "ocb_checksum (ocb_advance o') = ocb_checksum o'" "ocb_decrypt (ocb_advance o') = ocb_decrypt o'"
  "ocb_pending (ocb_advance o') = ocb_pending o'"
  by (simp_all add: ocb_advance_def Let_def)

text \<open>The offsets of the next blocks.\<close>

fun ocb_offsets :: "nat \<Rightarrow> ocb \<Rightarrow> block list" where
  "ocb_offsets 0 o' = []"
| "ocb_offsets (Suc n) o' = ocb_offset (ocb_advance o') # ocb_offsets n (ocb_advance o')"

lemma length_ocb_offsets [simp]: "length (ocb_offsets n o') = n"
  by (induction n arbitrary: o') simp_all

lemma ocb_offsets_ok: "ocb_ok o' \<Longrightarrow> list_all (\<lambda>b. length b = BLOCK) (ocb_offsets n o') \<and> ocb_ok ((ocb_advance ^^ n) o')"
proof (induction n arbitrary: o')
  case (Suc n)
  from Suc.IH [OF ocb_advance_ok [OF Suc.prems]] ocb_advance_ok [OF Suc.prems] show ?case
    by (simp add: funpow_swap1) (simp add: ocb_ok_def)
qed simp

lemma ocb_offsets_checksum: "ocb_offsets n (o'\<lparr>ocb_checksum := c\<rparr>) = ocb_offsets n o'"
  "ocb_offsets n (o'\<lparr>ocb_pending := p\<rparr>) = ocb_offsets n o'" "ocb_offsets n (o'\<lparr>ocb_decrypt := d\<rparr>) = ocb_offsets n o'"
  by (induction n arbitrary: o') (simp_all add: ocb_advance_checksum)

lemma funpow_advance:
  "(ocb_advance ^^ n) (o'\<lparr>ocb_checksum := c\<rparr>) = ((ocb_advance ^^ n) o')\<lparr>ocb_checksum := c\<rparr>"
  "(ocb_advance ^^ n) (o'\<lparr>ocb_pending := p\<rparr>) = ((ocb_advance ^^ n) o')\<lparr>ocb_pending := p\<rparr>"
  "(ocb_advance ^^ n) (o'\<lparr>ocb_decrypt := d\<rparr>) = ((ocb_advance ^^ n) o')\<lparr>ocb_decrypt := d\<rparr>"
  by (induction n) (simp_all add: ocb_advance_checksum)

lemma funpow_keeps [simp]:
  "ocb_checksum ((ocb_advance ^^ n) o') = ocb_checksum o'" "ocb_decrypt ((ocb_advance ^^ n) o') = ocb_decrypt o'"
  "ocb_pending ((ocb_advance ^^ n) o') = ocb_pending o'"
  by (induction n) simp_all

lemma ocb_offsets_add: "ocb_offsets (n + m) o' = ocb_offsets n o' @ ocb_offsets m ((ocb_advance ^^ n) o')"
  by (induction n arbitrary: o') (simp_all add: funpow_swap1)

text \<open>What whole blocks become.\<close>

definition block_out :: "(byte list \<Rightarrow> byte list) \<Rightarrow> block \<Rightarrow> block \<Rightarrow> block" where
  "block_out f offset b = xorInto (f (xorInto b offset)) offset"

definition blocks_out :: "(byte list \<Rightarrow> byte list) \<Rightarrow> (byte list \<Rightarrow> byte list) \<Rightarrow> block list \<Rightarrow> ocb \<Rightarrow> block list" where
  "blocks_out enc dec bs o' = map2 (block_out (if ocb_decrypt o' then dec else enc)) (ocb_offsets (length bs) o') bs"

definition ocb_after :: "(byte list \<Rightarrow> byte list) \<Rightarrow> (byte list \<Rightarrow> byte list) \<Rightarrow> block list \<Rightarrow> ocb \<Rightarrow> ocb" where
  "ocb_after enc dec bs o' = ((ocb_advance ^^ length bs) o')
     \<lparr>ocb_checksum := foldl xorInto (ocb_checksum o') (if ocb_decrypt o' then blocks_out enc dec bs o' else bs)\<rparr>"

lemma mask_blocks_offsets:
  "mask_blocks bs o' = ((ocb_offsets (length bs) o', map2 (\<lambda>m b. xorInto b m) (ocb_offsets (length bs) o') bs),
     ((ocb_advance ^^ length bs) o')\<lparr>ocb_checksum := (if ocb_decrypt o' then ocb_checksum o' else foldl xorInto (ocb_checksum o') bs)\<rparr>)"
proof (induction bs arbitrary: o')
  case (Cons b bs)
  let ?o = "ocb_advance o'"
  have step: "mask_blocks (b # bs) o' =
      (let o2 = (if ocb_decrypt o' then ?o else ?o\<lparr>ocb_checksum := xorInto (ocb_checksum o') b\<rparr>);
           ((masks, work), o3) = mask_blocks bs o2
       in ((ocb_offset ?o # masks, xorInto b (ocb_offset ?o) # work), o3))"
    by (simp add: Let_def lAt_def ocb_advance_def)
  show ?case
    unfolding step Let_def Cons.IH
    by (simp add: ocb_offsets_checksum funpow_advance funpow_swap1)
qed simp

lemma unmask_blocks_map:
  "unmask_blocks ps o' = (map (\<lambda>(x, m). xorInto x m) ps,
     if ocb_decrypt o' then o'\<lparr>ocb_checksum := foldl xorInto (ocb_checksum o') (map (\<lambda>(x, m). xorInto x m) ps)\<rparr> else o')"
  by (induction ps o' rule: unmask_blocks.induct) (simp_all add: Let_def)

lemma cut_blocks_concat: "list_all (\<lambda>b. length b = BLOCK) bs \<Longrightarrow> cut_blocks (length bs) (concat bs @ r) = bs"
proof (induction bs arbitrary: r)
  case (Cons b bs)
  have "cut_blocks (Suc n) (b @ x) = b # cut_blocks n x" if "length b = BLOCK" for n x
    using that by (auto simp: cut_blocks_def upt_conv_Cons map_Suc_upt [symmetric] BLOCK_def simp del: upt_Suc)
  with Cons show ?case by simp
qed (simp add: cut_blocks_def)

lemma cut_blocks_length: "n * BLOCK \<le> length bs \<Longrightarrow> length (cut_blocks n bs) = n \<and> list_all (\<lambda>b. length b = BLOCK) (cut_blocks n bs) \<and>
    concat (cut_blocks n bs) = take (n * BLOCK) bs"
proof (induction n)
  case (Suc n)
  have "cut_blocks (Suc n) bs = cut_blocks n bs @ [take BLOCK (drop (n * BLOCK) bs)]" by (simp add: cut_blocks_def)
  moreover have "take (Suc n * BLOCK) bs = take (n * BLOCK) bs @ take BLOCK (drop (n * BLOCK) bs)"
    by (simp add: take_add add.commute [of BLOCK])
  ultimately show ?case using Suc by (simp add: BLOCK_def)
qed (simp add: cut_blocks_def)


lemma ecb_map:
  assumes "ecb enc dec" "list_all (\<lambda>b. length b = BLOCK) bs"
  shows "enc (concat bs) = concat (map enc bs)" "dec (concat bs) = concat (map dec bs)"
    "list_all (\<lambda>b. length b = BLOCK) (map enc bs)" "list_all (\<lambda>b. length b = BLOCK) (map dec bs)"
  using assms by (auto simp: ecb_def list_all_iff)

lemma list_all_map2_xorInto:
  "list_all (\<lambda>b. length b = BLOCK) ms \<Longrightarrow> list_all (\<lambda>b. length b = BLOCK) bs \<Longrightarrow>
   list_all (\<lambda>b. length b = BLOCK) (map2 (\<lambda>m b. xorInto b m) ms bs)"
  by (auto simp: list_all_length)

lemma ocb_update_blocks:
  assumes "ecb enc dec" "ocb_ok o'"
  shows "ocb_update enc dec bs o' =
    (let input = ocb_pending o' @ bs; n = length input div BLOCK
     in (concat (blocks_out enc dec (cut_blocks n input) o'),
         (ocb_after enc dec (cut_blocks n input) o')\<lparr>ocb_pending := drop (n * BLOCK) input\<rparr>))"
proof -
  define input where "input = ocb_pending o' @ bs"
  define n where "n = length input div BLOCK"
  define blocks where "blocks = cut_blocks n input"
  define f where "f = (if ocb_decrypt o' then dec else enc)"
  define ms where "ms = ocb_offsets n o'"
  have nl: "n * BLOCK \<le> length input" by (simp add: n_def)
  have b: "length blocks = n" "list_all (\<lambda>b. length b = BLOCK) blocks" using cut_blocks_length [OF nl] by (simp_all add: blocks_def)
  have m: "length ms = n" "list_all (\<lambda>b. length b = BLOCK) ms" using ocb_offsets_ok [OF assms(2)] by (simp_all add: ms_def)
  define work where "work = map2 (\<lambda>m b. xorInto b m) ms blocks"
  have w: "length work = n" "list_all (\<lambda>b. length b = BLOCK) work" using list_all_map2_xorInto [OF m(2) b(2)] m b by (simp_all add: work_def)
  have f: "f (concat work) = concat (map f work)" "list_all (\<lambda>b. length b = BLOCK) (map f work)"
    using ecb_map [OF assms(1) w(2)] by (simp_all add: f_def)
  have cut: "cut_blocks n (f (concat work)) = map f work" using cut_blocks_concat [OF f(2), of "[]"] f(1) w(1) by simp
  have out: "map (\<lambda>(x, m). xorInto x m) (zip (map f work) ms) = map2 (block_out f) ms blocks"
    using m(1) b(1) by (intro nth_equalityI) (simp_all add: work_def block_out_def)
  show ?thesis
  proof (cases "n = 0")
    case True
    then show ?thesis
      by (simp add: ocb_update_def Let_def input_def [symmetric] n_def [symmetric] blocks_out_def ocb_after_def cut_blocks_def)
  next
    case False
    have "ocb_update enc dec bs o' =
        (let ((masks, work), o1) = mask_blocks blocks (o'\<lparr>ocb_pending := drop (n * BLOCK) input\<rparr>);
             mixed = (if ocb_decrypt o1 then dec (concat work) else enc (concat work));
             (outs, o2) = unmask_blocks (zip (cut_blocks n mixed) masks) o1
         in (concat outs, o2))"
      using False by (simp add: ocb_update_def Let_def blocks_def input_def n_def)
    also have "mask_blocks blocks (o'\<lparr>ocb_pending := drop (n * BLOCK) input\<rparr>) = ((ms, work), ((ocb_advance ^^ n) o')
        \<lparr>ocb_pending := drop (n * BLOCK) input, ocb_checksum := (if ocb_decrypt o' then ocb_checksum o' else foldl xorInto (ocb_checksum o') blocks)\<rparr>)"
      by (simp add: mask_blocks_offsets ocb_offsets_checksum funpow_advance b(1) ms_def work_def)
    finally show ?thesis
      using cut out unfolding f_def
      by (simp add: unmask_blocks_map Let_def input_def [symmetric] n_def [symmetric] blocks_def [symmetric] blocks_out_def ocb_after_def b(1)
          ms_def [symmetric] split: if_splits)
  qed
qed

lemma blocks_out_append:
  "blocks_out enc dec (as @ bs) o' = blocks_out enc dec as o' @ blocks_out enc dec bs (ocb_after enc dec as o')"
  by (simp add: blocks_out_def ocb_offsets_add ocb_after_def ocb_offsets_checksum)

lemma ocb_after_append: "ocb_after enc dec (as @ bs) o' = ocb_after enc dec bs (ocb_after enc dec as o')"
proof -
  have "(ocb_advance ^^ (length as + length bs)) o' = (ocb_advance ^^ length bs) ((ocb_advance ^^ length as) o')"
    by (metis add.commute comp_apply funpow_add)
  then show ?thesis
    by (simp add: ocb_after_def blocks_out_append funpow_advance)
qed

lemma ocb_after_ok: "ocb_ok o' \<Longrightarrow> ocb_ok (ocb_after enc dec bs o')"
  using ocb_offsets_ok [of o' "length bs"] by (simp add: ocb_after_def ocb_ok_def)

lemma blocks_out_pending:
  "blocks_out enc dec bs (o'\<lparr>ocb_pending := p\<rparr>) = blocks_out enc dec bs o'"
  "ocb_after enc dec bs (o'\<lparr>ocb_pending := p\<rparr>) = (ocb_after enc dec bs o')\<lparr>ocb_pending := p\<rparr>"
  by (simp_all add: blocks_out_def ocb_after_def ocb_offsets_checksum funpow_advance)

lemma drop_blocks:
  assumes "n * BLOCK \<le> length xs"
  shows "drop ((n + i) * BLOCK) (xs @ ys) = drop (i * BLOCK) (drop (n * BLOCK) xs @ ys)"
proof -
  have "drop (n * BLOCK) xs @ ys = drop (n * BLOCK) (xs @ ys)" using assms by simp
  then show ?thesis by (simp only: drop_drop) (simp add: add_mult_distrib add.commute)
qed

lemma cut_blocks_append:
  assumes "n * BLOCK \<le> length xs"
  shows "cut_blocks (n + m) (xs @ ys) = cut_blocks n xs @ cut_blocks m (drop (n * BLOCK) xs @ ys)"
proof -
  have "map (\<lambda>j. take BLOCK (drop (j * BLOCK) (xs @ ys))) [0..<n] = map (\<lambda>j. take BLOCK (drop (j * BLOCK) xs)) [0..<n]"
  proof (rule map_cong [OF refl])
    fix j assume "j \<in> set [0..<n]"
    then have "(j + 1) * BLOCK \<le> n * BLOCK" by (intro mult_le_mono1) simp
    with assms have "j * BLOCK + BLOCK \<le> length xs" by simp
    then show "take BLOCK (drop (j * BLOCK) (xs @ ys)) = take BLOCK (drop (j * BLOCK) xs)" by simp
  qed
  moreover have "map (\<lambda>j. take BLOCK (drop (j * BLOCK) (xs @ ys))) [n..<n + m] =
      map (\<lambda>j. take BLOCK (drop (j * BLOCK) (drop (n * BLOCK) xs @ ys))) [0..<m]"
  proof (rule nth_equalityI)
    fix i assume "i < length (map (\<lambda>j. take BLOCK (drop (j * BLOCK) (xs @ ys))) [n..<n + m])"
    then show "map (\<lambda>j. take BLOCK (drop (j * BLOCK) (xs @ ys))) [n..<n + m] ! i =
      map (\<lambda>j. take BLOCK (drop (j * BLOCK) (drop (n * BLOCK) xs @ ys))) [0..<m] ! i"
      using drop_blocks [OF assms, of i ys] by (simp del: drop_append)
  qed simp
  ultimately show ?thesis by (simp add: cut_blocks_def upt_add_eq_append [of 0 n m])
qed

lemma ocb_update_append:
  assumes "ecb enc dec" "ocb_ok o'"
  shows "ocb_update enc dec (as @ bs) o' =
    (let (out, o1) = ocb_update enc dec as o'; (outs, o2) = ocb_update enc dec bs o1 in (out @ outs, o2))"
proof -
  define xs n where "xs = ocb_pending o' @ as" and "n = length xs div BLOCK"
  define m where "m = (length (drop (n * BLOCK) xs @ bs)) div BLOCK"
  have nl: "n * BLOCK \<le> length xs" by (simp add: n_def)
  then have nm: "(length xs + length bs) div BLOCK = n + m"
    using div_mult_self3 [of BLOCK n "length xs - n * BLOCK + length bs"] by (simp add: m_def BLOCK_def algebra_simps)
  let ?o1 = "(ocb_after enc dec (cut_blocks n xs) o')\<lparr>ocb_pending := drop (n * BLOCK) xs\<rparr>"
  have ok1: "ocb_ok ?o1" using ocb_after_ok [OF assms(2)] by (simp add: ocb_ok_def)
  have d: "drop ((n + m) * BLOCK) (xs @ bs) = drop (m * BLOCK) (drop (n * BLOCK) xs @ bs)"
    by (rule drop_blocks [OF nl])
  have "ocb_update enc dec as o' = (concat (blocks_out enc dec (cut_blocks n xs) o'), ?o1)"
    by (simp add: ocb_update_blocks [OF assms] Let_def xs_def n_def)
  moreover have "ocb_update enc dec bs ?o1 = (concat (blocks_out enc dec (cut_blocks m (drop (n * BLOCK) xs @ bs)) (ocb_after enc dec (cut_blocks n xs) o')),
      (ocb_after enc dec (cut_blocks m (drop (n * BLOCK) xs @ bs)) (ocb_after enc dec (cut_blocks n xs) o'))\<lparr>ocb_pending := drop (m * BLOCK) (drop (n * BLOCK) xs @ bs)\<rparr>)"
    by (simp add: ocb_update_blocks [OF assms(1) ok1] Let_def m_def blocks_out_pending del: drop_append)
  moreover have "ocb_update enc dec (as @ bs) o' =
      (concat (blocks_out enc dec (cut_blocks (n + m) (xs @ bs)) o'),
       (ocb_after enc dec (cut_blocks (n + m) (xs @ bs)) o')\<lparr>ocb_pending := drop ((n + m) * BLOCK) (xs @ bs)\<rparr>)"
    using nm by (simp add: ocb_update_blocks [OF assms] Let_def xs_def [symmetric] del: drop_append append_assoc flip: append_assoc)
  ultimately show ?thesis
    by (simp add: Let_def cut_blocks_append [OF nl] blocks_out_append ocb_after_append d del: drop_append)
qed

lemma ocb_update_ok: "ecb enc dec \<Longrightarrow> ocb_ok o' \<Longrightarrow> ocb_ok (snd (ocb_update enc dec bs o'))"
  using ocb_after_ok [of o' enc dec] by (simp add: ocb_update_blocks Let_def ocb_ok_def)

lemma ocb_updates_concat:
  "ecb enc dec \<Longrightarrow> ocb_ok o' \<Longrightarrow> cs \<noteq> [] \<Longrightarrow> ocb_updates enc dec cs o' = ocb_update enc dec (concat cs) o'"
proof (induction cs arbitrary: o')
  case (Cons c cs)
  show ?case
  proof (cases "cs = []")
    case True
    then show ?thesis by (simp add: split_beta)
  next
    case False
    with Cons.IH [OF Cons.prems(1) ocb_update_ok [OF Cons.prems(1,2)]] ocb_update_append [OF Cons.prems(1,2)]
    show ?thesis by (simp add: split_beta Let_def)
  qed
qed simp


subsection \<open>A message\<close>

definition ocb_start :: "(byte list \<Rightarrow> byte list) \<Rightarrow> byte list \<Rightarrow> nat \<Rightarrow> byte list list \<Rightarrow> bool \<Rightarrow> ocb" where
  "ocb_start enc nonce tagLength aad decrypt = foldl (\<lambda>o' a. addAad a o') (newOcb enc nonce tagLength decrypt) aad"

lemma foldl_addAad: "foldl (\<lambda>o' a. addAad a o') o' as = o'\<lparr>ocb_aad := ocb_aad o' @ as\<rparr>"
  by (induction as arbitrary: o') (simp_all add: addAad_def)

lemma ocb_start_simps:
  "ocb_ok (ocb_start enc nonce n aad d)" "ocb_pending (ocb_start enc nonce n aad d) = []"
  "ocb_decrypt (ocb_start enc nonce n aad d) = d" "ocb_lStar (ocb_start enc nonce n aad d) = enc zero_block"
  "ocb_start enc nonce n aad True = (ocb_start enc nonce n aad False)\<lparr>ocb_decrypt := True\<rparr>"
  by (simp_all add: ocb_start_def foldl_addAad newOcb_def Let_def ocb_ok_def initial_offset_def)

lemma ocb_message_whole:
  assumes "ecb enc dec" "ocb_ok o'" "ocb_pending o' = []"
  shows "ocb_message enc dec cs o' = ocb_message enc dec [concat cs] o'"
proof (cases "cs = []")
  case True
  have "ocb_update enc dec [] o' = ([], o')" using assms(3) by (simp add: ocb_update_def Let_def)
  with True show ?thesis by (simp add: ocb_message_def)
next
  case False
  show ?thesis
    unfolding ocb_message_def ocb_updates_concat [OF assms(1,2) False] ocb_updates_concat [OF assms(1,2), of "[concat cs]", simplified]
    by simp
qed

text \<open>The hash of the additional data depends on these parts of the state only.\<close>

lemma aad_blocks_cong: "ocb_l o1 = ocb_l o2 \<Longrightarrow> fst (aad_blocks j bs offset o1) = fst (aad_blocks j bs offset o2)"
proof (induction bs arbitrary: j offset o1 o2)
  case (Cons b bs)
  let ?l = "l_fill (trailingZeros (j + 1)) (ocb_l o2)"
  have "fst (aad_blocks (j + 1) bs (xorInto offset (?l ! trailingZeros (j + 1))) (o1\<lparr>ocb_l := ?l\<rparr>)) =
      fst (aad_blocks (j + 1) bs (xorInto offset (?l ! trailingZeros (j + 1))) (o2\<lparr>ocb_l := ?l\<rparr>))"
    by (rule Cons.IH) simp
  with Cons.prems show ?case by (simp add: lAt_def Let_def split_beta)
qed simp

lemma aad_blocks_keeps:
  "ocb_lStar (snd (aad_blocks j bs offset o')) = ocb_lStar o'" "ocb_tagLength (snd (aad_blocks j bs offset o')) = ocb_tagLength o'"
  by (induction bs arbitrary: j offset o') (simp_all add: lAt_def Let_def split_beta)

lemma hashAad_cong:
  assumes "ocb_l o1 = ocb_l o2" "ocb_lStar o1 = ocb_lStar o2" "ocb_aad o1 = ocb_aad o2"
  shows "fst (hashAad enc o1) = fst (hashAad enc o2)"
  using aad_blocks_cong [OF assms(1)] assms(2,3) by (simp add: hashAad_def Let_def split_beta aad_blocks_keeps)

lemma hashAad_other:
  "fst (hashAad enc (o'\<lparr>ocb_decrypt := d\<rparr>)) = fst (hashAad enc o')" "fst (hashAad enc (o'\<lparr>ocb_pending := p\<rparr>)) = fst (hashAad enc o')"
  "fst (hashAad enc (o'\<lparr>ocb_offset := b\<rparr>)) = fst (hashAad enc o')" "fst (hashAad enc (o'\<lparr>ocb_checksum := b\<rparr>)) = fst (hashAad enc o')"
  by (rule hashAad_cong; simp)+

lemma hashAad_keeps: "ocb_tagLength (snd (hashAad enc o')) = ocb_tagLength o'"
  by (simp add: hashAad_def Let_def split_beta aad_blocks_keeps)

lemma block_out_inverse:
  assumes "ecb enc dec" "length b = BLOCK" "length m = BLOCK"
  shows "block_out dec m (block_out enc m b) = b"
proof -
  have x: "length (xorInto b m) = BLOCK" using assms by simp
  then have "length (enc (xorInto b m)) = BLOCK" "dec (enc (xorInto b m)) = xorInto b m" using assms(1) by (simp_all add: ecb_def)
  then show ?thesis using assms x by (simp add: block_out_def xorInto_twice)
qed

lemma blocks_out_ok: "ecb enc dec \<Longrightarrow> ocb_ok o' \<Longrightarrow> list_all (\<lambda>b. length b = BLOCK) bs \<Longrightarrow>
  length (blocks_out enc dec bs o') = length bs \<and> list_all (\<lambda>b. length b = BLOCK) (blocks_out enc dec bs o')"
  using ocb_offsets_ok [of o' "length bs"] by (auto simp: blocks_out_def list_all_length block_out_def ecb_def)

lemma blocks_out_inverse:
  assumes "ecb enc dec" "ocb_ok o'" "list_all (\<lambda>b. length b = BLOCK) bs" "\<not> ocb_decrypt o'"
  shows "blocks_out enc dec (blocks_out enc dec bs o') (o'\<lparr>ocb_decrypt := True\<rparr>) = bs"
proof (rule nth_equalityI)
  show len: "length (blocks_out enc dec (blocks_out enc dec bs o') (o'\<lparr>ocb_decrypt := True\<rparr>)) = length bs"
    by (simp add: blocks_out_def)
  fix i assume "i < length (blocks_out enc dec (blocks_out enc dec bs o') (o'\<lparr>ocb_decrypt := True\<rparr>))"
  then have i: "i < length bs" using len by simp
  then have "length (bs ! i) = BLOCK" "length (ocb_offsets (length bs) o' ! i) = BLOCK"
    using assms(3) ocb_offsets_ok [OF assms(2), of "length bs"] by (simp_all add: list_all_length)
  from block_out_inverse [OF assms(1) this] show "blocks_out enc dec (blocks_out enc dec bs o') (o'\<lparr>ocb_decrypt := True\<rparr>) ! i = bs ! i"
    using i assms(4) by (simp add: blocks_out_def ocb_offsets_checksum)
qed

lemma ocb_after_inverse:
  assumes "ecb enc dec" "ocb_ok o'" "list_all (\<lambda>b. length b = BLOCK) bs" "\<not> ocb_decrypt o'"
  shows "ocb_after enc dec (blocks_out enc dec bs o') (o'\<lparr>ocb_decrypt := True\<rparr>) = (ocb_after enc dec bs o')\<lparr>ocb_decrypt := True\<rparr>"
  using blocks_out_inverse [OF assms] blocks_out_ok [OF assms(1-3)] assms(4) by (simp add: ocb_after_def funpow_advance)

lemma ocb_finish_inverse:
  assumes "ecb enc dec" "ocb_ok o'" "length (ocb_pending o') < BLOCK" "length (ocb_lStar o') = BLOCK" "\<not> ocb_decrypt o'"
    and "fst (ocb_finish enc o') = (tail, tag)"
  shows "fst (ocb_finish enc (o'\<lparr>ocb_decrypt := True, ocb_pending := tail\<rparr>)) = (ocb_pending o', tag) \<and> length tail = length (ocb_pending o')"
proof (cases "ocb_pending o' = []")
  case True
  then have "tail = []" using assms(6) by (simp add: ocb_finish_def Let_def split_beta)
  then show ?thesis
    using True assms(6) by (simp add: ocb_finish_def Let_def split_beta hashAad_keeps hashAad_other)
next
  case False
  let ?off = "xorInto (ocb_offset o') (ocb_lStar o')"
  have pad: "length (enc ?off) = BLOCK" using assms(1,2,4) by (simp add: ecb_def ocb_ok_def)
  have tail: "tail = map2 (XOR) (ocb_pending o') (enc ?off)" using assms(6) False by (simp add: ocb_finish_def Let_def split_beta)
  have undo: "map2 (XOR) tail (enc ?off) = ocb_pending o'" unfolding tail using map2_xor_twice pad assms(3) by simp
  have len: "length tail = length (ocb_pending o')" using pad assms(3) by (simp add: tail)
  then have ne: "tail \<noteq> []" using False by auto
  show ?thesis
    using assms(5,6) False ne undo len by (simp add: ocb_finish_def Let_def split_beta hashAad_keeps hashAad_other)
qed

text \<open>A message gives the same output and tag however it is cut into updates, encrypting and decrypting.\<close>

lemma ocb_streaming:
  assumes "ecb enc dec"
  shows "ocb_message enc dec cs (ocb_start enc nonce tagLength aad decrypt) =
    ocb_message enc dec [concat cs] (ocb_start enc nonce tagLength aad decrypt)"
  by (rule ocb_message_whole [OF assms]) (simp_all add: ocb_start_simps)

lemma ocb_lStar_after: "ocb_lStar (ocb_after enc dec bs o') = ocb_lStar o'"
proof -
  have "ocb_lStar ((ocb_advance ^^ n) o') = ocb_lStar o'" for n by (induction n) (simp_all add: ocb_advance_def Let_def)
  then show ?thesis by (simp add: ocb_after_def)
qed

lemma length_concat_blocks: "length bs = n \<Longrightarrow> list_all (\<lambda>b. length b = BLOCK) bs \<Longrightarrow> length (concat bs) = n * BLOCK"
  by (induction bs arbitrary: n) auto

text \<open>C39: Decrypting what was encrypted gives the message back and the tag that was made for it, for every nonce, additional
  data and length, however either side cuts the text into updates.\<close>

theorem ocb_roundtrip:
  assumes "ecb enc dec" and "ocb_message enc dec cs (ocb_start enc nonce tagLength aad False) = (c, tag)" and "concat ds = c"
  shows "ocb_message enc dec ds (ocb_start enc nonce tagLength aad True) = (concat cs, tag)"
proof -
  define o' where "o' = ocb_start enc nonce tagLength aad False"
  have o': "ocb_ok o'" "ocb_pending o' = []" "\<not> ocb_decrypt o'" "length (ocb_lStar o') = BLOCK"
      "ocb_start enc nonce tagLength aad True = o'\<lparr>ocb_decrypt := True\<rparr>"
    using assms(1) by (simp_all add: o'_def ocb_start_simps ecb_def zero_block_def)
  have od: "ocb_ok (o'\<lparr>ocb_decrypt := True\<rparr>)" "ocb_pending (o'\<lparr>ocb_decrypt := True\<rparr>) = []" using o' by (simp_all add: ocb_ok_def)
  define msg n where "msg = concat cs" and "n = length msg div BLOCK"
  define bs where "bs = cut_blocks n msg"
  have nl: "n * BLOCK \<le> length msg" by (simp add: n_def)
  have bs: "length bs = n" "list_all (\<lambda>b. length b = BLOCK) bs" "concat bs = take (n * BLOCK) msg"
    using cut_blocks_length [OF nl] by (simp_all add: bs_def)
  define o1 where "o1 = (ocb_after enc dec bs o')\<lparr>ocb_pending := drop (n * BLOCK) msg\<rparr>"
  have o1: "ocb_ok o1" "\<not> ocb_decrypt o1" "length (ocb_lStar o1) = BLOCK"
    using ocb_after_ok [OF o'(1), of enc dec bs] o'(3,4) ocb_lStar_after [of enc dec bs o'] by (simp_all add: o1_def ocb_ok_def ocb_after_def)
  have p1: "length (ocb_pending o1) < BLOCK" by (simp add: o1_def n_def BLOCK_def)
  obtain tail tag' where fin: "fst (ocb_finish enc o1) = (tail, tag')" by fastforce
  have "ocb_update enc dec msg o' = (concat (blocks_out enc dec bs o'), o1)"
    using ocb_update_blocks [OF assms(1) o'(1), of msg] o'(2) by (simp add: Let_def bs_def n_def o1_def)
  then have c: "c = concat (blocks_out enc dec bs o') @ tail" "tag' = tag"
    using assms(2) ocb_message_whole [OF assms(1) o'(1,2), of cs] fin
    by (auto simp: o'_def [symmetric] ocb_message_def split_beta msg_def [symmetric])
  have outs: "length (blocks_out enc dec bs o') = n" "list_all (\<lambda>b. length b = BLOCK) (blocks_out enc dec bs o')"
    using blocks_out_ok [OF assms(1) o'(1) bs(2)] bs(1) by simp_all
  have inv: "fst (ocb_finish enc (o1\<lparr>ocb_decrypt := True, ocb_pending := tail\<rparr>)) = (ocb_pending o1, tag)" "length tail < BLOCK"
    using ocb_finish_inverse [OF assms(1) o1(1) p1 o1(3,2) fin] c(2) p1 by simp_all
  have lc: "length (concat (blocks_out enc dec bs o')) = n * BLOCK"
    using outs length_concat_blocks by blast
  then have "length c div BLOCK = n" using inv(2) by (simp add: c(1) BLOCK_def)
  moreover have "cut_blocks n c = blocks_out enc dec bs o'" using cut_blocks_concat [OF outs(2), of tail] outs(1) c(1) by simp
  moreover have "drop (n * BLOCK) c = tail" using lc by (simp add: c(1))
  ultimately have "ocb_update enc dec c (o'\<lparr>ocb_decrypt := True\<rparr>) = (concat bs, o1\<lparr>ocb_decrypt := True, ocb_pending := tail\<rparr>)"
    using ocb_update_blocks [OF assms(1) od(1), of c] od(2) blocks_out_inverse [OF assms(1) o'(1) bs(2) o'(3)]
      ocb_after_inverse [OF assms(1) o'(1) bs(2) o'(3)]
    by (simp add: Let_def o1_def)
  moreover have "concat bs @ ocb_pending o1 = msg" by (simp add: bs(3) o1_def)
  ultimately show ?thesis
    using ocb_message_whole [OF assms(1) od, of ds] inv(1) assms(3) o'(5)
    by (simp add: ocb_message_def split_beta msg_def)
qed


theorem ocb_roundtrip_witness:
  "ocb_message (map NOT) (map NOT) [fst (ocb_message (map NOT) (map NOT) [[1, 2], [3]] (ocb_start (map NOT) [7] 16 [[9]] False))]
     (ocb_start (map NOT) [7] 16 [[9]] True) =
   (concat [[1, 2], [3]], snd (ocb_message (map NOT) (map NOT) [[1, 2], [3]] (ocb_start (map NOT) [7] 16 [[9]] False)))"
proof (rule ocb_roundtrip)
  show "ecb (map NOT) (map NOT)" by (simp add: ecb_def map_concat comp_def)
  show "ocb_message (map NOT) (map NOT) [[1, 2], [3]] (ocb_start (map NOT) [7] 16 [[9]] False) =
      (fst (ocb_message (map NOT) (map NOT) [[1, 2], [3]] (ocb_start (map NOT) [7] 16 [[9]] False)),
       snd (ocb_message (map NOT) (map NOT) [[1, 2], [3]] (ocb_start (map NOT) [7] 16 [[9]] False)))" by simp
qed simp

subsection \<open>Bit strings\<close>

text \<open>The strings of bits of RFC 7253, the first bit the highest of the first byte.\<close>

definition bits_of :: "byte list \<Rightarrow> bool list" where
  "bits_of bs = map (\<lambda>i. bit (bs ! (i div 8)) (7 - i mod 8)) [0..<8 * length bs]"

definition bytes_of :: "bool list \<Rightarrow> byte list" where
  "bytes_of s = map (\<lambda>i. horner_sum of_bool 2 (rev (take 8 (drop (8 * i) s)))) [0..<length s div 8]"

lemma length_bits_of [simp]: "length (bits_of bs) = 8 * length bs"
  by (simp add: bits_of_def)

lemma nth_bits_of: "i < 8 * length bs \<Longrightarrow> bits_of bs ! i = bit (bs ! (i div 8)) (7 - i mod 8)"
  by (simp add: bits_of_def)

lemma nth_bits_of_byte: "k < length bs \<Longrightarrow> j < 8 \<Longrightarrow> bits_of bs ! (8 * k + j) = bit (bs ! k) (7 - j)"
  by (simp add: nth_bits_of)

lemma bytes_of_bits_of [simp]: "bytes_of (bits_of bs) = bs"
proof (rule nth_equalityI)
  fix i assume "i < length (bytes_of (bits_of bs))"
  then have i: "i < length bs" by (simp add: bytes_of_def)
  then have l: "length (take 8 (drop (8 * i) (bits_of bs))) = 8" by simp
  have "bytes_of (bits_of bs) ! i = horner_sum of_bool 2 (rev (take 8 (drop (8 * i) (bits_of bs))))"
    using i by (simp add: bytes_of_def)
  also have "\<dots> = bs ! i"
  proof (rule bit_word_eqI)
    fix n assume "n < LENGTH(8)"
    then have n: "n < 8" by simp
    then have "bit (horner_sum of_bool 2 (rev (take 8 (drop (8 * i) (bits_of bs)))) :: byte) n = rev (take 8 (drop (8 * i) (bits_of bs))) ! n"
      using l by (simp add: bit_horner_sum_bit_word_iff)
    also have "\<dots> = bits_of bs ! (8 * i + (7 - n))" using n l by (simp add: rev_nth)
    also have "\<dots> = bit (bs ! i) (7 - (7 - n))" using n i by (intro nth_bits_of_byte) simp_all
    finally show "bit (horner_sum of_bool 2 (rev (take 8 (drop (8 * i) (bits_of bs)))) :: byte) n = bit (bs ! i) n" using n by simp
  qed
  finally show "bytes_of (bits_of bs) ! i = bs ! i" .
qed (simp add: bytes_of_def)

text \<open>A position is a byte and a bit of it.\<close>

lemma bits_ofI:
  assumes "length s = 8 * length bs" "\<And>k j. k < length bs \<Longrightarrow> j < 8 \<Longrightarrow> bit (bs ! k) (7 - j) = s ! (8 * k + j)"
  shows "bits_of bs = s"
proof (rule nth_equalityI)
  fix i assume "i < length (bits_of bs)"
  then have i: "i div 8 < length bs" "i < 8 * length bs" by (auto simp: div_less_iff_less_mult mult.commute)
  from assms(2) [OF i(1), of "i mod 8"] show "bits_of bs ! i = s ! i" using i(2) by (simp add: nth_bits_of)
qed (simp add: assms(1))

definition rfc_double :: "bool list \<Rightarrow> bool list" where
  "rfc_double s =
     (let r = tl s @ [False]
      in if hd s then map2 (\<noteq>) r (replicate 120 False @ [True, False, False, False, False, True, True, True]) else r)"

lemma bit_87: "bit (0x87 :: byte) n \<longleftrightarrow> n \<in> {0, 1, 2, 7}"
proof (cases "n < 8")
  case True
  then have "n \<in> set [0..<8]" by simp
  then have "n = 0 \<or> n = 1 \<or> n = 2 \<or> n = 3 \<or> n = 4 \<or> n = 5 \<or> n = 6 \<or> n = 7" by (auto simp: upt_rec)
  then show ?thesis by (elim disjE) (simp_all add: bit_numeral_rec)
qed (auto dest: bit_imp_le_length)

lemma bit_times_2: "j < 7 \<Longrightarrow> bit (w * 2 :: byte) (7 - j) = bit w (6 - j)"
  using bit_push_bit_iff [of 1 w "7 - j"] by (auto simp: Suc_diff_le)

lemma bit_times_2_low: "\<not> bit (w * 2 :: byte) 0"
  by (simp add: bit_0)

lemma bits_of_double:
  assumes "length b = BLOCK"
  shows "bits_of (double b) = rfc_double (bits_of b)"
proof -
  have len: "length b = 16" using assms by (simp add: BLOCK_def)
  have hd: "hd (bits_of b) \<longleftrightarrow> b ! 0 AND 0x80 \<noteq> 0"
  proof -
    have "bits_of b \<noteq> []" using len by (metis length_bits_of list.size(3) mult_is_0 zero_neq_numeral)
    then have "hd (bits_of b) = bit (b ! 0) 7" using len by (simp add: hd_conv_nth nth_bits_of)
    then show ?thesis using and_exp_eq_0_iff_not_bit [of "b ! 0" 7] by simp
  qed
  let ?shift = "map (\<lambda>i. push_bit 1 (b ! i) OR (if i < BLOCK - 1 then drop_bit 7 (b ! (i + 1)) else 0)) [0..<BLOCK]"
  have shift: "bit (?shift ! k) (7 - j) = (tl (bits_of b) @ [False]) ! (8 * k + j)" if "k < 16" "j < 8" for k j
  proof -
    have "(tl (bits_of b) @ [False]) ! (8 * k + j) = (8 * k + j < 127 \<and> bits_of b ! Suc (8 * k + j))"
      using that len by (auto simp: nth_append nth_tl)
    also have "\<dots> = (if j < 7 then bit (b ! k) (6 - j) else k < 15 \<and> bit (b ! (k + 1)) 7)"
    proof (cases "j < 7")
      case True
      then show ?thesis using nth_bits_of_byte [of k b "Suc j"] that len by auto
    next
      case False
      then have "j = 7" using that by simp
      then show ?thesis using nth_bits_of_byte [of "Suc k" b 0] that len by auto
    qed
    also have "\<dots> = bit (?shift ! k) (7 - j)"
    proof (cases "j < 7")
      case True
      then have "bit (b ! (k + 1)) (14 - j) = False" by (auto dest: bit_imp_le_length)
      then show ?thesis using True that by (auto simp: BLOCK_def bit_or_iff bit_drop_bit_eq bit_times_2)
    next
      case False
      then have "j = 7" using that by simp
      then show ?thesis using that by (auto simp: BLOCK_def bit_or_iff bit_drop_bit_eq bit_times_2_low)
    qed
    finally show ?thesis ..
  qed
  show ?thesis
  proof (cases "b ! 0 AND 0x80 = 0")
    case True
    then have d: "double b = ?shift" by (simp add: double_def)
    show ?thesis unfolding rfc_double_def Let_def hd using True len shift
      by (intro bits_ofI) (simp_all add: d BLOCK_def)
  next
    case False
    then have d: "double b = ?shift[15 := ?shift ! 15 XOR 0x87]" by (simp add: double_def BLOCK_def Let_def)
    let ?c = "replicate 120 False @ [True, False, False, False, False, True, True, True]"
    have c: "?c ! (8 * k + j) = (k = 15 \<and> bit (0x87 :: byte) (7 - j))" if "k < 16" "j < 8" for k j
    proof (cases "k = 15")
      case True
      have "j = 0 \<or> j = 1 \<or> j = 2 \<or> j = 3 \<or> j = 4 \<or> j = 5 \<or> j = 6 \<or> j = 7" using that(2) by linarith
      then show ?thesis using True by (elim disjE) (simp_all add: nth_append bit_87)
    next
      case False
      then have "8 * k + j < 120" using that by linarith
      then show ?thesis using False by (simp add: nth_append)
    qed
    have "bits_of (double b) = map2 (\<noteq>) (tl (bits_of b) @ [False]) ?c"
    proof (rule bits_ofI)
      fix k j assume "k < length (double b)" "j < (8 :: nat)"
      then have kj: "k < 16" "j < 8" by (simp_all add: BLOCK_def)
      have "bit (double b ! k) (7 - j) = (bit (?shift ! k) (7 - j) \<noteq> (k = 15 \<and> bit (0x87 :: byte) (7 - j)))"
        using kj by (cases "k = 15") (simp_all add: d BLOCK_def bit_xor_iff)
      then show "bit (double b ! k) (7 - j) = map2 (\<noteq>) (tl (bits_of b) @ [False]) ?c ! (8 * k + j)"
        using kj shift [OF kj] c [OF kj] len by simp
    qed (use len in \<open>simp add: BLOCK_def\<close>)
    then show ?thesis using False by (simp add: rfc_double_def Let_def hd)
  qed
qed


subsection \<open>The initial offset of RFC 7253\<close>

definition rfc_nonce :: "nat \<Rightarrow> byte list \<Rightarrow> bool list" where
  "rfc_nonce tagLength nonce =
     map (\<lambda>i. bit ((tagLength * 8) mod 128) (6 - i)) [0..<7] @ replicate (120 - 8 * length nonce) False @ [True] @ bits_of nonce"

definition rfc_offset :: "(byte list \<Rightarrow> byte list) \<Rightarrow> nat \<Rightarrow> byte list \<Rightarrow> bool list" where
  "rfc_offset enc tagLength nonce =
     (let s = rfc_nonce tagLength nonce;
          bottom = horner_sum of_bool 2 (rev (drop 122 s));
          ktop = bits_of (enc (bytes_of (take 122 s @ replicate 6 False)));
          stretch = ktop @ map2 (\<noteq>) (take 64 ktop) (take 64 (drop 8 ktop))
      in take 128 (drop bottom stretch))"

lemma bits_of_nonce_block:
  assumes "nonce \<noteq> []" "length nonce \<le> 15"
  shows "bits_of (nonce_block tagLength nonce) = rfc_nonce tagLength nonce"
proof (rule bits_ofI)
  define n v where "n = length nonce" and "v = (tagLength * 8) mod 128"
  have n: "1 \<le> n" "n \<le> 15" using assms by (simp_all add: n_def Suc_le_eq)
  have len: "length (nonce_block tagLength nonce) = 16"
  proof -
    have "length (nonce_block tagLength nonce) = min (16 :: nat) (16 - length nonce) + length nonce"
      by (simp add: nonce_block_def Let_def zero_block_def BLOCK_def)
    then show ?thesis using assms(2) by linarith
  qed
  show "length (rfc_nonce tagLength nonce) = 8 * length (nonce_block tagLength nonce)"
  proof -
    have "length (rfc_nonce tagLength nonce) = 7 + (120 - 8 * length nonce) + 1 + 8 * length nonce" unfolding rfc_nonce_def by simp
    then show ?thesis using assms(2) len by linarith
  qed
  fix k j assume "k < length (nonce_block tagLength nonce)" "j < (8 :: nat)"
  then have kj: "k < 16" "j < 8" using len by simp_all
  show "bit (nonce_block tagLength nonce ! k) (7 - j) = rfc_nonce tagLength nonce ! (8 * k + j)"
  proof (cases "k < 16 - n")
    case False
    then have "nonce_block tagLength nonce ! k = nonce ! (k - (16 - n))"
      using kj n by (simp add: nonce_block_def Let_def zero_block_def BLOCK_def n_def nth_append)
    moreover have "rfc_nonce tagLength nonce ! (8 * k + j) = bits_of nonce ! (8 * (k - (16 - n)) + j)"
    proof -
      have e: "8 * k + j = 7 + ((120 - 8 * n) + (1 + (8 * (k - (16 - n)) + j)))" using kj n False by linarith
      show ?thesis unfolding e rfc_nonce_def n_def [symmetric] by (simp add: nth_append)
    qed
    moreover have "bits_of nonce ! (8 * (k - (16 - n)) + j) = bit (nonce ! (k - (16 - n))) (7 - j)"
      using kj n False by (intro nth_bits_of_byte) (auto simp: n_def)
    ultimately show ?thesis by simp
  next
    case True
    have one: "bit (1 :: byte) (7 - j) = (j = 7)" using kj by (auto simp: bit_1_iff)
    have low: "bit (word_of_nat v * 2 :: byte) (7 - j) = (j < 7 \<and> bit v (6 - j))"
    proof (cases "j < 7")
      case True
      have "bit (word_of_nat v :: byte) (6 - j) = bit v (6 - j)"
        using bit_unsigned_iff [where ?'a = nat, of "word_of_nat v :: byte" "6 - j"] by (simp add: v_def)
      then show ?thesis using True by (simp add: bit_times_2)
    next
      case False
      then have "j = 7" using kj by simp
      then show ?thesis by (simp add: bit_times_2_low)
    qed
    have "nonce_block tagLength nonce ! k = (if k = 0 then word_of_nat v * 2 else 0) OR (if k = 15 - n then 1 else 0)"
      using True kj n by (auto simp: nonce_block_def Let_def zero_block_def BLOCK_def n_def [symmetric] v_def nth_append nth_list_update)
    then have "bit (nonce_block tagLength nonce ! k) (7 - j) = (k = 0 \<and> j < 7 \<and> bit v (6 - j) \<or> k = 15 - n \<and> j = 7)"
      using low one by (auto simp: bit_or_iff)
    moreover have "rfc_nonce tagLength nonce ! (8 * k + j) = (k = 0 \<and> j < 7 \<and> bit v (6 - j) \<or> k = 15 - n \<and> j = 7)"
    proof (cases "k = 0 \<and> j < 7")
      case True
      then show ?thesis by (simp add: rfc_nonce_def v_def nth_append)
    next
      case False
      then have "7 \<le> 8 * k + j" by linarith
      then have "rfc_nonce tagLength nonce ! (8 * k + j) = (replicate (120 - 8 * n) False @ [True] @ bits_of nonce) ! (8 * k + j - 7)"
        by (simp add: rfc_nonce_def n_def nth_append)
      also have "\<dots> = (8 * k + j - 7 = 120 - 8 * n)"
        using True n kj False by (auto simp: nth_append nth_Cons')
      also have "\<dots> = (k = 15 - n \<and> j = 7)" using True n kj False by auto
      finally show ?thesis using False by auto
    qed
    ultimately show ?thesis by simp
  qed
qed

lemma length_stretch: "length (stretch_of t) = length t + 8"
  by (simp add: stretch_of_def)

lemma bits_of_stretch:
  assumes "length t = 16"
  shows "bits_of (stretch_of t) = bits_of t @ map2 (\<noteq>) (take 64 (bits_of t)) (take 64 (drop 8 (bits_of t)))"
proof (rule bits_ofI)
  fix k j assume "k < length (stretch_of t)" "j < (8 :: nat)"
  then have kj: "k < 24" "j < 8" using assms by (simp_all add: stretch_of_def)
  show "bit (stretch_of t ! k) (7 - j) = (bits_of t @ map2 (\<noteq>) (take 64 (bits_of t)) (take 64 (drop 8 (bits_of t)))) ! (8 * k + j)"
  proof (cases "k < 16")
    case True
    then show ?thesis using kj assms nth_bits_of_byte [of k t j] by (simp add: stretch_of_def nth_append)
  next
    case False
    define i where "i = k - 16"
    have i: "k = 16 + i" "i < 8" using kj False by (simp_all add: i_def)
    have "(bits_of t @ map2 (\<noteq>) (take 64 (bits_of t)) (take 64 (drop 8 (bits_of t)))) ! (8 * k + j) =
        (bits_of t ! (8 * i + j) \<noteq> bits_of t ! (8 * (i + 1) + j))"
      using i kj assms by (simp add: nth_append add.assoc)
    then show ?thesis using i kj assms nth_bits_of_byte [of i t j] nth_bits_of_byte [of "i + 1" t j]
      by (simp add: stretch_of_def nth_append bit_xor_iff)
  qed
qed (use assms in \<open>simp add: stretch_of_def\<close>)

lemma bits_of_initial_offset:
  assumes "length st = 24" "bottom < 64"
  shows "bits_of (initial_offset st bottom) = take 128 (drop bottom (bits_of st))"
proof (rule bits_ofI)
  define q r where "q = bottom div 8" and "r = bottom mod 8"
  have b: "bottom = 8 * q + r" "r < 8" "q < 8" using assms(2) by (simp_all add: q_def r_def div_less_iff_less_mult)
  fix k j assume "k < length (initial_offset st bottom)" "j < (8 :: nat)"
  then have kj: "k < 16" "j < 8" by (simp_all add: initial_offset_def BLOCK_def)
  have off: "bit (initial_offset st bottom ! k) (7 - j) =
      (r \<le> 7 - j \<and> bit (st ! (k + q)) (7 - j - r) \<or> bit (st ! (k + q + 1)) (8 - r + (7 - j)))"
  proof -
    have "initial_offset st bottom ! k = push_bit r (st ! (k + q)) OR drop_bit (8 - r) (st ! (k + q + 1))"
      using kj by (simp add: initial_offset_def BLOCK_def q_def r_def)
    then show ?thesis by (simp only: bit_or_iff bit_push_bit_iff bit_drop_bit_eq comp_def) (auto simp: b(2))
  qed
  have "take 128 (drop bottom (bits_of st)) ! (8 * k + j) = bits_of st ! (8 * (k + q) + (r + j))"
    using kj b assms by (simp add: algebra_simps)
  also have "\<dots> = (if r + j < 8 then bit (st ! (k + q)) (7 - (r + j)) else bit (st ! (k + q + 1)) (7 - (r + j - 8)))"
  proof (cases "r + j < 8")
    case True
    then show ?thesis using nth_bits_of_byte [of "k + q" st "r + j"] kj b assms by simp
  next
    case False
    then have e: "8 * (k + q) + (r + j) = 8 * (k + q + 1) + (r + j - 8)" by simp
    show ?thesis unfolding e using False nth_bits_of_byte [of "k + q + 1" st "r + j - 8"] kj b assms by simp
  qed
  also have "\<dots> = bit (initial_offset st bottom ! k) (7 - j)"
  proof (cases "r + j < 8")
    case True
    then have "\<not> bit (st ! (k + q + 1)) (8 - r + (7 - j))" by (auto dest: bit_imp_le_length)
    moreover have "r \<le> 7 - j" using True kj by linarith
    ultimately show ?thesis using True off by (simp add: add.commute)
  next
    case False
    then have "7 - (r + j - 8) = 8 - r + (7 - j)" using kj b by linarith
    moreover have "\<not> r \<le> 7 - j" using False kj by linarith
    ultimately show ?thesis using False off kj by simp
  qed
  finally show "bit (initial_offset st bottom ! k) (7 - j) = take 128 (drop bottom (bits_of st)) ! (8 * k + j)" ..
qed (use assms in \<open>simp add: initial_offset_def BLOCK_def\<close>)


subsection \<open>OCB as RFC 7253 has it\<close>

definition ref_double :: "block \<Rightarrow> block" where
  "ref_double b = bytes_of (rfc_double (bits_of b))"

fun rfc_offsets :: "block \<Rightarrow> nat \<Rightarrow> block \<Rightarrow> nat \<Rightarrow> block list" where
  "rfc_offsets l0 i off 0 = []"
| "rfc_offsets l0 i off (Suc n) =
     (let off' = xorInto off ((ref_double ^^ trailingZeros i) l0) in off' # rfc_offsets l0 (i + 1) off' n)"

definition rfc_hash :: "(byte list \<Rightarrow> byte list) \<Rightarrow> byte list \<Rightarrow> block" where
  "rfc_hash enc a =
     (let lStar = enc zero_block; l0 = ref_double (ref_double lStar);
          n = length a div BLOCK; offs = rfc_offsets l0 1 zero_block n; left = drop (n * BLOCK) a;
          hash = foldl xorInto zero_block (map2 (\<lambda>off b. enc (xorInto b off)) offs (cut_blocks n a))
      in if left = [] then hash
         else xorInto hash (enc (xorInto (pad_block left) (xorInto (last (zero_block # offs)) lStar))))"

definition rfc_encrypt :: "(byte list \<Rightarrow> byte list) \<Rightarrow> byte list \<Rightarrow> nat \<Rightarrow> byte list \<Rightarrow> byte list \<Rightarrow> byte list \<times> byte list" where
  "rfc_encrypt enc nonce tagLength a p =
     (let lStar = enc zero_block; lDollar = ref_double lStar; l0 = ref_double lDollar;
          off0 = bytes_of (rfc_offset enc tagLength nonce);
          n = length p div BLOCK; bs = cut_blocks n p; left = drop (n * BLOCK) p;
          offs = rfc_offsets l0 1 off0 n; off = last (off0 # offs);
          cs = map2 (\<lambda>off b. xorInto (enc (xorInto b off)) off) offs bs;
          checksum = foldl xorInto zero_block bs;
          (tail, off, checksum) =
            (if left = [] then ([], off, checksum)
             else let off = xorInto off lStar in (map2 (XOR) left (enc off), off, xorInto checksum (pad_block left)))
      in (concat cs @ tail, take tagLength (xorInto (enc (xorInto (xorInto checksum off) lDollar)) (rfc_hash enc a))))"

lemma ref_double: "length b = BLOCK \<Longrightarrow> ref_double b = double b"
  by (simp add: ref_double_def flip: bits_of_double)

lemma length_funpow_double: "length l0 = BLOCK \<Longrightarrow> length ((double ^^ i) l0) = BLOCK \<and> (ref_double ^^ i) l0 = (double ^^ i) l0"
  by (induction i) (simp_all add: ref_double)

definition table_ok :: "block \<Rightarrow> block list \<Rightarrow> bool" where
  "table_ok l0 l \<longleftrightarrow> length l0 = BLOCK \<and> l \<noteq> [] \<and> (\<forall>i < length l. l ! i = (double ^^ i) l0)"

lemma table_ok_fill: "table_ok l0 l \<Longrightarrow> table_ok l0 (l_fill i l)"
proof (induction i l rule: l_fill.induct)
  case (1 i l)
  show ?case
  proof (cases "length l \<le> i")
    case True
    obtain n where n: "length l = Suc n" using 1(2) by (cases "length l") (simp_all add: table_ok_def)
    have "last l = (double ^^ n) l0" using 1(2) n by (simp add: table_ok_def last_conv_nth)
    then have "table_ok l0 (l @ [double (last l)])" using 1(2) n by (auto simp: table_ok_def nth_append less_Suc_eq)
    from 1(1) [OF True this] True show ?thesis by (subst l_fill.simps) simp
  next
    case False
    then show ?thesis using 1(2) by (subst l_fill.simps) simp
  qed
qed

lemma length_l_fill: "i < length (l_fill i l)"
proof (induction i l rule: l_fill.induct)
  case (1 i l)
  then show ?case by (subst l_fill.simps) simp
qed

lemma table_lookup: "table_ok l0 l \<Longrightarrow> l_fill i l ! i = (ref_double ^^ i) l0"
  using table_ok_fill [of l0 l i] length_l_fill [of i l] length_funpow_double [of l0 i] by (simp add: table_ok_def)

lemma advance_table: "table_ok l0 (ocb_l o') \<Longrightarrow> table_ok l0 (ocb_l (ocb_advance o'))"
  by (simp add: ocb_advance_def Let_def table_ok_fill)

lemma ocb_offsets_rfc:
  "table_ok l0 (ocb_l o') \<Longrightarrow> ocb_offsets n o' = rfc_offsets l0 (ocb_index o' + 1) (ocb_offset o') n \<and>
   table_ok l0 (ocb_l ((ocb_advance ^^ n) o')) \<and> ocb_offset ((ocb_advance ^^ n) o') = last (ocb_offset o' # ocb_offsets n o')"
proof (induction n arbitrary: o')
  case (Suc n)
  have a: "ocb_offset (ocb_advance o') = xorInto (ocb_offset o') ((ref_double ^^ trailingZeros (ocb_index o' + 1)) l0)"
      "ocb_index (ocb_advance o') = ocb_index o' + 1"
    using table_lookup [OF Suc.prems] by (simp_all add: ocb_advance_def Let_def)
  from Suc.IH [OF advance_table [OF Suc.prems]] a show ?case by (simp add: funpow_swap1 Let_def)
qed simp

lemma aad_blocks_rfc:
  "table_ok l0 (ocb_l o') \<Longrightarrow> fst (aad_blocks j bs off o') =
     (map2 (\<lambda>m b. xorInto b m) (rfc_offsets l0 (j + 1) off (length bs)) bs, last (off # rfc_offsets l0 (j + 1) off (length bs)))"
proof (induction bs arbitrary: j off o')
  case (Cons b bs)
  let ?o = "o'\<lparr>ocb_l := l_fill (trailingZeros (j + 1)) (ocb_l o')\<rparr>"
  have "table_ok l0 (ocb_l ?o)" using table_ok_fill [OF Cons.prems] by simp
  from Cons.IH [OF this, of "j + 1"] table_lookup [OF Cons.prems] show ?case
    by (simp add: lAt_def Let_def split_beta)
qed simp

lemma xorInto_zero: "length s = BLOCK \<Longrightarrow> xorInto zero_block s = s"
  by (rule nth_equalityI) (simp_all add: xorInto_def zero_block_def)

lemma rfc_offsets_ok: "length off = BLOCK \<Longrightarrow> length l0 = BLOCK \<Longrightarrow> list_all (\<lambda>b. length b = BLOCK) (rfc_offsets l0 i off n) \<and> length (rfc_offsets l0 i off n) = n"
  using length_funpow_double by (induction n arbitrary: i off) (simp_all add: Let_def)

lemma hashAad_rfc:
  assumes "ecb enc dec" "table_ok l0 (ocb_l o')" "ocb_lStar o' = enc zero_block" "l0 = ref_double (ref_double (enc zero_block))"
  shows "fst (hashAad enc o') = rfc_hash enc (concat (ocb_aad o'))"
proof -
  define a n where "a = concat (ocb_aad o')" and "n = length a div BLOCK"
  define offs bs where "offs = rfc_offsets l0 1 zero_block n" and "bs = cut_blocks n a"
  have l0: "length l0 = BLOCK" using assms(2) by (simp add: table_ok_def)
  have ls: "length (enc zero_block) = BLOCK" using assms(1) by (simp add: ecb_def zero_block_def)
  have nl: "n * BLOCK \<le> length a" by (simp add: n_def)
  have b: "length bs = n" "list_all (\<lambda>b. length b = BLOCK) bs" using cut_blocks_length [OF nl] by (simp_all add: bs_def)
  have o: "length offs = n" "list_all (\<lambda>b. length b = BLOCK) offs" using rfc_offsets_ok [OF _ l0, of zero_block] by (simp_all add: offs_def zero_block_def)
  define work where "work = map2 (\<lambda>m b. xorInto b m) offs bs"
  have w: "length work = n" "list_all (\<lambda>b. length b = BLOCK) work" using list_all_map2_xorInto [OF o(2) b(2)] o b by (simp_all add: work_def)
  have e: "cut_blocks n (enc (concat work)) = map enc work"
    using cut_blocks_concat [OF ecb_map(3) [OF assms(1) w(2)], of "[]"] ecb_map(1) [OF assms(1) w(2)] w(1) by simp
  have m: "map enc work = map2 (\<lambda>off b. enc (xorInto b off)) offs bs" by (simp add: work_def comp_def split_beta)
  have left: "drop (n * BLOCK) a = [] \<longleftrightarrow> length a mod BLOCK = 0"
  proof -
    have "length a = n * BLOCK + length a mod BLOCK" by (simp add: n_def)
    then have "length a \<le> n * BLOCK \<longleftrightarrow> length a mod BLOCK = 0" by linarith
    then show ?thesis by simp
  qed
  have fst': "fst (aad_blocks 0 bs zero_block o') = (work, last (zero_block # offs))"
    using aad_blocks_rfc [OF assms(2), of 0 bs zero_block] b(1) by (simp add: offs_def work_def)
  obtain o1 where ab: "aad_blocks 0 bs zero_block o' = ((work, last (zero_block # offs)), o1)" using fst' by (cases "aad_blocks 0 bs zero_block o'") simp
  have star: "ocb_lStar o1 = enc zero_block" using aad_blocks_keeps(1) [of 0 bs zero_block o'] ab assms(3) by simp
  show ?thesis
  proof (cases "n = 0")
    case True
    then have "offs = []" "bs = []" "drop (n * BLOCK) a = a" using o b by simp_all
    then show ?thesis
      using True assms(3) ls
      by (auto simp: hashAad_def rfc_hash_def Let_def a_def [symmetric] n_def [symmetric] assms(4) [symmetric] offs_def [symmetric] bs_def [symmetric] xorInto_zero
          simp del: One_nat_def)
  next
    case False
    then show ?thesis
      using ab star e m left
      by (simp add: hashAad_def rfc_hash_def Let_def a_def [symmetric] n_def [symmetric] assms(4) [symmetric] offs_def [symmetric] bs_def [symmetric]
          del: One_nat_def)
  qed
qed


lemma initial_offset_rfc:
  assumes "ecb enc dec" "nonce \<noteq> []" "length nonce \<le> 15"
  shows "ocb_offset (newOcb enc nonce tagLength d) = bytes_of (rfc_offset enc tagLength nonce)"
proof -
  define nb where "nb = nonce_block tagLength nonce"
  define low where "low = nb ! 15"
  have len: "length nb = 16" using length_bits_of [of nb] bits_of_nonce_block [OF assms(2,3), of tagLength] assms(3)
    by (simp add: nb_def rfc_nonce_def)
  have bits: "rfc_nonce tagLength nonce = bits_of nb" using bits_of_nonce_block [OF assms(2,3)] by (simp add: nb_def)
  have drop6: "rev (drop 122 (bits_of nb)) = map (bit low) [0..<6]"
  proof (rule nth_equalityI)
    fix i assume "i < length (rev (drop 122 (bits_of nb)))"
    then have i: "i < 6" using len by simp
    then have "rev (drop 122 (bits_of nb)) ! i = bits_of nb ! (8 * 15 + (7 - i))" using len by (simp add: rev_nth)
    also have "\<dots> = bit low i" using i len nth_bits_of_byte [of 15 nb "7 - i"] by (simp add: low_def)
    finally show "rev (drop 122 (bits_of nb)) ! i = map (bit low) [0..<6] ! i" using i by simp
  qed (use len in simp)
  have bottom: "horner_sum of_bool 2 (rev (drop 122 (bits_of nb))) = unat (low AND 63)"
  proof -
    have "map (bit low) [0..<6] = map (bit (unat low)) [0..<6]" by (simp add: bit_unsigned_iff)
    then have "horner_sum of_bool 2 (rev (drop 122 (bits_of nb))) = take_bit 6 (unat low)"
      unfolding drop6 by (simp only: horner_sum_bit_eq_take_bit)
    moreover have "low AND 63 = take_bit 6 low" using take_bit_eq_mask [of 6 low] by (simp add: mask_eq_exp_minus_1)
    ultimately show ?thesis by (simp add: unsigned_take_bit_eq)
  qed
  have top: "bytes_of (take 122 (bits_of nb) @ replicate 6 False) = nb[15 := low AND 0xC0]"
  proof -
    have "bits_of (nb[15 := low AND 0xC0]) = take 122 (bits_of nb) @ replicate 6 False"
    proof (rule bits_ofI)
      fix k j assume "k < length (nb[15 := low AND 0xC0])" "j < (8 :: nat)"
      then have kj: "k < 16" "j < 8" using len by simp_all
      have c0: "bit (0xC0 :: byte) (7 - j) = (j < 2)"
      proof -
        have "j = 0 \<or> j = 1 \<or> j = 2 \<or> j = 3 \<or> j = 4 \<or> j = 5 \<or> j = 6 \<or> j = 7" using kj(2) by linarith
        then show ?thesis by (elim disjE) (simp_all add: bit_numeral_rec)
      qed
      show "bit (nb[15 := low AND 0xC0] ! k) (7 - j) = (take 122 (bits_of nb) @ replicate 6 False) ! (8 * k + j)"
      proof (cases "8 * k + j < 122")
        case True
        then show ?thesis
          using kj len nth_bits_of_byte [of k nb j] c0 by (cases "k = 15") (simp_all add: nth_append low_def bit_and_iff)
      next
        case False
        then have "k = 15" "2 \<le> j" using kj by linarith+
        then show ?thesis using False kj len c0 by (simp add: nth_append bit_and_iff \<open>k = 15\<close>)
      qed
    qed (use len in simp)
    then show ?thesis by (metis bytes_of_bits_of)
  qed
  have kl: "length (enc (nb[15 := low AND 0xC0])) = 16" using assms(1) len by (simp add: ecb_def BLOCK_def)
  have small: "unat (low AND 63) < 64"
  proof -
    have "low AND 63 = take_bit 6 low" using take_bit_eq_mask [of 6 low] by (simp add: mask_eq_exp_minus_1)
    then show ?thesis using take_bit_nat_less_exp [of 6 "unat low"] by (simp add: unsigned_take_bit_eq)
  qed
  have "ocb_offset (newOcb enc nonce tagLength d) = initial_offset (stretch_of (enc (nb[15 := low AND 0xC0]))) (unat (low AND 63))"
    by (simp add: newOcb_def Let_def nb_def [symmetric] low_def BLOCK_def)
  also have "\<dots> = bytes_of (bits_of \<dots>)" by simp
  also have "bits_of (initial_offset (stretch_of (enc (nb[15 := low AND 0xC0]))) (unat (low AND 63))) = rfc_offset enc tagLength nonce"
    using kl small by (simp add: bits_of_initial_offset length_stretch bits_of_stretch rfc_offset_def Let_def bits bottom top)
  finally show ?thesis .
qed

text \<open>C38: Encrypting is OCB of RFC 7253: doubling, the initial offset cut out of the stretched nonce block, the offsets, the
  checksum, the hash of the additional data and the tag are those of its bit strings, for nonces of 1 to 15 bytes.\<close>

theorem ocb_standard:
  assumes "ecb enc dec" and "nonce \<noteq> []" and "length nonce \<le> 15"
  shows "ocb_message enc dec cs (ocb_start enc nonce tagLength aad False) = rfc_encrypt enc nonce tagLength (concat aad) (concat cs)"
proof -
  define o' where "o' = ocb_start enc nonce tagLength aad False"
  define p n where "p = concat cs" and "n = length p div BLOCK"
  define bs left where "bs = cut_blocks n p" and "left = drop (n * BLOCK) p"
  define lStar where "lStar = enc zero_block"
  define lDollar where "lDollar = ref_double lStar"
  define l0 where "l0 = ref_double lDollar"
  have ls: "length lStar = BLOCK" using assms(1) by (simp add: lStar_def ecb_def zero_block_def)
  have ld: "lDollar = double lStar" "l0 = double lDollar" using ls by (simp_all add: lDollar_def l0_def ref_double)
  have o': "ocb_ok o'" "ocb_pending o' = []" "\<not> ocb_decrypt o'" "ocb_lStar o' = lStar"
    by (simp_all add: o'_def lStar_def ocb_start_simps)
  have f: "ocb_lDollar o' = lDollar" "ocb_l o' = [l0]" "ocb_index o' = 0" "ocb_checksum o' = zero_block" "ocb_tagLength o' = tagLength"
      "ocb_aad o' = aad" "ocb_offset o' = bytes_of (rfc_offset enc tagLength nonce)"
    using initial_offset_rfc [OF assms, of tagLength False]
    by (simp_all add: o'_def ocb_start_def foldl_addAad newOcb_def Let_def ld flip: lStar_def)
  have table: "table_ok l0 (ocb_l o')" by (simp add: f table_ok_def ld)
  have nl: "n * BLOCK \<le> length p" by (simp add: n_def)
  have b: "length bs = n" "list_all (\<lambda>b. length b = BLOCK) bs" using cut_blocks_length [OF nl] by (simp_all add: bs_def)
  define offs off where "offs = rfc_offsets l0 1 (bytes_of (rfc_offset enc tagLength nonce)) n"
    and "off = last (bytes_of (rfc_offset enc tagLength nonce) # offs)"
  have offs: "ocb_offsets n o' = offs" "ocb_offset ((ocb_advance ^^ n) o') = off" "table_ok l0 (ocb_l ((ocb_advance ^^ n) o'))"
    using ocb_offsets_rfc [OF table, of n] by (simp_all add: f offs_def off_def)
  define cs' where "cs' = map2 (\<lambda>off b. xorInto (enc (xorInto b off)) off) offs bs"
  have cs': "blocks_out enc dec bs o' = cs'" by (simp add: blocks_out_def o'(3) b(1) offs(1) cs'_def block_out_def)
  define o1 where "o1 = (ocb_after enc dec bs o')\<lparr>ocb_pending := left\<rparr>"
  have keeps: "ocb_lStar ((ocb_advance ^^ n) o') = lStar \<and> ocb_lDollar ((ocb_advance ^^ n) o') = lDollar \<and> ocb_aad ((ocb_advance ^^ n) o') = aad \<and>
      ocb_tagLength ((ocb_advance ^^ n) o') = tagLength"
    by (induction n) (simp_all add: o'(4) f ocb_advance_def Let_def)
  have o1: "ocb_pending o1 = left" "ocb_offset o1 = off" "ocb_checksum o1 = foldl xorInto zero_block bs" "ocb_decrypt o1 = False"
      "ocb_lStar o1 = lStar" "ocb_lDollar o1 = lDollar" "ocb_aad o1 = aad" "ocb_tagLength o1 = tagLength" "table_ok l0 (ocb_l o1)"
    using offs keeps o'(3) by (simp_all add: o1_def ocb_after_def b(1) f)
  have ok1: "length off = BLOCK" using ocb_after_ok [OF o'(1), of enc dec bs] o1(2) by (simp add: o1_def ocb_ok_def)
  have upd: "ocb_update enc dec p o' = (concat cs', o1)"
    using ocb_update_blocks [OF assms(1) o'(1), of p] o'(2) cs' by (simp add: Let_def o1_def n_def bs_def left_def)
  have hash: "fst (hashAad enc o2) = rfc_hash enc (concat aad)"
    if "ocb_l o2 = ocb_l o1" "ocb_lStar o2 = lStar" "ocb_aad o2 = aad" for o2
    using hashAad_rfc [OF assms(1), of l0 o2] that o1(9) by (simp add: lStar_def l0_def lDollar_def)
  have hash1: "fst (hashAad enc o1) = rfc_hash enc (concat aad)" by (rule hash) (simp_all add: o1)
  have sum: "length (foldl xorInto zero_block xs) = BLOCK" if "list_all (\<lambda>b. length b = BLOCK) xs" for xs
  proof -
    have "length z = BLOCK \<Longrightarrow> length (foldl xorInto z xs) = BLOCK" for z
      using that by (induction xs arbitrary: z) simp_all
    then show ?thesis by (simp add: zero_block_def)
  qed
  have three: "map (\<lambda>i. c ! i XOR (x :: block) ! i XOR d ! i) [0..<BLOCK] = xorInto (xorInto c x) d"
    if "length c = BLOCK" "length x = BLOCK" "length d = BLOCK" for c x d
    using that by (intro nth_equalityI) (simp_all add: xorInto_def xor.assoc)
  have ldl: "length lDollar = BLOCK" by (simp add: ld)
  have r: "length left < BLOCK" by (simp add: left_def n_def BLOCK_def)
  have padl: "length (pad_block left) = BLOCK" using r by (simp add: pad_block_def BLOCK_def)
  have "ocb_message enc dec cs o' = ocb_message enc dec [p] o'" using ocb_message_whole [OF assms(1) o'(1,2), of cs] by (simp add: p_def)
  then have msg: "ocb_message enc dec cs o' = (concat cs' @ fst (fst (ocb_finish enc o1)), snd (fst (ocb_finish enc o1)))"
    by (simp add: ocb_message_def split_beta upd)
  have ref: "rfc_encrypt enc nonce tagLength (concat aad) p =
     (let (tail, x, c) = (if left = [] then ([], off, foldl xorInto zero_block bs)
             else let x = xorInto off lStar in (map2 (XOR) left (enc x), x, xorInto (foldl xorInto zero_block bs) (pad_block left)))
      in (concat cs' @ tail, take tagLength (xorInto (enc (xorInto (xorInto c x) lDollar)) (rfc_hash enc (concat aad)))))"
    unfolding rfc_encrypt_def Let_def n_def [symmetric] lStar_def [symmetric] lDollar_def [symmetric] l0_def [symmetric] bs_def [symmetric]
      left_def [symmetric] offs_def [symmetric] off_def [symmetric] cs'_def [symmetric] by (rule refl)
  show ?thesis
  proof (cases "left = []")
    case True
    then have "fst (ocb_finish enc o1) =
        ([], take tagLength (xorInto (enc (xorInto (xorInto (foldl xorInto zero_block bs) off) lDollar)) (rfc_hash enc (concat aad))))"
      using sum [OF b(2)] ok1 ldl hash1 by (simp add: ocb_finish_def Let_def split_beta o1 hashAad_keeps three)
    with True msg ref show ?thesis by (simp add: o'_def p_def)
  next
    case False
    then have "fst (ocb_finish enc o1) =
        (map2 (XOR) left (enc (xorInto off lStar)),
         take tagLength (xorInto (enc (xorInto (xorInto (xorInto (foldl xorInto zero_block bs) (pad_block left)) (xorInto off lStar)) lDollar))
           (rfc_hash enc (concat aad))))"
      using sum [OF b(2)] ok1 ls ldl padl hash1 by (simp add: ocb_finish_def Let_def split_beta o1 hashAad_keeps hashAad_other three)
    with False msg ref show ?thesis by (simp add: o'_def p_def Let_def)
  qed
qed

theorem ocb_standard_witness:
  "ocb_message (map NOT) (map NOT) [[1, 2], [3]] (ocb_start (map NOT) [7] 16 [[9]] False) = rfc_encrypt (map NOT) [7] 16 (concat [[9]]) (concat [[1, 2], [3]])"
  by (rule ocb_standard) (simp_all add: ecb_def map_concat comp_def)

end
