(* ===== verification/V8Format.thy ===== *)
theory V8Format
  imports BufferText
begin

text \<open>
  The parts of V8's wire format (\<open>node-v8.js\<close>): variable length integers, doubles, big integers, strings and property keys, as
  \<open>Serializer\<close> writes and \<open>Deserializer\<close> reads them. A reader returns what it read and the bytes behind it. Lengths are
  natural numbers; the hypotheses of the contracts are the bounds below which they fit the 32 bits of a varint.
\<close>

unbundle bit_operations_syntax

subsection \<open>Numbers\<close>

text \<open>
  A \<open>Number\<close> of the language: a whole number below 2 ^ 53 in size that is not -0, or the 64 bits of any other; there is
  one NaN.
\<close>

datatype jnumber = IntNum int | OtherNum "64 word"

text \<open>The bits of a whole number as a double.\<close>

fun log2_floor :: "nat \<Rightarrow> nat" where
  "log2_floor n = (if n < 2 then 0 else Suc (log2_floor (n div 2)))"

declare log2_floor.simps [simp del]

definition int_pattern :: "int \<Rightarrow> nat" where
  "int_pattern n =
     (if n = 0 then 0
      else let m = nat \<bar>n\<bar>; k = log2_floor m
           in (if n < 0 then 2 ^ 63 else 0) + (k + 1023) * 2 ^ 52 + (m * 2 ^ (52 - k) - 2 ^ 52))"

definition number_pattern :: "jnumber \<Rightarrow> nat" where
  "number_pattern x = (case x of IntNum n \<Rightarrow> int_pattern n | OtherNum w \<Rightarrow> unat w)"

definition NaN_bits :: "64 word" where "NaN_bits = 0x7FF8000000000000"

definition pattern_number :: "nat \<Rightarrow> jnumber" where
  "pattern_number v =
     (let e = v div 2 ^ 52 mod 2048; f = v mod 2 ^ 52
      in if v = 0 then IntNum 0
         else if e = 2047 \<and> f \<noteq> 0 then OtherNum NaN_bits
         else if 1023 \<le> e \<and> e \<le> 1075 \<and> f mod 2 ^ (1075 - e) = 0
         then IntNum ((if v < 2 ^ 63 then 1 else - 1) * int ((2 ^ 52 + f) div 2 ^ (1075 - e)))
         else OtherNum (word_of_nat v))"

subsection \<open>Wire tags and the errors\<close>

datatype v8_error = DataCloneError | StackOverflow | DataFail | VersionFail | EngineTypeError | EngineSyntaxError

subsection \<open>Varints, doubles and big integers\<close>

fun varint_bytes :: "nat \<Rightarrow> byte list" where
  "varint_bytes n = (if 128 \<le> n then word_of_nat (n mod 128 + 128) # varint_bytes (n div 128) else [word_of_nat n])"

declare varint_bytes.simps [simp del]

fun varint_loop :: "nat \<Rightarrow> nat \<Rightarrow> byte list \<Rightarrow> v8_error + (nat \<times> byte list)" where
  "varint_loop r scale [] = Inl DataFail"
| "varint_loop r scale (b # bs) =
     (let r = (if scale < 4294967296 then r + unat b mod 128 * scale else r)
      in if unat b < 128 then Inr (r mod 4294967296, bs) else varint_loop r (scale * 128) bs)"

definition read_varint :: "byte list \<Rightarrow> v8_error + (nat \<times> byte list)" where
  "read_varint bs = varint_loop 0 1 bs"

definition double_bytes :: "jnumber \<Rightarrow> byte list" where
  "double_bytes x = le_bytes 8 (number_pattern x)"

definition take_bytes :: "nat \<Rightarrow> byte list \<Rightarrow> v8_error + (byte list \<times> byte list)" where
  "take_bytes n bs = (if length bs < n then Inl DataFail else Inr (take n bs, drop n bs))"

definition read_double :: "byte list \<Rightarrow> v8_error + (jnumber \<times> byte list)" where
  "read_double bs = bindE (take_bytes 8 bs) (\<lambda>(p, bs). Inr (pattern_number (le_val p), bs))"

fun bigint_digits :: "nat \<Rightarrow> nat list" where
  "bigint_digits n = (if 0 < n then n mod 2 ^ 64 # bigint_digits (n div 2 ^ 64) else [])"

declare bigint_digits.simps [simp del]

definition bigint_bytes :: "int \<Rightarrow> byte list" where
  "bigint_bytes v =
     (let ds = bigint_digits (nat \<bar>v\<bar>)
      in varint_bytes (length ds * 8 * 2 + (if v < 0 then 1 else 0)) @ concat (map (le_bytes 8) ds))"

definition read_bigint :: "byte list \<Rightarrow> v8_error + (int \<times> byte list)" where
  "read_bigint bs =
     bindE (read_varint bs) (\<lambda>(bitfield, bs).
       if bitfield div 2 mod 8 \<noteq> 0 then Inl DataFail
       else bindE (take_bytes (bitfield div 2) bs) (\<lambda>(p, bs).
         Inr (if odd bitfield then - int (le_val p) else int (le_val p), bs)))"

definition is_int32 :: "jnumber \<Rightarrow> bool" where
  "is_int32 x = (case x of IntNum n \<Rightarrow> - 2147483648 \<le> n \<and> n \<le> 2147483647 | OtherNum w \<Rightarrow> False)"

definition zigzag :: "int \<Rightarrow> nat" where
  "zigzag n = nat ((push_bit 1 n XOR drop_bit 31 n) mod 4294967296)"

definition unzigzag :: "nat \<Rightarrow> int" where
  "unzigzag z = drop_bit 1 (int z) XOR (- int (z mod 2))"

definition number_bytes :: "jnumber \<Rightarrow> byte list" where
  "number_bytes x =
     (case x of
        IntNum n \<Rightarrow> if is_int32 x then 0x49 # varint_bytes (zigzag n) else 0x4e # double_bytes x
      | OtherNum w \<Rightarrow> 0x4e # double_bytes x)"

subsection \<open>Strings\<close>

text \<open>The two-byte form starts on an even offset: \<open>n\<close> is how much is written already.\<close>

definition string_bytes :: "nat \<Rightarrow> jsstr \<Rightarrow> byte list" where
  "string_bytes n str =
     (if list_all (\<lambda>c. unat c \<le> 255) str
      then 0x22 # varint_bytes (length str) @ map low_byte str
      else let len = varint_bytes (length str * 2)
           in (if odd (n + 1 + length len) then [0x00] else []) @ 0x63 # len @ concat (map (\<lambda>c. [low_byte c, high_byte c]) str))"

fun skip_padding :: "byte list \<Rightarrow> byte list" where
  "skip_padding (b # bs) = (if b = 0 then skip_padding bs else b # bs)"
| "skip_padding [] = []"

definition read_string_body :: "byte \<Rightarrow> byte list \<Rightarrow> v8_error + (jsstr \<times> byte list)" where
  "read_string_body tag bs =
     bindE (read_varint bs) (\<lambda>(n, bs).
       if tag = 0x22 then bindE (take_bytes n bs) (\<lambda>(p, bs). Inr (map (\<lambda>b. word_of_nat (unat b)) p, bs))
       else if tag = 0x63 then
         (if odd n then Inl DataFail else bindE (take_bytes n bs) (\<lambda>(p, bs). Inr (utf16_text p, bs)))
       else if tag = 0x53 then bindE (take_bytes n bs) (\<lambda>(p, bs). Inr (text_of p, bs))
       else Inl DataFail)"

definition read_string :: "byte list \<Rightarrow> v8_error + (jsstr \<times> byte list)" where
  "read_string bs = (case skip_padding bs of [] \<Rightarrow> Inl DataFail | tag # bs \<Rightarrow> read_string_body tag bs)"

subsection \<open>Property keys\<close>

text \<open>The number of a key that is an array index, -1 for another.\<close>

definition decimal_digit :: "jschar \<Rightarrow> bool" where
  "decimal_digit c \<longleftrightarrow> 0x30 \<le> unat c \<and> unat c \<le> 0x39"

definition isIndexKey :: "jsstr \<Rightarrow> int" where
  "isIndexKey key =
     (if length key = 0 \<or> 10 < length key then - 1
      else if \<not> decimal_digit (hd key) \<or> unat (hd key) = 0x30 \<and> 1 < length key then - 1
      else if \<not> list_all decimal_digit (tl key) then - 1
      else let n = of_base 10 key in if n < 4294967295 then int n else - 1)"

subsection \<open>Lemmas on numbers\<close>

lemma log2_floor_bounds: "0 < n \<Longrightarrow> 2 ^ log2_floor n \<le> n \<and> n < 2 * 2 ^ log2_floor n"
proof (induction n rule: log2_floor.induct)
  case (1 n)
  show ?case
  proof (cases "n < 2")
    case True
    with 1 show ?thesis by (simp add: log2_floor.simps [of n])
  next
    case False
    with 1 have "2 ^ log2_floor (n div 2) \<le> n div 2" "n div 2 < 2 * 2 ^ log2_floor (n div 2)" by simp_all
    with False show ?thesis by (subst (1 2) log2_floor.simps) (simp, linarith)
  qed
qed

lemma log2_floor_less: "0 < n \<Longrightarrow> n < 2 ^ Suc k \<Longrightarrow> log2_floor n \<le> k"
  using log2_floor_bounds [of n] by (metis le_less_trans less_Suc_eq_le nat_power_less_imp_less zero_less_numeral)

lemma pattern_int:
  assumes "\<bar>n\<bar> < 2 ^ 53"
  shows "pattern_number (int_pattern n) = IntNum n"
proof (cases "n = 0")
  case True
  then show ?thesis by (simp add: int_pattern_def pattern_number_def)
next
  case False
  define m where "m = nat \<bar>n\<bar>"
  define k where "k = log2_floor m"
  have m: "0 < m" "m < 2 ^ Suc 52" using False assms by (simp_all add: m_def)
  have k: "k \<le> 52" using log2_floor_less [OF m] by (simp add: k_def)
  have lo: "2 ^ k \<le> m" "m < 2 * 2 ^ k" using log2_floor_bounds [OF m(1)] by (simp_all add: k_def)
  define r where "r = m - 2 ^ k"
  have r: "m = 2 ^ k + r" "r < 2 ^ k" using lo by (simp_all add: r_def)
  have p: "2 ^ k * 2 ^ (52 - k) = (2 :: nat) ^ 52" using k by (simp flip: power_add)
  define f where "f = r * 2 ^ (52 - k)"
  have f: "m * 2 ^ (52 - k) - 2 ^ 52 = f" unfolding r(1) f_def add_mult_distrib p by simp
  have f_less: "f < 2 ^ 52" unfolding f_def p [symmetric] using r(2) by simp
  define s :: nat where "s = (if n < 0 then 1 else 0)"
  have v: "int_pattern n = (s * 2048 + (k + 1023)) * 2 ^ 52 + f"
    using False f by (simp add: int_pattern_def m_def [symmetric] k_def [symmetric] s_def Let_def)
  have d: "int_pattern n mod 2 ^ 52 = f" "int_pattern n div 2 ^ 52 = s * 2048 + (k + 1023)"
    unfolding v using f_less by (simp_all only: digits_div)
  have e: "(s * 2048 + (k + 1023)) mod 2048 = k + 1023" using k by simp
  have sh: "1075 - (k + 1023) = 52 - k" by simp
  have "(2 ^ 52 + f) div 2 ^ (52 - k) = m"
    unfolding f_def p [symmetric] r(1) by (simp flip: add_mult_distrib)
  moreover have "f mod 2 ^ (52 - k) = 0" by (simp add: f_def)
  moreover have "int_pattern n < 2 ^ 63 \<longleftrightarrow> \<not> n < 0" using f_less k unfolding v s_def by simp
  moreover have "int_pattern n \<noteq> 0" unfolding v by simp
  moreover have "(if \<not> n < 0 then 1 else - 1) * int m = n" by (simp add: m_def)
  ultimately show ?thesis unfolding pattern_number_def d e using k by (simp add: sh Let_def)
qed

text \<open>The numbers the language has: whole ones in range, and bits that are neither those nor another NaN.\<close>

definition wf_number :: "jnumber \<Rightarrow> bool" where
  "wf_number x = (case x of IntNum n \<Rightarrow> \<bar>n\<bar> < 2 ^ 53 | OtherNum w \<Rightarrow> pattern_number (unat w) = x)"

lemma pattern_of_number: "wf_number x \<Longrightarrow> pattern_number (number_pattern x) = x"
  by (cases x) (simp_all add: wf_number_def number_pattern_def pattern_int)

lemma number_pattern_less: "wf_number x \<Longrightarrow> number_pattern x < 2 ^ 64"
proof (cases x)
  case (IntNum n)
  assume "wf_number x"
  then have n: "\<bar>n\<bar> < 2 ^ 53" using IntNum by (simp add: wf_number_def)
  show ?thesis
  proof (cases "n = 0")
    case False
    define m where "m = nat \<bar>n\<bar>"
    have m: "0 < m" "m < 2 ^ Suc 52" using False n by (simp_all add: m_def)
    have k: "log2_floor m \<le> 52" using log2_floor_less [OF m] by simp
    have "m * 2 ^ (52 - log2_floor m) < 2 * 2 ^ log2_floor m * 2 ^ (52 - log2_floor m)" using log2_floor_bounds [OF m(1)] by simp
    also have "\<dots> = 2 * 2 ^ (log2_floor m + (52 - log2_floor m))" by (simp add: power_add)
    also have "\<dots> = 2 ^ 53" using k by simp
    finally have "m * 2 ^ (52 - log2_floor m) - 2 ^ 52 < 2 ^ 52" by simp
    then show ?thesis using k False by (simp add: IntNum number_pattern_def int_pattern_def m_def [symmetric] Let_def)
  qed (simp add: IntNum number_pattern_def int_pattern_def)
next
  case (OtherNum w)
  have "unat w < 2 ^ LENGTH(64)" by (rule unsigned_less)
  then show ?thesis by (simp add: OtherNum number_pattern_def)
qed

subsection \<open>Reading what was wrote\<close>

lemma varint_loop_bytes:
  "n * scale < 4294967296 \<Longrightarrow> varint_loop r scale (varint_bytes n @ rest) = Inr ((r + n * scale) mod 4294967296, rest)"
proof (induction n arbitrary: r scale rule: varint_bytes.induct)
  case (1 n)
  have small: "scale < 4294967296 \<or> n = 0"
  proof (cases "n = 0")
    case False
    then have "scale \<le> n * scale" by simp
    with 1(2) show ?thesis by linarith
  qed simp
  show ?case
  proof (cases "128 \<le> n")
    case True
    have b: "unat (word_of_nat (n mod 128 + 128) :: byte) = n mod 128 + 128" by (simp add: unat_of_nat del: of_nat_add)
    have n: "n mod 128 * scale + n div 128 * (scale * 128) = n * scale"
      by (metis add_mult_distrib add.commute div_mult_mod_eq mult.assoc mult.commute)
    then have "n div 128 * (scale * 128) < 4294967296" using 1(2) by linarith
    from 1(1) [OF True this] show ?thesis
      using True small b n by (subst varint_bytes.simps) (simp add: Let_def add.assoc del: of_nat_add)
  next
    case False
    then have "unat (word_of_nat n :: byte) = n" by simp
    with False small show ?thesis by (subst varint_bytes.simps) (auto simp: Let_def)
  qed
qed

interpretation varint: framed varint_bytes read_varint "\<lambda>n. n < 4294967296"
  by unfold_locales (simp add: read_varint_def varint_loop_bytes)

lemma take_bytes_append: "length p = n \<Longrightarrow> take_bytes n (p @ rest) = Inr (p, rest)"
  by (simp add: take_bytes_def)

interpretation double: framed double_bytes read_double wf_number
proof
  fix x rest
  assume x: "wf_number x"
  have "(256 :: nat) ^ 8 = 2 ^ 64" by simp
  then have "le_val (le_bytes 8 (number_pattern x)) = number_pattern x"
    unfolding le_val_le_bytes using number_pattern_less [OF x] by (simp only: mod_less)
  then show "read_double (double_bytes x @ rest) = Inr (x, rest)"
    by (simp add: read_double_def double_bytes_def take_bytes_append pattern_of_number [OF x])
qed

lemma le_val_append: "le_val (xs @ ys) = le_val xs + 256 ^ length xs * le_val ys"
  by (induction xs) (simp_all add: algebra_simps)

lemma bigint_digits_value: "le_val (concat (map (le_bytes 8) (bigint_digits n))) = n"
proof (induction n rule: bigint_digits.induct)
  case (1 n)
  have "(256 :: nat) ^ 8 = 2 ^ 64" by simp
  with 1 show ?case by (subst bigint_digits.simps) (simp add: le_val_append le_val_le_bytes)
qed

lemma length_digits: "length (concat (map (le_bytes 8) ds)) = length ds * 8"
  by (induction ds) simp_all

definition wf_bigint :: "int \<Rightarrow> bool" where
  "wf_bigint v \<longleftrightarrow> length (bigint_digits (nat \<bar>v\<bar>)) * 8 * 2 + 1 < 4294967296"

interpretation bigint: framed bigint_bytes read_bigint wf_bigint
proof
  fix v :: int and rest
  assume v: "wf_bigint v"
  define ds where "ds = bigint_digits (nat \<bar>v\<bar>)"
  have n: "length ds * 8 * 2 + (if v < 0 then 1 else 0) < 4294967296" using v by (cases "v < 0") (simp_all add: wf_bigint_def ds_def)
  have d: "(length ds * 8 * 2 + (if v < 0 then 1 else 0)) div 2 = length ds * 8" "odd (length ds * 8 * 2 + (if v < 0 then 1 else 0)) \<longleftrightarrow> v < 0"
    by simp_all
  have val: "le_val (concat (map (le_bytes 8) ds)) = nat \<bar>v\<bar>" by (simp add: ds_def bigint_digits_value)
  show "read_bigint (bigint_bytes v @ rest) = Inr (v, rest)"
    unfolding bigint_bytes_def ds_def [symmetric] Let_def read_bigint_def append_assoc varint.get_put [OF n] bindE_Inr prod.case d
      take_bytes_append [OF length_digits] val by simp
qed

text \<open>A 32-bit number is 31 bits with its sign below.\<close>

lemma drop31:
  assumes "- 2147483648 \<le> n" and "n \<le> 2147483647"
  shows "drop_bit 31 n = (if n < 0 then - 1 else 0 :: int)"
proof (cases "n < 0")
  case True
  have "n div 2147483648 = - 1" using assms True by (intro int_div_pos_eq [of _ _ _ "n + 2147483648"]) simp_all
  with True show ?thesis by (simp add: drop_bit_eq_div)
qed (use assms in \<open>simp add: drop_bit_eq_div\<close>)

lemma zigzag_value:
  assumes "- 2147483648 \<le> n" and "n \<le> 2147483647"
  shows "int (zigzag n) = (if n < 0 then - 2 * n - 1 else 2 * n)"
proof -
  have "push_bit 1 n XOR drop_bit 31 n = (if n < 0 then - 2 * n - 1 else 2 * n)"
    using drop31 [OF assms] by (simp add: not_eq_complement push_bit_eq_mult)
  then show ?thesis using assms by (simp add: zigzag_def)
qed

lemma unzigzag_zigzag:
  assumes "- 2147483648 \<le> n" and "n \<le> 2147483647"
  shows "zigzag n < 4294967296 \<and> unzigzag (zigzag n) = n"
proof
  note z = zigzag_value [OF assms]
  show "zigzag n < 4294967296" using z assms by (auto split: if_splits)
  show "unzigzag (zigzag n) = n"
  proof (cases "n < 0")
    case True
    then have z': "int (zigzag n) = 2 * (- n - 1) + 1" using z by simp
    have "int (zigzag n) div 2 = - n - 1" "int (zigzag n) mod 2 = 1" unfolding z' by (simp_all only: div_mult_self1_is_m mod_mult_self4) presburger+
    then have "int (zigzag n) div 2 = - n - 1" "int (zigzag n mod 2) = 1" by (simp_all add: zmod_int)
    then show ?thesis by (simp add: unzigzag_def drop_bit_eq_div not_eq_complement)
  next
    case False
    then have "int (zigzag n) = 2 * n" using z by simp
    then have "int (zigzag n) div 2 = n" "int (zigzag n mod 2) = 0" by (simp_all add: zmod_int)
    then show ?thesis by (simp add: unzigzag_def drop_bit_eq_div)
  qed
qed

text \<open>Strings, at whatever offset.\<close>

definition wf_string :: "jsstr \<Rightarrow> bool" where
  "wf_string str \<longleftrightarrow> length str * 2 < 4294967296"

lemma word_of_nat_unat_char: "(word_of_nat (unat c) :: jschar) = c"
  by simp

lemma low_bytes: "list_all (\<lambda>c. unat c \<le> 255) str \<Longrightarrow> map (\<lambda>b. word_of_nat (unat b)) (map low_byte str) = str"
proof (induction str)
  case (Cons c str)
  then have "unat c < 256" by simp
  then have "unat (low_byte c) = unat c" by (simp only: low_byte_def unat_byte_of_small)
  then have "(word_of_nat (unat (low_byte c)) :: jschar) = c" by (simp only: word_of_nat_unat_char)
  moreover have "map (\<lambda>b. word_of_nat (unat b)) (map low_byte str) = str" using Cons by simp
  ultimately show ?case by (simp only: list.map)
qed simp

lemma length_units: "length (concat (map (\<lambda>c. [low_byte c, high_byte c]) str)) = length str * 2"
  by (induction str) simp_all

lemma skip_padding_simps [simp]: "t \<noteq> 0 \<Longrightarrow> skip_padding (t # bs) = t # bs" "skip_padding (0 # bs) = skip_padding bs"
  by simp_all

lemma read_string_bytes:
  assumes "wf_string str"
  shows "\<exists>tag body. tag \<in> {0x22, 0x63} \<and> skip_padding (string_bytes n str @ rest) = tag # body \<and> read_string_body tag body = Inr (str, rest)"
proof (cases "list_all (\<lambda>c. unat c \<le> 255) str")
  case True
  have len: "length str < 4294967296" using assms by (simp add: wf_string_def)
  have "read_string_body 0x22 (varint_bytes (length str) @ map low_byte str @ rest) = Inr (str, rest)"
    unfolding read_string_body_def varint.get_put [OF len] bindE_Inr prod.case using low_bytes [OF True]
    by (simp add: take_bytes_append)
  with True show ?thesis by (intro exI [of _ "0x22"]) (simp add: string_bytes_def)
next
  case False
  have len: "length str * 2 < 4294967296" using assms by (simp add: wf_string_def)
  have "read_string_body 0x63 (varint_bytes (length str * 2) @ concat (map (\<lambda>c. [low_byte c, high_byte c]) str) @ rest) = Inr (str, rest)"
    unfolding read_string_body_def varint.get_put [OF len] bindE_Inr prod.case by (simp add: take_bytes_append length_units utf16_units)
  with False show ?thesis by (intro exI [of _ "0x63"]) (simp add: string_bytes_def Let_def)
qed

lemma read_string_written: "wf_string str \<Longrightarrow> read_string (string_bytes n str @ rest) = Inr (str, rest)"
  using read_string_bytes [of str n rest] by (auto simp: read_string_def)

subsection \<open>Index keys\<close>

lemma digit_of_char: "decimal_digit c \<Longrightarrow> digit_val c < 10 \<and> digit_char (digit_val c) = c \<and> (digit_val c = 0 \<longleftrightarrow> unat c = 0x30)"
proof -
  assume c: "decimal_digit c"
  then have v: "digit_val c = unat c - 48" "48 \<le> unat c" "unat c \<le> 57" by (simp_all add: decimal_digit_def digit_val_def Let_def)
  then have "48 + digit_val c = unat c" "digit_val c < 10" by simp_all
  then show ?thesis using v by (simp add: digit_char_def del: of_nat_add)
qed

lemma of_base_pos: "s \<noteq> [] \<Longrightarrow> \<forall>c \<in> set s. decimal_digit c \<Longrightarrow> unat (hd s) \<noteq> 0x30 \<Longrightarrow> 0 < of_base 10 s"
proof (induction s rule: rev_induct)
  case (snoc c s)
  show ?case
  proof (cases "s = []")
    case True
    then show ?thesis using snoc digit_of_char [of c] by (simp add: of_base_def)
  qed (use snoc in simp)
qed simp

lemma index_text:
  "s \<noteq> [] \<Longrightarrow> \<forall>c \<in> set s. decimal_digit c \<Longrightarrow> \<not> (unat (hd s) = 0x30 \<and> 1 < length s) \<Longrightarrow> to_base 10 (of_base 10 s) = s"
proof (induction s rule: rev_induct)
  case (snoc c s)
  then have c: "digit_val c < 10" "digit_char (digit_val c) = c" using digit_of_char [of c] by simp_all
  show ?case
  proof (cases "s = []")
    case True
    then show ?thesis using c by (subst to_base.simps) (simp add: of_base_def)
  next
    case False
    then have "unat (hd s) \<noteq> 0x30" using snoc.prems(3) by simp
    then have "0 < of_base 10 s" "to_base 10 (of_base 10 s) = s" using False snoc of_base_pos [of s] by simp_all
    then show ?thesis using c by (subst to_base.simps) simp
  qed
qed simp

lemma index_key_text:
  assumes "isIndexKey key = int n"
  shows "to_base 10 n = key" and "n < 4294967295"
proof -
  have key: "key \<noteq> []" "decimal_digit (hd key)" "\<not> (unat (hd key) = 0x30 \<and> 1 < length key)" "list_all decimal_digit (tl key)"
    "of_base 10 key = n" "n < 4294967295"
    using assms by (auto simp: isIndexKey_def Let_def split: if_splits)
  then have "\<forall>c \<in> set key. decimal_digit c" by (cases key) (auto simp: list_all_iff)
  then show "to_base 10 n = key" using index_text [of key] key by blast
  show "n < 4294967295" by (rule key(6))
qed

lemma index_key_range: "isIndexKey key = - 1 \<or> (\<exists>n. isIndexKey key = int n)"
  by (auto simp: isIndexKey_def Let_def)

lemma text_index_key:
  assumes "n < 4294967295"
  shows "isIndexKey (to_base 10 n) = int n"
proof -
  have dig: "decimal_digit c" if "c \<in> set (to_base 10 n)" for c
  proof -
    have "digit_val c < 10" using to_base_digits [of 10 n] that by auto
    then show ?thesis by (auto simp: digit_val_def decimal_digit_def Let_def split: if_splits)
  qed
  have "length (to_base 10 n) \<le> Suc 9" using assms by (intro length_to_base) simp_all
  moreover have "\<not> (unat (hd (to_base 10 n)) = 0x30 \<and> 1 < length (to_base 10 n))"
  proof (cases "n < 10")
    case True
    then show ?thesis by (simp add: to_base.simps [of 10 n])
  next
    case False
    then have "digit_val (hd (to_base 10 n)) \<noteq> 0" by (intro hd_to_base) simp_all
    then show ?thesis by (auto simp: digit_val_def)
  qed
  moreover have "hd (to_base 10 n) \<in> set (to_base 10 n)" by simp
  moreover have "list_all decimal_digit (tl (to_base 10 n))" using dig by (auto simp: list_all_iff dest: list.set_sel(2) [rotated])
  ultimately show ?thesis using dig assms by (auto simp: isIndexKey_def of_base_to_base Let_def)
qed

end
