(* ===== verification/V8Write.thy ===== *)
theory V8Write
  imports V8Format
begin

text \<open>
  \<open>Serializer\<close> with the hooks of \<open>DefaultSerializer\<close> (\<open>node-v8.js\<close>), over a heap of objects that may refer to one another in
  any way. Properties are data properties: getters and proxies are not modelled, nor are shared array buffers and the
  transfer of array buffers.
\<close>

unbundle bit_operations_syntax

subsection \<open>Values and objects\<close>

text \<open>
  A value; an object is an address of the heap, which is the list of the objects there are, and \<open>VOpaque\<close> a symbol or a function.
\<close>

datatype jvalue =
    VUndefined | VNull | VBool bool | VNum jnumber | VStr jsstr | VBigInt int | VRef nat
  | VOpaque

type_synonym properties = "(jsstr \<times> jvalue) list"

text \<open>
  The own enumerable properties of an object and an array are in the order of \<open>Object.keys\<close>: array indices ascending, then the
  other strings as they were added. A view of a typed array is known by its place in \<open>DEFAULT_VIEW_TYPES\<close>: \<open>HostView\<close> one
  over memory of its own, \<open>SharedView\<close> one over a buffer of the heap. \<open>OpaqueObject\<close> is any other object, such as a promise.
\<close>

datatype jobject =
    PlainObject properties
  | ArrayObject nat properties
  | DateObject jnumber
  | BooleanObject bool
  | NumberObject jnumber
  | BigIntObject int
  | StringObject jsstr
  | RegExpObject jsstr string
  | MapObject "(jvalue \<times> jvalue) list"
  | SetObject "jvalue list"
  | BufferObject "byte list" "nat option"
  | HostView nat "byte list"
  | SharedView nat nat nat nat
  | ErrorObject "jsstr option" "jsstr option" "jsstr option" "jvalue option"
  | OpaqueObject

type_synonym objects = "jobject list"

definition flag_bit :: "char \<Rightarrow> nat" where
  "flag_bit f =
     (if f = CHR ''g'' then 1 else if f = CHR ''i'' then 2 else if f = CHR ''m'' then 4 else if f = CHR ''y'' then 8
      else if f = CHR ''u'' then 16 else if f = CHR ''s'' then 32 else if f = CHR ''d'' then 128 else if f = CHR ''v'' then 256
      else 0)"

definition ERROR_TAGS :: "(jsstr \<times> byte) list" where
  "ERROR_TAGS = [(js ''EvalError'', 0x45), (js ''RangeError'', 0x52), (js ''ReferenceError'', 0x46), (js ''SyntaxError'', 0x53),
     (js ''TypeError'', 0x54), (js ''URIError'', 0x55)]"

subsection \<open>Serializer\<close>

text \<open>The bytes so far, and the objects that have an id: the id is the place in the list.\<close>

type_synonym wstate = "byte list \<times> nat list"

definition put_bytes :: "byte list \<Rightarrow> wstate \<Rightarrow> wstate" where
  "put_bytes p st = (fst st @ p, snd st)"

definition write_string :: "jsstr \<Rightarrow> wstate \<Rightarrow> wstate" where
  "write_string str st = put_bytes (string_bytes (length (fst st)) str) st"

definition object_id :: "nat list \<Rightarrow> nat \<Rightarrow> nat" where
  "object_id ids a = length (takeWhile (\<lambda>x. x \<noteq> a) ids)"

fun write_list :: "('a \<Rightarrow> wstate \<Rightarrow> v8_error + wstate) \<Rightarrow> 'a list \<Rightarrow> wstate \<Rightarrow> v8_error + wstate" where
  "write_list wr [] st = Inr st"
| "write_list wr (x # xs) st = bindE (wr x st) (write_list wr xs)"

definition write_property :: "(jvalue \<Rightarrow> wstate \<Rightarrow> v8_error + wstate) \<Rightarrow> jsstr \<times> jvalue \<Rightarrow> wstate \<Rightarrow> v8_error + wstate" where
  "write_property wr p st =
     (let (key, v) = p; i = isIndexKey key
      in wr v (if i = - 1 then write_string key st else put_bytes (number_bytes (IntNum i)) st))"

definition writeObjectBody :: "(jvalue \<Rightarrow> wstate \<Rightarrow> v8_error + wstate) \<Rightarrow> properties \<Rightarrow> wstate \<Rightarrow> v8_error + wstate" where
  "writeObjectBody wr ps st =
     bindE (write_list (write_property wr) ps (put_bytes [0x6f] st)) (\<lambda>st. Inr (put_bytes (0x7b # varint_bytes (length ps)) st))"

definition is_index :: "jsstr \<Rightarrow> bool" where
  "is_index key \<longleftrightarrow> isIndexKey key \<noteq> - 1"

definition as_doubles :: "jvalue list \<Rightarrow> bool" where
  "as_doubles items \<longleftrightarrow>
     list_all (\<lambda>v. case v of VNum x \<Rightarrow> True | _ \<Rightarrow> False) items \<and>
     list_ex (\<lambda>v. case v of VNum x \<Rightarrow> \<not> is_int32 x | _ \<Rightarrow> False) items"

definition write_item :: "(jvalue \<Rightarrow> wstate \<Rightarrow> v8_error + wstate) \<Rightarrow> bool \<Rightarrow> jvalue \<Rightarrow> wstate \<Rightarrow> v8_error + wstate" where
  "write_item wr doubles v st =
     (case v of
        VNum x \<Rightarrow> if doubles then Inr (put_bytes (0x4e # double_bytes x) st) else wr v st
      | _ \<Rightarrow> wr v st)"

definition writeArray :: "(jvalue \<Rightarrow> wstate \<Rightarrow> v8_error + wstate) \<Rightarrow> nat \<Rightarrow> properties \<Rightarrow> wstate \<Rightarrow> v8_error + wstate" where
  "writeArray wr len ps st =
     (let indexed = filter (is_index \<circ> fst) ps; named = filter (\<lambda>p. \<not> is_index (fst p)) ps
      in if length indexed = len
         then let items = map (\<lambda>i. case map_of ps (to_base 10 i) of Some v \<Rightarrow> v | None \<Rightarrow> VUndefined) [0..<len]
              in bindE (write_list (write_item wr (as_doubles items)) items (put_bytes (0x41 # varint_bytes len) st)) (\<lambda>st.
                 bindE (write_list (write_property wr) named st) (\<lambda>st.
                   Inr (put_bytes (0x24 # varint_bytes (length named) @ varint_bytes len) st)))
         else bindE (write_list (write_property wr) ps (put_bytes (0x61 # varint_bytes len) st)) (\<lambda>st.
                Inr (put_bytes (0x40 # varint_bytes (length ps) @ varint_bytes len) st)))"

definition writeRegExp :: "jsstr \<Rightarrow> string \<Rightarrow> wstate \<Rightarrow> wstate" where
  "writeRegExp source flags st =
     put_bytes (varint_bytes (foldl (OR) 0 (map flag_bit flags))) (write_string source (put_bytes [0x52] st))"

definition writeArrayBuffer :: "byte list \<Rightarrow> nat option \<Rightarrow> wstate \<Rightarrow> wstate" where
  "writeArrayBuffer bs max_length st =
     put_bytes ((case max_length of
              None \<Rightarrow> 0x42 # varint_bytes (length bs)
            | Some n \<Rightarrow> 0x7e # varint_bytes (length bs) @ varint_bytes n) @ bs) st"

text \<open>\<open>_writeHostObject\<close> of \<open>DefaultSerializer\<close>.\<close>

definition writeHostObject :: "nat \<Rightarrow> byte list \<Rightarrow> wstate \<Rightarrow> wstate" where
  "writeHostObject index bs st = put_bytes (0x5c # varint_bytes index @ varint_bytes (length bs) @ bs) st"

definition writeError ::
    "(jvalue \<Rightarrow> wstate \<Rightarrow> v8_error + wstate) \<Rightarrow> jsstr option \<Rightarrow> jsstr option \<Rightarrow> jsstr option \<Rightarrow> jvalue option \<Rightarrow> wstate \<Rightarrow> v8_error + wstate" where
  "writeError wr name message stack cause st =
     (let st = put_bytes [0x72] st;
          st = (case name of None \<Rightarrow> st | Some n \<Rightarrow> (case map_of ERROR_TAGS n of None \<Rightarrow> st | Some t \<Rightarrow> put_bytes [t] st));
          st = (case message of None \<Rightarrow> st | Some m \<Rightarrow> write_string m (put_bytes [0x6d] st));
          st = (case stack of None \<Rightarrow> st | Some s \<Rightarrow> write_string s (put_bytes [0x73] st))
      in bindE (case cause of None \<Rightarrow> Inr st | Some v \<Rightarrow> wr v (put_bytes [0x63] st)) (\<lambda>st. Inr (put_bytes [0x2e] st)))"

text \<open>What a view shows of the buffer below it.\<close>

definition view_bytes :: "objects \<Rightarrow> nat \<Rightarrow> nat \<Rightarrow> nat \<Rightarrow> byte list" where
  "view_bytes h a offset len = (case h ! a of BufferObject bs mx \<Rightarrow> take len (drop offset bs) | _ \<Rightarrow> [])"

definition write_object :: "(jvalue \<Rightarrow> wstate \<Rightarrow> v8_error + wstate) \<Rightarrow> objects \<Rightarrow> jobject \<Rightarrow> wstate \<Rightarrow> v8_error + wstate" where
  "write_object wr h obj st =
     (case obj of
        PlainObject ps \<Rightarrow> writeObjectBody wr ps st
      | ArrayObject len ps \<Rightarrow> writeArray wr len ps st
      | DateObject x \<Rightarrow> Inr (put_bytes (0x44 # double_bytes x) st)
      | BooleanObject b \<Rightarrow> Inr (put_bytes [if b then 0x79 else 0x78] st)
      | NumberObject x \<Rightarrow> Inr (put_bytes (0x6e # double_bytes x) st)
      | BigIntObject n \<Rightarrow> Inr (put_bytes (0x7a # bigint_bytes n) st)
      | StringObject s \<Rightarrow> Inr (write_string s (put_bytes [0x73] st))
      | RegExpObject source flags \<Rightarrow> Inr (writeRegExp source flags st)
      | MapObject entries \<Rightarrow>
          bindE (write_list (\<lambda>(k, v) st. bindE (wr k st) (wr v)) entries (put_bytes [0x3b] st)) (\<lambda>st.
            Inr (put_bytes (0x3a # varint_bytes (length entries * 2)) st))
      | SetObject items \<Rightarrow>
          bindE (write_list wr items (put_bytes [0x27] st)) (\<lambda>st. Inr (put_bytes (0x2c # varint_bytes (length items)) st))
      | BufferObject bs mx \<Rightarrow> Inr (writeArrayBuffer bs mx st)
      | HostView i bs \<Rightarrow> Inr (writeHostObject i bs st)
      | SharedView i a offset len \<Rightarrow> Inr (writeHostObject i (view_bytes h a offset len) st)
      | ErrorObject name message stack cause \<Rightarrow> writeError wr name message stack cause st
      | OpaqueObject \<Rightarrow> Inl DataCloneError)"

text \<open>\<open>d\<close> is how deep calls may nest before the engine's stack is full.\<close>

fun writeObject :: "nat \<Rightarrow> objects \<Rightarrow> jvalue \<Rightarrow> wstate \<Rightarrow> v8_error + wstate" where
  "writeObject 0 h v st = Inl StackOverflow"
| "writeObject (Suc d) h v st =
     (case v of
        VUndefined \<Rightarrow> Inr (put_bytes [0x5f] st)
      | VNull \<Rightarrow> Inr (put_bytes [0x30] st)
      | VBool b \<Rightarrow> Inr (put_bytes [if b then 0x54 else 0x46] st)
      | VNum x \<Rightarrow> Inr (put_bytes (number_bytes x) st)
      | VStr s \<Rightarrow> Inr (write_string s st)
      | VBigInt n \<Rightarrow> Inr (put_bytes (0x5a # bigint_bytes n) st)
      | VOpaque \<Rightarrow> Inl DataCloneError
      | VRef a \<Rightarrow>
          if a \<in> set (snd st) then Inr (put_bytes (0x5e # varint_bytes (object_id (snd st) a)) st)
          else write_object (writeObject d h) h (h ! a) (fst st, snd st @ [a]))"

definition v8_serialize :: "nat \<Rightarrow> objects \<Rightarrow> jvalue \<Rightarrow> v8_error + byte list" where
  "v8_serialize d h v = bindE (writeObject d h v (put_bytes (0xff # varint_bytes 15) ([], []))) (\<lambda>st. Inr (fst st))"

end
