(* ===== verification/V8Read.thy ===== *)
theory V8Read
  imports V8Write
begin

text \<open>
  \<open>Deserializer\<close> with the hook of \<open>DefaultDeserializer\<close> (\<open>node-v8.js\<close>): every record it reads, also those that \<open>Serializer\<close>
  writes in other settings only. The objects it makes form a heap of their own, in the order of their ids.
\<close>

unbundle bit_operations_syntax

text \<open>
  What the engine decides: whether a pattern and flags are a regular expression, the source text it keeps of the pattern,
  the text of a number that is not a whole number, and whether there is a \<open>Float16Array\<close>.
\<close>

record v8_engine =
  regexp_valid :: "jsstr \<Rightarrow> string \<Rightarrow> bool"
  regexp_source :: "jsstr \<Rightarrow> jsstr"
  number_text :: "jnumber \<Rightarrow> jsstr"
  has_float16 :: bool

subsection \<open>Properties and collections\<close>

text \<open>The order of own keys: indices ascending, then strings as they came.\<close>

definition key_before :: "jsstr \<Rightarrow> jsstr \<Rightarrow> bool" where
  "key_before k l \<longleftrightarrow> is_index k \<and> (is_index l \<longrightarrow> isIndexKey k < isIndexKey l)"

fun put_property :: "jsstr \<Rightarrow> jvalue \<Rightarrow> properties \<Rightarrow> properties" where
  "put_property k v [] = [(k, v)]"
| "put_property k v ((l, w) # ps) =
     (if l = k then (k, v) # ps else if key_before k l then (k, v) # (l, w) # ps else (l, w) # put_property k v ps)"

text \<open>An array grows with its indices, and its own \<open>length\<close> cannot be redefined as enumerable.\<close>

definition define_property :: "jsstr \<Rightarrow> jvalue \<Rightarrow> jobject \<Rightarrow> v8_error + jobject" where
  "define_property k v obj =
     (case obj of
        PlainObject ps \<Rightarrow> Inr (PlainObject (put_property k v ps))
      | ArrayObject len ps \<Rightarrow>
          if k = js ''length'' then Inl EngineTypeError
          else Inr (ArrayObject (if is_index k then max len (nat (isIndexKey k) + 1) else len) (put_property k v ps))
      | _ \<Rightarrow> Inr obj)"

text \<open>Keys of a \<open>Map\<close> and items of a \<open>Set\<close> are compared by value, and -0 is stored as 0.\<close>

definition same_zero :: "jvalue \<Rightarrow> jvalue" where
  "same_zero v = (if v = VNum (OtherNum 0x8000000000000000) then VNum (IntNum 0) else v)"

fun map_put :: "jvalue \<Rightarrow> jvalue \<Rightarrow> (jvalue \<times> jvalue) list \<Rightarrow> (jvalue \<times> jvalue) list" where
  "map_put k v [] = [(k, v)]"
| "map_put k v ((l, w) # es) = (if l = k then (l, v) # es else (l, w) # map_put k v es)"

definition map_set :: "jvalue \<Rightarrow> jvalue \<Rightarrow> jobject \<Rightarrow> jobject" where
  "map_set k v obj = (case obj of MapObject es \<Rightarrow> MapObject (map_put (same_zero k) v es) | _ \<Rightarrow> obj)"

definition set_add :: "jvalue \<Rightarrow> jobject \<Rightarrow> jobject" where
  "set_add v obj =
     (case obj of SetObject xs \<Rightarrow> SetObject (if same_zero v \<in> set xs then xs else xs @ [same_zero v]) | _ \<Rightarrow> obj)"

subsection \<open>Deserializer\<close>

text \<open>
  The bytes to read, and the objects remembered: the id of one is its place, and its address in the heap that is made. A loop
  that runs to an end tag takes a bound on its rounds; every round reads a byte, so the number of bytes is enough.
\<close>

type_synonym rstate = "byte list \<times> objects"
type_synonym reader = "rstate \<Rightarrow> v8_error + (jvalue \<times> rstate)"

definition lift :: "(byte list \<Rightarrow> v8_error + ('a \<times> byte list)) \<Rightarrow> rstate \<Rightarrow> v8_error + ('a \<times> rstate)" where
  "lift rd st = bindE (rd (fst st)) (\<lambda>(x, bs). Inr (x, (bs, snd st)))"

definition remember :: "jobject \<Rightarrow> rstate \<Rightarrow> jvalue \<times> rstate" where
  "remember obj st = (VRef (length (snd st)), (fst st, snd st @ [obj]))"

definition peek_is :: "byte \<Rightarrow> rstate \<Rightarrow> bool" where
  "peek_is t st \<longleftrightarrow> fst st \<noteq> [] \<and> hd (fst st) = t"

definition advance :: "rstate \<Rightarrow> rstate" where
  "advance st = (tl (fst st), snd st)"

definition read_byte :: "byte list \<Rightarrow> v8_error + (byte \<times> byte list)" where
  "read_byte bs = (case bs of [] \<Rightarrow> Inl DataFail | b # bs \<Rightarrow> Inr (b, bs))"

text \<open>A property key: a string as it is, a number as its text.\<close>

definition read_key :: "v8_engine \<Rightarrow> jvalue \<Rightarrow> jsstr option" where
  "read_key env v =
     (case v of
        VStr s \<Rightarrow> Some s
      | VNum x \<Rightarrow> Some (case x of IntNum n \<Rightarrow> if 0 \<le> n then to_base 10 (nat n) else 0x2D # to_base 10 (nat (- n)) | OtherNum w \<Rightarrow> number_text env x)
      | _ \<Rightarrow> None)"

fun readProperties :: "v8_engine \<Rightarrow> reader \<Rightarrow> nat \<Rightarrow> byte \<Rightarrow> nat \<Rightarrow> rstate \<Rightarrow> v8_error + (nat \<times> rstate)" where
  "readProperties env rd a endTag 0 st = Inl StackOverflow"
| "readProperties env rd a endTag (Suc n) st =
     (if peek_is endTag st then Inr (0, advance st)
      else bindE (rd st) (\<lambda>(k, st).
        case read_key env k of
          None \<Rightarrow> Inl DataFail
        | Some key \<Rightarrow>
            bindE (rd st) (\<lambda>(v, st).
            bindE (define_property key v (snd st ! a)) (\<lambda>obj.
            bindE (readProperties env rd a endTag n (fst st, (snd st)[a := obj])) (\<lambda>(c, st). Inr (Suc c, st))))))"

fun readItems :: "reader \<Rightarrow> nat \<Rightarrow> nat \<Rightarrow> nat \<Rightarrow> rstate \<Rightarrow> v8_error + rstate" where
  "readItems rd a i 0 st = Inr st"
| "readItems rd a i (Suc n) st =
     (if peek_is 0x2d st then readItems rd a (Suc i) n (advance st)
      else bindE (rd st) (\<lambda>(v, st).
           bindE (define_property (to_base 10 i) v (snd st ! a)) (\<lambda>obj.
             readItems rd a (Suc i) n (fst st, (snd st)[a := obj]))))"

definition readDense :: "v8_engine \<Rightarrow> reader \<Rightarrow> rstate \<Rightarrow> v8_error + (jvalue \<times> rstate)" where
  "readDense env rd st =
     bindE (lift read_varint st) (\<lambda>(len, st).
       if length (fst st) < len then Inl DataFail
       else let (out, st) = remember (ArrayObject len []) st; a = length (snd st) - 1
            in bindE (readItems rd a 0 len st) (\<lambda>st.
               bindE (readProperties env rd a 0x24 (Suc (length (fst st))) st) (\<lambda>(c, st).
               bindE (lift read_varint st) (\<lambda>(n, st).
                 if n \<noteq> c then Inl DataFail
                 else bindE (lift read_varint st) (\<lambda>(n, st). if n \<noteq> len then Inl DataFail else Inr (out, st))))))"

fun readMap :: "reader \<Rightarrow> nat \<Rightarrow> nat \<Rightarrow> rstate \<Rightarrow> v8_error + (nat \<times> rstate)" where
  "readMap rd a 0 st = Inl StackOverflow"
| "readMap rd a (Suc n) st =
     (if peek_is 0x3a st then Inr (0, advance st)
      else bindE (rd st) (\<lambda>(k, st).
           bindE (rd st) (\<lambda>(v, st).
           bindE (readMap rd a n (fst st, (snd st)[a := map_set k v (snd st ! a)])) (\<lambda>(c, st). Inr (c + 2, st)))))"

fun readSet :: "reader \<Rightarrow> nat \<Rightarrow> nat \<Rightarrow> rstate \<Rightarrow> v8_error + (nat \<times> rstate)" where
  "readSet rd a 0 st = Inl StackOverflow"
| "readSet rd a (Suc n) st =
     (if peek_is 0x2c st then Inr (0, advance st)
      else bindE (rd st) (\<lambda>(v, st).
           bindE (readSet rd a n (fst st, (snd st)[a := set_add v (snd st ! a)])) (\<lambda>(c, st). Inr (Suc c, st))))"

definition read_flags :: "nat \<Rightarrow> string" where
  "read_flags bits = filter (\<lambda>f. bits AND flag_bit f \<noteq> 0) ''gimyusdv''"

text \<open>The flags of the object made are sorted, and its source is the pattern with slashes and line ends escaped.\<close>

definition new_RegExp :: "v8_engine \<Rightarrow> jsstr \<Rightarrow> string \<Rightarrow> v8_error + jobject" where
  "new_RegExp env source flags =
     (if regexp_valid env source flags then Inr (RegExpObject (regexp_source env source) (filter (\<lambda>f. f \<in> set flags) ''dgimsuvy'')) else Inl EngineSyntaxError)"

text \<open>The time of a \<open>Date\<close>: a whole number of milliseconds in the range there is, or NaN.\<close>

definition time_clip :: "jnumber \<Rightarrow> jnumber" where
  "time_clip x =
     (let whole = (case x of
            IntNum n \<Rightarrow> Some n
          | OtherNum w \<Rightarrow>
              let v = unat w; e = v div 2 ^ 52 mod 2048
              in if e < 1023 then Some 0
                 else if 1075 < e then None
                 else Some ((if v < 2 ^ 63 then 1 else - 1) * int ((2 ^ 52 + v mod 2 ^ 52) div 2 ^ (1075 - e))))
      in case whole of
           None \<Rightarrow> OtherNum NaN_bits
         | Some n \<Rightarrow> if \<bar>n\<bar> \<le> 8640000000000000 then IntNum n else OtherNum NaN_bits)"

definition readBuffer :: "byte \<Rightarrow> byte list \<Rightarrow> v8_error + (jobject \<times> byte list)" where
  "readBuffer tag bs =
     (if tag = 0x42 then
        bindE (read_varint bs) (\<lambda>(n, bs). bindE (take_bytes n bs) (\<lambda>(p, bs). Inr (BufferObject p None, bs)))
      else if tag = 0x7e then
        bindE (read_varint bs) (\<lambda>(n, bs). bindE (read_varint bs) (\<lambda>(mx, bs).
          if mx < n then Inl DataFail else bindE (take_bytes n bs) (\<lambda>(p, bs). Inr (BufferObject p (Some mx), bs))))
      else Inl DataFail)"

definition VIEW_SIZES :: "nat list" where
  "VIEW_SIZES = [1, 1, 1, 2, 2, 4, 4, 4, 8, 1, 1, 8, 8, 2]"

definition view_exists :: "v8_engine \<Rightarrow> nat \<Rightarrow> bool" where
  "view_exists env i \<longleftrightarrow> i < 13 \<or> i = 13 \<and> has_float16 env"

text \<open>\<open>_readHostObject\<close> of \<open>DefaultDeserializer\<close>; a rest that is no element is not seen. The view made has the bytes as
  they are then: that it may lie over the bytes that are read is left out.\<close>

definition readHostObject :: "v8_engine \<Rightarrow> byte list \<Rightarrow> v8_error + (jobject \<times> byte list)" where
  "readHostObject env bs =
     bindE (read_varint bs) (\<lambda>(i, bs). bindE (read_varint bs) (\<lambda>(n, bs). bindE (take_bytes n bs) (\<lambda>(p, bs).
       if view_exists env i then Inr (HostView i (take (n - n mod (VIEW_SIZES ! i)) p), bs) else Inl EngineTypeError)))"

text \<open>The view tags, by the place of the type in \<open>DEFAULT_VIEW_TYPES\<close>.\<close>

definition VIEW_TAGS :: "(byte \<times> nat) list" where
  "VIEW_TAGS = [(0x62, 0), (0x42, 1), (0x43, 2), (0x77, 3), (0x57, 4), (0x64, 5), (0x44, 6), (0x66, 7), (0x46, 8), (0x3f, 9),
     (0x71, 11), (0x51, 12), (0x68, 13)]"

definition readView :: "v8_engine \<Rightarrow> nat \<Rightarrow> nat \<Rightarrow> rstate \<Rightarrow> v8_error + (jvalue \<times> rstate)" where
  "readView env version a st =
     bindE (lift read_byte (advance st)) (\<lambda>(kind, st).
     bindE (lift read_varint st) (\<lambda>(offset, st).
     bindE (lift read_varint st) (\<lambda>(len, st).
     bindE (if 14 \<le> version then lift read_varint st else Inr (0, st)) (\<lambda>(flags, st).
       case (snd st ! a, map_of VIEW_TAGS kind) of
         (BufferObject bs mx, Some i) \<Rightarrow>
           let k = VIEW_SIZES ! i
           in if \<not> view_exists env i \<or> length bs < offset + len \<or> offset mod k \<noteq> 0 \<or> len mod k \<noteq> 0 then Inl DataFail
              else if odd flags then
                (if mx = None \<and> (length bs - offset) mod k \<noteq> 0 then Inl DataFail
                 else Inr (remember (SharedView i a offset ((length bs - offset) div k * k)) st))
              else Inr (remember (SharedView i a offset len) st)
       | _ \<Rightarrow> Inl DataFail))))"

text \<open>The parts of an error up to its end or its cause: the class, the message, the stack, and whether a cause follows.\<close>

fun error_parts ::
    "nat \<Rightarrow> jsstr \<Rightarrow> jsstr option \<Rightarrow> jsstr option \<Rightarrow> byte list \<Rightarrow> v8_error + (jsstr \<times> jsstr option \<times> jsstr option \<times> bool \<times> byte list)" where
  "error_parts 0 ctor message stack bs = Inl StackOverflow"
| "error_parts (Suc n) ctor message stack bs =
     bindE (read_byte bs) (\<lambda>(t, bs).
       case find (\<lambda>(name, tag). tag = t) ERROR_TAGS of
         Some (name, tag) \<Rightarrow> error_parts n name message stack bs
       | None \<Rightarrow>
           if t = 0x6d then bindE (read_string bs) (\<lambda>(m, bs). error_parts n ctor (Some m) stack bs)
           else if t = 0x73 then bindE (read_string bs) (\<lambda>(s, bs). error_parts n ctor message (Some s) bs)
           else if t = 0x63 then Inr (ctor, message, stack, True, bs)
           else if t = 0x2e then Inr (ctor, message, stack, False, bs)
           else Inl DataFail)"

fun after_cause :: "nat \<Rightarrow> jsstr option \<Rightarrow> byte list \<Rightarrow> v8_error + (jsstr option \<times> byte list)" where
  "after_cause 0 stack bs = Inl StackOverflow"
| "after_cause (Suc n) stack bs =
     bindE (read_byte bs) (\<lambda>(t, bs).
       if t = 0x73 then bindE (read_string bs) (\<lambda>(s, bs). after_cause n (Some s) bs)
       else if t = 0x2e then Inr (stack, bs)
       else Inl DataFail)"

definition readError :: "reader \<Rightarrow> rstate \<Rightarrow> v8_error + (jvalue \<times> rstate)" where
  "readError rd st =
     bindE (error_parts (Suc (length (fst st))) (js ''Error'') None None (fst st)) (\<lambda>(ctor, message, stack, hasCause, bs).
       let (out, st) = remember (ErrorObject (Some ctor) message stack None) (bs, snd st); a = length (snd st) - 1
       in if hasCause
          then bindE (rd st) (\<lambda>(cause, st).
               bindE (lift (after_cause (Suc (length (fst st))) stack) st) (\<lambda>(stack, st).
                 Inr (out, (fst st, (snd st)[a := ErrorObject (Some ctor) message stack (Some cause)]))))
          else Inr (out, st))"

text \<open>\<open>readValueRecord\<close> behind its tag.\<close>

definition read_record :: "v8_engine \<Rightarrow> reader \<Rightarrow> byte \<Rightarrow> rstate \<Rightarrow> v8_error + (jvalue \<times> rstate)" where
  "read_record env rd tag st =
     (if tag = 0x3f then bindE (lift read_varint st) (\<lambda>(n, st). rd st)
      else if tag = 0x5f then Inr (VUndefined, st)
      else if tag = 0x30 then Inr (VNull, st)
      else if tag = 0x54 then Inr (VBool True, st)
      else if tag = 0x46 then Inr (VBool False, st)
      else if tag = 0x49 then bindE (lift read_varint st) (\<lambda>(z, st). Inr (VNum (IntNum (unzigzag z)), st))
      else if tag = 0x55 then bindE (lift read_varint st) (\<lambda>(n, st). Inr (VNum (IntNum (int n)), st))
      else if tag = 0x4e then bindE (lift read_double st) (\<lambda>(x, st). Inr (VNum x, st))
      else if tag = 0x5a then bindE (lift read_bigint st) (\<lambda>(n, st). Inr (VBigInt n, st))
      else if tag \<in> {0x22, 0x63, 0x53} then bindE (lift (read_string_body tag) st) (\<lambda>(s, st). Inr (VStr s, st))
      else if tag = 0x5e then bindE (lift read_varint st) (\<lambda>(i, st). if length (snd st) \<le> i then Inl DataFail else Inr (VRef i, st))
      else if tag = 0x6f then
        (let (out, st) = remember (PlainObject []) st; a = length (snd st) - 1
         in bindE (readProperties env rd a 0x7b (Suc (length (fst st))) st) (\<lambda>(c, st).
            bindE (lift read_varint st) (\<lambda>(n, st). if n \<noteq> c then Inl DataFail else Inr (out, st))))
      else if tag = 0x41 then readDense env rd st
      else if tag = 0x61 then
        bindE (lift read_varint st) (\<lambda>(len, st).
          let (out, st) = remember (ArrayObject len []) st; a = length (snd st) - 1
          in bindE (readProperties env rd a 0x40 (Suc (length (fst st))) st) (\<lambda>(c, st).
             bindE (lift read_varint st) (\<lambda>(n, st).
               if n \<noteq> c then Inl DataFail
               else bindE (lift read_varint st) (\<lambda>(n, st). if n \<noteq> len then Inl DataFail else Inr (out, st)))))
      else if tag = 0x44 then bindE (lift read_double st) (\<lambda>(x, st). Inr (remember (DateObject (time_clip x)) st))
      else if tag = 0x79 then Inr (remember (BooleanObject True) st)
      else if tag = 0x78 then Inr (remember (BooleanObject False) st)
      else if tag = 0x6e then bindE (lift read_double st) (\<lambda>(x, st). Inr (remember (NumberObject x) st))
      else if tag = 0x7a then bindE (lift read_bigint st) (\<lambda>(n, st). Inr (remember (BigIntObject n) st))
      else if tag = 0x73 then bindE (lift read_string st) (\<lambda>(s, st). Inr (remember (StringObject s) st))
      else if tag = 0x52 then
        bindE (lift read_string st) (\<lambda>(s, st). bindE (lift read_varint st) (\<lambda>(bits, st).
        bindE (new_RegExp env s (read_flags bits)) (\<lambda>obj. Inr (remember obj st))))
      else if tag = 0x3b then
        (let (out, st) = remember (MapObject []) st; a = length (snd st) - 1
         in bindE (readMap rd a (Suc (length (fst st))) st) (\<lambda>(c, st).
            bindE (lift read_varint st) (\<lambda>(n, st). if n \<noteq> c then Inl DataFail else Inr (out, st))))
      else if tag = 0x27 then
        (let (out, st) = remember (SetObject []) st; a = length (snd st) - 1
         in bindE (readSet rd a (Suc (length (fst st))) st) (\<lambda>(c, st).
            bindE (lift read_varint st) (\<lambda>(n, st). if n \<noteq> c then Inl DataFail else Inr (out, st))))
      else if tag \<in> {0x42, 0x7e, 0x74, 0x75} then bindE (lift (readBuffer tag) st) (\<lambda>(obj, st). Inr (remember obj st))
      else if tag = 0x72 then readError rd st
      else if tag = 0x5c then bindE (lift (readHostObject env) st) (\<lambda>(obj, st). Inr (remember obj st))
      else Inl DataFail)"

definition is_buffer :: "jobject \<Rightarrow> bool" where
  "is_buffer obj = (case obj of BufferObject bs mx \<Rightarrow> True | _ \<Rightarrow> False)"

fun readObject :: "v8_engine \<Rightarrow> nat \<Rightarrow> nat \<Rightarrow> rstate \<Rightarrow> v8_error + (jvalue \<times> rstate)" where
  "readObject env version 0 st = Inl StackOverflow"
| "readObject env version (Suc d) st =
     bindE (lift read_byte (skip_padding (fst st), snd st)) (\<lambda>(tag, st).
     bindE (read_record env (readObject env version d) tag st) (\<lambda>(v, st).
       case v of
         VRef a \<Rightarrow> if peek_is 0x56 st \<and> is_buffer (snd st ! a) then readView env version a st else Inr (v, st)
       | _ \<Rightarrow> Inr (v, st)))"

definition readHeader :: "byte list \<Rightarrow> v8_error + (nat \<times> byte list)" where
  "readHeader bs =
     (case bs of
        [] \<Rightarrow> Inl VersionFail
      | b # bs \<Rightarrow>
          if b \<noteq> 0xff then Inl VersionFail
          else bindE (read_varint bs) (\<lambda>(version, bs). if 15 < version then Inl VersionFail else Inr (version, bs)))"

definition v8_deserialize :: "v8_engine \<Rightarrow> nat \<Rightarrow> byte list \<Rightarrow> v8_error + (jvalue \<times> objects)" where
  "v8_deserialize env d bs =
     bindE (readHeader bs) (\<lambda>(version, bs). bindE (readObject env version d (bs, [])) (\<lambda>(v, st). Inr (v, snd st)))"

end
