(* ===== verification/V8Copy.thy ===== *)
theory V8Copy
  imports V8Read
begin

text \<open>
  The copy of a heap of objects, and what reading makes of the values, properties and collections that were written: lemmas
  for a writer of values and a reader that copies what it writes.
\<close>

subsection \<open>The copy of a heap\<close>

text \<open>
  What a value and an object become, when the objects written are the ones of \<open>ids\<close>: the same but for the addresses, which
  are places in \<open>ids\<close>. A view gets memory of its own, an error the class of its name.
\<close>

definition clone_value :: "nat list \<Rightarrow> jvalue \<Rightarrow> jvalue" where
  "clone_value ids v = (case v of VRef a \<Rightarrow> VRef (object_id ids a) | _ \<Rightarrow> v)"

definition clone_properties :: "nat list \<Rightarrow> properties \<Rightarrow> properties" where
  "clone_properties ids ps = map (\<lambda>(k, v). (k, clone_value ids v)) ps"

definition error_class :: "jsstr option \<Rightarrow> jsstr" where
  "error_class name = (case name of Some n \<Rightarrow> (if n \<in> fst ` set ERROR_TAGS then n else js ''Error'') | None \<Rightarrow> js ''Error'')"

definition clone_object :: "objects \<Rightarrow> nat list \<Rightarrow> jobject \<Rightarrow> jobject" where
  "clone_object h ids obj =
     (case obj of
        PlainObject ps \<Rightarrow> PlainObject (clone_properties ids ps)
      | ArrayObject len ps \<Rightarrow> ArrayObject len (clone_properties ids ps)
      | MapObject es \<Rightarrow> MapObject (map (\<lambda>(k, v). (clone_value ids k, clone_value ids v)) es)
      | SetObject xs \<Rightarrow> SetObject (map (clone_value ids) xs)
      | SharedView i a offset len \<Rightarrow> HostView i (view_bytes h a offset len)
      | ErrorObject name message stack cause \<Rightarrow>
          ErrorObject (Some (error_class name)) message stack (map_option (clone_value ids) cause)
      | _ \<Rightarrow> obj)"

definition clones :: "objects \<Rightarrow> nat list \<Rightarrow> nat list \<Rightarrow> objects" where
  "clones h ids xs = map (\<lambda>a. clone_object h ids (h ! a)) xs"

definition value_refs :: "jvalue \<Rightarrow> nat set" where
  "value_refs v = (case v of VRef a \<Rightarrow> {a} | _ \<Rightarrow> {})"

definition object_refs :: "jobject \<Rightarrow> nat set" where
  "object_refs obj =
     (case obj of
        PlainObject ps \<Rightarrow> (\<Union>p \<in> set ps. value_refs (snd p))
      | ArrayObject len ps \<Rightarrow> (\<Union>p \<in> set ps. value_refs (snd p))
      | MapObject es \<Rightarrow> (\<Union>p \<in> set es. value_refs (fst p) \<union> value_refs (snd p))
      | SetObject xs \<Rightarrow> (\<Union>v \<in> set xs. value_refs v)
      | ErrorObject name message stack cause \<Rightarrow> (case cause of Some v \<Rightarrow> value_refs v | None \<Rightarrow> {})
      | _ \<Rightarrow> {})"

subsection \<open>Well-formed heaps\<close>

text \<open>The values and objects the language has, with lengths that fit the format.\<close>

definition wf_value :: "objects \<Rightarrow> jvalue \<Rightarrow> bool" where
  "wf_value h v =
     (case v of VNum x \<Rightarrow> wf_number x | VStr s \<Rightarrow> wf_string s | VBigInt n \<Rightarrow> wf_bigint n | VRef a \<Rightarrow> a < length h | _ \<Rightarrow> True)"

definition wf_keys :: "jsstr list \<Rightarrow> bool" where
  "wf_keys ks \<longleftrightarrow> distinct ks \<and> sorted_wrt (\<lambda>k l. \<not> key_before l k) ks \<and> list_all wf_string ks \<and> length ks < 4294967296"

definition wf_view :: "v8_engine \<Rightarrow> nat \<Rightarrow> byte list \<Rightarrow> bool" where
  "wf_view env i bs \<longleftrightarrow> view_exists env i \<and> VIEW_SIZES ! i dvd length bs \<and> length bs < 4294967296"

definition wf_object :: "v8_engine \<Rightarrow> objects \<Rightarrow> jobject \<Rightarrow> bool" where
  "wf_object env h obj =
     (case obj of
        PlainObject ps \<Rightarrow> wf_keys (map fst ps) \<and> list_all (wf_value h \<circ> snd) ps
      | ArrayObject len ps \<Rightarrow>
          wf_keys (map fst ps) \<and> list_all (wf_value h \<circ> snd) ps \<and> len < 4294967296 \<and>
          list_all (\<lambda>k. k \<noteq> js ''length'' \<and> (is_index k \<longrightarrow> isIndexKey k < int len)) (map fst ps)
      | DateObject x \<Rightarrow> wf_number x \<and> time_clip x = x
      | NumberObject x \<Rightarrow> wf_number x
      | BigIntObject n \<Rightarrow> wf_bigint n
      | StringObject s \<Rightarrow> wf_string s
      | RegExpObject source flags \<Rightarrow>
          wf_string source \<and> regexp_source env source = source \<and> regexp_valid env source (read_flags (foldl (OR) 0 (map flag_bit flags))) \<and>
          flags = filter (\<lambda>f. f \<in> set flags) ''dgimsuvy''
      | MapObject es \<Rightarrow>
          distinct (map fst es) \<and> list_all (\<lambda>(k, v). wf_value h k \<and> same_zero k = k \<and> wf_value h v) es \<and> length es * 2 < 4294967296
      | SetObject xs \<Rightarrow> distinct xs \<and> list_all (\<lambda>v. wf_value h v \<and> same_zero v = v) xs \<and> length xs < 4294967296
      | BufferObject bs mx \<Rightarrow> length bs < 4294967296 \<and> (case mx of None \<Rightarrow> True | Some n \<Rightarrow> length bs \<le> n \<and> n < 4294967296)
      | HostView i bs \<Rightarrow> wf_view env i bs
      | SharedView i a offset len \<Rightarrow> wf_view env i (view_bytes h a offset len)
      | ErrorObject name message stack cause \<Rightarrow>
          pred_option wf_string message \<and> pred_option wf_string stack \<and> pred_option (wf_value h) cause
      | _ \<Rightarrow> True)"

definition wf_heap :: "v8_engine \<Rightarrow> objects \<Rightarrow> bool" where
  "wf_heap env h \<longleftrightarrow> list_all (wf_object env h) h \<and> length h < 4294967296"

subsection \<open>Addresses and ids\<close>

definition ok_ids :: "objects \<Rightarrow> nat list \<Rightarrow> bool" where
  "ok_ids h ids \<longleftrightarrow> distinct ids \<and> set ids \<subseteq> {..<length h}"

lemma object_id_less: "a \<in> set ids \<Longrightarrow> object_id ids a < length ids"
  by (induction ids) (auto simp: object_id_def)

lemma nth_object_id: "a \<in> set ids \<Longrightarrow> ids ! object_id ids a = a"
  using object_id_less [of a ids] nth_length_takeWhile [of "\<lambda>x. x \<noteq> a" ids] unfolding object_id_def by simp

lemma object_id_inj: "object_id ids a = object_id ids b \<Longrightarrow> a \<in> set ids \<Longrightarrow> b \<in> set ids \<Longrightarrow> a = b"
  by (metis nth_object_id)

lemma object_id_append: "a \<in> set ids \<Longrightarrow> object_id (ids @ further) a = object_id ids a"
  by (auto simp: object_id_def takeWhile_append)

lemma object_id_new: "a \<notin> set ids \<Longrightarrow> object_id (ids @ a # further) a = length ids"
  by (induction ids) (simp_all add: object_id_def)

lemma clone_value_append: "value_refs v \<subseteq> set ids \<Longrightarrow> clone_value (ids @ further) v = clone_value ids v"
  by (cases v) (simp_all add: clone_value_def value_refs_def object_id_append)

lemma clone_value_inj:
  "value_refs v \<subseteq> set ids \<Longrightarrow> value_refs w \<subseteq> set ids \<Longrightarrow> clone_value ids v = clone_value ids w \<Longrightarrow> v = w"
  by (cases v; cases w) (auto simp: clone_value_def value_refs_def dest: object_id_inj)

lemma clone_properties_append:
  "(\<Union>p \<in> set ps. value_refs (snd p)) \<subseteq> set ids \<Longrightarrow> clone_properties (ids @ further) ps = clone_properties ids ps"
  by (induction ps) (auto simp: clone_properties_def clone_value_append)

lemma clone_object_append:
  assumes "object_refs obj \<subseteq> set ids"
  shows "clone_object h (ids @ further) obj = clone_object h ids obj"
proof (cases obj)
  case (MapObject es)
  then have "value_refs (fst p) \<subseteq> set ids" "value_refs (snd p) \<subseteq> set ids" if "p \<in> set es" for p
    using assms that by (auto simp: object_refs_def)
  then show ?thesis by (auto simp: MapObject clone_object_def clone_value_append)
next
  case (SetObject xs)
  then have "value_refs v \<subseteq> set ids" if "v \<in> set xs" for v using assms that by (auto simp: object_refs_def)
  then show ?thesis by (auto simp: SetObject clone_object_def clone_value_append)
next
  case (ErrorObject name message stack cause)
  then show ?thesis using assms by (cases cause) (simp_all add: clone_object_def object_refs_def clone_value_append)
qed (use assms in \<open>auto simp: clone_object_def object_refs_def clone_properties_append\<close>)

lemma clones_append:
  "\<forall>a \<in> set xs. object_refs (h ! a) \<subseteq> set ids \<Longrightarrow> clones h (ids @ further) xs = clones h ids xs"
  by (simp add: clones_def clone_object_append)

lemma clones_simps: "clones h ids [] = []" "clones h ids (xs @ ys) = clones h ids xs @ clones h ids ys" "length (clones h ids xs) = length xs"
  by (simp_all add: clones_def)

subsection \<open>Steps of the writer\<close>

text \<open>A step that writes the bytes \<open>w\<close> and gives ids to the objects \<open>new\<close>, whose references all have ids after it.\<close>

definition wrote :: "objects \<Rightarrow> wstate \<Rightarrow> wstate \<Rightarrow> byte list \<Rightarrow> nat list \<Rightarrow> bool" where
  "wrote h st st' w new \<longleftrightarrow>
     st' = (fst st @ w, snd st @ new) \<and> ok_ids h (snd st') \<and> (\<forall>a \<in> set new. object_refs (h ! a) \<subseteq> set (snd st'))"

lemma wroteD:
  assumes "wrote h st st' w new"
  shows "fst st' = fst st @ w" and "snd st' = snd st @ new" and "ok_ids h (snd st')"
    and "\<And>a. a \<in> set new \<Longrightarrow> object_refs (h ! a) \<subseteq> set (snd st')"
proof -
  show "fst st' = fst st @ w" "snd st' = snd st @ new" using assms by (simp_all add: wrote_def)
  show "ok_ids h (snd st')" using assms unfolding wrote_def by (elim conjE)
  show "object_refs (h ! a) \<subseteq> set (snd st')" if "a \<in> set new" for a using assms that unfolding wrote_def by blast
qed

lemma wroteI:
  "fst st' = fst st @ w \<Longrightarrow> snd st' = snd st @ new \<Longrightarrow> ok_ids h (snd st') \<Longrightarrow>
   (\<And>a. a \<in> set new \<Longrightarrow> object_refs (h ! a) \<subseteq> set (snd st')) \<Longrightarrow> wrote h st st' w new"
  unfolding wrote_def by (auto intro: prod_eqI)

lemma written_trans:
  assumes "wrote h st st1 v xs" and "wrote h st1 st2 w ys"
  shows "wrote h st st2 (v @ w) (xs @ ys)"
proof (rule wroteI)
  note a = wroteD [OF assms(1)] and b = wroteD [OF assms(2)]
  show "fst st2 = fst st @ v @ w" "snd st2 = snd st @ xs @ ys" using a(1,2) b(1,2) by simp_all
  show "ok_ids h (snd st2)" by (rule b(3))
  fix x assume "x \<in> set (xs @ ys)"
  moreover have "set (snd st1) \<subseteq> set (snd st2)" using b(2) by simp
  ultimately show "object_refs (h ! x) \<subseteq> set (snd st2)" using a(4) [of x] b(4) [of x] unfolding set_append by blast
qed

lemma written_nothing: "ok_ids h (snd st) \<Longrightarrow> wrote h st (put_bytes w st) w []"
  by (simp add: wrote_def put_bytes_def)

lemma written_clones:
  assumes "wrote h st st1 v xs" and "wrote h st1 st2 w ys"
  shows "clones h (snd st2) (xs @ ys) = clones h (snd st1) xs @ clones h (snd st2) ys"
  using clones_append [of xs h "snd st1" ys] wroteD(4) [OF assms(1)] wroteD(2) [OF assms(2)] by (simp add: clones_simps)

lemma written_value: "wrote h st st' w new \<Longrightarrow> value_refs v \<subseteq> set (snd st) \<Longrightarrow> clone_value (snd st') v = clone_value (snd st) v"
  by (simp add: wrote_def clone_value_append)

lemma written_ids: "wrote h st st' w new \<Longrightarrow> set (snd st) \<subseteq> set (snd st') \<and> length (snd st') = length (snd st) + length new"
  by (auto simp: wrote_def)

text \<open>No end of a collection and no view looks like the start of a value.\<close>

definition starts :: "byte list \<Rightarrow> bool" where
  "starts w \<longleftrightarrow> w \<noteq> [] \<and> hd w \<notin> {0x7b, 0x24, 0x40, 0x3a, 0x2c, 0x2d, 0x56}"

definition goes_on :: "byte list \<Rightarrow> bool" where
  "goes_on rest \<longleftrightarrow> rest = [] \<or> hd rest \<noteq> 0x56"

lemma starts_follows: "starts w \<Longrightarrow> goes_on (w @ rest)"
  by (cases w) (simp_all add: starts_def goes_on_def)

lemma starts_peek:
  "starts w \<Longrightarrow> t \<in> {0x7b, 0x24, 0x40, 0x3a, 0x2c, 0x2d} \<Longrightarrow> \<not> peek_is t (w @ rest, objs)"
  by (cases w) (auto simp: starts_def peek_is_def)

lemma peek_end: "peek_is t (t # rest, objs)" "advance (t # rest, objs) = (rest, objs)"
  by (simp_all add: peek_is_def advance_def)

text \<open>What is written for a value is read as its copy, and makes the copies of the new objects.\<close>

definition value_copied :: "objects \<Rightarrow> reader \<Rightarrow> wstate \<Rightarrow> wstate \<Rightarrow> jvalue \<Rightarrow> bool" where
  "value_copied h rd st st' v \<longleftrightarrow>
     (\<exists>w new. wrote h st st' w new \<and> starts w \<and> value_refs v \<subseteq> set (snd st') \<and>
       (\<forall>objs rest. length objs = length (snd st) \<longrightarrow> goes_on rest \<longrightarrow>
          rd (w @ rest, objs) = Inr (clone_value (snd st') v, rest, objs @ clones h (snd st') new)))"

definition copies :: "objects \<Rightarrow> (jvalue \<Rightarrow> wstate \<Rightarrow> v8_error + wstate) \<Rightarrow> reader \<Rightarrow> bool" where
  "copies h wr rd \<longleftrightarrow>
     (\<forall>v st st'. wr v st = Inr st' \<longrightarrow> wf_value h v \<longrightarrow> ok_ids h (snd st) \<longrightarrow> value_copied h rd st st' v) \<and>
     (\<forall>key n rest objs. wf_string key \<longrightarrow> rd (string_bytes n key @ rest, objs) = Inr (VStr key, rest, objs)) \<and>
     (\<forall>x rest objs. wf_number x \<longrightarrow> rd (number_bytes x @ rest, objs) = Inr (VNum x, rest, objs)) \<and>
     (\<forall>x rest objs. wf_number x \<longrightarrow> rd (0x4e # double_bytes x @ rest, objs) = Inr (VNum x, rest, objs))"

lemma copiesE:
  assumes "copies h wr rd" and "wr v st = Inr st'" and "wf_value h v" and "ok_ids h (snd st)"
  obtains w new where "wrote h st st' w new" and "starts w" and "value_refs v \<subseteq> set (snd st')"
    and "\<And>objs rest. length objs = length (snd st) \<Longrightarrow> goes_on rest \<Longrightarrow>
      rd (w @ rest, objs) = Inr (clone_value (snd st') v, rest, objs @ clones h (snd st') new)"
  using assms unfolding copies_def value_copied_def by blast

lemma copies_scalar:
  assumes "copies h wr rd"
  shows "wf_string key \<Longrightarrow> rd (string_bytes n key @ rest, objs) = Inr (VStr key, rest, objs)"
    and "wf_number x \<Longrightarrow> rd (number_bytes x @ rest, objs) = Inr (VNum x, rest, objs)"
    and "wf_number x \<Longrightarrow> rd (0x4e # double_bytes x @ rest, objs) = Inr (VNum x, rest, objs)"
  using assms unfolding copies_def by blast+

lemma starts_string: "starts (string_bytes n s)"
  by (simp add: string_bytes_def starts_def Let_def)

lemma starts_number: "starts (number_bytes x)"
  by (cases x) (simp_all add: number_bytes_def starts_def)

lemma starts_append: "starts v \<Longrightarrow> starts (v @ w)"
  by (simp add: starts_def)

lemma wf_keys_append: "wf_keys (ks @ ls) \<Longrightarrow> wf_keys ks"
  by (simp add: wf_keys_def sorted_wrt_append)

text \<open>The key of a property, read back and taken for its text.\<close>

definition key_bytes :: "nat \<Rightarrow> jsstr \<Rightarrow> byte list" where
  "key_bytes n key = (if is_index key then number_bytes (IntNum (isIndexKey key)) else string_bytes n key)"

lemma write_property_key: "write_property wr (key, v) st = wr v (put_bytes (key_bytes (length (fst st)) key) st)"
  by (simp add: write_property_def key_bytes_def is_index_def write_string_def Let_def)

lemma starts_key: "starts (key_bytes n key)"
  by (simp add: key_bytes_def starts_string starts_number)

lemma key_read:
  assumes "copies h wr rd" and "wf_string key"
  shows "\<exists>k. rd (key_bytes n key @ rest, objs) = Inr (k, rest, objs) \<and> read_key env k = Some key"
proof (cases "is_index key")
  case True
  then obtain i where i: "isIndexKey key = int i" using index_key_range [of key] by (auto simp: is_index_def)
  then have "wf_number (IntNum (int i))" using index_key_text(2) [OF i] by (simp add: wf_number_def)
  then show ?thesis using copies_scalar(2) [OF assms(1)] index_key_text(1) [OF i] True i by (simp add: key_bytes_def read_key_def)
next
  case False
  then show ?thesis using copies_scalar(1) [OF assms] by (simp add: key_bytes_def read_key_def)
qed

subsection \<open>Collections\<close>

lemma properties_copied:
  assumes c: "copies h wr rd"
    and mk: "\<And>qs k v. k \<in> set (map fst every) \<Longrightarrow> wf_keys (map fst qs @ [k]) \<Longrightarrow> define_property k v (mk qs) = Inr (mk (qs @ [(k, v)]))"
    and t: "t \<in> {0x7b, 0x24, 0x40}"
  shows "write_list (write_property wr) ps st = Inr st' \<Longrightarrow> every = before @ ps \<Longrightarrow> wf_keys (map fst every) \<Longrightarrow>
    list_all (wf_value h \<circ> snd) ps \<Longrightarrow> ok_ids h (snd st) \<Longrightarrow> (\<Union>p \<in> set before. value_refs (snd p)) \<subseteq> set (snd st) \<Longrightarrow>
    \<exists>w new. wrote h st st' w new \<and> length ps \<le> length w \<and> (w = [] \<or> starts w) \<and> (\<Union>p \<in> set every. value_refs (snd p)) \<subseteq> set (snd st') \<and>
      (\<forall>objs a n rest. length objs = length (snd st) \<longrightarrow> a < length objs \<longrightarrow> objs ! a = mk (clone_properties (snd st) before) \<longrightarrow>
         length ps < n \<longrightarrow>
         readProperties env rd a t n (w @ t # rest, objs) =
           Inr (length ps, rest, (objs @ clones h (snd st') new)[a := mk (clone_properties (snd st') every)]))"
proof (induction ps arbitrary: st before)
  case Nil
  then have st: "st' = st" "every = before" by simp_all
  show ?case
  proof (intro exI [of _ "[]"] conjI allI impI)
    show "wrote h st st' [] []" using Nil st by (intro wroteI) simp_all
    fix objs :: objects and a n rest
    assume a: "objs ! a = mk (clone_properties (snd st) before)" "length ([] :: properties) < n"
    obtain m where n: "n = Suc m" using a(2) by (cases n) simp_all
    show "readProperties env rd a t n ([] @ t # rest, objs) =
      Inr (length ([] :: properties), rest, (objs @ clones h (snd st') [])[a := mk (clone_properties (snd st') every)])"
      using a(1) by (simp add: n peek_end clones_simps st flip: a(1))
  qed (use Nil st in simp_all)
next
  case (Cons p ps)
  obtain k v where p: "p = (k, v)" by (cases p)
  let ?wk = "key_bytes (length (fst st)) k"
  let ?st1 = "put_bytes ?wk st"
  from Cons.prems(1) obtain st2 where w2: "wr v ?st1 = Inr st2" and rest_w: "write_list (write_property wr) ps st2 = Inr st'"
    by (auto simp: p write_property_key bindE_eq_Inr)
  have ok1: "ok_ids h (snd ?st1)" using Cons.prems(5) by (simp add: put_bytes_def)
  have wfv: "wf_value h v" and wfs: "wf_string k" using Cons.prems(2-4) by (simp_all add: p wf_keys_def)
  from copiesE [OF c w2 wfv ok1] obtain wv nv where wv: "wrote h ?st1 st2 wv nv" "starts wv" "value_refs v \<subseteq> set (snd st2)"
    and rv: "\<And>objs rest. length objs = length (snd ?st1) \<Longrightarrow> goes_on rest \<Longrightarrow>
      rd (wv @ rest, objs) = Inr (clone_value (snd st2) v, rest, objs @ clones h (snd st2) nv)" by blast
  have wk: "wrote h st ?st1 ?wk []" using Cons.prems(5) by (rule written_nothing)
  have w12: "wrote h st st2 (?wk @ wv) nv" using written_trans [OF wk wv(1)] by simp
  have sub: "set (snd st) \<subseteq> set (snd st2)" using written_ids [OF w12] by blast
  have every: "every = (before @ [(k, v)]) @ ps" using Cons.prems(2) p by simp
  have refs: "(\<Union>p \<in> set (before @ [(k, v)]). value_refs (snd p)) \<subseteq> set (snd st2)" using Cons.prems(6) sub wv(3) by auto
  from Cons.IH [OF rest_w every Cons.prems(3) _ wroteD(3) [OF wv(1)] refs] Cons.prems(4)
  obtain w new where w: "wrote h st2 st' w new" "length ps \<le> length w" "w = [] \<or> starts w"
    "(\<Union>p \<in> set every. value_refs (snd p)) \<subseteq> set (snd st')"
    and r: "\<And>objs a n rest. length objs = length (snd st2) \<Longrightarrow> a < length objs \<Longrightarrow>
      objs ! a = mk (clone_properties (snd st2) (before @ [(k, v)])) \<Longrightarrow> length ps < n \<Longrightarrow>
      readProperties env rd a t n (w @ t # rest, objs) =
        Inr (length ps, rest, (objs @ clones h (snd st') new)[a := mk (clone_properties (snd st') every)])"
    by (auto simp: p)
  have fin: "wrote h st st' (?wk @ wv @ w) (nv @ new)" using written_trans [OF w12 w(1)] by simp
  show ?case
  proof (intro exI [of _ "?wk @ wv @ w"] exI [of _ "nv @ new"] conjI allI impI)
    show "wrote h st st' (?wk @ wv @ w) (nv @ new)" by (rule fin)
    show "length (p # ps) \<le> length (?wk @ wv @ w)" using w(2) starts_key [of "length (fst st)" k] by (cases ?wk) (simp_all add: starts_def)
    show "?wk @ wv @ w = [] \<or> starts (?wk @ wv @ w)" using starts_key by (simp add: starts_append)
    show "(\<Union>p \<in> set every. value_refs (snd p)) \<subseteq> set (snd st')" by (rule w(4))
    fix objs :: objects and a n rest
    assume l: "length objs = length (snd st)" and a: "a < length objs" and obj: "objs ! a = mk (clone_properties (snd st) before)"
      and n: "length (p # ps) < n"
    obtain m where m: "n = Suc m" "length ps < m" using n by (cases n) simp_all
    let ?tail = "w @ t # rest"
    obtain key where key: "rd (?wk @ wv @ ?tail, objs) = Inr (key, wv @ ?tail, objs)" "read_key env key = Some k"
      using key_read [OF c wfs] by blast
    have peek: "\<not> peek_is t (?wk @ wv @ ?tail, objs)" using starts_peek [OF starts_key] t by blast
    have "goes_on ?tail" using w(3) t starts_follows by (auto simp: goes_on_def)
    from rv [OF _ this, of objs] l have vread: "rd (wv @ ?tail, objs) = Inr (clone_value (snd st2) v, ?tail, objs @ clones h (snd st2) nv)"
      by (simp add: put_bytes_def)
    have before: "clone_properties (snd st2) before = clone_properties (snd st) before"
      using clone_properties_append [OF Cons.prems(6)] wroteD(2) [OF w12] by simp
    have "wf_keys (map fst (clone_properties (snd st) before) @ [k])"
      using wf_keys_append [of "map fst before @ [k]" "map fst ps"] Cons.prems(3)
      by (simp add: every clone_properties_def comp_def case_prod_beta)
    moreover have "k \<in> set (map fst every)" by (simp add: every)
    moreover have "clone_properties (snd st2) (before @ [(k, v)]) = clone_properties (snd st) before @ [(k, clone_value (snd st2) v)]"
      unfolding before [symmetric] by (simp add: clone_properties_def)
    ultimately have "define_property k (clone_value (snd st2) v) (mk (clone_properties (snd st) before)) =
      Inr (mk (clone_properties (snd st2) (before @ [(k, v)])))"
      using mk by (simp only:)
    then have defp: "define_property k (clone_value (snd st2) v) ((objs @ clones h (snd st2) nv) ! a) =
      Inr (mk (clone_properties (snd st2) (before @ [(k, v)])))"
      using a obj by (simp add: nth_append)
    let ?objs = "(objs @ clones h (snd st2) nv)[a := mk (clone_properties (snd st2) (before @ [(k, v)]))]"
    have "length ?objs = length (snd st2)" "a < length ?objs" "?objs ! a = mk (clone_properties (snd st2) (before @ [(k, v)]))"
      using l a written_ids [OF w12] by (simp_all add: clones_simps)
    from r [OF this m(2), of rest] have "readProperties env rd a t m (?tail, ?objs) =
      Inr (length ps, rest, (?objs @ clones h (snd st') new)[a := mk (clone_properties (snd st') every)])" .
    moreover have "(?objs @ clones h (snd st') new)[a := mk (clone_properties (snd st') every)] =
      (objs @ clones h (snd st') (nv @ new))[a := mk (clone_properties (snd st') every)]"
      using a unfolding written_clones [OF wv(1) w(1)] by (simp add: list_update_append clones_simps)
    ultimately show "readProperties env rd a t n ((?wk @ wv @ w) @ t # rest, objs) =
      Inr (length (p # ps), rest, (objs @ clones h (snd st') (nv @ new))[a := mk (clone_properties (snd st') every)])"
      using peek key vread defp by (simp add: m(1))
  qed
qed

text \<open>Values written one behind the other, read one behind the other.\<close>

fun read_values :: "reader \<Rightarrow> nat \<Rightarrow> rstate \<Rightarrow> v8_error + (jvalue list \<times> rstate)" where
  "read_values rd 0 st = Inr ([], st)"
| "read_values rd (Suc n) st = bindE (rd st) (\<lambda>(v, st). bindE (read_values rd n st) (\<lambda>(vs, st). Inr (v # vs, st)))"

definition refs_of :: "jvalue list \<Rightarrow> nat set" where
  "refs_of vs = (\<Union>v \<in> set vs. value_refs v)"

lemma refs_of_simps: "refs_of [] = {}" "refs_of (v # vs) = value_refs v \<union> refs_of vs" "refs_of (vs @ ws) = refs_of vs \<union> refs_of ws"
  by (simp_all add: refs_of_def)

lemma clone_values_append: "refs_of vs \<subseteq> set ids \<Longrightarrow> map (clone_value (ids @ further)) vs = map (clone_value ids) vs"
  by (induction vs) (simp_all add: refs_of_simps clone_value_append)

lemma values_copied:
  assumes c: "copies h wr rd"
  shows "write_list wr vs st = Inr st' \<Longrightarrow> list_all (wf_value h) vs \<Longrightarrow> ok_ids h (snd st) \<Longrightarrow>
    \<exists>w new. wrote h st st' w new \<and> length vs \<le> length w \<and> (w = [] \<or> starts w) \<and> refs_of vs \<subseteq> set (snd st') \<and>
      (\<forall>objs rest. length objs = length (snd st) \<longrightarrow> goes_on rest \<longrightarrow>
         read_values rd (length vs) (w @ rest, objs) = Inr (map (clone_value (snd st')) vs, rest, objs @ clones h (snd st') new))"
proof (induction vs arbitrary: st)
  case Nil
  then show ?case by (intro exI [of _ "[]"]) (auto simp: refs_of_simps clones_simps intro!: wroteI)
next
  case (Cons v vs)
  then obtain st1 where w1: "wr v st = Inr st1" and rest_w: "write_list wr vs st1 = Inr st'" by (auto simp: bindE_eq_Inr)
  from copiesE [OF c w1 _ Cons.prems(3)] Cons.prems(2) obtain wv nv where wv: "wrote h st st1 wv nv" "starts wv"
    "value_refs v \<subseteq> set (snd st1)"
    and rv: "\<And>objs rest. length objs = length (snd st) \<Longrightarrow> goes_on rest \<Longrightarrow>
      rd (wv @ rest, objs) = Inr (clone_value (snd st1) v, rest, objs @ clones h (snd st1) nv)" by auto
  from Cons.IH [OF rest_w _ wroteD(3) [OF wv(1)]] Cons.prems(2) obtain w new where w: "wrote h st1 st' w new" "length vs \<le> length w"
    "w = [] \<or> starts w" "refs_of vs \<subseteq> set (snd st')"
    and r: "\<And>objs rest. length objs = length (snd st1) \<Longrightarrow> goes_on rest \<Longrightarrow>
      read_values rd (length vs) (w @ rest, objs) = Inr (map (clone_value (snd st')) vs, rest, objs @ clones h (snd st') new)" by auto
  show ?case
  proof (intro exI [of _ "wv @ w"] exI [of _ "nv @ new"] conjI allI impI)
    show "wrote h st st' (wv @ w) (nv @ new)" using wv(1) w(1) by (rule written_trans)
    show "length (v # vs) \<le> length (wv @ w)" using w(2) wv(2) by (cases wv) (simp_all add: starts_def)
    show "wv @ w = [] \<or> starts (wv @ w)" using wv(2) by (simp add: starts_append)
    show "refs_of (v # vs) \<subseteq> set (snd st')" using w(4) wv(3) written_ids [OF w(1)] by (auto simp: refs_of_simps)
    fix objs :: objects and rest
    assume l: "length objs = length (snd st)" and f: "goes_on rest"
    have "goes_on (w @ rest)" using w(3) f starts_follows by auto
    moreover have "length (objs @ clones h (snd st1) nv) = length (snd st1)" using l written_ids [OF wv(1)] by (simp add: clones_simps)
    ultimately show "read_values rd (length (v # vs)) ((wv @ w) @ rest, objs) =
      Inr (map (clone_value (snd st')) (v # vs), rest, objs @ clones h (snd st') (nv @ new))"
      using rv [OF l] r [OF _ f] written_value [OF w(1) wv(3)] by (simp add: written_clones [OF wv(1) w(1)])
  qed
qed

text \<open>
  A loop that reads a group of values a round, one or a key and its value, and puts them into the object at \<open>a\<close>: after the
  groups it has put in the copies of all.
\<close>

definition puts_groups ::
    "reader \<Rightarrow> (nat \<Rightarrow> nat \<Rightarrow> rstate \<Rightarrow> 'r) \<Rightarrow> (jvalue list list \<Rightarrow> jobject) \<Rightarrow> jvalue list list \<Rightarrow> nat \<Rightarrow> bool" where
  "puts_groups rd loop mk every a \<longleftrightarrow>
     (\<forall>n st st' ids before g after.
        every = before @ g # after \<longrightarrow> starts (fst st) \<longrightarrow> distinct ids \<longrightarrow> refs_of (concat before @ g) \<subseteq> set ids \<longrightarrow>
        read_values rd (length g) st = Inr (map (clone_value ids) g, st') \<longrightarrow> a < length (snd st') \<longrightarrow>
        snd st' ! a = mk (map (map (clone_value ids)) before) \<longrightarrow>
        loop (Suc n) (length before) st = loop n (Suc (length before)) (fst st', (snd st')[a := mk (map (map (clone_value ids)) (before @ [g]))]))"

lemma puts_groupsD:
  assumes "puts_groups rd loop mk every a" and "every = before @ g # after" and "starts (fst st)" and "distinct ids"
    and "refs_of (concat before @ g) \<subseteq> set ids" and "read_values rd (length g) st = Inr (map (clone_value ids) g, st')"
    and "a < length (snd st')" and "snd st' ! a = mk (map (map (clone_value ids)) before)"
  shows "loop (Suc n) (length before) st = loop n (Suc (length before)) (fst st', (snd st')[a := mk (map (map (clone_value ids)) (before @ [g]))])"
  using assms unfolding puts_groups_def by blast

lemma groups_copied:
  assumes c: "copies h wr rd"
    and step: "puts_groups rd loop mk every a"
  shows "write_list wr (concat gs) st = Inr st' \<Longrightarrow> every = before @ gs \<Longrightarrow> [] \<notin> set gs \<Longrightarrow> list_all (wf_value h) (concat gs) \<Longrightarrow>
    ok_ids h (snd st) \<Longrightarrow> refs_of (concat before) \<subseteq> set (snd st) \<Longrightarrow>
    \<exists>w new. wrote h st st' w new \<and> length gs \<le> length w \<and> (w = [] \<or> starts w) \<and> refs_of (concat every) \<subseteq> set (snd st') \<and>
      (\<forall>objs n rest. length objs = length (snd st) \<longrightarrow> a < length objs \<longrightarrow>
         objs ! a = mk (map (map (clone_value (snd st))) before) \<longrightarrow> goes_on rest \<longrightarrow>
         loop (n + length gs) (length before) (w @ rest, objs) =
           loop n (length every) (rest, (objs @ clones h (snd st') new)[a := mk (map (map (clone_value (snd st'))) every)]))"
proof (induction gs arbitrary: st before)
  case Nil
  then have st: "st' = st" "every = before" by simp_all
  show ?case
  proof (intro exI [of _ "[]"] conjI allI impI)
    show "wrote h st st' [] []" using Nil st by (intro wroteI) simp_all
    fix objs :: objects and n rest
    assume a: "objs ! a = mk (map (map (clone_value (snd st))) before)"
    show "loop (n + length ([] :: jvalue list list)) (length before) ([] @ rest, objs) =
      loop n (length every) (rest, (objs @ clones h (snd st') [])[a := mk (map (map (clone_value (snd st'))) every)])"
      by (simp add: clones_simps st flip: a)
  qed (use Nil st in simp_all)
next
  case (Cons g gs)
  have split: "write_list wr (xs @ ys) st = bindE (write_list wr xs st) (write_list wr ys)" for xs ys st
    by (induction xs arbitrary: st) (simp_all add: bindE_def split: sum.splits)
  from Cons.prems(1) obtain st1 where w1: "write_list wr g st = Inr st1" and rest_w: "write_list wr (concat gs) st1 = Inr st'"
    by (auto simp: split bindE_eq_Inr)
  from values_copied [OF c w1 _ Cons.prems(5)] Cons.prems(4) obtain wv nv where wv: "wrote h st st1 wv nv" "length g \<le> length wv"
    "wv = [] \<or> starts wv" "refs_of g \<subseteq> set (snd st1)"
    and rv: "\<And>objs rest. length objs = length (snd st) \<Longrightarrow> goes_on rest \<Longrightarrow>
      read_values rd (length g) (wv @ rest, objs) = Inr (map (clone_value (snd st1)) g, rest, objs @ clones h (snd st1) nv)" by auto
  have swv: "starts wv" using wv(2,3) Cons.prems(3) by (cases g) auto
  have sub: "set (snd st) \<subseteq> set (snd st1)" "distinct (snd st1)" using written_ids [OF wv(1)] wroteD(3) [OF wv(1)] by (auto simp: ok_ids_def)
  have every: "every = (before @ [g]) @ gs" using Cons.prems(2) by simp
  have refs: "refs_of (concat (before @ [g])) \<subseteq> set (snd st1)" using Cons.prems(6) sub wv(4) by (auto simp: refs_of_simps)
  from Cons.IH [OF rest_w every _ _ wroteD(3) [OF wv(1)] refs] Cons.prems(3,4)
  obtain w new where w: "wrote h st1 st' w new" "length gs \<le> length w" "w = [] \<or> starts w" "refs_of (concat every) \<subseteq> set (snd st')"
    and r: "\<And>objs n rest. length objs = length (snd st1) \<Longrightarrow> a < length objs \<Longrightarrow>
      objs ! a = mk (map (map (clone_value (snd st1))) (before @ [g])) \<Longrightarrow> goes_on rest \<Longrightarrow>
      loop (n + length gs) (length (before @ [g])) (w @ rest, objs) =
        loop n (length every) (rest, (objs @ clones h (snd st') new)[a := mk (map (map (clone_value (snd st'))) every)])"
    by auto
  show ?case
  proof (intro exI [of _ "wv @ w"] exI [of _ "nv @ new"] conjI allI impI)
    show "wrote h st st' (wv @ w) (nv @ new)" using wv(1) w(1) by (rule written_trans)
    show "length (g # gs) \<le> length (wv @ w)" using w(2) swv by (cases wv) (simp_all add: starts_def)
    show "wv @ w = [] \<or> starts (wv @ w)" using swv by (simp add: starts_append)
    show "refs_of (concat every) \<subseteq> set (snd st')" by (rule w(4))
    fix objs :: objects and n rest
    assume l: "length objs = length (snd st)" and a: "a < length objs" and f: "goes_on rest"
      and obj: "objs ! a = mk (map (map (clone_value (snd st))) before)"
    let ?ids = "snd st1"
    have before: "map (map (clone_value ?ids)) before = map (map (clone_value (snd st))) before"
    proof -
      have "value_refs v \<subseteq> set (snd st)" if "v \<in> set vs" "vs \<in> set before" for v vs
        using Cons.prems(6) that unfolding refs_of_def by auto
      then show ?thesis using wroteD(2) [OF wv(1)] by (simp add: clone_value_append)
    qed
    have "goes_on (w @ rest)" using w(3) f starts_follows by auto
    from rv [OF l this] have read: "read_values rd (length g) (wv @ w @ rest, objs) =
      Inr (map (clone_value ?ids) g, w @ rest, objs @ clones h ?ids nv)" .
    let ?objs = "(objs @ clones h ?ids nv)[a := mk (map (map (clone_value ?ids)) (before @ [g]))]"
    have "loop (Suc (n + length gs)) (length before) (wv @ w @ rest, objs) = loop (n + length gs) (Suc (length before)) (w @ rest, ?objs)"
      using puts_groupsD [OF step, of before g gs "(wv @ w @ rest, objs)" ?ids "(w @ rest, objs @ clones h ?ids nv)"] Cons.prems(2) swv sub(2) refs read a obj
      by (simp add: starts_append nth_append before)
    also have "\<dots> = loop n (length every) (rest, (?objs @ clones h (snd st') new)[a := mk (map (map (clone_value (snd st'))) every)])"
      using r [of ?objs rest n] a l f written_ids [OF wv(1)] by (simp add: clones_simps)
    also have "(?objs @ clones h (snd st') new)[a := mk (map (map (clone_value (snd st'))) every)] =
      (objs @ clones h (snd st') (nv @ new))[a := mk (map (map (clone_value (snd st'))) every)]"
      using a unfolding written_clones [OF wv(1) w(1)] by (simp add: list_update_append clones_simps)
    finally show "loop (n + length (g # gs)) (length before) ((wv @ w) @ rest, objs) =
      loop n (length every) (rest, (objs @ clones h (snd st') (nv @ new))[a := mk (map (map (clone_value (snd st'))) every)])"
      by simp
  qed
qed

end
