(* ===== verification/V8Objects.thy ===== *)
theory V8Objects
  imports V8Copy
begin

text \<open>
  What is read of a plain object, and of a sparse and a dense array, that was written: its copy, with the properties in the
  same order.
\<close>

unbundle bit_operations_syntax

subsection \<open>Objects\<close>

text \<open>What is written for an object that has just got its id is read as its copy, and makes the copies of the new objects.\<close>

definition object_copied :: "v8_engine \<Rightarrow> objects \<Rightarrow> reader \<Rightarrow> jobject \<Rightarrow> wstate \<Rightarrow> wstate \<Rightarrow> bool" where
  "object_copied env h rd obj st st' \<longleftrightarrow>
     (\<exists>tag body new. wrote h st st' (tag # body) new \<and> tag \<noteq> 0 \<and> starts (tag # body) \<and> object_refs obj \<subseteq> set (snd st') \<and>
       (\<forall>objs rest. Suc (length objs) = length (snd st) \<longrightarrow> goes_on rest \<longrightarrow>
          read_record env rd tag (body @ rest, objs) =
            Inr (VRef (length objs), rest, objs @ clone_object h (snd st') obj # clones h (snd st') new)))"

lemma simple_copied:
  assumes "st' = put_bytes (tag # body) st" and "ok_ids h (snd st)" and "tag \<noteq> 0" and "starts [tag]" and "object_refs obj = {}"
    and "\<And>objs rest. read_record env rd tag (body @ rest, objs) = Inr (remember (clone_object h (snd st') obj) (rest, objs))"
  shows "object_copied env h rd obj st st'"
  unfolding object_copied_def
proof (intro exI [of _ tag] exI [of _ body] exI [of _ "[]"] conjI allI impI)
  show "wrote h st st' (tag # body) []" unfolding assms(1) using assms(2) by (rule written_nothing)
qed (use assms in \<open>simp_all add: starts_def clones_simps remember_def\<close>)

lemma emit_emit: "put_bytes w (put_bytes v st) = put_bytes (v @ w) st"
  by (simp add: put_bytes_def)

lemma lift_framed: "rd (p @ rest) = Inr (x, rest) \<Longrightarrow> lift rd (p @ rest, objs) = Inr (x, rest, objs)"
  by (simp add: lift_def)

lemma lift_written:
  "n < 4294967296 \<Longrightarrow> lift read_varint (varint_bytes n @ rest, objs) = Inr (n, rest, objs)"
  "wf_number x \<Longrightarrow> lift read_double (double_bytes x @ rest, objs) = Inr (x, rest, objs)"
  "wf_bigint i \<Longrightarrow> lift read_bigint (bigint_bytes i @ rest, objs) = Inr (i, rest, objs)"
  "wf_string s \<Longrightarrow> lift read_string (string_bytes k s @ rest, objs) = Inr (s, rest, objs)"
  by (simp_all add: lift_framed varint.get_put double.get_put bigint.get_put read_string_written)

lemma put_property_append: "\<forall>l \<in> set (map fst qs). l \<noteq> k \<and> \<not> key_before k l \<Longrightarrow> put_property k v qs = qs @ [(k, v)]"
  by (induction qs) auto

lemma put_property_last: "wf_keys (map fst qs @ [k]) \<Longrightarrow> put_property k v qs = qs @ [(k, v)]"
  by (rule put_property_append) (auto simp: wf_keys_def sorted_wrt_append)

declare readProperties.simps [simp del] readItems.simps [simp del] readMap.simps [simp del] readSet.simps [simp del]

lemma plain_copied:
  assumes c: "copies h wr rd" and wf: "wf_object env h (PlainObject ps)" and ok: "ok_ids h (snd st)"
    and w: "writeObjectBody wr ps st = Inr st'"
  shows "object_copied env h rd (PlainObject ps) st st'"
proof -
  obtain st1 where st1: "write_list (write_property wr) ps (put_bytes [0x6f] st) = Inr st1" and st': "st' = put_bytes (0x7b # varint_bytes (length ps)) st1"
    using w by (auto simp: writeObjectBody_def bindE_eq_Inr)
  have keys: "wf_keys (map fst ps)" and vals: "list_all (wf_value h \<circ> snd) ps" using wf by (simp_all add: wf_object_def)
  have mk: "define_property k v (PlainObject qs) = Inr (PlainObject (qs @ [(k, v)]))" if "wf_keys (map fst qs @ [k])" for k v qs
    using put_property_last [OF that] by (simp add: define_property_def)
  have "ok_ids h (snd (put_bytes [0x6f] st))" using ok by (simp add: put_bytes_def)
  from properties_copied [where mk = PlainObject and every = ps and before = "[]" and t = "0x7b" and env = env, OF c mk _ st1 _ keys vals this]
  obtain v new where v: "wrote h (put_bytes [0x6f] st) st1 v new" "length ps \<le> length v" "(\<Union>p \<in> set ps. value_refs (snd p)) \<subseteq> set (snd st1)"
    and r: "\<And>objs a n rest. length objs = length (snd st) \<Longrightarrow> a < length objs \<Longrightarrow> objs ! a = PlainObject [] \<Longrightarrow> length ps < n \<Longrightarrow>
      readProperties env rd a 0x7b n (v @ 0x7b # rest, objs) =
        Inr (length ps, rest, (objs @ clones h (snd st1) new)[a := PlainObject (clone_properties (snd st1) ps)])"
    by (auto simp: put_bytes_def clone_properties_def)
  have fin: "wrote h st st' (0x6f # v @ 0x7b # varint_bytes (length ps)) new"
    using written_trans [OF written_trans [OF written_nothing [OF ok, of "[0x6f]"] v(1)] written_nothing [OF wroteD(3) [OF v(1)]]]
    by (simp add: st')
  have ids: "snd st' = snd st1" by (simp add: st' put_bytes_def)
  show ?thesis
    unfolding object_copied_def
  proof (intro exI [of _ "0x6f"] exI [of _ "v @ 0x7b # varint_bytes (length ps)"] exI [of _ new] conjI allI impI)
    show "wrote h st st' (0x6f # v @ 0x7b # varint_bytes (length ps)) new" by (rule fin)
    show "object_refs (PlainObject ps) \<subseteq> set (snd st')" using v(3) by (simp add: object_refs_def ids)
    fix objs :: objects and rest
    assume l: "Suc (length objs) = length (snd st)"
    have n: "length ps < 4294967296" using keys by (simp add: wf_keys_def)
    have "readProperties env rd (length objs) 0x7b (Suc (length (v @ 0x7b # varint_bytes (length ps) @ rest)))
        (v @ 0x7b # varint_bytes (length ps) @ rest, objs @ [PlainObject []]) =
      Inr (length ps, varint_bytes (length ps) @ rest, objs @ PlainObject (clone_properties (snd st1) ps) # clones h (snd st1) new)"
      using r [of "objs @ [PlainObject []]" "length objs"] v(2) l by simp
    then show "read_record env rd 0x6f ((v @ 0x7b # varint_bytes (length ps)) @ rest, objs) =
      Inr (VRef (length objs), rest, objs @ clone_object h (snd st') (PlainObject ps) # clones h (snd st') new)"
      by (simp add: read_record_def remember_def lift_written n clone_object_def ids Let_def)
  qed (simp_all add: starts_def)
qed

text \<open>Properties of an array: none is \<open>length\<close> and none makes it longer.\<close>

lemma array_property:
  assumes "wf_object env h (ArrayObject len every)" and "k \<in> set (map fst every)" and "wf_keys (map fst qs @ [k])"
  shows "define_property k v (ArrayObject len qs) = Inr (ArrayObject len (qs @ [(k, v)]))"
proof -
  have k: "k \<noteq> js ''length''" "is_index k \<longrightarrow> isIndexKey k < int len"
    using assms(1,2) by (auto simp: wf_object_def list_all_iff)
  then have "is_index k \<longrightarrow> max len (nat (isIndexKey k) + 1) = len"
    using index_key_range [of k] by (auto simp: is_index_def max_def)
  with k show ?thesis using put_property_last [OF assms(3)] by (simp add: define_property_def)
qed

lemma sparse_copied:
  assumes c: "copies h wr rd" and wf: "wf_object env h (ArrayObject len ps)" and ok: "ok_ids h (snd st)"
    and st1: "write_list (write_property wr) ps (put_bytes (0x61 # varint_bytes len) st) = Inr st1"
    and st': "st' = put_bytes (0x40 # varint_bytes (length ps) @ varint_bytes len) st1"
  shows "object_copied env h rd (ArrayObject len ps) st st'"
proof -
  let ?p = "0x61 # varint_bytes len" and ?q = "0x40 # varint_bytes (length ps) @ varint_bytes len"
  have keys: "wf_keys (map fst ps)" and vals: "list_all (wf_value h \<circ> snd) ps" and len: "len < 4294967296"
    using wf by (simp_all add: wf_object_def)
  have "ok_ids h (snd (put_bytes ?p st))" using ok by (simp add: put_bytes_def)
  from properties_copied [where mk = "ArrayObject len" and every = ps and before = "[]" and t = "0x40" and env = env,
      OF c array_property [OF wf] _ st1 _ keys vals this]
  obtain v new where v: "wrote h (put_bytes ?p st) st1 v new" "length ps \<le> length v" "(\<Union>p \<in> set ps. value_refs (snd p)) \<subseteq> set (snd st1)"
    and r: "\<And>objs a n rest. length objs = length (snd st) \<Longrightarrow> a < length objs \<Longrightarrow> objs ! a = ArrayObject len [] \<Longrightarrow> length ps < n \<Longrightarrow>
      readProperties env rd a 0x40 n (v @ 0x40 # rest, objs) =
        Inr (length ps, rest, (objs @ clones h (snd st1) new)[a := ArrayObject len (clone_properties (snd st1) ps)])"
    by (auto simp: put_bytes_def clone_properties_def)
  have fin: "wrote h st st' (?p @ v @ ?q) new"
    using written_trans [OF written_trans [OF written_nothing [OF ok, of ?p] v(1)] written_nothing [OF wroteD(3) [OF v(1)], of ?q]]
    by (simp add: st')
  have ids: "snd st' = snd st1" by (simp add: st' put_bytes_def)
  show ?thesis
    unfolding object_copied_def
  proof (intro exI [of _ "0x61"] exI [of _ "varint_bytes len @ v @ ?q"] exI [of _ new] conjI allI impI)
    show "wrote h st st' (0x61 # varint_bytes len @ v @ ?q) new" using fin by simp
    show "object_refs (ArrayObject len ps) \<subseteq> set (snd st')" using v(3) by (simp add: object_refs_def ids)
    fix objs :: objects and rest
    assume l: "Suc (length objs) = length (snd st)"
    have n: "length ps < 4294967296" using keys by (simp add: wf_keys_def)
    have "readProperties env rd (length objs) 0x40 (Suc (length (v @ ?q @ rest))) (v @ ?q @ rest, objs @ [ArrayObject len []]) =
      Inr (length ps, varint_bytes (length ps) @ varint_bytes len @ rest,
        objs @ ArrayObject len (clone_properties (snd st1) ps) # clones h (snd st1) new)"
      using r [of "objs @ [ArrayObject len []]" "length objs"] v(2) l by simp
    then show "read_record env rd 0x61 ((varint_bytes len @ v @ ?q) @ rest, objs) =
      Inr (VRef (length objs), rest, objs @ clone_object h (snd st') (ArrayObject len ps) # clones h (snd st') new)"
      by (simp add: read_record_def remember_def lift_written n len clone_object_def ids Let_def)
  qed (simp_all add: starts_def)
qed

text \<open>A dense array has the indices below its length as keys, in order, before its other keys.\<close>

lemma split_keys:
  "sorted_wrt (\<lambda>k l. \<not> key_before l k) (map fst ps) \<Longrightarrow>
   ps = filter (is_index \<circ> fst) ps @ filter (\<lambda>p. \<not> is_index (fst p)) (ps :: properties)"
proof (induction ps)
  case (Cons p ps)
  show ?case
  proof (cases "is_index (fst p)")
    case False
    then have "\<forall>q \<in> set ps. \<not> is_index (fst q)" using Cons.prems by (auto simp: key_before_def)
    then show ?thesis using False by (auto simp: filter_empty_conv)
  qed (use Cons in simp)
qed simp

lemma dense_keys:
  assumes wf: "wf_object env h (ArrayObject len ps)" and n: "length (filter (is_index \<circ> fst) ps) = len"
  shows "map fst (filter (is_index \<circ> fst) ps) = map (to_base 10) [0..<len]"
proof -
  let ?ks = "map fst (filter (is_index \<circ> fst) ps)"
  let ?ns = "map (\<lambda>k. nat (isIndexKey k)) ?ks"
  have keys: "wf_keys (map fst ps)" "\<forall>k \<in> set (map fst ps). is_index k \<longrightarrow> isIndexKey k < int len"
    using wf by (auto simp: wf_object_def list_all_iff)
  have ix: "\<exists>i. isIndexKey k = int i \<and> k = to_base 10 i \<and> i < len" if "k \<in> set ?ks" for k
  proof -
    have "is_index k" "k \<in> set (map fst ps)" using that by auto
    then obtain i where "isIndexKey k = int i" "isIndexKey k < int len" using index_key_range [of k] keys(2) by (auto simp: is_index_def)
    then show ?thesis using index_key_text(1) [of k i] by auto
  qed
  have texts: "?ks = map (to_base 10) ?ns"
  proof -
    have "to_base 10 (nat (isIndexKey k)) = k" if "k \<in> set ?ks" for k using ix [OF that] by auto
    then show ?thesis by (simp add: map_idI)
  qed
  have sk: "sorted_wrt (\<lambda>k l. \<not> key_before l k) ?ks" and dk: "distinct ?ks"
    using keys(1) by (auto simp: wf_keys_def sorted_wrt_map distinct_map inj_on_subset intro: sorted_wrt_filter)
  have "sorted_wrt (\<lambda>k l. isIndexKey k \<le> isIndexKey l) ?ks"
    by (rule sorted_wrt_mono_rel [OF _ sk]) (auto simp: key_before_def)
  then have s: "sorted ?ns" by (simp add: sorted_map sorted_wrt_map) (auto intro: sorted_wrt_mono_rel [rotated] nat_mono)
  have d: "distinct ?ns" using dk texts by (metis distinct_map)
  have "set ?ns \<subseteq> {..<len}" using ix by fastforce
  moreover have "card (set ?ns) = length ?ns" using d by (rule distinct_card)
  moreover have "length ?ns = len" using n by simp
  ultimately have "set ?ns = {..<len}" by (intro card_subset_eq) (simp_all only: finite_lessThan card_lessThan)
  then have "?ns = [0..<len]" using s d by (intro sorted_distinct_set_unique) (auto simp: atLeast_upt)
  then have "map (to_base 10) ?ns = map (to_base 10) [0..<len]" by (rule arg_cong)
  with texts show ?thesis by (rule trans)
qed

lemma item_copies: "copies h wr rd \<Longrightarrow> copies h (write_item wr doubles) rd"
proof -
  assume c: "copies h wr rd"
  have "value_copied h rd st st' v" if w: "write_item wr doubles v st = Inr st'" and wf: "wf_value h v" and ok: "ok_ids h (snd st)" for v st st'
  proof (cases "doubles \<and> (\<exists>x. v = VNum x)")
    case True
    then obtain x where v: "v = VNum x" by blast
    then have st': "st' = put_bytes (0x4e # double_bytes x) st" "wf_number x" using w wf True by (simp_all add: write_item_def wf_value_def)
    show ?thesis
      unfolding value_copied_def
    proof (intro exI [of _ "0x4e # double_bytes x"] exI [of _ "[]"] conjI allI impI)
      show "wrote h st st' (0x4e # double_bytes x) []" unfolding st'(1) using ok by (rule written_nothing)
    qed (simp_all add: starts_def v value_refs_def clone_value_def clones_simps copies_scalar(3) [OF c st'(2)])
  next
    case False
    then have "wr v st = Inr st'" using w by (cases v) (auto simp: write_item_def)
    then show ?thesis using c wf ok unfolding copies_def by blast
  qed
  then show ?thesis using c unfolding copies_def by blast
qed

text \<open>The indices put so far, in their order.\<close>

lemma index_put:
  assumes "length vs < len" and "len < 4294967296"
  shows "define_property (to_base 10 (length vs)) v (ArrayObject len (zip (map (to_base 10) [0..<len]) vs)) =
    Inr (ArrayObject len (zip (map (to_base 10) [0..<len]) (vs @ [v])))"
proof -
  let ?n = "length vs"
  have ix: "isIndexKey (to_base 10 i) = int i" if "i \<le> ?n" for i using text_index_key [of i] that assms by simp
  have z: "zip (map (to_base 10) [0..<len]) ws = zip (map (to_base 10) [0..<length ws]) ws" if "length ws \<le> len" for ws :: "jvalue list"
  proof -
    have "zip (map (to_base 10) [0..<len]) ws = take (length ws) (zip (map (to_base 10) [0..<len]) ws)" using that by simp
    then show ?thesis using that by (simp only: take_zip take_map take_upt) simp
  qed
  have "put_property (to_base 10 ?n) v (zip (map (to_base 10) [0..<?n]) vs) = zip (map (to_base 10) [0..<?n]) vs @ [(to_base 10 ?n, v)]"
  proof (rule put_property_append, rule ballI)
    fix l assume "l \<in> set (map fst (zip (map (to_base 10) [0..<?n]) vs))"
    then obtain i where "i < ?n" "l = to_base 10 i" by (auto simp: in_set_zip)
    then show "l \<noteq> to_base 10 ?n \<and> \<not> key_before (to_base 10 ?n) l" using ix [of i] ix [of ?n] by (auto simp: key_before_def is_index_def)
  qed
  moreover have "to_base 10 ?n \<noteq> js ''length''"
  proof
    assume "to_base 10 ?n = js ''length''"
    then have "isIndexKey (js ''length'') = int ?n" using ix [of ?n] by simp
    moreover have "\<not> decimal_digit (hd (js ''length''))" by (simp add: js_def decimal_digit_def)
    ultimately show False by (simp add: isIndexKey_def split: if_splits)
  qed
  moreover have "max len (nat (isIndexKey (to_base 10 ?n)) + 1) = len" using ix [of ?n] assms(1) by simp
  ultimately show ?thesis using assms(1) z [of vs] z [of "vs @ [v]"] ix [of ?n] by (simp add: define_property_def is_index_def)
qed

lemma read_one: "read_values rd (Suc 0) st = Inr ([v], st') \<longleftrightarrow> rd st = Inr (v, st')"
  by (cases st') (auto simp: bindE_eq_Inr)

lemma items_copied:
  assumes c: "copies h wr rd" and w: "write_list (write_item wr doubles) items st = Inr st'" and vals: "list_all (wf_value h) items"
    and ok: "ok_ids h (snd st)" and len: "length items = len" "len < 4294967296"
  shows "\<exists>w new. wrote h st st' w new \<and> len \<le> length w \<and> (w = [] \<or> starts w) \<and> refs_of items \<subseteq> set (snd st') \<and>
    (\<forall>objs rest. length objs = length (snd st) \<longrightarrow> a < length objs \<longrightarrow> objs ! a = ArrayObject len [] \<longrightarrow> goes_on rest \<longrightarrow>
       readItems rd a 0 len (w @ rest, objs) =
         Inr (rest, (objs @ clones h (snd st') new)[a := ArrayObject len (clone_properties (snd st') (zip (map (to_base 10) [0..<len]) items))]))"
proof -
  let ?keys = "map (to_base 10) [0..<len]"
  define mk where "mk = (\<lambda>gs :: jvalue list list. ArrayObject len (zip ?keys (map hd gs)))"
  define every where "every = map (\<lambda>v. [v]) items"
  have cat: "concat every = items" "length every = len" by (simp_all add: every_def len(1))
  have step: "puts_groups rd (\<lambda>n i s. readItems rd a i n s) mk every a"
    unfolding puts_groups_def
  proof (intro allI impI)
    fix n s s' ids before g after
    assume e: "every = before @ g # after" and sw: "starts (fst s)" and "distinct ids" and "refs_of (concat before @ g) \<subseteq> set ids"
      and r: "read_values rd (length g) s = Inr (map (clone_value ids) g, s')" and "a < length (snd s')"
      and obj: "snd s' ! a = mk (map (map (clone_value ids)) before)"
    have "g \<in> set every" "length before < len" using e cat(2) by auto
    then obtain v where g: "g = [v]" by (auto simp: every_def)
    then have rd: "rd s = Inr (clone_value ids v, s')" using r read_one by simp
    have "\<not> peek_is 0x2d s" using starts_peek [OF sw, of "0x2d" "[]" "snd s"] by simp
    moreover have "define_property (to_base 10 (length before)) (clone_value ids v) (snd s' ! a) = Inr (mk (map (map (clone_value ids)) (before @ [g])))"
      using index_put [of "map hd (map (map (clone_value ids)) before)" len "clone_value ids v"] \<open>length before < len\<close> len(2)
      by (simp add: obj mk_def g)
    ultimately show "readItems rd a (length before) (Suc n) s =
      readItems rd a (Suc (length before)) n (fst s', (snd s')[a := mk (map (map (clone_value ids)) (before @ [g]))])"
      using rd by (simp add: readItems.simps(2))
  qed
  have pre: "write_list (write_item wr doubles) (concat every) st = Inr st'" "every = [] @ every" "[] \<notin> set every"
      "list_all (wf_value h) (concat every)" "refs_of (concat []) \<subseteq> set (snd st)"
    unfolding cat using w vals by (auto simp: every_def refs_of_def)
  from groups_copied [where loop = "\<lambda>n i s. readItems rd a i n s" and mk = mk and every = every and before = "[]" and a = a,
      OF item_copies [OF c] step pre(1-4) ok pre(5), unfolded list.map list.size(3)]
  obtain v new where v: "wrote h st st' v new" "length every \<le> length v" "v = [] \<or> starts v" "refs_of (concat every) \<subseteq> set (snd st')"
    and r: "\<And>objs n rest. length objs = length (snd st) \<Longrightarrow> a < length objs \<Longrightarrow> objs ! a = mk [] \<Longrightarrow> goes_on rest \<Longrightarrow>
      readItems rd a 0 (n + length every) (v @ rest, objs) =
        readItems rd a (length every) n (rest, (objs @ clones h (snd st') new)[a := mk (map (map (clone_value (snd st'))) every)])"
    by blast
  have "map hd (map (map (clone_value (snd st'))) every) = map (clone_value (snd st')) items" by (simp add: every_def)
  then have "mk (map (map (clone_value (snd st'))) every) = ArrayObject len (clone_properties (snd st') (zip ?keys items))"
    unfolding mk_def clone_properties_def by (simp add: zip_map2)
  moreover have "mk [] = ArrayObject len []" by (simp add: mk_def)
  ultimately show ?thesis using v r [of _ _ 0] by (intro exI [of _ v] exI [of _ new]) (simp add: cat readItems.simps(1))
qed

lemma dense_copied:
  assumes c: "copies h wr rd" and wf: "wf_object env h (ArrayObject len ps)" and ok: "ok_ids h (snd st)"
    and n: "length (filter (is_index \<circ> fst) ps) = len" and w: "writeArray wr len ps st = Inr st'"
  shows "object_copied env h rd (ArrayObject len ps) st st'"
proof -
  let ?keys = "map (to_base 10) [0..<len]"
  define indexed where "indexed = filter (is_index \<circ> fst) ps"
  define named where "named = filter (\<lambda>p. \<not> is_index (fst p)) ps"
  define items where "items = map snd indexed"
  have keys: "wf_keys (map fst ps)" and vals: "list_all (wf_value h \<circ> snd) ps" and len: "len < 4294967296"
    using wf by (simp_all add: wf_object_def)
  have ps: "ps = indexed @ named" using split_keys [of ps] keys by (simp add: indexed_def named_def wf_keys_def)
  have ik: "map fst indexed = ?keys" using dense_keys [OF wf n] by (simp add: indexed_def)
  then have iz: "indexed = zip ?keys items" "length items = len" by (simp_all add: items_def zip_map_fst_snd flip: ik) (metis ik length_map length_upt minus_nat.diff_0)
  have "map (\<lambda>i. case map_of ps (to_base 10 i) of Some v \<Rightarrow> v | None \<Rightarrow> VUndefined) [0..<len] = items"
  proof (rule nth_equalityI)
    fix i assume "i < length (map (\<lambda>i. case map_of ps (to_base 10 i) of Some v \<Rightarrow> v | None \<Rightarrow> VUndefined) [0..<len])"
    then have i: "i < len" by simp
    then have "indexed ! i = (to_base 10 i, items ! i)" using iz by simp
    then have "(to_base 10 i, items ! i) \<in> set ps" using i iz(2) ps by (metis Un_iff items_def length_map nth_mem set_append)
    then have "map_of ps (to_base 10 i) = Some (items ! i)" using keys by (intro map_of_is_SomeI) (simp_all add: wf_keys_def)
    then show "map (\<lambda>i. case map_of ps (to_base 10 i) of Some v \<Rightarrow> v | None \<Rightarrow> VUndefined) [0..<len] ! i = items ! i" using i by simp
  qed (simp add: iz(2))
  then obtain st1 st2 where st1: "write_list (write_item wr (as_doubles items)) items (put_bytes (0x41 # varint_bytes len) st) = Inr st1"
    and st2: "write_list (write_property wr) named st1 = Inr st2"
    and st': "st' = put_bytes (0x24 # varint_bytes (length named) @ varint_bytes len) st2"
    using w n by (auto simp: writeArray_def Let_def bindE_eq_Inr simp flip: named_def)
  let ?p = "0x41 # varint_bytes len" and ?q = "0x24 # varint_bytes (length named) @ varint_bytes len"
  let ?a = "length (snd st) - 1"
  have okp: "ok_ids h (snd (put_bytes ?p st))" using ok by (simp add: put_bytes_def)
  have vi: "list_all (wf_value h) items" and vn: "list_all (wf_value h \<circ> snd) named" using vals ps by (auto simp: items_def list_all_iff)
  from items_copied [OF c st1 vi okp iz(2) len, of ?a]
  obtain v new where v: "wrote h (put_bytes ?p st) st1 v new" "len \<le> length v" "refs_of items \<subseteq> set (snd st1)"
    and r: "\<And>objs rest. length objs = length (snd st) \<Longrightarrow> ?a < length objs \<Longrightarrow> objs ! ?a = ArrayObject len [] \<Longrightarrow> goes_on rest \<Longrightarrow>
      readItems rd ?a 0 len (v @ rest, objs) =
        Inr (rest, (objs @ clones h (snd st1) new)[?a := ArrayObject len (clone_properties (snd st1) indexed)])"
    by (auto simp: put_bytes_def iz(1))
  have ri: "(\<Union>p \<in> set indexed. value_refs (snd p)) \<subseteq> set (snd st1)" using v(3) by (simp add: refs_of_def items_def)
  from properties_copied [where mk = "ArrayObject len" and every = ps and before = indexed and t = "0x24" and env = env,
      OF c array_property [OF wf] _ st2 ps keys vn wroteD(3) [OF v(1)] ri]
  obtain u more_new where u: "wrote h st1 st2 u more_new" "length named \<le> length u" "u = [] \<or> starts u"
      "(\<Union>p \<in> set ps. value_refs (snd p)) \<subseteq> set (snd st2)"
    and q: "\<And>objs a n rest. length objs = length (snd st1) \<Longrightarrow> a < length objs \<Longrightarrow>
      objs ! a = ArrayObject len (clone_properties (snd st1) indexed) \<Longrightarrow> length named < n \<Longrightarrow>
      readProperties env rd a 0x24 n (u @ 0x24 # rest, objs) =
        Inr (length named, rest, (objs @ clones h (snd st2) more_new)[a := ArrayObject len (clone_properties (snd st2) ps)])"
    by auto
  have fin: "wrote h st st' (?p @ (v @ u) @ ?q) (new @ more_new)"
    using written_trans [OF written_trans [OF written_nothing [OF ok, of ?p] written_trans [OF v(1) u(1)]]
        written_nothing [OF wroteD(3) [OF u(1)], of ?q]] by (simp add: st')
  have ids: "snd st' = snd st2" by (simp add: st' put_bytes_def)
  show ?thesis
    unfolding object_copied_def
  proof (intro exI [of _ "0x41"] exI [of _ "varint_bytes len @ (v @ u) @ ?q"] exI [of _ "new @ more_new"] conjI allI impI)
    show "wrote h st st' (0x41 # varint_bytes len @ (v @ u) @ ?q) (new @ more_new)" using fin by simp
    show "object_refs (ArrayObject len ps) \<subseteq> set (snd st')" using u(4) by (simp add: object_refs_def ids)
    fix objs :: objects and rest
    assume l: "Suc (length objs) = length (snd st)"
    have n: "length named < 4294967296" using keys by (simp add: wf_keys_def ps)
    have a: "?a = length objs" using l by simp
    let ?objs = "objs @ ArrayObject len (clone_properties (snd st1) indexed) # clones h (snd st1) new"
    have "goes_on (u @ ?q @ rest)" using u(3) starts_follows by (auto simp: goes_on_def)
    then have "readItems rd (length objs) 0 len (v @ u @ ?q @ rest, objs @ [ArrayObject len []]) = Inr (u @ ?q @ rest, ?objs)"
      using r [of "objs @ [ArrayObject len []]" "u @ ?q @ rest"] l unfolding a by simp
    moreover have "readProperties env rd (length objs) 0x24 (Suc (length (u @ ?q @ rest))) (u @ ?q @ rest, ?objs) =
      Inr (length named, varint_bytes (length named) @ varint_bytes len @ rest,
        objs @ ArrayObject len (clone_properties (snd st2) ps) # clones h (snd st2) (new @ more_new))"
      using q [of ?objs "length objs"] u(2) l written_ids [OF v(1)] unfolding written_clones [OF v(1) u(1)]
      by (simp add: clones_simps put_bytes_def list_update_append)
    moreover have "\<not> length (v @ u @ ?q @ rest) < len" using v(2) by simp
    ultimately show "read_record env rd 0x41 ((varint_bytes len @ (v @ u) @ ?q) @ rest, objs) =
      Inr (VRef (length objs), rest, objs @ clone_object h (snd st') (ArrayObject len ps) # clones h (snd st') (new @ more_new))"
      by (simp add: read_record_def readDense_def remember_def lift_written n len clone_object_def ids Let_def)
  qed (simp_all add: starts_def)
qed

end
