(* ===== verification/V8Collections.thy ===== *)
theory V8Collections
  imports V8Objects
begin

text \<open>
  What is read of a map, a set and an error that was written: its copy, with the entries in the same order, and with a cause
  that may refer to the error itself.
\<close>

unbundle bit_operations_syntax

subsection \<open>Maps and sets\<close>

lemma same_zero_clone: "same_zero v = v \<Longrightarrow> same_zero (clone_value ids v) = clone_value ids v"
  by (cases v) (auto simp: same_zero_def clone_value_def)

lemma clone_new:
  assumes "v \<notin> set vs" and "refs_of (v # vs) \<subseteq> set ids"
  shows "clone_value ids v \<notin> clone_value ids ` set vs"
proof
  assume "clone_value ids v \<in> clone_value ids ` set vs"
  then obtain w where w: "w \<in> set vs" "clone_value ids v = clone_value ids w" by blast
  moreover have "value_refs v \<subseteq> set ids" "value_refs w \<subseteq> set ids" using assms(2) w(1) by (auto simp: refs_of_def)
  ultimately have "v = w" using clone_value_inj by blast
  then show False using w(1) assms(1) by blast
qed

lemma map_put_new: "k \<notin> fst ` set es \<Longrightarrow> map_put k v es = es @ [(k, v)]"
  by (induction es) auto

lemma read_two: "read_values rd (Suc (Suc 0)) st = Inr ([k, v], st') \<longleftrightarrow> (\<exists>s. rd st = Inr (k, s) \<and> rd s = Inr (v, st'))"
  by (cases st') (auto simp: bindE_eq_Inr)

lemma entries_written:
  "write_list (\<lambda>(k, v) st. bindE (wr k st) (wr v)) es st = write_list wr (concat (map (\<lambda>(k, v). [k, v]) es)) st"
proof (induction es arbitrary: st)
  case (Cons e es)
  then show ?case by (cases e; cases "wr (fst e) st") (auto simp: bindE_def split: sum.splits)
qed simp

lemma entries_copied:
  assumes c: "copies h wr rd" and w: "write_list (\<lambda>(k, v) st. bindE (wr k st) (wr v)) es st = Inr st'"
    and wf: "wf_object env h (MapObject es)" and ok: "ok_ids h (snd st)"
  shows "\<exists>w new. wrote h st st' w new \<and> length es \<le> length w \<and> object_refs (MapObject es) \<subseteq> set (snd st') \<and>
    (\<forall>objs n rest. length objs = length (snd st) \<longrightarrow> a < length objs \<longrightarrow> objs ! a = MapObject [] \<longrightarrow> length es < n \<longrightarrow>
       readMap rd a n (w @ 0x3a # rest, objs) =
         Inr (length es * 2, rest, (objs @ clones h (snd st') new)[a := clone_object h (snd st') (MapObject es)]))"
proof -
  define pair where "pair = (\<lambda>g :: jvalue list. (g ! 0, g ! 1))"
  define mk where "mk = (\<lambda>gs. MapObject (map pair gs))"
  define every where "every = map (\<lambda>(k, v). [k, v]) es"
  define loop where "loop = (\<lambda>n i s. bindE (readMap rd a n s) (\<lambda>(c, s). Inr (c + i * 2, s)))"
  have keys: "distinct (map fst es)" and vals: "\<forall>e \<in> set es. wf_value h (fst e) \<and> same_zero (fst e) = fst e \<and> wf_value h (snd e)"
    using wf by (auto simp: wf_object_def list_all_iff)
  have step: "puts_groups rd loop mk every a"
    unfolding puts_groups_def
  proof (intro allI impI)
    fix n s s' ids before g after
    assume e: "every = before @ g # after" and sw: "starts (fst s)" and refs: "refs_of (concat before @ g) \<subseteq> set ids"
      and r: "read_values rd (length g) s = Inr (map (clone_value ids) g, s')"
      and obj: "snd s' ! a = mk (map (map (clone_value ids)) before)"
    obtain es1 e1 es2 where es: "es = es1 @ e1 # es2" and b: "before = map (\<lambda>(k, v). [k, v]) es1" and g1: "g = (\<lambda>(k, v). [k, v]) e1"
      using e unfolding every_def by (auto simp: map_eq_append_conv map_eq_Cons_conv)
    obtain k v where e1: "e1 = (k, v)" by (cases e1)
    have g: "g = [k, v]" by (simp add: g1 e1)
    have r2: "read_values rd (Suc (Suc 0)) s = Inr ([clone_value ids k, clone_value ids v], s')" using r by (simp add: g del: read_values.simps)
    then obtain s1 where rd: "rd s = Inr (clone_value ids k, s1)" "rd s1 = Inr (clone_value ids v, s')" using read_two by metis
    have "k \<notin> set (map fst es1)" using keys by (simp add: es e1)
    moreover have "refs_of (k # map fst es1) \<subseteq> set ids" using refs by (force simp: refs_of_def b g)
    ultimately have "clone_value ids k \<notin> clone_value ids ` set (map fst es1)" by (rule clone_new)
    moreover have "clone_value ids ` set (map fst es1) = fst ` set (map pair (map (map (clone_value ids)) before))"
      by (simp add: b pair_def image_image case_prod_beta)
    ultimately have new: "clone_value ids k \<notin> fst ` set (map pair (map (map (clone_value ids)) before))" by metis
    have "same_zero (clone_value ids k) = clone_value ids k" using vals by (intro same_zero_clone) (simp add: es e1)
    then have "map_set (clone_value ids k) (clone_value ids v) (snd s' ! a) = mk (map (map (clone_value ids)) (before @ [g]))"
      using map_put_new [OF new] by (simp add: obj mk_def map_set_def g pair_def)
    moreover have "\<not> peek_is 0x3a s" using starts_peek [OF sw, of "0x3a" "[]" "snd s"] by simp
    ultimately show "loop (Suc n) (length before) s =
      loop n (Suc (length before)) (fst s', (snd s')[a := mk (map (map (clone_value ids)) (before @ [g]))])"
      using rd by (simp add: loop_def readMap.simps(2) bindE_def case_prod_beta split: sum.splits)
  qed
  have cat: "list_all (wf_value h) (concat every)" "[] \<notin> set every" "length every = length es"
    using vals by (auto simp: every_def list_all_iff)
  have w': "write_list wr (concat every) st = Inr st'" using w by (simp add: entries_written every_def)
  have e0: "every = [] @ every" and r0: "refs_of (concat []) \<subseteq> set (snd st)" by (simp_all add: refs_of_def)
  from groups_copied [OF c step w' e0 cat(2,1) ok r0]
  obtain v new where v: "wrote h st st' v new" "length es \<le> length v" "refs_of (concat every) \<subseteq> set (snd st')"
    and r: "\<And>objs n rest. length objs = length (snd st) \<Longrightarrow> a < length objs \<Longrightarrow> objs ! a = MapObject [] \<Longrightarrow> goes_on rest \<Longrightarrow>
      loop (n + length es) 0 (v @ rest, objs) =
        loop n (length es) (rest, (objs @ clones h (snd st') new)[a := mk (map (map (clone_value (snd st'))) every)])"
    by (auto simp: cat(3) mk_def)
  have "mk (map (map (clone_value (snd st'))) every) = clone_object h (snd st') (MapObject es)"
    by (simp add: mk_def every_def pair_def clone_object_def case_prod_beta comp_def)
  note r = r [unfolded this]
  show ?thesis
  proof (intro exI [of _ v] exI [of _ new] conjI allI impI)
    show "object_refs (MapObject es) \<subseteq> set (snd st')" using v(3) by (force simp: refs_of_def object_refs_def every_def)
    fix objs :: objects and n rest
    assume "length objs = length (snd st)" "a < length objs" "objs ! a = MapObject []" and n: "length es < n"
    moreover have "goes_on (0x3a # rest)" by (simp add: goes_on_def)
    moreover obtain m where m: "n = Suc m + length es" using n less_iff_Suc_add by (metis add.commute add_Suc_right)
    ultimately have "loop n 0 (v @ 0x3a # rest, objs) = loop (Suc m) (length es)
      (0x3a # rest, (objs @ clones h (snd st') new)[a := clone_object h (snd st') (MapObject es)])" using r [of objs "0x3a # rest" "Suc m"] by simp
    then show "readMap rd a n (v @ 0x3a # rest, objs) =
         Inr (length es * 2, rest, (objs @ clones h (snd st') new)[a := clone_object h (snd st') (MapObject es)])"
      by (cases "readMap rd a n (v @ 0x3a # rest, objs)") (auto simp: loop_def readMap.simps(2) peek_end bindE_def)
  qed (use v in simp_all)
qed

lemma map_copied:
  assumes c: "copies h wr rd" and wf: "wf_object env h (MapObject es)" and ok: "ok_ids h (snd st)"
    and w: "write_object wr h (MapObject es) st = Inr st'"
  shows "object_copied env h rd (MapObject es) st st'"
proof -
  obtain st1 where st1: "write_list (\<lambda>(k, v) st. bindE (wr k st) (wr v)) es (put_bytes [0x3b] st) = Inr st1"
    and st': "st' = put_bytes (0x3a # varint_bytes (length es * 2)) st1"
    using w by (auto simp: write_object_def bindE_eq_Inr)
  let ?q = "0x3a # varint_bytes (length es * 2)"
  have "ok_ids h (snd (put_bytes [0x3b] st))" using ok by (simp add: put_bytes_def)
  from entries_copied [OF c st1 wf this, of "length (snd st) - 1"]
  obtain v new where v: "wrote h (put_bytes [0x3b] st) st1 v new" "length es \<le> length v" "object_refs (MapObject es) \<subseteq> set (snd st1)"
    and r: "\<And>objs n rest. length objs = length (snd st) \<Longrightarrow> length (snd st) - 1 < length objs \<Longrightarrow> objs ! (length (snd st) - 1) = MapObject [] \<Longrightarrow>
      length es < n \<Longrightarrow> readMap rd (length (snd st) - 1) n (v @ 0x3a # rest, objs) =
        Inr (length es * 2, rest, (objs @ clones h (snd st1) new)[length (snd st) - 1 := clone_object h (snd st1) (MapObject es)])"
    by (auto simp: put_bytes_def)
  have fin: "wrote h st st' ([0x3b] @ v @ ?q) new"
    using written_trans [OF written_trans [OF written_nothing [OF ok, of "[0x3b]"] v(1)] written_nothing [OF wroteD(3) [OF v(1)], of ?q]]
    by (simp add: st')
  have ids: "snd st' = snd st1" by (simp add: st' put_bytes_def)
  show ?thesis
    unfolding object_copied_def
  proof (intro exI [of _ "0x3b"] exI [of _ "v @ ?q"] exI [of _ new] conjI allI impI)
    show "wrote h st st' (0x3b # v @ ?q) new" using fin by simp
    show "object_refs (MapObject es) \<subseteq> set (snd st')" using v(3) by (simp add: ids)
    fix objs :: objects and rest
    assume l: "Suc (length objs) = length (snd st)"
    then have a: "length (snd st) - 1 = length objs" by simp
    have n: "length es * 2 < 4294967296" using wf by (simp add: wf_object_def)
    have "readMap rd (length objs) (Suc (length (v @ ?q @ rest))) (v @ ?q @ rest, objs @ [MapObject []]) =
      Inr (length es * 2, varint_bytes (length es * 2) @ rest, objs @ clone_object h (snd st1) (MapObject es) # clones h (snd st1) new)"
      using r [of "objs @ [MapObject []]"] v(2) l unfolding a by simp
    then show "read_record env rd 0x3b ((v @ ?q) @ rest, objs) =
      Inr (VRef (length objs), rest, objs @ clone_object h (snd st') (MapObject es) # clones h (snd st') new)"
      by (simp add: read_record_def remember_def lift_written n ids Let_def)
  qed (simp_all add: starts_def)
qed

lemma items_in_set_copied:
  assumes c: "copies h wr rd" and w: "write_list wr xs st = Inr st'" and wf: "wf_object env h (SetObject xs)" and ok: "ok_ids h (snd st)"
  shows "\<exists>w new. wrote h st st' w new \<and> length xs \<le> length w \<and> object_refs (SetObject xs) \<subseteq> set (snd st') \<and>
    (\<forall>objs n rest. length objs = length (snd st) \<longrightarrow> a < length objs \<longrightarrow> objs ! a = SetObject [] \<longrightarrow> length xs < n \<longrightarrow>
       readSet rd a n (w @ 0x2c # rest, objs) =
         Inr (length xs, rest, (objs @ clones h (snd st') new)[a := clone_object h (snd st') (SetObject xs)]))"
proof -
  define mk where "mk = (\<lambda>gs :: jvalue list list. SetObject (map hd gs))"
  define every where "every = map (\<lambda>v. [v]) xs"
  define loop where "loop = (\<lambda>n i s. bindE (readSet rd a n s) (\<lambda>(c, s). Inr (c + i, s)))"
  have d: "distinct xs" and vals: "\<forall>v \<in> set xs. wf_value h v \<and> same_zero v = v" using wf by (auto simp: wf_object_def list_all_iff)
  have step: "puts_groups rd loop mk every a"
    unfolding puts_groups_def
  proof (intro allI impI)
    fix n s s' ids before g after
    assume e: "every = before @ g # after" and sw: "starts (fst s)" and refs: "refs_of (concat before @ g) \<subseteq> set ids"
      and r: "read_values rd (length g) s = Inr (map (clone_value ids) g, s')"
      and obj: "snd s' ! a = mk (map (map (clone_value ids)) before)"
    obtain xs1 v xs2 where xs: "xs = xs1 @ v # xs2" and b: "before = map (\<lambda>v. [v]) xs1" and g: "g = [v]"
      using e unfolding every_def by (auto simp: map_eq_append_conv map_eq_Cons_conv)
    have rd: "rd s = Inr (clone_value ids v, s')" using r read_one by (simp add: g)
    have "v \<notin> set xs1" using d by (simp add: xs)
    moreover have "refs_of (v # xs1) \<subseteq> set ids" using refs by (force simp: refs_of_def b g)
    ultimately have new: "clone_value ids v \<notin> clone_value ids ` set xs1" by (rule clone_new)
    have "same_zero (clone_value ids v) = clone_value ids v" using vals by (intro same_zero_clone) (simp add: xs)
    then have "set_add (clone_value ids v) (snd s' ! a) = mk (map (map (clone_value ids)) (before @ [g]))"
      using new by (simp add: obj mk_def set_add_def g b comp_def)
    moreover have "\<not> peek_is 0x2c s" using starts_peek [OF sw, of "0x2c" "[]" "snd s"] by simp
    ultimately show "loop (Suc n) (length before) s =
      loop n (Suc (length before)) (fst s', (snd s')[a := mk (map (map (clone_value ids)) (before @ [g]))])"
      using rd by (simp add: loop_def readSet.simps(2) bindE_def case_prod_beta split: sum.splits)
  qed
  have cat: "concat every = xs" "[] \<notin> set every" "length every = length xs" by (auto simp: every_def)
  have w': "write_list wr (concat every) st = Inr st'" and l: "list_all (wf_value h) (concat every)"
    using w vals by (simp_all add: cat list_all_iff)
  have e0: "every = [] @ every" and r0: "refs_of (concat []) \<subseteq> set (snd st)" by (simp_all add: refs_of_def)
  from groups_copied [OF c step w' e0 cat(2) l ok r0]
  obtain v new where v: "wrote h st st' v new" "length xs \<le> length v" "refs_of xs \<subseteq> set (snd st')"
    and r: "\<And>objs n rest. length objs = length (snd st) \<Longrightarrow> a < length objs \<Longrightarrow> objs ! a = SetObject [] \<Longrightarrow> goes_on rest \<Longrightarrow>
      loop (n + length xs) 0 (v @ rest, objs) =
        loop n (length xs) (rest, (objs @ clones h (snd st') new)[a := mk (map (map (clone_value (snd st'))) every)])"
    by (auto simp: cat mk_def)
  have "mk (map (map (clone_value (snd st'))) every) = clone_object h (snd st') (SetObject xs)"
    by (simp add: mk_def every_def clone_object_def)
  note r = r [unfolded this]
  show ?thesis
  proof (intro exI [of _ v] exI [of _ new] conjI allI impI)
    show "object_refs (SetObject xs) \<subseteq> set (snd st')" using v(3) by (simp add: refs_of_def object_refs_def)
    fix objs :: objects and n rest
    assume "length objs = length (snd st)" "a < length objs" "objs ! a = SetObject []" and n: "length xs < n"
    moreover have "goes_on (0x2c # rest)" by (simp add: goes_on_def)
    moreover obtain m where m: "n = Suc m + length xs" using n less_iff_Suc_add by (metis add.commute add_Suc_right)
    ultimately have "loop n 0 (v @ 0x2c # rest, objs) = loop (Suc m) (length xs)
      (0x2c # rest, (objs @ clones h (snd st') new)[a := clone_object h (snd st') (SetObject xs)])"
      using r [of objs "0x2c # rest" "Suc m"] by simp
    then show "readSet rd a n (v @ 0x2c # rest, objs) =
         Inr (length xs, rest, (objs @ clones h (snd st') new)[a := clone_object h (snd st') (SetObject xs)])"
      by (cases "readSet rd a n (v @ 0x2c # rest, objs)") (auto simp: loop_def readSet.simps(2) peek_end bindE_def)
  qed (use v in simp_all)
qed

lemma set_copied:
  assumes c: "copies h wr rd" and wf: "wf_object env h (SetObject xs)" and ok: "ok_ids h (snd st)"
    and w: "write_object wr h (SetObject xs) st = Inr st'"
  shows "object_copied env h rd (SetObject xs) st st'"
proof -
  obtain st1 where st1: "write_list wr xs (put_bytes [0x27] st) = Inr st1" and st': "st' = put_bytes (0x2c # varint_bytes (length xs)) st1"
    using w by (auto simp: write_object_def bindE_eq_Inr)
  let ?q = "0x2c # varint_bytes (length xs)"
  have "ok_ids h (snd (put_bytes [0x27] st))" using ok by (simp add: put_bytes_def)
  from items_in_set_copied [OF c st1 wf this, of "length (snd st) - 1"]
  obtain v new where v: "wrote h (put_bytes [0x27] st) st1 v new" "length xs \<le> length v" "object_refs (SetObject xs) \<subseteq> set (snd st1)"
    and r: "\<And>objs n rest. length objs = length (snd st) \<Longrightarrow> length (snd st) - 1 < length objs \<Longrightarrow> objs ! (length (snd st) - 1) = SetObject [] \<Longrightarrow>
      length xs < n \<Longrightarrow> readSet rd (length (snd st) - 1) n (v @ 0x2c # rest, objs) =
        Inr (length xs, rest, (objs @ clones h (snd st1) new)[length (snd st) - 1 := clone_object h (snd st1) (SetObject xs)])"
    by (auto simp: put_bytes_def)
  have fin: "wrote h st st' ([0x27] @ v @ ?q) new"
    using written_trans [OF written_trans [OF written_nothing [OF ok, of "[0x27]"] v(1)] written_nothing [OF wroteD(3) [OF v(1)], of ?q]]
    by (simp add: st')
  have ids: "snd st' = snd st1" by (simp add: st' put_bytes_def)
  show ?thesis
    unfolding object_copied_def
  proof (intro exI [of _ "0x27"] exI [of _ "v @ ?q"] exI [of _ new] conjI allI impI)
    show "wrote h st st' (0x27 # v @ ?q) new" using fin by simp
    show "object_refs (SetObject xs) \<subseteq> set (snd st')" using v(3) by (simp add: ids)
    fix objs :: objects and rest
    assume l: "Suc (length objs) = length (snd st)"
    then have a: "length (snd st) - 1 = length objs" by simp
    have n: "length xs < 4294967296" using wf by (simp add: wf_object_def)
    have "readSet rd (length objs) (Suc (length (v @ ?q @ rest))) (v @ ?q @ rest, objs @ [SetObject []]) =
      Inr (length xs, varint_bytes (length xs) @ rest, objs @ clone_object h (snd st1) (SetObject xs) # clones h (snd st1) new)"
      using r [of "objs @ [SetObject []]"] v(2) l unfolding a by simp
    then show "read_record env rd 0x27 ((v @ ?q) @ rest, objs) =
      Inr (VRef (length objs), rest, objs @ clone_object h (snd st') (SetObject xs) # clones h (snd st') new)"
      by (simp add: read_record_def remember_def lift_written n ids Let_def)
  qed (simp_all add: starts_def)
qed

subsection \<open>Errors\<close>

lemma snd_emit: "snd (put_bytes w st) = snd st"
  by (simp add: put_bytes_def)

definition class_bytes :: "jsstr option \<Rightarrow> byte list" where
  "class_bytes name = (case name of None \<Rightarrow> [] | Some n \<Rightarrow> (case map_of ERROR_TAGS n of None \<Rightarrow> [] | Some t \<Rightarrow> [t]))"

definition part_bytes :: "byte \<Rightarrow> nat \<Rightarrow> jsstr option \<Rightarrow> byte list" where
  "part_bytes tag n part = (case part of None \<Rightarrow> [] | Some s \<Rightarrow> tag # string_bytes n s)"

lemma find_class:
  assumes "map_of ERROR_TAGS n = Some t"
  shows "find (\<lambda>(name, tag). tag = t) ERROR_TAGS = Some (n, t)"
proof -
  have "(n, t) \<in> set ERROR_TAGS" using assms by (rule map_of_SomeD)
  then show ?thesis by (auto simp: ERROR_TAGS_def)
qed

lemma find_no_class: "t \<in> {0x6d, 0x73, 0x63, 0x2e} \<Longrightarrow> find (\<lambda>(name, tag). tag = t) ERROR_TAGS = None"
  by (auto simp: ERROR_TAGS_def)

text \<open>How many rounds a part takes.\<close>

definition rounds :: "'a option \<Rightarrow> nat" where
  "rounds part = (if part = None then 0 else 1)"

lemma part_rounds: "rounds part \<le> length (part_bytes tag n part)"
  by (cases part) (simp_all add: rounds_def part_bytes_def)

lemma class_read:
  "length (class_bytes name) < n \<Longrightarrow>
   error_parts n (js ''Error'') message stack (class_bytes name @ bs) =
     error_parts (n - length (class_bytes name)) (error_class name) message stack bs"
proof (cases "name = None \<or> map_of ERROR_TAGS (the name) = None")
  case True
  then have "class_bytes name = []" "error_class name = js ''Error''"
    using map_of_eq_None_iff [of ERROR_TAGS "the name"] by (cases name; simp add: class_bytes_def error_class_def)+
  then show ?thesis by simp
next
  case False
  then obtain c t where c: "name = Some c" "map_of ERROR_TAGS c = Some t" by auto
  then have "class_bytes name = [t]" "error_class name = c"
    using map_of_eq_None_iff [of ERROR_TAGS c] by (simp_all add: class_bytes_def error_class_def)
  moreover assume "length (class_bytes name) < n"
  then obtain m where "n = Suc m" by (cases n) simp_all
  ultimately show ?thesis using find_class [OF c(2)] by (simp add: read_byte_def)
qed

lemma message_read:
  assumes "pred_option wf_string message" and "0 < n"
  shows "error_parts n ctor None stack (part_bytes 0x6d k message @ bs) = error_parts (n - rounds message) ctor message stack bs"
  using assms find_no_class [of "0x6d"]
  by (cases message; cases n) (simp_all add: part_bytes_def rounds_def read_byte_def read_string_written)

lemma stack_read:
  assumes "pred_option wf_string stack" and "0 < n"
  shows "error_parts n ctor message None (part_bytes 0x73 k stack @ bs) = error_parts (n - rounds stack) ctor message stack bs"
  using assms find_no_class [of "0x73"]
  by (cases stack; cases n) (simp_all add: part_bytes_def rounds_def read_byte_def read_string_written)

lemma error_parts_written:
  assumes "pred_option wf_string message" and "pred_option wf_string stack" and "e \<in> {0x63, 0x2e}"
    and n: "length (class_bytes name) + rounds message + rounds stack < n"
  shows "error_parts n (js ''Error'') None None (class_bytes name @ part_bytes 0x6d k message @ part_bytes 0x73 l stack @ e # bs) =
    Inr (error_class name, message, stack, e = 0x63, bs)"
proof -
  obtain m where "n - length (class_bytes name) - rounds message - rounds stack = Suc m" using n by (metis Suc_diff_Suc add.commute diff_diff_left)
  moreover have "length (class_bytes name) < n" "0 < n - length (class_bytes name)" "0 < n - length (class_bytes name) - rounds message" using n by simp_all
  ultimately show ?thesis using assms(3) find_no_class [OF _ , of e]
    by (auto simp: class_read message_read [OF assms(1)] stack_read [OF assms(2)] read_byte_def)
qed

lemma error_copied:
  assumes c: "copies h wr rd" and wf: "wf_object env h (ErrorObject name message stack cause)" and ok: "ok_ids h (snd st)"
    and w: "write_object wr h (ErrorObject name message stack cause) st = Inr st'"
  shows "object_copied env h rd (ErrorObject name message stack cause) st st'"
proof -
  let ?k = "length (fst st) + 1 + length (class_bytes name) + 1"
  let ?l = "length (fst st) + 1 + length (class_bytes name) + length (part_bytes 0x6d ?k message) + 1"
  let ?p = "class_bytes name @ part_bytes 0x6d ?k message @ part_bytes 0x73 ?l stack"
  have wfs: "pred_option wf_string message" "pred_option wf_string stack" "pred_option (wf_value h) cause"
    using wf by (simp_all add: wf_object_def)
  have w1: "bindE (case cause of None \<Rightarrow> Inr (put_bytes (0x72 # ?p) st) | Some v \<Rightarrow> wr v (put_bytes (0x72 # ?p @ [0x63]) st)) (\<lambda>st. Inr (put_bytes [0x2e] st)) = Inr st'"
    using w by (cases name; cases message; cases stack; cases cause; cases "map_of ERROR_TAGS (the name)")
      (simp_all add: write_object_def writeError_def Let_def class_bytes_def part_bytes_def write_string_def put_bytes_def)
  have parts: "error_parts (Suc (length (?p @ e # bs))) (js ''Error'') None None (?p @ e # bs) = Inr (error_class name, message, stack, e = 0x63, bs)"
    if "e \<in> {0x63, 0x2e}" for e bs
    using error_parts_written [OF wfs(1,2) that, of name "Suc (length (?p @ e # bs))" ?k ?l bs]
      part_rounds [of message "0x6d" ?k] part_rounds [of stack "0x73" ?l] by simp
  define p where "p = ?p"
  note parts = parts [folded p_def] and w1 = w1 [folded p_def]
  show ?thesis
  proof (cases cause)
    case None
    then have st': "st' = put_bytes (0x72 # p @ [0x2e]) st" using w1 by (simp add: put_bytes_def)
    show ?thesis
    proof (rule simple_copied [OF st' ok])
      show "read_record env rd 0x72 ((p @ [0x2e]) @ rest, objs) =
        Inr (remember (clone_object h (snd st') (ErrorObject name message stack cause)) (rest, objs))" for objs rest
        using parts [of "0x2e" rest] by (simp add: read_record_def readError_def None remember_def clone_object_def Let_def)
    qed (simp_all add: starts_def object_refs_def None)
  next
    case (Some v)
    then obtain st1 where st1: "wr v (put_bytes (0x72 # p @ [0x63]) st) = Inr st1" and st': "st' = put_bytes [0x2e] st1"
      using w1 by (auto simp: bindE_eq_Inr)
    have "wf_value h v" "ok_ids h (snd (put_bytes (0x72 # p @ [0x63]) st))" using wfs(3) ok by (simp_all add: Some put_bytes_def)
    then obtain u new where u: "wrote h (put_bytes (0x72 # p @ [0x63]) st) st1 u new" "value_refs v \<subseteq> set (snd st1)"
      and r: "\<And>objs rest. length objs = length (snd st) \<Longrightarrow> goes_on rest \<Longrightarrow>
        rd (u @ rest, objs) = Inr (clone_value (snd st1) v, rest, objs @ clones h (snd st1) new)" using copiesE [OF c st1] unfolding snd_emit by metis
    have fin: "wrote h st st' ((0x72 # p @ [0x63]) @ u @ [0x2e]) new"
      using written_trans [OF written_trans [OF written_nothing [OF ok, of "0x72 # p @ [0x63]"] u(1)] written_nothing [OF wroteD(3) [OF u(1)], of "[0x2e]"]]
      by (simp add: st')
    have ids: "snd st' = snd st1" by (simp add: st' put_bytes_def)
    show ?thesis
      unfolding object_copied_def
    proof (intro exI [of _ "0x72"] exI [of _ "p @ 0x63 # u @ [0x2e]"] exI [of _ new] conjI allI impI)
      show "wrote h st st' (0x72 # p @ 0x63 # u @ [0x2e]) new" using fin by simp
      show "object_refs (ErrorObject name message stack cause) \<subseteq> set (snd st')" using u(2) by (simp add: ids object_refs_def Some)
      fix objs :: objects and rest
      assume l: "Suc (length objs) = length (snd st)"
      let ?e = "\<lambda>cause. ErrorObject (Some (error_class name)) message stack cause"
      have "rd (u @ 0x2e # rest, objs @ [?e None]) = Inr (clone_value (snd st1) v, 0x2e # rest, objs @ ?e None # clones h (snd st1) new)"
        using r [of "objs @ [?e None]" "0x2e # rest"] l by (simp add: goes_on_def)
      moreover have "error_parts (Suc (length ((p @ 0x63 # u @ [0x2e]) @ rest))) (js ''Error'') None None ((p @ 0x63 # u @ [0x2e]) @ rest) =
        Inr (error_class name, message, stack, True, u @ 0x2e # rest)" using parts [of "0x63" "u @ 0x2e # rest"] by simp
      ultimately show "read_record env rd 0x72 ((p @ 0x63 # u @ [0x2e]) @ rest, objs) =
        Inr (VRef (length objs), rest, objs @ clone_object h (snd st') (ErrorObject name message stack cause) # clones h (snd st') new)"
        by (simp add: read_record_def readError_def remember_def Let_def lift_def read_byte_def clone_object_def Some ids del: error_parts.simps)
    qed (simp_all add: starts_def)
  qed
qed

end
