(* ===== verification/V8Clone.thy ===== *)
theory V8Clone
  imports V8Collections
begin

text \<open>
  The round trip of \<open>serialize\<close> and \<open>deserialize\<close> (\<open>node-v8.js\<close>): every kind of object, and a whole graph of objects with
  shared and cyclic references.
\<close>

unbundle bit_operations_syntax

subsection \<open>Regular expressions and memory\<close>

lemma or_less: "(m :: nat) < 2 ^ k \<Longrightarrow> n < 2 ^ k \<Longrightarrow> m OR n < 2 ^ k"
  by (metis take_bit_nat_eq_self_iff take_bit_or)

lemma flag_bits_less: "a < 2 ^ 9 \<Longrightarrow> foldl (OR) a (map flag_bit fs) < 2 ^ 9"
proof (induction fs arbitrary: a)
  case (Cons f fs)
  have "flag_bit f < 2 ^ 9" by (simp add: flag_bit_def)
  with Cons show ?case using or_less [of a 9 "flag_bit f"] by simp
qed simp

lemma flag_bits_and: "foldl (OR) a (map flag_bit fs) AND b \<noteq> 0 \<longleftrightarrow> a AND b \<noteq> 0 \<or> (\<exists>f \<in> set fs. flag_bit f AND b \<noteq> 0)"
proof (induction fs arbitrary: a)
  case (Cons f fs)
  have "(a OR flag_bit f) AND b = (a AND b) OR (flag_bit f AND b)" by (rule bit_eqI) (auto simp: bit_and_iff bit_or_iff)
  then show ?case using Cons [of "a OR flag_bit f"] by (auto simp: or_eq_0_iff)
qed simp

lemma one_flag: "f \<in> set ''dgimsuvy'' \<Longrightarrow> g \<in> set ''dgimsuvy'' \<Longrightarrow> flag_bit g AND flag_bit f \<noteq> 0 \<longleftrightarrow> g = f"
proof -
  have "list_all (\<lambda>f. list_all (\<lambda>g. (flag_bit g AND flag_bit f \<noteq> 0) = (g = f)) ''dgimsuvy'') ''dgimsuvy''"
    by (simp add: flag_bit_def)
  then show "f \<in> set ''dgimsuvy'' \<Longrightarrow> g \<in> set ''dgimsuvy'' \<Longrightarrow> flag_bit g AND flag_bit f \<noteq> 0 \<longleftrightarrow> g = f"
    unfolding list_all_iff by blast
qed

lemma flags_read:
  assumes "flags = filter (\<lambda>f. f \<in> set flags) ''dgimsuvy''"
  shows "filter (\<lambda>f. f \<in> set (read_flags (foldl (OR) 0 (map flag_bit flags)))) ''dgimsuvy'' = flags"
proof -
  have sub: "set flags \<subseteq> set ''dgimsuvy''" using assms by (metis filter_is_subset)
  have "f \<in> set (read_flags (foldl (OR) 0 (map flag_bit flags))) \<longleftrightarrow> f \<in> set flags" if f: "f \<in> set ''dgimsuvy''" for f
  proof -
    have "f \<in> set ''gimyusdv''" using f by auto
    then have "f \<in> set (read_flags (foldl (OR) 0 (map flag_bit flags))) \<longleftrightarrow> (\<exists>g \<in> set flags. flag_bit g AND flag_bit f \<noteq> 0)"
      by (simp only: read_flags_def set_filter mem_Collect_eq flag_bits_and) simp
    also have "\<dots> \<longleftrightarrow> f \<in> set flags" using one_flag [OF f] sub by blast
    finally show ?thesis .
  qed
  then have "filter (\<lambda>f. f \<in> set (read_flags (foldl (OR) 0 (map flag_bit flags)))) ''dgimsuvy'' = filter (\<lambda>f. f \<in> set flags) ''dgimsuvy''"
    by (rule filter_cong [OF refl])
  then show ?thesis using assms [symmetric] by (rule trans)
qed

lemma host_view_read:
  assumes "wf_view env i bs"
  shows "readHostObject env (varint_bytes i @ varint_bytes (length bs) @ bs @ rest) = Inr (HostView i bs, rest)"
proof -
  have "i < 4294967296" "length bs < 4294967296" "view_exists env i" "length bs mod VIEW_SIZES ! i = 0"
    using assms by (auto simp: wf_view_def view_exists_def dvd_eq_mod_eq_0)
  then show ?thesis by (simp add: readHostObject_def varint.get_put take_bytes_append)
qed

lemma buffer_read:
  assumes "wf_object env h (BufferObject bs mx)"
  shows "\<exists>tag body. (case mx of None \<Rightarrow> 0x42 # varint_bytes (length bs) | Some n \<Rightarrow> 0x7e # varint_bytes (length bs) @ varint_bytes n) @ bs = tag # body \<and>
    tag \<in> {0x42, 0x7e} \<and> (\<forall>rest. readBuffer tag (body @ rest) = Inr (BufferObject bs mx, rest))"
  using assms by (cases mx) (simp_all add: wf_object_def readBuffer_def varint.get_put take_bytes_append)

subsection \<open>Every kind of object\<close>

lemma object_copies:
  assumes c: "copies h wr rd" and wf: "wf_object env h obj" and ok: "ok_ids h (snd st)" and w: "write_object wr h obj st = Inr st'"
  shows "object_copied env h rd obj st st'"
proof (cases obj)
  case (PlainObject ps)
  then show ?thesis using plain_copied [OF c _ ok] wf w by (simp add: write_object_def)
next
  case (ArrayObject len ps)
  show ?thesis
  proof (cases "length (filter (is_index \<circ> fst) ps) = len")
    case True
    then show ?thesis using dense_copied [OF c _ ok True] wf w by (simp add: ArrayObject write_object_def)
  next
    case False
    then obtain st1 where "write_list (write_property wr) ps (put_bytes (0x61 # varint_bytes len) st) = Inr st1"
      and "st' = put_bytes (0x40 # varint_bytes (length ps) @ varint_bytes len) st1"
      using w by (auto simp: ArrayObject write_object_def writeArray_def Let_def bindE_eq_Inr)
    then show ?thesis using sparse_copied [OF c _ ok] wf by (simp add: ArrayObject)
  qed
next
  case (DateObject x)
  then have st: "st' = put_bytes (0x44 # double_bytes x) st" "wf_number x" "time_clip x = x" using w wf by (simp_all add: write_object_def wf_object_def)
  show ?thesis
    by (rule simple_copied [OF st(1) ok])
      (use st(2,3) in \<open>simp_all add: DateObject starts_def object_refs_def read_record_def lift_written clone_object_def\<close>)
next
  case (BooleanObject b)
  then have st: "st' = put_bytes ((if b then 0x79 else 0x78) # []) st" using w by (simp add: write_object_def)
  show ?thesis
    by (rule simple_copied [OF st ok])
      (use ok in \<open>simp_all add: BooleanObject starts_def object_refs_def read_record_def clone_object_def\<close>)
next
  case (NumberObject x)
  then have st: "st' = put_bytes (0x6e # double_bytes x) st" "wf_number x" using w wf by (simp_all add: write_object_def wf_object_def)
  show ?thesis
    by (rule simple_copied [OF st(1) ok])
      (use st(2) in \<open>simp_all add: NumberObject starts_def object_refs_def read_record_def lift_written clone_object_def\<close>)
next
  case (BigIntObject n)
  then have st: "st' = put_bytes (0x7a # bigint_bytes n) st" "wf_bigint n" using w wf by (simp_all add: write_object_def wf_object_def)
  show ?thesis
    by (rule simple_copied [OF st(1) ok])
      (use st(2) in \<open>simp_all add: BigIntObject starts_def object_refs_def read_record_def lift_written clone_object_def\<close>)
next
  case (StringObject s)
  then have st: "st' = put_bytes (0x73 # string_bytes (Suc (length (fst st))) s) st" "wf_string s"
    using w wf by (simp_all add: write_object_def wf_object_def write_string_def put_bytes_def)
  show ?thesis
    by (rule simple_copied [OF st(1) ok])
      (use st(2) in \<open>simp_all add: StringObject starts_def object_refs_def read_record_def lift_written clone_object_def\<close>)
next
  case (RegExpObject source flags)
  define bits where "bits = foldl (OR) 0 (map flag_bit flags)"
  have st: "st' = put_bytes (0x52 # string_bytes (Suc (length (fst st))) source @ varint_bytes bits) st"
    using w by (simp add: RegExpObject write_object_def writeRegExp_def write_string_def put_bytes_def bits_def)
  have wfr: "wf_string source" "regexp_source env source = source" "regexp_valid env source (read_flags bits)"
    "flags = filter (\<lambda>f. f \<in> set flags) ''dgimsuvy''"
    using wf by (simp_all only: RegExpObject wf_object_def jobject.case bits_def)
  have bits: "bits < 4294967296" using flag_bits_less [of 0 flags] by (simp add: bits_def)
  have "new_RegExp env source (read_flags bits) = Inr (RegExpObject source flags)"
    unfolding new_RegExp_def bits_def flags_read [OF wfr(4)] using wfr(2,3) by (simp only: bits_def if_True)
  then show ?thesis using wfr(1)
    by (intro simple_copied [OF st ok])
      (simp_all add: RegExpObject starts_def object_refs_def read_record_def lift_written bits clone_object_def)
next
  case (MapObject es)
  then show ?thesis using map_copied [OF c _ ok] wf w by simp
next
  case (SetObject xs)
  then show ?thesis using set_copied [OF c _ ok] wf w by simp
next
  case (BufferObject bs mx)
  from buffer_read [of env h bs mx] wf obtain tag body where
    b: "(case mx of None \<Rightarrow> 0x42 # varint_bytes (length bs) | Some n \<Rightarrow> 0x7e # varint_bytes (length bs) @ varint_bytes n) @ bs = tag # body"
    and tag: "tag \<in> {0x42, 0x7e}" and r: "\<And>rest. readBuffer tag (body @ rest) = Inr (BufferObject bs mx, rest)" by (auto simp: BufferObject)
  have st: "st' = put_bytes (tag # body) st" using w b by (simp add: BufferObject write_object_def writeArrayBuffer_def)
  show ?thesis
    by (rule simple_copied [OF st ok])
      (use tag in \<open>auto simp: BufferObject starts_def object_refs_def read_record_def clone_object_def lift_def r\<close>)
next
  case (HostView i bs)
  then have st: "st' = put_bytes (0x5c # varint_bytes i @ varint_bytes (length bs) @ bs) st" "wf_view env i bs"
    using w wf by (simp_all add: write_object_def wf_object_def writeHostObject_def)
  show ?thesis
    by (rule simple_copied [OF st(1) ok])
      (use st(2) in \<open>simp_all add: HostView starts_def object_refs_def read_record_def clone_object_def lift_def host_view_read\<close>)
next
  case (SharedView i a offset len)
  then have st: "st' = put_bytes (0x5c # varint_bytes i @ varint_bytes (length (view_bytes h a offset len)) @ view_bytes h a offset len) st"
    "wf_view env i (view_bytes h a offset len)"
    using w wf by (simp_all add: write_object_def wf_object_def writeHostObject_def)
  show ?thesis
    by (rule simple_copied [OF st(1) ok])
      (use st(2) in \<open>simp_all add: SharedView starts_def object_refs_def read_record_def clone_object_def lift_def host_view_read\<close>)
next
  case (ErrorObject name message stack cause)
  then show ?thesis using error_copied [OF c _ ok] wf w by simp
qed (use w in \<open>simp add: write_object_def\<close>)

subsection \<open>The whole graph\<close>

lemma skip_starts: "starts (b # bs) \<Longrightarrow> b \<noteq> 0 \<Longrightarrow> lift read_byte (skip_padding (b # bs), objs) = Inr (b, bs, objs)"
  by (simp add: lift_def read_byte_def)

text \<open>Numbers and strings are read at any depth.\<close>

lemma scalars_read:
  "wf_string key \<Longrightarrow> readObject env version (Suc d) (string_bytes n key @ rest, objs) = Inr (VStr key, rest, objs)"
  "wf_number x \<Longrightarrow> readObject env version (Suc d) (0x4e # double_bytes x @ rest, objs) = Inr (VNum x, rest, objs)"
  "wf_number x \<Longrightarrow> readObject env version (Suc d) (number_bytes x @ rest, objs) = Inr (VNum x, rest, objs)"
proof -
  show "readObject env version (Suc d) (string_bytes n key @ rest, objs) = Inr (VStr key, rest, objs)" if key: "wf_string key"
  proof -
    obtain t body where t: "t \<in> {0x22, 0x63}" "skip_padding (string_bytes n key @ rest) = t # body" "read_string_body t body = Inr (key, rest)"
      using read_string_bytes [OF key, of n rest] by blast
    then have "read_record env (readObject env version d) t (body, objs) = Inr (VStr key, rest, objs)"
      by (auto simp: read_record_def lift_def)
    with t(2) show ?thesis by (simp add: lift_def read_byte_def)
  qed
  show double: "readObject env version (Suc d) (0x4e # double_bytes x @ rest, objs) = Inr (VNum x, rest, objs)" if "wf_number x" for x
    using that by (simp add: lift_def [of read_byte] read_byte_def read_record_def lift_written)
  assume x: "wf_number x"
  show "readObject env version (Suc d) (number_bytes x @ rest, objs) = Inr (VNum x, rest, objs)"
  proof (cases "\<exists>i. x = IntNum i \<and> is_int32 x")
    case True
    then obtain i where i: "x = IntNum i" "- 2147483648 \<le> i" "i \<le> 2147483647" by (auto simp: is_int32_def)
    then show ?thesis using unzigzag_zigzag [OF i(2,3)] True
      by (simp add: number_bytes_def lift_def [of read_byte] read_byte_def read_record_def lift_written)
  next
    case False
    then have "number_bytes x = 0x4e # double_bytes x" by (cases x) (simp_all add: number_bytes_def)
    then show ?thesis using double [OF x] by simp
  qed
qed

lemma plain_value_copied:
  assumes "st' = put_bytes w st" and "ok_ids h (snd st)" and "starts w" and "value_refs v = {}"
    and "\<And>objs rest. rd (w @ rest, objs) = Inr (v, rest, objs)"
  shows "value_copied h rd st st' v"
  unfolding value_copied_def
proof (intro exI [of _ w] exI [of _ "[]"] conjI allI impI)
  show "wrote h st st' w []" unfolding assms(1) using assms(2) by (rule written_nothing)
  have "clone_value (snd st') v = v" using assms(4) by (cases v) (simp_all add: clone_value_def value_refs_def)
  then show "rd (w @ rest, objs) = Inr (clone_value (snd st') v, rest, objs @ clones h (snd st') [])" for objs rest
    using assms(5) by (simp add: clones_simps)
qed (use assms in simp_all)

lemma peek_follows: "goes_on rest \<Longrightarrow> \<not> peek_is 0x56 (rest, objs)"
  by (simp add: goes_on_def peek_is_def)

lemma ok_ids_length: "ok_ids h ids \<Longrightarrow> length ids \<le> length h"
  using card_mono [of "{..<length h}" "set ids"] by (auto simp: ok_ids_def distinct_card)

text \<open>An object that has an id is written as that.\<close>

lemma seen_copied:
  assumes wf: "wf_heap env h" and ok: "ok_ids h (snd st)" and a: "a \<in> set (snd st)"
  shows "value_copied h (readObject env version (Suc d)) st (put_bytes (0x5e # varint_bytes (object_id (snd st) a)) st) (VRef a)"
  unfolding value_copied_def
proof (intro exI [of _ "0x5e # varint_bytes (object_id (snd st) a)"] exI [of _ "[]"] conjI allI impI)
  let ?st = "put_bytes (0x5e # varint_bytes (object_id (snd st) a)) st"
  show "wrote h st ?st (0x5e # varint_bytes (object_id (snd st) a)) []" using ok by (rule written_nothing)
  show "value_refs (VRef a) \<subseteq> set (snd ?st)" using a by (simp add: value_refs_def put_bytes_def)
  fix objs :: objects and rest
  assume l: "length objs = length (snd st)" and f: "goes_on rest"
  have i: "object_id (snd st) a < length (snd st)" using a by (rule object_id_less)
  have "length h < 4294967296" using wf by (simp add: wf_heap_def)
  then have n: "object_id (snd st) a < 4294967296" using i ok_ids_length [OF ok] by simp
  show "readObject env version (Suc d) ((0x5e # varint_bytes (object_id (snd st) a)) @ rest, objs) =
    Inr (clone_value (snd ?st) (VRef a), rest, objs @ clones h (snd ?st) [])"
    using i l peek_follows [OF f]
    by (simp add: lift_def [of read_byte] read_byte_def read_record_def lift_written n clone_value_def put_bytes_def clones_simps)
qed (simp add: starts_def)

text \<open>An object that has none gets the next, which is the place of the object the reader remembers.\<close>

lemma new_copied:
  assumes wf: "wf_heap env h" and ok: "ok_ids h (snd st)" and a: "a < length h" "a \<notin> set (snd st)"
    and c: "copies h wr (readObject env version d)" and w: "write_object wr h (h ! a) (fst st, snd st @ [a]) = Inr st'"
  shows "value_copied h (readObject env version (Suc d)) st st' (VRef a)"
proof -
  let ?st = "(fst st, snd st @ [a])"
  have "ok_ids h (snd ?st)" using ok a by (simp add: ok_ids_def)
  moreover have "wf_object env h (h ! a)" using wf a(1) by (simp add: wf_heap_def list_all_length)
  ultimately have "object_copied env h (readObject env version d) (h ! a) ?st st'" using object_copies [OF c] w by blast
  then obtain t body new where new: "wrote h ?st st' (t # body) new" "t \<noteq> 0" "starts (t # body)" "object_refs (h ! a) \<subseteq> set (snd st')"
    and r: "\<And>objs rest. Suc (length objs) = length (snd ?st) \<Longrightarrow> goes_on rest \<Longrightarrow>
      read_record env (readObject env version d) t (body @ rest, objs) =
        Inr (VRef (length objs), rest, objs @ clone_object h (snd st') (h ! a) # clones h (snd st') new)"
    unfolding object_copied_def by blast
  note n = wroteD [OF new(1)]
  have ids: "snd st' = snd st @ a # new" using n(2) by simp
  show ?thesis
    unfolding value_copied_def
  proof (intro exI [of _ "t # body"] exI [of _ "a # new"] conjI allI impI)
    show "wrote h st st' (t # body) (a # new)" using n new(4) ids by (intro wroteI) auto
    show "value_refs (VRef a) \<subseteq> set (snd st')" by (simp add: ids value_refs_def)
    fix objs :: objects and rest
    assume l: "length objs = length (snd st)" and f: "goes_on rest"
    have "clone_value (snd st') (VRef a) = VRef (length objs)" by (simp add: clone_value_def ids object_id_new [OF a(2)] l)
    then show "readObject env version (Suc d) ((t # body) @ rest, objs) =
      Inr (clone_value (snd st') (VRef a), rest, objs @ clones h (snd st') (a # new))"
      using r [of objs rest] l f new(2) peek_follows [OF f] by (simp add: lift_def [of read_byte] read_byte_def clones_def)
  qed (rule new(3))
qed

text \<open>
  The reader nests one level deeper than the writer: doubles in an array are written without a call of \<open>writeObject\<close>.
\<close>

lemma graph_copies:
  assumes wf: "wf_heap env h"
  shows "copies h (writeObject d h) (readObject env version (Suc d))"
proof (induction d)
  case 0
  show ?case unfolding copies_def using scalars_read by simp
next
  case (Suc d)
  have step: "value_copied h (readObject env version (Suc (Suc d))) st st' v"
    if w: "writeObject (Suc d) h v st = Inr st'" and wfv: "wf_value h v" and ok: "ok_ids h (snd st)" for v st st'
  proof (cases v)
    case (VNum x)
    then have st: "st' = put_bytes (number_bytes x) st" "wf_number x" using w wfv by (simp_all add: wf_value_def)
    show ?thesis by (rule plain_value_copied [OF st(1) ok starts_number]) (simp_all add: VNum value_refs_def scalars_read st(2) del: readObject.simps)
  next
    case (VStr s)
    then have st: "st' = put_bytes (string_bytes (length (fst st)) s) st" "wf_string s" using w wfv by (simp_all add: wf_value_def write_string_def)
    show ?thesis by (rule plain_value_copied [OF st(1) ok starts_string]) (simp_all add: VStr value_refs_def scalars_read st(2) del: readObject.simps)
  next
    case (VBigInt n)
    then have st: "st' = put_bytes (0x5a # bigint_bytes n) st" "wf_bigint n" using w wfv by (simp_all add: wf_value_def)
    show ?thesis
      by (rule plain_value_copied [OF st(1) ok])
        (simp_all add: VBigInt value_refs_def starts_def lift_def [of read_byte] read_byte_def read_record_def lift_written st(2))
  next
    case (VRef a)
    show ?thesis
    proof (cases "a \<in> set (snd st)")
      case True
      then show ?thesis using seen_copied [OF wf ok True] w by (simp add: VRef)
    next
      case False
      then show ?thesis using new_copied [OF wf ok _ False Suc.IH] w wfv by (simp add: VRef wf_value_def)
    qed
  next
    case VUndefined
    then have st: "st' = put_bytes [0x5f] st" using w by simp
    show ?thesis
      by (rule plain_value_copied [OF st ok]) (simp_all add: VUndefined value_refs_def starts_def lift_def read_byte_def read_record_def)
  next
    case VNull
    then have st: "st' = put_bytes [0x30] st" using w by simp
    show ?thesis
      by (rule plain_value_copied [OF st ok]) (simp_all add: VNull value_refs_def starts_def lift_def read_byte_def read_record_def)
  next
    case (VBool b)
    then have st: "st' = put_bytes [if b then 0x54 else 0x46] st" using w by simp
    show ?thesis
      by (rule plain_value_copied [OF st ok]) (simp_all add: VBool value_refs_def starts_def lift_def read_byte_def read_record_def)
  qed (use w in simp)
  show ?case unfolding copies_def by (intro conjI allI impI) (rule step scalars_read; assumption)+
qed

lemma header_read: "readHeader (0xff # varint_bytes 15 @ bs) = Inr (15, bs)"
  by (simp add: readHeader_def varint.get_put)

text \<open>The ids given are those of the objects written, in this order.\<close>

lemma v8_roundtrip:
  assumes "wf_heap env h" and "wf_value h v" and w: "writeObject d h v (put_bytes (0xff # varint_bytes 15) ([], [])) = Inr st'"
  shows "distinct (snd st') \<and> value_refs v \<subseteq> set (snd st') \<and> (\<forall>a \<in> set (snd st'). object_refs (h ! a) \<subseteq> set (snd st')) \<and>
    v8_deserialize env (Suc d) (fst st') = Inr (clone_value (snd st') v, clones h (snd st') (snd st'))"
proof -
  let ?st = "put_bytes (0xff # varint_bytes 15) ([], [])"
  have ok: "ok_ids h (snd ?st)" by (simp add: ok_ids_def put_bytes_def)
  obtain u new where u: "wrote h ?st st' u new" "value_refs v \<subseteq> set (snd st')"
    and r: "\<And>objs rest. length objs = length (snd ?st) \<Longrightarrow> goes_on rest \<Longrightarrow>
      readObject env 15 (Suc d) (u @ rest, objs) = Inr (clone_value (snd st') v, rest, objs @ clones h (snd st') new)"
    by (rule copiesE [OF graph_copies [OF assms(1), of d 15] w assms(2) ok]) (rule that)
  note n = wroteD [OF u(1)]
  have ids: "snd st' = new" using n(2) by (simp add: put_bytes_def)
  have bytes: "fst st' = 0xff # varint_bytes 15 @ u @ []" using n(1) by (simp add: put_bytes_def)
  have "readObject env 15 (Suc d) (u @ [], []) = Inr (clone_value new v, [], clones h new new)"
    using r [of "[]" "[]"] unfolding ids by (simp only: goes_on_def put_bytes_def snd_conv append_Nil list.size simp_thms)
  then have "v8_deserialize env (Suc d) (fst st') = Inr (clone_value new v, clones h new new)"
    unfolding v8_deserialize_def bytes header_read by (simp only: bindE_Inr prod.case snd_conv)
  then show ?thesis using n(3,4) u(2) unfolding ids ok_ids_def by blast
qed

end
