(* ===== verification/V8Total.thy ===== *)
theory V8Total
  imports V8Clone
begin

text \<open>
  \<open>serialize\<close> ends for every graph of objects, also a cyclic one, and fails exactly when something that cannot be cloned is
  reached; otherwise \<open>deserialize\<close> gives the copy of what is reached. Then the properties of the format.
\<close>

subsection \<open>The writer ends\<close>

text \<open>A result that is an end: a state with \<open>P\<close>, or the error for what cannot be cloned, where there is such a value.\<close>

definition settled :: "(wstate \<Rightarrow> bool) \<Rightarrow> bool \<Rightarrow> v8_error + wstate \<Rightarrow> bool" where
  "settled P opaque r \<longleftrightarrow> (case r of Inl e \<Rightarrow> e = DataCloneError \<and> opaque | Inr st \<Rightarrow> P st)"

lemma settled_simps [simp]: "settled P opaque (Inr st) \<longleftrightarrow> P st" "settled P opaque (Inl e) \<longleftrightarrow> e = DataCloneError \<and> opaque"
  by (simp_all add: settled_def)

lemma settled_bind: "settled P opaque r \<Longrightarrow> (\<And>st. P st \<Longrightarrow> settled Q opaque (f st)) \<Longrightarrow> settled Q opaque (bindE r f)"
  by (cases r) (simp_all add: bindE_def)

lemma settled_mono: "settled P opaque r \<Longrightarrow> (\<And>st. P st \<Longrightarrow> Q st) \<Longrightarrow> settled Q opaque r"
  by (cases r) simp_all

lemma settled_list: "(\<And>x st. x \<in> set xs \<Longrightarrow> P st \<Longrightarrow> settled P opaque (f x st)) \<Longrightarrow> P st \<Longrightarrow> settled P opaque (write_list f xs st)"
proof (induction xs arbitrary: st)
  case (Cons x xs)
  have "settled P opaque (f x st)" using Cons.prems by simp
  moreover have "settled P opaque (write_list f xs st)" if "P st" for st using Cons.IH [OF _ that] Cons.prems(1) by simp
  ultimately show ?case by (simp add: settled_bind)
qed simp

definition object_values :: "jobject \<Rightarrow> jvalue set" where
  "object_values obj =
     (case obj of
        PlainObject ps \<Rightarrow> snd ` set ps
      | ArrayObject len ps \<Rightarrow> snd ` set ps
      | MapObject es \<Rightarrow> fst ` set es \<union> snd ` set es
      | SetObject xs \<Rightarrow> set xs
      | ErrorObject name message stack cause \<Rightarrow> set_option cause
      | _ \<Rightarrow> {})"

lemma wf_object_values: "wf_object env h obj \<Longrightarrow> v \<in> object_values obj \<Longrightarrow> wf_value h v"
  by (cases obj) (auto simp: wf_object_def object_values_def list_all_iff split: option.splits)

lemma settled_property:
  assumes "settled P opaque (wr v (put_bytes (key_bytes (length (fst st)) k) st))"
  shows "settled P opaque (write_property wr (k, v) st)"
  using assms by (simp add: write_property_key)

lemma settled_array:
  assumes wr: "\<And>v st. good v \<Longrightarrow> P st \<Longrightarrow> settled P opaque (wr v st)" and put_bytes: "\<And>w st. P st \<Longrightarrow> P (put_bytes w st)"
    and vals: "\<forall>v \<in> object_values (ArrayObject len ps). good v" and undef: "good VUndefined" and st: "P st"
  shows "settled P opaque (writeArray wr len ps st)"
proof -
  have props: "settled P opaque (write_list (write_property wr) qs s)" if "set qs \<subseteq> set ps" "P s" for qs s
  proof (rule settled_list [where P = P])
    show "P s" by (rule that(2))
    fix p s
    assume "p \<in> set qs" and s: "P s"
    then have "good (snd p)" using vals that(1) by (auto simp: object_values_def)
    then show "settled P opaque (write_property wr p s)" using s by (cases p) (auto intro!: settled_property wr put_bytes)
  qed
  have items: "settled P opaque (write_list (write_item wr doubles) (map (\<lambda>i. case map_of ps (to_base 10 i) of Some v \<Rightarrow> v | None \<Rightarrow> VUndefined) xs) s)"
    if "P s" for doubles s and xs :: "nat list"
  proof (rule settled_list [where P = P])
    show "P s" by (rule that)
    fix x s
    assume "x \<in> set (map (\<lambda>i. case map_of ps (to_base 10 i) of Some v \<Rightarrow> v | None \<Rightarrow> VUndefined) xs)" and s: "P s"
    moreover have "good v" if "map_of ps k = Some v" for k v
      using vals map_of_SomeD [OF that] by (force simp: object_values_def)
    ultimately have "good x" using undef by (auto split: option.splits)
    then show "settled P opaque (write_item wr doubles x s)" using wr put_bytes s by (cases x) (simp_all add: write_item_def)
  qed
  show ?thesis
    unfolding writeArray_def Let_def
    by (auto intro!: settled_bind [OF props] settled_bind [OF items] put_bytes st)
qed

lemma settled_error:
  assumes wr: "\<And>v st. good v \<Longrightarrow> P st \<Longrightarrow> settled P opaque (wr v st)" and put_bytes: "\<And>w st. P st \<Longrightarrow> P (put_bytes w st)"
    and vals: "\<forall>v \<in> set_option cause. good v" and st: "P st"
  shows "settled P opaque (writeError wr name message stack cause st)"
proof -
  define s where "s = (let st = put_bytes [0x72] st;
          st = (case name of None \<Rightarrow> st | Some n \<Rightarrow> (case map_of ERROR_TAGS n of None \<Rightarrow> st | Some t \<Rightarrow> put_bytes [t] st));
          st = (case message of None \<Rightarrow> st | Some m \<Rightarrow> write_string m (put_bytes [0x6d] st))
      in case stack of None \<Rightarrow> st | Some s \<Rightarrow> write_string s (put_bytes [0x73] st))"
  have "P s" unfolding s_def by (auto simp: Let_def write_string_def split: option.split intro!: put_bytes st)
  then have "settled P opaque (case cause of None \<Rightarrow> Inr s | Some v \<Rightarrow> wr v (put_bytes [0x63] s))"
    using vals by (cases cause) (simp_all add: wr put_bytes)
  then have "settled P opaque (bindE (case cause of None \<Rightarrow> Inr s | Some v \<Rightarrow> wr v (put_bytes [0x63] s)) (\<lambda>st. Inr (put_bytes [0x2e] st)))"
    by (rule settled_bind) (simp add: put_bytes)
  then show ?thesis by (simp only: writeError_def s_def Let_def)
qed

lemma settled_object:
  assumes wr: "\<And>v st. good v \<Longrightarrow> P st \<Longrightarrow> settled P opaque (wr v st)" and put_bytes: "\<And>w st. P st \<Longrightarrow> P (put_bytes w st)"
    and vals: "\<forall>v \<in> object_values obj. good v" and undef: "good VUndefined" and opq: "obj = OpaqueObject \<Longrightarrow> opaque" and st: "P st"
  shows "settled P opaque (write_object wr h obj st)"
proof (cases obj)
  case (PlainObject ps)
  have "settled P opaque (write_list (write_property wr) ps (put_bytes [0x6f] st))"
    using vals by (intro settled_list put_bytes st) (auto simp: PlainObject object_values_def intro!: settled_property wr put_bytes)
  then show ?thesis unfolding PlainObject write_object_def jobject.case writeObjectBody_def by (rule settled_bind) (simp add: put_bytes)
next
  case (ArrayObject len ps)
  then show ?thesis using settled_array [where good = good, OF wr put_bytes _ undef st] vals by (simp add: write_object_def)
next
  case (MapObject es)
  have "good (fst e)" "good (snd e)" if "e \<in> set es" for e using vals that by (auto simp: MapObject object_values_def)
  then have "settled P opaque (write_list (\<lambda>(k, v) st. bindE (wr k st) (wr v)) es (put_bytes [0x3b] st))"
    by (intro settled_list put_bytes st) (auto simp: case_prod_beta intro!: settled_bind [where P = P] wr)
  then show ?thesis unfolding MapObject write_object_def jobject.case by (rule settled_bind) (simp add: put_bytes)
next
  case (SetObject xs)
  have "settled P opaque (write_list wr xs (put_bytes [0x27] st))"
    using vals by (intro settled_list put_bytes st) (auto simp: SetObject object_values_def intro!: wr)
  then show ?thesis unfolding SetObject write_object_def jobject.case by (rule settled_bind) (simp add: put_bytes)
next
  case (ErrorObject name message stack cause)
  then show ?thesis using settled_error [where good = good, OF wr put_bytes _ st] vals by (simp add: write_object_def object_values_def)
qed (use opq in \<open>simp_all add: write_object_def write_string_def writeRegExp_def writeArrayBuffer_def writeHostObject_def put_bytes st\<close>)

text \<open>What is reached from a value through the objects, and what can be cloned: no function or symbol, and no object like a promise.\<close>

inductive reaches :: "objects \<Rightarrow> jvalue \<Rightarrow> jvalue \<Rightarrow> bool" for h w where
  itself: "reaches h w w"
| inside: "reaches h w (VRef a) \<Longrightarrow> v \<in> object_values (h ! a) \<Longrightarrow> reaches h w v"

definition clonable :: "objects \<Rightarrow> jvalue \<Rightarrow> bool" where
  "clonable h w \<longleftrightarrow> (\<forall>v. reaches h w v \<longrightarrow> v \<noteq> VOpaque \<and> (\<forall>a. v = VRef a \<longrightarrow> h ! a \<noteq> OpaqueObject))"

text \<open>The ids so far: of objects that are reached, and at least \<open>n\<close>.\<close>

definition ids_from :: "objects \<Rightarrow> jvalue \<Rightarrow> nat \<Rightarrow> wstate \<Rightarrow> bool" where
  "ids_from h w n st \<longleftrightarrow> ok_ids h (snd st) \<and> n \<le> length (snd st) \<and> (\<forall>a \<in> set (snd st). reaches h w (VRef a))"

lemma writeObject_settles:
  assumes wf: "wf_heap env h"
  shows "length h < d + n \<Longrightarrow> wf_value h v \<Longrightarrow> (v \<noteq> VUndefined \<longrightarrow> reaches h w v) \<Longrightarrow> ids_from h w n st \<Longrightarrow>
    settled (ids_from h w n) (\<not> clonable h w) (writeObject d h v st)"
proof (induction d arbitrary: n v st)
  case 0
  then show ?case using ok_ids_length [of h "snd st"] by (simp add: ids_from_def)
next
  case (Suc d)
  show ?case
  proof (cases "\<exists>a. v = VRef a \<and> a \<notin> set (snd st)")
    case True
    then obtain a where a: "v = VRef a" "a \<notin> set (snd st)" "a < length h" using Suc.prems(2) by (auto simp: wf_value_def)
    then have reached: "reaches h w (VRef a)" using Suc.prems(3) by simp
    let ?good = "\<lambda>v. wf_value h v \<and> (v \<noteq> VUndefined \<longrightarrow> reaches h w v)"
    have obj: "h ! a \<in> set h" "wf_object env h (h ! a)" using a(3) wf by (simp_all add: wf_heap_def list_all_length)
    have "settled (ids_from h w (Suc n)) (\<not> clonable h w) (write_object (writeObject d h) h (h ! a) (fst st, snd st @ [a]))"
    proof (rule settled_object [where good = ?good])
      show "settled (ids_from h w (Suc n)) (\<not> clonable h w) (writeObject d h v st)" if "?good v" "ids_from h w (Suc n) st" for v st
        using Suc.IH [of "Suc n" v st] Suc.prems(1) that by simp
      show "\<forall>v \<in> object_values (h ! a). ?good v" using wf_object_values [OF obj(2)] reached by (auto intro: reaches.inside)
      show "\<not> clonable h w" if "h ! a = OpaqueObject" using that reached by (auto simp: clonable_def)
      show "ids_from h w (Suc n) (fst st, snd st @ [a])" using Suc.prems(4) a reached by (simp add: ids_from_def ok_ids_def)
    qed (simp_all add: put_bytes_def wf_value_def ids_from_def)
    then show ?thesis using a by (auto simp: ids_from_def elim: settled_mono)
  next
    case False
    then show ?thesis using Suc.prems by (cases v) (auto simp: put_bytes_def write_string_def ids_from_def clonable_def)
  qed
qed

subsection \<open>What is wrote can be cloned\<close>

text \<open>A step that gives ids to objects that can be cloned only.\<close>

definition fine :: "jobject \<Rightarrow> bool" where
  "fine obj \<longleftrightarrow> obj \<noteq> OpaqueObject \<and> VOpaque \<notin> object_values obj"

definition cleared :: "objects \<Rightarrow> wstate \<Rightarrow> wstate \<Rightarrow> bool" where
  "cleared h st st' \<longleftrightarrow> (\<exists>new. snd st' = snd st @ new \<and> (\<forall>a \<in> set new. fine (h ! a)))"

lemma cleared_emit [simp]: "cleared h st (put_bytes w st)" "cleared h (put_bytes w st) st' \<longleftrightarrow> cleared h st st'" "cleared h st (put_bytes w st') \<longleftrightarrow> cleared h st st'"
  by (simp_all add: cleared_def put_bytes_def)

lemma cleared_string [simp]: "cleared h st (write_string s st') \<longleftrightarrow> cleared h st st'" "cleared h (write_string s st) st' \<longleftrightarrow> cleared h st st'"
  by (simp_all add: write_string_def)

lemma cleared_refl [simp]: "cleared h st st"
  by (simp add: cleared_def)

lemma cleared_trans: "cleared h st st1 \<Longrightarrow> cleared h st1 st2 \<Longrightarrow> cleared h st st2"
  by (fastforce simp: cleared_def)

lemma cleared_list:
  assumes "\<forall>x \<in> set xs. \<forall>st st'. f x st = Inr st' \<longrightarrow> good x \<and> cleared h st st'" and "write_list f xs st = Inr st'"
  shows "(\<forall>x \<in> set xs. good x) \<and> cleared h st st'"
  using assms
proof (induction xs arbitrary: st)
  case (Cons x xs)
  then obtain st1 where st1: "f x st = Inr st1" "write_list f xs st1 = Inr st'" by (auto simp: bindE_eq_Inr)
  have "good x \<and> cleared h st st1" using Cons.prems(1) st1(1) by (auto simp only: list.set)
  moreover have "(\<forall>x \<in> set xs. good x) \<and> cleared h st1 st'" using Cons.prems(1) by (intro Cons.IH [OF _ st1(2)]) (auto simp only: list.set)
  ultimately show ?case using cleared_trans [of h st st1 st'] by auto
qed simp

text \<open>A writer of values that gives ids to such objects only, and writes no function or symbol.\<close>

definition clears :: "objects \<Rightarrow> (jvalue \<Rightarrow> wstate \<Rightarrow> v8_error + wstate) \<Rightarrow> bool" where
  "clears h wr \<longleftrightarrow> (\<forall>v st st'. wf_value h v \<longrightarrow> wr v st = Inr st' \<longrightarrow> v \<noteq> VOpaque \<and> cleared h st st')"

lemma clearsD: "clears h wr \<Longrightarrow> wr v st = Inr st' \<Longrightarrow> wf_value h v \<Longrightarrow> v \<noteq> VOpaque \<and> cleared h st st'"
  unfolding clears_def by blast

lemma cleared_property:
  assumes "clears h wr" and "write_property wr p st = Inr st'" and "wf_value h (snd p)"
  shows "snd p \<noteq> VOpaque \<and> cleared h st st'"
  using clearsD [OF assms(1), of "snd p" "put_bytes (key_bytes (length (fst st)) (fst p)) st" st'] assms(2,3)
  by (cases p) (simp add: write_property_key)

lemma cleared_array:
  assumes wr: "clears h wr" and wf: "wf_object env h (ArrayObject len ps)" and w: "writeArray wr len ps st = Inr st'"
  shows "VOpaque \<notin> snd ` set ps \<and> cleared h st st'"
proof -
  let ?named = "filter (\<lambda>p. \<not> is_index (fst p)) ps"
  let ?items = "map (\<lambda>i. case map_of ps (to_base 10 i) of Some v \<Rightarrow> v | None \<Rightarrow> VUndefined) [0..<len]"
  have vals: "wf_value h (snd p)" if "p \<in> set ps" for p using wf that by (auto simp: wf_object_def list_all_iff)
  have item: "v \<noteq> VOpaque \<and> cleared h st st'" if "v \<in> set ?items" "write_item wr doubles v st = Inr st'" for doubles v st st'
  proof -
    have "wf_value h v" using that(1) vals map_of_SomeD [of ps] by (force simp: wf_value_def split: option.splits)
    then show ?thesis using that(2) clearsD [OF wr, of v st st'] by (cases v) (auto simp: write_item_def split: if_splits)
  qed
  show ?thesis
  proof (cases "length (filter (is_index \<circ> fst) ps) = len")
    case True
    with w obtain st1 st2 where st1: "write_list (write_item wr (as_doubles ?items)) ?items (put_bytes (0x41 # varint_bytes len) st) = Inr st1"
      and st2: "write_list (write_property wr) ?named st1 = Inr st2"
      and st': "st' = put_bytes (0x24 # varint_bytes (length ?named) @ varint_bytes len) st2"
      by (auto simp: writeArray_def Let_def bindE_eq_Inr)
    have a: "(\<forall>v \<in> set ?items. v \<noteq> VOpaque) \<and> cleared h (put_bytes (0x41 # varint_bytes len) st) st1"
      by (rule cleared_list [OF _ st1]) (use item in blast)
    have b: "(\<forall>p \<in> set ?named. snd p \<noteq> VOpaque) \<and> cleared h st1 st2"
      by (rule cleared_list [OF _ st2]) (use cleared_property [OF wr] vals in \<open>auto simp only: set_filter\<close>)
    have items: "snd p \<in> set ?items" if p: "p \<in> set ps" "is_index (fst p)" for p
    proof -
      obtain i where i: "isIndexKey (fst p) = int i" using index_key_range [of "fst p"] p(2) by (auto simp: is_index_def)
      then have "to_base 10 i = fst p" by (rule index_key_text)
      moreover have "i < len" using wf p i by (auto simp: wf_object_def list_all_iff)
      moreover have "map_of ps (fst p) = Some (snd p)" using wf p(1) by (simp add: wf_object_def wf_keys_def)
      ultimately show ?thesis by (auto intro!: image_eqI [of _ _ i])
    qed
    have "snd p \<noteq> VOpaque" if p: "p \<in> set ps" for p
    proof (cases "is_index (fst p)")
      case False
      then have "p \<in> set ?named" using p by simp
      then show ?thesis using b by blast
    qed (use items [OF p] a in blast)
    then have "VOpaque \<notin> snd ` set ps" by force
    then show ?thesis using a b st' cleared_trans [of h st st1 st2] by simp
  next
    case False
    with w obtain st1 where st1: "write_list (write_property wr) ps (put_bytes (0x61 # varint_bytes len) st) = Inr st1"
      and st': "st' = put_bytes (0x40 # varint_bytes (length ps) @ varint_bytes len) st1"
      by (auto simp: writeArray_def Let_def bindE_eq_Inr)
    have "(\<forall>p \<in> set ps. snd p \<noteq> VOpaque) \<and> cleared h (put_bytes (0x61 # varint_bytes len) st) st1"
      by (rule cleared_list [OF _ st1]) (use cleared_property [OF wr] vals in blast)
    then show ?thesis using st' by auto
  qed
qed

lemma cleared_error:
  assumes wr: "clears h wr" and wf: "wf_object env h (ErrorObject name message stack cause)"
    and w: "writeError wr name message stack cause st = Inr st'"
  shows "cause \<noteq> Some VOpaque \<and> cleared h st st'"
proof -
  define s where "s = (let st = put_bytes [0x72] st;
          st = (case name of None \<Rightarrow> st | Some n \<Rightarrow> (case map_of ERROR_TAGS n of None \<Rightarrow> st | Some t \<Rightarrow> put_bytes [t] st));
          st = (case message of None \<Rightarrow> st | Some m \<Rightarrow> write_string m (put_bytes [0x6d] st))
      in case stack of None \<Rightarrow> st | Some s \<Rightarrow> write_string s (put_bytes [0x73] st))"
  have s: "cleared h st s" by (auto simp: s_def Let_def split: option.split)
  have "bindE (case cause of None \<Rightarrow> Inr s | Some v \<Rightarrow> wr v (put_bytes [0x63] s)) (\<lambda>st. Inr (put_bytes [0x2e] st)) = Inr st'"
    using w by (simp only: writeError_def s_def Let_def)
  then obtain st1 where st1: "(case cause of None \<Rightarrow> Inr s | Some v \<Rightarrow> wr v (put_bytes [0x63] s)) = Inr st1" "st' = put_bytes [0x2e] st1"
    by (auto simp: bindE_eq_Inr)
  have "cause \<noteq> Some VOpaque \<and> cleared h s st1"
  proof (cases cause)
    case (Some v)
    then have "wf_value h v" using wf by (simp add: wf_object_def)
    with clearsD [OF wr, of v "put_bytes [0x63] s" st1] st1(1) Some show ?thesis by simp
  qed (use st1(1) in simp)
  then show ?thesis using s st1(2) by (auto intro: cleared_trans)
qed

lemma cleared_object:
  assumes wr: "clears h wr" and wf: "wf_object env h obj" and w: "write_object wr h obj st = Inr st'"
  shows "fine obj \<and> cleared h st st'"
proof (cases obj)
  case (PlainObject ps)
  then have vals: "\<forall>p \<in> set ps. wf_value h (snd p)" using wf by (auto simp: wf_object_def list_all_iff)
  from PlainObject w obtain st1 where st1: "write_list (write_property wr) ps (put_bytes [0x6f] st) = Inr st1" "st' = put_bytes (0x7b # varint_bytes (length ps)) st1"
    by (auto simp: write_object_def writeObjectBody_def bindE_eq_Inr)
  have "(\<forall>p \<in> set ps. snd p \<noteq> VOpaque) \<and> cleared h (put_bytes [0x6f] st) st1"
    by (rule cleared_list [OF _ st1(1)]) (use cleared_property [OF wr] vals in \<open>auto simp only: PlainObject\<close>)
  then show ?thesis using st1(2) by (auto simp: PlainObject fine_def object_values_def)
next
  case (ArrayObject len ps)
  then show ?thesis using cleared_array [OF wr] wf w by (simp add: write_object_def fine_def object_values_def)
next
  case (MapObject es)
  with w obtain st1 where st1: "write_list (\<lambda>(k, v) st. bindE (wr k st) (wr v)) es (put_bytes [0x3b] st) = Inr st1"
    "st' = put_bytes (0x3a # varint_bytes (length es * 2)) st1"
    by (auto simp: write_object_def bindE_eq_Inr)
  have "(fst e \<noteq> VOpaque \<and> snd e \<noteq> VOpaque) \<and> cleared h st st'"
    if e: "e \<in> set es" "(case e of (k, v) \<Rightarrow> \<lambda>st. bindE (wr k st) (wr v)) st = Inr st'" for e st st'
  proof -
    obtain s where s: "wr (fst e) st = Inr s" "wr (snd e) s = Inr st'" using e(2) by (auto simp: case_prod_beta bindE_eq_Inr)
    have "wf_value h (fst e)" "wf_value h (snd e)" using wf e(1) by (auto simp: MapObject wf_object_def list_all_iff)
    then show ?thesis using clearsD [OF wr s(1)] clearsD [OF wr s(2)] cleared_trans by blast
  qed
  then have "(\<forall>e \<in> set es. fst e \<noteq> VOpaque \<and> snd e \<noteq> VOpaque) \<and> cleared h (put_bytes [0x3b] st) st1"
    by (intro cleared_list [OF _ st1(1)]) blast
  then show ?thesis using st1(2) by (auto simp: MapObject fine_def object_values_def)
next
  case (SetObject xs)
  then have vals: "\<forall>x \<in> set xs. wf_value h x" using wf by (auto simp: wf_object_def list_all_iff)
  from SetObject w obtain st1 where st1: "write_list wr xs (put_bytes [0x27] st) = Inr st1" "st' = put_bytes (0x2c # varint_bytes (length xs)) st1"
    by (auto simp: write_object_def bindE_eq_Inr)
  have "(\<forall>x \<in> set xs. x \<noteq> VOpaque) \<and> cleared h (put_bytes [0x27] st) st1"
    by (rule cleared_list [OF _ st1(1)]) (use clearsD [OF wr] vals in blast)
  then show ?thesis using st1(2) by (auto simp: SetObject fine_def object_values_def)
next
  case (ErrorObject name message stack cause)
  with w have "writeError wr name message stack cause st = Inr st'" by (simp add: write_object_def)
  from cleared_error [OF wr wf [unfolded ErrorObject] this] show ?thesis by (auto simp: ErrorObject fine_def object_values_def)
qed (use w in \<open>auto simp: write_object_def fine_def object_values_def writeRegExp_def writeArrayBuffer_def writeHostObject_def\<close>)

lemma writeObject_clears:
  assumes wf: "wf_heap env h"
  shows "clears h (writeObject d h)"
proof (induction d)
  case (Suc d)
  have "v \<noteq> VOpaque \<and> cleared h st st'" if v: "wf_value h v" and w: "writeObject (Suc d) h v st = Inr st'" for v st st'
  proof (cases "\<exists>a. v = VRef a \<and> a \<notin> set (snd st)")
    case True
    then obtain a where a: "v = VRef a" "a \<notin> set (snd st)" "a < length h" using v by (auto simp: wf_value_def)
    then have "wf_object env h (h ! a)" using wf by (simp add: wf_heap_def list_all_length)
    moreover have "write_object (writeObject d h) h (h ! a) (fst st, snd st @ [a]) = Inr st'" using w a by simp
    ultimately have "fine (h ! a) \<and> cleared h (fst st, snd st @ [a]) st'" by (intro cleared_object [OF Suc])
    then show ?thesis using a(1) by (auto simp: cleared_def)
  next
    case False
    then show ?thesis using w by (cases v) auto
  qed
  then show ?case unfolding clears_def by blast
qed (simp add: clears_def)

subsection \<open>Properties\<close>

lemma written_clonable:
  assumes wf: "wf_heap env h" and w: "wf_value h v" "writeObject d h v st = Inr st'"
    and st: "snd st = []" and refs: "value_refs v \<subseteq> set (snd st')" "\<forall>a \<in> set (snd st'). object_refs (h ! a) \<subseteq> set (snd st')"
  shows "reaches h v u \<Longrightarrow> u \<noteq> VOpaque \<and> value_refs u \<subseteq> set (snd st')" and "clonable h v"
proof -
  have c: "v \<noteq> VOpaque" "\<forall>a \<in> set (snd st'). fine (h ! a)"
    using clearsD [OF writeObject_clears [OF wf] w(2,1)] st by (auto simp: cleared_def)
  have sub: "value_refs u \<subseteq> object_refs obj" if "u \<in> object_values obj" for u obj
    using that by (cases obj) (auto simp: object_values_def object_refs_def split: option.splits)
  show reach: "u \<noteq> VOpaque \<and> value_refs u \<subseteq> set (snd st')" if "reaches h v u" for u
    using that
  proof induction
    case (inside a u)
    then have "a \<in> set (snd st')" by (simp add: value_refs_def)
    with inside.hyps(2) c(2) refs(2) sub [of u "h ! a"] show ?case by (auto simp: fine_def)
  qed (use c(1) refs(1) in simp)
  show "clonable h v" using reach c(2) by (fastforce simp: clonable_def fine_def value_refs_def)
qed


text \<open>An object with an array that holds the object, under two names.\<close>

definition demo_engine :: v8_engine where
  "demo_engine = \<lparr>regexp_valid = \<lambda>p flags. True, regexp_source = \<lambda>p. p, number_text = \<lambda>x. [], has_float16 = False\<rparr>"

definition demo_graph :: objects where
  "demo_graph = [PlainObject [(js ''a'', VRef 1), (js ''b'', VRef 1)], ArrayObject 1 [(js ''0'', VRef 0)]]"

definition demo_bytes :: "byte list" where
  "demo_bytes = [0xff, 15, 0x6f, 0x22, 1, 0x61, 0x41, 1, 0x5e, 0, 0x24, 0, 1, 0x22, 1, 0x62, 0x5e, 1, 0x7b, 2]"

lemma demo_serialized: "v8_serialize 3 demo_graph (VRef 0) = Inr demo_bytes"
proof -
  have small: "varint_bytes n = [word_of_nat n]" if "n < 128" for n using that by (simp add: varint_bytes.simps [of n])
  have digit: "to_base 10 0 = js ''0''" by (simp add: to_base.simps [of 10 0] digit_char_def js_def)
  have keys: "isIndexKey (js ''a'') = - 1" "isIndexKey (js ''b'') = - 1" "isIndexKey (js ''0'') = 0"
    by (simp_all add: isIndexKey_def decimal_digit_def js_def of_base_def digit_val_def Let_def)
  have strings: "string_bytes n (js ''a'') = [0x22, 1, 0x61]" "string_bytes n (js ''b'') = [0x22, 1, 0x62]" for n
    by (simp_all add: string_bytes_def js_def small low_byte_def)
  have array: "write_object (writeObject 1 demo_graph) demo_graph (ArrayObject 1 [(js ''0'', VRef 0)]) (p, [0, 1]) =
      Inr (p @ [0x41, 1, 0x5e, 0, 0x24, 0, 1], [0, 1])" for p
    by (simp add: write_object_def writeArray_def is_index_def keys digit as_doubles_def write_item_def put_bytes_def small object_id_def Let_def)
  have "writeObject 2 demo_graph (VRef 1) (p, [0]) = Inr (p @ [0x41, 1, 0x5e, 0, 0x24, 0, 1], [0, 1])" for p
    using array by (simp add: numeral_2_eq_2) (simp add: demo_graph_def)
  moreover have "writeObject 2 demo_graph (VRef 1) (p, [0, 1]) = Inr (p @ [0x5e, 1], [0, 1])" for p
    by (simp add: numeral_2_eq_2 put_bytes_def object_id_def small)
  ultimately have "write_object (writeObject 2 demo_graph) demo_graph (PlainObject [(js ''a'', VRef 1), (js ''b'', VRef 1)]) ([0xff, 15], [0]) =
      Inr (demo_bytes, [0, 1])"
    by (simp add: write_object_def writeObjectBody_def write_property_def keys write_string_def strings put_bytes_def small demo_bytes_def)
  moreover have "demo_graph ! 0 = PlainObject [(js ''a'', VRef 1), (js ''b'', VRef 1)]" by (simp add: demo_graph_def)
  ultimately have "writeObject (Suc 2) demo_graph (VRef 0) ([0xff, 15], []) = Inr (demo_bytes, [0, 1])" by (subst writeObject.simps) simp
  then show ?thesis by (simp add: v8_serialize_def put_bytes_def small)
qed

lemma demo_wf: "wf_heap demo_engine demo_graph"
  by (simp add: wf_heap_def wf_object_def wf_keys_def wf_value_def demo_graph_def demo_engine_def key_before_def is_index_def isIndexKey_def
      decimal_digit_def wf_string_def js_def of_base_def digit_val_def Let_def)


end
