(* ===== verification/Spec2Isabelle.thy ===== *)
theory Spec2Isabelle
  imports Http2Exchange DnsFiles KeccakSponge Blake2 BufferInt KvQueue KvList WebSocket Ocb V8Total
begin

text \<open>
  A verification library for the JavaScript runtime of ForgeGraal, the files of \<open>src/quickjs/runtime\<close> that carry protocols,
  formats and algorithms of their own. File names below are relative to that directory.

  \<^bold>\<open>Conventions\<close> (\<open>Prelude\<close>, \<open>TextNum\<close>). A \<open>Uint8Array\<close> is a list of 8-bit words, a string the list of its UTF-16 code
  units; a function that throws returns \<open>Inl\<close> of the error. Objects with identity that are shared (the streams of an HTTP/2
  session) live in a heap of the state. Asynchronous code is a state machine: each callback or timer is an operation, and
  theorems hold for every order of operations. The environment (the native layer, the operating system, Unicode case
  mapping, random bytes) is an argument of the definitions; what is asked of it is a hypothesis of its own, \<open>ecb\<close> for the
  block cipher.

  \<^bold>\<open>HTTP/2\<close> (\<open>node-http2.js\<close>, \<open>node-http2-data.js\<close>). \<open>Http2Data\<close> holds constants and tables, \<open>HuffmanCode\<close> and \<open>Huffman\<close>
  the Huffman code and its decoder with the prefix tree, \<open>Hpack\<close> the tables, decoder and encoder, \<open>Http2Headers\<close> header
  lists and objects, \<open>Http2Session\<close> the state of a session and its streams, output and closing, \<open>Http2Frames\<close> the handlers
  of the frames, \<open>Http2Wire\<close> and \<open>Http2Segments\<close> the parser of the byte stream, \<open>Http2Flow\<close> sending and flow control, \<open>Http2Pump\<close> the pump as a whole, and
  \<open>Http2Exchange\<close> requests, responses and pushes as programs make them. The lemmas: decoders undo encoders at every level up
  to whole requests and responses, the parser does not depend on how bytes arrive, the tables and windows keep their
  accounts. The theorems on header lists ask for ASCII text and for lists within the receiver's limits, which is where the
  code keeps its promise: beyond them \<open>hpack_too_large_desync\<close> is what happens.

  \<^bold>\<open>DNS\<close> (\<open>node-dns.js\<close>). \<open>DnsAddress\<close>, \<open>DnsWire\<close>, \<open>DnsAnswer\<close>: addresses, names, messages and answers as values and as
  bytes. \<open>DnsResolver\<close>: the channel, its queries, attempts, timers and sockets, with the invariants of all histories.
  \<open>DnsFiles\<close>: the configuration files of the systems.

  \<^bold>\<open>Hashes\<close> (\<open>node-keccak.js\<close>, \<open>node-blake2.js\<close>). \<open>Lanes\<close> relates pairs of 32-bit numbers to 64-bit lanes; \<open>Keccak\<close> and
  \<open>Blake2Compress\<close> show the unrolled functions to be the ones of the standards, whose tables and schedules are stated a second
  time there, \<open>KeccakSponge\<close> and \<open>Blake2\<close> the constructions
  over them (sponge, cSHAKE, KMAC, HMAC, PBKDF2, HKDF) for a permutation or compression that is an argument.

  \<^bold>\<open>AES-OCB\<close> (\<open>node-ocb.js\<close>). \<open>Ocb\<close>: the class is the algorithm of RFC 7253, in pieces of any size, and decryption undoes
  encryption.

  \<^bold>\<open>Text\<close> (\<open>node-compat.js\<close>, lines 411 to 544, and the text streams of \<open>node-extras.js\<close>). \<open>Utf8\<close>: the encoder, the streaming
  decoder and the two transform streams over them, with the decoder of the Encoding standard beside it.

  \<^bold>\<open>Buffer\<close> (\<open>node-buffer.js\<close>, and \<open>StringDecoder\<close> of \<open>node-compat.js\<close>). \<open>BufferText\<close>: the encodings, which bytes survive
  them, and texts that arrive in chunks. \<open>BufferMemory\<close>: buffers as views of array buffers they share, with searching, copying,
  writing, filling, concatenating. \<open>BufferInt\<close>: the integers in them.

  \<^bold>\<open>Deno KV\<close> (\<open>deno-kv.js\<close>). \<open>KvKey\<close>: keys as bytes, in the order of the keys. \<open>KvStore\<close>: the tables and their SQL
  statements, atomic operations and the commit, a refinement of transactions on a map. \<open>KvQueue\<close>: queues and the
  histories of a database, with the soundness of optimistic checks. \<open>KvList\<close>: listing by pages.

  \<^bold>\<open>WebSocket\<close> (\<open>node-websocket.js\<close>). \<open>WebSocket\<close>: frames and the endpoint, from the messages one side sends (a blob is
  written when its bytes have been read, so later ones may overtake it) to the events of the other, and how a connection ends.

  \<^bold>\<open>Structured serialization\<close> (\<open>node-v8.js\<close>). \<open>V8Format\<close>: numbers, strings and keys on the wire. \<open>V8Write\<close> and \<open>V8Read\<close>:
  \<open>serialize\<close> and \<open>deserialize\<close> over a heap of objects that refer to one another. \<open>V8Copy\<close>, \<open>V8Objects\<close>, \<open>V8Collections\<close> and
  \<open>V8Clone\<close> show, kind by kind, that what is written is read as its copy; \<open>V8Total\<close> that this holds for every graph, and
  what fails.

  \<^bold>\<open>Interfaces.\<close> Laws that several operations share are locales, interpreted on the definitions of the model: \<open>framed\<close>,
  \<open>closing_steps\<close> (relations that closing respects), \<open>self_delimiting\<close>, \<open>keccak_permutation\<close>, \<open>block_compression\<close>,
  \<open>blockwise\<close> (encodings of blocks of bytes, cut into chunks), \<open>int_field\<close> (integers written and read),
  \<open>versioned\<close> (stores whose entries carry a version), \<open>paged\<close> (sources read page by page).

  \<^bold>\<open>Bounds and fuel.\<close> Loops over input recurse on what is left of it; a loop that may not end returns None (\<open>readEscaped\<close>,
  \<open>decodeKey\<close>). The depth of calls that the engine's stack allows is an argument of \<open>v8_serialize\<close> and \<open>v8_deserialize\<close>: one more
  than the number of objects is enough. The send loops of a session take fuel computed from the queued data (\<open>chunk_fuel\<close>, \<open>pump_fuel\<close>), shown to be
  enough in \<open>Http2Pump\<close>. Numbers are natural numbers or integers where the code stays below 2 ^ 53 and words where it wraps;
  a hypothesis names the bound where a theorem needs one.

  \<^bold>\<open>Not modelled.\<close> Vendored and generated files (\<open>web-streams.js\<close>, \<open>whatwg-url.js\<close>, \<open>url-pattern.js\<close>, the Intl and Unicode data),
  glue over the native layer and the operating system (files, processes, sockets, modules, the Node and Deno globals), the
  developer tools (inspection, assertions, test runner, REPL), the native C code and the TypeScript packager. Within the
  modelled files: the compatibility API and set-up of HTTP/2 and its responses from files, the Resolver classes of DNS, the JSON form of values
  of Deno KV, the floats of \<open>Buffer\<close>, and the request of the WebSocket client. Candidates for later are
  \<open>node-asn1.js\<close>, \<open>node-argon2.js\<close> and \<open>node-pqc.js\<close>.
\<close>

end
